(* ===== verification/Prelude.thy ===== *)
theory Prelude
  imports Main "HOL-Library.Word" "HOL-Library.Signed_Division" "HOL-Library.Multiset"
begin

text \<open>
  Shared vocabulary of the development: the machine integers of the platform the network
  simulator is built for (x86-64, gcc: signed 8-bit \<open>char\<close>, 32-bit \<open>int\<close> and
  \<open>unsigned\<close>, 64-bit \<open>unsigned long\<close>), the faults a C++ run can end in, checked reads
  and writes of arrays and vectors, and the two shapes of \<open>for\<close> loop the sources use.
\<close>

section \<open>Machine integers\<close>

type_synonym u8 = "8 word"
type_synonym u32 = "32 word"
type_synonym u64 = "64 word"

text \<open>Signed types have the same carrier; they are read with \<open>sint\<close>.\<close>

type_synonym schar = "8 word"
type_synonym i32 = "32 word"

section \<open>Faults and results\<close>

text \<open>
  A run of the C++ code either returns a value or ends in a fault: a read or write outside
  an array (undefined behaviour, or \<open>std::out_of_range\<close> from \<open>vector::at\<close>), a division by
  zero, a failed \<open>assert\<close> (the project is built with \<open>CMAKE_BUILD_TYPE DEBUG\<close>), the use of a
  null or freed pointer, or a call of \<open>SC_REPORT_ERROR\<close>, which throws.
\<close>

datatype fault =
    Out_of_range
  | Div_by_zero
  | Assert_failed
  | Null_pointer
  | Dangling_pointer
  | Sc_report_error

type_synonym 'a result = "fault + 'a"

named_theorems result_simps \<open>evaluation rules of results, checked accesses and loops\<close>

definition bind_result :: "'a result \<Rightarrow> ('a \<Rightarrow> 'b result) \<Rightarrow> 'b result" where
  "bind_result m f = (case m of Inl e \<Rightarrow> Inl e | Inr a \<Rightarrow> f a)"

lemma bind_result_Inl [simp, result_simps]: "bind_result (Inl e) f = Inl e"
  by (simp add: bind_result_def)

lemma bind_result_Inr [simp, result_simps]: "bind_result (Inr a) f = f a"
  by (simp add: bind_result_def)

lemma bind_result_eq_Inr:
  "bind_result m f = Inr b \<longleftrightarrow> (\<exists>a. m = Inr a \<and> f a = Inr b)"
  by (cases m) auto

section \<open>Checked array accesses\<close>

definition vec_at :: "'a list \<Rightarrow> nat \<Rightarrow> 'a result" where
  "vec_at xs i = (if i < length xs then Inr (xs ! i) else Inl Out_of_range)"

definition vec_set :: "'a list \<Rightarrow> nat \<Rightarrow> 'a \<Rightarrow> 'a list result" where
  "vec_set xs i x = (if i < length xs then Inr (xs[i := x]) else Inl Out_of_range)"

lemma vec_at_Inr [simp, result_simps]: "i < length xs \<Longrightarrow> vec_at xs i = Inr (xs ! i)"
  by (simp add: vec_at_def)

lemma vec_set_Inr [simp, result_simps]: "i < length xs \<Longrightarrow> vec_set xs i x = Inr (xs[i := x])"
  by (simp add: vec_set_def)

lemma vec_at_out [simp, result_simps]: "length xs \<le> i \<Longrightarrow> vec_at xs i = Inl Out_of_range"
  by (simp add: vec_at_def)

lemma vec_set_out [simp, result_simps]: "length xs \<le> i \<Longrightarrow> vec_set xs i x = Inl Out_of_range"
  by (simp add: vec_set_def)

section \<open>Loops\<close>

text \<open>
  \<open>for_each body is s\<close> runs the body once per index and threads the state;
  \<open>for_loop\<close> is the loop whose body may also \<open>return\<close> from the enclosing function.
\<close>

fun for_each :: "('i \<Rightarrow> 's \<Rightarrow> 's result) \<Rightarrow> 'i list \<Rightarrow> 's \<Rightarrow> 's result" where
  "for_each body [] s = Inr s"
| "for_each body (i # is) s = bind_result (body i s) (for_each body is)"

datatype ('r, 's) flow = Return 'r | Continue 's

fun for_loop :: "('i \<Rightarrow> 's \<Rightarrow> ('r, 's) flow result) \<Rightarrow> 'i list \<Rightarrow> 's \<Rightarrow> ('r, 's) flow result" where
  "for_loop body [] s = Inr (Continue s)"
| "for_loop body (i # is) s =
     bind_result (body i s)
       (\<lambda>fl. case fl of Return r \<Rightarrow> Inr (Return r) | Continue s' \<Rightarrow> for_loop body is s')"

declare for_each.simps [result_simps] and for_loop.simps [result_simps]

lemma for_each_append:
  "for_each body (is @ js) s = bind_result (for_each body is s) (for_each body js)"
proof (induction "is" arbitrary: s)
  case Nil
  then show ?case by simp
next
  case (Cons i "is")
  then show ?case by (cases "body i s") auto
qed

text \<open>A loop whose body never faults and does not use its state returns at the first hit.\<close>

lemma for_loop_find:
  assumes "\<And>i. i \<in> set is \<Longrightarrow> body i () = Inr (if P i then Return (g i) else Continue ())"
  shows "for_loop body is () =
    Inr (case find P is of Some i \<Rightarrow> Return (g i) | None \<Rightarrow> Continue ())"
  using assms by (induction "is") auto

lemma for_each_pure:
  assumes "\<And>i s. i \<in> set is \<Longrightarrow> body i s = Inr (f i s)"
  shows "for_each body is s = Inr (fold f is s)"
  using assms by (induction "is" arbitrary: s) auto

section \<open>Lists\<close>

text \<open>Removal of the first element that satisfies a predicate.\<close>

fun del_first :: "('a \<Rightarrow> bool) \<Rightarrow> 'a list \<Rightarrow> 'a list" where
  "del_first P [] = []"
| "del_first P (x # xs) = (if P x then xs else x # del_first P xs)"

lemma del_first_none [simp]: "\<not> (\<exists>x\<in>set xs. P x) \<Longrightarrow> del_first P xs = xs"
  by (induction xs) auto

lemma length_del_first:
  "length (del_first P xs) = (if \<exists>x\<in>set xs. P x then length xs - 1 else length xs)"
  by (induction xs) (auto simp: Suc_diff_1 dest: in_set_conv_nth [THEN iffD1] intro!: length_pos_if_in_set)

lemma del_first_append:
  "del_first P (xs @ ys) =
     (if \<exists>x\<in>set xs. P x then del_first P xs @ ys else xs @ del_first P ys)"
  by (induction xs) auto

lemma del_first_eq_remove1: "del_first (\<lambda>y. y = x) xs = remove1 x xs"
  by (induction xs) auto

lemma find_upt_Some_iff:
  "find P [0..<n] = Some i \<longleftrightarrow> i < n \<and> P i \<and> (\<forall>j<i. \<not> P j)"
  by (auto simp: find_Some_iff)

lemma find_upt_None_iff: "find P [0..<n] = None \<longleftrightarrow> (\<forall>j<n. \<not> P j)"
  by (auto simp: find_None_iff)

lemma find_map_comp: "find P (map f xs) = map_option f (find (P \<circ> f) xs)"
  by (induction xs) auto

section \<open>Rings\<close>

text \<open>The \<open>c\<close> elements of a ring of \<open>n\<close> slots, from slot \<open>r\<close> on.\<close>

definition ring :: "'a list \<Rightarrow> nat \<Rightarrow> nat \<Rightarrow> nat \<Rightarrow> 'a list" where
  "ring b n r c = map (\<lambda>k. b ! ((r + k) mod n)) [0..<c]"

lemma length_ring [simp]: "length (ring b n r c) = c"
  by (simp add: ring_def)

lemma ring_index_inj:
  assumes "(k :: nat) < c" "c < n"
  shows "(r + k) mod n \<noteq> (r + c) mod n"
proof
  assume "(r + k) mod n = (r + c) mod n"
  then have "n dvd (r + c) - (r + k)"
    using assms by (metis add_le_cancel_left less_imp_le mod_eq_dvd_iff_nat)
  then have "n dvd c - k" by simp
  with assms show False by (auto dest: dvd_imp_le)
qed

lemma ring_snoc:
  assumes "c < n" "length b = n" "w = (r + c) mod n"
  shows "ring (b[w := x]) n r (Suc c) = ring b n r c @ [x]"
proof -
  have "b[w := x] ! ((r + k) mod n) = b ! ((r + k) mod n)" if "k < c" for k
    using ring_index_inj [OF that assms(1), of r] assms(3) by simp
  then show ?thesis using assms by (simp add: ring_def)
qed

lemma ring_cons:
  assumes "Suc c \<le> n" "r < n"
  shows "ring b n r (Suc c) = b ! r # ring (b[r := x]) n ((r + 1) mod n) c"
proof -
  have "b[r := x] ! (((r + 1) mod n + k) mod n) = b ! ((r + Suc k) mod n)" if "k < c" for k
  proof -
    have "(r + 0) mod n \<noteq> (r + Suc k) mod n"
      by (rule ring_index_inj) (use that assms in auto)
    then show ?thesis using assms(2) by (simp add: mod_simps)
  qed
  then show ?thesis using assms(2) by (simp add: ring_def upt_conv_Cons map_Suc_upt [symmetric] del: upt_Suc)
qed

section \<open>Truncated division\<close>

lemma smod_nonneg: "0 \<le> x \<Longrightarrow> 0 < y \<Longrightarrow> x smod y = x mod (y :: int)"
  by (cases "x = 0") (simp_all add: signed_modulo_int_def signed_divide_int_def minus_div_mult_eq_mod)

lemma odd_smod_2: "odd (x smod 2 :: int) \<longleftrightarrow> odd x"
  by (auto simp: signed_modulo_int_def)

lemma smod_2_cases: "(x :: int) smod 2 \<in> {-1, 0, 1}"
  by (auto simp: signed_modulo_int_def signed_divide_int_def sgn_if minus_div_mult_eq_mod)

section \<open>Words\<close>

lemma unat_word_of_nat_u8 [simp]: "n < 256 \<Longrightarrow> unat (word_of_nat n :: u8) = n"
  by (simp add: unat_of_nat take_bit_nat_eq_self)

lemma unat_word_of_nat_u32 [simp]: "n < 2 ^ 32 \<Longrightarrow> unat (word_of_nat n :: u32) = n"
  by (simp add: unat_of_nat take_bit_nat_eq_self)

lemma sint_eq_uint_small_u8: "unat (w :: u8) < 128 \<Longrightarrow> sint w = uint w"
proof -
  assume "unat w < 128"
  then have "int (unat w) < 128" by linarith
  then have *: "uint w < 2 ^ 7" by simp
  have "signed_take_bit 7 (uint w) = uint w"
  proof (rule signed_take_bit_int_eq_self)
    show "- (2 ^ 7) \<le> uint w" by (rule order_trans [OF _ uint_ge_0]) simp
    show "uint w < 2 ^ 7" by (rule *)
  qed
  then show ?thesis by (simp add: sint_uint)
qed

end
