(* ===== verification/Packet.thy ===== *)
theory Packet
  imports Prelude
begin

text \<open>
  \<open>include/noc/packet.h\<close>, \<open>src/packet.cpp\<close> and \<open>include/noc/forward.h\<close>: the packet that
  travels through the network, its comparison (the one \<open>sc_signal<packet>\<close> uses to decide
  whether a value changed), its text form, and the enumeration of the arbitration modes.
\<close>

section \<open>Packets\<close>

text \<open>\<open>extra\<close> is a \<open>void*\<close>: \<open>None\<close> is \<open>nullptr\<close>, \<open>Some a\<close> the address of a heap object.\<close>

record packet =
  address :: u8
  data :: i32
  extra :: "nat option"

definition make_packet :: "u8 \<Rightarrow> i32 \<Rightarrow> packet" where
  "make_packet add d = \<lparr>address = add, data = d, extra = None\<rparr>"

abbreviation empty_packet :: packet where
  "empty_packet \<equiv> make_packet 0 0"

text \<open>\<open>operator==\<close> compares the address and the data, not the \<open>extra\<close> field.\<close>

definition packet_eq :: "packet \<Rightarrow> packet \<Rightarrow> bool" where
  "packet_eq p1 p2 \<longleftrightarrow> address p1 = address p2 \<and> data p1 = data p2"

lemma packet_eq_refl [simp, intro]: "packet_eq p p"
  by (simp add: packet_eq_def)

lemma packet_eq_sym: "packet_eq p q \<Longrightarrow> packet_eq q p"
  by (simp add: packet_eq_def)

lemma packet_eq_trans [trans]: "packet_eq p q \<Longrightarrow> packet_eq q r \<Longrightarrow> packet_eq p r"
  by (simp add: packet_eq_def)

section \<open>Printing\<close>

text \<open>
  \<open>std::ostream << int\<close> prints decimal digits; \<open>std::ostream << uint8_t\<close> prints one
  character, because \<open>uint8_t\<close> is \<open>unsigned char\<close>.
\<close>

fun show_nat :: "nat \<Rightarrow> string" where
  "show_nat n = (if n < 10 then [char_of (48 + n)] else show_nat (n div 10) @ [char_of (48 + n mod 10)])"

declare show_nat.simps [simp del]

definition show_int :: "int \<Rightarrow> string" where
  "show_int i = (if i < 0 then CHR ''-'' # show_nat (nat (- i)) else show_nat (nat i))"

definition print_packet :: "packet \<Rightarrow> string" where
  "print_packet p = show_int (sint (data p)) @ ''@'' @ [char_of (unat (address p))]"

text \<open>The two columns \<open>sc_trace\<close> registers for a packet: name, value and bit width.\<close>

definition sc_trace_packet :: "packet \<Rightarrow> string \<Rightarrow> (string \<times> int \<times> nat) list" where
  "sc_trace_packet p name =
     [(name @ ''@address'', uint (address p), 8), (name @ ''@data'', sint (data p), 32)]"

lemma show_nat_digit: "c \<in> set (show_nat n) \<Longrightarrow> 48 \<le> (of_char c :: nat) \<and> (of_char c :: nat) < 58"
proof (induction n rule: show_nat.induct)
  case (1 n)
  then show ?case
    by (subst (asm) show_nat.simps) (auto split: if_splits)
qed

lemma show_nat_nonempty: "show_nat n \<noteq> []"
  by (subst show_nat.simps) simp

fun read_nat :: "string \<Rightarrow> nat \<Rightarrow> nat" where
  "read_nat [] acc = acc"
| "read_nat (c # cs) acc = read_nat cs (10 * acc + (of_char c - 48))"

lemma read_nat_append: "read_nat (xs @ ys) acc = read_nat ys (read_nat xs acc)"
  by (induction xs arbitrary: acc) auto

lemma read_show_nat: "read_nat (show_nat n) 0 = n"
proof (induction n rule: show_nat.induct)
  case (1 n)
  then show ?case
    by (subst show_nat.simps) (simp add: read_nat_append)
qed

lemma show_nat_inject: "show_nat m = show_nat n \<Longrightarrow> m = n"
  using read_show_nat by metis

lemma show_nat_no_minus: "show_nat n \<noteq> CHR ''-'' # cs"
proof
  assume "show_nat n = CHR ''-'' # cs"
  then have "CHR ''-'' \<in> set (show_nat n)" by simp
  then show False using show_nat_digit [of "CHR ''-''" n] by simp
qed

lemma show_int_inject: "show_int i = show_int j \<Longrightarrow> i = j"
  using show_nat_no_minus [of "nat i"] show_nat_no_minus [of "nat j"]
  by (auto simp: show_int_def dest!: show_nat_inject split: if_splits
        dest: sym [of "CHR ''-'' # _" "show_nat _"])

section \<open>Arbitration modes\<close>

text \<open>
  \<open>enum arbiter_mode : unsigned char\<close>. The arbiter switches on the integer value, so a value
  that is none of the enumerators is possible and takes the \<open>default\<close> branch.
\<close>

datatype arbiter_mode = RAND | LRU | FIFO | FIXED | ROUNDROBIN | ARBITER_MODE_LAST

fun mode_code :: "arbiter_mode \<Rightarrow> u8" where
  "mode_code RAND = 0"
| "mode_code LRU = 1"
| "mode_code FIFO = 2"
| "mode_code FIXED = 3"
| "mode_code ROUNDROBIN = 4"
| "mode_code ARBITER_MODE_LAST = 5"

end
