(* ===== verification/Arbiter.thy ===== *)
theory Arbiter
  imports Packet
begin

unbundle bit_operations_syntax

text \<open>
  \<open>src/arbiter.cpp\<close> and \<open>include/noc/arbiter.h\<close>: the five arbitration policies of one
  output of the network. The arbiter looks at the number of packets available in each of
  its input fifos (the list \<open>av\<close>, one \<open>int\<close> per element of the array \<open>fifos\<close>), chooses
  one, and after the packet has been read updates the private state of all policies.
  Integers have the width the code gives them: \<open>_nb_fifos\<close> is a 32-bit unsigned, the entries
  of the two vectors are \<open>uint8_t\<close>, \<open>_last_used\<close> is a signed \<open>char\<close> and a choice is a
  \<open>uint8_t\<close> whose maximum stands for "no fifo".
\<close>

section \<open>State\<close>

record arbiter =
  nb_fifos :: u32
  fifo_depth :: u32
  next_id :: u32
  lfsr :: i32
  lru_index :: "u8 list"
  pushs_in_fifos :: "u8 list"
  in_fifos :: u32
  last_used :: schar

definition no_choice :: u8 where
  "no_choice = 255"

text \<open>The loop range \<open>for (int i = 0; i < _nb_fifos; i++)\<close>.\<close>

abbreviation fifo_range :: "arbiter \<Rightarrow> nat list" where
  "fifo_range a \<equiv> [0..<unat (nb_fifos a)]"

section \<open>Random mode\<close>

definition init_rand :: "arbiter \<Rightarrow> arbiter" where
  "init_rand a = a\<lparr>lfsr := 1\<rparr>"

text \<open>
  \<open>(_lfsr >> id) % 2\<close> on a signed \<open>int\<close>: an arithmetic shift, then a remainder with the sign
  of the dividend (\<open>-1\<close> for a negative odd value), converted to \<open>uint8_t\<close>.
\<close>

definition rand_bit :: "i32 \<Rightarrow> nat \<Rightarrow> u8" where
  "rand_bit l i = word_of_int ((sint l div 2 ^ (4 * i)) smod 2)"

definition rand_number :: "i32 \<Rightarrow> u8" where
  "rand_number l = fold (\<lambda>i rn. rn + push_bit i (rand_bit l i)) [0..<8] 0"

definition count_available :: "arbiter \<Rightarrow> int list \<Rightarrow> int result" where
  "count_available a av =
     for_each (\<lambda>i n. bind_result (vec_at av i) (\<lambda>k. Inr (if k > 0 then n + 1 else n)))
       (fifo_range a) 0"

text \<open>The second loop counts the non-empty fifos again and stops at the chosen one.\<close>

definition pick_available :: "arbiter \<Rightarrow> int list \<Rightarrow> int \<Rightarrow> (u8, int) flow result" where
  "pick_available a av chosen =
     for_loop (\<lambda>i counter. bind_result (vec_at av i) (\<lambda>k.
         Inr (if k > 0
              then (if counter = chosen then Return (word_of_nat i) else Continue (counter + 1))
              else Continue counter)))
       (fifo_range a) 0"

definition choose_rand :: "arbiter \<Rightarrow> int list \<Rightarrow> u8 result" where
  "choose_rand a av =
     bind_result (count_available a av) (\<lambda>availableFifos.
       if availableFifos = 0 then Inr no_choice
       else bind_result (pick_available a av (uint (rand_number (lfsr a)) smod availableFifos))
         (\<lambda>fl. case fl of Return r \<Rightarrow> Inr r | Continue _ \<Rightarrow> Inl Assert_failed))"

definition rand_retro :: "i32 \<Rightarrow> int" where
  "rand_retro l = (sint l div 2 ^ 1 + sint l div 2 ^ 6 + sint l div 2 ^ 16) smod 2"

definition update_rand :: "arbiter \<Rightarrow> arbiter" where
  "update_rand a = a\<lparr>lfsr := push_bit 1 (lfsr a) + word_of_int (rand_retro (lfsr a))\<rparr>"

section \<open>Least recently used mode\<close>

definition init_lru :: "arbiter \<Rightarrow> arbiter result" where
  "init_lru a =
     bind_result (for_each (\<lambda>i xs. vec_set xs i (word_of_nat i)) (fifo_range a) (lru_index a))
       (\<lambda>xs. Inr (a\<lparr>lru_index := xs\<rparr>))"

definition choose_lru :: "arbiter \<Rightarrow> int list \<Rightarrow> u8 result" where
  "choose_lru a av =
     bind_result
       (for_loop (\<lambda>i _. bind_result (vec_at (lru_index a) i) (\<lambda>f.
            bind_result (vec_at av (unat f)) (\<lambda>k.
              Inr (if k > 0 then Return f else Continue ()))))
          (fifo_range a) ())
       (\<lambda>fl. case fl of Return r \<Rightarrow> Inr r | Continue _ \<Rightarrow> Inr no_choice)"

text \<open>
  One iteration of the loop that drops the first entry accepted by \<open>P\<close> and moves the entries
  behind it one place to the front; the state is (\<open>found\<close>, the vector).
\<close>

definition shift_step :: "(u8 \<Rightarrow> bool) \<Rightarrow> nat \<Rightarrow> bool \<times> u8 list \<Rightarrow> (bool \<times> u8 list) result" where
  "shift_step P i st = (case st of (found, xs) \<Rightarrow>
     bind_result (vec_at xs i) (\<lambda>x.
       if found then bind_result (vec_set xs (i - 1) x) (\<lambda>ys. Inr (True, ys))
       else if P x then Inr (True, xs)
       else Inr (False, xs)))"

text \<open>
  \<open>_lru_index[i] == numFifo\<close> compares an unsigned and a signed 8-bit value, both promoted to
  \<open>int\<close>.
\<close>

definition update_lru :: "arbiter \<Rightarrow> schar \<Rightarrow> arbiter result" where
  "update_lru a numFifo =
     bind_result
       (for_each (shift_step (\<lambda>x. uint x = sint numFifo)) (fifo_range a) (False, lru_index a))
       (\<lambda>(_, xs). bind_result (vec_set xs (unat (nb_fifos a - 1)) numFifo)
          (\<lambda>ys. Inr (a\<lparr>lru_index := ys\<rparr>)))"

section \<open>Fifo mode\<close>

definition init_fifo :: "arbiter \<Rightarrow> arbiter" where
  "init_fifo a = a\<lparr>in_fifos := 0\<rparr>"

definition choose_fifo :: "arbiter \<Rightarrow> i32 result" where
  "choose_fifo a =
     (if in_fifos a = 0 then Inr (- 1)
      else bind_result (vec_at (pushs_in_fifos a) 0) (\<lambda>f. Inr (ucast f)))"

definition update_fifo :: "arbiter \<Rightarrow> u8 \<Rightarrow> arbiter result" where
  "update_fifo a numFifo =
     bind_result
       (for_each (shift_step (\<lambda>x. x = numFifo)) [0..<unat (in_fifos a)] (False, pushs_in_fifos a))
       (\<lambda>(_, xs). Inr (a\<lparr>pushs_in_fifos := xs, in_fifos := in_fifos a - 1\<rparr>))"

text \<open>\<open>at\<close> throws when the index is outside; the assertion comes after the write.\<close>

definition pushed_in_fifo :: "arbiter \<Rightarrow> schar \<Rightarrow> arbiter result" where
  "pushed_in_fifo a idFifo =
     bind_result (vec_set (pushs_in_fifos a) (unat (in_fifos a)) idFifo) (\<lambda>xs.
       if unat (in_fifos a + 1) < length xs
       then Inr (a\<lparr>pushs_in_fifos := xs, in_fifos := in_fifos a + 1\<rparr>)
       else Inl Assert_failed)"

section \<open>Fixed mode\<close>

definition choose_fixed :: "arbiter \<Rightarrow> int list \<Rightarrow> u8 result" where
  "choose_fixed a av =
     bind_result
       (for_loop (\<lambda>i _. bind_result (vec_at av i) (\<lambda>k.
            Inr (if k > 0 then Return (word_of_nat i) else Continue ())))
          (fifo_range a) ())
       (\<lambda>fl. case fl of Return r \<Rightarrow> Inr r | Continue _ \<Rightarrow> Inr no_choice)"

section \<open>Round robin mode\<close>

definition init_round_robin :: "arbiter \<Rightarrow> arbiter" where
  "init_round_robin a = a\<lparr>last_used := ucast (nb_fifos a - 1)\<rparr>"

text \<open>\<open>(_last_used + 1 + i) % _nb_fifos\<close>: the signed sum is converted to \<open>unsigned\<close>.\<close>

definition rr_index :: "arbiter \<Rightarrow> nat \<Rightarrow> u32" where
  "rr_index a i = word_of_int (sint (last_used a) + 1 + int i) mod nb_fifos a"

definition choose_round_robin :: "arbiter \<Rightarrow> int list \<Rightarrow> u8 result" where
  "choose_round_robin a av =
     bind_result
       (for_loop (\<lambda>i _. bind_result (vec_at av (unat (rr_index a i))) (\<lambda>k.
            Inr (if k > 0 then Return (ucast (rr_index a i)) else Continue ())))
          (fifo_range a) ())
       (\<lambda>fl. case fl of Return r \<Rightarrow> Inr r | Continue _ \<Rightarrow> Inr no_choice)"

definition update_round_robin :: "arbiter \<Rightarrow> schar \<Rightarrow> arbiter" where
  "update_round_robin a numFifo = a\<lparr>last_used := numFifo\<rparr>"

section \<open>Construction, decision, update\<close>

text \<open>
  The constructor's member initialisers (in declaration order) and the four initialisations.
  \<open>_lfsr\<close>, \<open>_in_fifos\<close> and \<open>_last_used\<close> have no initialiser; the values here are overwritten.
\<close>

definition make_arbiter :: "u32 \<Rightarrow> u32 \<Rightarrow> arbiter result" where
  "make_arbiter nb depth =
     bind_result (init_lru (init_rand
         \<lparr>nb_fifos = nb, fifo_depth = depth, next_id = 0, lfsr = 0,
          lru_index = replicate (unat nb) 0,
          pushs_in_fifos = replicate (unat (2 * nb * depth)) 0,
          in_fifos = 0, last_used = 0\<rparr>))
       (\<lambda>a. Inr (init_round_robin (init_fifo a)))"

text \<open>The \<open>switch\<close> of \<open>process\<close>; \<open>choice = choose_fifo()\<close> truncates the \<open>int\<close>.\<close>

definition decide :: "arbiter \<Rightarrow> u8 \<Rightarrow> int list \<Rightarrow> u8 result" where
  "decide a mode av =
     (if mode = mode_code RAND then choose_rand a av
      else if mode = mode_code LRU then choose_lru a av
      else if mode = mode_code FIFO then bind_result (choose_fifo a) (\<lambda>c. Inr (ucast c))
      else if mode = mode_code FIXED then choose_fixed a av
      else if mode = mode_code ROUNDROBIN then choose_round_robin a av
      else Inr no_choice)"

text \<open>\<open>update(char numFifo)\<close>: \<open>update_fifo\<close> takes its argument back as \<open>unsigned char\<close>.\<close>

definition update :: "arbiter \<Rightarrow> schar \<Rightarrow> arbiter result" where
  "update a numFifo =
     bind_result (update_lru (update_rand a) numFifo) (\<lambda>a1.
       bind_result (update_fifo a1 numFifo) (\<lambda>a2. Inr (update_round_robin a2 numFifo)))"

definition get_id :: "arbiter \<Rightarrow> u32 \<times> arbiter" where
  "get_id a = (next_id a, a\<lparr>next_id := next_id a + 1\<rparr>)"

section \<open>The shifting loop\<close>

text \<open>
  Both loops that use \<open>shift_step\<close> delete the first accepted entry of the scanned prefix and
  leave a second copy of the prefix's last entry behind.
\<close>

lemma shift_step_apply [result_simps]:
  "i < length xs \<Longrightarrow> (found \<Longrightarrow> 0 < i) \<Longrightarrow> shift_step P i (found, xs) =
     Inr (if found then (True, xs[i - 1 := xs ! i]) else (P (xs ! i), xs))"
  by (auto simp: shift_step_def)

lemma shift_loop:
  assumes "n \<le> length xs"
  shows "for_each (shift_step P) [0..<n] (False, xs) =
    Inr (if \<exists>x\<in>set (take n xs). P x
         then (True, del_first P (take n xs) @ drop (n - 1) xs) else (False, xs))"
  using assms
proof (induction n)
  case 0
  then show ?case by simp
next
  case (Suc n)
  then have n: "n < length xs" by simp
  have IH: "for_each (shift_step P) [0..<n] (False, xs) =
    Inr (if \<exists>x\<in>set (take n xs). P x
         then (True, del_first P (take n xs) @ drop (n - 1) xs) else (False, xs))"
    using Suc by simp
  show ?case
  proof (cases "\<exists>x\<in>set (take n xs). P x")
    case True
    let ?D = "del_first P (take n xs)"
    have "n \<noteq> 0" using True by (cases n) auto
    have D: "length ?D = n - 1" using True n \<open>n \<noteq> 0\<close> by (simp add: length_del_first)
    have "drop (n - 1) xs = xs ! (n - 1) # drop n xs"
      using n \<open>n \<noteq> 0\<close> Cons_nth_drop_Suc [of "n - 1" xs] by simp
    then have "(?D @ drop (n - 1) xs)[n - 1 := xs ! n] = ?D @ xs ! n # drop n xs"
      using D by (simp add: list_update_append)
    moreover have "del_first P (take (Suc n) xs) = ?D @ [xs ! n]"
      using True n by (simp add: take_Suc_conv_app_nth del_first_append)
    moreover have "(?D @ drop (n - 1) xs) ! n = xs ! n"
      using D n \<open>n \<noteq> 0\<close> by (simp add: nth_append)
    ultimately show ?thesis
      using True n IH D \<open>n \<noteq> 0\<close>
      by (simp add: for_each_append shift_step_apply take_Suc_conv_app_nth del_first_append)
  next
    case False
    then show ?thesis
      using n IH
      by (simp add: for_each_append shift_step_apply take_Suc_conv_app_nth del_first_append
          Cons_nth_drop_Suc)
  qed
qed

section \<open>What each choice returns\<close>

text \<open>The non-empty fifos, in index order.\<close>

definition candidates :: "arbiter \<Rightarrow> int list \<Rightarrow> nat list" where
  "candidates a av = filter (\<lambda>i. av ! i > 0) (fifo_range a)"

lemma candidates_iff: "k \<in> set (candidates a av) \<longleftrightarrow> k < unat (nb_fifos a) \<and> av ! k > 0"
  by (auto simp: candidates_def)

lemma candidates_empty_iff: "candidates a av = [] \<longleftrightarrow> (\<forall>k<unat (nb_fifos a). av ! k \<le> 0)"
  by (auto simp: candidates_def filter_empty_conv not_less)

lemma choose_fixed_eq:
  assumes "length av = unat (nb_fifos a)"
  shows "choose_fixed a av =
    Inr (case find (\<lambda>i. av ! i > 0) (fifo_range a) of Some i \<Rightarrow> word_of_nat i | None \<Rightarrow> no_choice)"
  using assms unfolding choose_fixed_def
  by (subst for_loop_find [where P = "\<lambda>i. av ! i > 0" and g = word_of_nat])
     (auto split: option.splits)

lemma choose_lru_eq:
  assumes "length (lru_index a) = unat (nb_fifos a)"
    and "\<forall>f\<in>set (lru_index a). unat f < length av"
  shows "choose_lru a av =
    Inr (case find (\<lambda>f. av ! unat f > 0) (lru_index a) of Some f \<Rightarrow> f | None \<Rightarrow> no_choice)"
proof -
  have "find (\<lambda>f. av ! unat f > 0) (lru_index a) =
    map_option ((!) (lru_index a)) (find (\<lambda>i. av ! unat (lru_index a ! i) > 0) (fifo_range a))"
    using assms(1) find_map_comp [of "\<lambda>f. av ! unat f > 0" "(!) (lru_index a)" "fifo_range a"]
    by (simp add: comp_def map_nth flip: assms(1))
  moreover have "i < unat (nb_fifos a) \<Longrightarrow> unat (lru_index a ! i) < length av" for i
    using assms by (metis nth_mem)
  ultimately show ?thesis
    unfolding choose_lru_def
    by (subst for_loop_find
        [where P = "\<lambda>i. av ! unat (lru_index a ! i) > 0" and g = "(!) (lru_index a)"])
       (auto simp: assms(1) split: option.splits)
qed

lemma choose_round_robin_eq:
  assumes "length av = unat (nb_fifos a)" "nb_fifos a \<noteq> 0"
  shows "choose_round_robin a av =
    Inr (case find (\<lambda>i. av ! unat (rr_index a i) > 0) (fifo_range a) of
           Some i \<Rightarrow> ucast (rr_index a i) | None \<Rightarrow> no_choice)"
proof -
  have "unat (rr_index a i) < length av" for i
    using assms by (simp add: rr_index_def unat_mod unat_gt_0)
  then show ?thesis
    unfolding choose_round_robin_def
    by (subst for_loop_find
        [where P = "\<lambda>i. av ! unat (rr_index a i) > 0" and g = "\<lambda>i. ucast (rr_index a i)"])
       (auto split: option.splits)
qed

lemma count_loop:
  assumes "\<forall>i\<in>set is. i < length av"
  shows "for_each (\<lambda>i n. bind_result (vec_at av i) (\<lambda>k. Inr (if k > 0 then n + 1 else n))) is n =
    Inr (n + int (length (filter (\<lambda>i. av ! i > 0) is)))"
  using assms by (induction "is" arbitrary: n) auto

lemma pick_loop:
  assumes "\<forall>i\<in>set is. i < length av" and "chosen = c + int m"
  shows "for_loop (\<lambda>i counter. bind_result (vec_at av i) (\<lambda>k.
         Inr (if k > 0
              then (if counter = chosen then Return (word_of_nat i) else Continue (counter + 1))
              else Continue counter))) is c =
    Inr (let xs = filter (\<lambda>i. av ! i > 0) is in
         if m < length xs then Return (word_of_nat (xs ! m)) else Continue (c + int (length xs)))"
  using assms
proof (induction "is" arbitrary: c m)
  case Nil
  then show ?case by simp
next
  case (Cons i "is")
  show ?case
  proof (cases "av ! i > 0 \<and> m \<noteq> 0")
    case False
    then show ?thesis using Cons by (auto simp: Let_def)
  next
    case True
    then obtain m' where m: "m = Suc m'" by (cases m) auto
    then have "chosen = (c + 1) + int m'" using Cons.prems by simp
    from Cons.IH [OF _ this] show ?thesis using True Cons.prems m by (simp add: Let_def)
  qed
qed

lemma choose_rand_eq:
  assumes "length av = unat (nb_fifos a)"
  shows "choose_rand a av =
    Inr (let cs = candidates a av in
         if cs = [] then no_choice
         else word_of_nat (cs ! (unat (rand_number (lfsr a)) mod length cs)))"
proof -
  have count: "count_available a av = Inr (int (length (candidates a av)))"
    unfolding count_available_def candidates_def
    by (subst count_loop) (auto simp: assms)
  show ?thesis
  proof (cases "candidates a av = []")
    case True
    then show ?thesis by (simp add: choose_rand_def count)
  next
    case False
    let ?m = "unat (rand_number (lfsr a)) mod length (candidates a av)"
    have "uint (rand_number (lfsr a)) smod int (length (candidates a av)) = int ?m"
      using False by (simp add: smod_nonneg zmod_int)
    moreover have "?m < length (candidates a av)" using False by simp
    then have "pick_available a av (int ?m) = Inr (Return (word_of_nat (candidates a av ! ?m)))"
      using pick_loop [of "fifo_range a" av "int ?m" 0 ?m]
      by (simp add: pick_available_def assms Let_def flip: candidates_def)
    ultimately show ?thesis using False by (simp add: choose_rand_def count Let_def)
  qed
qed

end
