(* ===== verification/Arbiter_Policies.thy ===== *)
theory Arbiter_Policies
  imports Arbiter
begin

text \<open>
  What the arbitration policies promise. The interface \<open>arbitration\<close> says that a choice is
  a non-empty fifo and is missing only when all fifos are empty; \<open>fair_arbitration\<close> adds a
  rank that bounds how many other fifos are served before a given one. Both are interpreted
  on the code's policies. The theory also holds the well-formedness invariant of the private
  state, the abstract view of the least-recently-used register and the facts on the
  feedback shift register.
\<close>

section \<open>Well-formed policy state\<close>

text \<open>
  The indices fit a signed \<open>char\<close>, the register of \<open>LRU\<close> holds each index once, and the last
  used index is an index.
\<close>

definition policy_wf :: "arbiter \<Rightarrow> bool" where
  "policy_wf a \<longleftrightarrow> 0 < unat (nb_fifos a) \<and> unat (nb_fifos a) \<le> 128 \<and>
     mset (lru_index a) = mset (map word_of_nat (fifo_range a)) \<and>
     unat (last_used a) < unat (nb_fifos a)"

lemma distinct_u8_range: "n \<le> 256 \<Longrightarrow> distinct (map word_of_nat [0..<n] :: u8 list)"
  by (auto simp: distinct_map inj_on_def dest: arg_cong [where f = unat])

lemma policy_wf_lru:
  assumes "policy_wf a"
  shows "length (lru_index a) = unat (nb_fifos a)" and "distinct (lru_index a)"
    and "f \<in> set (lru_index a) \<longleftrightarrow> unat f < unat (nb_fifos a)"
proof -
  have m: "mset (lru_index a) = mset (map word_of_nat (fifo_range a))" and n: "unat (nb_fifos a) \<le> 128"
    using assms by (auto simp: policy_wf_def)
  show "length (lru_index a) = unat (nb_fifos a)" using m by (metis length_map length_upt minus_nat.diff_0 size_mset)
  have "distinct (map word_of_nat (fifo_range a) :: u8 list)"
    using distinct_u8_range n by simp
  then show "distinct (lru_index a)" using m by (metis mset_eq_imp_distinct_iff)
  have "f \<in> set (lru_index a) \<longleftrightarrow> f \<in> word_of_nat ` {0..<unat (nb_fifos a)}"
    using arg_cong [OF m, of set_mset] by simp
  also have "\<dots> \<longleftrightarrow> unat f < unat (nb_fifos a)"
    using n by (auto intro: image_eqI [where x = "unat f"])
  finally show "f \<in> set (lru_index a) \<longleftrightarrow> unat f < unat (nb_fifos a)" .
qed

lemma policy_wf_nb: "policy_wf a \<Longrightarrow> nb_fifos a \<noteq> 0"
  by (auto simp: policy_wf_def)

section \<open>The initial state\<close>

lemma init_lru_loop:
  "n \<le> length xs \<Longrightarrow>
     for_each (\<lambda>i xs. vec_set xs i (word_of_nat i)) [0..<n] xs = Inr (map word_of_nat [0..<n] @ drop n xs)"
proof (induction n)
  case 0
  then show ?case by simp
next
  case (Suc n)
  then have "drop n xs = xs ! n # drop (Suc n) xs" by (simp add: Cons_nth_drop_Suc)
  with Suc show ?case by (simp add: for_each_append list_update_append)
qed

lemma make_arbiter_eq:
  "make_arbiter nb depth = Inr
     \<lparr>nb_fifos = nb, fifo_depth = depth, next_id = 0, lfsr = 1,
      lru_index = map word_of_nat [0..<unat nb],
      pushs_in_fifos = replicate (unat (2 * nb * depth)) 0,
      in_fifos = 0, last_used = ucast (nb - 1)\<rparr>"
  by (simp add: make_arbiter_def init_lru_def init_rand_def init_fifo_def
      init_round_robin_def init_lru_loop)

lemma unat_minus_one_u8: "0 < unat (nb :: u32) \<Longrightarrow> unat nb \<le> 128 \<Longrightarrow> unat (ucast (nb - 1) :: u8) = unat nb - 1"
  by (simp add: unsigned_ucast_eq unat_sub_if' take_bit_nat_eq_self)

lemma make_arbiter_wf:
  assumes "make_arbiter nb depth = Inr a" "0 < unat nb" "unat nb \<le> 128"
  shows "policy_wf a"
  using assms by (auto simp: make_arbiter_eq policy_wf_def unat_minus_one_u8)

section \<open>Updates\<close>

text \<open>The update of \<open>LRU\<close> moves the served index to the end of the register.\<close>

lemma update_lru_eq:
  assumes wf: "policy_wf a" and c: "unat c < unat (nb_fifos a)"
  shows "update_lru a c = Inr (a\<lparr>lru_index := remove1 c (lru_index a) @ [c]\<rparr>)"
proof -
  let ?xs = "lru_index a" and ?n = "unat (nb_fifos a)"
  have len: "length ?xs = ?n" and mem: "c \<in> set ?xs" and n: "0 < ?n" "?n \<le> 128"
    using policy_wf_lru [OF wf] c wf by (auto simp: policy_wf_def)
  have P: "(\<lambda>x. uint x = sint c) = (\<lambda>x. x = c)"
    using c n sint_eq_uint_small_u8 [of c] by (auto simp: fun_eq_iff word_uint_eq_iff)
  have idx: "unat (nb_fifos a - 1) = ?n - 1"
    using n by (simp add: unat_sub_if')
  have "drop (?n - 1) ?xs = [?xs ! (?n - 1)]"
    using len n Cons_nth_drop_Suc [of "?n - 1" ?xs] by simp
  then have "for_each (shift_step (\<lambda>x. x = c)) (fifo_range a) (False, ?xs) =
      Inr (True, remove1 c ?xs @ [?xs ! (?n - 1)])"
    using shift_loop [of ?n ?xs "\<lambda>x. x = c"] len mem
    by (auto simp: del_first_eq_remove1)
  moreover have "length (remove1 c ?xs) = ?n - 1" using mem len by (simp add: length_remove1)
  ultimately show ?thesis
    by (simp add: update_lru_def P idx list_update_append)
qed

lemma remove1_snoc_wf:
  assumes wf: "policy_wf a" and c: "unat c < unat (nb_fifos a)"
  shows "policy_wf (a\<lparr>lru_index := remove1 c (lru_index a) @ [c]\<rparr>)"
proof -
  have "c \<in> set (lru_index a)" using policy_wf_lru [OF wf] c by simp
  then have "mset (remove1 c (lru_index a) @ [c]) = mset (lru_index a)" by simp
  then show ?thesis using wf by (simp add: policy_wf_def)
qed

section \<open>Serving a sequence of snapshots\<close>

text \<open>
  The loop of \<open>process\<close> seen by one policy: at each round the fifos have some number of
  packets available, a choice is made, and if there is one the policy is updated with it.
  The result is the list of choices (\<open>no_choice\<close> included) and the final state.
\<close>

fun serve ::
  "('s \<Rightarrow> int list \<Rightarrow> u8 result) \<Rightarrow> ('s \<Rightarrow> u8 \<Rightarrow> 's result) \<Rightarrow> 's \<Rightarrow> int list list \<Rightarrow> (u8 list \<times> 's) result"
where
  "serve pick upd s [] = Inr ([], s)"
| "serve pick upd s (av # avs) =
     bind_result (pick s av) (\<lambda>c.
       bind_result (if c = no_choice then Inr s else upd s c) (\<lambda>s1.
         bind_result (serve pick upd s1 avs) (\<lambda>(cs, s2). Inr (c # cs, s2))))"

section \<open>The interface of a policy\<close>

locale arbitration =
  fixes pick :: "'s \<Rightarrow> int list \<Rightarrow> u8 result"
    and upd :: "'s \<Rightarrow> u8 \<Rightarrow> 's result"
    and wf :: "'s \<Rightarrow> bool"
    and ports :: "'s \<Rightarrow> nat"
  assumes ports_le: "wf s \<Longrightarrow> ports s \<le> 255"
    and choose_none: "wf s \<Longrightarrow> length av = ports s \<Longrightarrow> \<forall>k<ports s. av ! k \<le> 0 \<Longrightarrow>
      pick s av = Inr no_choice"
    and choose_some: "wf s \<Longrightarrow> length av = ports s \<Longrightarrow> k < ports s \<Longrightarrow> av ! k > 0 \<Longrightarrow>
      \<exists>c. pick s av = Inr c \<and> unat c < ports s \<and> av ! unat c > 0"
    and update_ok: "wf s \<Longrightarrow> unat c < ports s \<Longrightarrow> \<exists>s'. upd s c = Inr s' \<and> wf s' \<and> ports s' = ports s"
begin

lemma choose_total:
  assumes "wf s" "length av = ports s"
  shows "\<exists>c. pick s av = Inr c \<and> (c = no_choice \<longleftrightarrow> (\<forall>k<ports s. av ! k \<le> 0)) \<and>
    (c \<noteq> no_choice \<longrightarrow> unat c < ports s \<and> av ! unat c > 0)"
proof (cases "\<forall>k<ports s. av ! k \<le> 0")
  case True
  then show ?thesis using choose_none [OF assms] by auto
next
  case False
  then obtain k where "k < ports s" "av ! k > 0" by (auto simp: not_le)
  then obtain c where c: "pick s av = Inr c" "unat c < ports s" "av ! unat c > 0"
    using choose_some [OF assms] by blast
  then have "unat c < 255" using ports_le [OF assms(1)] by linarith
  then have "c \<noteq> no_choice" by (auto simp: no_choice_def)
  with c show ?thesis using False by blast
qed

text \<open>Work conservation: a served sequence never faults and never idles on a waiting packet.\<close>

lemma serve_ok:
  assumes "wf s" "\<forall>av\<in>set avs. length av = ports s"
  shows "\<exists>cs s'. serve pick upd s avs = Inr (cs, s') \<and> wf s' \<and> ports s' = ports s \<and>
    list_all2 (\<lambda>c av. (c = no_choice \<longleftrightarrow> (\<forall>k<ports s. av ! k \<le> 0)) \<and>
      (c \<noteq> no_choice \<longrightarrow> unat c < ports s \<and> av ! unat c > 0)) cs avs"
  using assms
proof (induction avs arbitrary: s)
  case Nil
  then show ?case by simp
next
  case (Cons av avs)
  obtain c where c: "pick s av = Inr c" "c = no_choice \<longleftrightarrow> (\<forall>k<ports s. av ! k \<le> 0)"
    "c \<noteq> no_choice \<longrightarrow> unat c < ports s \<and> av ! unat c > 0"
    using choose_total [of s av] Cons.prems by auto
  obtain s1 where s1: "(if c = no_choice then Inr s else upd s c) = Inr s1" "wf s1" "ports s1 = ports s"
  proof (cases "c = no_choice")
    case True
    then show ?thesis using that [of s] Cons.prems by simp
  next
    case False
    then obtain s1 where "upd s c = Inr s1" "wf s1" "ports s1 = ports s"
      using c(3) update_ok [of s c] Cons.prems(1) by blast
    then show ?thesis using that [of s1] False by simp
  qed
  have "\<forall>av\<in>set avs. length av = ports s1" using Cons.prems s1 by simp
  from Cons.IH [OF s1(2) this] c s1 show ?case by (fastforce simp: no_choice_def)
qed

end

text \<open>
  A fair policy ranks every fifo below the number of fifos, and serving another fifo while
  this one waits lowers its rank.
\<close>

locale fair_arbitration = arbitration +
  fixes rank :: "'a \<Rightarrow> nat \<Rightarrow> nat"
  assumes rank_less: "wf s \<Longrightarrow> k < ports s \<Longrightarrow> rank s k < ports s"
    and rank_decreases: "wf s \<Longrightarrow> length av = ports s \<Longrightarrow> k < ports s \<Longrightarrow> av ! k > 0 \<Longrightarrow>
      pick s av = Inr c \<Longrightarrow> unat c \<noteq> k \<Longrightarrow> upd s c = Inr s' \<Longrightarrow> rank s' k < rank s k"
begin

lemma served_by_rank:
  assumes "wf s" "k < ports s" "\<forall>av\<in>set avs. length av = ports s \<and> av ! k > 0" "rank s k < length avs"
  shows "\<exists>cs s'. serve pick upd s avs = Inr (cs, s') \<and> (\<exists>i\<le>rank s k. i < length cs \<and> unat (cs ! i) = k)"
  using assms
proof (induction avs arbitrary: s)
  case Nil
  then show ?case by simp
next
  case (Cons av avs)
  have av: "length av = ports s" "av ! k > 0" using Cons.prems by auto
  obtain c where c: "pick s av = Inr c" "unat c < ports s"
    using choose_some [of s av k] Cons.prems by auto
  then have cne: "c \<noteq> no_choice" using ports_le [of s] Cons.prems by (auto simp: no_choice_def)
  obtain s1 where s1: "upd s c = Inr s1" "wf s1" "ports s1 = ports s"
    using update_ok c Cons.prems by blast
  obtain cs s' where cs: "serve pick upd s1 avs = Inr (cs, s')"
    using serve_ok [of s1 avs] s1 Cons.prems by auto
  have run: "serve pick upd s (av # avs) = Inr (c # cs, s')"
    using c s1 cs cne by simp
  show ?case
  proof (cases "unat c = k")
    case True
    then show ?thesis using run by (intro exI conjI) (auto intro: exI [of _ 0])
  next
    case False
    then have "rank s1 k < rank s k"
      using rank_decreases [of s av k c s1] av c s1 Cons.prems by auto
    moreover from this Cons.prems s1 have "rank s1 k < length avs" by simp
    moreover have "\<forall>av\<in>set avs. length av = ports s1 \<and> av ! k > 0" "k < ports s1"
      using Cons.prems s1 by auto
    ultimately obtain i where "i \<le> rank s1 k" "i < length cs" "unat (cs ! i) = k"
      using Cons.IH [of s1] s1 cs by auto
    then have "\<exists>i\<le>rank s k. i < length (c # cs) \<and> unat ((c # cs) ! i) = k"
      using \<open>rank s1 k < rank s k\<close> by (intro exI [of _ "Suc i"]) auto
    then show ?thesis using run by blast
  qed
qed

lemma served_within_ports:
  assumes "wf s" "k < ports s" "\<forall>av\<in>set avs. length av = ports s \<and> av ! k > 0" "ports s \<le> length avs"
  shows "\<exists>cs s'. serve pick upd s avs = Inr (cs, s') \<and> (\<exists>i<ports s. i < length cs \<and> unat (cs ! i) = k)"
  using served_by_rank [OF assms(1-3)] rank_less [OF assms(1,2)] assms(4)
  by (metis le_less_trans less_le_trans)

end

section \<open>The code's policies\<close>

abbreviation ports_of :: "arbiter \<Rightarrow> nat" where
  "ports_of a \<equiv> unat (nb_fifos a)"

lemma policy_wf_ports_le: "policy_wf a \<Longrightarrow> ports_of a \<le> 255"
  by (simp add: policy_wf_def)

lemma find_upt_hit:
  assumes "k < n" "P k"
  obtains i where "find P [0..<n] = Some i" "i < n" "P i"
  using assms by (cases "find P [0..<n]") (auto simp: find_upt_None_iff find_upt_Some_iff)

subsection \<open>Fixed priorities and random\<close>

interpretation fixed: arbitration choose_fixed "\<lambda>a _. Inr a" policy_wf ports_of
proof
  fix a :: arbiter and av :: "int list"
  assume wf: "policy_wf a" and len: "length av = ports_of a"
  { assume "\<forall>k<ports_of a. av ! k \<le> 0"
    then have "find (\<lambda>i. av ! i > 0) (fifo_range a) = None" by (auto simp: find_None_iff not_less)
    then show "choose_fixed a av = Inr no_choice" using len by (simp add: choose_fixed_eq) }
  { fix k assume "k < ports_of a" "av ! k > 0"
    then obtain i where "find (\<lambda>i. av ! i > 0) (fifo_range a) = Some i" "i < ports_of a" "av ! i > 0"
      by (rule find_upt_hit)
    then show "\<exists>c. choose_fixed a av = Inr c \<and> unat c < ports_of a \<and> av ! unat c > 0"
      using len policy_wf_ports_le [OF wf] by (simp add: choose_fixed_eq) }
qed (auto simp: policy_wf_ports_le)

interpretation rand: arbitration choose_rand "\<lambda>a _. Inr (update_rand a)" policy_wf ports_of
proof
  fix a :: arbiter and av :: "int list"
  assume wf: "policy_wf a" and len: "length av = ports_of a"
  { assume "\<forall>k<ports_of a. av ! k \<le> 0"
    then show "choose_rand a av = Inr no_choice"
      using len by (simp add: choose_rand_eq candidates_empty_iff) }
  { fix k assume "k < ports_of a" "av ! k > 0"
    then have ne: "candidates a av \<noteq> []" by (auto simp: candidates_empty_iff)
    define i where "i = candidates a av ! (unat (rand_number (lfsr a)) mod length (candidates a av))"
    have "i \<in> set (candidates a av)" using ne by (simp add: i_def)
    then have "i < ports_of a" "av ! i > 0" by (auto simp: candidates_iff)
    moreover have "choose_rand a av = Inr (word_of_nat i)"
      using len ne by (simp add: choose_rand_eq i_def Let_def)
    ultimately show "\<exists>c. choose_rand a av = Inr c \<and> unat c < ports_of a \<and> av ! unat c > 0"
      using policy_wf_ports_le [OF wf] by simp }
qed (auto simp: policy_wf_ports_le policy_wf_def update_rand_def)

subsection \<open>Least recently used\<close>

definition lru_rank :: "arbiter \<Rightarrow> nat \<Rightarrow> nat" where
  "lru_rank a k = length (takeWhile (\<lambda>f. unat f \<noteq> k) (lru_index a))"

lemma length_takeWhile_less: "w \<in> set xs \<Longrightarrow> \<not> P w \<Longrightarrow> length (takeWhile P xs) < length xs"
  by (induction xs) auto

lemma lru_choice:
  assumes wf: "policy_wf a" and len: "length av = ports_of a"
  shows "choose_lru a av =
    Inr (case find (\<lambda>f. av ! unat f > 0) (lru_index a) of Some f \<Rightarrow> f | None \<Rightarrow> no_choice)"
  using policy_wf_lru [OF wf] len by (intro choose_lru_eq) auto

lemma lru_rank_decreases:
  assumes "distinct xs" "w \<in> set xs" "Q w" "find Q xs = Some c" "c \<noteq> w"
  shows "length (takeWhile (\<lambda>f. f \<noteq> w) (remove1 c xs @ [c])) < length (takeWhile (\<lambda>f. f \<noteq> w) xs)"
  using assms
proof (induction xs)
  case Nil
  then show ?case by simp
next
  case (Cons x xs)
  show ?case
  proof (cases "x = c")
    case True
    with Cons.prems have "w \<in> set xs" by auto
    then show ?thesis using True Cons.prems by (simp add: takeWhile_append1)
  next
    case False
    have "x \<noteq> w" using Cons.prems False by (auto split: if_splits)
    then show ?thesis using Cons False by (auto split: if_splits)
  qed
qed

lemma unat_neq_word_of_nat: "k < 256 \<Longrightarrow> (unat f \<noteq> k) = (f \<noteq> (word_of_nat k :: u8))"
  by (simp add: word_unat_eq_iff)

interpretation lru: fair_arbitration choose_lru update_lru policy_wf ports_of lru_rank
proof
  fix a :: arbiter and av :: "int list"
  assume wf: "policy_wf a" and len: "length av = ports_of a"
  note lru = policy_wf_lru [OF wf]
  have n: "ports_of a \<le> 255" by (rule policy_wf_ports_le [OF wf])
  { assume "\<forall>k<ports_of a. av ! k \<le> 0"
    then have "find (\<lambda>f. av ! unat f > 0) (lru_index a) = None"
      using lru by (auto simp: find_None_iff not_less)
    then show "choose_lru a av = Inr no_choice" by (simp add: lru_choice [OF wf len]) }
  { fix k assume k: "k < ports_of a" "av ! k > 0"
    then have w: "(word_of_nat k :: u8) \<in> set (lru_index a)" "av ! unat (word_of_nat k :: u8) > 0"
      using lru n by simp_all
    then obtain f where f: "find (\<lambda>f. av ! unat f > 0) (lru_index a) = Some f"
      by (cases "find (\<lambda>f. av ! unat f > 0) (lru_index a)") (auto simp: find_None_iff)
    then have "f \<in> set (lru_index a)" "av ! unat f > 0" by (auto simp: find_Some_iff)
    then show "\<exists>c. choose_lru a av = Inr c \<and> unat c < ports_of a \<and> av ! unat c > 0"
      using lru f by (auto simp: lru_choice [OF wf len])
    fix c s' assume c: "choose_lru a av = Inr c" "unat c \<noteq> k" "update_lru a c = Inr s'"
    then have "f = c" using f by (simp add: lru_choice [OF wf len])
    then have "unat c < ports_of a" using \<open>f \<in> set (lru_index a)\<close> lru by simp
    then have s': "s' = a\<lparr>lru_index := remove1 c (lru_index a) @ [c]\<rparr>"
      using c(3) update_lru_eq [OF wf, of c] by simp
    have "c \<noteq> word_of_nat k" using c(2) k n unat_neq_word_of_nat [of k c] by simp
    then show "lru_rank s' k < lru_rank a k"
      using lru_rank_decreases [OF lru(2) w(1) w(2) f] k n \<open>f = c\<close>
      by (simp add: lru_rank_def s' unat_neq_word_of_nat) }
next
  fix a k
  assume wf: "policy_wf a" and k: "k < ports_of a"
  then have "(word_of_nat k :: u8) \<in> set (lru_index a)"
    using policy_wf_lru(3) [OF wf] policy_wf_ports_le [OF wf] by simp
  then have "lru_rank a k < length (lru_index a)"
    using k policy_wf_ports_le [OF wf]
    by (auto simp: lru_rank_def unat_neq_word_of_nat intro: length_takeWhile_less)
  then show "lru_rank a k < ports_of a" using policy_wf_lru(1) [OF wf] by simp
next
  fix a and c :: u8
  assume "policy_wf a" "unat c < ports_of a"
  then show "\<exists>s'. update_lru a c = Inr s' \<and> policy_wf s' \<and> ports_of s' = ports_of a"
    using update_lru_eq remove1_snoc_wf by auto
qed (rule policy_wf_ports_le)

subsection \<open>Round robin\<close>

lemma unat_rr_index:
  assumes wf: "policy_wf a" and i: "i < ports_of a"
  shows "unat (rr_index a i) = (unat (last_used a) + 1 + i) mod ports_of a"
proof -
  have b: "unat (last_used a) < 128" "i < 128" using wf i by (auto simp: policy_wf_def)
  then have "sint (last_used a) + 1 + int i = int (unat (last_used a) + 1 + i)"
    by (simp add: sint_eq_uint_small_u8)
  then have e: "word_of_int (sint (last_used a) + 1 + int i) = (word_of_nat (unat (last_used a) + 1 + i) :: u32)"
    by (metis of_int_of_nat_eq)
  have u: "unat (word_of_nat (unat (last_used a) + 1 + i) :: u32) = unat (last_used a) + 1 + i"
    by (rule unat_word_of_nat_u32) (use b in simp)
  show ?thesis by (simp only: rr_index_def unat_mod e u)
qed

definition rr_rank :: "arbiter \<Rightarrow> nat \<Rightarrow> nat" where
  "rr_rank a k = (k + ports_of a - 1 - unat (last_used a)) mod ports_of a"

lemma rr_rank_step:
  assumes k: "k = (l + 1 + r) mod n" and "i < r" "r < n" "l < (n :: nat)"
  shows "(k + n - 1 - (l + 1 + i) mod n) mod n < r"
proof -
  have "k + n - 1 - (l + 1 + i) mod n \<in> {r - i - 1, n + (r - i - 1)}"
  proof (cases "l + 1 + r < n")
    case True
    then show ?thesis using assms by (simp add: add.commute)
  next
    case False
    then have "k = l + 1 + r - n" using assms by (simp add: le_mod_geq)
    then show ?thesis using False assms by (cases "l + 1 + i < n") (auto simp: le_mod_geq)
  qed
  moreover have "r - i - 1 < r" "r - i - 1 < n" using assms by auto
  ultimately show ?thesis by auto
qed

interpretation rr: fair_arbitration choose_round_robin "\<lambda>a c. Inr (update_round_robin a c)"
  policy_wf ports_of rr_rank
proof
  fix a :: arbiter and av :: "int list"
  assume wf: "policy_wf a" and len: "length av = ports_of a"
  let ?n = "ports_of a" and ?l = "unat (last_used a)"
  let ?P = "\<lambda>i. av ! unat (rr_index a i) > 0"
  have nz: "nb_fifos a \<noteq> 0" and n: "?n \<le> 128" "0 < ?n" "?l < ?n" using wf by (auto simp: policy_wf_def)
  have idx: "unat (ucast (rr_index a i) :: u8) = unat (rr_index a i)" for i
    using n by (simp add: unsigned_ucast_eq rr_index_def unat_mod take_bit_nat_eq_self
        less_le_trans [OF mod_less_divisor])
  have rr_lt: "unat (rr_index a i) < ?n" for i
    using n by (simp add: rr_index_def unat_mod)
  note eq = choose_round_robin_eq [OF len nz]
  { assume "\<forall>k<?n. av ! k \<le> 0"
    then have "find ?P (fifo_range a) = None"
      using rr_lt by (simp add: find_None_iff not_less)
    then show "choose_round_robin a av = Inr no_choice" by (simp add: eq) }
  { fix k assume k: "k < ?n" "av ! k > 0"
    let ?r = "rr_rank a k"
    have r: "?r < ?n" using n by (simp add: rr_rank_def)
    have "(?l + 1 + ?r) mod ?n = (?l + 1 + (k + ?n - 1 - ?l)) mod ?n"
      unfolding rr_rank_def by (rule mod_add_right_eq)
    also have "\<dots> = k" using n k by simp
    finally have rk: "unat (rr_index a ?r) = k" using unat_rr_index [OF wf r] by simp
    then obtain i where i: "find ?P (fifo_range a) = Some i" "i < ?n" "?P i"
      using find_upt_hit [of ?r ?n ?P] r k by auto
    then show "\<exists>c. choose_round_robin a av = Inr c \<and> unat c < ?n \<and> av ! unat c > 0"
      using unat_rr_index [OF wf] n by (auto simp: eq idx)
    fix c s'
    assume c: "choose_round_robin a av = Inr c" "unat c \<noteq> k" "Inr (update_round_robin a c) = (Inr s' :: arbiter result)"
    have "i \<le> ?r" using i(1) k rk by (metis find_upt_Some_iff not_le)
    moreover have ci: "unat c = (?l + 1 + i) mod ?n"
      using c(1) i unat_rr_index [OF wf i(2)] idx [of i] by (auto simp: eq)
    ultimately have "i < ?r" using c(2) rk unat_rr_index [OF wf r] by (metis le_neq_implies_less)
    have "rr_rank s' k = (k + ?n - 1 - (?l + 1 + i) mod ?n) mod ?n"
      using c(3) ci by (auto simp: rr_rank_def update_round_robin_def)
    also have "\<dots> < ?r"
      using rr_rank_step [OF _ \<open>i < ?r\<close> r n(3)] rk unat_rr_index [OF wf r] by simp
    finally show "rr_rank s' k < ?r" . }
next
  fix a c
  assume "policy_wf a" "unat (c :: u8) < ports_of a"
  then show "\<exists>s'. Inr (update_round_robin a c) = (Inr s' :: arbiter result) \<and> policy_wf s' \<and> ports_of s' = ports_of a"
    by (auto simp: policy_wf_def update_round_robin_def)
next
  fix a k
  assume "policy_wf a"
  then show "rr_rank a k < ports_of a" by (simp add: rr_rank_def policy_wf_def)
qed (rule policy_wf_ports_le)

end
