(* ===== verification/Arbiter_Facts.thy ===== *)
theory Arbiter_Facts
  imports Arbiter_Policies
begin

text \<open>
  Further facts on the arbiter: the least-recently-used register against its history, the
  shift register of the random mode, the register of the fifo mode against a plain queue, the
  frame of \<open>update\<close>, and what happens beyond the port counts the 8-bit fields can represent.
\<close>

section \<open>The least-recently-used register records the history\<close>

lemma remdups_snoc: "remdups (xs @ [x]) = filter (\<lambda>y. y \<noteq> x) (remdups xs) @ [x]"
  by (induction xs) auto

lemma remove1_distinct_filter: "distinct xs \<Longrightarrow> remove1 x xs = filter (\<lambda>y. y \<noteq> x) xs"
proof (induction xs)
  case (Cons y ys)
  then show ?case by (cases "y = x") (auto simp: filter_id_conv eq_commute [of ys])
qed simp

lemma update_lru_history:
  assumes "policy_wf a" "\<forall>c\<in>set h. unat c < unat (nb_fifos a)"
  shows "\<exists>b. for_each (\<lambda>c s. update_lru s c) h a = Inr b \<and> policy_wf b \<and> nb_fifos b = nb_fifos a \<and>
    lru_index b = filter (\<lambda>f. f \<notin> set h) (lru_index a) @ remdups h"
  using assms(2)
proof (induction h rule: rev_induct)
  case Nil
  then show ?case using assms(1) by simp
next
  case (snoc c h)
  then obtain b where b: "for_each (\<lambda>c s. update_lru s c) h a = Inr b" "policy_wf b"
    "nb_fifos b = nb_fifos a" "lru_index b = filter (\<lambda>f. f \<notin> set h) (lru_index a) @ remdups h"
    by auto
  have c: "unat c < unat (nb_fifos b)" using snoc.prems b by simp
  have "distinct (lru_index b)" by (rule policy_wf_lru [OF b(2)])
  then have "remove1 c (lru_index b) @ [c] =
      filter (\<lambda>f. f \<notin> set (h @ [c])) (lru_index a) @ remdups (h @ [c])"
    by (simp add: remove1_distinct_filter remdups_snoc b(4) conj_commute)
  then show ?case
    using b update_lru_eq [OF b(2) c] remove1_snoc_wf [OF b(2) c]
    by (simp add: for_each_append)
qed

section \<open>The shift register\<close>

text \<open>The low bit shifted in is the parity of the taps 1, 6 and 16, whatever the sign.\<close>

lemma rand_retro_parity:
  "odd (rand_retro l) \<longleftrightarrow> odd (sint l div 2 ^ 1 + sint l div 2 ^ 6 + sint l div 2 ^ 16)"
  unfolding rand_retro_def by (rule odd_smod_2)

lemma update_rand_uint:
  "uint (lfsr (update_rand a)) = (2 * sint (lfsr a) + rand_retro (lfsr a)) mod 2 ^ 32"
proof -
  have "push_bit 1 (lfsr a) = 2 * lfsr a" by (simp add: push_bit_eq_mult mult.commute)
  also have "\<dots> = word_of_int (2 * sint (lfsr a))" by simp
  finally have "lfsr (update_rand a) = word_of_int (2 * sint (lfsr a) + rand_retro (lfsr a))"
    by (simp add: update_rand_def)
  then have "uint (lfsr (update_rand a)) = uint (word_of_int (2 * sint (lfsr a) + rand_retro (lfsr a)) :: i32)"
    by (simp only:)
  then show ?thesis by (simp only: uint_word_of_int) simp
qed

text \<open>The set of states whose 17 low bits are all zero is never entered from outside.\<close>

lemma dvd_of_double:
  fixes s r :: int
  assumes "2 ^ 17 dvd (2 * s + r)" and r: "r \<in> {-1, 0, 1}"
    and par: "odd r \<longleftrightarrow> odd (s div 2 ^ 1 + s div 2 ^ 6 + s div 2 ^ 16)"
  shows "2 ^ 17 dvd s"
proof -
  have "even (2 * s + r)" using assms(1) by (rule dvd_trans [rotated]) simp
  then have "r = 0" using r by auto
  with assms(1) have "2 * 2 ^ 16 dvd 2 * s" by simp
  then have "2 ^ 16 dvd s" by (subst (asm) dvd_mult_cancel_left) simp
  then obtain t where t: "s = 2 ^ 16 * t" by (rule dvdE)
  have "s div 2 ^ 1 = 2 * (2 ^ 14 * t)" "s div 2 ^ 6 = 2 * (2 ^ 9 * t)" "s div 2 ^ 16 = t"
    by (simp_all add: t)
  then have "even t" using par \<open>r = 0\<close> by simp
  then show ?thesis by (auto simp: t elim!: evenE)
qed

lemma update_rand_low_bits:
  assumes "\<not> 2 ^ 17 dvd uint (lfsr a)"
  shows "\<not> 2 ^ 17 dvd uint (lfsr (update_rand a))"
proof
  let ?s = "sint (lfsr a)" and ?r = "rand_retro (lfsr a)"
  have dvd: "(2 :: int) ^ 17 dvd 2 ^ 32" by (simp add: le_imp_power_dvd)
  assume "2 ^ 17 dvd uint (lfsr (update_rand a))"
  then have "2 ^ 17 dvd 2 * ?s + ?r"
    by (simp only: update_rand_uint dvd_mod_iff [OF dvd])
  then have "2 ^ 17 dvd ?s"
    by (rule dvd_of_double) (use smod_2_cases rand_retro_parity in \<open>auto simp: rand_retro_def\<close>)
  moreover have "uint (lfsr a) = ?s mod 2 ^ 32" by (simp add: uint_sint take_bit_eq_mod)
  ultimately have "2 ^ 17 dvd uint (lfsr a)" by (simp only: dvd_mod_iff [OF dvd])
  with assms show False ..
qed

lemma update_rand_iterate:
  "\<not> 2 ^ 17 dvd uint (lfsr a) \<Longrightarrow> \<not> 2 ^ 17 dvd uint (lfsr ((update_rand ^^ n) a))"
proof (induction n)
  case (Suc n)
  then show ?case using update_rand_low_bits [of "(update_rand ^^ n) a"] by simp
qed simp

section \<open>The arrival register as a queue\<close>

definition arrival_queue :: "arbiter \<Rightarrow> u8 list" where
  "arrival_queue a = take (unat (in_fifos a)) (pushs_in_fifos a)"

definition register_wf :: "arbiter \<Rightarrow> bool" where
  "register_wf a \<longleftrightarrow> unat (in_fifos a) \<le> length (pushs_in_fifos a) \<and> length (pushs_in_fifos a) < 2 ^ 32"

lemma length_arrival_queue: "register_wf a \<Longrightarrow> length (arrival_queue a) = unat (in_fifos a)"
  by (simp add: arrival_queue_def register_wf_def)

lemma arrival_queue_empty_iff: "register_wf a \<Longrightarrow> arrival_queue a = [] \<longleftrightarrow> in_fifos a = 0"
  by (auto simp: arrival_queue_def register_wf_def unsigned_eq_0_iff)

lemma choose_fifo_queue:
  assumes "register_wf a"
  shows "choose_fifo a = Inr (case arrival_queue a of [] \<Rightarrow> - 1 | f # _ \<Rightarrow> ucast f)"
proof (cases "in_fifos a = 0")
  case True
  then show ?thesis by (simp add: choose_fifo_def arrival_queue_def)
next
  case False
  then have "0 < unat (in_fifos a)" by (simp add: unat_gt_0)
  then obtain n where n: "unat (in_fifos a) = Suc n" by (cases "unat (in_fifos a)") auto
  then obtain f fs where "pushs_in_fifos a = f # fs"
    using assms by (cases "pushs_in_fifos a") (auto simp: register_wf_def)
  then show ?thesis using False n by (simp add: choose_fifo_def arrival_queue_def)
qed

lemma update_fifo_queue:
  assumes wf: "register_wf a" and c: "c \<in> set (arrival_queue a)"
  shows "\<exists>xs. update_fifo a c = Inr (a\<lparr>pushs_in_fifos := xs, in_fifos := in_fifos a - 1\<rparr>) \<and>
    length xs = length (pushs_in_fifos a) \<and>
    take (unat (in_fifos a - 1)) xs = remove1 c (arrival_queue a)"
proof -
  let ?n = "unat (in_fifos a)" and ?xs = "pushs_in_fifos a"
  let ?D = "remove1 c (take ?n ?xs)"
  have n: "?n \<le> length ?xs" and c': "c \<in> set (take ?n ?xs)"
    using wf c by (auto simp: register_wf_def arrival_queue_def)
  then have n0: "0 < ?n" by (cases ?n) auto
  have D: "length ?D = ?n - 1" using c' n by (simp add: length_remove1)
  have "for_each (shift_step (\<lambda>x. x = c)) [0..<?n] (False, ?xs) = Inr (True, ?D @ drop (?n - 1) ?xs)"
    using shift_loop [OF n, of "\<lambda>x. x = c"] c' by (auto simp: del_first_eq_remove1)
  moreover have "unat (in_fifos a - 1) = ?n - 1" using n0 by (simp add: unat_sub_if')
  ultimately show ?thesis
    using n D n0 by (auto simp: update_fifo_def arrival_queue_def)
qed

lemma update_fifo_underflow:
  assumes "in_fifos a = 0"
  shows "update_fifo a c = Inr (a\<lparr>in_fifos := - 1\<rparr>)"
  using assms by (simp add: update_fifo_def)

lemma pushed_in_fifo_queue:
  assumes wf: "register_wf a" and room: "Suc (length (arrival_queue a)) < length (pushs_in_fifos a)"
  shows "\<exists>b. pushed_in_fifo a f = Inr b \<and> register_wf b \<and> arrival_queue b = arrival_queue a @ [f] \<and>
    b = a\<lparr>pushs_in_fifos := pushs_in_fifos b, in_fifos := in_fifos b\<rparr> \<and>
    length (pushs_in_fifos b) = length (pushs_in_fifos a)"
proof -
  let ?n = "unat (in_fifos a)"
  have n: "Suc ?n < length (pushs_in_fifos a)" "length (pushs_in_fifos a) < 2 ^ 32"
    using room wf length_arrival_queue [OF wf] by (auto simp: register_wf_def)
  then have "unat (in_fifos a + 1) = Suc ?n" by (subst unat_add_lem [THEN iffD1]) auto
  then show ?thesis
    using n by (auto simp: pushed_in_fifo_def register_wf_def arrival_queue_def take_Suc_conv_app_nth)
qed

text \<open>The assertion fires one entry before the vector is full.\<close>

lemma pushed_in_fifo_assert:
  assumes wf: "register_wf a" and full: "Suc (length (arrival_queue a)) = length (pushs_in_fifos a)"
  shows "pushed_in_fifo a f = Inl Assert_failed"
proof -
  let ?n = "unat (in_fifos a)"
  have n: "Suc ?n = length (pushs_in_fifos a)" "length (pushs_in_fifos a) < 2 ^ 32"
    using full wf length_arrival_queue [OF wf] by (auto simp: register_wf_def)
  then have "unat (in_fifos a + 1) = Suc ?n" by (subst unat_add_lem [THEN iffD1]) auto
  then show ?thesis using n by (simp add: pushed_in_fifo_def)
qed

section \<open>One update of all policies\<close>

lemma update_rand_frame:
  "nb_fifos (update_rand a) = nb_fifos a" "lru_index (update_rand a) = lru_index a"
  "pushs_in_fifos (update_rand a) = pushs_in_fifos a" "in_fifos (update_rand a) = in_fifos a"
  "last_used (update_rand a) = last_used a" "next_id (update_rand a) = next_id a"
  "fifo_depth (update_rand a) = fifo_depth a"
  by (simp_all add: update_rand_def)

lemma update_all:
  assumes wf: "policy_wf a" and reg: "register_wf a"
    and c: "unat c < unat (nb_fifos a)" and q: "c \<in> set (arrival_queue a)"
  shows "\<exists>b. update a c = Inr b \<and> policy_wf b \<and> register_wf b \<and>
    arrival_queue b = remove1 c (arrival_queue a) \<and>
    lru_index b = remove1 c (lru_index a) @ [c] \<and> last_used b = c \<and>
    lfsr b = lfsr (update_rand a) \<and> nb_fifos b = nb_fifos a \<and> next_id b = next_id a \<and>
    fifo_depth b = fifo_depth a \<and> length (pushs_in_fifos b) = length (pushs_in_fifos a)"
proof -
  let ?a0 = "update_rand a"
  have wf0: "policy_wf ?a0" using wf by (simp add: policy_wf_def update_rand_frame)
  let ?a1 = "?a0\<lparr>lru_index := remove1 c (lru_index a) @ [c]\<rparr>"
  have lru: "update_lru ?a0 c = Inr ?a1" "policy_wf ?a1"
    using update_lru_eq [OF wf0, of c] remove1_snoc_wf [OF wf0, of c] c
    by (simp_all add: update_rand_frame)
  have reg1: "register_wf ?a1" "c \<in> set (arrival_queue ?a1)"
    using reg q by (simp_all add: register_wf_def arrival_queue_def update_rand_frame)
  from update_fifo_queue [OF this] obtain xs where
    "update_fifo ?a1 c = Inr (?a1\<lparr>pushs_in_fifos := xs, in_fifos := in_fifos a - 1\<rparr>)"
    "length xs = length (pushs_in_fifos a)"
    "take (unat (in_fifos a - 1)) xs = remove1 c (arrival_queue a)"
    by (auto simp: arrival_queue_def update_rand_frame)
  moreover have "0 < unat (in_fifos a)" using q by (cases "unat (in_fifos a)") (auto simp: arrival_queue_def)
  then have "unat (in_fifos a - 1) \<le> unat (in_fifos a)" by (simp add: unat_sub_if')
  ultimately show ?thesis
    using lru reg c
    by (auto simp: update_def update_round_robin_def policy_wf_def register_wf_def
        arrival_queue_def update_rand_frame)
qed

section \<open>Beyond 128 and 255 ports\<close>

text \<open>
  From 256 ports on, the index 255 cannot be told from "no fifo". From 129 ports on, an index
  above 127 is negative as a \<open>char\<close>: the register of \<open>LRU\<close> never finds it and overwrites its
  last entry instead.
\<close>

lemma update_lru_large_index:
  assumes wf: "length (lru_index a) = unat (nb_fifos a)" "0 < unat (nb_fifos a)" and c: "128 \<le> unat c"
  shows "update_lru a c = Inr (a\<lparr>lru_index := (lru_index a)[unat (nb_fifos a) - 1 := c]\<rparr>)"
proof -
  have "sint c < 0"
  proof -
    have "uint c < 256" using uint_lt2p [of c] by simp
    moreover have "128 \<le> int (unat c)" using c by linarith
    then have "128 \<le> uint c" by simp
    ultimately have "uint c div 128 = 1" by linarith
    then have "bit (uint c) 7" by (simp add: bit_iff_odd)
    then show ?thesis by (simp add: sint_uint signed_take_bit_negative_iff)
  qed
  then have "\<not> (\<exists>x. uint (x :: u8) = sint c)" using uint_ge_0 by (metis not_le)
  then have "for_each (shift_step (\<lambda>x. uint x = sint c)) (fifo_range a) (False, lru_index a) =
      Inr (False, lru_index a)"
    using shift_loop [of "unat (nb_fifos a)" "lru_index a" "\<lambda>x. uint x = sint c"] wf by auto
  moreover have "unat (nb_fifos a - 1) = unat (nb_fifos a) - 1" using wf by (simp add: unat_sub_if')
  ultimately show ?thesis using wf by (simp add: update_lru_def)
qed

end
