(* ===== verification/Sc_Fifo.thy ===== *)
theory Sc_Fifo
  imports Prelude
begin

text \<open>
  \<open>sysc/communication/sc_fifo.h\<close>: the bounded channel between a router and an arbiter. A
  ring buffer holds the elements; a second set of counters makes the writes of an evaluation
  phase invisible to the reader, and its reads invisible to the writer, until the update
  phase. The indices are \<open>int\<close>s that stay between 0 and \<open>m_size\<close>; they are natural numbers
  here, and the differences the interface returns are integers.
\<close>

section \<open>State\<close>

record 'a sc_fifo =
  m_size :: nat
  m_buf :: "'a list"
  m_free :: nat
  m_ri :: nat
  m_wi :: nat
  m_reader :: "nat option"
  m_writer :: "nat option"
  m_num_readable :: nat
  m_num_read :: nat
  m_num_written :: nat
  update_requested :: bool

text \<open>The interface a port asks for when it binds.\<close>

datatype port_kind = Fifo_in_if | Fifo_out_if | Other_if

section \<open>Construction and binding\<close>

text \<open>\<open>T()\<close>, the value of a fresh or cleared slot, is the parameter \<open>dflt\<close>.\<close>

definition buf_init :: "'a \<Rightarrow> int \<Rightarrow> (nat \<times> 'a list \<times> nat \<times> nat \<times> nat) result" where
  "buf_init dflt isize =
     (if isize \<le> 0 then Inl Sc_report_error
      else Inr (nat isize, replicate (nat isize) dflt, nat isize, 0, 0))"

definition fifo_init :: "'a \<Rightarrow> int \<Rightarrow> 'a sc_fifo result" where
  "fifo_init dflt isize =
     bind_result (buf_init dflt isize) (\<lambda>(sz, buf, fr, ri, wi).
       Inr \<lparr>m_size = sz, m_buf = buf, m_free = fr, m_ri = ri, m_wi = wi,
            m_reader = None, m_writer = None,
            m_num_readable = 0, m_num_read = 0, m_num_written = 0, update_requested = False\<rparr>)"

definition fifo_register_port :: "'a sc_fifo \<Rightarrow> nat \<Rightarrow> port_kind \<Rightarrow> 'a sc_fifo result" where
  "fifo_register_port f port nm =
     (case nm of
        Fifo_in_if \<Rightarrow>
          (if m_reader f \<noteq> None then Inl Sc_report_error else Inr (f\<lparr>m_reader := Some port\<rparr>))
      | Fifo_out_if \<Rightarrow>
          (if m_writer f \<noteq> None then Inl Sc_report_error else Inr (f\<lparr>m_writer := Some port\<rparr>))
      | Other_if \<Rightarrow> Inl Sc_report_error)"

section \<open>The ring buffer\<close>

definition buf_write :: "'a sc_fifo \<Rightarrow> 'a \<Rightarrow> bool \<times> 'a sc_fifo" where
  "buf_write f v0 =
     (if m_free f = 0 then (False, f)
      else (True, f\<lparr>m_buf := (m_buf f)[m_wi f := v0], m_wi := (m_wi f + 1) mod m_size f,
                   m_free := m_free f - 1\<rparr>))"

text \<open>The result is \<open>None\<close> when \<open>val_\<close> is left as it was.\<close>

definition buf_read :: "'a \<Rightarrow> 'a sc_fifo \<Rightarrow> 'a option \<times> 'a sc_fifo" where
  "buf_read dflt f =
     (if m_free f = m_size f then (None, f)
      else (Some (m_buf f ! m_ri f),
            f\<lparr>m_buf := (m_buf f)[m_ri f := dflt], m_ri := (m_ri f + 1) mod m_size f,
              m_free := m_free f + 1\<rparr>))"

section \<open>The interface\<close>

definition num_available :: "'a sc_fifo \<Rightarrow> int" where
  "num_available f = int (m_num_readable f) - int (m_num_read f)"

definition num_free :: "'a sc_fifo \<Rightarrow> int" where
  "num_free f = int (m_size f) - int (m_num_readable f) - int (m_num_written f)"

text \<open>
  The blocking operations: \<open>None\<close> says that the calling thread waits for the event of the
  other side and tries again. \<open>read\<close> returns \<open>T tmp\<close>, which keeps its default value when the
  buffer is empty.
\<close>

definition fifo_read :: "'a \<Rightarrow> 'a sc_fifo \<Rightarrow> ('a \<times> 'a sc_fifo) option" where
  "fifo_read dflt f =
     (if num_available f = 0 then None
      else (case buf_read dflt (f\<lparr>m_num_read := m_num_read f + 1\<rparr>) of
              (v, f') \<Rightarrow> Some (case v of Some x \<Rightarrow> x | None \<Rightarrow> dflt, f'\<lparr>update_requested := True\<rparr>)))"

definition fifo_write :: "'a \<Rightarrow> 'a sc_fifo \<Rightarrow> 'a sc_fifo option" where
  "fifo_write v0 f =
     (if num_free f = 0 then None
      else (case buf_write (f\<lparr>m_num_written := m_num_written f + 1\<rparr>) v0 of
              (_, f') \<Rightarrow> Some (f'\<lparr>update_requested := True\<rparr>)))"

text \<open>The non-blocking operations; \<open>nb_read\<close> leaves the caller's variable \<open>val_\<close> alone when it fails.\<close>

definition nb_read :: "'a \<Rightarrow> 'a \<Rightarrow> 'a sc_fifo \<Rightarrow> bool \<times> 'a \<times> 'a sc_fifo" where
  "nb_read dflt v0 f =
     (if num_available f = 0 then (False, v0, f)
      else (case buf_read dflt (f\<lparr>m_num_read := m_num_read f + 1\<rparr>) of
              (v, f') \<Rightarrow> (True, case v of Some x \<Rightarrow> x | None \<Rightarrow> v0, f'\<lparr>update_requested := True\<rparr>)))"

definition nb_write :: "'a \<Rightarrow> 'a sc_fifo \<Rightarrow> bool \<times> 'a sc_fifo" where
  "nb_write v0 f =
     (if num_free f = 0 then (False, f)
      else (case buf_write (f\<lparr>m_num_written := m_num_written f + 1\<rparr>) v0 of
              (_, f') \<Rightarrow> (True, f'\<lparr>update_requested := True\<rparr>)))"

text \<open>
  The update phase; the two booleans say which of the events \<open>data_read\<close> and \<open>data_written\<close>
  are notified for the next delta cycle.
\<close>

definition fifo_update :: "'a sc_fifo \<Rightarrow> bool \<times> bool \<times> 'a sc_fifo" where
  "fifo_update f =
     (m_num_read f > 0, m_num_written f > 0,
      f\<lparr>m_num_readable := m_size f - m_free f, m_num_read := 0, m_num_written := 0,
        update_requested := False\<rparr>)"

text \<open>
  \<open>print\<close>: the \<open>do ... while( i != m_wi )\<close> loop over the slots. A full ring comes back to
  \<open>m_wi\<close> after \<open>m_size\<close> rounds, so \<open>m_size\<close> is enough fuel.
\<close>

fun print_loop :: "nat \<Rightarrow> 'a sc_fifo \<Rightarrow> nat \<Rightarrow> 'a list" where
  "print_loop 0 f i = []"
| "print_loop (Suc fuel) f i =
     m_buf f ! i #
       (let j = (i + 1) mod m_size f in if j \<noteq> m_wi f then print_loop fuel f j else [])"

definition fifo_print :: "'a sc_fifo \<Rightarrow> 'a list" where
  "fifo_print f = (if m_free f \<noteq> m_size f then print_loop (m_size f) f (m_ri f) else [])"

section \<open>Invariant and abstraction\<close>

definition stored :: "'a sc_fifo \<Rightarrow> nat" where
  "stored f = m_size f - m_free f"

definition fifo_wf :: "'a sc_fifo \<Rightarrow> bool" where
  "fifo_wf f \<longleftrightarrow> 0 < m_size f \<and> length (m_buf f) = m_size f \<and> m_free f \<le> m_size f \<and>
     m_ri f < m_size f \<and> m_wi f = (m_ri f + stored f) mod m_size f \<and>
     m_num_read f \<le> m_num_readable f \<and>
     stored f + m_num_read f = m_num_readable f + m_num_written f \<and>
     m_num_readable f + m_num_written f \<le> m_size f"

text \<open>The elements in the ring, oldest first; what the reader sees, and what it does not see yet.\<close>

definition contents :: "'a sc_fifo \<Rightarrow> 'a list" where
  "contents f = ring (m_buf f) (m_size f) (m_ri f) (stored f)"

definition visible :: "'a sc_fifo \<Rightarrow> 'a list" where
  "visible f = take (m_num_readable f - m_num_read f) (contents f)"

definition pending :: "'a sc_fifo \<Rightarrow> 'a list" where
  "pending f = drop (m_num_readable f - m_num_read f) (contents f)"

lemma contents_split: "contents f = visible f @ pending f"
  by (simp add: visible_def pending_def)

lemma length_contents [simp]: "length (contents f) = stored f"
  by (simp add: contents_def)

lemma fifo_wf_stored:
  assumes "fifo_wf f"
  shows "stored f \<le> m_size f" "m_free f = m_size f - stored f"
    "m_num_readable f - m_num_read f \<le> stored f" "m_num_written f \<le> stored f"
  using assms by (auto simp: fifo_wf_def stored_def)

lemma num_available_visible: "fifo_wf f \<Longrightarrow> num_available f = int (length (visible f))"
  by (auto simp: fifo_wf_def num_available_def visible_def)

lemma num_free_bounds: "fifo_wf f \<Longrightarrow> 0 \<le> num_free f \<and> num_free f \<le> int (m_size f) - int (stored f)"
  by (auto simp: fifo_wf_def num_free_def)

lemma length_pending: "fifo_wf f \<Longrightarrow> length (pending f) = m_num_written f"
  by (auto simp: fifo_wf_def pending_def)

section \<open>What the operations do\<close>

text \<open>A write appends behind everything, is not yet readable and uses one free place.\<close>

lemma fifo_write_spec:
  assumes wf: "fifo_wf f"
  shows "fifo_write x f = None \<longleftrightarrow> num_free f = 0"
    and "fifo_write x f = Some g \<Longrightarrow> fifo_wf g \<and> visible g = visible f \<and>
      pending g = pending f @ [x] \<and> num_free g = num_free f - 1 \<and> m_size g = m_size f \<and>
      m_num_read g = m_num_read f \<and> update_requested g"
proof -
  show "fifo_write x f = None \<longleftrightarrow> num_free f = 0" by (simp add: fifo_write_def split: prod.splits)
  assume w: "fifo_write x f = Some g"
  then have nf: "num_free f \<noteq> 0" by (auto simp: fifo_write_def)
  then have fr: "m_free f \<noteq> 0" using wf num_free_bounds [OF wf] by (auto simp: fifo_wf_def stored_def)
  have g: "g = f\<lparr>m_num_written := m_num_written f + 1, m_buf := (m_buf f)[m_wi f := x],
      m_wi := (m_wi f + 1) mod m_size f, m_free := m_free f - 1, update_requested := True\<rparr>"
    using w nf fr by (auto simp: fifo_write_def buf_write_def)
  have st: "stored g = Suc (stored f)" using wf fr by (auto simp: g stored_def fifo_wf_def)
  have "stored f < m_size f" using wf fr by (auto simp: stored_def fifo_wf_def)
  then have c: "contents g = contents f @ [x]"
    using wf unfolding contents_def st by (simp add: g fifo_wf_def ring_snoc)
  note st
  moreover have "m_num_readable f + m_num_written f < m_size f"
    using nf wf by (auto simp: num_free_def fifo_wf_def)
  moreover have "(m_wi f + 1) mod m_size f = (m_ri f + Suc (stored f)) mod m_size f"
    using wf by (simp add: fifo_wf_def mod_simps)
  ultimately have "fifo_wf g" using wf fr by (auto simp: fifo_wf_def g)
  moreover have "m_num_readable f - m_num_read f \<le> stored f" by (rule fifo_wf_stored [OF wf])
  then have "visible g = visible f" "pending g = pending f @ [x]"
    by (simp_all add: visible_def pending_def c) (simp_all add: g)
  ultimately show "fifo_wf g \<and> visible g = visible f \<and> pending g = pending f @ [x] \<and>
      num_free g = num_free f - 1 \<and> m_size g = m_size f \<and> m_num_read g = m_num_read f \<and> update_requested g"
    by (simp add: g num_free_def)
qed

text \<open>A read takes the oldest visible element; the place it frees is not yet writable.\<close>

lemma fifo_read_spec:
  assumes wf: "fifo_wf f"
  shows "fifo_read d f = None \<longleftrightarrow> visible f = []"
    and "fifo_read d f = Some (x, g) \<Longrightarrow> fifo_wf g \<and> visible f = x # visible g \<and>
      pending g = pending f \<and> num_free g = num_free f \<and> m_size g = m_size f \<and>
      m_num_read g = Suc (m_num_read f) \<and> update_requested g"
proof -
  show "fifo_read d f = None \<longleftrightarrow> visible f = []"
    by (simp add: fifo_read_def num_available_visible [OF wf] split: prod.splits)
  assume r: "fifo_read d f = Some (x, g)"
  then have na: "m_num_read f < m_num_readable f"
    using wf by (cases "m_num_readable f = m_num_read f")
      (auto simp: fifo_read_def num_available_def fifo_wf_def)
  then have fr: "m_free f \<noteq> m_size f" using wf by (auto simp: fifo_wf_def stored_def)
  have g: "x = m_buf f ! m_ri f" "g = f\<lparr>m_num_read := m_num_read f + 1, m_buf := (m_buf f)[m_ri f := d],
      m_ri := (m_ri f + 1) mod m_size f, m_free := m_free f + 1, update_requested := True\<rparr>"
    using r fr na by (auto simp: fifo_read_def buf_read_def num_available_def)
  have st: "stored f = Suc (stored g)" using wf fr by (auto simp: g stored_def fifo_wf_def)
  moreover have "stored f \<le> m_size f" by (simp add: stored_def)
  ultimately have c: "contents f = x # contents g"
    using wf unfolding contents_def st
    by (subst ring_cons [where x = d]) (simp_all add: g fifo_wf_def)
  have wi: "m_wi f = ((m_ri f + 1) mod m_size f + stored g) mod m_size f"
    using wf by (simp add: fifo_wf_def st mod_simps)
  have "fifo_wf g" using wf st na fr wi by (auto simp: fifo_wf_def g stored_def)
  moreover have "m_num_readable f - m_num_read f = Suc (m_num_readable g - m_num_read g)"
    using na by (auto simp: g)
  ultimately show "fifo_wf g \<and> visible f = x # visible g \<and> pending g = pending f \<and>
      num_free g = num_free f \<and> m_size g = m_size f \<and> m_num_read g = Suc (m_num_read f) \<and> update_requested g"
    by (simp add: visible_def pending_def c num_free_def) (simp add: g)
qed

text \<open>The update makes the written elements visible and the freed places writable.\<close>

lemma fifo_update_spec:
  assumes wf: "fifo_wf f" and u: "fifo_update f = (rd, wr, g)"
  shows "fifo_wf g \<and> visible g = visible f @ pending f \<and> pending g = [] \<and>
    num_free g = int (m_size f) - int (length (visible g)) \<and> m_size g = m_size f \<and>
    (rd \<longleftrightarrow> m_num_read f > 0) \<and> (wr \<longleftrightarrow> pending f \<noteq> []) \<and> m_num_read g = 0 \<and> \<not> update_requested g"
proof -
  have g: "g = f\<lparr>m_num_readable := stored f, m_num_read := 0, m_num_written := 0, update_requested := False\<rparr>"
    and "rd = (m_num_read f > 0)" "wr = (m_num_written f > 0)"
    using u by (auto simp: fifo_update_def stored_def)
  moreover have "stored g = stored f" "contents g = contents f"
    by (simp_all add: g stored_def contents_def)
  ultimately show ?thesis
    using wf length_pending [OF wf] fifo_wf_stored [OF wf]
    by (auto simp: visible_def pending_def fifo_wf_def num_free_def simp flip: contents_split length_greater_0_conv)
qed

lemma fifo_init_spec:
  "n \<le> 0 \<Longrightarrow> fifo_init d n = Inl Sc_report_error"
  "0 < n \<Longrightarrow> \<exists>f. fifo_init d n = Inr f \<and> fifo_wf f \<and> visible f = [] \<and> pending f = [] \<and>
     num_free f = n \<and> m_size f = nat n \<and> m_num_read f = 0"
  by (auto simp: fifo_init_def buf_init_def fifo_wf_def stored_def visible_def pending_def
      contents_def num_free_def)

text \<open>The non-blocking operations do what the blocking ones do, or report failure.\<close>

lemma nb_read_eq:
  assumes "fifo_wf f"
  shows "nb_read d v f = (case fifo_read d f of None \<Rightarrow> (False, v, f) | Some (x, g) \<Rightarrow> (True, x, g))"
proof (cases "num_available f = 0")
  case True
  then show ?thesis by (simp add: nb_read_def fifo_read_def)
next
  case False
  then have "m_free f \<noteq> m_size f"
    using assms by (auto simp: fifo_wf_def stored_def num_available_def)
  with False show ?thesis by (simp add: nb_read_def fifo_read_def buf_read_def num_available_def)
qed

lemma nb_write_eq:
  "nb_write v f = (case fifo_write v f of None \<Rightarrow> (False, f) | Some g \<Rightarrow> (True, g))"
  by (simp add: nb_write_def fifo_write_def split: prod.splits)

text \<open>\<open>print\<close> lists the stored elements, oldest first, and stops.\<close>

lemma print_loop_ring:
  assumes "k < stored f" "fifo_wf f" "stored f - k \<le> fuel"
  shows "print_loop fuel f ((m_ri f + k) mod m_size f) = drop k (contents f)"
  using assms(1,3)
proof (induction fuel arbitrary: k)
  case 0
  then show ?case by simp
next
  case (Suc fuel)
  let ?n = "m_size f" and ?r = "m_ri f" and ?c = "stored f"
  have c: "?c \<le> ?n" and wi: "m_wi f = (?r + ?c) mod ?n"
    using assms(2) by (auto simp: fifo_wf_def stored_def)
  have j: "((?r + k) mod ?n + 1) mod ?n = (?r + Suc k) mod ?n" by (simp add: mod_simps)
  have nth: "m_buf f ! ((?r + k) mod ?n) = contents f ! k"
    using Suc.prems by (simp add: contents_def ring_def)
  have d: "drop k (contents f) = contents f ! k # drop (Suc k) (contents f)"
    using Suc.prems by (simp add: Cons_nth_drop_Suc)
  show ?case
  proof (cases "Suc k = ?c")
    case True
    then show ?thesis using j wi d nth by (simp add: Let_def)
  next
    case False
    then have k: "Suc k < ?c" using Suc.prems by simp
    have "(?r + Suc k) mod ?n \<noteq> m_wi f"
    proof (cases "?c = ?n")
      case True
      then show ?thesis using ring_index_inj [of 0 "Suc k" ?n ?r] k wi by simp
    next
      case False
      then show ?thesis using ring_index_inj [OF k, of ?n ?r] c wi by simp
    qed
    moreover have "print_loop fuel f ((?r + Suc k) mod ?n) = drop (Suc k) (contents f)"
      using Suc.IH [of "Suc k"] Suc.prems k by simp
    ultimately show ?thesis using j d nth by (simp add: Let_def)
  qed
qed

lemma fifo_print_contents:
  assumes "fifo_wf f"
  shows "fifo_print f = contents f"
proof (cases "m_free f = m_size f")
  case True
  then show ?thesis by (simp add: fifo_print_def contents_def ring_def stored_def)
next
  case False
  then have "0 < stored f" "stored f - 0 \<le> m_size f"
    using assms by (auto simp: fifo_wf_def stored_def)
  then show ?thesis
    using print_loop_ring [of 0 f "m_size f"] False assms
    by (simp add: fifo_print_def fifo_wf_def)
qed

section \<open>The channel interface\<close>

text \<open>
  What a router and an arbiter rely on: the events of a channel are a write by the producer,
  a read by the consumer and the update of the kernel.
\<close>

datatype 'a channel_op = Ch_write 'a | Ch_read | Ch_update

text \<open>A blocked operation leaves the channel as it is; the logs collect what was read and written.\<close>

fun channel_run ::
  "('f \<Rightarrow> ('a \<times> 'f) option) \<Rightarrow> ('a \<Rightarrow> 'f \<Rightarrow> 'f option) \<Rightarrow> ('f \<Rightarrow> 'f) \<Rightarrow>
     'a channel_op list \<Rightarrow> 'f \<Rightarrow> 'a list \<times> 'a list \<times> 'f"
where
  "channel_run rd wr upd [] f = ([], [], f)"
| "channel_run rd wr upd (Ch_write x # ops) f =
     (case wr x f of
        None \<Rightarrow> channel_run rd wr upd ops f
      | Some g \<Rightarrow> (case channel_run rd wr upd ops g of (rs, ws, h) \<Rightarrow> (rs, x # ws, h)))"
| "channel_run rd wr upd (Ch_read # ops) f =
     (case rd f of
        None \<Rightarrow> channel_run rd wr upd ops f
      | Some (x, g) \<Rightarrow> (case channel_run rd wr upd ops g of (rs, ws, h) \<Rightarrow> (x # rs, ws, h)))"
| "channel_run rd wr upd (Ch_update # ops) f = channel_run rd wr upd ops (upd f)"

locale channel =
  fixes rd :: "'f \<Rightarrow> ('a \<times> 'f) option"
    and wr :: "'a \<Rightarrow> 'f \<Rightarrow> 'f option"
    and upd :: "'f \<Rightarrow> 'f"
    and wf :: "'f \<Rightarrow> bool"
    and vis :: "'f \<Rightarrow> 'a list"
    and pend :: "'f \<Rightarrow> 'a list"
    and cap :: "'f \<Rightarrow> nat"
  assumes rd_none: "wf f \<Longrightarrow> rd f = None \<longleftrightarrow> vis f = []"
    and rd_some: "wf f \<Longrightarrow> rd f = Some (x, g) \<Longrightarrow> wf g \<and> vis f = x # vis g \<and> pend g = pend f \<and> cap g = cap f"
    and wr_some: "wf f \<Longrightarrow> wr x f = Some g \<Longrightarrow> wf g \<and> vis g = vis f \<and> pend g = pend f @ [x] \<and> cap g = cap f"
    and wr_room: "wf f \<Longrightarrow> wr x f = None \<Longrightarrow> cap f \<le> length (vis f) + length (pend f) \<or> wr x (upd f) \<noteq> None"
    and upd_all: "wf f \<Longrightarrow> wf (upd f) \<and> vis (upd f) = vis f @ pend f \<and> pend (upd f) = [] \<and> cap (upd f) = cap f"
    and bounded: "wf f \<Longrightarrow> length (vis f) + length (pend f) \<le> cap f"
begin

lemma run_order:
  assumes "wf f" "channel_run rd wr upd ops f = (rs, ws, g)"
  shows "wf g \<and> cap g = cap f \<and> vis f @ pend f @ ws = rs @ vis g @ pend g"
  using assms
proof (induction ops arbitrary: f rs ws g)
  case Nil
  then show ?case by simp
next
  case (Cons op ops)
  show ?case
  proof (cases op)
    case (Ch_write x)
    show ?thesis
    proof (cases "wr x f")
      case None
      then show ?thesis using Cons Ch_write by simp
    next
      case (Some h)
      obtain ws' where r: "channel_run rd wr upd ops h = (rs, ws', g)" and ws: "ws = x # ws'"
        using Cons.prems Ch_write Some by (auto split: prod.splits)
      have h: "wf h" "vis h = vis f" "pend h = pend f @ [x]" "cap h = cap f"
        using wr_some [OF Cons.prems(1) Some] by auto
      show ?thesis using Cons.IH [OF h(1) r] h ws by simp
    qed
  next
    case Ch_read
    show ?thesis
    proof (cases "rd f")
      case None
      then show ?thesis using Cons Ch_read by simp
    next
      case (Some xh)
      then obtain x h where xh: "rd f = Some (x, h)" by (cases xh) auto
      obtain rs' where r: "channel_run rd wr upd ops h = (rs', ws, g)" and rs: "rs = x # rs'"
        using Cons.prems Ch_read xh by (auto split: prod.splits)
      have h: "wf h" "vis f = x # vis h" "pend h = pend f" "cap h = cap f"
        using rd_some [OF Cons.prems(1) xh] by auto
      show ?thesis using Cons.IH [OF h(1) r] h rs by simp
    qed
  next
    case Ch_update
    then have r: "channel_run rd wr upd ops (upd f) = (rs, ws, g)" using Cons.prems by simp
    have h: "wf (upd f)" "vis (upd f) = vis f @ pend f" "pend (upd f) = []" "cap (upd f) = cap f"
      using upd_all [OF Cons.prems(1)] by auto
    show ?thesis using Cons.IH [OF h(1) r] h by simp
  qed
qed

end

interpretation fifo: channel "fifo_read d" fifo_write "\<lambda>f. snd (snd (fifo_update f))"
  fifo_wf visible pending m_size
proof
  fix f :: "'a sc_fifo" and g x
  assume wf: "fifo_wf f"
  obtain r w u where u: "fifo_update f = (r, w, u)" by (cases "fifo_update f") auto
  note upd = fifo_update_spec [OF wf u]
  show "fifo_read d f = None \<longleftrightarrow> visible f = []" by (rule fifo_read_spec(1) [OF wf])
  show "fifo_wf (snd (snd (fifo_update f))) \<and> visible (snd (snd (fifo_update f))) = visible f @ pending f \<and>
      pending (snd (snd (fifo_update f))) = [] \<and> m_size (snd (snd (fifo_update f))) = m_size f"
    using upd u by simp
  have len: "length (visible f) + length (pending f) = stored f"
    by (simp flip: length_append contents_split)
  then show "length (visible f) + length (pending f) \<le> m_size f"
    using fifo_wf_stored [OF wf] by simp
  { assume "fifo_read d f = Some (x, g)"
    then show "fifo_wf g \<and> visible f = x # visible g \<and> pending g = pending f \<and> m_size g = m_size f"
      using fifo_read_spec(2) [OF wf] by blast }
  { assume "fifo_write x f = Some g"
    then show "fifo_wf g \<and> visible g = visible f \<and> pending g = pending f @ [x] \<and> m_size g = m_size f"
      using fifo_write_spec(2) [OF wf] by blast }
  have "num_free u = int (m_size f) - int (stored f)"
    using upd len by simp
  then have "fifo_write x u \<noteq> None \<or> stored f = m_size f"
    using fifo_write_spec(1) [of u x] upd by auto
  then show "m_size f \<le> length (visible f) + length (pending f) \<or> fifo_write x (snd (snd (fifo_update f))) \<noteq> None"
    using len u by auto
qed

section \<open>The update phase\<close>

text \<open>
  The scheduler calls \<open>update\<close> only on the channels that asked for it; a fifo that did not
  ask has nothing read or written.
\<close>

definition fifo_phase :: "'a sc_fifo \<Rightarrow> bool \<times> bool \<times> 'a sc_fifo" where
  "fifo_phase f = (if update_requested f then fifo_update f else (False, False, f))"

definition fifo_req :: "'a sc_fifo \<Rightarrow> bool" where
  "fifo_req f \<longleftrightarrow> (\<not> update_requested f \<longrightarrow> m_num_read f = 0 \<and> m_num_written f = 0)"

definition fifo_ok :: "'a sc_fifo \<Rightarrow> bool" where
  "fifo_ok f \<longleftrightarrow> fifo_wf f \<and> fifo_req f"

abbreviation after_phase :: "'a sc_fifo \<Rightarrow> 'a sc_fifo" where
  "after_phase f \<equiv> snd (snd (fifo_phase f))"

lemma fifo_phase_ok:
  assumes "fifo_ok f"
  shows "fifo_ok (after_phase f)" "visible (after_phase f) = visible f @ pending f"
    "pending (after_phase f) = []" "m_size (after_phase f) = m_size f"
    "fst (snd (fifo_phase f)) \<longleftrightarrow> pending f \<noteq> []"
proof -
  have wf: "fifo_wf f" and req: "fifo_req f" using assms by (simp_all add: fifo_ok_def)
  have "fifo_ok (after_phase f) \<and> visible (after_phase f) = visible f @ pending f \<and>
    pending (after_phase f) = [] \<and> m_size (after_phase f) = m_size f \<and>
    (fst (snd (fifo_phase f)) \<longleftrightarrow> pending f \<noteq> [])"
  proof (cases "update_requested f")
    case True
    obtain rd wr g where u: "fifo_update f = (rd, wr, g)" by (cases "fifo_update f") auto
    have "m_num_written g = 0" using u by (auto simp: fifo_update_def)
    with fifo_update_spec [OF wf u] u True show ?thesis
      by (simp add: fifo_phase_def fifo_ok_def fifo_req_def)
  next
    case False
    then have "m_num_read f = 0" "pending f = []"
      using req length_pending [OF wf] by (simp_all add: fifo_req_def)
    with False assms show ?thesis by (simp add: fifo_phase_def)
  qed
  then show "fifo_ok (after_phase f)" "visible (after_phase f) = visible f @ pending f"
    "pending (after_phase f) = []" "m_size (after_phase f) = m_size f"
    "fst (snd (fifo_phase f)) \<longleftrightarrow> pending f \<noteq> []" by simp_all
qed

lemma fifo_write_ok:
  assumes "fifo_ok f" "fifo_write p f = Some g"
  shows "fifo_ok g" "visible g = visible f" "pending g = pending f @ [p]" "m_size g = m_size f"
  using fifo_write_spec(2) [of f p g] assms by (simp_all add: fifo_ok_def fifo_req_def)

lemma fifo_read_ok:
  assumes "fifo_ok f" "fifo_read d f = Some (p, g)"
  shows "fifo_ok g" "visible f = p # visible g" "pending g = pending f" "m_size g = m_size f"
  using fifo_read_spec(2) [of f d p g] assms by (simp_all add: fifo_ok_def fifo_req_def)

end
