(* ===== verification/Arbiter_Process.thy ===== *)
theory Arbiter_Process
  imports Arbiter_Facts Sc_Fifo
begin

text \<open>
  The threads of an arbiter (\<open>src/arbiter.cpp\<close>, \<open>process\<close> and \<open>pushed_in_fifo\<close>): one
  that decides, reads the chosen fifo a cycle later and puts the packet on the output, and
  one per input fifo that records the arrival of every packet. The facts show that the
  arrival register stays in step with the fifos, so that no assertion fails and the read of
  the chosen fifo never blocks, in every mode.
\<close>

section \<open>The deciding thread\<close>

text \<open>
  \<open>P_wait_neg c\<close> and \<open>P_wait_pos2 c\<close> are the two waits of the "choice processing time", with
  the local variable \<open>choice\<close>; \<open>P_blocked c\<close> is the \<open>wait\<close> inside the blocking
  \<open>sc_fifo::read\<close>, entered when the chosen fifo is empty.
\<close>

datatype proc_pc = P_start | P_wait_pos | P_wait_neg u8 | P_wait_pos2 u8 | P_blocked u8

text \<open>
  What one activation writes: \<open>choice_out\<close>, and the packet read from a fifo (with its number
  and the fifo after the read), which goes to \<open>output\<close>.
\<close>

record proc_out =
  out_choice :: "u8 option"
  out_read :: "(nat \<times> packet \<times> packet sc_fifo) option"

definition no_proc_out :: proc_out where
  "no_proc_out = \<lparr>out_choice = None, out_read = None\<rparr>"

definition finish_read ::
  "packet sc_fifo list \<Rightarrow> arbiter \<Rightarrow> u8 \<Rightarrow> (proc_pc \<times> arbiter \<times> proc_out) result"
where
  "finish_read fs a c =
     bind_result (vec_at fs (unat c)) (\<lambda>f.
       case fifo_read empty_packet f of
         None \<Rightarrow> Inr (P_blocked c, a, no_proc_out)
       | Some (p, f') \<Rightarrow> bind_result (update a c) (\<lambda>a'.
           Inr (P_wait_pos, a', no_proc_out\<lparr>out_read := Some (unat c, p, f')\<rparr>)))"

text \<open>The \<open>switch\<close> on the value of \<open>arb_type\<close>, \<open>default\<close> included, is \<open>decide\<close>.\<close>

definition process_resume ::
  "u8 \<Rightarrow> packet sc_fifo list \<Rightarrow> proc_pc \<Rightarrow> arbiter \<Rightarrow> (proc_pc \<times> arbiter \<times> proc_out) result"
where
  "process_resume mode fs pc a =
     (case pc of
        P_start \<Rightarrow> Inr (P_wait_pos, a, no_proc_out)
      | P_wait_pos \<Rightarrow>
          bind_result (decide a mode (map num_available fs)) (\<lambda>choice.
            Inr (if choice = no_choice then P_wait_pos else P_wait_neg choice, a,
                 no_proc_out\<lparr>out_choice := Some choice\<rparr>))
      | P_wait_neg c \<Rightarrow> Inr (P_wait_pos2 c, a, no_proc_out)
      | P_wait_pos2 c \<Rightarrow> finish_read fs a c
      | P_blocked c \<Rightarrow> finish_read fs a c)"

section \<open>The recording threads\<close>

text \<open>
  A recording thread takes its number from the shared counter when it first runs, then waits
  for \<open>fifos[id].data_written_event()\<close> and records one arrival per resumption. The threads
  are alike, so a thread that has run is named by the number it took.
\<close>

definition pusher_start :: "arbiter \<Rightarrow> (nat \<times> arbiter) result" where
  "pusher_start a =
     (let (n, a') = get_id a
      in if unat n < unat (nb_fifos a) then Inr (unat n, a') else Inl Out_of_range)"

definition pusher_resume :: "nat \<Rightarrow> arbiter \<Rightarrow> arbiter result" where
  "pusher_resume k a = pushed_in_fifo a (word_of_nat k)"

section \<open>The register in step with the fifos\<close>

text \<open>
  \<open>W i\<close> says that the recording thread of fifo \<open>i\<close> is runnable: it has been notified of a
  written packet and has not recorded it yet. Every other visible packet is recorded.
\<close>

abbreviation recorded :: "arbiter \<Rightarrow> nat \<Rightarrow> nat" where
  "recorded a i \<equiv> count_list (arrival_queue a) (word_of_nat i)"

definition column_ok :: "(nat \<Rightarrow> bool) \<Rightarrow> packet sc_fifo list \<Rightarrow> arbiter \<Rightarrow> bool" where
  "column_ok W fs a \<longleftrightarrow> policy_wf a \<and> register_wf a \<and> length fs = ports_of a \<and>
     length (pushs_in_fifos a) = 2 * ports_of a * unat (fifo_depth a) \<and>
     (\<forall>f\<in>set (arrival_queue a). unat f < ports_of a) \<and>
     (\<forall>i<ports_of a. fifo_wf (fs ! i) \<and> m_size (fs ! i) = unat (fifo_depth a) \<and>
        recorded a i + of_bool (W i) = length (visible (fs ! i)))"

fun proc_ok :: "bool \<Rightarrow> packet sc_fifo list \<Rightarrow> arbiter \<Rightarrow> proc_pc \<Rightarrow> bool" where
  "proc_ok P fs a P_start = True"
| "proc_ok P fs a P_wait_pos = True"
| "proc_ok P fs a (P_wait_neg c) = (unat c < ports_of a \<and> visible (fs ! unat c) \<noteq> [] \<and>
     (P \<longrightarrow> c \<in> set (arrival_queue a)))"
| "proc_ok P fs a (P_wait_pos2 c) = (unat c < ports_of a \<and> c \<in> set (arrival_queue a))"
| "proc_ok P fs a (P_blocked c) = False"

lemma count_queue_unat: "count_list (arrival_queue a) c = recorded a (unat c)"
  by simp

lemma in_queue_iff: "c \<in> set (arrival_queue a) \<longleftrightarrow> 0 < recorded a (unat c)"
  using count_list_0_iff [of "arrival_queue a" c] by auto

lemma visible_le_size: "fifo_wf f \<Longrightarrow> length (visible f) \<le> m_size f"
  by (auto simp: visible_def fifo_wf_def stored_def)

lemma length_queue_sum:
  assumes "\<forall>f\<in>set (arrival_queue a). unat f < ports_of a" "ports_of a \<le> 256"
  shows "length (arrival_queue a) = (\<Sum>i<ports_of a. recorded a i)"
proof -
  let ?X = "word_of_nat ` {..<ports_of a} :: u8 set"
  have sub: "set (arrival_queue a) \<subseteq> ?X"
  proof
    fix f assume "f \<in> set (arrival_queue a)"
    with assms(1) show "f \<in> ?X" by (intro image_eqI [where x = "unat f"]) auto
  qed
  have inj: "inj_on (word_of_nat :: nat \<Rightarrow> u8) {..<ports_of a}"
    using assms(2) by (auto simp: inj_on_def dest: arg_cong [where f = unat])
  have "length (arrival_queue a) = sum (count_list (arrival_queue a)) ?X"
    using sub by (simp add: sum_count_set)
  also have "\<dots> = (\<Sum>i<ports_of a. recorded a i)"
    by (simp add: sum.reindex [OF inj])
  finally show ?thesis .
qed

text \<open>A pending record leaves room in the register.\<close>

lemma register_room:
  assumes ok: "column_ok W fs a" and k: "k < ports_of a" "W k"
  shows "Suc (length (arrival_queue a)) < length (pushs_in_fifos a)"
proof -
  let ?n = "ports_of a" and ?d = "unat (fifo_depth a)"
  have n: "0 < ?n" "?n \<le> 128" and len: "length (pushs_in_fifos a) = 2 * ?n * ?d"
    and fs: "\<forall>i<?n. fifo_wf (fs ! i) \<and> m_size (fs ! i) = ?d \<and>
      recorded a i + of_bool (W i) = length (visible (fs ! i))"
    and q: "\<forall>f\<in>set (arrival_queue a). unat f < ?n"
    using ok by (auto simp: column_ok_def policy_wf_def)
  have le: "recorded a i \<le> ?d" if "i < ?n" for i
    using fs that visible_le_size [of "fs ! i"] by (metis add_leD1)
  have "Suc (recorded a k) \<le> ?d"
    using fs k visible_le_size [of "fs ! k"] by fastforce
  then have "(\<Sum>i<?n. recorded a i) < (\<Sum>i<?n. ?d)"
    using le k(1) by (intro sum_strict_mono_ex1) (auto simp: Suc_le_eq)
  then have "length (arrival_queue a) < ?n * ?d"
    using length_queue_sum [OF q] n by simp
  moreover from this have "0 < ?n * ?d" by linarith
  ultimately have "Suc (length (arrival_queue a)) < 2 * (?n * ?d)" by linarith
  then show ?thesis by (simp add: len)
qed

section \<open>The steps\<close>

lemma column_available:
  assumes "column_ok W fs a" "i < ports_of a"
  shows "map num_available fs ! i = int (length (visible (fs ! i)))"
  using assms by (simp add: column_ok_def num_available_visible)

lemma queue_visible:
  assumes "column_ok W fs a" "c \<in> set (arrival_queue a)"
  shows "unat c < ports_of a \<and> visible (fs ! unat c) \<noteq> []"
proof -
  have "unat c < ports_of a" "0 < recorded a (unat c)"
    using assms in_queue_iff by (auto simp: column_ok_def)
  moreover from this have "recorded a (unat c) + of_bool (W (unat c)) = length (visible (fs ! unat c))"
    using assms(1) by (auto simp: column_ok_def)
  ultimately show ?thesis by auto
qed

text \<open>Every mode, a value that is none of the enumerators included, decides without a fault.\<close>

lemma decide_total:
  assumes ok: "column_ok W fs a"
  shows "\<exists>c. decide a mode (map num_available fs) = Inr c \<and>
    (c \<noteq> no_choice \<longrightarrow> unat c < ports_of a \<and> visible (fs ! unat c) \<noteq> [])"
proof -
  let ?av = "map num_available fs"
  have wf: "policy_wf a" "register_wf a" and len: "length ?av = ports_of a"
    using ok by (simp_all add: column_ok_def)
  have vis: "unat c < ports_of a \<Longrightarrow> ?av ! unat c > 0 \<Longrightarrow> visible (fs ! unat c) \<noteq> []" for c :: u8
    using column_available [OF ok, of "unat c"] by auto
  have fifo: "\<exists>c. bind_result (choose_fifo a) (\<lambda>c. Inr (ucast c)) = Inr c \<and>
    (c \<noteq> no_choice \<longrightarrow> unat c < ports_of a \<and> visible (fs ! unat c) \<noteq> [])"
  proof (cases "arrival_queue a")
    case Nil
    have "(ucast (- 1 :: i32) :: u8) = no_choice" by code_simp
    with Nil show ?thesis by (simp add: choose_fifo_queue [OF wf(2)])
  next
    case (Cons f q)
    have "(ucast (ucast f :: i32) :: u8) = f" by (rule bit_word_eqI) (simp add: bit_ucast_iff)
    moreover have "f \<in> set (arrival_queue a)" using Cons by simp
    note queue_visible [OF ok this]
    ultimately show ?thesis using Cons by (simp add: choose_fifo_queue [OF wf(2)])
  qed
  show ?thesis
    using fixed.choose_total [OF wf(1) len] rand.choose_total [OF wf(1) len]
      lru.choose_total [OF wf(1) len] rr.choose_total [OF wf(1) len] fifo vis
    unfolding decide_def by (smt (verit, best))
qed

lemma process_decide:
  assumes ok: "column_ok W fs a"
  shows "\<exists>pc' out. process_resume mode fs P_wait_pos a = Inr (pc', a, out) \<and>
    out_read out = None \<and> proc_ok False fs a pc'"
proof -
  obtain c where "decide a mode (map num_available fs) = Inr c"
    "c \<noteq> no_choice \<longrightarrow> unat c < ports_of a \<and> visible (fs ! unat c) \<noteq> []"
    using decide_total [OF ok] by blast
  then show ?thesis by (auto simp: process_resume_def no_proc_out_def)
qed

text \<open>The read takes the oldest packet of the chosen fifo and its record.\<close>

lemma finish_read_ok:
  assumes ok: "column_ok W fs a" and c: "unat c < ports_of a" "c \<in> set (arrival_queue a)"
  shows "\<exists>p f' a'. finish_read fs a c =
      Inr (P_wait_pos, a', no_proc_out\<lparr>out_read := Some (unat c, p, f')\<rparr>) \<and>
    fifo_read empty_packet (fs ! unat c) = Some (p, f') \<and>
    column_ok W (fs[unat c := f']) a' \<and> next_id a' = next_id a \<and> nb_fifos a' = nb_fifos a"
proof -
  let ?k = "unat c"
  have wf: "policy_wf a" "register_wf a" and len: "length fs = ports_of a"
    using ok by (simp_all add: column_ok_def)
  have fk: "fifo_wf (fs ! ?k)" "visible (fs ! ?k) \<noteq> []"
    using ok queue_visible [OF ok c(2)] c(1) by (auto simp: column_ok_def)
  then obtain p f' where rd: "fifo_read empty_packet (fs ! ?k) = Some (p, f')"
    using fifo_read_spec(1) [OF fk(1), of empty_packet] by fastforce
  note f' = fifo_read_spec(2) [OF fk(1) rd]
  obtain a' where u: "update a c = Inr a'" and a': "policy_wf a'" "register_wf a'"
    "arrival_queue a' = remove1 c (arrival_queue a)" "nb_fifos a' = nb_fifos a" "next_id a' = next_id a"
    "fifo_depth a' = fifo_depth a" "length (pushs_in_fifos a') = length (pushs_in_fifos a)"
    using update_all [OF wf c(1) c(2)] by blast
  have rec: "recorded a' i = recorded a i - of_bool (i = ?k)" if "i < ports_of a" for i
  proof -
    have "i < 256" using that wf(1) by (simp add: policy_wf_def)
    then have "(c = word_of_nat i) = (i = ?k)" by auto
    then show ?thesis by (simp add: a'(3))
  qed
  have pos: "0 < recorded a ?k" using c(2) in_queue_iff by blast
  have "column_ok W (fs[?k := f']) a'"
  proof -
    have "fifo_wf (fs[?k := f'] ! i) \<and> m_size (fs[?k := f'] ! i) = unat (fifo_depth a) \<and>
        recorded a' i + of_bool (W i) = length (visible (fs[?k := f'] ! i))" if i: "i < ports_of a" for i
    proof (cases "i = ?k")
      case True
      have "recorded a ?k + of_bool (W ?k) = length (visible (fs ! ?k))" "m_size (fs ! ?k) = unat (fifo_depth a)"
        using ok c(1) by (auto simp: column_ok_def)
      then show ?thesis using True f' len c(1) pos rec [OF c(1)] by simp
    next
      case False
      then show ?thesis using ok i rec [OF i] by (simp add: column_ok_def)
    qed
    moreover have "\<forall>f\<in>set (arrival_queue a'). unat f < ports_of a"
      using ok set_remove1_subset [of c "arrival_queue a"] by (auto simp: column_ok_def a'(3))
    ultimately show ?thesis using ok a' len by (simp add: column_ok_def)
  qed
  then show ?thesis using rd u a' len c(1) by (simp add: finish_read_def)
qed

text \<open>The recording thread of fifo \<open>k\<close> records the packet it was notified of.\<close>

lemma pusher_resume_ok:
  assumes ok: "column_ok W fs a" and k: "k < ports_of a" "W k"
  shows "\<exists>a'. pusher_resume k a = Inr a' \<and> column_ok (W(k := False)) fs a' \<and>
    next_id a' = next_id a \<and> nb_fifos a' = nb_fifos a \<and>
    arrival_queue a' = arrival_queue a @ [word_of_nat k]"
proof -
  have wf: "policy_wf a" "register_wf a" using ok by (simp_all add: column_ok_def)
  then have n: "ports_of a \<le> 128" by (simp add: policy_wf_def)
  obtain a' where p: "pushed_in_fifo a (word_of_nat k) = Inr a'" and a': "register_wf a'"
    "arrival_queue a' = arrival_queue a @ [word_of_nat k]"
    "a' = a\<lparr>pushs_in_fifos := pushs_in_fifos a', in_fifos := in_fifos a'\<rparr>"
    "length (pushs_in_fifos a') = length (pushs_in_fifos a)"
    using pushed_in_fifo_queue [OF wf(2) register_room [OF ok k]] by blast
  obtain xs m where eq: "a' = a\<lparr>pushs_in_fifos := xs, in_fifos := m\<rparr>" using a'(3) by blast
  have rec: "recorded a' i = recorded a i + of_bool (i = k)" if "i < ports_of a" for i
  proof -
    have "(word_of_nat k = (word_of_nat i :: u8)) = (i = k)"
      using that k(1) n by (auto dest: arg_cong [where f = unat])
    then show ?thesis by (simp add: a'(2))
  qed
  have "recorded a' i + of_bool ((W(k := False)) i) = recorded a i + of_bool (W i)" if "i < ports_of a" for i
    using rec [OF that] k(2) by auto
  moreover have "policy_wf a'" using wf(1) by (simp add: eq policy_wf_def)
  ultimately have "column_ok (W(k := False)) fs a'"
    using ok a'(1,2,4) k(1) n unfolding column_ok_def by (simp add: eq)
  then show ?thesis using p a'(2) by (simp add: pusher_resume_def eq)
qed

lemma column_ok_next_id [simp]: "column_ok W fs (a\<lparr>next_id := m\<rparr>) = column_ok W fs a"
  by (simp add: column_ok_def policy_wf_def register_wf_def arrival_queue_def)

lemma pusher_start_ok:
  assumes "column_ok W fs a" "unat (next_id a) < ports_of a"
  shows "\<exists>a'. pusher_start a = Inr (unat (next_id a), a') \<and> column_ok W fs a' \<and>
    unat (next_id a') = Suc (unat (next_id a)) \<and> nb_fifos a' = nb_fifos a \<and>
    arrival_queue a' = arrival_queue a"
proof -
  have "ports_of a \<le> 128" using assms(1) by (simp add: column_ok_def policy_wf_def)
  then have "unat (next_id a + 1) = Suc (unat (next_id a))"
    using assms(2) by (subst unat_add_lem [THEN iffD1]) auto
  then show ?thesis using assms
    by (simp add: pusher_start_def get_id_def) (simp add: arrival_queue_def)
qed

text \<open>A write of a packet that is not visible yet, and an update, keep the column in step.\<close>

lemma column_write:
  assumes "column_ok W fs a" "i < ports_of a" "fifo_write p (fs ! i) = Some f"
  shows "column_ok W (fs[i := f]) a"
proof -
  have "fifo_wf (fs ! i)" using assms(1,2) by (simp add: column_ok_def)
  from fifo_write_spec(2) [OF this assms(3)] show ?thesis
    using assms(1,2) by (auto simp: column_ok_def nth_list_update)
qed

lemma column_update:
  assumes ok: "column_ok (\<lambda>_. False) fs a" and fs: "\<forall>f\<in>set fs. fifo_ok f \<and> length (pending f) \<le> 1"
  shows "column_ok (\<lambda>i. i < ports_of a \<and> pending (fs ! i) \<noteq> []) (map after_phase fs) a"
proof -
  have len: "length fs = ports_of a" using ok by (simp add: column_ok_def)
  have "fifo_wf (map after_phase fs ! i) \<and> m_size (map after_phase fs ! i) = unat (fifo_depth a) \<and>
      recorded a i + of_bool (i < ports_of a \<and> pending (fs ! i) \<noteq> []) =
        length (visible (map after_phase fs ! i))" if i: "i < ports_of a" for i
  proof -
    have f: "fifo_ok (fs ! i)" "length (pending (fs ! i)) \<le> 1" using fs i len by simp_all
    have "recorded a i = length (visible (fs ! i))" "m_size (fs ! i) = unat (fifo_depth a)"
      using ok i by (auto simp: column_ok_def)
    moreover have "length (pending (fs ! i)) = of_bool (pending (fs ! i) \<noteq> [])"
      using f(2) by (cases "pending (fs ! i)") auto
    ultimately show ?thesis using fifo_phase_ok [OF f(1)] i len by (simp add: fifo_ok_def)
  qed
  then show ?thesis using ok by (simp add: column_ok_def)
qed

end
