(* ===== verification/Arbiter_Properties.thy ===== *)
theory Arbiter_Properties
  imports Arbiter_Process
begin

text \<open>
  What an arbiter promises: work conservation and the choice of each mode, fairness of the
  least-recently-used and the round-robin mode, order of the fifo mode, health of the
  shift register, and the limits of all this beyond 128 and 255 input fifos.
\<close>

section \<open>An arbiter with four input fifos\<close>

lemma four_ports:
  obtains a where "make_arbiter 4 2 = Inr a" and "policy_wf a" and "register_wf a" and "ports_of a = 4"
    and "arrival_queue a = []" and "length (pushs_in_fifos a) = 16" and "lfsr a = 1"
    and "lru_index a = [0, 1, 2, 3]" and "last_used a = 3"
proof -
  obtain a where a: "make_arbiter 4 2 = Inr a" using make_arbiter_eq by blast
  have "unat (4 :: u32) = 4" "unat (16 :: u32) = 16" by simp_all
  moreover have "[0..<4] = [0, 1, 2, 3]" by (simp add: upt_conv_Cons)
  moreover have "(ucast (3 :: u32) :: u8) = 3" by code_simp
  ultimately have "ports_of a = 4" "arrival_queue a = []" "length (pushs_in_fifos a) = 16" "lfsr a = 1"
    "lru_index a = [0, 1, 2, 3]" "last_used a = 3" "in_fifos a = 0"
    using a by (auto simp: make_arbiter_eq arrival_queue_def)
  moreover from this have "register_wf a" by (simp add: register_wf_def)
  moreover have "policy_wf a"
    using make_arbiter_wf [OF a] \<open>unat (4 :: u32) = 4\<close> by simp
  ultimately show thesis using that a by blast
qed

section \<open>Choices\<close>

text \<open>
  Work conservation: in the modes that look at the fifos (random, least recently used,
  fixed, round robin) the arbiter always decides, chooses a fifo that has a packet, and makes
  no choice only if every fifo is empty.
\<close>

theorem decide_work_conserving:
  assumes "policy_wf a" and "length av = ports_of a" and "m \<in> {RAND, LRU, FIXED, ROUNDROBIN}"
  shows "\<exists>c. decide a (mode_code m) av = Inr c \<and>
    (c = no_choice \<longleftrightarrow> (\<forall>k<ports_of a. av ! k \<le> 0)) \<and>
    (c \<noteq> no_choice \<longrightarrow> unat c < ports_of a \<and> av ! unat c > 0)"
  using assms(3) fixed.choose_total [OF assms(1,2)] rand.choose_total [OF assms(1,2)]
    lru.choose_total [OF assms(1,2)] rr.choose_total [OF assms(1,2)]
  by (auto simp: decide_def)

theorem decide_work_conserving_witness:
  "\<exists>a c. make_arbiter 4 2 = Inr a \<and> decide a (mode_code RAND) [0, 2, 0, 1] = Inr c \<and>
    c \<noteq> no_choice \<and> [0, 2, 0, 1 :: int] ! unat c > 0"
proof -
  obtain a where a: "make_arbiter 4 2 = Inr a" "policy_wf a" "ports_of a = 4" by (rule four_ports)
  let ?av = "[0, 2, 0, 1 :: int]"
  have len: "length ?av = ports_of a" "RAND \<in> {RAND, LRU, FIXED, ROUNDROBIN}" using a by simp_all
  have "\<not> (\<forall>k<ports_of a. ?av ! k \<le> 0)" using a(3) by (auto intro!: exI [of _ 1])
  with decide_work_conserving [OF a(2) len] a(1) show ?thesis by blast
qed

text \<open>
  The fixed mode gives priority to the lowest index: the choice has a packet and no fifo
  of a smaller index has one.
\<close>

theorem fixed_takes_lowest:
  assumes "length av = ports_of a" and "ports_of a \<le> 255" and "k < ports_of a" and "av ! k > 0"
  shows "\<exists>i\<le>k. decide a (mode_code FIXED) av = Inr (word_of_nat i) \<and> av ! i > 0 \<and> (\<forall>j<i. av ! j \<le> 0)"
proof -
  obtain i where "find (\<lambda>i. av ! i > 0) (fifo_range a) = Some i"
    using assms(3,4) by (cases "find (\<lambda>i. av ! i > 0) (fifo_range a)") (auto simp: find_upt_None_iff)
  moreover from this have "i < ports_of a" "av ! i > 0" "\<forall>j<i. av ! j \<le> 0"
    by (auto simp: find_upt_Some_iff not_less)
  moreover from this assms(4) have "i \<le> k" by (meson leD not_le)
  ultimately show ?thesis using choose_fixed_eq [OF assms(1)] by (auto simp: decide_def)
qed

theorem fixed_takes_lowest_witness:
  "\<exists>a. make_arbiter 4 2 = Inr a \<and>
    (\<exists>i\<le>2. decide a (mode_code FIXED) [0, 0, 5, 1] = Inr (word_of_nat i) \<and> [0, 0, 5, 1 :: int] ! i > 0 \<and>
      (\<forall>j<i. [0, 0, 5, 1 :: int] ! j \<le> 0))"
proof -
  obtain a where a: "make_arbiter 4 2 = Inr a" "ports_of a = 4" by (rule four_ports)
  with fixed_takes_lowest [of "[0, 0, 5, 1]" a 2] show ?thesis by auto
qed

section \<open>Fairness\<close>

text \<open>
  C7: Fairness of round robin: a fifo that always has a packet is served within as many
  decisions as there are fifos, whatever the other fifos hold.
\<close>

theorem round_robin_fair:
  assumes "policy_wf a" and "k < ports_of a" and "ports_of a \<le> length avs"
    and "\<forall>av\<in>set avs. length av = ports_of a \<and> av ! k > 0"
  shows "\<exists>cs a'. serve choose_round_robin (\<lambda>s c. Inr (update_round_robin s c)) a avs = Inr (cs, a') \<and>
    (\<exists>i<ports_of a. i < length cs \<and> unat (cs ! i) = k)"
  by (rule rr.served_within_ports [OF assms(1,2,4,3)])

theorem round_robin_fair_witness:
  "\<exists>a cs a'. make_arbiter 4 2 = Inr a \<and>
    serve choose_round_robin (\<lambda>s c. Inr (update_round_robin s c)) a (replicate 4 [1, 1, 1, 1]) = Inr (cs, a') \<and>
    (\<exists>i<4. i < length cs \<and> unat (cs ! i) = 2)"
proof -
  obtain a where a: "make_arbiter 4 2 = Inr a" "policy_wf a" "ports_of a = 4" by (rule four_ports)
  with round_robin_fair [of a 2 "replicate 4 [1, 1, 1, 1]"] show ?thesis by auto
qed

text \<open>
  C8: Fairness of the least-recently-used mode: the same bound.
\<close>

theorem lru_fair:
  assumes "policy_wf a" and "k < ports_of a" and "ports_of a \<le> length avs"
    and "\<forall>av\<in>set avs. length av = ports_of a \<and> av ! k > 0"
  shows "\<exists>cs a'. serve choose_lru update_lru a avs = Inr (cs, a') \<and>
    (\<exists>i<ports_of a. i < length cs \<and> unat (cs ! i) = k)"
  by (rule lru.served_within_ports [OF assms(1,2,4,3)])

theorem lru_fair_witness:
  "\<exists>a cs a'. make_arbiter 4 2 = Inr a \<and>
    serve choose_lru update_lru a (replicate 4 [1, 1, 1, 1]) = Inr (cs, a') \<and>
    (\<exists>i<4. i < length cs \<and> unat (cs ! i) = 3)"
proof -
  obtain a where a: "make_arbiter 4 2 = Inr a" "policy_wf a" "ports_of a = 4" by (rule four_ports)
  with lru_fair [of a 3 "replicate 4 [1, 1, 1, 1]"] show ?thesis by auto
qed

text \<open>
  C9: The register of the least-recently-used mode is what its name says: after any sequence
  of served fifos it lists first the fifos never served, in their old order, then the served
  ones by the time of their last service.
\<close>

theorem lru_register_is_history:
  assumes "policy_wf a" and "\<forall>c\<in>set h. unat c < ports_of a"
  shows "\<exists>b. for_each (\<lambda>c s. update_lru s c) h a = Inr b \<and>
    lru_index b = filter (\<lambda>f. f \<notin> set h) (lru_index a) @ remdups h"
  using update_lru_history [OF assms] by blast

theorem lru_register_is_history_witness:
  "\<exists>a b. make_arbiter 4 2 = Inr a \<and> for_each (\<lambda>c s. update_lru s c) [2, 0, 2] a = Inr b \<and>
    lru_index b = [1, 3, 0, 2]"
proof -
  obtain a where a: "make_arbiter 4 2 = Inr a" "policy_wf a" "ports_of a = 4" "lru_index a = [0, 1, 2, 3]"
    by (rule four_ports)
  have "\<forall>c\<in>set [2, 0, 2 :: u8]. unat c < ports_of a" by (simp add: a(3))
  from lru_register_is_history [OF a(2) this] a show ?thesis by simp
qed

section \<open>Arrival order\<close>

text \<open>Serving the fifo mode \<open>n\<close> times in a row: choose, then update with the choice.\<close>

fun drain :: "nat \<Rightarrow> arbiter \<Rightarrow> (u8 list \<times> arbiter) result" where
  "drain 0 a = Inr ([], a)"
| "drain (Suc n) a =
     bind_result (choose_fifo a) (\<lambda>c.
       bind_result (update_fifo a (ucast c)) (\<lambda>a1.
         bind_result (drain n a1) (\<lambda>(cs, a2). Inr (ucast c # cs, a2))))"

lemma ucast_ucast_u8: "(ucast (ucast (f :: u8) :: i32) :: u8) = f"
  by (rule bit_word_eqI) (simp add: bit_ucast_iff)

lemma drain_queue:
  "register_wf a \<Longrightarrow> \<exists>b. drain (length (arrival_queue a)) a = Inr (arrival_queue a, b)"
proof (induction "length (arrival_queue a)" arbitrary: a)
  case 0
  then show ?case by simp
next
  case (Suc n)
  then obtain f q where q: "arrival_queue a = f # q" by (cases "arrival_queue a") auto
  have f: "f \<in> set (arrival_queue a)" by (simp add: q)
  obtain xs where xs: "update_fifo a f = Inr (a\<lparr>pushs_in_fifos := xs, in_fifos := in_fifos a - 1\<rparr>)"
    "length xs = length (pushs_in_fifos a)" "take (unat (in_fifos a - 1)) xs = remove1 f (arrival_queue a)"
    using update_fifo_queue [OF Suc.prems f] by blast
  let ?b = "a\<lparr>pushs_in_fifos := xs, in_fifos := in_fifos a - 1\<rparr>"
  have qb: "arrival_queue ?b = q" using xs by (simp add: arrival_queue_def [of ?b] q)
  have "0 < unat (in_fifos a)" using length_arrival_queue [OF Suc.prems] q by simp
  then have "unat (in_fifos a - 1) \<le> unat (in_fifos a)" by (simp add: unat_sub_if')
  then have "register_wf ?b" using Suc.prems xs(2) by (simp add: register_wf_def)
  then obtain c where "drain (length q) ?b = Inr (q, c)"
    using Suc.hyps(1) [of ?b] Suc.hyps(2) q qb by auto
  then show ?case using q xs(1) Suc.prems by (simp add: choose_fifo_queue ucast_ucast_u8)
qed

lemma record_queue:
  "register_wf a \<Longrightarrow> length (arrival_queue a) + length fs < length (pushs_in_fifos a) \<Longrightarrow>
   \<exists>b. for_each (\<lambda>f s. pushed_in_fifo s f) fs a = Inr b \<and> register_wf b \<and> arrival_queue b = arrival_queue a @ fs"
proof (induction fs arbitrary: a)
  case Nil
  then show ?case by simp
next
  case (Cons f fs)
  then obtain b where b: "pushed_in_fifo a f = Inr b" "register_wf b" "arrival_queue b = arrival_queue a @ [f]"
    "length (pushs_in_fifos b) = length (pushs_in_fifos a)"
    using pushed_in_fifo_queue [of a f] by auto
  with Cons.IH [of b] Cons.prems show ?case by simp
qed

text \<open>
  C10: The fifo mode serves in the order of arrival: after the arrivals \<open>fs\<close>, serving until the
  register is empty gives the arrivals that were recorded before and then \<open>fs\<close>, in order.
\<close>

theorem fifo_mode_serves_in_order:
  assumes "register_wf a" and "length (arrival_queue a) + length fs < length (pushs_in_fifos a)"
  shows "\<exists>b c. for_each (\<lambda>f s. pushed_in_fifo s f) fs a = Inr b \<and>
    drain (length (arrival_queue a) + length fs) b = Inr (arrival_queue a @ fs, c)"
proof -
  obtain b where b: "for_each (\<lambda>f s. pushed_in_fifo s f) fs a = Inr b" "register_wf b"
    "arrival_queue b = arrival_queue a @ fs" using record_queue [OF assms] by blast
  then show ?thesis using drain_queue [OF b(2)] by auto
qed

theorem fifo_mode_serves_in_order_witness:
  "\<exists>a b c. make_arbiter 4 2 = Inr a \<and> for_each (\<lambda>f s. pushed_in_fifo s f) [3, 1, 3, 0] a = Inr b \<and>
    drain 4 b = Inr ([3, 1, 3, 0], c)"
proof -
  obtain a where a: "make_arbiter 4 2 = Inr a" "register_wf a" "arrival_queue a = []"
    "length (pushs_in_fifos a) = 16" by (rule four_ports)
  with fifo_mode_serves_in_order [of a "[3, 1, 3, 0]"] show ?thesis
    by (simp add: eval_nat_numeral del: for_each.simps drain.simps)
qed

text \<open>
  The register holds at most one entry less than its size: an arrival that would fill the
  last entry fails the assertion of \<open>pushed_in_fifo\<close>, any earlier one is recorded.
\<close>

theorem register_limit:
  assumes "register_wf a" and "length (arrival_queue a) < length (pushs_in_fifos a)"
  shows "pushed_in_fifo a f = Inl Assert_failed \<longleftrightarrow>
    Suc (length (arrival_queue a)) = length (pushs_in_fifos a)"
proof (cases "Suc (length (arrival_queue a)) = length (pushs_in_fifos a)")
  case True
  with pushed_in_fifo_assert [OF assms(1)] show ?thesis by simp
next
  case False
  with assms(2) have "Suc (length (arrival_queue a)) < length (pushs_in_fifos a)" by simp
  from pushed_in_fifo_queue [OF assms(1) this, of f] False show ?thesis by auto
qed

theorem register_limit_witness:
  "\<exists>a. make_arbiter 4 2 = Inr a \<and> pushed_in_fifo a 1 \<noteq> Inl Assert_failed"
proof -
  obtain a where a: "make_arbiter 4 2 = Inr a" "register_wf a" "arrival_queue a = []"
    "length (pushs_in_fifos a) = 16" by (rule four_ports)
  with register_limit [of a 1] show ?thesis by auto
qed

section \<open>The shift register\<close>

text \<open>
  The random mode never gets stuck: from the initial value 1, no number of updates brings
  the shift register to 0, the value it could not leave.
\<close>

theorem lfsr_never_zero:
  assumes "make_arbiter nb depth = Inr a"
  shows "lfsr ((update_rand ^^ n) a) \<noteq> 0"
proof
  assume z: "lfsr ((update_rand ^^ n) a) = 0"
  have "lfsr a = 1" using assms by (auto simp: make_arbiter_eq)
  then have "\<not> 2 ^ 17 dvd uint (lfsr a)" by simp
  from update_rand_iterate [OF this, of n] z show False by simp
qed

theorem lfsr_never_zero_witness:
  "\<exists>a. make_arbiter 4 2 = Inr a \<and> lfsr ((update_rand ^^ 100) a) \<noteq> 0"
proof -
  obtain a where a: "make_arbiter 4 2 = Inr a" by (rule four_ports)
  with lfsr_never_zero [OF a, of 100] show ?thesis by blast
qed

section \<open>Beyond the limits\<close>

text \<open>
  From 129 fifos on the least-recently-used register is corrupted: serving a fifo of
  index 128 or more does not move its entry to the end but overwrites the last entry, because
  the index has become negative on its way through \<open>char\<close>.
\<close>

theorem lru_corrupted_by_large_index:
  assumes "length (lru_index a) = ports_of a" and "0 < ports_of a" and "128 \<le> unat c"
  shows "update_lru a c = Inr (a\<lparr>lru_index := (lru_index a)[ports_of a - 1 := c]\<rparr>)"
  by (rule update_lru_large_index [OF assms])

theorem lru_corrupted_by_large_index_witness:
  "\<exists>a b. make_arbiter 130 1 = Inr a \<and> update_lru a 128 = Inr b \<and>
    lru_index b ! 128 = 128 \<and> lru_index b ! 129 = 128"
proof -
  obtain a where a: "make_arbiter 130 1 = Inr a" using make_arbiter_eq by blast
  have u: "unat (130 :: u32) = 130" by simp
  have p: "ports_of a = 130" "lru_index a = map word_of_nat [0..<130]"
    using a u by (auto simp: make_arbiter_eq)
  have "unat (128 :: u8) = 128" by simp
  then have "update_lru a 128 = Inr (a\<lparr>lru_index := (lru_index a)[ports_of a - 1 := 128]\<rparr>)"
    by (intro lru_corrupted_by_large_index) (simp_all add: p)
  moreover have "(lru_index a)[ports_of a - 1 := 128] ! 128 = 128"
    "(lru_index a)[ports_of a - 1 := 128] ! 129 = 128"
    by (simp_all add: p nth_list_update del: upt_Suc)
  ultimately show ?thesis using a by auto
qed

text \<open>
  From 256 fifos on the index 255 cannot be told from "no fifo": in the fixed mode, when
  the fifo 255 alone has a packet, the arbiter decides that there is nothing to do.
\<close>

theorem index_255_is_never_served:
  assumes "length av = ports_of a" and "255 < ports_of a" and "av ! 255 > 0" and "\<forall>j<255. av ! j \<le> 0"
  shows "decide a (mode_code FIXED) av = Inr no_choice"
proof -
  have "find (\<lambda>i. av ! i > 0) (fifo_range a) = Some 255"
    using assms(2-4) by (simp add: find_upt_Some_iff not_less)
  moreover have "(word_of_nat 255 :: u8) = no_choice" by (simp add: no_choice_def)
  ultimately show ?thesis using choose_fixed_eq [OF assms(1)] by (simp add: decide_def)
qed

theorem index_255_is_never_served_witness:
  "\<exists>a. make_arbiter 256 1 = Inr a \<and> decide a (mode_code FIXED) (replicate 255 0 @ [1]) = Inr no_choice"
proof -
  obtain a where a: "make_arbiter 256 1 = Inr a" using make_arbiter_eq by blast
  have u: "unat (256 :: u32) = 256" by simp
  have p: "ports_of a = 256" using a u by (auto simp: make_arbiter_eq)
  have "decide a (mode_code FIXED) (replicate 255 0 @ [1]) = Inr no_choice"
    by (rule index_255_is_never_served) (simp_all add: p nth_append)
  with a show ?thesis by blast
qed

end
