(* ===== verification/Traffic.thy ===== *)
theory Traffic
  imports Packet
begin

text \<open>
  \<open>src/traffic_generator.cpp\<close> and \<open>include/noc/traffic_generator.h\<close>: the abstract generator
  (address drawing, cycle counter, emission with the four-phase handshake), the stream
  generator and the burst generator.

  A SystemC thread is a program counter and a resume function: the counter names the
  \<open>wait\<close> the thread is suspended in, one call of the resume function runs the C++ code from
  there to the next \<open>wait\<close>. What the code writes to its two output ports during that run is
  returned. The state outside the objects (the state of \<open>rand()\<close> and whatever the callbacks
  of the test bench change) is one value \<open>w\<close>, changed by the functions of an environment.
\<close>

section \<open>Environment\<close>

record 'w env =
  env_rand :: "'w \<Rightarrow> int \<times> 'w"
  env_created :: "packet \<Rightarrow> 'w \<Rightarrow> (packet \<times> 'w) result"
  env_marked :: "packet \<Rightarrow> 'w \<Rightarrow> (packet \<times> 'w) result"

text \<open>What the C library promises of \<open>rand()\<close>: a non-negative \<open>int\<close>, \<open>RAND_MAX\<close> at most.\<close>

definition rand_ok :: "'w env \<Rightarrow> bool" where
  "rand_ok e \<longleftrightarrow> (\<forall>w. 0 \<le> fst (env_rand e w) \<and> fst (env_rand e w) < 2 ^ 31)"

text \<open>An environment with no callback whose \<open>rand()\<close> reads a function of a counter.\<close>

definition plain_env :: "(nat \<Rightarrow> int) \<Rightarrow> nat env" where
  "plain_env r = \<lparr>env_rand = (\<lambda>n. (r n, Suc n)), env_created = (\<lambda>p n. Inr (p, n)),
     env_marked = (\<lambda>p n. Inr (p, n))\<rparr>"

section \<open>State\<close>

record generator =
  address_min :: u8
  address_max :: u8
  address_max_life_time :: u32
  current_address :: u8
  current_address_life_time :: u8
  clock_count :: u32

record stream_generator = generator +
  period :: u32

record burst_generator = generator +
  current_packet_count :: u32
  long_period :: u32
  short_period :: u32
  burst_length :: u32

text \<open>
  The constructors leave \<open>_address_max_life_time\<close>, \<open>_current_address\<close> and its life time
  uninitialised: their initial contents are the arguments.
\<close>

definition make_stream :: "u32 \<Rightarrow> u8 \<Rightarrow> u8 \<Rightarrow> stream_generator" where
  "make_stream ml a l = \<lparr>address_min = 0, address_max = 1, address_max_life_time = ml,
     current_address = a, current_address_life_time = l, clock_count = 0, period = 1\<rparr>"

definition make_burst :: "u32 \<Rightarrow> u8 \<Rightarrow> u8 \<Rightarrow> burst_generator" where
  "make_burst ml a l = \<lparr>address_min = 0, address_max = 1, address_max_life_time = ml,
     current_address = a, current_address_life_time = l, clock_count = 0,
     current_packet_count = 0, long_period = 1, short_period = 1, burst_length = 1\<rparr>"

section \<open>Addresses\<close>

text \<open>
  \<open>rand() % (_address_max - _address_min)\<close> is a signed remainder (the \<open>uint8_t\<close> operands are
  promoted to \<open>int\<close>); \<open>rand() % _address_max_life_time\<close> is unsigned, and its result is
  truncated to the \<open>uint8_t\<close> field.
\<close>

definition choose_new_random_address ::
  "'w env \<Rightarrow> 'g generator_scheme \<times> 'w \<Rightarrow> ('g generator_scheme \<times> 'w) result"
where
  "choose_new_random_address e gw =
     (let (g, w) = gw;
          d = uint (address_max g) - uint (address_min g);
          (r1, w1) = env_rand e w;
          (r2, w2) = env_rand e w1
      in if d = 0 \<or> address_max_life_time g = 0 then Inl Div_by_zero
         else Inr (g\<lparr>current_address := word_of_int (r1 smod d + uint (address_min g)),
                     current_address_life_time :=
                       ucast ((word_of_int r2 :: u32) mod address_max_life_time g)\<rparr>, w2))"

definition set_address_properties ::
  "'w env \<Rightarrow> u8 \<Rightarrow> u8 \<Rightarrow> u32 \<Rightarrow> 'g generator_scheme \<times> 'w \<Rightarrow> ('g generator_scheme \<times> 'w) result"
where
  "set_address_properties e mn mx max_life_time gw =
     (let (g, w) = gw
      in choose_new_random_address e
           (g\<lparr>address_min := mn, address_max := mx, address_max_life_time := max_life_time\<rparr>, w))"

definition get_address ::
  "'w env \<Rightarrow> 'g generator_scheme \<times> 'w \<Rightarrow> (u8 \<times> 'g generator_scheme \<times> 'w) result"
where
  "get_address e gw =
     (let (g, w) = gw;
          g1 = g\<lparr>current_address_life_time := current_address_life_time g - 1\<rparr>;
          res = current_address g1
      in if current_address_life_time g1 = 0
         then bind_result (choose_new_random_address e (g1, w)) (\<lambda>gw2. Inr (res, gw2))
         else Inr (res, g1, w))"

section \<open>Cycle counter\<close>

definition set_clock_counter :: "u32 \<Rightarrow> 'g generator_scheme \<Rightarrow> 'g generator_scheme" where
  "set_clock_counter v g = g\<lparr>clock_count := v\<rparr>"

definition reset_clock_count :: "'g generator_scheme \<Rightarrow> 'g generator_scheme" where
  "reset_clock_count g = set_clock_counter 0 g"

text \<open>One resumption of the thread \<open>clock_counter\<close>, which waits for the positive edge.\<close>

definition clock_counter :: "'g generator_scheme \<Rightarrow> 'g generator_scheme" where
  "clock_counter g = g\<lparr>clock_count := clock_count g + 1\<rparr>"

definition set_period :: "u32 \<Rightarrow> stream_generator \<Rightarrow> stream_generator" where
  "set_period p g = g\<lparr>period := p\<rparr>"

definition set_burst :: "u32 \<Rightarrow> u32 \<Rightarrow> u32 \<Rightarrow> burst_generator \<Rightarrow> burst_generator" where
  "set_burst l s b g = g\<lparr>long_period := l, short_period := s, burst_length := b\<rparr>"

section \<open>Emission\<close>

text \<open>
  The waits of \<open>generate\<close> and of \<open>emit_random_package\<close>. \<open>G_start\<close> is the state before the
  first run; the other names say which event resumes the thread.
\<close>

datatype gen_pc = G_start | G_wait | E_wait_neg | E_wait_ack | E_wait_pos | E_wait_ack_neg

record gen_out =
  out_packet :: "packet option"
  out_activated :: "bool option"

definition no_out :: gen_out where
  "no_out = \<lparr>out_packet = None, out_activated = None\<rparr>"

type_synonym ('g, 'w) gen_step = "(gen_pc \<times> 'g \<times> 'w \<times> gen_out) result"

text \<open>\<open>emit_random_package\<close> from its start to \<open>wait(clock.negedge_event())\<close>.\<close>

definition emit_begin ::
  "'w env \<Rightarrow> 'g generator_scheme \<times> 'w \<Rightarrow> ('g generator_scheme, 'w) gen_step"
where
  "emit_begin e gw =
     bind_result (get_address e gw) (\<lambda>(a, g1, w1).
       let (r, w2) = env_rand e w1;
           p = (make_packet 0 0)\<lparr>address := a, data := word_of_int r\<rparr>
       in bind_result (env_created e p w2) (\<lambda>(p', w3).
            Inr (E_wait_neg, g1, w3, no_out\<lparr>out_packet := Some p'\<rparr>)))"

text \<open>The rest of \<open>emit_random_package\<close>, one segment per \<open>wait\<close>; the last one returns.\<close>

definition emit_continue :: "gen_pc \<Rightarrow> gen_pc \<times> gen_out" where
  "emit_continue pc =
     (case pc of
        E_wait_neg \<Rightarrow> (E_wait_ack, no_out\<lparr>out_activated := Some True\<rparr>)
      | E_wait_ack \<Rightarrow> (E_wait_pos, no_out)
      | E_wait_pos \<Rightarrow> (E_wait_ack_neg, no_out\<lparr>out_activated := Some False\<rparr>)
      | _ \<Rightarrow> (G_wait, no_out))"

text \<open>\<open>stream_generator::generate\<close>.\<close>

definition stream_resume ::
  "'w env \<Rightarrow> gen_pc \<Rightarrow> stream_generator \<times> 'w \<Rightarrow> (stream_generator, 'w) gen_step"
where
  "stream_resume e pc gw =
     (let (g, w) = gw
      in case pc of
           G_start \<Rightarrow> Inr (G_wait, g, w, no_out)
         | G_wait \<Rightarrow>
             (if clock_count g \<ge> period g
              then emit_begin e (reset_clock_count g, w)
              else Inr (G_wait, g, w, no_out))
         | _ \<Rightarrow> (let (pc', out) = emit_continue pc in Inr (pc', g, w, out)))"

text \<open>\<open>burst_generator::generate\<close>: the part of the loop after the emission.\<close>

definition burst_tail :: "burst_generator \<Rightarrow> burst_generator" where
  "burst_tail g =
     (if clock_count g \<ge> long_period g
      then (reset_clock_count g)\<lparr>current_packet_count := 0\<rparr> else g)"

definition burst_resume ::
  "'w env \<Rightarrow> gen_pc \<Rightarrow> burst_generator \<times> 'w \<Rightarrow> (burst_generator, 'w) gen_step"
where
  "burst_resume e pc gw =
     (let (g, w) = gw
      in case pc of
           G_start \<Rightarrow> Inr (G_wait, g, w, no_out)
         | G_wait \<Rightarrow>
             (if clock_count g < burst_length g
              then (if short_period g = 0 then Inl Div_by_zero
                    else if clock_count g div short_period g \<ge> current_packet_count g
                    then emit_begin e (g\<lparr>current_packet_count := current_packet_count g + 1\<rparr>, w)
                    else Inr (G_wait, burst_tail g, w, no_out))
              else Inr (G_wait, burst_tail g, w, no_out))
         | E_wait_ack_neg \<Rightarrow> Inr (G_wait, burst_tail g, w, no_out)
         | _ \<Rightarrow> (let (pc', out) = emit_continue pc in Inr (pc', g, w, out)))"

section \<open>Runs\<close>

text \<open>
  What a generator can be driven with: a positive edge resumes its cycle counter, the event
  it waits for resumes its \<open>generate\<close> thread. A run gives the packets emitted, in order.
\<close>

datatype gen_event = Count_edge | Resume

fun gen_run ::
  "(gen_pc \<Rightarrow> 'g generator_scheme \<times> 'w \<Rightarrow> ('g generator_scheme, 'w) gen_step) \<Rightarrow> gen_event list \<Rightarrow>
   gen_pc \<times> 'g generator_scheme \<times> 'w \<Rightarrow> (packet list \<times> gen_pc \<times> 'g generator_scheme \<times> 'w) result"
where
  "gen_run resume [] st = Inr ([], st)"
| "gen_run resume (Count_edge # evs) (pc, g, w) = gen_run resume evs (pc, clock_counter g, w)"
| "gen_run resume (Resume # evs) (pc, g, w) =
     bind_result (resume pc (g, w)) (\<lambda>(pc1, g1, w1, out).
       bind_result (gen_run resume evs (pc1, g1, w1)) (\<lambda>(ps, st).
         Inr ((case out_packet out of None \<Rightarrow> ps | Some p \<Rightarrow> p # ps), st)))"

definition edges :: "gen_event list \<Rightarrow> nat" where
  "edges evs = length (filter (\<lambda>ev. ev = Count_edge) evs)"

text \<open>The addresses of \<open>n\<close> consecutive calls of \<open>get_address\<close>.\<close>

fun address_run ::
  "'w env \<Rightarrow> nat \<Rightarrow> 'g generator_scheme \<times> 'w \<Rightarrow> (u8 list \<times> 'g generator_scheme \<times> 'w) result"
where
  "address_run e 0 gw = Inr ([], gw)"
| "address_run e (Suc n) gw =
     bind_result (get_address e gw) (\<lambda>(a, gw1).
       bind_result (address_run e n gw1) (\<lambda>(as, gw2). Inr (a # as, gw2)))"

section \<open>Facts about addresses\<close>

definition address_range :: "'g generator_scheme \<Rightarrow> bool" where
  "address_range g \<longleftrightarrow> address_min g < address_max g \<and> address_max_life_time g \<noteq> 0 \<and>
     address_min g \<le> current_address g \<and> current_address g < address_max g"

text \<open>The number of emissions the current address is good for.\<close>

definition life_left :: "'g generator_scheme \<Rightarrow> nat" where
  "life_left g = (if current_address_life_time g = 0 then 256 else unat (current_address_life_time g))"

lemma draw_in_range:
  fixes mn mx :: u8
  assumes "mn < mx" "0 \<le> r"
  shows "mn \<le> word_of_int (r smod (uint mx - uint mn) + uint mn)" (is "_ \<le> ?a")
    and "(word_of_int (r smod (uint mx - uint mn) + uint mn) :: u8) < mx"
proof -
  have d: "0 < uint mx - uint mn" using assms(1) by (simp add: word_less_def)
  have eq: "r smod (uint mx - uint mn) = r mod (uint mx - uint mn)"
    by (rule smod_nonneg) (use d assms(2) in auto)
  have b: "0 \<le> r mod (uint mx - uint mn)" "r mod (uint mx - uint mn) < uint mx - uint mn"
    using d by auto
  have up: "uint mx < 256" using uint_lt2p [of mx] by simp
  have lo: "0 \<le> uint mn" by simp
  have u: "uint ?a = r mod (uint mx - uint mn) + uint mn"
    unfolding eq by (simp only: uint_word_of_int) (use b up lo in \<open>auto intro!: mod_pos_pos_trivial\<close>)
  show "mn \<le> ?a" by (simp only: word_le_def u) (use b in simp)
  show "?a < mx" by (simp only: word_less_def u) (use b in simp)
qed

lemma choose_new_random_address_eq:
  assumes "address_min g < address_max g" "address_max_life_time g \<noteq> 0"
  shows "\<exists>a l w'. choose_new_random_address e (g, w) =
    Inr (g\<lparr>current_address := a, current_address_life_time := l\<rparr>, w')"
proof -
  have "uint (address_max g) - uint (address_min g) \<noteq> 0"
    using assms(1) by (simp add: word_less_def)
  then show ?thesis using assms(2)
    by (auto simp: choose_new_random_address_def Let_def split: prod.splits)
qed

lemma choose_new_random_address_range:
  assumes "rand_ok e" "address_min g < address_max g"
    and "choose_new_random_address e (g, w) = Inr (g', w')"
  shows "address_range g'"
proof -
  have r: "0 \<le> fst (env_rand e w)" using assms(1) by (simp add: rand_ok_def)
  show ?thesis
    using assms(2,3) draw_in_range [OF assms(2) r]
    by (auto simp: choose_new_random_address_def address_range_def Let_def split: prod.splits if_splits)
qed

lemma get_address_total:
  assumes "rand_ok e" "address_range g"
  shows "\<exists>g' w'. get_address e (g, w) = Inr (current_address g, g', w') \<and> address_range g' \<and>
    (\<exists>a l. g' = g\<lparr>current_address := a, current_address_life_time := l\<rparr>)"
proof (cases "current_address_life_time g - 1 = 0")
  case True
  define g1 where "g1 = g\<lparr>current_address_life_time := current_address_life_time g - 1\<rparr>"
  have lt: "address_min g1 < address_max g1" "address_max_life_time g1 \<noteq> 0"
    using assms(2) by (simp_all add: address_range_def g1_def)
  obtain a l w' where c: "choose_new_random_address e (g1, w) =
      Inr (g1\<lparr>current_address := a, current_address_life_time := l\<rparr>, w')"
    using choose_new_random_address_eq [OF lt, of e w] by blast
  have "address_range (g1\<lparr>current_address := a, current_address_life_time := l\<rparr>)"
    by (rule choose_new_random_address_range [OF assms(1) lt(1) c])
  with c True show ?thesis by (auto simp: get_address_def g1_def Let_def)
next
  case False
  let ?g = "g\<lparr>current_address := current_address g,
    current_address_life_time := current_address_life_time g - 1\<rparr>"
  have "get_address e (g, w) = Inr (current_address g, ?g, w)" "address_range ?g"
    using False assms(2) by (simp_all add: get_address_def address_range_def Let_def)
  then show ?thesis by blast
qed

lemma unat_minus_1_u8: "unat ((x :: u8) - 1) = (if x = 0 then 255 else unat x - 1)"
  by (simp add: unat_sub_if' unat_eq_0 Suc_le_eq unat_gt_0 neq0_conv [symmetric] del: neq0_conv)

abbreviation with_life :: "u8 \<Rightarrow> 'g generator_scheme \<Rightarrow> 'g generator_scheme" where
  "with_life l g \<equiv> g\<lparr>current_address_life_time := l\<rparr>"

lemma get_address_keeps:
  assumes "1 < life_left g"
  shows "\<exists>l. get_address e (g, w) = Inr (current_address g, with_life l g, w) \<and>
    life_left (with_life l g) = life_left g - 1"
proof -
  have *: "unat (current_address_life_time g - 1) = life_left g - 1"
    by (simp add: life_left_def unat_minus_1_u8)
  then have n: "current_address_life_time g - 1 \<noteq> 0" using assms by force
  then have "get_address e (g, w) = Inr (current_address g, with_life (current_address_life_time g - 1) g, w)"
    by (simp add: get_address_def Let_def)
  moreover have "life_left (with_life (current_address_life_time g - 1) g) = life_left g - 1"
    using n * by (simp add: life_left_def)
  ultimately show ?thesis by blast
qed

lemma address_run_same:
  assumes "n < life_left g"
  shows "\<exists>l. address_run e n (g, w) = Inr (replicate n (current_address g), with_life l g, w) \<and>
    life_left (with_life l g) = life_left g - n"
  using assms
proof (induction n arbitrary: g)
  case 0
  then show ?case by (auto intro: exI [of _ "current_address_life_time g"])
next
  case (Suc n)
  then have "1 < life_left g" by simp
  then obtain k where k: "get_address e (g, w) = Inr (current_address g, with_life k g, w)"
    "life_left (with_life k g) = life_left g - 1"
    using get_address_keeps [of g e w] by blast
  obtain l where "address_run e n (with_life k g, w) =
      Inr (replicate n (current_address (with_life k g)), with_life l (with_life k g), w)"
    "life_left (with_life l (with_life k g)) = life_left (with_life k g) - n"
    using Suc.IH [of "with_life k g"] Suc.prems k(2) by (auto simp: less_diff_conv)
  with k show ?case by auto
qed

text \<open>The call that uses up the life draws the next address, and returns the old one.\<close>

lemma get_address_renews:
  assumes "life_left g = 1"
  shows "get_address e (g, w) =
    bind_result (choose_new_random_address e (g, w)) (\<lambda>gw. Inr (current_address g, gw))"
proof -
  have "unat (current_address_life_time g) = 1"
    using assms by (simp add: life_left_def split: if_splits)
  then have one: "current_address_life_time g = 1" by (simp add: word_unat_eq_iff)
  have "choose_new_random_address e (g\<lparr>current_address_life_time := 0\<rparr>, w) = choose_new_random_address e (g, w)"
    by (simp add: choose_new_random_address_def Let_def split: prod.splits)
  with one show ?thesis by (simp add: get_address_def)
qed

lemma address_run_last:
  assumes "address_run e n gw = Inr (as, gw1)" "get_address e gw1 = Inr (a, gw2)"
  shows "address_run e (Suc n) gw = Inr (as @ [a], gw2)"
  using assms
proof (induction n arbitrary: gw as)
  case 0
  then show ?case by simp
next
  case (Suc n)
  from Suc.prems(1) obtain b gw' bs where g: "get_address e gw = Inr (b, gw')"
    "address_run e n gw' = Inr (bs, gw1)" "as = b # bs"
    by (auto simp: bind_result_eq_Inr)
  from Suc.IH [OF g(2) Suc.prems(2)] g show ?case by simp
qed

text \<open>
  A whole life: as many calls as the life has return the current address, and the last of them
  puts the next address in place, drawn from the state the world had at the beginning.
\<close>

lemma choose_with_life:
  "choose_new_random_address e (with_life l g, w) = choose_new_random_address e (g, w)"
  by (simp add: choose_new_random_address_def Let_def split: prod.splits)

lemma address_run_renews:
  assumes "choose_new_random_address e (g, w) = Inr gw"
  shows "address_run e (life_left g) (g, w) = Inr (replicate (life_left g) (current_address g), gw)"
proof -
  have pos: "0 < life_left g" by (simp add: life_left_def unat_gt_0)
  then have "life_left g - 1 < life_left g" by simp
  then obtain l where l: "address_run e (life_left g - 1) (g, w) =
      Inr (replicate (life_left g - 1) (current_address g), with_life l g, w)"
    "life_left (with_life l g) = life_left g - (life_left g - 1)"
    using address_run_same [of "life_left g - 1" g e w] by blast
  have "life_left (with_life l g) = 1" using l(2) pos by simp
  then have "get_address e (with_life l g, w) = Inr (current_address g, gw)"
    using assms get_address_renews [of "with_life l g" e w] by (simp add: choose_with_life)
  from address_run_last [OF l(1) this] pos show ?thesis
    by (simp add: replicate_append_same flip: replicate_Suc)
qed

section \<open>Facts about runs\<close>

text \<open>Address drawing touches the two address fields only.\<close>

definition address_step :: "'g generator_scheme \<Rightarrow> 'g generator_scheme \<Rightarrow> bool" where
  "address_step g g' \<longleftrightarrow> (\<exists>a l. g' = g\<lparr>current_address := a, current_address_life_time := l\<rparr>)"

lemma get_address_frame:
  assumes "get_address e (g, w) = Inr (r, g1, w1)"
  shows "address_step g g1"
proof (cases "current_address_life_time g - 1 = 0")
  case True
  with assms show ?thesis
    by (auto simp: get_address_def choose_new_random_address_def address_step_def Let_def
        bind_result_eq_Inr split: prod.splits if_splits)
next
  case False
  then have "g1 = g\<lparr>current_address := current_address g,
      current_address_life_time := current_address_life_time g - 1\<rparr>"
    using assms by (cases g, auto simp: get_address_def Let_def)
  then show ?thesis unfolding address_step_def by blast
qed

lemma emit_begin_eq:
  assumes "emit_begin e (g, w) = Inr (pc', g', w', out)"
  shows "pc' = E_wait_neg \<and> out_packet out \<noteq> None \<and> out_activated out = None \<and> address_step g g'"
  using assms get_address_frame [of e g w]
  by (auto simp: emit_begin_def bind_result_eq_Inr no_out_def Let_def case_prod_unfold)

lemma edges_simps [simp]:
  "edges [] = 0" "edges (Count_edge # evs) = Suc (edges evs)" "edges (Resume # evs) = edges evs"
  by (simp_all add: edges_def)

lemma clock_counter_le: "unat (clock_count (clock_counter g)) \<le> Suc (unat (clock_count g))"
  by (simp add: clock_counter_def unat_word_ariths)

lemma emit_continue_silent: "emit_continue pc = (pc', out) \<Longrightarrow> out_packet out = None"
  by (cases pc) (auto simp: emit_continue_def no_out_def)

text \<open>An emission pays one period of counted cycles, so emissions are at least a period apart.\<close>

lemma stream_resume_budget:
  assumes "stream_resume e pc (g, w) = Inr (pc', g', w', out)"
  shows "period g' = period g \<and>
    (if out_packet out = None then clock_count g' = clock_count g
     else clock_count g' = 0 \<and> period g \<le> clock_count g)"
proof (cases "pc = G_wait \<and> period g \<le> clock_count g")
  case True
  then have "emit_begin e (reset_clock_count g, w) = Inr (pc', g', w', out)"
    using assms by (simp add: stream_resume_def)
  from emit_begin_eq [OF this] True show ?thesis
    by (auto simp: reset_clock_count_def set_clock_counter_def address_step_def)
next
  case False
  with assms show ?thesis
    by (cases pc) (auto simp: stream_resume_def emit_continue_def no_out_def split: prod.splits if_splits)
qed

lemma stream_budget:
  assumes "gen_run (stream_resume e) evs (pc, g, w) = Inr (ps, pc', g', w')"
  shows "length ps * unat (period g) + unat (clock_count g') \<le> unat (clock_count g) + edges evs"
  using assms
proof (induction evs arbitrary: pc g w ps)
  case Nil
  then show ?case by simp
next
  case (Cons ev evs)
  show ?case
  proof (cases ev)
    case Count_edge
    then have "length ps * unat (period (clock_counter g)) + unat (clock_count g') \<le>
        unat (clock_count (clock_counter g)) + edges evs"
      using Cons by simp
    with Count_edge clock_counter_le [of g] show ?thesis by (simp add: clock_counter_def)
  next
    case Resume
    with Cons.prems obtain pc1 g1 w1 out ps1 where
      st: "stream_resume e pc (g, w) = Inr (pc1, g1, w1, out)"
      and run: "gen_run (stream_resume e) evs (pc1, g1, w1) = Inr (ps1, pc', g', w')"
      and ps: "ps = (case out_packet out of None \<Rightarrow> ps1 | Some p \<Rightarrow> p # ps1)"
      by (auto simp: bind_result_eq_Inr)
    have ih: "length ps1 * unat (period g1) + unat (clock_count g') \<le> unat (clock_count g1) + edges evs"
      by (rule Cons.IH [OF run])
    show ?thesis
      using stream_resume_budget [OF st] ih ps Resume
      by (cases "out_packet out") (auto simp: word_le_nat_alt)
  qed
qed

text \<open>The most packets one long period can hold: one at cycle 0 and one per short period.\<close>

definition burst_cap :: "burst_generator \<Rightarrow> nat" where
  "burst_cap g = (unat (burst_length g) - 1) div unat (short_period g) + 1"

definition same_burst :: "burst_generator \<Rightarrow> burst_generator \<Rightarrow> bool" where
  "same_burst g g' \<longleftrightarrow> long_period g' = long_period g \<and> short_period g' = short_period g \<and>
     burst_length g' = burst_length g"

lemma burst_cap_same: "same_burst g g' \<Longrightarrow> burst_cap g' = burst_cap g"
  by (simp add: same_burst_def burst_cap_def)

lemma burst_cap_small: "burst_cap g < 2 ^ 32"
proof -
  have "(unat (burst_length g) - 1) div unat (short_period g) \<le> unat (burst_length g) - 1"
    by (rule div_le_dividend)
  moreover have "unat (burst_length g) < 2 ^ 32" using unsigned_less [of "burst_length g"] by simp
  ultimately have "burst_cap g \<le> 1 + (unat (burst_length g) - 1)" "unat (burst_length g) < 2 ^ 32"
    by (simp_all add: burst_cap_def)
  then show ?thesis by (cases "unat (burst_length g)") simp_all
qed

definition burst_level :: "burst_generator \<Rightarrow> nat" where
  "burst_level g = burst_cap g * unat (clock_count g)"

text \<open>What is paid for: the cycles counted so far, and one long period for packets of this burst.\<close>

lemma burst_tail_budget:
  assumes "unat (current_packet_count g) \<le> burst_cap g"
  shows "same_burst g (burst_tail g) \<and> unat (current_packet_count (burst_tail g)) \<le> burst_cap g \<and>
    unat (current_packet_count g) * unat (long_period g) + burst_level (burst_tail g)
      \<le> unat (current_packet_count (burst_tail g)) * unat (long_period g) + burst_level g"
proof (cases "long_period g \<le> clock_count g")
  case True
  have "unat (current_packet_count g) * unat (long_period g) \<le> burst_cap g * unat (clock_count g)"
    using assms True by (intro mult_le_mono) (simp_all add: word_le_nat_alt)
  with True show ?thesis
    by (simp add: burst_tail_def same_burst_def burst_level_def reset_clock_count_def set_clock_counter_def)
next
  case False
  with assms show ?thesis by (simp add: burst_tail_def same_burst_def burst_level_def)
qed

lemma burst_emit_room:
  assumes "clock_count g < burst_length g" "short_period g \<noteq> 0"
    and "current_packet_count g \<le> clock_count g div short_period g"
  shows "unat (current_packet_count g + 1) = unat (current_packet_count g) + 1"
    and "unat (current_packet_count g) + 1 \<le> burst_cap g"
proof -
  have "unat (current_packet_count g) \<le> unat (clock_count g) div unat (short_period g)"
    using assms(3) by (simp add: word_le_nat_alt unat_div)
  also have "\<dots> \<le> (unat (burst_length g) - 1) div unat (short_period g)"
    using assms(1) by (intro div_le_mono) (simp add: word_less_nat_alt)
  finally show le: "unat (current_packet_count g) + 1 \<le> burst_cap g"
    by (simp add: burst_cap_def)
  show "unat (current_packet_count g + 1) = unat (current_packet_count g) + 1"
    using le burst_cap_small [of g] by (simp add: unat_word_ariths)
qed

lemma burst_resume_budget:
  assumes "burst_resume e pc (g, w) = Inr (pc', g', w', out)"
    and "unat (current_packet_count g) \<le> burst_cap g"
  shows "same_burst g g'" (is ?A)
    and "unat (current_packet_count g') \<le> burst_cap g'" (is ?B)
    and "(if out_packet out = None then 0 else 1) * unat (long_period g) +
      unat (current_packet_count g) * unat (long_period g) + burst_level g' \<le>
      unat (current_packet_count g') * unat (long_period g) + burst_level g" (is ?C)
proof -
  consider
    (emit) "pc = G_wait" "clock_count g < burst_length g" "short_period g \<noteq> 0"
      "current_packet_count g \<le> clock_count g div short_period g"
      "emit_begin e (g\<lparr>current_packet_count := current_packet_count g + 1\<rparr>, w) = Inr (pc', g', w', out)"
    | (loop) "g' = burst_tail g" "out = no_out"
    | (stay) "g' = g" "out_packet out = None"
    using assms(1)
    by (cases pc) (auto simp: burst_resume_def emit_continue_def no_out_def split: if_splits)
  then have "?A \<and> ?B \<and> ?C"
  proof cases
    case emit
    from emit_begin_eq [OF emit(5)] burst_emit_room [OF emit(2-4)] show ?thesis
      by (auto simp: address_step_def same_burst_def burst_cap_def burst_level_def algebra_simps)
  next
    case loop
    with burst_tail_budget [OF assms(2)] burst_cap_same [of g g'] show ?thesis by (simp add: no_out_def)
  next
    case stay
    with assms(2) show ?thesis by (simp add: same_burst_def)
  qed
  then show ?A and ?B and ?C by simp_all
qed

lemma burst_budget:
  assumes "gen_run (burst_resume e) evs (pc, g, w) = Inr (ps, pc', g', w')"
    and "unat (current_packet_count g) \<le> burst_cap g"
  shows "length ps * unat (long_period g) + unat (current_packet_count g) * unat (long_period g)
    \<le> burst_cap g * (unat (clock_count g) + edges evs) + burst_cap g * unat (long_period g)"
  using assms
proof (induction evs arbitrary: pc g w ps)
  case Nil
  then show ?case by (auto intro!: trans_le_add2 mult_le_mono1)
next
  case (Cons ev evs)
  show ?case
  proof (cases ev)
    case Count_edge
    let ?g = "clock_counter g"
    have same: "current_packet_count ?g = current_packet_count g" "burst_cap ?g = burst_cap g"
      "long_period ?g = long_period g" by (simp_all add: clock_counter_def burst_cap_def)
    have ih: "length ps * unat (long_period g) + unat (current_packet_count g) * unat (long_period g)
      \<le> burst_cap g * (unat (clock_count ?g) + edges evs) + burst_cap g * unat (long_period g)"
      using Cons.IH [of pc ?g w ps] Cons.prems Count_edge same by simp
    have "burst_cap g * (unat (clock_count ?g) + edges evs) \<le> burst_cap g * (unat (clock_count g) + edges (ev # evs))"
      using clock_counter_le [of g] Count_edge by (intro mult_le_mono2) simp
    with ih show ?thesis by linarith
  next
    case Resume
    with Cons.prems(1) obtain pc1 g1 w1 out ps1 where
      st: "burst_resume e pc (g, w) = Inr (pc1, g1, w1, out)"
      and run: "gen_run (burst_resume e) evs (pc1, g1, w1) = Inr (ps1, pc', g', w')"
      and ps: "ps = (case out_packet out of None \<Rightarrow> ps1 | Some p \<Rightarrow> p # ps1)"
      by (auto simp: bind_result_eq_Inr)
    note b = burst_resume_budget [OF st Cons.prems(2)]
    have cap: "burst_cap g1 = burst_cap g" "long_period g1 = long_period g"
      using b(1) by (simp_all add: burst_cap_same) (simp add: same_burst_def)
    have ih: "length ps1 * unat (long_period g) + unat (current_packet_count g1) * unat (long_period g)
      \<le> burst_cap g * (unat (clock_count g1) + edges evs) + burst_cap g * unat (long_period g)"
      using Cons.IH [OF run b(2)] cap by simp
    have len: "length ps = length ps1 + (if out_packet out = None then 0 else 1)"
      using ps by (auto split: option.splits)
    show ?thesis
      using ih b(3) len Resume cap(1)
      by (auto simp: burst_level_def add_mult_distrib2 add_mult_distrib split: if_splits)
  qed
qed

section \<open>Runs do not fault\<close>

text \<open>
  A creation callback that returns and keeps the address and the data (the tracer's only sets
  \<open>extra\<close>), and the ranges \<open>set_address_properties\<close> establishes, make every run total and
  every emitted address one of the network's.
\<close>

definition created_ok :: "'w env \<Rightarrow> bool" where
  "created_ok e \<longleftrightarrow> (\<forall>p w. \<exists>p' w'. env_created e p w = Inr (p', w') \<and> packet_eq p p')"

lemma created_okE:
  assumes "created_ok e"
  obtains p' w' where "env_created e p w = Inr (p', w')" "packet_eq p p'"
  using assms unfolding created_ok_def by blast

definition in_range :: "u8 \<Rightarrow> u8 \<Rightarrow> packet \<Rightarrow> bool" where
  "in_range mn mx p \<longleftrightarrow> mn \<le> address p \<and> address p < mx"

definition gen_ok :: "u8 \<Rightarrow> u8 \<Rightarrow> 'g generator_scheme \<Rightarrow> bool" where
  "gen_ok mn mx g \<longleftrightarrow> address_range g \<and> address_min g = mn \<and> address_max g = mx"

lemma gen_ok_frame [simp]:
  "gen_ok mn mx (clock_counter g) = gen_ok mn mx g"
  "gen_ok mn mx (reset_clock_count g) = gen_ok mn mx g"
  by (simp_all add: gen_ok_def address_range_def clock_counter_def reset_clock_count_def set_clock_counter_def)

lemma gen_ok_burst_frame [simp]:
  "gen_ok mn mx (burst_tail b) = gen_ok mn mx b"
  "gen_ok mn mx (b\<lparr>current_packet_count := c\<rparr>) = gen_ok mn mx b"
  by (simp_all add: gen_ok_def address_range_def burst_tail_def reset_clock_count_def set_clock_counter_def)

lemma emit_begin_total:
  assumes "rand_ok e" "created_ok e" "gen_ok mn mx g"
  shows "\<exists>g' w' p. emit_begin e (g, w) = Inr (E_wait_neg, g', w', no_out\<lparr>out_packet := Some p\<rparr>) \<and>
    gen_ok mn mx g' \<and> in_range mn mx p \<and> address p = current_address g"
proof -
  have rng: "address_range g" "address_min g = mn" "address_max g = mx"
    using assms(3) by (simp_all add: gen_ok_def)
  from get_address_total [OF assms(1) rng(1), of w] obtain g1 w1 a l where
    ga: "get_address e (g, w) = Inr (current_address g, g1, w1)"
    and g1: "address_range g1" "g1 = g\<lparr>current_address := a, current_address_life_time := l\<rparr>"
    by blast
  obtain r w2 where r: "env_rand e w1 = (r, w2)" by fastforce
  let ?p = "(make_packet 0 0)\<lparr>address := current_address g, data := word_of_int r\<rparr>"
  obtain p' w' where p': "env_created e ?p w2 = Inr (p', w')" "packet_eq ?p p'"
    by (rule created_okE [OF assms(2)])
  have "emit_begin e (g, w) = Inr (E_wait_neg, g1, w', no_out\<lparr>out_packet := Some p'\<rparr>)"
    using p'(1) by (simp add: emit_begin_def ga r)
  moreover have "gen_ok mn mx g1" using g1 rng by (simp add: gen_ok_def)
  moreover have "address p' = current_address g" using p'(2) by (simp add: packet_eq_def)
  moreover have "in_range mn mx p'"
    using rng \<open>address p' = current_address g\<close> by (simp add: in_range_def address_range_def)
  ultimately show ?thesis by blast
qed

text \<open>What one resumption promises, for both generators.\<close>

definition resume_ok ::
  "u8 \<Rightarrow> u8 \<Rightarrow> ('g generator_scheme, 'w) gen_step \<Rightarrow> bool"
where
  "resume_ok mn mx r \<longleftrightarrow> (\<exists>pc' g' w' out. r = Inr (pc', g', w', out) \<and> gen_ok mn mx g' \<and>
     (\<forall>p. out_packet out = Some p \<longrightarrow> in_range mn mx p))"

lemma resume_okI:
  "r = Inr (pc', g', w', out) \<Longrightarrow> gen_ok mn mx g' \<Longrightarrow>
   (\<And>p. out_packet out = Some p \<Longrightarrow> in_range mn mx p) \<Longrightarrow> resume_ok mn mx r"
  unfolding resume_ok_def by blast

lemma emit_begin_ok:
  assumes "rand_ok e" "created_ok e" "gen_ok mn mx g"
  shows "resume_ok mn mx (emit_begin e (g, w))"
  using emit_begin_total [OF assms, of w] by (auto intro: resume_okI)

lemma emit_continue_ok:
  assumes "gen_ok mn mx g"
  shows "resume_ok mn mx (let (pc', out) = emit_continue pc in Inr (pc', g, w, out))"
  using assms emit_continue_silent [of pc] by (auto intro!: resume_okI split: prod.splits)

lemma stream_resume_ok:
  assumes "rand_ok e" "created_ok e" "gen_ok mn mx g"
  shows "resume_ok mn mx (stream_resume e pc (g, w))"
  using emit_begin_ok [OF assms(1,2), of mn mx "reset_clock_count g" w]
    emit_continue_ok [OF assms(3), of pc w] assms(3)
  by (cases pc) (auto simp: stream_resume_def no_out_def intro: resume_okI)

lemma burst_resume_ok:
  assumes "rand_ok e" "created_ok e" "gen_ok mn mx g" "short_period g \<noteq> 0"
  shows "resume_ok mn mx (burst_resume e pc (g, w))"
  using emit_begin_ok [OF assms(1,2), of mn mx "g\<lparr>current_packet_count := current_packet_count g + 1\<rparr>" w]
    emit_continue_ok [OF assms(3), of pc w] assms(3,4)
  by (cases pc) (auto simp: burst_resume_def no_out_def intro: resume_okI)

lemma gen_run_ok:
  assumes step: "\<And>pc g w. gen_ok mn mx g \<Longrightarrow> keep g \<Longrightarrow> resume_ok mn mx (resume pc (g, w))"
    and keep_tick: "\<And>g. keep g \<Longrightarrow> keep (clock_counter g)"
    and keep_resume: "\<And>pc g w pc' g' w' out. keep g \<Longrightarrow> resume pc (g, w) = Inr (pc', g', w', out) \<Longrightarrow> keep g'"
    and "gen_ok mn mx g" "keep g"
  shows "\<exists>ps st. gen_run resume evs (pc, g, w) = Inr (ps, st) \<and> (\<forall>p\<in>set ps. in_range mn mx p)"
  using assms(4,5)
proof (induction evs arbitrary: pc g w)
  case Nil
  then show ?case by simp
next
  case (Cons ev evs)
  show ?case
  proof (cases ev)
    case Count_edge
    with Cons keep_tick show ?thesis by simp
  next
    case Resume
    from step [OF Cons.prems, of pc w] obtain pc' g' w' out where
      r: "resume pc (g, w) = Inr (pc', g', w', out)" "gen_ok mn mx g'"
      "\<forall>p. out_packet out = Some p \<longrightarrow> in_range mn mx p" unfolding resume_ok_def by blast
    from Cons.IH [OF r(2) keep_resume [OF Cons.prems(2) r(1)]] obtain ps st where
      "gen_run resume evs (pc', g', w') = Inr (ps, st)" "\<forall>p\<in>set ps. in_range mn mx p" by blast
    with r Resume show ?thesis by (cases "out_packet out"; cases st) auto
  qed
qed

lemma stream_run_ok:
  assumes "rand_ok e" "created_ok e" "gen_ok mn mx g"
  shows "\<exists>ps st. gen_run (stream_resume e) evs (pc, g, w) = Inr (ps, st) \<and> (\<forall>p\<in>set ps. in_range mn mx p)"
  by (rule gen_run_ok [where keep = "\<lambda>_. True"]) (use assms in \<open>auto intro: stream_resume_ok\<close>)

lemma burst_resume_short:
  "burst_resume e pc (g, w) = Inr (pc', g', w', out) \<Longrightarrow> short_period g' = short_period g"
  by (cases pc) (auto simp: burst_resume_def emit_continue_def burst_tail_def reset_clock_count_def
      set_clock_counter_def address_step_def split: if_splits dest!: emit_begin_eq)

lemma burst_run_ok:
  assumes "rand_ok e" "created_ok e" "gen_ok mn mx g" "short_period g \<noteq> 0"
  shows "\<exists>ps st. gen_run (burst_resume e) evs (pc, g, w) = Inr (ps, st) \<and> (\<forall>p\<in>set ps. in_range mn mx p)"
proof (rule gen_run_ok [where keep = "\<lambda>g. short_period g \<noteq> 0"])
  show "resume_ok mn mx (burst_resume e pc (h, v))" if "gen_ok mn mx h" "short_period h \<noteq> 0" for pc h v
    by (rule burst_resume_ok [OF assms(1,2) that])
  show "short_period (clock_counter h) \<noteq> 0" if "short_period h \<noteq> 0" for h :: burst_generator
    using that by (simp add: clock_counter_def)
  show "short_period h' \<noteq> 0" if "short_period h \<noteq> 0" "burst_resume e pc (h, v) = Inr (pc', h', v', out)"
    for pc h v pc' h' v' out
    using that burst_resume_short by metis
qed (use assms in auto)

lemma address_run_range:
  assumes "rand_ok e" "gen_ok mn mx h"
  shows "\<exists>as h' v'. address_run e n (h, v) = Inr (as, h', v') \<and> (\<forall>a\<in>set as. mn \<le> a \<and> a < mx)"
  using assms(2)
proof (induction n arbitrary: h v)
  case 0
  then show ?case by simp
next
  case (Suc n)
  then have h: "address_range h" "address_min h = mn" "address_max h = mx" by (simp_all add: gen_ok_def)
  obtain h1 v1 a l where st: "get_address e (h, v) = Inr (current_address h, h1, v1)"
    and h1: "address_range h1" "h1 = h\<lparr>current_address := a, current_address_life_time := l\<rparr>"
    using get_address_total [OF assms(1) h(1), of v] by blast
  have "gen_ok mn mx h1" using h1 h by (simp add: gen_ok_def)
  from Suc.IH [OF this, of v1] st h show ?case by (auto simp: address_range_def)
qed

end
