(* ===== verification/Router.thy ===== *)
theory Router
  imports Traffic Sc_Fifo
begin

text \<open>
  \<open>src/router.cpp\<close> and \<open>include/noc/router.h\<close>: the router of one input. It waits for the
  generator's \<open>activated\<close>, waits for room in the fifo of the packet's destination, calls the
  marker callback, pushes the packet and acknowledges it with the four-phase handshake.
\<close>

section \<open>State\<close>

text \<open>
  A program counter per \<open>wait\<close>: the two of \<open>main\<close>, the room loop of \<open>read_packet\<close> (which
  keeps the packet it has read in a local variable), the one inside the blocking
  \<open>sc_fifo::write\<close> (entered when the callback has sent the packet to another, full, fifo), and
  the two after the acknowledgement.
\<close>

datatype router_pc =
    R_start
  | R_wait_act
  | R_wait_clk
  | R_wait_room packet
  | R_blocked packet
  | R_wait_act_neg
  | R_wait_clk_neg

text \<open>
  What one activation writes: a packet pushed in the fifo of a port (with the fifo after the
  push), and \<open>acknoledge\<close>.
\<close>

record router_out =
  out_push :: "(nat \<times> packet \<times> packet sc_fifo) option"
  out_ack :: "bool option"

definition no_router_out :: router_out where
  "no_router_out = \<lparr>out_push = None, out_ack = None\<rparr>"

type_synonym 'w router_step = "(router_pc \<times> 'w \<times> router_out) result"

section \<open>Operations\<close>

text \<open>
  \<open>read_packet\<close> from the test of the room loop on. The array \<open>fifos\<close> has
  \<open>_router_output_ports\<close> elements; nothing checks the address against it.
\<close>

definition put_packet :: "packet sc_fifo list \<Rightarrow> packet \<Rightarrow> 'w \<Rightarrow> 'w router_step" where
  "put_packet fs p w =
     bind_result (vec_at fs (unat (address p))) (\<lambda>f.
       case fifo_write p f of
         None \<Rightarrow> Inr (R_blocked p, w, no_router_out)
       | Some f' \<Rightarrow>
           Inr (R_wait_act_neg, w, \<lparr>out_push = Some (unat (address p), p, f'), out_ack = Some True\<rparr>))"

definition push_when_room :: "'w env \<Rightarrow> packet sc_fifo list \<Rightarrow> packet \<Rightarrow> 'w \<Rightarrow> 'w router_step" where
  "push_when_room e fs p w =
     bind_result (vec_at fs (unat (address p))) (\<lambda>f.
       if num_free f = 0 then Inr (R_wait_room p, w, no_router_out)
       else bind_result (env_marked e p w) (\<lambda>(p', w'). put_packet fs p' w'))"

definition read_packet :: "'w env \<Rightarrow> packet sc_fifo list \<Rightarrow> packet \<Rightarrow> 'w \<Rightarrow> 'w router_step" where
  "read_packet e fs input w = push_when_room e fs input w"

text \<open>One resumption of the thread \<open>main\<close>.\<close>

definition router_resume ::
  "'w env \<Rightarrow> packet sc_fifo list \<Rightarrow> packet \<Rightarrow> router_pc \<Rightarrow> 'w \<Rightarrow> 'w router_step"
where
  "router_resume e fs input pc w =
     (case pc of
        R_start \<Rightarrow> Inr (R_wait_act, w, no_router_out\<lparr>out_ack := Some False\<rparr>)
      | R_wait_act \<Rightarrow> Inr (R_wait_clk, w, no_router_out)
      | R_wait_clk \<Rightarrow> read_packet e fs input w
      | R_wait_room p \<Rightarrow> push_when_room e fs p w
      | R_blocked p \<Rightarrow> put_packet fs p w
      | R_wait_act_neg \<Rightarrow> Inr (R_wait_clk_neg, w, no_router_out)
      | R_wait_clk_neg \<Rightarrow> Inr (R_wait_act, w, no_router_out\<lparr>out_ack := Some False\<rparr>))"

section \<open>Facts\<close>

text \<open>A marker callback that returns and keeps the address and the data.\<close>

definition marked_ok :: "'w env \<Rightarrow> bool" where
  "marked_ok e \<longleftrightarrow> (\<forall>p w. \<exists>p' w'. env_marked e p w = Inr (p', w') \<and> packet_eq p p')"

lemma marked_okE:
  assumes "marked_ok e"
  obtains p' w' where "env_marked e p w = Inr (p', w')" "packet_eq p p'"
  using assms unfolding marked_ok_def by blast

lemma fifo_write_ready: "num_free f \<noteq> 0 \<Longrightarrow> \<exists>f'. fifo_write p f = Some f'"
  by (simp add: fifo_write_def split: prod.split)

lemma push_when_room_waits:
  assumes "unat (address p) < length fs" "num_free (fs ! unat (address p)) = 0"
  shows "push_when_room e fs p w = Inr (R_wait_room p, w, no_router_out)"
  using assms by (simp add: push_when_room_def)

lemma push_when_room_pushes:
  assumes "marked_ok e" "unat (address p) < length fs" "num_free (fs ! unat (address p)) \<noteq> 0"
  shows "\<exists>p' w' f'. packet_eq p p' \<and> fifo_write p' (fs ! unat (address p)) = Some f' \<and>
    push_when_room e fs p w = Inr (R_wait_act_neg, w',
      \<lparr>out_push = Some (unat (address p), p', f'), out_ack = Some True\<rparr>)"
proof -
  obtain p' w' where m: "env_marked e p w = Inr (p', w')" "packet_eq p p'"
    by (rule marked_okE [OF assms(1)])
  obtain f' where "fifo_write p' (fs ! unat (address p)) = Some f'"
    using fifo_write_ready [OF assms(3)] by blast
  with m show ?thesis using assms(2,3) by (auto simp: push_when_room_def put_packet_def packet_eq_def)
qed

lemma push_when_room_out_of_range:
  assumes "length fs \<le> unat (address p)"
  shows "push_when_room e fs p w = Inl Out_of_range"
  using assms by (simp add: push_when_room_def)

text \<open>The router acknowledges exactly when it pushes, and a push is a successful write.\<close>

lemma router_resume_push:
  assumes "router_resume e fs input pc w = Inr (pc', w', out)"
  shows "(out_push out \<noteq> None \<longleftrightarrow> out_ack out = Some True) \<and>
    (out_push out \<noteq> None \<longleftrightarrow> pc' = R_wait_act_neg) \<and>
    (out_push out \<noteq> None \<longrightarrow> pc \<in> {R_wait_clk} \<union> range R_wait_room \<union> range R_blocked)"
  using assms
  by (cases pc) (auto simp: router_resume_def read_packet_def push_when_room_def put_packet_def no_router_out_def
      bind_result_eq_Inr split: if_splits option.splits)

end
