(* ===== verification/Sc_Signal.thy ===== *)
theory Sc_Signal
  imports Prelude
begin

unbundle bit_operations_syntax

text \<open>
  \<open>sysc/communication/sc_signal.h\<close> and \<open>sc_writer_policy.h\<close>: signals with the evaluate/update
  protocol. A write stores the new value and asks for an update only if the new value differs
  from the current one; the update phase makes it current and notifies the events of the
  signal. The comparison is the \<open>operator==\<close> of the value type, a parameter \<open>eq\<close> here,
  because for packets it is not equality.
\<close>

section \<open>State\<close>

record 'v signal =
  m_cur_val :: 'v
  m_new_val :: 'v
  m_change_stamp :: u64
  m_writer_p :: "nat option"
  m_output :: "nat option"
  sig_requested :: bool

definition make_signal :: "'v \<Rightarrow> 'v signal" where
  "make_signal v = \<lparr>m_cur_val = v, m_new_val = v, m_change_stamp = NOT 1,
     m_writer_p = None, m_output = None, sig_requested = False\<rparr>"

section \<open>Writing\<close>

text \<open>The writer policies; \<open>SC_ONE_WRITER\<close> is the default.\<close>

datatype writer_policy = SC_ONE_WRITER | SC_MANY_WRITERS | SC_UNCHECKED_WRITERS

text \<open>
  \<open>sc_writer_policy_check_write::check_write\<close>: the first writer is remembered; another one,
  unless it is the null writer of code outside the simulator, is an error.
\<close>

definition check_write_first :: "nat option \<Rightarrow> 'v signal \<Rightarrow> 'v signal result" where
  "check_write_first writer_p s =
     (if m_writer_p s = None then Inr (s\<lparr>m_writer_p := writer_p\<rparr>)
      else if m_writer_p s \<noteq> writer_p \<and> writer_p \<noteq> None then Inl Sc_report_error
      else Inr s)"

definition check_write :: "writer_policy \<Rightarrow> nat option \<Rightarrow> bool \<Rightarrow> 'v signal \<Rightarrow> 'v signal result" where
  "check_write pol writer_p value_changed s =
     (case pol of
        SC_ONE_WRITER \<Rightarrow> check_write_first writer_p s
      | SC_MANY_WRITERS \<Rightarrow> (if value_changed then check_write_first writer_p s else Inr s)
      | SC_UNCHECKED_WRITERS \<Rightarrow> Inr s)"

text \<open>\<open>check_port\<close>: at most one output port on a signal with one writer.\<close>

definition check_port :: "bool \<Rightarrow> nat \<Rightarrow> bool \<Rightarrow> 'v signal \<Rightarrow> 'v signal result" where
  "check_port write_check port is_output s =
     (if is_output \<and> write_check
      then (if m_output s \<noteq> None then Inl Sc_report_error else Inr (s\<lparr>m_output := Some port\<rparr>))
      else Inr s)"

text \<open>The body of \<open>write\<close> after the policy check.\<close>

definition put_value :: "('v \<Rightarrow> 'v \<Rightarrow> bool) \<Rightarrow> 'v \<Rightarrow> 'v signal \<Rightarrow> 'v signal" where
  "put_value eq v s =
     (let s1 = s\<lparr>m_new_val := v\<rparr>
      in if eq (m_cur_val s) v then s1 else s1\<lparr>sig_requested := True\<rparr>)"

definition signal_write ::
  "('v \<Rightarrow> 'v \<Rightarrow> bool) \<Rightarrow> writer_policy \<Rightarrow> nat option \<Rightarrow> 'v \<Rightarrow> 'v signal \<Rightarrow> 'v signal result"
where
  "signal_write eq pol writer_p v s =
     bind_result (check_write pol writer_p (\<not> eq (m_cur_val s) v) s) (\<lambda>s1. Inr (put_value eq v s1))"

section \<open>Updating\<close>

definition policy_update :: "writer_policy \<Rightarrow> 'v signal \<Rightarrow> 'v signal" where
  "policy_update pol s = (case pol of SC_MANY_WRITERS \<Rightarrow> s\<lparr>m_writer_p := None\<rparr> | _ \<Rightarrow> s)"

text \<open>The boolean says whether the value changed, that is whether \<open>m_change_event_p\<close> is notified.\<close>

definition signal_update :: "('v \<Rightarrow> 'v \<Rightarrow> bool) \<Rightarrow> writer_policy \<Rightarrow> u64 \<Rightarrow> 'v signal \<Rightarrow> bool \<times> 'v signal" where
  "signal_update eq pol stamp s =
     (let s1 = (policy_update pol s)\<lparr>sig_requested := False\<rparr>
      in if \<not> eq (m_new_val s1) (m_cur_val s1)
         then (True, s1\<lparr>m_cur_val := m_new_val s1, m_change_stamp := stamp\<rparr>)
         else (False, s1))"

text \<open>The specialisation for \<open>bool\<close> notifies one edge event besides.\<close>

datatype edge = Value_changed | Posedge | Negedge

definition bool_update :: "writer_policy \<Rightarrow> u64 \<Rightarrow> bool signal \<Rightarrow> edge list \<times> bool signal" where
  "bool_update pol stamp s =
     (let s1 = (policy_update pol s)\<lparr>sig_requested := False\<rparr>
      in if \<not> (m_new_val s1 = m_cur_val s1)
         then (let s2 = s1\<lparr>m_cur_val := m_new_val s1\<rparr>
               in (Value_changed # (if m_cur_val s2 then [Posedge] else [Negedge]),
                   s2\<lparr>m_change_stamp := stamp\<rparr>))
         else ([], s1))"

text \<open>\<open>event()\<close>, \<open>posedge()\<close>, \<open>negedge()\<close>: did the signal change at the stamp \<open>now\<close>?\<close>

definition signal_event :: "u64 \<Rightarrow> 'v signal \<Rightarrow> bool" where
  "signal_event now s \<longleftrightarrow> now = m_change_stamp s"

definition signal_posedge :: "u64 \<Rightarrow> bool signal \<Rightarrow> bool" where
  "signal_posedge now s \<longleftrightarrow> signal_event now s \<and> m_cur_val s"

definition signal_negedge :: "u64 \<Rightarrow> bool signal \<Rightarrow> bool" where
  "signal_negedge now s \<longleftrightarrow> signal_event now s \<and> \<not> m_cur_val s"

section \<open>Facts\<close>

text \<open>
  A value that is not current has an update pending, so running the update of every signal,
  asked for or not, gives the same values and events as running the requested ones.
\<close>

definition signal_wf :: "('v \<Rightarrow> 'v \<Rightarrow> bool) \<Rightarrow> 'v signal \<Rightarrow> bool" where
  "signal_wf eq s \<longleftrightarrow> (\<not> sig_requested s \<longrightarrow> eq (m_new_val s) (m_cur_val s))"

lemma signal_wf_make: "eq v v \<Longrightarrow> signal_wf eq (make_signal v)"
  by (simp add: signal_wf_def make_signal_def)

lemma signal_wf_put:
  assumes "\<And>x y. eq x y \<Longrightarrow> eq y x"
  shows "signal_wf eq (put_value eq v s)"
  using assms by (auto simp: signal_wf_def put_value_def Let_def)

lemma signal_wf_update:
  assumes "eq (m_new_val s) (m_new_val s)"
  shows "signal_wf eq (snd (signal_update eq pol st s))"
  using assms
  by (auto simp: signal_wf_def signal_update_def Let_def policy_update_def split: writer_policy.splits)

lemma unrequested_update_noop:
  assumes "signal_wf eq s" "\<not> sig_requested s"
  shows "signal_update eq SC_ONE_WRITER st s = (False, s)"
  using assms by (simp add: signal_wf_def signal_update_def Let_def policy_update_def)

lemma signal_update_value:
  assumes "signal_update eq pol st s = (ch, s')" "eq (m_new_val s) (m_new_val s)"
  shows "eq (m_new_val s') (m_cur_val s') \<and> m_new_val s' = m_new_val s \<and>
    (ch \<longleftrightarrow> \<not> eq (m_new_val s) (m_cur_val s)) \<and>
    m_cur_val s' = (if ch then m_new_val s else m_cur_val s)"
  using assms by (auto simp: signal_update_def Let_def policy_update_def split: if_splits writer_policy.splits)

text \<open>One writer never violates the policy, and two do.\<close>

lemma one_writer_ok:
  assumes "m_writer_p s \<in> {None, Some w}"
  shows "\<exists>s'. signal_write eq SC_ONE_WRITER (Some w) v s = Inr s' \<and> m_writer_p s' = Some w \<and>
    m_new_val s' = v \<and> m_cur_val s' = m_cur_val s"
  using assms by (auto simp: signal_write_def check_write_def check_write_first_def put_value_def Let_def)

lemma second_writer_fails:
  assumes "m_writer_p s = Some w" "w \<noteq> w'"
  shows "signal_write eq SC_ONE_WRITER (Some w') v s = Inl Sc_report_error"
  using assms by (simp add: signal_write_def check_write_def check_write_first_def)

lemma bool_update_edges:
  assumes "bool_update pol st s = (es, s')"
  shows "(Posedge \<in> set es \<longleftrightarrow> \<not> m_cur_val s \<and> m_new_val s) \<and>
    (Negedge \<in> set es \<longleftrightarrow> m_cur_val s \<and> \<not> m_new_val s) \<and>
    (Value_changed \<in> set es \<longleftrightarrow> m_cur_val s \<noteq> m_new_val s) \<and>
    m_cur_val s' = m_new_val s \<and> m_new_val s' = m_new_val s"
  using assms by (auto simp: bool_update_def Let_def policy_update_def split: if_splits writer_policy.splits)

text \<open>Right after an update, \<open>posedge()\<close> and \<open>negedge()\<close> report the edges that were notified.\<close>

lemma bool_update_observed:
  assumes "bool_update pol st s = (es, s')" "m_change_stamp s \<noteq> st"
  shows "(signal_posedge st s' \<longleftrightarrow> Posedge \<in> set es) \<and> (signal_negedge st s' \<longleftrightarrow> Negedge \<in> set es)"
  using assms by (auto simp: bool_update_def Let_def policy_update_def signal_posedge_def
      signal_negedge_def signal_event_def split: if_splits writer_policy.splits)

end
