(* ===== verification/Link.thy ===== *)
theory Link
  imports Router Sc_Signal
begin

text \<open>
  One input of the network: a stream generator and a router connected by the signals
  \<open>inputs_activated[i]\<close>, \<open>inputs_acknoledge[i]\<close> and \<open>inputs[i]\<close> of \<open>include/noc/noc.h\<close>. The
  threads run in the evaluation phase and see the current values; the update phase makes the
  written values current and wakes the threads that wait for an edge. The main fact is the
  invariant of the four-phase handshake: whatever the order in which the threads run, and
  however long the fifo is full, every packet emitted is pushed exactly once.
\<close>

section \<open>State\<close>

record link =
  l_gen :: stream_generator
  l_gpc :: gen_pc
  l_counting :: bool
  l_rpc :: router_pc
  l_act :: "bool signal"
  l_ack :: "bool signal"
  l_inp :: "packet signal"

text \<open>
  The initial state: the ports are initialised by the constructors, no thread has run yet.
\<close>

definition make_link :: "stream_generator \<Rightarrow> link" where
  "make_link g = \<lparr>l_gen = g, l_gpc = G_start, l_counting = False, l_rpc = R_start,
     l_act = make_signal False, l_ack = make_signal False, l_inp = make_signal empty_packet\<rparr>"

section \<open>Runs of the threads\<close>

definition drive :: "('v \<Rightarrow> 'v \<Rightarrow> bool) \<Rightarrow> 'v option \<Rightarrow> 'v signal \<Rightarrow> 'v signal" where
  "drive eq v s = (case v of None \<Rightarrow> s | Some x \<Rightarrow> put_value eq x s)"

definition link_gen_step :: "'w env \<Rightarrow> link \<Rightarrow> 'w \<Rightarrow> (packet option \<times> link \<times> 'w) result" where
  "link_gen_step e l w =
     bind_result (stream_resume e (l_gpc l) (l_gen l, w)) (\<lambda>(pc', g', w', out).
       Inr (out_packet out,
            l\<lparr>l_gpc := pc', l_gen := g', l_inp := drive packet_eq (out_packet out) (l_inp l),
              l_act := drive (=) (out_activated out) (l_act l)\<rparr>, w'))"

definition link_counter_step :: "link \<Rightarrow> link" where
  "link_counter_step l =
     (if l_counting l then l\<lparr>l_gen := clock_counter (l_gen l)\<rparr> else l\<lparr>l_counting := True\<rparr>)"

definition link_router_step ::
  "'w env \<Rightarrow> packet sc_fifo list \<Rightarrow> link \<Rightarrow> 'w \<Rightarrow> ((nat \<times> packet \<times> packet sc_fifo) option \<times> link \<times> 'w) result"
where
  "link_router_step e fs l w =
     bind_result (router_resume e fs (m_cur_val (l_inp l)) (l_rpc l) w) (\<lambda>(pc', w', out).
       Inr (out_push out, l\<lparr>l_rpc := pc', l_ack := drive (=) (out_ack out) (l_ack l)\<rparr>, w'))"

section \<open>The update phase\<close>

text \<open>Only channels that asked for it are updated.\<close>

definition bool_phase :: "u64 \<Rightarrow> bool signal \<Rightarrow> edge list \<times> bool signal" where
  "bool_phase st s = (if sig_requested s then bool_update SC_ONE_WRITER st s else ([], s))"

definition value_phase :: "('v \<Rightarrow> 'v \<Rightarrow> bool) \<Rightarrow> u64 \<Rightarrow> 'v signal \<Rightarrow> bool \<times> 'v signal" where
  "value_phase eq st s = (if sig_requested s then signal_update eq SC_ONE_WRITER st s else (False, s))"

definition link_update :: "u64 \<Rightarrow> link \<Rightarrow> link" where
  "link_update st l =
     l\<lparr>l_act := snd (bool_phase st (l_act l)), l_ack := snd (bool_phase st (l_ack l)),
       l_inp := snd (value_phase packet_eq st (l_inp l))\<rparr>"

text \<open>
  The event each thread waits for, as a function of the events of this update phase: \<open>es\<close>
  the edges of the clock, \<open>rd k\<close> whether fifo \<open>k\<close> of this input was read.
\<close>

definition gen_wakes :: "edge list \<Rightarrow> edge list \<Rightarrow> gen_pc \<Rightarrow> bool" where
  "gen_wakes es acks pc =
     (case pc of
        G_start \<Rightarrow> Posedge \<in> set es
      | G_wait \<Rightarrow> Posedge \<in> set es
      | E_wait_neg \<Rightarrow> Negedge \<in> set es
      | E_wait_ack \<Rightarrow> Posedge \<in> set acks
      | E_wait_pos \<Rightarrow> Posedge \<in> set es
      | E_wait_ack_neg \<Rightarrow> Negedge \<in> set acks)"

definition router_wakes :: "edge list \<Rightarrow> edge list \<Rightarrow> (nat \<Rightarrow> bool) \<Rightarrow> router_pc \<Rightarrow> bool" where
  "router_wakes es acts rd pc =
     (case pc of
        R_start \<Rightarrow> False
      | R_wait_act \<Rightarrow> Posedge \<in> set acts
      | R_wait_clk \<Rightarrow> Posedge \<in> set es
      | R_wait_room p \<Rightarrow> Posedge \<in> set es
      | R_blocked p \<Rightarrow> rd (unat (address p))
      | R_wait_act_neg \<Rightarrow> Negedge \<in> set acts
      | R_wait_clk_neg \<Rightarrow> Negedge \<in> set es)"

definition act_edges :: "u64 \<Rightarrow> link \<Rightarrow> edge list" where
  "act_edges st l = fst (bool_phase st (l_act l))"

definition ack_edges :: "u64 \<Rightarrow> link \<Rightarrow> edge list" where
  "ack_edges st l = fst (bool_phase st (l_ack l))"

section \<open>The handshake invariant\<close>

text \<open>
  A link state is seen through the two program counters, which of the two threads is
  runnable (\<open>G\<close>, \<open>R\<close>), and the current and new values of \<open>activated\<close> and \<open>acknoledge\<close>.
\<close>

fun phase_ok :: "gen_pc \<Rightarrow> router_pc \<Rightarrow> bool \<Rightarrow> bool \<Rightarrow> bool \<times> bool \<Rightarrow> bool \<times> bool \<Rightarrow> bool" where
  "phase_ok G_start R_start G R act ack =
     (\<not> G \<and> R \<and> act = (False, False) \<and> ack = (False, False))"
| "phase_ok G_start R_wait_act G R act ack =
     (\<not> R \<and> act = (False, False) \<and> ack = (False, False))"
| "phase_ok G_wait R_wait_act G R act ack =
     (\<not> R \<and> act = (False, False) \<and> ack = (False, False))"
| "phase_ok E_wait_neg R_wait_act G R act ack =
     (\<not> R \<and> act = (False, False) \<and> ack = (False, False))"
| "phase_ok E_wait_ack R_wait_act G R act ack =
     (\<not> G \<and> act = (R, True) \<and> ack = (False, False))"
| "phase_ok E_wait_ack R_wait_clk G R act ack =
     (\<not> G \<and> act = (True, True) \<and> ack = (False, False))"
| "phase_ok E_wait_ack (R_wait_room p) G R act ack =
     (\<not> G \<and> act = (True, True) \<and> ack = (False, False))"
| "phase_ok E_wait_ack R_wait_act_neg G R act ack =
     (\<not> R \<and> act = (True, True) \<and> ack = (G, True))"
| "phase_ok E_wait_pos R_wait_act_neg G R act ack =
     (\<not> R \<and> act = (True, True) \<and> ack = (True, True))"
| "phase_ok E_wait_ack_neg R_wait_act_neg G R act ack =
     (\<not> G \<and> act = (\<not> R, False) \<and> ack = (True, True))"
| "phase_ok E_wait_ack_neg R_wait_clk_neg G R act ack =
     (\<not> G \<and> act = (False, False) \<and> ack = (True, True))"
| "phase_ok E_wait_ack_neg R_wait_act G R act ack =
     (\<not> R \<and> act = (False, False) \<and> ack = (\<not> G, False))"
| "phase_ok _ _ G R act ack = False"

abbreviation cur_new :: "'v signal \<Rightarrow> 'v \<times> 'v" where
  "cur_new s \<equiv> (m_cur_val s, m_new_val s)"

definition link_ok :: "bool \<Rightarrow> bool \<Rightarrow> link \<Rightarrow> bool" where
  "link_ok G R l \<longleftrightarrow> phase_ok (l_gpc l) (l_rpc l) G R (cur_new (l_act l)) (cur_new (l_ack l)) \<and>
     signal_wf (=) (l_act l) \<and> signal_wf (=) (l_ack l) \<and> signal_wf packet_eq (l_inp l)"

text \<open>Between the emission of a packet and its push it is in flight: it sits on \<open>inputs[i]\<close>.\<close>

fun in_flight :: "gen_pc \<Rightarrow> router_pc \<Rightarrow> bool" where
  "in_flight E_wait_neg rpc = True"
| "in_flight E_wait_ack rpc = (rpc \<noteq> R_wait_act_neg)"
| "in_flight _ rpc = False"

text \<open>
  \<open>em\<close> and \<open>pu\<close> are the packets emitted by the generator and pushed by the router so far.
  Packets are related by the C++ \<open>operator==\<close>, address and data: see the header of the
  development for what may happen to \<open>extra\<close>.
\<close>

definition carried :: "link \<Rightarrow> packet \<Rightarrow> bool" where
  "carried l p \<longleftrightarrow> packet_eq p (m_new_val (l_inp l)) \<and>
     (m_cur_val (l_act l) \<longrightarrow> packet_eq p (m_cur_val (l_inp l))) \<and>
     (\<forall>q. l_rpc l = R_wait_room q \<longrightarrow> packet_eq p q)"

text \<open>Right after the push, before the acknowledgement is visible.\<close>

definition acked :: "link \<Rightarrow> bool" where
  "acked l \<longleftrightarrow> l_gpc l = E_wait_ack \<and> l_rpc l = R_wait_act_neg \<and> \<not> m_cur_val (l_ack l)"

definition link_data :: "packet list \<Rightarrow> packet list \<Rightarrow> link \<Rightarrow> bool" where
  "link_data em pu l \<longleftrightarrow>
     (if in_flight (l_gpc l) (l_rpc l)
      then \<exists>es p. em = es @ [p] \<and> list_all2 packet_eq es pu \<and> carried l p
      else list_all2 packet_eq em pu)"

section \<open>Signals\<close>

lemma drive_None [simp]: "drive eq None s = s"
  by (simp add: drive_def)

lemma drive_new [simp]: "m_new_val (drive eq (Some v) s) = v"
  by (simp add: drive_def put_value_def Let_def)

lemma drive_cur [simp]: "m_cur_val (drive eq v s) = m_cur_val s"
  by (simp add: drive_def put_value_def Let_def split: option.split)

lemma drive_wf:
  assumes "signal_wf eq s" "\<And>x y. eq x y \<Longrightarrow> eq y x"
  shows "signal_wf eq (drive eq v s)"
  using assms signal_wf_put [of eq] by (cases v) (auto simp: drive_def)

lemma drive_bool_wf [simp]: "signal_wf (=) s \<Longrightarrow> signal_wf (=) (drive (=) v s)"
  by (rule drive_wf) auto

lemma drive_packet_wf [simp]: "signal_wf packet_eq s \<Longrightarrow> signal_wf packet_eq (drive packet_eq v s)"
  by (rule drive_wf) (auto intro: packet_eq_sym)

lemma bool_phase_eq:
  assumes "signal_wf (=) s" "bool_phase st s = (es, s')"
  shows "m_cur_val s' = m_new_val s \<and> m_new_val s' = m_new_val s \<and> signal_wf (=) s' \<and>
    (Posedge \<in> set es \<longleftrightarrow> \<not> m_cur_val s \<and> m_new_val s) \<and>
    (Negedge \<in> set es \<longleftrightarrow> m_cur_val s \<and> \<not> m_new_val s)"
  using assms
  by (auto simp: bool_phase_def signal_wf_def bool_update_def policy_update_def Let_def split: if_splits)

lemma bool_phase_cur [simp]:
  "signal_wf (=) s \<Longrightarrow> m_cur_val (snd (bool_phase st s)) = m_new_val s"
  "signal_wf (=) s \<Longrightarrow> m_new_val (snd (bool_phase st s)) = m_new_val s"
  "signal_wf (=) s \<Longrightarrow> signal_wf (=) (snd (bool_phase st s))"
  "signal_wf (=) s \<Longrightarrow> Posedge \<in> set (fst (bool_phase st s)) \<longleftrightarrow> \<not> m_cur_val s \<and> m_new_val s"
  "signal_wf (=) s \<Longrightarrow> Negedge \<in> set (fst (bool_phase st s)) \<longleftrightarrow> m_cur_val s \<and> \<not> m_new_val s"
  using bool_phase_eq [of s st "fst (bool_phase st s)" "snd (bool_phase st s)"] by simp_all

lemma value_phase_packet [simp]:
  assumes "signal_wf packet_eq s"
  shows "m_new_val (snd (value_phase packet_eq st s)) = m_new_val s"
    and "packet_eq (m_new_val s) (m_cur_val (snd (value_phase packet_eq st s)))"
    and "signal_wf packet_eq (snd (value_phase packet_eq st s))"
  using assms
  by (auto simp: value_phase_def signal_wf_def signal_update_def policy_update_def Let_def)

lemma value_phase_carried:
  "signal_wf packet_eq s \<Longrightarrow> packet_eq p (m_new_val s) \<Longrightarrow> packet_eq p (m_cur_val (snd (value_phase packet_eq st s)))"
  using packet_eq_trans value_phase_packet(2) by blast

lemma packet_eq_address: "packet_eq p q \<Longrightarrow> address q = address p"
  by (simp add: packet_eq_def)

lemma list_all2_snoc: "list_all2 P (xs @ [x]) (ys @ [y]) \<longleftrightarrow> list_all2 P xs ys \<and> P x y"
proof
  assume "list_all2 P (xs @ [x]) (ys @ [y])"
  moreover from this have "length xs = length ys" using list_all2_lengthD by fastforce
  ultimately show "list_all2 P xs ys \<and> P x y" by (simp add: list_all2_append)
qed (auto intro: list_all2_appendI)

section \<open>The invariant is preserved\<close>

lemma acked_suspended: "link_ok G R l \<Longrightarrow> acked l \<Longrightarrow> \<not> G \<and> \<not> R"
  by (auto simp: link_ok_def acked_def)

lemma acked_not_in_flight: "acked l \<Longrightarrow> \<not> in_flight (l_gpc l) (l_rpc l)"
  by (auto simp: acked_def)

lemma link_ok_make: "link_ok False True (make_link g)"
  by (simp add: link_ok_def make_link_def signal_wf_make) (simp add: make_signal_def)

lemma link_data_make: "link_data [] [] (make_link g)"
  by (simp add: link_data_def make_link_def)

text \<open>The generator's steps, one case per program counter.\<close>

lemma stream_resume_cases:
  assumes "stream_resume e pc (g, w) = Inr (pc', g', w', out)"
  shows "(pc = G_start \<and> pc' = G_wait \<and> out = no_out) \<or>
    (pc = G_wait \<and> pc' = G_wait \<and> out = no_out) \<or>
    (pc = G_wait \<and> pc' = E_wait_neg \<and> out_packet out \<noteq> None \<and> out_activated out = None) \<or>
    (pc \<noteq> G_start \<and> pc \<noteq> G_wait \<and> emit_continue pc = (pc', out))"
  using assms
  by (cases pc) (auto simp: stream_resume_def split: if_splits prod.splits dest: emit_begin_eq)

lemma link_gen_step_ok:
  assumes "link_gen_step e l w = Inr (po, l', w')" "link_ok True R l" "link_data em pu l"
  shows "link_ok False R l' \<and> link_data (em @ (case po of None \<Rightarrow> [] | Some p \<Rightarrow> [p])) pu l' \<and>
    l_rpc l' = l_rpc l \<and> l_ack l' = l_ack l \<and> m_cur_val (l_act l') = m_cur_val (l_act l)"
proof -
  obtain pc' g' out where
    st: "stream_resume e (l_gpc l) (l_gen l, w) = Inr (pc', g', w', out)"
    and l': "po = out_packet out" "l' = l\<lparr>l_gpc := pc', l_gen := g',
      l_inp := drive packet_eq (out_packet out) (l_inp l), l_act := drive (=) (out_activated out) (l_act l)\<rparr>"
    using assms(1) by (auto simp: link_gen_step_def bind_result_eq_Inr)
  from stream_resume_cases [OF st] assms(2,3) l' show ?thesis
    by (cases "l_gpc l"; cases "l_rpc l")
      (auto simp: link_ok_def link_data_def carried_def emit_continue_def no_out_def)
qed

lemma link_counter_step_ok [simp]:
  "link_ok G R (link_counter_step l) = link_ok G R l"
  "link_data em pu (link_counter_step l) = link_data em pu l"
  "l_gpc (link_counter_step l) = l_gpc l" "l_rpc (link_counter_step l) = l_rpc l"
  "l_act (link_counter_step l) = l_act l" "l_ack (link_counter_step l) = l_ack l"
  by (simp_all add: link_counter_step_def link_ok_def link_data_def carried_def)

text \<open>The router's steps: a push happens in the two states with a packet in hand.\<close>

lemma push_when_room_cases:
  assumes "marked_ok e" "push_when_room e fs p w = Inr (pc', w', out)"
  shows "(pc' = R_wait_room p \<and> out = no_router_out) \<or>
    (pc' = R_wait_act_neg \<and> out_ack out = Some True \<and> unat (address p) < length fs \<and>
      (\<exists>q f. out_push out = Some (unat (address p), q, f) \<and> packet_eq p q \<and>
        fifo_write q (fs ! unat (address p)) = Some f))"
proof (cases "unat (address p) < length fs \<and> num_free (fs ! unat (address p)) \<noteq> 0")
  case True
  with push_when_room_pushes [OF assms(1), of p fs w] assms(2) show ?thesis by auto
next
  case False
  with assms(2) show ?thesis by (auto simp: push_when_room_def vec_at_def split: if_splits)
qed

lemma link_router_step_ok:
  assumes "marked_ok e" "link_router_step e fs l w = Inr (po, l', w')"
    and "link_ok G True l" "link_data em pu l"
  shows "link_ok G False l' \<and> link_data em (pu @ (case po of None \<Rightarrow> [] | Some (j, p, f) \<Rightarrow> [p])) l'"
    and "po = Some (j, q, f) \<Longrightarrow> j = unat (address q) \<and> j < length fs \<and> fifo_write q (fs ! j) = Some f \<and>
      in_flight (l_gpc l) (l_rpc l) \<and> acked l'"
    and "l_gpc l' = l_gpc l" "l_act l' = l_act l" "l_gen l' = l_gen l"
proof -
  obtain pc' out where
    st: "router_resume e fs (m_cur_val (l_inp l)) (l_rpc l) w = Inr (pc', w', out)"
    and l': "po = out_push out" "l' = l\<lparr>l_rpc := pc', l_ack := drive (=) (out_ack out) (l_ack l)\<rparr>"
    using assms(2) by (auto simp: link_router_step_def bind_result_eq_Inr)
  show "l_gpc l' = l_gpc l" "l_act l' = l_act l" "l_gen l' = l_gen l" using l' by simp_all
  have *: "link_ok G False l' \<and> link_data em (pu @ (case po of None \<Rightarrow> [] | Some (j, p, f) \<Rightarrow> [p])) l' \<and>
    (\<forall>j q f. po = Some (j, q, f) \<longrightarrow> j = unat (address q) \<and> j < length fs \<and> fifo_write q (fs ! j) = Some f \<and>
      in_flight (l_gpc l) (l_rpc l) \<and> acked l')"
  proof (cases "l_rpc l")
    case R_wait_clk
    then have "push_when_room e fs (m_cur_val (l_inp l)) w = Inr (pc', w', out)"
      using st by (simp add: router_resume_def read_packet_def)
    from push_when_room_cases [OF assms(1) this] R_wait_clk assms(3,4) l' show ?thesis
      by (cases "l_gpc l") (auto simp: link_ok_def link_data_def carried_def no_router_out_def acked_def
          list_all2_snoc packet_eq_address intro: packet_eq_trans)
  next
    case (R_wait_room p)
    then have "push_when_room e fs p w = Inr (pc', w', out)"
      using st by (simp add: router_resume_def)
    from push_when_room_cases [OF assms(1) this] R_wait_room assms(3,4) l' show ?thesis
      by (cases "l_gpc l") (auto simp: link_ok_def link_data_def carried_def no_router_out_def acked_def
          list_all2_snoc packet_eq_address intro: packet_eq_trans)
  qed (use st assms(3,4) l' in \<open>cases "l_gpc l"; auto simp: link_ok_def link_data_def carried_def
    router_resume_def no_router_out_def acked_def\<close>)+
  then show "link_ok G False l' \<and> link_data em (pu @ (case po of None \<Rightarrow> [] | Some (j, p, f) \<Rightarrow> [p])) l'"
    by blast
  show "j = unat (address q) \<and> j < length fs \<and> fifo_write q (fs ! j) = Some f \<and>
      in_flight (l_gpc l) (l_rpc l) \<and> acked l'" if "po = Some (j, q, f)"
    using * that by blast
qed

text \<open>The update phase, when no thread is runnable.\<close>

lemma link_update_ok:
  assumes "link_ok False False l" "link_data em pu l"
  shows "link_ok (gen_wakes es (ack_edges st l) (l_gpc l)) (router_wakes es (act_edges st l) rd (l_rpc l))
      (link_update st l) \<and> link_data em pu (link_update st l) \<and>
    l_gpc (link_update st l) = l_gpc l \<and> l_rpc (link_update st l) = l_rpc l \<and> l_gen (link_update st l) = l_gen l"
  using assms
  by (cases "l_gpc l"; cases "l_rpc l")
    (auto simp: link_ok_def link_update_def gen_wakes_def router_wakes_def ack_edges_def act_edges_def
      link_data_def carried_def value_phase_carried)

section \<open>No step faults\<close>

text \<open>A generator whose addresses are below \<open>n\<close>.\<close>

definition gen_dest :: "nat \<Rightarrow> stream_generator \<Rightarrow> bool" where
  "gen_dest n g \<longleftrightarrow> (\<exists>mn mx. gen_ok mn mx g \<and> unat mx \<le> n)"

lemma link_gen_step_total:
  assumes "rand_ok e" "created_ok e" "gen_dest n (l_gen l)"
  shows "\<exists>po l' w'. link_gen_step e l w = Inr (po, l', w') \<and> gen_dest n (l_gen l') \<and>
    (\<forall>p. po = Some p \<longrightarrow> unat (address p) < n)"
proof -
  obtain mn mx where g: "gen_ok mn mx (l_gen l)" "unat mx \<le> n"
    using assms(3) by (auto simp: gen_dest_def)
  obtain pc' g' w' out where "stream_resume e (l_gpc l) (l_gen l, w) = Inr (pc', g', w', out)"
    "gen_ok mn mx g'" "\<forall>p. out_packet out = Some p \<longrightarrow> in_range mn mx p"
    using stream_resume_ok [OF assms(1,2) g(1), of "l_gpc l" w] unfolding resume_ok_def by blast
  with g(2) show ?thesis
    by (auto simp: link_gen_step_def gen_dest_def in_range_def word_less_nat_alt)
qed

lemma link_counter_step_gen [simp]: "gen_dest n (l_gen (link_counter_step l)) = gen_dest n (l_gen l)"
  by (simp add: link_counter_step_def gen_dest_def)

lemma push_when_room_total:
  assumes "marked_ok e" "unat (address p) < length fs"
  shows "\<exists>r. push_when_room e fs p w = Inr r"
  using push_when_room_waits [OF assms(2), of e w] push_when_room_pushes [OF assms, of w]
  by (cases "num_free (fs ! unat (address p)) = 0") auto

lemma link_router_step_total:
  assumes "marked_ok e" "link_ok G True l" "link_data em pu l" "\<forall>p\<in>set em. unat (address p) < length fs"
  shows "\<exists>po l' w'. link_router_step e fs l w = Inr (po, l', w')"
proof -
  have "\<exists>r. router_resume e fs (m_cur_val (l_inp l)) (l_rpc l) w = Inr r"
  proof (cases "l_rpc l")
    case R_wait_clk
    then have "\<exists>p. carried l p \<and> unat (address p) < length fs" "m_cur_val (l_act l)"
      using assms(2-4) by (cases "l_gpc l"; auto simp: link_ok_def link_data_def)+
    then have "unat (address (m_cur_val (l_inp l))) < length fs"
      using packet_eq_address by (auto simp: carried_def)
    with R_wait_clk push_when_room_total [OF assms(1)] show ?thesis
      by (simp add: router_resume_def read_packet_def)
  next
    case (R_wait_room q)
    then have "\<exists>p. carried l p \<and> unat (address p) < length fs"
      using assms(2-4) by (cases "l_gpc l") (auto simp: link_ok_def link_data_def)
    then have "unat (address q) < length fs"
      using packet_eq_address R_wait_room by (auto simp: carried_def)
    with R_wait_room push_when_room_total [OF assms(1)] show ?thesis
      by (simp add: router_resume_def)
  next
    case (R_blocked q)
    then show ?thesis using assms(2) by (cases "l_gpc l") (auto simp: link_ok_def)
  qed (simp_all add: router_resume_def)
  then show ?thesis by (auto simp: link_router_step_def)
qed

end
