(* ===== verification/Noc.thy ===== *)
theory Noc
  imports Arbiter_Policies Sc_Fifo
begin

text \<open>
  \<open>src/noc.cpp\<close> and \<open>include/noc/noc.h\<close>: the construction of the network. A router per input
  with one fifo port per output, an arbiter per output, a fifo per pair, and the bindings
  between them. An arbiter is constructed with \<open>_nb_output\<close> input fifos, not \<open>_nb_input\<close>: the
  facts show that the construction ends without an error exactly for square networks.
\<close>

section \<open>State\<close>

text \<open>
  The fifos are one array; a port is a pair of a module's index and a port's index in its
  module, and what it is bound to is an index into the array.
\<close>

record noc =
  nb_input :: nat
  nb_output :: nat
  noc_arbiters :: "arbiter list"
  noc_fifos :: "packet sc_fifo list"
  fifo_names :: "(nat \<times> nat) list"
  router_ports :: "(nat \<times> nat) \<rightharpoonup> nat"
  arbiter_ports :: "(nat \<times> nat) \<rightharpoonup> nat"

section \<open>Operations\<close>

text \<open>\<open>get_fifo\<close>: the index is computed in 32-bit unsigned arithmetic.\<close>

definition get_fifo :: "nat \<Rightarrow> nat \<Rightarrow> nat \<Rightarrow> nat" where
  "get_fifo ni i j = unat (word_of_nat ni * word_of_nat j + word_of_nat i :: u32)"

text \<open>
  The loop that builds the fifos runs \<open>end = _nb_input * _nb_output\<close> times and names each
  \<open>fifo_<j>_<k>\<close>. The condition \<open>j = _nb_input\<close> is an assignment: it is true unless there is no
  input, and then \<open>j\<close> is reset and \<open>k\<close> incremented in every iteration.
\<close>

fun name_loop :: "nat \<Rightarrow> nat \<Rightarrow> nat \<Rightarrow> nat \<Rightarrow> (nat \<times> nat) list" where
  "name_loop 0 ni j k = []"
| "name_loop (Suc n) ni j k =
     (j, k) # (let j' = ni in if j' \<noteq> 0 then name_loop n ni (0 + 1) (k + 1) else name_loop n ni (j' + 1) k)"

definition fifo_count :: "nat \<Rightarrow> nat \<Rightarrow> nat" where
  "fifo_count ni no = unat (word_of_nat ni * word_of_nat no :: u32)"

text \<open>The default constructor of a slot is the empty packet.\<close>

definition build_fifos :: "nat \<Rightarrow> nat \<Rightarrow> int \<Rightarrow> packet sc_fifo list result" where
  "build_fifos ni no depth =
     for_each (\<lambda>_ fs. bind_result (fifo_init empty_packet depth) (\<lambda>f. Inr (fs @ [f])))
       [0..<fifo_count ni no] []"

text \<open>The depth is \<open>unsigned\<close> in the network and \<open>int\<close> in the constructor of \<open>sc_fifo\<close>.\<close>

definition fifo_size :: "nat \<Rightarrow> int" where
  "fifo_size depth = sint (word_of_nat depth :: i32)"

definition build_arbiters :: "nat \<Rightarrow> nat \<Rightarrow> arbiter list result" where
  "build_arbiters no depth =
     for_each (\<lambda>_ as. bind_result (make_arbiter (word_of_nat no) (word_of_nat depth)) (\<lambda>a. Inr (as @ [a])))
       [0..<no] []"

text \<open>
  One iteration of the connecting loops. The port of a router is in range by construction; the
  fifo port \<open>i\<close> of an arbiter exists for \<open>i < _nb_fifos\<close>. Binding registers the port with the
  fifo, which takes one reader and one writer.
\<close>

definition connect :: "nat \<times> nat \<Rightarrow> noc \<Rightarrow> noc result" where
  "connect ij n =
     (let (i, j) = ij; x = get_fifo (nb_input n) i j
      in bind_result (vec_at (noc_fifos n) x) (\<lambda>f.
         bind_result (fifo_register_port f (nb_output n * i + j) Fifo_out_if) (\<lambda>f1.
         bind_result (vec_at (noc_arbiters n) j) (\<lambda>a.
         if i < unat (nb_fifos a)
         then bind_result (fifo_register_port f1 (nb_output n * j + i) Fifo_in_if) (\<lambda>f2.
           Inr (n\<lparr>router_ports := (router_ports n)((i, j) \<mapsto> x),
                  arbiter_ports := (arbiter_ports n)((j, i) \<mapsto> x),
                  noc_fifos := (noc_fifos n)[x := f2]\<rparr>))
         else Inl Out_of_range))))"

definition all_pairs :: "nat \<Rightarrow> nat \<Rightarrow> (nat \<times> nat) list" where
  "all_pairs ni no = concat (map (\<lambda>i. map (\<lambda>j. (i, j)) [0..<no]) [0..<ni])"

definition make_noc :: "nat \<Rightarrow> nat \<Rightarrow> nat \<Rightarrow> noc result" where
  "make_noc ni no depth =
     bind_result (build_arbiters no depth) (\<lambda>as.
     bind_result (build_fifos ni no (fifo_size depth)) (\<lambda>fs.
       for_each connect (all_pairs ni no)
         \<lparr>nb_input = ni, nb_output = no, noc_arbiters = as, noc_fifos = fs,
          fifo_names = name_loop (fifo_count ni no) ni 0 0,
          router_ports = Map.empty, arbiter_ports = Map.empty\<rparr>))"

text \<open>
  The end of elaboration: SystemC reports an error for a port that is bound to nothing. Router
  \<open>i\<close> has \<open>_nb_output\<close> ports, arbiter \<open>j\<close> has \<open>_nb_fifos\<close>.
\<close>

definition elaborate :: "noc \<Rightarrow> noc result" where
  "elaborate n =
     (if list_all (\<lambda>p. router_ports n p \<noteq> None) (all_pairs (nb_input n) (nb_output n)) \<and>
         list_all (\<lambda>j. list_all (\<lambda>i. arbiter_ports n (j, i) \<noteq> None)
             [0..<unat (nb_fifos (noc_arbiters n ! j))]) [0..<nb_output n]
      then Inr n else Inl Sc_report_error)"

section \<open>Names and indices\<close>

lemma name_loop_eq: "0 < ni \<Longrightarrow> name_loop n ni j k = (if n = 0 then [] else (j, k) # map (\<lambda>m. (1, k + m)) [1..<n])"
proof (induction n arbitrary: j k)
  case 0
  then show ?case by simp
next
  case (Suc n)
  then show ?case
    by (cases n) (auto simp: upt_conv_Cons map_Suc_upt [symmetric] simp del: upt_Suc)
qed

lemma all_pairs_set [simp]: "p \<in> set (all_pairs ni no) \<longleftrightarrow> fst p < ni \<and> snd p < no"
  by (cases p) (auto simp: all_pairs_def image_iff)

lemma all_pairs_distinct: "distinct (all_pairs ni no)"
  by (induction ni) (auto simp: all_pairs_def distinct_map inj_on_def)

lemma all_pairs_append: "all_pairs (m + k) no = all_pairs m no @ concat (map (\<lambda>i. map (\<lambda>j. (i, j)) [0..<no]) [m..<m + k])"
  unfolding all_pairs_def by (subst upt_add_eq_append) simp_all

lemma get_fifo_eq: "ni * j + i < 2 ^ 32 \<Longrightarrow> get_fifo ni i j = ni * j + i"
proof -
  assume "ni * j + i < 2 ^ 32"
  moreover have "(word_of_nat ni * word_of_nat j + word_of_nat i :: u32) = word_of_nat (ni * j + i)" by simp
  ultimately show ?thesis unfolding get_fifo_def by (simp only: unat_word_of_nat_u32)
qed

lemma fifo_count_eq: "ni * no < 2 ^ 32 \<Longrightarrow> fifo_count ni no = ni * no"
proof -
  assume "ni * no < 2 ^ 32"
  moreover have "(word_of_nat ni * word_of_nat no :: u32) = word_of_nat (ni * no)" by simp
  ultimately show ?thesis unfolding fifo_count_def by (simp only: unat_word_of_nat_u32)
qed

lemma get_fifo_bound:
  assumes "i < ni" "j < no" "ni * no < 2 ^ 32"
  shows "get_fifo ni i j = ni * j + i" "get_fifo ni i j < fifo_count ni no"
proof -
  have "ni * j + i < ni * Suc j" using assms(1) by simp
  also have "\<dots> \<le> ni * no" using assms(2) by (intro mult_le_mono2) simp
  finally have "ni * j + i < ni * no" .
  then show "get_fifo ni i j = ni * j + i" "get_fifo ni i j < fifo_count ni no"
    using assms(3) by (simp_all add: get_fifo_eq fifo_count_eq)
qed

lemma get_fifo_inj:
  assumes "i < ni" "j < no" "i' < ni" "j' < no" "ni * no < 2 ^ 32" "get_fifo ni i j = get_fifo ni i' j'"
  shows "i = i' \<and> j = j'"
proof -
  have eq: "ni * j + i = ni * j' + i'"
    using assms get_fifo_bound(1) by metis
  then have "(ni * j + i) mod ni = (ni * j' + i') mod ni" by simp
  then have "i = i'" using assms(1,3) by simp
  with eq assms(1) show ?thesis by simp
qed

section \<open>Construction\<close>

lemma for_each_replicate:
  "for_each (\<lambda>_ s. bind_result m (\<lambda>x. Inr (s @ [x]))) [0..<n] s =
    (if n = 0 then Inr s else bind_result m (\<lambda>x. Inr (s @ replicate n x)))"
proof (induction n)
  case 0
  then show ?case by simp
next
  case (Suc n)
  then show ?case
    by (cases "n = 0"; cases m) (auto simp: for_each_append replicate_append_same)
qed

lemma for_each_replicate_Inr: "for_each (\<lambda>_ s. Inr (s @ [x])) [0..<n] s = Inr (s @ replicate n x)"
  using for_each_replicate [of "Inr x" n s] by simp

definition fresh_fifo :: "nat \<Rightarrow> packet sc_fifo" where
  "fresh_fifo depth = \<lparr>m_size = depth, m_buf = replicate depth empty_packet, m_free = depth,
     m_ri = 0, m_wi = 0, m_reader = None, m_writer = None, m_num_readable = 0, m_num_read = 0,
     m_num_written = 0, update_requested = False\<rparr>"

lemma fifo_init_fresh: "0 < depth \<Longrightarrow> fifo_init empty_packet (int depth) = Inr (fresh_fifo depth)"
  by (simp add: fifo_init_def buf_init_def fresh_fifo_def)

lemma build_fifos_eq:
  "0 < depth \<Longrightarrow> build_fifos ni no (int depth) = Inr (replicate (fifo_count ni no) (fresh_fifo depth))"
  unfolding build_fifos_def by (simp add: for_each_replicate_Inr fifo_init_fresh)

definition depth_ok :: "nat \<Rightarrow> bool" where
  "depth_ok depth \<longleftrightarrow> 0 < depth \<and> depth < 2 ^ 31"

lemma fifo_size_eq: "depth_ok depth \<Longrightarrow> fifo_size depth = int depth"
  by (simp add: fifo_size_def depth_ok_def signed_of_nat signed_take_bit_int_eq_self)

lemma build_arbiters_eq:
  "make_arbiter (word_of_nat no) (word_of_nat depth) = Inr a \<Longrightarrow> build_arbiters no depth = Inr (replicate no a)"
  unfolding build_arbiters_def by (simp add: for_each_replicate_Inr)

text \<open>What the connecting loops have done after the pairs \<open>ps\<close>.\<close>

definition connected :: "nat \<Rightarrow> (nat \<times> nat) list \<Rightarrow> noc \<Rightarrow> noc \<Rightarrow> bool" where
  "connected depth ps n0 n \<longleftrightarrow> nb_input n = nb_input n0 \<and> nb_output n = nb_output n0 \<and>
     noc_arbiters n = noc_arbiters n0 \<and> fifo_names n = fifo_names n0 \<and>
     length (noc_fifos n) = length (noc_fifos n0) \<and>
     (\<forall>p. router_ports n p = (if p \<in> set ps then Some (get_fifo (nb_input n0) (fst p) (snd p)) else None)) \<and>
     (\<forall>p. arbiter_ports n p = (if (snd p, fst p) \<in> set ps then Some (get_fifo (nb_input n0) (snd p) (fst p)) else None)) \<and>
     (\<forall>x<length (noc_fifos n0). noc_fifos n ! x =
        (case find (\<lambda>p. get_fifo (nb_input n0) (fst p) (snd p) = x) ps of
           None \<Rightarrow> fresh_fifo depth
         | Some (i, j) \<Rightarrow> (fresh_fifo depth)\<lparr>m_writer := Some (nb_output n0 * i + j),
                                              m_reader := Some (nb_output n0 * j + i)\<rparr>))"

lemma connect_loop:
  assumes n0: "router_ports n0 = Map.empty" "arbiter_ports n0 = Map.empty"
    "noc_fifos n0 = replicate (fifo_count ni no) (fresh_fifo depth)" "nb_input n0 = ni"
    and ps: "distinct ps" "\<forall>p\<in>set ps. fst p < ni \<and> snd p < no \<and> snd p < length (noc_arbiters n0) \<and>
      fst p < unat (nb_fifos (noc_arbiters n0 ! snd p))"
    and bound: "ni * no < 2 ^ 32"
  shows "\<exists>n. for_each connect ps n0 = Inr n \<and> connected depth ps n0 n"
  using ps
proof (induction ps rule: rev_induct)
  case Nil
  with n0 show ?case by (simp add: connected_def)
next
  case (snoc p ps)
  obtain i j where p: "p = (i, j)" by fastforce
  from snoc obtain n where n: "for_each connect ps n0 = Inr n" "connected depth ps n0 n" by auto
  let ?x = "get_fifo ni i j"
  have ij: "i < ni" "j < no" "j < length (noc_arbiters n0)" "i < unat (nb_fifos (noc_arbiters n0 ! j))"
    using snoc.prems(2) p by auto
  have x: "?x < fifo_count ni no" by (rule get_fifo_bound(2) [OF ij(1,2) bound])
  have fresh: "find (\<lambda>p. get_fifo ni (fst p) (snd p) = ?x) ps = None"
    unfolding find_None_iff
  proof clarify
    fix i' j' assume q: "(i', j') \<in> set ps" "get_fifo ni (fst (i', j')) (snd (i', j')) = ?x"
    then have "i' < ni" "j' < no" using snoc.prems(2) by auto
    with q ij have "(i', j') = p" using get_fifo_inj [OF _ _ ij(1,2) bound, of i' j'] p by simp
    with q snoc.prems(1) show False by simp
  qed
  then have fx: "noc_fifos n ! ?x = fresh_fifo depth"
    using n(2) x n0(3,4) by (simp add: connected_def)
  have len: "length (noc_fifos n) = fifo_count ni no" "nb_input n = ni" "noc_arbiters n = noc_arbiters n0"
    "nb_output n = nb_output n0" using n(2) n0 by (simp_all add: connected_def)
  let ?f = "(fresh_fifo depth)\<lparr>m_writer := Some (nb_output n0 * i + j), m_reader := Some (nb_output n0 * j + i)\<rparr>"
  let ?n = "n\<lparr>router_ports := (router_ports n)((i, j) \<mapsto> ?x),
    arbiter_ports := (arbiter_ports n)((j, i) \<mapsto> ?x), noc_fifos := (noc_fifos n)[?x := ?f]\<rparr>"
  have "connect p n = Inr ?n"
    using x len ij fx by (simp add: connect_def p fifo_register_port_def Let_def fresh_fifo_def)
  moreover have "connected depth (ps @ [p]) n0 ?n"
  proof -
    have "find (\<lambda>p. get_fifo ni (fst p) (snd p) = y) (ps @ [p]) =
        (if y = ?x then Some p else find (\<lambda>p. get_fifo ni (fst p) (snd p) = y) ps)" for y
      using fresh by (induction ps) (auto simp: p split: if_splits)
    then show ?thesis using n(2) n0 len x p
      by (auto simp: connected_def nth_list_update)
  qed
  ultimately show ?case using n(1) by (simp add: for_each_append)
qed

section \<open>Square and other networks\<close>

definition net0 :: "nat \<Rightarrow> nat \<Rightarrow> nat \<Rightarrow> arbiter \<Rightarrow> noc" where
  "net0 ni no depth a = \<lparr>nb_input = ni, nb_output = no, noc_arbiters = replicate no a,
     noc_fifos = replicate (fifo_count ni no) (fresh_fifo depth),
     fifo_names = name_loop (fifo_count ni no) ni 0 0,
     router_ports = Map.empty, arbiter_ports = Map.empty\<rparr>"

lemma make_noc_eq:
  assumes "depth_ok depth" "make_arbiter (word_of_nat no) (word_of_nat depth) = Inr a"
  shows "make_noc ni no depth = for_each connect (all_pairs ni no) (net0 ni no depth a)"
  using assms by (simp add: make_noc_def fifo_size_eq depth_ok_def build_fifos_eq build_arbiters_eq net0_def)

text \<open>With a port \<open>i\<close> for every input, the loops connect every pair.\<close>

lemma make_noc_connected:
  assumes "depth_ok depth" "make_arbiter (word_of_nat no) (word_of_nat depth) = Inr a"
    and "unat (nb_fifos a) = no" "ni \<le> no" "ni * no < 2 ^ 32"
  shows "\<exists>n. make_noc ni no depth = Inr n \<and> connected depth (all_pairs ni no) (net0 ni no depth a) n"
  unfolding make_noc_eq [OF assms(1,2)]
  by (rule connect_loop [where ni = ni and no = no])
    (use assms in \<open>auto simp: net0_def all_pairs_distinct\<close>)

text \<open>With fewer ports than inputs, the loops bind a port beyond the array of an arbiter.\<close>

lemma make_noc_wide:
  assumes "depth_ok depth" "make_arbiter (word_of_nat no) (word_of_nat depth) = Inr a"
    and "unat (nb_fifos a) = no" "0 < no" "no < ni" "ni * no < 2 ^ 32"
  shows "make_noc ni no depth = Inl Out_of_range"
proof -
  let ?n0 = "net0 ni no depth a"
  obtain n where n: "for_each connect (all_pairs no no) ?n0 = Inr n"
    "connected depth (all_pairs no no) ?n0 n"
    using connect_loop [where ni = ni and no = no and ?n0.0 = ?n0 and ps = "all_pairs no no"] assms
    by (auto simp: net0_def all_pairs_distinct)
  have x: "get_fifo ni no 0 < fifo_count ni no" by (rule get_fifo_bound(2)) (use assms in auto)
  have fresh: "find (\<lambda>p. get_fifo ni (fst p) (snd p) = get_fifo ni no 0) (all_pairs no no) = None"
    unfolding find_None_iff
  proof clarify
    fix i j assume q: "(i, j) \<in> set (all_pairs no no)" "get_fifo ni (fst (i, j)) (snd (i, j)) = get_fifo ni no 0"
    then have "i < ni" "j < no" "i < no" using assms(5) by auto
    with q(2) get_fifo_inj [of i ni j no no 0] assms show False by simp
  qed
  have "connect (no, 0) n = Inl Out_of_range"
    using n(2) x assms fresh
    by (simp add: connect_def connected_def net0_def Let_def fifo_register_port_def fresh_fifo_def)
  moreover obtain k where k: "ni = no + Suc k" using assms(5) by (metis add_Suc_right less_imp_Suc_add)
  have "[no..<no + Suc k] = no # [Suc no..<no + Suc k]" by (simp add: upt_conv_Cons)
  moreover have "[0..<no] = 0 # [1..<no]" using assms(4) by (simp add: upt_conv_Cons)
  ultimately show ?thesis
    using n(1) unfolding make_noc_eq [OF assms(1,2)] k all_pairs_append by (simp add: for_each_append)
qed

text \<open>With more ports than inputs, some ports stay unbound.\<close>

lemma elaborate_connected:
  assumes "connected depth (all_pairs ni no) (net0 ni no depth a) n" "unat (nb_fifos a) = no" "ni \<le> no" "0 < no"
  shows "elaborate n = (if ni = no then Inr n else Inl Sc_report_error)"
proof -
  have n: "nb_input n = ni" "nb_output n = no" "noc_arbiters n = replicate no a"
    and r: "\<And>p. router_ports n p = None \<longleftrightarrow> p \<notin> set (all_pairs ni no)"
    and b: "\<And>p. arbiter_ports n p = None \<longleftrightarrow> (snd p, fst p) \<notin> set (all_pairs ni no)"
    using assms(1) by (simp_all add: connected_def net0_def del: split_paired_All)
  have "arbiter_ports n (0, ni) = None" by (simp add: b)
  then show ?thesis
    using assms(2-4) by (auto simp: elaborate_def n r b list_all_iff)
qed

text \<open>The construction followed by the end of elaboration.\<close>

definition build :: "nat \<Rightarrow> nat \<Rightarrow> nat \<Rightarrow> noc result" where
  "build ni no depth = bind_result (make_noc ni no depth) elaborate"

lemma arbiter_ports_count:
  assumes "no < 2 ^ 32" "make_arbiter (word_of_nat no) (word_of_nat depth) = Inr a"
  shows "unat (nb_fifos a) = no"
  using assms by (auto simp: make_arbiter_eq)

lemma build_square:
  assumes "depth_ok depth" "0 < n" "n < 2 ^ 32" "n * n < 2 ^ 32"
  shows "\<exists>a m. make_arbiter (word_of_nat n) (word_of_nat depth) = Inr a \<and> build n n depth = Inr m \<and>
    connected depth (all_pairs n n) (net0 n n depth a) m"
proof -
  obtain a where a: "make_arbiter (word_of_nat n) (word_of_nat depth) = Inr a"
    using make_arbiter_eq by blast
  have nb: "unat (nb_fifos a) = n" by (rule arbiter_ports_count [OF assms(3) a])
  obtain m where m: "make_noc n n depth = Inr m" "connected depth (all_pairs n n) (net0 n n depth a) m"
    using make_noc_connected [OF assms(1) a nb le_refl assms(4)] by blast
  with a elaborate_connected [OF m(2) nb le_refl assms(2)] show ?thesis by (auto simp: build_def)
qed

lemma build_result:
  assumes "depth_ok depth" "0 < no" "no < 2 ^ 32" "ni * no < 2 ^ 32"
  shows "ni < no \<Longrightarrow> build ni no depth = Inl Sc_report_error"
    and "no < ni \<Longrightarrow> build ni no depth = Inl Out_of_range"
proof -
  obtain a where a: "make_arbiter (word_of_nat no) (word_of_nat depth) = Inr a"
    using make_arbiter_eq by blast
  have nb: "unat (nb_fifos a) = no" by (rule arbiter_ports_count [OF assms(3) a])
  show "build ni no depth = Inl Sc_report_error" if "ni < no"
  proof -
    have le: "ni \<le> no" using that by simp
    obtain m where "make_noc ni no depth = Inr m" "connected depth (all_pairs ni no) (net0 ni no depth a) m"
      using make_noc_connected [OF assms(1) a nb le assms(4)] by blast
    with elaborate_connected [OF this(2) nb le assms(2)] that show ?thesis by (simp add: build_def)
  qed
  show "build ni no depth = Inl Out_of_range" if "no < ni"
    using make_noc_wide [OF assms(1) a nb assms(2) that assms(4)] by (simp add: build_def)
qed

text \<open>Every fifo of a square network has the one writer and the one reader of its pair.\<close>

lemma connected_fifo:
  assumes "connected depth (all_pairs n n) (net0 n n depth a) m" "n * n < 2 ^ 32" "i < n" "j < n"
  shows "noc_fifos m ! get_fifo n i j =
    (fresh_fifo depth)\<lparr>m_writer := Some (n * i + j), m_reader := Some (n * j + i)\<rparr>"
proof -
  have x: "get_fifo n i j < fifo_count n n" by (rule get_fifo_bound(2)) (use assms in auto)
  have "find (\<lambda>p. get_fifo n (fst p) (snd p) = get_fifo n i j) (all_pairs n n) = Some (i, j)"
  proof -
    obtain q where q: "find (\<lambda>p. get_fifo n (fst p) (snd p) = get_fifo n i j) (all_pairs n n) = Some q"
    proof (cases "find (\<lambda>p. get_fifo n (fst p) (snd p) = get_fifo n i j) (all_pairs n n)")
      case None
      then have "(i, j) \<notin> set (all_pairs n n)" unfolding find_None_iff by force
      with assms(3,4) show ?thesis by simp
    qed (use that in blast)
    then have "q \<in> set (all_pairs n n)" "get_fifo n (fst q) (snd q) = get_fifo n i j"
      by (simp_all add: find_Some_iff del: all_pairs_set) (metis nth_mem)+
    moreover from this have "fst q < n" "snd q < n" by simp_all
    ultimately have "q = (i, j)"
      using get_fifo_inj [of "fst q" n "snd q" n i j] assms(2-4) by (simp add: prod_eq_iff)
    with q show ?thesis by simp
  qed
  then show ?thesis using assms(1) x by (simp add: connected_def net0_def)
qed

text \<open>The callback of every router is set.\<close>

definition set_marker_callback :: "'cb \<Rightarrow> 'cb list \<Rightarrow> 'cb list" where
  "set_marker_callback cb routers = map (\<lambda>_. cb) routers"

end
