(* ===== verification/System.thy ===== *)
theory System
  imports Link Arbiter_Process Noc
begin

text \<open>
  The running network of \<open>src/test/noc.cpp\<close>: the network of \<open>src/noc.cpp\<close> with a stream
  generator on every input, under the SystemC scheduler. An evaluation phase runs the runnable
  threads one by one, in any order; when none is left, the update phase updates the channels
  that asked for it, and the threads waiting for the notified events become runnable; when
  nothing was asked for, time advances to the next edge of the clock.
\<close>

section \<open>State\<close>

text \<open>One output: the arbiter with its deciding thread, and its two output signals.\<close>

record outport =
  o_arb :: arbiter
  o_pc :: proc_pc
  o_choice :: "u8 signal"
  o_out :: "packet signal"

text \<open>
  The threads: the method of the clock, per input the generator's two threads and the
  router's one, per output the deciding thread and the recording threads.
  \<open>Pusher_start j k\<close> is the \<open>k\<close>-th recording thread created by arbiter \<open>j\<close> before its first run,
  \<open>Pusher j i\<close> the one that has taken the number \<open>i\<close>.
\<close>

datatype thread =
    Clock_method
  | Gen nat
  | Counter nat
  | Router nat
  | Process nat
  | Pusher_start nat nat
  | Pusher nat nat

text \<open>
  The tables hold one entry per input, per output, and per input and output: \<open>fifos s i j\<close> is the
  fifo \<open>get_fifo(i, j)\<close> between router \<open>i\<close> and arbiter \<open>j\<close>.
\<close>

record 'w system =
  n_in :: nat
  n_out :: nat
  link_tab :: "link list"
  out_tab :: "outport list"
  fifo_tab :: "packet sc_fifo list list"
  clk :: "bool signal"
  runnable :: "thread list"
  change_stamp :: u64
  world :: 'w

definition links :: "'w system \<Rightarrow> nat \<Rightarrow> link" where
  "links s i = link_tab s ! i"

definition outs :: "'w system \<Rightarrow> nat \<Rightarrow> outport" where
  "outs s j = out_tab s ! j"

definition fifos :: "'w system \<Rightarrow> nat \<Rightarrow> nat \<Rightarrow> packet sc_fifo" where
  "fifos s i j = fifo_tab s ! i ! j"

text \<open>What a run shows: packets emitted at an input, pushed into a fifo, delivered at an output.\<close>

datatype label = Silent | Emit nat packet | Push nat nat packet | Deliver nat nat packet

section \<open>Initial state\<close>

definition make_outport :: "arbiter \<Rightarrow> outport" where
  "make_outport a = \<lparr>o_arb = a, o_pc = P_start, o_choice = make_signal no_choice,
     o_out = make_signal empty_packet\<rparr>"

text \<open>
  All threads but \<open>generate\<close>, which is declared with \<open>dont_initialize()\<close>, are runnable at the
  start. The generators have had their address properties and period set.
\<close>

definition start_threads :: "nat \<Rightarrow> nat \<Rightarrow> (nat \<Rightarrow> nat) \<Rightarrow> thread list" where
  "start_threads ni no ports =
     map Counter [0..<ni] @ map Router [0..<ni] @ map Process [0..<no] @
     concat (map (\<lambda>j. map (Pusher_start j) [0..<ports j]) [0..<no])"

definition make_system :: "nat \<Rightarrow> nat \<Rightarrow> nat \<Rightarrow> (nat \<Rightarrow> stream_generator) \<Rightarrow> 'w \<Rightarrow> 'w system result" where
  "make_system ni no depth gens w =
     bind_result (build ni no depth) (\<lambda>n.
       Inr \<lparr>n_in = ni, n_out = no, link_tab = map (\<lambda>i. make_link (gens i)) [0..<ni],
            out_tab = map make_outport (noc_arbiters n),
            fifo_tab = map (\<lambda>i. map (\<lambda>j. noc_fifos n ! the (router_ports n (i, j))) [0..<no]) [0..<ni],
            clk = make_signal False,
            runnable = start_threads ni no (\<lambda>j. unat (nb_fifos (noc_arbiters n ! j))),
            change_stamp = 0, world = w\<rparr>)"

section \<open>The evaluation phase\<close>

definition row :: "'w system \<Rightarrow> nat \<Rightarrow> packet sc_fifo list" where
  "row s i = fifo_tab s ! i"

definition column :: "'w system \<Rightarrow> nat \<Rightarrow> packet sc_fifo list" where
  "column s j = map (\<lambda>r. r ! j) (fifo_tab s)"

definition set_link :: "nat \<Rightarrow> link \<Rightarrow> 'w system \<Rightarrow> 'w system" where
  "set_link i l s = s\<lparr>link_tab := (link_tab s)[i := l]\<rparr>"

definition set_out :: "nat \<Rightarrow> outport \<Rightarrow> 'w system \<Rightarrow> 'w system" where
  "set_out j op s = s\<lparr>out_tab := (out_tab s)[j := op]\<rparr>"

definition set_fifo :: "nat \<Rightarrow> nat \<Rightarrow> packet sc_fifo \<Rightarrow> 'w system \<Rightarrow> 'w system" where
  "set_fifo i j f s = s\<lparr>fifo_tab := (fifo_tab s)[i := (fifo_tab s ! i)[j := f]]\<rparr>"

definition out_process_step ::
  "u8 \<Rightarrow> packet sc_fifo list \<Rightarrow> outport \<Rightarrow> ((nat \<times> packet \<times> packet sc_fifo) option \<times> outport) result"
where
  "out_process_step mode fs op =
     bind_result (process_resume mode fs (o_pc op) (o_arb op)) (\<lambda>(pc', a', out).
       Inr (out_read out,
            op\<lparr>o_pc := pc', o_arb := a', o_choice := drive (=) (out_choice out) (o_choice op),
              o_out := drive packet_eq (map_option (\<lambda>(_, p, _). p) (out_read out)) (o_out op)\<rparr>))"

text \<open>The clock's method writes the opposite of the current value.\<close>

definition run_clock :: "'w system \<Rightarrow> 'w system" where
  "run_clock s = s\<lparr>clk := put_value (=) (\<not> m_cur_val (clk s)) (clk s)\<rparr>"

definition run_gen :: "'w env \<Rightarrow> nat \<Rightarrow> 'w system \<Rightarrow> (label \<times> 'w system) result" where
  "run_gen e i s =
     bind_result (link_gen_step e (links s i) (world s)) (\<lambda>(po, l', w').
       Inr (case po of None \<Rightarrow> Silent | Some p \<Rightarrow> Emit i p, (set_link i l' s)\<lparr>world := w'\<rparr>))"

definition run_router :: "'w env \<Rightarrow> nat \<Rightarrow> 'w system \<Rightarrow> (label \<times> 'w system) result" where
  "run_router e i s =
     bind_result (link_router_step e (row s i) (links s i) (world s)) (\<lambda>(po, l', w').
       let s' = (set_link i l' s)\<lparr>world := w'\<rparr>
       in Inr (case po of None \<Rightarrow> (Silent, s') | Some (j, p, f) \<Rightarrow> (Push i j p, set_fifo i j f s')))"

definition run_process :: "(nat \<Rightarrow> u8) \<Rightarrow> nat \<Rightarrow> 'w system \<Rightarrow> (label \<times> 'w system) result" where
  "run_process modes j s =
     bind_result (out_process_step (modes j) (column s j) (outs s j)) (\<lambda>(ro, op').
       let s' = set_out j op' s
       in Inr (case ro of None \<Rightarrow> (Silent, s') | Some (i, p, f) \<Rightarrow> (Deliver i j p, set_fifo i j f s')))"

definition run_pusher_start :: "nat \<Rightarrow> 'w system \<Rightarrow> 'w system result" where
  "run_pusher_start j s =
     bind_result (pusher_start (o_arb (outs s j))) (\<lambda>(_, a'). Inr (set_out j ((outs s j)\<lparr>o_arb := a'\<rparr>) s))"

definition run_pusher :: "nat \<Rightarrow> nat \<Rightarrow> 'w system \<Rightarrow> 'w system result" where
  "run_pusher j i s =
     bind_result (pusher_resume i (o_arb (outs s j))) (\<lambda>a'. Inr (set_out j ((outs s j)\<lparr>o_arb := a'\<rparr>) s))"

definition run_thread :: "'w env \<Rightarrow> (nat \<Rightarrow> u8) \<Rightarrow> thread \<Rightarrow> 'w system \<Rightarrow> (label \<times> 'w system) result" where
  "run_thread e modes t s =
     (case t of
        Clock_method \<Rightarrow> Inr (Silent, run_clock s)
      | Gen i \<Rightarrow> run_gen e i s
      | Counter i \<Rightarrow> Inr (Silent, set_link i (link_counter_step (links s i)) s)
      | Router i \<Rightarrow> run_router e i s
      | Process j \<Rightarrow> run_process modes j s
      | Pusher_start j k \<Rightarrow> bind_result (run_pusher_start j s) (\<lambda>s'. Inr (Silent, s'))
      | Pusher j i \<Rightarrow> bind_result (run_pusher j i s) (\<lambda>s'. Inr (Silent, s')))"

section \<open>The update and notification phases\<close>

definition proc_wakes :: "edge list \<Rightarrow> (nat \<Rightarrow> bool) \<Rightarrow> proc_pc \<Rightarrow> bool" where
  "proc_wakes es wr pc =
     (case pc of
        P_start \<Rightarrow> False
      | P_wait_pos \<Rightarrow> Posedge \<in> set es
      | P_wait_neg c \<Rightarrow> Negedge \<in> set es
      | P_wait_pos2 c \<Rightarrow> Posedge \<in> set es
      | P_blocked c \<Rightarrow> wr (unat c))"

text \<open>Is the thread, suspended in state \<open>s\<close>, notified by the updates made in \<open>s\<close> at stamp \<open>st\<close>?\<close>

definition data_read :: "'w system \<Rightarrow> nat \<Rightarrow> nat \<Rightarrow> bool" where
  "data_read s i j = fst (fifo_phase (fifos s i j))"

definition data_written :: "'w system \<Rightarrow> nat \<Rightarrow> nat \<Rightarrow> bool" where
  "data_written s i j = fst (snd (fifo_phase (fifos s i j)))"

definition clock_edges :: "u64 \<Rightarrow> 'w system \<Rightarrow> edge list" where
  "clock_edges st s = fst (bool_phase st (clk s))"

fun wakes :: "u64 \<Rightarrow> 'w system \<Rightarrow> thread \<Rightarrow> bool" where
  "wakes st s Clock_method = False"
| "wakes st s (Gen i) = gen_wakes (clock_edges st s) (ack_edges st (links s i)) (l_gpc (links s i))"
| "wakes st s (Counter i) = (l_counting (links s i) \<and> Posedge \<in> set (clock_edges st s))"
| "wakes st s (Router i) =
     router_wakes (clock_edges st s) (act_edges st (links s i)) (data_read s i) (l_rpc (links s i))"
| "wakes st s (Process j) = proc_wakes (clock_edges st s) (\<lambda>i. data_written s i j) (o_pc (outs s j))"
| "wakes st s (Pusher_start j k) = False"
| "wakes st s (Pusher j i) = (i < unat (next_id (o_arb (outs s j))) \<and> data_written s i j)"

definition all_threads :: "nat \<Rightarrow> nat \<Rightarrow> thread list" where
  "all_threads ni no =
     map Gen [0..<ni] @ map Counter [0..<ni] @ map Router [0..<ni] @ map Process [0..<no] @
     concat (map (\<lambda>j. map (Pusher j) [0..<ni]) [0..<no])"

definition out_update :: "u64 \<Rightarrow> outport \<Rightarrow> outport" where
  "out_update st op = op\<lparr>o_choice := snd (value_phase (=) st (o_choice op)),
     o_out := snd (value_phase packet_eq st (o_out op))\<rparr>"

definition update_phase :: "'w system \<Rightarrow> 'w system" where
  "update_phase s =
     (let st = change_stamp s + 1
      in s\<lparr>link_tab := map (link_update st) (link_tab s), out_tab := map (out_update st) (out_tab s),
           fifo_tab := map (map after_phase) (fifo_tab s), clk := snd (bool_phase st (clk s)),
           runnable := filter (wakes st s) (all_threads (n_in s) (n_out s)),
           change_stamp := st\<rparr>)"

definition link_settled :: "link \<Rightarrow> bool" where
  "link_settled l \<longleftrightarrow> \<not> sig_requested (l_act l) \<and> \<not> sig_requested (l_ack l) \<and> \<not> sig_requested (l_inp l)"

definition settled :: "'w system \<Rightarrow> bool" where
  "settled s \<longleftrightarrow> \<not> sig_requested (clk s) \<and>
     list_all (\<lambda>i. link_settled (links s i)) [0..<n_in s] \<and>
     list_all (\<lambda>j. \<not> sig_requested (o_choice (outs s j)) \<and> \<not> sig_requested (o_out (outs s j))) [0..<n_out s] \<and>
     list_all (\<lambda>i. list_all (\<lambda>j. \<not> update_requested (fifos s i j)) [0..<n_out s]) [0..<n_in s]"

section \<open>Steps and runs\<close>

inductive sys_step :: "'w env \<Rightarrow> (nat \<Rightarrow> u8) \<Rightarrow> 'w system \<Rightarrow> label \<Rightarrow> 'w system \<Rightarrow> bool"
  for e modes
where
  run_step: "t \<in> set (runnable s) \<Longrightarrow>
    run_thread e modes t (s\<lparr>runnable := remove1 t (runnable s)\<rparr>) = Inr (lab, s') \<Longrightarrow>
    sys_step e modes s lab s'"
| update_step: "runnable s = [] \<Longrightarrow> \<not> settled s \<Longrightarrow> sys_step e modes s Silent (update_phase s)"
| time_step: "runnable s = [] \<Longrightarrow> settled s \<Longrightarrow>
    sys_step e modes s Silent (s\<lparr>runnable := [Clock_method]\<rparr>)"

inductive sys_run :: "'w env \<Rightarrow> (nat \<Rightarrow> u8) \<Rightarrow> 'w system \<Rightarrow> label list \<Rightarrow> 'w system \<Rightarrow> bool"
  for e modes s0
where
  run_nil: "sys_run e modes s0 [] s0"
| run_snoc: "sys_run e modes s0 tr s \<Longrightarrow> sys_step e modes s lab s' \<Longrightarrow> sys_run e modes s0 (tr @ [lab]) s'"

inductive_cases sys_stepE: "sys_step e modes s lab s'"

text \<open>The packets of a trace.\<close>

fun emitted :: "nat \<Rightarrow> label list \<Rightarrow> packet list" where
  "emitted i [] = []"
| "emitted i (Emit k p # tr) = (if k = i then p # emitted i tr else emitted i tr)"
| "emitted i (_ # tr) = emitted i tr"

fun pushed :: "nat \<Rightarrow> label list \<Rightarrow> packet list" where
  "pushed i [] = []"
| "pushed i (Push k j p # tr) = (if k = i then p # pushed i tr else pushed i tr)"
| "pushed i (_ # tr) = pushed i tr"

fun pushed_to :: "nat \<Rightarrow> nat \<Rightarrow> label list \<Rightarrow> packet list" where
  "pushed_to i j [] = []"
| "pushed_to i j (Push k m p # tr) = (if k = i \<and> m = j then p # pushed_to i j tr else pushed_to i j tr)"
| "pushed_to i j (_ # tr) = pushed_to i j tr"

fun delivered :: "nat \<Rightarrow> nat \<Rightarrow> label list \<Rightarrow> packet list" where
  "delivered i j [] = []"
| "delivered i j (Deliver k m p # tr) = (if k = i \<and> m = j then p # delivered i j tr else delivered i j tr)"
| "delivered i j (_ # tr) = delivered i j tr"

section \<open>The scheduler's own order\<close>

text \<open>
  SystemC takes the runnable threads from a queue: \<open>simulate\<close> is that one run of the relation
  above, \<open>fuel\<close> steps long.
\<close>

fun simulate ::
  "'w env \<Rightarrow> (nat \<Rightarrow> u8) \<Rightarrow> nat \<Rightarrow> 'w system \<Rightarrow> (label list \<times> 'w system) result"
where
  "simulate e modes 0 s = Inr ([], s)"
| "simulate e modes (Suc fuel) s =
     bind_result
       (case runnable s of
          [] \<Rightarrow> Inr (Silent, if settled s then s\<lparr>runnable := [Clock_method]\<rparr> else update_phase s)
        | t # ts \<Rightarrow> run_thread e modes t (s\<lparr>runnable := ts\<rparr>))
       (\<lambda>(lab, s1). bind_result (simulate e modes fuel s1) (\<lambda>(tr, s2). Inr (lab # tr, s2)))"

lemma simulate_step:
  assumes "(case runnable s of
      [] \<Rightarrow> Inr (Silent, if settled s then s\<lparr>runnable := [Clock_method]\<rparr> else update_phase s)
    | t # ts \<Rightarrow> run_thread e modes t (s\<lparr>runnable := ts\<rparr>)) = Inr (lab, s1)"
  shows "sys_step e modes s lab s1"
proof (cases "runnable s")
  case Nil
  with assms show ?thesis by (auto intro: update_step time_step split: if_splits)
next
  case (Cons t ts)
  with assms run_step [of t s e modes lab s1] show ?thesis by simp
qed

lemma simulate_run:
  "sys_run e modes s0 tr0 s \<Longrightarrow> simulate e modes fuel s = Inr (tr, s') \<Longrightarrow> sys_run e modes s0 (tr0 @ tr) s'"
proof (induction fuel arbitrary: tr0 s tr)
  case 0
  then show ?case by simp
next
  case (Suc fuel)
  then obtain lab s1 tr1 where st: "sys_step e modes s lab s1" and
    sim: "simulate e modes fuel s1 = Inr (tr1, s')" and tr: "tr = lab # tr1"
    by (auto simp: bind_result_eq_Inr intro: simulate_step)
  have "sys_run e modes s0 (tr0 @ [lab]) s1" by (rule run_snoc [OF Suc.prems(1) st])
  from Suc.IH [OF this sim] show ?case by (simp add: tr)
qed

end
