(* ===== verification/System_Invariant.thy ===== *)
theory System_Invariant
  imports System
begin

text \<open>
  The invariant of the running network and its preservation by every step. Per input it is
  the handshake invariant of \<open>Link\<close>, per fifo the equation between what was pushed, what is
  stored and what was delivered, per output the agreement of the arrival register with the
  fifos of its column. The lemmas show at the same time that no step faults.
\<close>

section \<open>Traces\<close>

lemma emitted_append: "emitted i (xs @ ys) = emitted i xs @ emitted i ys"
  by (induction i xs rule: emitted.induct) auto

lemma pushed_append: "pushed i (xs @ ys) = pushed i xs @ pushed i ys"
  by (induction i xs rule: pushed.induct) auto

lemma pushed_to_append: "pushed_to i j (xs @ ys) = pushed_to i j xs @ pushed_to i j ys"
  by (induction i j xs rule: pushed_to.induct) auto

lemma delivered_append: "delivered i j (xs @ ys) = delivered i j xs @ delivered i j ys"
  by (induction i j xs rule: delivered.induct) auto

lemmas trace_append = emitted_append pushed_append pushed_to_append delivered_append

section \<open>The invariant\<close>

abbreviation active :: "'w system \<Rightarrow> thread \<Rightarrow> bool" where
  "active s t \<equiv> t \<in> set (runnable s)"

fun valid_thread :: "nat \<Rightarrow> nat \<Rightarrow> thread \<Rightarrow> bool" where
  "valid_thread ni no Clock_method = True"
| "valid_thread ni no (Gen i) = (i < ni)"
| "valid_thread ni no (Counter i) = (i < ni)"
| "valid_thread ni no (Router i) = (i < ni)"
| "valid_thread ni no (Process j) = (j < no)"
| "valid_thread ni no (Pusher_start j k) = (j < no)"
| "valid_thread ni no (Pusher j i) = (j < no \<and> i < ni)"

definition dims_ok :: "'w system \<Rightarrow> bool" where
  "dims_ok s \<longleftrightarrow> length (link_tab s) = n_in s \<and> length (out_tab s) = n_out s \<and>
     length (fifo_tab s) = n_in s \<and> (\<forall>r\<in>set (fifo_tab s). length r = n_out s)"

definition threads_ok :: "'w system \<Rightarrow> bool" where
  "threads_ok s \<longleftrightarrow> dims_ok s \<and> distinct (runnable s) \<and>
     (\<forall>t\<in>set (runnable s). valid_thread (n_in s) (n_out s) t) \<and> signal_wf (=) (clk s)"

definition link_inv :: "'w system \<Rightarrow> label list \<Rightarrow> nat \<Rightarrow> bool" where
  "link_inv s tr i \<longleftrightarrow> link_ok (active s (Gen i)) (active s (Router i)) (links s i) \<and>
     link_data (emitted i tr) (pushed i tr) (links s i) \<and> gen_dest (n_out s) (l_gen (links s i)) \<and>
     (\<forall>p\<in>set (emitted i tr). unat (address p) < n_out s) \<and>
     (\<forall>j. pushed_to i j tr = filter (\<lambda>p. unat (address p) = j) (pushed i tr))"

definition fifo_inv :: "'w system \<Rightarrow> label list \<Rightarrow> nat \<Rightarrow> nat \<Rightarrow> bool" where
  "fifo_inv s tr i j \<longleftrightarrow> fifo_ok (fifos s i j) \<and>
     pushed_to i j tr = delivered i j tr @ visible (fifos s i j) @ pending (fifos s i j) \<and>
     (pending (fifos s i j) \<noteq> [] \<longrightarrow> acked (links s i)) \<and> length (pending (fifos s i j)) \<le> 1"

definition starters :: "'w system \<Rightarrow> nat \<Rightarrow> nat" where
  "starters s j = card {k. active s (Pusher_start j k)}"

definition out_inv :: "'w system \<Rightarrow> nat \<Rightarrow> bool" where
  "out_inv s j \<longleftrightarrow> ports_of (o_arb (outs s j)) = n_in s \<and>
     column_ok (\<lambda>i. active s (Pusher j i)) (column s j) (o_arb (outs s j)) \<and>
     proc_ok (active s (Process j)) (column s j) (o_arb (outs s j)) (o_pc (outs s j)) \<and>
     starters s j + unat (next_id (o_arb (outs s j))) = n_in s \<and>
     signal_wf packet_eq (o_out (outs s j))"

definition sys_inv :: "'w system \<Rightarrow> label list \<Rightarrow> bool" where
  "sys_inv s tr \<longleftrightarrow> threads_ok s \<and> (\<forall>i<n_in s. link_inv s tr i) \<and>
     (\<forall>i<n_in s. \<forall>j<n_out s. fifo_inv s tr i j) \<and> (\<forall>j<n_out s. out_inv s j)"

definition env_ok :: "'w env \<Rightarrow> bool" where
  "env_ok e \<longleftrightarrow> rand_ok e \<and> created_ok e \<and> marked_ok e"

lemma sys_invD:
  assumes "sys_inv s tr"
  shows "threads_ok s" "i < n_in s \<Longrightarrow> link_inv s tr i"
    "i < n_in s \<Longrightarrow> j < n_out s \<Longrightarrow> fifo_inv s tr i j" "j < n_out s \<Longrightarrow> out_inv s j"
  using assms by (auto simp: sys_inv_def)

section \<open>Taking a thread from the runnable list\<close>

abbreviation take_thread :: "thread \<Rightarrow> 'w system \<Rightarrow> 'w system" where
  "take_thread t s \<equiv> s\<lparr>runnable := remove1 t (runnable s)\<rparr>"

lemma active_take: "threads_ok s \<Longrightarrow> u \<in> set (remove1 t (runnable s)) \<longleftrightarrow> active s u \<and> u \<noteq> t"
  by (auto simp: threads_ok_def)

lemma threads_ok_take: "threads_ok s \<Longrightarrow> threads_ok (take_thread t s)"
  by (auto simp: threads_ok_def dims_ok_def dest: notin_set_remove1)

lemma valid_active: "threads_ok s \<Longrightarrow> active s t \<Longrightarrow> valid_thread (n_in s) (n_out s) t"
  by (simp add: threads_ok_def)

lemma starters_take_other:
  "threads_ok s \<Longrightarrow> (\<And>k. t \<noteq> Pusher_start j k) \<Longrightarrow> starters (take_thread t s) j = starters s j"
  by (auto simp: starters_def active_take intro: arg_cong [where f = card])

lemma starters_finite: "finite {k. active s (Pusher_start j k)}"
  by (rule finite_subset [of _ "(\<lambda>t. case t of Pusher_start j k \<Rightarrow> k | _ \<Rightarrow> 0) ` set (runnable s)"])
    (auto intro!: image_eqI)

lemma starters_take:
  assumes "threads_ok s" "active s (Pusher_start j k)"
  shows "Suc (starters (take_thread (Pusher_start j k) s) m) = starters s m \<or> m \<noteq> j"
    and "m \<noteq> j \<Longrightarrow> starters (take_thread (Pusher_start j k) s) m = starters s m"
proof -
  have "{n. active (take_thread (Pusher_start j k) s) (Pusher_start j n)} = {n. active s (Pusher_start j n)} - {k}"
    using assms(1) by (auto simp: active_take)
  then have "Suc (starters (take_thread (Pusher_start j k) s) j) = starters s j"
    using card_Suc_Diff1 [OF starters_finite [where s = s and j = j], of k] assms(2) by (simp add: starters_def)
  then show "Suc (starters (take_thread (Pusher_start j k) s) m) = starters s m \<or> m \<noteq> j" by auto
  show "m \<noteq> j \<Longrightarrow> starters (take_thread (Pusher_start j k) s) m = starters s m"
    by (rule starters_take_other [OF assms(1)]) simp
qed

section \<open>Accesses\<close>

lemma threads_ok_dims: "threads_ok s \<Longrightarrow> dims_ok s"
  by (simp add: threads_ok_def)

lemma set_link_simps [simp]:
  "outs (set_link i l s) = outs s" "fifos (set_link i l s) = fifos s" "clk (set_link i l s) = clk s"
  "runnable (set_link i l s) = runnable s" "n_in (set_link i l s) = n_in s"
  "n_out (set_link i l s) = n_out s" "world (set_link i l s) = world s"
  "column (set_link i l s) j = column s j" "starters (set_link i l s) j = starters s j"
  "dims_ok (set_link i l s) = dims_ok s"
  by (simp_all add: set_link_def column_def starters_def outs_def fifos_def dims_ok_def fun_eq_iff)

lemma links_set_link:
  "dims_ok s \<Longrightarrow> i < n_in s \<Longrightarrow> links (set_link i l s) k = (if k = i then l else links s k)"
  by (auto simp: dims_ok_def set_link_def links_def)

lemma set_out_simps [simp]:
  "links (set_out j op s) = links s" "fifos (set_out j op s) = fifos s" "clk (set_out j op s) = clk s"
  "runnable (set_out j op s) = runnable s" "n_in (set_out j op s) = n_in s"
  "n_out (set_out j op s) = n_out s" "world (set_out j op s) = world s"
  "column (set_out j op s) m = column s m" "starters (set_out j op s) m = starters s m"
  "dims_ok (set_out j op s) = dims_ok s"
  by (simp_all add: set_out_def column_def starters_def links_def fifos_def dims_ok_def fun_eq_iff)

lemma outs_set_out:
  "dims_ok s \<Longrightarrow> j < n_out s \<Longrightarrow> outs (set_out j op s) m = (if m = j then op else outs s m)"
  by (auto simp: dims_ok_def set_out_def outs_def)

lemma set_fifo_simps [simp]:
  "links (set_fifo i j f s) = links s" "outs (set_fifo i j f s) = outs s" "clk (set_fifo i j f s) = clk s"
  "runnable (set_fifo i j f s) = runnable s" "n_in (set_fifo i j f s) = n_in s"
  "n_out (set_fifo i j f s) = n_out s" "world (set_fifo i j f s) = world s"
  "starters (set_fifo i j f s) m = starters s m"
  by (simp_all add: set_fifo_def starters_def links_def outs_def fun_eq_iff)

lemma fifos_set_fifo:
  "dims_ok s \<Longrightarrow> i < n_in s \<Longrightarrow> j < n_out s \<Longrightarrow>
   fifos (set_fifo i j f s) k m = (if k = i \<and> m = j then f else fifos s k m)"
  by (auto simp: dims_ok_def set_fifo_def fifos_def nth_list_update)

lemma dims_ok_set_fifo [simp]: "dims_ok s \<Longrightarrow> dims_ok (set_fifo i j f s)"
  by (cases "i < n_in s")
    (auto simp: dims_ok_def set_fifo_def list_update_beyond dest!: subsetD [OF set_update_subset_insert])

lemma column_set_fifo:
  "dims_ok s \<Longrightarrow> i < n_in s \<Longrightarrow> j < n_out s \<Longrightarrow>
   column (set_fifo i j f s) m = (if m = j then (column s j)[i := f] else column s m)"
  by (auto simp: column_def set_fifo_def dims_ok_def list_eq_iff_nth_eq nth_list_update)

lemma length_column: "dims_ok s \<Longrightarrow> length (column s j) = n_in s"
  by (simp add: column_def dims_ok_def)

lemma nth_column: "dims_ok s \<Longrightarrow> i < n_in s \<Longrightarrow> column s j ! i = fifos s i j"
  by (simp add: column_def dims_ok_def fifos_def)

lemma length_row: "dims_ok s \<Longrightarrow> i < n_in s \<Longrightarrow> length (row s i) = n_out s"
  by (simp add: row_def dims_ok_def)

lemma nth_row: "row s i ! j = fifos s i j"
  by (simp add: row_def fifos_def)

lemma frame_simps [simp]:
  "links (s\<lparr>runnable := r\<rparr>) = links s" "outs (s\<lparr>runnable := r\<rparr>) = outs s" "fifos (s\<lparr>runnable := r\<rparr>) = fifos s"
  "column (s\<lparr>runnable := r\<rparr>) j = column s j" "row (s\<lparr>runnable := r\<rparr>) i = row s i"
  "dims_ok (s\<lparr>runnable := r\<rparr>) = dims_ok s"
  "links (s\<lparr>world := w\<rparr>) = links s" "outs (s\<lparr>world := w\<rparr>) = outs s" "fifos (s\<lparr>world := w\<rparr>) = fifos s"
  "column (s\<lparr>world := w\<rparr>) j = column s j" "dims_ok (s\<lparr>world := w\<rparr>) = dims_ok s"
  "starters (s\<lparr>world := w\<rparr>) j = starters s j"
  by (simp_all add: links_def outs_def fifos_def column_def row_def dims_ok_def starters_def fun_eq_iff)

text \<open>The rewrite rules that need the tables to have their sizes.\<close>

lemmas table_simps = links_set_link outs_set_out fifos_set_fifo column_set_fifo
  length_column nth_column length_row nth_row

section \<open>Steps of the threads\<close>

text \<open>A step that leaves a link, a fifo, an output alone keeps its part of the invariant.\<close>

lemma link_inv_frame:
  assumes "link_inv s tr i" "links s' i = links s i" "n_out s' = n_out s"
    and "active s' (Gen i) = active s (Gen i)" "active s' (Router i) = active s (Router i)"
    and "emitted i tr' = emitted i tr" "pushed i tr' = pushed i tr" "\<And>j. pushed_to i j tr' = pushed_to i j tr"
  shows "link_inv s' tr' i"
  using assms by (simp add: link_inv_def)

lemma fifo_inv_frame:
  assumes "fifo_inv s tr i j" "fifos s' i j = fifos s i j" "acked (links s i) \<longrightarrow> acked (links s' i)"
    and "pushed_to i j tr' = pushed_to i j tr" "delivered i j tr' = delivered i j tr"
  shows "fifo_inv s' tr' i j"
  using assms by (auto simp: fifo_inv_def)

lemma out_inv_frame:
  assumes "out_inv s j" "outs s' j = outs s j" "column s' j = column s j" "n_in s' = n_in s"
    and "starters s' j = starters s j" "active s' (Process j) = active s (Process j)"
    and "\<And>i. active s' (Pusher j i) = active s (Pusher j i)"
  shows "out_inv s' j"
  using assms by (simp add: out_inv_def)

lemma run_gen_inv:
  assumes inv: "sys_inv s tr" and t: "active s (Gen i)" and e: "env_ok e"
  shows "\<exists>lab s'. run_thread e modes (Gen i) (take_thread (Gen i) s) = Inr (lab, s') \<and> sys_inv s' (tr @ [lab])"
proof -
  let ?s0 = "take_thread (Gen i) s"
  note th = sys_invD(1) [OF inv]
  note dm = threads_ok_dims [OF th]
  have i: "i < n_in s" using valid_active [OF th t] by simp
  have li: "link_inv s tr i" by (rule sys_invD(2) [OF inv i])
  obtain po l' w' where st: "link_gen_step e (links s i) (world s) = Inr (po, l', w')"
    and l': "gen_dest (n_out s) (l_gen l')" "\<forall>p. po = Some p \<longrightarrow> unat (address p) < n_out s"
    using link_gen_step_total [of e "n_out s" "links s i" "world s"] e li
    by (auto simp: env_ok_def link_inv_def)
  have ok: "link_ok True (active s (Router i)) (links s i)" using li t by (simp add: link_inv_def)
  have data: "link_data (emitted i tr) (pushed i tr) (links s i)" using li by (simp add: link_inv_def)
  note step = link_gen_step_ok [OF st ok data]
  let ?lab = "case po of None \<Rightarrow> Silent | Some p \<Rightarrow> Emit i p"
  let ?s' = "(set_link i l' ?s0)\<lparr>world := w'\<rparr>"
  have run: "run_thread e modes (Gen i) ?s0 = Inr (?lab, ?s')"
    using st by (simp add: run_thread_def run_gen_def)
  have tr: "emitted k [?lab] = (if k = i then (case po of None \<Rightarrow> [] | Some p \<Rightarrow> [p]) else [])"
    "pushed k [?lab] = []" "pushed_to k j [?lab] = []" "delivered k j [?lab] = []" for k j
    by (cases po; simp)+
  have "threads_ok ?s'" using threads_ok_take [OF th, of "Gen i"] by (simp add: threads_ok_def)
  moreover have "link_inv ?s' (tr @ [?lab]) k" if k: "k < n_in s" for k
  proof (cases "k = i")
    case True
    then show ?thesis using step l' li
      by (auto simp: link_inv_def tr trace_append active_take [OF th] table_simps dm i split: option.splits)
  next
    case False
    show ?thesis
      by (rule link_inv_frame [OF sys_invD(2) [OF inv k]]) (simp_all add: False tr trace_append active_take [OF th] table_simps dm i)
  qed
  moreover have "fifo_inv ?s' (tr @ [?lab]) k j" if k: "k < n_in s" "j < n_out s" for k j
    by (rule fifo_inv_frame [OF sys_invD(3) [OF inv k]])
      (use acked_suspended [OF ok] in \<open>auto simp: tr trace_append table_simps dm i\<close>)
  moreover have "out_inv ?s' j" if j: "j < n_out s" for j
    by (rule out_inv_frame [OF sys_invD(4) [OF inv j]])
      (simp_all add: active_take [OF th] table_simps dm i starters_take_other [OF th])
  ultimately have "sys_inv ?s' (tr @ [?lab])" by (simp add: sys_inv_def)
  with run show ?thesis by blast
qed

lemma run_counter_inv:
  assumes inv: "sys_inv s tr" and t: "active s (Counter i)"
  shows "\<exists>lab s'. run_thread e modes (Counter i) (take_thread (Counter i) s) = Inr (lab, s') \<and> sys_inv s' (tr @ [lab])"
proof -
  let ?s0 = "take_thread (Counter i) s" and ?lab = Silent
  let ?s' = "set_link i (link_counter_step (links s i)) ?s0"
  note th = sys_invD(1) [OF inv]
  note dm = threads_ok_dims [OF th]
  have i: "i < n_in s" using valid_active [OF th t] by simp
  have "threads_ok ?s'" using threads_ok_take [OF th, of "Counter i"] by (simp add: threads_ok_def)
  moreover have "link_inv ?s' (tr @ [?lab]) k" if k: "k < n_in s" for k
    using sys_invD(2) [OF inv k]
    by (cases "k = i") (simp_all add: link_inv_def trace_append active_take [OF th] table_simps dm i)
  moreover have "fifo_inv ?s' (tr @ [?lab]) k j" if k: "k < n_in s" "j < n_out s" for k j
    by (rule fifo_inv_frame [OF sys_invD(3) [OF inv k]]) (simp_all add: trace_append acked_def table_simps dm i)
  moreover have "out_inv ?s' j" if j: "j < n_out s" for j
    by (rule out_inv_frame [OF sys_invD(4) [OF inv j]])
      (simp_all add: active_take [OF th] table_simps dm i starters_take_other [OF th])
  ultimately have "sys_inv ?s' (tr @ [?lab])" by (simp add: sys_inv_def)
  moreover have "run_thread e modes (Counter i) ?s0 = Inr (?lab, ?s')" by (simp add: run_thread_def)
  ultimately show ?thesis by blast
qed

lemma run_clock_inv:
  assumes inv: "sys_inv s tr" and t: "active s Clock_method"
  shows "\<exists>lab s'. run_thread e modes Clock_method (take_thread Clock_method s) = Inr (lab, s') \<and> sys_inv s' (tr @ [lab])"
proof -
  let ?s' = "run_clock (take_thread Clock_method s)"
  note th = sys_invD(1) [OF inv]
  note dm = threads_ok_dims [OF th]
  have s': "links ?s' = links s" "outs ?s' = outs s" "fifos ?s' = fifos s" "n_in ?s' = n_in s"
    "n_out ?s' = n_out s" "runnable ?s' = remove1 Clock_method (runnable s)" "column ?s' j = column s j"
    "starters ?s' j = starters s j" for j
    by (simp_all add: run_clock_def column_def starters_def active_take [OF th] links_def outs_def fifos_def fun_eq_iff)
  have "threads_ok ?s'"
    using threads_ok_take [OF th, of Clock_method] signal_wf_put [of "(=)"]
    by (simp add: threads_ok_def run_clock_def) (simp add: dims_ok_def)
  moreover have "link_inv ?s' (tr @ [Silent]) k" if k: "k < n_in s" for k
    using sys_invD(2) [OF inv k] by (simp add: link_inv_def trace_append active_take [OF th] s')
  moreover have "fifo_inv ?s' (tr @ [Silent]) k j" if k: "k < n_in s" "j < n_out s" for k j
    by (rule fifo_inv_frame [OF sys_invD(3) [OF inv k]]) (simp_all add: trace_append s')
  moreover have "out_inv ?s' j" if j: "j < n_out s" for j
    by (rule out_inv_frame [OF sys_invD(4) [OF inv j]]) (simp_all add: active_take [OF th] s')
  ultimately have "sys_inv ?s' (tr @ [Silent])" by (simp add: sys_inv_def s')
  then show ?thesis by (simp add: run_thread_def)
qed

lemma run_router_inv:
  assumes inv: "sys_inv s tr" and t: "active s (Router i)" and e: "env_ok e"
  shows "\<exists>lab s'. run_thread e modes (Router i) (take_thread (Router i) s) = Inr (lab, s') \<and> sys_inv s' (tr @ [lab])"
proof -
  let ?s0 = "take_thread (Router i) s"
  note th = sys_invD(1) [OF inv]
  note dm = threads_ok_dims [OF th]
  have i: "i < n_in s" using valid_active [OF th t] by simp
  have li: "link_inv s tr i" by (rule sys_invD(2) [OF inv i])
  have me: "marked_ok e" using e by (simp add: env_ok_def)
  have ok: "link_ok (active s (Gen i)) True (links s i)" using li t by (simp add: link_inv_def)
  have data: "link_data (emitted i tr) (pushed i tr) (links s i)" using li by (simp add: link_inv_def)
  have rng: "\<forall>p\<in>set (emitted i tr). unat (address p) < length (row s i)"
    using li by (simp add: link_inv_def table_simps dm i)
  obtain po l' w' where st: "link_router_step e (row s i) (links s i) (world s) = Inr (po, l', w')"
    using link_router_step_total [OF me ok data rng] by blast
  note step = link_router_step_ok [OF me st ok data]
  have nacked: "\<not> acked (links s i)" using acked_suspended [OF ok] by auto
  show ?thesis
  proof (cases po)
    case None
    let ?s' = "(set_link i l' ?s0)\<lparr>world := w'\<rparr>"
    have run: "run_thread e modes (Router i) ?s0 = Inr (Silent, ?s')"
      using st None by (simp add: run_thread_def run_router_def)
    have "threads_ok ?s'" using threads_ok_take [OF th, of "Router i"] by (simp add: threads_ok_def)
    moreover have "link_inv ?s' (tr @ [Silent]) k" if k: "k < n_in s" for k
      using step None sys_invD(2) [OF inv k]
      by (cases "k = i") (simp_all add: link_inv_def trace_append active_take [OF th] table_simps dm i)
    moreover have "fifo_inv ?s' (tr @ [Silent]) k j" if k: "k < n_in s" "j < n_out s" for k j
      by (rule fifo_inv_frame [OF sys_invD(3) [OF inv k]]) (use nacked in \<open>auto simp: trace_append table_simps dm i\<close>)
    moreover have "out_inv ?s' j" if j: "j < n_out s" for j
      by (rule out_inv_frame [OF sys_invD(4) [OF inv j]])
        (simp_all add: active_take [OF th] table_simps dm i starters_take_other [OF th])
    ultimately have "sys_inv ?s' (tr @ [Silent])" by (simp add: sys_inv_def)
    with run show ?thesis by blast
  next
    case (Some jqf)
    obtain j q f where po: "po = Some (j, q, f)" using Some by (cases jqf) auto
    have j: "j = unat (address q)" "j < n_out s" and w: "fifo_write q (fifos s i j) = Some f"
      and ack: "acked l'" using step(2) [OF po] by (auto simp: table_simps dm i)
    let ?s' = "set_fifo i j f ((set_link i l' ?s0)\<lparr>world := w'\<rparr>)" and ?lab = "Push i j q"
    have run: "run_thread e modes (Router i) ?s0 = Inr (?lab, ?s')"
      using st po by (simp add: run_thread_def run_router_def)
    have fi: "fifo_inv s tr i j" by (rule sys_invD(3) [OF inv i j(2)])
    then have fok: "fifo_ok (fifos s i j)" "pending (fifos s i j) = []"
      using nacked by (auto simp: fifo_inv_def)
    note wr = fifo_write_ok [OF fok(1) w]
    have "threads_ok ?s'" using threads_ok_take [OF th, of "Router i"] by (simp add: threads_ok_def)
    moreover have "link_inv ?s' (tr @ [?lab]) k" if k: "k < n_in s" for k
    proof (cases "k = i")
      case True
      have "link_ok (active s (Gen i)) False l'" "link_data (emitted i tr) (pushed i tr @ [q]) l'" "l_gen l' = l_gen (links s i)"
        using step(1,5) po by simp_all
      then show ?thesis using li True by (simp add: link_inv_def trace_append active_take [OF th] table_simps dm i j(2) j(1))
    next
      case False
      show ?thesis
        by (rule link_inv_frame [OF sys_invD(2) [OF inv k]]) (use False in \<open>simp_all add: trace_append active_take [OF th] table_simps dm i j(2)\<close>)
    qed
    moreover have "fifo_inv ?s' (tr @ [?lab]) k m" if k: "k < n_in s" "m < n_out s" for k m
    proof (cases "k = i \<and> m = j")
      case True
      then show ?thesis using fi fok wr ack by (simp add: fifo_inv_def trace_append table_simps dm i j(2))
    next
      case False
      show ?thesis
        by (rule fifo_inv_frame [OF sys_invD(3) [OF inv k]])
          (use False nacked in \<open>auto simp: trace_append table_simps dm i j(2)\<close>)
    qed
    moreover have "out_inv ?s' m" if m: "m < n_out s" for m
    proof (cases "m = j")
      case True
      have oi: "out_inv s j" by (rule sys_invD(4) [OF inv j(2)])
      have "column_ok (\<lambda>k. active s (Pusher j k)) ((column s j)[i := f]) (o_arb (outs s j))"
        by (rule column_write [where p = q]) (use oi i w in \<open>auto simp: out_inv_def table_simps dm\<close>)
      moreover have "visible ((column s j)[i := f] ! k) = visible (column s j ! k)" if "k < n_in s" for k
        using that i wr by (simp add: nth_list_update table_simps dm)
      then have "proc_ok P ((column s j)[i := f]) (o_arb (outs s j)) pc \<longleftrightarrow> proc_ok P (column s j) (o_arb (outs s j)) pc" for P pc
        using oi by (cases pc) (auto simp: out_inv_def)
      ultimately show ?thesis using oi True i
        by (simp add: out_inv_def column_set_fifo active_take [OF th] table_simps dm i j(2) starters_take_other [OF th])
    next
      case False
      show ?thesis
        by (rule out_inv_frame [OF sys_invD(4) [OF inv m]])
          (use False i in \<open>simp_all add: active_take [OF th] table_simps dm i j(2) starters_take_other [OF th] column_set_fifo\<close>)
    qed
    ultimately have "sys_inv ?s' (tr @ [?lab])" by (simp add: sys_inv_def)
    with run show ?thesis by blast
  qed
qed

text \<open>The deciding thread: a decision, a wait, or a read that is always possible.\<close>

lemma out_process_step_ok:
  assumes col: "column_ok W fs (o_arb op)" and pc: "proc_ok True fs (o_arb op) (o_pc op)"
  shows "\<exists>ro op'. out_process_step mode fs op = Inr (ro, op') \<and>
    next_id (o_arb op') = next_id (o_arb op) \<and> nb_fifos (o_arb op') = nb_fifos (o_arb op) \<and>
    (case ro of
       None \<Rightarrow> column_ok W fs (o_arb op') \<and> proc_ok False fs (o_arb op') (o_pc op') \<and> o_out op' = o_out op
     | Some (k, p, f) \<Rightarrow> k < ports_of (o_arb op) \<and> fifo_read empty_packet (fs ! k) = Some (p, f) \<and>
         column_ok W (fs[k := f]) (o_arb op') \<and> o_pc op' = P_wait_pos \<and>
         o_out op' = drive packet_eq (Some p) (o_out op))"
proof (cases "o_pc op")
  case P_wait_pos
  with process_decide [OF col, of mode] col show ?thesis by (auto simp: out_process_step_def)
next
  case (P_wait_neg c)
  with col pc show ?thesis by (simp add: out_process_step_def process_resume_def no_proc_out_def)
next
  case (P_wait_pos2 c)
  with finish_read_ok [OF col, of c] pc show ?thesis
    by (auto simp: out_process_step_def process_resume_def no_proc_out_def)
qed (use col pc in \<open>simp_all add: out_process_step_def process_resume_def no_proc_out_def\<close>)

lemma run_process_inv:
  assumes inv: "sys_inv s tr" and t: "active s (Process j)"
  shows "\<exists>lab s'. run_thread e modes (Process j) (take_thread (Process j) s) = Inr (lab, s') \<and> sys_inv s' (tr @ [lab])"
proof -
  let ?s0 = "take_thread (Process j) s"
  note th = sys_invD(1) [OF inv]
  note dm = threads_ok_dims [OF th]
  have j: "j < n_out s" using valid_active [OF th t] by simp
  have oi: "out_inv s j" by (rule sys_invD(4) [OF inv j])
  have col: "column_ok (\<lambda>i. active s (Pusher j i)) (column s j) (o_arb (outs s j))"
    and pc: "proc_ok True (column s j) (o_arb (outs s j)) (o_pc (outs s j))"
    and nb: "ports_of (o_arb (outs s j)) = n_in s"
    using oi t by (simp_all add: out_inv_def)
  obtain ro op' where st: "out_process_step (modes j) (column s j) (outs s j) = Inr (ro, op')"
    and keep: "next_id (o_arb op') = next_id (o_arb (outs s j))" "nb_fifos (o_arb op') = nb_fifos (o_arb (outs s j))"
    and ro: "case ro of
       None \<Rightarrow> column_ok (\<lambda>i. active s (Pusher j i)) (column s j) (o_arb op') \<and>
         proc_ok False (column s j) (o_arb op') (o_pc op') \<and> o_out op' = o_out (outs s j)
     | Some (k, p, f) \<Rightarrow> k < ports_of (o_arb (outs s j)) \<and> fifo_read empty_packet (column s j ! k) = Some (p, f) \<and>
         column_ok (\<lambda>i. active s (Pusher j i)) ((column s j)[k := f]) (o_arb op') \<and> o_pc op' = P_wait_pos \<and>
         o_out op' = drive packet_eq (Some p) (o_out (outs s j))"
    using out_process_step_ok [OF col pc, of "modes j"] by blast
  show ?thesis
  proof (cases ro)
    case None
    let ?s' = "set_out j op' ?s0"
    have run: "run_thread e modes (Process j) ?s0 = Inr (Silent, ?s')"
      using st None by (simp add: run_thread_def run_process_def)
    have "threads_ok ?s'" using threads_ok_take [OF th, of "Process j"] by (simp add: threads_ok_def)
    moreover have "link_inv ?s' (tr @ [Silent]) k" if k: "k < n_in s" for k
      by (rule link_inv_frame [OF sys_invD(2) [OF inv k]]) (simp_all add: trace_append active_take [OF th] table_simps dm j)
    moreover have "fifo_inv ?s' (tr @ [Silent]) k m" if k: "k < n_in s" "m < n_out s" for k m
      by (rule fifo_inv_frame [OF sys_invD(3) [OF inv k]]) (simp_all add: trace_append table_simps dm j)
    moreover have "out_inv ?s' m" if m: "m < n_out s" for m
      using sys_invD(4) [OF inv m] ro None keep
      by (cases "m = j") (simp_all add: out_inv_def active_take [OF th] table_simps dm j starters_take_other [OF th])
    ultimately have "sys_inv ?s' (tr @ [Silent])" by (simp add: sys_inv_def)
    with run show ?thesis by blast
  next
    case (Some kpf)
    obtain k p f where ro': "ro = Some (k, p, f)" using Some by (cases kpf) auto
    have k: "k < n_in s" and rd: "fifo_read empty_packet (fifos s k j) = Some (p, f)"
      and col': "column_ok (\<lambda>i. active s (Pusher j i)) ((column s j)[k := f]) (o_arb op')"
      and op': "o_pc op' = P_wait_pos" "o_out op' = drive packet_eq (Some p) (o_out (outs s j))"
      using ro ro' nb by (auto simp: table_simps dm)
    let ?s' = "set_fifo k j f (set_out j op' ?s0)" and ?lab = "Deliver k j p"
    have run: "run_thread e modes (Process j) ?s0 = Inr (?lab, ?s')"
      using st ro' by (simp add: run_thread_def run_process_def)
    have fi: "fifo_inv s tr k j" by (rule sys_invD(3) [OF inv k j])
    then have "fifo_ok (fifos s k j)" by (simp add: fifo_inv_def)
    note r = fifo_read_ok [OF this rd]
    have "threads_ok ?s'" using threads_ok_take [OF th, of "Process j"] by (simp add: threads_ok_def)
    moreover have "link_inv ?s' (tr @ [?lab]) i" if i: "i < n_in s" for i
      by (rule link_inv_frame [OF sys_invD(2) [OF inv i]]) (simp_all add: trace_append active_take [OF th] table_simps dm j k)
    moreover have "fifo_inv ?s' (tr @ [?lab]) i m" if i: "i < n_in s" "m < n_out s" for i m
      using sys_invD(3) [OF inv i] r
      by (cases "i = k \<and> m = j") (auto simp: fifo_inv_def trace_append table_simps dm j k)
    moreover have "out_inv ?s' m" if m: "m < n_out s" for m
      using sys_invD(4) [OF inv m] col' op' keep k
      by (cases "m = j") (simp_all add: out_inv_def active_take [OF th] table_simps dm j k starters_take_other [OF th] column_set_fifo)
    ultimately have "sys_inv ?s' (tr @ [?lab])" by (simp add: sys_inv_def)
    with run show ?thesis by blast
  qed
qed

text \<open>The recording threads.\<close>

lemma proc_ok_mono:
  "proc_ok P fs a pc \<Longrightarrow> set (arrival_queue a) \<subseteq> set (arrival_queue a') \<Longrightarrow> nb_fifos a' = nb_fifos a \<Longrightarrow> proc_ok P fs a' pc"
  by (cases pc) auto

lemma run_pusher_start_inv:
  assumes inv: "sys_inv s tr" and t: "active s (Pusher_start j k)"
  shows "\<exists>lab s'. run_thread e modes (Pusher_start j k) (take_thread (Pusher_start j k) s) = Inr (lab, s') \<and>
    sys_inv s' (tr @ [lab])"
proof -
  let ?t = "Pusher_start j k"
  let ?s0 = "take_thread ?t s" and ?op = "outs s j"
  note th = sys_invD(1) [OF inv]
  note dm = threads_ok_dims [OF th]
  have j: "j < n_out s" using valid_active [OF th t] by simp
  have oi: "out_inv s j" by (rule sys_invD(4) [OF inv j])
  have fewer: "Suc (starters ?s0 j) = starters s j" using starters_take(1) [OF th t, of j] by simp
  have nb: "ports_of (o_arb ?op) = n_in s" using oi by (simp add: out_inv_def)
  have "unat (next_id (o_arb ?op)) < ports_of (o_arb ?op)"
    using oi fewer nb by (simp add: out_inv_def)
  with pusher_start_ok [of "\<lambda>i. active s (Pusher j i)" "column s j" "o_arb ?op"] oi
  obtain a' where p: "pusher_start (o_arb ?op) = Inr (unat (next_id (o_arb ?op)), a')"
    and a': "column_ok (\<lambda>i. active s (Pusher j i)) (column s j) a'"
      "unat (next_id a') = Suc (unat (next_id (o_arb ?op)))" "nb_fifos a' = nb_fifos (o_arb ?op)"
      "arrival_queue a' = arrival_queue (o_arb ?op)"
    by (auto simp: out_inv_def)
  let ?s' = "set_out j (?op\<lparr>o_arb := a'\<rparr>) ?s0"
  have run: "run_thread e modes ?t ?s0 = Inr (Silent, ?s')"
    using p by (simp add: run_thread_def run_pusher_start_def)
  have "threads_ok ?s'" using threads_ok_take [OF th, of ?t] by (simp add: threads_ok_def)
  moreover have "link_inv ?s' (tr @ [Silent]) i" if i: "i < n_in s" for i
    by (rule link_inv_frame [OF sys_invD(2) [OF inv i]]) (simp_all add: trace_append active_take [OF th] table_simps dm j)
  moreover have "fifo_inv ?s' (tr @ [Silent]) i m" if i: "i < n_in s" "m < n_out s" for i m
    by (rule fifo_inv_frame [OF sys_invD(3) [OF inv i]]) (simp_all add: trace_append table_simps dm j)
  moreover have "out_inv ?s' m" if m: "m < n_out s" for m
  proof (cases "m = j")
    case True
    have "proc_ok (active s (Process j)) (column s j) a' (o_pc ?op)"
      by (rule proc_ok_mono [where a = "o_arb ?op"]) (use oi a' in \<open>simp_all add: out_inv_def\<close>)
    with oi a' fewer True show ?thesis by (simp add: out_inv_def active_take [OF th] table_simps dm j)
  next
    case False
    show ?thesis
      by (rule out_inv_frame [OF sys_invD(4) [OF inv m]])
        (use False in \<open>simp_all add: active_take [OF th] table_simps dm j starters_take(2) [OF th t]\<close>)
  qed
  ultimately have "sys_inv ?s' (tr @ [Silent])" by (simp add: sys_inv_def)
  with run show ?thesis by blast
qed

lemma run_pusher_inv:
  assumes inv: "sys_inv s tr" and t: "active s (Pusher j i)"
  shows "\<exists>lab s'. run_thread e modes (Pusher j i) (take_thread (Pusher j i) s) = Inr (lab, s') \<and>
    sys_inv s' (tr @ [lab])"
proof -
  let ?t = "Pusher j i"
  let ?s0 = "take_thread ?t s" and ?op = "outs s j"
  note th = sys_invD(1) [OF inv]
  note dm = threads_ok_dims [OF th]
  have j: "j < n_out s" "i < n_in s" using valid_active [OF th t] by simp_all
  have oi: "out_inv s j" by (rule sys_invD(4) [OF inv j(1)])
  then obtain a' where p: "pusher_resume i (o_arb ?op) = Inr a'"
    and a': "column_ok ((\<lambda>k. active s (Pusher j k))(i := False)) (column s j) a'"
      "next_id a' = next_id (o_arb ?op)" "nb_fifos a' = nb_fifos (o_arb ?op)"
      "arrival_queue a' = arrival_queue (o_arb ?op) @ [word_of_nat i]"
    using pusher_resume_ok [of "\<lambda>k. active s (Pusher j k)" "column s j" "o_arb ?op" i] j t
    by (auto simp: out_inv_def)
  let ?s' = "set_out j (?op\<lparr>o_arb := a'\<rparr>) ?s0"
  have run: "run_thread e modes ?t ?s0 = Inr (Silent, ?s')"
    using p by (simp add: run_thread_def run_pusher_def)
  have "threads_ok ?s'" using threads_ok_take [OF th, of ?t] by (simp add: threads_ok_def)
  moreover have "link_inv ?s' (tr @ [Silent]) k" if k: "k < n_in s" for k
    by (rule link_inv_frame [OF sys_invD(2) [OF inv k]]) (simp_all add: trace_append active_take [OF th] table_simps dm j)
  moreover have "fifo_inv ?s' (tr @ [Silent]) k m" if k: "k < n_in s" "m < n_out s" for k m
    by (rule fifo_inv_frame [OF sys_invD(3) [OF inv k]]) (simp_all add: trace_append table_simps dm j)
  moreover have "out_inv ?s' m" if m: "m < n_out s" for m
  proof (cases "m = j")
    case True
    have "proc_ok (active s (Process j)) (column s j) a' (o_pc ?op)"
      by (rule proc_ok_mono [where a = "o_arb ?op"]) (use oi a' in \<open>auto simp: out_inv_def\<close>)
    moreover have "(\<lambda>k. active s (Pusher j k))(i := False) = (\<lambda>k. active s (Pusher j k) \<and> k \<noteq> i)"
      by (auto simp: fun_eq_iff)
    with a'(1) have "column_ok (\<lambda>k. active s (Pusher j k) \<and> k \<noteq> i) (column s j) a'" by simp
    ultimately show ?thesis using oi a'(2-4) True
      by (simp add: out_inv_def active_take [OF th] table_simps dm j starters_take_other [OF th])
  next
    case False
    show ?thesis
      by (rule out_inv_frame [OF sys_invD(4) [OF inv m]])
        (use False in \<open>simp_all add: active_take [OF th] table_simps dm j starters_take_other [OF th]\<close>)
  qed
  ultimately have "sys_inv ?s' (tr @ [Silent])" by (simp add: sys_inv_def)
  with run show ?thesis by blast
qed

text \<open>All threads together: no fault, and the invariant again.\<close>

lemma run_thread_inv:
  assumes "sys_inv s tr" "active s t" "env_ok e"
  shows "\<exists>lab s'. run_thread e modes t (take_thread t s) = Inr (lab, s') \<and> sys_inv s' (tr @ [lab])"
proof (cases t)
  case Clock_method
  then show ?thesis using run_clock_inv [OF assms(1)] assms(2) by blast
next
  case (Gen i)
  then show ?thesis using run_gen_inv [OF assms(1) _ assms(3)] assms(2) by blast
next
  case (Counter i)
  then show ?thesis using run_counter_inv [OF assms(1)] assms(2) by blast
next
  case (Router i)
  then show ?thesis using run_router_inv [OF assms(1) _ assms(3)] assms(2) by blast
next
  case (Process j)
  then show ?thesis using run_process_inv [OF assms(1)] assms(2) by blast
next
  case (Pusher_start j k)
  then show ?thesis using run_pusher_start_inv [OF assms(1)] assms(2) by blast
next
  case (Pusher j i)
  then show ?thesis using run_pusher_inv [OF assms(1)] assms(2) by blast
qed

section \<open>The update phase and the passing of time\<close>

lemma all_threads_set:
  "t \<in> set (all_threads ni no) \<longleftrightarrow>
    (case t of Clock_method \<Rightarrow> False | Gen i \<Rightarrow> i < ni | Counter i \<Rightarrow> i < ni | Router i \<Rightarrow> i < ni
     | Process j \<Rightarrow> j < no | Pusher_start j k \<Rightarrow> False | Pusher j i \<Rightarrow> j < no \<and> i < ni)"
  by (cases t) (auto simp: all_threads_def image_iff)

lemma distinct_pushers: "distinct (concat (map (\<lambda>j. map (Pusher j) [0..<ni]) [0..<no]))"
  by (induction no) (auto simp: distinct_map inj_on_def)

lemma distinct_all_threads: "distinct (all_threads ni no)"
  using distinct_pushers by (auto simp: all_threads_def distinct_map inj_on_def)

lemma update_phase_simps [simp]:
  "n_in (update_phase s) = n_in s" "n_out (update_phase s) = n_out s"
  "runnable (update_phase s) = filter (wakes (change_stamp s + 1) s) (all_threads (n_in s) (n_out s))"
  "dims_ok s \<Longrightarrow> dims_ok (update_phase s)"
  by (auto simp: update_phase_def dims_ok_def Let_def)

lemma update_phase_tables:
  "dims_ok s \<Longrightarrow> i < n_in s \<Longrightarrow> links (update_phase s) i = link_update (change_stamp s + 1) (links s i)"
  "dims_ok s \<Longrightarrow> j < n_out s \<Longrightarrow> outs (update_phase s) j = out_update (change_stamp s + 1) (outs s j)"
  "dims_ok s \<Longrightarrow> i < n_in s \<Longrightarrow> j < n_out s \<Longrightarrow> fifos (update_phase s) i j = after_phase (fifos s i j)"
  "dims_ok s \<Longrightarrow> j < n_out s \<Longrightarrow> column (update_phase s) j = map after_phase (column s j)"
  by (auto simp: update_phase_def dims_ok_def links_def outs_def fifos_def column_def Let_def)

lemma column_recorded:
  "column_ok W fs a \<Longrightarrow> i < ports_of a \<Longrightarrow> recorded a i + of_bool (W i) = length (visible (fs ! i))"
  by (simp add: column_ok_def)

lemma update_phase_inv:
  assumes inv: "sys_inv s tr" and quiet: "runnable s = []"
  shows "sys_inv (update_phase s) (tr @ [Silent])"
proof -
  let ?s' = "update_phase s" and ?st = "change_stamp s + 1"
  note th = sys_invD(1) [OF inv]
  note dm = threads_ok_dims [OF th]
  have act: "active ?s' t \<longleftrightarrow> wakes ?st s t \<and> t \<in> set (all_threads (n_in s) (n_out s))" for t by auto
  have "valid_thread (n_in s) (n_out s) t" if "t \<in> set (all_threads (n_in s) (n_out s))" for t
    by (cases t) (use that in \<open>auto simp: all_threads_set\<close>)
  then have "threads_ok ?s'"
    using th distinct_all_threads by (auto simp: threads_ok_def) (simp add: update_phase_def Let_def)
  moreover have "link_inv ?s' (tr @ [Silent]) i" if i: "i < n_in s" for i
  proof -
    have li: "link_inv s tr i" by (rule sys_invD(2) [OF inv i])
    then have "link_ok False False (links s i)" "link_data (emitted i tr) (pushed i tr) (links s i)"
      using quiet by (simp_all add: link_inv_def)
    note up = link_update_ok [OF this, of "clock_edges ?st s" ?st "data_read s i"]
    show ?thesis using up li i by (simp add: link_inv_def trace_append act all_threads_set update_phase_tables dm)
  qed
  moreover have fi: "fifo_ok (fifos s i j)" "length (pending (fifos s i j)) \<le> 1"
    if "i < n_in s" "j < n_out s" for i j
    using sys_invD(3) [OF inv that] by (simp_all add: fifo_inv_def)
  have "fifo_inv ?s' (tr @ [Silent]) i j" if i: "i < n_in s" "j < n_out s" for i j
    using sys_invD(3) [OF inv i] fifo_phase_ok [OF fi(1) [OF i]] by (simp add: fifo_inv_def trace_append update_phase_tables dm i)
  moreover have "out_inv ?s' j" if j: "j < n_out s" for j
  proof -
    let ?a = "o_arb (outs s j)" and ?fs = "column s j"
    have oi: "out_inv s j" by (rule sys_invD(4) [OF inv j])
    have nb: "ports_of ?a = n_in s" and ids: "unat (next_id ?a) = n_in s"
      using oi quiet by (simp_all add: out_inv_def starters_def)
    have col: "column_ok (\<lambda>_. False) ?fs ?a" using oi quiet by (simp add: out_inv_def)
    have "\<forall>f\<in>set ?fs. fifo_ok f \<and> length (pending f) \<le> 1" using fi j dm by (auto simp: in_set_conv_nth table_simps)
    note up = column_update [OF col this]
    have wr: "data_written s i j \<longleftrightarrow> pending (?fs ! i) \<noteq> []" if "i < n_in s" for i
      using fifo_phase_ok(5) [OF fi(1) [OF that j]] that by (simp add: data_written_def table_simps dm)
    have W: "(\<lambda>i. active ?s' (Pusher j i)) = (\<lambda>i. i < ports_of ?a \<and> pending (?fs ! i) \<noteq> [])"
      using j nb ids wr by (auto simp: act all_threads_set fun_eq_iff)
    have vis: "visible (map after_phase ?fs ! i) \<noteq> []" if "i < n_in s" "visible (?fs ! i) \<noteq> []" for i
      using that fifo_phase_ok(2) [OF fi(1) [OF that(1) j]] by (simp add: table_simps dm)
    have "proc_ok (active ?s' (Process j)) (map after_phase ?fs) ?a (o_pc (outs s j))"
    proof (cases "o_pc (outs s j)")
      case (P_wait_neg c)
      then have c: "unat c < n_in s \<and> visible (?fs ! unat c) \<noteq> []"
        using oi nb by (auto simp: out_inv_def)
      then have "recorded ?a (unat c) = length (visible (?fs ! unat c))"
        using column_recorded [OF col, of "unat c"] nb by simp
      then have "c \<in> set (arrival_queue ?a)" using c in_queue_iff [of c ?a] by auto
      with c vis [of "unat c"] nb P_wait_neg show ?thesis by auto
    qed (use oi nb in \<open>auto simp: out_inv_def\<close>)
    then show ?thesis
      using up W oi nb ids by (simp add: out_inv_def out_update_def starters_def act all_threads_set update_phase_tables dm j)
  qed
  ultimately show ?thesis by (simp add: sys_inv_def)
qed

lemma time_step_inv:
  assumes inv: "sys_inv s tr" and quiet: "runnable s = []"
  shows "sys_inv (s\<lparr>runnable := [Clock_method]\<rparr>) (tr @ [Silent])"
proof -
  let ?s' = "s\<lparr>runnable := [Clock_method]\<rparr>"
  have "threads_ok ?s'" using sys_invD(1) [OF inv] by (simp add: threads_ok_def)
  moreover have "link_inv ?s' (tr @ [Silent]) i" if "i < n_in s" for i
    by (rule link_inv_frame [OF sys_invD(2) [OF inv that]]) (simp_all add: quiet trace_append)
  moreover have "fifo_inv ?s' (tr @ [Silent]) i j" if "i < n_in s" "j < n_out s" for i j
    by (rule fifo_inv_frame [OF sys_invD(3) [OF inv that]]) (simp_all add: trace_append)
  moreover have "out_inv ?s' j" if "j < n_out s" for j
    by (rule out_inv_frame [OF sys_invD(4) [OF inv that]]) (simp_all add: quiet starters_def)
  ultimately show ?thesis by (simp add: sys_inv_def)
qed

lemma sys_step_inv:
  assumes "sys_inv s tr" "env_ok e" "sys_step e modes s lab s'"
  shows "sys_inv s' (tr @ [lab])"
  using assms(3)
proof (cases rule: sys_step.cases)
  case (run_step t)
  with run_thread_inv [OF assms(1) _ assms(2), of t modes] show ?thesis by auto
next
  case update_step
  with update_phase_inv [OF assms(1)] show ?thesis by simp
next
  case time_step
  with time_step_inv [OF assms(1)] show ?thesis by simp
qed

lemma sys_run_inv:
  assumes "sys_run e modes s0 tr s" "sys_inv s0 []" "env_ok e"
  shows "sys_inv s tr"
  using assms by (induction rule: sys_run.induct) (auto intro: sys_step_inv)

section \<open>The initial state\<close>

lemma start_threads_set:
  "t \<in> set (start_threads ni no ports) \<longleftrightarrow>
    (case t of Counter i \<Rightarrow> i < ni | Router i \<Rightarrow> i < ni | Process j \<Rightarrow> j < no
     | Pusher_start j k \<Rightarrow> j < no \<and> k < ports j | _ \<Rightarrow> False)"
  by (cases t) (auto simp: start_threads_def image_iff)

lemma distinct_starters: "distinct (concat (map (\<lambda>j. map (Pusher_start j) [0..<ports j]) [0..<no]))"
  by (induction no) (auto simp: distinct_map inj_on_def)

lemma distinct_start_threads: "distinct (start_threads ni no ports)"
  using distinct_starters by (auto simp: start_threads_def distinct_map inj_on_def)

text \<open>The sizes the network can be built and run with.\<close>

definition size_ok :: "nat \<Rightarrow> nat \<Rightarrow> bool" where
  "size_ok n depth \<longleftrightarrow> 0 < n \<and> n \<le> 128 \<and> 0 < depth \<and> 2 * n * depth < 2 ^ 32"

lemma size_ok_depth: "size_ok n depth \<Longrightarrow> depth_ok depth"
proof -
  assume a: "size_ok n depth"
  then have "2 * depth \<le> 2 * n * depth" by (simp add: size_ok_def)
  also have "\<dots> < 2 ^ 32" using a by (simp add: size_ok_def)
  finally show ?thesis using a by (simp add: size_ok_def depth_ok_def)
qed

lemma unat_register_size:
  assumes "size_ok n depth"
  shows "unat (2 * word_of_nat n * word_of_nat depth :: u32) = 2 * n * depth"
proof -
  have "(2 * word_of_nat n * word_of_nat depth :: u32) = word_of_nat (2 * n * depth)" by simp
  then show ?thesis using assms unat_word_of_nat_u32 [of "2 * n * depth"] by (simp only: size_ok_def)
qed

lemma make_arbiter_column:
  assumes sz: "size_ok n depth" and a: "make_arbiter (word_of_nat n) (word_of_nat depth) = Inr a"
    and fs: "length fs = n" "\<forall>i<n. fifo_wf (fs ! i) \<and> m_size (fs ! i) = depth \<and> visible (fs ! i) = []"
  shows "column_ok (\<lambda>_. False) fs a"
proof -
  have n: "0 < n" "n \<le> 128" "depth < 2 ^ 32"
  proof -
    show "0 < n" "n \<le> 128" using sz by (simp_all add: size_ok_def)
    have "depth \<le> 2 * n * depth" using \<open>0 < n\<close> by simp
    then show "depth < 2 ^ 32" using sz by (simp only: size_ok_def) linarith
  qed
  have nb: "ports_of a = n" and dep: "unat (fifo_depth a) = depth" and len: "length (pushs_in_fifos a) = 2 * n * depth"
    and zero: "in_fifos a = 0"
    using a n unat_register_size [OF sz] by (auto simp: make_arbiter_eq)
  have "policy_wf a"
    using make_arbiter_wf [of "word_of_nat n" "word_of_nat depth" a] a n by simp
  moreover have "register_wf a" using len zero sz by (simp add: register_wf_def size_ok_def)
  moreover have "arrival_queue a = []" using zero by (simp add: arrival_queue_def)
  ultimately show "column_ok (\<lambda>_. False) fs a" using fs nb dep len by (simp add: column_ok_def)
qed

lemma fresh_fifo_ok:
  fixes w r :: "nat option"
  assumes "0 < depth"
  defines "f \<equiv> (fresh_fifo depth)\<lparr>m_writer := w, m_reader := r\<rparr>"
  shows "fifo_ok f" "visible f = []" "pending f = []" "m_size f = depth"
  using assms(1) by (simp_all add: f_def fresh_fifo_def fifo_ok_def fifo_wf_def fifo_req_def stored_def
      visible_def pending_def contents_def ring_def)

lemma make_system_inv:
  assumes sz: "size_ok n depth" and gens: "\<forall>i<n. gen_dest n (gens i)"
  shows "\<exists>s0. make_system n n depth gens w = Inr s0 \<and> sys_inv s0 [] \<and> n_in s0 = n \<and> n_out s0 = n"
proof -
  have n: "0 < n" "n \<le> 128" "0 < depth" using sz by (simp_all add: size_ok_def)
  have "n * n \<le> 128 * 128" using n(2) by (intro mult_le_mono)
  then have nn: "n < 2 ^ 32" "n * n < 2 ^ 32" using n(2) by auto
  have d: "depth_ok depth" using sz by (rule size_ok_depth)
  obtain a m where a: "make_arbiter (word_of_nat n) (word_of_nat depth) = Inr a"
    and m: "build n n depth = Inr m" "connected depth (all_pairs n n) (net0 n n depth a) m"
    using build_square [OF d n(1) nn] by blast
  define s0 where "s0 = \<lparr>n_in = n, n_out = n, link_tab = map (\<lambda>i. make_link (gens i)) [0..<n],
    out_tab = map make_outport (noc_arbiters m),
    fifo_tab = map (\<lambda>i. map (\<lambda>j. noc_fifos m ! the (router_ports m (i, j))) [0..<n]) [0..<n], clk = make_signal False,
    runnable = start_threads n n (\<lambda>j. unat (nb_fifos (noc_arbiters m ! j))),
    change_stamp = 0, world = w\<rparr>"
  have s0: "make_system n n depth gens w = Inr s0" using m(1) by (simp add: make_system_def s0_def)
  have arb: "o_arb (outs s0 j) = a" if "j < n" for j
    using m(2) that by (simp add: s0_def make_outport_def connected_def net0_def outs_def)
  have f: "fifos s0 i j = (fresh_fifo depth)\<lparr>m_writer := Some (n * i + j), m_reader := Some (n * j + i)\<rparr>"
    if "i < n" "j < n" for i j
    using m(2) connected_fifo [OF m(2) nn(2) that] that
    by (simp add: s0_def connected_def net0_def fifos_def del: split_paired_All)
  have dims: "n_in s0 = n" "n_out s0 = n" "i < n \<Longrightarrow> links s0 i = make_link (gens i)" for i
    by (simp_all add: s0_def links_def)
  have nb: "ports_of a = n" by (rule arbiter_ports_count [OF nn(1) a])
  have run: "active s0 t \<longleftrightarrow> t \<in> set (start_threads n n (\<lambda>j. unat (nb_fifos (noc_arbiters m ! j))))" for t
    by (simp add: s0_def)
  have arbs: "noc_arbiters m = replicate n a" using m(2) by (simp add: connected_def net0_def)
  have dm: "dims_ok s0" by (auto simp: s0_def dims_ok_def arbs)
  then have "threads_ok s0"
    by (auto simp: threads_ok_def s0_def distinct_start_threads start_threads_set signal_wf_make split: thread.splits)
  moreover have "link_inv s0 [] i" if "i < n" for i
    using that gens link_ok_make [of "gens i"] link_data_make [of "gens i"]
    by (simp add: link_inv_def dims run start_threads_set make_link_def)
  moreover have fo: "fifo_ok (fifos s0 i j) \<and> visible (fifos s0 i j) = [] \<and> pending (fifos s0 i j) = [] \<and>
      m_size (fifos s0 i j) = depth" if "i < n" "j < n" for i j
    unfolding f [OF that] using fresh_fifo_ok [OF n(3)] by blast
  then have "fifo_inv s0 [] i j" if "i < n" "j < n" for i j
    using that by (simp add: fifo_inv_def)
  moreover have "out_inv s0 j" if j: "j < n" for j
  proof -
    have col: "column_ok (\<lambda>_. False) (column s0 j) a"
    proof (rule make_arbiter_column [OF sz a])
      show "length (column s0 j) = n" by (simp add: dims table_simps dm)
      show "\<forall>i<n. fifo_wf (column s0 j ! i) \<and> m_size (column s0 j ! i) = depth \<and> visible (column s0 j ! i) = []"
        using fo j by (simp add: dims fifo_ok_def table_simps dm)
    qed
    have st: "{k. active s0 (Pusher_start j k)} = {..<n}"
      using j nb by (auto simp: run start_threads_set arbs)
    have idle: "\<not> active s0 (Pusher j i)" for i by (simp add: run start_threads_set)
    have "unat (next_id a) = 0" using a by (auto simp: make_arbiter_eq)
    moreover have "o_pc (outs s0 j) = P_start" "signal_wf packet_eq (o_out (outs s0 j))"
      using j by (simp_all add: s0_def outs_def arbs make_outport_def signal_wf_make)
    ultimately show ?thesis
      using arb [OF j] nb col st idle by (simp add: out_inv_def dims starters_def)
  qed
  ultimately have "sys_inv s0 []" using dims by (simp add: sys_inv_def)
  with s0 dims show ?thesis by blast
qed

end
