(* ===== verification/System_Properties.thy ===== *)
theory System_Properties
  imports System_Invariant
begin

text \<open>
  What the network promises, for every run of the scheduler: any order of the runnable threads,
  any arbitration mode per output (a value that is no mode included), any generators with
  addresses below the number of outputs, any callbacks that return and keep address and data.
\<close>

section \<open>From the invariant to the trace\<close>

lemma list_all2_filter_address:
  "list_all2 packet_eq xs ys \<Longrightarrow>
   list_all2 packet_eq (filter (\<lambda>p. unat (address p) = j) xs) (filter (\<lambda>p. unat (address p) = j) ys)"
  by (induction rule: list_all2_induct) (auto simp: packet_eq_def)

lemma link_data_filter:
  assumes "link_data em pu l"
  shows "\<exists>fl. length fl \<le> 1 \<and> (fl \<noteq> [] \<longrightarrow> in_flight (l_gpc l) (l_rpc l)) \<and>
    list_all2 packet_eq (filter (\<lambda>p. unat (address p) = j) em)
      (filter (\<lambda>p. unat (address p) = j) pu @ fl)"
proof (cases "in_flight (l_gpc l) (l_rpc l)")
  case True
  then obtain es p where em: "em = es @ [p]" "list_all2 packet_eq es pu"
    using assms by (auto simp: link_data_def)
  let ?fl = "filter (\<lambda>p. unat (address p) = j) [p]"
  have "list_all2 packet_eq ?fl ?fl" by (simp add: list.rel_refl)
  with list_all2_filter_address [OF em(2), of j] show ?thesis
    using True by (intro exI [of _ ?fl]) (simp add: em list_all2_appendI)
next
  case False
  with assms list_all2_filter_address [of em pu j] show ?thesis
    by (auto simp: link_data_def intro!: exI [of _ "[]"])
qed

lemma run_thread_dims:
  "run_thread e modes t s = Inr (lab, s') \<Longrightarrow> n_in s' = n_in s \<and> n_out s' = n_out s"
  by (cases t) (auto simp: run_thread_def run_clock_def run_gen_def run_router_def run_process_def
      run_pusher_start_def run_pusher_def bind_result_eq_Inr Let_def split: option.splits)

lemma sys_step_dims: "sys_step e modes s lab s' \<Longrightarrow> n_in s' = n_in s \<and> n_out s' = n_out s"
  by (erule sys_stepE) (auto dest: run_thread_dims)

lemma sys_run_dims: "sys_run e modes s0 tr s \<Longrightarrow> n_in s = n_in s0 \<and> n_out s = n_out s0"
  by (induction rule: sys_run.induct) (auto dest: sys_step_dims)

text \<open>The situation of all properties below: a run of a network built with acceptable parameters.\<close>

definition network_run ::
  "'w env \<Rightarrow> (nat \<Rightarrow> u8) \<Rightarrow> nat \<Rightarrow> nat \<Rightarrow> (nat \<Rightarrow> stream_generator) \<Rightarrow> 'w \<Rightarrow> label list \<Rightarrow> 'w system \<Rightarrow> bool"
where
  "network_run e modes n depth gens w tr s \<longleftrightarrow> env_ok e \<and> size_ok n depth \<and> (\<forall>i<n. gen_dest n (gens i)) \<and>
     (\<exists>s0. make_system n n depth gens w = Inr s0 \<and> sys_run e modes s0 tr s)"

lemma network_run_inv:
  assumes "network_run e modes n depth gens w tr s"
  shows "sys_inv s tr" "n_in s = n" "n_out s = n"
proof -
  obtain s0 where r: "env_ok e" "size_ok n depth" "\<forall>i<n. gen_dest n (gens i)"
    "make_system n n depth gens w = Inr s0" "sys_run e modes s0 tr s"
    using assms unfolding network_run_def by blast
  obtain s1 where s1: "make_system n n depth gens w = Inr s1" "sys_inv s1 []" "n_in s1 = n" "n_out s1 = n"
    using make_system_inv [OF r(2,3), of w] by blast
  have "s1 = s0" using s1(1) r(4) by simp
  with s1 have "sys_inv s0 []" "n_in s0 = n" "n_out s0 = n" by simp_all
  with sys_run_inv [OF r(5) _ r(1)] sys_run_dims [OF r(5)] show "sys_inv s tr" "n_in s = n" "n_out s = n"
    by simp_all
qed

lemma network_run_step:
  assumes "network_run e modes n depth gens w tr s" "t \<in> set (runnable s)"
  shows "\<exists>lab s'. run_thread e modes t (take_thread t s) = Inr (lab, s') \<and>
    network_run e modes n depth gens w (tr @ [lab]) s'"
proof -
  have "env_ok e" using assms(1) by (simp add: network_run_def)
  from run_thread_inv [OF network_run_inv(1) [OF assms(1)] assms(2) this, of modes]
  obtain lab s' where r: "run_thread e modes t (take_thread t s) = Inr (lab, s')" by blast
  then have "sys_step e modes s lab s'" using assms(2) by (rule run_step [rotated])
  with assms(1) r show ?thesis unfolding network_run_def by (blast intro: run_snoc)
qed

section \<open>A run of a network with two inputs and two outputs\<close>

text \<open>
  Fifos of depth one, round robin, both generators emitting as fast as the handshake lets them,
  a fixed sequence of random numbers. At the step the properties look at, input 0 has emitted
  two packets for output 0: one is delivered, one is on the link; the packet of input 1 for the
  same output waits in its fifo.
\<close>

definition demo_env :: "nat env" where
  "demo_env = plain_env (\<lambda>n. 3 * int n mod 1000)"

definition demo_gen :: "nat \<Rightarrow> stream_generator" where
  "demo_gen i = (make_stream 2 0 1)\<lparr>address_max := 2, period := 0\<rparr>"

definition demo :: "nat \<Rightarrow> (label list \<times> nat system) result" where
  "demo k = bind_result (make_system 2 2 1 demo_gen 0) (\<lambda>s.
     simulate demo_env (\<lambda>_. mode_code ROUNDROBIN) k s)"

abbreviation demo_run :: "label list \<Rightarrow> nat system \<Rightarrow> bool" where
  "demo_run \<equiv> network_run demo_env (\<lambda>_. mode_code ROUNDROBIN) 2 1 demo_gen 0"

lemma demo_parameters: "env_ok demo_env \<and> size_ok 2 1 \<and> gen_dest 2 (demo_gen i)"
proof -
  have "gen_ok 0 2 (demo_gen i)" by (simp add: gen_ok_def address_range_def demo_gen_def make_stream_def)
  moreover have "unat (2 :: u8) \<le> 2" by code_simp
  ultimately have "gen_dest 2 (demo_gen i)" unfolding gen_dest_def by blast
  moreover have "3 * int n mod 1000 < 2 ^ 31" for n
    by (rule less_trans [of _ 1000]) simp_all
  then have "env_ok demo_env"
    by (simp add: env_ok_def rand_ok_def created_ok_def marked_ok_def demo_env_def plain_env_def)
  ultimately show ?thesis by (simp add: size_ok_def)
qed

lemma demo_is_run: "demo k = Inr (tr, s) \<Longrightarrow> demo_run tr s"
  using demo_parameters simulate_run [OF run_nil]
  by (fastforce simp: demo_def network_run_def bind_result_eq_Inr)

lemma demo_eval:
  "case demo 87 of Inl _ \<Rightarrow> False | Inr (tr, s) \<Rightarrow>
     emitted 0 tr = [make_packet 0 6, make_packet 0 24] \<and> delivered 0 0 tr = [make_packet 0 6] \<and>
     emitted 1 tr = [make_packet 0 15, make_packet 1 27] \<and> delivered 1 0 tr = [] \<and>
     contents (fifos s 1 0) = [make_packet 0 15] \<and> runnable s = []"
  by code_simp

lemma demo_state:
  obtains tr s where "demo_run tr s"
    and "emitted 0 tr = [make_packet 0 6, make_packet 0 24]" and "delivered 0 0 tr = [make_packet 0 6]"
    and "contents (fifos s 1 0) = [make_packet 0 15]" and "runnable s = []"
proof -
  obtain tr s where d: "demo 87 = Inr (tr, s)"
    using demo_eval by (cases "demo 87") auto
  then have "emitted 0 tr = [make_packet 0 6, make_packet 0 24] \<and> delivered 0 0 tr = [make_packet 0 6] \<and>
     contents (fifos s 1 0) = [make_packet 0 15] \<and> runnable s = []"
    using demo_eval by simp
  with that demo_is_run [OF d] show thesis by blast
qed

lemma demo_reading_eval:
  "case demo 85 of Inl _ \<Rightarrow> False | Inr (tr, s) \<Rightarrow> runnable s = [Process 0, Process 1] \<and> o_pc (outs s 0) = P_wait_pos2 0"
  by code_simp

lemma demo_reading:
  obtains tr s where "demo_run tr s" and "runnable s = [Process 0, Process 1]" and "o_pc (outs s 0) = P_wait_pos2 0"
proof -
  obtain tr s where d: "demo 85 = Inr (tr, s)"
    using demo_reading_eval by (cases "demo 85") auto
  then have "runnable s = [Process 0, Process 1] \<and> o_pc (outs s 0) = P_wait_pos2 0"
    using demo_reading_eval by simp
  with that demo_is_run [OF d] show thesis by blast
qed

section \<open>Properties\<close>

text \<open>
  C1: No thread of the network ever faults: in every reachable state, every runnable thread
  runs to its next wait. No array is left, no division by zero happens, the assertion of
  \<open>pushed_in_fifo\<close> holds, and no error is reported.
\<close>

theorem network_never_faults:
  assumes "network_run e modes n depth gens w tr s" and "t \<in> set (runnable s)"
  shows "\<exists>lab s'. run_thread e modes t (s\<lparr>runnable := remove1 t (runnable s)\<rparr>) = Inr (lab, s')"
  using network_run_step [OF assms] by blast

theorem network_never_faults_witness:
  "\<exists>tr s. demo_run tr s \<and> o_pc (outs s 0) = P_wait_pos2 0 \<and>
    (\<exists>lab s'. run_thread demo_env (\<lambda>_. mode_code ROUNDROBIN) (Process 0)
      (s\<lparr>runnable := remove1 (Process 0) (runnable s)\<rparr>) = Inr (lab, s'))"
proof -
  obtain tr s where d: "demo_run tr s" "runnable s = [Process 0, Process 1]" "o_pc (outs s 0) = P_wait_pos2 0"
    by (rule demo_reading)
  then have "Process 0 \<in> set (runnable s)" by simp
  from network_never_faults [OF d(1) this] d show ?thesis by blast
qed

text \<open>
  C2: Conservation and order: for every input \<open>i\<close> and output \<open>j\<close>, the packets emitted at \<open>i\<close>
  for \<open>j\<close> are, in the order of their emission, those delivered at \<open>j\<close> from \<open>i\<close>, those stored in the
  fifo between them, and at most one that is still on the link. No packet is lost, duplicated,
  altered or overtaken.
\<close>

theorem network_conserves_packets:
  assumes "network_run e modes n depth gens w tr s" and "i < n" and "j < n"
  shows "\<exists>fl. length fl \<le> 1 \<and>
    list_all2 packet_eq (filter (\<lambda>p. unat (address p) = j) (emitted i tr))
      (delivered i j tr @ contents (fifos s i j) @ fl)"
proof -
  have inv: "link_inv s tr i" "fifo_inv s tr i j"
    using network_run_inv [OF assms(1)] assms(2,3) by (auto simp: sys_inv_def)
  then have "link_data (emitted i tr) (pushed i tr) (links s i)" by (simp add: link_inv_def)
  from link_data_filter [OF this, of j] obtain fl where fl: "length fl \<le> 1"
    "list_all2 packet_eq (filter (\<lambda>p. unat (address p) = j) (emitted i tr))
      (filter (\<lambda>p. unat (address p) = j) (pushed i tr) @ fl)"
    by blast
  moreover have "filter (\<lambda>p. unat (address p) = j) (pushed i tr) = pushed_to i j tr"
    using inv(1) by (simp add: link_inv_def)
  ultimately show ?thesis using inv(2) by (auto simp: fifo_inv_def contents_split)
qed

theorem network_conserves_packets_witness:
  "\<exists>tr s fl. demo_run tr s \<and> delivered 0 0 tr = [make_packet 0 6] \<and> length fl \<le> 1 \<and>
    list_all2 packet_eq (filter (\<lambda>p. unat (address p) = 0) [make_packet 0 6, make_packet 0 24])
      (delivered 0 0 tr @ contents (fifos s 0 0) @ fl)"
proof -
  obtain tr s where d: "demo_run tr s" "emitted 0 tr = [make_packet 0 6, make_packet 0 24]"
    "delivered 0 0 tr = [make_packet 0 6]" by (rule demo_state)
  have "(0::nat) < 2" by simp
  from network_conserves_packets [OF d(1) this this] d show ?thesis
    by (intro exI [of _ tr] exI [of _ s]) simp
qed

text \<open>
  C3: Routing: every packet delivered at an output carries the address of that output.
\<close>

theorem network_routes_by_address:
  assumes "network_run e modes n depth gens w tr s" and "i < n" and "j < n"
    and "p \<in> set (delivered i j tr)"
  shows "unat (address p) = j"
proof -
  have inv: "link_inv s tr i" "fifo_inv s tr i j"
    using network_run_inv [OF assms(1)] assms(2,3) by (auto simp: sys_inv_def)
  then have "p \<in> set (pushed_to i j tr)" using assms(4) by (simp add: fifo_inv_def)
  with inv(1) show ?thesis by (simp add: link_inv_def)
qed

theorem network_routes_by_address_witness:
  "\<exists>tr s. demo_run tr s \<and> make_packet 0 6 \<in> set (delivered 0 0 tr) \<and> unat (address (make_packet 0 6)) = 0"
proof -
  obtain tr s where d: "demo_run tr s" "delivered 0 0 tr = [make_packet 0 6]" by (rule demo_state)
  then have "make_packet 0 6 \<in> set (delivered 0 0 tr)" by simp
  from network_routes_by_address [OF d(1) _ _ this] d this show ?thesis by auto
qed

text \<open>
  C4: The blocking operations never block: in no reachable state does a router wait inside
  \<open>sc_fifo::write\<close> or a deciding thread wait inside \<open>sc_fifo::read\<close>. A router waits for room
  with the clock before it writes, and the fifo an arbiter has chosen still has its packet a
  cycle later.
\<close>

theorem network_never_blocks:
  assumes "network_run e modes n depth gens w tr s" and "i < n" and "j < n"
  shows "l_rpc (links s i) \<noteq> R_blocked p \<and> o_pc (outs s j) \<noteq> P_blocked c"
proof -
  have inv: "link_inv s tr i" "out_inv s j"
    using network_run_inv [OF assms(1)] assms(2,3) by (auto simp: sys_inv_def)
  have "l_rpc (links s i) \<noteq> R_blocked p"
    using inv(1) by (cases "l_gpc (links s i)") (auto simp: link_inv_def link_ok_def)
  moreover have "o_pc (outs s j) \<noteq> P_blocked c" using inv(2) by (auto simp: out_inv_def)
  ultimately show ?thesis by simp
qed

theorem network_never_blocks_witness:
  "\<exists>tr s. demo_run tr s \<and> l_rpc (links s 1) \<noteq> R_blocked (make_packet 0 15) \<and> o_pc (outs s 0) \<noteq> P_blocked 0"
proof -
  obtain tr s where d: "demo_run tr s" "runnable s = [Process 0, Process 1]" by (rule demo_reading)
  from network_never_blocks [OF d(1), of 1 0] d show ?thesis by auto
qed

text \<open>
  C5: The handshake: the router acknowledges only a packet it has pushed, and while a packet
  is between its emission and its push the acknowledgement is low; the generator keeps
  \<open>activated\<close> high until it has seen the acknowledgement.
\<close>

theorem handshake_phases:
  assumes "network_run e modes n depth gens w tr s" and "i < n"
  defines "l \<equiv> links s i"
  shows "(in_flight (l_gpc l) (l_rpc l) \<longrightarrow> \<not> m_cur_val (l_ack l) \<and> \<not> m_new_val (l_ack l)) \<and>
    (m_new_val (l_ack l) \<longrightarrow> length (emitted i tr) = length (pushed i tr)) \<and>
    (l_gpc l = E_wait_ack \<longrightarrow> m_new_val (l_act l))"
proof -
  have inv: "link_ok (active s (Gen i)) (active s (Router i)) l" "link_data (emitted i tr) (pushed i tr) l"
    using network_run_inv [OF assms(1)] assms(2) by (auto simp: sys_inv_def link_inv_def l_def)
  have a: "in_flight (l_gpc l) (l_rpc l) \<longrightarrow> \<not> m_cur_val (l_ack l) \<and> \<not> m_new_val (l_ack l)"
    using inv(1) by (cases "l_gpc l"; cases "l_rpc l") (simp_all add: link_ok_def)
  moreover have "m_new_val (l_ack l) \<longrightarrow> length (emitted i tr) = length (pushed i tr)"
    using a inv(2) by (auto simp: link_data_def dest: list_all2_lengthD)
  moreover have "l_gpc l = E_wait_ack \<longrightarrow> m_new_val (l_act l)"
    using inv(1) by (cases "l_rpc l") (auto simp: link_ok_def)
  ultimately show ?thesis by blast
qed

theorem handshake_phases_witness:
  "\<exists>tr s. demo_run tr s \<and> emitted 0 tr \<noteq> [] \<and>
    (m_new_val (l_ack (links s 0)) \<longrightarrow> length (emitted 0 tr) = length (pushed 0 tr))"
proof -
  obtain tr s where d: "demo_run tr s" "emitted 0 tr = [make_packet 0 6, make_packet 0 24]" by (rule demo_state)
  have "(0::nat) < 2" by simp
  with handshake_phases [OF d(1) this] d show ?thesis by (intro exI [of _ tr] exI [of _ s]) auto
qed

text \<open>
  C6: The arrival register follows the fifos: in every state where no thread is left to run,
  the register of an arbiter holds the number of each fifo as often as the fifo has packets to
  read, so that in mode \<open>FIFO\<close> the first entry names a fifo that can be read.
\<close>

theorem register_follows_fifos:
  assumes "network_run e modes n depth gens w tr s" and "runnable s = []" and "i < n" and "j < n"
  shows "count_list (arrival_queue (o_arb (outs s j))) (word_of_nat i) = length (visible (fifos s i j))"
proof -
  have "out_inv s j" "n_in s = n"
    using network_run_inv [OF assms(1)] assms(4) by (auto simp: sys_inv_def)
  moreover have "dims_ok s" using network_run_inv(1) [OF assms(1)] threads_ok_dims by (auto simp: sys_inv_def)
  ultimately show ?thesis
    using column_recorded [of "\<lambda>_. False" "column s j" "o_arb (outs s j)" i] assms(2,3)
    by (simp add: out_inv_def nth_column)
qed

theorem register_follows_fifos_witness:
  "\<exists>tr s. demo_run tr s \<and> runnable s = [] \<and>
    count_list (arrival_queue (o_arb (outs s 0))) (word_of_nat 1) = length (visible (fifos s 1 0))"
proof -
  obtain tr s where d: "demo_run tr s" "runnable s = []" by (rule demo_state)
  from register_follows_fifos [OF d, of 1 0] d show ?thesis by auto
qed

end
