(* ===== verification/Traffic_Properties.thy ===== *)
theory Traffic_Properties
  imports Traffic
begin

text \<open>
  What the traffic generators promise: addresses in the range that was set, the life of an
  address, the rate of the stream generator and of the burst generator, runs without a fault.
\<close>

section \<open>A generator\<close>

definition sample_env :: "nat env" where
  "sample_env = plain_env (\<lambda>n. 7 * int n mod 1000)"

lemma sample_env_ok: "rand_ok sample_env" "created_ok sample_env"
proof -
  have "7 * int n mod 1000 < 2 ^ 31" for n by (rule less_trans [of _ 1000]) simp_all
  then show "rand_ok sample_env" "created_ok sample_env"
    by (simp_all add: rand_ok_def created_ok_def sample_env_def plain_env_def)
qed

definition sample_stream :: stream_generator where
  "sample_stream = set_period 3 ((make_stream 5 2 4)\<lparr>address_min := 2, address_max := 6\<rparr>)"

definition sample_burst :: burst_generator where
  "sample_burst = set_burst 10 2 5 ((make_burst 5 2 4)\<lparr>address_min := 2, address_max := 6\<rparr>)"

lemma sample_ok: "gen_ok 2 6 sample_stream" "gen_ok 2 6 sample_burst"
  by (simp_all add: gen_ok_def address_range_def sample_stream_def sample_burst_def set_period_def
      set_burst_def make_stream_def make_burst_def)

section \<open>Addresses\<close>

text \<open>
  The range of the addresses: once \<open>set_address_properties\<close> has been called with a
  non-empty range and a life time, every address the generator hands out, now and after any
  number of renewals, is at least the minimum and less than the maximum.
\<close>

theorem addresses_in_range:
  assumes "rand_ok e" and "mn < mx" and "ml \<noteq> 0"
  shows "\<exists>gw. set_address_properties e mn mx ml (g, w) = Inr gw \<and>
    (\<exists>as gw'. address_run e n gw = Inr (as, gw') \<and> (\<forall>a\<in>set as. mn \<le> a \<and> a < mx))"
proof -
  let ?g = "g\<lparr>address_min := mn, address_max := mx, address_max_life_time := ml\<rparr>"
  have lt: "address_min ?g < address_max ?g" "address_max_life_time ?g \<noteq> 0" using assms(2,3) by simp_all
  obtain a l w' where c: "choose_new_random_address e (?g, w) =
      Inr (?g\<lparr>current_address := a, current_address_life_time := l\<rparr>, w')"
    using choose_new_random_address_eq [OF lt, of e w] by blast
  have "gen_ok mn mx (?g\<lparr>current_address := a, current_address_life_time := l\<rparr>)"
    using choose_new_random_address_range [OF assms(1) lt(1) c] by (simp add: gen_ok_def)
  from address_run_range [OF assms(1) this, of n w'] c show ?thesis
    by (auto simp: set_address_properties_def)
qed

theorem addresses_in_range_witness:
  "\<exists>gw as gw'. set_address_properties sample_env 2 6 5 (sample_stream, 0) = Inr gw \<and>
    address_run sample_env 50 gw = Inr (as, gw') \<and> (\<forall>a\<in>set as. 2 \<le> a \<and> a < 6)"
proof -
  have "(2 :: u8) < 6" "(5 :: u32) \<noteq> 0" by simp_all
  from addresses_in_range [OF sample_env_ok(1) this, of sample_stream 0 50] show ?thesis by blast
qed

text \<open>
  C11: The life of an address: with \<open>life_left\<close> draws left the address is handed out by
  exactly so many calls of \<open>get_address\<close>. Before the last of them nothing is drawn and only
  the counter moves; the last one renews address and life from the next two values of \<open>rand()\<close>,
  and calls after it hand out the new address. A life time of 0, which
  \<open>rand() % _address_max_life_time\<close> may well give, is not "renew at once": the counter wraps
  around and the address is used 256 times.
\<close>

theorem address_life:
  assumes "address_min g < address_max g" and "address_max_life_time g \<noteq> 0"
    and "env_rand e w = (r1, w1)" and "env_rand e w1 = (r2, w2)"
  shows "(\<forall>n<life_left g. \<exists>l. address_run e n (g, w) =
      Inr (replicate n (current_address g), g\<lparr>current_address_life_time := l\<rparr>, w)) \<and>
    address_run e (life_left g) (g, w) =
      Inr (replicate (life_left g) (current_address g),
           g\<lparr>current_address := word_of_int (r1 smod (uint (address_max g) - uint (address_min g)) + uint (address_min g)),
             current_address_life_time := ucast ((word_of_int r2 :: u32) mod address_max_life_time g)\<rparr>, w2) \<and>
    life_left g = (if current_address_life_time g = 0 then 256 else unat (current_address_life_time g))"
proof -
  have "uint (address_max g) - uint (address_min g) \<noteq> 0" using assms(1) by (simp add: word_less_def)
  then have "choose_new_random_address e (g, w) =
      Inr (g\<lparr>current_address := word_of_int (r1 smod (uint (address_max g) - uint (address_min g)) + uint (address_min g)),
             current_address_life_time := ucast ((word_of_int r2 :: u32) mod address_max_life_time g)\<rparr>, w2)"
    using assms(2-4) by (simp add: choose_new_random_address_def)
  then show ?thesis
    using address_run_renews [of e g w] address_run_same [of _ g e w] life_left_def [of g] by blast
qed

theorem address_life_witness:
  "address_run sample_env 4 (sample_stream, 1) =
     Inr ([2, 2, 2, 2], sample_stream\<lparr>current_address := 5, current_address_life_time := 4\<rparr>, 3)"
proof -
  have g: "address_min sample_stream = 2" "address_max sample_stream = 6"
    "address_max_life_time sample_stream = 5" "current_address sample_stream = 2"
    "current_address_life_time sample_stream = 4"
    by (simp_all add: sample_stream_def set_period_def make_stream_def)
  have e: "env_rand sample_env 1 = (7, 2)" "env_rand sample_env 2 = (14, 3)"
    by (simp_all add: sample_env_def plain_env_def)
  have l: "life_left sample_stream = 4" by (simp add: life_left_def g)
  have r: "replicate 4 (2 :: u8) = [2, 2, 2, 2]" by (simp add: numeral_eq_Suc)
  have m: "(word_of_int 14 :: u32) mod 5 = 4" "ucast (4 :: u32) = (4 :: u8)"
    "(7 :: int) smod (uint (6 :: u8) - uint (2 :: u8)) + uint (2 :: u8) = 5" by simp_all
  have "address_min sample_stream < address_max sample_stream"
    "address_max_life_time sample_stream \<noteq> 0" by (simp_all add: g)
  from address_life [OF this e] show ?thesis unfolding g l r m by simp
qed

section \<open>Rates\<close>

text \<open>
  C12: The stream generator emits at most one packet per period: whatever the interleaving of
  the clock and of the handshake, the packets emitted times the period never exceed the
  positive edges counted, the offset included.
\<close>

theorem stream_rate:
  assumes "gen_run (stream_resume e) evs (pc, g, w) = Inr (ps, pc', g', w')"
  shows "length ps * unat (period g) \<le> unat (clock_count g) + edges evs"
  using stream_budget [OF assms] by simp

text \<open>Three counted edges, then the thread emits; two more edges are not enough for the next.\<close>

definition sample_events :: "gen_event list" where
  "sample_events = [Count_edge, Resume, Count_edge, Resume, Count_edge, Resume, Resume, Resume, Resume,
     Count_edge, Resume, Count_edge, Resume]"

theorem stream_rate_witness:
  "\<exists>ps st. gen_run (stream_resume sample_env) sample_events (G_start, sample_stream, 0) = Inr (ps, st) \<and>
    length ps * 3 \<le> 5"
proof -
  obtain ps pc' g' w' where r: "gen_run (stream_resume sample_env) sample_events (G_start, sample_stream, 0) =
      Inr (ps, pc', g', w')"
    using stream_run_ok [OF sample_env_ok sample_ok(1), of sample_events G_start 0] by auto
  have "unat (period sample_stream) = 3" "clock_count sample_stream = 0" "edges sample_events = 5"
    by (simp_all add: sample_stream_def set_period_def make_stream_def sample_events_def)
  with stream_rate [OF r] r show ?thesis by auto
qed

text \<open>
  The burst generator emits at most \<open>(burst_length - 1) / short_period + 1\<close> packets per long
  period: over any run, packets times the long period are at most that number times the edges
  counted plus one long period.
\<close>

theorem burst_rate:
  assumes "gen_run (burst_resume e) evs (pc, g, w) = Inr (ps, pc', g', w')"
    and "current_packet_count g = 0"
  shows "length ps * unat (long_period g) \<le>
    burst_cap g * (unat (clock_count g) + edges evs) + burst_cap g * unat (long_period g)"
proof -
  have "unat (current_packet_count g) \<le> burst_cap g" using assms(2) by simp
  from burst_budget [OF assms(1) this] show ?thesis by linarith
qed

theorem burst_rate_witness:
  "\<exists>ps st. gen_run (burst_resume sample_env) sample_events (G_start, sample_burst, 0) = Inr (ps, st) \<and>
    length ps * 10 \<le> 3 * 5 + 3 * 10"
proof -
  have "short_period sample_burst \<noteq> 0" by (simp add: sample_burst_def set_burst_def)
  note run = burst_run_ok [OF sample_env_ok sample_ok(2) this, of sample_events G_start 0]
  obtain ps pc' g' w' where r: "gen_run (burst_resume sample_env) sample_events (G_start, sample_burst, 0) =
      Inr (ps, pc', g', w')"
    using run by auto
  have "unat (5 :: u32) = 5" "unat (2 :: u32) = 2" "unat (10 :: u32) = 10" by simp_all
  then have "burst_cap sample_burst = 3" "unat (long_period sample_burst) = 10"
    "clock_count sample_burst = 0" "edges sample_events = 5" "current_packet_count sample_burst = 0"
    by (simp_all add: burst_cap_def sample_burst_def set_burst_def make_burst_def sample_events_def)
  with burst_rate [OF r] r show ?thesis by auto
qed

section \<open>No fault\<close>

text \<open>
  A generator as the test bench sets it up: built with arbitrary contents in the fields the
  constructor leaves uninitialised, then given its range of addresses.
\<close>

lemma set_address_properties_ok:
  assumes "rand_ok e" and "mn < mx" and "life \<noteq> 0"
  shows "\<exists>a l w1. set_address_properties e mn mx life (g, w) =
      Inr (g\<lparr>address_min := mn, address_max := mx, address_max_life_time := life,
        current_address := a, current_address_life_time := l\<rparr>, w1) \<and>
    gen_ok mn mx (g\<lparr>address_min := mn, address_max := mx, address_max_life_time := life,
        current_address := a, current_address_life_time := l\<rparr>)"
proof -
  let ?g = "g\<lparr>address_min := mn, address_max := mx, address_max_life_time := life\<rparr>"
  have lt: "address_min ?g < address_max ?g" "address_max_life_time ?g \<noteq> 0" using assms(2,3) by simp_all
  obtain a l w1 where c: "choose_new_random_address e (?g, w) =
      Inr (?g\<lparr>current_address := a, current_address_life_time := l\<rparr>, w1)"
    using choose_new_random_address_eq [OF lt, of e w] by blast
  with choose_new_random_address_range [OF assms(1) lt(1) c] show ?thesis
    by (auto simp: set_address_properties_def gen_ok_def)
qed

lemma gen_ok_setters [simp]:
  "gen_ok mn mx (set_period p g) = gen_ok mn mx g"
  "gen_ok mn mx (set_burst l s b h) = gen_ok mn mx h"
  by (simp_all add: gen_ok_def address_range_def set_period_def set_burst_def)

text \<open>
  C13: The generators never fault, and every packet they ever emit carries an address of the
  range. A generator is built with any contents in its uninitialised fields and given a
  non-empty range and a life time; then any interleaving of clock edges and resumptions of its
  thread runs to its end and emits packets of that range only: the stream generator for every
  period, the burst generator for every setting whose short period is not 0. With a short
  period of 0 and a burst of any length the first activation divides by zero.
\<close>

theorem generators_never_fault:
  assumes "rand_ok e" and "created_ok e" and "mn < mx" and "life \<noteq> 0"
  shows "(\<exists>g w1. set_address_properties e mn mx life (make_stream ml a l, w) = Inr (g, w1) \<and>
      (\<forall>p evs. \<exists>ps st. gen_run (stream_resume e) evs (G_start, set_period p g, w1) = Inr (ps, st) \<and>
        (\<forall>q\<in>set ps. mn \<le> address q \<and> address q < mx))) \<and>
    (\<exists>g w1. set_address_properties e mn mx life (make_burst ml a l, w) = Inr (g, w1) \<and>
      (\<forall>lp sp b evs. sp \<noteq> 0 \<longrightarrow>
        (\<exists>ps st. gen_run (burst_resume e) evs (G_start, set_burst lp sp b g, w1) = Inr (ps, st) \<and>
          (\<forall>q\<in>set ps. mn \<le> address q \<and> address q < mx))) \<and>
      (\<forall>lp b. b \<noteq> 0 \<longrightarrow>
        gen_run (burst_resume e) [Resume, Resume] (G_start, set_burst lp 0 b g, w1) = Inl Div_by_zero))"
proof (intro conjI)
  note built = set_address_properties_ok [OF assms(1,3,4)]
  show "\<exists>g w1. set_address_properties e mn mx life (make_stream ml a l, w) = Inr (g, w1) \<and>
      (\<forall>p evs. \<exists>ps st. gen_run (stream_resume e) evs (G_start, set_period p g, w1) = Inr (ps, st) \<and>
        (\<forall>q\<in>set ps. mn \<le> address q \<and> address q < mx))"
  proof -
    obtain g w1 where s: "set_address_properties e mn mx life (make_stream ml a l, w) = Inr (g, w1)"
      and ok: "gen_ok mn mx g" using built [of "make_stream ml a l" w] by blast
    have "gen_ok mn mx (set_period p g)" for p using ok by simp
    from stream_run_ok [OF assms(1,2) this] s show ?thesis unfolding in_range_def by blast
  qed
  obtain g w1 where s: "set_address_properties e mn mx life (make_burst ml a l, w) = Inr (g, w1)"
    and ok: "gen_ok mn mx g" and cc: "clock_count g = 0"
    using built [of "make_burst ml a l" w] by (force simp: make_burst_def)
  have *: "\<exists>ps st. gen_run (burst_resume e) evs (G_start, set_burst lp sp b g, w1) = Inr (ps, st) \<and>
      (\<forall>q\<in>set ps. mn \<le> address q \<and> address q < mx)" if "sp \<noteq> 0" for lp sp b evs
  proof -
    have "gen_ok mn mx (set_burst lp sp b g)" using ok by simp
    moreover have "short_period (set_burst lp sp b g) \<noteq> 0" using that by (simp add: set_burst_def)
    ultimately show ?thesis using burst_run_ok [OF assms(1,2)] unfolding in_range_def by blast
  qed
  have "gen_run (burst_resume e) [Resume, Resume] (G_start, set_burst lp 0 b g, w1) = Inl Div_by_zero"
    if "b \<noteq> 0" for lp b
    using that cc by (simp add: burst_resume_def set_burst_def no_out_def word_gt_0)
  with s * show "\<exists>g w1. set_address_properties e mn mx life (make_burst ml a l, w) = Inr (g, w1) \<and>
      (\<forall>lp sp b evs. sp \<noteq> 0 \<longrightarrow>
        (\<exists>ps st. gen_run (burst_resume e) evs (G_start, set_burst lp sp b g, w1) = Inr (ps, st) \<and>
          (\<forall>q\<in>set ps. mn \<le> address q \<and> address q < mx))) \<and>
      (\<forall>lp b. b \<noteq> 0 \<longrightarrow>
        gen_run (burst_resume e) [Resume, Resume] (G_start, set_burst lp 0 b g, w1) = Inl Div_by_zero)"
    by blast
qed

theorem generators_never_fault_witness:
  "\<exists>g w1. set_address_properties sample_env 2 6 3 (make_burst 9 200 0, 0) = Inr (g, w1) \<and>
    (\<exists>ps st. gen_run (burst_resume sample_env) sample_events (G_start, set_burst 10 2 5 g, w1) = Inr (ps, st) \<and>
      (\<forall>q\<in>set ps. 2 \<le> address q \<and> address q < 6))"
proof -
  have "(2 :: u8) < 6" "(3 :: u32) \<noteq> 0" "(2 :: u32) \<noteq> 0" by simp_all
  with generators_never_fault [OF sample_env_ok this(1,2), of 9 200 0 0] show ?thesis by blast
qed

end
