(* ===== verification/Channel_Properties.thy ===== *)
theory Channel_Properties
  imports Router Sc_Signal Noc
begin

text \<open>
  What the pieces between the modules promise: the fifos, the signals (and what the comparison
  of packets does to them), the router's push, and the wiring of the network.
\<close>

section \<open>Fifos\<close>

text \<open>
  C28: A fifo keeps order and capacity: whatever the sequence of writes, reads and updates,
  blocked ones included, what has been written is what has been read followed by what is
  stored, and no more is stored than the fifo's size.
\<close>

theorem fifo_keeps_order:
  assumes "fifo_init d n = Inr f"
    and "channel_run (fifo_read d) fifo_write (\<lambda>f. snd (snd (fifo_update f))) ops f = (rs, ws, g)"
  shows "ws = rs @ contents g \<and> int (length (contents g)) \<le> n"
proof -
  have n: "0 < n" using assms(1) fifo_init_spec(1) [of n d] by (cases "n \<le> 0") auto
  with assms(1) fifo_init_spec(2) [OF n, of d] have f: "fifo_wf f" "visible f = []" "pending f = []"
    "m_size f = nat n" by auto
  from fifo.run_order [OF f(1) assms(2)] f have "fifo_wf g" "m_size g = nat n" "ws = rs @ contents g"
    by (simp_all add: contents_split)
  with fifo_wf_stored(1) [of g] n show ?thesis by simp
qed

theorem fifo_keeps_order_witness:
  "\<exists>f rs ws g. fifo_init (0 :: int) 2 = Inr f \<and>
    channel_run (fifo_read 0) fifo_write (\<lambda>f. snd (snd (fifo_update f)))
      [Ch_write 7, Ch_read, Ch_write 8, Ch_write 9, Ch_update, Ch_read] f = (rs, ws, g) \<and>
    ws = rs @ contents g \<and> int (length (contents g)) \<le> 2"
proof -
  obtain f :: "int sc_fifo" where f: "fifo_init 0 2 = Inr f" using fifo_init_spec(2) [of 2 0] by auto
  obtain rs ws g where r: "channel_run (fifo_read 0) fifo_write (\<lambda>f. snd (snd (fifo_update f)))
      [Ch_write 7, Ch_read, Ch_write 8, Ch_write 9, Ch_update, Ch_read] f = (rs, ws, g)"
    by (metis prod_cases3)
  from fifo_keeps_order [OF f r] f r show ?thesis by blast
qed

text \<open>
  Evaluate and update are separate: a written element is not readable and a freed place
  not writable before the next update, which makes everything stored readable and everything
  free writable.
\<close>

theorem fifo_delta_separation:
  assumes "fifo_wf f"
  shows "(fifo_read d f = None \<longleftrightarrow> visible f = []) \<and>
    (\<forall>g. fifo_write x f = Some g \<longrightarrow> visible g = visible f \<and> num_free g = num_free f - 1) \<and>
    (\<forall>y g. fifo_read d f = Some (y, g) \<longrightarrow> num_free g = num_free f \<and> visible f = y # visible g) \<and>
    (\<forall>r w g. fifo_update f = (r, w, g) \<longrightarrow> visible g = contents f \<and> pending g = [] \<and>
       num_free g = int (m_size f) - int (length (contents f)))"
proof -
  have "visible g = contents f \<and> pending g = [] \<and> num_free g = int (m_size f) - int (length (contents f))"
    if "fifo_update f = (r, w, g)" for r w g
    using fifo_update_spec [OF assms that] by (simp add: contents_split del: length_contents)
  then show ?thesis
    using fifo_read_spec [OF assms, of d] fifo_write_spec(2) [OF assms, of x] by blast
qed

theorem fifo_delta_separation_witness:
  "\<exists>f g. fifo_init (0 :: int) 2 = Inr f \<and> fifo_write 7 f = Some g \<and> visible g = [] \<and> num_free g = 1"
proof -
  obtain f :: "int sc_fifo" where f: "fifo_init 0 2 = Inr f" "fifo_wf f" "visible f = []" "num_free f = 2"
    using fifo_init_spec(2) [of 2 0] by auto
  then obtain g where "fifo_write 7 f = Some g" using fifo_write_ready [of f 7] by auto
  with fifo_delta_separation [OF f(2), of 0 7] f show ?thesis by auto
qed

text \<open>
  The \<open>do ... while\<close> loop of \<open>print\<close> stops after at most \<open>m_size\<close> rounds and shows exactly
  the elements stored, oldest first, also when the ring is full and both indices coincide.
\<close>

theorem fifo_print_shows_contents:
  assumes "fifo_wf f"
  shows "fifo_print f = contents f"
  by (rule fifo_print_contents [OF assms])

theorem fifo_print_shows_contents_witness:
  "\<exists>f g. fifo_init (0 :: int) 1 = Inr f \<and> fifo_write 7 f = Some g \<and> m_free g = 0 \<and> fifo_print g = [7]"
proof -
  obtain f :: "int sc_fifo" where f: "fifo_init 0 1 = Inr f" "fifo_wf f" "visible f = []" "pending f = []"
    "num_free f = 1" "m_size f = 1" using fifo_init_spec(2) [of 1 0] by auto
  then obtain g where g: "fifo_write 7 f = Some g" using fifo_write_ready [of f 7] by auto
  note w = fifo_write_spec(2) [OF f(2) g]
  then have c: "contents g = [7]" using f by (simp add: contents_split)
  have "m_free g = m_size g - length (contents g)" using fifo_wf_stored(2) [of g] w by simp
  with c f w have "m_free g = 0" by simp
  with fifo_print_shows_contents [of g] w c f g show ?thesis by auto
qed

section \<open>Signals\<close>

text \<open>
  One writer per signal: under the default policy a signal accepts any number of writes
  from one process, and the first write of a second process is reported as an error.
\<close>

theorem signal_single_writer:
  assumes "m_writer_p s \<in> {None, Some p}" and "p \<noteq> q"
  shows "\<exists>s'. signal_write eq SC_ONE_WRITER (Some p) v s = Inr s' \<and> m_new_val s' = v \<and>
    m_writer_p s' \<in> {None, Some p} \<and> signal_write eq SC_ONE_WRITER (Some q) u s' = Inl Sc_report_error"
proof -
  obtain s' where s': "signal_write eq SC_ONE_WRITER (Some p) v s = Inr s'" "m_writer_p s' = Some p"
    "m_new_val s' = v" using one_writer_ok [OF assms(1)] by blast
  with second_writer_fails [OF s'(2) assms(2)] show ?thesis by auto
qed

theorem signal_single_writer_witness:
  "\<exists>s'. signal_write (=) SC_ONE_WRITER (Some 1) True (make_signal False) = Inr s' \<and>
    signal_write (=) SC_ONE_WRITER (Some 2) False s' = Inl Sc_report_error"
  using signal_single_writer [of "make_signal False" 1 2 "(=)" True False] by (auto simp: make_signal_def)

text \<open>
  The edge events of a boolean signal are its edges: the update notifies the positive
  edge if the value goes from false to true, the negative edge if it goes from true to false,
  nothing if it stays, and right after it \<open>posedge()\<close> and \<open>negedge()\<close> say the same.
\<close>

theorem signal_edges_exact:
  assumes "bool_update pol st s = (es, s')" and "m_change_stamp s \<noteq> st"
  shows "(Posedge \<in> set es \<longleftrightarrow> \<not> m_cur_val s \<and> m_new_val s) \<and>
    (Negedge \<in> set es \<longleftrightarrow> m_cur_val s \<and> \<not> m_new_val s) \<and> (es = [] \<longleftrightarrow> m_cur_val s = m_new_val s) \<and>
    (signal_posedge st s' \<longleftrightarrow> Posedge \<in> set es) \<and> (signal_negedge st s' \<longleftrightarrow> Negedge \<in> set es) \<and>
    m_cur_val s' = m_new_val s"
proof -
  have "es = [] \<longleftrightarrow> m_cur_val s = m_new_val s"
    using assms(1) by (auto simp: bool_update_def Let_def policy_update_def split: if_splits writer_policy.splits)
  with bool_update_edges [OF assms(1)] bool_update_observed [OF assms] show ?thesis by blast
qed

theorem signal_edges_exact_witness:
  "\<exists>es s'. bool_update SC_ONE_WRITER 5 (put_value (=) True (make_signal False)) = (es, s') \<and>
    Posedge \<in> set es \<and> signal_posedge 5 s'"
proof -
  let ?s = "put_value (=) True (make_signal False)"
  obtain es s' where u: "bool_update SC_ONE_WRITER 5 ?s = (es, s')" by fastforce
  have "m_change_stamp ?s \<noteq> 5" "\<not> m_cur_val ?s" "m_new_val ?s"
    by (simp_all add: put_value_def make_signal_def)
  with signal_edges_exact [OF u] u show ?thesis by auto
qed

text \<open>
  A signal of packets does not transport the field \<open>extra\<close>: writing a packet with the
  address and the data of the current one changes nothing, no event is notified and the
  reader still sees the old \<open>extra\<close>.
\<close>

theorem equal_packet_keeps_old_extra:
  assumes "packet_eq (m_cur_val s) q" and "\<not> sig_requested s"
  defines "s1 \<equiv> put_value packet_eq q s"
  shows "\<not> sig_requested s1 \<and> fst (signal_update packet_eq SC_ONE_WRITER st s1) = False \<and>
    m_cur_val (snd (signal_update packet_eq SC_ONE_WRITER st s1)) = m_cur_val s"
  using assms(1,2) packet_eq_sym [OF assms(1)]
  by (simp add: s1_def put_value_def signal_update_def policy_update_def Let_def)

theorem equal_packet_keeps_old_extra_witness:
  "extra (m_cur_val (snd (signal_update packet_eq SC_ONE_WRITER 5
     (put_value packet_eq ((make_packet 1 9)\<lparr>extra := Some 8\<rparr>)
       (make_signal ((make_packet 1 9)\<lparr>extra := Some 4\<rparr>)))))) = Some 4"
proof -
  let ?s = "make_signal ((make_packet 1 9)\<lparr>extra := Some 4\<rparr>)"
  have "packet_eq (m_cur_val ?s) ((make_packet 1 9)\<lparr>extra := Some 8\<rparr>)" "\<not> sig_requested ?s"
    "extra (m_cur_val ?s) = Some 4" by (simp_all add: make_signal_def packet_eq_def)
  with equal_packet_keeps_old_extra [of ?s "(make_packet 1 9)\<lparr>extra := Some 8\<rparr>" 5] show ?thesis by simp
qed

section \<open>The router's push\<close>

text \<open>
  The router never overruns a fifo and never drops a packet: with a packet in hand it
  waits, keeping it, while the fifo of its address shows no room, and otherwise writes it (as
  the callback left it) to that fifo and raises the acknowledgement in the same activation.
\<close>

theorem router_waits_or_pushes:
  assumes "marked_ok e" and "unat (address p) < length fs"
  shows "(num_free (fs ! unat (address p)) = 0 \<longrightarrow>
      push_when_room e fs p w = Inr (R_wait_room p, w, no_router_out)) \<and>
    (num_free (fs ! unat (address p)) \<noteq> 0 \<longrightarrow>
      (\<exists>p' w' f'. packet_eq p p' \<and> fifo_write p' (fs ! unat (address p)) = Some f' \<and>
        push_when_room e fs p w = Inr (R_wait_act_neg, w',
          \<lparr>out_push = Some (unat (address p), p', f'), out_ack = Some True\<rparr>)))"
  using push_when_room_waits [OF assms(2), of e w] push_when_room_pushes [OF assms, of w] by blast

theorem router_waits_or_pushes_witness:
  "\<exists>p' w' f'. packet_eq (make_packet 1 9) p' \<and>
    push_when_room (plain_env (\<lambda>_. 0)) [fresh_fifo 1, fresh_fifo 1] (make_packet 1 9) 0 =
      Inr (R_wait_act_neg, w', \<lparr>out_push = Some (1, p', f'), out_ack = Some True\<rparr>)"
proof -
  have e: "marked_ok (plain_env (\<lambda>_. 0))" by (simp add: marked_ok_def plain_env_def)
  have a: "unat (address (make_packet 1 9)) = 1" by (simp add: make_packet_def)
  have "unat (address (make_packet 1 9)) < length [fresh_fifo 1, fresh_fifo 1]" by (simp add: a)
  moreover have "num_free ([fresh_fifo 1, fresh_fifo 1] ! 1) \<noteq> 0" by (simp add: num_free_def fresh_fifo_def)
  ultimately show ?thesis using router_waits_or_pushes [OF e, of "make_packet 1 9" _ 0] unfolding a by blast
qed

section \<open>The wiring\<close>

text \<open>
  A square network is wired as intended: its construction succeeds, port \<open>j\<close> of router
  \<open>i\<close> and port \<open>i\<close> of arbiter \<open>j\<close> are bound to the same fifo, different pairs to different
  fifos, and every fifo has the one writer and the one reader of its pair.
\<close>

theorem square_network_wiring:
  assumes "depth_ok depth" and "0 < n" and "n * n < 2 ^ 32"
  shows "\<exists>m. build n n depth = Inr m \<and> (\<forall>i<n. \<forall>j<n.
    router_ports m (i, j) = Some (n * j + i) \<and> arbiter_ports m (j, i) = Some (n * j + i) \<and>
    m_writer (noc_fifos m ! (n * j + i)) = Some (n * i + j) \<and>
    m_reader (noc_fifos m ! (n * j + i)) = Some (n * j + i))"
proof -
  have "n \<le> n * n" using assms(2) by simp
  then have n: "n < 2 ^ 32" using assms(3) by linarith
  obtain a m where m: "build n n depth = Inr m" "connected depth (all_pairs n n) (net0 n n depth a) m"
    using build_square [OF assms(1,2) n assms(3)] by blast
  have "router_ports m (i, j) = Some (n * j + i) \<and> arbiter_ports m (j, i) = Some (n * j + i) \<and>
    m_writer (noc_fifos m ! (n * j + i)) = Some (n * i + j) \<and>
    m_reader (noc_fifos m ! (n * j + i)) = Some (n * j + i)" if "i < n" "j < n" for i j
  proof -
    have x: "get_fifo n i j = n * j + i" by (rule get_fifo_bound(1) [OF that assms(3)])
    have "router_ports m (i, j) = Some (get_fifo n i j)" "arbiter_ports m (j, i) = Some (get_fifo n i j)"
      using m(2) that by (simp_all add: connected_def net0_def del: split_paired_All)
    with connected_fifo [OF m(2) assms(3) that] x show ?thesis by simp
  qed
  with m(1) show ?thesis by blast
qed

theorem square_network_wiring_witness:
  "\<exists>m. build 3 3 4 = Inr m \<and> router_ports m (1, 2) = Some 7 \<and> arbiter_ports m (2, 1) = Some 7"
proof -
  have "depth_ok 4" "(0::nat) < 3" "(3::nat) * 3 < 2 ^ 32" by (simp_all add: depth_ok_def)
  from square_network_wiring [OF this] obtain m where "build 3 3 4 = Inr m"
    "\<forall>i<3. \<forall>j<3. router_ports m (i, j) = Some (3 * j + i) \<and> arbiter_ports m (j, i) = Some (3 * j + i)"
    by blast
  moreover from this(2) [rule_format, of 1 2] have "router_ports m (1, 2) = Some 7 \<and> arbiter_ports m (2, 1) = Some 7"
    by simp
  ultimately show ?thesis by blast
qed

text \<open>
  Only square networks can be built: the arbiters are created with \<open>_nb_output\<close> input
  ports, so with more inputs than outputs the constructor binds a port outside the array, and
  with fewer the elaboration finds ports bound to nothing.
\<close>

theorem only_square_networks:
  assumes "depth_ok depth" and "0 < no" and "no < 2 ^ 32" and "ni * no < 2 ^ 32"
  shows "build ni no depth = (if ni < no then Inl Sc_report_error
    else if no < ni then Inl Out_of_range else build no no depth) \<and>
    ((\<exists>m. build ni no depth = Inr m) \<longleftrightarrow> ni = no)"
proof -
  have "\<exists>m. build no no depth = Inr m" if "ni = no"
    using build_square [OF assms(1-3)] assms(4) that by blast
  with build_result [OF assms] show ?thesis by (cases "ni < no"; cases "no < ni") auto
qed

theorem only_square_networks_witness:
  "build 3 2 4 = Inl Out_of_range \<and> build 2 3 4 = Inl Sc_report_error"
  using only_square_networks [of 4 2 3] only_square_networks [of 4 3 2] by (simp add: depth_ok_def)

text \<open>
  The names of the fifos are not the pairs they connect: because the loop assigns
  \<open>_nb_input\<close> to \<open>j\<close> where it means to compare, every fifo but the first is named
  \<open>fifo_1_<k>\<close>, with \<open>k\<close> its position in the array. The names are distinct all the same.
\<close>

theorem fifo_names_are_positions:
  assumes "0 < ni"
  shows "(\<forall>k<n. name_loop n ni 0 0 ! k = (if k = 0 then (0, 0) else (1, k))) \<and>
    distinct (name_loop n ni 0 0) \<and> length (name_loop n ni 0 0) = n"
  using assms by (auto simp: name_loop_eq nth_Cons' distinct_map inj_on_def)

theorem fifo_names_are_positions_witness:
  "name_loop 4 2 0 0 ! 2 = (1, 2) \<and> distinct (name_loop 4 2 0 0)"
  using fifo_names_are_positions [of 2 4] by auto

end
