(* ===== verification/Tracer.thy ===== *)
theory Tracer
  imports Packet Sc_Signal
begin

text \<open>
  \<open>src/test/packet_tracer.h\<close> and \<open>src/test/packet_tracer.cpp\<close>: the test bench's observer. It
  hangs an object with dates on every packet (\<open>packet.extra\<close>), reads it when the packet
  arrives, counts life and transit times in two maps, and prints their maxima and means. The
  heap is explicit: an address is live from \<open>new\<close> to \<open>delete\<close>, and a use of an address that is
  not live is a fault.
\<close>

section \<open>State\<close>

record packet_extra =
  creation_date :: u64
  fifo_insertion_date :: u64

text \<open>\<open>std::map<unsigned long, unsigned>\<close>: pairs in increasing order of the keys.\<close>

type_synonym packet_time_counter = "(u64 \<times> u32) list"

record tracer =
  input_nb :: u32
  watcher_last_id :: u32
  current_clock_time :: u64
  life_time_counts :: packet_time_counter
  transit_time_counts :: packet_time_counter
  packet_extra_set :: "nat list"
  full_trace :: "(u64 \<times> u64 \<times> u64) list"
  heap :: "nat \<rightharpoonup> packet_extra"

definition make_tracer :: "u32 \<Rightarrow> tracer" where
  "make_tracer n = \<lparr>input_nb = n, watcher_last_id = 0, current_clock_time = 0, life_time_counts = [],
     transit_time_counts = [], packet_extra_set = [], full_trace = [], heap = Map.empty\<rparr>"

section \<open>Callbacks\<close>

text \<open>
  \<open>prepare_packet\<close>: \<open>new packet_extra()\<close> gives the address \<open>a\<close>, any address that is not live.
  The set of pointers is a list without repetitions.
\<close>

definition prepare_packet :: "nat \<Rightarrow> packet \<Rightarrow> tracer \<Rightarrow> packet \<times> tracer" where
  "prepare_packet a p t =
     (let x = \<lparr>creation_date = current_clock_time t, fifo_insertion_date = 0\<rparr>
      in (p\<lparr>extra := Some a\<rparr>,
          t\<lparr>heap := (heap t)(a \<mapsto> x), packet_extra_set := List.insert a (packet_extra_set t)\<rparr>))"

definition load_extra :: "nat \<Rightarrow> tracer \<Rightarrow> packet_extra result" where
  "load_extra a t = (case heap t a of None \<Rightarrow> Inl Dangling_pointer | Some x \<Rightarrow> Inr x)"

definition prepare_packet_insertion_in_fifo :: "packet \<Rightarrow> tracer \<Rightarrow> tracer result" where
  "prepare_packet_insertion_in_fifo p t =
     (case extra p of
        None \<Rightarrow> Inl Assert_failed
      | Some a \<Rightarrow> bind_result (load_extra a t) (\<lambda>x.
          Inr (t\<lparr>heap := (heap t)(a \<mapsto> x\<lparr>fifo_insertion_date := current_clock_time t\<rparr>)\<rparr>)))"

section \<open>Threads\<close>

text \<open>One resumption of \<open>clock_counter\<close>.\<close>

definition tracer_clock :: "tracer \<Rightarrow> tracer" where
  "tracer_clock t = t\<lparr>current_clock_time := current_clock_time t + 1\<rparr>"

text \<open>
  \<open>declare_packet_life_time\<close> and \<open>declare_packet_transit_time\<close> are the same code on the two maps:
  increment the counter of a key that is found, else insert the key with counter 1.
\<close>

fun declare_time :: "u64 \<Rightarrow> packet_time_counter \<Rightarrow> packet_time_counter" where
  "declare_time k [] = [(k, 1)]"
| "declare_time k ((k', n) # m) =
     (if k = k' then (k', n + 1) # m
      else if k < k' then (k, 1) # (k', n) # m
      else (k', n) # declare_time k m)"

definition declare_packet_life_time :: "u64 \<Rightarrow> tracer \<Rightarrow> tracer" where
  "declare_packet_life_time time t = t\<lparr>life_time_counts := declare_time time (life_time_counts t)\<rparr>"

definition declare_packet_transit_time :: "u64 \<Rightarrow> tracer \<Rightarrow> tracer" where
  "declare_packet_transit_time time t = t\<lparr>transit_time_counts := declare_time time (transit_time_counts t)\<rparr>"

definition get_watcher_id :: "tracer \<Rightarrow> u32 \<times> tracer" where
  "get_watcher_id t = (watcher_last_id t, t\<lparr>watcher_last_id := watcher_last_id t + 1\<rparr>)"

text \<open>The body of \<open>input_watcher\<close> after its wait, with the packet read from the input.\<close>

definition watch_packet :: "packet \<Rightarrow> tracer \<Rightarrow> tracer result" where
  "watch_packet p t =
     (case extra p of
        None \<Rightarrow> Inl Assert_failed
      | Some a \<Rightarrow> bind_result (load_extra a t) (\<lambda>x.
          let now = current_clock_time t;
              t1 = declare_packet_life_time (now - creation_date x) t;
              t2 = declare_packet_transit_time (now - fifo_insertion_date x) t1;
              t3 = t2\<lparr>full_trace := full_trace t2 @ [(creation_date x, fifo_insertion_date x, now)]\<rparr>
          in if a \<notin> set (packet_extra_set t3) then Inl Assert_failed
             else Inr (t3\<lparr>packet_extra_set := remove1 a (packet_extra_set t3), heap := (heap t3)(a := None)\<rparr>)))"

text \<open>The thread: it takes its number, then waits for the changes of input \<open>id\<close>.\<close>

datatype watcher_pc = W_start | W_wait nat

definition watcher_resume :: "watcher_pc \<Rightarrow> packet list \<Rightarrow> tracer \<Rightarrow> (watcher_pc \<times> tracer) result" where
  "watcher_resume pc inputs t =
     (case pc of
        W_start \<Rightarrow> (let (n, t') = get_watcher_id t in
          if unat n < unat (input_nb t) then Inr (W_wait (unat n), t') else Inl Out_of_range)
      | W_wait k \<Rightarrow> bind_result (vec_at inputs k) (\<lambda>p.
          bind_result (watch_packet p t) (\<lambda>t'. Inr (W_wait k, t'))))"

section \<open>Statistics\<close>

text \<open>
  The destructor: \<open>rbegin()->first\<close> after the assertion that there is one, and the two sums,
  \<open>unsigned long\<close> and \<open>unsigned\<close>; the quotient of the two is printed.
\<close>

definition max_time :: "packet_time_counter \<Rightarrow> u64 result" where
  "max_time m = (if m = [] then Inl Assert_failed else Inr (fst (last m)))"

definition mean_sums :: "packet_time_counter \<Rightarrow> u64 \<times> u32" where
  "mean_sums m = fold (\<lambda>(k, n) (sum, count). (sum + k * ucast n, count + n)) m (0, 0)"

definition statistics :: "tracer \<Rightarrow> (u64 \<times> (u64 \<times> u32) \<times> u64 \<times> (u64 \<times> u32)) result" where
  "statistics t =
     bind_result (max_time (life_time_counts t)) (\<lambda>ml.
       bind_result (max_time (transit_time_counts t)) (\<lambda>mt.
         Inr (ml, mean_sums (life_time_counts t), mt, mean_sums (transit_time_counts t))))"

text \<open>The lines of the trace file, and the objects deleted at the end.\<close>

definition trace_lines :: "tracer \<Rightarrow> string list" where
  "trace_lines t = map (\<lambda>(c, i, d). show_nat (unat c) @ '','' @ show_nat (unat i) @ '','' @ show_nat (unat d)) (full_trace t)"

definition delete_remaining :: "tracer \<Rightarrow> tracer" where
  "delete_remaining t = fold (\<lambda>a t. t\<lparr>heap := (heap t)(a := None)\<rparr>) (packet_extra_set t) t"

section \<open>The counters are histograms\<close>

definition counter_wf :: "packet_time_counter \<Rightarrow> bool" where
  "counter_wf m \<longleftrightarrow> sorted_wrt (<) (map fst m)"

definition histogram :: "u64 list \<Rightarrow> packet_time_counter \<Rightarrow> bool" where
  "histogram ts m \<longleftrightarrow> counter_wf m \<and> fst ` set m = set ts \<and>
     (\<forall>(k, n)\<in>set m. n = word_of_nat (count_list ts k))"

lemma declare_time_keys: "fst ` set (declare_time k m) = insert k (fst ` set m)"
  by (induction k m rule: declare_time.induct) auto

lemma declare_time_wf: "counter_wf m \<Longrightarrow> counter_wf (declare_time k m)"
proof (induction k m rule: declare_time.induct)
  case (2 k k' n m)
  have "\<forall>x\<in>fst ` set (declare_time k m). k' < x" if "k' < k"
    using 2(2) that by (auto simp: declare_time_keys counter_wf_def)
  with 2 show ?case by (auto simp: counter_wf_def)
qed (simp add: counter_wf_def)

lemma declare_time_set:
  "counter_wf m \<Longrightarrow> (x, c) \<in> set (declare_time k m) \<longleftrightarrow>
    (if x = k then (if k \<in> fst ` set m then (k, c - 1) \<in> set m else c = 1) else (x, c) \<in> set m)"
proof (induction k m rule: declare_time.induct)
  case (2 k k' n m)
  have nk: "k' \<notin> fst ` set m" using 2(2) by (auto simp: counter_wf_def)
  have small: "k < k' \<Longrightarrow> k \<notin> fst ` set m" using 2(2) by (force simp: counter_wf_def)
  have wf: "counter_wf m" using 2(2) by (simp add: counter_wf_def)
  consider "k = k'" | "k < k'" | "\<not> k < k'" "k \<noteq> k'" by blast
  then show ?case
  proof cases
    case 1
    with nk show ?thesis by (force simp: diff_eq_eq)
  next
    case 2
    with small show ?thesis by force
  next
    case 3
    with 2(1) wf show ?thesis by auto
  qed
qed auto

lemma declare_time_histogram:
  assumes "histogram ts m"
  shows "histogram (ts @ [k]) (declare_time k m)"
proof -
  have wf: "counter_wf m" and keys: "fst ` set m = set ts"
    and cnt: "\<And>x n. (x, n) \<in> set m \<Longrightarrow> n = word_of_nat (count_list ts x)"
    using assms by (auto simp: histogram_def)
  have "c = word_of_nat (count_list (ts @ [k]) x)" if "(x, c) \<in> set (declare_time k m)" for x c
  proof (cases "x = k")
    case True
    show ?thesis
    proof (cases "k \<in> fst ` set m")
      case True
      with that \<open>x = k\<close> have "(k, c - 1) \<in> set m" by (simp add: declare_time_set [OF wf])
      with cnt [of k "c - 1"] \<open>x = k\<close> show ?thesis by (simp add: diff_eq_eq add.commute)
    next
      case False
      then have "k \<notin> set ts" using keys by simp
      with that False \<open>x = k\<close> show ?thesis
        by (simp add: declare_time_set [OF wf])
    qed
  next
    case False
    with that cnt [of x c] show ?thesis by (simp add: declare_time_set [OF wf])
  qed
  then show ?thesis
    using declare_time_wf [OF wf] declare_time_keys [of k m] keys by (auto simp: histogram_def)
qed

lemma histogram_nil: "histogram [] []"
  by (simp add: histogram_def counter_wf_def)

lemma histogram_fold: "histogram ts (fold declare_time ts [])"
proof (induction ts rule: rev_induct)
  case (snoc k ts)
  then show ?case using declare_time_histogram by simp
qed (simp add: histogram_nil)

lemma counter_last_max:
  assumes "counter_wf m" "m \<noteq> []"
  shows "fst (last m) \<in> fst ` set m \<and> (\<forall>k\<in>fst ` set m. k \<le> fst (last m))"
  using assms
proof (induction m)
  case (Cons x m)
  show ?case
  proof (cases "m = []")
    case False
    have "counter_wf m" "\<forall>k\<in>fst ` set m. fst x < k" using Cons.prems(1) by (auto simp: counter_wf_def)
    with Cons.IH False show ?thesis by fastforce
  qed simp
qed simp

lemma mean_sums_eq:
  "mean_sums m = ((\<Sum>x\<leftarrow>m. fst x * ucast (snd x)), (\<Sum>x\<leftarrow>m. snd x))"
proof -
  have "fold (\<lambda>(k, n) (sum, count). (sum + k * ucast n, count + n)) m (s, c) =
      (s + (\<Sum>x\<leftarrow>m. fst x * ucast (snd x)), c + (\<Sum>x\<leftarrow>m. snd x))" for s :: u64 and c :: u32
    by (induction m arbitrary: s c) (simp_all add: case_prod_unfold add.assoc)
  then show ?thesis by (simp add: mean_sums_def)
qed

end
