(* ===== verification/Tracer_Properties.thy ===== *)
theory Tracer_Properties
  imports Tracer
begin

text \<open>
  What the packet tracer promises: exact statistics, exact dates and no leak for packets that
  reach it once, and what goes wrong when a signal swallows a packet equal to the one before.
\<close>

section \<open>Statistics\<close>

text \<open>Adding one time adds it to the sum and one to the count, as long as its counter does not wrap.\<close>

lemma ucast_increment: "(n :: u32) \<noteq> - 1 \<Longrightarrow> (ucast (n + 1) :: u64) = ucast n + 1"
proof -
  assume "n \<noteq> - 1"
  then have "1 + n \<noteq> 0" by (metis add.inverse_unique)
  then have "unat (n + 1) = Suc (unat n)" by (simp add: unatSuc add.commute)
  then have "(word_of_nat (unat (n + 1)) :: u64) = word_of_nat (unat n) + 1" by simp
  then show ?thesis by (simp only: of_nat_unat)
qed

lemma weighted_sum_declare:
  "counter_wf m \<Longrightarrow> \<forall>(k', n)\<in>set m. n \<noteq> - 1 \<Longrightarrow>
    (\<Sum>x\<leftarrow>declare_time k m. fst x * ucast (snd x)) = (\<Sum>x\<leftarrow>m. fst x * ucast (snd x)) + (k :: u64)"
proof (induction k m rule: declare_time.induct)
  case (2 k k' n m)
  then have "(ucast (n + 1) :: u64) = ucast n + 1" by (simp add: ucast_increment)
  then have "k' * ucast (n + 1) = k' * ucast n + k'" by (simp only: distrib_left mult_1_right)
  with 2 show ?case by (simp add: counter_wf_def add.commute add.left_commute)
qed simp

lemma count_sum_declare:
  "(\<Sum>x\<leftarrow>declare_time k m. snd x) = (\<Sum>x\<leftarrow>m. snd x) + 1"
  by (induction k m rule: declare_time.induct) (simp_all add: add.commute add.left_commute)

lemma mean_sums_declare:
  assumes "counter_wf m" "\<forall>(k', n)\<in>set m. n \<noteq> - 1" "mean_sums m = (s, c)"
  shows "mean_sums (declare_time k m) = (s + k, c + 1)"
  using assms(3) weighted_sum_declare [OF assms(1,2), of k] count_sum_declare [of k m]
  by (simp add: mean_sums_eq)

lemma histogram_sums:
  assumes "length ts < 2 ^ 32"
  shows "mean_sums (fold declare_time ts []) = (sum_list ts, word_of_nat (length ts))"
  using assms
proof (induction ts rule: rev_induct)
  case Nil
  then show ?case by (simp add: mean_sums_def)
next
  case (snoc k ts)
  let ?m = "fold declare_time ts []"
  have h: "histogram ts ?m" by (rule histogram_fold)
  have "n \<noteq> - 1" if "(k', n) \<in> set ?m" for k' n
  proof -
    have n: "n = word_of_nat (count_list ts k')" using h that by (auto simp: histogram_def)
    have "count_list ts k' + 1 < 2 ^ 32" using count_le_length [of ts k'] snoc.prems by simp
    then have "unat n + 1 < 2 ^ LENGTH(32)" by (simp add: n unat_of_nat take_bit_eq_mod)
    then show ?thesis by (auto simp: unsigned_minus_1_eq_mask mask_eq_exp_minus_1)
  qed
  then have "\<forall>(k', n)\<in>set ?m. n \<noteq> - 1" by blast
  moreover have "counter_wf ?m" using h by (simp add: histogram_def)
  moreover have "mean_sums ?m = (sum_list ts, word_of_nat (length ts))" using snoc by simp
  ultimately have "mean_sums (declare_time k ?m) = (sum_list ts + k, word_of_nat (length ts) + 1)"
    by (intro mean_sums_declare)
  then show ?case by (simp add: add.commute)
qed

lemma unat_sum_list:
  "(\<Sum>k\<leftarrow>ts. unat k) < 2 ^ 64 \<Longrightarrow> unat (sum_list ts :: u64) = (\<Sum>k\<leftarrow>ts. unat k)"
proof (induction ts)
  case (Cons k ts)
  then have "unat (sum_list ts) = (\<Sum>k\<leftarrow>ts. unat k)" by simp
  moreover from this Cons.prems have "unat k + unat (sum_list ts) < 2 ^ 64" by simp
  ultimately show ?case by (subst sum_list.Cons, subst unat_add_lem [THEN iffD1]) simp_all
qed simp

text \<open>
  The statistics are exact: when the times \<open>ts\<close> have been declared in any order, the
  maximum printed is their maximum, and the two sums whose quotient is the mean are their sum
  and their number, provided these fit the 64 and 32 bits they are computed in.
\<close>

theorem statistics_exact:
  assumes "ts \<noteq> []" and "length ts < 2 ^ 32" and "(\<Sum>k\<leftarrow>ts. unat k) < 2 ^ 64"
  shows "\<exists>mx sum count. max_time (fold declare_time ts []) = Inr mx \<and> mx \<in> set ts \<and> (\<forall>k\<in>set ts. k \<le> mx) \<and>
    mean_sums (fold declare_time ts []) = (sum, count) \<and> unat sum = (\<Sum>k\<leftarrow>ts. unat k) \<and> unat count = length ts"
proof -
  let ?m = "fold declare_time ts []"
  have h: "histogram ts ?m" by (rule histogram_fold)
  then have ne: "?m \<noteq> []" using assms(1) by (auto simp: histogram_def)
  have keys: "fst ` set ?m = set ts" and wf: "counter_wf ?m" using h by (simp_all add: histogram_def)
  have "fst (last ?m) \<in> set ts \<and> (\<forall>k\<in>set ts. k \<le> fst (last ?m))"
    using counter_last_max [OF wf ne] unfolding keys .
  then show ?thesis
    using ne histogram_sums [OF assms(2)] unat_sum_list [OF assms(3)] assms(2) by (simp add: max_time_def)
qed

theorem statistics_exact_witness:
  "\<exists>mx sum count. max_time (fold declare_time [12, 7, 12, 30] []) = Inr mx \<and> mx = 30 \<and>
    mean_sums (fold declare_time [12, 7, 12, 30] []) = (sum, count) \<and> unat sum = 61 \<and> unat count = 4"
proof -
  have "[12, 7, 12, 30 :: u64] \<noteq> []" "length [12, 7, 12, 30 :: u64] < 2 ^ 32"
    "(\<Sum>k\<leftarrow>[12, 7, 12, 30 :: u64]. unat k) < 2 ^ 64" by simp_all
  from statistics_exact [OF this] obtain mx sm ct where
    s: "max_time (fold declare_time [12, 7, 12, 30] []) = Inr mx" "mx \<in> set [12, 7, 12, 30]"
      "\<forall>k\<in>set [12, 7, 12, 30]. k \<le> mx" "mean_sums (fold declare_time [12, 7, 12, 30] []) = (sm, ct)"
      "unat sm = (\<Sum>k\<leftarrow>[12, 7, 12, 30 :: u64]. unat k)" "unat ct = length [12, 7, 12, 30 :: u64]" by blast
  from s(2,3) have "mx = 30" by auto
  with s show ?thesis by simp
qed

section \<open>Life of a packet\<close>

text \<open>The objects not yet deleted are the ones in the set.\<close>

definition tracer_ok :: "tracer \<Rightarrow> bool" where
  "tracer_ok t \<longleftrightarrow> distinct (packet_extra_set t) \<and> set (packet_extra_set t) = dom (heap t)"

lemma tracer_clock_iterate:
  "(tracer_clock ^^ n) t = t\<lparr>current_clock_time := current_clock_time t + word_of_nat n\<rparr>"
  by (induction n) (auto simp: tracer_clock_def algebra_simps)

lemma prepare_packet_ok:
  "tracer_ok t \<Longrightarrow> tracer_ok (snd (prepare_packet a p t))"
  by (auto simp: tracer_ok_def prepare_packet_def Let_def)

lemma insertion_ok:
  "tracer_ok t \<Longrightarrow> prepare_packet_insertion_in_fifo p t = Inr t' \<Longrightarrow> tracer_ok t'"
  by (auto simp: tracer_ok_def prepare_packet_insertion_in_fifo_def load_extra_def bind_result_eq_Inr
      split: option.splits if_splits)

lemma watch_eq:
  assumes "tracer_ok t" "extra p = Some a" "heap t a = Some x"
  shows "watch_packet p t = Inr (t\<lparr>
      life_time_counts := declare_time (current_clock_time t - creation_date x) (life_time_counts t),
      transit_time_counts := declare_time (current_clock_time t - fifo_insertion_date x) (transit_time_counts t),
      full_trace := full_trace t @ [(creation_date x, fifo_insertion_date x, current_clock_time t)],
      packet_extra_set := remove1 a (packet_extra_set t), heap := (heap t)(a := None)\<rparr>)"
proof -
  have "a \<in> set (packet_extra_set t)" using assms(1,3) by (auto simp: tracer_ok_def)
  then show ?thesis
    using assms(2,3) by (simp add: watch_packet_def load_extra_def Let_def
        declare_packet_life_time_def declare_packet_transit_time_def)
qed

lemma watch_ok:
  assumes "tracer_ok t" "extra p = Some a" "heap t a = Some x" "watch_packet p t = Inr t'"
  shows "tracer_ok t'"
proof -
  have "heap t' = (heap t)(a := None)" "packet_extra_set t' = remove1 a (packet_extra_set t)"
    using watch_eq [OF assms(1-3)] assms(4) by auto
  with assms(1) show ?thesis by (auto simp: tracer_ok_def dom_def)
qed

text \<open>
  C33: The dates of a packet: a packet created at date \<open>T\<close>, pushed \<open>n\<close> cycles and delivered
  \<open>n + m\<close> cycles later is traced with exactly these three dates, its life time \<open>n + m\<close> and its
  transit time \<open>m\<close> are counted, and the object allocated for it is deleted: the heap is what it
  was before.
\<close>

theorem packet_life_traced:
  fixes p :: packet
  assumes "tracer_ok t" and "heap t a = None"
  defines "T \<equiv> current_clock_time t"
    and "p1 \<equiv> fst (prepare_packet a p t)" and "t1 \<equiv> snd (prepare_packet a p t)"
  shows "\<exists>t2 t3. prepare_packet_insertion_in_fifo p1 ((tracer_clock ^^ n) t1) = Inr t2 \<and>
    watch_packet p1 ((tracer_clock ^^ m) t2) = Inr t3 \<and>
    full_trace t3 = full_trace t @ [(T, T + word_of_nat n, T + word_of_nat n + word_of_nat m)] \<and>
    life_time_counts t3 = declare_time (word_of_nat n + word_of_nat m) (life_time_counts t) \<and>
    transit_time_counts t3 = declare_time (word_of_nat m) (transit_time_counts t) \<and>
    heap t3 = heap t \<and> tracer_ok t3"
proof -
  let ?x = "\<lparr>creation_date = T, fifo_insertion_date = T + word_of_nat n\<rparr>"
  let ?t1 = "(tracer_clock ^^ n) t1"
  have p1: "extra p1 = Some a" by (simp add: p1_def prepare_packet_def Let_def)
  have h1: "heap ?t1 a = Some \<lparr>creation_date = T, fifo_insertion_date = 0\<rparr>" "tracer_ok t1"
    "current_clock_time ?t1 = T + word_of_nat n" "heap ?t1 = heap t1" "heap t1 = (heap t)(a \<mapsto> \<lparr>creation_date = T, fifo_insertion_date = 0\<rparr>)"
    using prepare_packet_ok [OF assms(1), of a p]
    by (simp_all add: t1_def T_def tracer_clock_iterate prepare_packet_def Let_def)
  define t2 where "t2 = ?t1\<lparr>heap := (heap ?t1)(a \<mapsto> ?x)\<rparr>"
  have ins: "prepare_packet_insertion_in_fifo p1 ?t1 = Inr t2"
    using p1 h1 by (simp add: prepare_packet_insertion_in_fifo_def load_extra_def t2_def)
  have ok1: "tracer_ok ?t1" using h1(2) by (simp add: tracer_ok_def tracer_clock_iterate)
  let ?t2 = "(tracer_clock ^^ m) t2"
  have ok2: "tracer_ok ?t2"
    using insertion_ok [OF ok1 ins] by (simp add: tracer_ok_def tracer_clock_iterate)
  have h2: "heap ?t2 a = Some ?x" "current_clock_time ?t2 = T + word_of_nat n + word_of_nat m"
    "full_trace ?t2 = full_trace t" "life_time_counts ?t2 = life_time_counts t"
    "transit_time_counts ?t2 = transit_time_counts t" "(heap ?t2)(a := None) = heap t"
    using h1 assms(2)
    by (simp_all add: t2_def tracer_clock_iterate t1_def prepare_packet_def Let_def fun_eq_iff)
  note w = watch_eq [OF ok2 p1 h2(1)]
  note ok3 = watch_ok [OF ok2 p1 h2(1) w]
  show ?thesis
    by (rule exI [of _ t2], rule exI, rule conjI [OF ins], rule conjI [OF w])
      (use ok3 h2 in \<open>simp add: algebra_simps\<close>)
qed

theorem packet_life_traced_witness:
  "\<exists>t2 t3. prepare_packet_insertion_in_fifo (fst (prepare_packet 7 empty_packet (make_tracer 1)))
      ((tracer_clock ^^ 3) (snd (prepare_packet 7 empty_packet (make_tracer 1)))) = Inr t2 \<and>
    watch_packet (fst (prepare_packet 7 empty_packet (make_tracer 1))) ((tracer_clock ^^ 5) t2) = Inr t3 \<and>
    full_trace t3 = [(0, 3, 8)] \<and> heap t3 = Map.empty"
proof -
  have "tracer_ok (make_tracer 1)" "heap (make_tracer 1) 7 = None"
    by (simp_all add: tracer_ok_def make_tracer_def)
  from packet_life_traced [OF this, of empty_packet 3 5] show ?thesis
    by (force simp: make_tracer_def)
qed

text \<open>
  The end of the tracer leaves nothing allocated: deleting what the set still holds frees
  exactly the remaining objects.
\<close>

theorem remaining_packets_deleted:
  assumes "tracer_ok t"
  shows "heap (delete_remaining t) = Map.empty"
proof -
  have h: "heap (fold (\<lambda>a t. t\<lparr>heap := (heap t)(a := None)\<rparr>) as t) x = (if x \<in> set as then None else heap t x)"
    for as t x by (induction as arbitrary: t) auto
  show ?thesis
  proof
    fix x
    show "heap (delete_remaining t) x = None"
      using assms by (cases "heap t x") (auto simp: delete_remaining_def tracer_ok_def h dom_def)
  qed
qed

theorem remaining_packets_deleted_witness:
  "heap (delete_remaining (snd (prepare_packet 7 empty_packet (make_tracer 1)))) = Map.empty"
proof (rule remaining_packets_deleted)
  show "tracer_ok (snd (prepare_packet 7 empty_packet (make_tracer 1)))"
    by (simp add: tracer_ok_def make_tracer_def prepare_packet_def Let_def)
qed

section \<open>Equal packets in a row\<close>

text \<open>
  C34: Two equal packets in a row make the test bench use a freed object: the input signal
  keeps the first packet, with the address \<open>a\<close> of its object. If the first packet has been
  delivered, its object is deleted, and the marker callback called with what the router reads
  from the input then writes to the freed object instead of the second packet's.
\<close>

theorem repeated_packet_uses_freed_object:
  assumes "packet_eq (m_cur_val s) q" and "\<not> sig_requested s" and "extra (m_cur_val s) = Some a"
    and "tracer_ok t" and "heap t a \<noteq> None" and "watch_packet (m_cur_val s) t = Inr t'"
    and "heap t' b = None" and "b \<noteq> a"
  shows "prepare_packet_insertion_in_fifo
      (m_cur_val (snd (signal_update packet_eq SC_ONE_WRITER st
        (put_value packet_eq (fst (prepare_packet b q t')) s))))
      (snd (prepare_packet b q t')) = Inl Dangling_pointer"
proof -
  obtain x where x: "heap t a = Some x" using assms(5) by auto
  have h: "heap t' a = None" using watch_eq [OF assms(4,3) x] assms(6) by auto
  have q: "packet_eq (m_cur_val s) (fst (prepare_packet b q t'))"
    using assms(1) by (simp add: prepare_packet_def Let_def packet_eq_def)
  have "m_cur_val (snd (signal_update packet_eq SC_ONE_WRITER st
      (put_value packet_eq (fst (prepare_packet b q t')) s))) = m_cur_val s"
    using q packet_eq_sym [OF q] assms(2)
    by (simp add: put_value_def signal_update_def policy_update_def Let_def)
  moreover have "heap (snd (prepare_packet b q t')) a = None"
    using h assms(8) by (simp add: prepare_packet_def Let_def)
  ultimately show ?thesis using assms(3) by (simp add: prepare_packet_insertion_in_fifo_def load_extra_def)
qed

theorem repeated_packet_uses_freed_object_witness:
  "\<exists>t t'. watch_packet ((make_packet 1 9)\<lparr>extra := Some 7\<rparr>) t = Inr t' \<and>
    prepare_packet_insertion_in_fifo
      (m_cur_val (snd (signal_update packet_eq SC_ONE_WRITER 5
        (put_value packet_eq (fst (prepare_packet 8 (make_packet 1 9) t'))
          (make_signal ((make_packet 1 9)\<lparr>extra := Some 7\<rparr>))))))
      (snd (prepare_packet 8 (make_packet 1 9) t')) = Inl Dangling_pointer"
proof -
  let ?p = "(make_packet 1 9)\<lparr>extra := Some 7\<rparr>" and ?t = "snd (prepare_packet 7 (make_packet 1 9) (make_tracer 1))"
  have ok: "tracer_ok ?t" "heap ?t 7 \<noteq> None" "heap ?t 8 = None"
    by (simp_all add: tracer_ok_def make_tracer_def prepare_packet_def Let_def)
  then obtain x where x: "heap ?t 7 = Some x" by auto
  obtain t' where w: "watch_packet ?p ?t = Inr t'" "heap t' 8 = None"
    using watch_eq [OF ok(1) _ x, of ?p] ok(3) by auto
  have s: "packet_eq (m_cur_val (make_signal ?p)) (make_packet 1 9)" "\<not> sig_requested (make_signal ?p)"
    "extra (m_cur_val (make_signal ?p)) = Some 7" "watch_packet (m_cur_val (make_signal ?p)) ?t = Inr t'"
    using w by (simp_all add: make_signal_def packet_eq_def)
  from repeated_packet_uses_freed_object [OF s(1-3) ok(1,2) s(4) w(2), of 5] w show ?thesis by auto
qed

end
