(* ===== verification/Sc_Pq.thy ===== *)
theory Sc_Pq
  imports Prelude
begin

text \<open>
  \<open>sysc/utils/sc_pq.h\<close> and \<open>sc_pq.cpp\<close>: the priority queue of the timed events, a binary heap in
  an array of pointers whose entry 0 is not used and which grows by half when it is full. The
  comparison function is a parameter, as in the code: \<open>cmp x y > 0\<close> says that \<open>x\<close> comes before \<open>y\<close>.
\<close>

section \<open>State\<close>

text \<open>An entry that has not been assigned is \<open>None\<close>; reading it as an element is a fault.\<close>

record 'a ppq =
  m_heap :: "'a option list"
  m_size_alloc :: nat
  m_heap_size :: nat

definition make_ppq :: "int \<Rightarrow> 'a ppq" where
  "make_ppq sz = (let n = (if sz < 2 then 2 else nat sz)
     in \<lparr>m_heap = replicate (n + 1) None, m_size_alloc = n, m_heap_size = 0\<rparr>)"

definition heap_at :: "'a option list \<Rightarrow> nat \<Rightarrow> 'a result" where
  "heap_at h i = bind_result (vec_at h i) (\<lambda>x. case x of None \<Rightarrow> Inl Null_pointer | Some e \<Rightarrow> Inr e)"

definition pq_parent :: "nat \<Rightarrow> nat" where "pq_parent i = i div 2"
definition pq_left :: "nat \<Rightarrow> nat" where "pq_left i = 2 * i"
definition pq_right :: "nat \<Rightarrow> nat" where "pq_right i = 2 * i + 1"

definition ppq_top :: "'a ppq \<Rightarrow> 'a result" where
  "ppq_top q = heap_at (m_heap q) 1"

definition ppq_size :: "'a ppq \<Rightarrow> nat" where
  "ppq_size q = m_heap_size q"

definition ppq_empty :: "'a ppq \<Rightarrow> bool" where
  "ppq_empty q \<longleftrightarrow> m_heap_size q = 0"

section \<open>Sifting down\<close>

text \<open>The entry of the greatest among \<open>i\<close> and its children, of which the left one exists.\<close>

definition pick_largest :: "('a \<Rightarrow> 'a \<Rightarrow> int) \<Rightarrow> nat \<Rightarrow> nat \<Rightarrow> 'a option list \<Rightarrow> nat result" where
  "pick_largest cmp n i h =
     bind_result (heap_at h (pq_left i)) (\<lambda>x. bind_result (heap_at h i) (\<lambda>y.
       let largest = (if cmp x y > 0 then pq_left i else i); r = pq_right i
       in if r \<le> n
          then bind_result (heap_at h r) (\<lambda>z. bind_result (heap_at h largest) (\<lambda>w.
            Inr (if cmp z w > 0 then r else largest)))
          else Inr largest))"

lemma pick_largest_cases:
  "pick_largest cmp n i h = Inr g \<Longrightarrow> g = i \<or> g = pq_left i \<or> (g = pq_right i \<and> pq_right i \<le> n)"
  by (auto simp: pick_largest_def Let_def bind_result_eq_Inr split: if_splits)

lemma bind_result_cong [fundef_cong]:
  "m = m' \<Longrightarrow> (\<And>a. m' = Inr a \<Longrightarrow> f a = f' a) \<Longrightarrow> bind_result m f = bind_result m' f'"
  by (cases m') auto

definition pq_swap :: "nat \<Rightarrow> nat \<Rightarrow> 'a option list \<Rightarrow> 'a option list result" where
  "pq_swap i g h =
     bind_result (vec_at h i) (\<lambda>tmp. bind_result (vec_at h g) (\<lambda>x.
       bind_result (vec_set h i x) (\<lambda>h1. vec_set h1 g tmp)))"

function heapify :: "('a \<Rightarrow> 'a \<Rightarrow> int) \<Rightarrow> nat \<Rightarrow> nat \<Rightarrow> 'a option list \<Rightarrow> 'a option list result" where
  "heapify cmp n i h =
     (if pq_left i \<le> n
      then bind_result (pick_largest cmp n i h) (\<lambda>g.
        if g \<noteq> i then bind_result (pq_swap i g h) (heapify cmp n g) else Inr h)
      else Inr h)"
  by auto
termination
  by (relation "measure (\<lambda>(cmp, n, i, h). Suc n - i)")
    (auto dest!: pick_largest_cases simp: pq_left_def pq_right_def)

declare heapify.simps [simp del]

definition extract_top :: "('a \<Rightarrow> 'a \<Rightarrow> int) \<Rightarrow> 'a ppq \<Rightarrow> ('a \<times> 'a ppq) result" where
  "extract_top cmp q =
     (if m_heap_size q = 0 then Inl Assert_failed
      else bind_result (heap_at (m_heap q) 1) (\<lambda>topelem.
        bind_result (vec_at (m_heap q) (m_heap_size q)) (\<lambda>x.
        bind_result (vec_set (m_heap q) 1 x) (\<lambda>h1.
        bind_result (heapify cmp (m_heap_size q - 1) 1 h1) (\<lambda>h2.
          Inr (topelem, q\<lparr>m_heap := h2, m_heap_size := m_heap_size q - 1\<rparr>))))))"

section \<open>Sifting up\<close>

function pq_up :: "('a \<Rightarrow> 'a \<Rightarrow> int) \<Rightarrow> 'a \<Rightarrow> nat \<Rightarrow> 'a option list \<Rightarrow> 'a option list result" where
  "pq_up cmp e i h =
     (if i > 1
      then bind_result (heap_at h (pq_parent i)) (\<lambda>p.
        if cmp p e < 0 then bind_result (vec_set h i (Some p)) (pq_up cmp e (pq_parent i))
        else vec_set h i (Some e))
      else vec_set h i (Some e))"
  by auto
termination
  by (relation "measure (\<lambda>(cmp, e, i, h). i)") (auto simp: pq_parent_def)

declare pq_up.simps [simp del]

text \<open>The new array when the old one is full: the entries in use are copied, the others are not.\<close>

definition pq_grow :: "nat \<Rightarrow> 'a ppq \<Rightarrow> 'a ppq" where
  "pq_grow used q =
     (let n = m_size_alloc q + m_size_alloc q div 2
      in q\<lparr>m_size_alloc := n,
           m_heap := map (\<lambda>j. if 1 \<le> j \<and> j < used then m_heap q ! j else None) [0..<n + 1]\<rparr>)"

definition ppq_insert :: "('a \<Rightarrow> 'a \<Rightarrow> int) \<Rightarrow> 'a \<Rightarrow> 'a ppq \<Rightarrow> 'a ppq result" where
  "ppq_insert cmp e q =
     (let n = m_heap_size q + 1;
          q1 = (if n > m_size_alloc q then pq_grow n q else q)
      in bind_result (pq_up cmp e n (m_heap q1)) (\<lambda>h.
           Inr (q1\<lparr>m_heap := h, m_heap_size := n\<rparr>)))"

section \<open>The contract of a priority queue\<close>

text \<open>A comparison function orders its arguments: a total preorder, seen through signs.\<close>

locale comparison =
  fixes cmp :: "'a \<Rightarrow> 'a \<Rightarrow> int"
  assumes cmp_swap: "cmp x y < 0 \<longleftrightarrow> 0 < cmp y x"
    and cmp_trans: "0 \<le> cmp x y \<Longrightarrow> 0 \<le> cmp y z \<Longrightarrow> 0 \<le> cmp x z"
begin

lemma cmp_total: "0 \<le> cmp x y \<or> 0 \<le> cmp y x"
  using cmp_swap [of x y] by linarith

lemma cmp_refl: "0 \<le> cmp x x"
  using cmp_total by blast

lemma cmp_not_less: "\<not> cmp x y < 0 \<longleftrightarrow> 0 \<le> cmp x y"
  by linarith

lemma cmp_pos: "0 < cmp x y \<Longrightarrow> 0 \<le> cmp x y"
  by simp

lemma cmp_not_pos: "\<not> 0 < cmp x y \<Longrightarrow> 0 \<le> cmp y x"
  using cmp_swap [of y x] by linarith

end

locale priority_queue = comparison cmp for cmp :: "'a \<Rightarrow> 'a \<Rightarrow> int" +
  fixes pq_insert :: "'a \<Rightarrow> 'q \<Rightarrow> 'q result"
    and pq_extract :: "'q \<Rightarrow> ('a \<times> 'q) result"
    and pq_top :: "'q \<Rightarrow> 'a result"
    and pq_elems :: "'q \<Rightarrow> 'a multiset"
    and pq_inv :: "'q \<Rightarrow> bool"
  assumes insert_law: "pq_inv q \<Longrightarrow> \<exists>q'. pq_insert x q = Inr q' \<and> pq_inv q' \<and> pq_elems q' = add_mset x (pq_elems q)"
    and extract_law: "pq_inv q \<Longrightarrow> pq_elems q \<noteq> {#} \<Longrightarrow>
      \<exists>x q'. pq_extract q = Inr (x, q') \<and> pq_top q = Inr x \<and> pq_inv q' \<and>
        pq_elems q = add_mset x (pq_elems q') \<and> (\<forall>y\<in>#pq_elems q. 0 \<le> cmp x y)"
begin

text \<open>Taking out \<open>n\<close> elements gives the first \<open>n\<close> in the order of the comparison.\<close>

fun take_out :: "nat \<Rightarrow> 'q \<Rightarrow> ('a list \<times> 'q) result" where
  "take_out 0 q = Inr ([], q)"
| "take_out (Suc n) q =
     bind_result (pq_extract q) (\<lambda>(x, q'). bind_result (take_out n q') (\<lambda>(xs, q''). Inr (x # xs, q'')))"

fun put_in :: "'a list \<Rightarrow> 'q \<Rightarrow> 'q result" where
  "put_in [] q = Inr q"
| "put_in (x # xs) q = bind_result (pq_insert x q) (put_in xs)"

lemma put_in_elems:
  "pq_inv q \<Longrightarrow> \<exists>q'. put_in xs q = Inr q' \<and> pq_inv q' \<and> pq_elems q' = mset xs + pq_elems q"
proof (induction xs arbitrary: q)
  case (Cons x xs)
  obtain q1 where q1: "pq_insert x q = Inr q1" "pq_inv q1" "pq_elems q1 = add_mset x (pq_elems q)"
    using insert_law [OF Cons.prems] by blast
  from Cons.IH [OF q1(2)] q1 show ?case by auto
qed simp

lemma take_out_length: "take_out n q = Inr (xs, q') \<Longrightarrow> length xs = n"
  by (induction n arbitrary: q xs) (auto simp: bind_result_eq_Inr)

lemma take_out_sorted:
  "pq_inv q \<Longrightarrow> n \<le> size (pq_elems q) \<Longrightarrow>
    \<exists>xs q'. take_out n q = Inr (xs, q') \<and> pq_inv q' \<and> pq_elems q = mset xs + pq_elems q' \<and>
      sorted_wrt (\<lambda>x y. 0 \<le> cmp x y) xs \<and> (\<forall>x\<in>set xs. \<forall>y\<in>#pq_elems q'. 0 \<le> cmp x y)"
proof (induction n arbitrary: q)
  case (Suc n)
  then have "pq_elems q \<noteq> {#}" by auto
  then obtain x q1 where x: "pq_extract q = Inr (x, q1)" "pq_inv q1" "pq_elems q = add_mset x (pq_elems q1)"
    "\<forall>y\<in>#pq_elems q. 0 \<le> cmp x y" using extract_law [OF Suc.prems(1)] by blast
  then have "n \<le> size (pq_elems q1)" using Suc.prems(2) by simp
  from Suc.IH [OF x(2) this] obtain xs q' where r: "take_out n q1 = Inr (xs, q')" "pq_inv q'"
    "pq_elems q1 = mset xs + pq_elems q'" "sorted_wrt (\<lambda>x y. 0 \<le> cmp x y) xs"
    "\<forall>x\<in>set xs. \<forall>y\<in>#pq_elems q'. 0 \<le> cmp x y" by blast
  have "\<forall>y\<in>set xs. 0 \<le> cmp x y" "\<forall>y\<in>#pq_elems q'. 0 \<le> cmp x y" using x(3,4) r(3) by auto
  with x r show ?case by simp
qed simp

end

end
