(* ===== verification/Sc_Pq_Facts.thy ===== *)
theory Sc_Pq_Facts
  imports Sc_Pq
begin

text \<open>
  The binary heap of \<open>sc_pq.cpp\<close> meets the contract of a priority queue, for every comparison
  function that orders its arguments and for every initial size, across the growth of its array.
\<close>

section \<open>The entries in use\<close>

definition key :: "'a option list \<Rightarrow> nat \<Rightarrow> 'a" where
  "key h j = the (h ! j)"

definition filled :: "nat \<Rightarrow> 'a option list \<Rightarrow> bool" where
  "filled n h \<longleftrightarrow> n < length h \<and> (\<forall>j. 1 \<le> j \<and> j \<le> n \<longrightarrow> h ! j \<noteq> None)"

definition pq_list :: "nat \<Rightarrow> 'a option list \<Rightarrow> 'a list" where
  "pq_list n h = map the (take n (drop 1 h))"

lemma length_pq_list [simp]: "n < length h \<Longrightarrow> length (pq_list n h) = n"
  by (simp add: pq_list_def)

lemma pq_list_nth: "n < length h \<Longrightarrow> i < n \<Longrightarrow> pq_list n h ! i = key h (Suc i)"
  by (simp add: pq_list_def key_def)

lemma pq_list_0 [simp]: "pq_list 0 h = []"
  by (simp add: pq_list_def)

lemma heap_at_filled: "filled n h \<Longrightarrow> 1 \<le> j \<Longrightarrow> j \<le> n \<Longrightarrow> heap_at h j = Inr (key h j)"
  by (auto simp: filled_def heap_at_def key_def)

lemma pq_list_update:
  assumes "n < length h" "1 \<le> i" "i \<le> n"
  shows "pq_list n (h[i := Some x]) = (pq_list n h)[i - 1 := x]"
  by (rule nth_equalityI) (use assms in \<open>auto simp: pq_list_nth nth_list_update key_def\<close>)

lemma pq_list_Suc: "Suc n < length h \<Longrightarrow> pq_list (Suc n) h = pq_list n h @ [key h (Suc n)]"
  by (simp add: pq_list_def key_def take_Suc_conv_app_nth)

lemma key_update: "i < length h \<Longrightarrow> key (h[i := Some x]) j = (if j = i then x else key h j)"
  by (simp add: key_def nth_list_update)

section \<open>Sifting down\<close>

definition ordered :: "('a \<Rightarrow> 'a \<Rightarrow> int) \<Rightarrow> nat \<Rightarrow> 'a option list \<Rightarrow> bool" where
  "ordered cmp n h \<longleftrightarrow> (\<forall>j. 2 \<le> j \<and> j \<le> n \<longrightarrow> 0 \<le> cmp (key h (j div 2)) (key h j))"

definition down_ok :: "('a \<Rightarrow> 'a \<Rightarrow> int) \<Rightarrow> nat \<Rightarrow> nat \<Rightarrow> 'a option list \<Rightarrow> bool" where
  "down_ok cmp n i h \<longleftrightarrow>
     (\<forall>j. 2 \<le> j \<and> j \<le> n \<and> j div 2 \<noteq> i \<longrightarrow> 0 \<le> cmp (key h (j div 2)) (key h j)) \<and>
     (\<forall>j. 2 \<le> j \<and> j \<le> n \<and> j div 2 = i \<and> 2 \<le> i \<longrightarrow> 0 \<le> cmp (key h (i div 2)) (key h j))"

lemma swap_eq: "i < length h \<Longrightarrow> g < length h \<Longrightarrow> pq_swap i g h = Inr (h[i := h ! g, g := h ! i])"
  by (simp add: pq_swap_def)

lemma key_swap:
  "i < length h \<Longrightarrow> g < length h \<Longrightarrow>
    key (h[i := h ! g, g := h ! i]) j = (if j = g then key h i else if j = i then key h g else key h j)"
  by (simp add: key_def nth_list_update)

lemma mset_pq_list_swap:
  assumes "filled n h" "1 \<le> i" "i \<le> n" "1 \<le> g" "g \<le> n"
  shows "mset (pq_list n (h[i := h ! g, g := h ! i])) = mset (pq_list n h)"
proof -
  have n: "n < length h" and s: "h ! g = Some (key h g)" "h ! i = Some (key h i)"
    using assms by (auto simp: filled_def key_def)
  let ?L = "pq_list n h"
  have "pq_list n (h[i := h ! g, g := h ! i]) = ?L[i - 1 := ?L ! (g - 1), g - 1 := ?L ! (i - 1)]"
    unfolding s using n assms by (simp add: pq_list_update pq_list_nth)
  then show ?thesis using n assms mset_swap [of "g - 1" ?L "i - 1"] by simp
qed

context comparison
begin

lemma pick_largest_ok:
  assumes "filled n h" "1 \<le> i" "pq_left i \<le> n"
  shows "\<exists>g. pick_largest cmp n i h = Inr g \<and> (g = i \<or> g = 2 * i \<or> g = 2 * i + 1) \<and> g \<le> n \<and>
    (\<forall>c. (c = i \<or> c div 2 = i) \<and> c \<le> n \<longrightarrow> 0 \<le> cmp (key h g) (key h c))"
proof -
  have l: "2 * i \<le> n" using assms(3) by (simp add: pq_left_def)
  define g1 where "g1 = (if cmp (key h (2 * i)) (key h i) > 0 then 2 * i else i)"
  have g1: "1 \<le> g1" "g1 \<le> n" "0 \<le> cmp (key h g1) (key h i)" "0 \<le> cmp (key h g1) (key h (2 * i))"
    using assms(2) l cmp_refl cmp_not_pos cmp_pos by (auto simp: g1_def)
  define g where "g = (if 2 * i + 1 \<le> n \<and> cmp (key h (2 * i + 1)) (key h g1) > 0 then 2 * i + 1 else g1)"
  note at = heap_at_filled [OF assms(1)]
  have "heap_at h (2 * i) = Inr (key h (2 * i))" "heap_at h i = Inr (key h i)" "heap_at h g1 = Inr (key h g1)"
    using assms(2) l g1(1,2) by (simp_all add: at)
  then have "pick_largest cmp n i h = Inr g"
    by (simp only: pick_largest_def pq_left_def pq_right_def Let_def bind_result_Inr g1_def [symmetric])
      (simp add: at g_def)
  moreover have "g = i \<or> g = 2 * i \<or> g = 2 * i + 1" "g \<le> n" using g1(2) by (auto simp: g_def g1_def)
  moreover have g: "0 \<le> cmp (key h g) (key h g1)" "2 * i + 1 \<le> n \<Longrightarrow> 0 \<le> cmp (key h g) (key h (2 * i + 1))"
    using cmp_refl cmp_not_pos cmp_pos by (auto simp: g_def)
  moreover have "0 \<le> cmp (key h g) (key h c)" if "(c = i \<or> c div 2 = i) \<and> c \<le> n" for c
  proof -
    have "c = i \<or> c = 2 * i \<or> c = 2 * i + 1" using that by auto
    then show ?thesis using that g cmp_trans [OF g(1)] g1(3,4) by auto
  qed
  ultimately show ?thesis by blast
qed

lemma down_ok_swap:
  assumes "down_ok cmp n i h" "n < length h" "1 \<le> i" "i \<le> n" "g = 2 * i \<or> g = 2 * i + 1" "g \<le> n"
    and "\<And>c. (c = i \<or> c div 2 = i) \<and> c \<le> n \<Longrightarrow> 0 \<le> cmp (key h g) (key h c)"
  shows "down_ok cmp n g (h[i := h ! g, g := h ! i])"
proof -
  have gi: "g div 2 = i" "i < g" using assms(3,5) by auto
  have k: "key (h[i := h ! g, g := h ! i]) j = (if j = g then key h i else if j = i then key h g else key h j)" for j
    by (rule key_swap) (use assms in auto)
  have d1: "\<And>j. 2 \<le> j \<Longrightarrow> j \<le> n \<Longrightarrow> j div 2 \<noteq> i \<Longrightarrow> 0 \<le> cmp (key h (j div 2)) (key h j)"
    and d2: "2 \<le> i \<Longrightarrow> 0 \<le> cmp (key h (i div 2)) (key h g)"
    using assms(1,5,6) gi by (auto simp: down_ok_def)
  show ?thesis
    unfolding down_ok_def k
  proof (intro conjI allI impI)
    fix j assume j: "2 \<le> j \<and> j \<le> n \<and> j div 2 \<noteq> g"
    consider "j = g" | "j \<noteq> g" "j div 2 = i" | "j = i" | "j \<noteq> g" "j \<noteq> i" "j div 2 \<noteq> i" by blast
    then show "0 \<le> cmp (if j div 2 = g then key h i else if j div 2 = i then key h g else key h (j div 2))
        (if j = g then key h i else if j = i then key h g else key h j)"
    proof cases
      case 1 then show ?thesis using gi assms(4,7) by simp
    next
      case 2
      then have "j \<noteq> i" using j by auto
      then show ?thesis using 2 gi(2) j assms(7) by simp
    next
      case 3
      then have "i div 2 \<noteq> i" "i div 2 \<noteq> g" using j gi(2) by auto
      then show ?thesis using 3 gi(2) j d2 by auto
    next
      case 4 then show ?thesis using j d1 by simp
    qed
  next
    fix j assume j: "2 \<le> j \<and> j \<le> n \<and> j div 2 = g \<and> 2 \<le> g"
    then have "j \<noteq> g" "j \<noteq> i" "j div 2 \<noteq> i" using gi(2) by auto
    then show "0 \<le> cmp (if g div 2 = g then key h i else if g div 2 = i then key h g else key h (g div 2))
        (if j = g then key h i else if j = i then key h g else key h j)"
      using d1 [of j] j gi by auto
  qed
qed

lemma heapify_ok:
  "filled n h \<Longrightarrow> 1 \<le> i \<Longrightarrow> down_ok cmp n i h \<Longrightarrow>
    \<exists>h'. heapify cmp n i h = Inr h' \<and> length h' = length h \<and> filled n h' \<and> ordered cmp n h' \<and>
      mset (pq_list n h') = mset (pq_list n h)"
proof (induction "Suc n - i" arbitrary: i h rule: less_induct)
  case less
  show ?case
  proof (cases "pq_left i \<le> n")
    case False
    then have "\<And>j. j \<le> n \<Longrightarrow> 2 \<le> j \<Longrightarrow> j div 2 \<noteq> i" by (auto simp: pq_left_def)
    then show ?thesis using False less.prems by (subst heapify.simps) (auto simp: ordered_def down_ok_def)
  next
    case True
    have i: "i \<le> n" using True by (simp add: pq_left_def)
    obtain g where g: "pick_largest cmp n i h = Inr g" "g = i \<or> g = 2 * i \<or> g = 2 * i + 1" "g \<le> n"
      "\<And>c. (c = i \<or> c div 2 = i) \<and> c \<le> n \<Longrightarrow> 0 \<le> cmp (key h g) (key h c)"
      using pick_largest_ok [OF less.prems(1,2) True] by blast
    have n: "n < length h" using less.prems(1) by (simp add: filled_def)
    show ?thesis
    proof (cases "g = i")
      case True
      have "ordered cmp n h"
        unfolding ordered_def
      proof (intro allI impI)
        fix j assume j: "2 \<le> j \<and> j \<le> n"
        show "0 \<le> cmp (key h (j div 2)) (key h j)"
          using g(4) [of j] less.prems(3) j True by (cases "j div 2 = i") (auto simp: down_ok_def)
      qed
      then show ?thesis using True \<open>pq_left i \<le> n\<close> g(1) less.prems(1) by (subst heapify.simps) simp
    next
      case False
      let ?h = "h[i := h ! g, g := h ! i]"
      have gt: "i < g" "1 \<le> g" using g(2) False less.prems(2) by auto
      have f: "filled n ?h" using less.prems(1,2) i gt(2) g(3) by (auto simp: filled_def nth_list_update)
      have "down_ok cmp n g ?h"
        by (rule down_ok_swap [OF less.prems(3) n less.prems(2) i _ g(3,4)]) (use g(2) False in auto)
      from less.hyps [OF _ f gt(2) this] diff_less_mono2 [of i g "Suc n"] gt(1) g(3) obtain h' where h':
        "heapify cmp n g ?h = Inr h'" "length h' = length h" "filled n h'" "ordered cmp n h'"
        "mset (pq_list n h') = mset (pq_list n ?h)" by auto
      have "heapify cmp n i h = Inr h'"
        using True g(1) False swap_eq [of i h g] i g(3) n h'(1) by (subst heapify.simps) simp
      then show ?thesis
        using h' mset_pq_list_swap [OF less.prems(1,2) i gt(2) g(3)] by simp
    qed
  qed
qed

lemma ordered_top: "ordered cmp n h \<Longrightarrow> 1 \<le> j \<Longrightarrow> j \<le> n \<Longrightarrow> 0 \<le> cmp (key h 1) (key h j)"
proof (induction j rule: less_induct)
  case (less j)
  show ?case
  proof (cases "j = 1")
    case False
    then have "0 \<le> cmp (key h 1) (key h (j div 2))" using less by auto
    moreover have "0 \<le> cmp (key h (j div 2)) (key h j)" using False less by (auto simp: ordered_def)
    ultimately show ?thesis by (rule cmp_trans)
  qed (simp add: cmp_refl)
qed

end

section \<open>Sifting up\<close>

definition up_ok :: "('a \<Rightarrow> 'a \<Rightarrow> int) \<Rightarrow> 'a \<Rightarrow> nat \<Rightarrow> nat \<Rightarrow> 'a option list \<Rightarrow> bool" where
  "up_ok cmp e n i h \<longleftrightarrow>
     (\<forall>j. 2 \<le> j \<and> j \<le> n \<and> j \<noteq> i \<and> j div 2 \<noteq> i \<longrightarrow> 0 \<le> cmp (key h (j div 2)) (key h j)) \<and>
     (\<forall>j. 2 \<le> j \<and> j \<le> n \<and> j div 2 = i \<longrightarrow> 0 \<le> cmp e (key h j) \<and> (2 \<le> i \<longrightarrow> 0 \<le> cmp (key h (i div 2)) (key h j)))"

text \<open>All entries but the hole \<open>i\<close> are assigned.\<close>

definition holed :: "nat \<Rightarrow> nat \<Rightarrow> 'a option list \<Rightarrow> bool" where
  "holed n i h \<longleftrightarrow> n < length h \<and> (\<forall>j. 1 \<le> j \<and> j \<le> n \<and> j \<noteq> i \<longrightarrow> h ! j \<noteq> None)"

lemma heap_at_holed: "holed n i h \<Longrightarrow> 1 \<le> j \<Longrightarrow> j \<le> n \<Longrightarrow> j \<noteq> i \<Longrightarrow> heap_at h j = Inr (key h j)"
  by (auto simp: holed_def heap_at_def key_def)

context comparison
begin

lemma up_ok_move:
  assumes "up_ok cmp e n i h" "n < length h" "2 \<le> i" "i \<le> n" "cmp (key h (i div 2)) e < 0"
  shows "up_ok cmp e n (i div 2) (h[i := Some (key h (i div 2))])"
proof -
  let ?p = "i div 2"
  have p: "?p \<noteq> i" "1 \<le> ?p" using assms(3) by auto
  have k: "key (h[i := Some (key h ?p)]) j = (if j = i then key h ?p else key h j)" for j
    using assms(2,4) by (simp add: key_update)
  have u1: "\<And>j. 2 \<le> j \<Longrightarrow> j \<le> n \<Longrightarrow> j \<noteq> i \<Longrightarrow> j div 2 \<noteq> i \<Longrightarrow> 0 \<le> cmp (key h (j div 2)) (key h j)"
    and u2: "\<And>j. 2 \<le> j \<Longrightarrow> j \<le> n \<Longrightarrow> j div 2 = i \<Longrightarrow> 0 \<le> cmp (key h ?p) (key h j)"
    using assms(1,3) by (auto simp: up_ok_def)
  have e: "0 \<le> cmp e (key h ?p)" using assms(5) cmp_swap by fastforce
  have gp: "0 \<le> cmp (key h (?p div 2)) (key h ?p)" if "2 \<le> ?p"
    by (rule u1) (use that assms(4) in auto)
  show ?thesis
    unfolding up_ok_def k
  proof (intro conjI allI impI)
    fix j assume "2 \<le> j \<and> j \<le> n \<and> j \<noteq> ?p \<and> j div 2 \<noteq> ?p"
    then show "0 \<le> cmp (if j div 2 = i then key h ?p else key h (j div 2)) (if j = i then key h ?p else key h j)"
      using u1 [of j] u2 [of j] by auto
  next
    fix j assume j: "2 \<le> j \<and> j \<le> n \<and> j div 2 = ?p"
    then have s: "0 \<le> cmp (key h ?p) (if j = i then key h ?p else key h j)"
      using u1 [of j] p(1) cmp_refl by auto
    show "0 \<le> cmp e (if j = i then key h ?p else key h j)" by (rule cmp_trans [OF e s])
    show "0 \<le> cmp (if ?p div 2 = i then key h ?p else key h (?p div 2)) (if j = i then key h ?p else key h j)"
      if "2 \<le> ?p"
    proof -
      have "?p div 2 \<noteq> i" using assms(3) by auto
      then show ?thesis using cmp_trans [OF gp [OF that] s] by simp
    qed
  qed
qed

lemma pq_up_ok:
  "holed n i h \<Longrightarrow> 1 \<le> i \<Longrightarrow> i \<le> n \<Longrightarrow> up_ok cmp e n i h \<Longrightarrow>
    \<exists>h'. pq_up cmp e i h = Inr h' \<and> length h' = length h \<and> filled n h' \<and> ordered cmp n h' \<and>
      mset (pq_list n h') = mset (pq_list n (h[i := Some e]))"
proof (induction i arbitrary: h rule: less_induct)
  case (less i)
  have n: "n < length h" and il: "i < length h" using less.prems(1,3) by (auto simp: holed_def)
  show ?case
  proof (cases "1 < i \<and> cmp (key h (i div 2)) e < 0")
    case False
    let ?h = "h[i := Some e]"
    have f: "filled n ?h" using less.prems(1) il by (auto simp: filled_def holed_def nth_list_update)
    have at: "1 < i \<Longrightarrow> heap_at h (pq_parent i) = Inr (key h (i div 2))"
      using heap_at_holed [OF less.prems(1), of "i div 2"] less.prems(3) by (simp add: pq_parent_def)
    have "ordered cmp n ?h"
      unfolding ordered_def key_update [OF il]
    proof (intro allI impI)
      fix j assume j: "2 \<le> j \<and> j \<le> n"
      have p: "j div 2 \<noteq> j" using j by auto
      show "0 \<le> cmp (if j div 2 = i then e else key h (j div 2)) (if j = i then e else key h j)"
      proof (cases "j = i")
        case True
        then have "\<not> cmp (key h (j div 2)) e < 0" using False j by auto
        then show ?thesis using True p by auto
      next
        case jn: False
        then show ?thesis using less.prems(4) j by (auto simp: up_ok_def)
      qed
    qed
    then show ?thesis using False f at il by (subst pq_up.simps) auto
  next
    case True
    let ?p = "i div 2" and ?h = "h[i := Some (key h (i div 2))]"
    have p: "?p < i" "1 \<le> ?p" "?p \<le> n" "2 \<le> i" using True less.prems(3) by auto
    have at: "heap_at h (pq_parent i) = Inr (key h ?p)"
      using heap_at_holed [OF less.prems(1), of ?p] p by (simp add: pq_parent_def)
    have ho: "holed n ?p ?h" using less.prems(1) il by (auto simp: holed_def nth_list_update)
    have up: "up_ok cmp e n ?p ?h" using up_ok_move [OF less.prems(4) n p(4) less.prems(3)] True by simp
    obtain h' where h': "pq_up cmp e ?p ?h = Inr h'" "length h' = length h" "filled n h'" "ordered cmp n h'"
      "mset (pq_list n h') = mset (pq_list n (?h[?p := Some e]))"
      using less.IH [OF p(1) ho p(2,3) up] by auto
    have "pq_up cmp e i h = Inr h'"
      using True at h'(1) il by (subst pq_up.simps) (simp add: pq_parent_def)
    moreover have "mset (pq_list n (?h[?p := Some e])) = mset (pq_list n (h[i := Some e]))"
    proof -
      let ?L = "(pq_list n h)[i - 1 := e]"
      have len: "length ?L = n" "i - 1 < n" "?p - 1 < n" "i - 1 \<noteq> ?p - 1"
        using n p less.prems(3) True by auto
      have "pq_list n (?h[?p := Some e]) = ?L[i - 1 := ?L ! (?p - 1), ?p - 1 := ?L ! (i - 1)]"
        using n p less.prems(2,3) len by (simp add: pq_list_update pq_list_nth nth_list_update)
      then show ?thesis using mset_swap [of "?p - 1" ?L "i - 1"] len n less.prems(2,3) by (simp add: pq_list_update)
    qed
    ultimately show ?thesis using h' by simp
  qed
qed

end

section \<open>The operations\<close>

definition ppq_elems :: "'a ppq \<Rightarrow> 'a multiset" where
  "ppq_elems q = mset (pq_list (m_heap_size q) (m_heap q))"

definition ppq_ok :: "('a \<Rightarrow> 'a \<Rightarrow> int) \<Rightarrow> 'a ppq \<Rightarrow> bool" where
  "ppq_ok cmp q \<longleftrightarrow> 2 \<le> m_size_alloc q \<and> m_heap_size q \<le> m_size_alloc q \<and>
     length (m_heap q) = m_size_alloc q + 1 \<and> filled (m_heap_size q) (m_heap q) \<and>
     ordered cmp (m_heap_size q) (m_heap q)"

lemma make_ppq_ok: "ppq_ok cmp (make_ppq sz) \<and> ppq_elems (make_ppq sz) = {#}"
  by (auto simp: ppq_ok_def make_ppq_def Let_def filled_def ordered_def ppq_elems_def pq_list_def)

lemma pq_grow_ok:
  assumes "ppq_ok cmp q" "n = m_heap_size q + 1"
  defines "q1 \<equiv> (if n > m_size_alloc q then pq_grow n q else q)"
  shows "length (m_heap q1) = m_size_alloc q1 + 1 \<and> 2 \<le> m_size_alloc q1 \<and> n \<le> m_size_alloc q1 \<and>
    (\<forall>j. 1 \<le> j \<and> j < n \<longrightarrow> m_heap q1 ! j = m_heap q ! j)"
  using assms(1,2) unfolding q1_def by (auto simp: ppq_ok_def pq_grow_def Let_def simp del: upt_Suc)

context comparison
begin

lemma ppq_insert_ok:
  assumes "ppq_ok cmp q"
  shows "\<exists>q'. ppq_insert cmp e q = Inr q' \<and> ppq_ok cmp q' \<and> ppq_elems q' = add_mset e (ppq_elems q)"
proof -
  define n where "n = m_heap_size q + 1"
  define q1 where "q1 = (if n > m_size_alloc q then pq_grow n q else q)"
  have q1: "length (m_heap q1) = m_size_alloc q1 + 1" "2 \<le> m_size_alloc q1" "n \<le> m_size_alloc q1"
    "\<And>j. 1 \<le> j \<Longrightarrow> j < n \<Longrightarrow> m_heap q1 ! j = m_heap q ! j"
    using pq_grow_ok [OF assms n_def] by (auto simp: q1_def)
  have k: "key (m_heap q1) j = key (m_heap q) j" if "1 \<le> j" "j < n" for j
    using q1(4) [OF that] by (simp add: key_def)
  have "n < length (m_heap q1)" using q1 by simp
  have ho: "holed n n (m_heap q1)"
    using assms q1 by (auto simp: holed_def ppq_ok_def filled_def n_def less_Suc_eq_le)
  have up: "up_ok cmp e n n (m_heap q1)"
    using assms by (auto simp: up_ok_def ppq_ok_def ordered_def k n_def)
  obtain h' where h': "pq_up cmp e n (m_heap q1) = Inr h'" "length h' = length (m_heap q1)" "filled n h'"
    "ordered cmp n h'" "mset (pq_list n h') = mset (pq_list n ((m_heap q1)[n := Some e]))"
    using pq_up_ok [OF ho _ _ up] by (auto simp: n_def)
  have "ppq_insert cmp e q = Inr (q1\<lparr>m_heap := h', m_heap_size := n\<rparr>)"
    unfolding ppq_insert_def Let_def n_def [symmetric] q1_def [symmetric] using h'(1) by simp
  moreover have "ppq_ok cmp (q1\<lparr>m_heap := h', m_heap_size := n\<rparr>)"
    using h' q1 by (simp add: ppq_ok_def)
  moreover have "pq_list n ((m_heap q1)[n := Some e]) = pq_list (m_heap_size q) (m_heap q) @ [e]"
  proof (rule nth_equalityI)
    have l: "m_heap_size q < length (m_heap q)" using assms by (simp add: ppq_ok_def)
    show "length (pq_list n ((m_heap q1)[n := Some e])) = length (pq_list (m_heap_size q) (m_heap q) @ [e])"
      using q1 l by (simp add: n_def)
    fix i assume "i < length (pq_list n ((m_heap q1)[n := Some e]))"
    moreover have l1: "n < length ((m_heap q1)[n := Some e])" using q1 by simp
    ultimately have "i < n" using q1 by simp
    then have ki: "i \<noteq> m_heap_size q \<Longrightarrow> key (m_heap q1) (Suc i) = key (m_heap q) (Suc i)"
      by (intro k) (auto simp: n_def)
    then show "pq_list n ((m_heap q1)[n := Some e]) ! i = (pq_list (m_heap_size q) (m_heap q) @ [e]) ! i"
      using q1 l ki \<open>i < n\<close>
      unfolding pq_list_nth [OF l1 \<open>i < n\<close>] key_update [OF \<open>n < length (m_heap q1)\<close>]
      by (auto simp: pq_list_nth nth_append n_def less_Suc_eq)
  qed
  ultimately show ?thesis using h'(5) by (simp add: ppq_elems_def)
qed

lemma ppq_extract_ok:
  assumes "ppq_ok cmp q" "ppq_elems q \<noteq> {#}"
  shows "\<exists>x q'. extract_top cmp q = Inr (x, q') \<and> ppq_top q = Inr x \<and> ppq_ok cmp q' \<and>
    ppq_elems q = add_mset x (ppq_elems q') \<and> (\<forall>y\<in>#ppq_elems q. 0 \<le> cmp x y)"
proof -
  have "m_heap_size q \<noteq> 0" using assms(2) by (auto simp: ppq_elems_def pq_list_def)
  then obtain n where sz: "m_heap_size q = Suc n" by (cases "m_heap_size q") auto
  define h where "h = m_heap q"
  note hq = h_def [symmetric]
  have len: "Suc n < length h" and f: "filled (Suc n) h" and o: "ordered cmp (Suc n) h"
    using assms(1) by (auto simp: ppq_ok_def sz hq)
  let ?x = "key h 1" and ?h1 = "h[1 := Some (key h (Suc n))]"
  have at1: "heap_at h 1 = Inr ?x" by (rule heap_at_filled [OF f]) simp_all
  have last: "h ! Suc n = Some (key h (Suc n))" using f by (auto simp: filled_def key_def sz)
  have f1: "filled n ?h1" using f by (auto simp: filled_def sz nth_list_update)
  have d1: "down_ok cmp n 1 ?h1"
    using o len by (auto simp: down_ok_def ordered_def sz key_update)
  obtain h' where h': "heapify cmp n 1 ?h1 = Inr h'" "length h' = length h" "filled n h'" "ordered cmp n h'"
    "mset (pq_list n h') = mset (pq_list n ?h1)"
    using heapify_ok [OF f1 _ d1] by auto
  let ?q = "q\<lparr>m_heap := h', m_heap_size := n\<rparr>"
  have "extract_top cmp q = Inr (?x, ?q)"
    using at1 last len h'(1) by (simp add: extract_top_def hq sz)
  moreover have "ppq_top q = Inr ?x" using at1 by (simp add: ppq_top_def hq)
  moreover have "ppq_ok cmp ?q" using assms(1) h' by (simp add: ppq_ok_def hq sz)
  moreover have "ppq_elems q = add_mset ?x (ppq_elems ?q)"
  proof (cases "n = 0")
    case True
    then show ?thesis using len by (simp add: ppq_elems_def hq sz pq_list_Suc)
  next
    case False
    have l: "n < length h" "Suc n < length h" using len by (simp_all add: sz)
    let ?L = "pq_list n h"
    have L: "length ?L = n" "?L ! 0 = ?x" "0 < n" using False l by (simp_all add: pq_list_nth)
    then obtain L' where L': "?L = ?x # L'" by (cases ?L) auto
    have "pq_list n ?h1 = key h (Suc n) # L'" using L' False l by (simp add: pq_list_update)
    moreover have "pq_list (Suc n) h = ?x # L' @ [key h (Suc n)]" using L' l(2) by (simp add: pq_list_Suc)
    ultimately show ?thesis using h'(5) by (simp add: ppq_elems_def hq sz)
  qed
  moreover have "0 \<le> cmp ?x y" if "y \<in># ppq_elems q" for y
  proof -
    have "y \<in> set (pq_list (Suc n) h)" using that by (simp add: ppq_elems_def hq sz)
    then obtain i where "i < length (pq_list (Suc n) h)" "pq_list (Suc n) h ! i = y"
      unfolding in_set_conv_nth by blast
    then have "i < Suc n" "y = key h (Suc i)" using len pq_list_nth [OF len, of i] by simp_all
    then show ?thesis using ordered_top [OF o, of "Suc i"] by (simp add: sz)
  qed
  ultimately show ?thesis by blast
qed

lemma ppq_priority_queue:
  "priority_queue cmp (ppq_insert cmp) (extract_top cmp) ppq_top ppq_elems (ppq_ok cmp)"
  by unfold_locales (auto dest: ppq_insert_ok ppq_extract_ok)

end

end
