(* ===== verification/Sc_Event.thy ===== *)
theory Sc_Event
  imports Sc_Pq_Facts
begin

text \<open>
  Events and their pending notifications: \<open>sysc/kernel/sc_event.h\<close>, \<open>sc_event.cpp\<close> and the event
  lists of \<open>sc_simcontext\<close>. Objects live at addresses, which are numbers: the events in
  \<open>m_events\<close>, the \<open>sc_event_timed\<close> objects in \<open>m_timed_objs\<close> (\<open>None\<close> when not allocated or freed).
  The state is an extensible record, so the kernel's state extends it.
\<close>

section \<open>State\<close>

type_synonym sc_time = u64

datatype notify_t = NONE | DELTA | TIMED

record sc_event =
  m_notify_type :: notify_t
  m_delta_event_index :: int
  m_timed :: "nat option"
  m_methods_static :: "nat list"
  m_methods_dynamic :: "nat list"
  m_threads_static :: "nat list"
  m_threads_dynamic :: "nat list"

definition new_event :: sc_event where
  "new_event = \<lparr>m_notify_type = NONE, m_delta_event_index = - 1, m_timed = None,
     m_methods_static = [], m_methods_dynamic = [], m_threads_static = [], m_threads_dynamic = []\<rparr>"

record event_timed =
  m_event :: "nat option"
  m_notify_time :: sc_time

datatype execution_phases = Phase_initialize | Phase_evaluate | Phase_update | Phase_notify

record notifier =
  m_events :: "nat \<Rightarrow> sc_event"
  m_timed_objs :: "nat \<Rightarrow> event_timed option"
  m_next_obj :: nat
  m_delta_events :: "nat list"
  m_timed_events :: "nat ppq"
  m_curr_time :: sc_time
  m_execution_phase :: execution_phases

text \<open>The part of \<open>sc_simcontext::init\<close> that concerns notifications.\<close>

definition init_notifier :: notifier where
  "init_notifier = \<lparr>m_events = (\<lambda>_. new_event), m_timed_objs = (\<lambda>_. None), m_next_obj = 0,
     m_delta_events = [], m_timed_events = make_ppq 128, m_curr_time = 0, m_execution_phase = Phase_initialize\<rparr>"

definition upd_event :: "nat \<Rightarrow> (sc_event \<Rightarrow> sc_event) \<Rightarrow> 'z notifier_scheme \<Rightarrow> 'z notifier_scheme" where
  "upd_event e f s = s\<lparr>m_events := (m_events s)(e := f (m_events s e))\<rparr>"

definition timed_at :: "nat \<Rightarrow> 'z notifier_scheme \<Rightarrow> event_timed result" where
  "timed_at p s = (case m_timed_objs s p of None \<Rightarrow> Inl Dangling_pointer | Some et \<Rightarrow> Inr et)"

section \<open>The order of the timed notifications\<close>

text \<open>The order never looks at a freed object (see the invariant in \<open>Sc_Event_Facts\<close>).\<close>

definition notify_time :: "(nat \<Rightarrow> event_timed option) \<Rightarrow> nat \<Rightarrow> sc_time" where
  "notify_time objs p = (case objs p of None \<Rightarrow> 0 | Some et \<Rightarrow> m_notify_time et)"

definition sc_notify_time_compare :: "(nat \<Rightarrow> event_timed option) \<Rightarrow> nat \<Rightarrow> nat \<Rightarrow> int" where
  "sc_notify_time_compare objs p1 p2 =
     (let t1 = notify_time objs p1; t2 = notify_time objs p2
      in if t1 < t2 then 1 else if t1 > t2 then - 1 else 0)"

lemma compare_nonneg: "0 \<le> sc_notify_time_compare objs p1 p2 \<longleftrightarrow> notify_time objs p1 \<le> notify_time objs p2"
  by (auto simp: sc_notify_time_compare_def Let_def)

interpretation timed_order: comparison "sc_notify_time_compare objs" for objs
  by unfold_locales (auto simp: sc_notify_time_compare_def Let_def split: if_splits)

interpretation timed_queue: priority_queue "sc_notify_time_compare objs" "ppq_insert (sc_notify_time_compare objs)"
  "extract_top (sc_notify_time_compare objs)" ppq_top ppq_elems "ppq_ok (sc_notify_time_compare objs)" for objs
  by (rule timed_order.ppq_priority_queue)

section \<open>The event lists of the simulation context\<close>

definition add_delta_event :: "nat \<Rightarrow> 'z notifier_scheme \<Rightarrow> int \<times> 'z notifier_scheme" where
  "add_delta_event e s =
     (let s1 = s\<lparr>m_delta_events := m_delta_events s @ [e]\<rparr> in (int (length (m_delta_events s1)) - 1, s1))"

definition remove_delta_event :: "nat \<Rightarrow> 'z notifier_scheme \<Rightarrow> 'z notifier_scheme result" where
  "remove_delta_event e s =
     (let i = m_delta_event_index (m_events s e); j = int (length (m_delta_events s)) - 1
      in if 0 \<le> i \<and> i \<le> j
         then (let s1 = (if i \<noteq> j
                  then (let l = m_delta_events s ! nat j
                        in upd_event l (m_delta_event_index_update (\<lambda>_. i))
                             (s\<lparr>m_delta_events := (m_delta_events s)[nat i := l]\<rparr>))
                  else s)
               in Inr (upd_event e (m_delta_event_index_update (\<lambda>_. - 1))
                    (s1\<lparr>m_delta_events := take (nat j) (m_delta_events s1)\<rparr>)))
         else Inl Assert_failed)"

definition add_timed_event :: "nat \<Rightarrow> 'z notifier_scheme \<Rightarrow> 'z notifier_scheme result" where
  "add_timed_event p s =
     bind_result (ppq_insert (sc_notify_time_compare (m_timed_objs s)) p (m_timed_events s))
       (\<lambda>q. Inr (s\<lparr>m_timed_events := q\<rparr>))"

definition extract_timed :: "'z notifier_scheme \<Rightarrow> (nat \<times> 'z notifier_scheme) result" where
  "extract_timed s =
     bind_result (extract_top (sc_notify_time_compare (m_timed_objs s)) (m_timed_events s))
       (\<lambda>(p, q). Inr (p, s\<lparr>m_timed_events := q\<rparr>))"

definition new_timed :: "nat \<Rightarrow> sc_time \<Rightarrow> 'z notifier_scheme \<Rightarrow> nat \<times> 'z notifier_scheme" where
  "new_timed e t s = (m_next_obj s,
     s\<lparr>m_timed_objs := (m_timed_objs s)(m_next_obj s \<mapsto> \<lparr>m_event = Some e, m_notify_time = t\<rparr>),
       m_next_obj := m_next_obj s + 1\<rparr>)"

text \<open>The destructor clears the link of the event, if there still is one.\<close>

definition delete_timed :: "nat \<Rightarrow> 'z notifier_scheme \<Rightarrow> 'z notifier_scheme result" where
  "delete_timed p s = bind_result (timed_at p s) (\<lambda>et.
     let s1 = (case m_event et of None \<Rightarrow> s | Some e \<Rightarrow> upd_event e (m_timed_update (\<lambda>_. None)) s)
     in Inr (s1\<lparr>m_timed_objs := (m_timed_objs s1)(p := None)\<rparr>))"

lemma extract_timed_size:
  "extract_timed s = Inr (p, s') \<Longrightarrow> m_heap_size (m_timed_events s') < m_heap_size (m_timed_events s)"
  by (auto simp: extract_timed_def extract_top_def bind_result_eq_Inr split: if_splits)

lemma delete_timed_queue: "delete_timed p s = Inr s' \<Longrightarrow> m_timed_events s' = m_timed_events s"
  by (auto simp: delete_timed_def bind_result_eq_Inr upd_event_def split: option.splits)

text \<open>The time of the next event; notifications that were cancelled are dropped on the way.\<close>

function next_time :: "'z notifier_scheme \<Rightarrow> (sc_time option \<times> 'z notifier_scheme) result" where
  "next_time s =
     (if ppq_size (m_timed_events s) = 0 then Inr (None, s)
      else bind_result (ppq_top (m_timed_events s)) (\<lambda>p. bind_result (timed_at p s) (\<lambda>et.
        if m_event et \<noteq> None then Inr (Some (m_notify_time et), s)
        else bind_result (extract_timed s) (\<lambda>x. bind_result (delete_timed (fst x) (snd x)) next_time))))"
  by auto
termination
  by (relation "measure (\<lambda>s. m_heap_size (m_timed_events s))")
    (auto dest!: extract_timed_size delete_timed_queue)

declare next_time.simps [simp del]

section \<open>Operations of an event\<close>

text \<open>\<open>assert(m_timed != 0); m_timed->m_event = 0; m_timed = 0\<close>, in three operations.\<close>

definition drop_timed :: "nat \<Rightarrow> 'z notifier_scheme \<Rightarrow> 'z notifier_scheme result" where
  "drop_timed e s = (case m_timed (m_events s e) of None \<Rightarrow> Inl Assert_failed
     | Some p \<Rightarrow> bind_result (timed_at p s) (\<lambda>et.
         Inr (upd_event e (m_timed_update (\<lambda>_. None))
           (s\<lparr>m_timed_objs := (m_timed_objs s)(p \<mapsto> et\<lparr>m_event := None\<rparr>)\<rparr>))))"

definition cancel :: "nat \<Rightarrow> 'z notifier_scheme \<Rightarrow> 'z notifier_scheme result" where
  "cancel e s = (case m_notify_type (m_events s e) of
       DELTA \<Rightarrow> bind_result (remove_delta_event e s) (\<lambda>s1. Inr (upd_event e (m_notify_type_update (\<lambda>_. NONE)) s1))
     | TIMED \<Rightarrow> bind_result (drop_timed e s) (\<lambda>s1. Inr (upd_event e (m_notify_type_update (\<lambda>_. NONE)) s1))
     | NONE \<Rightarrow> Inr s)"

definition set_delta :: "nat \<Rightarrow> 'z notifier_scheme \<Rightarrow> 'z notifier_scheme" where
  "set_delta e s = (let (i, s1) = add_delta_event e s
     in upd_event e (\<lambda>ev. ev\<lparr>m_delta_event_index := i, m_notify_type := DELTA\<rparr>) s1)"

definition set_timed :: "nat \<Rightarrow> sc_time \<Rightarrow> 'z notifier_scheme \<Rightarrow> 'z notifier_scheme result" where
  "set_timed e t s = (let (p, s1) = new_timed e t s
     in bind_result (add_timed_event p s1)
          (\<lambda>s2. Inr (upd_event e (\<lambda>ev. ev\<lparr>m_timed := Some p, m_notify_type := TIMED\<rparr>) s2)))"

definition notify_in :: "sc_time \<Rightarrow> nat \<Rightarrow> 'z notifier_scheme \<Rightarrow> 'z notifier_scheme result" where
  "notify_in t e s =
     (if m_notify_type (m_events s e) = DELTA then Inr s
      else if t = 0
      then bind_result (if m_notify_type (m_events s e) = TIMED then drop_timed e s else Inr s)
             (\<lambda>s1. Inr (set_delta e s1))
      else if m_notify_type (m_events s e) = TIMED
      then (case m_timed (m_events s e) of None \<Rightarrow> Inl Assert_failed
            | Some p \<Rightarrow> bind_result (timed_at p s) (\<lambda>et.
                if m_notify_time et \<le> m_curr_time s + t then Inr s
                else bind_result (drop_timed e s) (set_timed e (m_curr_time s + t))))
      else set_timed e (m_curr_time s + t) s)"

definition notify_delayed :: "nat \<Rightarrow> 'z notifier_scheme \<Rightarrow> 'z notifier_scheme result" where
  "notify_delayed e s =
     (if m_notify_type (m_events s e) \<noteq> NONE then Inl Sc_report_error else Inr (set_delta e s))"

definition notify_delayed_in :: "sc_time \<Rightarrow> nat \<Rightarrow> 'z notifier_scheme \<Rightarrow> 'z notifier_scheme result" where
  "notify_delayed_in t e s =
     (if m_notify_type (m_events s e) \<noteq> NONE then Inl Sc_report_error
      else if t = 0 then Inr (set_delta e s) else set_timed e (m_curr_time s + t) s)"

definition notify_internal :: "sc_time \<Rightarrow> nat \<Rightarrow> 'z notifier_scheme \<Rightarrow> 'z notifier_scheme result" where
  "notify_internal t e s =
     (if t = 0 then Inr (set_delta e s) else set_timed e (m_curr_time s + t) s)"

definition notify_next_delta :: "nat \<Rightarrow> 'z notifier_scheme \<Rightarrow> 'z notifier_scheme result" where
  "notify_next_delta e s =
     (if m_notify_type (m_events s e) \<noteq> NONE then Inl Sc_report_error else Inr (set_delta e s))"

definition reset_event :: "nat \<Rightarrow> 'z notifier_scheme \<Rightarrow> 'z notifier_scheme" where
  "reset_event e = upd_event e (\<lambda>ev. ev\<lparr>m_notify_type := NONE, m_delta_event_index := - 1, m_timed := None,
     m_methods_dynamic := [], m_threads_dynamic := []\<rparr>)"

section \<open>The lists of waiting processes\<close>

definition add_static_method :: "nat \<Rightarrow> sc_event \<Rightarrow> sc_event" where
  "add_static_method p ev = ev\<lparr>m_methods_static := m_methods_static ev @ [p]\<rparr>"

definition add_static_thread :: "nat \<Rightarrow> sc_event \<Rightarrow> sc_event" where
  "add_static_thread p ev = ev\<lparr>m_threads_static := m_threads_static ev @ [p]\<rparr>"

definition add_dynamic_method :: "nat \<Rightarrow> sc_event \<Rightarrow> sc_event" where
  "add_dynamic_method p ev = ev\<lparr>m_methods_dynamic := m_methods_dynamic ev @ [p]\<rparr>"

definition add_dynamic_thread :: "nat \<Rightarrow> sc_event \<Rightarrow> sc_event" where
  "add_dynamic_thread p ev = ev\<lparr>m_threads_dynamic := m_threads_dynamic ev @ [p]\<rparr>"

text \<open>
  The search from the end for a handle; the last entry replaces it and the vector shrinks by one.
\<close>

definition remove_handle :: "nat \<Rightarrow> nat list \<Rightarrow> (bool \<times> nat list) result" where
  "remove_handle p ps = bind_result
     (for_loop (\<lambda>i _. bind_result (vec_at ps i) (\<lambda>x.
        if x = p
        then bind_result (vec_set ps i (ps ! (length ps - 1))) (\<lambda>qs. Inr (Return (take (length ps - 1) qs)))
        else Inr (Continue ()))) (rev [0..<length ps]) ())
     (\<lambda>fl. case fl of Return qs \<Rightarrow> Inr (True, qs) | Continue _ \<Rightarrow> Inr (False, ps))"

definition remove_static_method :: "nat \<Rightarrow> sc_event \<Rightarrow> (bool \<times> sc_event) result" where
  "remove_static_method p ev = bind_result (remove_handle p (m_methods_static ev))
     (\<lambda>(b, ps). Inr (b, ev\<lparr>m_methods_static := ps\<rparr>))"

definition remove_static_thread :: "nat \<Rightarrow> sc_event \<Rightarrow> (bool \<times> sc_event) result" where
  "remove_static_thread p ev = bind_result (remove_handle p (m_threads_static ev))
     (\<lambda>(b, ps). Inr (b, ev\<lparr>m_threads_static := ps\<rparr>))"

definition remove_dynamic_method :: "nat \<Rightarrow> sc_event \<Rightarrow> (bool \<times> sc_event) result" where
  "remove_dynamic_method p ev = bind_result (remove_handle p (m_methods_dynamic ev))
     (\<lambda>(b, ps). Inr (b, ev\<lparr>m_methods_dynamic := ps\<rparr>))"

definition remove_dynamic_thread :: "nat \<Rightarrow> sc_event \<Rightarrow> (bool \<times> sc_event) result" where
  "remove_dynamic_thread p ev = bind_result (remove_handle p (m_threads_dynamic ev))
     (\<lambda>(b, ps). Inr (b, ev\<lparr>m_threads_dynamic := ps\<rparr>))"

end
