(* ===== verification/Sc_Event_Facts.thy ===== *)
theory Sc_Event_Facts
  imports Sc_Event
begin

text \<open>
  The invariant that ties the events to the two lists of the simulation context, what every
  notification operation does to it, and the contract of the operations: an event has at most one
  pending notification, and the earlier of two wins.
\<close>

section \<open>Invariant\<close>

abbreviation ntype :: "'z notifier_scheme \<Rightarrow> nat \<Rightarrow> notify_t" where
  "ntype s e \<equiv> m_notify_type (m_events s e)"

definition delta_ok :: "'z notifier_scheme \<Rightarrow> bool" where
  "delta_ok s \<longleftrightarrow>
     (\<forall>i<length (m_delta_events s). ntype s (m_delta_events s ! i) = DELTA \<and>
        m_delta_event_index (m_events s (m_delta_events s ! i)) = int i) \<and>
     (\<forall>e. ntype s e = DELTA \<longrightarrow> e \<in> set (m_delta_events s))"

definition owned :: "'z notifier_scheme \<Rightarrow> nat \<Rightarrow> bool" where
  "owned s p \<longleftrightarrow> (\<exists>et. m_timed_objs s p = Some et \<and>
     (\<forall>e. m_event et = Some e \<longrightarrow> ntype s e = TIMED \<and> m_timed (m_events s e) = Some p))"

definition scheduled :: "'z notifier_scheme \<Rightarrow> nat \<Rightarrow> bool" where
  "scheduled s e \<longleftrightarrow> (\<exists>p et. m_timed (m_events s e) = Some p \<and> p \<in># ppq_elems (m_timed_events s) \<and>
     m_timed_objs s p = Some et \<and> m_event et = Some e)"

definition timed_ok :: "'z notifier_scheme \<Rightarrow> bool" where
  "timed_ok s \<longleftrightarrow>
     ppq_ok (sc_notify_time_compare (m_timed_objs s)) (m_timed_events s) \<and>
     (\<forall>p. count (ppq_elems (m_timed_events s)) p \<le> 1) \<and>
     (\<forall>p\<in>#ppq_elems (m_timed_events s). owned s p) \<and>
     (\<forall>e. ntype s e = TIMED \<longrightarrow> scheduled s e) \<and>
     (\<forall>p. m_next_obj s \<le> p \<longrightarrow> m_timed_objs s p = None)"

definition notifier_ok :: "'z notifier_scheme \<Rightarrow> bool" where
  "notifier_ok s \<longleftrightarrow> delta_ok s \<and> timed_ok s"

section \<open>Abstraction: the pending notification of an event\<close>

datatype pending = Idle | Next_delta | At sc_time

definition pending :: "'z notifier_scheme \<Rightarrow> nat \<Rightarrow> pending" where
  "pending s e = (case ntype s e of NONE \<Rightarrow> Idle | DELTA \<Rightarrow> Next_delta
     | TIMED \<Rightarrow> At (notify_time (m_timed_objs s) (the (m_timed (m_events s e)))))"

text \<open>The earlier of two notifications; a delta notification is the earliest there is.\<close>

fun earlier :: "pending \<Rightarrow> pending \<Rightarrow> pending" where
  "earlier Idle n = n"
| "earlier n Idle = n"
| "earlier (At t) (At u) = At (min t u)"
| "earlier _ _ = Next_delta"

definition requested :: "sc_time \<Rightarrow> 'z notifier_scheme \<Rightarrow> pending" where
  "requested t s = (if t = 0 then Next_delta else At (m_curr_time s + t))"

section \<open>Congruences\<close>

lemma upd_event_simps [simp]:
  "m_events (upd_event e f s) = (m_events s)(e := f (m_events s e))"
  "m_timed_objs (upd_event e f s) = m_timed_objs s"
  "m_next_obj (upd_event e f s) = m_next_obj s"
  "m_delta_events (upd_event e f s) = m_delta_events s"
  "m_timed_events (upd_event e f s) = m_timed_events s"
  "m_curr_time (upd_event e f s) = m_curr_time s"
  "m_execution_phase (upd_event e f s) = m_execution_phase s"
  by (simp_all add: upd_event_def)

lemma upd_event_upd_event: "upd_event e f (upd_event e g s) = upd_event e (f \<circ> g) s"
  by (simp add: upd_event_def)

lemma delta_ok_cong:
  assumes "delta_ok s" "m_delta_events s' = m_delta_events s"
    "\<And>e. ntype s' e = DELTA \<longleftrightarrow> ntype s e = DELTA"
    "\<And>e. ntype s e = DELTA \<Longrightarrow> m_delta_event_index (m_events s' e) = m_delta_event_index (m_events s e)"
  shows "delta_ok s'"
  using assms by (simp add: delta_ok_def)

lemma timed_ok_cong:
  assumes "timed_ok s" "m_timed_events s' = m_timed_events s" "m_timed_objs s' = m_timed_objs s"
    "m_next_obj s' = m_next_obj s" "\<And>e. ntype s' e = TIMED \<longleftrightarrow> ntype s e = TIMED"
    "\<And>e. ntype s e = TIMED \<Longrightarrow> m_timed (m_events s' e) = m_timed (m_events s e)"
  shows "timed_ok s'"
  using assms by (fastforce simp: timed_ok_def owned_def scheduled_def)

text \<open>No list refers to the current time.\<close>

lemma notifier_ok_time: "notifier_ok s \<Longrightarrow> notifier_ok (s\<lparr>m_curr_time := t\<rparr>)"
  unfolding notifier_ok_def
  using delta_ok_cong [of s "s\<lparr>m_curr_time := t\<rparr>"] timed_ok_cong [of s "s\<lparr>m_curr_time := t\<rparr>"] by simp

text \<open>The heap only looks at the times of its elements.\<close>

lemma key_elem:
  assumes "ppq_ok cmp q" "1 \<le> j" "j \<le> m_heap_size q"
  shows "key (m_heap q) j \<in># ppq_elems q"
proof -
  have "m_heap_size q < length (m_heap q)" using assms(1) by (simp add: ppq_ok_def)
  then have "pq_list (m_heap_size q) (m_heap q) ! (j - 1) \<in> set (pq_list (m_heap_size q) (m_heap q))"
    using assms(2,3) by (intro nth_mem) simp
  then show ?thesis using assms(2,3) \<open>m_heap_size q < length (m_heap q)\<close> by (simp add: ppq_elems_def pq_list_nth)
qed

lemma ppq_ok_time_cong:
  assumes "ppq_ok (sc_notify_time_compare objs) q"
    "\<And>p. p \<in># ppq_elems q \<Longrightarrow> notify_time objs' p = notify_time objs p"
  shows "ppq_ok (sc_notify_time_compare objs') q"
proof -
  have "0 \<le> sc_notify_time_compare objs' (key (m_heap q) (j div 2)) (key (m_heap q) j)"
    if "2 \<le> j \<and> j \<le> m_heap_size q" for j
  proof -
    have "key (m_heap q) (j div 2) \<in># ppq_elems q" "key (m_heap q) j \<in># ppq_elems q"
      using key_elem [OF assms(1), of "j div 2"] key_elem [OF assms(1), of j] that by auto
    moreover have "0 \<le> sc_notify_time_compare objs (key (m_heap q) (j div 2)) (key (m_heap q) j)"
      using assms(1) that by (simp add: ppq_ok_def ordered_def)
    ultimately show ?thesis using assms(2) by (simp add: compare_nonneg)
  qed
  then show ?thesis using assms(1) by (simp add: ppq_ok_def ordered_def)
qed

lemma init_notifier_ok: "notifier_ok init_notifier"
  by (simp add: notifier_ok_def delta_ok_def timed_ok_def init_notifier_def new_event_def
      make_ppq_ok [THEN conjunct1] make_ppq_ok [THEN conjunct2])

section \<open>Delta notifications\<close>

lemma delta_index:
  assumes "delta_ok s" "ntype s e = DELTA"
  obtains i where "i < length (m_delta_events s)" "m_delta_events s ! i = e"
    "m_delta_event_index (m_events s e) = int i"
  using assms unfolding delta_ok_def in_set_conv_nth by blast

lemma delta_nth_eq:
  "delta_ok s \<Longrightarrow> i < length (m_delta_events s) \<Longrightarrow> j < length (m_delta_events s) \<Longrightarrow>
    m_delta_events s ! i = m_delta_events s ! j \<longleftrightarrow> i = j"
  unfolding delta_ok_def by (metis of_nat_eq_iff)

lemma distinct_delta: "delta_ok s \<Longrightarrow> distinct (m_delta_events s)"
  by (simp add: distinct_conv_nth delta_nth_eq)

lemma remove_delta_event_eq:
  assumes "delta_ok s" "i < length (m_delta_events s)" "m_delta_events s ! i = e"
  defines "l \<equiv> last (m_delta_events s)"
  shows "remove_delta_event e s = Inr (upd_event e (m_delta_event_index_update (\<lambda>_. - 1))
    (if e = l then s\<lparr>m_delta_events := butlast (m_delta_events s)\<rparr>
     else upd_event l (m_delta_event_index_update (\<lambda>_. int i))
       (s\<lparr>m_delta_events := butlast ((m_delta_events s)[i := l])\<rparr>)))"
proof -
  let ?D = "m_delta_events s"
  obtain n where n: "length ?D = Suc n" using assms(2) by (cases ?D) auto
  have idx: "m_delta_event_index (m_events s e) = int i" using assms by (auto simp: delta_ok_def)
  have l: "l = ?D ! n" using n unfolding l_def by (cases ?D rule: rev_cases) (auto simp: nth_append)
  have "e = l \<longleftrightarrow> i = n" using delta_nth_eq [OF assms(1,2), of n] n assms(3) l by auto
  moreover have "take n xs = butlast xs" if "length xs = Suc n" for xs :: "nat list"
    using that by (simp add: butlast_conv_take)
  ultimately show ?thesis
    using n assms(2) by (auto simp: remove_delta_event_def Let_def idx l upd_event_def)
qed

section \<open>What an operation keeps\<close>

definition listeners :: "sc_event \<Rightarrow> nat list \<times> nat list \<times> nat list \<times> nat list" where
  "listeners ev = (m_methods_static ev, m_methods_dynamic ev, m_threads_static ev, m_threads_dynamic ev)"

definition kept :: "'z notifier_scheme \<Rightarrow> 'z notifier_scheme \<Rightarrow> bool" where
  "kept s s' \<longleftrightarrow> m_curr_time s' = m_curr_time s \<and> m_execution_phase s' = m_execution_phase s \<and>
     notifier.more s' = notifier.more s \<and> (\<forall>e. listeners (m_events s' e) = listeners (m_events s e))"

definition achieves :: "'z notifier_scheme \<Rightarrow> 'z notifier_scheme result \<Rightarrow> (nat \<Rightarrow> pending) \<Rightarrow> bool" where
  "achieves s r pend \<longleftrightarrow> (\<exists>s'. r = Inr s' \<and> notifier_ok s' \<and> pending s' = pend \<and> kept s s')"

lemma kept_refl [simp]: "kept s s"
  by (simp add: kept_def)

lemma kept_trans: "kept s s1 \<Longrightarrow> kept s1 s2 \<Longrightarrow> kept s s2"
  by (simp add: kept_def)

lemma achieves_bind:
  assumes "achieves s r pend" "\<And>s1. notifier_ok s1 \<Longrightarrow> pending s1 = pend \<Longrightarrow> kept s s1 \<Longrightarrow> achieves s1 (f s1) pend'"
  shows "achieves s (bind_result r f) pend'"
  using assms unfolding achieves_def by (metis bind_result_Inr kept_trans)

lemma more_upd_event [simp]: "notifier.more (upd_event e f s) = notifier.more s"
  by (simp add: upd_event_def)

section \<open>Cancelling\<close>

lemma cancel_delta:
  assumes "notifier_ok s" "ntype s e = DELTA"
  shows "achieves s (cancel e s) ((pending s)(e := Idle))"
proof -
  let ?D = "m_delta_events s" and ?none = "m_notify_type_update (\<lambda>_. NONE)"
  have ok: "delta_ok s" "timed_ok s" using assms(1) by (simp_all add: notifier_ok_def)
  obtain i where i: "i < length ?D" "?D ! i = e" "m_delta_event_index (m_events s e) = int i"
    using delta_index [OF ok(1) assms(2)] by blast
  define l where "l = last ?D"
  define s1 where "s1 = upd_event e (m_delta_event_index_update (\<lambda>_. - 1))
    (if e = l then s\<lparr>m_delta_events := butlast ?D\<rparr>
     else upd_event l (m_delta_event_index_update (\<lambda>_. int i)) (s\<lparr>m_delta_events := butlast (?D[i := l])\<rparr>))"
  define s' where "s' = upd_event e ?none s1"
  have r: "cancel e s = Inr s'"
    using remove_delta_event_eq [OF ok(1) i(1,2)] assms(2) by (simp add: cancel_def s'_def s1_def l_def)
  obtain n where n: "length ?D = Suc n" using i(1) by (cases ?D) auto
  have l: "l = ?D ! n" using n unfolding l_def by (cases ?D rule: rev_cases) (auto simp: nth_append)
  have in_e: "i = n \<longleftrightarrow> e = l" using delta_nth_eq [OF ok(1) i(1), of n] n i(2) l by auto
  have D': "m_delta_events s' = (if e = l then butlast ?D else butlast (?D[i := l]))"
    by (simp add: s'_def s1_def)
  have T': "ntype s' x = (if x = e then NONE else ntype s x)" for x by (simp add: s'_def s1_def)
  have I': "m_delta_event_index (m_events s' x) = (if x = l then int i else m_delta_event_index (m_events s x))"
    if "x \<noteq> e" for x using that by (simp add: s'_def s1_def)
  have nth: "m_delta_events s' ! k = (if k = i then l else ?D ! k)" "?D ! k \<noteq> e \<or> k = i" if "k < n" for k
    using that n in_e delta_nth_eq [OF ok(1) i(1), of k] i(2) by (auto simp: D' nth_butlast nth_list_update)
  have d: "\<And>k. k < Suc n \<Longrightarrow> ntype s (?D ! k) = DELTA \<and> m_delta_event_index (m_events s (?D ! k)) = int k"
    using ok(1) n by (simp add: delta_ok_def)
  have "delta_ok s'"
    unfolding delta_ok_def
  proof (intro conjI allI impI)
    have len: "length (m_delta_events s') = n" using n by (simp add: D')
    fix k assume "k < length (m_delta_events s')"
    then have k: "k < n" using len by simp
    have kl: "?D ! k \<noteq> l" using delta_nth_eq [OF ok(1), of k n] k n l by simp
    have el: "k = i \<Longrightarrow> l \<noteq> e" using in_e k by auto
    show "ntype s' (m_delta_events s' ! k) = DELTA"
      using nth [OF k] d [of k] d [of n] k el l by (auto simp: T')
    show "m_delta_event_index (m_events s' (m_delta_events s' ! k)) = int k"
    proof (cases "k = i")
      case True
      then show ?thesis using nth(1) [OF k] el I' by simp
    next
      case False
      then show ?thesis using nth [OF k] kl I' [of "?D ! k"] d [of k] k by simp
    qed
  next
    fix x assume "ntype s' x = DELTA"
    then have x: "x \<noteq> e" "ntype s x = DELTA" by (auto simp: T' split: if_splits)
    then obtain k where k: "k < Suc n" "?D ! k = x" using delta_index [OF ok(1)] n by metis
    show "x \<in> set (m_delta_events s')"
    proof (cases "k = n")
      case True
      then have "i < n" "x = l" using k x in_e l i(1) n by auto
      then show ?thesis using nth(1) [of i] n by (auto simp: in_set_conv_nth D')
    next
      case False
      then have "k < n" "k \<noteq> i" using k i(2) x(1) by auto
      then show ?thesis using nth(1) [of k] n k(2) by (auto simp: in_set_conv_nth D')
    qed
  qed
  moreover have "timed_ok s'"
    by (rule timed_ok_cong [OF ok(2)]) (use assms(2) in \<open>auto simp: s'_def s1_def\<close>)
  moreover have "pending s' = (pending s)(e := Idle)"
    by (rule ext) (simp add: pending_def s'_def s1_def split: notify_t.split)
  moreover have "kept s s'" by (auto simp: kept_def listeners_def s'_def s1_def)
  ultimately show ?thesis using r by (auto simp: achieves_def notifier_ok_def)
qed

lemma scheduledE:
  assumes "notifier_ok s" "ntype s e = TIMED"
  obtains p et where "m_timed (m_events s e) = Some p" "p \<in># ppq_elems (m_timed_events s)"
    "m_timed_objs s p = Some et" "m_event et = Some e"
  using assms unfolding notifier_ok_def timed_ok_def scheduled_def by blast

lemma cancel_timed:
  assumes "notifier_ok s" "ntype s e = TIMED"
  shows "achieves s (cancel e s) ((pending s)(e := Idle))"
proof -
  have ok: "delta_ok s" "timed_ok s" using assms(1) by (simp_all add: notifier_ok_def)
  obtain p et where p: "m_timed (m_events s e) = Some p" "p \<in># ppq_elems (m_timed_events s)"
    "m_timed_objs s p = Some et" "m_event et = Some e" using scheduledE [OF assms] .
  define s' where "s' = upd_event e (m_notify_type_update (\<lambda>_. NONE)) (upd_event e (m_timed_update (\<lambda>_. None))
    (s\<lparr>m_timed_objs := (m_timed_objs s)(p \<mapsto> et\<lparr>m_event := None\<rparr>)\<rparr>))"
  have r: "cancel e s = Inr s'" using assms(2) p by (simp add: cancel_def drop_timed_def timed_at_def s'_def)
  have nt: "notify_time ((m_timed_objs s)(p \<mapsto> et\<lparr>m_event := None\<rparr>)) = notify_time (m_timed_objs s)"
    using p by (auto simp: notify_time_def fun_eq_iff)
  have "delta_ok s'" by (rule delta_ok_cong [OF ok(1)]) (use assms(2) in \<open>auto simp: s'_def\<close>)
  moreover have "timed_ok s'"
    unfolding timed_ok_def
  proof (intro conjI allI impI ballI)
    show "ppq_ok (sc_notify_time_compare (m_timed_objs s')) (m_timed_events s')"
      by (rule ppq_ok_time_cong [where objs = "m_timed_objs s"]) (use ok(2) nt in \<open>auto simp: timed_ok_def s'_def\<close>)
    show "count (ppq_elems (m_timed_events s')) q \<le> 1" for q using ok(2) by (simp add: timed_ok_def s'_def)
    show "owned s' q" if "q \<in># ppq_elems (m_timed_events s')" for q
    proof (cases "q = p")
      case True
      then show ?thesis by (simp add: owned_def s'_def)
    next
      case False
      have "owned s q" using ok(2) that by (simp add: timed_ok_def s'_def)
      then show ?thesis using False p(1) by (auto simp: owned_def s'_def)
    qed
    show "scheduled s' x" if "ntype s' x = TIMED" for x
    proof -
      have "x \<noteq> e" using that by (auto simp: s'_def)
      moreover from that have "ntype s x = TIMED" using \<open>x \<noteq> e\<close> by (simp add: s'_def)
      then obtain q eq where q: "m_timed (m_events s x) = Some q" "q \<in># ppq_elems (m_timed_events s)"
        "m_timed_objs s q = Some eq" "m_event eq = Some x"
        using scheduledE [OF assms(1)] by blast
      moreover have "q \<noteq> p" using q(3,4) p(3,4) \<open>x \<noteq> e\<close> by auto
      ultimately show ?thesis by (simp add: scheduled_def s'_def)
    qed
    show "m_timed_objs s' q = None" if "m_next_obj s' \<le> q" for q
      using ok(2) that p(3) by (auto simp: timed_ok_def s'_def)
  qed
  moreover have "pending s' = (pending s)(e := Idle)"
    by (rule ext) (simp add: pending_def s'_def nt split: notify_t.split)
  moreover have "kept s s'" by (auto simp: kept_def listeners_def s'_def)
  ultimately show ?thesis using r by (auto simp: achieves_def notifier_ok_def)
qed

lemma cancel_achieves: "notifier_ok s \<Longrightarrow> achieves s (cancel e s) ((pending s)(e := Idle))"
proof (cases "ntype s e")
  case NONE
  assume "notifier_ok s"
  with NONE show ?thesis by (auto simp: achieves_def cancel_def pending_def fun_eq_iff)
qed (auto intro: cancel_delta cancel_timed)

section \<open>Scheduling an event that has no pending notification\<close>

lemma set_delta_simps [simp]:
  "m_delta_events (set_delta e s) = m_delta_events s @ [e]"
  "m_events (set_delta e s) = (m_events s)(e := (m_events s e)\<lparr>m_delta_event_index := int (length (m_delta_events s)),
     m_notify_type := DELTA\<rparr>)"
  "m_timed_objs (set_delta e s) = m_timed_objs s" "m_next_obj (set_delta e s) = m_next_obj s"
  "m_timed_events (set_delta e s) = m_timed_events s" "m_curr_time (set_delta e s) = m_curr_time s"
  "m_execution_phase (set_delta e s) = m_execution_phase s" "notifier.more (set_delta e s) = notifier.more s"
  by (simp_all add: set_delta_def add_delta_event_def Let_def case_prod_unfold)

lemma set_delta_achieves:
  assumes "notifier_ok s" "ntype s e = NONE"
  shows "achieves s (Inr (set_delta e s)) ((pending s)(e := Next_delta))"
proof -
  let ?s = "set_delta e s"
  have ok: "delta_ok s" "timed_ok s" using assms(1) by (simp_all add: notifier_ok_def)
  have new: "k < length (m_delta_events s) \<Longrightarrow> m_delta_events s ! k \<noteq> e" for k
    using ok(1) assms(2) by (auto simp: delta_ok_def)
  have "delta_ok ?s"
    using ok(1) new by (auto simp: delta_ok_def nth_append less_Suc_eq)
  moreover have "timed_ok ?s" by (rule timed_ok_cong [OF ok(2)]) (use assms(2) in auto)
  moreover have "pending ?s = (pending s)(e := Next_delta)"
    by (rule ext) (simp add: pending_def split: notify_t.split)
  moreover have "kept s ?s" by (simp add: kept_def listeners_def)
  ultimately show ?thesis by (simp add: achieves_def notifier_ok_def)
qed

lemma elem_live: "timed_ok s \<Longrightarrow> p \<in># ppq_elems (m_timed_events s) \<Longrightarrow> \<exists>et. m_timed_objs s p = Some et"
  by (auto simp: timed_ok_def owned_def)

lemma elem_not_fresh: "timed_ok s \<Longrightarrow> p \<in># ppq_elems (m_timed_events s) \<Longrightarrow> p < m_next_obj s"
  using elem_live [of s p] unfolding timed_ok_def by (metis not_le_imp_less option.distinct(1))

lemma set_timed_achieves:
  assumes "notifier_ok s" "ntype s e = NONE"
  shows "achieves s (set_timed e t s) ((pending s)(e := At t))"
proof -
  let ?p = "m_next_obj s" and ?et = "\<lparr>m_event = Some e, m_notify_time = t\<rparr>"
  let ?objs = "(m_timed_objs s)(?p \<mapsto> ?et)"
  have ok: "delta_ok s" "timed_ok s" using assms(1) by (simp_all add: notifier_ok_def)
  have fresh: "q \<in># ppq_elems (m_timed_events s) \<Longrightarrow> q \<noteq> ?p" for q using elem_not_fresh [OF ok(2)] by blast
  have "ppq_ok (sc_notify_time_compare ?objs) (m_timed_events s)"
    by (rule ppq_ok_time_cong [where objs = "m_timed_objs s"])
      (use ok(2) fresh in \<open>auto simp: timed_ok_def notify_time_def\<close>)
  then obtain q where q: "ppq_insert (sc_notify_time_compare ?objs) ?p (m_timed_events s) = Inr q"
    "ppq_ok (sc_notify_time_compare ?objs) q" "ppq_elems q = add_mset ?p (ppq_elems (m_timed_events s))"
    using timed_queue.insert_law by blast
  define s' where "s' = upd_event e (\<lambda>ev. ev\<lparr>m_timed := Some ?p, m_notify_type := TIMED\<rparr>)
    (s\<lparr>m_timed_objs := ?objs, m_next_obj := ?p + 1, m_timed_events := q\<rparr>)"
  have r: "set_timed e t s = Inr s'" using q(1) by (simp add: set_timed_def new_timed_def add_timed_event_def s'_def)
  have "delta_ok s'" by (rule delta_ok_cong [OF ok(1)]) (use assms(2) in \<open>auto simp: s'_def\<close>)
  moreover have "timed_ok s'"
    unfolding timed_ok_def
  proof (intro conjI allI impI ballI)
    show "ppq_ok (sc_notify_time_compare (m_timed_objs s')) (m_timed_events s')" using q(2) by (simp add: s'_def)
    show "count (ppq_elems (m_timed_events s')) x \<le> 1" for x
    proof (cases "x = ?p")
      case True
      then have "x \<notin># ppq_elems (m_timed_events s)" using fresh by blast
      then show ?thesis using True q(3) by (simp add: s'_def not_in_iff)
    next
      case False
      then show ?thesis using q(3) ok(2) by (simp add: s'_def timed_ok_def)
    qed
    show "owned s' x" if "x \<in># ppq_elems (m_timed_events s')" for x
    proof (cases "x = ?p")
      case True
      then show ?thesis by (simp add: owned_def s'_def)
    next
      case False
      then have "owned s x" using that q(3) ok(2) by (simp add: s'_def timed_ok_def)
      then show ?thesis using False assms(2) by (auto simp: owned_def s'_def)
    qed
    show "scheduled s' x" if "ntype s' x = TIMED" for x
    proof (cases "x = e")
      case True
      then show ?thesis using q(3) by (simp add: scheduled_def s'_def)
    next
      case False
      then have "ntype s x = TIMED" using that by (simp add: s'_def)
      then obtain p et where p: "m_timed (m_events s x) = Some p" "p \<in># ppq_elems (m_timed_events s)"
        "m_timed_objs s p = Some et" "m_event et = Some x"
        using scheduledE [OF assms(1)] by blast
      then show ?thesis using False fresh q(3) by (auto simp: scheduled_def s'_def)
    qed
    show "m_timed_objs s' x = None" if "m_next_obj s' \<le> x" for x
      using ok(2) that by (auto simp: timed_ok_def s'_def)
  qed
  moreover have "pending s' x = ((pending s)(e := At t)) x" for x
  proof (cases "x = e")
    case True
    then show ?thesis by (simp add: pending_def s'_def notify_time_def)
  next
    case False
    have "ntype s x = TIMED \<Longrightarrow> the (m_timed (m_events s x)) \<noteq> ?p"
      using scheduledE [OF assms(1), of x] fresh by (metis option.sel)
    then show ?thesis using False by (auto simp: pending_def s'_def notify_time_def split: notify_t.split)
  qed
  moreover have "kept s s'" by (simp add: kept_def listeners_def s'_def)
  ultimately show ?thesis using r by (auto simp: achieves_def notifier_ok_def)
qed

section \<open>The operations\<close>

lemma set_delta_upd: "set_delta e (upd_event e (m_notify_type_update (\<lambda>_. n)) s) = set_delta e s"
  by (simp add: set_delta_def add_delta_event_def Let_def upd_event_def)

lemma set_timed_upd: "set_timed e t (upd_event e (m_notify_type_update (\<lambda>_. n)) s) = set_timed e t s"
  by (simp add: set_timed_def new_timed_def add_timed_event_def Let_def upd_event_def bind_result_def split: sum.split)

text \<open>Dropping the timed notification and setting a new one is cancelling and setting.\<close>

lemma drop_set_delta:
  assumes "notifier_ok s" "ntype s e = TIMED"
  shows "bind_result (drop_timed e s) (\<lambda>s1. Inr (set_delta e s1)) = bind_result (cancel e s) (\<lambda>s1. Inr (set_delta e s1))"
  using assms by (cases "drop_timed e s") (simp_all add: cancel_def set_delta_upd)

lemma drop_set_timed:
  assumes "notifier_ok s" "ntype s e = TIMED"
  shows "bind_result (drop_timed e s) (set_timed e t) = bind_result (cancel e s) (set_timed e t)"
  using assms by (cases "drop_timed e s") (simp_all add: cancel_def set_timed_upd)

lemma ntype_Idle: "pending s e = Idle \<longleftrightarrow> ntype s e = NONE"
  by (simp add: pending_def split: notify_t.split)

lemma cancel_then_delta:
  assumes "notifier_ok s"
  shows "achieves s (bind_result (cancel e s) (\<lambda>s1. Inr (set_delta e s1))) ((pending s)(e := Next_delta))"
proof (rule achieves_bind [OF cancel_achieves [OF assms]])
  fix s1 :: "'a notifier_scheme" assume s1: "notifier_ok s1" "pending s1 = (pending s)(e := Idle)"
  then have "ntype s1 e = NONE" by (simp add: ntype_Idle [symmetric])
  from set_delta_achieves [OF s1(1) this] s1(2)
  show "achieves s1 (Inr (set_delta e s1)) ((pending s)(e := Next_delta))" by simp
qed

lemma cancel_then_timed:
  assumes "notifier_ok s"
  shows "achieves s (bind_result (cancel e s) (set_timed e t)) ((pending s)(e := At t))"
proof (rule achieves_bind [OF cancel_achieves [OF assms]])
  fix s1 :: "'a notifier_scheme" assume s1: "notifier_ok s1" "pending s1 = (pending s)(e := Idle)"
  then have "ntype s1 e = NONE" by (simp add: ntype_Idle [symmetric])
  from set_timed_achieves [OF s1(1) this] s1(2)
  show "achieves s1 (set_timed e t s1) ((pending s)(e := At t))" by simp
qed

lemma notify_in_achieves:
  assumes "notifier_ok s"
  shows "achieves s (notify_in t e s) ((pending s)(e := earlier (pending s e) (requested t s)))"
proof (cases "ntype s e")
  case NONE
  then have "achieves s (Inr (set_delta e s)) ((pending s)(e := Next_delta))"
    "achieves s (set_timed e (m_curr_time s + t) s) ((pending s)(e := At (m_curr_time s + t)))"
    using set_delta_achieves set_timed_achieves assms by blast+
  moreover have "pending s e = Idle" using NONE by (simp add: ntype_Idle)
  ultimately show ?thesis using NONE by (simp add: notify_in_def requested_def)
next
  case DELTA
  then have p: "pending s e = Next_delta" by (simp add: pending_def)
  then have "(pending s)(e := earlier (pending s e) (requested t s)) = pending s"
    by (auto simp: requested_def fun_eq_iff)
  then show ?thesis using DELTA assms by (simp add: notify_in_def achieves_def)
next
  case TIMED
  obtain p et where p: "m_timed (m_events s e) = Some p" "p \<in># ppq_elems (m_timed_events s)"
    "m_timed_objs s p = Some et" "m_event et = Some e" using scheduledE [OF assms TIMED] .
  have pe: "pending s e = At (m_notify_time et)" using TIMED p by (simp add: pending_def notify_time_def)
  consider "t = 0" | "t \<noteq> 0" "m_notify_time et \<le> m_curr_time s + t" | "t \<noteq> 0" "m_curr_time s + t < m_notify_time et"
    by fastforce
  then show ?thesis
  proof cases
    case 1
    then show ?thesis
      using cancel_then_delta [OF assms, of e] drop_set_delta [OF assms TIMED] TIMED pe
      by (simp add: notify_in_def requested_def)
  next
    case 2
    then have "(pending s)(e := earlier (pending s e) (requested t s)) = pending s"
      using pe by (auto simp: requested_def fun_eq_iff min_def)
    then show ?thesis using 2 TIMED p assms by (simp add: notify_in_def timed_at_def achieves_def)
  next
    case 3
    then have le: "\<not> m_notify_time et \<le> m_curr_time s + t" by simp
    from 3 have "earlier (pending s e) (requested t s) = At (m_curr_time s + t)"
      using pe by (auto simp: requested_def min_def)
    then show ?thesis
      using 3 le cancel_then_timed [OF assms, of e "m_curr_time s + t"] drop_set_timed [OF assms TIMED] TIMED p
      by (simp add: notify_in_def timed_at_def)
  qed
qed

lemma notify_internal_achieves:
  "notifier_ok s \<Longrightarrow> ntype s e = NONE \<Longrightarrow> achieves s (notify_internal t e s) ((pending s)(e := requested t s))"
  using set_delta_achieves [of s e] set_timed_achieves [of s e "m_curr_time s + t"]
  by (simp add: notify_internal_def requested_def)

section \<open>The earliest timed notification\<close>

lemma extract_timed_ok:
  assumes "timed_ok s" "ppq_elems (m_timed_events s) \<noteq> {#}"
  obtains p q where "extract_timed s = Inr (p, s\<lparr>m_timed_events := q\<rparr>)" "ppq_top (m_timed_events s) = Inr p"
    "ppq_elems (m_timed_events s) = add_mset p (ppq_elems q)"
    "\<And>r. r \<in># ppq_elems (m_timed_events s) \<Longrightarrow> notify_time (m_timed_objs s) p \<le> notify_time (m_timed_objs s) r"
    "ppq_ok (sc_notify_time_compare (m_timed_objs s)) q" "p \<notin># ppq_elems q"
proof -
  have "ppq_ok (sc_notify_time_compare (m_timed_objs s)) (m_timed_events s)" using assms(1) by (simp add: timed_ok_def)
  from timed_queue.extract_law [OF this assms(2)] obtain p q where
    e: "extract_top (sc_notify_time_compare (m_timed_objs s)) (m_timed_events s) = Inr (p, q)"
    "ppq_top (m_timed_events s) = Inr p" "ppq_ok (sc_notify_time_compare (m_timed_objs s)) q"
    "ppq_elems (m_timed_events s) = add_mset p (ppq_elems q)"
    "\<forall>y\<in>#ppq_elems (m_timed_events s). 0 \<le> sc_notify_time_compare (m_timed_objs s) p y" by blast
  have "count (add_mset p (ppq_elems q)) p \<le> 1" using assms(1) e(4) by (metis timed_ok_def)
  then have "p \<notin># ppq_elems q" by (simp add: not_in_iff)
  then show ?thesis using e by (intro that) (auto simp: extract_timed_def compare_nonneg)
qed

text \<open>The state after the object \<open>p\<close> is taken from the queue and deleted.\<close>

lemma taken_ok:
  assumes "timed_ok s" "ppq_elems (m_timed_events s) = add_mset p (ppq_elems q)" "p \<notin># ppq_elems q"
    "ppq_ok (sc_notify_time_compare (m_timed_objs s)) q" "m_timed_objs s p = Some et"
    and s': "m_timed_objs s' = (m_timed_objs s)(p := None)" "m_timed_events s' = q" "m_next_obj s' = m_next_obj s"
    and ev: "\<And>x. m_event et \<noteq> Some x \<Longrightarrow> ntype s' x = ntype s x \<and> m_timed (m_events s' x) = m_timed (m_events s x)"
    and tr: "\<And>x. m_event et = Some x \<Longrightarrow> ntype s' x = NONE"
  shows "timed_ok s'"
  unfolding timed_ok_def
proof (intro conjI allI impI ballI)
  have np: "r \<in># ppq_elems q \<Longrightarrow> r \<noteq> p" for r using assms(3) by auto
  show "ppq_ok (sc_notify_time_compare (m_timed_objs s')) (m_timed_events s')"
    unfolding s' by (rule ppq_ok_time_cong [OF assms(4)]) (use np in \<open>simp add: notify_time_def\<close>)
  have c: "\<And>x. count (add_mset p (ppq_elems q)) x \<le> 1" using assms(1,2) by (metis timed_ok_def)
  show "count (ppq_elems (m_timed_events s')) x \<le> 1" for x
    unfolding s' by (rule order_trans [OF _ c [of x]]) simp
  show "owned s' r" if "r \<in># ppq_elems (m_timed_events s')" for r
  proof -
    have r: "r \<in># ppq_elems q" "r \<noteq> p" using that np by (auto simp: s')
    then have "owned s r" using assms(1,2) by (simp add: timed_ok_def)
    then obtain er where er: "m_timed_objs s r = Some er"
      "\<And>x. m_event er = Some x \<Longrightarrow> ntype s x = TIMED \<and> m_timed (m_events s x) = Some r" by (auto simp: owned_def)
    have "owned s p" using assms(1,2) by (simp add: timed_ok_def)
    then have "m_event er = Some x \<Longrightarrow> m_event et \<noteq> Some x" for x
      using er(2) assms(5) r(2) by (fastforce simp: owned_def)
    then show ?thesis using er r(2) ev by (simp add: owned_def s')
  qed
  show "scheduled s' x" if "ntype s' x = TIMED" for x
  proof -
    have x: "m_event et \<noteq> Some x" using that tr [of x] by auto
    then have "ntype s x = TIMED" using that ev by simp
    then obtain r er where r: "m_timed (m_events s x) = Some r" "r \<in># ppq_elems (m_timed_events s)"
      "m_timed_objs s r = Some er" "m_event er = Some x"
      using assms(1) unfolding timed_ok_def scheduled_def by blast
    then have "r \<noteq> p" using x assms(5) by auto
    then show ?thesis using r ev [OF x] assms(2) by (auto simp: scheduled_def s')
  qed
  show "m_timed_objs s' r = None" if "m_next_obj s' \<le> r" for r
    using assms(1) that by (simp add: timed_ok_def s')
qed

lemma delete_cancelled:
  assumes "notifier_ok s" "ppq_elems (m_timed_events s) = add_mset p (ppq_elems q)" "p \<notin># ppq_elems q"
    "ppq_ok (sc_notify_time_compare (m_timed_objs s)) q" "m_timed_objs s p = Some et" "m_event et = None"
  shows "achieves s (delete_timed p (s\<lparr>m_timed_events := q\<rparr>)) (pending s)"
proof -
  let ?s = "s\<lparr>m_timed_events := q, m_timed_objs := (m_timed_objs s)(p := None)\<rparr>"
  have ok: "delta_ok s" "timed_ok s" using assms(1) by (simp_all add: notifier_ok_def)
  have r: "delete_timed p (s\<lparr>m_timed_events := q\<rparr>) = Inr ?s"
    using assms(5,6) by (simp add: delete_timed_def timed_at_def)
  have "timed_ok ?s" by (rule taken_ok [OF ok(2) assms(2-5)]) (use assms(6) in auto)
  moreover have "delta_ok ?s" by (rule delta_ok_cong [OF ok(1)]) auto
  moreover have "pending ?s x = pending s x" for x
  proof -
    have "ntype s x = TIMED \<Longrightarrow> the (m_timed (m_events s x)) \<noteq> p"
      using scheduledE [OF assms(1), of x] assms(5,6) by (metis option.distinct(1) option.sel)
    then show ?thesis by (auto simp: pending_def notify_time_def split: notify_t.split)
  qed
  ultimately show ?thesis using r by (auto simp: achieves_def notifier_ok_def kept_def fun_eq_iff)
qed

lemma ppq_size_0: "ppq_ok cmp q \<Longrightarrow> ppq_size q = 0 \<longleftrightarrow> ppq_elems q = {#}"
  by (auto simp: ppq_ok_def ppq_size_def ppq_elems_def dest: arg_cong [where f = size])

definition earliest :: "(nat \<Rightarrow> pending) \<Rightarrow> sc_time option \<Rightarrow> bool" where
  "earliest pend r \<longleftrightarrow> (case r of None \<Rightarrow> \<forall>e t. pend e \<noteq> At t
     | Some t \<Rightarrow> (\<exists>e. pend e = At t) \<and> (\<forall>e u. pend e = At u \<longrightarrow> t \<le> u))"

lemma pending_At:
  assumes "notifier_ok s" "pending s e = At t"
  obtains p where "p \<in># ppq_elems (m_timed_events s)" "notify_time (m_timed_objs s) p = t"
proof -
  have "ntype s e = TIMED" using assms(2) by (simp add: pending_def split: notify_t.splits)
  from scheduledE [OF assms(1) this] obtain p where
    "m_timed (m_events s e) = Some p" "p \<in># ppq_elems (m_timed_events s)" by blast
  then show ?thesis using assms(2) \<open>ntype s e = TIMED\<close> by (intro that [of p]) (simp_all add: pending_def)
qed

lemma next_time_ok:
  "notifier_ok s \<Longrightarrow> \<exists>r s'. next_time s = Inr (r, s') \<and> notifier_ok s' \<and> pending s' = pending s \<and> kept s s' \<and>
    earliest (pending s) r"
proof (induction "m_heap_size (m_timed_events s)" arbitrary: s rule: less_induct)
  case less
  let ?q = "m_timed_events s"
  have ok: "timed_ok s" using less.prems by (simp add: notifier_ok_def)
  then have z: "ppq_size ?q = 0 \<longleftrightarrow> ppq_elems ?q = {#}" by (intro ppq_size_0) (auto simp: timed_ok_def)
  show ?case
  proof (cases "ppq_elems ?q = {#}")
    case True
    then have "earliest (pending s) None"
      using pending_At [OF less.prems] by (fastforce simp: earliest_def)
    then show ?thesis using True z less.prems by (subst next_time.simps) auto
  next
    case False
    obtain p q where p: "extract_timed s = Inr (p, s\<lparr>m_timed_events := q\<rparr>)" "ppq_top ?q = Inr p"
      "ppq_elems ?q = add_mset p (ppq_elems q)"
      "\<And>r. r \<in># ppq_elems ?q \<Longrightarrow> notify_time (m_timed_objs s) p \<le> notify_time (m_timed_objs s) r"
      "ppq_ok (sc_notify_time_compare (m_timed_objs s)) q" "p \<notin># ppq_elems q"
      using extract_timed_ok [OF ok False] by metis
    have "owned s p" using ok p(3) by (simp add: timed_ok_def)
    then obtain et where et: "m_timed_objs s p = Some et"
      "\<And>e. m_event et = Some e \<Longrightarrow> ntype s e = TIMED \<and> m_timed (m_events s e) = Some p" by (auto simp: owned_def)
    show ?thesis
    proof (cases "m_event et")
      case None
      obtain s1 where s1: "delete_timed p (s\<lparr>m_timed_events := q\<rparr>) = Inr s1" "notifier_ok s1"
        "pending s1 = pending s" "kept s s1"
        using delete_cancelled [OF less.prems p(3,6,5) et(1) None] by (auto simp: achieves_def)
      have "m_heap_size (m_timed_events s1) < m_heap_size ?q"
        using extract_timed_size [OF p(1)] delete_timed_queue [OF s1(1)] by simp
      from less.hyps [OF this s1(2)] obtain r s' where r: "next_time s1 = Inr (r, s')" "notifier_ok s'"
        "pending s' = pending s" "kept s1 s'" "earliest (pending s) r" by (auto simp: s1(3))
      have "next_time s = Inr (r, s')"
        using False z p(1,2) et(1) None s1(1) r(1) by (subst next_time.simps) (simp add: timed_at_def)
      then show ?thesis using r kept_trans [OF s1(4) r(4)] by blast
    next
      case (Some e)
      then have e: "pending s e = At (m_notify_time et)"
        using et by (simp add: pending_def notify_time_def)
      have "m_notify_time et \<le> t" if "pending s x = At t" for x t
        using pending_At [OF less.prems that] p(4) et(1) by (metis notify_time_def option.simps(5))
      then have "earliest (pending s) (Some (m_notify_time et))" using e by (auto simp: earliest_def)
      moreover have "next_time s = Inr (Some (m_notify_time et), s)"
        using False z p(2) et(1) Some by (subst next_time.simps) (simp add: timed_at_def)
      ultimately show ?thesis using less.prems by auto
    qed
  qed
qed

end
