(* ===== verification/Sc_Runnable.thy ===== *)
theory Sc_Runnable
  imports Prelude
begin

text \<open>
  \<open>sysc/kernel/sc_runnable_int.h\<close>: the queues of the runnable processes. Each process has a link
  \<open>m_runnable_p\<close>; it is null when the process is not queued, and the last process of a queue links to
  the mark \<open>SC_NO_METHODS\<close> (\<open>SC_NO_THREADS\<close>). A kind of process has a push queue, headed by a process
  instance that never runs, and a pop queue. Methods and threads have the same operations on queues of
  their own, so they are one record of links; processes are their addresses.
\<close>

section \<open>State\<close>

datatype proc_link = Not_queued | Queue_end | To (address: nat)

record proc_queue =
  next_runnable :: "nat \<Rightarrow> proc_link"
  push_head :: "nat option"
  push_tail :: "nat option"
  pop_queue :: proc_link

definition new_queue :: proc_queue where
  "new_queue = \<lparr>next_runnable = (\<lambda>_. Not_queued), push_head = None, push_tail = None, pop_queue = Queue_end\<rparr>"

definition set_next_runnable :: "nat \<Rightarrow> proc_link \<Rightarrow> proc_queue \<Rightarrow> proc_queue" where
  "set_next_runnable p l q = q\<lparr>next_runnable := (next_runnable q)(p := l)\<rparr>"

definition is_runnable :: "nat \<Rightarrow> proc_queue \<Rightarrow> bool" where
  "is_runnable p q \<longleftrightarrow> next_runnable q p \<noteq> Not_queued"

definition deref :: "nat option \<Rightarrow> nat result" where
  "deref p = (case p of None \<Rightarrow> Inl Null_pointer | Some a \<Rightarrow> Inr a)"

lemma deref_Some [simp, result_simps]: "deref (Some a) = Inr a"
  by (simp add: deref_def)

section \<open>Operations\<close>

text \<open>\<open>h\<close> is the address that \<open>new\<close> returns, if the head has to be allocated.\<close>

definition init_queue :: "nat \<Rightarrow> proc_queue \<Rightarrow> proc_queue" where
  "init_queue h q =
     (let hd = (case push_head q of None \<Rightarrow> h | Some a \<Rightarrow> a)
      in set_next_runnable hd Queue_end (q\<lparr>pop_queue := Queue_end, push_head := Some hd, push_tail := Some hd\<rparr>))"

definition execute_next :: "nat \<Rightarrow> proc_queue \<Rightarrow> proc_queue" where
  "execute_next p q = (set_next_runnable p (pop_queue q) q)\<lparr>pop_queue := To p\<rparr>"

definition is_initialized :: "proc_queue \<Rightarrow> bool" where
  "is_initialized q \<longleftrightarrow> push_head q \<noteq> None"

definition queue_is_empty :: "proc_queue \<Rightarrow> bool result" where
  "queue_is_empty q = bind_result (deref (push_head q)) (\<lambda>h.
     Inr (next_runnable q h = Queue_end \<and> pop_queue q = Queue_end))"

definition push_back :: "nat \<Rightarrow> proc_queue \<Rightarrow> proc_queue result" where
  "push_back p q = bind_result (deref (push_tail q)) (\<lambda>t.
     Inr ((set_next_runnable t (To p) (set_next_runnable p Queue_end q))\<lparr>push_tail := Some p\<rparr>))"

definition push_front :: "nat \<Rightarrow> proc_queue \<Rightarrow> proc_queue result" where
  "push_front p q = bind_result (deref (push_head q)) (\<lambda>h.
     let q1 = set_next_runnable p (next_runnable q h) q
     in if push_tail q = push_head q
        then Inr ((set_next_runnable h (To p) q1)\<lparr>push_tail := Some p\<rparr>)
        else Inr (set_next_runnable h (To p) q1))"

definition pop_runnable :: "proc_queue \<Rightarrow> nat option \<times> proc_queue" where
  "pop_runnable q = (case pop_queue q of
       To p \<Rightarrow> (Some p, set_next_runnable p Not_queued (q\<lparr>pop_queue := next_runnable q p\<rparr>))
     | _ \<Rightarrow> (None, q))"

definition toggle :: "proc_queue \<Rightarrow> proc_queue result" where
  "toggle q =
     (if pop_queue q = Queue_end
      then bind_result (deref (push_head q)) (\<lambda>h.
        Inr ((set_next_runnable h Queue_end (q\<lparr>pop_queue := next_runnable q h\<rparr>))\<lparr>push_tail := Some h\<rparr>))
      else Inr q)"

text \<open>
  The search of \<open>remove\<close> along a queue: \<open>Some (Inr (Some prior))\<close> when the process is found, with the
  entry before it. It need not end on a cyclic list, so its result is an option.
\<close>

partial_function (option) search :: "(nat \<Rightarrow> proc_link) \<Rightarrow> nat \<Rightarrow> nat option \<Rightarrow> proc_link \<Rightarrow> nat option option result option" where
  "search nx r prior now =
     (if now = Queue_end then Some (Inr None)
      else if now = Not_queued then Some (Inl Null_pointer)
      else if now = To r then Some (Inr (Some prior))
      else search nx r (Some (address now)) (nx (address now)))"

definition remove_runnable :: "nat \<Rightarrow> proc_queue \<Rightarrow> proc_queue result option" where
  "remove_runnable r q =
     (if \<not> is_initialized q then Some (Inr q)
      else let h = the (push_head q) in
        case search (next_runnable q) r (Some h) (To h) of
          None \<Rightarrow> None
        | Some (Inl f) \<Rightarrow> Some (Inl f)
        | Some (Inr (Some prior)) \<Rightarrow>
            (let q1 = set_next_runnable (the prior) (next_runnable q r) q;
                 q2 = (if push_tail q = Some r then q1\<lparr>push_tail := prior\<rparr> else q1)
             in Some (Inr (set_next_runnable r Not_queued q2)))
        | Some (Inr None) \<Rightarrow>
            (case search (next_runnable q) r None (pop_queue q) of
               None \<Rightarrow> None
             | Some (Inl f) \<Rightarrow> Some (Inl f)
             | Some (Inr None) \<Rightarrow> Some (Inr q)
             | Some (Inr (Some prior)) \<Rightarrow>
                 (let q1 = (case prior of
                         None \<Rightarrow> q\<lparr>pop_queue := next_runnable q r\<rparr>
                       | Some p \<Rightarrow> set_next_runnable p (next_runnable q r) q)
                  in Some (Inr (set_next_runnable r Not_queued q1)))))"

section \<open>Both kinds of processes\<close>

record sc_runnable =
  m_methods :: proc_queue
  m_threads :: proc_queue

definition new_runnable :: sc_runnable where
  "new_runnable = \<lparr>m_methods = new_queue, m_threads = new_queue\<rparr>"

definition runnable_init :: "nat \<Rightarrow> nat \<Rightarrow> sc_runnable \<Rightarrow> sc_runnable" where
  "runnable_init hm ht r = \<lparr>m_methods = init_queue hm (m_methods r), m_threads = init_queue ht (m_threads r)\<rparr>"

definition runnable_is_empty :: "sc_runnable \<Rightarrow> bool result" where
  "runnable_is_empty r = bind_result (queue_is_empty (m_methods r)) (\<lambda>b.
     if b then queue_is_empty (m_threads r) else Inr False)"

definition runnable_is_initialized :: "sc_runnable \<Rightarrow> bool" where
  "runnable_is_initialized r \<longleftrightarrow> is_initialized (m_methods r) \<and> is_initialized (m_threads r)"

definition execute_method_next :: "nat \<Rightarrow> sc_runnable \<Rightarrow> sc_runnable" where
  "execute_method_next p r = r\<lparr>m_methods := execute_next p (m_methods r)\<rparr>"

definition execute_thread_next :: "nat \<Rightarrow> sc_runnable \<Rightarrow> sc_runnable" where
  "execute_thread_next p r = r\<lparr>m_threads := execute_next p (m_threads r)\<rparr>"

definition push_back_method :: "nat \<Rightarrow> sc_runnable \<Rightarrow> sc_runnable result" where
  "push_back_method p r = bind_result (push_back p (m_methods r)) (\<lambda>q. Inr (r\<lparr>m_methods := q\<rparr>))"

definition push_back_thread :: "nat \<Rightarrow> sc_runnable \<Rightarrow> sc_runnable result" where
  "push_back_thread p r = bind_result (push_back p (m_threads r)) (\<lambda>q. Inr (r\<lparr>m_threads := q\<rparr>))"

definition push_front_method :: "nat \<Rightarrow> sc_runnable \<Rightarrow> sc_runnable result" where
  "push_front_method p r = bind_result (push_front p (m_methods r)) (\<lambda>q. Inr (r\<lparr>m_methods := q\<rparr>))"

definition push_front_thread :: "nat \<Rightarrow> sc_runnable \<Rightarrow> sc_runnable result" where
  "push_front_thread p r = bind_result (push_front p (m_threads r)) (\<lambda>q. Inr (r\<lparr>m_threads := q\<rparr>))"

definition pop_method :: "sc_runnable \<Rightarrow> nat option \<times> sc_runnable" where
  "pop_method r = (let (p, q) = pop_runnable (m_methods r) in (p, r\<lparr>m_methods := q\<rparr>))"

definition pop_thread :: "sc_runnable \<Rightarrow> nat option \<times> sc_runnable" where
  "pop_thread r = (let (p, q) = pop_runnable (m_threads r) in (p, r\<lparr>m_threads := q\<rparr>))"

definition toggle_methods :: "sc_runnable \<Rightarrow> sc_runnable result" where
  "toggle_methods r = bind_result (toggle (m_methods r)) (\<lambda>q. Inr (r\<lparr>m_methods := q\<rparr>))"

definition toggle_threads :: "sc_runnable \<Rightarrow> sc_runnable result" where
  "toggle_threads r = bind_result (toggle (m_threads r)) (\<lambda>q. Inr (r\<lparr>m_threads := q\<rparr>))"

definition remove_method :: "nat \<Rightarrow> sc_runnable \<Rightarrow> sc_runnable result option" where
  "remove_method p r = (if \<not> runnable_is_initialized r then Some (Inr r)
     else map_option (\<lambda>x. bind_result x (\<lambda>q. Inr (r\<lparr>m_methods := q\<rparr>))) (remove_runnable p (m_methods r)))"

definition remove_thread :: "nat \<Rightarrow> sc_runnable \<Rightarrow> sc_runnable result option" where
  "remove_thread p r = (if \<not> runnable_is_initialized r then Some (Inr r)
     else map_option (\<lambda>x. bind_result x (\<lambda>q. Inr (r\<lparr>m_threads := q\<rparr>))) (remove_runnable p (m_threads r)))"

section \<open>The contract of a queue of processes\<close>

text \<open>
  What the kernel relies on: a queue holds the processes pushed since the last toggle and those still
  to be popped, each at most once.
\<close>

locale run_queue =
  fixes rq_push :: "nat \<Rightarrow> 'q \<Rightarrow> 'q result"
    and rq_pop :: "'q \<Rightarrow> nat option \<times> 'q"
    and rq_toggle :: "'q \<Rightarrow> 'q result"
    and rq_empty :: "'q \<Rightarrow> bool result"
    and rq_rep :: "'q \<Rightarrow> nat list \<Rightarrow> nat list \<Rightarrow> bool"
    and rq_proc :: "'q \<Rightarrow> nat \<Rightarrow> bool"
  assumes push_law: "rq_rep q xs ys \<Longrightarrow> p \<notin> set xs \<union> set ys \<Longrightarrow> rq_proc q p \<Longrightarrow>
      \<exists>q'. rq_push p q = Inr q' \<and> rq_rep q' (xs @ [p]) ys \<and> rq_proc q' = rq_proc q"
    and pop_law: "rq_rep q xs (p # ys) \<Longrightarrow> \<exists>q'. rq_pop q = (Some p, q') \<and> rq_rep q' xs ys \<and> rq_proc q' = rq_proc q"
    and pop_empty_law: "rq_rep q xs [] \<Longrightarrow> rq_pop q = (None, q)"
    and toggle_law: "rq_rep q xs [] \<Longrightarrow> \<exists>q'. rq_toggle q = Inr q' \<and> rq_rep q' [] xs \<and> rq_proc q' = rq_proc q"
    and toggle_busy_law: "rq_rep q xs ys \<Longrightarrow> ys \<noteq> [] \<Longrightarrow> rq_toggle q = Inr q"
    and empty_law: "rq_rep q xs ys \<Longrightarrow> rq_empty q = Inr (xs = [] \<and> ys = [])"
begin

fun push_all :: "nat list \<Rightarrow> 'q \<Rightarrow> 'q result" where
  "push_all [] q = Inr q"
| "push_all (p # ps) q = bind_result (rq_push p q) (push_all ps)"

fun pop_all :: "nat \<Rightarrow> 'q \<Rightarrow> nat list \<times> 'q" where
  "pop_all 0 q = ([], q)"
| "pop_all (Suc n) q = (case rq_pop q of (None, q1) \<Rightarrow> ([], q1)
     | (Some p, q1) \<Rightarrow> (let (ps, q2) = pop_all n q1 in (p # ps, q2)))"

lemma push_all_rep:
  "rq_rep q xs ys \<Longrightarrow> distinct ps \<Longrightarrow> set ps \<inter> (set xs \<union> set ys) = {} \<Longrightarrow> (\<forall>p\<in>set ps. rq_proc q p) \<Longrightarrow>
    \<exists>q'. push_all ps q = Inr q' \<and> rq_rep q' (xs @ ps) ys \<and> rq_proc q' = rq_proc q"
proof (induction ps arbitrary: q xs)
  case (Cons p ps)
  then obtain q1 where q1: "rq_push p q = Inr q1" "rq_rep q1 (xs @ [p]) ys" "rq_proc q1 = rq_proc q"
    using push_law [of q xs ys p] by auto
  with Cons.IH [OF q1(2)] Cons.prems show ?case by auto
qed simp

lemma pop_all_rep: "rq_rep q xs ys \<Longrightarrow> \<exists>q'. pop_all (length ys) q = (ys, q') \<and> rq_rep q' xs [] \<and> rq_proc q' = rq_proc q"
proof (induction ys arbitrary: q)
  case (Cons p ys)
  obtain q1 where q1: "rq_pop q = (Some p, q1)" "rq_rep q1 xs ys" "rq_proc q1 = rq_proc q"
    using pop_law [OF Cons.prems] by blast
  with Cons.IH [OF q1(2)] show ?case by auto
qed simp

text \<open>The processes pushed in one evaluation phase run in that order in the next one.\<close>

lemma round_trip:
  assumes "rq_rep q [] []" "distinct ps" "\<forall>p\<in>set ps. rq_proc q p"
  shows "\<exists>q1 q2 q3. push_all ps q = Inr q1 \<and> rq_toggle q1 = Inr q2 \<and> pop_all (length ps) q2 = (ps, q3) \<and> rq_rep q3 [] []"
proof -
  obtain q1 where q1: "push_all ps q = Inr q1" "rq_rep q1 ps []" using push_all_rep [OF assms(1,2)] assms(3) by auto
  obtain q2 where q2: "rq_toggle q1 = Inr q2" "rq_rep q2 [] ps" using toggle_law [OF q1(2)] by blast
  from pop_all_rep [OF q2(2)] q1(1) q2(1) show ?thesis by auto
qed

end

end
