(* ===== verification/Sc_Runnable_Facts.thy ===== *)
theory Sc_Runnable_Facts
  imports Sc_Runnable
begin

text \<open>
  The linked queues of \<open>sc_runnable_int.h\<close> hold two lists of processes, each process at most once, and
  a process has a link exactly when it is in one of them. They meet the contract of \<open>run_queue\<close>.
\<close>

section \<open>Chains of links\<close>

fun chain :: "(nat \<Rightarrow> proc_link) \<Rightarrow> proc_link \<Rightarrow> nat list \<Rightarrow> bool" where
  "chain nx l [] \<longleftrightarrow> l = Queue_end"
| "chain nx l (x # xs) \<longleftrightarrow> l = To x \<and> chain nx (nx x) xs"

lemma chain_upd [simp]: "p \<notin> set xs \<Longrightarrow> chain (nx(p := m)) l xs = chain nx l xs"
  by (induction nx l xs rule: chain.induct) auto

lemma chain_linked: "chain nx l xs \<Longrightarrow> x \<in> set xs \<Longrightarrow> nx x \<noteq> Not_queued"
proof (induction nx l xs rule: chain.induct)
  case (2 nx l y ys)
  then show ?case by (cases ys) auto
qed simp

lemma chain_cut:
  "chain nx l (us @ r # vs) \<Longrightarrow> us \<noteq> [] \<Longrightarrow> distinct (us @ r # vs) \<Longrightarrow>
    chain (nx(last us := nx r)) l (us @ vs)"
proof (induction us arbitrary: l)
  case (Cons u us)
  then have c: "l = To u" "chain nx (nx u) (us @ r # vs)" by auto
  show ?case
  proof (cases "us = []")
    case True
    then have "nx u = To r" "chain nx (nx r) vs" "u \<notin> set vs" using c Cons.prems(3) by auto
    then have "chain (nx(u := nx r)) l ((u # us) @ vs)" unfolding True using c(1) chain_upd [of u vs] by simp
    then show ?thesis using True by (simp only: last.simps simp_thms if_True)
  next
    case False
    then have "last us \<in> set us" by simp
    then have "u \<noteq> last us" using Cons.prems(3) by auto
    then show ?thesis using Cons.IH [OF c(2) False] Cons.prems(3) c(1) False by simp
  qed
qed simp

lemma chain_rest: "chain nx l (us @ r # vs) \<Longrightarrow> chain nx (nx r) vs"
  by (induction us arbitrary: l) auto

lemma chain_extend:
  "chain nx (nx h) xs \<Longrightarrow> distinct (h # xs) \<Longrightarrow> p \<notin> set (h # xs) \<Longrightarrow>
    chain (nx(p := Queue_end, last (h # xs) := To p)) ((nx(p := Queue_end, last (h # xs) := To p)) h) (xs @ [p])"
proof (induction xs arbitrary: h)
  case (Cons x xs)
  have "last (h # x # xs) = last (x # xs)" "last (x # xs) \<in> set (x # xs)" by simp_all
  then have "h \<noteq> last (x # xs)" using Cons.prems(2) by (metis distinct.simps(2))
  then show ?case using Cons.IH [of x] Cons.prems by auto
qed auto

section \<open>The search\<close>

lemma search_chain:
  "chain nx l (us @ r # vs) \<Longrightarrow> r \<notin> set us \<Longrightarrow>
    search nx r prior l = Some (Inr (Some (if us = [] then prior else Some (last us))))"
proof (induction us arbitrary: l prior)
  case Nil
  then show ?case by (subst search.simps) simp
next
  case (Cons u us)
  then show ?case by (subst search.simps) simp
qed

lemma search_none: "chain nx l xs \<Longrightarrow> r \<notin> set xs \<Longrightarrow> search nx r prior l = Some (Inr None)"
proof (induction xs arbitrary: l prior)
  case Nil
  then show ?case by (subst search.simps) simp
next
  case (Cons x xs)
  then show ?case by (subst search.simps) simp
qed

section \<open>Representation\<close>

definition queue_rep :: "proc_queue \<Rightarrow> nat list \<Rightarrow> nat list \<Rightarrow> bool" where
  "queue_rep q xs ys \<longleftrightarrow> (\<exists>h. push_head q = Some h \<and> push_tail q = Some (last (h # xs)) \<and>
     chain (next_runnable q) (next_runnable q h) xs \<and> chain (next_runnable q) (pop_queue q) ys \<and>
     distinct (h # xs @ ys) \<and> (\<forall>p. is_runnable p q \<longleftrightarrow> p \<in> set (h # xs @ ys)))"

definition real_process :: "proc_queue \<Rightarrow> nat \<Rightarrow> bool" where
  "real_process q p \<longleftrightarrow> push_head q \<noteq> Some p"

lemma queue_repE:
  assumes "queue_rep q xs ys"
  obtains h where "push_head q = Some h" "push_tail q = Some (last (h # xs))"
    "chain (next_runnable q) (next_runnable q h) xs" "chain (next_runnable q) (pop_queue q) ys"
    "distinct (h # xs @ ys)" "\<And>p. is_runnable p q \<longleftrightarrow> p \<in> set (h # xs @ ys)"
  using assms unfolding queue_rep_def by blast

lemma set_next_simps [simp]:
  "next_runnable (set_next_runnable p l q) = (next_runnable q)(p := l)"
  "push_head (set_next_runnable p l q) = push_head q" "push_tail (set_next_runnable p l q) = push_tail q"
  "pop_queue (set_next_runnable p l q) = pop_queue q"
  by (simp_all add: set_next_runnable_def)

lemma init_queue_rep: "next_runnable q = (\<lambda>_. Not_queued) \<Longrightarrow> queue_rep (init_queue h q) [] []"
  by (auto simp: queue_rep_def init_queue_def Let_def is_runnable_def split: option.split)

lemma push_back_rep:
  assumes "queue_rep q xs ys" "p \<notin> set xs \<union> set ys" "real_process q p"
  shows "\<exists>q'. push_back p q = Inr q' \<and> queue_rep q' (xs @ [p]) ys \<and> real_process q' = real_process q"
proof -
  obtain h where h: "push_head q = Some h" "push_tail q = Some (last (h # xs))"
    "chain (next_runnable q) (next_runnable q h) xs" "chain (next_runnable q) (pop_queue q) ys"
    "distinct (h # xs @ ys)" "\<And>p. is_runnable p q \<longleftrightarrow> p \<in> set (h # xs @ ys)" by (rule queue_repE [OF assms(1)]) blast
  have ph: "p \<noteq> h" using assms(3) h(1) by (simp add: real_process_def)
  let ?t = "last (h # xs)"
  have t: "?t \<in> set (h # xs)" using last_in_set by blast
  then have ty: "?t \<notin> set ys" "?t \<noteq> p" using h(5) assms(2) ph by auto
  define q' where "q' = (set_next_runnable ?t (To p) (set_next_runnable p Queue_end q))\<lparr>push_tail := Some p\<rparr>"
  have q': "next_runnable q' = (next_runnable q)(p := Queue_end, ?t := To p)" "push_head q' = Some h"
    "push_tail q' = Some p" "pop_queue q' = pop_queue q" using h(1) by (simp_all add: q'_def)
  have "chain (next_runnable q') (next_runnable q' h) (xs @ [p])"
    unfolding q' by (rule chain_extend [OF h(3)]) (use h(5) assms(2) ph in auto)
  moreover have "chain (next_runnable q') (pop_queue q') ys" using h(4) ty(1) assms(2) by (simp add: q')
  moreover have "is_runnable x q' \<longleftrightarrow> x \<in> set (h # (xs @ [p]) @ ys)" for x
    using h(6) [of x] t by (auto simp: is_runnable_def q')
  moreover have "distinct (h # (xs @ [p]) @ ys)" using h(5) ph assms(2) by auto
  ultimately have "queue_rep q' (xs @ [p]) ys" unfolding queue_rep_def using q'(2,3) by auto
  moreover have "push_back p q = Inr q'" using h(2) by (simp add: push_back_def q'_def)
  moreover have "real_process q' = real_process q" using q'(2) h(1) by (simp add: real_process_def fun_eq_iff)
  ultimately show ?thesis by blast
qed

lemma push_front_rep:
  assumes "queue_rep q xs ys" "p \<notin> set xs \<union> set ys" "real_process q p"
  shows "\<exists>q'. push_front p q = Inr q' \<and> queue_rep q' (p # xs) ys \<and> real_process q' = real_process q"
proof -
  obtain h where h: "push_head q = Some h" "push_tail q = Some (last (h # xs))"
    "chain (next_runnable q) (next_runnable q h) xs" "chain (next_runnable q) (pop_queue q) ys"
    "distinct (h # xs @ ys)" "\<And>p. is_runnable p q \<longleftrightarrow> p \<in> set (h # xs @ ys)" by (rule queue_repE [OF assms(1)]) blast
  have ph: "p \<noteq> h" using assms(3) h(1) by (simp add: real_process_def)
  define q1 where "q1 = set_next_runnable h (To p) (set_next_runnable p (next_runnable q h) q)"
  define q' where "q' = (if xs = [] then q1\<lparr>push_tail := Some p\<rparr> else q1)"
  have empty: "push_tail q = push_head q \<longleftrightarrow> xs = []"
  proof (cases "xs = []")
    case False
    then have "last xs \<in> set xs" by simp
    then show ?thesis using False h(1,2,5) by auto
  qed (use h(1,2) in simp)
  have q': "next_runnable q' = (next_runnable q)(p := next_runnable q h, h := To p)" "push_head q' = Some h"
    "push_tail q' = Some (last (h # p # xs))" "pop_queue q' = pop_queue q"
    using h(1,2) by (simp_all add: q'_def q1_def)
  have lh: "next_runnable q h \<noteq> Not_queued" using h(6) [of h] by (simp add: is_runnable_def)
  have "push_front p q = Inr q'" using h(1) empty by (simp add: push_front_def Let_def q'_def q1_def)
  moreover have "queue_rep q' (p # xs) ys"
    unfolding queue_rep_def
  proof (intro exI [of _ h] conjI allI)
    show "is_runnable x q' \<longleftrightarrow> x \<in> set (h # (p # xs) @ ys)" for x
      using h(6) [of x] lh by (auto simp: is_runnable_def q')
  qed (use q' h(3-5) ph assms(2) in auto)
  moreover have "real_process q' = real_process q" using q'(2) h(1) by (simp add: real_process_def fun_eq_iff)
  ultimately show ?thesis by blast
qed

lemma pop_rep:
  assumes "queue_rep q xs (p # ys)"
  shows "\<exists>q'. pop_runnable q = (Some p, q') \<and> queue_rep q' xs ys \<and> real_process q' = real_process q"
proof -
  obtain h where h: "push_head q = Some h" "push_tail q = Some (last (h # xs))"
    "chain (next_runnable q) (next_runnable q h) xs" "chain (next_runnable q) (pop_queue q) (p # ys)"
    "distinct (h # xs @ p # ys)" "\<And>x. is_runnable x q \<longleftrightarrow> x \<in> set (h # xs @ p # ys)" by (rule queue_repE [OF assms]) blast
  define q' where "q' = set_next_runnable p Not_queued (q\<lparr>pop_queue := next_runnable q p\<rparr>)"
  have "pop_runnable q = (Some p, q')" using h(4) by (simp add: pop_runnable_def q'_def)
  moreover have "is_runnable x q' \<longleftrightarrow> x \<in> set (h # xs @ ys)" for x
    using h(5) h(6) [of x] by (auto simp: is_runnable_def q'_def)
  then have "queue_rep q' xs ys" using h(1-5) by (auto simp: queue_rep_def q'_def)
  moreover have "real_process q' = real_process q" by (simp add: real_process_def fun_eq_iff q'_def)
  ultimately show ?thesis by blast
qed

lemma toggle_rep:
  assumes "queue_rep q xs []"
  shows "\<exists>q'. toggle q = Inr q' \<and> queue_rep q' [] xs \<and> real_process q' = real_process q"
proof -
  obtain h where h: "push_head q = Some h" "push_tail q = Some (last (h # xs))"
    "chain (next_runnable q) (next_runnable q h) xs" "chain (next_runnable q) (pop_queue q) []"
    "distinct (h # xs)" "\<And>x. is_runnable x q \<longleftrightarrow> x \<in> set (h # xs)" by (rule queue_repE [OF assms]) auto
  define q' where "q' = (set_next_runnable h Queue_end (q\<lparr>pop_queue := next_runnable q h\<rparr>))\<lparr>push_tail := Some h\<rparr>"
  have "toggle q = Inr q'" using h(1,4) by (simp add: toggle_def q'_def)
  moreover have "is_runnable x q' \<longleftrightarrow> x \<in> set (h # [] @ xs)" for x
    using h(6) [of x] by (auto simp: is_runnable_def q'_def)
  then have "queue_rep q' [] xs" using h(1-5) by (auto simp: queue_rep_def q'_def)
  moreover have "real_process q' = real_process q" by (simp add: real_process_def fun_eq_iff q'_def)
  ultimately show ?thesis by blast
qed

lemma remove_rep:
  assumes "queue_rep q xs ys" "real_process q r"
  shows "\<exists>q'. remove_runnable r q = Some (Inr q') \<and> queue_rep q' (remove1 r xs) (remove1 r ys)"
proof -
  obtain h where h: "push_head q = Some h" "push_tail q = Some (last (h # xs))"
    "chain (next_runnable q) (next_runnable q h) xs" "chain (next_runnable q) (pop_queue q) ys"
    "distinct (h # xs @ ys)" "\<And>x. is_runnable x q \<longleftrightarrow> x \<in> set (h # xs @ ys)" by (rule queue_repE [OF assms(1)]) blast
  let ?nx = "next_runnable q"
  have rh: "r \<noteq> h" using assms(2) h(1) by (simp add: real_process_def)
  have hc: "chain ?nx (To h) (h # xs)" using h(3) by simp
  consider "r \<in> set xs" | "r \<notin> set xs" "r \<in> set ys" | "r \<notin> set xs" "r \<notin> set ys" by blast
  then show ?thesis
  proof cases
    case 1
    then obtain us vs where xs: "xs = us @ r # vs" "r \<notin> set us" using split_list_first by metis
    let ?p = "last (h # us)"
    have pin: "?p \<in> set (h # us)" using last_in_set by blast
    have p: "?p \<noteq> r" "?p \<notin> set vs" "?p \<notin> set ys" using pin h(5) xs rh by auto
    have s: "search ?nx r (Some h) (To h) = Some (Inr (Some (Some ?p)))"
      using search_chain [of ?nx "To h" "h # us" r vs] hc xs rh by simp
    define q2 where "q2 = (if push_tail q = Some r then (set_next_runnable ?p (?nx r) q)\<lparr>push_tail := Some ?p\<rparr>
      else set_next_runnable ?p (?nx r) q)"
    define q' where "q' = set_next_runnable r Not_queued q2"
    have r: "remove_runnable r q = Some (Inr q')"
      using s h(1) by (simp add: remove_runnable_def is_initialized_def Let_def q'_def q2_def)
    have tail: "push_tail q = Some r \<longleftrightarrow> vs = []" using h(2,5) xs(1) by (cases vs rule: rev_cases) auto
    have q': "next_runnable q' = ?nx(?p := ?nx r, r := Not_queued)" "push_head q' = Some h"
      "push_tail q' = Some (last (h # us @ vs))" "pop_queue q' = pop_queue q"
      using h(1,2) tail xs(1) by (auto simp: q'_def q2_def)
    define nx1 where "nx1 = ?nx(?p := ?nx r)"
    have "chain nx1 (To h) ((h # us) @ vs)"
      unfolding nx1_def by (rule chain_cut) (use hc xs h(5) in auto)
    then have c: "chain nx1 (nx1 h) (us @ vs)" by simp
    have nx1: "?nx(?p := ?nx r, r := Not_queued) = nx1(r := Not_queued)" by (simp add: nx1_def)
    have "queue_rep q' (us @ vs) ys"
      unfolding queue_rep_def
    proof (intro exI [of _ h] conjI allI)
      have rn: "r \<notin> set (us @ vs)" using h(5) xs(1) by simp
      show "chain (next_runnable q') (next_runnable q' h) (us @ vs)"
        unfolding q'(1) nx1 using c rh chain_upd [OF rn, of nx1 Not_queued] by simp
      have "?nx r \<noteq> Not_queued" using h(6) [of r] xs by (simp add: is_runnable_def)
      then show "is_runnable x q' \<longleftrightarrow> x \<in> set (h # (us @ vs) @ ys)" for x
        using h(5) h(6) [of x] pin rh unfolding is_runnable_def q' xs by auto
      show "chain (next_runnable q') (pop_queue q') ys" using h(4,5) p(3) xs(1) by (simp add: q')
    qed (use q' h(5) xs(1) in auto)
    moreover have "remove1 r xs = us @ vs" "remove1 r ys = ys" using xs h(5) by (auto simp: remove1_append remove1_idem)
    ultimately show ?thesis using r by auto
  next
    case 2
    then obtain us vs where ys: "ys = us @ r # vs" "r \<notin> set us" using split_list_first by metis
    have s1: "search ?nx r (Some h) (To h) = Some (Inr None)" using search_none [OF hc] 2(1) rh by simp
    define prior where "prior = (if us = [] then None else Some (last us))"
    have s2: "search ?nx r None (pop_queue q) = Some (Inr (Some prior))"
      using search_chain [of ?nx "pop_queue q" us r vs] h(4) ys by (simp add: prior_def)
    define q1 where "q1 = (case prior of None \<Rightarrow> q\<lparr>pop_queue := ?nx r\<rparr> | Some p \<Rightarrow> set_next_runnable p (?nx r) q)"
    define q' where "q' = set_next_runnable r Not_queued q1"
    have r: "remove_runnable r q = Some (Inr q')"
      using s1 s2 h(1) by (simp add: remove_runnable_def is_initialized_def Let_def q'_def q1_def)
    have rl: "?nx r \<noteq> Not_queued" using h(6) [of r] ys by (simp add: is_runnable_def)
    have "queue_rep q' xs (us @ vs)"
    proof (cases "us = []")
      case True
      then have q': "q' = set_next_runnable r Not_queued (q\<lparr>pop_queue := ?nx r\<rparr>)" by (simp add: q'_def q1_def prior_def)
      have "chain ?nx (?nx r) vs" using chain_rest [of ?nx _ us] h(4) ys(1) by simp
      then show ?thesis using h True ys(1) rh 2(1) unfolding q' queue_rep_def
        by (intro exI [of _ h]) (auto simp: is_runnable_def)
    next
      case False
      let ?p = "last us"
      have pin: "?p \<in> set us" using False by simp
      then have p: "?p \<noteq> r" "?p \<noteq> h" "?p \<notin> set xs" using h(5) ys by auto
      have q': "q' = set_next_runnable r Not_queued (set_next_runnable ?p (?nx r) q)"
        using False by (simp add: q'_def q1_def prior_def)
      have c: "chain (?nx(?p := ?nx r)) (pop_queue q) (us @ vs)"
        by (rule chain_cut) (use h(4,5) ys False in auto)
      have "is_runnable x q' \<longleftrightarrow> x \<in> set (h # xs @ us @ vs)" for x
        using h(5) h(6) [of x] pin rh 2(1) rl unfolding is_runnable_def q' ys(1) by auto
      then show ?thesis using h c p rh 2(1) ys(1) unfolding queue_rep_def
        by (intro exI [of _ h]) (auto simp: q')
    qed
    moreover have "remove1 r ys = us @ vs" "remove1 r xs = xs" using ys 2(1) by (auto simp: remove1_append remove1_idem)
    ultimately show ?thesis using r by auto
  next
    case 3
    then have "search ?nx r (Some h) (To h) = Some (Inr None)" "search ?nx r None (pop_queue q) = Some (Inr None)"
      using search_none [OF hc] search_none [OF h(4)] rh by simp_all
    then have "remove_runnable r q = Some (Inr q)" using h(1) by (simp add: remove_runnable_def is_initialized_def Let_def)
    then show ?thesis using 3 assms(1) by (simp add: remove1_idem)
  qed
qed

interpretation proc_queue: run_queue push_back pop_runnable toggle queue_is_empty queue_rep real_process
proof unfold_locales
  fix q xs ys and p :: nat
  show "\<exists>q'. push_back p q = Inr q' \<and> queue_rep q' (xs @ [p]) ys \<and> real_process q' = real_process q"
    if "queue_rep q xs ys" "p \<notin> set xs \<union> set ys" "real_process q p" using push_back_rep [OF that] .
  show "\<exists>q'. pop_runnable q = (Some p, q') \<and> queue_rep q' xs ys \<and> real_process q' = real_process q"
    if "queue_rep q xs (p # ys)" using pop_rep [OF that] .
  show "pop_runnable q = (None, q)" if "queue_rep q xs []"
    using that by (auto elim!: queue_repE simp: pop_runnable_def)
  show "\<exists>q'. toggle q = Inr q' \<and> queue_rep q' [] xs \<and> real_process q' = real_process q" if "queue_rep q xs []"
    using toggle_rep [OF that] .
  show "toggle q = Inr q" if "queue_rep q xs ys" "ys \<noteq> []"
    using that by (cases ys) (auto elim!: queue_repE simp: toggle_def)
  show "queue_is_empty q = Inr (xs = [] \<and> ys = [])" if "queue_rep q xs ys"
  proof -
    note rep = that
    obtain h where "push_head q = Some h" "chain (next_runnable q) (next_runnable q h) xs"
      "chain (next_runnable q) (pop_queue q) ys" by (rule queue_repE [OF rep]) blast
    then show ?thesis by (cases xs; cases ys) (auto simp: queue_is_empty_def)
  qed
qed

end
