(* ===== verification/Sc_Prim_Channel.thy ===== *)
theory Sc_Prim_Channel
  imports Sc_Runnable_Facts
begin

text \<open>
  The registry of the primitive channels, \<open>sysc/communication/sc_prim_channel.h\<close> and
  \<open>sc_prim_channel.cpp\<close>: requests for the update phase form a list through the channels'
  \<open>m_update_next_p\<close> (null when not requested, \<open>list_end\<close> at the end), newest request first. The
  virtual method \<open>update\<close> of the channels is a parameter on the values of the channels: the ones in the
  sources (\<open>sc_fifo\<close>, \<open>sc_signal\<close>, \<open>sc_buffer\<close>) request no further update.
\<close>

section \<open>State\<close>

record prim_registry =
  m_update_next :: "nat \<Rightarrow> proc_link"
  m_update_list :: proc_link
  m_prim_channel_vec :: "nat list"
  m_construction_done :: nat
  m_push_queue :: "nat list"

definition new_registry :: prim_registry where
  "new_registry = \<lparr>m_update_next = (\<lambda>_. Not_queued), m_update_list = Queue_end, m_prim_channel_vec = [],
     m_construction_done = 0, m_push_queue = []\<rparr>"

section \<open>Requests\<close>

definition registry_request_update :: "nat \<Rightarrow> prim_registry \<Rightarrow> prim_registry" where
  "registry_request_update c r =
     r\<lparr>m_update_next := (m_update_next r)(c := m_update_list r), m_update_list := To c\<rparr>"

definition request_update :: "nat \<Rightarrow> prim_registry \<Rightarrow> prim_registry" where
  "request_update c r = (if m_update_next r c = Not_queued then registry_request_update c r else r)"

definition async_request_update :: "nat \<Rightarrow> prim_registry \<Rightarrow> prim_registry" where
  "async_request_update c r = r\<lparr>m_push_queue := m_push_queue r @ [c]\<rparr>"

definition update_requested :: "nat \<Rightarrow> prim_registry \<Rightarrow> bool" where
  "update_requested c r \<longleftrightarrow> m_update_next r c \<noteq> Queue_end"

definition pending_updates :: "prim_registry \<Rightarrow> bool" where
  "pending_updates r \<longleftrightarrow> m_update_list r \<noteq> Queue_end \<or> m_push_queue r \<noteq> []"

definition accept_updates :: "prim_registry \<Rightarrow> prim_registry" where
  "accept_updates r = fold request_update (m_push_queue r) (r\<lparr>m_push_queue := []\<rparr>)"

section \<open>The update phase\<close>

partial_function (option) update_loop ::
  "(nat \<Rightarrow> 'v \<Rightarrow> 'v result) \<Rightarrow> proc_link \<Rightarrow> prim_registry \<Rightarrow> 'v \<Rightarrow> (prim_registry \<times> 'v) result option" where
  "update_loop upd now r v =
     (if now = Queue_end then Some (Inr (r, v))
      else if now = Not_queued then Some (Inl Null_pointer)
      else case upd (address now) v of
          Inl f \<Rightarrow> Some (Inl f)
        | Inr v' \<Rightarrow> update_loop upd (m_update_next r (address now))
            (r\<lparr>m_update_next := (m_update_next r)(address now := Not_queued)\<rparr>) v')"

definition perform_update ::
  "(nat \<Rightarrow> 'v \<Rightarrow> 'v result) \<Rightarrow> prim_registry \<Rightarrow> 'v \<Rightarrow> (prim_registry \<times> 'v) result option" where
  "perform_update upd r v =
     (let r1 = (if m_push_queue r \<noteq> [] then accept_updates r else r)
      in update_loop upd (m_update_list r1) (r1\<lparr>m_update_list := Queue_end\<rparr>) v)"

section \<open>The channels of the design\<close>

definition insert_channel :: "bool \<Rightarrow> bool \<Rightarrow> nat \<Rightarrow> prim_registry \<Rightarrow> prim_registry result" where
  "insert_channel running elaborated c r =
     (if running then Inl Sc_report_error
      else if elaborated then Inl Sc_report_error
      else Inr (r\<lparr>m_prim_channel_vec := m_prim_channel_vec r @ [c]\<rparr>))"

definition remove_channel :: "nat \<Rightarrow> prim_registry \<Rightarrow> prim_registry result" where
  "remove_channel c r =
     (case find (\<lambda>i. m_prim_channel_vec r ! i = c) [0..<length (m_prim_channel_vec r)] of
        None \<Rightarrow> Inl Sc_report_error
      | Some i \<Rightarrow> (let n = length (m_prim_channel_vec r)
          in Inr (r\<lparr>m_prim_channel_vec := take (n - 1) ((m_prim_channel_vec r)[i := m_prim_channel_vec r ! (n - 1)])\<rparr>)))"

text \<open>\<open>cb\<close> is the \<open>construction_done\<close> of a channel, on the state of the design.\<close>

definition construction_done :: "(nat \<Rightarrow> 's \<Rightarrow> 's result) \<Rightarrow> prim_registry \<Rightarrow> 's \<Rightarrow> (bool \<times> prim_registry \<times> 's) result" where
  "construction_done cb r s =
     (if length (m_prim_channel_vec r) = m_construction_done r then Inr (True, r, s)
      else bind_result (for_each cb (drop (m_construction_done r) (m_prim_channel_vec r)) s)
             (\<lambda>s'. Inr (False, r\<lparr>m_construction_done := length (m_prim_channel_vec r)\<rparr>, s')))"

section \<open>Facts\<close>

text \<open>The channels with a request, newest first.\<close>

definition requests :: "prim_registry \<Rightarrow> nat list \<Rightarrow> bool" where
  "requests r cs \<longleftrightarrow> chain (m_update_next r) (m_update_list r) cs \<and> distinct cs \<and>
     (\<forall>c. m_update_next r c \<noteq> Not_queued \<longleftrightarrow> c \<in> set cs)"

lemma requests_new: "requests new_registry []"
  by (simp add: requests_def new_registry_def)

lemma request_update_requests:
  assumes "requests r cs"
  shows "requests (request_update c r) (if c \<in> set cs then cs else c # cs)"
proof (cases "c \<in> set cs")
  case True
  then have "m_update_next r c \<noteq> Not_queued" using assms by (auto simp: requests_def)
  then show ?thesis using True assms by (simp add: request_update_def)
next
  case False
  then have n: "m_update_next r c = Not_queued" using assms by (auto simp: requests_def)
  have "m_update_list r \<noteq> Not_queued" using assms by (cases cs) (auto simp: requests_def)
  then show ?thesis using False assms
    by (auto simp: request_update_def registry_request_update_def requests_def n)
qed

lemma fold_request_update:
  "requests r cs \<Longrightarrow> requests (fold request_update ds r) (remdups (rev ds @ cs))"
proof (induction ds rule: rev_induct)
  case Nil
  then show ?case by (simp add: requests_def distinct_remdups_id)
next
  case (snoc d ds)
  then have "requests (fold request_update ds r) (remdups (rev ds @ cs))" by simp
  from request_update_requests [OF this, of d] show ?case by simp
qed

lemma push_queue_request [simp]: "m_push_queue (request_update c r) = m_push_queue r"
  by (simp add: request_update_def registry_request_update_def)

lemma push_queue_fold [simp]: "m_push_queue (fold request_update cs r) = m_push_queue r"
  by (induction cs arbitrary: r) auto

lemma update_loop_chain:
  "chain (m_update_next r) now cs \<Longrightarrow> distinct cs \<Longrightarrow> update_loop upd now r v =
    Some (bind_result (for_each upd cs v)
      (\<lambda>v'. Inr (r\<lparr>m_update_next := (\<lambda>c. if c \<in> set cs then Not_queued else m_update_next r c)\<rparr>, v')))"
proof (induction cs arbitrary: r now v)
  case Nil
  then show ?case by (subst update_loop.simps) simp
next
  case (Cons c cs)
  let ?r = "r\<lparr>m_update_next := (m_update_next r)(c := Not_queued)\<rparr>"
  have c: "now = To c" "chain (m_update_next r) (m_update_next r c) cs" using Cons.prems by auto
  have "chain (m_update_next ?r) (m_update_next r c) cs" using c(2) Cons.prems(2) by simp
  note IH = Cons.IH [OF this] 
  show ?case
  proof (cases "upd c v")
    case (Inl f)
    then show ?thesis using c(1) by (subst update_loop.simps) simp
  next
    case (Inr v')
    have "update_loop upd now r v = update_loop upd (m_update_next r c) ?r v'"
      using c(1) Inr by (subst update_loop.simps) simp
    also have "\<dots> = Some (bind_result (for_each upd cs v')
        (\<lambda>v'. Inr (?r\<lparr>m_update_next := (\<lambda>x. if x \<in> set cs then Not_queued else m_update_next ?r x)\<rparr>, v')))"
      using IH Cons.prems(2) by simp
    also have "?r\<lparr>m_update_next := (\<lambda>x. if x \<in> set cs then Not_queued else m_update_next ?r x)\<rparr> =
        r\<lparr>m_update_next := (\<lambda>x. if x \<in> set (c # cs) then Not_queued else m_update_next r x)\<rparr>"
      by (rule prim_registry.equality) auto
    finally show ?thesis using Inr by simp
  qed
qed

lemma perform_update_requests:
  assumes "requests r cs"
  shows "\<exists>r'. requests r' [] \<and> m_push_queue r' = [] \<and> perform_update upd r v =
    Some (bind_result (for_each upd (remdups (rev (m_push_queue r) @ cs)) v) (\<lambda>v'. Inr (r', v')))"
proof -
  define r1 where "r1 = (if m_push_queue r \<noteq> [] then accept_updates r else r)"
  let ?cs = "remdups (rev (m_push_queue r) @ cs)"
  have q0: "requests (r\<lparr>m_push_queue := []\<rparr>) cs" using assms by (simp add: requests_def)
  have q: "requests r1 ?cs \<and> m_push_queue r1 = []"
  proof (cases "m_push_queue r = []")
    case True
    then show ?thesis using assms by (simp add: r1_def requests_def distinct_remdups_id)
  next
    case False
    then show ?thesis using fold_request_update [OF q0, of "m_push_queue r"] by (simp add: r1_def accept_updates_def)
  qed
  let ?r2 = "r1\<lparr>m_update_list := Queue_end\<rparr>"
  let ?r' = "?r2\<lparr>m_update_next := (\<lambda>c. if c \<in> set ?cs then Not_queued else m_update_next ?r2 c)\<rparr>"
  have "chain (m_update_next ?r2) (m_update_list r1) ?cs" "distinct ?cs" using q by (auto simp: requests_def)
  from update_loop_chain [OF this]
  have "perform_update upd r v = Some (bind_result (for_each upd ?cs v) (\<lambda>v'. Inr (?r', v')))"
    by (simp only: perform_update_def r1_def [symmetric] Let_def)
  moreover have "requests ?r' []" using q by (auto simp: requests_def)
  moreover have "m_push_queue ?r' = []" using q by simp
  ultimately show ?thesis by blast
qed

end
