(* ===== verification/Kernel_Properties.thy ===== *)
theory Kernel_Properties
  imports Sc_Event_Facts Sc_Prim_Channel
begin

text \<open>
  Properties of the simulation kernel: the queue of timed notifications, the notification operations
  of an event and the search for the next time, the queues of the runnable processes and the update
  phase.
\<close>

section \<open>Timed notifications\<close>

text \<open>
  The binary heap of the timed notifications, from any initial size and across the growth of its
  array, hands out what was inserted, all of it and nothing else, in the order of the times.
\<close>
theorem timed_events_in_order:
  "\<exists>q ys q'. timed_queue.put_in objs xs (make_ppq sz) = Inr q \<and>
    timed_queue.take_out objs (length xs) q = Inr (ys, q') \<and> mset ys = mset xs \<and> ppq_empty q' \<and>
    sorted_wrt (\<lambda>p1 p2. notify_time objs p1 \<le> notify_time objs p2) ys"
proof -
  have ok: "ppq_ok (sc_notify_time_compare objs) (make_ppq sz)" "ppq_elems (make_ppq sz :: nat ppq) = {#}"
    using make_ppq_ok by blast+
  obtain q where q: "timed_queue.put_in objs xs (make_ppq sz) = Inr q" "ppq_ok (sc_notify_time_compare objs) q"
    "ppq_elems q = mset xs" using timed_queue.put_in_elems [OF ok(1), of xs] ok(2) by auto
  obtain ys q' where y: "timed_queue.take_out objs (length xs) q = Inr (ys, q')"
    "ppq_ok (sc_notify_time_compare objs) q'" "mset xs = mset ys + ppq_elems q'"
    "sorted_wrt (\<lambda>x y. 0 \<le> sc_notify_time_compare objs x y) ys"
    using timed_queue.take_out_sorted [OF q(2), of "length xs"] q(3) by auto
  have "length ys = length xs" using timed_queue.take_out_length [OF y(1)] .
  then have "ppq_elems q' = {#}" using y(3) by (metis add_cancel_right_right size_mset size_union size_eq_0_iff_empty)
  then show ?thesis using q(1) y ppq_size_0 [OF y(2)] by (simp add: compare_nonneg ppq_empty_def ppq_size_def)
qed

text \<open>
  \<open>notify(t)\<close> never fails and leaves the earlier of the pending and the requested notification of
  its event (a delta notification before every timed one), and every other event as it was.
\<close>
theorem earlier_notification_wins:
  "notifier_ok s \<Longrightarrow> achieves s (notify_in t e s) ((pending s)(e := earlier (pending s e) (requested t s)))"
  by (rule notify_in_achieves)

theorem earlier_notification_wins_witness:
  "achieves init_notifier (notify_in 5 3 init_notifier)
    ((pending init_notifier)(3 := earlier (pending init_notifier 3) (requested 5 init_notifier)))"
  by (rule earlier_notification_wins [OF init_notifier_ok])

text \<open>
  \<open>cancel\<close> removes the pending notification of its event, delta or timed, and no other: the last
  delta event takes the place of the removed one, with its index corrected.
\<close>
theorem cancel_removes_notification:
  "notifier_ok s \<Longrightarrow> achieves s (cancel e s) ((pending s)(e := Idle))"
  by (rule cancel_achieves)

theorem cancel_removes_notification_witness:
  "achieves (set_delta 1 (set_delta 0 init_notifier)) (cancel 0 (set_delta 1 (set_delta 0 init_notifier)))
    ((pending (set_delta 1 (set_delta 0 init_notifier)))(0 := Idle))"
proof -
  have "notifier_ok (set_delta 0 init_notifier)"
    using set_delta_achieves [OF init_notifier_ok, of 0] by (simp add: achieves_def init_notifier_def new_event_def)
  then have "notifier_ok (set_delta 1 (set_delta 0 init_notifier))"
    using set_delta_achieves [of "set_delta 0 init_notifier" 1]
    by (simp add: achieves_def init_notifier_def new_event_def)
  then show ?thesis by (rule cancel_removes_notification)
qed

text \<open>
  \<open>next_time\<close> returns the earliest time of a pending timed notification, and reports that there is
  none exactly when no event has one; dropping the cancelled notifications changes no pending one.
\<close>
theorem next_time_is_earliest:
  assumes "notifier_ok s"
  shows "\<exists>r s'. next_time s = Inr (r, s') \<and> notifier_ok s' \<and> pending s' = pending s \<and> kept s s' \<and>
    earliest (pending s) r"
  by (rule next_time_ok [OF assms])

theorem next_time_is_earliest_witness:
  "\<exists>r s'. next_time init_notifier = Inr (r, s') \<and> notifier_ok s' \<and> pending s' = pending init_notifier \<and>
    kept init_notifier s' \<and> earliest (pending init_notifier) r"
  by (rule next_time_is_earliest [OF init_notifier_ok])

section \<open>The calendar of events\<close>










section \<open>Runnable processes\<close>

text \<open>
  The calls of the kernel on a queue, each process being pushed only when it is not runnable (as
  \<open>trigger_static\<close> and \<open>trigger_dynamic\<close> test), and what they do to the two lists of processes.
\<close>

datatype queue_op = Q_push_back nat | Q_push_front nat | Q_pop | Q_remove nat | Q_toggle

fun exec_queue :: "queue_op \<Rightarrow> proc_queue \<Rightarrow> proc_queue result option" where
  "exec_queue (Q_push_back p) q = (if is_runnable p q then Some (Inr q) else Some (push_back p q))"
| "exec_queue (Q_push_front p) q = (if is_runnable p q then Some (Inr q) else Some (push_front p q))"
| "exec_queue Q_pop q = Some (Inr (snd (pop_runnable q)))"
| "exec_queue (Q_remove p) q = remove_runnable p q"
| "exec_queue Q_toggle q = Some (toggle q)"

fun exec_queue_all :: "queue_op list \<Rightarrow> proc_queue \<Rightarrow> proc_queue result option" where
  "exec_queue_all [] q = Some (Inr q)"
| "exec_queue_all (c # cs) q = (case exec_queue c q of None \<Rightarrow> None
     | Some (Inl f) \<Rightarrow> Some (Inl f) | Some (Inr q') \<Rightarrow> exec_queue_all cs q')"

fun list_op :: "queue_op \<Rightarrow> nat list \<times> nat list \<Rightarrow> nat list \<times> nat list" where
  "list_op (Q_push_back p) (xs, ys) = (if p \<in> set xs \<union> set ys then (xs, ys) else (xs @ [p], ys))"
| "list_op (Q_push_front p) (xs, ys) = (if p \<in> set xs \<union> set ys then (xs, ys) else (p # xs, ys))"
| "list_op Q_pop (xs, ys) = (xs, tl ys)"
| "list_op (Q_remove p) (xs, ys) = (remove1 p xs, remove1 p ys)"
| "list_op Q_toggle (xs, ys) = (if ys = [] then ([], xs) else (xs, ys))"

fun op_proc :: "queue_op \<Rightarrow> nat option" where
  "op_proc (Q_push_back p) = Some p"
| "op_proc (Q_push_front p) = Some p"
| "op_proc (Q_remove p) = Some p"
| "op_proc _ = None"

definition headed :: "nat \<Rightarrow> proc_queue \<Rightarrow> nat list \<times> nat list \<Rightarrow> bool" where
  "headed h q l \<longleftrightarrow> push_head q = Some h \<and> queue_rep q (fst l) (snd l)"

lemma runnable_iff: "queue_rep q xs ys \<Longrightarrow> real_process q p \<Longrightarrow> is_runnable p q \<longleftrightarrow> p \<in> set xs \<union> set ys"
  unfolding queue_rep_def real_process_def by fastforce

lemma head_kept:
  "push_back p q = Inr q' \<Longrightarrow> push_head q' = push_head q"
  "push_front p q = Inr q' \<Longrightarrow> push_head q' = push_head q"
  "pop_runnable q = (r, q') \<Longrightarrow> push_head q' = push_head q"
  "toggle q = Inr q' \<Longrightarrow> push_head q' = push_head q"
  "remove_runnable p q = Some (Inr q') \<Longrightarrow> push_head q' = push_head q"
  by (auto simp: push_back_def push_front_def pop_runnable_def toggle_def remove_runnable_def Let_def
      bind_result_eq_Inr split: if_splits proc_link.splits option.splits sum.splits)

lemma exec_queue_headed:
  assumes "headed h q (xs, ys)" "op_proc c \<noteq> Some h"
  shows "\<exists>q'. exec_queue c q = Some (Inr q') \<and> headed h q' (list_op c (xs, ys))"
proof -
  have rep: "queue_rep q xs ys" and h: "push_head q = Some h" using assms(1) by (simp_all add: headed_def)
  have real: "op_proc c = Some p \<Longrightarrow> real_process q p" for p using assms(2) h by (auto simp: real_process_def)
  show ?thesis
  proof (cases c)
    case (Q_push_back p)
    then have "real_process q p" using real by simp
    then show ?thesis
      using Q_push_back push_back_rep [OF rep, of p] head_kept(1) runnable_iff [OF rep] assms(1) h
      by (auto simp: headed_def)
  next
    case (Q_push_front p)
    then have "real_process q p" using real by simp
    then show ?thesis
      using Q_push_front push_front_rep [OF rep, of p] head_kept(2) runnable_iff [OF rep] assms(1) h
      by (auto simp: headed_def)
  next
    case Q_pop
    show ?thesis
    proof (cases ys)
      case Nil
      then show ?thesis using Q_pop proc_queue.pop_empty_law rep h by (auto simp: headed_def)
    next
      case (Cons p ys')
      then obtain q' where "pop_runnable q = (Some p, q')" "queue_rep q' xs ys'" using pop_rep rep by blast
      then show ?thesis using Q_pop Cons head_kept(3) h by (auto simp: headed_def)
    qed
  next
    case (Q_remove p)
    then have "real_process q p" using real by simp
    from remove_rep [OF rep this] Q_remove head_kept(5) h show ?thesis by (auto simp: headed_def)
  next
    case Q_toggle
    show ?thesis
    proof (cases "ys = []")
      case True
      then show ?thesis using Q_toggle toggle_rep [of q xs] rep head_kept(4) h by (auto simp: headed_def)
    next
      case False
      then show ?thesis using Q_toggle proc_queue.toggle_busy_law [OF rep] rep h by (auto simp: headed_def)
    qed
  qed
qed

text \<open>
  C36: Any sequence of calls on a queue of runnable processes does to the linked entries what it does to
  two plain lists, the processes pushed and the processes to be popped: the search of \<open>remove\<close> ends, no
  null link is followed, no process is queued twice, and a process is runnable exactly when it is in one
  of the lists.
\<close>
theorem run_queue_is_two_lists:
  assumes "\<forall>c\<in>set cs. op_proc c \<noteq> Some h"
  shows "\<exists>q. exec_queue_all cs (init_queue h new_queue) = Some (Inr q) \<and>
    queue_rep q (fst (fold list_op cs ([], []))) (snd (fold list_op cs ([], [])))"
proof -
  have "\<exists>q'. exec_queue_all cs q = Some (Inr q') \<and> headed h q' (fold list_op cs l)"
    if "headed h q l" for q l
    using that assms
  proof (induction cs arbitrary: q l)
    case (Cons c cs)
    then obtain q' where q': "exec_queue c q = Some (Inr q')" "headed h q' (list_op c l)"
      using exec_queue_headed [of h q "fst l" "snd l" c] by auto
    from Cons.IH [OF q'(2)] Cons.prems(2) q'(1) show ?case by simp
  qed simp
  moreover have "headed h (init_queue h new_queue) ([], [])"
    using init_queue_rep [of new_queue h] by (simp add: headed_def init_queue_def new_queue_def Let_def)
  ultimately show ?thesis unfolding headed_def by blast
qed

theorem run_queue_is_two_lists_witness:
  "\<exists>q. exec_queue_all [Q_push_back 1, Q_push_front 2, Q_push_back 1, Q_remove 1, Q_toggle, Q_pop] (init_queue 0 new_queue) =
      Some (Inr q) \<and> queue_rep q [] []"
  using run_queue_is_two_lists [of "[Q_push_back 1, Q_push_front 2, Q_push_back 1, Q_remove 1, Q_toggle, Q_pop]" 0]
  by simp

section \<open>The update phase\<close>

text \<open>
  However often and in whatever order channels request an update in an evaluation phase, from the
  simulator or from outside, \<open>perform_update\<close> ends and calls the update method of each of them exactly
  once, the latest first request first, and leaves no channel requested.
\<close>
theorem updates_happen_once:
  "\<exists>r'. requests r' [] \<and> m_push_queue r' = [] \<and>
    perform_update upd (fold async_request_update ds (fold request_update cs new_registry)) v =
      Some (bind_result (for_each upd (remdups (rev ds @ remdups (rev cs))) v) (\<lambda>v'. Inr (r', v')))"
proof -
  let ?r = "fold request_update cs new_registry"
  have r: "requests ?r (remdups (rev cs))" using fold_request_update [OF requests_new, of cs] by simp
  have async: "m_push_queue (fold async_request_update ds r) = m_push_queue r @ ds \<and>
    m_update_next (fold async_request_update ds r) = m_update_next r \<and>
    m_update_list (fold async_request_update ds r) = m_update_list r" for r
    by (induction ds arbitrary: r) (auto simp: async_request_update_def)
  then have "requests (fold async_request_update ds ?r) (remdups (rev cs))" using r by (simp add: requests_def)
  from perform_update_requests [OF this, of upd v] show ?thesis
    using async [of ?r] by (simp add: new_registry_def)
qed

text \<open>
  \<open>update_requested\<close> compares with the mark of the end of the list, not with null: it answers true for
  every channel that has requested nothing, and false for the one whose request came first.
\<close>
theorem update_requested_is_wrong:
  "update_requested d (request_update c new_registry) = (d \<noteq> c)"
  by (simp add: update_requested_def request_update_def registry_request_update_def new_registry_def)

end
