(* ===== verification/Sc_Process.thy ===== *)
theory Sc_Process
  imports Sc_Event Sc_Runnable
begin

text \<open>
  Processes and their sensitivity: \<open>sc_process.h\<close>, \<open>sc_thread_process.h/.cpp\<close>,
  \<open>sc_method_process.h/.cpp\<close>, the event lists of \<open>sc_event.h/.cpp\<close> and \<open>sc_event::trigger\<close>. A process
  waits statically, for an event, for one or for all events of a list, for a time, or for one of these
  with a time limit. Addresses are numbers, for processes, events and event lists each. What a process
  does when it runs and the transfer of control are left out: a \<open>wait\<close> is modelled up to its
  \<open>suspend_me()\<close>. Exceptions thrown into a process (kill, reset) are not modelled.
\<close>

section \<open>State\<close>

datatype trigger_t = STATIC | EVENT | OR_LIST | AND_LIST | TIMEOUT | EVENT_TIMEOUT | OR_LIST_TIMEOUT
  | AND_LIST_TIMEOUT

text \<open>The four bits of \<open>m_state\<close> are four fields.\<close>

record sc_process =
  m_is_thread :: bool
  ps_disabled :: bool
  ps_ready_to_run :: bool
  ps_suspended :: bool
  ps_zombie :: bool
  m_trigger_type :: trigger_t
  m_event_p :: "nat option"
  m_event_count :: int
  m_event_list_p :: "nat option"
  m_timeout_event_p :: nat
  m_timed_out :: bool
  m_wait_cycle_n :: int
  m_unwinding :: bool

definition new_process :: "bool \<Rightarrow> nat \<Rightarrow> sc_process" where
  "new_process th te = \<lparr>m_is_thread = th, ps_disabled = False, ps_ready_to_run = False, ps_suspended = False,
     ps_zombie = False, m_trigger_type = STATIC, m_event_p = None, m_event_count = 0, m_event_list_p = None,
     m_timeout_event_p = te, m_timed_out = False, m_wait_cycle_n = 0, m_unwinding = False\<rparr>"

record event_list =
  l_events :: "nat list"
  m_and_list :: bool
  m_auto_delete :: bool
  m_busy :: nat

record processes = notifier +
  m_procs :: "nat \<Rightarrow> sc_process"
  m_event_lists :: "nat \<Rightarrow> event_list option"
  m_runnable :: sc_runnable
  m_curr_proc :: "nat option"

definition upd_proc :: "nat \<Rightarrow> (sc_process \<Rightarrow> sc_process) \<Rightarrow> 'z processes_scheme \<Rightarrow> 'z processes_scheme" where
  "upd_proc p f s = s\<lparr>m_procs := (m_procs s)(p := f (m_procs s p))\<rparr>"

section \<open>The run queues\<close>

definition proc_queue_of :: "bool \<Rightarrow> 'z processes_scheme \<Rightarrow> proc_queue" where
  "proc_queue_of th s = (if th then m_threads (m_runnable s) else m_methods (m_runnable s))"

definition runnable_proc :: "bool \<Rightarrow> nat \<Rightarrow> 'z processes_scheme \<Rightarrow> bool" where
  "runnable_proc th p s \<longleftrightarrow> is_runnable p (proc_queue_of th s)"

definition push_runnable :: "bool \<Rightarrow> nat \<Rightarrow> 'z processes_scheme \<Rightarrow> 'z processes_scheme result" where
  "push_runnable th p s =
     bind_result (if th then push_back_thread p (m_runnable s) else push_back_method p (m_runnable s))
       (\<lambda>r. Inr (s\<lparr>m_runnable := r\<rparr>))"

section \<open>Event lists\<close>

text \<open>\<open>push_back\<close> of an event, which is looked for from the end, and of all events of a list.\<close>

definition list_push_back :: "nat \<Rightarrow> event_list \<Rightarrow> event_list" where
  "list_push_back e l =
     (if \<exists>i\<in>set (rev [0..<length (l_events l)]). l_events l ! i = e then l
      else l\<lparr>l_events := l_events l @ [e]\<rparr>)"

definition list_push_all :: "event_list \<Rightarrow> event_list \<Rightarrow> event_list" where
  "list_push_all el l = fold list_push_back (rev (l_events el)) l"

definition list_at :: "nat \<Rightarrow> 'z processes_scheme \<Rightarrow> event_list result" where
  "list_at l s = (case m_event_lists s l of None \<Rightarrow> Inl Dangling_pointer | Some el \<Rightarrow> Inr el)"

definition set_list :: "nat \<Rightarrow> event_list option \<Rightarrow> 'z processes_scheme \<Rightarrow> 'z processes_scheme" where
  "set_list l x s = s\<lparr>m_event_lists := (m_event_lists s)(l := x)\<rparr>"

definition event_add_dynamic :: "bool \<Rightarrow> nat \<Rightarrow> nat \<Rightarrow> 'z processes_scheme \<Rightarrow> 'z processes_scheme" where
  "event_add_dynamic th p e = upd_event e (if th then add_dynamic_thread p else add_dynamic_method p)"

definition event_remove_dynamic :: "bool \<Rightarrow> nat \<Rightarrow> nat \<Rightarrow> 'z processes_scheme \<Rightarrow> 'z processes_scheme result" where
  "event_remove_dynamic th p e s =
     bind_result (if th then remove_dynamic_thread p (m_events s e) else remove_dynamic_method p (m_events s e))
       (\<lambda>(b, ev). Inr (upd_event e (\<lambda>_. ev) s))"

definition list_add_dynamic :: "bool \<Rightarrow> nat \<Rightarrow> nat \<Rightarrow> 'z processes_scheme \<Rightarrow> 'z processes_scheme result" where
  "list_add_dynamic th p l s = bind_result (list_at l s) (\<lambda>el.
     Inr (fold (event_add_dynamic th p) (rev (l_events el)) (set_list l (Some (el\<lparr>m_busy := m_busy el + 1\<rparr>)) s)))"

definition list_remove_dynamic ::
  "bool \<Rightarrow> nat \<Rightarrow> nat \<Rightarrow> nat option \<Rightarrow> 'z processes_scheme \<Rightarrow> 'z processes_scheme result"
where
  "list_remove_dynamic th p l e_not s = bind_result (list_at l s) (\<lambda>el.
     for_each (\<lambda>e s. if Some e \<noteq> e_not then event_remove_dynamic th p e s else Inr s) (rev (l_events el)) s)"

definition list_auto_delete :: "nat \<Rightarrow> 'z processes_scheme \<Rightarrow> 'z processes_scheme result" where
  "list_auto_delete l s = bind_result (list_at l s) (\<lambda>el.
     let el1 = (if m_busy el \<noteq> 0 then el\<lparr>m_busy := m_busy el - 1\<rparr> else el)
     in Inr (set_list l (if m_busy el1 = 0 \<and> m_auto_delete el1 then None else Some el1) s))"

section \<open>Waiting\<close>

text \<open>
  \<open>sc_thread_process::wait\<close> up to \<open>suspend_me()\<close>, and \<open>sc_method_process::next_trigger\<close> after
  \<open>clear_trigger()\<close>: the same bookkeeping for both kinds of processes.
\<close>

definition wait_event :: "bool \<Rightarrow> nat \<Rightarrow> nat \<Rightarrow> 'z processes_scheme \<Rightarrow> 'z processes_scheme result" where
  "wait_event th e p s = Inr (upd_proc p (\<lambda>q. q\<lparr>m_event_p := Some e, m_trigger_type := EVENT\<rparr>)
     (event_add_dynamic th p e s))"

definition wait_or_list :: "bool \<Rightarrow> nat \<Rightarrow> nat \<Rightarrow> 'z processes_scheme \<Rightarrow> 'z processes_scheme result" where
  "wait_or_list th l p s = bind_result (list_add_dynamic th p l s) (\<lambda>s1.
     Inr (upd_proc p (\<lambda>q. q\<lparr>m_event_list_p := Some l, m_trigger_type := OR_LIST\<rparr>) s1))"

definition wait_and_list :: "bool \<Rightarrow> nat \<Rightarrow> nat \<Rightarrow> 'z processes_scheme \<Rightarrow> 'z processes_scheme result" where
  "wait_and_list th l p s = bind_result (list_add_dynamic th p l s) (\<lambda>s1. bind_result (list_at l s1) (\<lambda>el.
     Inr (upd_proc p (\<lambda>q. q\<lparr>m_event_list_p := Some l, m_event_count := int (length (l_events el)),
       m_trigger_type := AND_LIST\<rparr>) s1)))"

text \<open>\<open>m_timeout_event_p->notify_internal(t); m_timeout_event_p->add_dynamic(this)\<close>.\<close>

definition start_timeout :: "bool \<Rightarrow> sc_time \<Rightarrow> nat \<Rightarrow> 'z processes_scheme \<Rightarrow> 'z processes_scheme result" where
  "start_timeout th t p s = (let te = m_timeout_event_p (m_procs s p)
     in bind_result (notify_internal t te s) (\<lambda>s1. Inr (event_add_dynamic th p te s1)))"

definition wait_time :: "bool \<Rightarrow> sc_time \<Rightarrow> nat \<Rightarrow> 'z processes_scheme \<Rightarrow> 'z processes_scheme result" where
  "wait_time th t p s = bind_result (start_timeout th t p s) (\<lambda>s1.
     Inr (upd_proc p (m_trigger_type_update (\<lambda>_. TIMEOUT)) s1))"

definition wait_time_event :: "bool \<Rightarrow> sc_time \<Rightarrow> nat \<Rightarrow> nat \<Rightarrow> 'z processes_scheme \<Rightarrow> 'z processes_scheme result" where
  "wait_time_event th t e p s = bind_result (start_timeout th t p s) (\<lambda>s1.
     Inr (upd_proc p (\<lambda>q. q\<lparr>m_event_p := Some e, m_trigger_type := EVENT_TIMEOUT\<rparr>) (event_add_dynamic th p e s1)))"

definition wait_time_or_list :: "bool \<Rightarrow> sc_time \<Rightarrow> nat \<Rightarrow> nat \<Rightarrow> 'z processes_scheme \<Rightarrow> 'z processes_scheme result" where
  "wait_time_or_list th t l p s = bind_result (start_timeout th t p s) (\<lambda>s1. bind_result (list_add_dynamic th p l s1)
     (\<lambda>s2. Inr (upd_proc p (\<lambda>q. q\<lparr>m_event_list_p := Some l, m_trigger_type := OR_LIST_TIMEOUT\<rparr>) s2)))"

definition wait_time_and_list :: "bool \<Rightarrow> sc_time \<Rightarrow> nat \<Rightarrow> nat \<Rightarrow> 'z processes_scheme \<Rightarrow> 'z processes_scheme result" where
  "wait_time_and_list th t l p s = bind_result (start_timeout th t p s) (\<lambda>s1. bind_result (list_add_dynamic th p l s1)
     (\<lambda>s2. bind_result (list_at l s2) (\<lambda>el.
       Inr (upd_proc p (\<lambda>q. q\<lparr>m_event_list_p := Some l, m_event_count := int (length (l_events el)),
         m_trigger_type := AND_LIST_TIMEOUT\<rparr>) s2))))"

definition wait_cycles :: "int \<Rightarrow> nat \<Rightarrow> 'z processes_scheme \<Rightarrow> 'z processes_scheme result" where
  "wait_cycles n p s = Inr (upd_proc p (m_wait_cycle_n_update (\<lambda>_. n - 1)) s)"

text \<open>Every \<open>wait\<close> of a thread first refuses to wait while the thread unwinds its stack.\<close>

definition thread_wait ::
  "(nat \<Rightarrow> 'z processes_scheme \<Rightarrow> 'z processes_scheme result) \<Rightarrow> nat \<Rightarrow> 'z processes_scheme \<Rightarrow> 'z processes_scheme result"
where
  "thread_wait w p s = (if m_unwinding (m_procs s p) then Inl Sc_report_error else w p s)"

section \<open>Removing a process from the events it waits for\<close>

text \<open>\<open>m_timeout_event_p->cancel(); m_timeout_event_p->reset()\<close>.\<close>

definition stop_timeout :: "nat \<Rightarrow> 'z processes_scheme \<Rightarrow> 'z processes_scheme result" where
  "stop_timeout p s = (let te = m_timeout_event_p (m_procs s p)
     in bind_result (cancel te s) (\<lambda>s1. Inr (reset_event te s1)))"

text \<open>\<open>m_event_list_p->remove_dynamic(this, e_not); m_event_list_p->auto_delete(); m_event_list_p = 0\<close>.\<close>

definition leave_list :: "bool \<Rightarrow> nat \<Rightarrow> nat option \<Rightarrow> 'z processes_scheme \<Rightarrow> 'z processes_scheme result" where
  "leave_list th p e_not s = bind_result (deref (m_event_list_p (m_procs s p))) (\<lambda>l.
     bind_result (list_remove_dynamic th p l e_not s) (\<lambda>s1. bind_result (list_auto_delete l s1) (\<lambda>s2.
       Inr (upd_proc p (m_event_list_p_update (\<lambda>_. None)) s2))))"

text \<open>The same without \<open>remove_dynamic\<close>, when all events of an AND list have occurred.\<close>

definition drop_list :: "nat \<Rightarrow> 'z processes_scheme \<Rightarrow> 'z processes_scheme result" where
  "drop_list p s = bind_result (deref (m_event_list_p (m_procs s p))) (\<lambda>l.
     bind_result (list_auto_delete l s) (\<lambda>s1. Inr (upd_proc p (m_event_list_p_update (\<lambda>_. None)) s1)))"

definition leave_event :: "bool \<Rightarrow> nat \<Rightarrow> 'z processes_scheme \<Rightarrow> 'z processes_scheme result" where
  "leave_event th p s = bind_result (deref (m_event_p (m_procs s p))) (\<lambda>e.
     bind_result (event_remove_dynamic th p e s) (\<lambda>s1. Inr (upd_proc p (m_event_p_update (\<lambda>_. None)) s1)))"

definition remove_dynamic_events :: "bool \<Rightarrow> bool \<Rightarrow> nat \<Rightarrow> 'z processes_scheme \<Rightarrow> 'z processes_scheme result" where
  "remove_dynamic_events th skip_timeout p s =
     (let s1 = upd_proc p (m_trigger_type_update (\<lambda>_. STATIC)) s; te = m_timeout_event_p (m_procs s p)
      in bind_result (if skip_timeout then Inr s1 else bind_result (event_remove_dynamic th p te s1) (cancel te)) (\<lambda>s2.
         bind_result (case m_event_p (m_procs s2 p) of None \<Rightarrow> Inr s2 | Some e \<Rightarrow> event_remove_dynamic th p e s2) (\<lambda>s3.
         case m_event_list_p (m_procs s3 p) of None \<Rightarrow> Inr s3 | Some l \<Rightarrow> leave_list th p None s3)))"

definition clear_trigger :: "nat \<Rightarrow> 'z processes_scheme \<Rightarrow> 'z processes_scheme result" where
  "clear_trigger p s =
     bind_result (case m_trigger_type (m_procs s p) of
         STATIC \<Rightarrow> Inr s
       | EVENT \<Rightarrow> leave_event False p s
       | OR_LIST \<Rightarrow> leave_list False p None s
       | AND_LIST \<Rightarrow> bind_result (leave_list False p None s) (\<lambda>s1. Inr (upd_proc p (m_event_count_update (\<lambda>_. 0)) s1))
       | TIMEOUT \<Rightarrow> stop_timeout p s
       | EVENT_TIMEOUT \<Rightarrow> bind_result (stop_timeout p s) (leave_event False p)
       | OR_LIST_TIMEOUT \<Rightarrow> bind_result (stop_timeout p s) (leave_list False p None)
       | AND_LIST_TIMEOUT \<Rightarrow> bind_result (bind_result (stop_timeout p s) (leave_list False p None))
           (\<lambda>s1. Inr (upd_proc p (m_event_count_update (\<lambda>_. 0)) s1)))
       (\<lambda>s1. Inr (upd_proc p (m_trigger_type_update (\<lambda>_. STATIC)) s1))"

definition next_trigger ::
  "(nat \<Rightarrow> 'z processes_scheme \<Rightarrow> 'z processes_scheme result) \<Rightarrow> nat \<Rightarrow> 'z processes_scheme \<Rightarrow> 'z processes_scheme result"
where
  "next_trigger w p s = bind_result (clear_trigger p s) (w p)"

section \<open>Triggering a process\<close>

text \<open>The process has what it waited for: it is queued, or marked as ready if it is suspended.\<close>

definition make_ready :: "bool \<Rightarrow> nat \<Rightarrow> 'z processes_scheme \<Rightarrow> 'z processes_scheme result" where
  "make_ready th p s =
     (if ps_suspended (m_procs s p) then Inr (upd_proc p (ps_ready_to_run_update (\<lambda>_. True)) s)
      else push_runnable th p s)"

definition trigger_static_method :: "nat \<Rightarrow> 'z processes_scheme \<Rightarrow> 'z processes_scheme result" where
  "trigger_static_method p s =
     (if ps_disabled (m_procs s p) \<or> runnable_proc False p s \<or> m_trigger_type (m_procs s p) \<noteq> STATIC then Inr s
      else if m_curr_proc s = Some p then Inr s
      else make_ready False p s)"

definition trigger_static_thread :: "nat \<Rightarrow> 'z processes_scheme \<Rightarrow> 'z processes_scheme result" where
  "trigger_static_thread p s =
     (if ps_disabled (m_procs s p) \<or> runnable_proc True p s \<or> m_trigger_type (m_procs s p) \<noteq> STATIC then Inr s
      else if m_curr_proc s = Some p then Inr s
      else if m_wait_cycle_n (m_procs s p) > 0 then Inr (upd_proc p (m_wait_cycle_n_update (\<lambda>n. n - 1)) s)
      else make_ready True p s)"

text \<open>
  The \<open>switch\<close> of \<open>trigger_dynamic\<close>; the result tells whether the wait is satisfied, that is, whether
  the code goes on after the \<open>switch\<close>.
\<close>

definition satisfied :: "nat \<Rightarrow> 'z processes_scheme \<Rightarrow> (bool \<times> 'z processes_scheme) result" where
  "satisfied p s = Inr (True, upd_proc p (m_trigger_type_update (\<lambda>_. STATIC)) s)"

definition count_event :: "nat \<Rightarrow> 'z processes_scheme \<Rightarrow> 'z processes_scheme" where
  "count_event p s = upd_proc p (m_event_count_update (\<lambda>n. n - 1)) s"

definition trigger_switch :: "bool \<Rightarrow> nat \<Rightarrow> nat \<Rightarrow> 'z processes_scheme \<Rightarrow> (bool \<times> 'z processes_scheme) result" where
  "trigger_switch th e p s =
     (let timed_out = (e = m_timeout_event_p (m_procs s p));
          note_timeout = upd_proc p (m_timed_out_update (\<lambda>_. True))
      in case m_trigger_type (m_procs s p) of
        EVENT \<Rightarrow> satisfied p (upd_proc p (m_event_p_update (\<lambda>_. None)) s)
      | AND_LIST \<Rightarrow>
          (let s1 = count_event p s
           in if m_event_count (m_procs s1 p) = 0 then bind_result (drop_list p s1) (satisfied p) else Inr (False, s1))
      | OR_LIST \<Rightarrow> bind_result (leave_list th p (Some e) s) (satisfied p)
      | TIMEOUT \<Rightarrow> satisfied p s
      | EVENT_TIMEOUT \<Rightarrow>
          (if timed_out then bind_result (leave_event th p (note_timeout s)) (satisfied p)
           else bind_result (stop_timeout p s) (\<lambda>s1. satisfied p (upd_proc p (m_event_p_update (\<lambda>_. None)) s1)))
      | OR_LIST_TIMEOUT \<Rightarrow>
          (if timed_out then bind_result (leave_list th p (Some e) (note_timeout s)) (satisfied p)
           else bind_result (stop_timeout p s) (\<lambda>s1. bind_result (leave_list th p (Some e) s1) (satisfied p)))
      | AND_LIST_TIMEOUT \<Rightarrow>
          (if timed_out then bind_result (leave_list th p (Some e) (note_timeout s)) (satisfied p)
           else let s1 = count_event p s
             in if m_event_count (m_procs s1 p) = 0
                then bind_result (stop_timeout p s1) (\<lambda>s2. bind_result (drop_list p s2) (satisfied p))
                else Inr (False, s1))
      | STATIC \<Rightarrow> Inr (False, s))"

text \<open>The result is true if the process is to be removed from the list of the event.\<close>

definition trigger_dynamic :: "bool \<Rightarrow> nat \<Rightarrow> nat \<Rightarrow> 'z processes_scheme \<Rightarrow> (bool \<times> 'z processes_scheme) result" where
  "trigger_dynamic th e p s0 =
     (let s = upd_proc p (m_timed_out_update (\<lambda>_. False)) s0
      in if \<not> th \<and> m_curr_proc s = Some p then Inr (False, s)
         else if runnable_proc th p s then Inr (True, s)
         else if ps_disabled (m_procs s p)
         then (if e = m_timeout_event_p (m_procs s p)
               then bind_result (remove_dynamic_events th True p s) (\<lambda>s1. Inr (True, s1))
               else Inr (False, s))
         else bind_result (trigger_switch th e p s) (\<lambda>(done, s1).
           if done then bind_result (make_ready th p s1) (\<lambda>s2. Inr (True, s2)) else Inr (True, s1)))"

definition trigger_dynamic_method :: "nat \<Rightarrow> nat \<Rightarrow> 'z processes_scheme \<Rightarrow> (bool \<times> 'z processes_scheme) result" where
  "trigger_dynamic_method = trigger_dynamic False"

definition trigger_dynamic_thread :: "nat \<Rightarrow> nat \<Rightarrow> 'z processes_scheme \<Rightarrow> (bool \<times> 'z processes_scheme) result" where
  "trigger_dynamic_thread = trigger_dynamic True"

section \<open>Triggering an event\<close>

definition dyn_list :: "bool \<Rightarrow> sc_event \<Rightarrow> nat list" where
  "dyn_list th ev = (if th then m_threads_dynamic ev else m_methods_dynamic ev)"

definition set_dyn_list :: "bool \<Rightarrow> nat list \<Rightarrow> sc_event \<Rightarrow> sc_event" where
  "set_dyn_list th ps ev = (if th then ev\<lparr>m_threads_dynamic := ps\<rparr> else ev\<lparr>m_methods_dynamic := ps\<rparr>)"

text \<open>
  The loop over the dynamic list: \<open>n\<close> is \<open>last_i + 1\<close>. A process that is done is overwritten with the
  last one, and the index is tried again; in the end the vector is cut to \<open>n\<close>.
\<close>

function dynamic_loop ::
  "bool \<Rightarrow> nat \<Rightarrow> nat \<Rightarrow> nat \<Rightarrow> 'z processes_scheme \<Rightarrow> 'z processes_scheme result"
where
  "dynamic_loop th e i n s =
     (if i < n
      then bind_result (vec_at (dyn_list th (m_events s e)) i) (\<lambda>p.
        bind_result (trigger_dynamic th e p s) (\<lambda>(done, s1).
          if done
          then bind_result (vec_at (dyn_list th (m_events s1 e)) (n - 1)) (\<lambda>l.
            bind_result (vec_set (dyn_list th (m_events s1 e)) i l) (\<lambda>ps.
              dynamic_loop th e i (n - 1) (upd_event e (set_dyn_list th ps) s1)))
          else dynamic_loop th e (i + 1) n s1))
      else Inr (upd_event e (set_dyn_list th (take n (dyn_list th (m_events s e)))) s))"
  by pat_completeness auto
termination by (relation "measure (\<lambda>(th, e, i, n, s). n - i)") auto

declare dynamic_loop.simps [simp del]

definition trigger :: "nat \<Rightarrow> 'z processes_scheme \<Rightarrow> 'z processes_scheme result" where
  "trigger e s =
     bind_result (for_each trigger_static_method (rev (m_methods_static (m_events s e))) s) (\<lambda>s1.
     bind_result (dynamic_loop False e 0 (length (m_methods_dynamic (m_events s1 e))) s1) (\<lambda>s2.
     bind_result (for_each trigger_static_thread (rev (m_threads_static (m_events s2 e))) s2) (\<lambda>s3.
     bind_result (dynamic_loop True e 0 (length (m_threads_dynamic (m_events s3 e))) s3) (\<lambda>s4.
       Inr (upd_event e (\<lambda>ev. ev\<lparr>m_notify_type := NONE, m_delta_event_index := - 1, m_timed := None\<rparr>) s4)))))"

text \<open>Immediate notification.\<close>

definition notify_now :: "nat \<Rightarrow> 'z processes_scheme \<Rightarrow> 'z processes_scheme result" where
  "notify_now e s =
     (if m_execution_phase s = Phase_update then Inl Sc_report_error
      else bind_result (cancel e s) (trigger e))"

end
