(* ===== verification/Sc_Process_Facts.thy ===== *)
theory Sc_Process_Facts
  imports Sc_Process Sc_Event_Facts Sc_Runnable_Facts
begin

text \<open>
  The bookkeeping of dynamic sensitivity: the processes in the lists of the events are those that wait
  for them, and triggering an event keeps it that way, wakes what it has to wake and never faults.
\<close>

section \<open>Frames\<close>

abbreviation dyn :: "'z notifier_scheme \<Rightarrow> bool \<Rightarrow> nat \<Rightarrow> nat list" where
  "dyn s th e \<equiv> dyn_list th (m_events s e)"

lemma upd_proc_simps [simp]:
  "m_procs (upd_proc p f s) = (m_procs s)(p := f (m_procs s p))"
  "m_event_lists (upd_proc p f s) = m_event_lists s" "m_runnable (upd_proc p f s) = m_runnable s"
  "m_curr_proc (upd_proc p f s) = m_curr_proc s" "m_events (upd_proc p f s) = m_events s"
  "m_timed_objs (upd_proc p f s) = m_timed_objs s" "m_next_obj (upd_proc p f s) = m_next_obj s"
  "m_delta_events (upd_proc p f s) = m_delta_events s" "m_timed_events (upd_proc p f s) = m_timed_events s"
  "m_curr_time (upd_proc p f s) = m_curr_time s" "m_execution_phase (upd_proc p f s) = m_execution_phase s"
  by (simp_all add: upd_proc_def)

lemma set_list_simps [simp]:
  "m_event_lists (set_list l x s) = (m_event_lists s)(l := x)"
  "m_procs (set_list l x s) = m_procs s" "m_runnable (set_list l x s) = m_runnable s"
  "m_curr_proc (set_list l x s) = m_curr_proc s" "m_events (set_list l x s) = m_events s"
  "m_timed_objs (set_list l x s) = m_timed_objs s" "m_next_obj (set_list l x s) = m_next_obj s"
  "m_delta_events (set_list l x s) = m_delta_events s" "m_timed_events (set_list l x s) = m_timed_events s"
  "m_curr_time (set_list l x s) = m_curr_time s" "m_execution_phase (set_list l x s) = m_execution_phase s"
  by (simp_all add: set_list_def)

lemma upd_event_procs [simp]:
  "m_procs (upd_event e f s) = m_procs s" "m_event_lists (upd_event e f s) = m_event_lists s"
  "m_runnable (upd_event e f s) = m_runnable s" "m_curr_proc (upd_event e f s) = m_curr_proc s"
  by (simp_all add: upd_event_def)

text \<open>The processes part of the state, as the notification operations see it.\<close>

lemma more_procs:
  "notifier.more s' = notifier.more s \<Longrightarrow> m_procs s' = m_procs s \<and> m_event_lists s' = m_event_lists s \<and>
    m_runnable s' = m_runnable s \<and> m_curr_proc s' = m_curr_proc s \<and> processes.more s' = processes.more s"
  by (cases s; cases s') simp

lemma dyn_listeners: "listeners ev' = listeners ev \<Longrightarrow> dyn_list th ev' = dyn_list th ev"
  by (simp add: listeners_def dyn_list_def)

lemma dyn_set_dyn [simp]:
  "dyn_list th' (set_dyn_list th ps ev) = (if th' = th then ps else dyn_list th' ev)"
  by (auto simp: dyn_list_def set_dyn_list_def)

lemma set_dyn_fields [simp]:
  "m_notify_type (set_dyn_list th ps ev) = m_notify_type ev"
  "m_delta_event_index (set_dyn_list th ps ev) = m_delta_event_index ev"
  "m_timed (set_dyn_list th ps ev) = m_timed ev"
  "m_methods_static (set_dyn_list th ps ev) = m_methods_static ev"
  "m_threads_static (set_dyn_list th ps ev) = m_threads_static ev"
  by (simp_all add: set_dyn_list_def)

section \<open>Removing a handle\<close>

lemma find_rev_upt_unique:
  "i < n \<Longrightarrow> P i \<Longrightarrow> (\<And>j. j < n \<Longrightarrow> P j \<Longrightarrow> j = i) \<Longrightarrow> find P (rev [0..<n]) = Some i"
proof (cases "find P (rev [0..<n])")
  case None
  assume "i < n" "P i"
  with None show ?thesis by (simp add: find_None_iff)
next
  case (Some j)
  assume u: "\<And>j. j < n \<Longrightarrow> P j \<Longrightarrow> j = i"
  from Some obtain k where "k < n" "j = rev [0..<n] ! k" "P j" by (auto simp: find_Some_iff)
  then have "j < n" "P j" by (simp_all add: rev_nth)
  with u Some show ?thesis by simp
qed

text \<open>An entry is overwritten with the last one and the vector shrinks by one.\<close>

lemma swap_remove:
  assumes "distinct ps" "i < length ps"
  shows "distinct (take (length ps - 1) (ps[i := ps ! (length ps - 1)])) \<and>
    set (take (length ps - 1) (ps[i := ps ! (length ps - 1)])) = set ps - {ps ! i}"
proof -
  let ?n = "length ps"
  let ?g = "take (?n - 1) (ps[i := ps ! (?n - 1)])"
  obtain us vs where ps: "ps = us @ ps ! i # vs" "length us = i"
    using assms(2) id_take_nth_drop [of i ps] by (metis length_take min.absorb2 less_imp_le)
  have "?g = (if vs = [] then us else us @ last vs # butlast vs)"
  proof (cases vs rule: rev_cases)
    case Nil
    then have "?n = Suc i" using ps by (metis length_append length_Cons list.size(3) add_Suc_right add_0_right)
    then have "?g = take i ps" by simp
    then show ?thesis using Nil ps by (metis append_eq_conv_conj)
  next
    case (snoc ws w)
    have ps': "ps = us @ ps ! i # ws @ [w]" using ps(1) snoc by simp
    have "ps[i := w] = us @ w # ws @ [w]" using ps(2) by (subst ps') (simp add: list_update_append)
    moreover have "?n = Suc (length (us @ w # ws))" by (subst ps') simp
    moreover have "ps ! (?n - 1) = w" using calculation(2) by (subst ps') (simp add: nth_append)
    ultimately have "?g = take (length (us @ w # ws)) ((us @ w # ws) @ [w])" by simp
    then show ?thesis using snoc by (simp del: append_assoc)
  qed
  moreover have "distinct (us @ ps ! i # vs)" "set ps = set (us @ ps ! i # vs)" using assms(1) ps(1) by metis+
  ultimately show ?thesis by (cases vs rule: rev_cases) auto
qed

lemma remove_handle_ok:
  assumes "distinct ps"
  shows "\<exists>qs. remove_handle p ps = Inr (p \<in> set ps, qs) \<and> distinct qs \<and> set qs = set ps - {p}"
proof -
  let ?n = "length ps"
  let ?g = "\<lambda>i. take (?n - 1) (ps[i := ps ! (?n - 1)])"
  let ?body = "\<lambda>i _. bind_result (vec_at ps i) (\<lambda>x. if x = p
    then bind_result (vec_set ps i (ps ! (?n - 1))) (\<lambda>qs. Inr (Return (take (?n - 1) qs))) else Inr (Continue ()))"
  have "for_loop ?body (rev [0..<?n]) () =
      Inr (case find (\<lambda>i. ps ! i = p) (rev [0..<?n]) of Some i \<Rightarrow> Return (?g i) | None \<Rightarrow> Continue ())"
    by (rule for_loop_find) auto
  then have r: "remove_handle p ps = Inr (case find (\<lambda>i. ps ! i = p) (rev [0..<?n]) of
      Some i \<Rightarrow> (True, ?g i) | None \<Rightarrow> (False, ps))"
    unfolding remove_handle_def by (simp split: option.split)
  show ?thesis
  proof (cases "p \<in> set ps")
    case False
    then have "find (\<lambda>i. ps ! i = p) (rev [0..<?n]) = None" by (auto simp: find_None_iff)
    then show ?thesis using r False assms by simp
  next
    case True
    then obtain i where i: "i < ?n" "ps ! i = p" by (auto simp: in_set_conv_nth)
    have "find (\<lambda>i. ps ! i = p) (rev [0..<?n]) = Some i"
      by (rule find_rev_upt_unique) (use i assms in \<open>auto simp: nth_eq_iff_index_eq\<close>)
    then have "remove_handle p ps = Inr (True, ?g i)" using r by simp
    then show ?thesis using True swap_remove [OF assms i(1)] i(2) by auto
  qed
qed

lemma event_remove_dynamic_ok:
  assumes "distinct (dyn s th e)"
  shows "\<exists>qs. event_remove_dynamic th p e s = Inr (upd_event e (set_dyn_list th qs) s) \<and>
    distinct qs \<and> set qs = set (dyn s th e) - {p}"
proof -
  obtain qs where q: "remove_handle p (dyn s th e) = Inr (p \<in> set (dyn s th e), qs)" "distinct qs"
    "set qs = set (dyn s th e) - {p}" using remove_handle_ok [OF assms] by blast
  have "upd_event e (\<lambda>_. (m_events s e)\<lparr>m_threads_dynamic := qs\<rparr>) s = upd_event e (set_dyn_list True qs) s"
    "upd_event e (\<lambda>_. (m_events s e)\<lparr>m_methods_dynamic := qs\<rparr>) s = upd_event e (set_dyn_list False qs) s"
    by (simp_all add: upd_event_def set_dyn_list_def)
  then have "event_remove_dynamic th p e s = Inr (upd_event e (set_dyn_list th qs) s)"
    using q(1) by (cases th) (simp_all add: event_remove_dynamic_def remove_dynamic_thread_def remove_dynamic_method_def
      dyn_list_def)
  then show ?thesis using q by blast
qed

section \<open>Who waits for what\<close>

definition list_events :: "(nat \<Rightarrow> event_list option) \<Rightarrow> sc_process \<Rightarrow> nat set \<Rightarrow> bool" where
  "list_events ls q L \<longleftrightarrow> (\<exists>l el. m_event_list_p q = Some l \<and> ls l = Some el \<and> L = set (l_events el))"

text \<open>\<open>A\<close> is the set of events in whose lists the process is.\<close>

definition expects :: "(nat \<Rightarrow> event_list option) \<Rightarrow> sc_process \<Rightarrow> nat set \<Rightarrow> bool" where
  "expects ls q A \<longleftrightarrow> (case m_trigger_type q of
       STATIC \<Rightarrow> A = {} \<and> m_event_list_p q = None
     | EVENT \<Rightarrow> (\<exists>e. m_event_p q = Some e \<and> A = {e}) \<and> m_event_list_p q = None
     | OR_LIST \<Rightarrow> list_events ls q A
     | AND_LIST \<Rightarrow> (\<exists>L. list_events ls q L \<and> A \<subseteq> L \<and> m_event_count q = int (card A) \<and> A \<noteq> {})
     | TIMEOUT \<Rightarrow> A = {m_timeout_event_p q} \<and> m_event_list_p q = None
     | EVENT_TIMEOUT \<Rightarrow> (\<exists>e. m_event_p q = Some e \<and> A = {e, m_timeout_event_p q}) \<and> m_event_list_p q = None
     | OR_LIST_TIMEOUT \<Rightarrow> (\<exists>L. list_events ls q L \<and> A = insert (m_timeout_event_p q) L)
     | AND_LIST_TIMEOUT \<Rightarrow> (\<exists>L R. list_events ls q L \<and> R \<subseteq> L \<and> A = insert (m_timeout_event_p q) R \<and>
         m_event_count q = int (card R) \<and> R \<noteq> {}))"

definition users :: "'z processes_scheme \<Rightarrow> nat \<Rightarrow> nat set" where
  "users s l = {p. m_event_list_p (m_procs s p) = Some l}"

definition timeouts :: "'z processes_scheme \<Rightarrow> nat set" where
  "timeouts s = range (\<lambda>p. m_timeout_event_p (m_procs s p))"

definition lists_ok :: "'z processes_scheme \<Rightarrow> bool" where
  "lists_ok s \<longleftrightarrow> (\<forall>l el. m_event_lists s l = Some el \<longrightarrow> distinct (l_events el) \<and>
     set (l_events el) \<inter> timeouts s = {} \<and> finite (users s l) \<and> card (users s l) \<le> m_busy el)"

definition timeouts_ok :: "'z processes_scheme \<Rightarrow> bool" where
  "timeouts_ok s \<longleftrightarrow> inj (\<lambda>p. m_timeout_event_p (m_procs s p)) \<and>
     (\<forall>p e. m_event_p (m_procs s p) = Some e \<longrightarrow> e \<notin> timeouts s)"

definition queues_ok :: "'z processes_scheme \<Rightarrow> bool" where
  "queues_ok s \<longleftrightarrow> (\<forall>th. (\<exists>xs ys. queue_rep (proc_queue_of th s) xs ys) \<and>
     (\<forall>p. m_is_thread (m_procs s p) = th \<longrightarrow> real_process (proc_queue_of th s) p))"

text \<open>\<open>W th e\<close> is the set of the processes of the kind \<open>th\<close> in the list of the event \<open>e\<close>.\<close>

definition sens_ok :: "(bool \<Rightarrow> nat \<Rightarrow> nat set) \<Rightarrow> 'z processes_scheme \<Rightarrow> bool" where
  "sens_ok W s \<longleftrightarrow>
     (\<forall>p. expects (m_event_lists s) (m_procs s p) {e. p \<in> W (m_is_thread (m_procs s p)) e} \<and>
        (\<forall>e. p \<notin> W (\<not> m_is_thread (m_procs s p)) e) \<and>
        (m_trigger_type (m_procs s p) \<noteq> STATIC \<longrightarrow> \<not> runnable_proc (m_is_thread (m_procs s p)) p s)) \<and>
     lists_ok s \<and> timeouts_ok s \<and> queues_ok s"

lemma sens_okD:
  assumes "sens_ok W s"
  shows "expects (m_event_lists s) (m_procs s p) {e. p \<in> W (m_is_thread (m_procs s p)) e}"
    "p \<in> W th e \<Longrightarrow> m_is_thread (m_procs s p) = th"
    "m_trigger_type (m_procs s p) \<noteq> STATIC \<Longrightarrow> \<not> runnable_proc (m_is_thread (m_procs s p)) p s"
    "lists_ok s" "timeouts_ok s" "queues_ok s"
proof -
  have all: "expects (m_event_lists s) (m_procs s p) {e. p \<in> W (m_is_thread (m_procs s p)) e} \<and>
    (\<forall>e. p \<notin> W (\<not> m_is_thread (m_procs s p)) e) \<and>
    (m_trigger_type (m_procs s p) \<noteq> STATIC \<longrightarrow> \<not> runnable_proc (m_is_thread (m_procs s p)) p s)"
    using assms unfolding sens_ok_def by blast
  then show "expects (m_event_lists s) (m_procs s p) {e. p \<in> W (m_is_thread (m_procs s p)) e}"
    "m_trigger_type (m_procs s p) \<noteq> STATIC \<Longrightarrow> \<not> runnable_proc (m_is_thread (m_procs s p)) p s" by auto
  show "m_is_thread (m_procs s p) = th" if "p \<in> W th e"
    using all that by (cases th; cases "m_is_thread (m_procs s p)") auto
  show "lists_ok s" "timeouts_ok s" "queues_ok s" using assms unfolding sens_ok_def by blast+
qed

definition released :: "event_list option \<Rightarrow> event_list option \<Rightarrow> bool" where
  "released x y \<longleftrightarrow> (\<exists>el. x = Some el \<and> (y = Some (el\<lparr>m_busy := m_busy el - 1\<rparr>) \<or> (y = None \<and> m_busy el \<le> 1)))"

lemma expects_cong:
  "(\<And>l. m_event_list_p q = Some l \<Longrightarrow> map_option l_events (ls' l) = map_option l_events (ls l)) \<Longrightarrow>
    expects ls' q A = expects ls q A"
proof -
  assume a: "\<And>l. m_event_list_p q = Some l \<Longrightarrow> map_option l_events (ls' l) = map_option l_events (ls l)"
  have "list_events ls' q L = list_events ls q L" for L
  proof (cases "m_event_list_p q")
    case None
    then show ?thesis by (simp add: list_events_def)
  next
    case (Some l)
    then show ?thesis using a [OF Some] by (cases "ls l"; cases "ls' l") (auto simp: list_events_def)
  qed
  then show ?thesis by (cases "m_trigger_type q") (simp_all add: expects_def)
qed

lemma sens_update:
  assumes ok: "sens_ok W s"
    and q: "m_procs s1 = (m_procs s)(p := q)" "m_is_thread q = m_is_thread (m_procs s p)"
      "m_timeout_event_p q = m_timeout_event_p (m_procs s p)"
      "m_event_p q = None \<or> m_event_p q = m_event_p (m_procs s p)"
      "m_event_list_p q = None \<or> m_event_list_p q = m_event_list_p (m_procs s p)"
      "m_trigger_type q = STATIC \<or> m_trigger_type q = m_trigger_type (m_procs s p)"
    and W: "\<And>th x. W1 th x = (if th = m_is_thread q \<and> x \<in> D then W th x - {p} else W th x)"
    and ex: "expects (m_event_lists s1) q ({x. p \<in> W (m_is_thread q) x} - D)"
    and ls: "\<And>l. m_event_lists s1 l = m_event_lists s l \<or> (m_event_list_p (m_procs s p) = Some l \<and>
      m_event_list_p q = None \<and> released (m_event_lists s l) (m_event_lists s1 l))"
    and run: "m_runnable s1 = m_runnable s"
  shows "sens_ok W1 s1"
proof -
  note d = sens_okD [OF ok]
  have to: "m_timeout_event_p (m_procs s1 x) = m_timeout_event_p (m_procs s x)" for x using q(1,3) by simp
  then have tos: "timeouts s1 = timeouts s" by (simp add: timeouts_def)
  have kind: "m_is_thread (m_procs s1 x) = m_is_thread (m_procs s x)" for x using q(1,2) by simp
  have rq: "runnable_proc th x s1 = runnable_proc th x s" "proc_queue_of th s1 = proc_queue_of th s" for th x
    using run by (simp_all add: runnable_proc_def proc_queue_of_def)
  have us: "users s1 l \<subseteq> users s l" "m_event_list_p q = None \<Longrightarrow> users s1 l = users s l - {p}" for l
    using q(1,5) by (auto simp: users_def)
  have "lists_ok s1"
    unfolding lists_ok_def
  proof (intro allI impI)
    fix l el assume el: "m_event_lists s1 l = Some el"
    consider "m_event_lists s l = Some el" |
      el0 where "m_event_lists s l = Some el0" "el = el0\<lparr>m_busy := m_busy el0 - 1\<rparr>" "p \<in> users s l" "m_event_list_p q = None"
      using ls [of l] el by (auto simp: released_def users_def)
    then show "distinct (l_events el) \<and> set (l_events el) \<inter> timeouts s1 = {} \<and> finite (users s1 l) \<and>
      card (users s1 l) \<le> m_busy el"
    proof cases
      case 1
      then have l: "distinct (l_events el)" "set (l_events el) \<inter> timeouts s = {}" "finite (users s l)"
        "card (users s l) \<le> m_busy el" using d(4) by (auto simp: lists_ok_def)
      have "card (users s1 l) \<le> card (users s l)" by (rule card_mono [OF l(3) us(1)])
      then show ?thesis using l finite_subset [OF us(1) l(3)] tos by simp
    next
      case 2
      then have l: "distinct (l_events el0)" "set (l_events el0) \<inter> timeouts s = {}" "finite (users s l)"
        "card (users s l) \<le> m_busy el0" using d(4) by (auto simp: lists_ok_def)
      then show ?thesis using us(2) [OF 2(4), of l] tos 2(2,3) by simp
    qed
  qed
  moreover have "timeouts_ok s1"
    unfolding timeouts_ok_def to tos
  proof (intro conjI allI impI)
    show "inj (\<lambda>p. m_timeout_event_p (m_procs s p))" using d(5) by (simp add: timeouts_ok_def)
    fix x e assume "m_event_p (m_procs s1 x) = Some e"
    then have "m_event_p (m_procs s x) = Some e" using q(1,4) by (cases "x = p") auto
    then show "e \<notin> timeouts s" using d(5) by (simp add: timeouts_ok_def)
  qed
  moreover have "queues_ok s1" using d(6) kind rq by (simp add: queues_ok_def)
  moreover have "expects (m_event_lists s1) (m_procs s1 x) {e. x \<in> W1 (m_is_thread (m_procs s1 x)) e}" for x
  proof (cases "x = p")
    case True
    have "{e. p \<in> W1 (m_is_thread q) e} = {x. p \<in> W (m_is_thread q) x} - D" by (auto simp: W)
    then show ?thesis using True q(1) ex by simp
  next
    case False
    have "expects (m_event_lists s1) (m_procs s x) A = expects (m_event_lists s) (m_procs s x) A" for A
    proof (rule expects_cong)
      fix l assume l: "m_event_list_p (m_procs s x) = Some l"
      have "\<not> m_busy el \<le> 1" if "m_event_list_p (m_procs s p) = Some l" "m_event_lists s l = Some el" for el
      proof -
        have "{x, p} \<subseteq> users s l" using l that(1) by (simp add: users_def)
        moreover have "finite (users s l)" "card (users s l) \<le> m_busy el" using d(4) that(2) by (auto simp: lists_ok_def)
        ultimately have "card {x, p} \<le> m_busy el" by (meson card_mono le_trans)
        then show ?thesis using False by simp
      qed
      then show "map_option l_events (m_event_lists s1 l) = map_option l_events (m_event_lists s l)"
        using ls [of l] by (auto simp: released_def)
    qed
    moreover have "x \<in> W1 th e \<longleftrightarrow> x \<in> W th e" for th e using False by (simp add: W)
    then have "{e. x \<in> W1 (m_is_thread (m_procs s1 x)) e} = {e. x \<in> W (m_is_thread (m_procs s x)) e}"
      by (simp add: kind)
    ultimately show ?thesis using False q(1) d(1) [of x] by simp
  qed
  moreover have "x \<notin> W1 (\<not> m_is_thread (m_procs s1 x)) e" for x e
  proof
    assume "x \<in> W1 (\<not> m_is_thread (m_procs s1 x)) e"
    then have "x \<in> W (\<not> m_is_thread (m_procs s x)) e" by (simp only: W kind) (simp split: if_splits)
    from d(2) [OF this] show False by simp
  qed
  moreover have "\<not> runnable_proc (m_is_thread (m_procs s1 x)) x s1" if "m_trigger_type (m_procs s1 x) \<noteq> STATIC" for x
    using d(3) [of x] that q(1,2,6) kind rq by (cases "x = p") auto
  ultimately show ?thesis unfolding sens_ok_def by blast
qed

end
