(* ===== verification/Sc_Trigger_Facts.thy ===== *)
theory Sc_Trigger_Facts
  imports Sc_Process_Facts
begin

text \<open>
  What the operations that take a process off the lists of events do, and what triggering an event
  does: it never faults, keeps the sensitivity lists consistent and delivers the event to each
  process that waits for it.
\<close>

section \<open>Notifications while an event is triggered\<close>

text \<open>
  The event that is triggered keeps its old notification type until the end of \<open>trigger()\<close>; the
  invariant holds when it is taken as not notified.
\<close>

definition settle :: "nat \<Rightarrow> 'z notifier_scheme \<Rightarrow> 'z notifier_scheme" where
  "settle e = upd_event e (m_notify_type_update (\<lambda>_. NONE))"

definition idle_ok :: "nat \<Rightarrow> 'z notifier_scheme \<Rightarrow> bool" where
  "idle_ok e s \<longleftrightarrow> notifier_ok (settle e s)"

lemma idle_ok_NONE: "ntype s e = NONE \<Longrightarrow> idle_ok e s = notifier_ok s"
proof -
  assume "ntype s e = NONE"
  then have "settle e s = s"
    by (simp add: settle_def upd_event_def) (rule notifier.equality; simp add: fun_eq_iff)
  then show ?thesis by (simp add: idle_ok_def)
qed

lemma settle_comm:
  "x \<noteq> e \<Longrightarrow> upd_event x f (settle e s) = settle e (upd_event x f s)"
  "upd_event x (m_delta_event_index_update g) (settle e s) = settle e (upd_event x (m_delta_event_index_update g) s)"
proof -
  show "x \<noteq> e \<Longrightarrow> upd_event x f (settle e s) = settle e (upd_event x f s)"
    by (simp add: settle_def upd_event_def fun_upd_twist)
  have comm: "m_delta_event_index_update g (ev\<lparr>m_notify_type := NONE\<rparr>) = (m_delta_event_index_update g ev)\<lparr>m_notify_type := NONE\<rparr>" for ev
    by (cases ev) simp
  show "upd_event x (m_delta_event_index_update g) (settle e s) =
      settle e (upd_event x (m_delta_event_index_update g) s)"
    by (cases "x = e") (simp_all add: settle_def upd_event_def fun_upd_twist comm)
qed

lemma settle_simps [simp]:
  "m_delta_event_index (m_events (settle e s) x) = m_delta_event_index (m_events s x)"
  "m_timed (m_events (settle e s) x) = m_timed (m_events s x)"
  "ntype (settle e s) x = (if x = e then NONE else ntype s x)"
  "listeners (m_events (settle e s) x) = listeners (m_events s x)"
  "m_delta_events (settle e s) = m_delta_events s" "m_timed_objs (settle e s) = m_timed_objs s"
  "m_curr_time (settle e s) = m_curr_time s" "m_execution_phase (settle e s) = m_execution_phase s"
  "notifier.more (settle e s) = notifier.more s" "m_timed_events (settle e s) = m_timed_events s"
  "m_next_obj (settle e s) = m_next_obj s"
  by (auto simp: settle_def listeners_def)

lemma settle_lists [simp]:
  "settle e s\<lparr>m_delta_events := d\<rparr> = settle e (s\<lparr>m_delta_events := d\<rparr>)"
  "settle e s\<lparr>m_timed_objs := m\<rparr> = settle e (s\<lparr>m_timed_objs := m\<rparr>)"
  by (simp_all add: settle_def upd_event_def)

lemma remove_delta_settle: "remove_delta_event x (settle e s) = map_sum id (settle e) (remove_delta_event x s)"
  unfolding remove_delta_event_def Let_def by (simp add: settle_comm(2))

lemma cancel_settle: "x \<noteq> e \<Longrightarrow> cancel x (settle e s) = map_sum id (settle e) (cancel x s)"
proof (cases "ntype s x")
  case DELTA
  assume "x \<noteq> e"
  then show ?thesis using DELTA
    by (cases "remove_delta_event x s") (simp_all add: cancel_def remove_delta_settle settle_comm)
next
  case TIMED
  assume "x \<noteq> e"
  then have "drop_timed x (settle e s) = map_sum id (settle e) (drop_timed x s)"
    by (auto simp: drop_timed_def timed_at_def settle_comm split: option.splits)
  then show ?thesis using TIMED \<open>x \<noteq> e\<close> by (cases "drop_timed x s") (simp_all add: cancel_def settle_comm)
qed (simp add: cancel_def)

lemma cancel_idle:
  assumes "idle_ok e s" "x \<noteq> e"
  shows "\<exists>s'. cancel x s = Inr s' \<and> idle_ok e s' \<and> ntype s' x = NONE \<and>
    (\<forall>y. y \<noteq> e \<and> y \<noteq> x \<longrightarrow> pending s' y = pending s y) \<and> kept s s'"
proof -
  obtain t where t: "cancel x (settle e s) = Inr t" "notifier_ok t" "pending t = (pending (settle e s))(x := Idle)"
    "kept (settle e s) t"
    using cancel_achieves [of "settle e s" x] assms(1) by (auto simp: idle_ok_def achieves_def)
  then obtain s' where s': "cancel x s = Inr s'" "t = settle e s'"
    using assms(2) by (cases "cancel x s") (auto simp: cancel_settle)
  have p: "pending (settle e z) y = pending z y" if "y \<noteq> e" for z :: "'a notifier_scheme" and y
    using that by (simp add: pending_def split: notify_t.split)
  have "pending s' y = pending s y" if "y \<noteq> e" "y \<noteq> x" for y
    using t(3) that p [of y s'] p [of y s] s'(2) by (simp add: fun_eq_iff)
  moreover have "pending s' x = Idle" using t(3) assms(2) p [of x s'] s'(2) by (simp add: fun_eq_iff)
  ultimately show ?thesis using s' t(2,4) by (auto simp: idle_ok_def kept_def ntype_Idle)
qed

lemma idle_ok_cong:
  assumes "idle_ok e s" "m_delta_events s' = m_delta_events s" "m_timed_events s' = m_timed_events s"
    "m_timed_objs s' = m_timed_objs s" "m_next_obj s' = m_next_obj s" "\<And>x. ntype s' x = ntype s x"
    "\<And>x. ntype s x \<noteq> NONE \<Longrightarrow> m_delta_event_index (m_events s' x) = m_delta_event_index (m_events s x)"
    "\<And>x. ntype s x \<noteq> NONE \<Longrightarrow> m_timed (m_events s' x) = m_timed (m_events s x)"
  shows "idle_ok e s'"
proof -
  have "delta_ok (settle e s)" "timed_ok (settle e s)" using assms(1) by (simp_all add: idle_ok_def notifier_ok_def)
  then have "delta_ok (settle e s')" "timed_ok (settle e s')"
    by - (rule delta_ok_cong, assumption, use assms in \<open>auto split: if_splits\<close>,
      rule timed_ok_cong, assumption, use assms in \<open>auto split: if_splits\<close>)
  then show ?thesis by (simp add: idle_ok_def notifier_ok_def)
qed

section \<open>Leaving the lists of events\<close>

definition left :: "bool \<Rightarrow> nat \<Rightarrow> nat set \<Rightarrow> 'z notifier_scheme \<Rightarrow> 'z notifier_scheme \<Rightarrow> bool" where
  "left th p D s s' \<longleftrightarrow>
     (\<forall>x\<in>D. distinct (dyn s' th x) \<and> set (dyn s' th x) = set (dyn s th x) - {p}) \<and>
     (\<forall>x th'. x \<notin> D \<or> th' \<noteq> th \<longrightarrow> dyn s' th' x = dyn s th' x) \<and>
     (\<forall>x. m_methods_static (m_events s' x) = m_methods_static (m_events s x) \<and>
        m_threads_static (m_events s' x) = m_threads_static (m_events s x))"

text \<open>The effect of a step that handles the process \<open>p\<close> while \<open>e\<close> is triggered.\<close>

definition eff :: "nat \<Rightarrow> bool \<Rightarrow> nat \<Rightarrow> nat set \<Rightarrow> 'z processes_scheme \<Rightarrow> 'z processes_scheme \<Rightarrow> bool" where
  "eff e th p D s s' \<longleftrightarrow> left th p D s s' \<and> idle_ok e s' \<and>
     (\<forall>x. x \<noteq> e \<and> x \<notin> timeouts s \<longrightarrow> pending s' x = pending s x) \<and>
     (\<forall>x. x \<noteq> p \<longrightarrow> m_procs s' x = m_procs s x) \<and> timeouts s' = timeouts s \<and>
     m_runnable s' = m_runnable s \<and> m_curr_proc s' = m_curr_proc s"

lemma left_trans:
  assumes "left th p D s s1" "left th p D' s1 s2"
  shows "left th p (D \<union> D') s s2"
proof -
  have "distinct (dyn s2 th x) \<and> set (dyn s2 th x) = set (dyn s th x) - {p}" if "x \<in> D \<union> D'" for x
    using assms that unfolding left_def by (cases "x \<in> D'"; cases "x \<in> D") auto
  then show ?thesis using assms unfolding left_def by simp
qed

lemma left_refl: "left th p {} s s"
  by (simp add: left_def)

lemma eff_refl: "idle_ok e s \<Longrightarrow> eff e th p {} s s"
  by (simp add: eff_def left_refl)

lemma eff_trans:
  assumes "eff e th p D s s1" "eff e th p D' s1 s2"
  shows "eff e th p (D \<union> D') s s2"
  using assms left_trans [of th p D s s1 D' s2] by (simp add: eff_def)

lemma timeouts_upd_proc [simp]:
  "(\<And>q. m_timeout_event_p (f q) = m_timeout_event_p q) \<Longrightarrow> timeouts (upd_proc p f s) = timeouts s"
  by (simp add: timeouts_def image_def) (metis fun_upd_apply)

lemma eff_cong:
  assumes "eff e th p D s s1" "m_events s2 = m_events s1" "m_timed_objs s2 = m_timed_objs s1"
    "m_delta_events s2 = m_delta_events s1" "m_timed_events s2 = m_timed_events s1" "m_next_obj s2 = m_next_obj s1"
    "\<And>x. x \<noteq> p \<Longrightarrow> m_procs s2 x = m_procs s1 x" "timeouts s2 = timeouts s1" "m_runnable s2 = m_runnable s1"
    "m_curr_proc s2 = m_curr_proc s1"
  shows "eff e th p D s s2"
proof -
  have "left th p D s s2" using assms(1,2) by (simp add: eff_def left_def)
  moreover have "idle_ok e s2" by (rule idle_ok_cong [of e s1]) (use assms in \<open>simp_all add: eff_def\<close>)
  moreover have "pending s2 = pending s1" using assms(2,3) by (intro ext) (simp add: pending_def split: notify_t.split)
  ultimately show ?thesis using assms by (simp add: eff_def)
qed

lemma eff_upd_proc:
  "eff e th p D s s1 \<Longrightarrow> (\<And>q. m_timeout_event_p (f q) = m_timeout_event_p q) \<Longrightarrow> eff e th p D s (upd_proc p f s1)"
  by (erule eff_cong) simp_all

lemma timeouts_set_list [simp]: "timeouts (set_list l y s) = timeouts s"
  by (simp add: timeouts_def)

lemma eff_remove_dynamic:
  assumes "idle_ok e s" "distinct (dyn s th x)"
  shows "\<exists>s'. event_remove_dynamic th p x s = Inr s' \<and> eff e th p {x} s s' \<and> m_procs s' = m_procs s \<and>
    m_event_lists s' = m_event_lists s"
proof -
  obtain qs where q: "event_remove_dynamic th p x s = Inr (upd_event x (set_dyn_list th qs) s)" "distinct qs"
    "set qs = set (dyn s th x) - {p}" using event_remove_dynamic_ok [OF assms(2)] by blast
  define s' where "s' = upd_event x (set_dyn_list th qs) s"
  have "left th p {x} s s'" using q by (auto simp: left_def s'_def)
  moreover have "idle_ok e s'" by (rule idle_ok_cong [OF assms(1)]) (simp_all add: s'_def)
  moreover have "pending s' = pending s" by (simp add: pending_def s'_def fun_eq_iff split: notify_t.split)
  moreover have "timeouts s' = timeouts s" by (simp add: timeouts_def s'_def)
  ultimately show ?thesis using q(1) by (auto simp: eff_def s'_def)
qed

lemma eff_remove_all:
  assumes "idle_ok e s" "\<And>x. x \<in> set xs \<Longrightarrow> Some x \<noteq> e_not \<Longrightarrow> distinct (dyn s th x)"
  shows "\<exists>s'. for_each (\<lambda>x s. if Some x \<noteq> e_not then event_remove_dynamic th p x s else Inr s) xs s = Inr s' \<and>
    eff e th p {x \<in> set xs. Some x \<noteq> e_not} s s' \<and> m_procs s' = m_procs s \<and> m_event_lists s' = m_event_lists s"
  using assms
proof (induction xs arbitrary: s)
  case Nil
  then show ?case by (simp add: eff_refl)
next
  case (Cons y ys)
  show ?case
  proof (cases "Some y = e_not")
    case True
    then have "{x \<in> set (y # ys). Some x \<noteq> e_not} = {x \<in> set ys. Some x \<noteq> e_not}" by auto
    moreover have "\<exists>s'. for_each (\<lambda>x s. if Some x \<noteq> e_not then event_remove_dynamic th p x s else Inr s) ys s = Inr s' \<and>
      eff e th p {x \<in> set ys. Some x \<noteq> e_not} s s' \<and> m_procs s' = m_procs s \<and> m_event_lists s' = m_event_lists s"
      by (rule Cons.IH [OF Cons.prems(1)]) (simp add: Cons.prems(2))
    ultimately show ?thesis using True by simp
  next
    case False
    then obtain s1 where s1: "event_remove_dynamic th p y s = Inr s1" "eff e th p {y} s s1" "m_procs s1 = m_procs s"
      "m_event_lists s1 = m_event_lists s"
      using eff_remove_dynamic [OF Cons.prems(1), where x = y and th = th and p = p] Cons.prems(2) [of y] by auto
    have "distinct (dyn s1 th x)" if "x \<in> set ys" "Some x \<noteq> e_not" for x
      using s1(2) Cons.prems(2) [of x] that by (cases "x = y") (auto simp: eff_def left_def)
    then obtain s2 where s2: "for_each (\<lambda>x s. if Some x \<noteq> e_not then event_remove_dynamic th p x s else Inr s) ys s1 = Inr s2"
      "eff e th p {x \<in> set ys. Some x \<noteq> e_not} s1 s2" "m_procs s2 = m_procs s1" "m_event_lists s2 = m_event_lists s1"
      using Cons.IH [of s1] s1(2) unfolding eff_def by blast
    have "{x \<in> set (y # ys). Some x \<noteq> e_not} = {y} \<union> {x \<in> set ys. Some x \<noteq> e_not}" using False by auto
    then show ?thesis using s1 s2 eff_trans [OF s1(2) s2(2)] False by (intro exI [of _ s2]) simp
  qed
qed

lemma eff_leave_list:
  assumes "idle_ok e s" "m_event_list_p (m_procs s p) = Some l" "m_event_lists s l = Some el" "1 \<le> m_busy el"
    "\<And>x. x \<in> set (l_events el) \<Longrightarrow> Some x \<noteq> e_not \<Longrightarrow> distinct (dyn s th x)"
  shows "\<exists>s' y. leave_list th p e_not s = Inr s' \<and> eff e th p {x \<in> set (l_events el). Some x \<noteq> e_not} s s' \<and>
    m_procs s' = (m_procs s)(p := m_event_list_p_update (\<lambda>_. None) (m_procs s p)) \<and>
    m_event_lists s' = (m_event_lists s)(l := y) \<and> released (m_event_lists s l) y"
proof -
  obtain s1 where s1: "list_remove_dynamic th p l e_not s = Inr s1"
    "eff e th p {x \<in> set (l_events el). Some x \<noteq> e_not} s s1" "m_procs s1 = m_procs s" "m_event_lists s1 = m_event_lists s"
    using eff_remove_all [OF assms(1), of "rev (l_events el)" e_not th p] assms(3,5)
    by (auto simp: list_remove_dynamic_def list_at_def)
  obtain y where y: "list_auto_delete l s1 = Inr (set_list l y s1)" "released (m_event_lists s l) y"
    using assms(3,4) s1(4) by (auto simp: list_auto_delete_def list_at_def released_def Let_def)
  have e2: "eff e th p {x \<in> set (l_events el). Some x \<noteq> e_not} s (set_list l y s1)"
    by (rule eff_cong [OF s1(2)]) simp_all
  let ?s2 = "upd_proc p (m_event_list_p_update (\<lambda>_. None)) (set_list l y s1)"
  have "leave_list th p e_not s = Inr ?s2" using assms(2) s1(1) y(1) by (simp add: leave_list_def)
  moreover have "eff e th p {x \<in> set (l_events el). Some x \<noteq> e_not} s ?s2" by (rule eff_upd_proc [OF e2]) simp
  ultimately show ?thesis using y(2) s1(3,4) by (intro exI [of _ ?s2] exI [of _ y]) simp
qed

lemma eff_stop_timeout:
  assumes ok: "idle_ok e s" and te: "te = m_timeout_event_p (m_procs s p)" "te \<noteq> e" "set (dyn s th te) \<subseteq> {p}"
    "dyn s (\<not> th) te = []"
  shows "\<exists>s'. stop_timeout p s = Inr s' \<and> eff e th p {te} s s' \<and> m_procs s' = m_procs s \<and>
    m_event_lists s' = m_event_lists s"
proof -
  obtain s1 where s1: "cancel te s = Inr s1" "idle_ok e s1" "ntype s1 te = NONE"
    "\<And>y. y \<noteq> e \<Longrightarrow> y \<noteq> te \<Longrightarrow> pending s1 y = pending s y" "kept s s1"
    using cancel_idle [OF ok te(2)] by blast
  have more: "notifier.more s1 = notifier.more s" and ls: "\<And>x. listeners (m_events s1 x) = listeners (m_events s x)"
    using s1(5) by (simp_all add: kept_def)
  note m = more_procs [OF more]
  define s2 where "s2 = reset_event te s1"
  have ev: "m_events s2 x = (if x = te then (m_events s1 te)\<lparr>m_notify_type := NONE, m_delta_event_index := - 1,
      m_timed := None, m_methods_dynamic := [], m_threads_dynamic := []\<rparr> else m_events s1 x)" for x
    by (simp add: s2_def reset_event_def)
  have nt: "ntype s2 x = ntype s1 x" for x using s1(3) by (simp add: ev)
  have d: "dyn s2 th' x = (if x = te then [] else dyn s th' x)" for th' x
  proof (cases "x = te")
    case True
    then show ?thesis by (simp add: ev dyn_list_def)
  next
    case False
    then show ?thesis using dyn_listeners [OF ls] by (simp add: ev)
  qed
  have "dyn s th' te = []" if "th' \<noteq> th" for th' using te(4) that by (cases th; cases th') auto
  moreover have "m_methods_static (m_events s2 x) = m_methods_static (m_events s x) \<and>
      m_threads_static (m_events s2 x) = m_threads_static (m_events s x)" for x
    using ls [of x] by (auto simp: ev listeners_def)
  ultimately have "left th p {te} s s2" using te(3) unfolding left_def d by auto
  moreover have "idle_ok e s2"
    by (rule idle_ok_cong [OF s1(2)]) (use s1(3) in \<open>auto simp: nt ev s2_def reset_event_def\<close>)
  moreover have "pending s2 x = pending s x" if "x \<noteq> e" "x \<notin> timeouts s" for x
  proof -
    have "x \<noteq> te" using that(2) te(1) by (auto simp: timeouts_def)
    then have "pending s2 x = pending s1 x"
      by (simp add: pending_def ev split: notify_t.split) (simp add: s2_def reset_event_def)
    then show ?thesis using s1(4) that(1) \<open>x \<noteq> te\<close> by simp
  qed
  moreover have "m_procs s2 = m_procs s" "m_event_lists s2 = m_event_lists s" "m_runnable s2 = m_runnable s"
    "m_curr_proc s2 = m_curr_proc s" using m by (simp_all add: s2_def reset_event_def)
  moreover have "timeouts s2 = timeouts s" using \<open>m_procs s2 = m_procs s\<close> by (simp add: timeouts_def)
  moreover have "stop_timeout p s = Inr s2" using s1(1) te(1) by (simp add: stop_timeout_def s2_def)
  ultimately show ?thesis by (simp add: eff_def)
qed

lemma eff_leave_event:
  assumes "idle_ok e s" "m_event_p (m_procs s p) = Some x" "distinct (dyn s th x)"
  shows "\<exists>s'. leave_event th p s = Inr s' \<and> eff e th p {x} s s' \<and>
    m_procs s' = (m_procs s)(p := m_event_p_update (\<lambda>_. None) (m_procs s p)) \<and> m_event_lists s' = m_event_lists s"
proof -
  obtain s1 where s1: "event_remove_dynamic th p x s = Inr s1" "eff e th p {x} s s1" "m_procs s1 = m_procs s"
    "m_event_lists s1 = m_event_lists s" using eff_remove_dynamic [OF assms(1,3)] by blast
  let ?s2 = "upd_proc p (m_event_p_update (\<lambda>_. None)) s1"
  have "eff e th p {x} s ?s2" by (rule eff_upd_proc [OF s1(2)]) simp
  moreover have "leave_event th p s = Inr ?s2" using assms(2) s1(1) by (simp add: leave_event_def)
  ultimately show ?thesis using s1(3,4) by (intro exI [of _ ?s2]) simp
qed

lemma eff_drop_list:
  assumes "idle_ok e s" "m_event_list_p (m_procs s p) = Some l" "m_event_lists s l = Some el" "1 \<le> m_busy el"
  shows "\<exists>s' y. drop_list p s = Inr s' \<and> eff e th p {} s s' \<and>
    m_procs s' = (m_procs s)(p := m_event_list_p_update (\<lambda>_. None) (m_procs s p)) \<and>
    m_event_lists s' = (m_event_lists s)(l := y) \<and> released (m_event_lists s l) y"
proof -
  obtain y where y: "list_auto_delete l s = Inr (set_list l y s)" "released (m_event_lists s l) y"
    using assms(3,4) by (auto simp: list_auto_delete_def list_at_def released_def Let_def)
  have "eff e th p {} s (set_list l y s)" by (rule eff_cong [OF eff_refl [OF assms(1)]]) simp_all
  then have "eff e th p {} s (upd_proc p (m_event_list_p_update (\<lambda>_. None)) (set_list l y s))" by (rule eff_upd_proc) simp
  then show ?thesis using assms(2) y by (auto simp: drop_list_def)
qed

section \<open>A process that gets the event\<close>

text \<open>The state in which the event \<open>e\<close> is handed to the process \<open>p\<close>, which is in its list.\<close>

definition handling :: "(bool \<Rightarrow> nat \<Rightarrow> nat set) \<Rightarrow> nat \<Rightarrow> bool \<Rightarrow> nat \<Rightarrow> 'z processes_scheme \<Rightarrow> bool" where
  "handling W e th p s \<longleftrightarrow> sens_ok W s \<and> p \<in> W th e \<and> idle_ok e s \<and>
     (\<forall>th' x. th' \<noteq> th \<or> x \<noteq> e \<longrightarrow> distinct (dyn s th' x) \<and> W th' x = set (dyn s th' x))"

definition same_identity :: "sc_process \<Rightarrow> sc_process \<Rightarrow> bool" where
  "same_identity q q' \<longleftrightarrow> m_is_thread q' = m_is_thread q \<and> m_timeout_event_p q' = m_timeout_event_p q \<and>
     (m_event_p q' = None \<or> m_event_p q' = m_event_p q) \<and>
     (m_event_list_p q' = None \<or> m_event_list_p q' = m_event_list_p q) \<and>
     ps_suspended q' = ps_suspended q \<and> ps_disabled q' = ps_disabled q \<and> ps_ready_to_run q' = ps_ready_to_run q"

definition handled :: "(bool \<Rightarrow> nat \<Rightarrow> nat set) \<Rightarrow> nat \<Rightarrow> bool \<Rightarrow> nat \<Rightarrow> 'z processes_scheme \<Rightarrow> bool \<Rightarrow> 'z processes_scheme \<Rightarrow> bool"
where
  "handled W e th p s ok s' \<longleftrightarrow> (\<exists>D. e \<notin> D \<and> eff e th p D s s' \<and> same_identity (m_procs s p) (m_procs s' p) \<and>
     (if ok then m_trigger_type (m_procs s' p) = STATIC
      else m_trigger_type (m_procs s' p) = m_trigger_type (m_procs s p) \<and>
        m_event_count (m_procs s' p) = m_event_count (m_procs s p) - 1) \<and>
     expects (m_event_lists s') (m_procs s' p) ({x. p \<in> W th x} - insert e D) \<and>
     (\<forall>l. m_event_lists s' l = m_event_lists s l \<or> (m_event_list_p (m_procs s p) = Some l \<and>
        m_event_list_p (m_procs s' p) = None \<and> released (m_event_lists s l) (m_event_lists s' l))))"

lemma handlingD:
  assumes "handling W e th p s"
  shows "sens_ok W s" "idle_ok e s" "m_is_thread (m_procs s p) = th"
    "x \<noteq> e \<Longrightarrow> distinct (dyn s th x)" "expects (m_event_lists s) (m_procs s p) {x. p \<in> W th x}" "p \<in> W th e"
proof -
  show s: "sens_ok W s" "idle_ok e s" "p \<in> W th e" "x \<noteq> e \<Longrightarrow> distinct (dyn s th x)"
    using assms by (auto simp: handling_def)
  show k: "m_is_thread (m_procs s p) = th" using sens_okD(2) [OF s(1,3)] .
  show "expects (m_event_lists s) (m_procs s p) {x. p \<in> W th x}" using sens_okD(1) [OF s(1), of p] k by simp
qed

lemma expects_timeout:
  assumes "expects ls q A" "t \<in> A" "\<And>L. list_events ls q L \<Longrightarrow> t \<notin> L" "m_event_p q \<noteq> Some t"
  shows "t = m_timeout_event_p q"
  using assms by (cases "m_trigger_type q") (auto simp: expects_def)

lemma timeout_listener:
  assumes "sens_ok W s" "x \<in> W th (m_timeout_event_p (m_procs s p))"
  shows "x = p"
proof -
  have to: "timeouts_ok s" and li: "lists_ok s" using sens_okD [OF assms(1)] by blast+
  let ?te = "m_timeout_event_p (m_procs s p)"
  have k: "m_is_thread (m_procs s x) = th" using sens_okD(2) [OF assms] .
  then have ex: "expects (m_event_lists s) (m_procs s x) {e. x \<in> W th e}" using sens_okD(1) [OF assms(1), of x] by simp
  have te: "?te \<in> timeouts s" by (simp add: timeouts_def)
  have nl: "?te \<notin> L" if "list_events (m_event_lists s) (m_procs s x) L" for L
    using that li te by (fastforce simp: list_events_def lists_ok_def)
  have ne: "m_event_p (m_procs s x) \<noteq> Some ?te" using to te by (auto simp: timeouts_ok_def)
  have "?te = m_timeout_event_p (m_procs s x)"
    by (rule expects_timeout [OF ex _ nl ne]) (use assms(2) in simp_all)
  moreover have "inj (\<lambda>y. m_timeout_event_p (m_procs s y))" using to by (simp add: timeouts_ok_def)
  ultimately show ?thesis by (metis injD)
qed

lemma handling_timeout:
  assumes "handling W e th p s" "te = m_timeout_event_p (m_procs s p)" "te \<noteq> e"
  shows "set (dyn s th te) \<subseteq> {p}" "dyn s (\<not> th) te = []"
proof -
  note h = handlingD [OF assms(1)]
  have W: "W th te = set (dyn s th te)" "W (\<not> th) te = set (dyn s (\<not> th) te)"
    using assms(1,3) by (auto simp: handling_def)
  show "set (dyn s th te) \<subseteq> {p}" using timeout_listener [OF h(1), of _ th p] assms(2) W(1) by auto
  have "x \<notin> W (\<not> th) te" for x
  proof
    assume x: "x \<in> W (\<not> th) te"
    then have "x = p" using timeout_listener [OF h(1), of x "\<not> th" p] assms(2) by simp
    moreover have "m_is_thread (m_procs s x) = (\<not> th)" using sens_okD(2) [OF h(1) x] .
    ultimately show False using h(3) by simp
  qed
  then show "dyn s (\<not> th) te = []" using W(2) by (metis all_not_in_conv set_empty)
qed

lemma handling_list:
  assumes "sens_ok W s" "list_events (m_event_lists s) (m_procs s p) L"
  obtains l el where "m_event_list_p (m_procs s p) = Some l" "m_event_lists s l = Some el" "L = set (l_events el)"
    "1 \<le> m_busy el"
proof -
  obtain l el where l: "m_event_list_p (m_procs s p) = Some l" "m_event_lists s l = Some el" "L = set (l_events el)"
    using assms(2) by (auto simp: list_events_def)
  have "finite (users s l)" "card (users s l) \<le> m_busy el" using sens_okD(4) [OF assms(1)] l(2) by (auto simp: lists_ok_def)
  moreover have "p \<in> users s l" using l(1) by (simp add: users_def)
  ultimately have "1 \<le> m_busy el" by (metis card_gt_0_iff empty_iff less_eq_Suc_le le_trans One_nat_def)
  then show ?thesis using that l by blast
qed

text \<open>Whether the event satisfies the wait of the process.\<close>

definition woken :: "nat \<Rightarrow> sc_process \<Rightarrow> bool" where
  "woken e q \<longleftrightarrow> (case m_trigger_type q of
       STATIC \<Rightarrow> False
     | AND_LIST \<Rightarrow> m_event_count q = 1
     | AND_LIST_TIMEOUT \<Rightarrow> e = m_timeout_event_p q \<or> m_event_count q = 1
     | _ \<Rightarrow> True)"

lemma handled_satisfied:
  assumes "eff e th p D s s1" "e \<notin> D" "{x. p \<in> W th x} \<subseteq> insert e D" "same_identity (m_procs s p) (m_procs s1 p)"
    "m_event_list_p (m_procs s1 p) = None"
    "\<And>l. m_event_lists s1 l = m_event_lists s l \<or>
       (m_event_list_p (m_procs s p) = Some l \<and> released (m_event_lists s l) (m_event_lists s1 l))"
  shows "\<exists>s'. satisfied p s1 = Inr (True, s') \<and> handled W e th p s True s'"
proof -
  let ?s' = "upd_proc p (m_trigger_type_update (\<lambda>_. STATIC)) s1"
  have "eff e th p D s ?s'" by (rule eff_upd_proc [OF assms(1)]) simp
  moreover have "same_identity (m_procs s p) (m_procs ?s' p)" using assms(4) by (simp add: same_identity_def)
  moreover have "expects (m_event_lists ?s') (m_procs ?s' p) ({x. p \<in> W th x} - insert e D)"
    using assms(3,5) by (simp add: expects_def)
  ultimately have "handled W e th p s True ?s'"
    unfolding handled_def by (intro exI [of _ D]) (use assms(2,5,6) in simp)
  then show ?thesis by (simp add: satisfied_def)
qed

lemma same_identity_refl: "same_identity q q"
  by (simp add: same_identity_def)

lemma handled_counted:
  assumes h: "handling W e th p s"
    and ex: "expects (m_event_lists s) (m_event_count_update (\<lambda>n. n - 1) (m_procs s p)) ({x. p \<in> W th x} - {e})"
  shows "handled W e th p s False (count_event p s)"
proof -
  have "eff e th p {} s (count_event p s)"
    unfolding count_event_def by (rule eff_upd_proc [OF eff_refl]) (simp_all add: handlingD(2) [OF h])
  then show ?thesis unfolding handled_def
    by (intro exI [of _ "{}"]) (use ex in \<open>simp add: count_event_def same_identity_def\<close>)
qed

text \<open>The branches that leave a list.\<close>

lemma handled_leave_list:
  assumes h: "handling W e th p s" and e0: "eff e th p D0 s s0" "e \<notin> D0"
    and same: "same_identity (m_procs s p) (m_procs s0 p)" "m_event_list_p (m_procs s0 p) = m_event_list_p (m_procs s p)"
      "m_event_lists s0 = m_event_lists s"
    and L: "list_events (m_event_lists s) (m_procs s p) L" "{x. p \<in> W th x} \<subseteq> insert e (D0 \<union> L)"
  shows "\<exists>s'. bind_result (leave_list th p (Some e) s0) (satisfied p) = Inr (True, s') \<and> handled W e th p s True s'"
proof -
  obtain l el where l: "m_event_list_p (m_procs s p) = Some l" "m_event_lists s l = Some el" "L = set (l_events el)"
    "1 \<le> m_busy el" by (rule handling_list [OF handlingD(1) [OF h] L(1)]) blast
  have "distinct (dyn s0 th x)" if "x \<noteq> e" for x
    using e0(1) handlingD(4) [OF h that] by (cases "x \<in> D0") (auto simp: eff_def left_def)
  then obtain s1 y where s1: "leave_list th p (Some e) s0 = Inr s1"
    "eff e th p {x \<in> set (l_events el). Some x \<noteq> Some e} s0 s1"
    "m_procs s1 = (m_procs s0)(p := m_event_list_p_update (\<lambda>_. None) (m_procs s0 p))"
    "m_event_lists s1 = (m_event_lists s0)(l := y)" "released (m_event_lists s0 l) y"
    using eff_leave_list [of e s0 p l el "Some e" th] e0(1) l same by (auto simp: eff_def)
  have "{x. p \<in> W th x} \<subseteq> insert e (D0 \<union> {x \<in> set (l_events el). Some x \<noteq> Some e})" using L(2) l(3) by auto
  moreover have "same_identity (m_procs s p) (m_procs s1 p)" using same(1) s1(3) by (simp add: same_identity_def)
  ultimately have "\<exists>s'. satisfied p s1 = Inr (True, s') \<and> handled W e th p s True s'"
    using eff_trans [OF e0(1) s1(2)] e0(2) s1(3,4,5) same(3) l(1)
    by (intro handled_satisfied [of e th p "D0 \<union> {x \<in> set (l_events el). Some x \<noteq> Some e}"]) auto
  then show ?thesis using s1(1) by simp
qed

lemma handled_drop_list:
  assumes h: "handling W e th p s" and e0: "eff e th p D0 s s0" "e \<notin> D0"
    and same: "same_identity (m_procs s p) (m_procs s0 p)" "m_event_list_p (m_procs s0 p) = m_event_list_p (m_procs s p)"
      "m_event_lists s0 = m_event_lists s"
    and L: "list_events (m_event_lists s) (m_procs s p) L" "{x. p \<in> W th x} \<subseteq> insert e D0"
  shows "\<exists>s'. bind_result (drop_list p s0) (satisfied p) = Inr (True, s') \<and> handled W e th p s True s'"
proof -
  obtain l el where l: "m_event_list_p (m_procs s p) = Some l" "m_event_lists s l = Some el" "L = set (l_events el)"
    "1 \<le> m_busy el" by (rule handling_list [OF handlingD(1) [OF h] L(1)]) blast
  obtain s1 y where s1: "drop_list p s0 = Inr s1" "eff e th p {} s0 s1"
    "m_procs s1 = (m_procs s0)(p := m_event_list_p_update (\<lambda>_. None) (m_procs s0 p))"
    "m_event_lists s1 = (m_event_lists s0)(l := y)" "released (m_event_lists s0 l) y"
    using eff_drop_list [of e s0 p l el th] e0(1) l same by (auto simp: eff_def)
  moreover have "same_identity (m_procs s p) (m_procs s1 p)" using same(1) s1(3) by (simp add: same_identity_def)
  ultimately have "\<exists>s'. satisfied p s1 = Inr (True, s') \<and> handled W e th p s True s'"
    using eff_trans [OF e0(1) s1(2)] e0(2) same(3) l(1) L(2) by (intro handled_satisfied [of e th p D0]) auto
  then show ?thesis using s1(1) by simp
qed

lemma eff_upd_self:
  "idle_ok e s \<Longrightarrow> (\<And>q. m_timeout_event_p (f q) = m_timeout_event_p q) \<Longrightarrow> eff e th p {} s (upd_proc p f s)"
  by (rule eff_upd_proc [OF eff_refl])

lemma eff_stop:
  assumes h: "handling W e th p s" and e0: "eff e th p {} s s0" "m_procs s0 p = f (m_procs s p)"
    "\<And>q. m_timeout_event_p (f q) = m_timeout_event_p q" and ne: "e \<noteq> m_timeout_event_p (m_procs s p)"
  shows "\<exists>s1. stop_timeout p s0 = Inr s1 \<and> eff e th p {m_timeout_event_p (m_procs s p)} s s1 \<and>
    m_procs s1 = m_procs s0 \<and> m_event_lists s1 = m_event_lists s0"
proof -
  let ?te = "m_timeout_event_p (m_procs s p)"
  have "dyn s0 th' x = dyn s th' x" for th' x using e0(1) by (simp add: eff_def left_def)
  then have "\<exists>s1. stop_timeout p s0 = Inr s1 \<and> eff e th p {?te} s0 s1 \<and> m_procs s1 = m_procs s0 \<and>
      m_event_lists s1 = m_event_lists s0"
    using handling_timeout [OF h refl] ne e0 by (intro eff_stop_timeout) (auto simp: eff_def)
  then show ?thesis using eff_trans [OF e0(1)] by fastforce
qed

definition switched :: "(bool \<Rightarrow> nat \<Rightarrow> nat set) \<Rightarrow> nat \<Rightarrow> bool \<Rightarrow> nat \<Rightarrow> 'z processes_scheme \<Rightarrow> bool" where
  "switched W e th p s \<longleftrightarrow> (\<exists>s'. trigger_switch th e p s = Inr (woken e (m_procs s p), s') \<and>
     handled W e th p s (woken e (m_procs s p)) s')"

lemma counted:
  assumes "finite A" "e \<in> A" "m_event_count q = int (card A)"
  shows "m_event_count q = 1 \<Longrightarrow> A = {e}"
    "m_event_count q \<noteq> 1 \<Longrightarrow> m_event_count q - 1 = int (card (A - {e})) \<and> A - {e} \<noteq> {}"
proof -
  have c: "card (A - {e}) = card A - 1" "card A > 0" using assms card_gt_0_iff by auto
  show "A = {e}" if "m_event_count q = 1"
    using that assms by (metis card_1_singletonE of_nat_eq_1_iff singletonD)
  show "m_event_count q - 1 = int (card (A - {e})) \<and> A - {e} \<noteq> {}" if "m_event_count q \<noteq> 1"
  proof
    show "m_event_count q - 1 = int (card (A - {e}))" using assms(3) c by simp
    show "A - {e} \<noteq> {}" using that assms(2,3) card.insert [of "{}" e] by (cases "A = {e}") auto
  qed
qed

lemma expects_and_list:
  "m_trigger_type q = AND_LIST \<Longrightarrow> list_events ls q L \<Longrightarrow> A \<subseteq> L \<Longrightarrow> m_event_count q = int (card A) \<Longrightarrow> A \<noteq> {} \<Longrightarrow>
    expects ls q A"
  "m_trigger_type q = AND_LIST_TIMEOUT \<Longrightarrow> list_events ls q L \<Longrightarrow> A \<subseteq> L \<Longrightarrow> m_event_count q = int (card A) \<Longrightarrow> A \<noteq> {} \<Longrightarrow>
    expects ls q (insert (m_timeout_event_p q) A)"
  by (auto simp: expects_def)

lemma switch_event:
  assumes h: "handling W e th p s" and t: "m_trigger_type (m_procs s p) = EVENT"
  shows "switched W e th p s"
proof -
  note hd = handlingD [OF h]
  obtain x where x: "m_event_p (m_procs s p) = Some x" "{x. p \<in> W th x} = {x}" "m_event_list_p (m_procs s p) = None"
    using hd(5) t by (auto simp: expects_def)
  let ?s1 = "upd_proc p (m_event_p_update (\<lambda>_. None)) s"
  have "\<exists>s'. satisfied p ?s1 = Inr (True, s') \<and> handled W e th p s True s'"
    by (rule handled_satisfied [OF eff_upd_self [OF hd(2)]]) (use x hd(6) in \<open>auto simp: same_identity_def\<close>)
  then show ?thesis using t by (simp add: switched_def trigger_switch_def woken_def)
qed

lemma switch_and_list:
  assumes h: "handling W e th p s" and t: "m_trigger_type (m_procs s p) = AND_LIST"
  shows "switched W e th p s"
proof -
  note hd = handlingD [OF h]
  let ?A = "{x. p \<in> W th x}" let ?s1 = "count_event p s"
  obtain L where L: "list_events (m_event_lists s) (m_procs s p) L" "?A \<subseteq> L" "m_event_count (m_procs s p) = int (card ?A)"
    using hd(5) t by (auto simp: expects_def)
  have fin: "finite ?A" using L(1,2) finite_subset [OF _ finite_set] by (auto simp: list_events_def)
  have eA: "e \<in> ?A" using hd(6) by simp
  note c = counted [OF fin eA L(3)]
  show ?thesis
  proof (cases "m_event_count (m_procs s p) = 1")
    case True
    have "eff e th p {} s ?s1" unfolding count_event_def by (rule eff_upd_self [OF hd(2)]) simp
    then show ?thesis using handled_drop_list [OF h _ _ _ _ _ L(1), of "{}" ?s1] t True c(1)
      by (auto simp: switched_def trigger_switch_def woken_def count_event_def same_identity_def)
  next
    case False
    have "list_events (m_event_lists s) (m_event_count_update (\<lambda>n. n - 1) (m_procs s p)) L" "?A - {e} \<subseteq> L"
      using L(1,2) by (auto simp: list_events_def)
    then have "expects (m_event_lists s) (m_event_count_update (\<lambda>n. n - 1) (m_procs s p)) (?A - {e})"
      using expects_and_list(1) [of "m_event_count_update (\<lambda>n. n - 1) (m_procs s p)"] t c(2) [OF False] by simp
    then show ?thesis using handled_counted [OF h] t False
      by (simp add: switched_def trigger_switch_def woken_def Let_def) (simp add: count_event_def)
  qed
qed

lemma switch_event_timeout:
  assumes h: "handling W e th p s" and t: "m_trigger_type (m_procs s p) = EVENT_TIMEOUT"
  shows "switched W e th p s"
proof -
  note hd = handlingD [OF h]
  let ?te = "m_timeout_event_p (m_procs s p)" let ?s0 = "upd_proc p (m_timed_out_update (\<lambda>_. True)) s"
  obtain x where x: "m_event_p (m_procs s p) = Some x" "{x. p \<in> W th x} = {x, ?te}" "m_event_list_p (m_procs s p) = None"
    using hd(5) t by (auto simp: expects_def)
  have xt: "x \<noteq> ?te" using x(1) sens_okD(5) [OF hd(1)] by (auto simp: timeouts_ok_def timeouts_def)
  show ?thesis
  proof (cases "e = ?te")
    case True
    then have xe: "x \<noteq> e" using xt by simp
    have e0: "eff e th p {} s ?s0" by (rule eff_upd_self [OF hd(2)]) simp
    obtain s1 where s1: "leave_event th p ?s0 = Inr s1" "eff e th p {x} ?s0 s1"
      "m_procs s1 = (m_procs ?s0)(p := m_event_p_update (\<lambda>_. None) (m_procs ?s0 p))" "m_event_lists s1 = m_event_lists ?s0"
      using eff_leave_event [of e ?s0 p x th] e0 x(1) hd(4) [OF xe] by (auto simp: eff_def)
    have "\<exists>s'. satisfied p s1 = Inr (True, s') \<and> handled W e th p s True s'"
      by (rule handled_satisfied [OF eff_trans [OF e0 s1(2)]]) (use x s1 True xe in \<open>auto simp: same_identity_def\<close>)
    then show ?thesis using t True s1(1) by (simp add: switched_def trigger_switch_def woken_def)
  next
    case False
    obtain s1 where s1: "stop_timeout p s = Inr s1" "eff e th p {?te} s s1" "m_procs s1 = m_procs s" "m_event_lists s1 = m_event_lists s"
      using eff_stop [OF h eff_refl [OF hd(2)], of id] False by auto
    let ?s2 = "upd_proc p (m_event_p_update (\<lambda>_. None)) s1"
    have "\<exists>s'. satisfied p ?s2 = Inr (True, s') \<and> handled W e th p s True s'"
      by (rule handled_satisfied [OF eff_upd_proc [OF s1(2)]]) (use x s1 False hd(6) in \<open>auto simp: same_identity_def\<close>)
    then show ?thesis using t False s1(1) by (simp add: switched_def trigger_switch_def woken_def)
  qed
qed

lemma switch_list_timeout:
  assumes h: "handling W e th p s"
    and L: "list_events (m_event_lists s) (m_procs s p) L" "{x. p \<in> W th x} = insert (m_timeout_event_p (m_procs s p)) R" "R \<subseteq> L"
    and t: "m_trigger_type (m_procs s p) = OR_LIST_TIMEOUT \<or>
      (m_trigger_type (m_procs s p) = AND_LIST_TIMEOUT \<and> e = m_timeout_event_p (m_procs s p))"
  shows "switched W e th p s"
proof -
  note hd = handlingD [OF h]
  let ?te = "m_timeout_event_p (m_procs s p)" let ?s0 = "upd_proc p (m_timed_out_update (\<lambda>_. True)) s"
  show ?thesis
  proof (cases "e = ?te")
    case True
    have "eff e th p {} s ?s0" by (rule eff_upd_self [OF hd(2)]) simp
    then have "\<exists>s'. bind_result (leave_list th p (Some e) ?s0) (satisfied p) = Inr (True, s') \<and> handled W e th p s True s'"
      by (rule handled_leave_list [OF h _ _ _ _ _ L(1)]) (use L(2,3) True in \<open>auto simp: same_identity_def\<close>)
    then show ?thesis using t True by (auto simp: switched_def trigger_switch_def woken_def)
  next
    case False
    then obtain s1 where s1: "stop_timeout p s = Inr s1" "eff e th p {?te} s s1" "m_procs s1 = m_procs s" "m_event_lists s1 = m_event_lists s"
      using eff_stop [OF h eff_refl [OF hd(2)], of id] by auto
    have "\<exists>s'. bind_result (leave_list th p (Some e) s1) (satisfied p) = Inr (True, s') \<and> handled W e th p s True s'"
      by (rule handled_leave_list [OF h s1(2) _ _ _ _ L(1)]) (use L(2,3) False s1 in \<open>auto simp: same_identity_def\<close>)
    then show ?thesis using t False s1(1) by (simp add: switched_def trigger_switch_def woken_def)
  qed
qed

lemma switch_and_list_timeout:
  assumes h: "handling W e th p s" and t: "m_trigger_type (m_procs s p) = AND_LIST_TIMEOUT"
    and ne: "e \<noteq> m_timeout_event_p (m_procs s p)"
  shows "switched W e th p s"
proof -
  note hd = handlingD [OF h]
  let ?A = "{x. p \<in> W th x}" let ?s1 = "count_event p s" let ?te = "m_timeout_event_p (m_procs s p)"
  obtain L R where L: "list_events (m_event_lists s) (m_procs s p) L" "R \<subseteq> L" "?A = insert ?te R"
    "m_event_count (m_procs s p) = int (card R)" using hd(5) t by (auto simp: expects_def)
  have fin: "finite R" using L(1,2) finite_subset [OF _ finite_set] by (auto simp: list_events_def)
  have eA: "e \<in> R" using hd(6) L(3) ne by auto
  note c = counted [OF fin eA L(4)]
  show ?thesis
  proof (cases "m_event_count (m_procs s p) = 1")
    case True
    have "eff e th p {} s ?s1" unfolding count_event_def by (rule eff_upd_self [OF hd(2)]) simp
    then obtain s2 where s2: "stop_timeout p ?s1 = Inr s2" "eff e th p {?te} s s2" "m_procs s2 = m_procs ?s1"
      "m_event_lists s2 = m_event_lists ?s1"
      using eff_stop [OF h _ _ _ ne, of ?s1 "m_event_count_update (\<lambda>n. n - 1)"] by (auto simp: count_event_def)
    have "\<exists>s'. bind_result (drop_list p s2) (satisfied p) = Inr (True, s') \<and> handled W e th p s True s'"
      by (rule handled_drop_list [OF h s2(2) _ _ _ _ L(1)])
        (use s2 ne L(3) c(1) [OF True] in \<open>auto simp: count_event_def same_identity_def\<close>)
    then show ?thesis using t ne True s2(1)
      by (auto simp: switched_def trigger_switch_def woken_def Let_def count_event_def)
  next
    case False
    have "list_events (m_event_lists s) (m_event_count_update (\<lambda>n. n - 1) (m_procs s p)) L" "R - {e} \<subseteq> L"
      using L(1,2) by (auto simp: list_events_def)
    then have "expects (m_event_lists s) (m_event_count_update (\<lambda>n. n - 1) (m_procs s p)) (insert ?te (R - {e}))"
      using expects_and_list(2) [of "m_event_count_update (\<lambda>n. n - 1) (m_procs s p)"] t c(2) [OF False] by simp
    moreover have "?A - {e} = insert ?te (R - {e})" using L(3) ne by auto
    ultimately have "expects (m_event_lists s) (m_event_count_update (\<lambda>n. n - 1) (m_procs s p)) (?A - {e})" by simp
    then show ?thesis using handled_counted [OF h] t ne False
      by (simp add: switched_def trigger_switch_def woken_def Let_def) (simp add: count_event_def)
  qed
qed

lemma switch_ok:
  assumes h: "handling W e th p s"
  shows "switched W e th p s"
proof (cases "m_trigger_type (m_procs s p)")
  case STATIC
  then show ?thesis using handlingD(5,6) [OF h] by (simp add: expects_def)
next
  case OR_LIST
  then have "list_events (m_event_lists s) (m_procs s p) {x. p \<in> W th x}" using handlingD(5) [OF h] by (simp add: expects_def)
  then show ?thesis
    using handled_leave_list [OF h eff_refl [OF handlingD(2) [OF h]] _ same_identity_refl refl refl] OR_LIST
    by (auto simp: switched_def trigger_switch_def woken_def)
next
  case TIMEOUT
  then have "{x. p \<in> W th x} = {m_timeout_event_p (m_procs s p)}" "m_event_list_p (m_procs s p) = None"
    using handlingD(5) [OF h] by (auto simp: expects_def)
  moreover from this have "m_timeout_event_p (m_procs s p) = e"
    using handlingD(6) [OF h] by (metis mem_Collect_eq singletonD)
  ultimately have "\<exists>s'. satisfied p s = Inr (True, s') \<and> handled W e th p s True s'"
    by (intro handled_satisfied [OF eff_refl [OF handlingD(2) [OF h]]]) (auto simp: same_identity_def)
  then show ?thesis using TIMEOUT by (simp add: switched_def trigger_switch_def woken_def)
next
  case OR_LIST_TIMEOUT
  then show ?thesis using handlingD(5) [OF h] switch_list_timeout [OF h] by (auto simp: expects_def)
next
  case AND_LIST_TIMEOUT
  then show ?thesis using handlingD(5) [OF h] switch_list_timeout [OF h] switch_and_list_timeout [OF h]
    by (auto simp: expects_def)
qed (auto intro: switch_event switch_and_list switch_event_timeout h)

section \<open>The consistency of the lists afterwards\<close>

definition remaining :: "(bool \<Rightarrow> nat \<Rightarrow> nat set) \<Rightarrow> nat \<Rightarrow> bool \<Rightarrow> nat \<Rightarrow> bool \<Rightarrow> 'z processes_scheme \<Rightarrow> bool \<Rightarrow> nat \<Rightarrow> nat set"
where
  "remaining W e th p fin s' th' x =
     (if th' = th \<and> x = e then (if fin then W th e - {p} else W th e) else set (dyn s' th' x))"

lemma handled_sens:
  assumes h: "handling W e th p s" and d: "handled W e th p s ok s'"
  shows "sens_ok (remaining W e th p True s') s'" "th' \<noteq> th \<or> x \<noteq> e \<Longrightarrow> distinct (dyn s' th' x)"
proof -
  note hd = handlingD [OF h]
  obtain D where D: "e \<notin> D" "eff e th p D s s'" "same_identity (m_procs s p) (m_procs s' p)"
    "m_trigger_type (m_procs s' p) = STATIC \<or> m_trigger_type (m_procs s' p) = m_trigger_type (m_procs s p)"
    "expects (m_event_lists s') (m_procs s' p) ({x. p \<in> W th x} - insert e D)"
    "\<And>l. m_event_lists s' l = m_event_lists s l \<or> (m_event_list_p (m_procs s p) = Some l \<and>
      m_event_list_p (m_procs s' p) = None \<and> released (m_event_lists s l) (m_event_lists s' l))"
    using d unfolding handled_def by (cases ok) auto
  have W: "distinct (dyn s th' x)" "W th' x = set (dyn s th' x)" if "th' \<noteq> th \<or> x \<noteq> e" for th' x
    using h that unfolding handling_def by blast+
  have left: "left th p D s s'" using D(2) by (simp add: eff_def)
  have same: "dyn s' th' x = dyn s th' x" if "x \<notin> D \<or> th' \<noteq> th" for th' x using left that by (simp add: left_def)
  have gone: "distinct (dyn s' th x)" "set (dyn s' th x) = set (dyn s th x) - {p}" if "x \<in> D" for x
    using left that by (simp_all add: left_def)
  show "distinct (dyn s' th' x)" if n: "th' \<noteq> th \<or> x \<noteq> e"
  proof (cases "x \<in> D \<and> th' = th")
    case True
    then show ?thesis using gone(1) by simp
  next
    case False
    then show ?thesis using same [of x th'] W(1) [OF n] by simp
  qed
  have rem: "remaining W e th p True s' th' x = (if th' = th \<and> x \<in> insert e D then W th' x - {p} else W th' x)" for th' x
  proof (cases "th' = th \<and> x = e")
    case True
    then show ?thesis by (simp add: remaining_def)
  next
    case False
    then have n: "th' \<noteq> th \<or> x \<noteq> e" by blast
    have "remaining W e th p True s' th' x = set (dyn s' th' x)" "W th' x = set (dyn s th' x)"
      unfolding remaining_def if_not_P [OF False] by (rule refl, rule W(2) [OF n])
    moreover have "set (dyn s' th' x) = (if th' = th \<and> x \<in> D then set (dyn s th' x) - {p} else set (dyn s th' x))"
      using same [of x th'] gone(2) [of x] by (cases "x \<in> D"; cases "th' = th") simp_all
    ultimately show ?thesis using n by (cases "th' = th") simp_all
  qed
  have k: "m_is_thread (m_procs s' p) = th" using D(3) hd(3) by (simp add: same_identity_def)
  show "sens_ok (remaining W e th p True s') s'"
  proof (rule sens_update [OF hd(1), where q = "m_procs s' p" and p = p and D = "insert e D"])
    show "m_procs s' = (m_procs s)(p := m_procs s' p)" using D(2) by (auto simp: eff_def)
  qed (use D rem k hd(3) in \<open>auto simp: same_identity_def eff_def\<close>)
qed

lemma push_runnable_ok:
  assumes q: "queues_ok s" and p: "m_is_thread (m_procs s p) = th" "\<not> runnable_proc th p s"
  shows "\<exists>r. push_runnable th p s = Inr (s\<lparr>m_runnable := r\<rparr>) \<and> queues_ok (s\<lparr>m_runnable := r\<rparr>) \<and>
    (\<forall>th' x. runnable_proc th' x (s\<lparr>m_runnable := r\<rparr>) \<longleftrightarrow> runnable_proc th' x s \<or> (th' = th \<and> x = p))"
proof -
  obtain xs ys where rep: "queue_rep (proc_queue_of th s) xs ys" using q unfolding queues_ok_def by blast
  have real: "real_process (proc_queue_of th s) p" using q p(1) unfolding queues_ok_def by blast
  have "p \<notin> set xs \<union> set ys" using p(2) rep by (auto simp: runnable_proc_def elim: queue_repE)
  then obtain q' where q': "push_back p (proc_queue_of th s) = Inr q'" "queue_rep q' (xs @ [p]) ys"
    "real_process q' = real_process (proc_queue_of th s)" using push_back_rep [OF rep _ real] by blast
  define r where "r = (if th then (m_runnable s)\<lparr>m_threads := q'\<rparr> else (m_runnable s)\<lparr>m_methods := q'\<rparr>)"
  have r: "proc_queue_of th' (s\<lparr>m_runnable := r\<rparr>) = (if th' = th then q' else proc_queue_of th' s)" for th'
    by (simp add: proc_queue_of_def r_def)
  have "push_runnable th p s = Inr (s\<lparr>m_runnable := r\<rparr>)"
    using q'(1) by (cases th) (simp_all add: push_runnable_def push_back_thread_def push_back_method_def proc_queue_of_def r_def)
  moreover have "queues_ok (s\<lparr>m_runnable := r\<rparr>)" using q q'(2,3) by (auto simp: queues_ok_def r)
  moreover have "is_runnable x q' \<longleftrightarrow> is_runnable x (proc_queue_of th s) \<or> x = p" for x
  proof -
    obtain h where h: "push_head (proc_queue_of th s) = Some h"
      "\<And>p. is_runnable p (proc_queue_of th s) \<longleftrightarrow> p \<in> set (h # xs @ ys)" by (rule queue_repE [OF rep]) blast
    obtain h' where h': "push_head q' = Some h'" "\<And>a. is_runnable a q' \<longleftrightarrow> a \<in> set (h' # (xs @ [p]) @ ys)"
      by (rule queue_repE [OF q'(2)]) blast
    have "h' = h" using q'(3) h(1) h'(1) by (simp add: real_process_def fun_eq_iff)
    then show ?thesis using h(2) h'(2) by auto
  qed
  ultimately show ?thesis by (intro exI [of _ r]) (auto simp: runnable_proc_def r)
qed

section \<open>A disabled process whose time-out occurs\<close>

lemma expects_cover:
  assumes "expects ls q A"
  shows "m_event_list_p q = Some l \<Longrightarrow> \<exists>el. ls l = Some el \<and>
      A \<subseteq> insert (m_timeout_event_p q) (set_option (m_event_p q) \<union> set (l_events el))"
    "m_event_list_p q = None \<Longrightarrow> A \<subseteq> insert (m_timeout_event_p q) (set_option (m_event_p q))"
  using assms by (cases "m_trigger_type q"; fastforce simp: expects_def list_events_def)+

lemma remove_dynamic_ok:
  assumes h: "handling W e th p s" and te: "e = m_timeout_event_p (m_procs s p)"
  shows "\<exists>s'. remove_dynamic_events th True p s = Inr s' \<and> handled W e th p s True s'"
proof -
  note hd = handlingD [OF h]
  let ?q = "m_procs s p" let ?s1 = "upd_proc p (m_trigger_type_update (\<lambda>_. STATIC)) s"
  have tin: "e \<in> timeouts s" using te by (simp add: timeouts_def)
  have e1: "eff e th p {} s ?s1" by (rule eff_upd_self [OF hd(2)]) simp
  have evp: "x \<noteq> e" if "m_event_p ?q = Some x" for x using that tin sens_okD(5) [OF hd(1)] by (auto simp: timeouts_ok_def)
  have "\<exists>s3. (case m_event_p (m_procs ?s1 p) of None \<Rightarrow> Inr ?s1 | Some x \<Rightarrow> event_remove_dynamic th p x ?s1) = Inr s3 \<and>
    eff e th p (set_option (m_event_p ?q)) s s3 \<and> m_procs s3 = m_procs ?s1 \<and> m_event_lists s3 = m_event_lists s"
  proof (cases "m_event_p ?q")
    case None
    then show ?thesis using e1 by simp
  next
    case (Some x)
    have "idle_ok e ?s1" "distinct (dyn ?s1 th x)" using e1 hd(4) [OF evp [OF Some]] by (auto simp: eff_def)
    then obtain s3 where s3: "event_remove_dynamic th p x ?s1 = Inr s3" "eff e th p {x} ?s1 s3" "m_procs s3 = m_procs ?s1"
      "m_event_lists s3 = m_event_lists ?s1" using eff_remove_dynamic by blast
    then show ?thesis using Some eff_trans [OF e1 s3(2)] by simp
  qed
  then obtain s3 where s3: "(case m_event_p (m_procs ?s1 p) of None \<Rightarrow> Inr ?s1 | Some x \<Rightarrow> event_remove_dynamic th p x ?s1) = Inr s3"
    "eff e th p (set_option (m_event_p ?q)) s s3" "m_procs s3 = m_procs ?s1" "m_event_lists s3 = m_event_lists s" by blast
  have d3: "e \<notin> set_option (m_event_p ?q)" using evp by (auto simp: elem_set)
  show ?thesis
  proof (cases "m_event_list_p ?q")
    case None
    have "handled W e th p s True s3" unfolding handled_def
      by (intro exI [of _ "set_option (m_event_p ?q)"])
        (use s3 d3 None expects_cover(2) [OF hd(5) None] te in \<open>auto simp: same_identity_def expects_def\<close>)
    then show ?thesis using s3(1,3) None by (simp add: remove_dynamic_events_def Let_def)
  next
    case (Some l)
    obtain el where el: "m_event_lists s l = Some el"
      "{x. p \<in> W th x} \<subseteq> insert e (set_option (m_event_p ?q) \<union> set (l_events el))"
      using expects_cover(1) [OF hd(5) Some] te by auto
    have le: "list_events (m_event_lists s) ?q (set (l_events el))" using Some el(1) by (auto simp: list_events_def)
    have busy: "1 \<le> m_busy el" by (rule handling_list [OF hd(1) le]) (use Some el(1) in auto)
    have ne: "e \<notin> set (l_events el)" using sens_okD(4) [OF hd(1)] el(1) tin by (auto simp: lists_ok_def)
    have "distinct (dyn s3 th x)" if "x \<noteq> e" for x
      using s3(2) hd(4) [OF that] by (cases "x \<in> set_option (m_event_p ?q)") (auto simp: eff_def left_def)
    then have dl: "distinct (dyn s3 th x)" if "x \<in> set (l_events el)" "Some x \<noteq> None" for x
      using ne that(1) by metis
    have ok3: "idle_ok e s3" using s3(2) by (simp add: eff_def)
    have p3: "m_event_list_p (m_procs s3 p) = Some l" "m_event_lists s3 l = Some el" using s3(3,4) Some el(1) by simp_all
    obtain s4 y where s4: "leave_list th p None s3 = Inr s4" "eff e th p {x \<in> set (l_events el). Some x \<noteq> None} s3 s4"
      "m_procs s4 = (m_procs s3)(p := m_event_list_p_update (\<lambda>_. None) (m_procs s3 p))"
      "m_event_lists s4 = (m_event_lists s3)(l := y)" "released (m_event_lists s3 l) y"
      using eff_leave_list [OF ok3 p3 busy dl] by blast
    have "handled W e th p s True s4" unfolding handled_def
      by (intro exI [of _ "set_option (m_event_p ?q) \<union> {x \<in> set (l_events el). Some x \<noteq> None}"])
        (use eff_trans [OF s3(2) s4(2)] s3(3,4) s4(3,4,5) d3 ne Some el te in \<open>auto simp: same_identity_def expects_def\<close>)
    then show ?thesis using s3(1,3) s4(1) Some by (simp add: remove_dynamic_events_def Let_def)
  qed
qed

section \<open>One process\<close>

lemma sens_same:
  assumes "sens_ok W s" "m_is_thread (f (m_procs s p)) = m_is_thread (m_procs s p)"
    "m_timeout_event_p (f (m_procs s p)) = m_timeout_event_p (m_procs s p)" "m_event_p (f (m_procs s p)) = m_event_p (m_procs s p)"
    "m_event_count (f (m_procs s p)) = m_event_count (m_procs s p)"
    "m_event_list_p (f (m_procs s p)) = m_event_list_p (m_procs s p)" "m_trigger_type (f (m_procs s p)) = m_trigger_type (m_procs s p)"
  shows "sens_ok W (upd_proc p f s)"
proof (rule sens_update [OF assms(1), where p = p and q = "f (m_procs s p)" and D = "{}"])
  have "expects ls (f (m_procs s p)) A = expects ls (m_procs s p) A" for ls A
    using assms(2-) by (simp add: expects_def list_events_def split: trigger_t.split)
  then show "expects (m_event_lists (upd_proc p f s)) (f (m_procs s p)) ({x. p \<in> W (m_is_thread (f (m_procs s p))) x} - {})"
    using sens_okD(1) [OF assms(1), of p] assms(2) by simp
qed (use assms in simp_all)

text \<open>The processes other than \<open>p\<close> and all that \<open>p\<close> does not wait for stay as they are.\<close>

definition only :: "nat \<Rightarrow> bool \<Rightarrow> nat \<Rightarrow> 'z processes_scheme \<Rightarrow> 'z processes_scheme \<Rightarrow> bool" where
  "only e th p s s' \<longleftrightarrow> idle_ok e s' \<and> (\<forall>x. x \<noteq> e \<and> x \<notin> timeouts s \<longrightarrow> pending s' x = pending s x) \<and>
     (\<forall>x. x \<noteq> p \<longrightarrow> m_procs s' x = m_procs s x) \<and> timeouts s' = timeouts s \<and> m_curr_proc s' = m_curr_proc s \<and>
     (\<forall>th' x. th' \<noteq> th \<or> x \<noteq> p \<longrightarrow> runnable_proc th' x s' = runnable_proc th' x s) \<and>
     ps_disabled (m_procs s' p) = ps_disabled (m_procs s p) \<and> ps_suspended (m_procs s' p) = ps_suspended (m_procs s p) \<and>
     m_is_thread (m_procs s' p) = m_is_thread (m_procs s p) \<and> dyn s' th e = dyn s th e \<and>
     (\<forall>x. dyn s' (\<not> th) x = dyn s (\<not> th) x) \<and>
     (\<forall>x. m_methods_static (m_events s' x) = m_methods_static (m_events s x) \<and>
        m_threads_static (m_events s' x) = m_threads_static (m_events s x))"

definition handed_over :: "nat \<Rightarrow> 'z processes_scheme \<Rightarrow> 'z processes_scheme \<Rightarrow> nat \<Rightarrow> bool" where
  "handed_over e s s' p \<longleftrightarrow>
     (let q = m_procs s p; q' = m_procs s' p
      in if woken e q
         then m_trigger_type q' = STATIC \<and>
           (if ps_suspended q then ps_ready_to_run q' else runnable_proc (m_is_thread q) p s')
         else m_trigger_type q' = m_trigger_type q \<and> m_event_count q' = m_event_count q - 1)"

end
