(* ===== verification/Sc_Trigger_Loop.thy ===== *)
theory Sc_Trigger_Loop
  imports Sc_Trigger_Facts
begin

text \<open>
  Triggering an event: every process that waits for it gets it once, the lists of waiting processes
  stay consistent, and nothing faults.
\<close>

section \<open>One process\<close>

definition dealt :: "nat \<Rightarrow> bool \<Rightarrow> nat \<Rightarrow> 'z processes_scheme \<Rightarrow> bool \<Rightarrow> 'z processes_scheme \<Rightarrow> bool" where
  "dealt e th p s fin s' \<longleftrightarrow>
     (if \<not> th \<and> m_curr_proc s = Some p then \<not> fin
      else if ps_disabled (m_procs s p) then fin \<longleftrightarrow> e = m_timeout_event_p (m_procs s p)
      else fin \<and> handed_over e s s' p)"

definition consistent :: "nat \<Rightarrow> bool \<Rightarrow> (bool \<Rightarrow> nat \<Rightarrow> nat set) \<Rightarrow> 'z processes_scheme \<Rightarrow> bool" where
  "consistent e th W s \<longleftrightarrow> sens_ok W s \<and> (\<forall>th' x. th' \<noteq> th \<or> x \<noteq> e \<longrightarrow> distinct (dyn s th' x))"

lemma make_ready_ok:
  assumes c: "sens_ok W s" and p: "m_is_thread (m_procs s p) = th" "m_trigger_type (m_procs s p) = STATIC"
    "\<not> runnable_proc th p s"
  shows "\<exists>s'. make_ready th p s = Inr s' \<and> sens_ok W s' \<and> m_events s' = m_events s \<and> m_event_lists s' = m_event_lists s \<and>
    m_curr_proc s' = m_curr_proc s \<and> m_timed_objs s' = m_timed_objs s \<and> m_delta_events s' = m_delta_events s \<and>
    m_timed_events s' = m_timed_events s \<and> m_next_obj s' = m_next_obj s \<and>
    m_procs s' = (m_procs s)(p := (if ps_suspended (m_procs s p) then (m_procs s p)\<lparr>ps_ready_to_run := True\<rparr> else m_procs s p)) \<and>
    (\<forall>th' x. runnable_proc th' x s' \<longleftrightarrow> runnable_proc th' x s \<or> (th' = th \<and> x = p \<and> \<not> ps_suspended (m_procs s p)))"
proof (cases "ps_suspended (m_procs s p)")
  case True
  have "sens_ok W (upd_proc p (ps_ready_to_run_update (\<lambda>_. True)) s)" by (rule sens_same [OF c]) simp_all
  then show ?thesis using True by (auto simp: make_ready_def runnable_proc_def proc_queue_of_def)
next
  case False
  obtain r where r: "push_runnable th p s = Inr (s\<lparr>m_runnable := r\<rparr>)" "queues_ok (s\<lparr>m_runnable := r\<rparr>)"
    "\<And>th' x. runnable_proc th' x (s\<lparr>m_runnable := r\<rparr>) \<longleftrightarrow> runnable_proc th' x s \<or> (th' = th \<and> x = p)"
    using push_runnable_ok [OF sens_okD(6) [OF c] p(1,3)] by blast
  have "\<not> runnable_proc (m_is_thread (m_procs s x)) x (s\<lparr>m_runnable := r\<rparr>)" if "m_trigger_type (m_procs s x) \<noteq> STATIC" for x
    using sens_okD(3) [OF c that] p(2) that r(3) by auto
  moreover have "lists_ok (s\<lparr>m_runnable := r\<rparr>) = lists_ok s" "timeouts_ok (s\<lparr>m_runnable := r\<rparr>) = timeouts_ok s"
    by (simp_all add: lists_ok_def timeouts_ok_def users_def timeouts_def)
  ultimately have "sens_ok W (s\<lparr>m_runnable := r\<rparr>)" using c r(2) by (simp add: sens_ok_def)
  then show ?thesis using r False by (simp add: make_ready_def)
qed

lemma trigger_dynamic_finish:
  assumes h: "handling W e th p s" and d: "handled W e th p s True s1"
  shows "\<exists>s'. make_ready th p s1 = Inr s' \<and> only e th p s s' \<and> consistent e th (remaining W e th p True s') s' \<and>
    m_trigger_type (m_procs s' p) = STATIC \<and>
    (if ps_suspended (m_procs s p) then ps_ready_to_run (m_procs s' p) else runnable_proc th p s')"
proof -
  note hd = handlingD [OF h] and hs = handled_sens [OF h d]
  obtain D where D: "e \<notin> D" "eff e th p D s s1" "same_identity (m_procs s p) (m_procs s1 p)"
    "m_trigger_type (m_procs s1 p) = STATIC" using d unfolding handled_def by auto
  have k: "m_is_thread (m_procs s1 p) = th" using D(3) hd(3) by (simp add: same_identity_def)
  have "m_trigger_type (m_procs s p) \<noteq> STATIC" using hd(5,6) by (auto simp: expects_def)
  then have "\<not> runnable_proc th p s" using sens_okD(3) [OF hd(1)] hd(3) by blast
  moreover have run1: "runnable_proc th' x s1 = runnable_proc th' x s" for th' x
    using D(2) by (simp add: eff_def runnable_proc_def proc_queue_of_def)
  ultimately have r1: "\<not> runnable_proc th p s1" by simp
  obtain s2 where s2: "make_ready th p s1 = Inr s2" "sens_ok (remaining W e th p True s1) s2" "m_events s2 = m_events s1"
    "m_curr_proc s2 = m_curr_proc s1" "m_timed_objs s2 = m_timed_objs s1" "m_delta_events s2 = m_delta_events s1"
    "m_timed_events s2 = m_timed_events s1" "m_next_obj s2 = m_next_obj s1"
    "m_procs s2 = (m_procs s1)(p := (if ps_suspended (m_procs s1 p) then (m_procs s1 p)\<lparr>ps_ready_to_run := True\<rparr> else m_procs s1 p))"
    "\<And>th' x. runnable_proc th' x s2 \<longleftrightarrow> runnable_proc th' x s1 \<or> (th' = th \<and> x = p \<and> \<not> ps_suspended (m_procs s1 p))"
    using make_ready_ok [OF hs(1) k D(4) r1] by blast
  have rem: "remaining W e th p True s2 = remaining W e th p True s1" by (simp add: remaining_def s2(3) fun_eq_iff)
  have "idle_ok e s2" by (rule idle_ok_cong [of e s1]) (use D(2) s2 in \<open>simp_all add: eff_def\<close>)
  moreover have "pending s2 = pending s1" using s2(3,5) by (intro ext) (simp add: pending_def split: notify_t.split)
  moreover have "timeouts s2 = timeouts s1" by (simp add: timeouts_def s2(9) image_def) (metis fun_upd_apply)
  moreover have "dyn s2 th e = dyn s th e" using D(1,2) s2(3) by (simp add: eff_def left_def)
  ultimately have "only e th p s s2" using D(2,3) s2(3,4,9,10) run1
    by (auto simp: only_def eff_def left_def same_identity_def)
  moreover have "consistent e th (remaining W e th p True s2) s2"
    unfolding consistent_def rem using s2(2,3) hs(2) by simp
  ultimately show ?thesis using s2(1,9,10) D(3,4) by (auto simp: same_identity_def)
qed

lemma handled_only:
  assumes h: "handling W e th p s" and d: "handled W e th p s ok s'"
  shows "only e th p s s'" "consistent e th (remaining W e th p True s') s'"
proof -
  obtain D where D: "e \<notin> D" "eff e th p D s s'" "same_identity (m_procs s p) (m_procs s' p)"
    using d unfolding handled_def by auto
  moreover have "runnable_proc th' x s' = runnable_proc th' x s" for th' x
    using D(2) by (simp add: eff_def runnable_proc_def proc_queue_of_def)
  ultimately show "only e th p s s'" by (simp add: only_def eff_def left_def same_identity_def)
  show "consistent e th (remaining W e th p True s') s'"
    using handled_sens [OF h d] by (simp add: consistent_def)
qed

lemma only_upd:
  assumes "only e th p s1 s'" "s1 = upd_proc p (m_timed_out_update (\<lambda>_. False)) s"
  shows "only e th p s s'"
proof -
  have "pending s1 = pending s" using assms(2) by (intro ext) (simp add: pending_def split: notify_t.split)
  moreover have "timeouts s1 = timeouts s" using assms(2) by simp
  moreover have "runnable_proc th' x s1 = runnable_proc th' x s" for th' x
    using assms(2) by (simp add: runnable_proc_def proc_queue_of_def)
  ultimately show ?thesis using assms by (simp add: only_def)
qed

lemma handling_upd:
  assumes "handling W e th p s"
  shows "handling W e th p (upd_proc p (m_timed_out_update (\<lambda>_. False)) s)"
proof -
  have "sens_ok W (upd_proc p (m_timed_out_update (\<lambda>_. False)) s)"
    using assms by (intro sens_same) (simp_all add: handling_def)
  moreover have "idle_ok e (upd_proc p (m_timed_out_update (\<lambda>_. False)) s)"
    by (rule idle_ok_cong [of e s]) (use assms in \<open>simp_all add: handling_def\<close>)
  ultimately show ?thesis using assms by (simp add: handling_def)
qed

lemma handling_remaining:
  assumes "handling W e th p s"
  shows "only e th p s s" "consistent e th (remaining W e th p False s) s"
proof -
  have "remaining W e th p False s = W"
  proof (intro ext)
    fix th' x
    show "remaining W e th p False s th' x = W th' x"
      using assms unfolding handling_def remaining_def by (cases "th' = th \<and> x = e") auto
  qed
  then show "consistent e th (remaining W e th p False s) s" using assms by (auto simp: handling_def consistent_def)
  show "only e th p s s" using assms by (simp add: only_def handling_def)
qed

lemma trigger_dynamic_ok:
  assumes h0: "handling W e th p s0"
  shows "\<exists>fin s'. trigger_dynamic th e p s0 = Inr (fin, s') \<and> only e th p s0 s' \<and>
    consistent e th (remaining W e th p fin s') s' \<and> dealt e th p s0 fin s'"
proof -
  let ?s = "upd_proc p (m_timed_out_update (\<lambda>_. False)) s0"
  have h: "handling W e th p ?s" by (rule handling_upd [OF h0])
  note hd = handlingD [OF h] and up = only_upd [OF _ refl] and kk = handlingD(3) [OF h0]
  have woken: "woken e (m_procs ?s p) = woken e (m_procs s0 p)" by (simp add: woken_def split: trigger_t.split)
  have "m_trigger_type (m_procs ?s p) \<noteq> STATIC" using hd(5,6) by (auto simp: expects_def)
  then have run: "\<not> runnable_proc th p ?s" using sens_okD(3) [OF hd(1)] hd(3) by blast
  consider (self) "\<not> th \<and> m_curr_proc s0 = Some p" |
    (timeout) "th \<or> m_curr_proc s0 \<noteq> Some p" "ps_disabled (m_procs s0 p)" "e = m_timeout_event_p (m_procs s0 p)" |
    (off) "th \<or> m_curr_proc s0 \<noteq> Some p" "ps_disabled (m_procs s0 p)" "e \<noteq> m_timeout_event_p (m_procs s0 p)" |
    (on) "th \<or> m_curr_proc s0 \<noteq> Some p" "\<not> ps_disabled (m_procs s0 p)" by blast
  then show ?thesis
  proof cases
    case self
    have "trigger_dynamic th e p s0 = Inr (False, ?s)" using self by (simp add: trigger_dynamic_def)
    moreover have "dealt e th p s0 False ?s" using self by (simp add: dealt_def)
    ultimately show ?thesis using handling_remaining(2) [OF h] up [OF handling_remaining(1) [OF h]] by blast
  next
    case timeout
    obtain s' where s': "remove_dynamic_events th True p ?s = Inr s'" "handled W e th p ?s True s'"
      using remove_dynamic_ok [OF h] timeout(3) by auto
    have "trigger_dynamic th e p s0 = Inr (True, s')"
      using s'(1) timeout run by (simp add: trigger_dynamic_def Let_def)
    moreover have "dealt e th p s0 True s'" using timeout by (auto simp: dealt_def)
    ultimately show ?thesis using handled_only(2) [OF h s'(2)] up [OF handled_only(1) [OF h s'(2)]] by blast
  next
    case off
    have "trigger_dynamic th e p s0 = Inr (False, ?s)" using off run by (simp add: trigger_dynamic_def Let_def)
    moreover have "dealt e th p s0 False ?s" using off by (auto simp: dealt_def)
    ultimately show ?thesis using handling_remaining(2) [OF h] up [OF handling_remaining(1) [OF h]] by blast
  next
    case on
    obtain s1 where s1: "trigger_switch th e p ?s = Inr (woken e (m_procs ?s p), s1)" "handled W e th p ?s (woken e (m_procs ?s p)) s1"
      using switch_ok [OF h] by (auto simp: switched_def)
    show ?thesis
    proof (cases "woken e (m_procs ?s p)")
      case True
      obtain s' where s': "make_ready th p s1 = Inr s'" "only e th p ?s s'" "consistent e th (remaining W e th p True s') s'"
        "m_trigger_type (m_procs s' p) = STATIC"
        "if ps_suspended (m_procs ?s p) then ps_ready_to_run (m_procs s' p) else runnable_proc th p s'"
        using trigger_dynamic_finish [OF h] s1(2) True by auto
      have "trigger_dynamic th e p s0 = Inr (True, s')"
        using s1(1) s'(1) True on run by (simp add: trigger_dynamic_def Let_def)
      moreover have "dealt e th p s0 True s'" using on True woken s'(4,5) kk by (auto simp: dealt_def handed_over_def Let_def)
      ultimately show ?thesis using s'(3) up [OF s'(2)] by blast
    next
      case False
      have "trigger_dynamic th e p s0 = Inr (True, s1)"
        using s1(1) False on run by (simp add: trigger_dynamic_def Let_def)
      moreover have "m_trigger_type (m_procs s1 p) = m_trigger_type (m_procs s0 p)"
        "m_event_count (m_procs s1 p) = m_event_count (m_procs s0 p) - 1"
        using s1(2) False by (auto simp: handled_def)
      then have "dealt e th p s0 True s1" using on False woken by (simp add: dealt_def handed_over_def Let_def)
      ultimately show ?thesis using handled_only(2) [OF h s1(2)] up [OF handled_only(1) [OF h s1(2)]] by blast
    qed
  qed
qed

section \<open>The loop over a list\<close>

definition upto_last :: "bool \<Rightarrow> nat \<Rightarrow> nat \<Rightarrow> 'z processes_scheme \<Rightarrow> bool \<Rightarrow> nat \<Rightarrow> nat set" where
  "upto_last th e n s th' x = (if th' = th \<and> x = e then set (take n (dyn s th e)) else set (dyn s th' x))"

definition loop_inv :: "bool \<Rightarrow> nat \<Rightarrow> nat \<Rightarrow> 'z processes_scheme \<Rightarrow> bool" where
  "loop_inv th e n s \<longleftrightarrow> idle_ok e s \<and> consistent e th (upto_last th e n s) s \<and> distinct (take n (dyn s th e)) \<and>
     n \<le> length (dyn s th e)"

text \<open>The processes of \<open>P\<close> have been dealt with, all others are as before.\<close>

definition swept :: "nat \<Rightarrow> bool \<Rightarrow> nat set \<Rightarrow> 'z processes_scheme \<Rightarrow> 'z processes_scheme \<Rightarrow> bool" where
  "swept e th P s s' \<longleftrightarrow> (\<forall>x. x \<noteq> e \<and> x \<notin> timeouts s \<longrightarrow> pending s' x = pending s x) \<and>
     timeouts s' = timeouts s \<and> m_curr_proc s' = m_curr_proc s \<and>
     (\<forall>x. dyn s' (\<not> th) x = dyn s (\<not> th) x) \<and>
     (\<forall>x. m_methods_static (m_events s' x) = m_methods_static (m_events s x) \<and>
        m_threads_static (m_events s' x) = m_threads_static (m_events s x)) \<and>
     (\<forall>x. ps_disabled (m_procs s' x) = ps_disabled (m_procs s x) \<and> ps_suspended (m_procs s' x) = ps_suspended (m_procs s x) \<and>
        m_is_thread (m_procs s' x) = m_is_thread (m_procs s x)) \<and>
     (\<forall>x. x \<notin> P \<longrightarrow> m_procs s' x = m_procs s x) \<and>
     (\<forall>th' x. th' \<noteq> th \<or> x \<notin> P \<longrightarrow> runnable_proc th' x s' = runnable_proc th' x s) \<and>
     (\<forall>x\<in>P. dealt e th x s (x \<notin> set (dyn s' th e)) s')"

lemma loop_inv_handling:
  assumes "loop_inv th e n s" "i < n"
  shows "handling (upto_last th e n s) e th (dyn s th e ! i) s"
proof -
  have "dyn s th e ! i \<in> set (take n (dyn s th e))"
    using assms by (auto simp: loop_inv_def in_set_conv_nth intro!: exI [of _ i])
  then show ?thesis using assms(1) by (auto simp: handling_def loop_inv_def consistent_def upto_last_def)
qed

lemma dealt_before:
  assumes "only e th p s s1" "x \<noteq> p" "m_curr_proc s2 = m_curr_proc s1" "m_procs s2 = m_procs s1" "dealt e th x s2 fin s'"
  shows "dealt e th x s fin s'"
proof -
  have "m_procs s2 x = m_procs s x" "m_curr_proc s2 = m_curr_proc s" using assms by (simp_all add: only_def)
  then have "dealt e th x s2 fin s' = dealt e th x s fin s'" by (simp add: dealt_def handed_over_def)
  then show ?thesis using assms(5) by simp
qed

lemma dealt_after:
  assumes "dealt e th p s fin s1" "m_procs s' p = m_procs s1 p" "m_is_thread (m_procs s p) = th"
    "runnable_proc th p s' = runnable_proc th p s1"
  shows "dealt e th p s fin s'"
proof -
  have "dealt e th p s fin s' = dealt e th p s fin s1" using assms(2-) by (cases th) (simp_all add: dealt_def handed_over_def)
  then show ?thesis using assms(1) by simp
qed

lemma swept_step:
  assumes o: "only e th p s s1" and d: "dealt e th p s fin s1" and k: "m_is_thread (m_procs s p) = th"
    and s2: "m_procs s2 = m_procs s1" "m_runnable s2 = m_runnable s1" "m_curr_proc s2 = m_curr_proc s1" "pending s2 = pending s1"
      "\<And>x. dyn s2 (\<not> th) x = dyn s1 (\<not> th) x"
      "\<And>x. m_methods_static (m_events s2 x) = m_methods_static (m_events s1 x)"
      "\<And>x. m_threads_static (m_events s2 x) = m_threads_static (m_events s1 x)"
    and w: "swept e th P s2 s'" and p: "p \<notin> P" "p \<in> set (dyn s' th e) \<longleftrightarrow> \<not> fin"
  shows "swept e th (insert p P) s s'"
proof -
  have run2: "runnable_proc th' x s2 = runnable_proc th' x s1" for th' x
    using s2(2) by (simp add: runnable_proc_def proc_queue_of_def)
  have t2: "timeouts s2 = timeouts s" using s2(1) o by (simp add: timeouts_def only_def)
  have "dealt e th x s (x \<notin> set (dyn s' th e)) s'" if "x \<in> insert p P" for x
  proof (cases "x = p")
    case True
    have "m_procs s' p = m_procs s1 p" "runnable_proc th p s' = runnable_proc th p s1"
      using w p(1) s2(1) run2 by (simp_all add: swept_def)
    then show ?thesis using dealt_after [OF d _ k] p(2) True by simp
  next
    case False
    then have "dealt e th x s2 (x \<notin> set (dyn s' th e)) s'" using w that by (simp add: swept_def)
    then show ?thesis by (rule dealt_before [OF o False s2(3,1)])
  qed
  moreover have "runnable_proc th' x s' = runnable_proc th' x s" if "th' \<noteq> th \<or> x \<notin> insert p P" for th' x
  proof -
    have "runnable_proc th' x s' = runnable_proc th' x s2" using w that by (auto simp: swept_def)
    moreover have "runnable_proc th' x s1 = runnable_proc th' x s" using o that by (auto simp: only_def)
    ultimately show ?thesis using run2 by simp
  qed
  moreover have "ps_disabled (m_procs s' x) = ps_disabled (m_procs s x) \<and> ps_suspended (m_procs s' x) = ps_suspended (m_procs s x) \<and>
      m_is_thread (m_procs s' x) = m_is_thread (m_procs s x)" for x
    using w o s2(1) by (cases "x = p") (simp_all add: swept_def only_def)
  ultimately show ?thesis using w o s2 t2 unfolding swept_def only_def by simp
qed

lemma loop_inv_continue:
  assumes "loop_inv th e n s" "only e th p s s1" "consistent e th (remaining (upto_last th e n s) e th p False s1) s1"
  shows "loop_inv th e n s1"
proof -
  have "dyn s1 th e = dyn s th e" using assms(2) by (simp add: only_def)
  moreover from this have "remaining (upto_last th e n s) e th p False s1 = upto_last th e n s1"
    by (intro ext) (simp add: remaining_def upto_last_def)
  ultimately show ?thesis using assms by (simp add: loop_inv_def only_def)
qed

lemma loop_inv_drop:
  assumes l: "loop_inv th e n s" "i < n" and o: "only e th (dyn s th e ! i) s s1"
    and c: "consistent e th (remaining (upto_last th e n s) e th (dyn s th e ! i) True s1) s1"
    and ps: "ps = (dyn s th e)[i := dyn s th e ! (n - 1)]"
  shows "loop_inv th e (n - 1) (upd_event e (set_dyn_list th ps) s1)"
    "set (take (n - 1) ps) = set (take n (dyn s th e)) - {dyn s th e ! i}"
proof -
  let ?L = "dyn s th e" let ?s2 = "upd_event e (set_dyn_list th ps) s1"
  have n: "n \<le> length ?L" "distinct (take n ?L)" using l(1) by (simp_all add: loop_inv_def)
  have t: "take (n - 1) ps = take (length (take n ?L) - 1) ((take n ?L)[i := take n ?L ! (length (take n ?L) - 1)])"
    using n(1) l(2) ps by (simp add: take_update_swap min_def)
  have sw: "distinct (take (n - 1) ps)" "set (take (n - 1) ps) = set (take n ?L) - {?L ! i}"
    unfolding t using swap_remove [OF n(2), of i] l(2) n(1) by simp_all
  show "set (take (n - 1) ps) = set (take n ?L) - {?L ! i}" by (rule sw(2))
  have "upto_last th e (n - 1) ?s2 = remaining (upto_last th e n s) e th (?L ! i) True s1"
    using sw(2) by (intro ext) (auto simp: upto_last_def remaining_def)
  moreover have "sens_ok W ?s2 = sens_ok W s1" for W
    by (simp add: sens_ok_def lists_ok_def timeouts_ok_def queues_ok_def users_def timeouts_def runnable_proc_def proc_queue_of_def)
  moreover have "distinct (dyn ?s2 th' x) = distinct (dyn s1 th' x)" if "th' \<noteq> th \<or> x \<noteq> e" for th' x
    using that by auto
  ultimately have "consistent e th (upto_last th e (n - 1) ?s2) ?s2" using c by (simp add: consistent_def)
  moreover have "idle_ok e ?s2" by (rule idle_ok_cong [of e s1]) (use o in \<open>simp_all add: only_def\<close>)
  ultimately show "loop_inv th e (n - 1) ?s2" using sw(1) n(1) ps by (simp add: loop_inv_def)
qed

lemma loop_done:
  assumes "loop_inv th e n s"
  shows "loop_inv th e n (upd_event e (set_dyn_list th (take n (dyn s th e))) s)"
    "swept e th {} s (upd_event e (set_dyn_list th (take n (dyn s th e))) s)"
proof -
  let ?s' = "upd_event e (set_dyn_list th (take n (dyn s th e))) s"
  have "upto_last th e n ?s' = upto_last th e n s" using assms by (intro ext) (auto simp: upto_last_def loop_inv_def)
  moreover have "sens_ok W ?s' = sens_ok W s" for W
    by (simp add: sens_ok_def lists_ok_def timeouts_ok_def queues_ok_def users_def timeouts_def runnable_proc_def proc_queue_of_def)
  moreover have "distinct (dyn ?s' th' x) = distinct (dyn s th' x)" if "th' \<noteq> th \<or> x \<noteq> e" for th' x
    using that by auto
  ultimately have "consistent e th (upto_last th e n ?s') ?s'" using assms by (simp add: consistent_def loop_inv_def)
  moreover have "idle_ok e ?s'" by (rule idle_ok_cong [of e s]) (use assms in \<open>simp_all add: loop_inv_def\<close>)
  ultimately show "loop_inv th e n ?s'" using assms by (simp add: loop_inv_def)
  have "pending ?s' = pending s" by (intro ext) (simp add: pending_def split: notify_t.split)
  moreover have "timeouts ?s' = timeouts s" by (simp add: timeouts_def)
  moreover have "runnable_proc th' x ?s' = runnable_proc th' x s" for th' x by (simp add: runnable_proc_def proc_queue_of_def)
  ultimately show "swept e th {} s ?s'" by (simp add: swept_def)
qed

lemma loop_ok:
  assumes "loop_inv th e n s" "i \<le> n"
  shows "\<exists>s'. dynamic_loop th e i n s = Inr s' \<and> loop_inv th e (length (dyn s' th e)) s' \<and>
    swept e th (set (take n (dyn s th e)) - set (take i (dyn s th e))) s s' \<and>
    set (dyn s' th e) - (set (take n (dyn s th e)) - set (take i (dyn s th e))) = set (take i (dyn s th e))"
  using assms
proof (induction "n - i" arbitrary: i n s)
  case 0
  then have i: "i = n" by simp
  define s' where "s' = upd_event e (set_dyn_list th (take n (dyn s th e))) s"
  have "length (dyn s' th e) = n" "dyn s' th e = take n (dyn s th e)" using 0(2) by (simp_all add: s'_def loop_inv_def)
  moreover have "dynamic_loop th e i n s = Inr s'" using i by (subst dynamic_loop.simps) (simp add: s'_def)
  ultimately show ?case using loop_done [OF 0(2)] i by (simp add: s'_def [symmetric])
next
  case (Suc k)
  let ?L = "dyn s th e" let ?p = "dyn s th e ! i"
  have i: "i < n" using Suc(2) by simp
  have n: "n \<le> length ?L" "distinct (take n ?L)" using Suc(3) by (simp_all add: loop_inv_def)
  have t: "take (Suc i) ?L = take i ?L @ [?p]" using i n(1) by (simp add: take_Suc_conv_app_nth)
  have "take (Suc i) ?L = take (Suc i) (take n ?L)" using i by (simp add: min_def)
  then have "distinct (take (Suc i) ?L)" "set (take (Suc i) ?L) \<subseteq> set (take n ?L)" 
    using n(2) by (metis distinct_take, metis set_take_subset)
  then have pn: "?p \<notin> set (take i ?L)" "?p \<in> set (take n ?L)" "set (take (i + 1) ?L) = insert ?p (set (take i ?L))"
    using t by simp_all
  have vi: "vec_at ?L i = Inr ?p" using i n(1) by simp
  have h: "handling (upto_last th e n s) e th ?p s" by (rule loop_inv_handling [OF Suc(3) i])
  note kind = handlingD(3) [OF h]
  obtain fin s1 where s1: "trigger_dynamic th e ?p s = Inr (fin, s1)" "only e th ?p s s1"
    "consistent e th (remaining (upto_last th e n s) e th ?p fin s1) s1" "dealt e th ?p s fin s1"
    using trigger_dynamic_ok [OF h] by blast
  have L1: "dyn s1 th e = ?L" using s1(2) by (simp add: only_def)
  show ?case
  proof (cases fin)
    case False
    have k: "k = n - (i + 1)" "i + 1 \<le> n" using Suc(2) i by simp_all
    have inv1: "loop_inv th e n s1" by (rule loop_inv_continue [OF Suc(3) s1(2)]) (use s1(3) False in simp)
    obtain s' where s': "dynamic_loop th e (i + 1) n s1 = Inr s'" "loop_inv th e (length (dyn s' th e)) s'"
      "swept e th (set (take n ?L) - set (take (i + 1) ?L)) s1 s'"
      "set (dyn s' th e) - (set (take n ?L) - set (take (i + 1) ?L)) = set (take (i + 1) ?L)"
      using Suc(1) [OF k(1) inv1 k(2)] L1 by auto
    have P: "set (take n ?L) - set (take i ?L) = insert ?p (set (take n ?L) - set (take (i + 1) ?L))"
      "set (take (i + 1) ?L) = insert ?p (set (take i ?L))" using pn by auto
    have "swept e th (set (take n ?L) - set (take i ?L)) s s'" unfolding P(1)
      by (rule swept_step [OF s1(2,4) kind refl refl refl refl refl refl refl s'(3)]) (use P s'(4) False in auto)
    moreover have "set (dyn s' th e) - (set (take n ?L) - set (take i ?L)) = set (take i ?L)" using s'(4) P pn(1) by auto
    ultimately show ?thesis using s'(1,2) s1(1) vi i False by (subst dynamic_loop.simps) auto
  next
    case True
    have k: "k = n - 1 - i" "i \<le> n - 1" using Suc(2) i by simp_all
    define ps where "ps = ?L[i := ?L ! (n - 1)]"
    define s2 where "s2 = upd_event e (set_dyn_list th ps) s1"
    have inv2: "loop_inv th e (n - 1) s2" and set2: "set (take (n - 1) ps) = set (take n ?L) - {?p}"
      using loop_inv_drop [OF Suc(3) i s1(2) _ ps_def] s1(3) True by (simp_all add: s2_def)
    have L2: "dyn s2 th e = ps" by (simp add: s2_def)
    have ti: "take i ps = take i ?L" by (simp add: ps_def)
    obtain s' where s': "dynamic_loop th e i (n - 1) s2 = Inr s'" "loop_inv th e (length (dyn s' th e)) s'"
      "swept e th (set (take (n - 1) ps) - set (take i ?L)) s2 s'"
      "set (dyn s' th e) - (set (take (n - 1) ps) - set (take i ?L)) = set (take i ?L)"
      using Suc(1) [OF k(1) inv2 k(2)] L2 ti by auto
    have P: "set (take n ?L) - set (take i ?L) = insert ?p (set (take (n - 1) ps) - set (take i ?L))" using pn set2 by auto
    have "pending s2 = pending s1" by (intro ext) (simp add: pending_def s2_def split: notify_t.split)
    then have "swept e th (set (take n ?L) - set (take i ?L)) s s'" unfolding P
      by (intro swept_step [OF s1(2,4) kind _ _ _ _ _ _ _ s'(3)]) (use set2 s'(4) pn True in \<open>auto simp: s2_def\<close>)
    moreover have "set (dyn s' th e) - (set (take n ?L) - set (take i ?L)) = set (take i ?L)" using s'(4) P set2 pn(1) by auto
    moreover have "vec_at ?L (n - 1) = Inr (?L ! (n - 1))" "vec_set ?L i (?L ! (n - 1)) = Inr ps"
      using n(1) i by (simp_all add: ps_def)
    ultimately show ?thesis using s'(1,2) s1(1) vi i True L1 by (subst dynamic_loop.simps) (auto simp: s2_def)
  qed
qed

section \<open>Processes with static sensitivity\<close>

definition stirred :: "bool \<Rightarrow> 'z processes_scheme \<Rightarrow> 'z processes_scheme \<Rightarrow> bool" where
  "stirred th s s' \<longleftrightarrow> m_events s' = m_events s \<and> m_event_lists s' = m_event_lists s \<and> m_curr_proc s' = m_curr_proc s \<and>
     m_timed_objs s' = m_timed_objs s \<and> m_delta_events s' = m_delta_events s \<and> m_timed_events s' = m_timed_events s \<and>
     m_next_obj s' = m_next_obj s \<and>
     (\<forall>p. \<exists>r n. m_procs s' p = (m_procs s p)\<lparr>ps_ready_to_run := r, m_wait_cycle_n := n\<rparr> \<and>
        (ps_ready_to_run (m_procs s p) \<longrightarrow> r) \<and> n \<le> m_wait_cycle_n (m_procs s p)) \<and>
     (\<forall>p. m_trigger_type (m_procs s p) \<noteq> STATIC \<or> m_is_thread (m_procs s p) \<noteq> th \<longrightarrow> m_procs s' p = m_procs s p) \<and>
     (\<forall>th' p. runnable_proc th' p s \<longrightarrow> runnable_proc th' p s') \<and>
     (\<forall>th' p. th' \<noteq> th \<or> m_trigger_type (m_procs s p) \<noteq> STATIC \<longrightarrow> runnable_proc th' p s' = runnable_proc th' p s)"

definition static_dealt :: "bool \<Rightarrow> 'z processes_scheme \<Rightarrow> 'z processes_scheme \<Rightarrow> nat \<Rightarrow> bool" where
  "static_dealt th s s' p \<longleftrightarrow>
     (\<not> ps_disabled (m_procs s p) \<and> m_trigger_type (m_procs s p) = STATIC \<and> m_curr_proc s \<noteq> Some p \<longrightarrow>
      runnable_proc th p s' \<or> (ps_suspended (m_procs s p) \<and> ps_ready_to_run (m_procs s' p)) \<or>
      (th \<and> 0 < m_wait_cycle_n (m_procs s p) \<and> m_wait_cycle_n (m_procs s' p) < m_wait_cycle_n (m_procs s p)))"

lemma same_process: "q = q\<lparr>ps_ready_to_run := ps_ready_to_run q, m_wait_cycle_n := m_wait_cycle_n q\<rparr>"
  by (cases q) simp

lemma stirred_refl: "stirred th s s"
proof -
  have "\<exists>r n. m_procs s p = (m_procs s p)\<lparr>ps_ready_to_run := r, m_wait_cycle_n := n\<rparr> \<and>
      (ps_ready_to_run (m_procs s p) \<longrightarrow> r) \<and> n \<le> m_wait_cycle_n (m_procs s p)" for p
    using same_process by blast
  then show ?thesis by (simp add: stirred_def)
qed

lemma stirredD:
  assumes "stirred th s s'"
  shows "ps_disabled (m_procs s' p) = ps_disabled (m_procs s p)" "ps_suspended (m_procs s' p) = ps_suspended (m_procs s p)"
    "m_is_thread (m_procs s' p) = m_is_thread (m_procs s p)" "m_trigger_type (m_procs s' p) = m_trigger_type (m_procs s p)"
    "m_timeout_event_p (m_procs s' p) = m_timeout_event_p (m_procs s p)"
    "ps_ready_to_run (m_procs s p) \<Longrightarrow> ps_ready_to_run (m_procs s' p)"
    "m_wait_cycle_n (m_procs s' p) \<le> m_wait_cycle_n (m_procs s p)" "m_curr_proc s' = m_curr_proc s"
    "runnable_proc th' p s \<Longrightarrow> runnable_proc th' p s'"
proof -
  obtain r n where "m_procs s' p = (m_procs s p)\<lparr>ps_ready_to_run := r, m_wait_cycle_n := n\<rparr>"
    "ps_ready_to_run (m_procs s p) \<longrightarrow> r" "n \<le> m_wait_cycle_n (m_procs s p)" using assms unfolding stirred_def by blast
  then show "ps_disabled (m_procs s' p) = ps_disabled (m_procs s p)" "ps_suspended (m_procs s' p) = ps_suspended (m_procs s p)"
    "m_is_thread (m_procs s' p) = m_is_thread (m_procs s p)" "m_trigger_type (m_procs s' p) = m_trigger_type (m_procs s p)"
    "m_timeout_event_p (m_procs s' p) = m_timeout_event_p (m_procs s p)"
    "ps_ready_to_run (m_procs s p) \<Longrightarrow> ps_ready_to_run (m_procs s' p)"
    "m_wait_cycle_n (m_procs s' p) \<le> m_wait_cycle_n (m_procs s p)" by simp_all
  show "m_curr_proc s' = m_curr_proc s" "runnable_proc th' p s \<Longrightarrow> runnable_proc th' p s'"
    using assms unfolding stirred_def by blast+
qed

lemma stirred_trans:
  assumes "stirred th s s1" "stirred th s1 s2"
  shows "stirred th s s2"
proof -
  have "\<exists>r n. m_procs s2 p = (m_procs s p)\<lparr>ps_ready_to_run := r, m_wait_cycle_n := n\<rparr> \<and>
      (ps_ready_to_run (m_procs s p) \<longrightarrow> r) \<and> n \<le> m_wait_cycle_n (m_procs s p)" for p
  proof -
    obtain r n where 1: "m_procs s1 p = (m_procs s p)\<lparr>ps_ready_to_run := r, m_wait_cycle_n := n\<rparr>"
      "ps_ready_to_run (m_procs s p) \<longrightarrow> r" "n \<le> m_wait_cycle_n (m_procs s p)" using assms(1) unfolding stirred_def by blast
    obtain r' n' where "m_procs s2 p = (m_procs s1 p)\<lparr>ps_ready_to_run := r', m_wait_cycle_n := n'\<rparr>"
      "ps_ready_to_run (m_procs s1 p) \<longrightarrow> r'" "n' \<le> m_wait_cycle_n (m_procs s1 p)" using assms(2) unfolding stirred_def by blast
    then show ?thesis using 1 by (intro exI [of _ r'] exI [of _ n']) simp
  qed
  moreover have "m_trigger_type (m_procs s1 p) = m_trigger_type (m_procs s p)" "m_is_thread (m_procs s1 p) = m_is_thread (m_procs s p)" for p
    using stirredD [OF assms(1)] by simp_all
  ultimately show ?thesis using assms unfolding stirred_def by simp
qed

lemma static_dealt_later:
  assumes "stirred th s s1" "static_dealt th s1 s2 p"
  shows "static_dealt th s s2 p"
  using assms(2) stirredD [OF assms(1)] unfolding static_dealt_def by (smt (verit))

lemma static_dealt_earlier:
  assumes "static_dealt th s s1 p" "stirred th s1 s2"
  shows "static_dealt th s s2 p"
  using assms(1) stirredD [OF assms(2)] unfolding static_dealt_def by (smt (verit))

lemma stirred_one:
  assumes s': "m_events s' = m_events s" "m_event_lists s' = m_event_lists s" "m_curr_proc s' = m_curr_proc s"
    "m_timed_objs s' = m_timed_objs s" "m_delta_events s' = m_delta_events s" "m_timed_events s' = m_timed_events s"
    "m_next_obj s' = m_next_obj s" "m_procs s' = (m_procs s)(p := (m_procs s p)\<lparr>ps_ready_to_run := r, m_wait_cycle_n := n\<rparr>)"
    "ps_ready_to_run (m_procs s p) \<longrightarrow> r" "n \<le> m_wait_cycle_n (m_procs s p)"
    and p: "m_is_thread (m_procs s p) = th" "m_trigger_type (m_procs s p) = STATIC"
    and run: "\<And>th' x. runnable_proc th' x s' \<longleftrightarrow> runnable_proc th' x s \<or> (th' = th \<and> x = p \<and> b)"
  shows "stirred th s s'"
proof -
  have "\<exists>r n. m_procs s' x = (m_procs s x)\<lparr>ps_ready_to_run := r, m_wait_cycle_n := n\<rparr> \<and>
      (ps_ready_to_run (m_procs s x) \<longrightarrow> r) \<and> n \<le> m_wait_cycle_n (m_procs s x)" for x
  proof (cases "x = p")
    case True
    then show ?thesis using s'(8,9,10) by auto
  next
    case False
    then show ?thesis using s'(8) same_process by (metis fun_upd_apply order_refl)
  qed
  then show ?thesis using s' p run by (auto simp: stirred_def)
qed

lemma trigger_static_ok:
  assumes c: "sens_ok W s" and p: "m_is_thread (m_procs s p) = th"
  shows "\<exists>s'. (if th then trigger_static_thread p s else trigger_static_method p s) = Inr s' \<and> sens_ok W s' \<and>
    stirred th s s' \<and> static_dealt th s s' p"
proof -
  let ?q = "m_procs s p"
  consider (off) "ps_disabled ?q \<or> m_trigger_type ?q \<noteq> STATIC \<or> m_curr_proc s = Some p" | (run) "runnable_proc th p s" |
    (wait) "\<not> (ps_disabled ?q \<or> m_trigger_type ?q \<noteq> STATIC \<or> m_curr_proc s = Some p)" "\<not> runnable_proc th p s" "th"
      "m_wait_cycle_n ?q > 0" |
    (go) "\<not> (ps_disabled ?q \<or> m_trigger_type ?q \<noteq> STATIC \<or> m_curr_proc s = Some p)" "\<not> runnable_proc th p s"
      "\<not> (th \<and> m_wait_cycle_n ?q > 0)" by blast
  then show ?thesis
  proof cases
    case off
    then show ?thesis using c stirred_refl [of th s]
      by (auto simp: trigger_static_thread_def trigger_static_method_def static_dealt_def)
  next
    case run
    then show ?thesis using c stirred_refl [of th s]
      by (auto simp: trigger_static_thread_def trigger_static_method_def static_dealt_def)
  next
    case wait
    let ?s' = "upd_proc p (m_wait_cycle_n_update (\<lambda>n. n - 1)) s"
    have "trigger_static_thread p s = Inr ?s'" using wait by (simp add: trigger_static_thread_def)
    moreover have "sens_ok W ?s'" by (rule sens_same [OF c]) simp_all
    moreover have weq: "m_wait_cycle_n_update (\<lambda>n. n - 1) ?q = ?q\<lparr>m_wait_cycle_n := m_wait_cycle_n ?q - 1\<rparr>" by (cases ?q) simp
    have "stirred th s ?s'"
      by (intro stirred_one [where r = "ps_ready_to_run ?q" and n = "m_wait_cycle_n ?q - 1" and p = p and b = False])
        (use wait p in \<open>simp_all add: weq runnable_proc_def proc_queue_of_def\<close>)
    moreover have "static_dealt th s ?s' p" using wait by (simp add: static_dealt_def)
    ultimately show ?thesis using wait(3) by auto
  next
    case go
    obtain s' where s': "make_ready th p s = Inr s'" "sens_ok W s'" "m_events s' = m_events s" "m_event_lists s' = m_event_lists s"
      "m_curr_proc s' = m_curr_proc s" "m_timed_objs s' = m_timed_objs s" "m_delta_events s' = m_delta_events s"
      "m_timed_events s' = m_timed_events s" "m_next_obj s' = m_next_obj s"
      "m_procs s' = (m_procs s)(p := (if ps_suspended ?q then ?q\<lparr>ps_ready_to_run := True\<rparr> else ?q))"
      "\<And>th' x. runnable_proc th' x s' \<longleftrightarrow> runnable_proc th' x s \<or> (th' = th \<and> x = p \<and> \<not> ps_suspended ?q)"
      using make_ready_ok [OF c p _ go(2)] go(1) by blast
    have "(if ps_suspended ?q then ?q\<lparr>ps_ready_to_run := True\<rparr> else ?q) =
        ?q\<lparr>ps_ready_to_run := (ps_suspended ?q \<or> ps_ready_to_run ?q), m_wait_cycle_n := m_wait_cycle_n ?q\<rparr>"
      by (cases "m_procs s p") simp
    then have "stirred th s s'"
      using s' go(1) p by (intro stirred_one [where p = p and b = "\<not> ps_suspended ?q"
        and r = "ps_suspended ?q \<or> ps_ready_to_run ?q" and n = "m_wait_cycle_n ?q"]) simp_all
    moreover have "static_dealt th s s' p" using s'(10,11) by (simp add: static_dealt_def)
    ultimately show ?thesis using s'(1,2) go by (auto simp: trigger_static_thread_def trigger_static_method_def)
  qed
qed

lemma static_pass_ok:
  assumes "sens_ok W s" "\<forall>p\<in>set ps. m_is_thread (m_procs s p) = th"
  shows "\<exists>s'. for_each (if th then trigger_static_thread else trigger_static_method) ps s = Inr s' \<and> sens_ok W s' \<and>
    stirred th s s' \<and> (\<forall>p\<in>set ps. static_dealt th s s' p)"
  using assms
proof (induction ps arbitrary: s)
  case Nil
  then show ?case by (simp add: stirred_refl)
next
  case (Cons p ps)
  obtain s1 where s1: "(if th then trigger_static_thread p s else trigger_static_method p s) = Inr s1" "sens_ok W s1"
    "stirred th s s1" "static_dealt th s s1 p" using trigger_static_ok [OF Cons(2)] Cons(3) by auto
  have "\<forall>p\<in>set ps. m_is_thread (m_procs s1 p) = th" using stirredD(3) [OF s1(3)] Cons(3) by simp
  then obtain s2 where s2: "for_each (if th then trigger_static_thread else trigger_static_method) ps s1 = Inr s2" "sens_ok W s2"
    "stirred th s1 s2" "\<forall>p\<in>set ps. static_dealt th s1 s2 p" using Cons(1) [OF s1(2)] by blast
  have "static_dealt th s s2 x" if "x \<in> set (p # ps)" for x
    using that s2(4) static_dealt_later [OF s1(3)] static_dealt_earlier [OF s1(4) s2(3)] by auto
  moreover have "for_each (if th then trigger_static_thread else trigger_static_method) (p # ps) s = Inr s2"
    using s1(1) s2(1) by (cases th) simp_all
  ultimately show ?case using s2(2) stirred_trans [OF s1(3) s2(3)] by blast
qed

section \<open>Triggering an event\<close>

definition waiting_ok :: "'z processes_scheme \<Rightarrow> bool" where
  "waiting_ok s \<longleftrightarrow> sens_ok (\<lambda>th x. set (dyn s th x)) s \<and> (\<forall>th x. distinct (dyn s th x)) \<and>
     (\<forall>x. (\<forall>p\<in>set (m_methods_static (m_events s x)). \<not> m_is_thread (m_procs s p)) \<and>
        (\<forall>p\<in>set (m_threads_static (m_events s x)). m_is_thread (m_procs s p)))"

lemma loop_inv_start: "waiting_ok s \<Longrightarrow> idle_ok e s \<Longrightarrow> loop_inv th e (length (dyn s th e)) s"
proof -
  assume w: "waiting_ok s" "idle_ok e s"
  have "upto_last th e (length (dyn s th e)) s = (\<lambda>th x. set (dyn s th x))" by (intro ext) (simp add: upto_last_def)
  then show ?thesis using w by (simp add: loop_inv_def consistent_def waiting_ok_def)
qed

lemma loop_inv_end: "loop_inv th e (length (dyn s th e)) s \<Longrightarrow> sens_ok (\<lambda>th x. set (dyn s th x)) s"
  "loop_inv th e (length (dyn s th e)) s \<Longrightarrow> distinct (dyn s th' x)" "loop_inv th e n s \<Longrightarrow> idle_ok e s"
proof -
  have "upto_last th e (length (dyn s th e)) s = (\<lambda>th x. set (dyn s th x))" by (intro ext) (simp add: upto_last_def)
  then show "sens_ok (\<lambda>th x. set (dyn s th x)) s" if "loop_inv th e (length (dyn s th e)) s"
    using that by (simp add: loop_inv_def consistent_def)
  show "distinct (dyn s th' x)" if "loop_inv th e (length (dyn s th e)) s"
    using that by (cases "th' = th \<and> x = e") (auto simp: loop_inv_def consistent_def)
  show "idle_ok e s" if "loop_inv th e n s" using that by (simp add: loop_inv_def)
qed

text \<open>One half of \<open>trigger\<close>: the statically sensitive processes of one kind, then the dynamic ones.\<close>

definition half :: "bool \<Rightarrow> nat \<Rightarrow> 'z processes_scheme \<Rightarrow> 'z processes_scheme result" where
  "half th e s = bind_result (for_each (if th then trigger_static_thread else trigger_static_method)
       (rev (if th then m_threads_static (m_events s e) else m_methods_static (m_events s e))) s)
     (\<lambda>s1. dynamic_loop th e 0 (length (dyn s1 th e)) s1)"

definition half_done :: "bool \<Rightarrow> nat \<Rightarrow> 'z processes_scheme \<Rightarrow> 'z processes_scheme \<Rightarrow> bool" where
  "half_done th e s s' \<longleftrightarrow> waiting_ok s' \<and> idle_ok e s' \<and> m_curr_proc s' = m_curr_proc s \<and> timeouts s' = timeouts s \<and>
     (\<forall>p. m_is_thread (m_procs s' p) = m_is_thread (m_procs s p)) \<and>
     (\<forall>x. x \<noteq> e \<and> x \<notin> timeouts s \<longrightarrow> pending s' x = pending s x) \<and>
     (\<forall>x. dyn s' (\<not> th) x = dyn s (\<not> th) x) \<and>
     (\<forall>x. m_methods_static (m_events s' x) = m_methods_static (m_events s x) \<and>
        m_threads_static (m_events s' x) = m_threads_static (m_events s x)) \<and>
     (\<forall>p. m_is_thread (m_procs s p) \<noteq> th \<or> (m_trigger_type (m_procs s p) \<noteq> STATIC \<and> p \<notin> set (dyn s th e)) \<longrightarrow>
        m_procs s' p = m_procs s p) \<and>
     (\<forall>p th'. th' \<noteq> th \<or> (m_trigger_type (m_procs s p) \<noteq> STATIC \<and> p \<notin> set (dyn s th e)) \<longrightarrow>
        runnable_proc th' p s' = runnable_proc th' p s) \<and>
     (\<forall>p\<in>set (dyn s th e). dealt e th p s (p \<notin> set (dyn s' th e)) s') \<and>
     (\<forall>p\<in>set (if th then m_threads_static (m_events s e) else m_methods_static (m_events s e)). static_dealt th s s' p)"

lemma dyn_listener:
  assumes "waiting_ok s" "p \<in> set (dyn s th e)"
  shows "m_is_thread (m_procs s p) = th" "m_trigger_type (m_procs s p) \<noteq> STATIC"
proof -
  have s: "sens_ok (\<lambda>th x. set (dyn s th x)) s" using assms(1) by (simp add: waiting_ok_def)
  show k: "m_is_thread (m_procs s p) = th" by (rule sens_okD(2) [OF s assms(2)])
  show "m_trigger_type (m_procs s p) \<noteq> STATIC" using sens_okD(1) [OF s, of p] k assms(2) by (auto simp: expects_def)
qed

lemma half_ok:
  assumes w: "waiting_ok s" "idle_ok e s"
  shows "\<exists>s'. half th e s = Inr s' \<and> half_done th e s s'"
proof -
  let ?ss = "if th then m_threads_static (m_events s e) else m_methods_static (m_events s e)"
  let ?tr = "if th then trigger_static_thread else trigger_static_method"
  have sens: "sens_ok (\<lambda>th x. set (dyn s th x)) s" using w(1) by (simp add: waiting_ok_def)
  have k: "\<forall>p\<in>set (rev ?ss). m_is_thread (m_procs s p) = th" using w(1) by (simp add: waiting_ok_def)
  obtain s1 where s1: "for_each ?tr (rev ?ss) s = Inr s1" "sens_ok (\<lambda>th x. set (dyn s th x)) s1" "stirred th s s1"
    "\<forall>p\<in>set (rev ?ss). static_dealt th s s1 p" using static_pass_ok [OF sens k] by blast
  have ev: "m_events s1 = m_events s" using s1(3) by (simp add: stirred_def)
  have w1: "waiting_ok s1" using w(1) s1(2) stirredD(3) [OF s1(3)] by (simp add: waiting_ok_def ev)
  have i1: "idle_ok e s1" by (rule idle_ok_cong [OF w(2)]) (use s1(3) in \<open>simp_all add: stirred_def\<close>)
  let ?P = "set (dyn s th e)"
  obtain s2 where s2: "dynamic_loop th e 0 (length (dyn s1 th e)) s1 = Inr s2" "loop_inv th e (length (dyn s2 th e)) s2"
    "swept e th ?P s1 s2"
    using loop_ok [OF loop_inv_start [OF w1 i1], of 0 th] ev by auto
  have pend: "pending s1 = pending s" using s1(3) by (intro ext) (simp add: pending_def stirred_def split: notify_t.split)
  have to: "timeouts s1 = timeouts s" using stirredD(5) [OF s1(3)] by (simp add: timeouts_def)
  have curr: "m_curr_proc s1 = m_curr_proc s" by (rule stirredD(8) [OF s1(3)])
  have kind2: "m_is_thread (m_procs s2 p) = m_is_thread (m_procs s p)" for p
    using s2(3) stirredD(3) [OF s1(3)] by (simp add: swept_def)
  have "waiting_ok s2" unfolding waiting_ok_def
  proof (intro conjI allI)
    fix th' x
    show "sens_ok (\<lambda>th x. set (dyn s2 th x)) s2" by (rule loop_inv_end(1) [OF s2(2)])
    show "distinct (dyn s2 th' x)" by (rule loop_inv_end(2) [OF s2(2)])
    show "\<forall>p\<in>set (m_methods_static (m_events s2 x)). \<not> m_is_thread (m_procs s2 p)"
      "\<forall>p\<in>set (m_threads_static (m_events s2 x)). m_is_thread (m_procs s2 p)"
      using w(1) s2(3) ev kind2 by (simp_all add: waiting_ok_def swept_def)
  qed
  moreover have "dealt e th p s (p \<notin> set (dyn s2 th e)) s2" if "p \<in> ?P" for p
  proof -
    have "m_procs s1 p = m_procs s p" using s1(3) dyn_listener(2) [OF w(1) that] by (simp add: stirred_def)
    then have eq: "dealt e th p s1 fin s2 = dealt e th p s fin s2" for fin
      using curr by (cases th) (simp_all add: dealt_def handed_over_def)
    have "dealt e th p s1 (p \<notin> set (dyn s2 th e)) s2" using s2(3) that unfolding swept_def by blast
    then show ?thesis by (simp only: eq)
  qed
  moreover have "static_dealt th s s2 p" if "p \<in> set ?ss" for p
  proof (cases "p \<in> ?P")
    case True
    then show ?thesis using dyn_listener(2) [OF w(1)] by (simp add: static_dealt_def)
  next
    case False
    then have "m_procs s2 p = m_procs s1 p" "runnable_proc th p s2 = runnable_proc th p s1" using s2(3) by (simp_all add: swept_def)
    moreover have "static_dealt th s s1 p" using s1(4) that by simp
    ultimately show ?thesis by (cases th) (simp_all add: static_dealt_def)
  qed
  moreover have "m_procs s2 p = m_procs s p"
    if "m_is_thread (m_procs s p) \<noteq> th \<or> (m_trigger_type (m_procs s p) \<noteq> STATIC \<and> p \<notin> ?P)" for p
    using that s1(3) s2(3) dyn_listener(1) [OF w(1), of p th e] unfolding stirred_def swept_def by metis
  moreover have "runnable_proc th' p s2 = runnable_proc th' p s"
    if "th' \<noteq> th \<or> (m_trigger_type (m_procs s p) \<noteq> STATIC \<and> p \<notin> ?P)" for th' p
    using that s1(3) s2(3) unfolding stirred_def swept_def by metis
  ultimately have "half_done th e s s2"
    using s2(3) loop_inv_end(3) [OF s2(2)] pend to curr ev kind2 unfolding half_done_def swept_def by simp
  moreover have "half th e s = Inr s2" using s1(1) s2(1) by (simp add: half_def)
  ultimately show ?thesis by blast
qed

lemma trigger_halves:
  "trigger e s = bind_result (half False e s) (\<lambda>s1. bind_result (half True e s1) (\<lambda>s2.
     Inr (upd_event e (\<lambda>ev. ev\<lparr>m_notify_type := NONE, m_delta_event_index := - 1, m_timed := None\<rparr>) s2)))"
proof -
  have "bind_result (bind_result r f) g = bind_result r (\<lambda>x. bind_result (f x) g)"
    for r :: "'a processes_scheme result" and f g :: "'a processes_scheme \<Rightarrow> 'a processes_scheme result"
    by (cases r) simp_all
  then show ?thesis by (simp add: trigger_def half_def dyn_list_def)
qed

lemma settle_event:
  assumes "idle_ok e s"
  shows "notifier_ok (upd_event e (\<lambda>ev. ev\<lparr>m_notify_type := NONE, m_delta_event_index := - 1, m_timed := None\<rparr>) s)"
proof -
  let ?s' = "upd_event e (\<lambda>ev. ev\<lparr>m_notify_type := NONE, m_delta_event_index := - 1, m_timed := None\<rparr>) s"
  have "delta_ok (settle e s)" "timed_ok (settle e s)" using assms by (simp_all add: idle_ok_def notifier_ok_def)
  then have "delta_ok ?s'" "timed_ok ?s'"
    by - (rule delta_ok_cong, assumption, auto split: if_splits, rule timed_ok_cong, assumption, auto split: if_splits)
  then show ?thesis by (simp add: notifier_ok_def)
qed

definition event_done :: "nat \<Rightarrow> 'z processes_scheme \<Rightarrow> 'z processes_scheme \<Rightarrow> bool" where
  "event_done e s s' \<longleftrightarrow> waiting_ok s' \<and> notifier_ok s' \<and>
     (\<forall>x. x \<notin> timeouts s \<longrightarrow> pending s' x = (if x = e then Idle else pending s x)) \<and>
     (\<forall>th. \<forall>p\<in>set (dyn s th e). dealt e th p s (p \<notin> set (dyn s' th e)) s') \<and>
     (\<forall>p. m_trigger_type (m_procs s p) \<noteq> STATIC \<and> (\<forall>th. p \<notin> set (dyn s th e)) \<longrightarrow>
        m_procs s' p = m_procs s p \<and> (\<forall>th. runnable_proc th p s' = runnable_proc th p s)) \<and>
     (\<forall>p\<in>set (m_methods_static (m_events s e)). static_dealt False s s' p) \<and>
     (\<forall>p\<in>set (m_threads_static (m_events s e)). static_dealt True s s' p)"

lemma both_halves:
  assumes w: "waiting_ok s" and m: "half_done False e s s1" and t: "half_done True e s1 s2"
  shows "\<forall>p\<in>set (dyn s th e). dealt e th p s (p \<notin> set (dyn s2 th e)) s2"
    "m_trigger_type (m_procs s p) \<noteq> STATIC \<Longrightarrow> \<forall>th. p \<notin> set (dyn s th e) \<Longrightarrow>
      m_procs s2 p = m_procs s p \<and> runnable_proc th p s2 = runnable_proc th p s"
    "\<forall>p\<in>set (m_methods_static (m_events s e)). static_dealt False s s2 p"
    "\<forall>p\<in>set (m_threads_static (m_events s e)). static_dealt True s s2 p"
proof -
  have w1: "waiting_ok s1" using m by (simp add: half_done_def)
  have curr: "m_curr_proc s1 = m_curr_proc s" using m by (simp add: half_done_def)
  have d1: "dyn s1 True e = dyn s True e" and d2: "dyn s2 False e = dyn s1 False e" using m t by (simp_all add: half_done_def)
  have other1: "m_procs s1 p = m_procs s p" if "m_is_thread (m_procs s p)" for p using m that by (simp add: half_done_def)
  have run1: "runnable_proc True p s1 = runnable_proc True p s" for p using m by (simp add: half_done_def)
  have run2: "runnable_proc False p s2 = runnable_proc False p s1" for p using t by (simp add: half_done_def)
  have other2: "m_procs s2 p = m_procs s1 p" if "\<not> m_is_thread (m_procs s1 p)" for p using t that by (simp add: half_done_def)
  have kind1: "m_is_thread (m_procs s1 p) = m_is_thread (m_procs s p)" for p using m by (simp add: half_done_def)
  have methods: "dealt e False p s (p \<notin> set (dyn s2 False e)) s2" if p: "p \<in> set (dyn s False e)" for p
  proof (rule dealt_after)
    show "dealt e False p s (p \<notin> set (dyn s2 False e)) s1" unfolding d2 using m p by (simp add: half_done_def)
    show k: "m_is_thread (m_procs s p) = False" using dyn_listener(1) [OF w p] .
    then show "m_procs s2 p = m_procs s1 p" using other2 kind1 by simp
  qed (rule run2)
  show "\<forall>p\<in>set (dyn s th e). dealt e th p s (p \<notin> set (dyn s2 th e)) s2"
  proof (cases th)
    case False
    then show ?thesis using methods by simp
  next
    case True
    have "dealt e True p s (p \<notin> set (dyn s2 True e)) s2" if p: "p \<in> set (dyn s True e)" for p
    proof -
      have eq: "dealt e True p s1 fin s2 = dealt e True p s fin s2" for fin
        using other1 [OF dyn_listener(1) [OF w p, simplified]] curr by (simp add: dealt_def handed_over_def)
      have "dealt e True p s1 (p \<notin> set (dyn s2 True e)) s2" using t p d1 unfolding half_done_def by simp
      then show ?thesis by (simp only: eq)
    qed
    then show ?thesis using True by simp
  qed
  show "m_procs s2 p = m_procs s p \<and> runnable_proc th p s2 = runnable_proc th p s"
    if p: "m_trigger_type (m_procs s p) \<noteq> STATIC" "\<forall>th. p \<notin> set (dyn s th e)"
  proof -
    have "m_procs s1 p = m_procs s p" "runnable_proc th p s1 = runnable_proc th p s" using m p by (simp_all add: half_done_def)
    moreover have "m_procs s2 p = m_procs s1 p" "runnable_proc th p s2 = runnable_proc th p s1"
      using t p d1 calculation(1) by (simp_all add: half_done_def)
    ultimately show ?thesis by simp
  qed
  have static: "m_threads_static (m_events s1 e) = m_threads_static (m_events s e)" using m by (simp add: half_done_def)
  have ks: "\<not> m_is_thread (m_procs s p)" if "p \<in> set (m_methods_static (m_events s e))" for p using w that by (simp add: waiting_ok_def)
  have kt: "m_is_thread (m_procs s p)" if "p \<in> set (m_threads_static (m_events s e))" for p using w that by (simp add: waiting_ok_def)
  show "\<forall>p\<in>set (m_methods_static (m_events s e)). static_dealt False s s2 p"
  proof
    fix p assume p: "p \<in> set (m_methods_static (m_events s e))"
    have "static_dealt False s s1 p" using m p by (simp add: half_done_def)
    then show "static_dealt False s s2 p" using other2 [of p] ks [OF p] kind1 run2 by (simp add: static_dealt_def)
  qed
  show "\<forall>p\<in>set (m_threads_static (m_events s e)). static_dealt True s s2 p"
  proof
    fix p assume p: "p \<in> set (m_threads_static (m_events s e))"
    have "static_dealt True s1 s2 p" using t p static by (simp add: half_done_def)
    then show "static_dealt True s s2 p" using other1 [OF kt [OF p]] curr by (simp add: static_dealt_def)
  qed
qed

lemma trigger_ok:
  assumes w: "waiting_ok s" "idle_ok e s"
  shows "\<exists>s'. trigger e s = Inr s' \<and> event_done e s s'"
proof -
  obtain s1 where s1: "half False e s = Inr s1" "half_done False e s s1" using half_ok [OF w] by blast
  have w1: "waiting_ok s1" "idle_ok e s1" using s1(2) by (simp_all add: half_done_def)
  obtain s2 where s2: "half True e s1 = Inr s2" "half_done True e s1 s2" using half_ok [OF w1] by blast
  define f where "f = (\<lambda>ev. ev\<lparr>m_notify_type := NONE, m_delta_event_index := - 1, m_timed := None\<rparr> :: sc_event)"
  define s' where "s' = upd_event e f s2"
  have dyn: "dyn s' th x = dyn s2 th x" for th x by (simp add: s'_def f_def dyn_list_def)
  have st: "m_methods_static (m_events s' x) = m_methods_static (m_events s2 x)"
    "m_threads_static (m_events s' x) = m_threads_static (m_events s2 x)" for x by (simp_all add: s'_def f_def)
  have pr: "m_procs s' = m_procs s2" "m_curr_proc s' = m_curr_proc s2" "m_event_lists s' = m_event_lists s2"
    "m_runnable s' = m_runnable s2" by (simp_all add: s'_def)
  have run: "runnable_proc th p s' = runnable_proc th p s2" for th p using pr by (simp add: runnable_proc_def proc_queue_of_def)
  have sens: "sens_ok W s' = sens_ok W s2" for W
    by (simp add: sens_ok_def lists_ok_def timeouts_ok_def queues_ok_def users_def timeouts_def proc_queue_of_def run pr)
  have w2: "waiting_ok s2" "idle_ok e s2" using s2(2) by (simp_all add: half_done_def)
  then have "waiting_ok s'" by (simp add: waiting_ok_def sens dyn st pr)
  moreover have "notifier_ok s'" using settle_event [OF w2(2)] by (simp add: s'_def f_def)
  moreover have "pending s' x = (if x = e then Idle else pending s x)" if x: "x \<notin> timeouts s" for x
  proof -
    have "timeouts s1 = timeouts s" using s1(2) by (simp add: half_done_def)
    then have "pending s2 x = pending s x" if "x \<noteq> e" using s1(2) s2(2) x that by (simp add: half_done_def)
    moreover have "pending s' x = (if x = e then Idle else pending s2 x)"
      by (simp add: s'_def f_def pending_def split: notify_t.split)
    ultimately show ?thesis by simp
  qed
  moreover have "dealt e th p s fin s' = dealt e th p s fin s2" for th p fin
    using pr run by (simp add: dealt_def handed_over_def)
  moreover have "static_dealt th s s' p = static_dealt th s s2 p" for th p using pr run by (simp add: static_dealt_def)
  ultimately have "event_done e s s'"
    using both_halves [OF w(1) s1(2) s2(2)] unfolding event_done_def by (simp add: dyn run pr)
  moreover have "trigger e s = Inr s'" using s1(1) s2(1) by (simp add: trigger_halves s'_def f_def)
  ultimately show ?thesis by blast
qed

text \<open>Waiting does not depend on the notifications.\<close>

lemma waiting_ok_kept:
  assumes "waiting_ok s" "kept s s1"
  shows "waiting_ok s1"
proof -
  have more: "notifier.more s1 = notifier.more s" and ls: "\<And>x. listeners (m_events s1 x) = listeners (m_events s x)"
    using assms(2) by (simp_all add: kept_def)
  note m = more_procs [OF more]
  have "dyn s1 th x = dyn s th x" for th x using dyn_listeners [OF ls] .
  moreover have "sens_ok W s1 = sens_ok W s" for W
    using m by (simp add: sens_ok_def lists_ok_def timeouts_ok_def queues_ok_def users_def timeouts_def proc_queue_of_def
        runnable_proc_def)
  moreover have "m_methods_static (m_events s1 x) = m_methods_static (m_events s x)"
    "m_threads_static (m_events s1 x) = m_threads_static (m_events s x)" for x
    using ls [of x] by (simp_all add: listeners_def)
  ultimately show "waiting_ok s1" using assms(1) m by (simp add: waiting_ok_def)
qed

lemma cancel_waiting:
  assumes "waiting_ok s" "notifier_ok s"
  shows "\<exists>s1. cancel e s = Inr s1 \<and> waiting_ok s1 \<and> idle_ok e s1 \<and> pending s1 = (pending s)(e := Idle) \<and>
    m_procs s1 = m_procs s \<and> m_curr_proc s1 = m_curr_proc s \<and> m_runnable s1 = m_runnable s \<and>
    (\<forall>x. listeners (m_events s1 x) = listeners (m_events s x))"
proof -
  obtain s1 where s1: "cancel e s = Inr s1" "notifier_ok s1" "pending s1 = (pending s)(e := Idle)" "kept s s1"
    using cancel_achieves [OF assms(2)] by (auto simp: achieves_def)
  have ls: "\<And>x. listeners (m_events s1 x) = listeners (m_events s x)" using s1(4) by (simp add: kept_def)
  have "notifier.more s1 = notifier.more s" using s1(4) by (simp add: kept_def)
  note m = more_procs [OF this]
  have "ntype s1 e = NONE" using s1(3) by (simp add: ntype_Idle [symmetric])
  then have "idle_ok e s1" using s1(2) by (simp add: idle_ok_NONE)
  then show ?thesis using s1 m ls waiting_ok_kept [OF assms(1) s1(4)] by blast
qed

end
