(* ===== verification/Sc_Wait_Facts.thy ===== *)
theory Sc_Wait_Facts
  imports Sc_Trigger_Loop
begin

text \<open>
  Waiting: every kind of \<open>wait\<close> puts the process into the lists of exactly the events it waits for and
  keeps the lists consistent.
\<close>

section \<open>Entering the lists of events\<close>

definition entered :: "bool \<Rightarrow> nat \<Rightarrow> nat set \<Rightarrow> 'z notifier_scheme \<Rightarrow> 'z notifier_scheme \<Rightarrow> bool" where
  "entered th p D s s' \<longleftrightarrow>
     (\<forall>th' x. dyn s' th' x = (if th' = th \<and> x \<in> D then dyn s th' x @ [p] else dyn s th' x)) \<and>
     (\<forall>x. m_methods_static (m_events s' x) = m_methods_static (m_events s x) \<and>
        m_threads_static (m_events s' x) = m_threads_static (m_events s x))"

text \<open>\<open>q\<close> is the process after the call; it has entered the list \<open>l\<close>, if any.\<close>

definition joined :: "nat \<Rightarrow> sc_process \<Rightarrow> 'z processes_scheme \<Rightarrow> 'z processes_scheme \<Rightarrow> bool" where
  "joined p q s s' \<longleftrightarrow> (case m_event_list_p q of
       None \<Rightarrow> m_event_lists s' = m_event_lists s
     | Some l \<Rightarrow> \<exists>el. m_event_lists s l = Some el \<and> m_event_lists s' = (m_event_lists s)(l \<mapsto> el\<lparr>m_busy := m_busy el + 1\<rparr>))"

lemma joined_events: "joined p q s s' \<Longrightarrow> map_option l_events (m_event_lists s' l) = map_option l_events (m_event_lists s l)"
  by (auto simp: joined_def split: option.splits)

lemma register:
  assumes w: "waiting_ok s" and p: "m_trigger_type (m_procs s p) = STATIC" "m_is_thread (m_procs s p) = th" "\<not> runnable_proc th p s"
    and en: "entered th p D s s'" and q: "m_procs s' = (m_procs s)(p := q)" "m_is_thread q = th"
      "m_timeout_event_p q = m_timeout_event_p (m_procs s p)"
      "\<And>e. m_event_p q = Some e \<Longrightarrow> e \<notin> timeouts s"
    and jo: "joined p q s s'" and ex: "expects (m_event_lists s') q D" and run: "m_runnable s' = m_runnable s"
  shows "waiting_ok s'"
proof -
  let ?W = "\<lambda>th x. set (dyn s th x)"
  have sens: "sens_ok ?W s" and dist: "\<And>th x. distinct (dyn s th x)" using w by (simp_all add: waiting_ok_def)
  note d = sens_okD [OF sens]
  have out: "p \<notin> set (dyn s th' x)" for th' x using dyn_listener(2) [OF w] p(1) by blast
  have mem: "x \<in> set (dyn s' th' e) \<longleftrightarrow> x \<in> set (dyn s th' e) \<or> (th' = th \<and> e \<in> D \<and> x = p)" for x th' e
  proof -
    have "dyn s' th' e = (if th' = th \<and> e \<in> D then dyn s th' e @ [p] else dyn s th' e)" using en by (simp add: entered_def)
    then show ?thesis by auto
  qed
  have kind: "m_is_thread (m_procs s' x) = m_is_thread (m_procs s x)" for x using q(1,2) p(2) by simp
  have to: "timeouts s' = timeouts s" using q(1,3) by (simp add: timeouts_def image_def) (metis fun_upd_apply)
  have te: "m_timeout_event_p (m_procs s' x) = m_timeout_event_p (m_procs s x)" for x using q(1,3) by simp
  have rq: "runnable_proc th x s' = runnable_proc th x s" "proc_queue_of th s' = proc_queue_of th s" for th x
    using run by (simp_all add: runnable_proc_def proc_queue_of_def)
  have nl: "m_event_list_p (m_procs s p) = None" using d(1) [of p] p(1) by (simp add: expects_def)
  have "lists_ok s'" unfolding lists_ok_def
  proof (intro allI impI)
    fix l el assume el: "m_event_lists s' l = Some el"
    then obtain el0 where el0: "m_event_lists s l = Some el0" "l_events el = l_events el0"
      "m_busy el = (if m_event_list_p q = Some l then m_busy el0 + 1 else m_busy el0)"
      using jo by (auto simp: joined_def split: option.splits if_splits)
    have "users s' l = (if m_event_list_p q = Some l then insert p (users s l) else users s l)"
      using q(1) nl by (auto simp: users_def)
    moreover have "distinct (l_events el0)" "set (l_events el0) \<inter> timeouts s = {}" "finite (users s l)" "card (users s l) \<le> m_busy el0"
      using d(4) el0(1) by (auto simp: lists_ok_def)
    ultimately show "distinct (l_events el) \<and> set (l_events el) \<inter> timeouts s' = {} \<and> finite (users s' l) \<and>
      card (users s' l) \<le> m_busy el" using el0 to by (auto simp: card_insert_if)
  qed
  moreover have "timeouts_ok s'" unfolding timeouts_ok_def te to
  proof (intro conjI allI impI)
    show "inj (\<lambda>x. m_timeout_event_p (m_procs s x))" using d(5) by (simp add: timeouts_ok_def)
    fix x e assume "m_event_p (m_procs s' x) = Some e"
    then show "e \<notin> timeouts s" using q(1,4) d(5) by (cases "x = p") (auto simp: timeouts_ok_def)
  qed
  moreover have "queues_ok s'" using d(6) kind rq by (simp add: queues_ok_def)
  moreover have "expects (m_event_lists s') (m_procs s' x) {e. x \<in> set (dyn s' (m_is_thread (m_procs s' x)) e)}" for x
  proof (cases "x = p")
    case True
    have "{e. p \<in> set (dyn s' th e)} = D" using out by (simp add: mem)
    then show ?thesis using True q(1,2) ex by simp
  next
    case False
    then have eq: "m_procs s' x = m_procs s x" using q(1) by simp
    have "{e. x \<in> set (dyn s' th' e)} = {e. x \<in> set (dyn s th' e)}" for th' using False unfolding mem by simp
    moreover have "expects (m_event_lists s') (m_procs s x) A = expects (m_event_lists s) (m_procs s x) A" for A
      by (rule expects_cong) (rule joined_events [OF jo])
    ultimately show ?thesis unfolding eq by (simp only: d(1))
  qed
  moreover have "x \<notin> set (dyn s' (\<not> m_is_thread (m_procs s' x)) e)" for x e
  proof -
    have "x \<notin> set (dyn s (\<not> m_is_thread (m_procs s x)) e)" using d(2) by blast
    moreover have "\<not> ((\<not> m_is_thread (m_procs s x)) = th \<and> x = p)" using p(2) by auto
    ultimately show ?thesis unfolding mem kind by blast
  qed
  moreover have "\<not> runnable_proc (m_is_thread (m_procs s' x)) x s'" if "m_trigger_type (m_procs s' x) \<noteq> STATIC" for x
    using d(3) [of x] that q(1,2) kind rq p(3) by (cases "x = p") auto
  ultimately have "sens_ok (\<lambda>th x. set (dyn s' th x)) s'" unfolding sens_ok_def by blast
  moreover have "distinct (dyn s' th' x)" for th' x using en dist out by (simp add: entered_def)
  ultimately show ?thesis using w en kind by (simp add: waiting_ok_def entered_def)
qed

section \<open>The operations\<close>

lemma notifier_ok_cong:
  assumes "notifier_ok s" "m_delta_events s' = m_delta_events s" "m_timed_events s' = m_timed_events s"
    "m_timed_objs s' = m_timed_objs s" "m_next_obj s' = m_next_obj s" "\<And>x. ntype s' x = ntype s x"
    "\<And>x. m_delta_event_index (m_events s' x) = m_delta_event_index (m_events s x)"
    "\<And>x. m_timed (m_events s' x) = m_timed (m_events s x)"
  shows "notifier_ok s'"
proof -
  have "delta_ok s" "timed_ok s" using assms(1) by (simp_all add: notifier_ok_def)
  then have "delta_ok s'" "timed_ok s'"
    by - (rule delta_ok_cong, assumption, simp_all add: assms, rule timed_ok_cong, assumption, simp_all add: assms)
  then show ?thesis by (simp add: notifier_ok_def)
qed

definition same_procs :: "'z processes_scheme \<Rightarrow> 'z processes_scheme \<Rightarrow> bool" where
  "same_procs s s' \<longleftrightarrow> m_procs s' = m_procs s \<and> m_runnable s' = m_runnable s \<and> m_curr_proc s' = m_curr_proc s \<and>
     m_execution_phase s' = m_execution_phase s"

lemma entered_trans: "entered th p D s s1 \<Longrightarrow> entered th p D' s1 s2 \<Longrightarrow> D \<inter> D' = {} \<Longrightarrow> entered th p (D \<union> D') s s2"
  unfolding entered_def by (auto simp: disjoint_iff)

lemma add_dynamic_entered:
  "entered th p {e} s (event_add_dynamic th p e s)" "same_procs s (event_add_dynamic th p e s)"
  "m_event_lists (event_add_dynamic th p e s) = m_event_lists s"
  "notifier_ok s \<Longrightarrow> notifier_ok (event_add_dynamic th p e s)"
  "pending (event_add_dynamic th p e s) = pending s"
proof -
  have "m_events (event_add_dynamic th p e s) x = (if x = e then (if th then add_dynamic_thread p else add_dynamic_method p) (m_events s e)
      else m_events s x)" for x by (simp add: event_add_dynamic_def)
  then show "entered th p {e} s (event_add_dynamic th p e s)"
    by (auto simp: entered_def dyn_list_def add_dynamic_thread_def add_dynamic_method_def)
  show "same_procs s (event_add_dynamic th p e s)" "m_event_lists (event_add_dynamic th p e s) = m_event_lists s"
    by (simp_all add: same_procs_def event_add_dynamic_def)
  show "pending (event_add_dynamic th p e s) = pending s"
    by (intro ext) (simp add: pending_def event_add_dynamic_def add_dynamic_thread_def add_dynamic_method_def split: notify_t.split)
  show "notifier_ok (event_add_dynamic th p e s)" if "notifier_ok s"
    by (rule notifier_ok_cong [OF that]) (simp_all add: event_add_dynamic_def add_dynamic_thread_def add_dynamic_method_def)
qed

lemma add_all_entered:
  assumes "distinct es"
  shows "entered th p (set es) s (fold (event_add_dynamic th p) es s) \<and> same_procs s (fold (event_add_dynamic th p) es s) \<and>
    m_event_lists (fold (event_add_dynamic th p) es s) = m_event_lists s \<and>
    (notifier_ok s \<longrightarrow> notifier_ok (fold (event_add_dynamic th p) es s)) \<and>
    pending (fold (event_add_dynamic th p) es s) = pending s"
  using assms
proof (induction es arbitrary: s)
  case Nil
  then show ?case by (simp add: entered_def same_procs_def)
next
  case (Cons e es)
  have "entered th p ({e} \<union> set es) s (fold (event_add_dynamic th p) es (event_add_dynamic th p e s))"
    by (rule entered_trans [OF add_dynamic_entered(1)]) (use Cons in simp_all)
  then show ?case using Cons add_dynamic_entered(2-5) [where s = s and th = th and p = p and e = e] by (auto simp: same_procs_def)
qed

lemma list_add_entered:
  assumes "distinct (l_events el)" "notifier_ok s" "m_event_lists s l = Some el"
  shows "\<exists>s'. list_add_dynamic th p l s = Inr s' \<and> entered th p (set (l_events el)) s s' \<and> same_procs s s' \<and>
    m_event_lists s' = (m_event_lists s)(l \<mapsto> el\<lparr>m_busy := m_busy el + 1\<rparr>) \<and> notifier_ok s' \<and>
    pending s' = pending s"
proof -
  let ?s1 = "set_list l (Some (el\<lparr>m_busy := m_busy el + 1\<rparr>)) s"
  have d: "distinct (rev (l_events el))" using assms(1) by simp
  have "notifier_ok ?s1" by (rule notifier_ok_cong [OF assms(2)]) simp_all
  moreover have "pending ?s1 = pending s" by (intro ext) (simp add: pending_def split: notify_t.split)
  ultimately show ?thesis
    using add_all_entered [OF d, of th p ?s1] assms(3) by (auto simp: list_add_dynamic_def list_at_def entered_def same_procs_def)
qed

lemma start_timeout_entered:
  assumes "notifier_ok s" "ntype s (m_timeout_event_p (m_procs s p)) = NONE"
  shows "\<exists>s'. start_timeout th t p s = Inr s' \<and> entered th p {m_timeout_event_p (m_procs s p)} s s' \<and> same_procs s s' \<and>
    m_event_lists s' = m_event_lists s \<and> notifier_ok s' \<and> pending s' (m_timeout_event_p (m_procs s p)) = requested t s"
proof -
  let ?te = "m_timeout_event_p (m_procs s p)"
  obtain s1 where s1: "notify_internal t ?te s = Inr s1" "notifier_ok s1" "pending s1 = (pending s)(?te := requested t s)" "kept s s1"
    using notify_internal_achieves [OF assms] by (auto simp: achieves_def)
  have more: "notifier.more s1 = notifier.more s" and ls: "\<And>x. listeners (m_events s1 x) = listeners (m_events s x)"
    using s1(4) by (simp_all add: kept_def)
  let ?s2 = "event_add_dynamic th p ?te s1"
  have "entered th p {} s s1" using ls dyn_listeners [OF ls] by (simp add: entered_def) (simp add: listeners_def)
  then have "entered th p {?te} s ?s2" using entered_trans [OF _ add_dynamic_entered(1)] by fastforce
  moreover have "same_procs s ?s2" using add_dynamic_entered(2) [where s = s1 and th = th and p = p and e = ?te] more_procs [OF more] s1(4)
    by (simp add: same_procs_def kept_def)
  moreover have "m_event_lists ?s2 = m_event_lists s" using add_dynamic_entered(3) [where s = s1 and th = th and p = p and e = ?te] more_procs [OF more] by simp
  moreover have "pending ?s2 ?te = requested t s"
    using s1(3) by (simp add: add_dynamic_entered(5))
  ultimately show ?thesis using s1(1) add_dynamic_entered(4) [OF s1(2)] by (simp add: start_timeout_def Let_def)
qed

text \<open>The seven kinds of waiting, as data.\<close>

datatype wait_spec = On_event nat | On_any nat | On_all nat | For_time sc_time | On_event_for sc_time nat
  | On_any_for sc_time nat | On_all_for sc_time nat

fun wait_on :: "bool \<Rightarrow> wait_spec \<Rightarrow> nat \<Rightarrow> 'z processes_scheme \<Rightarrow> 'z processes_scheme result" where
  "wait_on th (On_event e) = wait_event th e"
| "wait_on th (On_any l) = wait_or_list th l"
| "wait_on th (On_all l) = wait_and_list th l"
| "wait_on th (For_time t) = wait_time th t"
| "wait_on th (On_event_for t e) = wait_time_event th t e"
| "wait_on th (On_any_for t l) = wait_time_or_list th t l"
| "wait_on th (On_all_for t l) = wait_time_and_list th t l"

definition members :: "nat \<Rightarrow> 'z processes_scheme \<Rightarrow> nat set" where
  "members l s = (case m_event_lists s l of None \<Rightarrow> {} | Some el \<Rightarrow> set (l_events el))"

fun awaited :: "wait_spec \<Rightarrow> nat \<Rightarrow> 'z processes_scheme \<Rightarrow> nat set" where
  "awaited (On_event e) p s = {e}"
| "awaited (On_any l) p s = members l s"
| "awaited (On_all l) p s = members l s"
| "awaited (For_time t) p s = {m_timeout_event_p (m_procs s p)}"
| "awaited (On_event_for t e) p s = {m_timeout_event_p (m_procs s p), e}"
| "awaited (On_any_for t l) p s = insert (m_timeout_event_p (m_procs s p)) (members l s)"
| "awaited (On_all_for t l) p s = insert (m_timeout_event_p (m_procs s p)) (members l s)"

text \<open>The lists exist, an AND list is not empty, events are no time-out events, the time-out event is idle.\<close>

definition timer_free :: "nat \<Rightarrow> 'z processes_scheme \<Rightarrow> bool" where
  "timer_free p s \<longleftrightarrow> ntype s (m_timeout_event_p (m_procs s p)) = NONE"

fun admissible :: "wait_spec \<Rightarrow> nat \<Rightarrow> 'z processes_scheme \<Rightarrow> bool" where
  "admissible (On_event e) p s \<longleftrightarrow> e \<notin> timeouts s"
| "admissible (On_any l) p s \<longleftrightarrow> m_event_lists s l \<noteq> None"
| "admissible (On_all l) p s \<longleftrightarrow> m_event_lists s l \<noteq> None \<and> members l s \<noteq> {}"
| "admissible (For_time t) p s \<longleftrightarrow> timer_free p s"
| "admissible (On_event_for t e) p s \<longleftrightarrow> timer_free p s \<and> e \<notin> timeouts s"
| "admissible (On_any_for t l) p s \<longleftrightarrow> timer_free p s \<and> m_event_lists s l \<noteq> None"
| "admissible (On_all_for t l) p s \<longleftrightarrow> timer_free p s \<and> m_event_lists s l \<noteq> None \<and> members l s \<noteq> {}"

definition can_wait :: "bool \<Rightarrow> nat \<Rightarrow> 'z processes_scheme \<Rightarrow> bool" where
  "can_wait th p s \<longleftrightarrow> waiting_ok s \<and> notifier_ok s \<and> m_trigger_type (m_procs s p) = STATIC \<and>
     m_is_thread (m_procs s p) = th \<and> \<not> runnable_proc th p s"

fun trigger_kind :: "wait_spec \<Rightarrow> trigger_t" where
  "trigger_kind (On_event e) = EVENT"
| "trigger_kind (On_any l) = OR_LIST"
| "trigger_kind (On_all l) = AND_LIST"
| "trigger_kind (For_time t) = TIMEOUT"
| "trigger_kind (On_event_for t e) = EVENT_TIMEOUT"
| "trigger_kind (On_any_for t l) = OR_LIST_TIMEOUT"
| "trigger_kind (On_all_for t l) = AND_LIST_TIMEOUT"

definition registered :: "bool \<Rightarrow> nat \<Rightarrow> nat set \<Rightarrow> trigger_t \<Rightarrow> 'z processes_scheme \<Rightarrow> 'z processes_scheme \<Rightarrow> bool" where
  "registered th p D k s s' \<longleftrightarrow> waiting_ok s' \<and> notifier_ok s' \<and> entered th p D s s' \<and>
     m_trigger_type (m_procs s' p) = k \<and> (\<forall>x. x \<noteq> p \<longrightarrow> m_procs s' x = m_procs s x) \<and> m_runnable s' = m_runnable s \<and>
     m_curr_proc s' = m_curr_proc s \<and> m_execution_phase s' = m_execution_phase s \<and>
     ps_disabled (m_procs s' p) = ps_disabled (m_procs s p) \<and> ps_suspended (m_procs s' p) = ps_suspended (m_procs s p) \<and>
     m_is_thread (m_procs s' p) = th"

lemma wait_finish:
  assumes c: "can_wait th p s" and en: "entered th p D s s1" "same_procs s s1" "notifier_ok s1"
    and q: "m_is_thread (f (m_procs s p)) = th" "m_timeout_event_p (f (m_procs s p)) = m_timeout_event_p (m_procs s p)"
      "\<And>e. m_event_p (f (m_procs s p)) = Some e \<Longrightarrow> e \<notin> timeouts s" "m_trigger_type (f (m_procs s p)) = k"
      "ps_disabled (f (m_procs s p)) = ps_disabled (m_procs s p)" "ps_suspended (f (m_procs s p)) = ps_suspended (m_procs s p)"
    and jo: "joined p (f (m_procs s p)) s s1" and ex: "expects (m_event_lists s1) (f (m_procs s p)) D"
  shows "registered th p D k s (upd_proc p f s1)"
proof -
  let ?s' = "upd_proc p f s1"
  have pr: "m_procs ?s' = (m_procs s)(p := f (m_procs s p))" using en(2) by (simp add: same_procs_def)
  have en': "entered th p D s ?s'" using en(1) by (simp add: entered_def)
  have jo': "joined p (f (m_procs s p)) s ?s'" using jo by (simp add: joined_def split: option.splits)
  have "waiting_ok ?s'"
    by (rule register [OF _ _ _ _ en' pr q(1-3) jo'])
      (use c en(2) ex in \<open>simp_all add: can_wait_def same_procs_def\<close>)
  moreover have "notifier_ok ?s'" by (rule notifier_ok_cong [OF en(3)]) simp_all
  ultimately show ?thesis using en' pr q(1,4-) en(2) by (simp add: registered_def same_procs_def)
qed

lemma waiter:
  assumes c: "can_wait th p s"
  shows "m_event_list_p (m_procs s p) = None" "m_event_p (m_procs s p) = Some e \<Longrightarrow> e \<notin> timeouts s"
    "m_timeout_event_p (m_procs s p) \<in> timeouts s" "m_is_thread (m_procs s p) = th"
    "m_event_lists s l = Some el \<Longrightarrow> distinct (l_events el) \<and> set (l_events el) \<inter> timeouts s = {}"
proof -
  have s: "sens_ok (\<lambda>th x. set (dyn s th x)) s" using c by (simp add: can_wait_def waiting_ok_def)
  show "m_event_list_p (m_procs s p) = None" using sens_okD(1) [OF s, of p] c by (simp add: can_wait_def expects_def)
  show "m_event_p (m_procs s p) = Some e \<Longrightarrow> e \<notin> timeouts s" using sens_okD(5) [OF s] by (simp add: timeouts_ok_def)
  show "m_timeout_event_p (m_procs s p) \<in> timeouts s" by (simp add: timeouts_def)
  show "m_is_thread (m_procs s p) = th" using c by (simp add: can_wait_def)
  show "m_event_lists s l = Some el \<Longrightarrow> distinct (l_events el) \<and> set (l_events el) \<inter> timeouts s = {}"
    using sens_okD(4) [OF s] by (simp add: lists_ok_def)
qed

lemma wait_list_part:
  assumes c: "can_wait th p s" and s0: "entered th p D0 s s0" "same_procs s s0" "m_event_lists s0 = m_event_lists s" "notifier_ok s0"
    and D0: "D0 \<subseteq> timeouts s" and l: "m_event_lists s l = Some el"
  shows "\<exists>s1. list_add_dynamic th p l s0 = Inr s1 \<and> entered th p (D0 \<union> set (l_events el)) s s1 \<and> same_procs s s1 \<and>
    m_event_lists s1 = (m_event_lists s)(l \<mapsto> el\<lparr>m_busy := m_busy el + 1\<rparr>) \<and> notifier_ok s1 \<and> pending s1 = pending s0"
proof -
  have d: "distinct (l_events el)" "set (l_events el) \<inter> timeouts s = {}" using waiter(5) [OF c l] by simp_all
  obtain s1 where s1: "list_add_dynamic th p l s0 = Inr s1" "entered th p (set (l_events el)) s0 s1" "same_procs s0 s1"
    "m_event_lists s1 = (m_event_lists s0)(l \<mapsto> el\<lparr>m_busy := m_busy el + 1\<rparr>)" "notifier_ok s1" "pending s1 = pending s0"
    using list_add_entered [OF d(1) s0(4), of l th p] l s0(3) by auto
  moreover have "entered th p (D0 \<union> set (l_events el)) s s1" by (rule entered_trans [OF s0(1) s1(2)]) (use d(2) D0 in auto)
  moreover have "same_procs s s1" using s0(2) s1(3) by (simp add: same_procs_def)
  ultimately show ?thesis using s0(3) by (intro exI [of _ s1]) simp
qed

lemma wait_nothing: "can_wait th p s \<Longrightarrow> entered th p {} s s \<and> same_procs s s \<and> notifier_ok s"
  by (simp add: entered_def same_procs_def can_wait_def)

lemma wait_plain_ok:
  assumes c: "can_wait th p s" and a: "admissible w p s" and w: "w = On_event e \<or> w = On_any l \<or> w = On_all l"
  shows "\<exists>s'. wait_on th w p s = Inr s' \<and> registered th p (awaited w p s) (trigger_kind w) s s'"
proof -
  note wt = waiter [OF c]
  have n: "entered th p {} s s" "same_procs s s" "notifier_ok s" using wait_nothing [OF c] by auto
  show ?thesis
  proof (cases "w = On_event e")
    case True
    have s1: "entered th p {e} s (event_add_dynamic th p e s)" "same_procs s (event_add_dynamic th p e s)"
      "m_event_lists (event_add_dynamic th p e s) = m_event_lists s" "notifier_ok (event_add_dynamic th p e s)"
      by (simp_all add: add_dynamic_entered n(3))
    have "registered th p {e} EVENT s (upd_proc p (\<lambda>q. q\<lparr>m_event_p := Some e, m_trigger_type := EVENT\<rparr>) (event_add_dynamic th p e s))"
      by (rule wait_finish [OF c s1(1,2,4)]) (use wt a True s1(3) in \<open>simp_all add: joined_def expects_def\<close>)
    then show ?thesis using True by (simp add: wait_event_def)
  next
    case False
    then obtain el where el: "m_event_lists s l = Some el" "members l s = set (l_events el)" "w = On_all l \<Longrightarrow> l_events el \<noteq> []"
      using a w by (cases "m_event_lists s l") (auto simp: members_def)
    obtain s1 where s1: "list_add_dynamic th p l s = Inr s1" "entered th p (set (l_events el)) s s1" "same_procs s s1"
      "m_event_lists s1 = (m_event_lists s)(l \<mapsto> el\<lparr>m_busy := m_busy el + 1\<rparr>)" "notifier_ok s1"
      using wait_list_part [OF c n(1,2) refl n(3) _ el(1)] by auto
    have "distinct (l_events el)" using wt(5) [OF el(1)] by simp
    then have len: "length (l_events el) = card (set (l_events el))" by (simp add: distinct_card)
    have or: "registered th p (set (l_events el)) OR_LIST s (upd_proc p (\<lambda>q. q\<lparr>m_event_list_p := Some l, m_trigger_type := OR_LIST\<rparr>) s1)"
      by (rule wait_finish [OF c s1(2,3,5)]) (use wt s1(4) el(1) in \<open>simp_all add: joined_def expects_def list_events_def\<close>)
    have "registered th p (set (l_events el)) AND_LIST s (upd_proc p (\<lambda>q. q\<lparr>m_event_list_p := Some l,
        m_event_count := int (length (l_events el)), m_trigger_type := AND_LIST\<rparr>) s1)" if "l_events el \<noteq> []"
      by (rule wait_finish [OF c s1(2,3,5)])
        (use wt s1(4) el(1) len that in \<open>simp_all add: joined_def expects_def list_events_def\<close>)
    then show ?thesis using or False w el s1(1,4) by (auto simp: wait_or_list_def wait_and_list_def list_at_def)
  qed
qed

lemma pending_upd_proc [simp]: "pending (upd_proc p f s) = pending s"
  by (intro ext) (simp add: pending_def split: notify_t.split)

lemma wait_timed_ok:
  assumes c: "can_wait th p s" and a: "admissible w p s"
    and w: "w = For_time t \<or> w = On_event_for t e \<or> w = On_any_for t l \<or> w = On_all_for t l"
  shows "\<exists>s'. wait_on th w p s = Inr s' \<and> registered th p (awaited w p s) (trigger_kind w) s s' \<and>
    pending s' (m_timeout_event_p (m_procs s p)) = requested t s"
proof -
  note wt = waiter [OF c]
  let ?te = "m_timeout_event_p (m_procs s p)"
  have "notifier_ok s" "ntype s ?te = NONE" using c a w by (auto simp: can_wait_def timer_free_def)
  then obtain s0 where s0: "start_timeout th t p s = Inr s0" "entered th p {?te} s s0" "same_procs s s0"
    "m_event_lists s0 = m_event_lists s" "notifier_ok s0" "pending s0 ?te = requested t s"
    using start_timeout_entered [of s p th t] by auto
  consider (time) "w = For_time t" | (event) "w = On_event_for t e" | (list) "w = On_any_for t l \<or> w = On_all_for t l"
    using w by blast
  then show ?thesis
  proof cases
    case time
    have "registered th p {?te} TIMEOUT s (upd_proc p (m_trigger_type_update (\<lambda>_. TIMEOUT)) s0)"
      by (rule wait_finish [OF c s0(2,3,5)]) (use wt s0(4) in \<open>simp_all add: joined_def expects_def\<close>)
    then show ?thesis using time s0(1,6) by (simp add: wait_time_def)
  next
    case event
    let ?s1 = "event_add_dynamic th p e s0"
    have e: "e \<notin> timeouts s" "?te \<noteq> e" using a event wt(3) by auto
    have "entered th p ({?te} \<union> {e}) s ?s1" by (rule entered_trans [OF s0(2) add_dynamic_entered(1)]) (use e in simp)
    then have s1: "entered th p {?te, e} s ?s1" by (simp add: insert_commute)
    have s1': "same_procs s ?s1" "m_event_lists ?s1 = m_event_lists s" "notifier_ok ?s1" "pending ?s1 = pending s0"
      using add_dynamic_entered(2) [where s = s0 and th = th and p = p and e = e] s0(3,4)
      by (simp_all add: add_dynamic_entered(3-5) s0(5) same_procs_def)
    have "registered th p {?te, e} EVENT_TIMEOUT s (upd_proc p (\<lambda>q. q\<lparr>m_event_p := Some e, m_trigger_type := EVENT_TIMEOUT\<rparr>) ?s1)"
      by (rule wait_finish [OF c s1 s1'(1,3)])
        (use wt s1'(2) e(1) in \<open>simp_all add: joined_def expects_def insert_commute\<close>)
    then show ?thesis using event s0(1,6) s1'(4) by (simp add: wait_time_event_def)
  next
    case list
    then obtain el where el: "m_event_lists s l = Some el" "members l s = set (l_events el)" "w = On_all_for t l \<Longrightarrow> l_events el \<noteq> []"
      using a by (cases "m_event_lists s l") (auto simp: members_def)
    have "{?te} \<subseteq> timeouts s" using wt(3) by simp
    then obtain s1 where s1: "list_add_dynamic th p l s0 = Inr s1" "entered th p ({?te} \<union> set (l_events el)) s s1" "same_procs s s1"
      "m_event_lists s1 = (m_event_lists s)(l \<mapsto> el\<lparr>m_busy := m_busy el + 1\<rparr>)" "notifier_ok s1" "pending s1 = pending s0"
      using wait_list_part [OF c s0(2-5) _ el(1)] by blast
    have "distinct (l_events el)" using wt(5) [OF el(1)] by simp
    then have len: "length (l_events el) = card (set (l_events el))" by (simp add: distinct_card)
    have or: "registered th p ({?te} \<union> set (l_events el)) OR_LIST_TIMEOUT s
        (upd_proc p (\<lambda>q. q\<lparr>m_event_list_p := Some l, m_trigger_type := OR_LIST_TIMEOUT\<rparr>) s1)"
      by (rule wait_finish [OF c s1(2,3,5)]) (use wt s1(4) el(1) in \<open>simp_all add: joined_def expects_def list_events_def\<close>)
    have "expects (m_event_lists s1) ((m_procs s p)\<lparr>m_event_list_p := Some l, m_event_count := int (length (l_events el)),
        m_trigger_type := AND_LIST_TIMEOUT\<rparr>) ({?te} \<union> set (l_events el))" if "l_events el \<noteq> []"
      using expects_and_list(2) [of "(m_procs s p)\<lparr>m_event_list_p := Some l, m_event_count := int (length (l_events el)),
        m_trigger_type := AND_LIST_TIMEOUT\<rparr>" "m_event_lists s1" "set (l_events el)" "set (l_events el)"] s1(4) len that
      by (simp add: list_events_def)
    then have "registered th p ({?te} \<union> set (l_events el)) AND_LIST_TIMEOUT s (upd_proc p (\<lambda>q. q\<lparr>m_event_list_p := Some l,
        m_event_count := int (length (l_events el)), m_trigger_type := AND_LIST_TIMEOUT\<rparr>) s1)" if "l_events el \<noteq> []"
      by (intro wait_finish [OF c s1(2,3,5)]) (use wt s1(4) el(1) that in \<open>simp_all add: joined_def\<close>)
    then show ?thesis using or list el s0(1,6) s1(1,4,6)
      by (auto simp: wait_time_or_list_def wait_time_and_list_def list_at_def)
  qed
qed

lemma wait_on_ok:
  assumes "can_wait th p s" "admissible w p s"
  shows "\<exists>s'. wait_on th w p s = Inr s' \<and> registered th p (awaited w p s) (trigger_kind w) s s'"
proof (cases w)
  case (On_event e)
  then show ?thesis using wait_plain_ok [OF assms, of e] by blast
next
  case (On_any l)
  then show ?thesis using wait_plain_ok [OF assms] by blast
next
  case (On_all l)
  then show ?thesis using wait_plain_ok [OF assms] by blast
qed (use wait_timed_ok [OF assms] in blast)+

end
