(* ===== verification/Process_Properties.thy ===== *)
theory Process_Properties
  imports Sc_Wait_Facts
begin

text \<open>
  The properties of waiting and triggering, with a small system of processes as witness: the even
  processes are threads, the odd ones methods, and the odd events are the time-out events.
\<close>

section \<open>A system of processes\<close>

definition demo_queue :: "nat \<Rightarrow> proc_queue" where
  "demo_queue h = init_queue h new_queue"

definition demo_processes :: processes where
  "demo_processes = \<lparr>m_events = (\<lambda>_. new_event), m_timed_objs = (\<lambda>_. None), m_next_obj = 0, m_delta_events = [],
     m_timed_events = make_ppq 128, m_curr_time = 0, m_execution_phase = Phase_evaluate,
     m_procs = (\<lambda>p. new_process (even p) (2 * p + 1)),
     m_event_lists = (\<lambda>l. if l = 0 then Some \<lparr>l_events = [4, 6], m_and_list = False, m_auto_delete = True, m_busy = 0\<rparr> else None),
     m_runnable = \<lparr>m_methods = demo_queue 0, m_threads = demo_queue 1\<rparr>, m_curr_proc = None\<rparr>"

lemma demo_queue_rep: "queue_rep (demo_queue h) [] []"
  by (auto simp: demo_queue_def queue_rep_def init_queue_def new_queue_def set_next_runnable_def is_runnable_def)

lemma demo_ok: "waiting_ok demo_processes" "notifier_ok demo_processes"
proof -
  let ?s = demo_processes
  have to: "e \<in> timeouts ?s \<longleftrightarrow> odd e" for e by (auto simp: timeouts_def demo_processes_def new_process_def elim: oddE)
  have q: "proc_queue_of th ?s = demo_queue (if th then 1 else 0)" for th by (simp add: proc_queue_of_def demo_processes_def)
  have "queues_ok ?s" unfolding queues_ok_def q
    using demo_queue_rep by (auto simp: real_process_def demo_queue_def init_queue_def new_queue_def set_next_runnable_def
        demo_processes_def new_process_def odd_pos intro!: exI [of _ "[]"])
  moreover have "timeouts_ok ?s" unfolding timeouts_ok_def to by (simp add: demo_processes_def new_process_def inj_def)
  moreover have "lists_ok ?s" unfolding lists_ok_def
  proof (intro allI impI)
    fix l el assume "m_event_lists ?s l = Some el"
    then have el: "el = \<lparr>l_events = [4, 6], m_and_list = False, m_auto_delete = True, m_busy = 0\<rparr>"
      by (simp add: demo_processes_def split: if_splits)
    have "users ?s l = {}" by (simp add: users_def demo_processes_def new_process_def)
    then show "distinct (l_events el) \<and> set (l_events el) \<inter> timeouts ?s = {} \<and> finite (users ?s l) \<and> card (users ?s l) \<le> m_busy el"
      by (auto simp: el to)
  qed
  ultimately have "sens_ok (\<lambda>th x. set (dyn ?s th x)) ?s"
    by (simp add: sens_ok_def) (simp add: demo_processes_def new_process_def new_event_def dyn_list_def expects_def)
  then show "waiting_ok ?s" by (simp add: waiting_ok_def) (simp add: demo_processes_def new_event_def dyn_list_def)
  have "notifier_ok init_notifier" by (rule init_notifier_ok)
  then show "notifier_ok ?s"
    by (simp add: notifier_ok_def delta_ok_def timed_ok_def owned_def scheduled_def demo_processes_def init_notifier_def)
qed

lemma demo_can_wait: "even p \<Longrightarrow> can_wait True p demo_processes"
proof -
  assume p: "even p"
  then have "p \<noteq> 1" by auto
  then have "\<not> runnable_proc True p demo_processes" "m_trigger_type (m_procs demo_processes p) = STATIC"
    "m_is_thread (m_procs demo_processes p)"
    using p by (simp_all add: demo_processes_def new_process_def runnable_proc_def proc_queue_of_def
      demo_queue_def init_queue_def new_queue_def set_next_runnable_def is_runnable_def)
  then show ?thesis using demo_ok by (simp add: can_wait_def)
qed

section \<open>Properties\<close>

text \<open>
  C38: Waiting. A process that is running and calls any of the seven kinds of \<open>wait\<close> (or of
  \<open>next_trigger\<close>) is afterwards in the lists of exactly the events it waits for, once in each, and the
  bookkeeping of processes, event lists and notifications is consistent; no list overflows and nothing
  faults. The hypothesis \<open>admissible\<close> says that a list is alive, that an AND list is not empty, and that
  the time-out event is idle.
\<close>
theorem wait_registers:
  assumes "can_wait th p s" "admissible w p s"
  shows "\<exists>s'. wait_on th w p s = Inr s' \<and> waiting_ok s' \<and> notifier_ok s' \<and>
    (\<forall>th' x. dyn s' th' x = (if th' = th \<and> x \<in> awaited w p s then dyn s th' x @ [p] else dyn s th' x))"
  using wait_on_ok [OF assms] by (auto simp: registered_def entered_def)

theorem wait_registers_witness:
  "\<exists>s'. wait_on True (On_any_for 5 0) 2 demo_processes = Inr s' \<and> waiting_ok s' \<and> notifier_ok s' \<and>
    (\<forall>th' x. dyn s' th' x = (if th' = True \<and> x \<in> awaited (On_any_for 5 0) 2 demo_processes
      then dyn demo_processes th' x @ [2] else dyn demo_processes th' x))"
proof (rule wait_registers)
  show "can_wait True 2 demo_processes" by (rule demo_can_wait) simp
  show "admissible (On_any_for 5 0) 2 demo_processes"
    by (simp add: timer_free_def demo_processes_def new_event_def)
qed

text \<open>
  C37: Triggering. When an event is triggered, every process in its dynamic lists is dealt with exactly
  once: the running method and disabled processes are passed over, each other one is taken off the list,
  and if the event satisfies its wait it is put on the run queue, or marked as ready if it is suspended,
  and its time-out and the rest of its event list are dropped; otherwise its count goes down by one. The
  statically sensitive processes that may run are queued. Processes that wait for other events keep
  their state, and all invariants hold again. In particular nothing faults, whatever processes are
  removed from the lists while the loops run over them.
\<close>
theorem trigger_delivers:
  assumes "waiting_ok s" "idle_ok e s"
  shows "\<exists>s'. trigger e s = Inr s' \<and> event_done e s s'"
  by (rule trigger_ok [OF assms])

theorem trigger_delivers_witness:
  "\<exists>s1 s2. wait_on True (On_any 0) 2 demo_processes = Inr s1 \<and> trigger 4 s1 = Inr s2 \<and> event_done 4 s1 s2"
proof -
  have a: "admissible (On_any 0) 2 demo_processes" by (simp add: demo_processes_def)
  obtain s1 where s1: "wait_on True (On_any 0) 2 demo_processes = Inr s1" "registered True 2 (awaited (On_any 0) 2 demo_processes) OR_LIST demo_processes s1"
    using wait_on_ok [OF demo_can_wait a] by auto
  have "m_notify_type (m_events s1 4) = NONE"
  proof -
    have "s1 = (case wait_on True (On_any 0) 2 demo_processes of Inr s \<Rightarrow> s)" using s1(1) by simp
    then show ?thesis
      by (simp add: wait_or_list_def list_add_dynamic_def list_at_def demo_processes_def event_add_dynamic_def
          add_dynamic_thread_def new_event_def)
  qed
  then have "idle_ok 4 s1" using s1(2) by (simp add: idle_ok_NONE registered_def)
  then show ?thesis using trigger_delivers [of s1 4] s1 by (auto simp: registered_def)
qed

text \<open>
  A thread that waits for an event, for one event of a list, or for one of these with a time limit,
  is runnable again after the immediate notification of any of the events it waits for, whatever
  notification of that event was pending, and its wait is over.
\<close>
theorem wait_then_notify:
  assumes "can_wait True p s" "admissible w p s" "e \<in> awaited w p s"
    and "\<And>l. w \<noteq> On_all l" "\<And>t l. w \<noteq> On_all_for t l"
    and "\<not> ps_disabled (m_procs s p)" "\<not> ps_suspended (m_procs s p)" "m_execution_phase s \<noteq> Phase_update"
  shows "\<exists>s1 s2. wait_on True w p s = Inr s1 \<and> notify_now e s1 = Inr s2 \<and> runnable_proc True p s2 \<and>
    m_trigger_type (m_procs s2 p) = STATIC \<and> waiting_ok s2 \<and> notifier_ok s2"
proof -
  obtain s1 where s1: "wait_on True w p s = Inr s1" "registered True p (awaited w p s) (trigger_kind w) s s1"
    using wait_on_ok [OF assms(1,2)] by blast
  then have w1: "waiting_ok s1" "notifier_ok s1" by (simp_all add: registered_def)
  obtain s1' where c: "cancel e s1 = Inr s1'" "waiting_ok s1'" "idle_ok e s1'" "m_procs s1' = m_procs s1"
    "\<forall>x. listeners (m_events s1' x) = listeners (m_events s1 x)" using cancel_waiting [OF w1] by blast
  obtain s2 where t: "trigger e s1' = Inr s2" "event_done e s1' s2" using trigger_ok [OF c(2,3)] by blast
  have "p \<in> set (dyn s1' True e)"
    using s1(2) assms(3) dyn_listeners [of "m_events s1' e" "m_events s1 e"] c(5) by (simp add: registered_def entered_def)
  then have d: "dealt e True p s1' (p \<notin> set (dyn s2 True e)) s2" using t(2) by (simp add: event_done_def)
  have q: "woken e (m_procs s1' p)" "\<not> ps_disabled (m_procs s1' p)" "\<not> ps_suspended (m_procs s1' p)" "m_is_thread (m_procs s1' p)"
    using s1(2) c(4) assms(4-7) by (cases w; simp add: registered_def woken_def)+
  then have "runnable_proc True p s2" "m_trigger_type (m_procs s2 p) = STATIC"
    using d by (simp_all add: dealt_def handed_over_def)
  moreover have "notify_now e s1 = Inr s2"
    using s1(2) assms(8) c(1) t(1) by (simp add: notify_now_def registered_def)
  ultimately show ?thesis using s1(1) t(2) by (auto simp: event_done_def)
qed

theorem wait_then_notify_witness:
  "\<exists>s1 s2. wait_on True (On_any_for 5 0) 2 demo_processes = Inr s1 \<and> notify_now 6 s1 = Inr s2 \<and> runnable_proc True 2 s2 \<and>
    m_trigger_type (m_procs s2 2) = STATIC \<and> waiting_ok s2 \<and> notifier_ok s2"
proof (rule wait_then_notify)
  show "can_wait True 2 demo_processes" by (rule demo_can_wait) simp
  show "admissible (On_any_for 5 0) 2 demo_processes" by (simp add: timer_free_def demo_processes_def new_event_def)
  show "6 \<in> awaited (On_any_for 5 0) 2 demo_processes" by (simp add: members_def demo_processes_def)
qed (simp_all add: demo_processes_def new_process_def)

end
