(* ===== verification/Sc_Trigger_Keeps.thy ===== *)
theory Sc_Trigger_Keeps
  imports Sc_Wait_Facts
begin

text \<open>
  What triggering an event leaves alone. The interface \<open>trigger_keeps\<close> says what a property of the state
  must allow for: changes of the lists of waiting processes, of the processes and of the run queues, and
  the cancellation of a time-out; such a property is kept by \<open>trigger\<close>.
\<close>

section \<open>Steps that leave the notifications alone\<close>

definition calm :: "'z processes_scheme \<Rightarrow> 'z processes_scheme \<Rightarrow> bool" where
  "calm s s' \<longleftrightarrow> m_delta_events s' = m_delta_events s \<and> m_timed_events s' = m_timed_events s \<and>
     m_timed_objs s' = m_timed_objs s \<and> m_next_obj s' = m_next_obj s \<and> m_curr_time s' = m_curr_time s \<and>
     m_execution_phase s' = m_execution_phase s \<and> m_curr_proc s' = m_curr_proc s \<and> processes.more s' = processes.more s \<and>
     (\<forall>x. ntype s' x = ntype s x \<and> m_delta_event_index (m_events s' x) = m_delta_event_index (m_events s x) \<and>
        m_timed (m_events s' x) = m_timed (m_events s x)) \<and>
     (\<forall>p. m_timeout_event_p (m_procs s' p) = m_timeout_event_p (m_procs s p) \<and>
        (m_trigger_type (m_procs s' p) = m_trigger_type (m_procs s p) \<or> m_trigger_type (m_procs s' p) = STATIC))"

lemma calm_refl [simp]: "calm s s"
  by (simp add: calm_def)

lemma calm_trans: "calm s s1 \<Longrightarrow> calm s1 s2 \<Longrightarrow> calm s s2"
  unfolding calm_def by (metis (no_types, lifting))

lemma calm_upd_proc:
  assumes "\<And>q. m_timeout_event_p (f q) = m_timeout_event_p q"
    "\<And>q. m_trigger_type (f q) = m_trigger_type q \<or> m_trigger_type (f q) = STATIC"
  shows "calm s (upd_proc p f s)"
  using assms by (simp add: calm_def) (simp add: upd_proc_def)

lemma calm_set_list: "calm s (set_list l y s)"
  by (simp add: calm_def) (simp add: set_list_def)

lemma calm_set_dyn: "calm s (upd_event x (set_dyn_list th qs) s)"
  by (simp add: calm_def) (simp add: upd_event_def)

text \<open>The result of an operation, if there is one.\<close>

definition holds :: "('a \<Rightarrow> bool) \<Rightarrow> 'a result \<Rightarrow> bool" where
  "holds Q r \<longleftrightarrow> (\<forall>a. r = Inr a \<longrightarrow> Q a)"

lemma holds_simps [simp]: "holds Q (Inr a) \<longleftrightarrow> Q a" "holds Q (Inl z)"
  "holds Q (bind_result r f) \<longleftrightarrow> holds (\<lambda>a. holds Q (f a)) r"
  by (auto simp: holds_def bind_result_eq_Inr)

lemma holds_weaken: "holds R r \<Longrightarrow> (\<And>a. R a \<Longrightarrow> Q a) \<Longrightarrow> holds Q r"
  by (auto simp: holds_def)

lemma holds_any: "(\<And>a. Q a) \<Longrightarrow> holds Q r"
  by (simp add: holds_def)

lemma holds_for_each: "P s \<Longrightarrow> (\<And>i t. P t \<Longrightarrow> holds P (body i t)) \<Longrightarrow> holds P (for_each body is s)"
  by (induction "is" arbitrary: s) (auto intro: holds_weaken)

text \<open>The operations, from any state that is calmly reached.\<close>

lemma calm_to_upd_proc:
  "calm s0 s \<Longrightarrow> (\<And>q. m_timeout_event_p (f q) = m_timeout_event_p q) \<Longrightarrow>
    (\<And>q. m_trigger_type (f q) = m_trigger_type q \<or> m_trigger_type (f q) = STATIC) \<Longrightarrow> calm s0 (upd_proc p f s)"
  by (rule calm_trans [OF _ calm_upd_proc])

lemma calm_remove: "calm s0 s \<Longrightarrow> holds (calm s0) (event_remove_dynamic th p x s)"
proof -
  assume c: "calm s0 s"
  have "calm s (upd_event x (\<lambda>_. (m_events s x)\<lparr>m_threads_dynamic := qs\<rparr>) s)"
    "calm s (upd_event x (\<lambda>_. (m_events s x)\<lparr>m_methods_dynamic := qs\<rparr>) s)" for qs
    by (simp_all add: calm_def) (simp_all add: upd_event_def)
  then have "calm s0 (upd_event x (\<lambda>_. (m_events s x)\<lparr>m_threads_dynamic := qs\<rparr>) s)"
    "calm s0 (upd_event x (\<lambda>_. (m_events s x)\<lparr>m_methods_dynamic := qs\<rparr>) s)" for qs
    using calm_trans [OF c] by blast+
  then show ?thesis
    by (simp add: event_remove_dynamic_def remove_dynamic_thread_def remove_dynamic_method_def case_prod_unfold holds_any)
qed

lemma calm_remove_all: "calm s0 s \<Longrightarrow> holds (calm s0) (list_remove_dynamic th p l e_not s)"
  unfolding list_remove_dynamic_def holds_simps
  by (rule holds_any, rule holds_for_each) (auto intro: calm_remove)

lemma calm_auto_delete: "calm s0 s \<Longrightarrow> holds (calm s0) (list_auto_delete l s)"
  unfolding list_auto_delete_def holds_simps Let_def by (rule holds_any) (rule calm_trans [OF _ calm_set_list])

lemma calm_drop_list: "calm s0 s \<Longrightarrow> holds (calm s0) (drop_list p s)"
  unfolding drop_list_def holds_simps
  by (rule holds_any, rule holds_weaken [OF calm_auto_delete], assumption, rule calm_to_upd_proc) simp_all

lemma calm_leave_list: "calm s0 s \<Longrightarrow> holds (calm s0) (leave_list th p e_not s)"
  unfolding leave_list_def holds_simps
  by (rule holds_any, rule holds_weaken [OF calm_remove_all], assumption, rule holds_weaken [OF calm_auto_delete], assumption,
    rule calm_to_upd_proc) simp_all

lemma calm_leave_event: "calm s0 s \<Longrightarrow> holds (calm s0) (leave_event th p s)"
  unfolding leave_event_def holds_simps
  by (rule holds_any, rule holds_weaken [OF calm_remove], assumption, rule calm_to_upd_proc) simp_all

lemma calm_satisfied: "calm s0 s \<Longrightarrow> holds (\<lambda>x. calm s0 (snd x)) (satisfied p s)"
  by (simp add: satisfied_def calm_to_upd_proc)

lemma calm_count: "calm s0 s \<Longrightarrow> calm s0 (count_event p s)"
  unfolding count_event_def by (rule calm_to_upd_proc) simp_all

lemma calm_remove_dynamic_events: "calm s0 s \<Longrightarrow> holds (calm s0) (remove_dynamic_events th True p s)"
proof -
  assume c: "calm s0 s"
  let ?s1 = "upd_proc p (m_trigger_type_update (\<lambda>_. STATIC)) s"
  have "calm s0 ?s1" by (rule calm_to_upd_proc [OF c]) simp_all
  then have "holds (calm s0) (case m_event_p (m_procs ?s1 p) of None \<Rightarrow> Inr ?s1 | Some e \<Rightarrow> event_remove_dynamic th p e ?s1)"
    by (simp add: calm_remove split: option.split)
  moreover have "holds (calm s0) (case m_event_list_p (m_procs t p) of None \<Rightarrow> Inr t | Some l \<Rightarrow> leave_list th p None t)"
    if "calm s0 t" for t using that by (simp add: calm_leave_list split: option.split)
  ultimately show ?thesis by (simp add: remove_dynamic_events_def Let_def) (rule holds_weaken)
qed

lemma calm_make_ready: "calm s0 s \<Longrightarrow> holds (calm s0) (make_ready th p s)"
proof -
  assume c: "calm s0 s"
  have "calm s (s\<lparr>m_runnable := r\<rparr>)" for r by (simp add: calm_def)
  then have "holds (calm s0) (push_runnable th p s)"
    unfolding push_runnable_def holds_simps by (intro holds_any) (rule calm_trans [OF c])
  then show ?thesis using c by (simp add: make_ready_def calm_to_upd_proc)
qed

lemma calm_static: "calm s0 s \<Longrightarrow> holds (calm s0) ((if th then trigger_static_thread else trigger_static_method) p s)"
  by (simp add: trigger_static_thread_def trigger_static_method_def calm_make_ready calm_to_upd_proc)

section \<open>The interface\<close>

locale trigger_keeps =
  fixes P :: "'z processes_scheme \<Rightarrow> bool" and e :: nat
  assumes keeps_calm: "P s \<Longrightarrow> calm s s' \<Longrightarrow> P s'"
    and keeps_stop: "P s \<Longrightarrow> e \<noteq> m_timeout_event_p (m_procs s p) \<Longrightarrow>
      m_trigger_type (m_procs s p) \<in> {EVENT_TIMEOUT, OR_LIST_TIMEOUT, AND_LIST_TIMEOUT} \<Longrightarrow>
      holds P (stop_timeout p s)"
begin

lemma keeps_op: "P s \<Longrightarrow> holds (calm s) r \<Longrightarrow> holds P r"
  by (erule holds_weaken) (rule keeps_calm)

lemma keeps_op_pair: "P s \<Longrightarrow> holds (\<lambda>x. calm s (snd x)) r \<Longrightarrow> holds (\<lambda>x. P (snd x)) r"
  by (erule holds_weaken) (rule keeps_calm)

lemma keeps_satisfied: "P s \<Longrightarrow> holds (\<lambda>x. P (snd x)) (satisfied p s)"
  by (rule keeps_op_pair, assumption, rule calm_satisfied, rule calm_refl)

lemma keeps_upd_proc:
  "P s \<Longrightarrow> (\<And>q. m_timeout_event_p (f q) = m_timeout_event_p q) \<Longrightarrow>
    (\<And>q. m_trigger_type (f q) = m_trigger_type q \<or> m_trigger_type (f q) = STATIC) \<Longrightarrow> P (upd_proc p f s)"
  by (rule keeps_calm [OF _ calm_upd_proc])

lemma keeps_switch:
  assumes P: "P s"
  shows "holds (\<lambda>x. P (snd x)) (trigger_switch th e p s)"
proof -
  let ?s0 = "upd_proc p (m_timed_out_update (\<lambda>_. True)) s" and ?s1 = "count_event p s"
  have P0: "P ?s0" by (rule keeps_upd_proc [OF P]) simp_all
  have P1: "P ?s1" by (rule keeps_calm [OF P calm_count]) simp
  have sat: "holds P r \<Longrightarrow> holds (\<lambda>t. holds (\<lambda>x. P (snd x)) (satisfied p t)) r" for r
    by (erule holds_weaken) (rule keeps_satisfied)
  have list: "P t \<Longrightarrow> holds P (leave_list th p (Some e) t)" "P t \<Longrightarrow> holds P (leave_event th p t)" "P t \<Longrightarrow> holds P (drop_list p t)" for t
    by (rule keeps_op, assumption, rule calm_leave_list calm_leave_event calm_drop_list, rule calm_refl)+
  have gone: "P t \<Longrightarrow> P (upd_proc p (m_event_p_update (\<lambda>_. None)) t)" for t by (rule keeps_upd_proc) simp_all
  have stop: "holds P (stop_timeout p s)" if "e \<noteq> m_timeout_event_p (m_procs s p)"
    "m_trigger_type (m_procs s p) \<in> {EVENT_TIMEOUT, OR_LIST_TIMEOUT, AND_LIST_TIMEOUT}"
    by (rule keeps_stop [OF P that])
  have stop1: "holds P (stop_timeout p ?s1)" if "e \<noteq> m_timeout_event_p (m_procs s p)" "m_trigger_type (m_procs s p) = AND_LIST_TIMEOUT"
    by (rule keeps_stop [OF P1]) (use that in \<open>simp_all add: count_event_def\<close>)
  show ?thesis
  proof (cases "m_trigger_type (m_procs s p)")
    case STATIC
    then show ?thesis using P by (simp add: trigger_switch_def)
  next
    case EVENT
    then show ?thesis using keeps_satisfied [OF gone [OF P]] by (simp add: trigger_switch_def)
  next
    case OR_LIST
    then show ?thesis using sat [OF list(1) [OF P]] by (simp add: trigger_switch_def)
  next
    case AND_LIST
    then show ?thesis using sat [OF list(3) [OF P1]] P1 by (simp add: trigger_switch_def Let_def)
  next
    case TIMEOUT
    then show ?thesis using keeps_satisfied [OF P] by (simp add: trigger_switch_def)
  next
    case EVENT_TIMEOUT
    have "holds (\<lambda>t. holds (\<lambda>x. P (snd x)) (satisfied p (upd_proc p (m_event_p_update (\<lambda>_. None)) t))) (stop_timeout p s)"
      if "e \<noteq> m_timeout_event_p (m_procs s p)"
      by (rule holds_weaken [OF stop]) (use that EVENT_TIMEOUT keeps_satisfied gone in simp_all)
    then show ?thesis using EVENT_TIMEOUT sat [OF list(2) [OF P0]]
      by (cases "e = m_timeout_event_p (m_procs s p)") (simp_all add: trigger_switch_def Let_def)
  next
    case OR_LIST_TIMEOUT
    have "holds (\<lambda>t. holds (\<lambda>t. holds (\<lambda>x. P (snd x)) (satisfied p t)) (leave_list th p (Some e) t)) (stop_timeout p s)"
      if "e \<noteq> m_timeout_event_p (m_procs s p)"
      by (rule holds_weaken [OF stop]) (use that OR_LIST_TIMEOUT sat list(1) in simp_all)
    then show ?thesis using OR_LIST_TIMEOUT sat [OF list(1) [OF P0]]
      by (cases "e = m_timeout_event_p (m_procs s p)") (simp_all add: trigger_switch_def Let_def)
  next
    case AND_LIST_TIMEOUT
    have "holds (\<lambda>t. holds (\<lambda>t. holds (\<lambda>x. P (snd x)) (satisfied p t)) (drop_list p t)) (stop_timeout p ?s1)"
      if "e \<noteq> m_timeout_event_p (m_procs s p)"
      by (rule holds_weaken [OF stop1]) (use that AND_LIST_TIMEOUT sat list(3) in simp_all)
    then show ?thesis using AND_LIST_TIMEOUT P1 sat [OF list(1) [OF P0]]
      by (cases "e = m_timeout_event_p (m_procs s p)") (simp_all add: trigger_switch_def Let_def)
  qed
qed

lemma keeps_dynamic:
  assumes P: "P s"
  shows "holds (\<lambda>x. P (snd x)) (trigger_dynamic th e p s)"
proof -
  let ?s0 = "upd_proc p (m_timed_out_update (\<lambda>_. False)) s"
  have P0: "P ?s0" by (rule keeps_upd_proc [OF P]) simp_all
  have "holds P (remove_dynamic_events th True p ?s0)"
    by (rule keeps_op [OF P0], rule calm_remove_dynamic_events, rule calm_refl)
  moreover have "holds P (make_ready th p t)" if "P t" for t
    by (rule keeps_op [OF that], rule calm_make_ready, rule calm_refl)
  then have "holds (\<lambda>x. (fst x \<longrightarrow> holds P (make_ready th p (snd x))) \<and> (\<not> fst x \<longrightarrow> P (snd x))) (trigger_switch th e p ?s0)"
    by (intro holds_weaken [OF keeps_switch [OF P0]]) simp
  ultimately show ?thesis using P0
    by (cases th; cases "e = m_timeout_event_p (m_procs s p)") (simp_all add: trigger_dynamic_def Let_def case_prod_unfold)
qed

lemma keeps_loop: "P s \<Longrightarrow> holds P (dynamic_loop th e i n s)"
proof (induction "n - i" arbitrary: i n s rule: less_induct)
  case less
  have cut: "P t \<Longrightarrow> P (upd_event e (set_dyn_list th ps) t)" for t ps
    by (rule keeps_calm [OF _ calm_set_dyn])
  show ?case
  proof (cases "i < n")
    case False
    then show ?thesis using less.prems cut by (subst dynamic_loop.simps) simp
  next
    case True
    have removed: "P t \<Longrightarrow> holds P (dynamic_loop th e i (n - 1) (upd_event e (set_dyn_list th ps) t))" for t ps
      using less.hyps True cut by simp
    have kept: "P t \<Longrightarrow> holds P (dynamic_loop th e (i + 1) n t)" for t using less.hyps True by simp
    show ?thesis unfolding dynamic_loop.simps [of th e i n s] if_P [OF True] holds_simps case_prod_unfold
      by (rule holds_any, rule holds_weaken [OF keeps_dynamic [OF less.prems]])
        (use removed kept in \<open>auto intro!: holds_any\<close>)
  qed
qed

lemma keeps_statics: "P s \<Longrightarrow> holds P (for_each (if th then trigger_static_thread else trigger_static_method) ps s)"
  by (erule holds_for_each) (rule keeps_op, assumption, rule calm_static, rule calm_refl)

lemma keeps_trigger:
  assumes P: "P s"
  shows "holds (\<lambda>s'. \<exists>t. P t \<and>
    s' = upd_event e (\<lambda>ev. ev\<lparr>m_notify_type := NONE, m_delta_event_index := - 1, m_timed := None\<rparr>) t) (trigger e s)"
  unfolding trigger_def holds_simps
  by (rule holds_weaken [OF keeps_statics [OF P, of False, simplified]], rule holds_weaken [OF keeps_loop], assumption,
    rule holds_weaken [OF keeps_statics [of _ True, simplified]], assumption, rule holds_weaken [OF keeps_loop], assumption) blast

end

section \<open>What triggering an event never touches\<close>

text \<open>The time, the phase, the current process, the queue of timed notifications and the rest of the kernel.\<close>

definition framed :: "'z processes_scheme \<Rightarrow> 'z processes_scheme \<Rightarrow> bool" where
  "framed s s' \<longleftrightarrow> processes.more s' = processes.more s \<and> m_curr_time s' = m_curr_time s \<and>
     m_execution_phase s' = m_execution_phase s \<and> m_curr_proc s' = m_curr_proc s \<and>
     m_timed_events s' = m_timed_events s \<and>
     (\<forall>p. m_timeout_event_p (m_procs s' p) = m_timeout_event_p (m_procs s p)) \<and>
     notify_time (m_timed_objs s') = notify_time (m_timed_objs s)"

lemma framed_refl [simp]: "framed s s"
  by (simp add: framed_def)

lemma framed_trans: "framed s s1 \<Longrightarrow> framed s1 s2 \<Longrightarrow> framed s s2"
  by (simp add: framed_def)

lemma framed_upd_event [simp]: "framed s (upd_event e f s)"
  by (simp add: framed_def) (simp add: upd_event_def)

lemma framed_cancel: "holds (framed s) (cancel e s)"
proof -
  have u: "framed s t \<Longrightarrow> framed s (upd_event x f t)" for t x f by (erule framed_trans) simp
  have d: "framed s t \<Longrightarrow> framed s (t\<lparr>m_delta_events := l\<rparr>)" "framed s t \<Longrightarrow> notify_time m = notify_time (m_timed_objs t) \<Longrightarrow> framed s (t\<lparr>m_timed_objs := m\<rparr>)" for t l m
    by (simp_all add: framed_def)
  have n: "timed_at p s = Inr et \<Longrightarrow> notify_time ((m_timed_objs s)(p \<mapsto> et\<lparr>m_event := None\<rparr>)) = notify_time (m_timed_objs s)" for p et
    by (rule ext) (simp add: notify_time_def timed_at_def split: option.splits)
  have "holds (framed s) (remove_delta_event e s)" by (simp add: remove_delta_event_def Let_def u d)
  moreover have "holds (framed s) (drop_timed e s)"
    by (auto simp: drop_timed_def holds_def bind_result_eq_Inr intro!: u d n split: option.splits)
  ultimately show ?thesis unfolding cancel_def
    by (cases "ntype s e") (auto elim!: holds_weaken intro: u)
qed

lemma framed_stop: "holds (framed s) (stop_timeout p s)"
  unfolding stop_timeout_def Let_def holds_simps reset_event_def
  by (rule holds_weaken [OF framed_cancel]) (erule framed_trans, simp)

interpretation frame_keeps: trigger_keeps "framed s0" e for s0 e
proof
  show "framed s0 s \<Longrightarrow> calm s s' \<Longrightarrow> framed s0 s'" for s s' by (simp add: framed_def calm_def)
  show "holds (framed s0) (stop_timeout p s)" if "framed s0 s" for s p
    by (rule holds_weaken [OF framed_stop]) (rule framed_trans [OF that])
qed

lemma trigger_framed: "trigger e s = Inr s' \<Longrightarrow> framed s s'"
  using frame_keeps.keeps_trigger [of s s e] by (auto simp: holds_def intro: framed_trans)

text \<open>No process waits with a time-out that is pending for the next delta cycle (a wait for events with a time limit of zero).\<close>

definition no_zero_wait :: "'z processes_scheme \<Rightarrow> bool" where
  "no_zero_wait s \<longleftrightarrow> (\<forall>p. m_trigger_type (m_procs s p) \<in> {EVENT_TIMEOUT, OR_LIST_TIMEOUT, AND_LIST_TIMEOUT} \<longrightarrow>
     ntype s (m_timeout_event_p (m_procs s p)) \<noteq> DELTA)"

text \<open>Notifications are only taken away.\<close>

definition quieter :: "'z processes_scheme \<Rightarrow> 'z processes_scheme \<Rightarrow> bool" where
  "quieter s s' \<longleftrightarrow> m_procs s' = m_procs s \<and> (\<forall>x. ntype s' x = ntype s x \<or> ntype s' x = NONE)"

lemma quieter_no_zero_wait: "no_zero_wait s \<Longrightarrow> quieter s s' \<Longrightarrow> no_zero_wait s'"
  unfolding no_zero_wait_def quieter_def by (metis notify_t.distinct(1))

lemma quieter_stop:
  assumes "ntype s (m_timeout_event_p (m_procs s p)) \<noteq> DELTA"
  shows "holds (\<lambda>s'. quieter s s' \<and> m_delta_events s' = m_delta_events s) (stop_timeout p s)"
proof -
  let ?te = "m_timeout_event_p (m_procs s p)"
  have "holds (\<lambda>s'. quieter s s' \<and> m_delta_events s' = m_delta_events s) (drop_timed ?te s)"
    by (simp add: drop_timed_def holds_any quieter_def split: option.split)
  then have "holds (\<lambda>s'. quieter s s' \<and> m_delta_events s' = m_delta_events s) (cancel ?te s)"
    unfolding cancel_def using assms
    by (cases "ntype s ?te") (auto simp: quieter_def upd_event_def elim!: holds_weaken)
  then show ?thesis unfolding stop_timeout_def Let_def holds_simps reset_event_def
    by (rule holds_weaken) (auto simp: quieter_def upd_event_def)
qed

interpretation delta_keeps: trigger_keeps "\<lambda>s. no_zero_wait s \<and> m_delta_events s = d" e for d e
proof
  show "no_zero_wait s \<and> m_delta_events s = d \<Longrightarrow> calm s s' \<Longrightarrow> no_zero_wait s' \<and> m_delta_events s' = d" for s s'
    unfolding no_zero_wait_def calm_def by (metis insert_iff empty_iff trigger_t.distinct)
  show "holds (\<lambda>s. no_zero_wait s \<and> m_delta_events s = d) (stop_timeout p s)"
    if "no_zero_wait s \<and> m_delta_events s = d"
      "m_trigger_type (m_procs s p) \<in> {EVENT_TIMEOUT, OR_LIST_TIMEOUT, AND_LIST_TIMEOUT}" for s p
    by (rule holds_weaken [OF quieter_stop]) (use that quieter_no_zero_wait in \<open>auto simp: no_zero_wait_def\<close>)
qed

lemma trigger_keeps_delta:
  assumes "no_zero_wait s" "trigger e s = Inr s'"
  shows "no_zero_wait s'" "m_delta_events s' = m_delta_events s"
proof -
  obtain t where t: "no_zero_wait t" "m_delta_events t = m_delta_events s"
    "s' = upd_event e (\<lambda>ev. ev\<lparr>m_notify_type := NONE, m_delta_event_index := - 1, m_timed := None\<rparr>) t"
    using delta_keeps.keeps_trigger [of s "m_delta_events s" e] assms by (auto simp: holds_def)
  then show "m_delta_events s' = m_delta_events s" by simp
  have "quieter t s'" using t(3) by (simp add: quieter_def)
  then show "no_zero_wait s'" by (rule quieter_no_zero_wait [OF t(1)])
qed

end
