(* ===== verification/Sc_Kernel.thy ===== *)
theory Sc_Kernel
  imports Sc_Process Sc_Prim_Channel
begin

text \<open>
  The scheduler of \<open>sysc/kernel/sc_simcontext.cpp\<close>, with \<open>sc_simcontext_int.h\<close>: the delta cycle
  (\<open>crunch\<close>), the advance of time (\<open>simulate\<close>, \<open>cycle\<close>, \<open>sc_start\<close>), stopping and pausing, the start of
  the simulation and the table of the existing processes. What the processes, the channels, the trace
  files and the phase callbacks of a design do is a parameter, the record \<open>program\<close>. A process runs up
  to its return (methods) or to its next \<open>suspend_me()\<close> (threads). A run may go on for ever, so the
  loops are partial functions into \<open>option\<close>, with \<open>None\<close> for a run without end; a fault, or an error
  that \<open>crunch\<close> throws again, is an \<open>Inl\<close>.
\<close>

section \<open>Runs\<close>

type_synonym 'a run = "'a result option"

definition bind_run :: "'a run \<Rightarrow> ('a \<Rightarrow> 'b run) \<Rightarrow> 'b run" where
  "bind_run m f = Option.bind m (\<lambda>r. case r of Inl z \<Rightarrow> Some (Inl z) | Inr a \<Rightarrow> f a)"

lemma bind_run_simps [simp]: "bind_run None f = None" "bind_run (Some (Inl z)) f = Some (Inl z)"
  "bind_run (Some (Inr a)) f = f a"
  by (simp_all add: bind_run_def)

lemma bind_run_eq: "bind_run m f = Some (Inr b) \<longleftrightarrow> (\<exists>a. m = Some (Inr a) \<and> f a = Some (Inr b))"
  by (cases m) (auto simp: bind_run_def split: sum.split)

lemma bind_run_mono [partial_function_mono]:
  assumes "mono_option B" "\<And>y. mono_option (\<lambda>f. C y f)"
  shows "mono_option (\<lambda>f. bind_run (B f) (\<lambda>y. C y f))"
  unfolding bind_run_def
proof (rule bind_mono [OF assms(1)])
  show "mono_option (\<lambda>f. case r of Inl z \<Rightarrow> Some (Inl z) | Inr y \<Rightarrow> C y f)" for r
    using assms(2) by (cases r) (auto intro: option.const_mono)
qed

section \<open>State\<close>

datatype sc_status = SC_UNITIALIZED | SC_ELABORATION | SC_BEFORE_END_OF_ELABORATION | SC_END_OF_ELABORATION
  | SC_START_OF_SIMULATION | SC_RUNNING | SC_PAUSED | SC_STOPPED | SC_END_OF_SIMULATION

datatype sc_stop_mode = SC_STOP_FINISH_DELTA | SC_STOP_IMMEDIATE

datatype sim_state = SC_SIM_OK | SC_SIM_ERROR | SC_SIM_USER_STOP

datatype sc_starvation_policy = SC_EXIT_ON_STARVATION | SC_RUN_TO_TIME

text \<open>The existing processes are linked, newest first.\<close>

record process_table =
  m_method_q :: "nat option"
  m_thread_q :: "nat option"
  next_exist :: "nat \<Rightarrow> nat option"

text \<open>
  \<open>m_cor_p\<close> says which threads have a coroutine; \<open>m_error\<close> stands for a pending error report;
  \<open>design\<close> is the state of the processes and channels themselves.
\<close>

record 'v kernel = processes +
  m_process_table :: process_table
  m_dont_init :: "nat \<Rightarrow> bool"
  m_cor_p :: "nat \<Rightarrow> bool"
  m_prim_channel_registry :: prim_registry
  m_write_check :: bool
  m_current_writer :: "nat option"
  m_collectable :: "nat list"
  m_trace_files :: "nat list"
  m_something_to_trace :: bool
  simc_change_stamp :: u64
  m_delta_count :: u64
  m_forced_stop :: bool
  stop_mode :: sc_stop_mode
  m_paused :: bool
  m_ready_to_simulate :: bool
  m_elaboration_done :: bool
  m_error :: bool
  m_in_simulator_control :: bool
  m_simulation_status :: sc_status
  m_start_of_simulation_called :: bool
  m_end_of_simulation_called :: bool
  design :: 'v

text \<open>
  The code of a design: \<open>run_method\<close> is \<open>run_process\<close> (false after an unhandled exception),
  \<open>run_thread\<close> one stretch of a thread, \<open>channel_update\<close> the virtual \<open>update\<close> of a channel,
  \<open>trace_file_cycle\<close> that of a trace file, and the callbacks are those of the four registries:
  \<open>construction_callbacks\<close> returns how many of them are done.
\<close>

record 'v program =
  run_method :: "nat \<Rightarrow> 'v kernel \<Rightarrow> (bool \<times> 'v kernel) result"
  run_thread :: "nat \<Rightarrow> 'v kernel \<Rightarrow> 'v kernel result"
  channel_update :: "nat \<Rightarrow> 'v kernel \<Rightarrow> 'v kernel result"
  trace_file_cycle :: "bool \<Rightarrow> nat \<Rightarrow> 'v \<Rightarrow> 'v result"
  construction_callbacks :: "'v kernel \<Rightarrow> (nat \<times> 'v kernel) result"
  elaboration_callbacks :: "'v kernel \<Rightarrow> 'v kernel result"
  start_callbacks :: "'v kernel \<Rightarrow> 'v kernel result"
  end_callbacks :: "'v kernel \<Rightarrow> 'v kernel result"

section \<open>The table of the processes\<close>

definition table_push_front :: "bool \<Rightarrow> nat \<Rightarrow> process_table \<Rightarrow> process_table" where
  "table_push_front th p t =
     (if th then t\<lparr>next_exist := (next_exist t)(p := m_thread_q t), m_thread_q := Some p\<rparr>
      else t\<lparr>next_exist := (next_exist t)(p := m_method_q t), m_method_q := Some p\<rparr>)"

definition table_head :: "bool \<Rightarrow> process_table \<Rightarrow> nat option" where
  "table_head th t = (if th then m_thread_q t else m_method_q t)"

text \<open>\<open>prior_p\<close> is set to 0 before the loop and never again.\<close>

partial_function (option) table_find :: "(nat \<Rightarrow> nat option) \<Rightarrow> nat \<Rightarrow> nat option \<Rightarrow> bool option" where
  "table_find nx h now =
     (if now = None then Some False else if now = Some h then Some True else table_find nx h (nx (the now)))"

definition table_remove :: "bool \<Rightarrow> nat \<Rightarrow> process_table \<Rightarrow> (nat option \<times> process_table) option" where
  "table_remove th h t =
     (let prior_p = (None :: nat option)
      in Option.bind (table_find (next_exist t) h (table_head th t)) (\<lambda>found.
        Some (if \<not> found then (None, t)
              else (Some h, case prior_p of
                  Some q \<Rightarrow> t\<lparr>next_exist := (next_exist t)(q := next_exist t h)\<rparr>
                | None \<Rightarrow> if th then t\<lparr>m_thread_q := next_exist t h\<rparr> else t\<lparr>m_method_q := next_exist t h\<rparr>))))"

text \<open>A walk over the table, as in \<open>prepare_to_simulate\<close>.\<close>

partial_function (option) table_walk ::
  "(nat \<Rightarrow> 's \<Rightarrow> 's result) \<Rightarrow> (nat \<Rightarrow> nat option) \<Rightarrow> nat option \<Rightarrow> 's \<Rightarrow> 's run"
where
  "table_walk body nx now s =
     (if now = None then Some (Inr s) else bind_run (Some (body (the now) s)) (table_walk body nx (nx (the now))))"

section \<open>The current process and the run queues\<close>

definition set_curr_proc :: "nat \<Rightarrow> 'v kernel \<Rightarrow> 'v kernel" where
  "set_curr_proc p k = k\<lparr>m_curr_proc := Some p, m_current_writer := (if m_write_check k then Some p else None)\<rparr>"

definition reset_curr_proc :: "'v kernel \<Rightarrow> 'v kernel" where
  "reset_curr_proc k = k\<lparr>m_curr_proc := None, m_current_writer := None\<rparr>"

definition pop_runnable_method :: "'v kernel \<Rightarrow> nat option \<times> 'v kernel" where
  "pop_runnable_method k = (let (h, r) = pop_method (m_runnable k); k1 = k\<lparr>m_runnable := r\<rparr>
     in case h of None \<Rightarrow> (None, reset_curr_proc k1) | Some p \<Rightarrow> (Some p, set_curr_proc p k1))"

definition pop_runnable_thread :: "'v kernel \<Rightarrow> nat option \<times> 'v kernel" where
  "pop_runnable_thread k = (let (h, r) = pop_thread (m_runnable k); k1 = k\<lparr>m_runnable := r\<rparr>
     in case h of None \<Rightarrow> (None, reset_curr_proc k1) | Some p \<Rightarrow> (Some p, set_curr_proc p k1))"

definition push_runnable_front :: "bool \<Rightarrow> nat \<Rightarrow> 'v kernel \<Rightarrow> 'v kernel result" where
  "push_runnable_front th p k =
     bind_result (if th then push_front_thread p (m_runnable k) else push_front_method p (m_runnable k))
       (\<lambda>r. Inr (k\<lparr>m_runnable := r\<rparr>))"

definition requeue_current_process :: "'v kernel \<Rightarrow> 'v kernel" where
  "requeue_current_process k = (case m_curr_proc k of
       Some p \<Rightarrow> if m_is_thread (m_procs k p) then k\<lparr>m_runnable := execute_thread_next p (m_runnable k)\<rparr> else k
     | None \<Rightarrow> k)"

text \<open>The next thread that has a coroutine; threads without one are dropped from the queue.\<close>

partial_function (option) pop_thread_with_cor :: "'v kernel \<Rightarrow> (nat option \<times> 'v kernel) option" where
  "pop_thread_with_cor k =
     (let x = pop_runnable_thread k
      in if fst x = None then Some x
         else if m_cor_p (snd x) (the (fst x)) then Some x else pop_thread_with_cor (snd x))"

text \<open>\<open>None\<close> is the coroutine of the scheduler itself.\<close>

definition next_cor :: "'v kernel \<Rightarrow> (nat option \<times> 'v kernel) option" where
  "next_cor k = (if m_error k then Some (None, k) else pop_thread_with_cor k)"

text \<open>
  Control passes from thread to thread: each one, when it suspends or ends, yields to \<open>next_cor()\<close>,
  until that is the scheduler.
\<close>

partial_function (option) thread_loop :: "'v program \<Rightarrow> nat \<Rightarrow> 'v kernel \<Rightarrow> 'v kernel run" where
  "thread_loop P p k =
     bind_run (Some (run_thread P p k)) (\<lambda>k1. bind_run (map_option Inr (next_cor k1)) (\<lambda>x.
       if fst x = None then Some (Inr (snd x)) else thread_loop P (the (fst x)) (snd x)))"

section \<open>The evaluation phase\<close>

text \<open>The result is whether all methods ran without an unhandled exception, and \<open>empty_eval_phase\<close>.\<close>

partial_function (option) method_loop :: "'v program \<Rightarrow> bool \<Rightarrow> 'v kernel \<Rightarrow> (bool \<times> bool \<times> 'v kernel) run" where
  "method_loop P empt k =
     (let x = pop_runnable_method k
      in if fst x = None then Some (Inr (True, empt, snd x))
         else bind_run (Some (run_method P (the (fst x)) (snd x))) (\<lambda>y.
           if fst y then method_loop P False (snd y) else Some (Inr (False, False, snd y))))"

text \<open>How a round of the evaluation loop ends: \<open>goto out\<close>, \<open>break\<close>, or one more round.\<close>

datatype round_end = Goto_out | Phase_done | More_rounds

definition eval_round :: "'v program \<Rightarrow> bool \<Rightarrow> 'v kernel \<Rightarrow> (round_end \<times> bool \<times> 'v kernel) run" where
  "eval_round P empt k =
     bind_run (Some (toggle_methods (m_runnable k))) (\<lambda>r1.
     bind_run (method_loop P empt (k\<lparr>m_runnable := r1\<rparr>)) (\<lambda>(ok, empt1, k1).
       if \<not> ok then Some (Inr (Goto_out, empt1, k1))
       else bind_run (Some (toggle_threads (m_runnable k1))) (\<lambda>r2.
         bind_run (map_option Inr (pop_thread_with_cor (k1\<lparr>m_runnable := r2\<rparr>))) (\<lambda>(h, k2).
         bind_run (case h of None \<Rightarrow> Some (Inr k2) | Some p \<Rightarrow> thread_loop P p k2) (\<lambda>k3.
           let empt2 = (empt1 \<and> h = None)
           in if m_error k3 then Some (Inr (Goto_out, empt2, k3))
              else if m_forced_stop k3 \<and> stop_mode k3 = SC_STOP_IMMEDIATE then Some (Inr (Goto_out, empt2, k3))
              else bind_run (Some (runnable_is_empty (m_runnable k3))) (\<lambda>b.
                Some (Inr (if b then Phase_done else More_rounds, empt2, k3))))))))"

partial_function (option) eval_loop :: "'v program \<Rightarrow> bool \<Rightarrow> 'v kernel \<Rightarrow> (bool \<times> bool \<times> 'v kernel) run" where
  "eval_loop P empt k =
     bind_run (eval_round P empt k) (\<lambda>x.
       if fst x = More_rounds then eval_loop P (fst (snd x)) (snd (snd x))
       else Some (Inr (fst x = Goto_out, snd x)))"

section \<open>Update and notification phases\<close>

definition trace_cycle :: "'v program \<Rightarrow> bool \<Rightarrow> 'v kernel \<Rightarrow> 'v kernel result" where
  "trace_cycle P delta_cycle k =
     bind_result (for_each (trace_file_cycle P delta_cycle) (rev (m_trace_files k)) (design k))
       (\<lambda>v. Inr (k\<lparr>design := v\<rparr>))"

definition trace_if_needed :: "'v program \<Rightarrow> bool \<Rightarrow> 'v kernel \<Rightarrow> 'v kernel result" where
  "trace_if_needed P delta_cycle k = (if m_something_to_trace k then trace_cycle P delta_cycle k else Inr k)"

definition update_channels :: "'v program \<Rightarrow> 'v kernel \<Rightarrow> 'v kernel run" where
  "update_channels P k =
     bind_run (perform_update (channel_update P) (m_prim_channel_registry k) k) (\<lambda>(r, k1).
       Some (Inr (k1\<lparr>m_prim_channel_registry := r\<rparr>)))"

definition update_phase_of :: "'v program \<Rightarrow> bool \<Rightarrow> 'v kernel \<Rightarrow> 'v kernel run" where
  "update_phase_of P empt k =
     (let k1 = k\<lparr>m_collectable := [], m_execution_phase := Phase_update\<rparr>;
          k2 = (if empt then k1
                else k1\<lparr>simc_change_stamp := simc_change_stamp k1 + 1, m_delta_count := m_delta_count k1 + 1\<rparr>)
      in bind_run (update_channels P k2) (\<lambda>k3.
           Some (trace_if_needed P True (k3\<lparr>m_execution_phase := Phase_notify\<rparr>))))"

text \<open>
  The index runs down from the size at the start; the vector is read again each time, so an element
  that a cancellation has moved is seen where it is now.
\<close>

definition trigger_at :: "nat \<Rightarrow> ('v, 'z) kernel_scheme \<Rightarrow> ('v, 'z) kernel_scheme result" where
  "trigger_at i k = bind_result (vec_at (m_delta_events k) i) (\<lambda>e. trigger e k)"

definition delta_phase :: "('v, 'z) kernel_scheme \<Rightarrow> ('v, 'z) kernel_scheme result" where
  "delta_phase k =
     (let size = length (m_delta_events k)
      in if size = 0 then Inr k
         else bind_result (for_each trigger_at (rev [0..<size]) k) (\<lambda>k1. Inr (k1\<lparr>m_delta_events := []\<rparr>)))"

section \<open>Delta cycles\<close>

text \<open>One round of the loop of \<open>crunch\<close>; the result says whether there is another one.\<close>

definition crunch_round :: "'v program \<Rightarrow> bool \<Rightarrow> 'v kernel \<Rightarrow> (bool \<times> 'v kernel) run" where
  "crunch_round P once k =
     bind_run (eval_loop P True (k\<lparr>m_execution_phase := Phase_evaluate\<rparr>)) (\<lambda>(out, empt, k1).
       if out then Some (Inr (False, k1))
       else bind_run (update_phase_of P empt k1) (\<lambda>k2.
         if m_forced_stop k2 then Some (Inr (False, k2))
         else bind_run (Some (delta_phase k2)) (\<lambda>k3.
           bind_run (Some (runnable_is_empty (m_runnable k3))) (\<lambda>b.
             Some (Inr (\<not> b \<and> \<not> m_paused k3 \<and> \<not> once, k3))))))"

partial_function (option) crunch_loop :: "'v program \<Rightarrow> bool \<Rightarrow> 'v kernel \<Rightarrow> 'v kernel run" where
  "crunch_loop P once k =
     bind_run (crunch_round P once k) (\<lambda>x. if fst x then crunch_loop P once (snd x) else Some (Inr (snd x)))"

definition crunch :: "'v program \<Rightarrow> bool \<Rightarrow> 'v kernel \<Rightarrow> 'v kernel run" where
  "crunch P once k =
     bind_run (crunch_loop P once k) (\<lambda>k1.
       if m_error k1 then Some (Inl Sc_report_error) else Some (Inr (reset_curr_proc k1)))"

section \<open>Status, stop and pause\<close>

definition sim_status :: "'v kernel \<Rightarrow> sim_state" where
  "sim_status k = (if m_error k then SC_SIM_ERROR else if m_forced_stop k then SC_SIM_USER_STOP else SC_SIM_OK)"

definition get_status :: "'v kernel \<Rightarrow> sc_status" where
  "get_status k = (if m_simulation_status k \<noteq> SC_RUNNING then m_simulation_status k
     else if m_in_simulator_control k then SC_RUNNING else SC_PAUSED)"

definition simcontext_end :: "'v program \<Rightarrow> 'v kernel \<Rightarrow> 'v kernel result" where
  "simcontext_end P k =
     bind_result (end_callbacks P (k\<lparr>m_simulation_status := SC_END_OF_SIMULATION, m_ready_to_simulate := False\<rparr>))
       (\<lambda>k1. Inr (k1\<lparr>m_end_of_simulation_called := True\<rparr>))"

definition do_sc_stop_action :: "'v program \<Rightarrow> 'v kernel \<Rightarrow> 'v kernel result" where
  "do_sc_stop_action P k =
     bind_result (if m_start_of_simulation_called k
         then bind_result (simcontext_end P k) (\<lambda>k1. Inr (k1\<lparr>m_in_simulator_control := False\<rparr>))
         else Inr k)
       (\<lambda>k2. Inr (k2\<lparr>m_simulation_status := SC_STOPPED\<rparr>))"

text \<open>\<open>hm\<close> and \<open>ht\<close> are the addresses of the two queue heads, if \<open>init\<close> has to allocate them.\<close>

definition sc_stop :: "'v program \<Rightarrow> nat \<Rightarrow> nat \<Rightarrow> 'v kernel \<Rightarrow> 'v kernel result" where
  "sc_stop P hm ht k =
     (if m_forced_stop k then Inr k
      else let k1 = (if stop_mode k = SC_STOP_IMMEDIATE then k\<lparr>m_runnable := runnable_init hm ht (m_runnable k)\<rparr> else k);
               k2 = k1\<lparr>m_forced_stop := True\<rparr>
           in if \<not> m_in_simulator_control k2 then do_sc_stop_action P k2 else Inr k2)"

definition sc_set_stop_mode :: "sc_stop_mode \<Rightarrow> 'v kernel \<Rightarrow> 'v kernel result" where
  "sc_set_stop_mode m k = (if m_ready_to_simulate k then Inl Sc_report_error else Inr (k\<lparr>stop_mode := m\<rparr>))"

definition sc_pause :: "'v kernel \<Rightarrow> 'v kernel" where
  "sc_pause k = k\<lparr>m_paused := True\<rparr>"

section \<open>Elaboration and the start of the simulation\<close>

partial_function (option) construction_loop :: "'v program \<Rightarrow> 'v kernel \<Rightarrow> (bool \<times> 'v kernel) run" where
  "construction_loop P k =
     bind_run (Some (construction_callbacks P k)) (\<lambda>x.
       if m_forced_stop (snd x)
       then bind_run (Some (do_sc_stop_action P (snd x))) (\<lambda>k1. Some (Inr (False, k1)))
       else if fst x = 4 then Some (Inr (True, snd x)) else construction_loop P (snd x))"

definition elaborate_design :: "'v program \<Rightarrow> 'v kernel \<Rightarrow> 'v kernel run" where
  "elaborate_design P k =
     (if m_elaboration_done k \<or> sim_status k \<noteq> SC_SIM_OK then Some (Inr k)
      else bind_run (construction_loop P (k\<lparr>m_simulation_status := SC_BEFORE_END_OF_ELABORATION\<rparr>)) (\<lambda>(ok, k1).
        if \<not> ok then Some (Inr k1)
        else bind_run (Some (elaboration_callbacks P
               (k1\<lparr>m_elaboration_done := True, m_simulation_status := SC_END_OF_ELABORATION\<rparr>))) (\<lambda>k2.
          if m_forced_stop k2 then Some (do_sc_stop_action P k2) else Some (Inr k2))))"

text \<open>One process of the table at the start: a method or a thread that may run is queued.\<close>

definition start_process :: "bool \<Rightarrow> nat \<Rightarrow> 'v kernel \<Rightarrow> 'v kernel result" where
  "start_process th p k =
     (if ps_disabled (m_procs k p) \<or> m_dont_init k p then Inr k
      else if \<not> ps_suspended (m_procs k p) then push_runnable_front th p k
      else Inr (upd_proc p (ps_ready_to_run_update (\<lambda>_. True)) k))"

text \<open>\<open>prepare_for_simulation\<close> of a thread creates its coroutine.\<close>

definition prepare_for_simulation :: "nat \<Rightarrow> 'v kernel \<Rightarrow> 'v kernel result" where
  "prepare_for_simulation p k = Inr (k\<lparr>m_cor_p := (m_cor_p k)(p := True)\<rparr>)"

definition walk_table :: "bool \<Rightarrow> (nat \<Rightarrow> 'v kernel \<Rightarrow> 'v kernel result) \<Rightarrow> 'v kernel \<Rightarrow> 'v kernel run" where
  "walk_table th body k = table_walk body (next_exist (m_process_table k)) (table_head th (m_process_table k)) k"

definition prepare_to_simulate :: "'v program \<Rightarrow> nat \<Rightarrow> nat \<Rightarrow> 'v kernel \<Rightarrow> 'v kernel run" where
  "prepare_to_simulate P hm ht k =
     (if m_ready_to_simulate k \<or> sim_status k \<noteq> SC_SIM_OK then Some (Inr k)
      else bind_run (Some (start_callbacks P (k\<lparr>m_simulation_status := SC_START_OF_SIMULATION\<rparr>))) (\<lambda>k0.
        let k1 = k0\<lparr>m_start_of_simulation_called := True\<rparr>
        in if m_forced_stop k1 then Some (do_sc_stop_action P k1)
           else bind_run (walk_table True prepare_for_simulation k1) (\<lambda>k2.
             let k3 = k2\<lparr>m_simulation_status := SC_RUNNING, m_ready_to_simulate := True,
                   m_runnable := runnable_init hm ht (m_runnable k2), m_execution_phase := Phase_update\<rparr>
             in bind_run (update_channels P k3) (\<lambda>k4.
                bind_run (walk_table False (start_process False) (k4\<lparr>m_execution_phase := Phase_notify\<rparr>)) (\<lambda>k5.
                bind_run (walk_table True (start_process True) k5) (\<lambda>k6.
                  Some (delta_phase k6)))))))"

definition initial_crunch :: "'v program \<Rightarrow> bool \<Rightarrow> 'v kernel \<Rightarrow> 'v kernel run" where
  "initial_crunch P no_crunch k =
     (if no_crunch then Some (Inr k)
      else bind_run (Some (runnable_is_empty (m_runnable k))) (\<lambda>b.
        if b then Some (Inr k)
        else bind_run (crunch P False k) (\<lambda>k1. bind_run (Some (trace_if_needed P False k1)) (\<lambda>k2.
          if m_forced_stop k2 then Some (do_sc_stop_action P k2) else Some (Inr k2)))))"

definition initialize_simulation :: "'v program \<Rightarrow> nat \<Rightarrow> nat \<Rightarrow> bool \<Rightarrow> 'v kernel \<Rightarrow> 'v kernel run" where
  "initialize_simulation P hm ht no_crunch k =
     bind_run (elaborate_design P (k\<lparr>m_in_simulator_control := True\<rparr>)) (\<lambda>k1.
     bind_run (prepare_to_simulate P hm ht k1) (\<lambda>k2.
     bind_run (initial_crunch P no_crunch k2) (\<lambda>k3.
       Some (Inr (k3\<lparr>m_in_simulator_control := False\<rparr>)))))"

section \<open>The advance of time\<close>

text \<open>\<open>next_time\<close> on the kernel's state: the result variable keeps its value when there is no event.\<close>

definition next_time_into :: "sc_time \<Rightarrow> 'v kernel \<Rightarrow> (bool \<times> sc_time \<times> 'v kernel) result" where
  "next_time_into t k = bind_result (next_time k) (\<lambda>(r, k1).
     Inr (case r of None \<Rightarrow> (False, t, k1) | Some t' \<Rightarrow> (True, t', k1)))"

text \<open>One timed notification: take it off the queue, delete it and trigger its event, if there still is one.\<close>

definition fire_timed :: "'v kernel \<Rightarrow> 'v kernel result" where
  "fire_timed k =
     bind_result (extract_timed k) (\<lambda>(p, k1). bind_result (timed_at p k1) (\<lambda>et.
       bind_result (delete_timed p k1) (\<lambda>k2.
         case m_event et of None \<Rightarrow> Inr k2 | Some e \<Rightarrow> trigger e k2)))"

definition due_at :: "sc_time \<Rightarrow> 'v kernel \<Rightarrow> bool result" where
  "due_at t k =
     (if ppq_size (m_timed_events k) = 0 then Inr False
      else bind_result (ppq_top (m_timed_events k)) (\<lambda>p. bind_result (timed_at p k) (\<lambda>et. Inr (m_notify_time et = t))))"

partial_function (option) fire_loop :: "sc_time \<Rightarrow> 'v kernel \<Rightarrow> 'v kernel run" where
  "fire_loop t k =
     bind_run (Some (fire_timed k)) (\<lambda>k1. bind_run (Some (due_at t k1)) (\<lambda>b.
       if b then fire_loop t k1 else Some (Inr k1)))"

definition advance_to :: "sc_time \<Rightarrow> 'v kernel \<Rightarrow> 'v kernel" where
  "advance_to t k = k\<lparr>m_curr_time := t, simc_change_stamp := simc_change_stamp k + 1\<rparr>"

text \<open>
  The loop that advances the time until a process is runnable; the result says whether the code left
  it by \<open>goto exit\<close>, and the value of \<open>t\<close>.
\<close>

definition timed_round :: "sc_time \<Rightarrow> sc_time \<Rightarrow> 'v kernel \<Rightarrow> (round_end \<times> sc_time \<times> 'v kernel) run" where
  "timed_round until_t t k =
     bind_run (Some (next_time_into t k)) (\<lambda>(ok, t1, k1).
       if \<not> ok \<or> t1 > until_t then Some (Inr (Goto_out, t1, k1))
       else bind_run (fire_loop t1 (if t1 > m_curr_time k1 then advance_to t1 k1 else k1)) (\<lambda>k2.
         bind_run (Some (runnable_is_empty (m_runnable k2))) (\<lambda>b.
           Some (Inr (if b then More_rounds else Phase_done, t1, k2)))))"

partial_function (option) timed_loop :: "sc_time \<Rightarrow> sc_time \<Rightarrow> 'v kernel \<Rightarrow> (bool \<times> sc_time \<times> 'v kernel) run" where
  "timed_loop until_t t k =
     bind_run (timed_round until_t t k) (\<lambda>x.
       if fst x = More_rounds then timed_loop until_t (fst (snd x)) (snd (snd x))
       else Some (Inr (fst x = Goto_out, snd x)))"

definition leave_control :: "'v kernel \<Rightarrow> 'v kernel" where
  "leave_control k = k\<lparr>m_in_simulator_control := False\<rparr>"

definition exit_simulate :: "sc_time \<Rightarrow> sc_time \<Rightarrow> 'v kernel \<Rightarrow> 'v kernel" where
  "exit_simulate until_t t k =
     leave_control (if t > m_curr_time k \<and> t \<le> until_t then advance_to t k else k)"

text \<open>One round of the outer loop; \<open>Inl\<close> is a return from \<open>simulate\<close>, \<open>Inr\<close> one more round.\<close>

definition simulate_round :: "'v program \<Rightarrow> sc_time \<Rightarrow> 'v kernel \<Rightarrow> (bool \<times> 'v kernel) run" where
  "simulate_round P until_t k =
     bind_run (crunch P False k) (\<lambda>k1. bind_run (Some (trace_if_needed P False k1)) (\<lambda>k2.
       if m_forced_stop k2 then bind_run (Some (do_sc_stop_action P k2)) (\<lambda>k3. Some (Inr (False, k3)))
       else if m_paused k2 then Some (Inr (False, leave_control k2))
       else bind_run (timed_loop until_t (m_curr_time k2) k2) (\<lambda>(out, t, k3).
         if out \<or> \<not> t < until_t then Some (Inr (False, exit_simulate until_t t k3))
         else Some (Inr (True, k3)))))"

partial_function (option) simulate_loop :: "'v program \<Rightarrow> sc_time \<Rightarrow> 'v kernel \<Rightarrow> 'v kernel run" where
  "simulate_loop P until_t k =
     bind_run (simulate_round P until_t k) (\<lambda>x.
       if fst x then simulate_loop P until_t (snd x) else Some (Inr (snd x)))"

text \<open>A duration of zero: one delta cycle.\<close>

definition simulate_once :: "'v program \<Rightarrow> 'v kernel \<Rightarrow> 'v kernel run" where
  "simulate_once P k =
     bind_run (crunch P True k) (\<lambda>k1. bind_run (Some (trace_if_needed P False k1)) (\<lambda>k2.
       bind_run (Some (if m_forced_stop k2 then do_sc_stop_action P k2 else Inr k2)) (\<lambda>k3.
         Some (Inr (leave_control k3)))))"

text \<open>The time is unsigned, so the test \<open>duration < SC_ZERO_TIME\<close> never holds.\<close>

definition sc_simulate :: "'v program \<Rightarrow> nat \<Rightarrow> nat \<Rightarrow> sc_time \<Rightarrow> 'v kernel \<Rightarrow> 'v kernel run" where
  "sc_simulate P hm ht duration k =
     bind_run (initialize_simulation P hm ht True k) (\<lambda>k1.
       if sim_status k1 \<noteq> SC_SIM_OK then Some (Inr k1)
       else if duration > - 1 - m_curr_time k1 then Some (Inl Sc_report_error)
       else let until_t = m_curr_time k1 + duration; k2 = k1\<lparr>m_in_simulator_control := True, m_paused := False\<rparr>
            in if duration = 0 then simulate_once P k2 else simulate_loop P until_t k2)"

text \<open>The boolean of the result says whether the missed event is reported as a warning.\<close>

definition sc_cycle :: "'v program \<Rightarrow> sc_time \<Rightarrow> 'v kernel \<Rightarrow> (bool \<times> 'v kernel) run" where
  "sc_cycle P t k =
     bind_run (crunch P False (k\<lparr>m_in_simulator_control := True\<rparr>)) (\<lambda>k1.
     bind_run (Some (trace_cycle P False k1)) (\<lambda>k2.
       let k3 = k2\<lparr>m_curr_time := m_curr_time k2 + t\<rparr>
       in bind_run (Some (next_time_into 0 k3)) (\<lambda>(ok, t1, k4).
            Some (Inr (ok \<and> t1 \<le> m_curr_time k4, leave_control k4)))))"

definition sc_start :: "'v program \<Rightarrow> nat \<Rightarrow> nat \<Rightarrow> sc_time \<Rightarrow> sc_starvation_policy \<Rightarrow> 'v kernel \<Rightarrow> 'v kernel run" where
  "sc_start P hm ht duration p k =
     (let exit_time = m_curr_time k + duration
      in if sim_status k \<noteq> SC_SIM_OK then Some (Inl Sc_report_error)
         else bind_run (sc_simulate P hm ht duration k) (\<lambda>k1.
           Some (Inr (if p = SC_RUN_TO_TIME \<and> \<not> m_paused k1 \<and> sim_status k1 = SC_SIM_OK
             then k1\<lparr>m_curr_time := exit_time\<rparr> else k1))))"

definition sc_start_all :: "'v program \<Rightarrow> nat \<Rightarrow> nat \<Rightarrow> 'v kernel \<Rightarrow> 'v kernel run" where
  "sc_start_all P hm ht k = sc_start P hm ht (- 1 - m_curr_time k) SC_EXIT_ON_STARVATION k"

section \<open>Pending activity\<close>

definition pending_activity_now :: "'v kernel \<Rightarrow> bool result" where
  "pending_activity_now k =
     (if m_delta_events k \<noteq> [] then Inr True
      else bind_result (if runnable_is_initialized (m_runnable k) then runnable_is_empty (m_runnable k) else Inr True)
        (\<lambda>b. Inr (\<not> b \<or> pending_updates (m_prim_channel_registry k))))"

definition time_to_pending_activity :: "'v kernel \<Rightarrow> (sc_time \<times> 'v kernel) result" where
  "time_to_pending_activity k = bind_result (pending_activity_now k) (\<lambda>b.
     if b then Inr (0, k) else bind_result (next_time_into (- 1) k) (\<lambda>(ok, t, k1). Inr (t - m_curr_time k1, k1)))"

end
