(* ===== verification/Sc_Delta_Facts.thy ===== *)
theory Sc_Delta_Facts
  imports Sc_Trigger_Keeps Sc_Kernel
begin

text \<open>
  The notification phase. While no process waits for events with a time limit of zero, triggering an
  event neither reads nor changes the vector of delta notifications; so the loop over the vector
  triggers each event once, the last one first, as if each were taken off the vector before it is
  triggered.
\<close>

section \<open>Exchanging the vector\<close>

definition with_delta :: "nat list \<Rightarrow> 'z notifier_scheme \<Rightarrow> 'z notifier_scheme" where
  "with_delta d s = s\<lparr>m_delta_events := d\<rparr>"

named_theorems delta_free \<open>operations that do not use the vector of delta notifications\<close>

lemma with_delta_simps [simp]:
  "m_events (with_delta d s) = m_events s" "m_timed_objs (with_delta d s) = m_timed_objs s"
  "m_procs (with_delta d z) = m_procs z" "m_event_lists (with_delta d z) = m_event_lists z"
  "m_runnable (with_delta d z) = m_runnable z" "m_curr_proc (with_delta d z) = m_curr_proc z"
  "proc_queue_of th (with_delta d z) = proc_queue_of th z" "runnable_proc th p (with_delta d z) = runnable_proc th p z"
  "list_at l (with_delta d z) = list_at l z" "timed_at q (with_delta d s) = timed_at q s"
  "m_delta_events (with_delta d s) = d"
  by (simp_all add: with_delta_def proc_queue_of_def runnable_proc_def list_at_def timed_at_def)

lemma with_delta_updates [simp]:
  "upd_event e f (with_delta d s) = with_delta d (upd_event e f s)"
  "upd_proc p g (with_delta d z) = with_delta d (upd_proc p g z)"
  "set_list l x (with_delta d z) = with_delta d (set_list l x z)"
  "with_delta d s\<lparr>m_timed_objs := m\<rparr> = with_delta d (s\<lparr>m_timed_objs := m\<rparr>)"
  "with_delta d z\<lparr>m_runnable := r\<rparr> = with_delta d (z\<lparr>m_runnable := r\<rparr>)"
  by (simp_all add: with_delta_def upd_event_def upd_proc_def set_list_def)

abbreviation shifted :: "nat list \<Rightarrow> 'z notifier_scheme result \<Rightarrow> 'z notifier_scheme result" where
  "shifted d \<equiv> map_sum id (with_delta d)"

lemma map_sum_bind: "map_sum id g (bind_result r f) = bind_result r (\<lambda>a. map_sum id g (f a))"
  by (cases r) simp_all

lemma bind_map_sum: "bind_result (map_sum id g r) f = bind_result r (\<lambda>a. f (g a))"
  by (cases r) simp_all

lemma bind_result_assoc: "bind_result (bind_result r f) g = bind_result r (\<lambda>a. bind_result (f a) g)"
  by (cases r) simp_all

lemmas exchange = map_sum_bind bind_map_sum bind_result_assoc case_prod_unfold Let_def

lemma for_each_shifted:
  assumes "\<And>i t. P t \<Longrightarrow> body i (with_delta d t) = shifted d (body i t)" "\<And>i t. P t \<Longrightarrow> holds P (body i t)" "P s"
  shows "for_each body is (with_delta d s) = shifted d (for_each body is s)"
  using assms(3)
proof (induction "is" arbitrary: s)
  case (Cons i "is")
  then show ?case using assms(1) [of s i] assms(2) [of s i]
    by (cases "body i s") (simp_all add: bind_map_sum)
qed simp

lemma remove_dynamic_shifted [delta_free]:
  "event_remove_dynamic th p e (with_delta d s) = shifted d (event_remove_dynamic th p e s)"
  by (simp add: event_remove_dynamic_def exchange)

lemma remove_all_shifted [delta_free]:
  "list_remove_dynamic th p l e_not (with_delta d s) = shifted d (list_remove_dynamic th p l e_not s)"
proof -
  have "for_each (\<lambda>e s. if Some e \<noteq> e_not then event_remove_dynamic th p e s else Inr s) es (with_delta d s) =
      shifted d (for_each (\<lambda>e s. if Some e \<noteq> e_not then event_remove_dynamic th p e s else Inr s) es s)" for es
    by (rule for_each_shifted [of "\<lambda>_. True"]) (auto simp: delta_free holds_any)
  then show ?thesis by (simp add: list_remove_dynamic_def exchange)
qed

lemma auto_delete_shifted [delta_free]: "list_auto_delete l (with_delta d s) = shifted d (list_auto_delete l s)"
  by (simp add: list_auto_delete_def exchange)

lemma leave_shifted [delta_free]:
  "leave_list th p e_not (with_delta d s) = shifted d (leave_list th p e_not s)"
  "leave_event th p (with_delta d s) = shifted d (leave_event th p s)"
  "drop_list p (with_delta d s) = shifted d (drop_list p s)"
  by (simp_all add: leave_list_def leave_event_def drop_list_def exchange delta_free)

lemma remove_dynamic_events_shifted [delta_free]:
  "remove_dynamic_events th True p (with_delta d s) = shifted d (remove_dynamic_events th True p s)"
proof -
  let ?s1 = "upd_proc p (m_trigger_type_update (\<lambda>_. STATIC)) s"
  define g where "g t = (case m_event_list_p (m_procs t p) of None \<Rightarrow> Inr t | Some l \<Rightarrow> leave_list th p None t)"
    for t :: "'a processes_scheme"
  have g: "g (with_delta d t) = shifted d (g t)" for t by (simp add: g_def delta_free split: option.split)
  have e: "remove_dynamic_events th True p t = (let t1 = upd_proc p (m_trigger_type_update (\<lambda>_. STATIC)) t
      in bind_result (case m_event_p (m_procs t1 p) of None \<Rightarrow> Inr t1 | Some e \<Rightarrow> event_remove_dynamic th p e t1) g)" for t
    by (simp add: remove_dynamic_events_def g_def [abs_def] Let_def)
  show ?thesis unfolding e
    by (cases "m_event_p (m_procs s p)") (simp_all add: exchange delta_free g)
qed

lemma make_ready_shifted [delta_free]: "make_ready th p (with_delta d s) = shifted d (make_ready th p s)"
  by (simp add: make_ready_def push_runnable_def exchange)

lemma static_shifted [delta_free]:
  "trigger_static_method p (with_delta d s) = shifted d (trigger_static_method p s)"
  "trigger_static_thread p (with_delta d s) = shifted d (trigger_static_thread p s)"
  by (simp_all add: trigger_static_method_def trigger_static_thread_def delta_free)

lemma stop_timeout_shifted:
  "ntype s (m_timeout_event_p (m_procs s p)) \<noteq> DELTA \<Longrightarrow> stop_timeout p (with_delta d s) = shifted d (stop_timeout p s)"
  by (cases "ntype s (m_timeout_event_p (m_procs s p))")
    (simp_all add: stop_timeout_def cancel_def drop_timed_def reset_event_def exchange split: option.split)

section \<open>Triggering an event\<close>

abbreviation shifted_pair :: "nat list \<Rightarrow> (bool \<times> 'z notifier_scheme) result \<Rightarrow> (bool \<times> 'z notifier_scheme) result" where
  "shifted_pair d \<equiv> map_sum id (map_prod id (with_delta d))"

lemma switch_shifted:
  assumes "no_zero_wait s"
  shows "trigger_switch th e p (with_delta d s) = shifted_pair d (trigger_switch th e p s)"
proof -
  have sat: "satisfied p (with_delta d t) = shifted_pair d (satisfied p t)" for t :: "'a processes_scheme"
    by (simp add: satisfied_def)
  have cnt: "count_event p (with_delta d s) = with_delta d (count_event p s)" by (simp add: count_event_def)
  have stop: "stop_timeout p (with_delta d s) = shifted d (stop_timeout p s)"
    "stop_timeout p (with_delta d (count_event p s)) = shifted d (stop_timeout p (count_event p s))"
    if "m_trigger_type (m_procs s p) \<in> {EVENT_TIMEOUT, OR_LIST_TIMEOUT, AND_LIST_TIMEOUT}"
    by (rule stop_timeout_shifted, use assms that in \<open>auto simp: no_zero_wait_def count_event_def\<close>)+
  show ?thesis
    by (cases "m_trigger_type (m_procs s p)"; cases "e = m_timeout_event_p (m_procs s p)")
      (simp_all add: trigger_switch_def exchange delta_free sat cnt stop)
qed

lemma dynamic_shifted:
  assumes "no_zero_wait s"
  shows "trigger_dynamic th e p (with_delta d s) = shifted_pair d (trigger_dynamic th e p s)"
proof -
  have "no_zero_wait (upd_proc p (m_timed_out_update (\<lambda>_. False)) s)" using assms by (simp add: no_zero_wait_def)
  note sw = switch_shifted [OF this]
  show ?thesis
    by (cases "m_curr_proc s = Some p"; cases "ps_disabled (m_procs s p)")
      (auto simp: trigger_dynamic_def exchange delta_free sw intro!: bind_result_cong)
qed

lemma loop_shifted:
  "no_zero_wait s \<Longrightarrow> dynamic_loop th e i n (with_delta d s) = shifted d (dynamic_loop th e i n s)"
proof (induction th e i n s rule: dynamic_loop.induct)
  case (1 th e i n s)
  show ?case
  proof (cases "i < n \<and> i < length (dyn_list th (m_events s e))")
    case False
    then show ?thesis by (subst (1 2) dynamic_loop.simps) (auto simp: not_less)
  next
    case True
    let ?p = "dyn_list th (m_events s e) ! i"
    show ?thesis
    proof (cases "trigger_dynamic th e ?p s")
      case (Inl z)
      then show ?thesis using True by (subst (1 2) dynamic_loop.simps) (simp add: dynamic_shifted [OF "1.prems"])
    next
      case (Inr x)
      obtain b s1 where x: "x = (b, s1)" by (cases x)
      have z1: "no_zero_wait s1"
        using delta_keeps.keeps_dynamic [of s "m_delta_events s" th e ?p] "1.prems" Inr x by (simp add: holds_def)
      have zu: "no_zero_wait (upd_event e (set_dyn_list th ps) s1)" for ps
        by (rule quieter_no_zero_wait [OF z1]) (simp add: quieter_def)
      have removed: "dynamic_loop th e i (n - 1) (with_delta d (upd_event e (set_dyn_list th qs) s1)) =
          shifted d (dynamic_loop th e i (n - 1) (upd_event e (set_dyn_list th qs) s1))"
        if "b" "vec_at (dyn s1 th e) (n - 1) = Inr l" "vec_set (dyn s1 th e) i l = Inr qs" for l qs
        by (rule "1.IH"(1) [OF _ _ Inr x [symmetric]]) (use True that zu in simp_all)
      have kept: "dynamic_loop th e (i + 1) n (with_delta d s1) = shifted d (dynamic_loop th e (i + 1) n s1)" if "\<not> b"
        by (rule "1.IH"(2) [OF _ _ Inr x [symmetric]]) (use True that z1 in simp_all)
      show ?thesis using True Inr x removed kept
        by (subst (1 2) dynamic_loop.simps)
          (auto simp: dynamic_shifted [OF "1.prems"] exchange intro!: bind_result_cong)
    qed
  qed
qed

lemma half_shifted:
  assumes z: "no_zero_wait s"
  shows "half th e (with_delta d s) = shifted d (half th e s)"
    "half th e s = Inr s1 \<Longrightarrow> no_zero_wait s1"
proof -
  let ?st = "if th then trigger_static_thread else trigger_static_method"
  have st: "for_each ?st ps (with_delta d t) = shifted d (for_each ?st ps t)" for ps and t :: "'a processes_scheme"
    by (rule for_each_shifted [of "\<lambda>_. True"]) (simp_all add: delta_free holds_any)
  have z1: "for_each ?st ps s = Inr t \<Longrightarrow> no_zero_wait t" for ps t
    using delta_keeps.keeps_statics [of s "m_delta_events s" th ps] z by (simp add: holds_def)
  show "half th e (with_delta d s) = shifted d (half th e s)"
    unfolding half_def by (simp only: st with_delta_simps exchange)
      (rule bind_result_cong [OF refl], drule z1, simp add: loop_shifted)
  show "no_zero_wait s1" if "half th e s = Inr s1"
    using that z1 delta_keeps.keeps_loop [of _ _ th e 0]
    by (fastforce simp: half_def bind_result_eq_Inr holds_def)
qed

lemma trigger_shifted [delta_free]:
  assumes "no_zero_wait s"
  shows "trigger e (with_delta d s) = shifted d (trigger e s)"
  unfolding trigger_halves
  by (simp add: half_shifted(1) [OF assms] exchange, rule bind_result_cong [OF refl], drule half_shifted(2) [OF assms],
    simp add: half_shifted(1) exchange)

section \<open>The notification phase\<close>

lemma trigger_at_each:
  assumes "no_zero_wait k" "m_delta_events k = d" "n \<le> length d"
  shows "for_each trigger_at (rev [0..<n]) k = for_each trigger (rev (take n d)) k"
  using assms
proof (induction n arbitrary: k)
  case (Suc n)
  then have n: "n < length d" by simp
  have at: "trigger_at n k = trigger (d ! n) k" using n Suc.prems(2) by (simp add: trigger_at_def)
  have "for_each trigger_at (rev [0..<n]) k1 = for_each trigger (rev (take n d)) k1" if "trigger (d ! n) k = Inr k1" for k1
    using Suc.IH [OF trigger_keeps_delta(1) [OF Suc.prems(1) that]] trigger_keeps_delta(2) [OF Suc.prems(1) that] Suc.prems(2) n
    by simp
  then have "bind_result (trigger (d ! n) k) (for_each trigger_at (rev [0..<n])) =
      bind_result (trigger (d ! n) k) (for_each trigger (rev (take n d)))"
    by (intro bind_result_cong refl)
  then show ?case using n by (simp add: take_Suc_conv_app_nth at)
qed simp

lemma delta_phase_each:
  assumes "no_zero_wait k"
  shows "delta_phase k = bind_result (for_each trigger (rev (m_delta_events k)) k) (\<lambda>k1. Inr (k1\<lparr>m_delta_events := []\<rparr>))"
proof (cases "m_delta_events k = []")
  case True
  then have "k\<lparr>m_delta_events := []\<rparr> = k" by simp
  then show ?thesis using True by (simp add: delta_phase_def)
next
  case False
  then show ?thesis using trigger_at_each [OF assms refl order_refl] by (simp add: delta_phase_def Let_def)
qed

lemma each_shifted:
  "no_zero_wait s \<Longrightarrow> for_each trigger es (with_delta d s) = shifted d (for_each trigger es s)"
proof (rule for_each_shifted [of no_zero_wait])
  show "trigger e (with_delta d t) = shifted d (trigger e t)" if "no_zero_wait t" for e t by (rule trigger_shifted [OF that])
  show "holds no_zero_wait (trigger e t)" if "no_zero_wait t" for e t
    using trigger_keeps_delta(1) [OF that] by (simp add: holds_def)
qed

text \<open>The last delta notification is taken off the vector: the invariant holds while its event is triggered.\<close>

lemma idle_ok_popped:
  assumes "notifier_ok s" "m_delta_events s = d @ [e]"
  shows "idle_ok e (with_delta d s)"
proof -
  have d: "delta_ok s" and t: "timed_ok s" using assms(1) by (simp_all add: notifier_ok_def)
  have dist: "distinct (d @ [e])" using distinct_delta [OF d] assms(2) by simp
  have nth: "ntype s (d ! i) = DELTA \<and> m_delta_event_index (m_events s (d ! i)) = int i" if "i < length d" for i
  proof -
    have "i < length (m_delta_events s)" "m_delta_events s ! i = d ! i" using that assms(2) by (simp_all add: nth_append)
    then show ?thesis using d unfolding delta_ok_def by metis
  qed
  have mem: "x \<in> set d" if "ntype s x = DELTA" "x \<noteq> e" for x using d that assms(2) by (auto simp: delta_ok_def)
  have "delta_ok (settle e (with_delta d s))"
    unfolding delta_ok_def using nth mem dist by (auto simp: nth_eq_iff_index_eq)
  moreover have "ntype s e = DELTA" using d assms(2) unfolding delta_ok_def
    by (metis length_append_singleton lessI nth_append_length)
  then have "timed_ok (settle e (with_delta d s))"
    by (intro timed_ok_cong [OF t]) (auto simp: with_delta_def)
  ultimately show ?thesis by (simp add: idle_ok_def notifier_ok_def)
qed

lemma waiting_ok_with_delta [simp]: "waiting_ok (with_delta d s) = waiting_ok s"
  by (simp add: waiting_ok_def sens_ok_def lists_ok_def timeouts_ok_def queues_ok_def users_def timeouts_def)

lemma timeouts_framed: "framed s t \<Longrightarrow> timeouts t = timeouts s"
  by (simp add: framed_def timeouts_def)

lemma with_delta_same: "m_delta_events s = d \<Longrightarrow> with_delta d s = s"
  by (simp add: with_delta_def)

lemma with_delta_twice [simp]: "with_delta d (with_delta d' s) = with_delta d s"
  by (simp add: with_delta_def)

lemma framed_with_delta [simp]: "framed (with_delta d s) t = framed s t" "framed s (with_delta d t) = framed s t"
  by (simp_all add: framed_def) (simp_all add: with_delta_def)

lemma no_zero_wait_with_delta [simp]: "no_zero_wait (with_delta d s) = no_zero_wait s"
  by (simp add: no_zero_wait_def)

lemma pending_with_delta [simp]: "pending (with_delta d s) = pending s"
  by (intro ext) (simp add: pending_def with_delta_def split: notify_t.split)

definition all_triggered :: "nat list \<Rightarrow> 'z processes_scheme \<Rightarrow> 'z processes_scheme \<Rightarrow> bool" where
  "all_triggered d s t \<longleftrightarrow> waiting_ok t \<and> notifier_ok t \<and> no_zero_wait t \<and> m_delta_events t = [] \<and> framed s t \<and>
     (\<forall>x. x \<notin> timeouts s \<longrightarrow> pending t x = (if x \<in> set d then Idle else pending s x))"

lemma each_ok:
  assumes "waiting_ok s" "notifier_ok s" "no_zero_wait s" "m_delta_events s = d"
  shows "\<exists>t. for_each trigger (rev d) s = Inr (with_delta d t) \<and> all_triggered d s t"
  using assms
proof (induction d arbitrary: s rule: rev_induct)
  case Nil
  then have "with_delta [] s = s" "all_triggered [] s s" by (simp_all add: with_delta_same all_triggered_def)
  then show ?case by force
next
  case (snoc e d)
  let ?s = "with_delta d s"
  obtain t1 where t1: "trigger e ?s = Inr t1" "event_done e ?s t1"
    using trigger_ok [of ?s e] idle_ok_popped [OF snoc.prems(2,4)] snoc.prems(1) by auto
  have z: "no_zero_wait ?s" using snoc.prems(3) by simp
  have k: "no_zero_wait t1" "m_delta_events t1 = d" using trigger_keeps_delta [OF z t1(1)] by simp_all
  have f1: "framed s t1" using trigger_framed [OF t1(1)] by simp
  have w1: "waiting_ok t1" "notifier_ok t1" using t1(2) by (simp_all add: event_done_def)
  obtain t where t: "for_each trigger (rev d) t1 = Inr (with_delta d t)" "all_triggered d t1 t"
    using snoc.IH [OF w1 k] by blast
  have "trigger e (with_delta (d @ [e]) ?s) = shifted (d @ [e]) (trigger e ?s)" by (rule trigger_shifted [OF z])
  then have "trigger e s = Inr (with_delta (d @ [e]) t1)" using t1(1) snoc.prems(4) by (simp add: with_delta_same)
  moreover have "for_each trigger (rev d) (with_delta (d @ [e]) t1) = Inr (with_delta (d @ [e]) t)"
    using each_shifted [OF k(1), of "rev d" "d @ [e]"] t(1) by simp
  ultimately have run: "for_each trigger (rev (d @ [e])) s = Inr (with_delta (d @ [e]) t)" by simp
  have p1: "pending t1 x = (if x = e then Idle else pending s x)" if "x \<notin> timeouts s" for x
    using t1(2) that timeouts_framed [of s ?s] by (simp add: event_done_def)
  have "pending t x = (if x \<in> set (d @ [e]) then Idle else pending s x)" if x: "x \<notin> timeouts s" for x
    using t(2) x p1 [OF x] timeouts_framed [OF f1] by (cases "x = e") (simp_all add: all_triggered_def)
  then have "all_triggered (d @ [e]) s t" using t(2) framed_trans [OF f1, of t] by (simp add: all_triggered_def)
  then show ?case using run by blast
qed

lemma delta_phase_ok:
  assumes "waiting_ok k" "notifier_ok k" "no_zero_wait k"
  shows "\<exists>k'. delta_phase k = Inr k' \<and> all_triggered (m_delta_events k) k k'"
proof -
  obtain t where t: "for_each trigger (rev (m_delta_events k)) k = Inr (with_delta (m_delta_events k) t)"
    "all_triggered (m_delta_events k) k t"
    using each_ok [OF assms refl] by blast
  have "with_delta (m_delta_events k) t\<lparr>m_delta_events := []\<rparr> = t"
    using t(2) by (simp add: with_delta_def all_triggered_def)
  then show ?thesis using delta_phase_each [OF assms(3)] t by simp
qed

end
