(* ===== verification/Sc_Kernel_Facts.thy ===== *)
theory Sc_Kernel_Facts
  imports Sc_Delta_Facts Sc_Wait_Facts
begin

text \<open>
  The scheduler on well-formed states. A program is admissible when its steps keep the invariant of the
  kernel and each of them either uses up some of a budget or calls no service of the kernel at all;
  then every loop of the scheduler returns, without a fault.
\<close>

section \<open>The invariant\<close>

definition kernel_ok :: "'v kernel \<Rightarrow> bool" where
  "kernel_ok k \<longleftrightarrow> waiting_ok k \<and> notifier_ok k \<and> no_zero_wait k \<and> (\<exists>cs. requests (m_prim_channel_registry k) cs)"

text \<open>States with the same events, processes and notifications.\<close>

definition same_events :: "'v kernel \<Rightarrow> 'v kernel \<Rightarrow> bool" where
  "same_events k k' \<longleftrightarrow> m_events k' = m_events k \<and> m_timed_objs k' = m_timed_objs k \<and> m_next_obj k' = m_next_obj k \<and>
     m_delta_events k' = m_delta_events k \<and> m_timed_events k' = m_timed_events k \<and> m_procs k' = m_procs k \<and>
     m_event_lists k' = m_event_lists k"

text \<open>The queues of a state: the processes still to be queued for the next round, and those to be popped.\<close>

definition queued :: "'v kernel \<Rightarrow> bool \<Rightarrow> nat list \<Rightarrow> nat list \<Rightarrow> bool" where
  "queued k th xs ys \<longleftrightarrow> queue_rep (proc_queue_of th k) xs ys"

lemma runnable_queued: "queued k th xs ys \<Longrightarrow> push_head (proc_queue_of th k) = Some h \<Longrightarrow>
    runnable_proc th p k \<longleftrightarrow> p \<in> set (h # xs @ ys)"
  by (auto simp: queued_def runnable_proc_def queue_rep_def)

lemma kernel_ok_queued: "kernel_ok k \<Longrightarrow> \<exists>xs ys. queued k th xs ys"
  by (simp add: kernel_ok_def waiting_ok_def sens_ok_def queues_ok_def queued_def)

lemma notifier_ok_same: "same_events k k' \<Longrightarrow> notifier_ok k' = notifier_ok k"
  by (simp add: same_events_def notifier_ok_def delta_ok_def timed_ok_def owned_def scheduled_def)

text \<open>The invariant survives when processes are taken off the queues.\<close>

lemma kernel_ok_same:
  assumes ok: "kernel_ok k" and same: "same_events k k'" "\<exists>cs. requests (m_prim_channel_registry k') cs"
    and q: "\<And>th. \<exists>xs ys. queued k' th xs ys" "\<And>th. push_head (proc_queue_of th k') = push_head (proc_queue_of th k)"
    and r: "\<And>th p. runnable_proc th p k' \<Longrightarrow> runnable_proc th p k"
  shows "kernel_ok k'"
proof -
  have e: "m_events k' = m_events k" "m_procs k' = m_procs k" "m_event_lists k' = m_event_lists k"
    using same(1) by (simp_all add: same_events_def)
  have w: "waiting_ok k" using ok by (simp add: kernel_ok_def)
  have tm: "timeouts k' = timeouts k" "users k' = users k" by (simp_all add: timeouts_def users_def e fun_eq_iff)
  have "queues_ok k" using w by (simp add: waiting_ok_def sens_ok_def)
  then have "queues_ok k'" using q unfolding queues_ok_def queued_def real_process_def e by metis
  then have "sens_ok (\<lambda>th x. set (dyn k' th x)) k'"
    using w r unfolding waiting_ok_def sens_ok_def lists_ok_def timeouts_ok_def tm e by blast
  then have "waiting_ok k'" using w by (simp add: waiting_ok_def e)
  moreover have "no_zero_wait k'" using ok by (simp add: kernel_ok_def no_zero_wait_def e)
  ultimately show ?thesis using ok same notifier_ok_same [OF same(1)] by (simp add: kernel_ok_def)
qed

section \<open>Taking processes off the queues\<close>

text \<open>Nothing but the run queues, the current process and the design itself has changed.\<close>

definition still :: "'v kernel \<Rightarrow> 'v kernel \<Rightarrow> bool" where
  "still k k' \<longleftrightarrow> (\<exists>r c w v. k' = k\<lparr>m_runnable := r, m_curr_proc := c, m_current_writer := w, design := v\<rparr>)"

lemma still_refl [simp]: "still k k"
  unfolding still_def by (rule exI [of _ "m_runnable k"], rule exI [of _ "m_curr_proc k"], rule exI [of _ "m_current_writer k"],
    rule exI [of _ "design k"]) simp

lemma still_trans: "still k k1 \<Longrightarrow> still k1 k2 \<Longrightarrow> still k k2"
  by (clarsimp simp: still_def) ((rule exI)+, rule refl)

lemma still_same: "still k k' \<Longrightarrow> same_events k k'"
  by (auto simp: still_def same_events_def)

lemma still_fields: "still k k' \<Longrightarrow> m_prim_channel_registry k' = m_prim_channel_registry k \<and> m_curr_time k' = m_curr_time k \<and>
    m_forced_stop k' = m_forced_stop k \<and> m_error k' = m_error k \<and> m_paused k' = m_paused k \<and> m_cor_p k' = m_cor_p k \<and>
    m_delta_events k' = m_delta_events k \<and> m_procs k' = m_procs k \<and> m_timed_events k' = m_timed_events k \<and> stop_mode k' = stop_mode k"
  by (auto simp: still_def)

definition pop_proc :: "bool \<Rightarrow> 'v kernel \<Rightarrow> nat option \<times> 'v kernel" where
  "pop_proc th k = (if th then pop_runnable_thread k else pop_runnable_method k)"

definition set_queue :: "bool \<Rightarrow> proc_queue \<Rightarrow> 'v kernel \<Rightarrow> 'v kernel" where
  "set_queue th q k = k\<lparr>m_runnable := (if th then (m_runnable k)\<lparr>m_threads := q\<rparr> else (m_runnable k)\<lparr>m_methods := q\<rparr>)\<rparr>"

lemma proc_queue_set [simp]:
  "proc_queue_of th (set_queue th' q k) = (if th' = th then q else proc_queue_of th k)"
  "proc_queue_of th (set_curr_proc p k) = proc_queue_of th k" "proc_queue_of th (reset_curr_proc k) = proc_queue_of th k"
  by (simp_all add: set_queue_def proc_queue_of_def set_curr_proc_def reset_curr_proc_def)

lemma still_set [simp]: "still k (set_queue th q k)" "still k (set_curr_proc p k)" "still k (reset_curr_proc k)"
  unfolding still_def set_queue_def set_curr_proc_def reset_curr_proc_def
  by (rule exI, rule exI [of _ "m_curr_proc k"], rule exI [of _ "m_current_writer k"], rule exI [of _ "design k"], simp,
    rule exI [of _ "m_runnable k"], rule exI, rule exI, rule exI [of _ "design k"], simp,
    rule exI [of _ "m_runnable k"], rule exI, rule exI, rule exI [of _ "design k"], simp)

lemma pop_proc_eq: "pop_proc th k = (let (h, q) = pop_runnable (proc_queue_of th k); k1 = set_queue th q k
    in case h of None \<Rightarrow> (None, reset_curr_proc k1) | Some p \<Rightarrow> (Some p, set_curr_proc p k1))"
  by (cases "pop_runnable (proc_queue_of th k)"; cases th)
    (simp_all add: pop_proc_def pop_runnable_thread_def pop_runnable_method_def pop_thread_def pop_method_def
      proc_queue_of_def set_queue_def)

lemma set_queue_same: "set_queue th (proc_queue_of th k) k = k"
  by (simp add: set_queue_def proc_queue_of_def)

text \<open>The other queue is not touched, and nothing becomes runnable.\<close>

lemma kernel_ok_set_queue:
  assumes ok: "kernel_ok k" and q: "queued k th xs ys" "queue_rep q xs' ys'" "real_process q = real_process (proc_queue_of th k)"
    and s: "set xs' \<union> set ys' \<subseteq> set xs \<union> set ys"
  shows "kernel_ok (set_queue th q k)" "queued (set_queue th q k) th xs' ys'"
    "queued (set_queue th q k) (\<not> th) us vs = queued k (\<not> th) us vs"
    "runnable_proc th p (set_queue th q k) \<Longrightarrow> p \<in> set (the (push_head (proc_queue_of th k)) # xs' @ ys')"
proof -
  obtain h where h: "push_head q = Some h" "push_head (proc_queue_of th k) = Some h"
    using q unfolding queued_def queue_rep_def real_process_def fun_eq_iff by (metis option.sel)
  have r: "runnable_proc th p k \<longleftrightarrow> p \<in> set (h # xs @ ys)" "runnable_proc th p (set_queue th q k) \<longleftrightarrow> p \<in> set (h # xs' @ ys')" for p
    using runnable_queued [OF q(1) h(2)] runnable_queued [of "set_queue th q k" th xs' ys' h] q(2) h(1) by (simp_all add: queued_def)
  show "queued (set_queue th q k) th xs' ys'" "queued (set_queue th q k) (\<not> th) us vs = queued k (\<not> th) us vs"
    using q(2) by (simp_all add: queued_def)
  show "runnable_proc th p (set_queue th q k) \<Longrightarrow> p \<in> set (the (push_head (proc_queue_of th k)) # xs' @ ys')"
    using r(2) h(2) by simp
  show "kernel_ok (set_queue th q k)"
  proof (rule kernel_ok_same [OF ok])
    show "same_events k (set_queue th q k)" by (rule still_same) simp
    show "\<exists>cs. requests (m_prim_channel_registry (set_queue th q k)) cs" using ok by (simp add: set_queue_def kernel_ok_def)
    show "\<exists>xs ys. queued (set_queue th q k) th' xs ys" for th'
      using kernel_ok_queued [OF ok, of th'] q(2) by (cases "th' = th") (auto simp: queued_def)
    show "push_head (proc_queue_of th' (set_queue th q k)) = push_head (proc_queue_of th' k)" for th'
      using h by (cases "th' = th") auto
    show "runnable_proc th' p (set_queue th q k) \<Longrightarrow> runnable_proc th' p k" for th' p
      using r s by (cases "th' = th") (auto simp: runnable_proc_def)
  qed
qed

lemma kernel_ok_keep:
  assumes "kernel_ok k" "same_events k k'" "m_runnable k' = m_runnable k" "\<exists>cs. requests (m_prim_channel_registry k') cs"
  shows "kernel_ok k'"
proof (rule kernel_ok_same [OF assms(1,2,4)])
  have q: "proc_queue_of th k' = proc_queue_of th k" for th using assms(3) by (simp add: proc_queue_of_def)
  show "\<exists>xs ys. queued k' th xs ys" "push_head (proc_queue_of th k') = push_head (proc_queue_of th k)"
    "runnable_proc th p k' \<Longrightarrow> runnable_proc th p k" for th p
    using kernel_ok_queued [OF assms(1), of th] by (simp_all add: queued_def q runnable_proc_def)
qed

lemma kernel_ok_curr: "kernel_ok k \<Longrightarrow> still k k' \<Longrightarrow> m_runnable k' = m_runnable k \<Longrightarrow> kernel_ok k'"
  by (rule kernel_ok_keep, assumption, erule still_same, assumption) (use still_fields in \<open>fastforce simp: kernel_ok_def\<close>)

section \<open>Admissible programs\<close>

text \<open>The state in which a process of the kind \<open>th\<close> is started.\<close>

definition activated :: "bool \<Rightarrow> nat \<Rightarrow> 'v kernel \<Rightarrow> bool" where
  "activated th p k \<longleftrightarrow> kernel_ok k \<and> m_curr_proc k = Some p \<and> \<not> runnable_proc th p k \<and>
     (m_is_thread (m_procs k p) = th \<longrightarrow> m_trigger_type (m_procs k p) = STATIC)"

text \<open>
  A step of the program either uses up some of the budget \<open>B\<close> of the current time, or changes nothing
  but the state of the design.
\<close>

definition served :: "(sc_time \<Rightarrow> 'v \<Rightarrow> nat) \<Rightarrow> 'v kernel \<Rightarrow> 'v kernel \<Rightarrow> bool" where
  "served B k k' \<longleftrightarrow> kernel_ok k' \<and> m_curr_time k' = m_curr_time k \<and>
     (B (m_curr_time k) (design k') < B (m_curr_time k) (design k) \<or>
      k' = k\<lparr>design := design k'\<rparr> \<and> B (m_curr_time k) (design k') = B (m_curr_time k) (design k))"

definition program_ok :: "'v program \<Rightarrow> (sc_time \<Rightarrow> 'v \<Rightarrow> nat) \<Rightarrow> bool" where
  "program_ok P B \<longleftrightarrow>
     (\<forall>p k. activated False p k \<longrightarrow>
        (\<exists>b k'. run_method P p k = Inr (b, k') \<and> served B k k' \<and> (b \<or> m_error k'))) \<and>
     (\<forall>p k. activated True p k \<longrightarrow> (\<exists>k'. run_thread P p k = Inr k' \<and> served B k k')) \<and>
     (\<forall>c k. kernel_ok k \<longrightarrow> (\<exists>k'. channel_update P c k = Inr k' \<and> served B k k' \<and>
        m_prim_channel_registry k' = m_prim_channel_registry k)) \<and>
     (\<forall>d f v. \<exists>v'. trace_file_cycle P d f v = Inr v' \<and> (\<forall>t. B t v' \<le> B t v)) \<and>
     (\<forall>k. \<exists>k'. end_callbacks P k = Inr k' \<and> m_curr_time k' = m_curr_time k \<and> m_forced_stop k' = m_forced_stop k)"

text \<open>What a part of the scheduler does: the budget has become smaller, or the state is still and \<open>Q\<close> holds.\<close>

definition outcome :: "(sc_time \<Rightarrow> 'v \<Rightarrow> nat) \<Rightarrow> 'v kernel \<Rightarrow> 'v kernel \<Rightarrow> bool \<Rightarrow> bool" where
  "outcome B k k' Q \<longleftrightarrow> kernel_ok k' \<and> m_curr_time k' = m_curr_time k \<and>
     (B (m_curr_time k) (design k') < B (m_curr_time k) (design k) \<or>
      still k k' \<and> B (m_curr_time k) (design k') = B (m_curr_time k) (design k) \<and> Q)"

lemma outcome_trans:
  "outcome B k k1 Q1 \<Longrightarrow> outcome B k1 k2 Q2 \<Longrightarrow> (still k k1 \<Longrightarrow> Q1 \<Longrightarrow> still k1 k2 \<Longrightarrow> Q2 \<Longrightarrow> Q3) \<Longrightarrow> outcome B k k2 Q3"
  using still_trans by (auto simp: outcome_def)

lemma outcome_served: "served B k k' \<Longrightarrow> outcome B k k' (m_runnable k' = m_runnable k)"
proof -
  have "still k (k\<lparr>design := v\<rparr>)" for v
    unfolding still_def by (rule exI [of _ "m_runnable k"], rule exI [of _ "m_curr_proc k"], rule exI [of _ "m_current_writer k"],
      rule exI [of _ v]) simp
  then have "still k k' \<and> m_runnable k' = m_runnable k" if "k' = k\<lparr>design := design k'\<rparr>" by (subst (1 2) that) simp
  then show "served B k k' \<Longrightarrow> outcome B k k' (m_runnable k' = m_runnable k)"
    unfolding served_def outcome_def by blast
qed

lemma outcome_still: "kernel_ok k' \<Longrightarrow> still k k' \<Longrightarrow> design k' = design k \<Longrightarrow> Q \<Longrightarrow> outcome B k k' Q"
  using still_fields [of k k'] by (simp add: outcome_def)

section \<open>The operations on the queues\<close>

lemma pop_proc_some:
  assumes "kernel_ok k" "queued k th xs (p # ys)"
  shows "\<exists>k'. pop_proc th k = (Some p, k') \<and> activated th p k' \<and> still k k' \<and> design k' = design k \<and>
    queued k' th xs ys \<and> (\<forall>us vs. queued k' (\<not> th) us vs = queued k (\<not> th) us vs)"
proof -
  obtain q where q: "pop_runnable (proc_queue_of th k) = (Some p, q)" "queue_rep q xs ys"
    "real_process q = real_process (proc_queue_of th k)"
    using pop_rep assms(2) unfolding queued_def by blast
  obtain h where h: "push_head (proc_queue_of th k) = Some h" "distinct (h # xs @ p # ys)"
    using assms(2) by (auto simp: queued_def queue_rep_def)
  let ?k1 = "set_queue th q k"
  let ?k = "set_curr_proc p ?k1"
  have k1: "kernel_ok ?k1" "queued ?k1 th xs ys" "queued ?k1 (\<not> th) us vs = queued k (\<not> th) us vs"
    "\<not> runnable_proc th p ?k1" for us vs
    using kernel_ok_set_queue [OF assms q(2,3)] h by auto
  have "kernel_ok ?k" by (rule kernel_ok_curr [OF k1(1)], rule still_set, simp add: set_curr_proc_def)
  moreover have "runnable_proc th p k" using runnable_queued [OF assms(2) h(1)] by simp
  then have "m_trigger_type (m_procs k p) = STATIC" if "m_is_thread (m_procs k p) = th"
    using assms(1) that unfolding kernel_ok_def waiting_ok_def sens_ok_def by blast
  ultimately have "activated th p ?k"
    using k1(4) by (simp add: activated_def runnable_proc_def) (simp add: set_curr_proc_def set_queue_def)
  moreover have "still k ?k" by (rule still_trans [of k ?k1]) simp_all
  moreover have "design ?k = design k" by (simp add: set_curr_proc_def set_queue_def)
  moreover have "pop_proc th k = (Some p, ?k)" using q(1) by (simp add: pop_proc_eq)
  ultimately show ?thesis using k1 by (simp add: queued_def)
qed

lemma pop_proc_none:
  assumes "kernel_ok k" "queued k th xs []"
  shows "\<exists>k'. pop_proc th k = (None, k') \<and> kernel_ok k' \<and> still k k' \<and> m_runnable k' = m_runnable k \<and> design k' = design k"
proof -
  have "pop_runnable (proc_queue_of th k) = (None, proc_queue_of th k)"
    using assms(2) proc_queue.pop_empty_law unfolding queued_def by blast
  then have "pop_proc th k = (None, reset_curr_proc k)" by (simp add: pop_proc_eq set_queue_same)
  moreover have "kernel_ok (reset_curr_proc k)"
    by (rule kernel_ok_curr [OF assms(1)], rule still_set, simp add: reset_curr_proc_def)
  moreover have "m_runnable (reset_curr_proc k) = m_runnable k" "design (reset_curr_proc k) = design k"
    by (simp_all add: reset_curr_proc_def)
  ultimately show ?thesis by (intro exI [of _ "reset_curr_proc k"]) simp
qed

lemma toggle_queue:
  assumes "kernel_ok k" "queued k th xs ys"
  shows "\<exists>q. (if th then toggle_threads else toggle_methods) (m_runnable k) = Inr (m_runnable (set_queue th q k)) \<and>
    kernel_ok (set_queue th q k) \<and>
    queued (set_queue th q k) th (if ys = [] then [] else xs) (if ys = [] then xs else ys) \<and>
    (\<forall>us vs. queued (set_queue th q k) (\<not> th) us vs = queued k (\<not> th) us vs)"
proof -
  obtain q where q: "toggle (proc_queue_of th k) = Inr q" "queue_rep q (if ys = [] then [] else xs) (if ys = [] then xs else ys)"
    "real_process q = real_process (proc_queue_of th k)"
  proof (cases "ys = []")
    case True
    then have "queue_rep (proc_queue_of th k) xs []" using assms(2) by (simp add: queued_def)
    from proc_queue.toggle_law [OF this] show ?thesis using that True by auto
  next
    case False
    have r: "queue_rep (proc_queue_of th k) xs ys" using assms(2) by (simp add: queued_def)
    from proc_queue.toggle_busy_law [OF this False] show ?thesis using that [of "proc_queue_of th k"] r False by simp
  qed
  have "(if th then toggle_threads else toggle_methods) (m_runnable k) = Inr (m_runnable (set_queue th q k))"
    using q(1) by (cases th) (simp_all add: toggle_threads_def toggle_methods_def proc_queue_of_def set_queue_def)
  then show ?thesis using kernel_ok_set_queue [OF assms q(2,3)] by (intro exI [of _ q]) auto
qed

section \<open>The evaluation phase\<close>

lemma queued_still: "m_runnable k' = m_runnable k \<Longrightarrow> queued k' th xs ys = queued k th xs ys"
  by (simp add: queued_def proc_queue_of_def)

lemma served_time: "served B k k' \<Longrightarrow> m_curr_time k' = m_curr_time k" "served B k k' \<Longrightarrow> kernel_ok k'"
  by (simp_all add: served_def)

lemma outcome_time: "outcome B k k' Q \<Longrightarrow> m_curr_time k' = m_curr_time k" "outcome B k k' Q \<Longrightarrow> kernel_ok k'"
  by (simp_all add: outcome_def)

text \<open>The pairs of a budget and a number that get smaller.\<close>

abbreviation less_pair :: "((nat \<times> nat) \<times> (nat \<times> nat)) set" where
  "less_pair \<equiv> less_than <*lex*> less_than"

lemma wf_less_pair: "wf less_pair"
  by (intro wf_lex_prod wf_less_than)

lemmas less_pair_induct [case_names less] = wf_induct_rule [OF wf_less_pair]

text \<open>The other queue is the same.\<close>

abbreviation same_queue :: "'v kernel \<Rightarrow> 'v kernel \<Rightarrow> bool \<Rightarrow> bool" where
  "same_queue k k' th \<equiv> \<forall>us vs. queued k' th us vs = queued k th us vs"

lemma method_loop_ok:
  assumes "program_ok P B" "kernel_ok k" "queued k False xs ys"
  shows "\<exists>ok e k'. method_loop P empt k = Some (Inr (ok, e, k')) \<and> (ok \<or> m_error k') \<and>
    outcome B k k' (m_error k' \<or> queued k' False xs [] \<and> same_queue k k' True)"
  using assms(2,3)
proof (induction "(B (m_curr_time k) (design k), length ys)" arbitrary: k xs ys empt rule: less_pair_induct)
  case less
  show ?case
  proof (cases ys)
    case Nil
    then obtain k1 where k1: "pop_proc False k = (None, k1)" "kernel_ok k1" "still k k1" "m_runnable k1 = m_runnable k"
      "design k1 = design k"
      using pop_proc_none [OF less.prems(1)] less.prems(2) by blast
    then have "method_loop P empt k = Some (Inr (True, empt, k1))"
      by (subst method_loop.simps) (simp add: pop_proc_def)
    moreover have "outcome B k k1 (m_error k1 \<or> queued k1 False xs [] \<and> same_queue k k1 True)"
      by (rule outcome_still [OF k1(2,3,5)]) (use less.prems(2) Nil queued_still [OF k1(4)] in simp)
    ultimately show ?thesis by blast
  next
    case (Cons p zs)
    then obtain k1 where k1: "pop_proc False k = (Some p, k1)" "activated False p k1" "still k k1" "design k1 = design k"
      "queued k1 False xs zs" "same_queue k k1 True"
      using pop_proc_some [OF less.prems(1), of False xs p zs] less.prems(2) by auto
    have t1: "m_curr_time k1 = m_curr_time k" using still_fields [OF k1(3)] by simp
    obtain b k2 where k2: "run_method P p k1 = Inr (b, k2)" "served B k1 k2" "b \<or> m_error k2"
      using assms(1) k1(2) unfolding program_ok_def by blast
    have o1: "outcome B k k1 (queued k1 False xs zs \<and> same_queue k k1 True)"
      by (rule outcome_still) (use k1 in \<open>auto simp: activated_def\<close>)
    note o2 = outcome_served [OF k2(2)]
    show ?thesis
    proof (cases b)
      case False
      then have "method_loop P empt k = Some (Inr (False, False, k2))"
        using k1(1) k2(1) by (subst method_loop.simps) (simp add: pop_proc_def)
      moreover have "outcome B k k2 (m_error k2 \<or> queued k2 False xs [] \<and> same_queue k k2 True)"
        by (rule outcome_trans [OF o1 o2]) (use k2(3) False in simp)
      ultimately show ?thesis using k2(3) False by blast
    next
      case True
      have eq: "method_loop P empt k = method_loop P False k2"
        using k1(1) k2(1) True by (subst method_loop.simps) (simp add: pop_proc_def)
      have o12: "outcome B k k2 (queued k2 False xs zs \<and> same_queue k k2 True)"
        by (rule outcome_trans [OF o1 o2]) (use queued_still in blast)
      obtain us vs where q2: "queued k2 False us vs"
        using kernel_ok_queued [OF served_time(2) [OF k2(2)]] by blast
      define us' vs' where "us' = (if queued k2 False xs zs then xs else us)" and "vs' = (if queued k2 False xs zs then zs else vs)"
      have q2': "queued k2 False us' vs'" using q2 by (simp add: us'_def vs'_def)
      have "((B (m_curr_time k2) (design k2), length vs'), (B (m_curr_time k) (design k), length ys)) \<in> less_pair"
        using o12 Cons by (auto simp: outcome_def vs'_def)
      from less.hyps [OF this served_time(2) [OF k2(2)] q2', of False] obtain ok e k' where
        k': "method_loop P False k2 = Some (Inr (ok, e, k'))" "ok \<or> m_error k'"
          "outcome B k2 k' (m_error k' \<or> queued k' False us' [] \<and> same_queue k2 k' True)" by blast
      have "outcome B k k' (m_error k' \<or> queued k' False xs [] \<and> same_queue k k' True)"
        by (rule outcome_trans [OF o12 k'(3)]) (auto simp: us'_def)
      then show ?thesis using eq k' by auto
    qed
  qed
qed

lemma pop_thread_ok:
  assumes "kernel_ok k" "queued k True xs ys"
  shows "\<exists>h k'. pop_thread_with_cor k = Some (h, k') \<and> kernel_ok k' \<and> still k k' \<and> design k' = design k \<and> same_queue k k' False \<and>
    (case h of None \<Rightarrow> queued k' True xs []
     | Some p \<Rightarrow> activated True p k' \<and> (\<exists>zs. length zs < length ys \<and> queued k' True xs zs))"
  using assms
proof (induction ys arbitrary: k)
  case Nil
  then obtain k1 where k1: "pop_proc True k = (None, k1)" "kernel_ok k1" "still k k1" "m_runnable k1 = m_runnable k"
    "design k1 = design k"
    using pop_proc_none by blast
  then have "pop_thread_with_cor k = Some (None, k1)" by (subst pop_thread_with_cor.simps) (simp add: pop_proc_def)
  then show ?case using k1 Nil.prems(2) queued_still [OF k1(4)] by auto
next
  case (Cons p ys)
  then obtain k1 where k1: "pop_proc True k = (Some p, k1)" "activated True p k1" "still k k1" "design k1 = design k"
    "queued k1 True xs ys" "same_queue k k1 False"
    using pop_proc_some [OF Cons.prems] by auto
  show ?case
  proof (cases "m_cor_p k1 p")
    case True
    then have "pop_thread_with_cor k = Some (Some p, k1)"
      using k1(1) by (subst pop_thread_with_cor.simps) (simp add: pop_proc_def)
    then show ?thesis using k1 by (auto simp: activated_def)
  next
    case False
    have "pop_thread_with_cor k = pop_thread_with_cor k1"
      using k1(1) False by (subst pop_thread_with_cor.simps) (simp add: pop_proc_def)
    moreover have "kernel_ok k1" using k1(2) by (simp add: activated_def)
    then obtain h k' where k': "pop_thread_with_cor k1 = Some (h, k')" "kernel_ok k'" "still k1 k'" "design k' = design k1"
      "same_queue k1 k' False" "case h of None \<Rightarrow> queued k' True xs []
        | Some p \<Rightarrow> activated True p k' \<and> (\<exists>zs. length zs < length ys \<and> queued k' True xs zs)"
      using Cons.IH k1(5) by blast
    have "case h of None \<Rightarrow> queued k' True xs []
        | Some r \<Rightarrow> activated True r k' \<and> (\<exists>zs. length zs < length (p # ys) \<and> queued k' True xs zs)"
      using k'(6) by (cases h) (auto intro: less_SucI)
    ultimately show ?thesis using k' k1(3,4,6) still_trans [OF k1(3) k'(3)]
      by (intro exI [of _ h] exI [of _ k']) simp
  qed
qed

lemma thread_loop_ok:
  assumes "program_ok P B" "activated True p k" "queued k True xs ys"
  shows "\<exists>k'. thread_loop P p k = Some (Inr k') \<and> outcome B k k' (m_error k' \<or> queued k' True xs [] \<and> same_queue k k' False)"
  using assms(2,3)
proof (induction "(B (m_curr_time k) (design k), length ys)" arbitrary: k p xs ys rule: less_pair_induct)
  case less
  obtain k1 where k1: "run_thread P p k = Inr k1" "served B k k1"
    using assms(1) less.prems(1) unfolding program_ok_def by blast
  note ok1 = served_time(2) [OF k1(2)]
  have o1: "outcome B k k1 (queued k1 True xs ys \<and> same_queue k k1 False)"
    by (rule outcome_trans [OF outcome_served [OF k1(2)] outcome_still [OF ok1 still_refl refl TrueI]])
      (use queued_still less.prems(2) in blast)
  show ?case
  proof (cases "m_error k1")
    case True
    then have "thread_loop P p k = Some (Inr k1)" using k1(1) by (subst thread_loop.simps) (simp add: next_cor_def)
    moreover have "outcome B k k1 (m_error k1 \<or> queued k1 True xs [] \<and> same_queue k k1 False)"
      by (rule outcome_trans [OF o1 outcome_still [OF ok1 still_refl refl TrueI]]) (simp add: True)
    ultimately show ?thesis by blast
  next
    case False
    obtain us vs where "queued k1 True us vs" using kernel_ok_queued [OF ok1] by blast
    define us' vs' where "us' = (if queued k1 True xs ys then xs else us)" and "vs' = (if queued k1 True xs ys then ys else vs)"
    have q1: "queued k1 True us' vs'" using \<open>queued k1 True us vs\<close> by (simp add: us'_def vs'_def)
    obtain h k2 where k2: "pop_thread_with_cor k1 = Some (h, k2)" "kernel_ok k2" "still k1 k2" "design k2 = design k1"
      "same_queue k1 k2 False" "case h of None \<Rightarrow> queued k2 True us' []
        | Some p \<Rightarrow> activated True p k2 \<and> (\<exists>zs. length zs < length vs' \<and> queued k2 True us' zs)"
      using pop_thread_ok [OF ok1 q1] by blast
    show ?thesis
    proof (cases h)
      case None
      then have "thread_loop P p k = Some (Inr k2)" using k1(1) k2(1) False by (subst thread_loop.simps) (simp add: next_cor_def)
      moreover have "outcome B k k2 (m_error k2 \<or> queued k2 True xs [] \<and> same_queue k k2 False)"
        by (rule outcome_trans [OF o1 outcome_still [OF k2(2-4) TrueI]]) (use k2(5,6) None us'_def in auto)
      ultimately show ?thesis by blast
    next
      case (Some r)
      then have eq: "thread_loop P p k = thread_loop P r k2"
        using k1(1) k2(1) False by (subst thread_loop.simps) (simp add: next_cor_def)
      obtain zs where zs: "activated True r k2" "length zs < length vs'" "queued k2 True us' zs" using k2(6) Some by auto
      have o2: "outcome B k k2 (queued k1 True xs ys \<and> same_queue k k2 False)"
        by (rule outcome_trans [OF o1 outcome_still [OF k2(2-4) TrueI]]) (use k2(5) in auto)
      have "((B (m_curr_time k2) (design k2), length zs), (B (m_curr_time k) (design k), length ys)) \<in> less_pair"
        using o2 zs(2) by (auto simp: outcome_def vs'_def)
      from less.hyps [OF this zs(1,3)] obtain k' where
        k': "thread_loop P r k2 = Some (Inr k')" "outcome B k2 k' (m_error k' \<or> queued k' True us' [] \<and> same_queue k2 k' False)"
        by blast
      have "outcome B k k' (m_error k' \<or> queued k' True xs [] \<and> same_queue k k' False)"
        by (rule outcome_trans [OF o2 k'(2)]) (auto simp: us'_def)
      then show ?thesis using eq k' by auto
    qed
  qed
qed

lemma run_threads_ok:
  assumes "program_ok P B" "kernel_ok k" "queued k True xs ys"
  shows "\<exists>h k1 k2. pop_thread_with_cor k = Some (h, k1) \<and>
    (case h of None \<Rightarrow> Some (Inr k1) | Some p \<Rightarrow> thread_loop P p k1) = Some (Inr k2) \<and>
    outcome B k k2 (m_error k2 \<or> queued k2 True xs [] \<and> same_queue k k2 False)"
proof -
  obtain h k1 where k1: "pop_thread_with_cor k = Some (h, k1)" "kernel_ok k1" "still k k1" "design k1 = design k"
    "same_queue k k1 False" "case h of None \<Rightarrow> queued k1 True xs []
      | Some p \<Rightarrow> activated True p k1 \<and> (\<exists>zs. length zs < length ys \<and> queued k1 True xs zs)"
    using pop_thread_ok [OF assms(2,3)] by blast
  note o1 = outcome_still [OF k1(2-4)]
  show ?thesis
  proof (cases h)
    case None
    then show ?thesis using k1 o1 by simp
  next
    case (Some p)
    then obtain zs where "activated True p k1" "queued k1 True xs zs" using k1(6) by auto
    from thread_loop_ok [OF assms(1) this] obtain k2 where k2: "thread_loop P p k1 = Some (Inr k2)"
      "outcome B k1 k2 (m_error k2 \<or> queued k2 True xs [] \<and> same_queue k1 k2 False)" by blast
    have "outcome B k k2 (m_error k2 \<or> queued k2 True xs [] \<and> same_queue k k2 False)"
      by (rule outcome_trans [OF o1 [OF k1(5)] k2(2)]) auto
    then show ?thesis using k1(1) k2(1) Some by auto
  qed
qed

lemma is_empty_queued:
  "queued k False mx my \<Longrightarrow> queued k True tx ty \<Longrightarrow>
    runnable_is_empty (m_runnable k) = Inr (mx = [] \<and> my = [] \<and> tx = [] \<and> ty = [])"
  using proc_queue.empty_law [of "m_methods (m_runnable k)" mx my] proc_queue.empty_law [of "m_threads (m_runnable k)" tx ty]
  by (auto simp: runnable_is_empty_def queued_def proc_queue_of_def)

lemma set_queue_runnable [simp]: "k\<lparr>m_runnable := m_runnable (set_queue th q k)\<rparr> = set_queue th q k" "design (set_queue th q k) = design k"
  by (simp_all add: set_queue_def)

lemma toggled:
  assumes "kernel_ok k" "queued k th xs ys"
  shows "\<exists>r. (if th then toggle_threads else toggle_methods) (m_runnable k) = Inr r \<and>
    outcome B k (k\<lparr>m_runnable := r\<rparr>) (same_queue k (k\<lparr>m_runnable := r\<rparr>) (\<not> th)) \<and>
    queued (k\<lparr>m_runnable := r\<rparr>) th (if ys = [] then [] else xs) (if ys = [] then xs else ys)"
proof -
  obtain q where q: "(if th then toggle_threads else toggle_methods) (m_runnable k) = Inr (m_runnable (set_queue th q k))"
    "kernel_ok (set_queue th q k)" "queued (set_queue th q k) th (if ys = [] then [] else xs) (if ys = [] then xs else ys)"
    "same_queue k (set_queue th q k) (\<not> th)" using toggle_queue [OF assms] by blast
  then show ?thesis using outcome_still [OF q(2), of k] by (intro exI [of _ "m_runnable (set_queue th q k)"]) simp
qed

lemma eval_round_ok:
  assumes "program_ok P B" "kernel_ok k" "queued k False mx my" "queued k True tx ty"
  shows "\<exists>r e k'. eval_round P empt k = Some (Inr (r, e, k')) \<and>
    (r = Phase_done \<longrightarrow> queued k' False [] [] \<and> queued k' True [] []) \<and>
    (r = Goto_out \<longrightarrow> m_error k' \<or> m_forced_stop k') \<and> (r = More_rounds \<longrightarrow> \<not> m_error k' \<and> runnable_is_empty (m_runnable k') = Inr False) \<and>
    outcome B k k' (m_error k' \<or> queued k' False (if my = [] then [] else mx) [] \<and> queued k' True (if ty = [] then [] else tx) [])"
proof -
  obtain r1 where r1: "toggle_methods (m_runnable k) = Inr r1"
    "outcome B k (k\<lparr>m_runnable := r1\<rparr>) (same_queue k (k\<lparr>m_runnable := r1\<rparr>) True)"
    "queued (k\<lparr>m_runnable := r1\<rparr>) False (if my = [] then [] else mx) (if my = [] then mx else my)"
    using toggled [OF assms(2,3), of B] by auto
  obtain ok e k1 where k1: "method_loop P empt (k\<lparr>m_runnable := r1\<rparr>) = Some (Inr (ok, e, k1))" "ok \<or> m_error k1"
    "outcome B (k\<lparr>m_runnable := r1\<rparr>) k1 (m_error k1 \<or> queued k1 False (if my = [] then [] else mx) [] \<and>
      same_queue (k\<lparr>m_runnable := r1\<rparr>) k1 True)"
    using method_loop_ok [OF assms(1) outcome_time(2) [OF r1(2)] r1(3)] by blast
  have o1: "outcome B k k1 (m_error k1 \<or> queued k1 False (if my = [] then [] else mx) [] \<and> queued k1 True tx ty)"
    by (rule outcome_trans [OF r1(2) k1(3)]) (use assms(4) in auto)
  show ?thesis
  proof (cases ok)
    case False
    then have "eval_round P empt k = Some (Inr (Goto_out, e, k1))" by (simp add: eval_round_def r1(1) k1(1))
    moreover have "outcome B k k1 (m_error k1 \<or> queued k1 False (if my = [] then [] else mx) [] \<and> queued k1 True (if ty = [] then [] else tx) [])"
      using o1 k1(2) False by (auto simp: outcome_def)
    ultimately show ?thesis using k1(2) False by auto
  next
    case True
    obtain us vs where "queued k1 True us vs" using kernel_ok_queued [OF outcome_time(2) [OF k1(3)]] by blast
    define us' vs' where "us' = (if queued k1 True tx ty then tx else us)" and "vs' = (if queued k1 True tx ty then ty else vs)"
    have "queued k1 True us' vs'" using \<open>queued k1 True us vs\<close> by (simp add: us'_def vs'_def)
    from toggled [OF outcome_time(2) [OF k1(3)] this, of B] obtain r2 where r2: "toggle_threads (m_runnable k1) = Inr r2"
      "outcome B k1 (k1\<lparr>m_runnable := r2\<rparr>) (same_queue k1 (k1\<lparr>m_runnable := r2\<rparr>) False)"
      "queued (k1\<lparr>m_runnable := r2\<rparr>) True (if vs' = [] then [] else us') (if vs' = [] then us' else vs')" by auto
    obtain h k2 k3 where k3: "pop_thread_with_cor (k1\<lparr>m_runnable := r2\<rparr>) = Some (h, k2)"
      "(case h of None \<Rightarrow> Some (Inr k2) | Some p \<Rightarrow> thread_loop P p k2) = Some (Inr k3)"
      "outcome B (k1\<lparr>m_runnable := r2\<rparr>) k3 (m_error k3 \<or> queued k3 True (if vs' = [] then [] else us') [] \<and>
        same_queue (k1\<lparr>m_runnable := r2\<rparr>) k3 False)"
      using run_threads_ok [OF assms(1) outcome_time(2) [OF r2(2)] r2(3)] by blast
    have o2: "outcome B k1 k3 (m_error k3 \<or> queued k3 True (if vs' = [] then [] else us') [] \<and> same_queue k1 k3 False)"
      by (rule outcome_trans [OF r2(2) k3(3)]) auto
    have o3: "outcome B k k3 (m_error k3 \<or> queued k3 False (if my = [] then [] else mx) [] \<and> queued k3 True (if ty = [] then [] else tx) [])"
      by (rule outcome_trans [OF o1 o2]) (use still_fields in \<open>auto simp: us'_def vs'_def split: if_splits\<close>)
    obtain mus mvs tus tvs where q: "queued k3 False mus mvs" "queued k3 True tus tvs"
      using kernel_ok_queued [OF outcome_time(2) [OF o3]] by blast
    note emp = is_empty_queued [OF q]
    have "eval_round P empt k = (if m_error k3 then Some (Inr (Goto_out, e \<and> h = None, k3))
       else if m_forced_stop k3 \<and> stop_mode k3 = SC_STOP_IMMEDIATE then Some (Inr (Goto_out, e \<and> h = None, k3))
       else bind_run (Some (runnable_is_empty (m_runnable k3))) (\<lambda>b. Some (Inr (if b then Phase_done else More_rounds, e \<and> h = None, k3))))"
      using True by (simp add: eval_round_def r1(1) r2(1) k1(1) k3(1,2) Let_def)
    then show ?thesis using o3 q by (auto simp: emp split: if_splits)
  qed
qed

lemma eval_loop_ok:
  assumes "program_ok P B" "kernel_ok k"
  shows "\<exists>out e k'. eval_loop P empt k = Some (Inr (out, e, k')) \<and> (out \<longrightarrow> m_error k' \<or> m_forced_stop k') \<and>
    (\<not> out \<longrightarrow> queued k' False [] [] \<and> queued k' True [] []) \<and> outcome B k k' True"
proof -
  have "queued k False mx my \<Longrightarrow> queued k True tx ty \<Longrightarrow> ?thesis" for mx my tx ty using assms(2)
  proof (induction "(B (m_curr_time k) (design k), length mx + length my + length tx + length ty)"
      arbitrary: k mx my tx ty empt rule: less_pair_induct)
    case less
    obtain r e k1 where k1: "eval_round P empt k = Some (Inr (r, e, k1))"
      "r = Phase_done \<longrightarrow> queued k1 False [] [] \<and> queued k1 True [] []" "r = Goto_out \<longrightarrow> m_error k1 \<or> m_forced_stop k1"
      "r = More_rounds \<longrightarrow> \<not> m_error k1 \<and> runnable_is_empty (m_runnable k1) = Inr False"
      "outcome B k k1 (m_error k1 \<or> queued k1 False (if my = [] then [] else mx) [] \<and> queued k1 True (if ty = [] then [] else tx) [])"
      using eval_round_ok [OF assms(1) less.prems(3,1,2), of empt] by blast
    show ?case
    proof (cases "r = More_rounds")
      case False
      then have "eval_loop P empt k = Some (Inr (r = Goto_out, e, k1))" using k1(1) by (subst eval_loop.simps) simp
      moreover have "outcome B k k1 True" using k1(5) by (auto simp: outcome_def)
      ultimately show ?thesis using k1(2,3) False by (cases r) auto
    next
      case True
      then have eq: "eval_loop P empt k = eval_loop P e k1" using k1(1) by (subst eval_loop.simps) simp
      obtain us vs us' vs' where any: "queued k1 False us vs" "queued k1 True us' vs'"
        using kernel_ok_queued [OF outcome_time(2) [OF k1(5)]] by blast
      obtain mx1 my1 tx1 ty1 where q1: "queued k1 False mx1 my1" "queued k1 True tx1 ty1"
        "((B (m_curr_time k1) (design k1), length mx1 + length my1 + length tx1 + length ty1),
          (B (m_curr_time k) (design k), length mx + length my + length tx + length ty)) \<in> less_pair"
      proof (cases "B (m_curr_time k) (design k1) < B (m_curr_time k) (design k)")
        case True
        then show ?thesis using that [OF any] k1(5) by (auto simp: outcome_def)
      next
        case False
        then have q: "queued k1 False (if my = [] then [] else mx) []" "queued k1 True (if ty = [] then [] else tx) []"
          "B (m_curr_time k1) (design k1) = B (m_curr_time k) (design k)"
          using k1(4,5) True by (auto simp: outcome_def)
        have "\<not> (my = [] \<and> ty = [])" using is_empty_queued [OF q(1,2)] k1(4) True by auto
        then show ?thesis using that [OF q(1,2)] q(3) by auto
      qed
      from less.hyps [OF q1(3,1,2) outcome_time(2) [OF k1(5)], of e] obtain out e' k' where
        k': "eval_loop P e k1 = Some (Inr (out, e', k'))" "out \<longrightarrow> m_error k' \<or> m_forced_stop k'"
        "\<not> out \<longrightarrow> queued k' False [] [] \<and> queued k' True [] []" "outcome B k1 k' True" by blast
      have "outcome B k k' True" by (rule outcome_trans [OF k1(5) k'(4)]) simp
      then show ?thesis using eq k' by auto
    qed
  qed
  moreover obtain mx my tx ty where "queued k False mx my" "queued k True tx ty"
    using kernel_ok_queued [OF assms(2)] by blast
  ultimately show ?thesis by blast
qed

section \<open>Update and notification\<close>

text \<open>At the level of delta cycles: the budget has become smaller, or the notifications are the same and \<open>Q\<close> holds.\<close>

definition paced :: "(sc_time \<Rightarrow> 'v \<Rightarrow> nat) \<Rightarrow> 'v kernel \<Rightarrow> 'v kernel \<Rightarrow> bool \<Rightarrow> bool" where
  "paced B k k' Q \<longleftrightarrow> kernel_ok k' \<and> m_curr_time k' = m_curr_time k \<and>
     (B (m_curr_time k) (design k') < B (m_curr_time k) (design k) \<or>
      m_delta_events k' = m_delta_events k \<and> m_timed_events k' = m_timed_events k \<and>
      B (m_curr_time k) (design k') = B (m_curr_time k) (design k) \<and> Q)"

lemma paced_trans:
  "paced B k k1 Q1 \<Longrightarrow> paced B k1 k2 Q2 \<Longrightarrow> (Q1 \<Longrightarrow> Q2 \<Longrightarrow> Q3) \<Longrightarrow> paced B k k2 Q3"
  by (auto simp: paced_def)

lemma paced_outcome: "outcome B k k' Q \<Longrightarrow> paced B k k' Q"
  using still_fields [of k k'] by (auto simp: outcome_def paced_def)

lemma paced_time: "paced B k k' Q \<Longrightarrow> kernel_ok k'" "paced B k k' Q \<Longrightarrow> m_curr_time k' = m_curr_time k"
  by (simp_all add: paced_def)

lemma channel_updates_ok:
  assumes "program_ok P B" "kernel_ok k"
  shows "\<exists>k'. for_each (channel_update P) cs k = Inr k' \<and> outcome B k k' (m_runnable k' = m_runnable k) \<and>
    m_prim_channel_registry k' = m_prim_channel_registry k"
  using assms(2)
proof (induction cs arbitrary: k)
  case Nil
  have "outcome B k k (m_runnable k = m_runnable k)" by (rule outcome_still [OF Nil still_refl refl refl])
  then show ?case by simp
next
  case (Cons c cs)
  obtain k1 where k1: "channel_update P c k = Inr k1" "served B k k1" "m_prim_channel_registry k1 = m_prim_channel_registry k"
    using assms(1) Cons.prems unfolding program_ok_def by blast
  obtain k' where k': "for_each (channel_update P) cs k1 = Inr k'" "outcome B k1 k' (m_runnable k' = m_runnable k1)"
    "m_prim_channel_registry k' = m_prim_channel_registry k1" using Cons.IH [OF served_time(2) [OF k1(2)]] by blast
  have "outcome B k k' (m_runnable k' = m_runnable k)" by (rule outcome_trans [OF outcome_served [OF k1(2)] k'(2)]) simp
  then show ?case using k1 k' by simp
qed

lemma update_channels_ok:
  assumes "program_ok P B" "kernel_ok k"
  shows "\<exists>k'. update_channels P k = Some (Inr k') \<and> paced B k k' (m_runnable k' = m_runnable k) \<and>
    \<not> pending_updates (m_prim_channel_registry k')"
proof -
  obtain cs where "requests (m_prim_channel_registry k) cs" using assms(2) by (auto simp: kernel_ok_def)
  from perform_update_requests [OF this, of "channel_update P" k] obtain r' ds where
    r': "requests r' []" "m_push_queue r' = []" "perform_update (channel_update P) (m_prim_channel_registry k) k =
      Some (bind_result (for_each (channel_update P) ds k) (\<lambda>v'. Inr (r', v')))" by blast
  obtain k1 where k1: "for_each (channel_update P) ds k = Inr k1" "outcome B k k1 (m_runnable k1 = m_runnable k)"
    using channel_updates_ok [OF assms] by blast
  let ?k = "k1\<lparr>m_prim_channel_registry := r'\<rparr>"
  have "kernel_ok ?k" by (rule kernel_ok_keep [OF outcome_time(2) [OF k1(2)]]) (use r'(1) in \<open>auto simp: same_events_def\<close>)
  then have "paced B k ?k (m_runnable ?k = m_runnable k)" using paced_outcome [OF k1(2)] by (auto simp: paced_def)
  moreover have "update_channels P k = Some (Inr ?k)" using r'(3) k1(1) by (simp add: update_channels_def)
  moreover have "\<not> pending_updates r'" using r' by (simp add: pending_updates_def requests_def)
  ultimately show ?thesis by auto
qed

lemma paced_keep:
  assumes "kernel_ok k" "same_events k k'" "m_runnable k' = m_runnable k" "m_prim_channel_registry k' = m_prim_channel_registry k"
    "m_curr_time k' = m_curr_time k" "B (m_curr_time k) (design k') \<le> B (m_curr_time k) (design k)"
  shows "paced B k k' (m_runnable k' = m_runnable k)"
proof -
  have "kernel_ok k'" by (rule kernel_ok_keep [OF assms(1-3)]) (use assms(1,4) in \<open>simp add: kernel_ok_def\<close>)
  then show ?thesis using assms(2-6) by (auto simp: paced_def same_events_def)
qed

lemma trace_files_ok:
  assumes "program_ok P B"
  shows "\<exists>v'. for_each (trace_file_cycle P d) fs v = Inr v' \<and> (\<forall>t. B t v' \<le> B t v)"
proof (induction fs arbitrary: v)
  case (Cons f fs)
  obtain v1 where v1: "trace_file_cycle P d f v = Inr v1" "\<forall>t. B t v1 \<le> B t v"
    using assms unfolding program_ok_def by blast
  obtain v2 where "for_each (trace_file_cycle P d) fs v1 = Inr v2" "\<forall>t. B t v2 \<le> B t v1" using Cons.IH by blast
  then show ?case using v1 order_trans by (metis bind_result_Inr for_each.simps(2))
qed simp

lemma trace_cycle_ok:
  assumes "program_ok P B"
  shows "\<exists>v. trace_cycle P d k = Inr (k\<lparr>design := v\<rparr>) \<and> (\<forall>t. B t v \<le> B t (design k))"
  using trace_files_ok [OF assms, of d "rev (m_trace_files k)" "design k"] by (auto simp: trace_cycle_def)

lemma trace_if_needed_ok:
  assumes "program_ok P B"
  shows "\<exists>v. trace_if_needed P d k = Inr (k\<lparr>design := v\<rparr>) \<and> (\<forall>t. B t v \<le> B t (design k))"
proof (cases "m_something_to_trace k")
  case True
  then show ?thesis using trace_cycle_ok [OF assms, of d k] by (simp add: trace_if_needed_def)
next
  case False
  then show ?thesis by (intro exI [of _ "design k"]) (simp add: trace_if_needed_def)
qed

lemma update_phase_ok:
  assumes "program_ok P B" "kernel_ok k"
  shows "\<exists>k'. update_phase_of P e k = Some (Inr k') \<and> paced B k k' (m_runnable k' = m_runnable k) \<and>
    \<not> pending_updates (m_prim_channel_registry k')"
proof -
  define k1 where "k1 = k\<lparr>m_collectable := [], m_execution_phase := Phase_update\<rparr>"
  define k2 where "k2 = (if e then k1 else k1\<lparr>simc_change_stamp := simc_change_stamp k1 + 1, m_delta_count := m_delta_count k1 + 1\<rparr>)"
  have p2: "paced B k k2 (m_runnable k2 = m_runnable k)"
    by (rule paced_keep [OF assms(2)]) (simp_all add: k2_def k1_def same_events_def)
  obtain k3 where k3: "update_channels P k2 = Some (Inr k3)" "paced B k2 k3 (m_runnable k3 = m_runnable k2)"
    "\<not> pending_updates (m_prim_channel_registry k3)" using update_channels_ok [OF assms(1) paced_time(1) [OF p2]] by blast
  let ?k4 = "k3\<lparr>m_execution_phase := Phase_notify\<rparr>"
  obtain v where v: "trace_if_needed P True ?k4 = Inr (?k4\<lparr>design := v\<rparr>)" "\<forall>t. B t v \<le> B t (design ?k4)"
    using trace_if_needed_ok [OF assms(1)] by blast
  have p4: "paced B k3 (?k4\<lparr>design := v\<rparr>) (m_runnable (?k4\<lparr>design := v\<rparr>) = m_runnable k3)"
    by (rule paced_keep [OF paced_time(1) [OF k3(2)]]) (use v(2) in \<open>simp_all add: same_events_def\<close>)
  have "update_phase_of P e k = Some (Inr (?k4\<lparr>design := v\<rparr>))"
    using k3(1) v(1) by (simp add: update_phase_of_def k1_def [symmetric] k2_def [symmetric] Let_def)
  moreover have "paced B k (?k4\<lparr>design := v\<rparr>) (m_runnable (?k4\<lparr>design := v\<rparr>) = m_runnable k)"
    by (rule paced_trans [OF paced_trans [OF p2 k3(2)] p4]) auto
  ultimately show ?thesis using k3(3) by auto
qed

section \<open>Delta cycles\<close>

text \<open>Nothing is left to do at the current time.\<close>

definition quiescent :: "'v kernel \<Rightarrow> bool" where
  "quiescent k \<longleftrightarrow> queued k False [] [] \<and> queued k True [] [] \<and> m_delta_events k = [] \<and>
     \<not> pending_updates (m_prim_channel_registry k)"

lemma framed_kernel:
  fixes k k' :: "'v kernel"
  assumes "framed k k'"
  shows "design k' = design k" "m_prim_channel_registry k' = m_prim_channel_registry k" "m_curr_time k' = m_curr_time k"
    "m_timed_events k' = m_timed_events k" "m_forced_stop k' = m_forced_stop k" "m_error k' = m_error k" "m_paused k' = m_paused k"
  using assms by (cases k, cases k', simp add: framed_def)+

lemma kernel_ok_triggered: "kernel_ok k \<Longrightarrow> all_triggered d k k' \<Longrightarrow> kernel_ok k'"
  using framed_kernel [of k k'] by (auto simp: kernel_ok_def all_triggered_def)

lemma delta_phase_kernel_ok:
  assumes "kernel_ok k"
  shows "\<exists>k'. delta_phase k = Inr k' \<and> kernel_ok k' \<and> framed k k' \<and> m_delta_events k' = [] \<and> (m_delta_events k = [] \<longrightarrow> k' = k)"
proof -
  obtain k' where k': "delta_phase k = Inr k'" "all_triggered (m_delta_events k) k k'"
    using delta_phase_ok [of k] assms by (auto simp: kernel_ok_def)
  moreover have "delta_phase k = Inr k" if "m_delta_events k = []" using that by (simp add: delta_phase_def)
  ultimately show ?thesis using kernel_ok_triggered [OF assms] by (auto simp: all_triggered_def)
qed

text \<open>
  The state after delta cycles: either the budget of the time has become smaller or the timed
  notifications are the same.
\<close>

definition cycled :: "(sc_time \<Rightarrow> 'v \<Rightarrow> nat) \<Rightarrow> 'v kernel \<Rightarrow> 'v kernel \<Rightarrow> bool" where
  "cycled B k k' \<longleftrightarrow> kernel_ok k' \<and> m_curr_time k' = m_curr_time k \<and>
     (B (m_curr_time k) (design k') < B (m_curr_time k) (design k) \<or>
      B (m_curr_time k) (design k') = B (m_curr_time k) (design k) \<and> m_timed_events k' = m_timed_events k)"

lemma cycled_trans: "cycled B k k1 \<Longrightarrow> cycled B k1 k2 \<Longrightarrow> cycled B k k2"
  by (auto simp: cycled_def)

lemma cycled_paced: "paced B k k' Q \<Longrightarrow> cycled B k k'"
  by (auto simp: cycled_def paced_def)

lemma crunch_round_ok:
  assumes "program_ok P B" "kernel_ok k"
  shows "\<exists>more k'. crunch_round P once k = Some (Inr (more, k')) \<and> cycled B k k' \<and>
    (more \<and> B (m_curr_time k) (design k') = B (m_curr_time k) (design k) \<longrightarrow> m_delta_events k \<noteq> [] \<and> m_delta_events k' = []) \<and>
    (\<not> more \<longrightarrow> once \<or> m_error k' \<or> m_forced_stop k' \<or> m_paused k' \<or> quiescent k')"
proof -
  let ?k0 = "k\<lparr>m_execution_phase := Phase_evaluate\<rparr>"
  have p0: "paced B k ?k0 (m_runnable ?k0 = m_runnable k)"
    by (rule paced_keep [OF assms(2)]) (simp_all add: same_events_def)
  obtain out e k1 where k1: "eval_loop P True ?k0 = Some (Inr (out, e, k1))" "out \<longrightarrow> m_error k1 \<or> m_forced_stop k1"
    "\<not> out \<longrightarrow> queued k1 False [] [] \<and> queued k1 True [] []" "outcome B ?k0 k1 True"
    using eval_loop_ok [OF assms(1) paced_time(1) [OF p0]] by blast
  have p1: "paced B k k1 True" by (rule paced_trans [OF p0 paced_outcome [OF k1(4)]]) simp
  show ?thesis
  proof (cases out)
    case True
    then have "crunch_round P once k = Some (Inr (False, k1))" using k1(1) by (simp add: crunch_round_def)
    then show ?thesis using k1(2) True cycled_paced [OF p1] by auto
  next
    case False
    obtain k2 where k2: "update_phase_of P e k1 = Some (Inr k2)" "paced B k1 k2 (m_runnable k2 = m_runnable k1)"
      "\<not> pending_updates (m_prim_channel_registry k2)" using update_phase_ok [OF assms(1) paced_time(1) [OF p1]] by blast
    have p2: "paced B k k2 (queued k2 False [] [] \<and> queued k2 True [] [])"
      by (rule paced_trans [OF p1 k2(2)]) (use k1(3) False queued_still in blast)
    show ?thesis
    proof (cases "m_forced_stop k2")
      case True
      then have "crunch_round P once k = Some (Inr (False, k2))" using k1(1) k2(1) False by (simp add: crunch_round_def)
      then show ?thesis using True cycled_paced [OF p2] by auto
    next
      case no_stop: False
      obtain k3 where k3: "delta_phase k2 = Inr k3" "kernel_ok k3" "framed k2 k3" "m_delta_events k3 = []"
        "m_delta_events k2 = [] \<longrightarrow> k3 = k2" using delta_phase_kernel_ok [OF paced_time(1) [OF p2]] by blast
      note f = framed_kernel [OF k3(3)]
      obtain mx my tx ty where q: "queued k3 False mx my" "queued k3 True tx ty" using kernel_ok_queued [OF k3(2)] by blast
      define b where "b \<longleftrightarrow> mx = [] \<and> my = [] \<and> tx = [] \<and> ty = []"
      have emp: "runnable_is_empty (m_runnable k3) = Inr b" unfolding b_def by (rule is_empty_queued [OF q])
      have run: "crunch_round P once k = Some (Inr (\<not> b \<and> \<not> m_paused k3 \<and> \<not> once, k3))"
        using k1(1) k2(1) False no_stop k3(1) emp by (simp add: crunch_round_def)
      have c: "cycled B k k3" using cycled_paced [OF p2] f k3(2) by (simp add: cycled_def)
      have "quiescent k3" if b using that q k3(4) k2(3) f(2) by (simp add: b_def quiescent_def)
      moreover have "m_delta_events k \<noteq> []" if "\<not> b" "B (m_curr_time k) (design k3) = B (m_curr_time k) (design k)"
      proof
        assume "m_delta_events k = []"
        then have "m_delta_events k2 = [] \<and> queued k2 False [] [] \<and> queued k2 True [] []"
          using p2 that(2) f(1) by (auto simp: paced_def)
        then show False using that(1) emp is_empty_queued [of k3 "[]" "[]" "[]" "[]"] k3(5) by auto
      qed
      ultimately show ?thesis using run c k3(4) by auto
    qed
  qed
qed

lemma crunch_loop_ok:
  assumes "program_ok P B" "kernel_ok k"
  shows "\<exists>k'. crunch_loop P once k = Some (Inr k') \<and> cycled B k k' \<and>
    (once \<or> m_error k' \<or> m_forced_stop k' \<or> m_paused k' \<or> quiescent k')"
  using assms(2)
proof (induction "(B (m_curr_time k) (design k), length (m_delta_events k))" arbitrary: k rule: less_pair_induct)
  case less
  obtain more k1 where k1: "crunch_round P once k = Some (Inr (more, k1))" "cycled B k k1"
    "more \<and> B (m_curr_time k) (design k1) = B (m_curr_time k) (design k) \<longrightarrow> m_delta_events k \<noteq> [] \<and> m_delta_events k1 = []"
    "\<not> more \<longrightarrow> once \<or> m_error k1 \<or> m_forced_stop k1 \<or> m_paused k1 \<or> quiescent k1"
    using crunch_round_ok [OF assms(1) less.prems] by blast
  show ?case
  proof (cases more)
    case False
    then have "crunch_loop P once k = Some (Inr k1)" using k1(1) by (subst crunch_loop.simps) simp
    then show ?thesis using k1(2,4) False by auto
  next
    case True
    then have eq: "crunch_loop P once k = crunch_loop P once k1" using k1(1) by (subst crunch_loop.simps) simp
    have "((B (m_curr_time k1) (design k1), length (m_delta_events k1)),
        (B (m_curr_time k) (design k), length (m_delta_events k))) \<in> less_pair"
      using k1(2,3) True by (auto simp: cycled_def)
    from less.hyps [OF this] k1(2) obtain k' where "crunch_loop P once k1 = Some (Inr k')" "cycled B k1 k'"
      "once \<or> m_error k' \<or> m_forced_stop k' \<or> m_paused k' \<or> quiescent k'" by (auto simp: cycled_def)
    then show ?thesis using eq cycled_trans [OF k1(2)] by auto
  qed
qed

lemma quiescent_reset: "quiescent (reset_curr_proc k) = quiescent k"
  by (simp add: quiescent_def queued_def) (simp add: reset_curr_proc_def)

lemma crunch_ok:
  assumes "program_ok P B" "kernel_ok k"
  shows "crunch P once k = Some (Inl Sc_report_error) \<or>
    (\<exists>k'. crunch P once k = Some (Inr k') \<and> cycled B k k' \<and> m_curr_proc k' = None \<and> \<not> m_error k' \<and>
      (once \<or> m_forced_stop k' \<or> m_paused k' \<or> quiescent k'))"
proof -
  obtain k1 where k1: "crunch_loop P once k = Some (Inr k1)" "cycled B k k1"
    "once \<or> m_error k1 \<or> m_forced_stop k1 \<or> m_paused k1 \<or> quiescent k1" using crunch_loop_ok [OF assms] by blast
  show ?thesis
  proof (cases "m_error k1")
    case True
    then show ?thesis using k1(1) by (simp add: crunch_def)
  next
    case False
    let ?k = "reset_curr_proc k1"
    have "paced B k1 ?k (m_runnable ?k = m_runnable k1)"
      by (rule paced_keep) (use k1(2) in \<open>simp_all add: cycled_def same_events_def reset_curr_proc_def\<close>)
    then have "cycled B k ?k" by (rule cycled_trans [OF k1(2) cycled_paced])
    moreover have "m_curr_proc ?k = None \<and> m_error ?k = m_error k1 \<and> m_forced_stop ?k = m_forced_stop k1 \<and> m_paused ?k = m_paused k1"
      by (simp add: reset_curr_proc_def)
    moreover have "crunch P once k = Some (Inr ?k)" using k1(1) False by (simp add: crunch_def)
    ultimately show ?thesis using False k1(3) quiescent_reset by auto
  qed
qed

end
