(* ===== verification/Sc_Time_Facts.thy ===== *)
theory Sc_Time_Facts
  imports Sc_Kernel_Facts
begin

text \<open>
  The advance of time: the loop over the timed notifications takes them in the order of their times,
  and \<open>simulate\<close> returns with the time inside the interval it was given and no notification of that
  interval left.
\<close>

section \<open>The next time\<close>

text \<open>All times in the queue are at least \<open>t\<close>.\<close>

definition from_time :: "sc_time \<Rightarrow> 'z notifier_scheme \<Rightarrow> bool" where
  "from_time t s \<longleftrightarrow> (\<forall>p\<in>#ppq_elems (m_timed_events s). t \<le> notify_time (m_timed_objs s) p)"

definition top_at :: "sc_time \<Rightarrow> 'z notifier_scheme \<Rightarrow> bool" where
  "top_at t s \<longleftrightarrow> (\<exists>p\<in>#ppq_elems (m_timed_events s). ppq_top (m_timed_events s) = Inr p \<and> notify_time (m_timed_objs s) p = t)"

lemma top_from_time:
  assumes "timed_ok s" "top_at t s"
  shows "from_time t s"
proof -
  have "ppq_elems (m_timed_events s) \<noteq> {#}" using assms(2) by (auto simp: top_at_def)
  from extract_timed_ok [OF assms(1) this] obtain p where
    "ppq_top (m_timed_events s) = Inr p" "\<And>r. r \<in># ppq_elems (m_timed_events s) \<Longrightarrow> notify_time (m_timed_objs s) p \<le> notify_time (m_timed_objs s) r"
    by metis
  then show ?thesis using assms(2) by (auto simp: top_at_def from_time_def)
qed

lemma heap_size_elems: "ppq_ok cmp q \<Longrightarrow> m_heap_size q = size (ppq_elems q)"
  by (auto simp: ppq_ok_def ppq_elems_def)

lemma next_time_scan:
  "notifier_ok s \<Longrightarrow> \<exists>r q m. next_time s = Inr (r, s\<lparr>m_timed_events := q, m_timed_objs := m\<rparr>) \<and>
    notifier_ok (s\<lparr>m_timed_events := q, m_timed_objs := m\<rparr>) \<and> size (ppq_elems q) \<le> size (ppq_elems (m_timed_events s)) \<and>
    (case r of None \<Rightarrow> ppq_elems q = {#} | Some t \<Rightarrow> top_at t (s\<lparr>m_timed_events := q, m_timed_objs := m\<rparr>))"
proof (induction "size (ppq_elems (m_timed_events s))" arbitrary: s rule: less_induct)
  case less
  let ?q = "m_timed_events s"
  have ok: "timed_ok s" using less.prems by (simp add: notifier_ok_def)
  then have z: "ppq_size ?q = 0 \<longleftrightarrow> ppq_elems ?q = {#}" by (intro ppq_size_0) (auto simp: timed_ok_def)
  have same: "s\<lparr>m_timed_events := m_timed_events s, m_timed_objs := m_timed_objs s\<rparr> = s" by simp
  show ?case
  proof (cases "ppq_elems ?q = {#}")
    case True
    then have "next_time s = Inr (None, s)" using z by (subst next_time.simps) simp
    then show ?thesis using less.prems True same by (intro exI [of _ None] exI [of _ ?q] exI [of _ "m_timed_objs s"]) simp
  next
    case False
    obtain p q where p: "extract_timed s = Inr (p, s\<lparr>m_timed_events := q\<rparr>)" "ppq_top ?q = Inr p"
      "ppq_elems ?q = add_mset p (ppq_elems q)"
      "ppq_ok (sc_notify_time_compare (m_timed_objs s)) q" "p \<notin># ppq_elems q" using extract_timed_ok [OF ok False] by metis
    obtain et where et: "m_timed_objs s p = Some et" using elem_live [OF ok, of p] p(3) by auto
    show ?thesis
    proof (cases "m_event et = None")
      case False
      then have "next_time s = Inr (Some (m_notify_time et), s)"
        using z \<open>ppq_elems ?q \<noteq> {#}\<close> p(2) et by (subst next_time.simps) (simp add: timed_at_def)
      moreover have "top_at (m_notify_time et) s" using p(2,3) et by (auto simp: top_at_def notify_time_def)
      ultimately show ?thesis using less.prems same
        by (intro exI [of _ "Some (m_notify_time et)"] exI [of _ ?q] exI [of _ "m_timed_objs s"]) simp
    next
      case True
      let ?s1 = "s\<lparr>m_timed_events := q, m_timed_objs := (m_timed_objs s)(p := None)\<rparr>"
      have d: "delete_timed p (s\<lparr>m_timed_events := q\<rparr>) = Inr ?s1" using et True by (simp add: delete_timed_def timed_at_def)
      have ok1: "notifier_ok ?s1" using delete_cancelled [OF less.prems p(3,5,4) et True] d by (simp add: achieves_def)
      have eq: "next_time s = next_time ?s1"
        using z \<open>ppq_elems ?q \<noteq> {#}\<close> p(1,2) et True d by (subst next_time.simps) (simp add: timed_at_def)
      have "size (ppq_elems (m_timed_events ?s1)) < size (ppq_elems ?q)" using p(3) by simp
      from less.hyps [OF this ok1] obtain r qa m where r: "next_time s = Inr (r, ?s1\<lparr>m_timed_events := qa, m_timed_objs := m\<rparr>)"
        "notifier_ok (?s1\<lparr>m_timed_events := qa, m_timed_objs := m\<rparr>)" "size (ppq_elems qa) \<le> size (ppq_elems (m_timed_events ?s1))"
        "case r of None \<Rightarrow> ppq_elems qa = {#} | Some t \<Rightarrow> top_at t (?s1\<lparr>m_timed_events := qa, m_timed_objs := m\<rparr>)"
        unfolding eq by blast
      have "?s1\<lparr>m_timed_events := qa, m_timed_objs := m\<rparr> = s\<lparr>m_timed_events := qa, m_timed_objs := m\<rparr>" by simp
      note r' = r [unfolded this]
      then show ?thesis using p(3) by (intro exI [of _ r] exI [of _ qa] exI [of _ m]) simp
    qed
  qed
qed

section \<open>Timed notifications\<close>

text \<open>Changes of the queue of timed notifications only.\<close>

lemma waiting_ok_timed [simp]:
  "waiting_ok (k\<lparr>m_timed_events := q, m_timed_objs := m\<rparr>) = waiting_ok k"
  "waiting_ok (upd_event e (m_timed_update f) k) = waiting_ok k"
proof -
  have "sens_ok W (k\<lparr>m_timed_events := q, m_timed_objs := m\<rparr>) = sens_ok W k" for W
    by (simp add: sens_ok_def lists_ok_def timeouts_ok_def queues_ok_def users_def timeouts_def proc_queue_of_def runnable_proc_def)
  then show "waiting_ok (k\<lparr>m_timed_events := q, m_timed_objs := m\<rparr>) = waiting_ok k" by (simp add: waiting_ok_def)
  have "sens_ok W (upd_event e (m_timed_update f) k) = sens_ok W k" for W
    by (simp add: sens_ok_def lists_ok_def timeouts_ok_def queues_ok_def users_def timeouts_def proc_queue_of_def runnable_proc_def)
  moreover have "dyn (upd_event e (m_timed_update f) k) th x = dyn k th x"
    "m_methods_static (m_events (upd_event e (m_timed_update f) k) x) = m_methods_static (m_events k x)"
    "m_threads_static (m_events (upd_event e (m_timed_update f) k) x) = m_threads_static (m_events k x)" for th x
    by (cases "x = e"; simp add: dyn_list_def)+
  ultimately show "waiting_ok (upd_event e (m_timed_update f) k) = waiting_ok k" by (simp add: waiting_ok_def)
qed

lemma kernel_ok_timed:
  assumes "kernel_ok k" "notifier_ok (k\<lparr>m_timed_events := q, m_timed_objs := m\<rparr>)"
  shows "kernel_ok (k\<lparr>m_timed_events := q, m_timed_objs := m\<rparr>)"
  using assms by (simp add: kernel_ok_def no_zero_wait_def)

text \<open>What the advance of time keeps.\<close>

definition untouched :: "'v kernel \<Rightarrow> 'v kernel \<Rightarrow> bool" where
  "untouched k k' \<longleftrightarrow> design k' = design k \<and> m_forced_stop k' = m_forced_stop k \<and> m_error k' = m_error k \<and>
     m_paused k' = m_paused k"

lemma untouched_trans: "untouched k k1 \<Longrightarrow> untouched k1 k2 \<Longrightarrow> untouched k k2"
  by (simp add: untouched_def)

lemma untouched_framed: "framed k k' \<Longrightarrow> untouched k k'"
  using framed_kernel [of k k'] by (simp add: untouched_def)

lemma fire_timed_ok:
  assumes "kernel_ok k" "ppq_elems (m_timed_events k) \<noteq> {#}"
  shows "\<exists>p k'. fire_timed k = Inr k' \<and> kernel_ok k' \<and> untouched k k' \<and> m_curr_time k' = m_curr_time k \<and>
    ppq_top (m_timed_events k) = Inr p \<and> ppq_elems (m_timed_events k) = add_mset p (ppq_elems (m_timed_events k')) \<and>
    (\<forall>r\<in>#ppq_elems (m_timed_events k'). notify_time (m_timed_objs k') r = notify_time (m_timed_objs k) r)"
proof -
  have n: "notifier_ok k" and d: "delta_ok k" and t: "timed_ok k" and w: "waiting_ok k" and z: "no_zero_wait k"
    using assms(1) by (simp_all add: kernel_ok_def notifier_ok_def)
  obtain p q where p: "extract_timed k = Inr (p, k\<lparr>m_timed_events := q\<rparr>)" "ppq_top (m_timed_events k) = Inr p"
    "ppq_elems (m_timed_events k) = add_mset p (ppq_elems q)"
    "ppq_ok (sc_notify_time_compare (m_timed_objs k)) q" "p \<notin># ppq_elems q" using extract_timed_ok [OF t assms(2)] by metis
  have "owned k p" using t p(3) by (simp add: timed_ok_def)
  then obtain et where et: "m_timed_objs k p = Some et"
    "\<And>e. m_event et = Some e \<Longrightarrow> ntype k e = TIMED \<and> m_timed (m_events k e) = Some p" by (auto simp: owned_def)
  let ?k1 = "k\<lparr>m_timed_events := q, m_timed_objs := (m_timed_objs k)(p := None)\<rparr>"
  have time: "r \<in># ppq_elems q \<Longrightarrow> notify_time ((m_timed_objs k)(p := None)) r = notify_time (m_timed_objs k) r" for r
    using p(5) by (auto simp: notify_time_def)
  show ?thesis
  proof (cases "m_event et")
    case None
    have del: "delete_timed p (k\<lparr>m_timed_events := q\<rparr>) = Inr ?k1" using et(1) None by (simp add: delete_timed_def timed_at_def)
    have "notifier_ok ?k1" using delete_cancelled [OF n p(3,5,4) et(1) None] del by (simp add: achieves_def)
    from kernel_ok_timed [OF assms(1) this] have "kernel_ok ?k1" .
    moreover have "fire_timed k = Inr ?k1" using p(1) et(1) None del by (simp add: fire_timed_def timed_at_def)
    ultimately show ?thesis using p(2,3) time by (intro exI [of _ p] exI [of _ ?k1]) (simp add: untouched_def)
  next
    case (Some e)
    let ?k2 = "upd_event e (m_timed_update (\<lambda>_. None)) ?k1"
    have shape: "upd_event e (m_timed_update (\<lambda>_. None)) (k\<lparr>m_timed_events := q\<rparr>)\<lparr>m_timed_objs := (m_timed_objs k)(p := None)\<rparr> = ?k2"
      by (simp add: upd_event_def)
    have del: "delete_timed p (k\<lparr>m_timed_events := q\<rparr>) = Inr ?k2"
      using et(1) Some by (simp add: delete_timed_def timed_at_def shape [symmetric])
    have e: "ntype k e = TIMED" using et(2) Some by simp
    have "timed_ok (settle e ?k2)"
      by (rule taken_ok [OF t p(3,5,4) et(1)]) (use Some in \<open>auto simp: settle_def\<close>)
    moreover have "delta_ok (settle e ?k2)" by (rule delta_ok_cong [OF d]) (use e in \<open>auto simp: settle_def\<close>)
    ultimately have "idle_ok e ?k2" by (simp add: idle_ok_def notifier_ok_def)
    then obtain k' where k': "trigger e ?k2 = Inr k'" "event_done e ?k2 k'" using trigger_ok [of ?k2 e] w by auto
    have z2: "no_zero_wait ?k2" by (rule quieter_no_zero_wait [OF z]) (simp add: quieter_def)
    have f: "framed ?k2 k'" by (rule trigger_framed [OF k'(1)])
    have more: "processes.more ?k2 = processes.more k" by (simp add: upd_event_def)
    have "kernel_ok k'" using k'(2) trigger_keeps_delta(1) [OF z2 k'(1)] assms(1) framed_kernel(2) [OF f]
      by (simp add: kernel_ok_def event_done_def) (simp add: upd_event_def)
    moreover have "fire_timed k = Inr k'" using p(1) et(1) Some del k'(1) by (simp add: fire_timed_def timed_at_def)
    moreover have "untouched k k'" using untouched_framed [OF f] by (simp add: untouched_def) (simp add: upd_event_def)
    moreover have "m_timed_events k' = q" "m_curr_time k' = m_curr_time k"
      "notify_time (m_timed_objs k') = notify_time ((m_timed_objs k)(p := None))" using f by (simp_all add: framed_def)
    ultimately show ?thesis using p(2,3) time by auto
  qed
qed

lemma due_at_eq:
  assumes "timed_ok k"
  shows "due_at t k = Inr (top_at t k)"
proof (cases "ppq_elems (m_timed_events k) = {#}")
  case True
  then have "ppq_size (m_timed_events k) = 0" using assms by (subst ppq_size_0) (auto simp: timed_ok_def)
  then show ?thesis using True by (simp add: due_at_def top_at_def)
next
  case False
  then have "ppq_size (m_timed_events k) \<noteq> 0" using assms by (subst ppq_size_0) (auto simp: timed_ok_def)
  moreover obtain p q where p: "ppq_top (m_timed_events k) = Inr p" "ppq_elems (m_timed_events k) = add_mset p (ppq_elems q)"
    using extract_timed_ok [OF assms False] by metis
  moreover obtain et where "m_timed_objs k p = Some et" using elem_live [OF assms, of p] p(2) by auto
  ultimately show ?thesis by (simp add: due_at_def timed_at_def top_at_def notify_time_def)
qed

lemma fire_loop_ok:
  assumes "kernel_ok k" "top_at t k"
  shows "\<exists>k'. fire_loop t k = Some (Inr k') \<and> kernel_ok k' \<and> untouched k k' \<and> m_curr_time k' = m_curr_time k \<and>
    size (ppq_elems (m_timed_events k')) < size (ppq_elems (m_timed_events k)) \<and>
    (\<forall>p\<in>#ppq_elems (m_timed_events k'). t < notify_time (m_timed_objs k') p)"
  using assms
proof (induction "size (ppq_elems (m_timed_events k))" arbitrary: k rule: less_induct)
  case less
  have tk: "timed_ok k" using less.prems(1) by (simp add: kernel_ok_def notifier_ok_def)
  have ne: "ppq_elems (m_timed_events k) \<noteq> {#}" using less.prems(2) by (auto simp: top_at_def)
  obtain p k1 where k1: "fire_timed k = Inr k1" "kernel_ok k1" "untouched k k1" "m_curr_time k1 = m_curr_time k"
    "ppq_elems (m_timed_events k) = add_mset p (ppq_elems (m_timed_events k1))"
    "\<forall>r\<in>#ppq_elems (m_timed_events k1). notify_time (m_timed_objs k1) r = notify_time (m_timed_objs k) r"
    using fire_timed_ok [OF less.prems(1) ne] by blast
  have t1: "timed_ok k1" using k1(2) by (simp add: kernel_ok_def notifier_ok_def)
  have from1: "from_time t k1" using top_from_time [OF tk less.prems(2)] k1(5,6) by (auto simp: from_time_def)
  have sm: "size (ppq_elems (m_timed_events k1)) < size (ppq_elems (m_timed_events k))" using k1(5) by simp
  show ?case
  proof (cases "top_at t k1")
    case True
    have eq: "fire_loop t k = fire_loop t k1" using k1(1) due_at_eq [OF t1, of t] True by (subst fire_loop.simps) simp
    obtain k' where k': "fire_loop t k1 = Some (Inr k')" "kernel_ok k'" "untouched k1 k'" "m_curr_time k' = m_curr_time k1"
      "size (ppq_elems (m_timed_events k')) < size (ppq_elems (m_timed_events k1))"
      "\<forall>p\<in>#ppq_elems (m_timed_events k'). t < notify_time (m_timed_objs k') p"
      using less.hyps [OF sm k1(2) True] by blast
    then show ?thesis using eq sm k1(4) untouched_trans [OF k1(3)] by (intro exI [of _ k']) simp
  next
    case False
    have eq: "fire_loop t k = Some (Inr k1)" using k1(1) due_at_eq [OF t1, of t] False by (subst fire_loop.simps) simp
    have "\<forall>p\<in>#ppq_elems (m_timed_events k1). t < notify_time (m_timed_objs k1) p"
    proof (cases "ppq_elems (m_timed_events k1) = {#}")
      case ne1: False
      obtain r where r: "ppq_top (m_timed_events k1) = Inr r" "r \<in># ppq_elems (m_timed_events k1)"
        "\<And>x. x \<in># ppq_elems (m_timed_events k1) \<Longrightarrow> notify_time (m_timed_objs k1) r \<le> notify_time (m_timed_objs k1) x"
        using extract_timed_ok [OF t1 ne1] by (metis union_single_eq_member)
      have "notify_time (m_timed_objs k1) r \<noteq> t" using False r(1,2) by (auto simp: top_at_def)
      then have "t < notify_time (m_timed_objs k1) r" using from1 r(2) by (auto simp: from_time_def)
      then show ?thesis using r(3) less_le_trans by blast
    qed simp
    then show ?thesis using eq k1 sm by blast
  qed
qed

text \<open>
  After the advance of time: \<open>out\<close> says that there is no notification up to the limit any more;
  otherwise all of those at the time \<open>t\<close> have been made, and some process is runnable.
\<close>

definition none_until :: "sc_time \<Rightarrow> 'v kernel \<Rightarrow> bool" where
  "none_until u k \<longleftrightarrow> (\<forall>p\<in>#ppq_elems (m_timed_events k). u < notify_time (m_timed_objs k) p)"

lemma top_none_until: "timed_ok s \<Longrightarrow> top_at t s \<Longrightarrow> u < t \<Longrightarrow> none_until u s"
  using top_from_time [of s t] less_le_trans by (fastforce simp: none_until_def from_time_def)

lemma none_until_mono: "none_until u k \<Longrightarrow> v \<le> u \<Longrightarrow> none_until v k"
  using le_less_trans by (auto simp: none_until_def)

lemma next_time_into_ok:
  assumes "kernel_ok k"
  shows "\<exists>ok t1 k1. next_time_into t k = Inr (ok, t1, k1) \<and> kernel_ok k1 \<and> untouched k k1 \<and> m_curr_time k1 = m_curr_time k \<and>
    m_runnable k1 = m_runnable k \<and> size (ppq_elems (m_timed_events k1)) \<le> size (ppq_elems (m_timed_events k)) \<and>
    (if ok then top_at t1 k1 else t1 = t \<and> ppq_elems (m_timed_events k1) = {#})"
proof -
  have n: "notifier_ok k" using assms by (simp add: kernel_ok_def)
  obtain r q m where r: "next_time k = Inr (r, k\<lparr>m_timed_events := q, m_timed_objs := m\<rparr>)"
    "notifier_ok (k\<lparr>m_timed_events := q, m_timed_objs := m\<rparr>)" "size (ppq_elems q) \<le> size (ppq_elems (m_timed_events k))"
    "case r of None \<Rightarrow> ppq_elems q = {#} | Some t \<Rightarrow> top_at t (k\<lparr>m_timed_events := q, m_timed_objs := m\<rparr>)"
    using next_time_scan [OF n] by blast
  have "kernel_ok (k\<lparr>m_timed_events := q, m_timed_objs := m\<rparr>)" by (rule kernel_ok_timed [OF assms r(2)])
  then show ?thesis using r by (cases r) (auto simp: next_time_into_def untouched_def)
qed

lemma advance_ok:
  assumes "kernel_ok k"
  shows "kernel_ok (advance_to t k)" "untouched k (advance_to t k)" "m_curr_time (advance_to t k) = t"
    "top_at u (advance_to t k) = top_at u k" "m_timed_events (advance_to t k) = m_timed_events k"
proof -
  show "kernel_ok (advance_to t k)"
    by (rule kernel_ok_keep [OF assms]) (use assms in \<open>simp_all add: advance_to_def same_events_def kernel_ok_def\<close>)
qed (simp_all add: advance_to_def untouched_def top_at_def)

text \<open>What the loop that advances the time establishes.\<close>

definition advanced :: "sc_time \<Rightarrow> 'v kernel \<Rightarrow> bool \<Rightarrow> sc_time \<Rightarrow> 'v kernel \<Rightarrow> bool" where
  "advanced u k out t' k' \<longleftrightarrow> kernel_ok k' \<and> untouched k k' \<and> m_curr_time k \<le> m_curr_time k' \<and>
     m_curr_time k' \<le> max u (m_curr_time k) \<and>
     (if out then none_until u k' \<and> (t' \<le> m_curr_time k' \<or> u < t')
      else t' \<le> u \<and> t' \<le> m_curr_time k' \<and> none_until t' k' \<and>
        size (ppq_elems (m_timed_events k')) < size (ppq_elems (m_timed_events k)))"

lemma timed_round_ok:
  assumes "kernel_ok k" "t \<le> m_curr_time k"
  shows "\<exists>e t' k'. timed_round u t k = Some (Inr (e, t', k')) \<and> advanced u k (e = Goto_out) t' k'"
proof -
  obtain ok t1 k1 where k1: "next_time_into t k = Inr (ok, t1, k1)" "kernel_ok k1" "untouched k k1" "m_curr_time k1 = m_curr_time k"
    "m_runnable k1 = m_runnable k" "size (ppq_elems (m_timed_events k1)) \<le> size (ppq_elems (m_timed_events k))"
    "if ok then top_at t1 k1 else t1 = t \<and> ppq_elems (m_timed_events k1) = {#}" using next_time_into_ok [OF assms(1)] by blast
  have tk: "timed_ok k1" using k1(2) by (simp add: kernel_ok_def notifier_ok_def)
  show ?thesis
  proof (cases "\<not> ok \<or> t1 > u")
    case True
    then have "none_until u k1" using k1(7) top_none_until [OF tk, of t1 u] by (auto simp: none_until_def split: if_splits)
    moreover have "t1 \<le> m_curr_time k1 \<or> u < t1" using True k1(4,7) assms(2) by (auto split: if_splits)
    ultimately have "advanced u k True t1 k1" using k1(2,3,4) by (simp add: advanced_def)
    moreover have "timed_round u t k = Some (Inr (Goto_out, t1, k1))" using k1(1) True by (auto simp: timed_round_def)
    ultimately show ?thesis by auto
  next
    case False
    define ka where "ka = (if t1 > m_curr_time k1 then advance_to t1 k1 else k1)"
    have ka: "kernel_ok ka" "untouched k1 ka" "m_curr_time ka = max t1 (m_curr_time k1)" "top_at t1 ka"
      "m_timed_events ka = m_timed_events k1"
      using k1(2,7) False advance_ok [OF k1(2)] by (auto simp: ka_def untouched_def max_def)
    obtain k2 where k2: "fire_loop t1 ka = Some (Inr k2)" "kernel_ok k2" "untouched ka k2" "m_curr_time k2 = m_curr_time ka"
      "size (ppq_elems (m_timed_events k2)) < size (ppq_elems (m_timed_events ka))"
      "\<forall>p\<in>#ppq_elems (m_timed_events k2). t1 < notify_time (m_timed_objs k2) p" using fire_loop_ok [OF ka(1,4)] by blast
    obtain mx my tx ty where q: "queued k2 False mx my" "queued k2 True tx ty" using kernel_ok_queued [OF k2(2)] by blast
    note b = is_empty_queued [OF q]
    let ?b = "mx = [] \<and> my = [] \<and> tx = [] \<and> ty = []"
    have "timed_round u t k = Some (Inr (if ?b then More_rounds else Phase_done, t1, k2))"
      using k1(1) False k2(1) b by (simp add: timed_round_def ka_def [symmetric])
    moreover have "advanced u k False t1 k2"
      using k2 ka k1(3,4,6) False untouched_trans [OF untouched_trans [OF k1(3) ka(2)] k2(3)]
      by (auto simp: advanced_def none_until_def max_def)
    ultimately show ?thesis by auto
  qed
qed

lemma advanced_step:
  "advanced u k False t1 k1 \<Longrightarrow> advanced u k1 out t' k' \<Longrightarrow> advanced u k out t' k'"
  using untouched_trans [of k k1 k'] by (auto simp: advanced_def max_def split: if_splits)

lemma timed_loop_ok:
  assumes "kernel_ok k" "t \<le> m_curr_time k"
  shows "\<exists>out t' k'. timed_loop u t k = Some (Inr (out, t', k')) \<and> advanced u k out t' k'"
  using assms
proof (induction "size (ppq_elems (m_timed_events k))" arbitrary: k t rule: less_induct)
  case less
  obtain e t1 k1 where k1: "timed_round u t k = Some (Inr (e, t1, k1))" "advanced u k (e = Goto_out) t1 k1"
    using timed_round_ok [OF less.prems] by blast
  show ?case
  proof (cases "e = More_rounds")
    case False
    then have "timed_loop u t k = Some (Inr (e = Goto_out, t1, k1))" using k1(1) by (subst timed_loop.simps) simp
    then show ?thesis using k1(2) by blast
  next
    case True
    then have a: "advanced u k False t1 k1" using k1(2) by simp
    then have p: "size (ppq_elems (m_timed_events k1)) < size (ppq_elems (m_timed_events k))" "kernel_ok k1" "t1 \<le> m_curr_time k1"
      by (simp_all add: advanced_def)
    obtain out t' k' where "timed_loop u t1 k1 = Some (Inr (out, t', k'))" "advanced u k1 out t' k'" using less.hyps [OF p] by blast
    moreover have "timed_loop u t k = timed_loop u t1 k1" using k1(1) True by (subst timed_loop.simps) simp
    ultimately show ?thesis using advanced_step [OF a] by auto
  qed
qed

section \<open>Simulation up to a time\<close>

lemma cycled_trace:
  assumes "cycled B k k1" "\<forall>t. B t v \<le> B t (design k1)"
  shows "cycled B k (k1\<lparr>design := v\<rparr>)"
proof -
  have "kernel_ok (k1\<lparr>design := v\<rparr>)"
    by (rule kernel_ok_keep [of k1]) (use assms(1) in \<open>simp_all add: cycled_def same_events_def kernel_ok_def\<close>)
  moreover have "B (m_curr_time k) v \<le> B (m_curr_time k) (design k1)" using assms(2) by blast
  ultimately show ?thesis using assms(1) by (auto simp: cycled_def)
qed

lemma quiescent_design [simp]: "quiescent (k\<lparr>design := v\<rparr>) = quiescent k"
  by (simp add: quiescent_def queued_def proc_queue_of_def)

text \<open>One call of \<open>crunch\<close> and the trace files after it.\<close>

lemma crunch_and_trace_ok:
  assumes "program_ok P B" "kernel_ok k"
  shows "crunch P once k = Some (Inl Sc_report_error) \<or>
    (\<exists>k1 v. crunch P once k = Some (Inr k1) \<and> trace_if_needed P d k1 = Inr (k1\<lparr>design := v\<rparr>) \<and>
      cycled B k (k1\<lparr>design := v\<rparr>) \<and> \<not> m_error k1 \<and> (once \<or> m_forced_stop k1 \<or> m_paused k1 \<or> quiescent k1))"
proof -
  { fix k1 assume k1: "crunch P once k = Some (Inr k1)" "cycled B k k1" "\<not> m_error k1"
      "once \<or> m_forced_stop k1 \<or> m_paused k1 \<or> quiescent k1"
    obtain v where "trace_if_needed P d k1 = Inr (k1\<lparr>design := v\<rparr>)" "\<forall>t. B t v \<le> B t (design k1)"
      using trace_if_needed_ok [OF assms(1)] by blast
    then have ?thesis using k1 cycled_trace [OF k1(2)] by blast }
  then show ?thesis using crunch_ok [OF assms, of once] by blast
qed

lemma do_sc_stop_action_ok:
  assumes "program_ok P B"
  shows "\<exists>k'. do_sc_stop_action P k = Inr k' \<and> m_curr_time k' = m_curr_time k \<and> m_forced_stop k' = m_forced_stop k \<and>
    m_simulation_status k' = SC_STOPPED"
proof (cases "m_start_of_simulation_called k")
  case True
  define k0 where "k0 = k\<lparr>m_simulation_status := SC_END_OF_SIMULATION, m_ready_to_simulate := False\<rparr>"
  have k0: "m_curr_time k0 = m_curr_time k" "m_forced_stop k0 = m_forced_stop k" by (simp_all add: k0_def)
  obtain k1 where "end_callbacks P k0 = Inr k1" "m_curr_time k1 = m_curr_time k0" "m_forced_stop k1 = m_forced_stop k0"
    using assms unfolding program_ok_def by blast
  then show ?thesis using True k0 by (simp add: do_sc_stop_action_def simcontext_end_def k0_def)
next
  case False
  then show ?thesis by (simp add: do_sc_stop_action_def)
qed

text \<open>How a simulation up to \<open>u\<close> may end.\<close>

definition ended :: "sc_time \<Rightarrow> 'v kernel \<Rightarrow> bool" where
  "ended u k' \<longleftrightarrow> m_forced_stop k' \<or> kernel_ok k' \<and> (m_paused k' \<or> none_until u k')"

definition within :: "sc_time \<Rightarrow> 'v kernel \<Rightarrow> 'v kernel \<Rightarrow> bool" where
  "within u k k' \<longleftrightarrow> m_curr_time k \<le> m_curr_time k' \<and> m_curr_time k' \<le> u"

text \<open>One round of the outer loop: later, or nearer to the end of the activity at this time.\<close>

definition progress :: "(sc_time \<Rightarrow> 'v \<Rightarrow> nat) \<Rightarrow> 'v kernel \<Rightarrow> 'v kernel \<Rightarrow> bool" where
  "progress B k k' \<longleftrightarrow> m_curr_time k < m_curr_time k' \<or> m_curr_time k' = m_curr_time k \<and>
     (B (m_curr_time k) (design k') < B (m_curr_time k) (design k) \<or>
      B (m_curr_time k) (design k') = B (m_curr_time k) (design k) \<and>
      size (ppq_elems (m_timed_events k')) < size (ppq_elems (m_timed_events k)))"

lemma simulate_round_ok:
  assumes "program_ok P B" "kernel_ok k" "m_curr_time k \<le> u"
  shows "simulate_round P u k = Some (Inl Sc_report_error) \<or>
    (\<exists>k'. simulate_round P u k = Some (Inr (False, k')) \<and> within u k k' \<and> ended u k') \<or>
    (\<exists>k'. simulate_round P u k = Some (Inr (True, k')) \<and> within u k k' \<and> kernel_ok k' \<and> progress B k k')"
proof (cases "crunch P False k = Some (Inl Sc_report_error)")
  case True
  then show ?thesis by (simp add: simulate_round_def)
next
  case False
  obtain k1 v where k1: "crunch P False k = Some (Inr k1)" "trace_if_needed P False k1 = Inr (k1\<lparr>design := v\<rparr>)"
    "cycled B k (k1\<lparr>design := v\<rparr>)" using crunch_and_trace_ok [OF assms(1,2), of False False] False by blast
  define k2 where "k2 = k1\<lparr>design := v\<rparr>"
  have k2: "kernel_ok k2" "m_curr_time k2 = m_curr_time k" "cycled B k k2" using k1(3) by (simp_all add: k2_def cycled_def)
  note run = k1(1) k1(2) [folded k2_def]
  show ?thesis
  proof (cases "m_forced_stop k2")
    case True
    obtain k3 where k3: "do_sc_stop_action P k2 = Inr k3" "m_curr_time k3 = m_curr_time k2" "m_forced_stop k3 = m_forced_stop k2"
      using do_sc_stop_action_ok [OF assms(1)] by blast
    have "simulate_round P u k = Some (Inr (False, k3))" using run True k3(1) by (simp add: simulate_round_def)
    moreover have "within u k k3" "ended u k3" using k3 True k2(2) assms(3) by (simp_all add: ended_def within_def)
    ultimately show ?thesis by blast
  next
    case no_stop: False
    have leave: "kernel_ok (leave_control k') = kernel_ok k'" for k' :: "'a kernel"
    proof
      assume "kernel_ok k'"
      then show "kernel_ok (leave_control k')"
        by (rule kernel_ok_keep) (use \<open>kernel_ok k'\<close> in \<open>simp_all add: leave_control_def same_events_def kernel_ok_def\<close>)
    next
      assume l: "kernel_ok (leave_control k')"
      then show "kernel_ok k'"
        by (rule kernel_ok_keep) (use l in \<open>simp_all add: leave_control_def same_events_def kernel_ok_def\<close>)
    qed
    show ?thesis
    proof (cases "m_paused k2")
      case True
      have run: "simulate_round P u k = Some (Inr (False, leave_control k2))" using run True no_stop by (simp add: simulate_round_def)
      moreover have "m_paused (leave_control k2) = m_paused k2" "m_curr_time (leave_control k2) = m_curr_time k2"
        by (simp_all add: leave_control_def)
      ultimately have "within u k (leave_control k2)" "ended u (leave_control k2)"
        using k2 True assms(3) by (simp_all add: ended_def leave within_def)
      then show ?thesis using run by blast
    next
      case False
      obtain out t' k3 where k3: "timed_loop u (m_curr_time k2) k2 = Some (Inr (out, t', k3))" "advanced u k2 out t' k3"
        using timed_loop_ok [OF k2(1)] by blast
      have le: "m_curr_time k \<le> m_curr_time k3" "m_curr_time k3 \<le> u"
        using k3(2) k2(2) assms(3) by (auto simp: advanced_def max_def split: if_splits)
      show ?thesis
      proof (cases "out \<or> \<not> t' < u")
        case True
        then have "simulate_round P u k = Some (Inr (False, exit_simulate u t' k3))"
          using run k3(1) no_stop False by (simp add: simulate_round_def)
        moreover have "exit_simulate u t' k3 = leave_control k3" "none_until u k3"
          using k3(2) True by (auto simp: exit_simulate_def advanced_def split: if_splits)
        moreover have "kernel_ok (leave_control k3)" using k3(2) by (simp add: leave advanced_def)
        moreover have "m_curr_time (leave_control k3) = m_curr_time k3" "none_until u (leave_control k3) = none_until u k3"
          by (simp_all add: leave_control_def none_until_def)
        ultimately have "simulate_round P u k = Some (Inr (False, leave_control k3))"
          "within u k (leave_control k3)" "ended u (leave_control k3)" using le by (simp_all add: ended_def within_def)
        then show ?thesis by blast
      next
        case c: False
        then have "simulate_round P u k = Some (Inr (True, k3))" using run k3(1) no_stop False by (simp add: simulate_round_def)
        moreover have "kernel_ok k3" "design k3 = design k2"
          "size (ppq_elems (m_timed_events k3)) < size (ppq_elems (m_timed_events k2))"
          using k3(2) c by (auto simp: advanced_def untouched_def)
        moreover have "progress B k k3"
          using le(1) k2(2,3) \<open>design k3 = design k2\<close> \<open>size _ < size _\<close> by (auto simp: cycled_def progress_def)
        ultimately show ?thesis using le by (auto simp: within_def)
      qed
    qed
  qed
qed

lemmas simulate_induct = wf_induct_rule [OF wf_lex_prod [OF wf_measure [of "\<lambda>t. unat (- 1 - t :: sc_time)"]
  wf_lex_prod [OF wf_less_than wf_less_than]], case_names less]

lemma later_measure: "t < t' \<Longrightarrow> unat (- 1 - t' :: sc_time) < unat (- 1 - t)"
proof -
  assume "t < t'"
  then have "unat t < unat t'" "unat t' \<le> unat (- 1 :: sc_time)"
    using word_order.extremum [of t'] by (simp_all only: word_less_nat_alt word_le_nat_alt)
  then show ?thesis by (simp only: unat_sub [OF word_order.extremum])
qed

lemma simulate_loop_ok:
  assumes "program_ok P B" "kernel_ok k" "m_curr_time k \<le> u"
  shows "simulate_loop P u k = Some (Inl Sc_report_error) \<or>
    (\<exists>k'. simulate_loop P u k = Some (Inr k') \<and> within u k k' \<and> ended u k')"
  using assms(2,3)
proof (induction "(m_curr_time k, B (m_curr_time k) (design k), size (ppq_elems (m_timed_events k)))" arbitrary: k
    rule: simulate_induct)
  case less
  consider "simulate_round P u k = Some (Inl Sc_report_error)"
    | k' where "simulate_round P u k = Some (Inr (False, k'))" "within u k k'" "ended u k'"
    | k1 where "simulate_round P u k = Some (Inr (True, k1))" "within u k k1" "kernel_ok k1" "progress B k k1"
    using simulate_round_ok [OF assms(1) less.prems] by blast
  then show ?case
  proof cases
    case 1
    then show ?thesis by (subst simulate_loop.simps) simp
  next
    case (2 k')
    then have "simulate_loop P u k = Some (Inr k')" by (subst simulate_loop.simps) simp
    then show ?thesis using 2(2,3) by blast
  next
    case (3 k1)
    have eq: "simulate_loop P u k = simulate_loop P u k1" using 3(1) by (subst simulate_loop.simps) simp
    have "((m_curr_time k1, B (m_curr_time k1) (design k1), size (ppq_elems (m_timed_events k1))),
        (m_curr_time k, B (m_curr_time k) (design k), size (ppq_elems (m_timed_events k))))
        \<in> measure (\<lambda>t. unat (- 1 - t :: sc_time)) <*lex*> less_than <*lex*> less_than"
      using 3(4) later_measure [of "m_curr_time k" "m_curr_time k1"] unfolding progress_def by auto
    moreover have "m_curr_time k1 \<le> u" using 3(2) by (simp add: within_def)
    ultimately consider "simulate_loop P u k1 = Some (Inl Sc_report_error)"
      | k' where "simulate_loop P u k1 = Some (Inr k')" "within u k1 k'" "ended u k'" using less.hyps 3(3) by blast
    then show ?thesis
    proof cases
      case (2 k')
      then have "within u k k'" using 3(2) order_trans by (auto simp: within_def)
      then show ?thesis using 2 eq by auto
    qed (simp add: eq)
  qed
qed

section \<open>The call of simulate\<close>

text \<open>The kernel between two calls: elaborated, prepared, neither stopped nor in error.\<close>

definition ready :: "'v kernel \<Rightarrow> bool" where
  "ready k \<longleftrightarrow> kernel_ok k \<and> m_elaboration_done k \<and> m_ready_to_simulate k \<and> \<not> m_forced_stop k \<and> \<not> m_error k"

lemma initialize_ready:
  assumes "ready k"
  shows "initialize_simulation P hm ht True k = Some (Inr (leave_control (k\<lparr>m_in_simulator_control := True\<rparr>)))"
  using assms by (simp add: ready_def initialize_simulation_def elaborate_design_def prepare_to_simulate_def initial_crunch_def
    leave_control_def)

lemma sc_simulate_ready:
  assumes "ready k"
  shows "sc_simulate P hm ht d k =
    (let k1 = k\<lparr>m_in_simulator_control := True, m_paused := False\<rparr>
     in if d > - 1 - m_curr_time k then Some (Inl Sc_report_error)
        else if d = 0 then simulate_once P k1 else simulate_loop P (m_curr_time k + d) k1)"
proof -
  have "leave_control (k\<lparr>m_in_simulator_control := True\<rparr>)\<lparr>m_in_simulator_control := True, m_paused := False\<rparr> =
    k\<lparr>m_in_simulator_control := True, m_paused := False\<rparr>" by (simp add: leave_control_def)
  moreover have "sim_status (leave_control k1) = sim_status k1" "m_curr_time (leave_control k1) = m_curr_time k1" for k1 :: "'a kernel"
    by (simp_all add: sim_status_def leave_control_def)
  moreover have "sim_status (k\<lparr>m_in_simulator_control := True\<rparr>) = SC_SIM_OK" using assms by (simp add: ready_def sim_status_def)
  ultimately show ?thesis unfolding sc_simulate_def initialize_ready [OF assms] by (simp add: Let_def)
qed

lemma later_bound: "d \<le> - 1 - t \<Longrightarrow> t \<le> t + (d :: sc_time)"
proof -
  assume "d \<le> - 1 - t"
  moreover have "unat t \<le> unat (- 1 :: sc_time)" by (simp only: word_le_nat_alt [symmetric] word_order.extremum)
  ultimately have "unat t + unat d \<le> unat (- 1 :: sc_time)"
    by (simp only: word_le_nat_alt unat_sub [OF word_order.extremum])
  then have "unat t + unat d < 2 ^ LENGTH(64)" using unsigned_less [of "- 1 :: sc_time", where ?'a = nat] by simp
  then show ?thesis by (simp add: word_le_nat_alt unat_word_ariths)
qed

lemma simulate_once_ok:
  assumes "program_ok P B" "kernel_ok k"
  shows "simulate_once P k = Some (Inl Sc_report_error) \<or>
    (\<exists>k'. simulate_once P k = Some (Inr k') \<and> m_curr_time k' = m_curr_time k)"
proof (cases "crunch P True k = Some (Inl Sc_report_error)")
  case True
  then show ?thesis by (simp add: simulate_once_def)
next
  case False
  obtain k1 v where k1: "crunch P True k = Some (Inr k1)" "trace_if_needed P False k1 = Inr (k1\<lparr>design := v\<rparr>)"
    "cycled B k (k1\<lparr>design := v\<rparr>)" using crunch_and_trace_ok [OF assms, of True False] False by blast
  define k2 where "k2 = k1\<lparr>design := v\<rparr>"
  note run = k1(1) k1(2) [folded k2_def]
  obtain k3 where "do_sc_stop_action P k2 = Inr k3" "m_curr_time k3 = m_curr_time k2"
    using do_sc_stop_action_ok [OF assms(1)] by blast
  moreover have "m_curr_time k2 = m_curr_time k" using k1(3) by (simp add: k2_def cycled_def)
  ultimately show ?thesis using run by (auto simp: simulate_once_def leave_control_def)
qed

lemma sc_simulate_ok:
  assumes "program_ok P B" "ready k" "d \<le> - 1 - m_curr_time k"
  shows "sc_simulate P hm ht d k = Some (Inl Sc_report_error) \<or>
    (\<exists>k'. sc_simulate P hm ht d k = Some (Inr k') \<and> within (m_curr_time k + d) k k' \<and>
       (d \<noteq> 0 \<longrightarrow> ended (m_curr_time k + d) k'))"
proof -
  let ?k = "k\<lparr>m_in_simulator_control := True, m_paused := False\<rparr>"
  have ok: "kernel_ok ?k"
    by (rule kernel_ok_keep [of k]) (use assms(2) in \<open>simp_all add: ready_def same_events_def kernel_ok_def\<close>)
  have le: "m_curr_time k \<le> m_curr_time k + d"
    by (rule later_bound [OF assms(3)])
  have run: "sc_simulate P hm ht d k = (if d = 0 then simulate_once P ?k else simulate_loop P (m_curr_time k + d) ?k)"
    using assms(3) by (simp add: sc_simulate_ready [OF assms(2)] Let_def not_less [symmetric])
  show ?thesis
  proof (cases "d = 0")
    case True
    then show ?thesis using simulate_once_ok [OF assms(1) ok] run by (auto simp: within_def)
  next
    case False
    then show ?thesis using simulate_loop_ok [OF assms(1) ok, of "m_curr_time k + d"] run le by (auto simp: within_def)
  qed
qed

end
