(* ===== verification/Sc_Zero_Wait.thy ===== *)
theory Sc_Zero_Wait
  imports Sc_Delta_Facts
begin

text \<open>
  The notification phase when a thread does wait for an event with a time limit of zero, so that its
  time-out is in the vector of delta notifications: triggering the event cancels the time-out, which moves
  the event down in the vector the loop is running over.
\<close>

section \<open>Threads that count occurrences\<close>

text \<open>The thread \<open>q\<close> waits with its static sensitivity and lets \<open>n\<close> more occurrences pass.\<close>

definition counting :: "nat \<Rightarrow> int \<Rightarrow> 'z processes_scheme \<Rightarrow> bool" where
  "counting q n s \<longleftrightarrow> m_is_thread (m_procs s q) \<and> \<not> ps_disabled (m_procs s q) \<and> m_trigger_type (m_procs s q) = STATIC \<and>
     m_curr_proc s \<noteq> Some q \<and> \<not> runnable_proc True q s \<and> m_wait_cycle_n (m_procs s q) = n"

lemma counting_cong:
  "m_procs s' q = m_procs s q \<Longrightarrow> m_curr_proc s' = m_curr_proc s \<Longrightarrow> runnable_proc True q s' = runnable_proc True q s \<Longrightarrow>
    counting q n s' = counting q n s"
  by (simp add: counting_def)

lemma static_thread_other:
  assumes "sens_ok W s" "m_is_thread (m_procs s x)" "trigger_static_thread x s = Inr s'" "q \<noteq> x"
  shows "counting q n s' = counting q n s"
proof -
  have "Inr s = (Inr s' :: _ result) \<or> Inr (upd_proc x (m_wait_cycle_n_update (\<lambda>n. n - 1)) s) = (Inr s' :: _ result) \<or>
      m_trigger_type (m_procs s x) = STATIC \<and> \<not> runnable_proc True x s \<and> make_ready True x s = Inr s'"
    using assms(3) unfolding trigger_static_thread_def by presburger
  then consider "s = s'" | "s' = upd_proc x (m_wait_cycle_n_update (\<lambda>n. n - 1)) s"
    | "m_trigger_type (m_procs s x) = STATIC" "\<not> runnable_proc True x s" "make_ready True x s = Inr s'" by blast
  then show ?thesis
  proof cases
    case 2
    then show ?thesis using assms(4) by (simp add: counting_def runnable_proc_def proc_queue_of_def)
  next
    case 3
    then obtain t where t: "make_ready True x s = Inr t" "m_curr_proc t = m_curr_proc s"
      "m_procs t = (m_procs s)(x := (if ps_suspended (m_procs s x) then (m_procs s x)\<lparr>ps_ready_to_run := True\<rparr> else m_procs s x))"
      "\<forall>th' y. runnable_proc th' y t \<longleftrightarrow> runnable_proc th' y s \<or> (th' = True \<and> y = x \<and> \<not> ps_suspended (m_procs s x))"
      using make_ready_ok [OF assms(1), of x True] assms(2) by auto
    then have "s' = t" using 3(3) by simp
    then show ?thesis using t(2-4) assms(4) by (simp add: counting_def)
  qed simp
qed

lemma static_thread_counts:
  assumes "counting q n s" "0 < n" "trigger_static_thread q s = Inr s'"
  shows "counting q (n - 1) s'"
  using assms by (auto simp: counting_def trigger_static_thread_def runnable_proc_def proc_queue_of_def)

lemma static_pass_counts:
  assumes "sens_ok W s" "\<forall>x\<in>set ps. m_is_thread (m_procs s x)" "distinct ps" "0 < n" "counting q n s"
    and "for_each trigger_static_thread ps s = Inr s'"
  shows "counting q (if q \<in> set ps then n - 1 else n) s'"
  using assms
proof (induction ps arbitrary: s n)
  case (Cons x ps)
  obtain s1 where s1: "trigger_static_thread x s = Inr s1" "sens_ok W s1" "stirred True s s1"
    using trigger_static_ok [OF Cons.prems(1), of x True] Cons.prems(2) by auto
  have run: "for_each trigger_static_thread ps s1 = Inr s'" using Cons.prems(6) s1(1) by simp
  have th: "\<forall>x\<in>set ps. m_is_thread (m_procs s1 x)" using Cons.prems(2) stirredD(3) [OF s1(3)] by simp
  show ?case
  proof (cases "q = x")
    case True
    have c: "counting q (n - 1) s1" using static_thread_counts [OF Cons.prems(5,4)] s1(1) True by simp
    have "counting q (n - 1) s'" if "\<forall>y\<in>set ys. m_is_thread (m_procs t y)" "q \<notin> set ys" "counting q (n - 1) t" "sens_ok W t"
      "for_each trigger_static_thread ys t = Inr s'" for ys t
      using that
    proof (induction ys arbitrary: t)
      case (Cons y ys)
      obtain t1 where t1: "trigger_static_thread y t = Inr t1" "sens_ok W t1" "stirred True t t1"
        using trigger_static_ok [OF Cons.prems(4), of y True] Cons.prems(1) by auto
      show ?case
        by (rule Cons.IH [of t1])
          (use Cons.prems t1 static_thread_other [OF Cons.prems(4) _ t1(1), of q "n - 1"] stirredD(3) [OF t1(3)] in auto)
    qed simp
    from this [OF th _ c s1(2) run] show ?thesis using Cons.prems(3) True by simp
  next
    case False
    have "counting q n s1" using static_thread_other [OF Cons.prems(1) _ s1(1) False] Cons.prems(2,5) by simp
    from Cons.IH [OF s1(2) th _ Cons.prems(4) this run] Cons.prems(3) show ?thesis using False by simp
  qed
qed simp

section \<open>Triggering with empty lists\<close>

lemma loop_nil: "dyn s th e = [] \<Longrightarrow> dynamic_loop th e 0 0 s = Inr s"
proof -
  assume "dyn s th e = []"
  then have "set_dyn_list th (take 0 (dyn s th e)) (m_events s e) = m_events s e"
    by (cases th) (simp_all add: set_dyn_list_def dyn_list_def)
  then have "upd_event e (set_dyn_list th (take 0 (dyn s th e))) s = s" by (simp add: upd_event_def)
  then show ?thesis by (subst dynamic_loop.simps) simp
qed

text \<open>The two passes over the statically sensitive processes.\<close>

definition passed :: "nat \<Rightarrow> 'z processes_scheme \<Rightarrow> 'z processes_scheme \<Rightarrow> bool" where
  "passed e s s' \<longleftrightarrow> (\<exists>t. stirred False s t \<and> stirred True t s') \<and>
     (\<forall>q n. q \<in> set (m_threads_static (m_events s e)) \<and> distinct (m_threads_static (m_events s e)) \<and> 0 < n \<and> counting q n s \<longrightarrow>
        counting q (n - 1) s')"

lemma passes_ok:
  assumes "sens_ok W s" "\<forall>p\<in>set (m_methods_static (m_events s e)). \<not> m_is_thread (m_procs s p)"
    "\<forall>p\<in>set (m_threads_static (m_events s e)). m_is_thread (m_procs s p)" "dyn s False e = []"
  obtains s' where "sens_ok W s'" "passed e s s'"
    "trigger e s = bind_result (dynamic_loop True e 0 (length (dyn s True e)) s') (\<lambda>s4.
       Inr (upd_event e (\<lambda>ev. ev\<lparr>m_notify_type := NONE, m_delta_event_index := - 1, m_timed := None\<rparr>) s4))"
proof -
  obtain t where t: "for_each trigger_static_method (rev (m_methods_static (m_events s e))) s = Inr t" "sens_ok W t" "stirred False s t"
    using static_pass_ok [OF assms(1), of "rev (m_methods_static (m_events s e))" False] assms(2) by auto
  have ev: "m_events t = m_events s" using t(3) by (simp add: stirred_def)
  have th: "\<forall>p\<in>set (rev (m_threads_static (m_events s e))). m_is_thread (m_procs t p)"
    using assms(3) stirredD(3) [OF t(3)] by simp
  obtain s' where s': "for_each trigger_static_thread (rev (m_threads_static (m_events s e))) t = Inr s'" "sens_ok W s'" "stirred True t s'"
    using static_pass_ok [OF t(2), of "rev (m_threads_static (m_events s e))" True] th by auto
  have ev': "m_events s' = m_events s" using s'(3) ev by (simp add: stirred_def)
  have "counting q n t = counting q n s" for q n
    by (cases "m_is_thread (m_procs s q)", rule counting_cong)
      (use t(3) stirredD(3) [OF t(3)] in \<open>auto simp: stirred_def counting_def\<close>)
  then have "counting q (n - 1) s'" if "q \<in> set (m_threads_static (m_events s e))" "distinct (m_threads_static (m_events s e))"
    "0 < n" "counting q n s" for q n
    using static_pass_counts [OF t(2) th _ that(3) _ s'(1), of q] that by simp
  then have "passed e s s'" using t(3) s'(3) unfolding passed_def by blast
  moreover have "trigger e s = bind_result (dynamic_loop True e 0 (length (dyn s True e)) s') (\<lambda>s4.
       Inr (upd_event e (\<lambda>ev. ev\<lparr>m_notify_type := NONE, m_delta_event_index := - 1, m_timed := None\<rparr>) s4))"
    using t(1) s'(1) ev ev' assms(4) loop_nil [of False t e] by (simp add: trigger_def dyn_list_def)
  ultimately show thesis using that s'(2) by blast
qed

section \<open>The waiting thread\<close>

definition on_events :: "(nat \<Rightarrow> sc_event) \<Rightarrow> nat list \<Rightarrow> 'z notifier_scheme \<Rightarrow> 'z notifier_scheme" where
  "on_events ev d s = s\<lparr>m_events := ev, m_delta_events := d\<rparr>"

lemma on_events_simps [simp]:
  "m_events (on_events ev d s) = ev" "m_delta_events (on_events ev d s) = d"
  "m_procs (on_events ev d z) = m_procs z" "m_event_lists (on_events ev d z) = m_event_lists z"
  "m_runnable (on_events ev d z) = m_runnable z" "m_curr_proc (on_events ev d z) = m_curr_proc z"
  "proc_queue_of th (on_events ev d z) = proc_queue_of th z" "runnable_proc th p (on_events ev d z) = runnable_proc th p z"
  "on_events ev d z\<lparr>m_runnable := r\<rparr> = on_events ev d (z\<lparr>m_runnable := r\<rparr>)"
  "upd_proc p f (on_events ev d z) = on_events ev d (upd_proc p f z)"
  "upd_event e g (on_events ev d s) = on_events (ev(e := g (ev e))) d s"
  by (simp_all add: on_events_def proc_queue_of_def runnable_proc_def upd_proc_def upd_event_def)

lemma sens_on_events: "sens_ok W (on_events ev d s) = sens_ok W s"
  by (simp add: sens_ok_def lists_ok_def timeouts_ok_def queues_ok_def users_def timeouts_def)

lemma make_ready_on_events: "make_ready th p (on_events ev d s) = map_sum id (on_events ev d) (make_ready th p s)"
  by (simp add: make_ready_def push_runnable_def map_sum_bind)

text \<open>
  What the thread does when its event is triggered: it cancels its time-out \<open>te\<close>. With \<open>te\<close> and the event in the
  vector, the event takes the place of \<open>te\<close>; with \<open>te\<close> alone the vector becomes empty. The rest is the same.
\<close>

definition stopped :: "nat \<Rightarrow> (nat \<Rightarrow> sc_event) \<Rightarrow> nat \<Rightarrow> sc_event" where
  "stopped te ev = ev(te := (ev te)\<lparr>m_notify_type := NONE, m_delta_event_index := - 1, m_timed := None,
     m_methods_dynamic := [], m_threads_dynamic := []\<rparr>)"

definition awake :: "nat \<Rightarrow> 'z processes_scheme \<Rightarrow> 'z processes_scheme" where
  "awake p = upd_proc p (\<lambda>q. q\<lparr>m_timed_out := False, m_event_p := None, m_trigger_type := STATIC\<rparr>)"

lemma thread_awakes:
  assumes "m_trigger_type (m_procs s p) = EVENT_TIMEOUT" "\<not> ps_disabled (m_procs s p)" "\<not> runnable_proc True p s"
    and te: "m_timeout_event_p (m_procs s p) = te" "te \<noteq> e" "ntype s te = DELTA" "m_delta_event_index (m_events s te) = 0"
    and d: "m_delta_events s = te # (if both then [e] else [])"
  shows "trigger_dynamic True e p s = map_sum id (\<lambda>x. (True, on_events
      (stopped te (if both then (m_events s)(e := (m_events s e)\<lparr>m_delta_event_index := 0\<rparr>) else m_events s))
      (if both then [e] else []) x)) (make_ready True p (awake p s))"
proof -
  let ?ev = "stopped te (if both then (m_events s)(e := (m_events s e)\<lparr>m_delta_event_index := 0\<rparr>) else m_events s)"
  let ?d = "if both then [e] else []"
  let ?s = "upd_proc p (m_timed_out_update (\<lambda>_. False)) s"
  have "cancel te ?s = Inr (on_events ((?ev)(te := (m_events s te)\<lparr>m_delta_event_index := - 1, m_notify_type := NONE\<rparr>)) ?d ?s)"
    using te d by (cases both)
      (simp_all add: cancel_def remove_delta_event_def, (rule processes.equality; simp add: stopped_def on_events_def upd_event_def upd_proc_def)+)
  then have "stop_timeout p ?s = Inr (on_events ?ev ?d ?s)"
    using te(1) by (simp add: stop_timeout_def reset_event_def stopped_def)
  then have "trigger_switch True e p ?s = Inr (True, on_events ?ev ?d (awake p s))"
    using assms(1) te(1,2) by (simp add: trigger_switch_def satisfied_def awake_def) (simp add: upd_proc_def)
  then show ?thesis
    using assms(2,3) by (simp add: trigger_dynamic_def make_ready_on_events runnable_proc_def proc_queue_of_def)
      (cases "make_ready True p (awake p s)"; simp)
qed

lemma on_events_twice [simp]: "on_events ev d (on_events ev' d' s) = on_events ev d s"
  by (simp add: on_events_def)

text \<open>The same state with the event off the vector, in which the facts about triggering hold.\<close>

definition off_vector :: "nat \<Rightarrow> nat \<Rightarrow> 'z notifier_scheme \<Rightarrow> 'z notifier_scheme" where
  "off_vector te e s = on_events ((m_events s)(e := (m_events s e)\<lparr>m_notify_type := NONE\<rparr>)) [te] s"

lemma zero_loop:
  assumes w: "sens_ok (\<lambda>th x. set (dyn s th x)) s" "\<forall>th x. distinct (dyn s th x)" "idle_ok e (off_vector te e s)"
    and p: "m_trigger_type (m_procs s p) = EVENT_TIMEOUT" "\<not> ps_disabled (m_procs s p)" "m_timeout_event_p (m_procs s p) = te"
    and e: "dyn s True e = [p]" "dyn s False e = []" "te \<noteq> e"
    and d: "m_delta_events s = [te, e]" "ntype s te = DELTA" "m_delta_event_index (m_events s te) = 0"
  obtains s' where "dynamic_loop True e 0 1 s = Inr s'" "m_delta_events s' = [e]" "\<And>th. dyn s' th e = []"
    "sens_ok (\<lambda>th x. set (dyn s' th x)) s'" "m_curr_proc s' = m_curr_proc s"
    "m_methods_static (m_events s' e) = m_methods_static (m_events s e)"
    "m_threads_static (m_events s' e) = m_threads_static (m_events s e)"
    "\<And>q. m_is_thread (m_procs s' q) = m_is_thread (m_procs s q)" "\<And>q n. q \<noteq> p \<Longrightarrow> counting q n s' = counting q n s"
proof -
  let ?t = "off_vector te e s" and ?W = "\<lambda>th x. set (dyn s th x)"
  have dynt: "dyn ?t th x = dyn s th x" for th x by (simp add: off_vector_def dyn_list_def)
  have procs: "m_procs ?t = m_procs s" "m_curr_proc ?t = m_curr_proc s" "runnable_proc th q ?t = runnable_proc th q s" for th q
    by (simp_all add: off_vector_def)
  have k: "m_is_thread (m_procs s p)" by (rule sens_okD(2) [OF w(1), of p True e, simplified]) (simp add: e(1))
  have "\<not> runnable_proc True p s" using sens_okD(3) [OF w(1), of p] p(1) k by simp
  note p = p this
  have "handling ?W e True p ?t"
    using w e(1) dynt by (simp add: handling_def off_vector_def sens_on_events)
  then obtain fin t' where t': "trigger_dynamic True e p ?t = Inr (fin, t')" "only e True p ?t t'"
    "consistent e True (remaining ?W e True p fin t') t'" using trigger_dynamic_ok by blast
  let ?ev1 = "stopped te (m_events ?t)"
  let ?ev2 = "stopped te ((m_events s)(e := (m_events s e)\<lparr>m_delta_event_index := 0\<rparr>))"
  have "trigger_dynamic True e p ?t = map_sum id (\<lambda>x. (True, on_events ?ev1 [] x)) (make_ready True p (awake p ?t))"
    using thread_awakes [of ?t p te e False] p e(3) d by (simp add: off_vector_def)
  also have "awake p ?t = on_events (m_events ?t) [te] (awake p s)" by (simp add: awake_def off_vector_def)
  finally obtain x where x: "make_ready True p (awake p s) = Inr x" "fin" "t' = on_events ?ev1 [] x"
    using t'(1) by (cases "make_ready True p (awake p s)") (auto simp: make_ready_on_events)
  have s1: "trigger_dynamic True e p s = Inr (True, on_events ?ev2 [e] x)"
    using thread_awakes [of s p te e True] p e(3) d x(1) by simp
  let ?s' = "upd_event e (set_dyn_list True []) (on_events ?ev2 [e] x)"
  have ev2: "dyn_list True (?ev2 e) = [p]" using e(1,3) by (simp add: stopped_def dyn_list_def)
  have run: "dynamic_loop True e 0 1 s = Inr ?s'"
    using e(1) s1 ev2
    by (subst dynamic_loop.simps, simp add: vec_at_def vec_set_def, subst dynamic_loop.simps)
      (simp add: set_dyn_list_def dyn_list_def)
  have dyn': "dyn ?s' th y = (if th = True \<and> y = e then [] else dyn t' th y)" for th y
    by (simp add: x(3) stopped_def off_vector_def dyn_list_def set_dyn_list_def)
  have "remaining ?W e True p True t' = (\<lambda>th y. set (dyn ?s' th y))"
    using e(1) unfolding dyn' by (intro ext) (simp add: remaining_def)
  then have "sens_ok (\<lambda>th y. set (dyn ?s' th y)) t'" using t'(3) x(2) by (simp add: consistent_def)
  then have sens: "sens_ok (\<lambda>th y. set (dyn ?s' th y)) ?s'" using x(3) by (simp add: sens_on_events)
  have o: "m_curr_proc t' = m_curr_proc s" "\<And>q. q \<noteq> p \<Longrightarrow> m_procs t' q = m_procs s q"
    "\<And>q. q \<noteq> p \<Longrightarrow> runnable_proc True q t' = runnable_proc True q s" "m_is_thread (m_procs t' p) = m_is_thread (m_procs s p)"
    using t'(2) procs by (simp_all add: only_def)
  show thesis
  proof (rule that [OF run _ _ sens])
    show "dyn ?s' th e = []" for th
      using e(2,3) by (cases th) (simp_all add: stopped_def dyn_list_def set_dyn_list_def)
    show "counting q n ?s' = counting q n s" if "q \<noteq> p" for q n
      by (rule counting_cong) (use o [unfolded x(3)] that in simp_all)
    show "m_is_thread (m_procs ?s' q) = m_is_thread (m_procs s q)" for q
      using o [unfolded x(3)] by (cases "q = p") simp_all
  qed (use e(3) o [unfolded x(3)] in \<open>simp_all add: stopped_def set_dyn_list_def\<close>)
qed

section \<open>The notification phase\<close>

text \<open>
  The vector holds the time-out of \<open>p\<close> and, behind it, the event that only \<open>p\<close> waits for dynamically. The loop
  triggers the event twice, and never the time-out.
\<close>

lemma zero_wait_twice:
  fixes k :: "'v kernel"
  assumes ok: "waiting_ok k" "notifier_ok k"
    and p: "m_trigger_type (m_procs k p) = EVENT_TIMEOUT" "\<not> ps_disabled (m_procs k p)" "m_timeout_event_p (m_procs k p) = te"
    and e: "dyn k True e = [p]" "dyn k False e = []" and d: "m_delta_events k = [te, e]"
  obtains k1 k2 where "trigger e k = Inr k1" "m_delta_events k1 = [e]" "trigger e k1 = Inr k2"
    "delta_phase k = Inr (k2\<lparr>m_delta_events := []\<rparr>)"
    "\<forall>q n. q \<in> set (m_threads_static (m_events k e)) \<and> distinct (m_threads_static (m_events k e)) \<and> 1 < n \<and>
      counting q n k \<longrightarrow> counting q (n - 2) k2"
proof -
  let ?f = "\<lambda>ev. ev\<lparr>m_notify_type := NONE, m_delta_event_index := - 1, m_timed := None\<rparr> :: sc_event"
  have sens: "sens_ok (\<lambda>th x. set (dyn k th x)) k" and dist: "\<forall>th x. distinct (dyn k th x)"
    and st: "\<forall>q\<in>set (m_methods_static (m_events k e)). \<not> m_is_thread (m_procs k q)"
      "\<forall>q\<in>set (m_threads_static (m_events k e)). m_is_thread (m_procs k q)"
    using ok(1) by (simp_all add: waiting_ok_def)
  have "delta_ok k" using ok(2) by (simp add: notifier_ok_def)
  then have idx: "ntype k te = DELTA" "m_delta_event_index (m_events k te) = 0" "m_delta_event_index (m_events k e) = 1"
    and only: "ntype k x = DELTA \<Longrightarrow> x = te \<or> x = e" "ntype k e = DELTA" for x
    using d unfolding delta_ok_def by (fastforce simp: nth_Cons split: nat.splits)+
  have ne: "te \<noteq> e" using idx by auto
  obtain s where s: "sens_ok (\<lambda>th x. set (dyn k th x)) s" "passed e k s"
    "trigger e k = bind_result (dynamic_loop True e 0 (length (dyn k True e)) s) (\<lambda>s4. Inr (upd_event e ?f s4))"
    by (rule passes_ok [OF sens st e(2)])
  obtain t where t: "stirred False k t" "stirred True t s" using s(2) by (auto simp: passed_def)
  have same: "m_events s = m_events k" "m_delta_events s = m_delta_events k" "m_timed_objs s = m_timed_objs k"
    "m_timed_events s = m_timed_events k" "m_next_obj s = m_next_obj k" "m_curr_proc s = m_curr_proc k"
    using t by (simp_all add: stirred_def)
  have pp: "m_procs s p = m_procs k p" using t p(1) unfolding stirred_def by (metis trigger_t.distinct(9))
  have kind: "m_is_thread (m_procs s q) = m_is_thread (m_procs k q)" for q
    using stirredD(3) [OF t(1)] stirredD(3) [OF t(2)] by simp
  have "idle_ok e (off_vector te e s)"
  proof -
    have "delta_ok (settle e (off_vector te e s))"
      using idx ne only same by (auto simp: delta_ok_def settle_def off_vector_def)
    moreover have "timed_ok (settle e (off_vector te e s))"
      by (rule timed_ok_cong [of k]) (use ok(2) only(2) same in \<open>simp_all add: notifier_ok_def settle_def off_vector_def on_events_def\<close>)
    ultimately show ?thesis by (simp add: idle_ok_def notifier_ok_def)
  qed
  moreover have "sens_ok (\<lambda>th x. set (dyn s th x)) s" "\<forall>th x. distinct (dyn s th x)" using s(1) dist same by simp_all
  ultimately obtain s' where s': "dynamic_loop True e 0 1 s = Inr s'" "m_delta_events s' = [e]" "\<And>th. dyn s' th e = []"
    "sens_ok (\<lambda>th x. set (dyn s' th x)) s'" "m_curr_proc s' = m_curr_proc s"
    "m_methods_static (m_events s' e) = m_methods_static (m_events s e)"
    "m_threads_static (m_events s' e) = m_threads_static (m_events s e)"
    "\<And>q. m_is_thread (m_procs s' q) = m_is_thread (m_procs s q)" "\<And>q n. q \<noteq> p \<Longrightarrow> counting q n s' = counting q n s"
    using zero_loop [of s e te p thesis] p e d idx ne pp same by auto
  define k1 where "k1 = upd_event e ?f s'"
  have r1: "trigger e k = Inr k1" using s(3) s'(1) e(1) by (simp add: k1_def)
  have k1: "m_delta_events k1 = [e]" "dyn k1 False e = []" "dyn k1 True e = []"
    "m_methods_static (m_events k1 e) = m_methods_static (m_events k e)"
    "m_threads_static (m_events k1 e) = m_threads_static (m_events k e)" "m_procs k1 = m_procs s'"
    using s'(1,2,5-) s'(3) [of False] s'(3) [of True] same by (simp_all add: k1_def dyn_list_def)
  have "sens_ok (\<lambda>th x. set (dyn s' th x)) k1"
    using s'(4) sens_on_events [of _ "(m_events s')(e := ?f (m_events s' e))" "m_delta_events s'" s']
    by (simp add: k1_def on_events_def upd_event_def)
  moreover have "\<forall>q\<in>set (m_methods_static (m_events k1 e)). \<not> m_is_thread (m_procs k1 q)"
    "\<forall>q\<in>set (m_threads_static (m_events k1 e)). m_is_thread (m_procs k1 q)"
    using st kind k1 s'(8) by simp_all
  ultimately obtain u where u: "passed e k1 u"
    "trigger e k1 = bind_result (dynamic_loop True e 0 (length (dyn k1 True e)) u) (\<lambda>s4. Inr (upd_event e ?f s4))"
    using passes_ok [of "\<lambda>th x. set (dyn s' th x)" k1 e thesis] k1(2) by blast
  have "m_events u = m_events k1" using u(1) by (auto simp: passed_def stirred_def)
  then have r2: "trigger e k1 = Inr (upd_event e ?f u)" using u(2) k1(3) loop_nil [of True u e] by simp
  have "delta_phase k = Inr ((upd_event e ?f u)\<lparr>m_delta_events := []\<rparr>)"
    using d r1 r2 k1(1) by (simp add: delta_phase_def trigger_at_def vec_at_def numeral_2_eq_2)
  moreover have "counting q (n - 2) (upd_event e ?f u)"
    if q: "q \<in> set (m_threads_static (m_events k e))" "distinct (m_threads_static (m_events k e))" "1 < n" "counting q n k" for q n
  proof -
    have "q \<noteq> p" using q(4) p(1) by (auto simp: counting_def)
    have "counting q (n - 1) s" using s(2) q unfolding passed_def by simp
    then have "counting q (n - 1) k1"
      using s'(9) [OF \<open>q \<noteq> p\<close>] by (simp add: k1_def counting_def runnable_proc_def proc_queue_of_def)
    moreover have "0 < n - 1" using q(3) by simp
    ultimately have "counting q (n - 1 - 1) u" using u(1) q(1,2) k1(5) unfolding passed_def by metis
    then have "counting q (n - 2) u" by simp
    then show ?thesis by (simp add: counting_def runnable_proc_def proc_queue_of_def)
  qed
  ultimately show thesis using that r1 r2 k1(1) by blast
qed

text \<open>The calls that lead there: a thread waits with the limit zero, then the event is notified.\<close>

lemma zero_wait_calls:
  fixes k :: "'v kernel"
  assumes c: "can_wait True p k" "timer_free p k" "e \<notin> timeouts k" "ntype k e = NONE" "\<not> ps_disabled (m_procs k p)"
    and l: "dyn k True e = []" "dyn k False e = []" "m_delta_events k = []"
  obtains k1 k2 where "wait_time_event True 0 e p k = Inr k1" "notify_in 0 e k1 = Inr k2" "waiting_ok k2" "notifier_ok k2"
    "m_trigger_type (m_procs k2 p) = EVENT_TIMEOUT" "\<not> ps_disabled (m_procs k2 p)"
    "m_timeout_event_p (m_procs k2 p) = m_timeout_event_p (m_procs k p)" "dyn k2 True e = [p]" "dyn k2 False e = []"
    "m_delta_events k2 = [m_timeout_event_p (m_procs k p), e]"
    "m_threads_static (m_events k2 e) = m_threads_static (m_events k e)" "\<And>q n. q \<noteq> p \<Longrightarrow> counting q n k2 = counting q n k"
proof -
  let ?te = "m_timeout_event_p (m_procs k p)" and ?f = "\<lambda>q. q\<lparr>m_event_p := Some e, m_trigger_type := EVENT_TIMEOUT\<rparr>"
  have "admissible (On_event_for 0 e) p k" using c(2,3) by simp
  then obtain k1 where k1: "wait_time_event True 0 e p k = Inr k1" "registered True p {?te, e} EVENT_TIMEOUT k k1"
    using wait_on_ok [OF c(1), of "On_event_for 0 e"] by auto
  have ne: "?te \<noteq> e" using c(3) by (auto simp: timeouts_def)
  have step: "k1 = upd_proc p ?f (event_add_dynamic True p e (event_add_dynamic True p ?te (set_delta ?te k)))"
    using k1(1) by (simp add: wait_time_event_def start_timeout_def notify_internal_def Let_def)
  have d1: "m_delta_events k1 = [?te]" "ntype k1 e = NONE" "m_timeout_event_p (m_procs k1 p) = ?te" "m_procs k1 = (m_procs k)(p := ?f (m_procs k p))"
    using l(3) c(4) ne unfolding step
    by (simp_all add: set_delta_def add_delta_event_def event_add_dynamic_def add_dynamic_thread_def upd_event_def upd_proc_def)
  have n1: "notifier_ok k1" "waiting_ok k1" using k1(2) by (simp_all add: registered_def)
  have k2: "notify_in 0 e k1 = Inr (set_delta e k1)" using d1(2) by (simp add: notify_in_def)
  obtain "notifier_ok (set_delta e k1)" and kept: "kept k1 (set_delta e k1)"
    using set_delta_achieves [OF n1(1) d1(2)] by (auto simp: achieves_def)
  moreover have "waiting_ok (set_delta e k1)" by (rule waiting_ok_kept [OF n1(2) kept])
  moreover have dyn: "dyn (set_delta e k1) th e = dyn k1 th e" "m_procs (set_delta e k1) = m_procs k1"
    "m_curr_proc (set_delta e k1) = m_curr_proc k1" "runnable_proc th q (set_delta e k1) = runnable_proc th q k1"
    "m_threads_static (m_events (set_delta e k1) e) = m_threads_static (m_events k1 e)"
    "m_delta_events (set_delta e k1) = m_delta_events k1 @ [e]" for th q
    by (simp_all add: set_delta_def add_delta_event_def upd_event_def dyn_list_def runnable_proc_def proc_queue_of_def)
  moreover have "counting q n (set_delta e k1) = counting q n k" if "q \<noteq> p" for q n
  proof -
    have "runnable_proc True q (set_delta e k1) = runnable_proc True q k"
      unfolding dyn(4) using k1(2) by (simp add: registered_def runnable_proc_def proc_queue_of_def)
    then show ?thesis by (intro counting_cong) (use k1(2) dyn(2,3) that in \<open>simp_all add: registered_def\<close>)
  qed
  ultimately show thesis
    using k1 k2 d1 l c(5) by (intro that [of k1 "set_delta e k1"]) (simp_all add: registered_def entered_def)
qed

end
