(* ===== verification/Scheduler_Properties.thy ===== *)
theory Scheduler_Properties
  imports Sc_Time_Facts Process_Properties Sc_Zero_Wait
begin

text \<open>
  The properties of the scheduler, with a small design as witness: a method that asks for the next
  notification of an event it is sensitive to, as often as a counter in the design says.
\<close>

section \<open>Services\<close>

text \<open>Notifications of events that are not time-out events keep the invariant of the kernel.\<close>

lemma kernel_ok_notified:
  fixes k k' :: "'v kernel"
  assumes "kernel_ok k" "kept k k'" "notifier_ok k'" "\<And>x. x \<in> timeouts k \<Longrightarrow> pending k' x = pending k x"
  shows "kernel_ok k'"
proof -
  have more: "notifier.more k' = notifier.more k" using assms(2) by (simp add: kept_def)
  then have r: "m_prim_channel_registry k' = m_prim_channel_registry k" by (cases k; cases k') simp
  have "ntype k' x = DELTA \<longleftrightarrow> ntype k x = DELTA" if "x \<in> timeouts k" for x
    using assms(4) [OF that] by (simp add: pending_def split: notify_t.splits)
  moreover have "m_timeout_event_p (m_procs k p) \<in> timeouts k" for p by (auto simp: timeouts_def)
  ultimately have "no_zero_wait k'" using assms(1) more_procs [OF more] by (simp add: kernel_ok_def no_zero_wait_def)
  then show ?thesis using assms(1,3) waiting_ok_kept [OF _ assms(2)] r by (simp add: kernel_ok_def)
qed

lemma notify_in_kernel_ok:
  fixes k :: "'v kernel"
  assumes "kernel_ok k" "e \<notin> timeouts k"
  shows "\<exists>k'. notify_in t e k = Inr k' \<and> kernel_ok k' \<and> kept k k'"
proof -
  obtain k' where k': "notify_in t e k = Inr k'" "notifier_ok k'" "kept k k'"
    "pending k' = (pending k)(e := earlier (pending k e) (requested t k))"
    using notify_in_achieves [of k t e] assms(1) by (auto simp: kernel_ok_def achieves_def)
  have "kernel_ok k'" by (rule kernel_ok_notified [OF assms(1) k'(3,2)]) (use k'(4) assms(2) in auto)
  then show ?thesis using k' by blast
qed

lemma kept_kernel:
  fixes k k' :: "'v kernel"
  assumes "kept k k'"
  shows "design k' = design k" "m_curr_time k' = m_curr_time k" "m_procs k' = m_procs k" "m_forced_stop k' = m_forced_stop k"
    "m_error k' = m_error k" "m_elaboration_done k' = m_elaboration_done k" "m_ready_to_simulate k' = m_ready_to_simulate k"
proof -
  have "notifier.more k' = notifier.more k" "m_curr_time k' = m_curr_time k" using assms by (simp_all add: kept_def)
  then show "design k' = design k" "m_curr_time k' = m_curr_time k" "m_procs k' = m_procs k" "m_forced_stop k' = m_forced_stop k"
    "m_error k' = m_error k" "m_elaboration_done k' = m_elaboration_done k" "m_ready_to_simulate k' = m_ready_to_simulate k"
    by (cases k; cases k'; simp)+
qed

lemma none_until_pending: "kernel_ok k \<Longrightarrow> none_until t k \<Longrightarrow> pending k e = At u \<Longrightarrow> t < u"
  using pending_At [of k e u] by (auto simp: kernel_ok_def none_until_def)

section \<open>A design\<close>

text \<open>
  Method 1 is statically sensitive to event 4. While the counter is positive it asks for a notification
  of event 4 in 10 units of time.
\<close>

definition demo_kernel :: "nat \<Rightarrow> nat kernel" where
  "demo_kernel n = \<lparr>m_events = (\<lambda>e. if e = 4 then add_static_method 1 new_event else new_event), m_timed_objs = (\<lambda>_. None),
     m_next_obj = 0, m_delta_events = [], m_timed_events = make_ppq 128, m_curr_time = 0, m_execution_phase = Phase_update,
     m_procs = m_procs demo_processes, m_event_lists = m_event_lists demo_processes, m_runnable = m_runnable demo_processes,
     m_curr_proc = None, m_process_table = \<lparr>m_method_q = Some 1, m_thread_q = None, next_exist = (\<lambda>_. None)\<rparr>,
     m_dont_init = (\<lambda>_. False), m_cor_p = (\<lambda>_. False), m_prim_channel_registry = new_registry, m_write_check = True,
     m_current_writer = None, m_collectable = [], m_trace_files = [], m_something_to_trace = False, simc_change_stamp = 0,
     m_delta_count = 0, m_forced_stop = False, stop_mode = SC_STOP_FINISH_DELTA, m_paused = False, m_ready_to_simulate = True,
     m_elaboration_done = True, m_error = False, m_in_simulator_control = False, m_simulation_status = SC_RUNNING,
     m_start_of_simulation_called = True, m_end_of_simulation_called = False, design = n\<rparr>"

lemma demo_kernel_ok: "kernel_ok (demo_kernel n)"
proof -
  let ?k = "demo_kernel n" and ?s = demo_processes
  have p: "m_procs ?k = m_procs ?s" "m_event_lists ?k = m_event_lists ?s" "m_runnable ?k = m_runnable ?s"
    by (simp_all add: demo_kernel_def)
  have d: "dyn ?k th x = dyn ?s th x" for th x
    by (simp add: demo_kernel_def demo_processes_def dyn_list_def add_static_method_def)
  have "sens_ok (\<lambda>th x. set (dyn ?s th x)) ?k = sens_ok (\<lambda>th x. set (dyn ?s th x)) ?s"
    by (simp add: sens_ok_def lists_ok_def timeouts_ok_def queues_ok_def users_def timeouts_def proc_queue_of_def runnable_proc_def p)
  moreover have "sens_ok (\<lambda>th x. set (dyn ?s th x)) ?s" "\<forall>th x. distinct (dyn ?s th x)"
    using demo_ok(1) by (simp_all add: waiting_ok_def)
  moreover have "\<not> m_is_thread (m_procs ?k 1)" by (simp add: demo_kernel_def demo_processes_def new_process_def)
  ultimately have "waiting_ok ?k"
    unfolding waiting_ok_def d by (auto simp: demo_kernel_def add_static_method_def new_event_def)
  moreover have "notifier_ok init_notifier" by (rule init_notifier_ok)
  then have "notifier_ok ?k"
    by (auto simp: notifier_ok_def delta_ok_def timed_ok_def owned_def scheduled_def demo_kernel_def init_notifier_def
        add_static_method_def new_event_def)
  moreover have "no_zero_wait ?k" by (simp add: no_zero_wait_def demo_kernel_def add_static_method_def new_event_def)
  moreover have "requests (m_prim_channel_registry ?k) []" using requests_new by (simp add: demo_kernel_def)
  ultimately show ?thesis unfolding kernel_ok_def by blast
qed

definition demo_program :: "nat program" where
  "demo_program = \<lparr>run_method = (\<lambda>p k. if design k = 0 \<or> 4 \<in> timeouts k then Inr (True, k)
       else bind_result (notify_in 10 4 k) (\<lambda>k1. Inr (True, k1\<lparr>design := design k - 1\<rparr>))),
     run_thread = (\<lambda>p k. Inr k), channel_update = (\<lambda>c k. Inr k), trace_file_cycle = (\<lambda>d f v. Inr v),
     construction_callbacks = (\<lambda>k. Inr (4, k)), elaboration_callbacks = Inr, start_callbacks = Inr, end_callbacks = Inr\<rparr>"

lemma demo_program_ok: "program_ok demo_program (\<lambda>t n. n)"
proof -
  have same: "served (\<lambda>t n. n) k k" if "kernel_ok k" for k :: "nat kernel" using that by (simp add: served_def)
  have "\<exists>b k'. run_method demo_program p k = Inr (b, k') \<and> served (\<lambda>t n. n) k k' \<and> (b \<or> m_error k')"
    if "activated False p k" for p and k :: "nat kernel"
  proof (cases "design k = 0 \<or> 4 \<in> timeouts k")
    case True
    then show ?thesis using same [of k] that by (auto simp: demo_program_def activated_def)
  next
    case False
    have "kernel_ok k" "4 \<notin> timeouts k" using that False by (simp_all add: activated_def)
    from notify_in_kernel_ok [OF this] obtain k1 where k1: "notify_in 10 4 k = Inr k1" "kernel_ok k1" "kept k k1" by blast
    have "kernel_ok (k1\<lparr>design := design k - 1\<rparr>)"
      by (rule kernel_ok_keep [OF k1(2)]) (use k1(2) in \<open>simp_all add: same_events_def kernel_ok_def\<close>)
    then show ?thesis using k1(1) kept_kernel [OF k1(3)] False by (auto simp: demo_program_def served_def)
  qed
  moreover have "activated True p k \<Longrightarrow> kernel_ok k" for p and k :: "nat kernel" by (simp add: activated_def)
  ultimately show ?thesis
    unfolding program_ok_def using same by (simp add: demo_program_def)
qed

text \<open>The state at the start: event 4 is to be triggered in the next delta cycle.\<close>

definition demo_start :: "nat \<Rightarrow> nat kernel" where
  "demo_start n = set_delta 4 (demo_kernel n)"

lemma demo_start_ok: "ready (demo_start n)" "m_delta_events (demo_start n) = [4]" "design (demo_start n) = n"
  "m_curr_time (demo_start n) = 0"
proof -
  let ?k = "demo_kernel n"
  have t: "e \<in> timeouts ?k \<longleftrightarrow> odd e" for e
    by (auto simp: timeouts_def demo_kernel_def demo_processes_def new_process_def elim: oddE)
  have "notifier_ok ?k" "ntype ?k 4 = NONE"
    using demo_kernel_ok [of n] by (simp_all add: kernel_ok_def) (simp add: demo_kernel_def add_static_method_def new_event_def)
  then have a: "notifier_ok (set_delta 4 ?k)" "pending (set_delta 4 ?k) = (pending ?k)(4 := Next_delta)" "kept ?k (set_delta 4 ?k)"
    using set_delta_achieves [of ?k 4] by (simp_all add: achieves_def)
  have "kernel_ok (set_delta 4 ?k)"
  proof (rule kernel_ok_notified [OF demo_kernel_ok a(3,1)])
    fix x assume "x \<in> timeouts ?k"
    moreover have "4 \<notin> timeouts ?k" by (simp only: t) simp
    ultimately have "x \<noteq> 4" by blast
    then show "pending (set_delta 4 ?k) x = pending ?k x" by (simp add: a(2))
  qed
  moreover have "m_elaboration_done ?k" "m_ready_to_simulate ?k" "\<not> m_forced_stop ?k" "\<not> m_error ?k" by (simp_all add: demo_kernel_def)
  ultimately show "ready (demo_start n)" using kept_kernel [OF a(3)] by (simp add: ready_def demo_start_def)
  show "m_delta_events (demo_start n) = [4]" "design (demo_start n) = n" "m_curr_time (demo_start n) = 0"
    by (simp_all add: demo_start_def) (simp_all add: demo_kernel_def set_delta_def add_delta_event_def upd_event_def)
qed

section \<open>Properties\<close>

text \<open>
  C14: Delta cycles. On a well-formed kernel, and for a program each step of which keeps it well-formed and
  uses up some of a finite budget or asks the kernel for nothing, \<open>crunch\<close> returns, without a fault: it
  throws the pending error again, or it leaves the time as it is and a well-formed kernel, and unless it
  was to run once, or was stopped or paused, nothing is left to do at this time: no process is runnable,
  no delta notification and no update is pending.
\<close>
theorem crunch_returns:
  assumes "program_ok P B" "kernel_ok k"
  shows "\<exists>k'. crunch_loop P once k = Some (Inr k') \<and> kernel_ok k' \<and> m_curr_time k' = m_curr_time k \<and>
    (once \<or> m_error k' \<or> m_forced_stop k' \<or> m_paused k' \<or> quiescent k') \<and>
    crunch P once k = Some (if m_error k' then Inl Sc_report_error else Inr (reset_curr_proc k'))"
proof -
  obtain k' where k': "crunch_loop P once k = Some (Inr k')" "cycled B k k'"
    "once \<or> m_error k' \<or> m_forced_stop k' \<or> m_paused k' \<or> quiescent k'" using crunch_loop_ok [OF assms] by blast
  then have "crunch P once k = Some (if m_error k' then Inl Sc_report_error else Inr (reset_curr_proc k'))"
    by (simp add: crunch_def)
  then show ?thesis using k' unfolding cycled_def by blast
qed

theorem crunch_returns_witness:
  "\<exists>k'. crunch_loop demo_program False (demo_start 3) = Some (Inr k') \<and> kernel_ok k' \<and>
    m_curr_time k' = m_curr_time (demo_start 3) \<and>
    (False \<or> m_error k' \<or> m_forced_stop k' \<or> m_paused k' \<or> quiescent k') \<and>
    crunch demo_program False (demo_start 3) = Some (if m_error k' then Inl Sc_report_error else Inr (reset_curr_proc k'))"
  by (rule crunch_returns [OF demo_program_ok]) (use demo_start_ok(1) [of 3] in \<open>simp add: ready_def\<close>)

text \<open>
  C15: The advance of time. \<open>simulate\<close> called for a duration that fits on a kernel that is ready returns,
  whatever the program notifies: with the error thrown again, or at a time between the one of the call
  and its end. Unless the duration was zero or the simulation was stopped or paused, no notification is
  left that is due by the end.
\<close>
theorem simulate_serves_interval:
  assumes "program_ok P B" "ready k" "d \<le> - 1 - m_curr_time k"
  shows "sc_simulate P hm ht d k = Some (Inl Sc_report_error) \<or>
    (\<exists>k'. sc_simulate P hm ht d k = Some (Inr k') \<and> m_curr_time k \<le> m_curr_time k' \<and> m_curr_time k' \<le> m_curr_time k + d \<and>
      (d = 0 \<or> m_forced_stop k' \<or> m_paused k' \<or> (\<forall>e u. pending k' e = At u \<longrightarrow> m_curr_time k + d < u)))"
  using sc_simulate_ok [OF assms, of hm ht] none_until_pending unfolding ended_def within_def by blast

theorem simulate_serves_interval_witness:
  "sc_simulate demo_program 0 1 25 (demo_start 3) = Some (Inl Sc_report_error) \<or>
    (\<exists>k'. sc_simulate demo_program 0 1 25 (demo_start 3) = Some (Inr k') \<and>
      m_curr_time (demo_start 3) \<le> m_curr_time k' \<and> m_curr_time k' \<le> m_curr_time (demo_start 3) + 25 \<and>
      (25 = (0 :: sc_time) \<or> m_forced_stop k' \<or> m_paused k' \<or>
       (\<forall>e u. pending k' e = At u \<longrightarrow> m_curr_time (demo_start 3) + 25 < u)))"
  by (rule simulate_serves_interval [OF demo_program_ok demo_start_ok(1)]) (simp add: demo_start_ok)

text \<open>
  C16: The notification phase. On a well-formed kernel the loop over the vector of delta events triggers
  each of them exactly once, last one first, as a loop over a copy would, then empties the vector, and
  leaves the kernel well-formed; every event but the time-out events of waiting processes that had a
  delta notification has none any more, the others keep theirs. The invariant says that no process waits
  for an event with a time limit of zero.
\<close>
theorem delta_phase_triggers_each_once:
  fixes k :: "'v kernel"
  assumes "kernel_ok k"
  shows "\<exists>t k'. for_each trigger (rev (m_delta_events k)) k = Inr t \<and> delta_phase k = Inr k' \<and> k' = t\<lparr>m_delta_events := []\<rparr> \<and>
    kernel_ok k' \<and> (\<forall>e. e \<notin> timeouts k \<longrightarrow> pending k' e = (if e \<in> set (m_delta_events k) then Idle else pending k e))"
proof -
  have w: "waiting_ok k" "notifier_ok k" "no_zero_wait k" using assms by (simp_all add: kernel_ok_def)
  obtain k' where k': "delta_phase k = Inr k'" "all_triggered (m_delta_events k) k k'" using delta_phase_ok [OF w] by blast
  obtain t where "for_each trigger (rev (m_delta_events k)) k = Inr t" "k' = t\<lparr>m_delta_events := []\<rparr>"
    using k'(1) delta_phase_each [OF w(3)] by (auto simp: bind_result_eq_Inr)
  then show ?thesis using k' kernel_ok_triggered [OF assms k'(2)] by (auto simp: all_triggered_def)
qed

theorem delta_phase_triggers_each_once_witness:
  "\<exists>t k'. for_each trigger (rev (m_delta_events (demo_start 3))) (demo_start 3) = Inr t \<and> delta_phase (demo_start 3) = Inr k' \<and>
    k' = t\<lparr>m_delta_events := []\<rparr> \<and> kernel_ok k' \<and> (\<forall>e. e \<notin> timeouts (demo_start 3) \<longrightarrow>
      pending k' e = (if e \<in> set (m_delta_events (demo_start 3)) then Idle else pending (demo_start 3) e))"
  by (rule delta_phase_triggers_each_once) (use demo_start_ok(1) [of 3] in \<open>simp add: ready_def\<close>)





text \<open>
  \<open>sc_start\<close> with the policy \<open>SC_RUN_TO_TIME\<close>, for a duration that fits and is not zero, moves the time
  forward by exactly the duration, unless the simulation was stopped, paused or failed; setting the time
  does not jump over anything: no notification that is left is due by then.
\<close>
theorem start_runs_to_time:
  assumes "program_ok P B" "ready k" "d \<le> - 1 - m_curr_time k" "d \<noteq> 0"
  shows "sc_start P hm ht d SC_RUN_TO_TIME k = Some (Inl Sc_report_error) \<or>
    (\<exists>k'. sc_start P hm ht d SC_RUN_TO_TIME k = Some (Inr k') \<and>
      (m_forced_stop k' \<or> m_paused k' \<or> m_error k' \<or>
       m_curr_time k' = m_curr_time k + d \<and> (\<forall>e u. pending k' e = At u \<longrightarrow> m_curr_time k' < u)))"
proof -
  have ok: "sim_status k = SC_SIM_OK" using assms(2) by (simp add: ready_def sim_status_def)
  consider "sc_simulate P hm ht d k = Some (Inl Sc_report_error)"
    | k1 where "sc_simulate P hm ht d k = Some (Inr k1)" "ended (m_curr_time k + d) k1"
    using sc_simulate_ok [OF assms(1-3), of hm ht] assms(4) by blast
  then show ?thesis
  proof cases
    case 1
    then show ?thesis using ok by (simp add: sc_start_def)
  next
    case (2 k1)
    show ?thesis
    proof (cases "\<not> m_paused k1 \<and> sim_status k1 = SC_SIM_OK")
      case False
      then have "m_forced_stop k1 \<or> m_paused k1 \<or> m_error k1" by (auto simp: sim_status_def split: if_splits)
      then show ?thesis using 2(1) ok False by (auto simp: sc_start_def)
    next
      case True
      let ?k = "k1\<lparr>m_curr_time := m_curr_time k + d\<rparr>"
      have "\<not> m_forced_stop k1" using True by (auto simp: sim_status_def split: if_splits)
      then have "kernel_ok k1" "none_until (m_curr_time k + d) k1" using 2(2) True by (auto simp: ended_def)
      then have "pending k1 e = At u \<longrightarrow> m_curr_time k + d < u" for e u by (simp add: none_until_pending)
      moreover have "pending ?k = pending k1" by (rule ext) (simp add: pending_def split: notify_t.split)
      ultimately have "m_curr_time ?k = m_curr_time k + d \<and> (\<forall>e u. pending ?k e = At u \<longrightarrow> m_curr_time ?k < u)" by simp
      moreover have "sc_start P hm ht d SC_RUN_TO_TIME k = Some (Inr ?k)" using 2(1) ok True by (simp add: sc_start_def)
      ultimately show ?thesis by blast
    qed
  qed
qed

theorem start_runs_to_time_witness:
  "sc_start demo_program 0 1 25 SC_RUN_TO_TIME (demo_start 3) = Some (Inl Sc_report_error) \<or>
    (\<exists>k'. sc_start demo_program 0 1 25 SC_RUN_TO_TIME (demo_start 3) = Some (Inr k') \<and>
      (m_forced_stop k' \<or> m_paused k' \<or> m_error k' \<or>
       m_curr_time k' = m_curr_time (demo_start 3) + 25 \<and> (\<forall>e u. pending k' e = At u \<longrightarrow> m_curr_time k' < u)))"
  by (rule start_runs_to_time [OF demo_program_ok demo_start_ok(1)]) (simp_all add: demo_start_ok)

section \<open>The table of the processes\<close>

text \<open>\<open>listed nx h ps\<close>: the links from \<open>h\<close> on lead through the processes \<open>ps\<close>.\<close>

fun listed :: "(nat \<Rightarrow> nat option) \<Rightarrow> nat option \<Rightarrow> nat list \<Rightarrow> bool" where
  "listed nx h [] = (h = None)"
| "listed nx h (p # ps) = (h = Some p \<and> listed nx (nx p) ps)"

lemma listed_upd: "p \<notin> set ps \<Longrightarrow> listed (nx(p := x)) h ps = listed nx h ps"
  by (induction ps arbitrary: h) auto

lemma table_find_listed: "listed nx h ps \<Longrightarrow> table_find nx p h = Some (p \<in> set ps)"
proof (induction ps arbitrary: h)
  case Nil
  then show ?case by (subst table_find.simps) simp
next
  case (Cons q ps)
  then show ?case by (subst table_find.simps) auto
qed

lemma listed_after: "listed nx h (xs @ p # ys) \<Longrightarrow> listed nx (nx p) ys"
  by (induction xs arbitrary: h) auto

text \<open>
  \<open>push_front\<close> puts a process at the head of the list of its kind; \<open>remove\<close> of a process in the list
  returns it and leaves the processes after it, but drops all those before it, because \<open>prior_p\<close> stays 0.
\<close>
theorem remove_drops_earlier_processes:
  assumes "listed (next_exist t) (table_head th t) ps" "p \<notin> set ps"
    and "listed (next_exist t) (table_head th t) (xs @ q # ys)"
  shows "listed (next_exist (table_push_front th p t)) (table_head th (table_push_front th p t)) (p # ps) \<and>
    (\<exists>t'. table_remove th q t = Some (Some q, t') \<and> listed (next_exist t') (table_head th t') ys)"
proof
  show "listed (next_exist (table_push_front th p t)) (table_head th (table_push_front th p t)) (p # ps)"
    using assms(1,2) by (cases th) (simp_all add: table_push_front_def table_head_def listed_upd)
  have "table_find (next_exist t) q (table_head th t) = Some True" using table_find_listed [OF assms(3)] by simp
  then show "\<exists>t'. table_remove th q t = Some (Some q, t') \<and> listed (next_exist t') (table_head th t') ys"
    using listed_after [OF assms(3)] by (simp add: table_remove_def table_head_def)
qed

definition demo_table :: process_table where
  "demo_table = table_push_front False 3 (table_push_front False 2 (table_push_front False 1
     \<lparr>m_method_q = None, m_thread_q = None, next_exist = (\<lambda>_. None)\<rparr>))"

theorem remove_drops_earlier_processes_witness:
  "listed (next_exist (table_push_front False 4 demo_table)) (table_head False (table_push_front False 4 demo_table)) [4, 3, 2, 1] \<and>
    (\<exists>t'. table_remove False 1 demo_table = Some (Some 1, t') \<and> listed (next_exist t') (table_head False t') [])"
  by (rule remove_drops_earlier_processes [where xs = "[3, 2]"])
    (simp_all add: demo_table_def table_push_front_def table_head_def)

end
