(* ===== verification/Mask_Table.thy ===== *)
theory Mask_Table
  imports Prelude
begin

unbundle bit_operations_syntax

text \<open>
  \<open>sysc/datatypes/int/sc_int64_mask.cpp\<close>: the table \<open>mask_int\<close> that the part selections of
  \<open>sc_int_base\<close> and \<open>sc_uint_base\<close> read instead of computing a mask. Row \<open>l\<close> is written with
  \<open>l + 1\<close> constants; C++ fills the rest of its 64 entries with zeros. The table is translated
  entry by entry, a few rows per definition, and compared with the formula it stands for.
\<close>

section \<open>The table\<close>

definition mask_rows_0 :: "u64 list list" where
  "mask_rows_0 = [
   [0xfffffffffffffffe],
   [0xfffffffffffffffc, 0xfffffffffffffffd],
   [0xfffffffffffffff8, 0xfffffffffffffff9, 0xfffffffffffffffb],
   [0xfffffffffffffff0, 0xfffffffffffffff1, 0xfffffffffffffff3, 0xfffffffffffffff7],
   [0xffffffffffffffe0, 0xffffffffffffffe1, 0xffffffffffffffe3, 0xffffffffffffffe7,
    0xffffffffffffffef],
   [0xffffffffffffffc0, 0xffffffffffffffc1, 0xffffffffffffffc3, 0xffffffffffffffc7,
    0xffffffffffffffcf, 0xffffffffffffffdf],
   [0xffffffffffffff80, 0xffffffffffffff81, 0xffffffffffffff83, 0xffffffffffffff87,
    0xffffffffffffff8f, 0xffffffffffffff9f, 0xffffffffffffffbf],
   [0xffffffffffffff00, 0xffffffffffffff01, 0xffffffffffffff03, 0xffffffffffffff07,
    0xffffffffffffff0f, 0xffffffffffffff1f, 0xffffffffffffff3f, 0xffffffffffffff7f],
   [0xfffffffffffffe00, 0xfffffffffffffe01, 0xfffffffffffffe03, 0xfffffffffffffe07,
    0xfffffffffffffe0f, 0xfffffffffffffe1f, 0xfffffffffffffe3f, 0xfffffffffffffe7f,
    0xfffffffffffffeff],
   [0xfffffffffffffc00, 0xfffffffffffffc01, 0xfffffffffffffc03, 0xfffffffffffffc07,
    0xfffffffffffffc0f, 0xfffffffffffffc1f, 0xfffffffffffffc3f, 0xfffffffffffffc7f,
    0xfffffffffffffcff, 0xfffffffffffffdff],
   [0xfffffffffffff800, 0xfffffffffffff801, 0xfffffffffffff803, 0xfffffffffffff807,
    0xfffffffffffff80f, 0xfffffffffffff81f, 0xfffffffffffff83f, 0xfffffffffffff87f,
    0xfffffffffffff8ff, 0xfffffffffffff9ff, 0xfffffffffffffbff],
   [0xfffffffffffff000, 0xfffffffffffff001, 0xfffffffffffff003, 0xfffffffffffff007,
    0xfffffffffffff00f, 0xfffffffffffff01f, 0xfffffffffffff03f, 0xfffffffffffff07f,
    0xfffffffffffff0ff, 0xfffffffffffff1ff, 0xfffffffffffff3ff, 0xfffffffffffff7ff],
   [0xffffffffffffe000, 0xffffffffffffe001, 0xffffffffffffe003, 0xffffffffffffe007,
    0xffffffffffffe00f, 0xffffffffffffe01f, 0xffffffffffffe03f, 0xffffffffffffe07f,
    0xffffffffffffe0ff, 0xffffffffffffe1ff, 0xffffffffffffe3ff, 0xffffffffffffe7ff,
    0xffffffffffffefff],
   [0xffffffffffffc000, 0xffffffffffffc001, 0xffffffffffffc003, 0xffffffffffffc007,
    0xffffffffffffc00f, 0xffffffffffffc01f, 0xffffffffffffc03f, 0xffffffffffffc07f,
    0xffffffffffffc0ff, 0xffffffffffffc1ff, 0xffffffffffffc3ff, 0xffffffffffffc7ff,
    0xffffffffffffcfff, 0xffffffffffffdfff],
   [0xffffffffffff8000, 0xffffffffffff8001, 0xffffffffffff8003, 0xffffffffffff8007,
    0xffffffffffff800f, 0xffffffffffff801f, 0xffffffffffff803f, 0xffffffffffff807f,
    0xffffffffffff80ff, 0xffffffffffff81ff, 0xffffffffffff83ff, 0xffffffffffff87ff,
    0xffffffffffff8fff, 0xffffffffffff9fff, 0xffffffffffffbfff]]"

definition mask_rows_15 :: "u64 list list" where
  "mask_rows_15 = [
   [0xffffffffffff0000, 0xffffffffffff0001, 0xffffffffffff0003, 0xffffffffffff0007,
    0xffffffffffff000f, 0xffffffffffff001f, 0xffffffffffff003f, 0xffffffffffff007f,
    0xffffffffffff00ff, 0xffffffffffff01ff, 0xffffffffffff03ff, 0xffffffffffff07ff,
    0xffffffffffff0fff, 0xffffffffffff1fff, 0xffffffffffff3fff, 0xffffffffffff7fff],
   [0xfffffffffffe0000, 0xfffffffffffe0001, 0xfffffffffffe0003, 0xfffffffffffe0007,
    0xfffffffffffe000f, 0xfffffffffffe001f, 0xfffffffffffe003f, 0xfffffffffffe007f,
    0xfffffffffffe00ff, 0xfffffffffffe01ff, 0xfffffffffffe03ff, 0xfffffffffffe07ff,
    0xfffffffffffe0fff, 0xfffffffffffe1fff, 0xfffffffffffe3fff, 0xfffffffffffe7fff,
    0xfffffffffffeffff],
   [0xfffffffffffc0000, 0xfffffffffffc0001, 0xfffffffffffc0003, 0xfffffffffffc0007,
    0xfffffffffffc000f, 0xfffffffffffc001f, 0xfffffffffffc003f, 0xfffffffffffc007f,
    0xfffffffffffc00ff, 0xfffffffffffc01ff, 0xfffffffffffc03ff, 0xfffffffffffc07ff,
    0xfffffffffffc0fff, 0xfffffffffffc1fff, 0xfffffffffffc3fff, 0xfffffffffffc7fff,
    0xfffffffffffcffff, 0xfffffffffffdffff],
   [0xfffffffffff80000, 0xfffffffffff80001, 0xfffffffffff80003, 0xfffffffffff80007,
    0xfffffffffff8000f, 0xfffffffffff8001f, 0xfffffffffff8003f, 0xfffffffffff8007f,
    0xfffffffffff800ff, 0xfffffffffff801ff, 0xfffffffffff803ff, 0xfffffffffff807ff,
    0xfffffffffff80fff, 0xfffffffffff81fff, 0xfffffffffff83fff, 0xfffffffffff87fff,
    0xfffffffffff8ffff, 0xfffffffffff9ffff, 0xfffffffffffbffff],
   [0xfffffffffff00000, 0xfffffffffff00001, 0xfffffffffff00003, 0xfffffffffff00007,
    0xfffffffffff0000f, 0xfffffffffff0001f, 0xfffffffffff0003f, 0xfffffffffff0007f,
    0xfffffffffff000ff, 0xfffffffffff001ff, 0xfffffffffff003ff, 0xfffffffffff007ff,
    0xfffffffffff00fff, 0xfffffffffff01fff, 0xfffffffffff03fff, 0xfffffffffff07fff,
    0xfffffffffff0ffff, 0xfffffffffff1ffff, 0xfffffffffff3ffff, 0xfffffffffff7ffff],
   [0xffffffffffe00000, 0xffffffffffe00001, 0xffffffffffe00003, 0xffffffffffe00007,
    0xffffffffffe0000f, 0xffffffffffe0001f, 0xffffffffffe0003f, 0xffffffffffe0007f,
    0xffffffffffe000ff, 0xffffffffffe001ff, 0xffffffffffe003ff, 0xffffffffffe007ff,
    0xffffffffffe00fff, 0xffffffffffe01fff, 0xffffffffffe03fff, 0xffffffffffe07fff,
    0xffffffffffe0ffff, 0xffffffffffe1ffff, 0xffffffffffe3ffff, 0xffffffffffe7ffff,
    0xffffffffffefffff],
   [0xffffffffffc00000, 0xffffffffffc00001, 0xffffffffffc00003, 0xffffffffffc00007,
    0xffffffffffc0000f, 0xffffffffffc0001f, 0xffffffffffc0003f, 0xffffffffffc0007f,
    0xffffffffffc000ff, 0xffffffffffc001ff, 0xffffffffffc003ff, 0xffffffffffc007ff,
    0xffffffffffc00fff, 0xffffffffffc01fff, 0xffffffffffc03fff, 0xffffffffffc07fff,
    0xffffffffffc0ffff, 0xffffffffffc1ffff, 0xffffffffffc3ffff, 0xffffffffffc7ffff,
    0xffffffffffcfffff, 0xffffffffffdfffff]]"

definition mask_rows_22 :: "u64 list list" where
  "mask_rows_22 = [
   [0xffffffffff800000, 0xffffffffff800001, 0xffffffffff800003, 0xffffffffff800007,
    0xffffffffff80000f, 0xffffffffff80001f, 0xffffffffff80003f, 0xffffffffff80007f,
    0xffffffffff8000ff, 0xffffffffff8001ff, 0xffffffffff8003ff, 0xffffffffff8007ff,
    0xffffffffff800fff, 0xffffffffff801fff, 0xffffffffff803fff, 0xffffffffff807fff,
    0xffffffffff80ffff, 0xffffffffff81ffff, 0xffffffffff83ffff, 0xffffffffff87ffff,
    0xffffffffff8fffff, 0xffffffffff9fffff, 0xffffffffffbfffff],
   [0xffffffffff000000, 0xffffffffff000001, 0xffffffffff000003, 0xffffffffff000007,
    0xffffffffff00000f, 0xffffffffff00001f, 0xffffffffff00003f, 0xffffffffff00007f,
    0xffffffffff0000ff, 0xffffffffff0001ff, 0xffffffffff0003ff, 0xffffffffff0007ff,
    0xffffffffff000fff, 0xffffffffff001fff, 0xffffffffff003fff, 0xffffffffff007fff,
    0xffffffffff00ffff, 0xffffffffff01ffff, 0xffffffffff03ffff, 0xffffffffff07ffff,
    0xffffffffff0fffff, 0xffffffffff1fffff, 0xffffffffff3fffff, 0xffffffffff7fffff],
   [0xfffffffffe000000, 0xfffffffffe000001, 0xfffffffffe000003, 0xfffffffffe000007,
    0xfffffffffe00000f, 0xfffffffffe00001f, 0xfffffffffe00003f, 0xfffffffffe00007f,
    0xfffffffffe0000ff, 0xfffffffffe0001ff, 0xfffffffffe0003ff, 0xfffffffffe0007ff,
    0xfffffffffe000fff, 0xfffffffffe001fff, 0xfffffffffe003fff, 0xfffffffffe007fff,
    0xfffffffffe00ffff, 0xfffffffffe01ffff, 0xfffffffffe03ffff, 0xfffffffffe07ffff,
    0xfffffffffe0fffff, 0xfffffffffe1fffff, 0xfffffffffe3fffff, 0xfffffffffe7fffff,
    0xfffffffffeffffff],
   [0xfffffffffc000000, 0xfffffffffc000001, 0xfffffffffc000003, 0xfffffffffc000007,
    0xfffffffffc00000f, 0xfffffffffc00001f, 0xfffffffffc00003f, 0xfffffffffc00007f,
    0xfffffffffc0000ff, 0xfffffffffc0001ff, 0xfffffffffc0003ff, 0xfffffffffc0007ff,
    0xfffffffffc000fff, 0xfffffffffc001fff, 0xfffffffffc003fff, 0xfffffffffc007fff,
    0xfffffffffc00ffff, 0xfffffffffc01ffff, 0xfffffffffc03ffff, 0xfffffffffc07ffff,
    0xfffffffffc0fffff, 0xfffffffffc1fffff, 0xfffffffffc3fffff, 0xfffffffffc7fffff,
    0xfffffffffcffffff, 0xfffffffffdffffff],
   [0xfffffffff8000000, 0xfffffffff8000001, 0xfffffffff8000003, 0xfffffffff8000007,
    0xfffffffff800000f, 0xfffffffff800001f, 0xfffffffff800003f, 0xfffffffff800007f,
    0xfffffffff80000ff, 0xfffffffff80001ff, 0xfffffffff80003ff, 0xfffffffff80007ff,
    0xfffffffff8000fff, 0xfffffffff8001fff, 0xfffffffff8003fff, 0xfffffffff8007fff,
    0xfffffffff800ffff, 0xfffffffff801ffff, 0xfffffffff803ffff, 0xfffffffff807ffff,
    0xfffffffff80fffff, 0xfffffffff81fffff, 0xfffffffff83fffff, 0xfffffffff87fffff,
    0xfffffffff8ffffff, 0xfffffffff9ffffff, 0xfffffffffbffffff]]"

definition mask_rows_27 :: "u64 list list" where
  "mask_rows_27 = [
   [0xfffffffff0000000, 0xfffffffff0000001, 0xfffffffff0000003, 0xfffffffff0000007,
    0xfffffffff000000f, 0xfffffffff000001f, 0xfffffffff000003f, 0xfffffffff000007f,
    0xfffffffff00000ff, 0xfffffffff00001ff, 0xfffffffff00003ff, 0xfffffffff00007ff,
    0xfffffffff0000fff, 0xfffffffff0001fff, 0xfffffffff0003fff, 0xfffffffff0007fff,
    0xfffffffff000ffff, 0xfffffffff001ffff, 0xfffffffff003ffff, 0xfffffffff007ffff,
    0xfffffffff00fffff, 0xfffffffff01fffff, 0xfffffffff03fffff, 0xfffffffff07fffff,
    0xfffffffff0ffffff, 0xfffffffff1ffffff, 0xfffffffff3ffffff, 0xfffffffff7ffffff],
   [0xffffffffe0000000, 0xffffffffe0000001, 0xffffffffe0000003, 0xffffffffe0000007,
    0xffffffffe000000f, 0xffffffffe000001f, 0xffffffffe000003f, 0xffffffffe000007f,
    0xffffffffe00000ff, 0xffffffffe00001ff, 0xffffffffe00003ff, 0xffffffffe00007ff,
    0xffffffffe0000fff, 0xffffffffe0001fff, 0xffffffffe0003fff, 0xffffffffe0007fff,
    0xffffffffe000ffff, 0xffffffffe001ffff, 0xffffffffe003ffff, 0xffffffffe007ffff,
    0xffffffffe00fffff, 0xffffffffe01fffff, 0xffffffffe03fffff, 0xffffffffe07fffff,
    0xffffffffe0ffffff, 0xffffffffe1ffffff, 0xffffffffe3ffffff, 0xffffffffe7ffffff,
    0xffffffffefffffff],
   [0xffffffffc0000000, 0xffffffffc0000001, 0xffffffffc0000003, 0xffffffffc0000007,
    0xffffffffc000000f, 0xffffffffc000001f, 0xffffffffc000003f, 0xffffffffc000007f,
    0xffffffffc00000ff, 0xffffffffc00001ff, 0xffffffffc00003ff, 0xffffffffc00007ff,
    0xffffffffc0000fff, 0xffffffffc0001fff, 0xffffffffc0003fff, 0xffffffffc0007fff,
    0xffffffffc000ffff, 0xffffffffc001ffff, 0xffffffffc003ffff, 0xffffffffc007ffff,
    0xffffffffc00fffff, 0xffffffffc01fffff, 0xffffffffc03fffff, 0xffffffffc07fffff,
    0xffffffffc0ffffff, 0xffffffffc1ffffff, 0xffffffffc3ffffff, 0xffffffffc7ffffff,
    0xffffffffcfffffff, 0xffffffffdfffffff],
   [0xffffffff80000000, 0xffffffff80000001, 0xffffffff80000003, 0xffffffff80000007,
    0xffffffff8000000f, 0xffffffff8000001f, 0xffffffff8000003f, 0xffffffff8000007f,
    0xffffffff800000ff, 0xffffffff800001ff, 0xffffffff800003ff, 0xffffffff800007ff,
    0xffffffff80000fff, 0xffffffff80001fff, 0xffffffff80003fff, 0xffffffff80007fff,
    0xffffffff8000ffff, 0xffffffff8001ffff, 0xffffffff8003ffff, 0xffffffff8007ffff,
    0xffffffff800fffff, 0xffffffff801fffff, 0xffffffff803fffff, 0xffffffff807fffff,
    0xffffffff80ffffff, 0xffffffff81ffffff, 0xffffffff83ffffff, 0xffffffff87ffffff,
    0xffffffff8fffffff, 0xffffffff9fffffff, 0xffffffffbfffffff]]"

definition mask_rows_31 :: "u64 list list" where
  "mask_rows_31 = [
   [0xffffffff00000000, 0xffffffff00000001, 0xffffffff00000003, 0xffffffff00000007,
    0xffffffff0000000f, 0xffffffff0000001f, 0xffffffff0000003f, 0xffffffff0000007f,
    0xffffffff000000ff, 0xffffffff000001ff, 0xffffffff000003ff, 0xffffffff000007ff,
    0xffffffff00000fff, 0xffffffff00001fff, 0xffffffff00003fff, 0xffffffff00007fff,
    0xffffffff0000ffff, 0xffffffff0001ffff, 0xffffffff0003ffff, 0xffffffff0007ffff,
    0xffffffff000fffff, 0xffffffff001fffff, 0xffffffff003fffff, 0xffffffff007fffff,
    0xffffffff00ffffff, 0xffffffff01ffffff, 0xffffffff03ffffff, 0xffffffff07ffffff,
    0xffffffff0fffffff, 0xffffffff1fffffff, 0xffffffff3fffffff, 0xffffffff7fffffff],
   [0xfffffffe00000000, 0xfffffffe00000001, 0xfffffffe00000003, 0xfffffffe00000007,
    0xfffffffe0000000f, 0xfffffffe0000001f, 0xfffffffe0000003f, 0xfffffffe0000007f,
    0xfffffffe000000ff, 0xfffffffe000001ff, 0xfffffffe000003ff, 0xfffffffe000007ff,
    0xfffffffe00000fff, 0xfffffffe00001fff, 0xfffffffe00003fff, 0xfffffffe00007fff,
    0xfffffffe0000ffff, 0xfffffffe0001ffff, 0xfffffffe0003ffff, 0xfffffffe0007ffff,
    0xfffffffe000fffff, 0xfffffffe001fffff, 0xfffffffe003fffff, 0xfffffffe007fffff,
    0xfffffffe00ffffff, 0xfffffffe01ffffff, 0xfffffffe03ffffff, 0xfffffffe07ffffff,
    0xfffffffe0fffffff, 0xfffffffe1fffffff, 0xfffffffe3fffffff, 0xfffffffe7fffffff,
    0xfffffffeffffffff],
   [0xfffffffc00000000, 0xfffffffc00000001, 0xfffffffc00000003, 0xfffffffc00000007,
    0xfffffffc0000000f, 0xfffffffc0000001f, 0xfffffffc0000003f, 0xfffffffc0000007f,
    0xfffffffc000000ff, 0xfffffffc000001ff, 0xfffffffc000003ff, 0xfffffffc000007ff,
    0xfffffffc00000fff, 0xfffffffc00001fff, 0xfffffffc00003fff, 0xfffffffc00007fff,
    0xfffffffc0000ffff, 0xfffffffc0001ffff, 0xfffffffc0003ffff, 0xfffffffc0007ffff,
    0xfffffffc000fffff, 0xfffffffc001fffff, 0xfffffffc003fffff, 0xfffffffc007fffff,
    0xfffffffc00ffffff, 0xfffffffc01ffffff, 0xfffffffc03ffffff, 0xfffffffc07ffffff,
    0xfffffffc0fffffff, 0xfffffffc1fffffff, 0xfffffffc3fffffff, 0xfffffffc7fffffff,
    0xfffffffcffffffff, 0xfffffffdffffffff],
   [0xfffffff800000000, 0xfffffff800000001, 0xfffffff800000003, 0xfffffff800000007,
    0xfffffff80000000f, 0xfffffff80000001f, 0xfffffff80000003f, 0xfffffff80000007f,
    0xfffffff8000000ff, 0xfffffff8000001ff, 0xfffffff8000003ff, 0xfffffff8000007ff,
    0xfffffff800000fff, 0xfffffff800001fff, 0xfffffff800003fff, 0xfffffff800007fff,
    0xfffffff80000ffff, 0xfffffff80001ffff, 0xfffffff80003ffff, 0xfffffff80007ffff,
    0xfffffff8000fffff, 0xfffffff8001fffff, 0xfffffff8003fffff, 0xfffffff8007fffff,
    0xfffffff800ffffff, 0xfffffff801ffffff, 0xfffffff803ffffff, 0xfffffff807ffffff,
    0xfffffff80fffffff, 0xfffffff81fffffff, 0xfffffff83fffffff, 0xfffffff87fffffff,
    0xfffffff8ffffffff, 0xfffffff9ffffffff, 0xfffffffbffffffff]]"

definition mask_rows_35 :: "u64 list list" where
  "mask_rows_35 = [
   [0xfffffff000000000, 0xfffffff000000001, 0xfffffff000000003, 0xfffffff000000007,
    0xfffffff00000000f, 0xfffffff00000001f, 0xfffffff00000003f, 0xfffffff00000007f,
    0xfffffff0000000ff, 0xfffffff0000001ff, 0xfffffff0000003ff, 0xfffffff0000007ff,
    0xfffffff000000fff, 0xfffffff000001fff, 0xfffffff000003fff, 0xfffffff000007fff,
    0xfffffff00000ffff, 0xfffffff00001ffff, 0xfffffff00003ffff, 0xfffffff00007ffff,
    0xfffffff0000fffff, 0xfffffff0001fffff, 0xfffffff0003fffff, 0xfffffff0007fffff,
    0xfffffff000ffffff, 0xfffffff001ffffff, 0xfffffff003ffffff, 0xfffffff007ffffff,
    0xfffffff00fffffff, 0xfffffff01fffffff, 0xfffffff03fffffff, 0xfffffff07fffffff,
    0xfffffff0ffffffff, 0xfffffff1ffffffff, 0xfffffff3ffffffff, 0xfffffff7ffffffff],
   [0xffffffe000000000, 0xffffffe000000001, 0xffffffe000000003, 0xffffffe000000007,
    0xffffffe00000000f, 0xffffffe00000001f, 0xffffffe00000003f, 0xffffffe00000007f,
    0xffffffe0000000ff, 0xffffffe0000001ff, 0xffffffe0000003ff, 0xffffffe0000007ff,
    0xffffffe000000fff, 0xffffffe000001fff, 0xffffffe000003fff, 0xffffffe000007fff,
    0xffffffe00000ffff, 0xffffffe00001ffff, 0xffffffe00003ffff, 0xffffffe00007ffff,
    0xffffffe0000fffff, 0xffffffe0001fffff, 0xffffffe0003fffff, 0xffffffe0007fffff,
    0xffffffe000ffffff, 0xffffffe001ffffff, 0xffffffe003ffffff, 0xffffffe007ffffff,
    0xffffffe00fffffff, 0xffffffe01fffffff, 0xffffffe03fffffff, 0xffffffe07fffffff,
    0xffffffe0ffffffff, 0xffffffe1ffffffff, 0xffffffe3ffffffff, 0xffffffe7ffffffff,
    0xffffffefffffffff],
   [0xffffffc000000000, 0xffffffc000000001, 0xffffffc000000003, 0xffffffc000000007,
    0xffffffc00000000f, 0xffffffc00000001f, 0xffffffc00000003f, 0xffffffc00000007f,
    0xffffffc0000000ff, 0xffffffc0000001ff, 0xffffffc0000003ff, 0xffffffc0000007ff,
    0xffffffc000000fff, 0xffffffc000001fff, 0xffffffc000003fff, 0xffffffc000007fff,
    0xffffffc00000ffff, 0xffffffc00001ffff, 0xffffffc00003ffff, 0xffffffc00007ffff,
    0xffffffc0000fffff, 0xffffffc0001fffff, 0xffffffc0003fffff, 0xffffffc0007fffff,
    0xffffffc000ffffff, 0xffffffc001ffffff, 0xffffffc003ffffff, 0xffffffc007ffffff,
    0xffffffc00fffffff, 0xffffffc01fffffff, 0xffffffc03fffffff, 0xffffffc07fffffff,
    0xffffffc0ffffffff, 0xffffffc1ffffffff, 0xffffffc3ffffffff, 0xffffffc7ffffffff,
    0xffffffcfffffffff, 0xffffffdfffffffff]]"

definition mask_rows_38 :: "u64 list list" where
  "mask_rows_38 = [
   [0xffffff8000000000, 0xffffff8000000001, 0xffffff8000000003, 0xffffff8000000007,
    0xffffff800000000f, 0xffffff800000001f, 0xffffff800000003f, 0xffffff800000007f,
    0xffffff80000000ff, 0xffffff80000001ff, 0xffffff80000003ff, 0xffffff80000007ff,
    0xffffff8000000fff, 0xffffff8000001fff, 0xffffff8000003fff, 0xffffff8000007fff,
    0xffffff800000ffff, 0xffffff800001ffff, 0xffffff800003ffff, 0xffffff800007ffff,
    0xffffff80000fffff, 0xffffff80001fffff, 0xffffff80003fffff, 0xffffff80007fffff,
    0xffffff8000ffffff, 0xffffff8001ffffff, 0xffffff8003ffffff, 0xffffff8007ffffff,
    0xffffff800fffffff, 0xffffff801fffffff, 0xffffff803fffffff, 0xffffff807fffffff,
    0xffffff80ffffffff, 0xffffff81ffffffff, 0xffffff83ffffffff, 0xffffff87ffffffff,
    0xffffff8fffffffff, 0xffffff9fffffffff, 0xffffffbfffffffff],
   [0xffffff0000000000, 0xffffff0000000001, 0xffffff0000000003, 0xffffff0000000007,
    0xffffff000000000f, 0xffffff000000001f, 0xffffff000000003f, 0xffffff000000007f,
    0xffffff00000000ff, 0xffffff00000001ff, 0xffffff00000003ff, 0xffffff00000007ff,
    0xffffff0000000fff, 0xffffff0000001fff, 0xffffff0000003fff, 0xffffff0000007fff,
    0xffffff000000ffff, 0xffffff000001ffff, 0xffffff000003ffff, 0xffffff000007ffff,
    0xffffff00000fffff, 0xffffff00001fffff, 0xffffff00003fffff, 0xffffff00007fffff,
    0xffffff0000ffffff, 0xffffff0001ffffff, 0xffffff0003ffffff, 0xffffff0007ffffff,
    0xffffff000fffffff, 0xffffff001fffffff, 0xffffff003fffffff, 0xffffff007fffffff,
    0xffffff00ffffffff, 0xffffff01ffffffff, 0xffffff03ffffffff, 0xffffff07ffffffff,
    0xffffff0fffffffff, 0xffffff1fffffffff, 0xffffff3fffffffff, 0xffffff7fffffffff],
   [0xfffffe0000000000, 0xfffffe0000000001, 0xfffffe0000000003, 0xfffffe0000000007,
    0xfffffe000000000f, 0xfffffe000000001f, 0xfffffe000000003f, 0xfffffe000000007f,
    0xfffffe00000000ff, 0xfffffe00000001ff, 0xfffffe00000003ff, 0xfffffe00000007ff,
    0xfffffe0000000fff, 0xfffffe0000001fff, 0xfffffe0000003fff, 0xfffffe0000007fff,
    0xfffffe000000ffff, 0xfffffe000001ffff, 0xfffffe000003ffff, 0xfffffe000007ffff,
    0xfffffe00000fffff, 0xfffffe00001fffff, 0xfffffe00003fffff, 0xfffffe00007fffff,
    0xfffffe0000ffffff, 0xfffffe0001ffffff, 0xfffffe0003ffffff, 0xfffffe0007ffffff,
    0xfffffe000fffffff, 0xfffffe001fffffff, 0xfffffe003fffffff, 0xfffffe007fffffff,
    0xfffffe00ffffffff, 0xfffffe01ffffffff, 0xfffffe03ffffffff, 0xfffffe07ffffffff,
    0xfffffe0fffffffff, 0xfffffe1fffffffff, 0xfffffe3fffffffff, 0xfffffe7fffffffff,
    0xfffffeffffffffff]]"

definition mask_rows_41 :: "u64 list list" where
  "mask_rows_41 = [
   [0xfffffc0000000000, 0xfffffc0000000001, 0xfffffc0000000003, 0xfffffc0000000007,
    0xfffffc000000000f, 0xfffffc000000001f, 0xfffffc000000003f, 0xfffffc000000007f,
    0xfffffc00000000ff, 0xfffffc00000001ff, 0xfffffc00000003ff, 0xfffffc00000007ff,
    0xfffffc0000000fff, 0xfffffc0000001fff, 0xfffffc0000003fff, 0xfffffc0000007fff,
    0xfffffc000000ffff, 0xfffffc000001ffff, 0xfffffc000003ffff, 0xfffffc000007ffff,
    0xfffffc00000fffff, 0xfffffc00001fffff, 0xfffffc00003fffff, 0xfffffc00007fffff,
    0xfffffc0000ffffff, 0xfffffc0001ffffff, 0xfffffc0003ffffff, 0xfffffc0007ffffff,
    0xfffffc000fffffff, 0xfffffc001fffffff, 0xfffffc003fffffff, 0xfffffc007fffffff,
    0xfffffc00ffffffff, 0xfffffc01ffffffff, 0xfffffc03ffffffff, 0xfffffc07ffffffff,
    0xfffffc0fffffffff, 0xfffffc1fffffffff, 0xfffffc3fffffffff, 0xfffffc7fffffffff,
    0xfffffcffffffffff, 0xfffffdffffffffff],
   [0xfffff80000000000, 0xfffff80000000001, 0xfffff80000000003, 0xfffff80000000007,
    0xfffff8000000000f, 0xfffff8000000001f, 0xfffff8000000003f, 0xfffff8000000007f,
    0xfffff800000000ff, 0xfffff800000001ff, 0xfffff800000003ff, 0xfffff800000007ff,
    0xfffff80000000fff, 0xfffff80000001fff, 0xfffff80000003fff, 0xfffff80000007fff,
    0xfffff8000000ffff, 0xfffff8000001ffff, 0xfffff8000003ffff, 0xfffff8000007ffff,
    0xfffff800000fffff, 0xfffff800001fffff, 0xfffff800003fffff, 0xfffff800007fffff,
    0xfffff80000ffffff, 0xfffff80001ffffff, 0xfffff80003ffffff, 0xfffff80007ffffff,
    0xfffff8000fffffff, 0xfffff8001fffffff, 0xfffff8003fffffff, 0xfffff8007fffffff,
    0xfffff800ffffffff, 0xfffff801ffffffff, 0xfffff803ffffffff, 0xfffff807ffffffff,
    0xfffff80fffffffff, 0xfffff81fffffffff, 0xfffff83fffffffff, 0xfffff87fffffffff,
    0xfffff8ffffffffff, 0xfffff9ffffffffff, 0xfffffbffffffffff],
   [0xfffff00000000000, 0xfffff00000000001, 0xfffff00000000003, 0xfffff00000000007,
    0xfffff0000000000f, 0xfffff0000000001f, 0xfffff0000000003f, 0xfffff0000000007f,
    0xfffff000000000ff, 0xfffff000000001ff, 0xfffff000000003ff, 0xfffff000000007ff,
    0xfffff00000000fff, 0xfffff00000001fff, 0xfffff00000003fff, 0xfffff00000007fff,
    0xfffff0000000ffff, 0xfffff0000001ffff, 0xfffff0000003ffff, 0xfffff0000007ffff,
    0xfffff000000fffff, 0xfffff000001fffff, 0xfffff000003fffff, 0xfffff000007fffff,
    0xfffff00000ffffff, 0xfffff00001ffffff, 0xfffff00003ffffff, 0xfffff00007ffffff,
    0xfffff0000fffffff, 0xfffff0001fffffff, 0xfffff0003fffffff, 0xfffff0007fffffff,
    0xfffff000ffffffff, 0xfffff001ffffffff, 0xfffff003ffffffff, 0xfffff007ffffffff,
    0xfffff00fffffffff, 0xfffff01fffffffff, 0xfffff03fffffffff, 0xfffff07fffffffff,
    0xfffff0ffffffffff, 0xfffff1ffffffffff, 0xfffff3ffffffffff, 0xfffff7ffffffffff]]"

definition mask_rows_44 :: "u64 list list" where
  "mask_rows_44 = [
   [0xffffe00000000000, 0xffffe00000000001, 0xffffe00000000003, 0xffffe00000000007,
    0xffffe0000000000f, 0xffffe0000000001f, 0xffffe0000000003f, 0xffffe0000000007f,
    0xffffe000000000ff, 0xffffe000000001ff, 0xffffe000000003ff, 0xffffe000000007ff,
    0xffffe00000000fff, 0xffffe00000001fff, 0xffffe00000003fff, 0xffffe00000007fff,
    0xffffe0000000ffff, 0xffffe0000001ffff, 0xffffe0000003ffff, 0xffffe0000007ffff,
    0xffffe000000fffff, 0xffffe000001fffff, 0xffffe000003fffff, 0xffffe000007fffff,
    0xffffe00000ffffff, 0xffffe00001ffffff, 0xffffe00003ffffff, 0xffffe00007ffffff,
    0xffffe0000fffffff, 0xffffe0001fffffff, 0xffffe0003fffffff, 0xffffe0007fffffff,
    0xffffe000ffffffff, 0xffffe001ffffffff, 0xffffe003ffffffff, 0xffffe007ffffffff,
    0xffffe00fffffffff, 0xffffe01fffffffff, 0xffffe03fffffffff, 0xffffe07fffffffff,
    0xffffe0ffffffffff, 0xffffe1ffffffffff, 0xffffe3ffffffffff, 0xffffe7ffffffffff,
    0xffffefffffffffff],
   [0xffffc00000000000, 0xffffc00000000001, 0xffffc00000000003, 0xffffc00000000007,
    0xffffc0000000000f, 0xffffc0000000001f, 0xffffc0000000003f, 0xffffc0000000007f,
    0xffffc000000000ff, 0xffffc000000001ff, 0xffffc000000003ff, 0xffffc000000007ff,
    0xffffc00000000fff, 0xffffc00000001fff, 0xffffc00000003fff, 0xffffc00000007fff,
    0xffffc0000000ffff, 0xffffc0000001ffff, 0xffffc0000003ffff, 0xffffc0000007ffff,
    0xffffc000000fffff, 0xffffc000001fffff, 0xffffc000003fffff, 0xffffc000007fffff,
    0xffffc00000ffffff, 0xffffc00001ffffff, 0xffffc00003ffffff, 0xffffc00007ffffff,
    0xffffc0000fffffff, 0xffffc0001fffffff, 0xffffc0003fffffff, 0xffffc0007fffffff,
    0xffffc000ffffffff, 0xffffc001ffffffff, 0xffffc003ffffffff, 0xffffc007ffffffff,
    0xffffc00fffffffff, 0xffffc01fffffffff, 0xffffc03fffffffff, 0xffffc07fffffffff,
    0xffffc0ffffffffff, 0xffffc1ffffffffff, 0xffffc3ffffffffff, 0xffffc7ffffffffff,
    0xffffcfffffffffff, 0xffffdfffffffffff],
   [0xffff800000000000, 0xffff800000000001, 0xffff800000000003, 0xffff800000000007,
    0xffff80000000000f, 0xffff80000000001f, 0xffff80000000003f, 0xffff80000000007f,
    0xffff8000000000ff, 0xffff8000000001ff, 0xffff8000000003ff, 0xffff8000000007ff,
    0xffff800000000fff, 0xffff800000001fff, 0xffff800000003fff, 0xffff800000007fff,
    0xffff80000000ffff, 0xffff80000001ffff, 0xffff80000003ffff, 0xffff80000007ffff,
    0xffff8000000fffff, 0xffff8000001fffff, 0xffff8000003fffff, 0xffff8000007fffff,
    0xffff800000ffffff, 0xffff800001ffffff, 0xffff800003ffffff, 0xffff800007ffffff,
    0xffff80000fffffff, 0xffff80001fffffff, 0xffff80003fffffff, 0xffff80007fffffff,
    0xffff8000ffffffff, 0xffff8001ffffffff, 0xffff8003ffffffff, 0xffff8007ffffffff,
    0xffff800fffffffff, 0xffff801fffffffff, 0xffff803fffffffff, 0xffff807fffffffff,
    0xffff80ffffffffff, 0xffff81ffffffffff, 0xffff83ffffffffff, 0xffff87ffffffffff,
    0xffff8fffffffffff, 0xffff9fffffffffff, 0xffffbfffffffffff]]"

definition mask_rows_47 :: "u64 list list" where
  "mask_rows_47 = [
   [0xffff000000000000, 0xffff000000000001, 0xffff000000000003, 0xffff000000000007,
    0xffff00000000000f, 0xffff00000000001f, 0xffff00000000003f, 0xffff00000000007f,
    0xffff0000000000ff, 0xffff0000000001ff, 0xffff0000000003ff, 0xffff0000000007ff,
    0xffff000000000fff, 0xffff000000001fff, 0xffff000000003fff, 0xffff000000007fff,
    0xffff00000000ffff, 0xffff00000001ffff, 0xffff00000003ffff, 0xffff00000007ffff,
    0xffff0000000fffff, 0xffff0000001fffff, 0xffff0000003fffff, 0xffff0000007fffff,
    0xffff000000ffffff, 0xffff000001ffffff, 0xffff000003ffffff, 0xffff000007ffffff,
    0xffff00000fffffff, 0xffff00001fffffff, 0xffff00003fffffff, 0xffff00007fffffff,
    0xffff0000ffffffff, 0xffff0001ffffffff, 0xffff0003ffffffff, 0xffff0007ffffffff,
    0xffff000fffffffff, 0xffff001fffffffff, 0xffff003fffffffff, 0xffff007fffffffff,
    0xffff00ffffffffff, 0xffff01ffffffffff, 0xffff03ffffffffff, 0xffff07ffffffffff,
    0xffff0fffffffffff, 0xffff1fffffffffff, 0xffff3fffffffffff, 0xffff7fffffffffff],
   [0xfffe000000000000, 0xfffe000000000001, 0xfffe000000000003, 0xfffe000000000007,
    0xfffe00000000000f, 0xfffe00000000001f, 0xfffe00000000003f, 0xfffe00000000007f,
    0xfffe0000000000ff, 0xfffe0000000001ff, 0xfffe0000000003ff, 0xfffe0000000007ff,
    0xfffe000000000fff, 0xfffe000000001fff, 0xfffe000000003fff, 0xfffe000000007fff,
    0xfffe00000000ffff, 0xfffe00000001ffff, 0xfffe00000003ffff, 0xfffe00000007ffff,
    0xfffe0000000fffff, 0xfffe0000001fffff, 0xfffe0000003fffff, 0xfffe0000007fffff,
    0xfffe000000ffffff, 0xfffe000001ffffff, 0xfffe000003ffffff, 0xfffe000007ffffff,
    0xfffe00000fffffff, 0xfffe00001fffffff, 0xfffe00003fffffff, 0xfffe00007fffffff,
    0xfffe0000ffffffff, 0xfffe0001ffffffff, 0xfffe0003ffffffff, 0xfffe0007ffffffff,
    0xfffe000fffffffff, 0xfffe001fffffffff, 0xfffe003fffffffff, 0xfffe007fffffffff,
    0xfffe00ffffffffff, 0xfffe01ffffffffff, 0xfffe03ffffffffff, 0xfffe07ffffffffff,
    0xfffe0fffffffffff, 0xfffe1fffffffffff, 0xfffe3fffffffffff, 0xfffe7fffffffffff,
    0xfffeffffffffffff]]"

definition mask_rows_49 :: "u64 list list" where
  "mask_rows_49 = [
   [0xfffc000000000000, 0xfffc000000000001, 0xfffc000000000003, 0xfffc000000000007,
    0xfffc00000000000f, 0xfffc00000000001f, 0xfffc00000000003f, 0xfffc00000000007f,
    0xfffc0000000000ff, 0xfffc0000000001ff, 0xfffc0000000003ff, 0xfffc0000000007ff,
    0xfffc000000000fff, 0xfffc000000001fff, 0xfffc000000003fff, 0xfffc000000007fff,
    0xfffc00000000ffff, 0xfffc00000001ffff, 0xfffc00000003ffff, 0xfffc00000007ffff,
    0xfffc0000000fffff, 0xfffc0000001fffff, 0xfffc0000003fffff, 0xfffc0000007fffff,
    0xfffc000000ffffff, 0xfffc000001ffffff, 0xfffc000003ffffff, 0xfffc000007ffffff,
    0xfffc00000fffffff, 0xfffc00001fffffff, 0xfffc00003fffffff, 0xfffc00007fffffff,
    0xfffc0000ffffffff, 0xfffc0001ffffffff, 0xfffc0003ffffffff, 0xfffc0007ffffffff,
    0xfffc000fffffffff, 0xfffc001fffffffff, 0xfffc003fffffffff, 0xfffc007fffffffff,
    0xfffc00ffffffffff, 0xfffc01ffffffffff, 0xfffc03ffffffffff, 0xfffc07ffffffffff,
    0xfffc0fffffffffff, 0xfffc1fffffffffff, 0xfffc3fffffffffff, 0xfffc7fffffffffff,
    0xfffcffffffffffff, 0xfffdffffffffffff],
   [0xfff8000000000000, 0xfff8000000000001, 0xfff8000000000003, 0xfff8000000000007,
    0xfff800000000000f, 0xfff800000000001f, 0xfff800000000003f, 0xfff800000000007f,
    0xfff80000000000ff, 0xfff80000000001ff, 0xfff80000000003ff, 0xfff80000000007ff,
    0xfff8000000000fff, 0xfff8000000001fff, 0xfff8000000003fff, 0xfff8000000007fff,
    0xfff800000000ffff, 0xfff800000001ffff, 0xfff800000003ffff, 0xfff800000007ffff,
    0xfff80000000fffff, 0xfff80000001fffff, 0xfff80000003fffff, 0xfff80000007fffff,
    0xfff8000000ffffff, 0xfff8000001ffffff, 0xfff8000003ffffff, 0xfff8000007ffffff,
    0xfff800000fffffff, 0xfff800001fffffff, 0xfff800003fffffff, 0xfff800007fffffff,
    0xfff80000ffffffff, 0xfff80001ffffffff, 0xfff80003ffffffff, 0xfff80007ffffffff,
    0xfff8000fffffffff, 0xfff8001fffffffff, 0xfff8003fffffffff, 0xfff8007fffffffff,
    0xfff800ffffffffff, 0xfff801ffffffffff, 0xfff803ffffffffff, 0xfff807ffffffffff,
    0xfff80fffffffffff, 0xfff81fffffffffff, 0xfff83fffffffffff, 0xfff87fffffffffff,
    0xfff8ffffffffffff, 0xfff9ffffffffffff, 0xfffbffffffffffff]]"

definition mask_rows_51 :: "u64 list list" where
  "mask_rows_51 = [
   [0xfff0000000000000, 0xfff0000000000001, 0xfff0000000000003, 0xfff0000000000007,
    0xfff000000000000f, 0xfff000000000001f, 0xfff000000000003f, 0xfff000000000007f,
    0xfff00000000000ff, 0xfff00000000001ff, 0xfff00000000003ff, 0xfff00000000007ff,
    0xfff0000000000fff, 0xfff0000000001fff, 0xfff0000000003fff, 0xfff0000000007fff,
    0xfff000000000ffff, 0xfff000000001ffff, 0xfff000000003ffff, 0xfff000000007ffff,
    0xfff00000000fffff, 0xfff00000001fffff, 0xfff00000003fffff, 0xfff00000007fffff,
    0xfff0000000ffffff, 0xfff0000001ffffff, 0xfff0000003ffffff, 0xfff0000007ffffff,
    0xfff000000fffffff, 0xfff000001fffffff, 0xfff000003fffffff, 0xfff000007fffffff,
    0xfff00000ffffffff, 0xfff00001ffffffff, 0xfff00003ffffffff, 0xfff00007ffffffff,
    0xfff0000fffffffff, 0xfff0001fffffffff, 0xfff0003fffffffff, 0xfff0007fffffffff,
    0xfff000ffffffffff, 0xfff001ffffffffff, 0xfff003ffffffffff, 0xfff007ffffffffff,
    0xfff00fffffffffff, 0xfff01fffffffffff, 0xfff03fffffffffff, 0xfff07fffffffffff,
    0xfff0ffffffffffff, 0xfff1ffffffffffff, 0xfff3ffffffffffff, 0xfff7ffffffffffff],
   [0xffe0000000000000, 0xffe0000000000001, 0xffe0000000000003, 0xffe0000000000007,
    0xffe000000000000f, 0xffe000000000001f, 0xffe000000000003f, 0xffe000000000007f,
    0xffe00000000000ff, 0xffe00000000001ff, 0xffe00000000003ff, 0xffe00000000007ff,
    0xffe0000000000fff, 0xffe0000000001fff, 0xffe0000000003fff, 0xffe0000000007fff,
    0xffe000000000ffff, 0xffe000000001ffff, 0xffe000000003ffff, 0xffe000000007ffff,
    0xffe00000000fffff, 0xffe00000001fffff, 0xffe00000003fffff, 0xffe00000007fffff,
    0xffe0000000ffffff, 0xffe0000001ffffff, 0xffe0000003ffffff, 0xffe0000007ffffff,
    0xffe000000fffffff, 0xffe000001fffffff, 0xffe000003fffffff, 0xffe000007fffffff,
    0xffe00000ffffffff, 0xffe00001ffffffff, 0xffe00003ffffffff, 0xffe00007ffffffff,
    0xffe0000fffffffff, 0xffe0001fffffffff, 0xffe0003fffffffff, 0xffe0007fffffffff,
    0xffe000ffffffffff, 0xffe001ffffffffff, 0xffe003ffffffffff, 0xffe007ffffffffff,
    0xffe00fffffffffff, 0xffe01fffffffffff, 0xffe03fffffffffff, 0xffe07fffffffffff,
    0xffe0ffffffffffff, 0xffe1ffffffffffff, 0xffe3ffffffffffff, 0xffe7ffffffffffff,
    0xffefffffffffffff]]"

definition mask_rows_53 :: "u64 list list" where
  "mask_rows_53 = [
   [0xffc0000000000000, 0xffc0000000000001, 0xffc0000000000003, 0xffc0000000000007,
    0xffc000000000000f, 0xffc000000000001f, 0xffc000000000003f, 0xffc000000000007f,
    0xffc00000000000ff, 0xffc00000000001ff, 0xffc00000000003ff, 0xffc00000000007ff,
    0xffc0000000000fff, 0xffc0000000001fff, 0xffc0000000003fff, 0xffc0000000007fff,
    0xffc000000000ffff, 0xffc000000001ffff, 0xffc000000003ffff, 0xffc000000007ffff,
    0xffc00000000fffff, 0xffc00000001fffff, 0xffc00000003fffff, 0xffc00000007fffff,
    0xffc0000000ffffff, 0xffc0000001ffffff, 0xffc0000003ffffff, 0xffc0000007ffffff,
    0xffc000000fffffff, 0xffc000001fffffff, 0xffc000003fffffff, 0xffc000007fffffff,
    0xffc00000ffffffff, 0xffc00001ffffffff, 0xffc00003ffffffff, 0xffc00007ffffffff,
    0xffc0000fffffffff, 0xffc0001fffffffff, 0xffc0003fffffffff, 0xffc0007fffffffff,
    0xffc000ffffffffff, 0xffc001ffffffffff, 0xffc003ffffffffff, 0xffc007ffffffffff,
    0xffc00fffffffffff, 0xffc01fffffffffff, 0xffc03fffffffffff, 0xffc07fffffffffff,
    0xffc0ffffffffffff, 0xffc1ffffffffffff, 0xffc3ffffffffffff, 0xffc7ffffffffffff,
    0xffcfffffffffffff, 0xffdfffffffffffff],
   [0xff80000000000000, 0xff80000000000001, 0xff80000000000003, 0xff80000000000007,
    0xff8000000000000f, 0xff8000000000001f, 0xff8000000000003f, 0xff8000000000007f,
    0xff800000000000ff, 0xff800000000001ff, 0xff800000000003ff, 0xff800000000007ff,
    0xff80000000000fff, 0xff80000000001fff, 0xff80000000003fff, 0xff80000000007fff,
    0xff8000000000ffff, 0xff8000000001ffff, 0xff8000000003ffff, 0xff8000000007ffff,
    0xff800000000fffff, 0xff800000001fffff, 0xff800000003fffff, 0xff800000007fffff,
    0xff80000000ffffff, 0xff80000001ffffff, 0xff80000003ffffff, 0xff80000007ffffff,
    0xff8000000fffffff, 0xff8000001fffffff, 0xff8000003fffffff, 0xff8000007fffffff,
    0xff800000ffffffff, 0xff800001ffffffff, 0xff800003ffffffff, 0xff800007ffffffff,
    0xff80000fffffffff, 0xff80001fffffffff, 0xff80003fffffffff, 0xff80007fffffffff,
    0xff8000ffffffffff, 0xff8001ffffffffff, 0xff8003ffffffffff, 0xff8007ffffffffff,
    0xff800fffffffffff, 0xff801fffffffffff, 0xff803fffffffffff, 0xff807fffffffffff,
    0xff80ffffffffffff, 0xff81ffffffffffff, 0xff83ffffffffffff, 0xff87ffffffffffff,
    0xff8fffffffffffff, 0xff9fffffffffffff, 0xffbfffffffffffff]]"

definition mask_rows_55 :: "u64 list list" where
  "mask_rows_55 = [
   [0xff00000000000000, 0xff00000000000001, 0xff00000000000003, 0xff00000000000007,
    0xff0000000000000f, 0xff0000000000001f, 0xff0000000000003f, 0xff0000000000007f,
    0xff000000000000ff, 0xff000000000001ff, 0xff000000000003ff, 0xff000000000007ff,
    0xff00000000000fff, 0xff00000000001fff, 0xff00000000003fff, 0xff00000000007fff,
    0xff0000000000ffff, 0xff0000000001ffff, 0xff0000000003ffff, 0xff0000000007ffff,
    0xff000000000fffff, 0xff000000001fffff, 0xff000000003fffff, 0xff000000007fffff,
    0xff00000000ffffff, 0xff00000001ffffff, 0xff00000003ffffff, 0xff00000007ffffff,
    0xff0000000fffffff, 0xff0000001fffffff, 0xff0000003fffffff, 0xff0000007fffffff,
    0xff000000ffffffff, 0xff000001ffffffff, 0xff000003ffffffff, 0xff000007ffffffff,
    0xff00000fffffffff, 0xff00001fffffffff, 0xff00003fffffffff, 0xff00007fffffffff,
    0xff0000ffffffffff, 0xff0001ffffffffff, 0xff0003ffffffffff, 0xff0007ffffffffff,
    0xff000fffffffffff, 0xff001fffffffffff, 0xff003fffffffffff, 0xff007fffffffffff,
    0xff00ffffffffffff, 0xff01ffffffffffff, 0xff03ffffffffffff, 0xff07ffffffffffff,
    0xff0fffffffffffff, 0xff1fffffffffffff, 0xff3fffffffffffff, 0xff7fffffffffffff],
   [0xfe00000000000000, 0xfe00000000000001, 0xfe00000000000003, 0xfe00000000000007,
    0xfe0000000000000f, 0xfe0000000000001f, 0xfe0000000000003f, 0xfe0000000000007f,
    0xfe000000000000ff, 0xfe000000000001ff, 0xfe000000000003ff, 0xfe000000000007ff,
    0xfe00000000000fff, 0xfe00000000001fff, 0xfe00000000003fff, 0xfe00000000007fff,
    0xfe0000000000ffff, 0xfe0000000001ffff, 0xfe0000000003ffff, 0xfe0000000007ffff,
    0xfe000000000fffff, 0xfe000000001fffff, 0xfe000000003fffff, 0xfe000000007fffff,
    0xfe00000000ffffff, 0xfe00000001ffffff, 0xfe00000003ffffff, 0xfe00000007ffffff,
    0xfe0000000fffffff, 0xfe0000001fffffff, 0xfe0000003fffffff, 0xfe0000007fffffff,
    0xfe000000ffffffff, 0xfe000001ffffffff, 0xfe000003ffffffff, 0xfe000007ffffffff,
    0xfe00000fffffffff, 0xfe00001fffffffff, 0xfe00003fffffffff, 0xfe00007fffffffff,
    0xfe0000ffffffffff, 0xfe0001ffffffffff, 0xfe0003ffffffffff, 0xfe0007ffffffffff,
    0xfe000fffffffffff, 0xfe001fffffffffff, 0xfe003fffffffffff, 0xfe007fffffffffff,
    0xfe00ffffffffffff, 0xfe01ffffffffffff, 0xfe03ffffffffffff, 0xfe07ffffffffffff,
    0xfe0fffffffffffff, 0xfe1fffffffffffff, 0xfe3fffffffffffff, 0xfe7fffffffffffff,
    0xfeffffffffffffff]]"

definition mask_rows_57 :: "u64 list list" where
  "mask_rows_57 = [
   [0xfc00000000000000, 0xfc00000000000001, 0xfc00000000000003, 0xfc00000000000007,
    0xfc0000000000000f, 0xfc0000000000001f, 0xfc0000000000003f, 0xfc0000000000007f,
    0xfc000000000000ff, 0xfc000000000001ff, 0xfc000000000003ff, 0xfc000000000007ff,
    0xfc00000000000fff, 0xfc00000000001fff, 0xfc00000000003fff, 0xfc00000000007fff,
    0xfc0000000000ffff, 0xfc0000000001ffff, 0xfc0000000003ffff, 0xfc0000000007ffff,
    0xfc000000000fffff, 0xfc000000001fffff, 0xfc000000003fffff, 0xfc000000007fffff,
    0xfc00000000ffffff, 0xfc00000001ffffff, 0xfc00000003ffffff, 0xfc00000007ffffff,
    0xfc0000000fffffff, 0xfc0000001fffffff, 0xfc0000003fffffff, 0xfc0000007fffffff,
    0xfc000000ffffffff, 0xfc000001ffffffff, 0xfc000003ffffffff, 0xfc000007ffffffff,
    0xfc00000fffffffff, 0xfc00001fffffffff, 0xfc00003fffffffff, 0xfc00007fffffffff,
    0xfc0000ffffffffff, 0xfc0001ffffffffff, 0xfc0003ffffffffff, 0xfc0007ffffffffff,
    0xfc000fffffffffff, 0xfc001fffffffffff, 0xfc003fffffffffff, 0xfc007fffffffffff,
    0xfc00ffffffffffff, 0xfc01ffffffffffff, 0xfc03ffffffffffff, 0xfc07ffffffffffff,
    0xfc0fffffffffffff, 0xfc1fffffffffffff, 0xfc3fffffffffffff, 0xfc7fffffffffffff,
    0xfcffffffffffffff, 0xfdffffffffffffff],
   [0xf800000000000000, 0xf800000000000001, 0xf800000000000003, 0xf800000000000007,
    0xf80000000000000f, 0xf80000000000001f, 0xf80000000000003f, 0xf80000000000007f,
    0xf8000000000000ff, 0xf8000000000001ff, 0xf8000000000003ff, 0xf8000000000007ff,
    0xf800000000000fff, 0xf800000000001fff, 0xf800000000003fff, 0xf800000000007fff,
    0xf80000000000ffff, 0xf80000000001ffff, 0xf80000000003ffff, 0xf80000000007ffff,
    0xf8000000000fffff, 0xf8000000001fffff, 0xf8000000003fffff, 0xf8000000007fffff,
    0xf800000000ffffff, 0xf800000001ffffff, 0xf800000003ffffff, 0xf800000007ffffff,
    0xf80000000fffffff, 0xf80000001fffffff, 0xf80000003fffffff, 0xf80000007fffffff,
    0xf8000000ffffffff, 0xf8000001ffffffff, 0xf8000003ffffffff, 0xf8000007ffffffff,
    0xf800000fffffffff, 0xf800001fffffffff, 0xf800003fffffffff, 0xf800007fffffffff,
    0xf80000ffffffffff, 0xf80001ffffffffff, 0xf80003ffffffffff, 0xf80007ffffffffff,
    0xf8000fffffffffff, 0xf8001fffffffffff, 0xf8003fffffffffff, 0xf8007fffffffffff,
    0xf800ffffffffffff, 0xf801ffffffffffff, 0xf803ffffffffffff, 0xf807ffffffffffff,
    0xf80fffffffffffff, 0xf81fffffffffffff, 0xf83fffffffffffff, 0xf87fffffffffffff,
    0xf8ffffffffffffff, 0xf9ffffffffffffff, 0xfbffffffffffffff]]"

definition mask_rows_59 :: "u64 list list" where
  "mask_rows_59 = [
   [0xf000000000000000, 0xf000000000000001, 0xf000000000000003, 0xf000000000000007,
    0xf00000000000000f, 0xf00000000000001f, 0xf00000000000003f, 0xf00000000000007f,
    0xf0000000000000ff, 0xf0000000000001ff, 0xf0000000000003ff, 0xf0000000000007ff,
    0xf000000000000fff, 0xf000000000001fff, 0xf000000000003fff, 0xf000000000007fff,
    0xf00000000000ffff, 0xf00000000001ffff, 0xf00000000003ffff, 0xf00000000007ffff,
    0xf0000000000fffff, 0xf0000000001fffff, 0xf0000000003fffff, 0xf0000000007fffff,
    0xf000000000ffffff, 0xf000000001ffffff, 0xf000000003ffffff, 0xf000000007ffffff,
    0xf00000000fffffff, 0xf00000001fffffff, 0xf00000003fffffff, 0xf00000007fffffff,
    0xf0000000ffffffff, 0xf0000001ffffffff, 0xf0000003ffffffff, 0xf0000007ffffffff,
    0xf000000fffffffff, 0xf000001fffffffff, 0xf000003fffffffff, 0xf000007fffffffff,
    0xf00000ffffffffff, 0xf00001ffffffffff, 0xf00003ffffffffff, 0xf00007ffffffffff,
    0xf0000fffffffffff, 0xf0001fffffffffff, 0xf0003fffffffffff, 0xf0007fffffffffff,
    0xf000ffffffffffff, 0xf001ffffffffffff, 0xf003ffffffffffff, 0xf007ffffffffffff,
    0xf00fffffffffffff, 0xf01fffffffffffff, 0xf03fffffffffffff, 0xf07fffffffffffff,
    0xf0ffffffffffffff, 0xf1ffffffffffffff, 0xf3ffffffffffffff, 0xf7ffffffffffffff],
   [0xe000000000000000, 0xe000000000000001, 0xe000000000000003, 0xe000000000000007,
    0xe00000000000000f, 0xe00000000000001f, 0xe00000000000003f, 0xe00000000000007f,
    0xe0000000000000ff, 0xe0000000000001ff, 0xe0000000000003ff, 0xe0000000000007ff,
    0xe000000000000fff, 0xe000000000001fff, 0xe000000000003fff, 0xe000000000007fff,
    0xe00000000000ffff, 0xe00000000001ffff, 0xe00000000003ffff, 0xe00000000007ffff,
    0xe0000000000fffff, 0xe0000000001fffff, 0xe0000000003fffff, 0xe0000000007fffff,
    0xe000000000ffffff, 0xe000000001ffffff, 0xe000000003ffffff, 0xe000000007ffffff,
    0xe00000000fffffff, 0xe00000001fffffff, 0xe00000003fffffff, 0xe00000007fffffff,
    0xe0000000ffffffff, 0xe0000001ffffffff, 0xe0000003ffffffff, 0xe0000007ffffffff,
    0xe000000fffffffff, 0xe000001fffffffff, 0xe000003fffffffff, 0xe000007fffffffff,
    0xe00000ffffffffff, 0xe00001ffffffffff, 0xe00003ffffffffff, 0xe00007ffffffffff,
    0xe0000fffffffffff, 0xe0001fffffffffff, 0xe0003fffffffffff, 0xe0007fffffffffff,
    0xe000ffffffffffff, 0xe001ffffffffffff, 0xe003ffffffffffff, 0xe007ffffffffffff,
    0xe00fffffffffffff, 0xe01fffffffffffff, 0xe03fffffffffffff, 0xe07fffffffffffff,
    0xe0ffffffffffffff, 0xe1ffffffffffffff, 0xe3ffffffffffffff, 0xe7ffffffffffffff,
    0xefffffffffffffff]]"

definition mask_rows_61 :: "u64 list list" where
  "mask_rows_61 = [
   [0xc000000000000000, 0xc000000000000001, 0xc000000000000003, 0xc000000000000007,
    0xc00000000000000f, 0xc00000000000001f, 0xc00000000000003f, 0xc00000000000007f,
    0xc0000000000000ff, 0xc0000000000001ff, 0xc0000000000003ff, 0xc0000000000007ff,
    0xc000000000000fff, 0xc000000000001fff, 0xc000000000003fff, 0xc000000000007fff,
    0xc00000000000ffff, 0xc00000000001ffff, 0xc00000000003ffff, 0xc00000000007ffff,
    0xc0000000000fffff, 0xc0000000001fffff, 0xc0000000003fffff, 0xc0000000007fffff,
    0xc000000000ffffff, 0xc000000001ffffff, 0xc000000003ffffff, 0xc000000007ffffff,
    0xc00000000fffffff, 0xc00000001fffffff, 0xc00000003fffffff, 0xc00000007fffffff,
    0xc0000000ffffffff, 0xc0000001ffffffff, 0xc0000003ffffffff, 0xc0000007ffffffff,
    0xc000000fffffffff, 0xc000001fffffffff, 0xc000003fffffffff, 0xc000007fffffffff,
    0xc00000ffffffffff, 0xc00001ffffffffff, 0xc00003ffffffffff, 0xc00007ffffffffff,
    0xc0000fffffffffff, 0xc0001fffffffffff, 0xc0003fffffffffff, 0xc0007fffffffffff,
    0xc000ffffffffffff, 0xc001ffffffffffff, 0xc003ffffffffffff, 0xc007ffffffffffff,
    0xc00fffffffffffff, 0xc01fffffffffffff, 0xc03fffffffffffff, 0xc07fffffffffffff,
    0xc0ffffffffffffff, 0xc1ffffffffffffff, 0xc3ffffffffffffff, 0xc7ffffffffffffff,
    0xcfffffffffffffff, 0xdfffffffffffffff],
   [0x8000000000000000, 0x8000000000000001, 0x8000000000000003, 0x8000000000000007,
    0x800000000000000f, 0x800000000000001f, 0x800000000000003f, 0x800000000000007f,
    0x80000000000000ff, 0x80000000000001ff, 0x80000000000003ff, 0x80000000000007ff,
    0x8000000000000fff, 0x8000000000001fff, 0x8000000000003fff, 0x8000000000007fff,
    0x800000000000ffff, 0x800000000001ffff, 0x800000000003ffff, 0x800000000007ffff,
    0x80000000000fffff, 0x80000000001fffff, 0x80000000003fffff, 0x80000000007fffff,
    0x8000000000ffffff, 0x8000000001ffffff, 0x8000000003ffffff, 0x8000000007ffffff,
    0x800000000fffffff, 0x800000001fffffff, 0x800000003fffffff, 0x800000007fffffff,
    0x80000000ffffffff, 0x80000001ffffffff, 0x80000003ffffffff, 0x80000007ffffffff,
    0x8000000fffffffff, 0x8000001fffffffff, 0x8000003fffffffff, 0x8000007fffffffff,
    0x800000ffffffffff, 0x800001ffffffffff, 0x800003ffffffffff, 0x800007ffffffffff,
    0x80000fffffffffff, 0x80001fffffffffff, 0x80003fffffffffff, 0x80007fffffffffff,
    0x8000ffffffffffff, 0x8001ffffffffffff, 0x8003ffffffffffff, 0x8007ffffffffffff,
    0x800fffffffffffff, 0x801fffffffffffff, 0x803fffffffffffff, 0x807fffffffffffff,
    0x80ffffffffffffff, 0x81ffffffffffffff, 0x83ffffffffffffff, 0x87ffffffffffffff,
    0x8fffffffffffffff, 0x9fffffffffffffff, 0xbfffffffffffffff]]"

definition mask_rows_63 :: "u64 list list" where
  "mask_rows_63 = [
   [0x0, 0x1, 0x3, 0x7, 0xf, 0x1f, 0x3f, 0x7f, 0xff, 0x1ff, 0x3ff, 0x7ff, 0xfff, 0x1fff, 0x3fff,
    0x7fff, 0xffff, 0x1ffff, 0x3ffff, 0x7ffff, 0xfffff, 0x1fffff, 0x3fffff, 0x7fffff, 0xffffff,
    0x1ffffff, 0x3ffffff, 0x7ffffff, 0xfffffff, 0x1fffffff, 0x3fffffff, 0x7fffffff, 0xffffffff,
    0x1ffffffff, 0x3ffffffff, 0x7ffffffff, 0xfffffffff, 0x1fffffffff, 0x3fffffffff, 0x7fffffffff,
    0xffffffffff, 0x1ffffffffff, 0x3ffffffffff, 0x7ffffffffff, 0xfffffffffff, 0x1fffffffffff,
    0x3fffffffffff, 0x7fffffffffff, 0xffffffffffff, 0x1ffffffffffff, 0x3ffffffffffff,
    0x7ffffffffffff, 0xfffffffffffff, 0x1fffffffffffff, 0x3fffffffffffff, 0x7fffffffffffff,
    0xffffffffffffff, 0x1ffffffffffffff, 0x3ffffffffffffff, 0x7ffffffffffffff, 0xfffffffffffffff,
    0x1fffffffffffffff, 0x3fffffffffffffff, 0x7fffffffffffffff]]"

definition mask_table :: "u64 list list" where
  "mask_table = concat [mask_rows_0, mask_rows_15, mask_rows_22, mask_rows_27, mask_rows_31, mask_rows_35, mask_rows_38, mask_rows_41, mask_rows_44, mask_rows_47, mask_rows_49, mask_rows_51, mask_rows_53, mask_rows_55, mask_rows_57, mask_rows_59, mask_rows_61, mask_rows_63]"

text \<open>An access \<open>mask_int[l][r]\<close>.\<close>

definition mask_int :: "nat \<Rightarrow> nat \<Rightarrow> u64 result" where
  "mask_int l r =
     bind_result (vec_at mask_table l) (\<lambda>row.
       if r < length row then Inr (row ! r) else if r < 64 then Inr 0 else Inl Out_of_range)"

section \<open>The formula\<close>

text \<open>All bits but those from \<open>r\<close> to \<open>l\<close>.\<close>

definition part_mask :: "nat \<Rightarrow> nat \<Rightarrow> u64" where
  "part_mask l r = NOT (push_bit r (mask (Suc l - r)))"

lemma part_mask_int: "r \<le> l \<Longrightarrow> part_mask l r = word_of_int (2 ^ 64 + 2 ^ r - 2 ^ Suc l - 1)"
proof -
  assume "r \<le> l"
  then have p: "(2 :: u64) ^ (Suc l - r) * 2 ^ r = 2 ^ Suc l" by (simp flip: power_add)
  have "part_mask l r = - (2 ^ (Suc l - r) * 2 ^ r - 2 ^ r) - 1"
    by (simp add: part_mask_def mask_eq_exp_minus_1 push_bit_eq_mult not_eq_complement algebra_simps)
  also have "\<dots> = word_of_int (2 ^ LENGTH(64)) + 2 ^ r - 2 ^ Suc l - 1"
    unfolding p word_of_int_2p_len by simp
  also have "\<dots> = word_of_int (2 ^ 64 + 2 ^ r - 2 ^ Suc l - 1)"
    by (simp only: wi_hom_add wi_hom_sub word_of_int_power_hom of_int_1 of_int_numeral of_int_power of_int_add of_int_diff) simp
  finally show ?thesis .
qed

lemma bit_part_mask: "r \<le> l \<Longrightarrow> bit (part_mask l r) i \<longleftrightarrow> i < 64 \<and> \<not> (r \<le> i \<and> i \<le> l)"
  by (auto simp: part_mask_def bit_simps)

definition mask_row :: "nat \<Rightarrow> u64 list" where
  "mask_row l = map (\<lambda>r. word_of_int (2 ^ 64 + 2 ^ r - 2 ^ Suc l - 1)) [0..<Suc l]"

lemmas upt_from_0 = upt_rec [of 0 "numeral n" for n] upt_rec [of 1 "numeral n" for n] upt_rec [of "Suc 0" "numeral n" for n] numeral_2_eq_2 [symmetric]

lemma mask_rows_0_eq: "mask_rows_0 = map mask_row [0..<15]"
  by (simp add: mask_rows_0_def mask_row_def upt_rec_numeral upt_from_0)

lemma mask_rows_15_eq: "mask_rows_15 = map mask_row [15..<22]"
  by (simp add: mask_rows_15_def mask_row_def upt_rec_numeral upt_from_0)

lemma mask_rows_22_eq: "mask_rows_22 = map mask_row [22..<27]"
  by (simp add: mask_rows_22_def mask_row_def upt_rec_numeral upt_from_0)

lemma mask_rows_27_eq: "mask_rows_27 = map mask_row [27..<31]"
  by (simp add: mask_rows_27_def mask_row_def upt_rec_numeral upt_from_0)

lemma mask_rows_31_eq: "mask_rows_31 = map mask_row [31..<35]"
  by (simp add: mask_rows_31_def mask_row_def upt_rec_numeral upt_from_0)

lemma mask_rows_35_eq: "mask_rows_35 = map mask_row [35..<38]"
  by (simp add: mask_rows_35_def mask_row_def upt_rec_numeral upt_from_0)

lemma mask_rows_38_eq: "mask_rows_38 = map mask_row [38..<41]"
  by (simp add: mask_rows_38_def mask_row_def upt_rec_numeral upt_from_0)

lemma mask_rows_41_eq: "mask_rows_41 = map mask_row [41..<44]"
  by (simp add: mask_rows_41_def mask_row_def upt_rec_numeral upt_from_0)

lemma mask_rows_44_eq: "mask_rows_44 = map mask_row [44..<47]"
  by (simp add: mask_rows_44_def mask_row_def upt_rec_numeral upt_from_0)

lemma mask_rows_47_eq: "mask_rows_47 = map mask_row [47..<49]"
  by (simp add: mask_rows_47_def mask_row_def upt_rec_numeral upt_from_0)

lemma mask_rows_49_eq: "mask_rows_49 = map mask_row [49..<51]"
  by (simp add: mask_rows_49_def mask_row_def upt_rec_numeral upt_from_0)

lemma mask_rows_51_eq: "mask_rows_51 = map mask_row [51..<53]"
  by (simp add: mask_rows_51_def mask_row_def upt_rec_numeral upt_from_0)

lemma mask_rows_53_eq: "mask_rows_53 = map mask_row [53..<55]"
  by (simp add: mask_rows_53_def mask_row_def upt_rec_numeral upt_from_0)

lemma mask_rows_55_eq: "mask_rows_55 = map mask_row [55..<57]"
  by (simp add: mask_rows_55_def mask_row_def upt_rec_numeral upt_from_0)

lemma mask_rows_57_eq: "mask_rows_57 = map mask_row [57..<59]"
  by (simp add: mask_rows_57_def mask_row_def upt_rec_numeral upt_from_0)

lemma mask_rows_59_eq: "mask_rows_59 = map mask_row [59..<61]"
  by (simp add: mask_rows_59_def mask_row_def upt_rec_numeral upt_from_0)

lemma mask_rows_61_eq: "mask_rows_61 = map mask_row [61..<63]"
  by (simp add: mask_rows_61_def mask_row_def upt_rec_numeral upt_from_0)

lemma mask_rows_63_eq: "mask_rows_63 = map mask_row [63..<64]"
  by (simp add: mask_rows_63_def mask_row_def upt_rec_numeral upt_from_0)

lemmas mask_rows_eq = mask_rows_0_eq mask_rows_15_eq mask_rows_22_eq mask_rows_27_eq mask_rows_31_eq mask_rows_35_eq mask_rows_38_eq mask_rows_41_eq mask_rows_44_eq mask_rows_47_eq mask_rows_49_eq mask_rows_51_eq mask_rows_53_eq mask_rows_55_eq mask_rows_57_eq mask_rows_59_eq mask_rows_61_eq mask_rows_63_eq

text \<open>The groups of rows are consecutive.\<close>

lemma mask_table_eq: "mask_table = map mask_row [0..<64]"
proof -
  have "[0..<64] = concat [[0..<15], [15..<22], [22..<27], [27..<31], [31..<35], [35..<38], [38..<41], [41..<44], [44..<47], [47..<49], [49..<51], [51..<53], [53..<55], [55..<57], [57..<59], [59..<61], [61..<63], [63..<64]]"
    by (simp add: upt_rec_numeral upt_from_0)
  then show ?thesis unfolding mask_table_def mask_rows_eq by (simp only: map_concat list.map)
qed

lemma mask_int_eq: "r \<le> l \<Longrightarrow> l < 64 \<Longrightarrow> mask_int l r = Inr (part_mask l r)"
  by (simp add: mask_int_def mask_table_eq mask_row_def part_mask_int del: upt_Suc)

lemma mask_int_outside: "l < r \<Longrightarrow> r < 64 \<Longrightarrow> mask_int l r = Inr 0"
  by (simp add: mask_int_def mask_table_eq mask_row_def del: upt_Suc)

end
