(* ===== verification/Sc_Int.thy ===== *)
theory Sc_Int
  imports Mask_Table
begin

text \<open>
  \<open>sysc/datatypes/int/sc_int_base.h\<close> and \<open>.cpp\<close>: signed integers of 1 to 64 bits, kept in a
  64-bit integer that is sign-extended from their length after every operation, with their bit
  and part selections. A 64-bit \<open>int_type\<close> is a word read with \<open>sint\<close>; its overflow wraps, as on
  the platform, while a division that traps (by zero, or of the least number by -1) and a shift
  by more than 63 are faults.
\<close>

section \<open>State\<close>

record int_base =
  m_val :: u64
  m_len :: nat
  m_ulen :: nat

definition make_int_base :: "int \<Rightarrow> int_base result" where
  "make_int_base w =
     (if w \<le> 0 \<or> 64 < w then Inl Sc_report_error
      else Inr \<lparr>m_val = 0, m_len = nat w, m_ulen = 64 - nat w\<rparr>)"

definition extend_sign :: "int_base \<Rightarrow> int_base" where
  "extend_sign a = a\<lparr>m_val := signed_drop_bit (m_ulen a) (push_bit (m_ulen a) (m_val a))\<rparr>"

definition make_int_value :: "u64 \<Rightarrow> int \<Rightarrow> int_base result" where
  "make_int_value v w = bind_result (make_int_base w) (\<lambda>a. Inr (extend_sign (a\<lparr>m_val := v\<rparr>)))"

definition check_index :: "int \<Rightarrow> int_base \<Rightarrow> nat result" where
  "check_index i a = (if i < 0 \<or> int (m_len a) \<le> i then Inl Sc_report_error else Inr (nat i))"

definition check_range :: "int \<Rightarrow> int \<Rightarrow> int_base \<Rightarrow> (nat \<times> nat) result" where
  "check_range l r a =
     (if r < 0 \<or> int (m_len a) \<le> l \<or> l < r then Inl Sc_report_error else Inr (nat l, nat r))"

section \<open>Arithmetic and bitwise assignment operators\<close>

definition int_assign :: "u64 \<Rightarrow> int_base \<Rightarrow> int_base" where
  "int_assign v a = extend_sign (a\<lparr>m_val := v\<rparr>)"

definition int_add :: "u64 \<Rightarrow> int_base \<Rightarrow> int_base" where
  "int_add v a = extend_sign (a\<lparr>m_val := m_val a + v\<rparr>)"

definition int_sub :: "u64 \<Rightarrow> int_base \<Rightarrow> int_base" where
  "int_sub v a = extend_sign (a\<lparr>m_val := m_val a - v\<rparr>)"

definition int_mul :: "u64 \<Rightarrow> int_base \<Rightarrow> int_base" where
  "int_mul v a = extend_sign (a\<lparr>m_val := m_val a * v\<rparr>)"

definition div_traps :: "u64 \<Rightarrow> u64 \<Rightarrow> bool" where
  "div_traps x y \<longleftrightarrow> y = 0 \<or> (sint x = - (2 ^ 63) \<and> sint y = - 1)"

definition int_div :: "u64 \<Rightarrow> int_base \<Rightarrow> int_base result" where
  "int_div v a =
     (if div_traps (m_val a) v then Inl Div_by_zero
      else Inr (extend_sign (a\<lparr>m_val := word_of_int (sint (m_val a) sdiv sint v)\<rparr>)))"

definition int_mod :: "u64 \<Rightarrow> int_base \<Rightarrow> int_base result" where
  "int_mod v a =
     (if div_traps (m_val a) v then Inl Div_by_zero
      else Inr (extend_sign (a\<lparr>m_val := word_of_int (sint (m_val a) smod sint v)\<rparr>)))"

definition int_and :: "u64 \<Rightarrow> int_base \<Rightarrow> int_base" where
  "int_and v a = extend_sign (a\<lparr>m_val := m_val a AND v\<rparr>)"

definition int_or :: "u64 \<Rightarrow> int_base \<Rightarrow> int_base" where
  "int_or v a = extend_sign (a\<lparr>m_val := m_val a OR v\<rparr>)"

definition int_xor :: "u64 \<Rightarrow> int_base \<Rightarrow> int_base" where
  "int_xor v a = extend_sign (a\<lparr>m_val := m_val a XOR v\<rparr>)"

definition int_shl :: "u64 \<Rightarrow> int_base \<Rightarrow> int_base result" where
  "int_shl v a =
     (if sint v < 0 \<or> 64 \<le> sint v then Inl Out_of_range
      else Inr (extend_sign (a\<lparr>m_val := push_bit (unat v) (m_val a)\<rparr>)))"

definition int_shr :: "u64 \<Rightarrow> int_base \<Rightarrow> int_base result" where
  "int_shr v a =
     (if sint v < 0 \<or> 64 \<le> sint v then Inl Out_of_range
      else Inr (a\<lparr>m_val := signed_drop_bit (unat v) (m_val a)\<rparr>))"

definition int_inc :: "int_base \<Rightarrow> int_base" where
  "int_inc a = extend_sign (a\<lparr>m_val := m_val a + 1\<rparr>)"

definition int_dec :: "int_base \<Rightarrow> int_base" where
  "int_dec a = extend_sign (a\<lparr>m_val := m_val a - 1\<rparr>)"

text \<open>The postfix forms return the old value beside the new object.\<close>

definition int_post_inc :: "int_base \<Rightarrow> int_base \<times> int_base" where
  "int_post_inc a = (a, int_inc a)"

definition int_post_dec :: "int_base \<Rightarrow> int_base \<times> int_base" where
  "int_post_dec a = (a, int_dec a)"

section \<open>Comparison\<close>

definition int_eq :: "int_base \<Rightarrow> int_base \<Rightarrow> bool" where
  "int_eq a b \<longleftrightarrow> m_val a = m_val b"

definition int_less :: "int_base \<Rightarrow> int_base \<Rightarrow> bool" where
  "int_less a b \<longleftrightarrow> sint (m_val a) < sint (m_val b)"

definition int_less_eq :: "int_base \<Rightarrow> int_base \<Rightarrow> bool" where
  "int_less_eq a b \<longleftrightarrow> sint (m_val a) \<le> sint (m_val b)"

section \<open>Bit selection\<close>

definition int_test :: "nat \<Rightarrow> int_base \<Rightarrow> bool" where
  "int_test i a \<longleftrightarrow> m_val a AND push_bit i 1 \<noteq> 0"

definition int_set :: "nat \<Rightarrow> bool \<Rightarrow> int_base \<Rightarrow> int_base" where
  "int_set i v a = a\<lparr>m_val := if v then m_val a OR push_bit i 1 else m_val a AND NOT (push_bit i 1)\<rparr>"

definition bit_read :: "int \<Rightarrow> int_base \<Rightarrow> bool result" where
  "bit_read i a = bind_result (check_index i a) (\<lambda>k. Inr (int_test k a))"

definition bit_assign :: "int \<Rightarrow> bool \<Rightarrow> int_base \<Rightarrow> int_base result" where
  "bit_assign i b a = bind_result (check_index i a) (\<lambda>k. Inr (extend_sign (int_set k b a)))"

definition bit_and_assign :: "int \<Rightarrow> bool \<Rightarrow> int_base \<Rightarrow> int_base result" where
  "bit_and_assign i b a =
     bind_result (check_index i a) (\<lambda>k. Inr (if \<not> b then extend_sign (int_set k b a) else a))"

definition bit_or_assign :: "int \<Rightarrow> bool \<Rightarrow> int_base \<Rightarrow> int_base result" where
  "bit_or_assign i b a =
     bind_result (check_index i a) (\<lambda>k. Inr (if b then extend_sign (int_set k b a) else a))"

definition bit_xor_assign :: "int \<Rightarrow> bool \<Rightarrow> int_base \<Rightarrow> int_base result" where
  "bit_xor_assign i b a =
     bind_result (check_index i a) (\<lambda>k.
       Inr (if b then extend_sign (a\<lparr>m_val := m_val a XOR push_bit k 1\<rparr>) else a))"

section \<open>Part selection\<close>

text \<open>\<open>sc_int_subref_r::operator uint_type\<close>: two shifts of an unsigned value.\<close>

definition part_value :: "nat \<Rightarrow> nat \<Rightarrow> int_base \<Rightarrow> u64" where
  "part_value l r a =
     (let uleft = 64 - (l + 1); uright = uleft + r
      in drop_bit uright (push_bit uleft (m_val a)))"

definition part_read :: "int \<Rightarrow> int \<Rightarrow> int_base \<Rightarrow> u64 result" where
  "part_read l r a = bind_result (check_range l r a) (\<lambda>(l, r). Inr (part_value l r a))"

text \<open>\<open>sc_int_subref::operator =\<close>, with the mask of the table.\<close>

definition part_set :: "nat \<Rightarrow> nat \<Rightarrow> u64 \<Rightarrow> int_base \<Rightarrow> int_base result" where
  "part_set l r v a =
     bind_result (mask_int l r) (\<lambda>mask.
       let val = (m_val a AND mask) OR (push_bit r v AND NOT mask)
       in Inr (extend_sign (a\<lparr>m_val := val\<rparr>)))"

definition part_assign :: "int \<Rightarrow> int \<Rightarrow> u64 \<Rightarrow> int_base \<Rightarrow> int_base result" where
  "part_assign l r v a = bind_result (check_range l r a) (\<lambda>(l, r). part_set l r v a)"

definition part_get_uint64 :: "nat \<Rightarrow> nat \<Rightarrow> int_base \<Rightarrow> u64" where
  "part_get_uint64 l r a =
     (let len = l - r + 1; val = part_value l r a
      in if len < 64 then val AND NOT (push_bit len (- 1)) else val)"

section \<open>Reductions\<close>

definition and_reduce :: "int_base \<Rightarrow> bool" where
  "and_reduce a \<longleftrightarrow> m_val a = - 1"

definition or_reduce :: "int_base \<Rightarrow> bool" where
  "or_reduce a \<longleftrightarrow> m_val a \<noteq> 0"

text \<open>
  The loop of \<open>xor_reduce\<close> halves \<open>n\<close> until it is 1; started at 64 it never reaches 0, so the
  test \<open>n != 1\<close> is written \<open>n > 1\<close>.
\<close>

function xor_loop :: "nat \<Rightarrow> u64 \<Rightarrow> u64 \<Rightarrow> u64" where
  "xor_loop n msk val =
     (let n' = n div 2;
          msk' = drop_bit n' msk;
          val' = drop_bit n' (val AND push_bit n' msk') XOR (val AND msk')
      in if n' > 1 then xor_loop n' msk' val' else val')"
  by auto
termination
  by (relation "measure (\<lambda>(n, msk, val). n)") auto

declare xor_loop.simps [simp del]

definition xor_reduce :: "int_base \<Rightarrow> bool" where
  "xor_reduce a \<longleftrightarrow> xor_loop 64 (- 1) (m_val a AND drop_bit (m_ulen a) (- 1)) \<noteq> 0"

section \<open>Concatenation\<close>

text \<open>The value as its bits, and its transfer to an array of 30-bit digits from bit \<open>low\<close> on.\<close>

definition concat_get_uint64 :: "int_base \<Rightarrow> u64" where
  "concat_get_uint64 a =
     (if m_len a < 64 then m_val a AND NOT (push_bit (m_len a) (- 1)) else m_val a)"

definition digit_mask :: u64 where
  "digit_mask = push_bit 30 1 - 1"

definition put_first :: "nat \<Rightarrow> nat \<Rightarrow> u64 \<Rightarrow> u32 list \<Rightarrow> u32 list result" where
  "put_first i ls val ds =
     bind_result (vec_at ds i) (\<lambda>d.
       vec_set ds i (ucast ((ucast d AND NOT (push_bit ls (- 1))) OR (push_bit ls val AND digit_mask))))"

text \<open>The \<open>switch\<close> on the number of further digits.\<close>

definition put_rest :: "nat \<Rightarrow> nat \<Rightarrow> nat \<Rightarrow> u64 \<Rightarrow> u32 list \<Rightarrow> u32 list result" where
  "put_rest i n ls val ds =
     (let v1 = drop_bit (30 - ls) val; v2 = drop_bit 30 v1; v3 = drop_bit 30 v2
      in if n = 1 then vec_set ds (i + 1) (ucast v1)
         else if n = 2 then
           bind_result (vec_set ds (i + 1) (ucast (v1 AND digit_mask))) (\<lambda>ds.
             vec_set ds (i + 2) (ucast v2))
         else if n = 3 then
           bind_result (vec_set ds (i + 1) (ucast (v1 AND digit_mask))) (\<lambda>ds.
             bind_result (vec_set ds (i + 2) (ucast (v2 AND digit_mask))) (\<lambda>ds.
               vec_set ds (i + 3) (ucast v3)))
         else Inr ds)"

definition concat_get_data :: "nat \<Rightarrow> int_base \<Rightarrow> u32 list \<Rightarrow> (bool \<times> u32 list) result" where
  "concat_get_data low a ds =
     (let i = low div 30;
          ls = low mod 30;
          end_i = (low + (m_len a - 1)) div 30;
          non_zero = (m_val a \<noteq> 0);
          val = concat_get_uint64 a
      in bind_result (put_first i ls val ds) (\<lambda>ds1.
         bind_result (put_rest i (end_i - i) ls val ds1) (\<lambda>ds2. Inr (non_zero, ds2))))"

text \<open>The control words of the same bits: cleared, as the value has only zeros and ones.\<close>

definition concat_get_ctrl :: "nat \<Rightarrow> int_base \<Rightarrow> u32 list \<Rightarrow> u32 list result" where
  "concat_get_ctrl low a ds =
     (let i = low div 30; ls = low mod 30; end_i = (low + (m_len a - 1)) div 30
      in bind_result (vec_at ds i) (\<lambda>d.
         bind_result (vec_set ds i (d AND NOT (push_bit ls (- 1)))) (\<lambda>ds1.
           for_each (\<lambda>k ds. vec_set ds k 0) [i + 1..<end_i + 1] ds1)))"

text \<open>
  The same for a part: \<open>sc_int_subref_r::concat_get_ctrl\<close> masks the first word with the mask of
  the part in the source value, not with the bits below \<open>low\<close>.
\<close>

definition part_get_ctrl :: "nat \<Rightarrow> nat \<Rightarrow> nat \<Rightarrow> u32 list \<Rightarrow> u32 list result" where
  "part_get_ctrl l r low ds =
     (let i = low div 30; end_i = (low + (l - r)) div 30
      in bind_result (mask_int l r) (\<lambda>m.
         bind_result (vec_at ds i) (\<lambda>d.
         bind_result (vec_set ds i (d AND ucast (NOT m))) (\<lambda>ds1.
           for_each (\<lambda>k ds. vec_set ds k 0) [i + 1..<end_i + 1] ds1))))"

definition uint_part_get_ctrl :: "nat \<Rightarrow> nat \<Rightarrow> nat \<Rightarrow> u32 list \<Rightarrow> u32 list result" where
  "uint_part_get_ctrl l r low ds =
     (let i = low div 30; ls = low mod 30; end_i = (low + (l - r)) div 30
      in bind_result (vec_at ds i) (\<lambda>d.
         bind_result (vec_set ds i (d AND NOT (push_bit ls (- 1)))) (\<lambda>ds1.
           for_each (\<lambda>k ds. vec_set ds k 0) [i + 1..<end_i + 1] ds1)))"

section \<open>Well-formed values\<close>

definition int_dims :: "int_base \<Rightarrow> bool" where
  "int_dims a \<longleftrightarrow> 1 \<le> m_len a \<and> m_len a \<le> 64 \<and> m_ulen a = 64 - m_len a"

definition int_wf :: "int_base \<Rightarrow> bool" where
  "int_wf a \<longleftrightarrow> int_dims a \<and> sint (m_val a) = signed_take_bit (m_len a - 1) (sint (m_val a))"

lemma make_int_base_dims: "make_int_base w = Inr a \<Longrightarrow> int_dims a \<and> int (m_len a) = w"
  by (auto simp: make_int_base_def int_dims_def split: if_splits)

lemma extend_sign_simps [simp]:
  "m_len (extend_sign a) = m_len a" "m_ulen (extend_sign a) = m_ulen a"
  by (simp_all add: extend_sign_def)

text \<open>With \<open>m_len a = Suc k\<close> the sign bit is bit \<open>k\<close>.\<close>

lemma int_dims_Suc: "int_dims a \<Longrightarrow> \<exists>k\<le>63. m_len a = Suc k \<and> m_ulen a = 63 - k"
  by (rule exI [of _ "m_len a - 1"]) (auto simp: int_dims_def)

lemma bit_extend_sign:
  assumes "int_dims a"
  shows "bit (m_val (extend_sign a)) i \<longleftrightarrow> i < 64 \<and> bit (m_val a) (min i (m_len a - 1))"
proof -
  obtain k where "k \<le> 63" "m_len a = Suc k" "m_ulen a = 63 - k" using int_dims_Suc [OF assms] by blast
  then show ?thesis by (auto simp: extend_sign_def bit_simps min_def)
qed

lemma sint_extend_sign:
  assumes "int_dims a"
  shows "sint (m_val (extend_sign a)) = signed_take_bit (m_len a - 1) (sint (m_val a))"
proof -
  obtain k where k: "k \<le> 63" "m_len a = Suc k" using int_dims_Suc [OF assms] by blast
  then show ?thesis
    by (intro bit_eqI) (auto simp: bit_sint_iff bit_extend_sign [OF assms] bit_signed_take_bit_iff min_def)
qed

lemma extend_sign_wf: "int_dims a \<Longrightarrow> int_wf (extend_sign a)"
  using sint_extend_sign [of a] by (simp add: int_wf_def int_dims_def)

lemma dims_val [simp]: "int_dims (a\<lparr>m_val := v\<rparr>) \<longleftrightarrow> int_dims a"
  by (simp add: int_dims_def)

lemma wf_dims: "int_wf a \<Longrightarrow> int_dims a"
  by (simp add: int_wf_def)

lemma signed_take_sint_word_of_int:
  "k \<le> 63 \<Longrightarrow> signed_take_bit k (sint (word_of_int x :: u64)) = signed_take_bit k x"
  by (simp add: signed_of_int min_def)

lemma sint_extend_of_int:
  assumes "int_dims a"
  shows "sint (m_val (extend_sign (a\<lparr>m_val := word_of_int x\<rparr>))) = signed_take_bit (m_len a - 1) x"
proof -
  obtain k where k: "k \<le> 63" "m_len a = Suc k" using int_dims_Suc [OF assms] by blast
  then show ?thesis
    using sint_extend_sign [of "a\<lparr>m_val := word_of_int x\<rparr>"] assms by (simp add: signed_take_sint_word_of_int)
qed

end
