(* ===== verification/Sc_Int_Properties.thy ===== *)
theory Sc_Int_Properties
  imports Sc_Int
begin

text \<open>
  What \<open>sc_int_base\<close> promises: two's complement arithmetic of its length, part selections that
  read back what was written, reductions that are what their names say, and a transfer to digit
  arrays that touches only its own bits.
\<close>

section \<open>The table of masks\<close>

text \<open>
  The table is right: each of its 2080 constants is the mask that clears the bits from \<open>r\<close>
  to \<open>l\<close> and keeps all others.
\<close>

theorem mask_table_right:
  assumes "r \<le> l" and "l < 64"
  shows "\<exists>m. mask_int l r = Inr m \<and> (\<forall>i<64. bit m i \<longleftrightarrow> \<not> (r \<le> i \<and> i \<le> l))"
  using assms by (simp add: mask_int_eq bit_part_mask)

theorem mask_table_right_witness:
  "\<exists>m. mask_int 9 4 = Inr m \<and> bit m 3 \<and> \<not> bit m 4 \<and> \<not> bit m 9 \<and> bit m 10"
  using mask_table_right [of 4 9] by auto

section \<open>Arithmetic\<close>

lemma sint_zero_iff: "sint (w :: u64) = 0 \<longleftrightarrow> w = 0"
  by (rule signed_eq_0_iff)

lemma sint_op:
  assumes "int_dims a" and "v = word_of_int x"
  shows "sint (m_val (extend_sign (a\<lparr>m_val := v\<rparr>))) = signed_take_bit (m_len a - 1) x"
  using sint_extend_of_int [OF assms(1), of x] assms(2) by simp

text \<open>
  Arithmetic of the length: the operators compute the mathematical result and keep its two's
  complement of \<open>m_len\<close> bits; the result always fits the length, and a division faults exactly
  where the machine's traps.
\<close>

theorem int_arithmetic_width:
  fixes a :: int_base and v :: u64
  assumes "int_dims a"
  defines "fit \<equiv> signed_take_bit (m_len a - 1)" and "x \<equiv> sint (m_val a)" and "y \<equiv> sint v"
  shows "sint (m_val (int_add v a)) = fit (x + y) \<and> sint (m_val (int_sub v a)) = fit (x - y) \<and>
    sint (m_val (int_mul v a)) = fit (x * y) \<and> sint (m_val (int_and v a)) = fit (x AND y) \<and>
    sint (m_val (int_or v a)) = fit (x OR y) \<and> sint (m_val (int_xor v a)) = fit (x XOR y) \<and>
    sint (m_val (int_inc a)) = fit (x + 1) \<and> sint (m_val (int_dec a)) = fit (x - 1) \<and>
    (\<forall>b. int_div v a = Inr b \<longrightarrow> sint (m_val b) = fit (x sdiv y)) \<and>
    (int_div v a = Inl Div_by_zero \<longleftrightarrow> y = 0 \<or> x = - (2 ^ 63) \<and> y = - 1) \<and>
    (\<forall>z. - (2 ^ (m_len a - 1)) \<le> fit z \<and> fit z < 2 ^ (m_len a - 1))"
proof -
  note op = sint_op [OF assms(1), folded fit_def]
  have w: "m_val a = word_of_int x" "v = word_of_int y" by (simp_all add: x_def y_def)
  have "sint (m_val (int_add v a)) = fit (x + y)" unfolding int_add_def by (rule op) (simp add: w)
  moreover have "sint (m_val (int_sub v a)) = fit (x - y)" unfolding int_sub_def by (rule op) (simp add: w)
  moreover have "sint (m_val (int_mul v a)) = fit (x * y)" unfolding int_mul_def by (rule op) (simp add: w)
  moreover have "sint (m_val (int_and v a)) = fit (x AND y)"
    unfolding int_and_def by (rule op) (rule bit_word_eqI, simp add: x_def y_def bit_simps)
  moreover have "sint (m_val (int_or v a)) = fit (x OR y)"
    unfolding int_or_def by (rule op) (rule bit_word_eqI, simp add: x_def y_def bit_simps)
  moreover have "sint (m_val (int_xor v a)) = fit (x XOR y)"
    unfolding int_xor_def by (rule op) (rule bit_word_eqI, simp add: x_def y_def bit_simps)
  moreover have "sint (m_val (int_inc a)) = fit (x + 1)" unfolding int_inc_def by (rule op) (simp add: w)
  moreover have "sint (m_val (int_dec a)) = fit (x - 1)" unfolding int_dec_def by (rule op) (simp add: w)
  moreover have "sint (m_val b) = fit (x sdiv y)" if "int_div v a = Inr b" for b
    using that op [of _ "x sdiv y"] by (auto simp: int_div_def x_def y_def split: if_splits)
  moreover have "int_div v a = Inl Div_by_zero \<longleftrightarrow> y = 0 \<or> x = - (2 ^ 63) \<and> y = - 1"
    using sint_zero_iff [of v] by (auto simp: int_div_def div_traps_def x_def y_def)
  moreover have "- (2 ^ (m_len a - 1)) \<le> fit z \<and> fit z < 2 ^ (m_len a - 1)" for z
    unfolding fit_def by (simp add: signed_take_bit_int_greater_eq_minus_exp signed_take_bit_int_less_exp)
  ultimately show ?thesis by blast
qed

theorem int_arithmetic_width_witness:
  "sint (m_val (int_add 1 \<lparr>m_val = 7, m_len = 4, m_ulen = 60\<rparr>)) = - 8"
proof -
  have d: "int_dims \<lparr>m_val = 7, m_len = 4, m_ulen = 60\<rparr>" by (simp add: int_dims_def)
  have "sint (m_val (int_add 1 \<lparr>m_val = 7, m_len = 4, m_ulen = 60\<rparr>)) = signed_take_bit (4 - 1) (sint (7 :: u64) + sint (1 :: u64))"
    using int_arithmetic_width [OF d, of 1] by simp
  then show ?thesis by simp
qed

section \<open>Part selection\<close>

lemma bit_part_value:
  "r \<le> l \<Longrightarrow> l < 64 \<Longrightarrow> bit (part_value l r a) i \<longleftrightarrow> i \<le> l - r \<and> bit (m_val a) (r + i)"
  by (auto simp: part_value_def Let_def bit_simps)

lemma part_set_eq:
  assumes "r \<le> l" "l < 64"
  shows "part_set l r v a =
    Inr (extend_sign (a\<lparr>m_val := (m_val a AND part_mask l r) OR (push_bit r v AND NOT (part_mask l r))\<rparr>))"
  using assms by (simp add: part_set_def mask_int_eq)

lemma bit_part_set:
  assumes "int_dims a" "r \<le> l" "l < m_len a" "part_set l r v a = Inr a'" "i < m_len a"
  shows "bit (m_val a') i \<longleftrightarrow> (if r \<le> i \<and> i \<le> l then bit v (i - r) else bit (m_val a) i)"
proof -
  have l: "l < 64" and i: "i < 64" "i \<le> m_len a - 1" using assms(1,3,5) by (auto simp: int_dims_def)
  have "a' = extend_sign (a\<lparr>m_val := (m_val a AND part_mask l r) OR (push_bit r v AND NOT (part_mask l r))\<rparr>)"
    using assms(4) part_set_eq [OF assms(2) l] by simp
  then have "bit (m_val a') i \<longleftrightarrow> bit ((m_val a AND part_mask l r) OR (push_bit r v AND NOT (part_mask l r))) i"
    using assms(1,5) i by (simp add: bit_extend_sign min_def)
  then show ?thesis using i assms(2) by (auto simp: bit_part_mask bit_simps)
qed

text \<open>
  A part reads back as it was written: assigning \<open>v\<close> to the bits \<open>l\<close> to \<open>r\<close> and reading them
  gives the low bits of \<open>v\<close>, the other bits of the number stay, and a part outside the number or
  with its ends exchanged is reported as an error by both.
\<close>

theorem part_reads_back:
  assumes "int_dims a"
  shows "if 0 \<le> r \<and> r \<le> l \<and> l < int (m_len a)
    then \<exists>a'. part_assign l r v a = Inr a' \<and> int_wf a' \<and>
      part_read l r a' = Inr (take_bit (nat (l - r) + 1) v) \<and>
      (\<forall>i<m_len a. \<not> (r \<le> int i \<and> int i \<le> l) \<longrightarrow> bit (m_val a') i = bit (m_val a) i)
    else part_assign l r v a = Inl Sc_report_error \<and> part_read l r a = Inl Sc_report_error"
proof (cases "0 \<le> r \<and> r \<le> l \<and> l < int (m_len a)")
  case True
  define l' r' where lr: "l' = nat l" "r' = nat r"
  have b: "r' \<le> l'" "l' < m_len a" "l' < 64" "check_range l r a = Inr (l', r')"
    using True assms by (auto simp: lr check_range_def int_dims_def)
  obtain a' where a': "part_set l' r' v a = Inr a'" using part_set_eq [OF b(1,3), of v a] by simp
  have len: "m_len a' = m_len a" and wf: "int_wf a'"
    using a' part_set_eq [OF b(1,3), of v a] assms by (auto intro!: extend_sign_wf)
  have "part_value l' r' a' = take_bit (nat (l - r) + 1) v"
  proof (rule bit_word_eqI)
    fix i :: nat assume i: "i < LENGTH(64)"
    have n: "nat (l - r) = l' - r'" using True by (simp add: lr nat_diff_distrib)
    have "i \<le> l' - r' \<Longrightarrow> r' + i < m_len a" using b(1,2) by auto
    then show "bit (part_value l' r' a') i = bit (take_bit (nat (l - r) + 1) v) i"
      using bit_part_set [OF assms b(1,2) a', of "r' + i"] b(1)
      by (auto simp: bit_part_value [OF b(1,3)] n bit_take_bit_iff split: if_splits)
  qed
  moreover have "bit (m_val a') i = bit (m_val a) i"
    if "i < m_len a" "\<not> (r \<le> int i \<and> int i \<le> l)" for i
  proof -
    have "\<not> (r' \<le> i \<and> i \<le> l')" using that(2) True by (auto simp: lr)
    then show ?thesis using bit_part_set [OF assms b(1,2) a' that(1)] by auto
  qed
  ultimately show ?thesis
    using True a' wf b(4) len by (simp add: part_assign_def part_read_def check_range_def)
next
  case False
  then have "check_range l r a = Inl Sc_report_error" by (auto simp: check_range_def)
  with False show ?thesis by (simp add: part_assign_def part_read_def del: de_Morgan_conj)
qed

theorem part_reads_back_witness:
  "\<exists>a'. part_assign 6 3 21 \<lparr>m_val = 0, m_len = 8, m_ulen = 56\<rparr> = Inr a' \<and> part_read 6 3 a' = Inr 5"
proof -
  have "int_dims \<lparr>m_val = 0, m_len = 8, m_ulen = 56\<rparr>" by (simp add: int_dims_def)
  from part_reads_back [OF this, of 3 6 21] show ?thesis by (auto simp: take_bit_eq_mod)
qed

section \<open>Reductions\<close>

fun parity_below :: "nat \<Rightarrow> u64 \<Rightarrow> bool" where
  "parity_below 0 w = False"
| "parity_below (Suc n) w = (parity_below n w \<noteq> bit w n)"

lemma parity_below_card: "parity_below n w \<longleftrightarrow> odd (card {i. i < n \<and> bit w i})"
proof (induction n)
  case (Suc n)
  have "{i. i < Suc n \<and> bit w i} = {i. i < n \<and> bit w i} \<union> (if bit w n then {n} else {})"
    by (auto simp: less_Suc_eq)
  then have "card {i. i < Suc n \<and> bit w i} = card {i. i < n \<and> bit w i} + (if bit w n then 1 else 0)"
    by simp
  with Suc show ?case by simp
qed simp

lemma parity_below_add: "parity_below (m + k) w = (parity_below m w \<noteq> parity_below k (drop_bit m w))"
  by (induction k) (auto simp: bit_drop_bit_eq add.commute)

lemma parity_below_xor: "parity_below m (v XOR w) = (parity_below m v \<noteq> parity_below m w)"
  by (induction m) (auto simp: bit_xor_iff)

lemma parity_below_cong: "(\<And>i. i < m \<Longrightarrow> bit v i = bit w i) \<Longrightarrow> parity_below m v = parity_below m w"
  by (induction m) auto

text \<open>One round folds the upper half of the bits onto the lower half.\<close>

lemma xor_round:
  fixes val :: u64
  assumes "m + m \<le> 64"
  defines "val' \<equiv> drop_bit m (val AND push_bit m (mask m)) XOR (val AND mask m)"
  shows "parity_below m val' = parity_below (m + m) val \<and> (\<forall>i. bit val' i \<longrightarrow> i < m)"
proof -
  have b: "bit val' i \<longleftrightarrow> i < m \<and> (bit val (m + i) \<noteq> bit val i)" for i
    using assms(1) by (auto simp: val'_def bit_simps)
  have "parity_below m val' = parity_below m (drop_bit m val XOR val)"
    by (rule parity_below_cong) (simp add: b bit_simps)
  then show ?thesis using b by (auto simp: parity_below_xor parity_below_add)
qed

lemma xor_loop_parity:
  "2 ^ Suc k \<le> (64 :: nat) \<Longrightarrow> xor_loop (2 ^ Suc k) (mask (2 ^ Suc k)) val = of_bool (parity_below (2 ^ Suc k) val)"
proof (induction k arbitrary: val)
  case 0
  let ?val = "drop_bit 1 (val AND push_bit 1 (mask 1)) XOR (val AND mask 1)"
  have d: "drop_bit 1 (mask 2 :: u64) = mask 1" by (rule bit_word_eqI) (auto simp: bit_simps)
  have r: "parity_below 1 ?val = parity_below 2 val" "\<forall>i. bit ?val i \<longrightarrow> i < 1"
    using xor_round [of 1 val] by (simp_all add: numeral_2_eq_2)
  have "?val = of_bool (bit ?val 0)" by (rule bit_word_eqI) (use r(2) in \<open>auto simp: bit_1_iff\<close>)
  moreover have "bit ?val 0 = parity_below 2 val" using r(1) by simp
  moreover have "xor_loop 2 (mask 2) val = ?val"
    by (subst xor_loop.simps) (simp add: Let_def d del: One_nat_def)
  ultimately show ?case by simp
next
  case (Suc k)
  let ?m = "2 ^ Suc k :: nat"
  let ?val = "drop_bit ?m (val AND push_bit ?m (mask ?m)) XOR (val AND mask ?m)"
  have m: "?m + ?m = 2 ^ Suc (Suc k)" "2 ^ Suc (Suc k) div 2 = ?m" "1 < ?m" "?m + ?m \<le> 64"
    using Suc.prems one_less_power [of "2 :: nat" "Suc k"] by simp_all
  have d: "drop_bit ?m (mask (2 ^ Suc (Suc k)) :: u64) = mask ?m"
    unfolding m(1) [symmetric] by (rule bit_word_eqI) (use m(4) in \<open>auto simp: bit_simps\<close>)
  have "xor_loop (2 ^ Suc (Suc k)) (mask (2 ^ Suc (Suc k))) val = xor_loop ?m (mask ?m) ?val"
    by (subst xor_loop.simps) (simp only: Let_def m(2,3) d if_True)
  also have "\<dots> = of_bool (parity_below ?m ?val)" using Suc by simp
  also have "parity_below ?m ?val = parity_below (2 ^ Suc (Suc k)) val"
    using xor_round [OF m(4), of val] m(1) by simp
  finally show ?case .
qed

text \<open>
  The halving loop of \<open>xor_reduce\<close> computes the parity of the bits of the number, in six
  rounds whatever its length.
\<close>

theorem xor_reduce_is_parity:
  assumes "int_dims a"
  shows "xor_reduce a \<longleftrightarrow> odd (card {i. i < m_len a \<and> bit (m_val a) i})"
proof -
  let ?v = "m_val a AND drop_bit (m_ulen a) (- 1)"
  have "xor_loop 64 (- 1) ?v = xor_loop (2 ^ Suc 5) (mask (2 ^ Suc 5)) ?v"
    by (rule arg_cong2 [where f = "\<lambda>n m. xor_loop n m ?v"]) (simp, rule bit_word_eqI, simp add: bit_simps)
  also have "\<dots> = of_bool (parity_below (2 ^ Suc 5) ?v)" by (rule xor_loop_parity) simp
  finally have "xor_reduce a \<longleftrightarrow> parity_below 64 ?v" by (simp add: xor_reduce_def)
  moreover have "{i. i < 64 \<and> bit ?v i} = {i. i < m_len a \<and> bit (m_val a) i}"
    using assms by (auto simp: int_dims_def bit_simps)
  ultimately show ?thesis by (simp add: parity_below_card)
qed

theorem xor_reduce_is_parity_witness:
  "xor_reduce \<lparr>m_val = 7, m_len = 4, m_ulen = 60\<rparr>"
proof -
  have "int_dims \<lparr>m_val = 7, m_len = 4, m_ulen = 60\<rparr>" by (simp add: int_dims_def)
  moreover have "{i. i < 4 \<and> bit (7 :: u64) i} = {0, 1, 2}"
    by (auto simp: less_Suc_eq numeral_eq_Suc bit_Suc)
  ultimately show ?thesis using xor_reduce_is_parity [of "\<lparr>m_val = 7, m_len = 4, m_ulen = 60\<rparr>"] by simp
qed

section \<open>Concatenation\<close>

text \<open>Bit \<open>k\<close> of an array of 30-bit digits.\<close>

definition digit_bit :: "u32 list \<Rightarrow> nat \<Rightarrow> bool" where
  "digit_bit ds k = bit (ds ! (k div 30)) (k mod 30)"

text \<open>Digit number \<open>t\<close> of what is written, counted from the first one touched.\<close>

definition written_digit :: "nat \<Rightarrow> nat \<Rightarrow> nat \<Rightarrow> u64 \<Rightarrow> u32" where
  "written_digit e ls t val =
     (if t = e then ucast (drop_bit (30 * t - ls) val)
      else ucast (drop_bit (30 * t - ls) val AND digit_mask))"

lemma digit_mask_eq: "digit_mask = mask 30"
  by (simp add: digit_mask_def mask_eq_exp_minus_1 push_bit_eq_mult)

lemma bit_written_digit:
  "b < 30 \<Longrightarrow> bit (written_digit e ls t val) b \<longleftrightarrow> bit val (30 * t - ls + b)"
  by (auto simp: written_digit_def digit_mask_eq bit_simps)

definition first_digit :: "nat \<Rightarrow> u64 \<Rightarrow> u32 \<Rightarrow> u32" where
  "first_digit ls val d = ucast ((ucast d AND NOT (push_bit ls (- 1))) OR (push_bit ls val AND digit_mask))"

lemma bit_first_digit:
  "b < 30 \<Longrightarrow> bit (first_digit ls val d) b \<longleftrightarrow> (if b < ls then bit d b else bit val (b - ls))"
  by (auto simp: first_digit_def digit_mask_eq bit_simps)

lemma put_first_eq: "i < length ds \<Longrightarrow> put_first i ls val ds = Inr (ds[i := first_digit ls val (ds ! i)])"
  by (simp add: put_first_def first_digit_def)

lemma put_rest_eq:
  assumes "n \<le> 3" "i + n < length ds" "ls < 30"
  shows "\<exists>ds'. put_rest i n ls val ds = Inr ds' \<and> length ds' = length ds \<and>
    (\<forall>t. 1 \<le> t \<and> t \<le> n \<longrightarrow> ds' ! (i + t) = written_digit n ls t val) \<and>
    (\<forall>j. j \<le> i \<or> i + n < j \<longrightarrow> ds' ! j = ds ! j)"
proof -
  have dr: "drop_bit 30 (drop_bit (30 - ls) val) = drop_bit (60 - ls) val"
    "drop_bit 30 (drop_bit (60 - ls) val) = drop_bit (90 - ls) val"
    using assms(3) by (simp_all add: drop_bit_drop_bit)
  consider "n = 0" | "n = 1" | "n = 2" | "n = 3" using assms(1) by linarith
  then show ?thesis
  proof cases
    case 1 then show ?thesis by (simp add: put_rest_def Let_def)
  next
    case 2
    have "\<And>t. 1 \<le> t \<and> t \<le> (1 :: nat) \<longleftrightarrow> t = 1" by auto
    with 2 show ?thesis using assms(2) by (simp add: put_rest_def Let_def written_digit_def nth_list_update)
  next
    case 3
    have "\<And>t. 1 \<le> t \<and> t \<le> (2 :: nat) \<longleftrightarrow> t = 1 \<or> t = 2" by auto
    with 3 show ?thesis using assms(2)
      by (simp only: put_rest_def Let_def dr) (auto simp: written_digit_def nth_list_update)
  next
    case 4
    have "\<And>t. 1 \<le> t \<and> t \<le> (3 :: nat) \<longleftrightarrow> t = 1 \<or> t = 2 \<or> t = 3" by auto
    with 4 show ?thesis using assms(2)
      by (simp only: put_rest_def Let_def dr) (auto simp: written_digit_def nth_list_update)
  qed
qed

lemma concat_get_data_eq:
  assumes "int_dims a" "(low + (m_len a - 1)) div 30 < length ds"
  defines "d \<equiv> low div 30" and "ls \<equiv> low mod 30"
  defines "e \<equiv> (low + (m_len a - 1)) div 30 - d" and "val \<equiv> concat_get_uint64 a"
  shows "\<exists>ds'. concat_get_data low a ds = Inr (m_val a \<noteq> 0, ds') \<and> length ds' = length ds \<and>
    ds' ! d = first_digit ls val (ds ! d) \<and>
    (\<forall>t. 1 \<le> t \<and> t \<le> e \<longrightarrow> ds' ! (d + t) = written_digit e ls t val) \<and>
    (\<forall>j. j < d \<or> d + e < j \<longrightarrow> ds' ! j = ds ! j)"
proof -
  have le: "d \<le> (low + (m_len a - 1)) div 30" unfolding d_def by (rule div_le_mono) simp
  have len: "d + e < length ds" using le assms(2) by (simp add: e_def)
  have "low + (m_len a - 1) \<le> 30 * d + 29 + 63"
    using assms(1) mod_less_divisor [of 30 low] mult_div_mod_eq [of 30 low]
    unfolding int_dims_def d_def by linarith
  then have "(low + (m_len a - 1)) div 30 \<le> (30 * d + 92) div 30" by (intro div_le_mono) simp
  then have e: "e \<le> 3" by (simp add: e_def)
  let ?ds1 = "ds[d := first_digit ls val (ds ! d)]"
  obtain ds' where r: "put_rest d e ls val ?ds1 = Inr ds'" "length ds' = length ds"
    "\<forall>t. 1 \<le> t \<and> t \<le> e \<longrightarrow> ds' ! (d + t) = written_digit e ls t val"
    "\<forall>j. j \<le> d \<or> d + e < j \<longrightarrow> ds' ! j = ?ds1 ! j"
    using put_rest_eq [of e d ?ds1 ls val] e len by (auto simp: ls_def)
  have "put_first d ls val ds = Inr ?ds1" using len by (simp add: put_first_eq)
  then have "concat_get_data low a ds = Inr (m_val a \<noteq> 0, ds')"
    unfolding concat_get_data_def Let_def d_def [symmetric] ls_def [symmetric] e_def [symmetric] val_def [symmetric]
    using r(1) by simp
  with r len show ?thesis by auto
qed

lemma bit_concat_get_uint64:
  "int_dims a \<Longrightarrow> bit (concat_get_uint64 a) i \<longleftrightarrow> i < m_len a \<and> bit (m_val a) i"
  by (auto simp: concat_get_uint64_def int_dims_def bit_simps dest: bit_imp_le_length)

text \<open>
  The transfer to a digit array puts bit \<open>i\<close> of the number at bit \<open>low + i\<close> of the array, for
  every place and length, also across four digits; the bits below \<open>low\<close> and the digits above the
  last one touched stay, and the rest of that digit is cleared.
\<close>

theorem concat_data_in_place:
  assumes "int_dims a" and "(low + (m_len a - 1)) div 30 < length ds"
  shows "\<exists>ds'. concat_get_data low a ds = Inr (m_val a \<noteq> 0, ds') \<and> length ds' = length ds \<and>
    (\<forall>k. digit_bit ds' k \<longleftrightarrow>
      (if k < low then digit_bit ds k
       else if k < low + m_len a then bit (m_val a) (k - low)
       else if k div 30 \<le> (low + (m_len a - 1)) div 30 then False
       else digit_bit ds k))"
proof -
  define d ls e where "d = low div 30" "ls = low mod 30" "e = (low + (m_len a - 1)) div 30 - d"
  define val where "val = concat_get_uint64 a"
  have low: "low = 30 * d + ls" "ls < 30" by (simp_all add: d_ls_e_def)
  have top: "(low + (m_len a - 1)) div 30 = d + e"
    using div_le_mono [of low "low + (m_len a - 1)" 30] by (simp add: d_ls_e_def)
  obtain ds' where ds': "concat_get_data low a ds = Inr (m_val a \<noteq> 0, ds')" "length ds' = length ds"
    "ds' ! d = first_digit ls val (ds ! d)"
    "\<And>t. 1 \<le> t \<Longrightarrow> t \<le> e \<Longrightarrow> ds' ! (d + t) = written_digit e ls t val"
    "\<And>j. j < d \<or> d + e < j \<Longrightarrow> ds' ! j = ds ! j"
    using concat_get_data_eq [OF assms] unfolding d_ls_e_def val_def by blast
  have val: "bit val i \<longleftrightarrow> i < m_len a \<and> bit (m_val a) i" for i
    unfolding val_def by (rule bit_concat_get_uint64 [OF assms(1)])
  have "digit_bit ds' k \<longleftrightarrow>
      (if k < low then digit_bit ds k
       else if k < low + m_len a then bit (m_val a) (k - low)
       else if k div 30 \<le> d + e then False else digit_bit ds k)" for k
  proof -
    define j b where "j = k div 30" "b = k mod 30"
    have k: "k = 30 * j + b" "b < 30" by (simp_all add: j_b_def)
    have D: "digit_bit xs k = bit (xs ! j) b" for xs by (simp add: digit_bit_def j_b_def)
    consider "j < d" | "j = d" | t where "1 \<le> t" "t \<le> e" "j = d + t" | "d + e < j"
      by (metis add_leD1 le_add_diff_inverse less_one linorder_not_le nat_less_le zero_less_diff add_le_cancel_left less_imp_le)
    then show ?thesis
    proof cases
      case 1
      then have "k < low" using low k by linarith
      with 1 show ?thesis by (simp add: D ds'(5))
    next
      case 2
      have "k < low \<longleftrightarrow> b < ls" "\<not> b < ls \<Longrightarrow> k - low = b - ls" using low k 2 by auto
      moreover have "k < low + m_len a \<longleftrightarrow> b - ls < m_len a" if "\<not> b < ls" using that low k 2 by auto
      ultimately show ?thesis
        using 2 k(2) by (auto simp: D ds'(3) bit_first_digit val j_b_def(1) [symmetric])
    next
      case 3
      have "\<not> k < low" "k - low = 30 * t - ls + b" using low k 3 by auto
      moreover have "k < low + m_len a \<longleftrightarrow> k - low < m_len a" using calculation(1) by auto
      ultimately show ?thesis
        using 3 k(2) by (auto simp: D ds'(4) bit_written_digit val j_b_def(1) [symmetric])
    next
      case 4
      then have "\<not> (low + (m_len a - 1)) div 30 \<ge> k div 30" using top by (simp add: j_b_def)
      then have "low + (m_len a - 1) < k" by (meson div_le_mono not_le)
      then have "low + m_len a \<le> k" using assms(1) by (simp add: int_dims_def)
      then show ?thesis using 4 by (simp add: D ds'(5) j_b_def(1) [symmetric])
    qed
  qed
  with ds'(1,2) show ?thesis unfolding top by blast
qed

theorem concat_data_in_place_witness:
  "\<exists>ds'. concat_get_data 28 \<lparr>m_val = 5, m_len = 4, m_ulen = 60\<rparr> [3, 7] = Inr (True, ds') \<and>
    digit_bit ds' 0 \<and> digit_bit ds' 28 \<and> \<not> digit_bit ds' 29 \<and> digit_bit ds' 30"
proof -
  have d: "int_dims \<lparr>m_val = 5, m_len = 4, m_ulen = 60\<rparr>" by (simp add: int_dims_def)
  have b: "bit (5 :: u64) 0" "\<not> bit (5 :: u64) 1" "bit (5 :: u64) 2" "digit_bit [3, 7] 0"
    by (simp add: digit_bit_def, code_simp, code_simp, simp add: digit_bit_def)
  obtain ds' where ds': "concat_get_data 28 \<lparr>m_val = 5, m_len = 4, m_ulen = 60\<rparr> [3, 7] = Inr (True, ds')"
    "\<And>k. digit_bit ds' k \<longleftrightarrow> (if k < 28 then digit_bit [3, 7] k else if k < 32 then bit (5 :: u64) (k - 28)
      else if k div 30 \<le> 1 then False else digit_bit [3, 7] k)"
    using concat_data_in_place [OF d, of 28 "[3, 7]"] by auto
  with b show ?thesis by simp
qed

section \<open>Control words of a part\<close>

lemma clear_words:
  "(\<forall>k\<in>set ks. k < length ds) \<Longrightarrow>
    \<exists>ds'. for_each (\<lambda>k ds. vec_set ds k 0) ks ds = Inr ds' \<and> length ds' = length ds \<and>
      (\<forall>j. ds' ! j = (if j \<in> set ks \<and> j < length ds then 0 else ds ! j))"
proof (induction ks arbitrary: ds)
  case (Cons k ks)
  from Cons.IH [of "ds[k := 0]"] Cons.prems obtain ds' where
    "for_each (\<lambda>k ds. vec_set ds k 0) ks (ds[k := 0]) = Inr ds'" "length ds' = length ds"
    "\<forall>j. ds' ! j = (if j \<in> set ks \<and> j < length ds then 0 else ds[k := 0] ! j)" by auto
  with Cons.prems show ?case by (auto simp: nth_list_update)
qed simp

lemma clear_after:
  assumes "i < length ds" "e < length ds"
  shows "\<exists>ds'. for_each (\<lambda>k ds. vec_set ds k 0) [i + 1..<e + 1] (ds[i := x]) = Inr ds' \<and> ds' ! i = x"
proof -
  have "\<forall>k\<in>set [i + 1..<e + 1]. k < length (ds[i := x])" using assms by auto
  from clear_words [OF this] obtain ds' where
    d: "for_each (\<lambda>k ds. vec_set ds k 0) [i + 1..<e + 1] (ds[i := x]) = Inr ds'"
    "\<forall>j. ds' ! j = (if j \<in> set [i + 1..<e + 1] \<and> j < length (ds[i := x]) then 0 else ds[i := x] ! j)" by blast
  have "i \<notin> set [i + 1..<e + 1]" by (simp del: upt_Suc)
  with d(2) have "ds' ! i = ds[i := x] ! i" by presburger
  with d(1) assms(1) show ?thesis by (auto simp del: upt_Suc)
qed

text \<open>
  The control words of a part of a signed number lose bits of the operand below it: the mask
  of the part is applied to the word as it stands, so that a bit below \<open>low\<close> whose place is not
  one of the part's is cleared. The same method of the unsigned type keeps it.
\<close>

theorem part_ctrl_clears_lower_bits:
  assumes "r \<le> l" and "l < 64" and "(low + (l - r)) div 30 < length ds"
    and "b < low mod 30" and "b < r \<or> l < b"
  shows "\<exists>ds1 ds2. part_get_ctrl l r low ds = Inr ds1 \<and> uint_part_get_ctrl l r low ds = Inr ds2 \<and>
    \<not> bit (ds1 ! (low div 30)) b \<and> bit (ds2 ! (low div 30)) b = bit (ds ! (low div 30)) b"
proof -
  let ?i = "low div 30" and ?e = "(low + (l - r)) div 30"
  have i: "?i < length ds" using assms(3) div_le_mono [of low "low + (l - r)" 30] by linarith
  have b: "b < 30" using assms(4) mod_less_divisor [of 30 low] by linarith
  obtain ds1 where 1: "part_get_ctrl l r low ds = Inr ds1" "ds1 ! ?i = ds ! ?i AND ucast (NOT (part_mask l r))"
    using clear_after [OF i assms(3), of "ds ! ?i AND ucast (NOT (part_mask l r))"] i assms(1,2)
    by (auto simp: part_get_ctrl_def Let_def mask_int_eq simp del: upt_Suc)
  obtain ds2 where 2: "uint_part_get_ctrl l r low ds = Inr ds2"
      "ds2 ! ?i = ds ! ?i AND NOT (push_bit (low mod 30) (- 1))"
    using clear_after [OF i assms(3), of "ds ! ?i AND NOT (push_bit (low mod 30) (- 1))"] i
    by (auto simp: uint_part_get_ctrl_def Let_def simp del: upt_Suc)
  have "\<not> bit (ds1 ! ?i) b" using assms(1,5) b by (auto simp: 1(2) bit_part_mask bit_simps)
  moreover have "bit (ds2 ! ?i) b = bit (ds ! ?i) b" using assms(4) b by (auto simp: 2(2) bit_simps)
  ultimately show ?thesis using 1(1) 2(1) by blast
qed

theorem part_ctrl_clears_lower_bits_witness:
  "\<exists>ds1 ds2. part_get_ctrl 3 2 10 [32] = Inr ds1 \<and> uint_part_get_ctrl 3 2 10 [32] = Inr ds2 \<and>
    \<not> bit (ds1 ! 0) 5 \<and> bit (ds2 ! 0) 5"
proof -
  have "bit (32 :: u32) 5" by code_simp
  with part_ctrl_clears_lower_bits [of 2 3 10 "[32]" 5] show ?thesis by auto
qed

end
