(* ===== verification/Sc_Nb.thy ===== *)
theory Sc_Nb
  imports Prelude
begin

text \<open>
  Vectors of digits: \<open>sysc/datatypes/int/sc_nbdefs.h\<close>, \<open>sc_nbutils.h\<close> and the arithmetic of
  \<open>sc_nbutils.cpp\<close>. A digit is a 32-bit word of which 30 bits are used; a vector is a list, lowest digit
  first, as long as its length argument says. A loop along pointers is a recursion on the lists; what
  a function writes from the start of its result array is the list it returns. As in the code, the
  lengths are not tested: each function has its precondition in the sources, and for shorter vectors
  its equations stop where the code would run out of the array. Constants of type \<open>unsigned long\<close> make
  the code compute in 64 bits here and there; every result is stored in a digit, so 32 bits are the same.
\<close>

unbundle bit_operations_syntax

section \<open>Digits\<close>

type_synonym sc_digit = u32

definition BITS_PER_DIGIT :: nat where "BITS_PER_DIGIT = 30"

definition DIGIT_RADIX :: sc_digit where "DIGIT_RADIX = push_bit BITS_PER_DIGIT 1"

definition DIGIT_MASK :: sc_digit where "DIGIT_MASK = DIGIT_RADIX - 1"

definition BITS_PER_HALF_DIGIT :: nat where "BITS_PER_HALF_DIGIT = BITS_PER_DIGIT div 2"

definition HALF_DIGIT_RADIX :: sc_digit where "HALF_DIGIT_RADIX = push_bit BITS_PER_HALF_DIGIT 1"

definition HALF_DIGIT_MASK :: sc_digit where "HALF_DIGIT_MASK = HALF_DIGIT_RADIX - 1"

definition BITS_PER_BYTE :: nat where "BITS_PER_BYTE = 8"

definition DIV_CEIL2 :: "int \<Rightarrow> int \<Rightarrow> int" where "DIV_CEIL2 x y = (x - 1) sdiv y + 1"

definition DIV_CEIL :: "int \<Rightarrow> int" where "DIV_CEIL x = DIV_CEIL2 x (int BITS_PER_DIGIT)"

definition low_half :: "sc_digit \<Rightarrow> sc_digit" where "low_half d = d AND HALF_DIGIT_MASK"

definition high_half :: "sc_digit \<Rightarrow> sc_digit" where "high_half d = drop_bit BITS_PER_HALF_DIGIT d"

definition concat_halves :: "sc_digit \<Rightarrow> sc_digit \<Rightarrow> sc_digit" where
  "concat_halves h l = push_bit BITS_PER_HALF_DIGIT h OR l"

definition one_and_ones :: "nat \<Rightarrow> sc_digit" where "one_and_ones n = push_bit n 1 - 1"

definition one_and_zeros :: "nat \<Rightarrow> sc_digit" where "one_and_zeros n = push_bit n 1"

definition digit_ord :: "nat \<Rightarrow> nat" where "digit_ord i = i div BITS_PER_DIGIT"

definition bit_ord :: "nat \<Rightarrow> nat" where "bit_ord i = i mod BITS_PER_DIGIT"

section \<open>Comparison, zero and complement\<close>

text \<open>The search for a non-zero digit runs down from the last digit; the result is the length without leading zeros.\<close>

fun skip_zeros :: "sc_digit list \<Rightarrow> nat" where
  "skip_zeros [] = 0"
| "skip_zeros (d # ds) = (if d = 0 then skip_zeros ds else length (d # ds))"

definition vec_find_first_nonzero :: "sc_digit list \<Rightarrow> int" where
  "vec_find_first_nonzero u = int (skip_zeros (rev u)) - 1"

definition vec_skip_leading_zeros :: "sc_digit list \<Rightarrow> nat" where
  "vec_skip_leading_zeros u = nat (1 + vec_find_first_nonzero u)"

text \<open>Vectors with their leading zeros skipped, as the callers of \<open>vec_cmp\<close> and the helpers use them.\<close>

definition skipped :: "sc_digit list \<Rightarrow> sc_digit list" where
  "skipped u = take (vec_skip_leading_zeros u) u"

text \<open>Two vectors of the same length, last digit first; \<open>(int)(u[ulen] - v[ulen])\<close> is signed.\<close>

fun cmp_down :: "sc_digit list \<Rightarrow> sc_digit list \<Rightarrow> int" where
  "cmp_down (x # xs) (y # ys) = (if x = y then cmp_down xs ys else sint (x - y))"
| "cmp_down _ _ = 0"

definition vec_cmp :: "sc_digit list \<Rightarrow> sc_digit list \<Rightarrow> int" where
  "vec_cmp u v = (if length u \<noteq> length v then int (length u) - int (length v) else cmp_down (rev u) (rev v))"

definition vec_skip_and_cmp :: "sc_digit list \<Rightarrow> sc_digit list \<Rightarrow> int" where
  "vec_skip_and_cmp u v = vec_cmp (skipped u) (skipped v)"

text \<open>\<open>u[i] = 0\<close> for \<open>from \<le> i\<close>, and the copy of \<open>n\<close> digits.\<close>

definition vec_zero :: "nat \<Rightarrow> sc_digit list \<Rightarrow> sc_digit list" where
  "vec_zero from u = take from u @ replicate (length u - from) 0"

definition vec_copy :: "nat \<Rightarrow> sc_digit list \<Rightarrow> sc_digit list \<Rightarrow> sc_digit list" where
  "vec_copy n u v = take n v @ drop n u"

definition vec_copy_and_zero :: "sc_digit list \<Rightarrow> sc_digit list \<Rightarrow> sc_digit list" where
  "vec_copy_and_zero u v = vec_zero (length v) (vec_copy (length v) u v)"

fun complement_loop :: "sc_digit \<Rightarrow> sc_digit list \<Rightarrow> sc_digit list" where
  "complement_loop carry [] = []"
| "complement_loop carry (d # ds) = (let c = carry + (NOT d AND DIGIT_MASK)
     in (c AND DIGIT_MASK) # complement_loop (drop_bit BITS_PER_DIGIT c) ds)"

definition vec_complement :: "sc_digit list \<Rightarrow> sc_digit list" where
  "vec_complement u = complement_loop 1 u"

section \<open>Addition\<close>

text \<open>
  The loop along the shorter vector: the digits written, the carry, and the rest of the longer vector.
\<close>

fun add_along :: "sc_digit \<Rightarrow> sc_digit list \<Rightarrow> sc_digit list \<Rightarrow> sc_digit list \<times> sc_digit \<times> sc_digit list" where
  "add_along carry u [] = ([], carry, u)"
| "add_along carry [] v = ([], carry, [])"
| "add_along carry (x # u) (y # v) = (let s = carry + (x + y); (w, r) = add_along (drop_bit BITS_PER_DIGIT s) u v
     in ((s AND DIGIT_MASK) # w, r))"

text \<open>The propagation of the carry, and the copy of the rest.\<close>

fun add_carry :: "sc_digit \<Rightarrow> sc_digit list \<Rightarrow> sc_digit list \<times> sc_digit" where
  "add_carry carry [] = ([], carry)"
| "add_carry carry (x # u) = (if carry = 0 then (x # u, 0)
     else let s = x + 1; (w, c) = add_carry (drop_bit BITS_PER_DIGIT s) u in ((s AND DIGIT_MASK) # w, c))"

definition vec_add :: "sc_digit list \<Rightarrow> sc_digit list \<Rightarrow> sc_digit list" where
  "vec_add u v = (let (w, c, r) = add_along 0 u v; (w', c') = add_carry c r in w @ w' @ (if c' \<noteq> 0 then [1] else []))"

definition vec_add_on :: "sc_digit list \<Rightarrow> sc_digit list \<Rightarrow> sc_digit list" where
  "vec_add_on u v = (let (w, c, r) = add_along 0 u v in w @ fst (add_carry c r))"

definition vec_add_on2 :: "sc_digit list \<Rightarrow> sc_digit list \<Rightarrow> sc_digit list" where
  "vec_add_on2 u v = fst (add_along 0 v u)"

definition vec_add_small :: "sc_digit list \<Rightarrow> sc_digit \<Rightarrow> sc_digit list" where
  "vec_add_small u v = (case u of [] \<Rightarrow> []
     | x # r \<Rightarrow> let s = x + v; (w, c) = add_carry (drop_bit BITS_PER_DIGIT s) r
         in (s AND DIGIT_MASK) # w @ (if c \<noteq> 0 then [1] else []))"

fun vec_add_small_on :: "sc_digit list \<Rightarrow> sc_digit \<Rightarrow> sc_digit list" where
  "vec_add_small_on [] v = []"
| "vec_add_small_on (x # u) v = (if v = 0 then x # u
     else let s = v + x in (s AND DIGIT_MASK) # vec_add_small_on u (drop_bit BITS_PER_DIGIT s))"

section \<open>Subtraction\<close>

definition next_borrow :: "sc_digit \<Rightarrow> sc_digit" where
  "next_borrow b = 1 - drop_bit BITS_PER_DIGIT b"

fun sub_along :: "sc_digit \<Rightarrow> sc_digit list \<Rightarrow> sc_digit list \<Rightarrow> sc_digit list \<times> sc_digit \<times> sc_digit list" where
  "sub_along borrow u [] = ([], borrow, u)"
| "sub_along borrow [] v = ([], borrow, [])"
| "sub_along borrow (x # u) (y # v) = (let s = (x + DIGIT_RADIX) - y - borrow; (w, r) = sub_along (next_borrow s) u v
     in ((s AND DIGIT_MASK) # w, r))"

fun sub_borrow :: "sc_digit \<Rightarrow> sc_digit list \<Rightarrow> sc_digit list" where
  "sub_borrow borrow [] = []"
| "sub_borrow borrow (x # u) = (if borrow = 0 then x # u
     else let s = (x + DIGIT_RADIX) - 1 in (s AND DIGIT_MASK) # sub_borrow (next_borrow s) u)"

definition vec_sub :: "sc_digit list \<Rightarrow> sc_digit list \<Rightarrow> sc_digit list" where
  "vec_sub u v = (let (w, b, r) = sub_along 0 u v in w @ sub_borrow b r)"

definition vec_sub_on :: "sc_digit list \<Rightarrow> sc_digit list \<Rightarrow> sc_digit list" where
  "vec_sub_on u v = (let (w, b, r) = sub_along 0 u v in w @ sub_borrow b r)"

text \<open>\<open>u = v - u\<close> along the shorter of the two; the rest of \<open>u\<close> is not touched.\<close>

definition vec_sub_on2 :: "sc_digit list \<Rightarrow> sc_digit list \<Rightarrow> sc_digit list" where
  "vec_sub_on2 u v = (let n = min (length u) (length v) in fst (sub_along 0 v (take n u)) @ drop n u)"

definition vec_sub_small :: "sc_digit list \<Rightarrow> sc_digit \<Rightarrow> sc_digit list" where
  "vec_sub_small u v = (case u of [] \<Rightarrow> []
     | x # r \<Rightarrow> let s = (x + DIGIT_RADIX) - v in (s AND DIGIT_MASK) # sub_borrow (next_borrow s) r)"

fun vec_sub_small_on :: "sc_digit list \<Rightarrow> sc_digit \<Rightarrow> sc_digit list" where
  "vec_sub_small_on [] v = []"
| "vec_sub_small_on (x # u) v = (let s = (x + DIGIT_RADIX) - v
     in (s AND DIGIT_MASK) # vec_sub_small_on u (next_borrow s))"

section \<open>Multiplication\<close>

text \<open>
  One digit, split into its halves, times \<open>v\<close>, added to what the result array holds; the carry goes to
  the digit after the last. \<open>mul_step\<close> is the pair of the digit written and the next carry.
\<close>

definition mul_step :: "sc_digit \<Rightarrow> sc_digit \<Rightarrow> sc_digit \<Rightarrow> sc_digit \<Rightarrow> sc_digit \<Rightarrow> sc_digit \<times> sc_digit" where
  "mul_step u_h u_l carry y w =
     (let v_l = low_half y; v_h = high_half y;
          prod_l = w + u_l * v_l + low_half carry;
          prod_h = u_h * v_l + u_l * v_h + high_half prod_l + high_half carry
      in (concat_halves (low_half prod_h) (low_half prod_l), u_h * v_h + high_half prod_h))"

fun mul_row :: "sc_digit \<Rightarrow> sc_digit \<Rightarrow> sc_digit \<Rightarrow> sc_digit list \<Rightarrow> sc_digit list \<Rightarrow> sc_digit list" where
  "mul_row u_h u_l carry v [] = []"
| "mul_row u_h u_l carry [] (d # w) = carry # w"
| "mul_row u_h u_l carry (y # v) (d # w) =
     (let (p, c) = mul_step u_h u_l carry y d in p # mul_row u_h u_l c v w)"

fun vec_mul :: "sc_digit list \<Rightarrow> sc_digit list \<Rightarrow> sc_digit list \<Rightarrow> sc_digit list" where
  "vec_mul [] v w = w"
| "vec_mul (x # u) v w = (case mul_row (high_half x) (low_half x) 0 v w of
       [] \<Rightarrow> []
     | d # r \<Rightarrow> d # vec_mul u v r)"

definition mul_small_step :: "sc_digit \<Rightarrow> sc_digit \<Rightarrow> sc_digit \<Rightarrow> sc_digit \<times> sc_digit" where
  "mul_small_step v carry x =
     (let prod_l = v * low_half x + low_half carry;
          prod_h = v * high_half x + high_half prod_l + high_half carry
      in (concat_halves (low_half prod_h) (low_half prod_l), high_half prod_h))"

fun mul_small_loop :: "sc_digit \<Rightarrow> sc_digit \<Rightarrow> sc_digit list \<Rightarrow> sc_digit list \<times> sc_digit" where
  "mul_small_loop v carry [] = ([], carry)"
| "mul_small_loop v carry (x # u) = (let (p, c) = mul_small_step v carry x; (w, r) = mul_small_loop v c u in (p # w, r))"

definition vec_mul_small :: "sc_digit list \<Rightarrow> sc_digit \<Rightarrow> sc_digit list" where
  "vec_mul_small u v = (let (w, c) = mul_small_loop v 0 u in w @ [c])"

definition vec_mul_small_on :: "sc_digit list \<Rightarrow> sc_digit \<Rightarrow> sc_digit list" where
  "vec_mul_small_on u v = fst (mul_small_loop v 0 u)"

section \<open>Division by a half digit\<close>

text \<open>The loops run down from the last digit, so they are given the reversed vector.\<close>

definition div_step :: "sc_digit \<Rightarrow> sc_digit \<Rightarrow> sc_digit \<Rightarrow> sc_digit \<times> sc_digit" where
  "div_step v r x =
     (let num = concat_halves r (high_half x); q_h = num div v; num' = concat_halves (num mod v) (low_half x)
      in (concat_halves q_h (num' div v), num' mod v))"

fun div_loop :: "sc_digit \<Rightarrow> sc_digit \<Rightarrow> sc_digit list \<Rightarrow> sc_digit list \<times> sc_digit" where
  "div_loop v r [] = ([], r)"
| "div_loop v r (x # u) = (let (q, r') = div_step v r x; (qs, r'') = div_loop v r' u in (q # qs, r''))"

definition vec_div_small :: "sc_digit list \<Rightarrow> sc_digit \<Rightarrow> sc_digit list" where
  "vec_div_small u v = rev (fst (div_loop v 0 (rev u)))"

fun rem_loop :: "sc_digit \<Rightarrow> sc_digit \<Rightarrow> sc_digit list \<Rightarrow> sc_digit" where
  "rem_loop v r [] = r"
| "rem_loop v r (x # u) =
     rem_loop v (concat_halves (concat_halves r (high_half x) mod v) (low_half x) mod v) u"

definition vec_rem_small :: "sc_digit list \<Rightarrow> sc_digit \<Rightarrow> sc_digit" where
  "vec_rem_small u v = rem_loop v 0 (rev u)"

definition vec_rem_on_small :: "sc_digit list \<Rightarrow> sc_digit \<Rightarrow> sc_digit list \<times> sc_digit" where
  "vec_rem_on_small u v = (let (q, r) = div_loop v 0 (rev u) in (rev q, r))"

section \<open>Shifts\<close>

text \<open>The shift by less than a digit, upwards; the last carry is dropped, as \<open>uiter\<close> has reached \<open>uend\<close>.\<close>

fun shift_up :: "nat \<Rightarrow> sc_digit \<Rightarrow> sc_digit list \<Rightarrow> sc_digit list" where
  "shift_up nsl carry [] = []"
| "shift_up nsl carry (x # u) = (let nsr = BITS_PER_DIGIT - nsl in
     (push_bit nsl (x AND one_and_ones nsr) OR carry) # shift_up nsl (drop_bit nsr x) u)"

definition digits_up :: "nat \<Rightarrow> sc_digit list \<Rightarrow> sc_digit list" where
  "digits_up nd u = (let n = length u in replicate (min nd n) 0 @ take (n - nd) u)"

text \<open>Whole digits, and the number of bits that are left.\<close>

definition split_shift :: "nat \<Rightarrow> nat \<times> nat" where
  "split_shift ns = (if ns mod BITS_PER_DIGIT = 0 then (ns div BITS_PER_DIGIT, 0)
     else let nd = nat (DIV_CEIL (int ns)) - 1 in (nd, ns - nd * BITS_PER_DIGIT))"

definition vec_shift_left :: "sc_digit list \<Rightarrow> int \<Rightarrow> sc_digit list" where
  "vec_shift_left u nsl =
     (if nsl \<le> 0 then u
      else let n = nat nsl; (u', n') = (if BITS_PER_DIGIT \<le> n then (let (nd, k) = split_shift n in (digits_up nd u, k)) else (u, n))
           in if n' = 0 then u' else shift_up n' 0 u')"

fun shift_down :: "nat \<Rightarrow> sc_digit \<Rightarrow> sc_digit list \<Rightarrow> sc_digit list" where
  "shift_down nsr carry [] = []"
| "shift_down nsr carry (x # u) =
     (drop_bit nsr x OR carry) # shift_down nsr (push_bit (BITS_PER_DIGIT - nsr) (x AND one_and_ones nsr)) u"

definition digits_down :: "nat \<Rightarrow> sc_digit \<Rightarrow> sc_digit list \<Rightarrow> sc_digit list" where
  "digits_down nd fill u = drop nd u @ replicate (min nd (length u)) fill"

definition vec_shift_right :: "sc_digit list \<Rightarrow> int \<Rightarrow> sc_digit \<Rightarrow> sc_digit list" where
  "vec_shift_right u nsr fill =
     (if nsr \<le> 0 then u
      else let n = nat nsr;
             (u', n') = (if BITS_PER_DIGIT \<le> n then (let (nd, k) = split_shift n in (digits_down nd fill u, k)) else (u, n))
           in if n' = 0 then u'
              else rev (shift_down n' (push_bit (BITS_PER_DIGIT - n') (fill AND one_and_ones n')) (rev u')))"

end
