(* ===== verification/Sc_Nb_Div.thy ===== *)
theory Sc_Nb_Div
  imports Sc_Nb
begin

text \<open>
  The long division of \<open>sc_nbutils.cpp\<close>: \<open>vec_div_large\<close> and \<open>vec_rem_large\<close> copy the digits to bytes,
  divide in the radix 256 with a guess from the leading bytes, and copy the bytes back. The byte arrays
  are lists of 8-bit words; what lies beyond an array is never read.
\<close>

section \<open>Digits and bytes\<close>

type_synonym sc_byte = u8

definition BYTE_RADIX :: sc_digit where "BYTE_RADIX = 256"

definition BYTE_MASK :: sc_digit where "BYTE_MASK = 255"

definition LOG2_BITS_PER_BYTE :: nat where "LOG2_BITS_PER_BYTE = 3"

text \<open>The byte number \<open>k\<close>: bits of one digit or of two neighbours.\<close>

definition char_at :: "sc_digit list \<Rightarrow> nat \<Rightarrow> sc_byte" where
  "char_at u k =
     (let right = k * BITS_PER_BYTE; left = right + BITS_PER_BYTE - 1;
          left_digit = left div BITS_PER_DIGIT; right_digit = right div BITS_PER_DIGIT;
          nsr = push_bit LOG2_BITS_PER_BYTE k mod BITS_PER_DIGIT;
          d = drop_bit nsr (u ! right_digit);
          d' = (if left_digit \<noteq> right_digit \<and> left_digit < length u then d OR push_bit (BITS_PER_DIGIT - nsr) (u ! left_digit) else d)
      in ucast (d' AND BYTE_MASK))"

definition vec_to_char :: "sc_digit list \<Rightarrow> sc_byte list" where
  "vec_to_char u = map (char_at u) [0 ..< nat (DIV_CEIL2 (int (length u * BITS_PER_DIGIT)) (int BITS_PER_BYTE))]"

text \<open>
  Back to digits: the vector, zero at the start, is shifted by a byte and takes the next byte, from the
  last one down.
\<close>

fun put_low :: "sc_digit list \<Rightarrow> sc_byte \<Rightarrow> sc_digit list" where
  "put_low [] b = []"
| "put_low (d # ds) b = (d OR ucast b) # ds"

fun from_char_loop :: "sc_byte list \<Rightarrow> sc_digit list \<Rightarrow> sc_digit list" where
  "from_char_loop [] v = v"
| "from_char_loop (b # bs) v = from_char_loop bs (put_low (shift_up BITS_PER_BYTE 0 v) b)"

definition vec_from_char :: "sc_byte list \<Rightarrow> sc_digit list \<Rightarrow> sc_digit list" where
  "vec_from_char u v = (case rev u of [] \<Rightarrow> v | b # bs \<Rightarrow> from_char_loop bs (v[0 := ucast b]))"

section \<open>Long division\<close>

definition strip_bytes :: "sc_byte list \<Rightarrow> sc_byte list" where
  "strip_bytes x = rev (dropWhile (\<lambda>b. b = 0) (rev x))"

text \<open>\<open>x = x - y * qk\<close> on the bytes from \<open>xk\<close>, with the carry that is left.\<close>

fun sub_mul :: "sc_digit \<Rightarrow> sc_digit \<Rightarrow> sc_byte list \<Rightarrow> sc_byte list \<Rightarrow> sc_byte list \<times> sc_digit" where
  "sub_mul carry qk [] xk = (xk, carry)"
| "sub_mul carry qk (b # y) [] = ([], carry)"
| "sub_mul carry qk (b # y) (a # xk) =
     (let c = carry + ucast b * qk; diff = (ucast a + BYTE_RADIX) - (c AND BYTE_MASK);
          (r, c') = sub_mul (drop_bit BITS_PER_BYTE c + (1 - drop_bit BITS_PER_BYTE diff)) qk y xk
      in (ucast (diff AND BYTE_MASK) # r, c'))"

text \<open>\<open>y\<close> added again.\<close>

fun add_back :: "sc_digit \<Rightarrow> sc_byte list \<Rightarrow> sc_byte list \<Rightarrow> sc_byte list \<times> sc_digit" where
  "add_back carry [] xk = (xk, carry)"
| "add_back carry (b # y) [] = ([], carry)"
| "add_back carry (b # y) (a # xk) =
     (let c = carry + (ucast a + ucast b); (r, c') = add_back (drop_bit BITS_PER_BYTE c) y xk
      in (ucast (c AND BYTE_MASK) # r, c'))"

text \<open>The guess from three bytes of \<open>x\<close> and two of \<open>y\<close>; \<open>x[k2]\<close> is \<open>xk[ylen]\<close>.\<close>

definition guess :: "sc_byte list \<Rightarrow> sc_byte list \<Rightarrow> sc_digit" where
  "guess y xk = (let ylen = length y; y2 = push_bit BITS_PER_BYTE (ucast (y ! (ylen - 1))) + ucast (y ! (ylen - 2));
       qk = (push_bit (2 * BITS_PER_BYTE) (ucast (xk ! ylen)) + push_bit BITS_PER_BYTE (ucast (xk ! (ylen - 1))) +
             ucast (xk ! (ylen - 2))) div y2
     in if BYTE_RADIX \<le> qk then BYTE_RADIX - 1 else qk)"

text \<open>The loop body for one \<open>q[k]\<close>: the bytes from \<open>xk\<close> on, and the quotient's byte
  (which \<open>vec_rem_large\<close> does not keep).\<close>

definition div_byte :: "sc_byte list \<Rightarrow> sc_byte list \<Rightarrow> sc_byte list \<times> sc_digit" where
  "div_byte y xk =
     (let ylen = length y; qk = guess y xk
      in if qk = 0 then (xk, qk)
         else let (x1, carry) = sub_mul 0 qk y xk
           in if carry = 0 then (x1, qk)
              else let last = (ucast (x1 ! ylen) + BYTE_RADIX) - carry; x2 = x1[ylen := ucast (last AND BYTE_MASK)]
                in if 1 - drop_bit BITS_PER_BYTE last = 0 then (x2, qk)
                   else let (x3, carry') = add_back 0 y x2
                     in (if carry' = 0 then x3 else x3[ylen := ucast ((ucast (x3 ! ylen) + 1) AND BYTE_MASK)], qk - 1))"

text \<open>\<open>k\<close> runs down to 0; the quotient's bytes are collected in front.\<close>

fun div_bytes :: "sc_byte list \<Rightarrow> nat \<Rightarrow> sc_byte list \<Rightarrow> sc_byte list \<Rightarrow> sc_byte list \<times> sc_byte list" where
  "div_bytes y 0 x q = (x, q)"
| "div_bytes y (Suc k) x q = (let (xk, qk) = div_byte y (drop k x) in div_bytes y k (take k x @ xk) (ucast qk # q))"

definition vec_div_large :: "sc_digit list \<Rightarrow> sc_digit list \<Rightarrow> sc_digit list \<Rightarrow> sc_digit list" where
  "vec_div_large u v w =
     (let x = strip_bytes (vec_to_char u); y = strip_bytes (vec_to_char v);
          (x', q) = div_bytes y (nat (int (length x) - int (length y) + 1)) (x @ [0]) []
      in vec_from_char q w)"

definition vec_rem_large :: "sc_digit list \<Rightarrow> sc_digit list \<Rightarrow> sc_digit list \<Rightarrow> sc_digit list" where
  "vec_rem_large u v w =
     (let x = strip_bytes (vec_to_char u); y = strip_bytes (vec_to_char v);
          (x', q) = div_bytes y (nat (int (length x) - int (length y) + 1)) (x @ [0]) []
      in vec_from_char (take (length y) x') w)"

end
