(* ===== verification/Sc_Big.thy ===== *)
theory Sc_Big
  imports Sc_Nb_Div
begin

text \<open>
  The integers of any width, \<open>sc_signed\<close> and \<open>sc_unsigned\<close>: \<open>sc_signed.h\<close>, \<open>sc_unsigned.h\<close>, the
  conversions of \<open>sc_nbutils.h\<close>, the helpers of \<open>sc_nbfriends.inc\<close> and \<open>sc_nbexterns.cpp\<close>. A number is
  held as a sign and a vector of digits. The sources write the two classes once, with macros for what
  differs; here the flag \<open>sg\<close> (\<open>IF_SC_SIGNED\<close>) is true for \<open>sc_signed\<close>. The member \<open>ndigits\<close> is the
  length of the list of digits, and \<open>SC_MAX_NBITS\<close> is not defined.
\<close>

section \<open>Numbers\<close>

definition SC_NEG :: int where "SC_NEG = - 1"

definition SC_ZERO :: int where "SC_ZERO = 0"

definition SC_POS :: int where "SC_POS = 1"

record sc_big =
  sgn_of :: int
  nbits :: nat
  digit :: "sc_digit list"

abbreviation ndigits :: "sc_big \<Rightarrow> nat" where
  "ndigits u \<equiv> length (digit u)"

definition num_bits :: "bool \<Rightarrow> nat \<Rightarrow> nat" where
  "num_bits sg nb = (if sg then nb else nb + 1)"

definition digits_for :: "nat \<Rightarrow> nat" where
  "digits_for nb = nat (DIV_CEIL (int nb))"

definition mul_signs :: "int \<Rightarrow> int \<Rightarrow> int" where
  "mul_signs us vs = (if us = SC_ZERO \<or> vs = SC_ZERO then SC_ZERO else if us = vs then SC_POS else SC_NEG)"

text \<open>\<open>check_for_zero\<close> exists with a sign and as a test.\<close>

definition check_zero :: "sc_digit list \<Rightarrow> bool" where
  "check_zero u \<longleftrightarrow> vec_find_first_nonzero u < 0"

definition check_for_zero :: "int \<Rightarrow> sc_digit list \<Rightarrow> int" where
  "check_for_zero s u = (if vec_find_first_nonzero u < 0 then SC_ZERO else s)"

definition make_zero :: "sc_digit list \<Rightarrow> int \<times> sc_digit list" where
  "make_zero d = (SC_ZERO, vec_zero 0 d)"

section \<open>Sign and magnitude, and the complement of two\<close>

definition trim_last :: "nat \<Rightarrow> sc_digit list \<Rightarrow> sc_digit list" where
  "trim_last k d = d[length d - 1 := d ! (length d - 1) AND one_and_ones k]"

definition trim_signed :: "nat \<Rightarrow> sc_digit list \<Rightarrow> sc_digit list" where
  "trim_signed nb d = trim_last (bit_ord (nb - 1) + 1) d"

definition trim_unsigned :: "nat \<Rightarrow> sc_digit list \<Rightarrow> sc_digit list" where
  "trim_unsigned nb d = trim_last (bit_ord (nb - 1)) d"

definition trim :: "bool \<Rightarrow> nat \<Rightarrow> sc_digit list \<Rightarrow> sc_digit list" where
  "trim added nb d = trim_last (bit_ord (nb - 1) + of_bool added) d"

definition convert_SM_to_2C :: "int \<Rightarrow> sc_digit list \<Rightarrow> sc_digit list" where
  "convert_SM_to_2C s d = (if s = SC_NEG then vec_complement d else d)"

definition convert_SM_to_2C_trimmed :: "bool \<Rightarrow> int \<Rightarrow> nat \<Rightarrow> sc_digit list \<Rightarrow> sc_digit list" where
  "convert_SM_to_2C_trimmed added s nb d = (if s = SC_NEG then trim added nb (vec_complement d) else d)"

definition convert_signed_2C_to_SM :: "nat \<Rightarrow> sc_digit list \<Rightarrow> int \<times> sc_digit list" where
  "convert_signed_2C_to_SM nb d =
     (let xnb = bit_ord (nb - 1) + 1;
          (s, d') = (if d ! (length d - 1) AND one_and_zeros (xnb - 1) \<noteq> 0 then (SC_NEG, vec_complement d) else (SC_POS, d));
          d'' = trim_last xnb d'
      in (if s = SC_POS then check_for_zero s d'' else s, d''))"

definition convert_unsigned_2C_to_SM :: "nat \<Rightarrow> sc_digit list \<Rightarrow> int \<times> sc_digit list" where
  "convert_unsigned_2C_to_SM nb d = (let d' = trim_unsigned nb d in (check_for_zero SC_POS d', d'))"

definition convert_2C_to_SM :: "bool \<Rightarrow> nat \<Rightarrow> sc_digit list \<Rightarrow> int \<times> sc_digit list" where
  "convert_2C_to_SM sg = (if sg then convert_signed_2C_to_SM else convert_unsigned_2C_to_SM)"

definition convert_signed_SM_to_2C_to_SM :: "int \<Rightarrow> nat \<Rightarrow> sc_digit list \<Rightarrow> int \<times> sc_digit list" where
  "convert_signed_SM_to_2C_to_SM s nb d = convert_signed_2C_to_SM nb (convert_SM_to_2C s d)"

definition convert_unsigned_SM_to_2C_to_SM :: "int \<Rightarrow> nat \<Rightarrow> sc_digit list \<Rightarrow> int \<times> sc_digit list" where
  "convert_unsigned_SM_to_2C_to_SM s nb d = convert_unsigned_2C_to_SM nb (convert_SM_to_2C s d)"

definition convert_SM_to_2C_to_SM :: "bool \<Rightarrow> int \<Rightarrow> nat \<Rightarrow> sc_digit list \<Rightarrow> int \<times> sc_digit list" where
  "convert_SM_to_2C_to_SM sg = (if sg then convert_signed_SM_to_2C_to_SM else convert_unsigned_SM_to_2C_to_SM)"

definition copy_digits_signed :: "int \<Rightarrow> nat \<Rightarrow> sc_digit list \<Rightarrow> nat \<Rightarrow> sc_digit list \<Rightarrow> int \<times> sc_digit list" where
  "copy_digits_signed us unb ud vnb vd =
     (if length ud \<le> length vd
      then let d = vec_copy (length ud) ud vd in if unb \<le> vnb then convert_signed_SM_to_2C_to_SM us unb d else (us, d)
      else (us, vec_copy_and_zero ud vd))"

definition copy_digits_unsigned :: "int \<Rightarrow> nat \<Rightarrow> sc_digit list \<Rightarrow> nat \<Rightarrow> sc_digit list \<Rightarrow> int \<times> sc_digit list" where
  "copy_digits_unsigned us unb ud vnb vd =
     convert_unsigned_SM_to_2C_to_SM us unb
       (if length ud \<le> length vd then vec_copy (length ud) ud vd else vec_copy_and_zero ud vd)"

definition copy_digits :: "bool \<Rightarrow> int \<Rightarrow> nat \<Rightarrow> sc_digit list \<Rightarrow> nat \<Rightarrow> sc_digit list \<Rightarrow> int \<times> sc_digit list" where
  "copy_digits sg = (if sg then copy_digits_signed else copy_digits_unsigned)"

section \<open>Constructors\<close>

text \<open>
  The constructor from a sign, a width and digits: digits are cut off or zeros are added to reach the
  length that the width needs. \<open>CLASS_TYPE()\<close> is a zero of the default length, 32 bits where no
  \<open>sc_length_context\<close> is active.
\<close>

definition new_big :: "bool \<Rightarrow> int \<Rightarrow> nat \<Rightarrow> sc_digit list \<Rightarrow> sc_big" where
  "new_big sg s nb d =
     (let n = num_bits sg nb; junk = replicate (digits_for n) 0
      in \<lparr>sgn_of = s, nbits = n,
          digit = (if digits_for n \<le> length d then vec_copy (digits_for n) junk d else vec_copy_and_zero junk d)\<rparr>)"

definition zero_big :: "bool \<Rightarrow> nat \<Rightarrow> sc_big" where
  "zero_big sg nb = \<lparr>sgn_of = SC_ZERO, nbits = num_bits sg nb, digit = replicate (digits_for (num_bits sg nb)) 0\<rparr>"

definition make_big :: "bool \<Rightarrow> int \<Rightarrow> sc_big result" where
  "make_big sg nb = (if 0 < nb then Inr (zero_big sg (nat nb)) else Inl Sc_report_error)"

definition SC_DEFAULT_WL :: nat where "SC_DEFAULT_WL = 32"

definition default_big :: "bool \<Rightarrow> sc_big" where
  "default_big sg = zero_big sg SC_DEFAULT_WL"

text \<open>The array \<open>d\<close> of a helper: what is written at its start, zeros behind.\<close>

definition array_of :: "nat \<Rightarrow> sc_digit list \<Rightarrow> sc_digit list" where
  "array_of n w = w @ replicate (n - length w) 0"

end
