(* ===== verification/Sc_Big_Arith.thy ===== *)
theory Sc_Big_Arith
  imports Sc_Big
begin

text \<open>
  Arithmetic of the integers of any width: the helpers of \<open>sc_nbfriends.inc\<close>, the operators of
  \<open>sc_signed.cpp\<close> and \<open>sc_unsigned.cpp\<close> that call them, and the assignment operators of
  \<open>sc_nbcommon.inc\<close> with the helpers of \<open>sc_nbexterns.cpp\<close>. Every helper skips the leading zeros of its
  operands first. A division by zero is reported with \<open>SC_REPORT_ERROR\<close>, which throws.
\<close>

section \<open>The helpers of the operators\<close>

definition single :: "sc_digit list \<Rightarrow> bool" where
  "single u \<longleftrightarrow> length u = 1"

definition ADD_HELPER :: "bool \<Rightarrow> int \<Rightarrow> nat \<Rightarrow> sc_digit list \<Rightarrow> int \<Rightarrow> nat \<Rightarrow> sc_digit list \<Rightarrow> sc_big" where
  "ADD_HELPER sg us unb ud0 vs vnb vd0 =
     (let ud = skipped ud0; vd = skipped vd0; nb = max unb vnb; nd = max (length ud) (length vd) + 1
      in if us = vs then
           new_big sg us (nb + 1) (array_of nd
             (if single ud \<and> single vd
              then let carry = ud ! 0 + vd ! 0 in [carry AND DIGIT_MASK, drop_bit BITS_PER_DIGIT carry]
              else if length vd \<le> length ud then vec_add ud vd else vec_add vd ud))
         else let cmp_res = vec_cmp ud vd
           in if cmp_res = 0 then default_big sg
              else if 0 < cmp_res then
                new_big sg us nb (array_of nd (if single ud \<and> single vd then [ud ! 0 - vd ! 0] else vec_sub ud vd))
              else new_big sg (- us) nb (array_of nd (if single ud \<and> single vd then [vd ! 0 - ud ! 0] else vec_sub vd ud)))"

text \<open>The choice of a multiplication, for operands without leading zeros.\<close>

definition mul_digits :: "sc_digit list \<Rightarrow> sc_digit list \<Rightarrow> sc_digit list" where
  "mul_digits ud vd =
     (if single ud \<and> ud ! 0 < HALF_DIGIT_RADIX then vec_mul_small vd (ud ! 0)
      else if single vd \<and> vd ! 0 < HALF_DIGIT_RADIX then vec_mul_small ud (vd ! 0)
      else if length vd < length ud then vec_mul ud vd (replicate (length ud + length vd) 0)
      else vec_mul vd ud (replicate (length ud + length vd) 0))"

definition MUL_HELPER :: "bool \<Rightarrow> int \<Rightarrow> nat \<Rightarrow> sc_digit list \<Rightarrow> nat \<Rightarrow> sc_digit list \<Rightarrow> sc_big" where
  "MUL_HELPER sg s unb ud0 vnb vd0 =
     (let ud = skipped ud0; vd = skipped vd0; nd = length ud + length vd
      in new_big sg s (unb + vnb) (array_of nd
           (if single vd \<and> vd ! 0 = 1 then ud
            else if single ud \<and> ud ! 0 = 1 then vd
            else if single ud \<and> single vd \<and> ud ! 0 < HALF_DIGIT_RADIX \<and> vd ! 0 < HALF_DIGIT_RADIX then [ud ! 0 * vd ! 0]
            else mul_digits ud vd)))"

definition DIV_HELPER :: "bool \<Rightarrow> int \<Rightarrow> nat \<Rightarrow> sc_digit list \<Rightarrow> nat \<Rightarrow> sc_digit list \<Rightarrow> sc_big" where
  "DIV_HELPER sg s unb ud0 vnb vd0 =
     (let ud = skipped ud0; vd = skipped vd0; cmp_res = vec_cmp ud vd
      in if cmp_res < 0 then default_big sg
         else let nd = max (length ud) (length vd) + 1; vd0 = vd ! 0
           in new_big sg s (max unb vnb) (take (nd - 1)
                (if cmp_res = 0 then array_of nd [1]
                 else if single vd \<and> vd0 = 1 then array_of nd ud
                 else if single vd \<and> single ud then array_of nd [ud ! 0 div vd0]
                 else if single vd \<and> vd0 < HALF_DIGIT_RADIX then array_of nd (vec_div_small ud vd0)
                 else array_of nd (vec_div_large ud vd (replicate (length ud) 0)))))"

definition MOD_HELPER :: "bool \<Rightarrow> int \<Rightarrow> nat \<Rightarrow> sc_digit list \<Rightarrow> nat \<Rightarrow> sc_digit list \<Rightarrow> sc_big" where
  "MOD_HELPER sg us unb ud0 vnb vd0 =
     (let ud = skipped ud0; vd = skipped vd0; cmp_res = vec_cmp ud vd
      in if cmp_res = 0 then default_big sg
         else if 0 < cmp_res \<and> single vd \<and> vd ! 0 = 1 then default_big sg
         else let nd = max (length ud) (length vd) + 1; vd0 = vd ! 0;
                d = (if cmp_res < 0 then array_of nd ud
                     else if single vd \<and> single ud then array_of nd [ud ! 0 mod vd0]
                     else if single vd \<and> vd0 < HALF_DIGIT_RADIX then array_of nd [vec_rem_small ud vd0]
                     else array_of nd (vec_rem_large ud vd (replicate (length ud) 0)));
                s = check_for_zero us (take (nd - 1) d)
           in if s = SC_ZERO then default_big sg else new_big sg s (min unb vnb) (take (nd - 1) d))"

section \<open>Operators\<close>

text \<open>
  The copy constructors: from the same class, from the other class, and the same two with a sign given.
  \<open>su\<close> and \<open>sv\<close> are the classes of the operands.
\<close>

definition copy_other :: "bool \<Rightarrow> sc_big \<Rightarrow> int \<Rightarrow> sc_big" where
  "copy_other sg v s =
     (let nb = num_bits sg (nbits v); nd = (if sg then ndigits v else digits_for nb);
          (s', d) = copy_digits sg s nb (replicate nd 0) (nbits v) (digit v)
      in \<lparr>sgn_of = s', nbits = nb, digit = d\<rparr>)"

definition to_class :: "bool \<Rightarrow> bool \<Rightarrow> sc_big \<Rightarrow> sc_big" where
  "to_class sg sv v = (if sv = sg then v else copy_other sg v (sgn_of v))"

definition with_sign :: "bool \<Rightarrow> bool \<Rightarrow> sc_big \<Rightarrow> int \<Rightarrow> sc_big" where
  "with_sign sg sv v s = (if sv = sg then v\<lparr>sgn_of := s\<rparr> else copy_other sg v s)"

definition plus_big :: "bool \<Rightarrow> sc_big \<Rightarrow> bool \<Rightarrow> sc_big \<Rightarrow> sc_big" where
  "plus_big su u sv v = (let sg = su \<or> sv
     in if sgn_of u = SC_ZERO then to_class sg sv v
        else if sgn_of v = SC_ZERO then to_class sg su u
        else ADD_HELPER sg (sgn_of u) (nbits u) (digit u) (sgn_of v) (nbits v) (digit v))"

text \<open>A difference is an \<open>sc_signed\<close>, whatever the operands are.\<close>

definition minus_big :: "bool \<Rightarrow> sc_big \<Rightarrow> bool \<Rightarrow> sc_big \<Rightarrow> sc_big" where
  "minus_big su u sv v =
     (if sgn_of v = SC_ZERO then to_class True su u
      else if sgn_of u = SC_ZERO then with_sign True sv v (- sgn_of v)
      else ADD_HELPER True (sgn_of u) (nbits u) (digit u) (- sgn_of v) (nbits v) (digit v))"

definition uminus_big :: "bool \<Rightarrow> sc_big \<Rightarrow> sc_big" where
  "uminus_big su u = with_sign True su u (- sgn_of u)"

definition times_big :: "bool \<Rightarrow> sc_big \<Rightarrow> bool \<Rightarrow> sc_big \<Rightarrow> sc_big" where
  "times_big su u sv v = (let sg = su \<or> sv; s = mul_signs (sgn_of u) (sgn_of v)
     in if s = SC_ZERO then default_big sg else MUL_HELPER sg s (nbits u) (digit u) (nbits v) (digit v))"

definition div_by_zero :: "int \<Rightarrow> unit result" where
  "div_by_zero s = (if s = 0 then Inl Sc_report_error else Inr ())"

definition div_big :: "bool \<Rightarrow> sc_big \<Rightarrow> bool \<Rightarrow> sc_big \<Rightarrow> sc_big result" where
  "div_big su u sv v = (let sg = su \<or> sv; s = mul_signs (sgn_of u) (sgn_of v)
     in if s = SC_ZERO then bind_result (div_by_zero (sgn_of v)) (\<lambda>_. Inr (default_big sg))
        else Inr (DIV_HELPER sg s (nbits u) (digit u) (nbits v) (digit v)))"

definition mod_big :: "bool \<Rightarrow> sc_big \<Rightarrow> bool \<Rightarrow> sc_big \<Rightarrow> sc_big result" where
  "mod_big su u sv v = (let sg = su \<or> sv
     in if sgn_of u = SC_ZERO \<or> sgn_of v = SC_ZERO then bind_result (div_by_zero (sgn_of v)) (\<lambda>_. Inr (default_big sg))
        else Inr (MOD_HELPER sg (sgn_of u) (nbits u) (digit u) (nbits v) (digit v)))"

section \<open>Comparison\<close>

text \<open>Two \<open>sc_signed\<close> numbers.\<close>

definition eq_big :: "sc_big \<Rightarrow> sc_big \<Rightarrow> bool" where
  "eq_big u v = (if sgn_of u \<noteq> sgn_of v then False else \<not> vec_skip_and_cmp (digit u) (digit v) \<noteq> 0)"

definition less_big :: "sc_big \<Rightarrow> sc_big \<Rightarrow> bool" where
  "less_big u v =
     (if sgn_of u < sgn_of v then True
      else if sgn_of v < sgn_of u then False
      else if sgn_of u = SC_POS then vec_skip_and_cmp (digit u) (digit v) < 0
      else if sgn_of u = SC_NEG then 0 < vec_skip_and_cmp (digit u) (digit v)
      else False)"

text \<open>
  Where an operand is \<open>sc_unsigned\<close>, a negative operand decides at once; \<open>compare_unsigned\<close> would take its two's
  complement for an unsigned number.
\<close>

definition compare_unsigned :: "int \<Rightarrow> nat \<Rightarrow> sc_digit list \<Rightarrow> int \<Rightarrow> nat \<Rightarrow> sc_digit list \<Rightarrow> bool \<Rightarrow> bool \<Rightarrow> int" where
  "compare_unsigned us unb ud vs vnb vd if_u_signed if_v_signed =
     (if us = vs
      then if us = SC_ZERO then 0
           else let cmp_res = vec_skip_and_cmp ud vd in if us = SC_POS then cmp_res else - cmp_res
      else if us = SC_ZERO then - vs
      else if vs = SC_ZERO then us
      else if us = SC_NEG then vec_skip_and_cmp (trim if_u_signed unb (vec_complement ud)) vd
      else vec_skip_and_cmp ud (trim if_v_signed vnb (vec_complement vd)))"

definition eq_unsigned :: "bool \<Rightarrow> sc_big \<Rightarrow> bool \<Rightarrow> sc_big \<Rightarrow> bool" where
  "eq_unsigned su u sv v =
     (if sv \<and> sgn_of v = SC_NEG then False
      else if su \<and> sgn_of u = SC_NEG then False
      else \<not> compare_unsigned (sgn_of u) (nbits u) (digit u) (sgn_of v) (nbits v) (digit v) su sv \<noteq> 0)"

definition less_unsigned :: "bool \<Rightarrow> sc_big \<Rightarrow> bool \<Rightarrow> sc_big \<Rightarrow> bool" where
  "less_unsigned su u sv v =
     (if sv \<and> sgn_of v = SC_NEG then False
      else if su \<and> sgn_of u = SC_NEG then True
      else compare_unsigned (sgn_of u) (nbits u) (digit u) (sgn_of v) (nbits v) (digit v) su sv < 0)"

end
