(* ===== verification/Sc_Big_Bits.thy ===== *)
theory Sc_Big_Bits
  imports Sc_Big_Arith
begin

text \<open>
  The bitwise operators on integers of any width, \<open>AND_HELPER\<close>, \<open>OR_HELPER\<close>, \<open>XOR_HELPER\<close> of
  \<open>sc_nbfriends.inc\<close> and \<open>and_on_help\<close>, \<open>or_on_help\<close>, \<open>xor_on_help\<close> of \<open>sc_nbexterns.cpp\<close>; the complement and
  the shifts of \<open>sc_nbcommon.inc\<close>. A negative operand is complemented on the fly, with a carry; the shorter
  operand goes on with zeros. The three operations have the same loops, which take the operation on
  digits and what happens to the rest of the longer operand as arguments.
\<close>

section \<open>The loops\<close>

text \<open>Both operands positive.\<close>

fun pp_loop :: "(sc_digit \<Rightarrow> sc_digit \<Rightarrow> sc_digit) \<Rightarrow> (sc_digit \<Rightarrow> sc_digit) \<Rightarrow> sc_digit list \<Rightarrow> sc_digit list \<Rightarrow> sc_digit list" where
  "pp_loop f rest [] y = []"
| "pp_loop f rest (a # x) [] = rest a # pp_loop f rest x []"
| "pp_loop f rest (a # x) (b # y) = f a b # pp_loop f rest x y"

text \<open>Both negative.\<close>

fun nn_loop :: "(sc_digit \<Rightarrow> sc_digit \<Rightarrow> sc_digit) \<Rightarrow> sc_digit \<Rightarrow> sc_digit \<Rightarrow> sc_digit list \<Rightarrow> sc_digit list \<Rightarrow> sc_digit list" where
  "nn_loop f xcarry ycarry [] y = []"
| "nn_loop f xcarry ycarry (a # x) [] = (let xc = xcarry + (NOT a AND DIGIT_MASK); yc = ycarry + DIGIT_MASK
     in (f xc yc AND DIGIT_MASK) # nn_loop f (drop_bit BITS_PER_DIGIT xc) (drop_bit BITS_PER_DIGIT yc) x [])"
| "nn_loop f xcarry ycarry (a # x) (b # y) = (let xc = xcarry + (NOT a AND DIGIT_MASK); yc = ycarry + (NOT b AND DIGIT_MASK)
     in (f xc yc AND DIGIT_MASK) # nn_loop f (drop_bit BITS_PER_DIGIT xc) (drop_bit BITS_PER_DIGIT yc) x y)"

text \<open>The longer positive, the shorter negative.\<close>

fun pn_loop :: "(sc_digit \<Rightarrow> sc_digit \<Rightarrow> sc_digit) \<Rightarrow> sc_digit \<Rightarrow> sc_digit list \<Rightarrow> sc_digit list \<Rightarrow> sc_digit list" where
  "pn_loop f ycarry [] y = []"
| "pn_loop f ycarry (a # x) [] = (let yc = ycarry + DIGIT_MASK
     in (f a yc AND DIGIT_MASK) # pn_loop f (drop_bit BITS_PER_DIGIT yc) x [])"
| "pn_loop f ycarry (a # x) (b # y) = (let yc = ycarry + (NOT b AND DIGIT_MASK)
     in (f a yc AND DIGIT_MASK) # pn_loop f (drop_bit BITS_PER_DIGIT yc) x y)"

text \<open>The longer negative, the shorter positive.\<close>

fun np_loop :: "(sc_digit \<Rightarrow> sc_digit \<Rightarrow> sc_digit) \<Rightarrow> (sc_digit \<Rightarrow> sc_digit) \<Rightarrow> sc_digit \<Rightarrow> sc_digit list \<Rightarrow> sc_digit list \<Rightarrow> sc_digit list" where
  "np_loop f rest xcarry [] y = []"
| "np_loop f rest xcarry (a # x) [] = (let xc = xcarry + (NOT a AND DIGIT_MASK)
     in rest xc # np_loop f rest (drop_bit BITS_PER_DIGIT xc) x [])"
| "np_loop f rest xcarry (a # x) (b # y) = (let xc = xcarry + (NOT a AND DIGIT_MASK)
     in (f xc b AND DIGIT_MASK) # np_loop f rest (drop_bit BITS_PER_DIGIT xc) x y)"

text \<open>The choice of the loop by the signs; \<open>fp\<close> is the operation on two positive digits.\<close>

definition bit_digits ::
  "(sc_digit \<Rightarrow> sc_digit \<Rightarrow> sc_digit) \<Rightarrow> (sc_digit \<Rightarrow> sc_digit \<Rightarrow> sc_digit) \<Rightarrow> (sc_digit \<Rightarrow> sc_digit) \<Rightarrow> (sc_digit \<Rightarrow> sc_digit) \<Rightarrow>
    int \<Rightarrow> sc_digit list \<Rightarrow> int \<Rightarrow> sc_digit list \<Rightarrow> sc_digit list" where
  "bit_digits f fp rest rest_neg xs x ys y =
     (if 0 < mul_signs xs ys
      then if 0 < xs then pp_loop fp rest x y else nn_loop f 1 1 x y
      else if 0 < xs then pn_loop f 1 x y else np_loop f rest_neg 1 x y)"

definition and_digits :: "int \<Rightarrow> sc_digit list \<Rightarrow> int \<Rightarrow> sc_digit list \<Rightarrow> sc_digit list" where
  "and_digits = bit_digits (AND) (AND) (\<lambda>_. 0) (\<lambda>_. 0)"

definition or_digits :: "int \<Rightarrow> sc_digit list \<Rightarrow> int \<Rightarrow> sc_digit list \<Rightarrow> sc_digit list" where
  "or_digits = bit_digits (OR) (OR) (\<lambda>a. a) (\<lambda>xc. xc AND DIGIT_MASK)"

definition xor_digits :: "int \<Rightarrow> sc_digit list \<Rightarrow> int \<Rightarrow> sc_digit list \<Rightarrow> sc_digit list" where
  "xor_digits = bit_digits (XOR) (\<lambda>a b. (a XOR b) AND DIGIT_MASK) (\<lambda>a. a) (\<lambda>xc. xc AND DIGIT_MASK)"

section \<open>The helpers of the operators\<close>

text \<open>\<open>x\<close> is the longer operand.\<close>

definition BIT_HELPER :: "(int \<Rightarrow> sc_digit list \<Rightarrow> int \<Rightarrow> sc_digit list \<Rightarrow> sc_digit list) \<Rightarrow> bool \<Rightarrow>
    int \<Rightarrow> nat \<Rightarrow> sc_digit list \<Rightarrow> int \<Rightarrow> nat \<Rightarrow> sc_digit list \<Rightarrow> sc_big" where
  "BIT_HELPER loop sg us unb ud vs vnb vd =
     (let nb = max unb vnb;
          dbegin = (if length vd \<le> length ud then loop us ud vs vd else loop vs vd us ud);
          (s, d) = convert_signed_2C_to_SM nb dbegin
      in new_big sg s nb d)"

definition AND_HELPER :: "bool \<Rightarrow> int \<Rightarrow> nat \<Rightarrow> sc_digit list \<Rightarrow> int \<Rightarrow> nat \<Rightarrow> sc_digit list \<Rightarrow> sc_big" where
  "AND_HELPER = BIT_HELPER and_digits"

definition OR_HELPER :: "bool \<Rightarrow> int \<Rightarrow> nat \<Rightarrow> sc_digit list \<Rightarrow> int \<Rightarrow> nat \<Rightarrow> sc_digit list \<Rightarrow> sc_big" where
  "OR_HELPER = BIT_HELPER or_digits"

definition XOR_HELPER :: "bool \<Rightarrow> int \<Rightarrow> nat \<Rightarrow> sc_digit list \<Rightarrow> int \<Rightarrow> nat \<Rightarrow> sc_digit list \<Rightarrow> sc_big" where
  "XOR_HELPER = BIT_HELPER xor_digits"

section \<open>Operators\<close>

definition and_big :: "bool \<Rightarrow> sc_big \<Rightarrow> bool \<Rightarrow> sc_big \<Rightarrow> sc_big" where
  "and_big su u sv v = (let sg = su \<or> sv
     in if sgn_of u = SC_ZERO \<or> sgn_of v = SC_ZERO then default_big sg
        else AND_HELPER sg (sgn_of u) (nbits u) (digit u) (sgn_of v) (nbits v) (digit v))"

definition or_big :: "bool \<Rightarrow> sc_big \<Rightarrow> bool \<Rightarrow> sc_big \<Rightarrow> sc_big" where
  "or_big su u sv v = (let sg = su \<or> sv
     in if sgn_of v = SC_ZERO then to_class sg su u
        else if sgn_of u = SC_ZERO then to_class sg sv v
        else OR_HELPER sg (sgn_of u) (nbits u) (digit u) (sgn_of v) (nbits v) (digit v))"

definition xor_big :: "bool \<Rightarrow> sc_big \<Rightarrow> bool \<Rightarrow> sc_big \<Rightarrow> sc_big" where
  "xor_big su u sv v = (let sg = su \<or> sv
     in if sgn_of v = SC_ZERO then to_class sg su u
        else if sgn_of u = SC_ZERO then to_class sg sv v
        else XOR_HELPER sg (sgn_of u) (nbits u) (digit u) (sgn_of v) (nbits v) (digit v))"

text \<open>\<open>~u\<close> is one less than the negative.\<close>

definition not_big :: "bool \<Rightarrow> sc_big \<Rightarrow> sc_big" where
  "not_big sg u =
     (if sgn_of u = SC_ZERO then new_big sg SC_NEG (nbits u) [1]
      else if sgn_of u = SC_POS then new_big sg SC_NEG (nbits u) (vec_add_small_on (digit u) 1)
      else let d = vec_sub_small_on (digit u) 1
        in new_big sg (if check_zero d then SC_ZERO else SC_POS) (nbits u) d)"

text \<open>
  Shifts by an \<open>unsigned long\<close>. The vector routines take the number of places as an \<open>int\<close>, so it is narrowed to
  32 bits first, and ignore it when it is negative then. The width of a left shift is computed in 64 bits and narrowed
  too. A width that is not positive, or too short for the digits of \<open>u\<close> (after an overflow, or with a count that is
  negative as an \<open>int\<close>), makes it write outside of the array it has just made, or test a bit at a negative position.
\<close>

definition shift_count :: "u64 \<Rightarrow> int" where
  "shift_count v = sint (ucast v :: i32)"

definition shl_big :: "bool \<Rightarrow> sc_big \<Rightarrow> u64 \<Rightarrow> sc_big result" where
  "shl_big sg u v =
     (if v = 0 \<or> sgn_of u = SC_ZERO then Inr u
      else let nb = sint (ucast (of_nat (nbits u) + v) :: i32); nd = digits_for (nat nb)
        in if nb \<le> 0 \<or> nd < length (digit u) then Inl Out_of_range
        else let d = vec_shift_left (convert_SM_to_2C (sgn_of u) (vec_copy_and_zero (replicate nd 0) (digit u))) (shift_count v);
               (s, d') = convert_signed_2C_to_SM (nat nb) d
          in Inr (new_big sg s (nat nb) d'))"

definition shr_big :: "bool \<Rightarrow> sc_big \<Rightarrow> u64 \<Rightarrow> sc_big" where
  "shr_big sg u v =
     (if v = 0 \<or> sgn_of u = SC_ZERO then u
      else let d = vec_shift_right (convert_SM_to_2C (sgn_of u) (digit u)) (shift_count v)
                     (if sgn_of u = SC_NEG then DIGIT_MASK else 0);
             (s, d') = convert_signed_2C_to_SM (nbits u) d
        in new_big sg s (nbits u) d')"

end
