(* ===== verification/Sc_Big_Assign.thy ===== *)
theory Sc_Big_Assign
  imports Sc_Big_Bits
begin

text \<open>
  The operators of \<open>sc_nbcommon.inc\<close> that change a number in place, with the helpers of
  \<open>sc_nbexterns.cpp\<close>: assignment, the compound assignments, the shifts, \<open>++\<close> and \<open>--\<close>. The width of the number
  stays; \<open>sg\<close> is its class. An assignment of a number to itself is the identity in the sources and is not
  a case here. A report of a division by zero leaves nothing to return.
\<close>

section \<open>Assignment\<close>

text \<open>\<open>set_to u (s, d)\<close> gives \<open>u\<close> a new sign and new digits.\<close>

definition set_to :: "sc_big \<Rightarrow> int \<times> sc_digit list \<Rightarrow> sc_big" where
  "set_to u p = u\<lparr>sgn_of := fst p, digit := snd p\<rparr>"

definition assign_big :: "bool \<Rightarrow> sc_big \<Rightarrow> sc_big \<Rightarrow> sc_big" where
  "assign_big sg u v =
     (if sgn_of v = SC_ZERO then set_to u (SC_ZERO, vec_zero 0 (digit u))
      else set_to u (copy_digits sg (sgn_of v) (nbits u) (digit u) (nbits v) (digit v)))"

section \<open>Sums\<close>

definition add_on_help :: "int \<Rightarrow> sc_digit list \<Rightarrow> int \<Rightarrow> sc_digit list \<Rightarrow> int \<times> sc_digit list" where
  "add_on_help us ud vs vd0 =
     (let vd = skipped vd0
      in if us = vs then (us, if length vd \<le> length ud then vec_add_on ud vd else vec_add_on2 ud vd)
         else let cmp_res = vec_cmp (skipped ud) vd
           in if cmp_res = 0 then (SC_ZERO, vec_zero 0 ud)
              else if 0 < cmp_res then (us, vec_sub_on ud vd)
              else (- us, vec_sub_on2 ud vd))"

definition convert_again :: "bool \<Rightarrow> nat \<Rightarrow> int \<times> sc_digit list \<Rightarrow> int \<times> sc_digit list" where
  "convert_again sg nb p = convert_SM_to_2C_to_SM sg (fst p) nb (snd p)"

definition plus_assign :: "bool \<Rightarrow> sc_big \<Rightarrow> sc_big \<Rightarrow> sc_big" where
  "plus_assign sg u v =
     (if sgn_of u = SC_ZERO then assign_big sg u v
      else if sgn_of v = SC_ZERO then u
      else set_to u (convert_again sg (nbits u) (add_on_help (sgn_of u) (digit u) (sgn_of v) (digit v))))"

definition minus_assign :: "bool \<Rightarrow> sc_big \<Rightarrow> sc_big \<Rightarrow> sc_big" where
  "minus_assign sg u v =
     (if sgn_of v = SC_ZERO then u
      else if sgn_of u = SC_ZERO then set_to u (copy_digits sg (- sgn_of v) (nbits u) (digit u) (nbits v) (digit v))
      else set_to u (convert_again sg (nbits u) (add_on_help (sgn_of u) (digit u) (- sgn_of v) (digit v))))"

section \<open>Products\<close>

text \<open>The bodies for the two classes are the same but for the conversion and the copy they call.\<close>

definition mul_on_help :: "bool \<Rightarrow> int \<Rightarrow> nat \<Rightarrow> sc_digit list \<Rightarrow> nat \<Rightarrow> sc_digit list \<Rightarrow> int \<times> sc_digit list" where
  "mul_on_help sg us unb old vnb vd0 =
     (let ud = skipped old; vd = skipped vd0
      in if single vd \<and> vd ! 0 = 1 then convert_SM_to_2C_to_SM sg us unb old
         else if single ud \<and> ud ! 0 = 1 then copy_digits sg us unb old vnb vd
         else if single ud \<and> single vd \<and> ud ! 0 < HALF_DIGIT_RADIX \<and> vd ! 0 < HALF_DIGIT_RADIX
         then copy_digits sg us unb old (unb + vnb) [ud ! 0 * vd ! 0]
         else copy_digits sg us unb old (unb + vnb) (array_of (length ud + length vd) (mul_digits ud vd)))"

definition mul_on_help_signed :: "int \<Rightarrow> nat \<Rightarrow> sc_digit list \<Rightarrow> nat \<Rightarrow> sc_digit list \<Rightarrow> int \<times> sc_digit list" where
  "mul_on_help_signed = mul_on_help True"

definition mul_on_help_unsigned :: "int \<Rightarrow> nat \<Rightarrow> sc_digit list \<Rightarrow> nat \<Rightarrow> sc_digit list \<Rightarrow> int \<times> sc_digit list" where
  "mul_on_help_unsigned = mul_on_help False"

definition times_assign :: "bool \<Rightarrow> sc_big \<Rightarrow> sc_big \<Rightarrow> sc_big" where
  "times_assign sg u v = (let s = mul_signs (sgn_of u) (sgn_of v)
     in if s = SC_ZERO then set_to u (s, vec_zero 0 (digit u))
        else set_to u ((if sg then mul_on_help_signed else mul_on_help_unsigned) s (nbits u) (digit u) (nbits v) (digit v)))"

section \<open>Quotients and remainders\<close>

definition div_on_help :: "bool \<Rightarrow> int \<Rightarrow> nat \<Rightarrow> sc_digit list \<Rightarrow> nat \<Rightarrow> sc_digit list \<Rightarrow> int \<times> sc_digit list" where
  "div_on_help sg us unb old vnb vd0 =
     (let ud = skipped old; vd = skipped vd0; cmp_res = vec_cmp ud vd
      in if cmp_res < 0 then (SC_ZERO, vec_zero 0 old)
         else if 0 < cmp_res \<and> single vd \<and> vd ! 0 = 1 then convert_SM_to_2C_to_SM sg us unb old
         else let nd = max (length ud) (length vd) + 1; vd0 = vd ! 0
           in copy_digits sg us unb old (max unb vnb) (take (nd - 1)
                (if cmp_res = 0 then array_of nd [1]
                 else if single vd \<and> single ud then array_of nd [ud ! 0 div vd0]
                 else if single vd \<and> vd0 < HALF_DIGIT_RADIX then array_of nd (vec_div_small ud vd0)
                 else array_of nd (vec_div_large ud vd (replicate (length ud) 0)))))"

definition div_on_help_signed :: "int \<Rightarrow> nat \<Rightarrow> sc_digit list \<Rightarrow> nat \<Rightarrow> sc_digit list \<Rightarrow> int \<times> sc_digit list" where
  "div_on_help_signed = div_on_help True"

definition div_on_help_unsigned :: "int \<Rightarrow> nat \<Rightarrow> sc_digit list \<Rightarrow> nat \<Rightarrow> sc_digit list \<Rightarrow> int \<times> sc_digit list" where
  "div_on_help_unsigned = div_on_help False"

definition div_assign :: "bool \<Rightarrow> sc_big \<Rightarrow> sc_big \<Rightarrow> sc_big result" where
  "div_assign sg u v = (let s = mul_signs (sgn_of u) (sgn_of v)
     in if s = SC_ZERO
        then bind_result (div_by_zero (sgn_of v)) (\<lambda>_. Inr (set_to u (s, vec_zero 0 (digit u))))
        else Inr (set_to u ((if sg then div_on_help_signed else div_on_help_unsigned) s (nbits u) (digit u) (nbits v) (digit v))))"

text \<open>
  In \<open>mod_on_help\<close> the case of one digit each is not followed by an \<open>else\<close>: its result is overwritten by
  the next test. The width passed on with the remainder is \<open>sc_min(unb, vnd)\<close>.
\<close>

definition mod_on_help :: "bool \<Rightarrow> int \<Rightarrow> nat \<Rightarrow> sc_digit list \<Rightarrow> sc_digit list \<Rightarrow> int \<times> sc_digit list" where
  "mod_on_help sg us unb old vd0 =
     (let ud = skipped old; vd = skipped vd0; cmp_res = vec_cmp ud vd
      in if cmp_res < 0 then (us, old)
         else if cmp_res = 0 then (SC_ZERO, vec_zero 0 old)
         else if single vd \<and> vd ! 0 = 1 then (SC_ZERO, vec_zero 0 old)
         else let nd = max (length ud) (length vd) + 1; vd0 = vd ! 0;
                d = (if single vd \<and> vd0 < HALF_DIGIT_RADIX then array_of nd [vec_rem_small ud vd0]
                     else array_of nd (vec_rem_large ud vd (replicate (length ud) 0)));
                s = check_for_zero us (take (nd - 1) d)
           in if s = SC_ZERO then (s, vec_zero 0 old)
              else copy_digits sg s unb old (min unb (length vd)) (take (nd - 1) d))"

definition mod_on_help_signed :: "int \<Rightarrow> nat \<Rightarrow> sc_digit list \<Rightarrow> sc_digit list \<Rightarrow> int \<times> sc_digit list" where
  "mod_on_help_signed = mod_on_help True"

definition mod_on_help_unsigned :: "int \<Rightarrow> nat \<Rightarrow> sc_digit list \<Rightarrow> sc_digit list \<Rightarrow> int \<times> sc_digit list" where
  "mod_on_help_unsigned = mod_on_help False"

definition mod_assign :: "bool \<Rightarrow> sc_big \<Rightarrow> sc_big \<Rightarrow> sc_big result" where
  "mod_assign sg u v =
     (if sgn_of u = SC_ZERO \<or> sgn_of v = SC_ZERO
      then bind_result (div_by_zero (sgn_of v)) (\<lambda>_. Inr (u\<lparr>digit := vec_zero 0 (digit u)\<rparr>))
      else Inr (set_to u ((if sg then mod_on_help_signed else mod_on_help_unsigned) (sgn_of u) (nbits u) (digit u) (digit v))))"

section \<open>Bitwise operators\<close>

text \<open>The second operand is cut off at the length of the first.\<close>

definition and_on_help :: "int \<Rightarrow> sc_digit list \<Rightarrow> int \<Rightarrow> sc_digit list \<Rightarrow> sc_digit list" where
  "and_on_help us ud vs vd = and_digits us ud vs (take (length ud) vd)"

definition or_on_help :: "int \<Rightarrow> sc_digit list \<Rightarrow> int \<Rightarrow> sc_digit list \<Rightarrow> sc_digit list" where
  "or_on_help us ud vs vd = or_digits us ud vs (take (length ud) vd)"

definition xor_on_help :: "int \<Rightarrow> sc_digit list \<Rightarrow> int \<Rightarrow> sc_digit list \<Rightarrow> sc_digit list" where
  "xor_on_help us ud vs vd = xor_digits us ud vs (take (length ud) vd)"

definition and_assign :: "bool \<Rightarrow> sc_big \<Rightarrow> sc_big \<Rightarrow> sc_big" where
  "and_assign sg u v =
     (if sgn_of u = SC_ZERO \<or> sgn_of v = SC_ZERO then set_to u (make_zero (digit u))
      else set_to u (convert_2C_to_SM sg (nbits u) (and_on_help (sgn_of u) (digit u) (sgn_of v) (digit v))))"

definition or_assign :: "bool \<Rightarrow> sc_big \<Rightarrow> sc_big \<Rightarrow> sc_big" where
  "or_assign sg u v =
     (if sgn_of v = SC_ZERO then u
      else if sgn_of u = SC_ZERO then assign_big sg u v
      else set_to u (convert_2C_to_SM sg (nbits u) (or_on_help (sgn_of u) (digit u) (sgn_of v) (digit v))))"

definition xor_assign :: "bool \<Rightarrow> sc_big \<Rightarrow> sc_big \<Rightarrow> sc_big" where
  "xor_assign sg u v =
     (if sgn_of v = SC_ZERO then u
      else if sgn_of u = SC_ZERO then assign_big sg u v
      else set_to u (convert_2C_to_SM sg (nbits u) (xor_on_help (sgn_of u) (digit u) (sgn_of v) (digit v))))"

section \<open>Shifts\<close>

definition shl_assign :: "bool \<Rightarrow> sc_big \<Rightarrow> u64 \<Rightarrow> sc_big" where
  "shl_assign sg u v =
     (if v = 0 \<or> sgn_of u = SC_ZERO then u
      else set_to u (convert_2C_to_SM sg (nbits u) (vec_shift_left (convert_SM_to_2C (sgn_of u) (digit u)) (shift_count v))))"

definition shr_assign :: "bool \<Rightarrow> sc_big \<Rightarrow> u64 \<Rightarrow> sc_big" where
  "shr_assign sg u v =
     (if v = 0 \<or> sgn_of u = SC_ZERO then u
      else set_to u (convert_2C_to_SM sg (nbits u)
        (vec_shift_right (convert_SM_to_2C (sgn_of u) (digit u)) (shift_count v) (if sgn_of u = SC_NEG then DIGIT_MASK else 0))))"

section \<open>Operands of built-in types\<close>

text \<open>
  \<open>get_sign\<close> and \<open>from_uint\<close> for a 64-bit integer; \<open>long\<close> is as wide as \<open>int64\<close>. The operand that the macros
  \<open>CONVERT_INT64\<close> and \<open>CONVERT_LONG\<close> set up is a sign and three digits, used with a width of 64 bits.
\<close>

definition get_sign :: "u64 \<Rightarrow> int \<times> u64" where
  "get_sign v = (if 0 < sint v then (SC_POS, v) else if v = 0 then (SC_ZERO, v) else (SC_NEG, - v))"

fun from_uint :: "nat \<Rightarrow> u64 \<Rightarrow> sc_digit list" where
  "from_uint 0 v = []"
| "from_uint (Suc n) v =
     (if v = 0 then replicate (Suc n) 0 else ucast (v AND ucast DIGIT_MASK) # from_uint n (drop_bit BITS_PER_DIGIT v))"

definition BITS_PER_UINT64 :: nat where "BITS_PER_UINT64 = 64"

definition DIGITS_PER_UINT64 :: nat where "DIGITS_PER_UINT64 = (BITS_PER_UINT64 + 29) div 30"

definition convert_int64 :: "u64 \<Rightarrow> sc_big" where
  "convert_int64 v = (let (s, w) = get_sign v
     in \<lparr>sgn_of = s, nbits = BITS_PER_UINT64, digit = from_uint DIGITS_PER_UINT64 w\<rparr>)"

definition convert_uint64 :: "u64 \<Rightarrow> sc_big" where
  "convert_uint64 v = \<lparr>sgn_of = (if v = 0 then SC_ZERO else SC_POS), nbits = BITS_PER_UINT64, digit = from_uint DIGITS_PER_UINT64 v\<rparr>"

definition assign_int64 :: "bool \<Rightarrow> sc_big \<Rightarrow> u64 \<Rightarrow> sc_big" where
  "assign_int64 sg u v = (let (s, w) = get_sign v
     in if s = SC_ZERO then set_to u (s, vec_zero 0 (digit u))
        else let d = from_uint (ndigits u) w
          in if sg \<and> BITS_PER_UINT64 < nbits u then set_to u (s, d) else set_to u (convert_SM_to_2C_to_SM sg s (nbits u) d))"

definition plus_int64 :: "bool \<Rightarrow> sc_big \<Rightarrow> u64 \<Rightarrow> sc_big" where
  "plus_int64 su u v =
     (if v = 0 then to_class True su u
      else let w = convert_int64 v
        in if sgn_of u = SC_ZERO then new_big True (sgn_of w) (nbits w) (digit w)
           else ADD_HELPER True (sgn_of u) (nbits u) (digit u) (sgn_of w) (nbits w) (digit w))"

definition incr_big :: "sc_big \<Rightarrow> sc_big" where
  "incr_big u = assign_big True u (plus_int64 True u 1)"

definition or_uint64 :: "sc_big \<Rightarrow> u64 \<Rightarrow> sc_big" where
  "or_uint64 u v =
     (if v = 0 then u
      else let w = convert_uint64 v
        in if sgn_of u = SC_ZERO then new_big True (sgn_of w) (nbits w) (digit w)
           else OR_HELPER True (sgn_of u) (nbits u) (digit u) (sgn_of w) (nbits w) (digit w))"

end
