(* ===== verification/Sc_Nb_Facts.thy ===== *)
theory Sc_Nb_Facts
  imports Sc_Nb
begin

text \<open>
  What the functions on digit vectors compute, as numbers: \<open>dval\<close> reads a vector in the radix $2^{30}$.
\<close>

section \<open>Vectors as numbers\<close>

definition radix :: nat where
  "radix = 2 ^ 30"

abbreviation dval :: "sc_digit list \<Rightarrow> nat" where
  "dval \<equiv> horner_sum unat radix"

definition digits_ok :: "sc_digit list \<Rightarrow> bool" where
  "digits_ok u \<longleftrightarrow> (\<forall>d\<in>set u. unat d < radix)"

lemma digits_ok_simps [simp]:
  "digits_ok []" "digits_ok (x # u) \<longleftrightarrow> unat x < radix \<and> digits_ok u" "digits_ok (u @ v) \<longleftrightarrow> digits_ok u \<and> digits_ok v"
  "digits_ok (rev u) = digits_ok u" "digits_ok (replicate n 0)"
  by (auto simp: digits_ok_def radix_def)

lemma digits_ok_part: "digits_ok u \<Longrightarrow> digits_ok (take n u)" "digits_ok u \<Longrightarrow> digits_ok (drop n u)"
  by (auto simp: digits_ok_def dest: in_set_takeD in_set_dropD)

lemma radix_pos [simp]: "0 < radix" "radix \<noteq> 0" "Suc 0 < radix" "0 < radix ^ n" "1 \<le> radix ^ n"
  by (simp_all add: radix_def)

lemma digit_bound: "a < m \<Longrightarrow> b < n \<Longrightarrow> a * n + b < m * (n :: nat)"
proof -
  assume ab: "a < m" "b < n"
  have "Suc a * n \<le> m * n" using ab(1) by (intro mult_le_mono1) simp
  then show ?thesis using ab(2) by simp
qed

lemma radix_power: "radix ^ k = 2 ^ (30 * k)"
  by (simp only: radix_def power_mult)

lemma dval_append: "dval (u @ v) = dval u + radix ^ length u * dval v"
  by (rule horner_sum_append)

lemma dval_zeros [simp]: "dval (replicate n 0) = 0"
  by (induction n) simp_all

lemma dval_less: "digits_ok u \<Longrightarrow> dval u < radix ^ length u"
proof (induction u)
  case (Cons x u)
  then have "unat x < radix" "Suc (dval u) \<le> radix ^ length u" by simp_all
  then have "unat x + radix * dval u < radix * Suc (dval u)" "radix * Suc (dval u) \<le> radix * radix ^ length u"
    by (simp_all del: mult_Suc_right) simp
  then show ?case by simp
qed simp

lemma dval_eq_0: "dval u = 0 \<longleftrightarrow> set u \<subseteq> {0}"
  by (induction u) (auto simp: unat_eq_0)

lemma dval_inject: "digits_ok u \<Longrightarrow> digits_ok v \<Longrightarrow> length u = length v \<Longrightarrow> dval u = dval v \<Longrightarrow> u = v"
proof (induction u arbitrary: v)
  case (Cons x u)
  then obtain y w where v: "v = y # w" by (cases v) simp_all
  have e: "unat x + radix * dval u = unat y + radix * dval w" "unat x < radix" "unat y < radix" using Cons.prems v by simp_all
  then have "unat x = unat y" by (metis mod_less mod_mult_self2)
  moreover from this have "x = y" by (rule unsigned_word_eqI)
  moreover have "0 < radix" by (simp add: radix_def)
  ultimately show ?case using e(1) Cons v by simp
qed simp

lemma take_drop_dval: "dval u = dval (take n u) + radix ^ min (length u) n * dval (drop n u)"
  using dval_append [of "take n u" "drop n u"] by simp

section \<open>Words of 32 bits\<close>

lemma unat_and_mask: "unat (x AND mask n) = unat x mod 2 ^ n" for x :: u32
  using unsigned_take_bit_eq [of n x, where ?'a = nat] by (simp only: take_bit_eq_mask [symmetric]) (simp only: take_bit_eq_mod)

lemma unat_drop: "unat (drop_bit n x) = unat x div 2 ^ n" for x :: u32
  by (rule trans [OF unat_drop_bit_eq drop_bit_eq_div])

lemma DIGIT_MASK_eq: "DIGIT_MASK = mask 30"
  by (simp add: DIGIT_MASK_def DIGIT_RADIX_def BITS_PER_DIGIT_def mask_eq_exp_minus_1)

lemma unat_mask [simp]: "unat (x AND DIGIT_MASK) = unat x mod radix"
  by (simp only: DIGIT_MASK_eq unat_and_mask radix_def)

lemma unat_shift [simp]: "unat (drop_bit BITS_PER_DIGIT x) = unat x div radix" for x :: u32
  by (simp only: BITS_PER_DIGIT_def radix_def unat_drop)

lemma unat_add_eq: "unat x + unat y < 2 ^ 32 \<Longrightarrow> unat (x + y) = unat x + unat y" for x y :: u32
  by (simp add: unat_word_ariths)

lemma unat_mult_eq: "unat x * unat y < 2 ^ 32 \<Longrightarrow> unat (x * y) = unat x * unat y" for x y :: u32
  by (simp add: unat_word_ariths)

section \<open>Addition\<close>

lemma add_along_ok:
  "digits_ok u \<Longrightarrow> digits_ok v \<Longrightarrow> length v \<le> length u \<Longrightarrow> unat c \<le> 1 \<Longrightarrow> add_along c u v = (w, c', r) \<Longrightarrow>
    r = drop (length v) u \<and> length w = length v \<and> digits_ok w \<and> unat c' \<le> 1 \<and>
    dval w + radix ^ length v * unat c' = unat c + dval (take (length v) u) + dval v"
proof (induction c u v arbitrary: w c' r rule: add_along.induct)
  case (3 c x u y v)
  let ?s = "c + (x + y)"
  obtain w1 where w1: "add_along (drop_bit BITS_PER_DIGIT ?s) u v = (w1, c', r)" "w = (?s AND DIGIT_MASK) # w1"
    using 3(6) by (auto simp: Let_def split: prod.splits)
  have xy: "unat x < radix" "unat y < radix" using 3(2,3) by simp_all
  have "unat (x + y) = unat x + unat y" using xy by (intro unat_add_eq) (simp add: radix_def)
  then have s: "unat ?s = unat c + (unat x + unat y)" using xy 3(5) by (subst unat_add_eq) (simp_all add: radix_def)
  have "unat ?s div radix \<le> 1" using xy 3(5) s by (auto simp: radix_def)
  then have ih: "r = drop (length v) u" "length w1 = length v" "digits_ok w1" "unat c' \<le> 1"
    "dval w1 + radix ^ length v * unat c' = unat ?s div radix + dval (take (length v) u) + dval v"
    using 3(1) [OF refl _ _ _ _ w1(1)] 3(2-4) by simp_all
  have "dval w + radix ^ length (y # v) * unat c' = unat ?s mod radix + radix * (dval w1 + radix ^ length v * unat c')"
    by (simp add: w1(2) algebra_simps)
  also have "\<dots> = unat ?s + radix * (dval (take (length v) u) + dval v)"
    unfolding ih(5) by (simp add: algebra_simps)
  finally show ?case using ih s by (simp add: w1(2) algebra_simps)
qed auto

lemma add_carry_ok:
  "digits_ok u \<Longrightarrow> unat c \<le> 1 \<Longrightarrow> add_carry c u = (w, c') \<Longrightarrow>
    length w = length u \<and> digits_ok w \<and> unat c' \<le> 1 \<and> dval w + radix ^ length u * unat c' = unat c + dval u"
proof (induction c u arbitrary: w c' rule: add_carry.induct)
  case (2 c x u)
  show ?case
  proof (cases "c = 0")
    case True
    then show ?thesis using 2 by auto
  next
    case False
    let ?s = "x + 1"
    obtain w1 where w1: "add_carry (drop_bit BITS_PER_DIGIT ?s) u = (w1, c')" "w = (?s AND DIGIT_MASK) # w1"
      using 2(4) False by (auto simp: Let_def split: prod.splits)
    have c: "unat c = 1" using False 2(3) unat_eq_0 [of c] by linarith
    have s: "unat ?s = unat x + 1" using 2(2) by (subst unat_add_eq) (simp_all add: radix_def)
    have "unat ?s div radix \<le> 1" using 2(2) s by (auto simp: radix_def)
    then have ih: "length w1 = length u" "digits_ok w1" "unat c' \<le> 1"
      "dval w1 + radix ^ length u * unat c' = unat ?s div radix + dval u"
      using 2(1) [OF False refl _ _ w1(1)] 2(2) by simp_all
    have "dval w + radix ^ length (x # u) * unat c' = unat ?s mod radix + radix * (dval w1 + radix ^ length u * unat c')"
      by (simp add: w1(2) algebra_simps)
    also have "\<dots> = unat ?s + radix * dval u" unfolding ih(4) by (simp add: algebra_simps)
    finally show ?thesis using ih s c by (simp add: w1(2))
  qed
qed auto

lemma dval_split: "length v \<le> length u \<Longrightarrow> dval u = dval (take (length v) u) + radix ^ length v * dval (drop (length v) u)"
  using take_drop_dval [of u "length v"] by (simp add: min_def)

lemma unat_bit: "unat c \<le> 1 \<Longrightarrow> unat c = (if c = 0 then 0 else 1)"
  using unat_eq_0 [of c] by (cases "unat c") auto

lemma add_both_ok:
  assumes "digits_ok u" "digits_ok v" "length v \<le> length u" "add_along 0 u v = (w, c, r)" "add_carry c r = (w', c')"
  shows "length (w @ w') = length u" "digits_ok (w @ w')" "unat c' \<le> 1"
    "dval (w @ w') + radix ^ length u * unat c' = dval u + dval v"
proof -
  have a: "r = drop (length v) u" "length w = length v" "digits_ok w" "unat c \<le> 1"
    "dval w + radix ^ length v * unat c = dval (take (length v) u) + dval v"
    using add_along_ok [OF assms(1-3) _ assms(4)] by simp_all
  have "digits_ok r" using assms(1) a(1) digits_ok_part by simp
  note b = add_carry_ok [OF this a(4) assms(5)]
  show "length (w @ w') = length u" "digits_ok (w @ w')" "unat c' \<le> 1" using a b assms(3) by simp_all
  have n: "radix ^ length u = radix ^ length v * radix ^ length r"
    using a(1) assms(3) by (simp add: power_add [symmetric])
  have "dval (w @ w') + radix ^ length u * unat c' = dval w + radix ^ length v * (dval w' + radix ^ length r * unat c')"
    using a(2) by (simp add: dval_append n algebra_simps)
  also have "\<dots> = dval w + radix ^ length v * unat c + radix ^ length v * dval r" using b by (simp add: algebra_simps)
  also have "\<dots> = dval u + dval v" unfolding a(5) using dval_split [OF assms(3)] a(1) by simp
  finally show "dval (w @ w') + radix ^ length u * unat c' = dval u + dval v" .
qed

lemma vec_add_ok:
  assumes "digits_ok u" "digits_ok v" "length v \<le> length u"
  shows "dval (vec_add u v) = dval u + dval v" "digits_ok (vec_add u v)" "length (vec_add u v) \<in> {length u, length u + 1}"
proof -
  obtain w c r where w: "add_along 0 u v = (w, c, r)" by (metis prod_cases3)
  obtain w' c' where w': "add_carry c r = (w', c')" by fastforce
  note b = add_both_ok [OF assms w w']
  have e: "vec_add u v = w @ w' @ (if c' \<noteq> 0 then [1] else [])" using w w' by (simp add: vec_add_def)
  have "dval ((w @ w') @ (if c' \<noteq> 0 then [1] else [])) = dval (w @ w') + radix ^ length u * unat c'"
    using unat_bit [OF b(3)] b(1) by (subst dval_append) auto
  then show "dval (vec_add u v) = dval u + dval v" using b(4) e by simp
  show "digits_ok (vec_add u v)" "length (vec_add u v) \<in> {length u, length u + 1}" using b(1,2) e by auto
qed

lemma dval_mod: "digits_ok w \<Longrightarrow> length w = n \<Longrightarrow> dval w + radix ^ n * c = x \<Longrightarrow> dval w = x mod radix ^ n"
proof -
  assume w: "digits_ok w" "length w = n" "dval w + radix ^ n * c = x"
  have "x mod radix ^ n = dval w mod radix ^ n" unfolding w(3) [symmetric] by (rule mod_mult_self2)
  then show ?thesis using dval_less [OF w(1)] w(2) by simp
qed

lemma vec_add_on_ok:
  assumes "digits_ok u" "digits_ok v" "length v \<le> length u"
  shows "dval (vec_add_on u v) = (dval u + dval v) mod radix ^ length u" "digits_ok (vec_add_on u v)"
    "length (vec_add_on u v) = length u"
proof -
  obtain w c r where w: "add_along 0 u v = (w, c, r)" by (metis prod_cases3)
  obtain w' c' where w': "add_carry c r = (w', c')" by fastforce
  note b = add_both_ok [OF assms w w']
  have e: "vec_add_on u v = w @ w'" using w w' by (simp add: vec_add_on_def)
  show "dval (vec_add_on u v) = (dval u + dval v) mod radix ^ length u" unfolding e by (rule dval_mod [OF b(2,1,4)])
  show "digits_ok (vec_add_on u v)" "length (vec_add_on u v) = length u" using b(1,2) e by simp_all
qed

lemma mod_take: "digits_ok v \<Longrightarrow> n \<le> length v \<Longrightarrow> dval v mod radix ^ n = dval (take n v)"
proof -
  assume v: "digits_ok v" "n \<le> length v"
  have "dval (take n v) + radix ^ n * dval (drop n v) = dval v"
    using take_drop_dval [of v n] v(2) by (simp add: min.absorb2)
  from dval_mod [OF digits_ok_part(1) [OF v(1)] _ this] show ?thesis using v(2) by simp
qed

lemma vec_add_on2_ok:
  assumes "digits_ok u" "digits_ok v" "length u \<le> length v"
  shows "dval (vec_add_on2 u v) = (dval u + dval v) mod radix ^ length u" "digits_ok (vec_add_on2 u v)"
    "length (vec_add_on2 u v) = length u"
proof -
  obtain w c r where w: "add_along 0 v u = (w, c, r)" by (metis prod_cases3)
  have a: "length w = length u" "digits_ok w" "dval w + radix ^ length u * unat c = dval (take (length u) v) + dval u"
    using add_along_ok [OF assms(2,1,3) _ w] by simp_all
  have "dval w = (dval (take (length u) v) + dval u) mod radix ^ length u" by (rule dval_mod [OF a(2,1,3)])
  also have "\<dots> = (dval v + dval u) mod radix ^ length u"
    by (simp only: mod_take [OF assms(2,3), symmetric] mod_add_left_eq)
  finally show "dval (vec_add_on2 u v) = (dval u + dval v) mod radix ^ length u" by (simp add: vec_add_on2_def w add.commute)
  show "digits_ok (vec_add_on2 u v)" "length (vec_add_on2 u v) = length u" using a by (simp_all add: vec_add_on2_def w)
qed

lemma vec_add_small_ok:
  assumes "digits_ok u" "u \<noteq> []" "unat v < radix"
  shows "dval (vec_add_small u v) = dval u + unat v" "digits_ok (vec_add_small u v)"
proof -
  obtain x r where u: "u = x # r" using assms(2) by (cases u) auto
  let ?s = "x + v"
  obtain w c where w: "add_carry (drop_bit BITS_PER_DIGIT ?s) r = (w, c)" by fastforce
  have s: "unat ?s = unat x + unat v" using assms(1,3) u by (intro unat_add_eq) (simp add: radix_def)
  have "unat ?s div radix \<le> 1" using assms(1,3) u s by (auto simp: radix_def)
  then have a: "length w = length r" "digits_ok w" "unat c \<le> 1" "dval w + radix ^ length r * unat c = unat ?s div radix + dval r"
    using add_carry_ok [OF _ _ w] assms(1) u by simp_all
  have e: "vec_add_small u v = (?s AND DIGIT_MASK) # w @ (if c \<noteq> 0 then [1] else [])" using w u by (simp add: vec_add_small_def)
  have "dval (w @ (if c \<noteq> 0 then [1] else [])) = dval w + radix ^ length r * unat c"
    using unat_bit [OF a(3)] a(1) by (subst dval_append) auto
  then have "dval (vec_add_small u v) = unat ?s mod radix + radix * (unat ?s div radix + dval r)" using e a(4) by simp
  then show "dval (vec_add_small u v) = dval u + unat v" using s u by (simp add: algebra_simps)
  show "digits_ok (vec_add_small u v)" using a(2) e by simp
qed

lemma vec_add_small_on_ok:
  "digits_ok u \<Longrightarrow> unat v < radix \<Longrightarrow> dval (vec_add_small_on u v) = (dval u + unat v) mod radix ^ length u \<and>
    digits_ok (vec_add_small_on u v) \<and> length (vec_add_small_on u v) = length u"
proof (induction u v rule: vec_add_small_on.induct)
  case (2 x u v)
  show ?case
  proof (cases "v = 0")
    case True
    then show ?thesis using 2 dval_less [of "x # u"] by simp
  next
    case False
    let ?s = "v + x"
    have s: "unat ?s = unat v + unat x" using 2 by (intro unat_add_eq) (simp add: radix_def)
    have "unat ?s div radix < radix" using 2 s by (auto simp: radix_def)
    then have ih: "dval (vec_add_small_on u (drop_bit BITS_PER_DIGIT ?s)) = (dval u + unat ?s div radix) mod radix ^ length u"
      "digits_ok (vec_add_small_on u (drop_bit BITS_PER_DIGIT ?s))"
      "length (vec_add_small_on u (drop_bit BITS_PER_DIGIT ?s)) = length u"
      using 2 False by simp_all
    have "unat ?s mod radix + radix * ((dval u + unat ?s div radix) mod radix ^ length u) =
        (unat ?s + radix * dval u) mod radix ^ length (x # u)"
      using mod_mult2_eq [of "unat ?s + radix * dval u" radix "radix ^ length u"] by (simp add: add.commute)
    then show ?thesis using ih s False by (simp add: add_ac Let_def)
  qed
qed simp

section \<open>Subtraction\<close>

lemma unat_RADIX: "unat DIGIT_RADIX = radix"
  by (simp add: DIGIT_RADIX_def BITS_PER_DIGIT_def radix_def)

lemma unat_sub_eq: "unat y \<le> unat x \<Longrightarrow> unat (x - y) = unat x - unat y" for x y :: u32
  by (simp add: unat_sub word_le_nat_alt)

lemma borrow_step:
  assumes "unat x < radix" "unat y < radix" "unat b \<le> 1"
  defines "s \<equiv> (x + DIGIT_RADIX) - y - b"
  shows "unat s + unat y + unat b = unat x + radix" "unat (next_borrow s) + unat s div radix = 1"
    "unat s mod radix + unat y + unat b = unat x + radix * unat (next_borrow s)"
proof -
  have x: "unat (x + DIGIT_RADIX) = unat x + radix" using assms(1) unat_RADIX by (subst unat_add_eq) (simp_all add: radix_def)
  then have xy: "unat (x + DIGIT_RADIX - y) = unat x + radix - unat y" using assms(2) by (subst unat_sub_eq) simp_all
  have "unat s = unat x + radix - unat y - unat b"
    unfolding s_def using xy assms(2,3) by (subst unat_sub_eq) simp_all
  then show s: "unat s + unat y + unat b = unat x + radix" using assms(2,3) by simp
  then have d: "unat s div radix \<le> 1" using assms(1) by (auto simp: radix_def)
  have "unat (next_borrow s) = 1 - unat s div radix"
    using d unfolding next_borrow_def by (subst unat_sub_eq) simp_all
  then show n: "unat (next_borrow s) + unat s div radix = 1" using d by simp
  have "unat s = unat s mod radix + radix * (unat s div radix)" by simp
  moreover have "radix * unat (next_borrow s) + radix * (unat s div radix) = radix"
    using n by (metis distrib_left mult.right_neutral)
  ultimately show "unat s mod radix + unat y + unat b = unat x + radix * unat (next_borrow s)" using s by linarith
qed

lemma sub_along_ok:
  "digits_ok u \<Longrightarrow> digits_ok v \<Longrightarrow> length v \<le> length u \<Longrightarrow> unat b \<le> 1 \<Longrightarrow> sub_along b u v = (w, b', r) \<Longrightarrow>
    r = drop (length v) u \<and> length w = length v \<and> digits_ok w \<and> unat b' \<le> 1 \<and>
    dval w + dval v + unat b = dval (take (length v) u) + radix ^ length v * unat b'"
proof (induction b u v arbitrary: w b' r rule: sub_along.induct)
  case (3 b x u y v)
  let ?s = "(x + DIGIT_RADIX) - y - b"
  obtain w1 where w1: "sub_along (next_borrow ?s) u v = (w1, b', r)" "w = (?s AND DIGIT_MASK) # w1"
    using 3(6) by (auto simp: Let_def split: prod.splits)
  have xy: "unat x < radix" "unat y < radix" "unat b \<le> 1" using 3(2,3,5) by simp_all
  note s = borrow_step [OF xy]
  have "unat (next_borrow ?s) \<le> 1" using s(2) by linarith
  then have ih: "r = drop (length v) u" "length w1 = length v" "digits_ok w1" "unat b' \<le> 1"
    "dval w1 + dval v + unat (next_borrow ?s) = dval (take (length v) u) + radix ^ length v * unat b'"
    using 3(1) [OF refl _ _ _ _ w1(1)] 3(2-4) by simp_all
  have "dval w + dval (y # v) + unat b = (unat ?s mod radix + unat y + unat b) + radix * (dval w1 + dval v)"
    by (simp add: w1(2) algebra_simps)
  also have "\<dots> = unat x + radix * (dval w1 + dval v + unat (next_borrow ?s))"
    unfolding s(3) by (simp add: algebra_simps)
  also have "\<dots> = dval (take (length (y # v)) (x # u)) + radix ^ length (y # v) * unat b'"
    unfolding ih(5) by (simp add: algebra_simps)
  finally show ?case using ih by (simp add: w1(2))
qed auto

lemma sub_borrow_ok:
  "digits_ok u \<Longrightarrow> unat b \<le> 1 \<Longrightarrow> digits_ok (sub_borrow b u) \<and> length (sub_borrow b u) = length u \<and>
    (\<exists>b'. b' \<le> 1 \<and> dval (sub_borrow b u) + unat b = dval u + radix ^ length u * b')"
proof (induction b u rule: sub_borrow.induct)
  case (2 b x u)
  show ?case
  proof (cases "b = 0")
    case True
    then show ?thesis using 2(2) by (auto intro: exI [of _ 0])
  next
    case False
    let ?s = "(x + DIGIT_RADIX) - 1"
    have b: "unat b = 1" using False unat_bit [OF 2(3)] by simp
    have xy: "unat x < radix" "unat (1 :: u32) < radix" "unat (0 :: u32) \<le> 1" using 2(2) by simp_all
    have s: "unat (next_borrow ?s) + unat ?s div radix = 1" "unat ?s mod radix + 1 = unat x + radix * unat (next_borrow ?s)"
      using borrow_step [OF xy] by simp_all
    have "unat (next_borrow ?s) \<le> 1" using s(1) by linarith
    then obtain b' where ih: "digits_ok (sub_borrow (next_borrow ?s) u)" "length (sub_borrow (next_borrow ?s) u) = length u"
      "b' \<le> 1" "dval (sub_borrow (next_borrow ?s) u) + unat (next_borrow ?s) = dval u + radix ^ length u * b'"
      using 2(1) [OF False refl] 2(2) by auto
    have "dval (sub_borrow b (x # u)) + unat b = (unat ?s mod radix + 1) + radix * dval (sub_borrow (next_borrow ?s) u)"
      using False b by (simp add: Let_def)
    also have "\<dots> = unat x + radix * (dval (sub_borrow (next_borrow ?s) u) + unat (next_borrow ?s))"
      unfolding s(2) by (simp add: algebra_simps)
    also have "\<dots> = dval (x # u) + radix ^ length (x # u) * b'" unfolding ih(4) by (simp add: algebra_simps)
    finally show ?thesis using ih False by (auto simp: Let_def)
  qed
qed (auto intro: exI [of _ 1])

lemma no_wrap:
  assumes "a < r" "a + v = u + r * b" "v \<le> (u :: nat)"
  shows "b = 0"
proof (rule ccontr)
  assume "b \<noteq> 0"
  then have "r \<le> r * b" by simp
  then show False using assms by linarith
qed

lemma sub_both_ok:
  assumes "digits_ok u" "digits_ok v" "length v \<le> length u" "dval v \<le> dval u" "sub_along 0 u v = (w, b, r)"
  shows "dval (w @ sub_borrow b r) = dval u - dval v" "digits_ok (w @ sub_borrow b r)" "length (w @ sub_borrow b r) = length u"
proof -
  have a: "r = drop (length v) u" "length w = length v" "digits_ok w" "unat b \<le> 1"
    "dval w + dval v = dval (take (length v) u) + radix ^ length v * unat b"
    using sub_along_ok [OF assms(1-3) _ assms(5)] by simp_all
  have "digits_ok r" using assms(1) a(1) digits_ok_part by simp
  from sub_borrow_ok [OF this a(4)] obtain b' where b: "digits_ok (sub_borrow b r)" "length (sub_borrow b r) = length r"
    "dval (sub_borrow b r) + unat b = dval r + radix ^ length r * b'" by blast
  have n: "radix ^ length u = radix ^ length v * radix ^ length r" using a(1) assms(3) by (simp add: power_add [symmetric])
  let ?w = "w @ sub_borrow b r"
  have "dval ?w + dval v = dval (take (length v) u) + radix ^ length v * (dval (sub_borrow b r) + unat b)"
    using a(2,5) by (simp add: dval_append algebra_simps)
  also have "\<dots> = dval u + radix ^ length u * b'"
    unfolding b(3) n using dval_split [OF assms(3)] a(1) by (simp add: algebra_simps)
  finally have e: "dval ?w + dval v = dval u + radix ^ length u * b'" .
  show ok: "digits_ok ?w" "length ?w = length u" using a b assms(3) by simp_all
  have "b' = 0" by (rule no_wrap [OF _ e assms(4)]) (use dval_less [OF ok(1)] ok(2) in simp)
  then show "dval ?w = dval u - dval v" using e by simp
qed

lemma vec_sub_ok:
  assumes "digits_ok u" "digits_ok v" "length v \<le> length u" "dval v \<le> dval u"
  shows "dval (vec_sub u v) = dval u - dval v" "digits_ok (vec_sub u v)" "length (vec_sub u v) = length u"
    "vec_sub_on u v = vec_sub u v"
proof -
  obtain w b r where w: "sub_along 0 u v = (w, b, r)" by (metis prod_cases3)
  show "dval (vec_sub u v) = dval u - dval v" "digits_ok (vec_sub u v)" "length (vec_sub u v) = length u"
    using sub_both_ok [OF assms w] by (simp_all add: vec_sub_def w)
  show "vec_sub_on u v = vec_sub u v" by (simp add: vec_sub_on_def vec_sub_def)
qed

lemma vec_sub_on2_ok:
  assumes "digits_ok u" "digits_ok v" "dval u \<le> dval v"
  shows "dval (vec_sub_on2 u v) = (dval v - dval u) mod radix ^ length u" "digits_ok (vec_sub_on2 u v)"
    "length (vec_sub_on2 u v) = length u"
proof -
  define n where "n = min (length u) (length v)"
  obtain w b r where w: "sub_along 0 v (take n u) = (w, b, r)" by (metis prod_cases3)
  have l: "length (take n u) = n" by (simp add: n_def)
  have a: "length w = n" "digits_ok w" "dval w + dval (take n u) = dval (take n v) + radix ^ n * unat b"
    using sub_along_ok [OF assms(2) digits_ok_part(1) [OF assms(1)] _ _ w] l by (simp_all add: n_def)
  have e: "vec_sub_on2 u v = w @ drop n u" by (simp add: vec_sub_on2_def n_def [symmetric] w)
  show "digits_ok (vec_sub_on2 u v)" "length (vec_sub_on2 u v) = length u"
    using a digits_ok_part(2) [OF assms(1)] by (simp_all add: e n_def)
  show "dval (vec_sub_on2 u v) = (dval v - dval u) mod radix ^ length u"
  proof (cases "length u \<le> length v")
    case True
    then have n: "n = length u" by (simp add: n_def)
    have v: "dval v = dval (take n v) + radix ^ n * dval (drop n v)" using take_drop_dval [of v n] True n by (simp add: min_def)
    have "int (dval w) = int (dval v - dval u) + int (radix ^ n) * (int (unat b) - int (dval (drop n v)))"
    proof -
      have "int (dval w) + int (dval u) = int (dval (take n v)) + int (radix ^ n) * int (unat b)"
        using a(3) n by (metis of_nat_add of_nat_mult order_refl take_all)
      moreover have "int (dval v) = int (dval (take n v)) + int (radix ^ n) * int (dval (drop n v))"
        using v by (metis of_nat_add of_nat_mult)
      ultimately show ?thesis using assms(3) by (simp only: of_nat_diff) algebra
    qed
    then have "int (dval w) mod int (radix ^ n) = int (dval v - dval u) mod int (radix ^ n)" by simp
    then have "dval w mod radix ^ n = (dval v - dval u) mod radix ^ n" by (simp only: zmod_int [symmetric] of_nat_eq_iff)
    moreover have "dval w < radix ^ n" using dval_less [OF a(2)] a(1) by simp
    ultimately show ?thesis using e n by simp
  next
    case False
    then have n: "n = length v" "take n v = v" by (simp_all add: n_def)
    have vn: "dval v < radix ^ n" using dval_less [OF assms(2)] n by simp
    have u: "dval u = dval (take n u) + radix ^ n * dval (drop n u)" using take_drop_dval [of u n] False n by (simp add: min_def)
    have "dval (drop n u) = 0"
    proof (rule ccontr)
      assume "dval (drop n u) \<noteq> 0"
      then have "radix ^ n \<le> radix ^ n * dval (drop n u)" by simp
      then show False using u vn assms(3) by linarith
    qed
    then have du: "dval (take n u) = dval u" "dval (w @ drop n u) = dval w" using u a(1) by (simp_all add: dval_append)
    have wn: "dval w < radix ^ n" using dval_less [OF a(2)] a(1) by simp
    have e': "dval w + dval u = dval v + radix ^ n * unat b" using a(3) du(1) n(2) by simp
    have "unat b = 0" by (rule no_wrap [OF wn e' assms(3)])
    then have "dval w = dval v - dval u" using a(3) du(1) n(2) by simp
    moreover have "radix ^ n \<le> radix ^ length u" using False n by (simp add: power_increasing)
    then have "dval w < radix ^ length u" using wn by (rule less_le_trans [rotated])
    ultimately show ?thesis using e du(2) by simp
  qed
qed

lemma vec_sub_small_ok:
  assumes "digits_ok u" "unat v < radix" "unat v \<le> dval u"
  shows "dval (vec_sub_small_on u v) = dval u - unat v" "digits_ok (vec_sub_small_on u v)" "length (vec_sub_small_on u v) = length u"
proof -
  have "digits_ok (vec_sub_small_on u v) \<and> length (vec_sub_small_on u v) = length u \<and>
      (\<exists>b. dval (vec_sub_small_on u v) + unat v = dval u + radix ^ length u * b)" if "digits_ok u" "unat v < radix" for u v
    using that
  proof (induction u v rule: vec_sub_small_on.induct)
    case (2 x u v)
    let ?s = "(x + DIGIT_RADIX) - v"
    have xy: "unat x < radix" "unat v < radix" "unat (0 :: u32) \<le> 1" using 2(2,3) by simp_all
    have s: "unat (next_borrow ?s) + unat ?s div radix = 1" "unat ?s mod radix + unat v = unat x + radix * unat (next_borrow ?s)"
      using borrow_step [OF xy] by simp_all
    have "unat (next_borrow ?s) < radix" using s(1) by (simp add: radix_def)
    then obtain b where b: "digits_ok (vec_sub_small_on u (next_borrow ?s))" "length (vec_sub_small_on u (next_borrow ?s)) = length u"
      "dval (vec_sub_small_on u (next_borrow ?s)) + unat (next_borrow ?s) = dval u + radix ^ length u * b"
      using 2(1) [OF refl] 2(2) by auto
    have "dval (vec_sub_small_on (x # u) v) + unat v =
        (unat ?s mod radix + unat v) + radix * dval (vec_sub_small_on u (next_borrow ?s))" by (simp add: Let_def)
    also have "\<dots> = unat x + radix * (dval (vec_sub_small_on u (next_borrow ?s)) + unat (next_borrow ?s))"
      unfolding s(2) by (simp add: algebra_simps)
    also have "\<dots> = dval (x # u) + radix ^ length (x # u) * b" unfolding b(3) by (simp add: algebra_simps)
    finally show ?case using b by (auto simp: Let_def)
  qed (auto intro: exI [of _ "unat v"])
  from this [OF assms(1,2)] obtain b where b: "digits_ok (vec_sub_small_on u v)" "length (vec_sub_small_on u v) = length u"
    "dval (vec_sub_small_on u v) + unat v = dval u + radix ^ length u * b" by blast
  show "digits_ok (vec_sub_small_on u v)" "length (vec_sub_small_on u v) = length u" using b by simp_all
  have "b = 0" by (rule no_wrap [OF _ b(3) assms(3)]) (use dval_less [OF b(1)] b(2) in simp)
  then show "dval (vec_sub_small_on u v) = dval u - unat v" using b(3) by simp
qed

section \<open>Complement, comparison and zero\<close>

lemma unat_not_mask: "unat x < radix \<Longrightarrow> unat (NOT x AND DIGIT_MASK) = radix - 1 - unat x"
proof -
  assume x: "unat x < radix"
  have "unat (NOT x) = 2 ^ 32 - 1 - unat x"
  proof -
    have "NOT x = - 1 - x" by (simp add: not_eq_complement)
    moreover have "unat (- 1 :: u32) = 2 ^ 32 - 1" by (simp only: unsigned_minus_1_eq_mask mask_eq_exp_minus_1) simp
    ultimately show ?thesis using unat_sub_eq [of x "- 1"] word_order.extremum [of x] by (simp add: word_le_nat_alt)
  qed
  also have "\<dots> = 3 * radix + (radix - 1 - unat x)" using x by (simp add: radix_def)
  finally have "unat (NOT x) mod radix = (radix - 1 - unat x) mod radix" by simp
  then show ?thesis using x by simp
qed

lemma complement_loop_ok:
  "digits_ok u \<Longrightarrow> unat c \<le> 1 \<Longrightarrow> digits_ok (complement_loop c u) \<and> length (complement_loop c u) = length u \<and>
    (\<exists>k. dval (complement_loop c u) + dval u + 1 + radix ^ length u * k = radix ^ length u + unat c)"
proof (induction c u rule: complement_loop.induct)
  case (2 c d u)
  let ?c = "c + (NOT d AND DIGIT_MASK)"
  have d: "unat d < radix" "digits_ok u" "unat c \<le> 1" using 2(2,3) by simp_all
  have c: "unat ?c = unat c + (radix - 1 - unat d)"
    using d unat_not_mask [OF d(1)] by (subst unat_add_eq) (simp_all add: radix_def)
  have "unat ?c div radix \<le> 1" using c d(3) by (auto simp: radix_def)
  then obtain k where ih: "digits_ok (complement_loop (drop_bit BITS_PER_DIGIT ?c) u)"
    "length (complement_loop (drop_bit BITS_PER_DIGIT ?c) u) = length u"
    "dval (complement_loop (drop_bit BITS_PER_DIGIT ?c) u) + dval u + 1 + radix ^ length u * k =
      radix ^ length u + unat ?c div radix" using 2(1) [OF refl d(2)] by auto
  have "dval (complement_loop c (d # u)) + dval (d # u) + 1 + radix ^ length (d # u) * k =
      unat ?c mod radix + unat d + 1 +
      radix * (dval (complement_loop (drop_bit BITS_PER_DIGIT ?c) u) + dval u + 1 + radix ^ length u * k) - radix"
    by (simp add: Let_def algebra_simps)
  also have "\<dots> = unat ?c + unat d + 1 + radix ^ length (d # u) - radix"
    unfolding ih(3) by (simp add: algebra_simps)
  also have "\<dots> = radix ^ length (d # u) + unat c" using c d(1) by simp
  finally show ?case using ih(1,2) by (auto simp: Let_def)
qed simp

lemma vec_complement_ok:
  assumes "digits_ok u"
  shows "int (dval (vec_complement u)) = - int (dval u) mod int (radix ^ length u)" "digits_ok (vec_complement u)"
    "length (vec_complement u) = length u"
proof -
  from complement_loop_ok [OF assms, of 1] obtain k where k: "digits_ok (vec_complement u)" "length (vec_complement u) = length u"
    "dval (vec_complement u) + dval u + radix ^ length u * k = radix ^ length u" by (auto simp: vec_complement_def)
  show "digits_ok (vec_complement u)" "length (vec_complement u) = length u" using k by simp_all
  have "int (dval (vec_complement u)) + int (dval u) + int (radix ^ length u) * int k = int (radix ^ length u)"
    using k(3) by (metis of_nat_add of_nat_mult)
  then have "int (dval (vec_complement u)) = - int (dval u) + int (radix ^ length u) * (1 - int k)" by (simp add: right_diff_distrib)
  then have "int (dval (vec_complement u)) mod int (radix ^ length u) = - int (dval u) mod int (radix ^ length u)"
    by (simp only: mod_mult_self2)
  moreover have "int (dval (vec_complement u)) < int (radix ^ length u)" using dval_less [OF k(1)] k(2) by simp
  ultimately show "int (dval (vec_complement u)) = - int (dval u) mod int (radix ^ length u)" by simp
qed

lemma skip_zeros_le: "skip_zeros ds \<le> length ds"
  by (induction ds) auto

lemma skip_zeros_suffix: "drop (length ds - skip_zeros ds) ds = dropWhile (\<lambda>d. d = 0) ds"
proof (induction ds)
  case (Cons d ds)
  show ?case
  proof (cases "d = 0")
    case True
    have "Suc (length ds) - skip_zeros ds = Suc (length ds - skip_zeros ds)" using skip_zeros_le [of ds] by simp
    then show ?thesis using True Cons by simp
  qed simp
qed simp

lemma vec_skip_eq: "vec_skip_leading_zeros u = skip_zeros (rev u)"
  by (simp add: vec_skip_leading_zeros_def vec_find_first_nonzero_def)

lemma skipped_eq: "skipped u = rev (dropWhile (\<lambda>d. d = 0) (rev u))"
  using skip_zeros_suffix [of "rev u"] skip_zeros_le [of "rev u"] by (simp add: skipped_def vec_skip_eq drop_rev rev_swap)

lemma skipped_ok:
  "dval (skipped u) = dval u" "digits_ok u \<Longrightarrow> digits_ok (skipped u)" "skipped u = [] \<longleftrightarrow> dval u = 0"
  "skipped u \<noteq> [] \<Longrightarrow> last (skipped u) \<noteq> 0" "length (skipped u) = vec_skip_leading_zeros u" "length (skipped u) \<le> length u"
proof -
  let ?z = "takeWhile (\<lambda>d. d = 0) (rev u)"
  have z: "?z = replicate (length ?z) 0"
    by (intro replicate_eqI refl) (auto dest: set_takeWhileD)
  have "u = rev (?z @ dropWhile (\<lambda>d. d = 0) (rev u))" by simp
  then have u: "u = skipped u @ replicate (length ?z) 0" using z unfolding skipped_eq rev_append by (metis rev_replicate)
  show "dval (skipped u) = dval u" by (subst (2) u) (simp add: dval_append)
  show "digits_ok u \<Longrightarrow> digits_ok (skipped u)" by (simp add: skipped_def digits_ok_part)
  show last: "skipped u \<noteq> [] \<Longrightarrow> last (skipped u) \<noteq> 0"
    using hd_dropWhile [of "\<lambda>d. d = 0" "rev u"] by (simp add: skipped_eq last_rev)
  have "skipped u \<noteq> [] \<Longrightarrow> dval (skipped u) \<noteq> 0"
    using last unfolding dval_eq_0 by (metis last_in_set singletonD subsetD)
  then show "skipped u = [] \<longleftrightarrow> dval u = 0" using \<open>dval (skipped u) = dval u\<close> by (metis horner_sum_simps(1))
  show "length (skipped u) = vec_skip_leading_zeros u" "length (skipped u) \<le> length u"
    using skip_zeros_le [of "rev u"] by (simp_all add: skipped_def vec_skip_eq)
qed

text \<open>A vector without leading zeros is at least the power of the radix below its length.\<close>

lemma dval_ge: "u \<noteq> [] \<Longrightarrow> last u \<noteq> 0 \<Longrightarrow> radix ^ (length u - 1) \<le> dval u"
proof (induction u rule: rev_induct)
  case (snoc x u)
  then have "radix ^ length u \<le> radix ^ length u * unat x" using unat_eq_0 [of x] by simp
  then have "radix ^ length u \<le> dval (u @ [x])" unfolding dval_append by (simp add: trans_le_add2)
  then show ?case by simp
qed simp

lemma dval_length_less:
  assumes "digits_ok u" "v \<noteq> []" "last v \<noteq> 0" "length u < length v"
  shows "dval u < dval v"
proof -
  have "dval u < radix ^ length u" by (rule dval_less [OF assms(1)])
  also have "\<dots> \<le> radix ^ (length v - 1)" by (rule power_increasing) (use assms(4) in \<open>simp_all add: radix_def\<close>)
  also have "\<dots> \<le> dval v" by (rule dval_ge [OF assms(2,3)])
  finally show ?thesis .
qed

lemma sint_digit_diff:
  fixes x y :: u32
  assumes "unat x < radix" "unat y < radix"
  shows "sint (x - y) = int (unat x) - int (unat y)"
proof -
  have "uint (x - y) = take_bit 32 (int (unat x) - int (unat y))" by (simp add: uint_word_ariths take_bit_eq_mod)
  then have "sint (x - y) = signed_take_bit 31 (take_bit 32 (int (unat x) - int (unat y)))" by (simp only: sint_uint) simp
  also have "\<dots> = signed_take_bit 31 (int (unat x) - int (unat y))" by (simp only: signed_take_bit_take_bit) simp
  also have "\<dots> = int (unat x) - int (unat y)"
    using assms by (intro signed_take_bit_int_eq_self) (simp_all add: radix_def del: of_nat_unat)
  finally show ?thesis .
qed

lemma cmp_down_ok:
  "length xs = length ys \<Longrightarrow> digits_ok xs \<Longrightarrow> digits_ok ys \<Longrightarrow>
    sgn (cmp_down xs ys) = sgn (int (dval (rev xs)) - int (dval (rev ys)))"
proof (induction xs ys rule: cmp_down.induct)
  case (1 x xs y ys)
  let ?R = "radix ^ length xs"
  have e: "dval (rev (x # xs)) = dval (rev xs) + ?R * unat x" "dval (rev (y # ys)) = dval (rev ys) + ?R * unat y"
    using 1(2) by (simp_all add: dval_append)
  show ?case
  proof (cases "x = y")
    case True
    then show ?thesis using 1 e by simp
  next
    case False
    have b: "dval (rev xs) < ?R" "dval (rev ys) < ?R" using dval_less [of "rev xs"] dval_less [of "rev ys"] 1(2-4) by simp_all
    have "unat x \<noteq> unat y" using False unsigned_word_eqI by blast
    then consider "unat x < unat y" | "unat y < unat x" by linarith
    then show ?thesis
    proof cases
      case 1
      then have "?R * Suc (unat x) \<le> ?R * unat y" by (intro mult_le_mono2) simp
      then have "dval (rev (x # xs)) < dval (rev (y # ys))" using e b unfolding mult_Suc_right by linarith
      then show ?thesis using False 1 "1.prems" sint_digit_diff [of x y] by (simp add: sgn_if del: of_nat_unat)
    next
      case 2
      then have "?R * Suc (unat y) \<le> ?R * unat x" by (intro mult_le_mono2) simp
      then have "dval (rev (y # ys)) < dval (rev (x # xs))" using e b unfolding mult_Suc_right by linarith
      then show ?thesis using False 2 "1.prems" sint_digit_diff [of x y] by (simp add: sgn_if del: of_nat_unat)
    qed
  qed
qed auto

lemma vec_cmp_ok:
  assumes "digits_ok u" "digits_ok v"
  shows "sgn (vec_cmp (skipped u) (skipped v)) = sgn (int (dval u) - int (dval v))"
proof -
  have ok: "digits_ok (skipped u)" "digits_ok (skipped v)" using assms skipped_ok(2) by blast+
  consider "length (skipped u) < length (skipped v)" | "length (skipped v) < length (skipped u)"
    | "length (skipped u) = length (skipped v)" by linarith
  then show ?thesis
  proof cases
    case 1
    then have "skipped v \<noteq> []" by auto
    then have "dval (skipped u) < dval (skipped v)" using dval_length_less [OF ok(1)] skipped_ok(4) 1 by blast
    then show ?thesis using 1 skipped_ok(1) by (simp add: vec_cmp_def sgn_if)
  next
    case 2
    then have "skipped u \<noteq> []" by auto
    then have "dval (skipped v) < dval (skipped u)" using dval_length_less [OF ok(2)] skipped_ok(4) 2 by blast
    then show ?thesis using 2 skipped_ok(1) by (simp add: vec_cmp_def sgn_if)
  next
    case 3
    then show ?thesis using cmp_down_ok [of "rev (skipped u)" "rev (skipped v)"] ok skipped_ok(1) by (simp add: vec_cmp_def)
  qed
qed

end
