(* ===== verification/Sc_Nb_Mul.thy ===== *)
theory Sc_Nb_Mul
  imports Sc_Nb_Facts
begin

text \<open>
  Multiplication of digit vectors, and their division by a half digit: the arithmetic with half digits
  stays within 32 bits and is exact.
\<close>

section \<open>Half digits\<close>

definition half :: nat where
  "half = 2 ^ 15"

lemma radix_half: "radix = half * half"
  by (simp add: radix_def half_def)

lemma half_pos [simp]: "0 < half" "half \<noteq> 0"
  by (simp_all add: half_def)

lemma BITS_PER_HALF_DIGIT_eq: "BITS_PER_HALF_DIGIT = 15"
  by (simp add: BITS_PER_HALF_DIGIT_def BITS_PER_DIGIT_def)

lemma unat_low_half [simp]: "unat (low_half x) = unat x mod half"
proof -
  have "HALF_DIGIT_MASK = mask 15"
    by (simp add: HALF_DIGIT_MASK_def HALF_DIGIT_RADIX_def BITS_PER_HALF_DIGIT_eq mask_eq_exp_minus_1)
  then show ?thesis using unat_and_mask [of x 15] by (simp only: low_half_def half_def)
qed

lemma unat_high_half [simp]: "unat (high_half x) = unat x div half"
  unfolding high_half_def half_def BITS_PER_HALF_DIGIT_eq by (rule unat_drop)

lemma nat_push_or: "l < 2 ^ n \<Longrightarrow> push_bit n h OR l = h * 2 ^ n + (l :: nat)"
proof -
  assume l: "l < 2 ^ n"
  have "push_bit n h AND l = 0"
  proof (rule bit_eqI)
    fix m show "bit (push_bit n h AND l) m = bit 0 m"
      using l by (auto simp: bit_simps) (metis bit_take_bit_iff not_less take_bit_nat_eq_self)
  qed
  then show ?thesis using disjunctive_add_eq_or [of "push_bit n h" l] by (simp add: push_bit_eq_mult)
qed

lemma unat_push_or:
  fixes h l :: u32
  assumes "unat l < 2 ^ n" "unat h * 2 ^ n < 2 ^ 32"
  shows "unat (push_bit n h OR l) = unat h * 2 ^ n + unat l"
proof -
  have "unat (push_bit n h) = push_bit n (unat h)"
    using assms(2) unsigned_push_bit_eq [of n h, where ?'a = nat] by (simp add: take_bit_nat_eq_self push_bit_eq_mult)
  then show ?thesis using nat_push_or [OF assms(1)] by (simp add: unsigned_or_eq)
qed

lemma unat_concat [simp]: "unat h < half \<Longrightarrow> unat l < half \<Longrightarrow> unat (concat_halves h l) = unat h * half + unat l"
  unfolding concat_halves_def BITS_PER_HALF_DIGIT_eq half_def by (rule unat_push_or) simp_all

section \<open>Multiplication\<close>

text \<open>The carry of half digits, over the numbers.\<close>

lemma mul_halves:
  fixes a b c d :: nat
  assumes "l = w + b * d + c0" "h = a * d + b * c + l div half + c1"
  shows "h mod half * half + l mod half + half * half * (a * c + h div half) =
    (a * half + b) * (c * half + d) + w + (c1 * half + c0)"
proof -
  have "h mod half * half + half * half * (h div half) = h * half"
    using mod_mult_div_eq [of h half] by (metis add_mult_distrib mult.assoc mult.commute)
  moreover have "l mod half + l div half * half = l" by simp
  ultimately have "h mod half * half + l mod half + half * half * (a * c + h div half) =
      (a * d + b * c + c1) * half + l + half * half * (a * c)"
    unfolding assms(2) by (simp add: algebra_simps)
  then show ?thesis unfolding assms(1) by (simp add: algebra_simps)
qed

lemma mul_step_ok:
  assumes "unat x < radix" "unat y < radix" "unat w < radix" "unat carry < radix"
    and "mul_step (high_half x) (low_half x) carry y w = (p, c')"
  shows "unat p < radix" "unat c' < radix" "unat p + radix * unat c' = unat x * unat y + unat w + unat carry"
proof -
  define a b c d where ab: "a = unat x div half" "b = unat x mod half" "c = unat y div half" "d = unat y mod half"
  have lt: "a < half" "b < half" "c < half" "d < half"
    using assms(1,2) unfolding ab radix_half by (simp_all add: less_mult_imp_div_less)
  have ch: "unat carry div half < half" using assms(4) unfolding radix_half by (simp add: less_mult_imp_div_less)
  have prod: "x * y \<le> (half - 1) * (half - 1)" if "x < half" "y < half" for x y :: nat
    using that by (intro mult_le_mono) auto
  define l where "l = w + low_half x * low_half y + low_half carry"
  have l: "unat l = unat w + b * d + unat carry mod half"
    unfolding l_def using prod [OF lt(2,4)] assms(3)
    by (subst unat_add_eq; (subst unat_add_eq)?; (subst unat_mult_eq)?; simp add: ab radix_def half_def)
  define h where "h = high_half x * low_half y + low_half x * high_half y + high_half l + high_half carry"
  have ll: "unat l div half < 2 ^ 17" using prod [OF lt(2,4)] assms(3) ch unfolding l by (simp add: radix_def half_def)
  have ad: "unat (high_half x * low_half y) = a * d" "unat (low_half x * high_half y) = b * c"
    using prod [OF lt(1,4)] prod [OF lt(2,3)] by (subst unat_mult_eq; simp add: ab half_def)+
  have "unat (high_half x * low_half y + low_half x * high_half y) = a * d + b * c"
    using prod [OF lt(1,4)] prod [OF lt(2,3)] ad by (subst unat_add_eq) (simp_all add: half_def)
  then have "unat (high_half x * low_half y + low_half x * high_half y + high_half l) = a * d + b * c + unat l div half"
    using prod [OF lt(1,4)] prod [OF lt(2,3)] ll by (subst unat_add_eq) (simp_all add: half_def)
  then have h: "unat h = a * d + b * c + unat l div half + unat carry div half"
    using prod [OF lt(1,4)] prod [OF lt(2,3)] ll ch unfolding h_def by (subst unat_add_eq) (simp_all add: half_def)
  have p: "p = concat_halves (low_half h) (low_half l)" "c' = high_half x * high_half y + high_half h"
    using assms(5) by (simp_all add: mul_step_def l_def h_def Let_def)
  have hh: "unat h div half < 2 ^ 17" using prod [OF lt(1,4)] prod [OF lt(2,3)] ll ch unfolding h by (simp add: half_def)
  have "unat (high_half x * high_half y) = a * c"
    using prod [OF lt(1,3)] by (subst unat_mult_eq; simp add: ab half_def)
  then have c': "unat c' = a * c + unat h div half"
    using prod [OF lt(1,3)] hh unfolding p(2) by (subst unat_add_eq) (simp_all add: half_def)
  have up: "unat p = unat h mod half * half + unat l mod half" unfolding p(1) by simp
  have "unat p + radix * unat c' = (a * half + b) * (c * half + d) + unat w + (unat carry div half * half + unat carry mod half)"
    unfolding up c' radix_half by (rule mul_halves [OF l h])
  then show e: "unat p + radix * unat c' = unat x * unat y + unat w + unat carry" by (simp add: ab)
  have "unat h mod half < half" "unat l mod half < half" by simp_all
  then show "unat p < radix" unfolding up by (simp add: radix_def half_def)
  have "unat x * unat y \<le> (radix - 1) * (radix - 1)" using assms(1,2) by (intro mult_le_mono) auto
  then have "radix * unat c' < radix * radix" using e assms(3,4) by (simp add: radix_def)
  then show "unat c' < radix" by simp
qed

text \<open>A row adds the product of one digit to the first digits of the result and stores the carry behind them.\<close>

lemma mul_row_ok:
  "digits_ok v \<Longrightarrow> digits_ok w \<Longrightarrow> length v < length w \<Longrightarrow> unat x < radix \<Longrightarrow> unat c < radix \<Longrightarrow>
    digits_ok (mul_row (high_half x) (low_half x) c v w) \<and> length (mul_row (high_half x) (low_half x) c v w) = length w \<and>
    dval (take (Suc (length v)) (mul_row (high_half x) (low_half x) c v w)) =
      unat x * dval v + dval (take (length v) w) + unat c \<and>
    drop (Suc (length v)) (mul_row (high_half x) (low_half x) c v w) = drop (Suc (length v)) w"
proof (induction v arbitrary: w c)
  case Nil
  then show ?case by (cases w) auto
next
  case (Cons y v)
  obtain d w1 where w: "w = d # w1" using Cons.prems(3) by (cases w) auto
  obtain p c' where p: "mul_step (high_half x) (low_half x) c y d = (p, c')" by fastforce
  have "unat y < radix" "unat d < radix" using Cons.prems(1,2) w by simp_all
  note m = mul_step_ok [OF Cons.prems(4) this Cons.prems(5) p]
  let ?r = "mul_row (high_half x) (low_half x) c' v w1"
  have ih: "digits_ok ?r" "length ?r = length w1"
    "dval (take (Suc (length v)) ?r) = unat x * dval v + dval (take (length v) w1) + unat c'"
    "drop (Suc (length v)) ?r = drop (Suc (length v)) w1"
    using Cons.IH [of w1 c'] Cons.prems w m(2) by simp_all
  have r: "mul_row (high_half x) (low_half x) c (y # v) w = p # ?r" using w p by simp
  have "dval (take (Suc (length (y # v))) (p # ?r)) =
      unat p + radix * (unat x * dval v + dval (take (length v) w1) + unat c')"
    using ih(3) by simp
  also have "\<dots> = (unat p + radix * unat c') + radix * (unat x * dval v + dval (take (length v) w1))"
    by (simp add: algebra_simps)
  also have "\<dots> = unat x * dval (y # v) + dval (take (length (y # v)) w) + unat c"
    unfolding m(3) w by (simp add: algebra_simps)
  finally show ?case unfolding r using ih m(1) w by simp
qed

lemma vec_mul_ok:
  "digits_ok u \<Longrightarrow> digits_ok v \<Longrightarrow> digits_ok w \<Longrightarrow> length w = length u + length v \<Longrightarrow>
    digits_ok (vec_mul u v w) \<and> length (vec_mul u v w) = length w \<and>
    dval (vec_mul u v w) = dval u * dval v + dval (take (length v) w)"
proof (induction u v w rule: vec_mul.induct)
  case (2 x u v w)
  let ?r = "mul_row (high_half x) (low_half x) 0 v w"
  have r: "digits_ok ?r" "length ?r = length w" "dval (take (Suc (length v)) ?r) = unat x * dval v + dval (take (length v) w)"
    using mul_row_ok [of v w x 0] 2(2-5) by simp_all
  obtain d r1 where d: "?r = d # r1" using r(2) 2(5) by (cases ?r) auto
  have ih: "digits_ok (vec_mul u v r1)" "length (vec_mul u v r1) = length r1"
    "dval (vec_mul u v r1) = dval u * dval v + dval (take (length v) r1)"
    using 2(1) [OF d] 2(2-5) r(1,2) d by simp_all
  have "dval (vec_mul (x # u) v w) = unat d + radix * (dval u * dval v + dval (take (length v) r1))" using d ih(3) by simp
  also have "\<dots> = dval (take (Suc (length v)) ?r) + radix * (dval u * dval v)" using d by (simp add: algebra_simps)
  also have "\<dots> = dval (x # u) * dval v + dval (take (length v) w)" unfolding r(3) by (simp add: algebra_simps)
  finally show ?case using ih r(1,2) d by simp
qed simp

lemma vec_mul_zeros:
  "digits_ok u \<Longrightarrow> digits_ok v \<Longrightarrow> dval (vec_mul u v (replicate (length u + length v) 0)) = dval u * dval v"
  using vec_mul_ok [of u v "replicate (length u + length v) 0"] by simp

lemma mul_small_step_ok:
  assumes "unat x < radix" "unat v < half" "unat carry < half" "mul_small_step v carry x = (p, c')"
  shows "unat p < radix" "unat c' < half" "unat p + radix * unat c' = unat v * unat x + unat carry"
proof -
  have m: "mul_step (high_half v) (low_half v) carry x 0 = (p, c')"
  proof -
    have "high_half v = 0" "low_half v = v" "high_half carry = 0"
      using assms(2,3) by (auto intro!: unsigned_word_eqI [where ?'a = nat])
    then show ?thesis using assms(4) by (simp add: mul_step_def mul_small_step_def Let_def)
  qed
  have lt: "unat v < radix" "unat carry < radix" "unat (0 :: u32) < radix" using assms(2,3) by (simp_all add: radix_def half_def)
  note s = mul_step_ok [OF lt(1) assms(1) lt(3,2) m]
  show "unat p < radix" "unat p + radix * unat c' = unat v * unat x + unat carry" using s by simp_all
  have "unat v * unat x \<le> (half - 1) * (radix - 1)" using assms(1,2) by (intro mult_le_mono) auto
  then have "radix * unat c' < radix * half" using s(3) assms(3) by (simp add: radix_def half_def)
  then show "unat c' < half" by simp
qed

lemma mul_small_loop_ok:
  "digits_ok u \<Longrightarrow> unat v < half \<Longrightarrow> unat c < half \<Longrightarrow> mul_small_loop v c u = (w, r) \<Longrightarrow>
    digits_ok w \<and> length w = length u \<and> unat r < half \<and> dval w + radix ^ length u * unat r = unat v * dval u + unat c"
proof (induction u arbitrary: c w)
  case (Cons x u)
  obtain p c' where p: "mul_small_step v c x = (p, c')" by fastforce
  obtain w1 where w1: "mul_small_loop v c' u = (w1, r)" "w = p # w1" using Cons.prems(4) p by (auto split: prod.splits)
  have "unat x < radix" using Cons.prems(1) by simp
  note s = mul_small_step_ok [OF this Cons.prems(2,3) p]
  have ih: "digits_ok w1" "length w1 = length u" "unat r < half" "dval w1 + radix ^ length u * unat r = unat v * dval u + unat c'"
    using Cons.IH [OF _ Cons.prems(2) s(2) w1(1)] Cons.prems(1) by simp_all
  have "dval w + radix ^ length (x # u) * unat r = unat p + radix * (dval w1 + radix ^ length u * unat r)"
    using w1(2) by (simp add: algebra_simps)
  also have "\<dots> = unat p + radix * unat c' + radix * (unat v * dval u)" unfolding ih(4) by (simp add: algebra_simps)
  also have "\<dots> = unat v * dval (x # u) + unat c" unfolding s(3) by (simp add: algebra_simps)
  finally show ?case using ih s(1) w1(2) by simp
qed auto

lemma vec_mul_small_ok:
  assumes "digits_ok u" "unat v < half"
  shows "dval (vec_mul_small u v) = unat v * dval u" "digits_ok (vec_mul_small u v)" "length (vec_mul_small u v) = length u + 1"
    "dval (vec_mul_small_on u v) = unat v * dval u mod radix ^ length u"
proof -
  obtain w r where w: "mul_small_loop v 0 u = (w, r)" by fastforce
  have s: "digits_ok w" "length w = length u" "unat r < half" "dval w + radix ^ length u * unat r = unat v * dval u"
    using mul_small_loop_ok [OF assms _ w] by simp_all
  show "dval (vec_mul_small u v) = unat v * dval u" "length (vec_mul_small u v) = length u + 1"
    using s by (simp_all add: vec_mul_small_def w dval_append)
  show "digits_ok (vec_mul_small u v)" using s by (simp add: vec_mul_small_def w radix_def half_def)
  show "dval (vec_mul_small_on u v) = unat v * dval u mod radix ^ length u"
    using dval_mod [OF s(1,2,4)] by (simp add: vec_mul_small_on_def w)
qed

section \<open>Division by a half digit\<close>

lemma unat_div_eq: "unat (x div y) = unat x div unat y" "unat (x mod y) = unat x mod unat y" for x y :: u32
  by (rule unat_div unat_mod)+

text \<open>Two digits in any radix, divided one half after the other.\<close>

lemma div_halves:
  fixes v :: nat
  assumes "r < v" "h < half" "l < half" "n = r * half + h" "m = n mod v * half + l"
  shows "n div v < half" "m div v < half" "n mod v < v" "m mod v < v"
    "(n div v * half + m div v) * v + m mod v = r * (half * half) + (h * half + l)"
proof -
  show "n div v < half" using digit_bound [OF assms(1,2)] assms(4) by (simp add: less_mult_imp_div_less mult.commute)
  have v: "0 < v" using assms(1) by simp
  then show r: "n mod v < v" "m mod v < v" by simp_all
  show "m div v < half" using digit_bound [OF r(1) assms(3)] assms(5) by (simp add: less_mult_imp_div_less mult.commute)
  have "(n div v * half + m div v) * v + m mod v = n div v * v * half + (m div v * v + m mod v)" by (simp add: algebra_simps)
  also have "\<dots> = (n div v * v + n mod v) * half + l"
    unfolding assms(5) div_mult_mod_eq [of "n mod v * half + l"] by (simp only: algebra_simps)
  also have "\<dots> = r * (half * half) + (h * half + l)" unfolding div_mult_mod_eq unfolding assms(4) by (simp add: algebra_simps)
  finally show "(n div v * half + m div v) * v + m mod v = r * (half * half) + (h * half + l)" .
qed

lemma div_step_ok:
  assumes "unat x < radix" "unat v < half" "unat r < unat v" "div_step v r x = (q, r')"
  shows "unat q < radix" "unat r' < unat v" "unat q * unat v + unat r' = unat r * radix + unat x"
proof -
  have x: "unat x div half < half" "unat x mod half < half" using assms(1) by (simp_all add: radix_half less_mult_imp_div_less)
  let ?n = "concat_halves r (high_half x)"
  let ?m = "concat_halves (?n mod v) (low_half x)"
  have n: "unat ?n = unat r * half + unat x div half" using assms(2,3) x by simp
  have nv: "unat ?n mod unat v < half" using less_trans [OF mod_less_divisor assms(2)] assms(3) by simp
  have m: "unat ?m = unat ?n mod unat v * half + unat x mod half" by (subst unat_concat) (use nv x(2) in \<open>simp_all add: unat_div_eq\<close>)
  note d = div_halves [OF assms(3) x n m]
  have q: "q = concat_halves (?n div v) (?m div v)" "r' = ?m mod v" using assms(4) by (simp_all add: div_step_def Let_def)
  have uq: "unat q = unat ?n div unat v * half + unat ?m div unat v" unfolding q(1) using d(1,2) by (simp add: unat_div_eq)
  show "unat r' < unat v" unfolding q(2) unat_div_eq by (rule d(4))
  show "unat q * unat v + unat r' = unat r * radix + unat x" unfolding uq q(2) unat_div_eq d(5) radix_half by simp
  show "unat q < radix" unfolding uq radix_half by (rule digit_bound [OF d(1,2)])
qed

lemma div_loop_ok:
  "digits_ok u \<Longrightarrow> unat v < half \<Longrightarrow> unat r < unat v \<Longrightarrow> div_loop v r u = (qs, r') \<Longrightarrow>
    digits_ok qs \<and> length qs = length u \<and> unat r' < unat v \<and>
    dval (rev qs) * unat v + unat r' = unat r * radix ^ length u + dval (rev u)"
proof (induction u arbitrary: r qs)
  case (Cons x u)
  obtain q r1 where q: "div_step v r x = (q, r1)" by fastforce
  obtain qs1 where qs: "div_loop v r1 u = (qs1, r')" "qs = q # qs1" using Cons.prems(4) q by (auto split: prod.splits)
  have "unat x < radix" using Cons.prems(1) by simp
  note s = div_step_ok [OF this Cons.prems(2,3) q]
  have ih: "digits_ok qs1" "length qs1 = length u" "unat r' < unat v"
    "dval (rev qs1) * unat v + unat r' = unat r1 * radix ^ length u + dval (rev u)"
    using Cons.IH [OF _ Cons.prems(2) s(2) qs(1)] Cons.prems(1) by simp_all
  have "dval (rev qs) * unat v + unat r' = (dval (rev qs1) * unat v + unat r') + radix ^ length u * (unat q * unat v)"
    using ih(2) qs(2) by (simp add: dval_append algebra_simps)
  also have "\<dots> = dval (rev u) + radix ^ length u * (unat q * unat v + unat r1)" unfolding ih(4) by (simp add: algebra_simps)
  also have "\<dots> = unat r * radix ^ length (x # u) + dval (rev (x # u))" unfolding s(3) by (simp add: dval_append algebra_simps)
  finally show ?case using ih s(1) qs(2) by simp
qed auto

lemma vec_rem_on_small_ok:
  assumes "digits_ok u" "unat v < half" "v \<noteq> 0" "vec_rem_on_small u v = (q, r)"
  shows "digits_ok q" "length q = length u" "dval q = dval u div unat v" "unat r = dval u mod unat v"
proof -
  obtain qs where qs: "div_loop v 0 (rev u) = (qs, r)" "q = rev qs"
    using assms(4) by (auto simp: vec_rem_on_small_def split: prod.splits)
  have "unat (0 :: u32) < unat v" using assms(3) by (simp add: unat_gt_0)
  note d = div_loop_ok [OF _ assms(2) this qs(1)]
  show "digits_ok q" "length q = length u" using d assms(1) qs(2) by simp_all
  have e: "dval q * unat v + unat r = dval u" "unat r < unat v" using d assms(1) qs(2) by simp_all
  then have "dval q * unat v + unat r = dval u" by simp
  then show "dval q = dval u div unat v" "unat r = dval u mod unat v"
    using e(2) by (metis div_mult_self3 div_less add.right_neutral gr_implies_not0, metis mod_mult_self3 mod_less)
qed

lemma vec_div_small_ok:
  assumes "digits_ok u" "unat v < half" "v \<noteq> 0"
  shows "digits_ok (vec_div_small u v)" "length (vec_div_small u v) = length u" "dval (vec_div_small u v) = dval u div unat v"
proof -
  obtain q r where q: "vec_rem_on_small u v = (q, r)" by fastforce
  then have "vec_div_small u v = q" by (auto simp: vec_rem_on_small_def vec_div_small_def split: prod.splits)
  then show "digits_ok (vec_div_small u v)" "length (vec_div_small u v) = length u" "dval (vec_div_small u v) = dval u div unat v"
    using vec_rem_on_small_ok [OF assms q] by simp_all
qed

lemma rem_loop_eq: "rem_loop v r u = snd (div_loop v r u)"
  by (induction u arbitrary: r) (simp_all add: div_step_def Let_def split_beta)

lemma vec_rem_small_ok:
  assumes "digits_ok u" "unat v < half" "v \<noteq> 0"
  shows "unat (vec_rem_small u v) = dval u mod unat v"
proof -
  obtain q r where q: "vec_rem_on_small u v = (q, r)" by fastforce
  then have "vec_rem_small u v = r" by (auto simp: vec_rem_on_small_def vec_rem_small_def rem_loop_eq split: prod.splits)
  then show ?thesis using vec_rem_on_small_ok [OF assms q] by simp
qed

end
