(* ===== verification/Sc_Nb_Shift.thy ===== *)
theory Sc_Nb_Shift
  imports Sc_Nb_Mul
begin

text \<open>
  Shifts of digit vectors: a left shift multiplies and forgets what leaves the vector, a right shift
  divides, rounding down, the number read with or without a sign.
\<close>

section \<open>Parts of a shift\<close>

lemma one_and_ones_eq: "one_and_ones n = mask n"
  by (simp add: one_and_ones_def mask_eq_exp_minus_1 push_bit_eq_mult)

lemma unat_one_and_ones [simp]: "unat (x AND one_and_ones n) = unat x mod 2 ^ n"
  by (simp add: one_and_ones_eq unat_and_mask)

lemma radix_split: "n \<le> 30 \<Longrightarrow> radix = 2 ^ (30 - n) * 2 ^ n"
  by (simp add: radix_def power_add [symmetric])

lemma split_shift_ok: "split_shift n = (n div 30, n mod 30)"
proof (cases "n mod 30 = 0")
  case False
  then have "0 < n" by (cases n) auto
  then have "DIV_CEIL (int n) = (int n - 1) div 30 + 1"
    by (simp add: DIV_CEIL_def DIV_CEIL2_def BITS_PER_DIGIT_def signed_divide_int_def sgn_if)
  moreover have "int n - 1 = int (n mod 30) - 1 + 30 * int (n div 30)" using div_mult_mod_eq [of n 30] by linarith
  then have "(int n - 1) div 30 = int (n div 30)" using False by simp
  ultimately show ?thesis using False by (simp add: split_shift_def BITS_PER_DIGIT_def minus_div_mult_eq_mod nat_add_distrib Let_def)
qed (simp add: split_shift_def BITS_PER_DIGIT_def)

section \<open>To the left\<close>

lemma shift_up_ok:
  "digits_ok u \<Longrightarrow> 0 < n \<Longrightarrow> n < 30 \<Longrightarrow> unat c < 2 ^ n \<Longrightarrow>
    digits_ok (shift_up n c u) \<and> length (shift_up n c u) = length u \<and>
    dval (shift_up n c u) = (dval u * 2 ^ n + unat c) mod radix ^ length u"
proof (induction u arbitrary: c)
  case (Cons x u)
  let ?k = "30 - n"
  define y where "y = push_bit n (x AND one_and_ones ?k) OR c"
  have n: "n + ?k = 30" "n \<le> 30" using Cons.prems(3) by simp_all
  have r: "radix = 2 ^ ?k * 2 ^ n" by (rule radix_split [OF n(2)])
  have m: "unat x mod 2 ^ ?k < 2 ^ ?k" by simp
  have "unat x mod 2 ^ ?k * 2 ^ n < radix" unfolding r using digit_bound [OF m, of 0 "2 ^ n"] by simp
  then have y: "unat y = unat x mod 2 ^ ?k * 2 ^ n + unat c"
    unfolding y_def by (subst unat_push_or) (use Cons.prems(4) in \<open>simp_all add: radix_def\<close>)
  have c': "unat (drop_bit ?k x) = unat x div 2 ^ ?k" by (rule unat_drop)
  have "unat x < 2 ^ n * 2 ^ ?k" using Cons.prems(1) r by (simp add: mult.commute)
  then have lt: "unat (drop_bit ?k x) < 2 ^ n" unfolding c' by (rule less_mult_imp_div_less)
  have yr: "unat y < radix" unfolding y r by (rule digit_bound [OF m Cons.prems(4)])
  have e: "shift_up n c (x # u) = y # shift_up n (drop_bit ?k x) u" by (simp add: y_def BITS_PER_DIGIT_def Let_def)
  have ih: "digits_ok (shift_up n (drop_bit ?k x) u)" "length (shift_up n (drop_bit ?k x) u) = length u"
    "dval (shift_up n (drop_bit ?k x) u) = (dval u * 2 ^ n + unat x div 2 ^ ?k) mod radix ^ length u"
    using Cons.IH [OF _ Cons.prems(2,3) lt] Cons.prems(1) c' by simp_all
  have total: "dval (x # u) * 2 ^ n + unat c = unat y + radix * (dval u * 2 ^ n + unat x div 2 ^ ?k)"
  proof -
    have "unat x * 2 ^ n = (unat x mod 2 ^ ?k + 2 ^ ?k * (unat x div 2 ^ ?k)) * 2 ^ n" by simp
    also have "\<dots> = unat x mod 2 ^ ?k * 2 ^ n + radix * (unat x div 2 ^ ?k)" unfolding r by (simp only: algebra_simps)
    finally show ?thesis using y by (simp add: algebra_simps)
  qed
  have "(dval (x # u) * 2 ^ n + unat c) mod (radix * radix ^ length u) =
      radix * ((dval u * 2 ^ n + unat x div 2 ^ ?k) mod radix ^ length u) + unat y"
    unfolding total using mod_mult2_eq [of "unat y + radix * (dval u * 2 ^ n + unat x div 2 ^ ?k)" radix "radix ^ length u"] yr
    by simp
  then show ?case unfolding e using ih yr by simp
qed simp

lemma digits_up_ok:
  assumes "digits_ok u"
  shows "digits_ok (digits_up k u)" "length (digits_up k u) = length u" "dval (digits_up k u) = dval u * radix ^ k mod radix ^ length u"
proof -
  show "digits_ok (digits_up k u)" "length (digits_up k u) = length u" using assms by (simp_all add: digits_up_def digits_ok_part Let_def)
  show "dval (digits_up k u) = dval u * radix ^ k mod radix ^ length u"
  proof (cases "k \<le> length u")
    case True
    have "dval u * radix ^ k mod (radix ^ (length u - k) * radix ^ k) = dval u mod radix ^ (length u - k) * radix ^ k"
      by (rule mod_mult_mult2)
    then show ?thesis using True mod_take [OF assms, of "length u - k"]
      by (simp add: digits_up_def Let_def dval_append min_def power_add [symmetric] mult.commute)
  next
    case False
    then have "radix ^ length u dvd radix ^ k" by (intro le_imp_power_dvd) simp
    then show ?thesis using False by (simp add: digits_up_def Let_def dval_append)
  qed
qed

lemma vec_shift_left_ok:
  assumes "digits_ok u"
  shows "digits_ok (vec_shift_left u (int n))" "length (vec_shift_left u (int n)) = length u"
    "dval (vec_shift_left u (int n)) = dval u * 2 ^ n mod radix ^ length u"
proof -
  have e: "vec_shift_left u (int n) = (if n mod 30 = 0 then digits_up (n div 30) u else shift_up (n mod 30) 0 (digits_up (n div 30) u))"
  proof -
    have "digits_up 0 u = u" by (simp add: digits_up_def)
    then show ?thesis by (simp add: vec_shift_left_def split_shift_ok BITS_PER_DIGIT_def)
  qed
  note d = digits_up_ok [OF assms, of "n div 30"]
  have r: "radix ^ (n div 30) * 2 ^ (n mod 30) = 2 ^ n" by (simp add: radix_power power_add [symmetric])
  show "digits_ok (vec_shift_left u (int n))" "length (vec_shift_left u (int n)) = length u"
    using shift_up_ok [OF d(1), of "n mod 30" 0] d unfolding e by simp_all
  show "dval (vec_shift_left u (int n)) = dval u * 2 ^ n mod radix ^ length u"
  proof (cases "n mod 30 = 0")
    case True
    then show ?thesis using d(3) r unfolding e by simp
  next
    case False
    then have "dval (vec_shift_left u (int n)) = dval (digits_up (n div 30) u) * 2 ^ (n mod 30) mod radix ^ length u"
      using shift_up_ok [OF d(1), of "n mod 30" 0] d(2) unfolding e by simp
    also have "\<dots> = dval u * radix ^ (n div 30) * 2 ^ (n mod 30) mod radix ^ length u"
      unfolding d(3) by (rule mod_mult_left_eq)
    finally show ?thesis by (simp add: mult.assoc r)
  qed
qed

section \<open>To the right\<close>

lemma shift_down_step:
  fixes c x D k R :: nat
  assumes "n \<le> 30"
  shows "(c * (radix * R) + (x * R + D)) div 2 ^ n = R * (x div 2 ^ n + c * 2 ^ (30 - n)) + (x mod 2 ^ n * R + D) div 2 ^ n"
proof -
  have e: "c * (k * p * R) + ((p * q + m) * R + D) = (m * R + D) + p * (R * (q + c * k))" for k p q m :: nat
    by (simp add: algebra_simps)
  have "x = 2 ^ n * (x div 2 ^ n) + x mod 2 ^ n" by simp
  then have "c * (radix * R) + (x * R + D) = (x mod 2 ^ n * R + D) + 2 ^ n * (R * (x div 2 ^ n + c * 2 ^ (30 - n)))"
    using e [of "2 ^ (30 - n)" "2 ^ n" "x div 2 ^ n" "x mod 2 ^ n"] unfolding radix_split [OF assms] by (simp only:)
  then show ?thesis by (simp only: div_mult_self2 [OF power_not_zero [OF zero_neq_numeral [symmetric]]])
qed

text \<open>The vector is given from its last digit down; \<open>c\<close> are the bits that enter there.\<close>

lemma shift_down_ok:
  "digits_ok u \<Longrightarrow> 0 < n \<Longrightarrow> n < 30 \<Longrightarrow> c < 2 ^ n \<Longrightarrow> unat d = c * 2 ^ (30 - n) \<Longrightarrow>
    digits_ok (shift_down n d u) \<and> length (shift_down n d u) = length u \<and>
    dval (rev (shift_down n d u)) = (c * radix ^ length u + dval (rev u)) div 2 ^ n"
proof (induction u arbitrary: c d)
  case (Cons x u)
  let ?k = "30 - n"
  define y where "y = drop_bit n x OR d"
  define d' where "d' = push_bit ?k (x AND one_and_ones n)"
  have n: "n \<le> 30" "30 - ?k = n" using Cons.prems(3) by simp_all
  have r: "radix = 2 ^ n * 2 ^ ?k" using radix_split [OF n(1)] by (simp add: mult.commute)
  have x: "unat x div 2 ^ n < 2 ^ ?k" using Cons.prems(1) r by (simp add: less_mult_imp_div_less mult.commute)
  have y: "unat y = unat x div 2 ^ n + c * 2 ^ ?k" "unat y < radix"
  proof -
    have "unat y = push_bit ?k c OR unat x div 2 ^ n"
      unfolding y_def unsigned_or_eq Cons.prems(5) unat_drop by (simp add: push_bit_eq_mult or.commute)
    then show "unat y = unat x div 2 ^ n + c * 2 ^ ?k" using nat_push_or [OF x] by simp
    then show "unat y < radix" using digit_bound [OF Cons.prems(4) x] r by simp
  qed
  have d': "unat d' = unat x mod 2 ^ n * 2 ^ ?k"
  proof -
    have "unat x mod 2 ^ n * 2 ^ ?k < radix" unfolding r using digit_bound [of "unat x mod 2 ^ n" "2 ^ n" 0 "2 ^ ?k"] by simp
    then show ?thesis unfolding d'_def
      using unat_push_or [of 0 ?k "x AND one_and_ones n"] by (simp add: radix_def)
  qed
  have e: "shift_down n d (x # u) = y # shift_down n d' u" by (simp add: y_def d'_def BITS_PER_DIGIT_def)
  have ih: "digits_ok (shift_down n d' u)" "length (shift_down n d' u) = length u"
    "dval (rev (shift_down n d' u)) = (unat x mod 2 ^ n * radix ^ length u + dval (rev u)) div 2 ^ n"
    using Cons.IH [OF _ Cons.prems(2,3) _ d'] Cons.prems(1) by simp_all
  have "dval (rev (shift_down n d (x # u))) =
      radix ^ length u * unat y + (unat x mod 2 ^ n * radix ^ length u + dval (rev u)) div 2 ^ n"
    unfolding e using ih by (simp add: dval_append)
  also have "\<dots> = (c * radix ^ length (x # u) + dval (rev (x # u))) div 2 ^ n"
    using shift_down_step [OF n(1), of c "radix ^ length u" "unat x" "dval (rev u)"] y(1)
    by (simp add: dval_append mult.commute add.commute)
  finally show ?case using ih y(2) unfolding e by simp
qed simp

text \<open>What fills the vector is zero or the mask: \<open>f\<close> is 0 or 1 and the number read is lower by \<open>f\<close> times the range.\<close>

definition fill_digit :: "bool \<Rightarrow> sc_digit" where
  "fill_digit f = (if f then DIGIT_MASK else 0)"

lemma unat_fill: "unat (fill_digit f) = of_bool f * (radix - 1)" "unat (fill_digit f) < radix"
  by (simp_all add: fill_digit_def DIGIT_MASK_def DIGIT_RADIX_def BITS_PER_DIGIT_def radix_def)

lemma dval_fill: "int (dval (replicate n (fill_digit f))) = of_bool f * (int radix ^ n - 1)"
proof (induction n)
  case (Suc n)
  have "int (unat (fill_digit f)) = of_bool f * (int radix - 1)" unfolding unat_fill by (simp add: radix_def)
  then have "int (dval (replicate (Suc n) (fill_digit f))) = of_bool f * (int radix - 1) + int radix * (of_bool f * (int radix ^ n - 1))"
    unfolding Suc.IH [symmetric] by (simp del: of_nat_unat)
  then show ?case by (cases f) (simp_all add: algebra_simps)
qed simp

lemma dval_drop: "digits_ok u \<Longrightarrow> k \<le> length u \<Longrightarrow> dval (drop k u) = dval u div radix ^ k"
proof -
  assume u: "digits_ok u" "k \<le> length u"
  have "dval u = dval (take k u) + radix ^ k * dval (drop k u)" using take_drop_dval [of u k] u(2) by (simp add: min_def)
  moreover have "dval (take k u) < radix ^ k" using dval_less [OF digits_ok_part(1) [OF u(1)], of k] u(2) by (simp add: min.absorb2)
  moreover have "(a + b * c) div b = c" if "a < b" for a b c :: nat using that by simp
  ultimately show ?thesis by metis
qed

lemma digits_down_ok:
  assumes "digits_ok u"
  shows "digits_ok (digits_down k (fill_digit f) u)" "length (digits_down k (fill_digit f) u) = length u"
    "int (dval (digits_down k (fill_digit f) u)) =
      (int (dval u) - of_bool f * int radix ^ length u) div int radix ^ k + of_bool f * int radix ^ length u"
proof -
  show "digits_ok (digits_down k (fill_digit f) u)"
    using assms unat_fill(2) by (auto simp: digits_down_def digits_ok_def dest: in_set_dropD)
  show "length (digits_down k (fill_digit f) u) = length u" by (auto simp: digits_down_def)
  let ?n = "length u"
  show "int (dval (digits_down k (fill_digit f) u)) =
      (int (dval u) - of_bool f * int radix ^ ?n) div int radix ^ k + of_bool f * int radix ^ ?n"
  proof (cases "k \<le> ?n")
    case True
    then have p: "int radix ^ ?n = int radix ^ (?n - k) * int radix ^ k" by (simp add: power_add [symmetric])
    have "int (dval (digits_down k (fill_digit f) u)) =
        int (dval u) div int radix ^ k + int radix ^ (?n - k) * (of_bool f * (int radix ^ k - 1))"
      using True dval_drop [OF assms True] dval_fill [of k f] by (simp add: digits_down_def dval_append min_def zdiv_int)
    moreover have "(int (dval u) - of_bool f * int radix ^ ?n) div int radix ^ k = int (dval u) div int radix ^ k - of_bool f * int radix ^ (?n - k)"
    proof -
      have "int (dval u) - of_bool f * int radix ^ ?n = int (dval u) + (- of_bool f * int radix ^ (?n - k)) * int radix ^ k"
        unfolding p by simp
      then have "(int (dval u) - of_bool f * int radix ^ ?n) div int radix ^ k =
          - of_bool f * int radix ^ (?n - k) + int (dval u) div int radix ^ k"
        using div_mult_self1 [of "int radix ^ k" "int (dval u)" "- of_bool f * int radix ^ (?n - k)"] by (cases f) simp_all
      then show ?thesis by (cases f) simp_all
    qed
    ultimately show ?thesis unfolding p by (cases f; simp only: of_bool_eq) (simp_all add: algebra_simps)
  next
    case False
    have lt: "dval u < radix ^ ?n" by (rule dval_less [OF assms])
    have le: "radix ^ ?n \<le> radix ^ k" using False by (intro power_increasing) (auto simp: Suc_le_eq)
    have d: "digits_down k (fill_digit f) u = replicate ?n (fill_digit f)" using False by (simp add: digits_down_def)
    show ?thesis
    proof (cases f)
      case True
      have "(int (dval u) - int (radix ^ ?n)) div int (radix ^ k) = - 1"
        by (rule int_div_pos_eq [where r = "int (dval u) - int (radix ^ ?n) + int (radix ^ k)"]) (use lt le in linarith)+
      then show ?thesis unfolding d dval_fill using True by simp
    next
      case F: False
      have "dval u div radix ^ k = 0" using lt le by (intro div_less) linarith
      then show ?thesis unfolding d dval_fill using F by (simp flip: of_nat_power zdiv_int)
    qed
  qed
qed

text \<open>The whole shift, for a number that is lower by the range of the vector when it is filled with ones.\<close>

lemma vec_shift_right_ok:
  fixes f :: bool
  assumes "digits_ok u"
  defines "V \<equiv> \<lambda>w. int (dval w) - of_bool f * int radix ^ length u"
  shows "digits_ok (vec_shift_right u (int n) (fill_digit f))" "length (vec_shift_right u (int n) (fill_digit f)) = length u"
    "V (vec_shift_right u (int n) (fill_digit f)) = V u div 2 ^ n"
proof -
  define w k c where "w = digits_down (n div 30) (fill_digit f) u" and "k = n mod 30" and "c = of_bool f * (2 ^ k - 1 :: nat)"
  note d = digits_down_ok [OF assms(1), where k = "n div 30" and f = f, folded w_def]
  have e: "vec_shift_right u (int n) (fill_digit f) =
      (if k = 0 then w else rev (shift_down k (push_bit (30 - k) (fill_digit f AND one_and_ones k)) (rev w)))"
  proof -
    have "digits_down 0 (fill_digit f) u = u" by (simp add: digits_down_def)
    then show ?thesis by (simp add: vec_shift_right_def split_shift_ok BITS_PER_DIGIT_def w_def k_def)
  qed
  have V: "V w = V u div int radix ^ (n div 30)" unfolding V_def d(3) by simp
  have r: "int radix ^ (n div 30) * 2 ^ k = 2 ^ n"
  proof -
    have "int (radix ^ (n div 30)) * 2 ^ k = 2 ^ n" unfolding radix_power k_def by (simp add: power_add [symmetric])
    then show ?thesis by simp
  qed
  show "digits_ok (vec_shift_right u (int n) (fill_digit f))" "length (vec_shift_right u (int n) (fill_digit f)) = length u"
    "V (vec_shift_right u (int n) (fill_digit f)) = V u div 2 ^ n"
  proof (atomize (full), cases "k = 0")
    case True
    then show "digits_ok (vec_shift_right u (int n) (fill_digit f)) \<and> length (vec_shift_right u (int n) (fill_digit f)) = length u \<and>
      V (vec_shift_right u (int n) (fill_digit f)) = V u div 2 ^ n"
      unfolding e using d(1,2) V r by simp
  next
    case False
    then have k: "0 < k" "k < 30" by (simp_all add: k_def)
    have c: "c < 2 ^ k" "unat (push_bit (30 - k) (fill_digit f AND one_and_ones k)) = c * 2 ^ (30 - k)"
    proof -
      show "c < 2 ^ k" by (simp add: c_def)
      have m: "unat (fill_digit f AND one_and_ones k) = c"
      proof -
        have "(radix - 1) mod 2 ^ k = 2 ^ k - 1"
          using take_bit_of_mask [of k 30, where ?'a = nat] k by (simp add: radix_def take_bit_eq_mod mask_eq_exp_minus_1 min_def)
        then show ?thesis unfolding unat_one_and_ones unat_fill c_def by (cases f) simp_all
      qed
      have "c * 2 ^ (30 - k) < radix"
        using digit_bound [OF \<open>c < 2 ^ k\<close>, of 0 "2 ^ (30 - k)"] k by (simp add: radix_def power_add [symmetric])
      then show "unat (push_bit (30 - k) (fill_digit f AND one_and_ones k)) = c * 2 ^ (30 - k)"
        using unat_push_or [of 0 "30 - k" "fill_digit f AND one_and_ones k"] m by (simp add: radix_def)
    qed
    have "digits_ok (rev w)" using d(1) by simp
    note s = shift_down_ok [OF this k c]
    let ?R = "radix ^ length u"
    have "V (rev (shift_down k (push_bit (30 - k) (fill_digit f AND one_and_ones k)) (rev w))) =
        (int c * int ?R + int (dval w)) div 2 ^ k - of_bool f * int ?R"
      using s d(2) unfolding V_def by (simp add: zdiv_int)
    also have "int c * int ?R + int (dval w) = V w + of_bool f * int ?R * 2 ^ k"
      unfolding V_def c_def by (cases f) (simp_all add: algebra_simps of_nat_diff)
    also have "(V w + of_bool f * int ?R * 2 ^ k) div 2 ^ k - of_bool f * int ?R = V w div 2 ^ k"
      by (simp only: div_mult_self1 [OF power_not_zero [OF zero_neq_numeral [symmetric]]] add_diff_cancel_left')
    also have "\<dots> = V u div 2 ^ n" unfolding V r [symmetric] by (simp add: zdiv_zmult2_eq)
    finally show "digits_ok (vec_shift_right u (int n) (fill_digit f)) \<and> length (vec_shift_right u (int n) (fill_digit f)) = length u \<and>
      V (vec_shift_right u (int n) (fill_digit f)) = V u div 2 ^ n"
      unfolding e using False s d(2) by simp
  qed
qed

end
