(* ===== verification/Sc_Nb_Div_Facts.thy ===== *)
theory Sc_Nb_Div_Facts
  imports Sc_Nb_Div Sc_Nb_Shift
begin

text \<open>
  The long division is exact: the copies to and from bytes keep the number, the guess is the quotient's
  byte or one more, and the correction finds out which.
\<close>

section \<open>Bytes as numbers\<close>

abbreviation bval :: "sc_byte list \<Rightarrow> nat" where
  "bval \<equiv> horner_sum unat 256"

lemma unat_byte [simp]: "unat b < 256" for b :: sc_byte
  using unsigned_less [of b, where ?'a = nat] by simp

lemma unat_byte_le: "unat b \<le> 255" for b :: sc_byte
  using unat_byte [of b] by linarith

lemma unat_ucast_byte [simp]: "unat (ucast b :: sc_digit) = unat b" for b :: sc_byte
  by (simp add: unsigned_ucast_eq take_bit_nat_eq_self less_trans [OF unat_byte])

lemma unat_to_byte: "unat (ucast d :: sc_byte) = unat d mod 256" for d :: sc_digit
  by (simp add: unsigned_ucast_eq take_bit_eq_mod)

lemma unat_and_byte: "unat (d AND BYTE_MASK) = unat d mod 256"
proof -
  have "BYTE_MASK = mask 8" by (simp add: BYTE_MASK_def mask_eq_exp_minus_1)
  then show ?thesis using unat_and_mask [of d 8] by simp
qed

lemma unat_byte_of [simp]: "unat (ucast (d AND BYTE_MASK) :: sc_byte) = unat d mod 256"
  by (simp add: unat_to_byte unat_and_byte)

lemma unat_drop_byte [simp]: "unat (drop_bit BITS_PER_BYTE d) = unat d div 256" for d :: sc_digit
  by (simp add: BITS_PER_BYTE_def unat_drop)

lemma bval_append: "bval (u @ v) = bval u + 256 ^ length u * bval v"
  by (rule horner_sum_append)

lemma bval_less: "bval u < 256 ^ length u"
proof (induction u)
  case (Cons x u)
  have "bval u * 256 + unat x < 256 ^ length u * 256" by (rule digit_bound [OF Cons.IH]) simp
  then show ?case by simp
qed simp

lemma bval_split: "bval u = bval (take n u) + 256 ^ min (length u) n * bval (drop n u)"
  using bval_append [of "take n u" "drop n u"] by simp

lemma bval_take: "n \<le> length u \<Longrightarrow> bval (take n u) < 256 ^ n"
  using bval_less [of "take n u"] by (simp add: min.absorb2)

lemma bval_parts: "n \<le> length u \<Longrightarrow> bval u = bval (take n u) + 256 ^ n * bval (drop n u)"
  using bval_split [of u n] by (simp add: min.absorb2)

lemma bval_nth: "n < length u \<Longrightarrow> bval (take (Suc n) u) = bval (take n u) + 256 ^ n * unat (u ! n)"
  by (simp add: take_Suc_conv_app_nth bval_append min_def)

lemma bval_zeros [simp]: "bval (replicate n 0) = 0"
  by (induction n) simp_all

section \<open>From digits to bytes\<close>

lemma bval_map_upt: "bval (map f [0 ..< n]) = a mod 256 ^ n" if "\<And>k. k < n \<Longrightarrow> unat (f k) = a div 256 ^ k mod 256" for f :: "nat \<Rightarrow> sc_byte"
  using that
proof (induction n)
  case (Suc n)
  have "bval (map f [0 ..< Suc n]) = a mod 256 ^ n + 256 ^ n * (a div 256 ^ n mod 256)"
    using Suc.IH Suc.prems by (simp add: bval_append)
  then show ?case using mod_mult2_eq [of a "256 ^ n" 256] by (simp add: mult.commute)
qed simp

lemma take_bit_8: "take_bit 8 n = n mod 256" for n :: nat
  by (simp add: take_bit_eq_mod)

lemma char_at_ok:
  assumes "digits_ok u" "8 * k < 30 * length u"
  shows "unat (char_at u k) = dval u div 256 ^ k mod 256"
proof -
  define i s where "i = 8 * k div 30" and "s = 8 * k mod 30"
  have i: "8 * k = 30 * i + s" "s < 30" unfolding i_def s_def by (simp_all only: mult_div_mod_eq mod_less_divisor zero_less_numeral)
  then have i: "i < length u" "8 * k = 30 * i + s" "s < 30" using assms(2) by linarith+
  define x D where "x = u ! i" and "D = dval (drop (Suc i) u)"
  have x: "unat x < radix" using assms(1) i(1) by (simp add: digits_ok_def x_def)
  have "dval u div 256 ^ k = dval u div radix ^ i div 2 ^ s"
  proof -
    have "(256 :: nat) ^ k = 2 ^ (8 * k)" by (simp add: power_mult)
    also have "\<dots> = radix ^ i * 2 ^ s" unfolding i(2) radix_power by (rule power_add)
    finally show ?thesis by (simp add: div_mult2_eq)
  qed
  also have "dval u div radix ^ i = unat x + radix * D"
    using dval_drop [OF assms(1), of i] i(1) by (simp add: Cons_nth_drop_Suc [symmetric] x_def D_def)
  also have "(unat x + radix * D) div 2 ^ s = unat x div 2 ^ s + 2 ^ (30 - s) * D"
    using i(3) by (subst radix_split [of s]) (simp_all add: mult.commute [of _ "2 ^ s"] mult.assoc)
  finally have v: "dval u div 256 ^ k = unat x div 2 ^ s + 2 ^ (30 - s) * D" .
  have right: "k * BITS_PER_BYTE div BITS_PER_DIGIT = i" "push_bit LOG2_BITS_PER_BYTE k mod BITS_PER_DIGIT = s"
    by (simp_all add: BITS_PER_BYTE_def BITS_PER_DIGIT_def i_def s_def push_bit_eq_mult LOG2_BITS_PER_BYTE_def mult.commute)
  define left where "left = (k * BITS_PER_BYTE + BITS_PER_BYTE - 1) div BITS_PER_DIGIT"
  have left: "left = (if s + 7 < 30 then i else Suc i)"
  proof -
    have "left = (30 * i + (s + 7)) div 30" using i(2) by (simp add: left_def BITS_PER_BYTE_def BITS_PER_DIGIT_def mult.commute)
    also have "\<dots> = i + (s + 7) div 30" by simp
    finally show ?thesis using i(3) by auto
  qed
  have c: "char_at u k = ucast ((if left \<noteq> i \<and> left < length u then drop_bit s x OR push_bit (30 - s) (u ! left) else drop_bit s x) AND BYTE_MASK)"
    unfolding char_at_def Let_def right left_def [symmetric] by (simp add: x_def BITS_PER_DIGIT_def)
  show ?thesis
  proof (cases "left \<noteq> i \<and> left < length u")
    case True
    then have l: "left = Suc i" "Suc i < length u" using left by (simp_all split: if_splits)
    define y D' where "y = u ! Suc i" and "D' = dval (drop (Suc (Suc i)) u)"
    have D: "D = unat y + radix * D'" using l(2) by (simp add: D_def y_def D'_def Cons_nth_drop_Suc [symmetric])
    have xs: "unat x div 2 ^ s < 2 ^ (30 - s)"
      using x radix_split [of s] i(3) by (simp add: less_mult_imp_div_less)
    have "unat (char_at u k) = take_bit 8 (unat (drop_bit s x OR push_bit (30 - s) y))"
      using True l by (simp add: c y_def take_bit_8)
    also have "\<dots> = take_bit 8 (take_bit 32 (push_bit (30 - s) (unat y))) OR take_bit 8 (unat x div 2 ^ s)"
      by (simp add: unsigned_or_eq unsigned_push_bit_eq unat_drop or.commute)
    also have "\<dots> = take_bit 8 (push_bit (30 - s) (unat y) OR unat x div 2 ^ s)" by simp
    also have "push_bit (30 - s) (unat y) OR unat x div 2 ^ s = unat y * 2 ^ (30 - s) + unat x div 2 ^ s"
      by (rule nat_push_or [OF xs])
    also have "take_bit 8 \<dots> = take_bit 8 (unat x div 2 ^ s + 2 ^ (30 - s) * D)"
    proof -
      have "unat x div 2 ^ s + 2 ^ (30 - s) * D = unat y * 2 ^ (30 - s) + unat x div 2 ^ s + 256 * (2 ^ 22 * (2 ^ (30 - s) * D'))"
        unfolding D by (simp add: algebra_simps radix_def)
      then show ?thesis unfolding take_bit_8 by (simp only: mod_mult_self2)
    qed
    finally show ?thesis unfolding v take_bit_8 .
  next
    case False
    have "2 ^ (30 - s) * D mod 256 = 0"
    proof (cases "s + 7 < 30")
      case True
      then have "(2 :: nat) ^ 8 dvd 2 ^ (30 - s)" by (intro le_imp_power_dvd) simp
      then show ?thesis by (simp add: mod_eq_0_iff_dvd)
    next
      case F: False
      then have "D = 0" using False left by (simp add: D_def)
      then show ?thesis by simp
    qed
    then have "(unat x div 2 ^ s + 2 ^ (30 - s) * D) mod 256 = unat x div 2 ^ s mod 256"
      using mod_add_right_eq [of "unat x div 2 ^ s" "2 ^ (30 - s) * D" 256] by simp
    then show ?thesis using False unfolding v by (auto simp: c unat_drop)
  qed
qed

lemma vec_to_char_ok:
  assumes "digits_ok u" "u \<noteq> []"
  shows "bval (vec_to_char u) = dval u"
proof -
  define n where "n = nat (DIV_CEIL2 (int (length u * BITS_PER_DIGIT)) (int BITS_PER_BYTE))"
  have "0 < length u" using assms(2) by simp
  then have n: "n = (30 * length u - 1) div 8 + 1"
  proof -
    have "int (length u * BITS_PER_DIGIT) - 1 = int (30 * length u - 1)"
      using \<open>0 < length u\<close> unfolding BITS_PER_DIGIT_def by linarith
    then have "DIV_CEIL2 (int (length u * BITS_PER_DIGIT)) (int BITS_PER_BYTE) = int ((30 * length u - 1) div 8 + 1)"
      unfolding DIV_CEIL2_def BITS_PER_BYTE_def by (simp add: signed_divide_int_def sgn_if zdiv_int)
    then show ?thesis unfolding n_def by (simp only: nat_int)
  qed
  have "8 * k < 30 * length u" if "k < n" for k using that n \<open>0 < length u\<close> by linarith
  then have "bval (vec_to_char u) = dval u mod 256 ^ n"
    unfolding vec_to_char_def n_def [symmetric] by (intro bval_map_upt char_at_ok [OF assms(1)])
  moreover have "dval u < 256 ^ n"
  proof -
    have "radix ^ length u \<le> 256 ^ n"
    proof -
      have "30 * length u \<le> 8 * n"
      proof -
        have "m < 8 * (m div 8 + 1)" for m :: nat by presburger
        then have "30 * length u - 1 < 8 * n" unfolding n .
        then show ?thesis by linarith
      qed
      then have "(2 :: nat) ^ (30 * length u) \<le> 2 ^ (8 * n)" by (rule power_increasing) simp
      then show ?thesis unfolding radix_power by (simp add: power_mult)
    qed
    then show ?thesis using dval_less [OF assms(1)] by linarith
  qed
  ultimately show ?thesis by simp
qed

section \<open>From bytes to digits\<close>

lemma put_shift: "put_low (shift_up BITS_PER_BYTE 0 v) b = shift_up BITS_PER_BYTE (ucast b) v"
  by (cases v) (simp_all add: Let_def)

lemma from_char_loop_ok:
  "digits_ok v \<Longrightarrow> digits_ok (from_char_loop bs v) \<and> length (from_char_loop bs v) = length v \<and>
    dval (from_char_loop bs v) = (dval v * 256 ^ length bs + bval (rev bs)) mod radix ^ length v"
proof (induction bs arbitrary: v)
  case Nil
  then show ?case using dval_less [of v] by simp
next
  case (Cons b bs)
  let ?w = "shift_up BITS_PER_BYTE (ucast b) v"
  have w: "digits_ok ?w" "length ?w = length v" "dval ?w = (dval v * 256 + unat b) mod radix ^ length v"
    using shift_up_ok [OF Cons.prems, of 8 "ucast b"] by (simp_all add: BITS_PER_BYTE_def)
  have ih: "digits_ok (from_char_loop bs ?w)" "length (from_char_loop bs ?w) = length v"
    "dval (from_char_loop bs ?w) = (dval ?w * 256 ^ length bs + bval (rev bs)) mod radix ^ length v"
    using Cons.IH [OF w(1)] w(2) by simp_all
  have "((dval v * 256 + unat b) mod radix ^ length v * 256 ^ length bs + bval (rev bs)) mod radix ^ length v =
      ((dval v * 256 + unat b) * 256 ^ length bs + bval (rev bs)) mod radix ^ length v"
    by (intro mod_add_cong mod_mult_cong) simp_all
  also have "(dval v * 256 + unat b) * 256 ^ length bs + bval (rev bs) = dval v * 256 ^ length (b # bs) + bval (rev (b # bs))"
    by (simp add: bval_append algebra_simps)
  finally show ?case using ih w(3) by (simp add: put_shift)
qed

lemma vec_from_char_ok:
  assumes "n \<noteq> 0"
  shows "digits_ok (vec_from_char bs (replicate n 0))" "length (vec_from_char bs (replicate n 0)) = n"
    "dval (vec_from_char bs (replicate n 0)) = bval bs mod radix ^ n"
proof (atomize (full), cases bs rule: rev_cases)
  case Nil
  then show "digits_ok (vec_from_char bs (replicate n 0)) \<and> length (vec_from_char bs (replicate n 0)) = n \<and>
      dval (vec_from_char bs (replicate n 0)) = bval bs mod radix ^ n"
    by (simp add: vec_from_char_def)
next
  case (snoc cs b)
  obtain m where m: "n = Suc m" using assms by (cases n) auto
  let ?v = "(replicate n 0)[0 := ucast b] :: sc_digit list"
  have v: "digits_ok ?v" "length ?v = n" "dval ?v = unat b"
    using less_le_trans [OF unat_byte, of radix b] by (simp_all add: m radix_def [symmetric]) (simp add: radix_def)
  show "digits_ok (vec_from_char bs (replicate n 0)) \<and> length (vec_from_char bs (replicate n 0)) = n \<and>
      dval (vec_from_char bs (replicate n 0)) = bval bs mod radix ^ n"
    using from_char_loop_ok [OF v(1), of "rev cs"] v(2,3) snoc by (simp add: vec_from_char_def bval_append mult.commute add.commute)
qed

section \<open>One byte of the quotient\<close>

lemma carry_step: "e + d mod 256 = a + 256 \<Longrightarrow> e div 256 \<le> 1 \<Longrightarrow> e mod 256 + d = a + 256 * (d div 256 + (1 - e div 256))" for a d e :: nat
proof -
  have aux: "e = 256 * p + r \<Longrightarrow> d = 256 * s + t \<Longrightarrow> e + t = a + 256 \<Longrightarrow> p \<le> 1 \<Longrightarrow> r + d = a + 256 * (s + (1 - p))" for p r s t :: nat
    by (cases p) simp_all
  show "e + d mod 256 = a + 256 \<Longrightarrow> e div 256 \<le> 1 \<Longrightarrow> e mod 256 + d = a + 256 * (d div 256 + (1 - e div 256))"
    by (rule aux [OF mult_div_mod_eq [symmetric] mult_div_mod_eq [symmetric]])
qed

text \<open>The subtraction: what is written and the carry hold the difference.\<close>

lemma sub_mul_ok:
  "length y < length xk \<Longrightarrow> unat qk < 256 \<Longrightarrow> unat c < 256 \<Longrightarrow> sub_mul c qk y xk = (r, c') \<Longrightarrow>
    length r = length xk \<and> drop (length y) r = drop (length y) xk \<and> unat c' < 256 \<and>
    bval (take (length y) r) + unat qk * bval y + unat c = bval (take (length y) xk) + 256 ^ length y * unat c'"
proof (induction c qk y xk arbitrary: r rule: sub_mul.induct)
  case (3 c qk b y a xk)
  define d e where "d = c + ucast b * qk" and "e = (ucast a + BYTE_RADIX) - (d AND BYTE_MASK)"
  define n where "n = drop_bit BITS_PER_BYTE d + (1 - drop_bit BITS_PER_BYTE e)"
  obtain r1 where r1: "sub_mul n qk y xk = (r1, c')" "r = ucast (e AND BYTE_MASK) # r1"
    using 3(5) by (auto simp: d_def e_def n_def Let_def split: prod.splits)
  have m: "unat b * unat qk \<le> 255 * 255" using 3(3) unat_byte_le by (intro mult_le_mono) auto
  have d: "unat d = unat c + unat b * unat qk"
    unfolding d_def using m 3(4) by (subst unat_add_eq; subst unat_mult_eq; simp)
  have R: "unat BYTE_RADIX = 256" by (simp add: BYTE_RADIX_def)
  have a: "unat (ucast a + BYTE_RADIX) = unat a + 256"
  proof -
    have "unat a + 256 < 4294967296" using unat_byte [of a] by linarith
    then show ?thesis using R by (subst unat_add_eq) simp_all
  qed
  have e: "unat e + unat d mod 256 = unat a + 256"
    unfolding e_def using a by (subst unat_sub_eq) (simp_all add: unat_and_byte less_imp_le [OF mod_less_divisor] trans_le_add2)
  then have e1: "unat e div 256 \<le> 1" using unat_byte [of a] by linarith
  then have "unat (1 - drop_bit BITS_PER_BYTE e) = 1 - unat e div 256" by (subst unat_sub_eq) simp_all
  moreover define q m where "q = unat d div 256" and "m = unat d mod 256"
  ultimately have n1: "unat (1 - drop_bit BITS_PER_BYTE e) = 1 - unat e div 256" by simp
  have qm: "unat d = 256 * q + m" by (simp add: q_def m_def)
  have "unat d \<le> 255 * 256" using m 3(4) unfolding d by linarith
  then have "256 * q + m \<le> 255 * 256" unfolding qm .
  moreover have "unat e div 256 = 0 \<Longrightarrow> 0 < m" using e unfolding m_def by (auto simp: div_eq_0_iff)
  ultimately have lt: "q + (1 - unat e div 256) < 256" using e1 by (cases "unat e div 256 = 0") linarith+
  then have n: "unat n = unat d div 256 + (1 - unat e div 256)"
    unfolding n_def using n1 q_def by (subst unat_add_eq) simp_all
  then have "unat n < 256" using lt q_def by simp
  then have ih: "length r1 = length xk" "drop (length y) r1 = drop (length y) xk" "unat c' < 256"
    "bval (take (length y) r1) + unat qk * bval y + unat n = bval (take (length y) xk) + 256 ^ length y * unat c'"
    using 3(1) [OF d_def e_def _ 3(3) _ r1(1) [unfolded n_def]] 3(2) by (simp_all add: n_def)
  have "bval (take (length (b # y)) r) + unat qk * bval (b # y) + unat c =
      unat e mod 256 + unat d + 256 * (bval (take (length y) r1) + unat qk * bval y)"
    unfolding d r1(2) by (simp add: algebra_simps)
  also have "unat e mod 256 + unat d = unat a + 256 * unat n"  unfolding n by (rule carry_step [OF e e1])
  also have "unat a + 256 * unat n + 256 * (bval (take (length y) r1) + unat qk * bval y) =
      unat a + 256 * (bval (take (length y) xk) + 256 ^ length y * unat c')"
    using ih(4) by (simp add: algebra_simps)
  also have "\<dots> = bval (take (length (b # y)) (a # xk)) + 256 ^ length (b # y) * unat c'" by (simp add: algebra_simps)
  finally show ?case using ih r1(2) by simp
qed auto

lemma add_back_ok:
  "length y < length xk \<Longrightarrow> unat c \<le> 1 \<Longrightarrow> add_back c y xk = (r, c') \<Longrightarrow>
    length r = length xk \<and> drop (length y) r = drop (length y) xk \<and> unat c' \<le> 1 \<and>
    bval (take (length y) r) + 256 ^ length y * unat c' = bval (take (length y) xk) + bval y + unat c"
proof (induction c y xk arbitrary: r rule: add_back.induct)
  case (3 c b y a xk)
  define d where "d = c + (ucast a + ucast b :: sc_digit)"
  obtain r1 where r1: "add_back (drop_bit BITS_PER_BYTE d) y xk = (r1, c')" "r = ucast (d AND BYTE_MASK) # r1"
    using 3(4) by (auto simp: d_def Let_def split: prod.splits)
  have ab: "unat a < 256" "unat b < 256" by simp_all
  then have "unat a + unat b < 4294967296" by linarith
  then have "unat (ucast a + ucast b :: sc_digit) = unat a + unat b" by (subst unat_add_eq) simp_all
  then have d: "unat d = unat c + (unat a + unat b)" 
  proof -
    have "unat c + (unat a + unat b) < 4294967296" using ab 3(3) by linarith
    then show ?thesis unfolding d_def using \<open>unat (ucast a + ucast b :: sc_digit) = unat a + unat b\<close> by (subst unat_add_eq) simp_all
  qed
  have "unat d div 256 \<le> 1" using ab 3(3) unfolding d by linarith
  then have ih: "length r1 = length xk" "drop (length y) r1 = drop (length y) xk" "unat c' \<le> 1"
    "bval (take (length y) r1) + 256 ^ length y * unat c' = bval (take (length y) xk) + bval y + unat d div 256"
    using 3(1) [OF d_def _ _ r1(1)] 3(2) by simp_all
  have "bval (take (length (b # y)) r) + 256 ^ length (b # y) * unat c' =
      unat d mod 256 + 256 * (bval (take (length y) r1) + 256 ^ length y * unat c')"
    unfolding r1(2) by (simp add: algebra_simps)
  also have "\<dots> = unat d + 256 * (bval (take (length y) xk) + bval y)" unfolding ih(4) by simp
  finally show ?case using ih d r1(2) by simp
qed auto

text \<open>The guess from the leading bytes is the quotient or one more.\<close>

lemma guess_bounds:
  fixes X Y x3 y2 l m B :: nat
  assumes X: "X = x3 * B + l" "l < B" and Y: "Y = y2 * B + m" "m < B" and y2: "256 \<le> y2" and q: "X < 256 * Y"
  defines "g \<equiv> min (x3 div y2) 255"
  shows "X div Y \<le> g" "g \<le> X div Y + 1"
proof -
  have Y0: "0 < Y" using q by (cases Y) auto
  have le: "X div Y * Y \<le> X" by simp
  have lt: "X < (X div Y + 1) * Y" using dividend_less_div_times [OF Y0, of X] by simp
  have "X div Y < 256" using q by (simp add: less_mult_imp_div_less)
  moreover have "X div Y \<le> x3 div y2"
  proof -
    have "X div Y * y2 * B \<le> X div Y * Y" unfolding Y(1) by (simp add: algebra_simps)
    also note le
    also have "X < (x3 + 1) * B" using X by simp
    finally have "X div Y * y2 * B < (x3 + 1) * B" .
    then have "X div Y * y2 < x3 + 1" by (rule mult_less_cancel2 [THEN iffD1, THEN conjunct2])
    then show ?thesis using y2 by (simp add: less_eq_div_iff_mult_less_eq)
  qed
  ultimately show "X div Y \<le> g" unfolding g_def by simp
  show "g \<le> X div Y + 1"
  proof (rule ccontr)
    assume "\<not> g \<le> X div Y + 1"
    then obtain h where h: "g = Suc h" "X div Y + 1 \<le> h" by (cases g) auto
    have "g \<le> x3 div y2" "h < 255" using h(1) unfolding g_def by simp_all
    then have "g * y2 \<le> x3" using y2 by (simp add: less_eq_div_iff_mult_less_eq)
    then have "g * y2 * B \<le> X" unfolding X(1) by (metis mult_le_mono1 le_add1 le_trans)
    also have "X < h * Y" using lt h(2) by (meson less_le_trans mult_le_mono1)
    finally have "y2 * B < h * m" unfolding h(1) Y(1) by (simp add: algebra_simps)
    moreover have "h * m \<le> 255 * B" using \<open>h < 255\<close> Y(2) by (intro mult_le_mono) auto
    moreover have "256 * B \<le> y2 * B" using y2 by simp
    ultimately show False by linarith
  qed
qed

lemma guess_ok:
  assumes "2 \<le> length y" "y ! (length y - 1) \<noteq> 0" "length y < length xk" "bval xk < 256 * bval y"
  defines "q \<equiv> bval xk div bval y"
  shows "q \<le> unat (guess y xk)" "unat (guess y xk) \<le> q + 1" "unat (guess y xk) < 256"
proof -
  define n where "n = length y - 2"
  have n: "length y = Suc (Suc n)" using assms(1) by (simp add: n_def)
  define y2 x3 where "y2 = 256 * unat (y ! Suc n) + unat (y ! n)"
    and "x3 = 65536 * unat (xk ! Suc (Suc n)) + 256 * unat (xk ! Suc n) + unat (xk ! n)"
  have Y: "bval y = y2 * 256 ^ n + bval (take n y)"
  proof -
    have "bval (take (Suc (Suc n)) y) = bval (take n y) + 256 ^ n * unat (y ! n) + 256 ^ Suc n * unat (y ! Suc n)"
    proof -
      have l: "n < length y" "Suc n < length y" using n by simp_all
      show ?thesis unfolding bval_nth [OF l(2)] bval_nth [OF l(1)] ..
    qed
    moreover have "take (Suc (Suc n)) y = y" using n by simp
    ultimately show ?thesis unfolding y2_def by (simp add: algebra_simps)
  qed
  have y2: "256 \<le> y2"
  proof -
    have "1 \<le> unat (y ! Suc n)" using assms(2) n unat_gt_0 [of "y ! Suc n"] by simp
    then show ?thesis unfolding y2_def by linarith
  qed
  define hi where "hi = bval (drop (Suc (length y)) xk)"
  have X: "bval xk = bval (take n xk) + x3 * 256 ^ n + 256 ^ Suc (length y) * hi"
  proof -
    have "bval (take (Suc (Suc (Suc n))) xk) = bval (take n xk) + 256 ^ n * unat (xk ! n) + 256 ^ Suc n * unat (xk ! Suc n) +
        256 ^ Suc (Suc n) * unat (xk ! Suc (Suc n))"
    proof -
      have l: "n < length xk" "Suc n < length xk" "Suc (Suc n) < length xk" using assms(3) n by simp_all
      show ?thesis unfolding bval_nth [OF l(3)] bval_nth [OF l(2)] bval_nth [OF l(1)] ..
    qed
    then have "bval (take (Suc (length y)) xk) = bval (take n xk) + x3 * 256 ^ n" unfolding n x3_def by (simp add: algebra_simps)
    then show ?thesis using bval_parts [of "Suc (length y)" xk] assms(3) unfolding hi_def by simp
  qed
  have "256 * bval y < 256 ^ Suc (length y)" using bval_less [of y] by simp
  then have "256 ^ Suc (length y) * hi < 256 ^ Suc (length y)" using assms(4) X by linarith
  then have "hi = 0" by (cases hi) auto
  then have X0: "bval xk = x3 * 256 ^ n + bval (take n xk)" using X by simp
  have l: "bval (take n xk) < 256 ^ n" "bval (take n y) < 256 ^ n" using bval_take assms(3) n by simp_all
  have b: "unat (xk ! i) \<le> 255" "unat (y ! i) \<le> 255" for i by (rule unat_byte_le)+
  have push: "unat (push_bit k (ucast b :: sc_digit)) = unat b * 2 ^ k" if "k \<le> 16" for k and b :: sc_byte
  proof -
    have "unat b * 2 ^ k \<le> 255 * 2 ^ 16" using that unat_byte_le [of b] by (intro mult_le_mono power_increasing) auto
    then show ?thesis using unat_push_or [of 0 k "ucast b :: sc_digit"] by simp
  qed
  have uy: "unat (push_bit BITS_PER_BYTE (ucast (y ! Suc n)) + ucast (y ! n) :: sc_digit) = y2"
    using b(2) [of n] b(2) [of "Suc n"] push [of 8 "y ! Suc n"] by (subst unat_add_eq) (simp_all add: BITS_PER_BYTE_def y2_def)
  have ux: "unat (push_bit (2 * BITS_PER_BYTE) (ucast (xk ! Suc (Suc n))) + push_bit BITS_PER_BYTE (ucast (xk ! Suc n)) + ucast (xk ! n) :: sc_digit) = x3"
    using b(1) [of n] b(1) [of "Suc n"] b(1) [of "Suc (Suc n)"] push [of 8 "xk ! Suc n"] push [of 16 "xk ! Suc (Suc n)"]
    by (subst unat_add_eq; (subst unat_add_eq)?) (simp_all add: BITS_PER_BYTE_def x3_def)
  have "unat (guess y xk) = min (x3 div y2) 255"
    by (simp add: guess_def n Let_def word_le_nat_alt unat_div_eq uy ux BYTE_RADIX_def min_def)
  then show "q \<le> unat (guess y xk)" "unat (guess y xk) \<le> q + 1" "unat (guess y xk) < 256"
    unfolding q_def using guess_bounds [OF X0 l(1) Y l(2) y2 assms(4)] by simp_all
qed

lemma bval_update:
  "n < length r \<Longrightarrow> bval (drop (Suc n) r) = 0 \<Longrightarrow> bval (r[n := b]) = bval (take n r) + 256 ^ n * unat b"
  by (simp add: upd_conv_take_nth_drop bval_append min_def)

lemma quotient_eq:
  fixes X Y R g :: nat
  assumes "R + g * Y = X" "X div Y \<le> g" "0 < Y"
  shows "g = X div Y" "R = X mod Y"
proof -
  have "g \<le> X div Y" using assms(1,3) by (simp add: less_eq_div_iff_mult_less_eq)
  then show g: "g = X div Y" using assms(2) by simp
  show "R = X mod Y" using assms(1) div_mult_mod_eq [of X Y] unfolding g by linarith
qed

lemma quotient_less:
  fixes X Y g U M B d c' :: nat
  assumes "U + B * c' = X mod Y + B * d" "U < B" "X mod Y < B"
  shows "U = X mod Y" "c' = d"
proof -
  have "(U + B * c') mod B = (X mod Y + B * d) mod B" "(U + B * c') div B = (X mod Y + B * d) div B" unfolding assms(1) by simp_all
  then show "U = X mod Y" "c' = d" using assms(2,3) by simp_all
qed

text \<open>The loop body leaves the remainder and gives the quotient.\<close>

lemma div_byte_ok:
  assumes "2 \<le> length y" "y ! (length y - 1) \<noteq> 0" "length y < length xk" "bval xk < 256 * bval y" "div_byte y xk = (z, qk)"
  shows "length z = length xk" "unat qk = bval xk div bval y" "bval z = bval xk mod bval y"
proof -
  let ?n = "length y" and ?X = "bval xk" and ?Y = "bval y"
  let ?B = "256 ^ ?n :: nat"
  have Y0: "0 < ?Y" using assms(4) by simp
  define g where "g = guess y xk"
  have g: "?X div ?Y \<le> unat g" "unat g \<le> ?X div ?Y + 1" "unat g < 256"
    unfolding g_def by (rule guess_ok [OF assms(1-4)])+
  define hi where "hi = unat (xk ! ?n)"
  have X: "?X = bval (take ?n xk) + ?B * hi" and top: "bval (drop (Suc ?n) xk) = 0"
  proof -
    have *: "?X = bval (take ?n xk) + ?B * hi + 256 ^ Suc ?n * bval (drop (Suc ?n) xk)"
      using bval_parts [of "Suc ?n" xk] bval_nth [of ?n xk] assms(3) by (simp add: hi_def)
    have "256 * ?Y < 256 ^ Suc ?n" using bval_less [of y] by simp
    then have "256 ^ Suc ?n * bval (drop (Suc ?n) xk) < 256 ^ Suc ?n" using assms(4) * by linarith
    then show t: "bval (drop (Suc ?n) xk) = 0" by (cases "bval (drop (Suc ?n) xk)") auto
    show "?X = bval (take ?n xk) + ?B * hi" using * unfolding t by simp
  qed
  show "length z = length xk" "unat qk = ?X div ?Y" "bval z = ?X mod ?Y"
  proof (atomize (full), cases "g = 0")
    case True
    then have "z = xk" "qk = g" using assms(5) by (simp_all add: div_byte_def g_def [symmetric])
    then show "length z = length xk \<and> unat qk = ?X div ?Y \<and> bval z = ?X mod ?Y"
      using quotient_eq [of ?X "unat g" ?Y ?X] g(1) Y0 True by simp
  next
    case g0: False
    obtain r c where r: "sub_mul 0 g y xk = (r, c)" by fastforce
    note s = sub_mul_ok [OF assms(3) g(3) _ r]
    then have s: "length r = length xk" "drop ?n r = drop ?n xk" "unat c < 256"
      "bval (take ?n r) + unat g * ?Y = bval (take ?n xk) + ?B * unat c" by simp_all
    have rn: "r ! ?n = xk ! ?n" using s(1,2) assms(3) by (metis hd_drop_conv_nth)
    have rtop: "bval (drop (Suc ?n) r) = 0" using top s(2) by (metis drop_drop plus_1_eq_Suc)
    have T: "bval (take ?n r) < ?B" using s(1) assms(3) by (intro bval_take) simp
    have body: "div_byte y xk = (if c = 0 then (r, g)
        else let last = (ucast (r ! ?n) + BYTE_RADIX) - c; x2 = r[?n := ucast (last AND BYTE_MASK)]
          in if 1 - drop_bit BITS_PER_BYTE last = 0 then (x2, g)
             else let (x3, carry') = add_back 0 y x2
               in (if carry' = 0 then x3 else x3[?n := ucast ((ucast (x3 ! ?n) + 1) AND BYTE_MASK)], g - 1))"
      using g0 r unfolding div_byte_def g_def [symmetric] by (simp add: Let_def)
    show "length z = length xk \<and> unat qk = ?X div ?Y \<and> bval z = ?X mod ?Y"
    proof (cases "c = 0")
      case True
      have "bval r = bval (take ?n r) + ?B * hi"
        using bval_parts [of ?n r] bval_parts [of ?n xk] X s(1,2) assms(3) by simp
      then have "bval r + unat g * ?Y = ?X" using s(4) X True by simp
      from quotient_eq [OF this g(1) Y0] show ?thesis using assms(5) True s(1) unfolding body by simp
    next
      case c0: False
      define l where "l = (ucast (r ! ?n) + BYTE_RADIX) - c"
      have l: "unat l + unat c = hi + 256"
      proof -
        have "unat (ucast (r ! ?n) + BYTE_RADIX :: sc_digit) = hi + 256"
        proof -
          have "unat (xk ! ?n) + 256 < 4294967296" using unat_byte [of "xk ! ?n"] by linarith
          then show ?thesis by (subst unat_add_eq) (simp_all add: rn hi_def BYTE_RADIX_def)
        qed
        then show ?thesis unfolding l_def using s(3) by (subst unat_sub_eq) simp_all
      qed
      have c1: "1 \<le> unat c" using c0 unat_gt_0 [of c] by simp
      have hi: "hi < 256" unfolding hi_def by (rule unat_byte)
      define x2 where "x2 = r[?n := ucast (l AND BYTE_MASK)]"
      have x2: "length x2 = length xk" "take ?n x2 = take ?n r" "x2 ! ?n = ucast (l AND BYTE_MASK)"
        "bval (drop (Suc ?n) x2) = 0" "bval x2 = bval (take ?n r) + ?B * (unat l mod 256)"
        using s(1) assms(3) rtop bval_update [of ?n r "ucast (l AND BYTE_MASK)"] by (simp_all add: x2_def)
      show ?thesis
      proof (cases "unat l < 256")
        case False
        then have hc: "unat c \<le> hi" "unat l mod 256 = hi - unat c" "unat l div 256 = 1" using l c1 hi
          by (auto simp: div_nat_eqI mod_nat_eqI)
        have "1 - drop_bit BITS_PER_BYTE l = 0"
        proof -
          have "drop_bit BITS_PER_BYTE l = 1" using hc(3) by (intro unsigned_word_eqI [where ?'a = nat]) simp
          then show ?thesis by simp
        qed
        then have zq: "z = x2" "qk = g" using assms(5) c0 unfolding body l_def [symmetric] by (simp_all add: x2_def Let_def)
        have "bval x2 + unat g * ?Y = ?X"
        proof -
          have "?B * (hi - unat c) + ?B * unat c = ?B * hi" using hc(1) by (simp add: add_mult_distrib2 [symmetric])
          then show ?thesis using x2(5) [unfolded hc(2)] s(4) X by linarith
        qed
        from quotient_eq [OF this g(1) Y0] show ?thesis using x2(1) zq by simp
      next
        case True
        then have hc: "hi < unat c" using l by linarith
        have "drop_bit BITS_PER_BYTE l = 0" using True by (intro unsigned_word_eqI [where ?'a = nat]) simp
        then have n0: "1 - drop_bit BITS_PER_BYTE l \<noteq> 0" by simp
        obtain x3 c' where x3: "add_back 0 y x2 = (x3, c')" by fastforce
        have zq: "z = (if c' = 0 then x3 else x3[?n := ucast ((ucast (x3 ! ?n) + 1) AND BYTE_MASK)])" "qk = g - 1"
          using assms(5) c0 n0 x3 unfolding body l_def [symmetric] x2_def [symmetric] Let_def by simp_all
        have a: "length x3 = length xk" "drop ?n x3 = drop ?n x2" "unat c' \<le> 1"
          "bval (take ?n x3) + ?B * unat c' = bval (take ?n r) + ?Y"
          using add_back_ok [OF _ _ x3] assms(3) x2(1,2) by simp_all
        have "?X < unat g * ?Y"
        proof -
          have "?B * Suc hi \<le> ?B * unat c" using hc by (intro mult_le_mono2) simp
          then show ?thesis using X s(4) T unfolding mult_Suc_right by linarith
        qed
        then have "?X div ?Y < unat g" by (simp add: less_mult_imp_div_less)
        then have gq: "unat g = ?X div ?Y + 1" using g(2) by linarith
        have eq: "bval (take ?n x3) + ?B * unat c' = ?X mod ?Y + ?B * (unat c - hi)"
        proof -
          have "?B * (unat c - hi) + ?B * hi = ?B * unat c" using hc by (simp add: add_mult_distrib2 [symmetric])
          moreover have "unat g * ?Y = ?X div ?Y * ?Y + ?Y" unfolding gq by simp
          ultimately show ?thesis using a(4) s(4) X div_mult_mod_eq [of ?X ?Y] by linarith
        qed
        have lt: "bval (take ?n x3) < ?B" "?X mod ?Y < ?B"
          using a(1) assms(3) bval_take [of ?n x3] less_trans [OF mod_less_divisor [OF Y0] bval_less] by simp_all
        note u = quotient_less [OF eq lt]
        have "unat c' = 1" using u(2) a(3) hc by linarith
        then have c': "c' \<noteq> 0" "unat l = 255" using u(2) l hc by auto
        have x3n: "x3 ! ?n = x2 ! ?n" "bval (drop (Suc ?n) x3) = 0"
          using a(1,2) x2(1,4) assms(3) by (metis hd_drop_conv_nth, metis drop_drop plus_1_eq_Suc)
        have "unat (ucast (x3 ! ?n) + 1 :: sc_digit) = 256"
          unfolding x3n(1) x2(3) using c'(2) by (subst unat_add_eq) simp_all
        then have "bval z = ?X mod ?Y"
          using bval_update [of ?n x3 "ucast ((ucast (x3 ! ?n) + 1) AND BYTE_MASK)"] a(1) assms(3) x3n(2) u(1) c'(1) zq(1) by simp
        moreover have "unat qk = ?X div ?Y" unfolding zq(2) using gq by (subst unat_sub_eq) simp_all
        ultimately show ?thesis using zq(1) a(1) by simp
      qed
    qed
  qed
qed

section \<open>The whole division\<close>

lemma div_bytes_ok:
  assumes "2 \<le> length y" "y ! (length y - 1) \<noteq> 0"
  shows "k + length y \<le> length x \<Longrightarrow> bval (drop k x) < bval y \<Longrightarrow> div_bytes y k x q = (x', q') \<Longrightarrow>
    length x' = length x \<and> length q' = k + length q \<and> bval x' < bval y \<and>
    bval (take k q') * bval y + bval x' = bval x \<and> drop k q' = q"
proof (induction k arbitrary: x q)
  case (Suc k)
  have kx: "k < length x" "length y < length (drop k x)" using Suc.prems(1) by simp_all
  have d: "drop k x = x ! k # drop (Suc k) x" using kx(1) by (rule Cons_nth_drop_Suc [symmetric])
  have "bval (drop (Suc k) x) * 256 + unat (x ! k) < bval y * 256" using Suc.prems(2) by (intro digit_bound) simp_all
  then have X: "bval (drop k x) < 256 * bval y" unfolding d by simp
  obtain z b where z: "div_byte y (drop k x) = (z, b)" by fastforce
  note b = div_byte_ok [OF assms kx(2) X z]
  let ?x = "take k x @ z"
  have r: "div_bytes y k ?x (ucast b # q) = (x', q')" using Suc.prems(3) z by simp
  have Y0: "0 < bval y" using X by simp
  have zx: "k + length y \<le> length ?x" "bval (drop k ?x) < bval y" using b kx Y0 by simp_all
  have ih: "length x' = length x" "length q' = k + length (ucast b # q)" "bval x' < bval y"
    "bval (take k q') * bval y + bval x' = bval ?x" "drop k q' = ucast b # q"
    using Suc.IH [OF zx r] b(1) kx(1) by simp_all
  have q: "drop (Suc k) q' = q" "q' ! k = ucast b"
    using ih(2,5) by (metis drop_Suc list.sel(3) tl_drop, metis hd_drop_conv_nth le_add1 length_Cons less_add_Suc1 add_Suc_right list.sel(1))
  have "unat b < 256" unfolding b(2) using X by (simp add: less_mult_imp_div_less)
  then have ub: "unat (q' ! k) = bval (drop k x) div bval y" unfolding q(2) unat_to_byte b(2) [symmetric] by simp
  have "bval (take (Suc k) q') = bval (take k q') + 256 ^ k * unat (q' ! k)" using ih(2) by (intro bval_nth) simp
  then have "bval (take (Suc k) q') * bval y + bval x' = bval ?x + 256 ^ k * (unat (q' ! k) * bval y)"
    using ih(4) by (simp add: algebra_simps)
  also have "bval ?x = bval (take k x) + 256 ^ k * (bval (drop k x) mod bval y)" using kx(1) b(3) by (simp add: bval_append min_def)
  also have "bval (take k x) + 256 ^ k * (bval (drop k x) mod bval y) + 256 ^ k * (unat (q' ! k) * bval y) =
      bval (take k x) + 256 ^ k * (bval (drop k x) div bval y * bval y + bval (drop k x) mod bval y)"
    unfolding ub by (simp only: algebra_simps)
  also have "\<dots> = bval x" unfolding div_mult_mod_eq using bval_parts [of k x] kx(1) by simp
  finally show ?case using ih q(1) by simp
qed simp

lemma strip_bytes_ok:
  "bval (strip_bytes x) = bval x" "strip_bytes x \<noteq> [] \<Longrightarrow> last (strip_bytes x) \<noteq> 0" "length (strip_bytes x) \<le> length x"
proof -
  have "bval (rev (dropWhile (\<lambda>b. b = 0) xs)) = bval (rev xs)" for xs
    by (induction xs) (simp_all add: bval_append)
  from this [of "rev x"] show "bval (strip_bytes x) = bval x" by (simp add: strip_bytes_def)
  show "length (strip_bytes x) \<le> length x" using length_dropWhile_le [of _ "rev x"] by (simp add: strip_bytes_def)
  assume "strip_bytes x \<noteq> []"
  then show "last (strip_bytes x) \<noteq> 0"
    using hd_dropWhile [of "\<lambda>b. b = 0" "rev x"] by (simp add: strip_bytes_def last_rev)
qed

lemma bval_top: "x \<noteq> [] \<Longrightarrow> last x \<noteq> 0 \<Longrightarrow> 256 ^ (length x - 1) \<le> bval x"
proof -
  assume x: "x \<noteq> []" "last x \<noteq> 0"
  then obtain xs b where b: "x = xs @ [b]" "b \<noteq> 0" by (cases x rule: rev_cases) auto
  then have "1 \<le> unat b" using unat_gt_0 [of b] by simp
  then show ?thesis using b by (simp add: bval_append trans_le_add2)
qed

text \<open>Both copies stripped, divided, and the quotient and the remainder are those of the numbers.\<close>

lemma div_bytes_exact:
  assumes "digits_ok u" "digits_ok v" "u \<noteq> []" "v \<noteq> []" "256 \<le> dval v" "dval v \<le> dval u"
    and "x = strip_bytes (vec_to_char u)" "y = strip_bytes (vec_to_char v)"
    and "div_bytes y (nat (int (length x) - int (length y) + 1)) (x @ [0]) [] = (x', q)"
  shows "bval q = dval u div dval v" "bval (take (length y) x') = dval u mod dval v"
proof -
  have vals: "bval x = dval u" "bval y = dval v"
    using vec_to_char_ok assms(1-4) unfolding assms(7,8) strip_bytes_ok(1) by simp_all
  have y0: "y \<noteq> []" using vals(2) assms(5) by auto
  have ylast: "last y \<noteq> 0" using strip_bytes_ok(2) y0 unfolding assms(8) by simp
  have y2: "2 \<le> length y"
  proof (rule ccontr)
    assume "\<not> 2 \<le> length y"
    then have "(256 :: nat) ^ length y \<le> 256 ^ 1" by (intro power_increasing) auto
    then show False using bval_less [of y] vals(2) assms(5) by simp
  qed
  have yl: "y ! (length y - 1) \<noteq> 0" using ylast y0 by (simp add: last_conv_nth)
  have len: "length y \<le> length x"
  proof (rule ccontr)
    assume "\<not> length y \<le> length x"
    then have "(256 :: nat) ^ length x \<le> 256 ^ (length y - 1)" by (intro power_increasing) auto
    then show False using bval_less [of x] bval_top [OF y0 ylast] vals assms(6) by linarith
  qed
  define k where "k = Suc (length x - length y)"
  have k: "nat (int (length x) - int (length y) + 1) = k" using len by (simp add: k_def)
  have kl: "k + length y \<le> length (x @ [0])" using len by (simp add: k_def)
  have "bval (drop k (x @ [0])) < 256 ^ (length y - 1)"
  proof -
    have "length (drop k x) = length y - 1" using len y2 by (simp add: k_def)
    moreover have "bval (drop k (x @ [0])) = bval (drop k x)" using len y2 by (simp add: bval_append k_def)
    ultimately show ?thesis using bval_less [of "drop k x"] by simp
  qed
  then have "bval (drop k (x @ [0])) < bval y" using bval_top [OF y0 ylast] by linarith
  note d = div_bytes_ok [OF y2 yl kl this assms(9) [unfolded k]]
  then have q: "length q = k" by simp
  then have "take k q = q" by simp
  then have e: "length x' = length x + 1" "bval x' < bval y" "bval q * bval y + bval x' = bval x"
  proof -
    have "bval (take k q) * bval y + bval x' = bval (x @ [0])" using d by blast
    then show "bval q * bval y + bval x' = bval x" using \<open>take k q = q\<close> by (simp add: bval_append)
    show "length x' = length x + 1" "bval x' < bval y" using d by simp_all
  qed
  have m: "bval q = bval x div bval y" "bval x' = bval x mod bval y"
  proof -
    have "bval x div bval y \<le> bval q"
      unfolding e(3) [symmetric] using e(2) by simp
    from quotient_eq [OF _ this] e(2,3) show "bval q = bval x div bval y" "bval x' = bval x mod bval y" by (simp_all add: add.commute)
  qed
  show "bval q = dval u div dval v" using m(1) vals by simp
  have p: "bval x' = bval (take (length y) x') + 256 ^ length y * bval (drop (length y) x')" using e(1) len by (intro bval_parts) simp
  then have "256 ^ length y * bval (drop (length y) x') < 256 ^ length y" using e(2) bval_less [of y] by linarith
  then have "bval (drop (length y) x') = 0" by (cases "bval (drop (length y) x')") auto
  then show "bval (take (length y) x') = dval u mod dval v" using p m(2) vals by simp
qed

lemma vec_div_large_ok:
  assumes "digits_ok u" "digits_ok v" "u \<noteq> []" "v \<noteq> []" "256 \<le> dval v" "dval v \<le> dval u"
  shows "digits_ok (vec_div_large u v (replicate (length u) 0))" "length (vec_div_large u v (replicate (length u) 0)) = length u"
    "dval (vec_div_large u v (replicate (length u) 0)) = dval u div dval v"
proof -
  obtain x' q where d: "div_bytes (strip_bytes (vec_to_char v))
      (nat (int (length (strip_bytes (vec_to_char u))) - int (length (strip_bytes (vec_to_char v))) + 1))
      (strip_bytes (vec_to_char u) @ [0]) [] = (x', q)" by fastforce
  have e: "vec_div_large u v (replicate (length u) 0) = vec_from_char q (replicate (length u) 0)"
    by (simp add: vec_div_large_def d Let_def)
  have n: "length u \<noteq> 0" using assms(3) by simp
  have "dval u div dval v < radix ^ length u" using dval_less [OF assms(1)] by (meson div_le_dividend le_less_trans)
  then show "digits_ok (vec_div_large u v (replicate (length u) 0))" "length (vec_div_large u v (replicate (length u) 0)) = length u"
    "dval (vec_div_large u v (replicate (length u) 0)) = dval u div dval v"
    unfolding e vec_from_char_ok(3) [OF n] using div_bytes_exact(1) [OF assms refl refl d] vec_from_char_ok(1,2) [OF n] by simp_all
qed

lemma vec_rem_large_ok:
  assumes "digits_ok u" "digits_ok v" "u \<noteq> []" "v \<noteq> []" "256 \<le> dval v" "dval v \<le> dval u" "n \<noteq> 0" "dval v \<le> radix ^ n"
  shows "digits_ok (vec_rem_large u v (replicate n 0))" "length (vec_rem_large u v (replicate n 0)) = n"
    "dval (vec_rem_large u v (replicate n 0)) = dval u mod dval v"
proof -
  obtain x' q where d: "div_bytes (strip_bytes (vec_to_char v))
      (nat (int (length (strip_bytes (vec_to_char u))) - int (length (strip_bytes (vec_to_char v))) + 1))
      (strip_bytes (vec_to_char u) @ [0]) [] = (x', q)" by fastforce
  have e: "vec_rem_large u v (replicate n 0) = vec_from_char (take (length (strip_bytes (vec_to_char v))) x') (replicate n 0)"
    by (simp add: vec_rem_large_def d Let_def)
  have "dval u mod dval v < radix ^ n" using assms(5,8) by (intro less_le_trans [OF mod_less_divisor]) simp_all
  then show "digits_ok (vec_rem_large u v (replicate n 0))" "length (vec_rem_large u v (replicate n 0)) = n"
    "dval (vec_rem_large u v (replicate n 0)) = dval u mod dval v"
    unfolding e vec_from_char_ok(3) [OF assms(7)]
    using div_bytes_exact(2) [OF assms(1-6) refl refl d] vec_from_char_ok(1,2) [OF assms(7)] by simp_all
qed

text \<open>
  The array of the quotient has \<open>(xlen - ylen) + 10\<close> bytes, computed before the leading zeros are skipped. Its bytes
  fit in when the highest digit of the divisor is not zero, as the callers see to.
\<close>

lemma quotient_fits:
  assumes "digits_ok u" "digits_ok v" "u \<noteq> []" "v \<noteq> []" "radix ^ (length v - 1) \<le> dval v" "dval v \<le> dval u"
  shows "int (length (strip_bytes (vec_to_char u))) - int (length (strip_bytes (vec_to_char v))) + 1 \<le>
    (4 * int (length u) + 1 - 4 * int (length v)) + 10"
proof -
  define x where "x = strip_bytes (vec_to_char u)"
  define y where "y = strip_bytes (vec_to_char v)"
  have vals: "bval x = dval u" "bval y = dval v"
    using vec_to_char_ok assms(1-4) unfolding x_def y_def strip_bytes_ok(1) by simp_all
  have two: "(256 :: nat) ^ n = 2 ^ (8 * n)" "radix ^ n = 2 ^ (30 * n)" for n
    by (simp_all add: radix_def power_mult)
  have "(2 :: nat) ^ (30 * (length v - 1)) < 2 ^ (8 * length y)"
    using assms(5) bval_less [of y] unfolding vals two by linarith
  then have ylen: "30 * (length v - 1) < 8 * length y" by simp
  have "0 < radix ^ (length v - 1)" by (simp add: radix_def)
  then have dv: "0 < dval v" using assms(5) by linarith
  then have "x \<noteq> []" using vals(1) assms(6) by auto
  then have "256 ^ (length x - 1) \<le> bval x" using bval_top strip_bytes_ok(2) unfolding x_def by blast
  then have "(2 :: nat) ^ (8 * (length x - 1)) < 2 ^ (30 * length u)"
    using dval_less [OF assms(1)] unfolding vals two by linarith
  then have xlen: "8 * (length x - 1) < 30 * length u" by simp
  have "radix ^ (length v - 1) < radix ^ length u" using assms(5,6) dval_less [OF assms(1)] by linarith
  then have "length v - 1 < length u" by (simp add: radix_def)
  then have "length v \<le> length u" by simp
  with xlen ylen show ?thesis unfolding x_def [symmetric] y_def [symmetric] by linarith
qed

end
