(* ===== verification/Sc_Big_Facts.thy ===== *)
theory Sc_Big_Facts
  imports Sc_Big Sc_Nb_Div_Facts
begin

text \<open>
  Signs, complements and widths: what the conversions between sign with magnitude and two's complement
  do to the number a vector stands for.
\<close>

section \<open>The value and the invariant of a number\<close>

abbreviation sval :: "int \<Rightarrow> sc_digit list \<Rightarrow> int" where
  "sval s d \<equiv> s * int (dval d)"

definition big_val :: "sc_big \<Rightarrow> int" where
  "big_val u = sval (sgn_of u) (digit u)"

definition sm_ok :: "int \<Rightarrow> nat \<Rightarrow> sc_digit list \<Rightarrow> bool" where
  "sm_ok s nb d \<longleftrightarrow> s \<in> {- 1, 0, 1} \<and> 0 < nb \<and> digits_ok d \<and> length d = digits_for nb \<and> (s = 0 \<longleftrightarrow> dval d = 0)"

text \<open>
  A number is held well when its digits fit its width; it is normal when its value is one of the class
  with that width. The width of an \<open>sc_unsigned\<close> counts a sign bit, so both classes have the same upper bound.
\<close>

definition held :: "sc_big \<Rightarrow> bool" where
  "held u \<longleftrightarrow> sm_ok (sgn_of u) (nbits u) (digit u) \<and> dval (digit u) < 2 ^ nbits u"

definition fits :: "bool \<Rightarrow> nat \<Rightarrow> int \<Rightarrow> bool" where
  "fits sg nb x \<longleftrightarrow> (if sg then - (2 ^ (nb - 1)) else 0) \<le> x \<and> x < 2 ^ (nb - 1)"

definition normal :: "bool \<Rightarrow> sc_big \<Rightarrow> bool" where
  "normal sg u \<longleftrightarrow> sm_ok (sgn_of u) (nbits u) (digit u) \<and> fits sg (nbits u) (big_val u)"

text \<open>What assignment to a width does to a number.\<close>

definition wrap :: "bool \<Rightarrow> nat \<Rightarrow> int \<Rightarrow> int" where
  "wrap sg nb x = (if sg then signed_take_bit (nb - 1) x else take_bit (nb - 1) x)"

lemma wrap_fits: "0 < nb \<Longrightarrow> fits sg nb (wrap sg nb x)"
  by (simp add: fits_def wrap_def signed_take_bit_int_greater_eq_minus_exp signed_take_bit_int_less_exp)

lemma wrap_eq: "0 < nb \<Longrightarrow> fits sg nb x \<Longrightarrow> wrap sg nb x = x"
  by (auto simp: fits_def wrap_def signed_take_bit_int_eq_self take_bit_int_eq_self split: if_splits)

section \<open>Digits and bits\<close>

lemma digits_for_eq: "0 < nb \<Longrightarrow> digits_for nb = (nb - 1) div 30 + 1"
  by (cases nb) (simp_all add: digits_for_def DIV_CEIL_def DIV_CEIL2_def BITS_PER_DIGIT_def signed_divide_int_def sgn_if
      nat_add_distrib nat_div_distrib)

lemma width: "0 < nb \<Longrightarrow> nb = 30 * (digits_for nb - 1) + ((nb - 1) mod 30 + 1)"
  using mult_div_mod_eq [of 30 "nb - 1"] by (simp add: digits_for_eq)

lemma digits_for_pos: "0 < nb \<Longrightarrow> 0 < digits_for nb"
  by (simp add: digits_for_eq)

lemma digits_for_mono: "0 < m \<Longrightarrow> m \<le> n \<Longrightarrow> digits_for m \<le> digits_for n"
  by (simp add: digits_for_eq div_le_mono)

text \<open>The range of the digits is a multiple of the range of the bits.\<close>

lemma radix_digits_for:
  assumes "0 < nb"
  shows "radix ^ digits_for nb = 2 ^ nb * 2 ^ (30 * digits_for nb - nb)"
proof -
  have "nb \<le> 30 * digits_for nb" using width [OF assms] digits_for_pos [OF assms] mod_less_divisor [of 30 "nb - 1"] by linarith
  then show ?thesis by (simp add: radix_power power_add [symmetric])
qed

lemma pow_le_radix: "0 < nb \<Longrightarrow> 2 ^ nb \<le> radix ^ digits_for nb"
  by (simp add: radix_digits_for)

lemma mod_radix_mod: "0 < nb \<Longrightarrow> m \<le> nb \<Longrightarrow> x mod int (radix ^ digits_for nb) mod 2 ^ m = x mod 2 ^ m"
proof -
  assume nb: "0 < nb" "m \<le> nb"
  have "(2 :: nat) ^ m dvd radix ^ digits_for nb" using nb by (simp add: radix_digits_for le_imp_power_dvd)
  then have "int (2 ^ m) dvd int (radix ^ digits_for nb)" by (rule int_dvd_int_iff [THEN iffD2])
  then show ?thesis by (simp add: mod_mod_cancel)
qed

lemma dval_snoc: "d \<noteq> [] \<Longrightarrow> dval d = dval (butlast d) + radix ^ (length d - 1) * unat (d ! (length d - 1))"
proof -
  assume d: "d \<noteq> []"
  then have "d = butlast d @ [d ! (length d - 1)]" by (cases d rule: rev_cases) simp_all
  then have "dval d = dval (butlast d @ [d ! (length d - 1)])" by simp
  then show ?thesis using d by (simp add: dval_append)
qed

lemma trim_last_ok:
  assumes "digits_ok d" "d \<noteq> []"
  shows "digits_ok (trim_last k d)" "length (trim_last k d) = length d"
    "dval (trim_last k d) = dval d mod 2 ^ (30 * (length d - 1) + k)"
proof -
  let ?n = "length d - 1"
  have d: "digits_ok (butlast d)" "unat (d ! ?n) < radix" using assms by (auto simp: digits_ok_def dest: in_set_butlastD)
  have e: "trim_last k d = butlast d @ [d ! ?n AND one_and_ones k]"
    using assms(2) by (cases d rule: rev_cases) (simp_all add: trim_last_def)
  have "unat (d ! ?n) mod 2 ^ k < radix" using d(2) by (meson le_less_trans mod_less_eq_dividend)
  then show "digits_ok (trim_last k d)" "length (trim_last k d) = length d" using d(1) assms(2) unfolding e by simp_all
  have lt: "dval (butlast d) < radix ^ ?n" using dval_less [OF d(1)] by simp
  have "dval d mod (radix ^ ?n * 2 ^ k) = radix ^ ?n * (unat (d ! ?n) mod 2 ^ k) + dval (butlast d)"
    unfolding dval_snoc [OF assms(2)] mod_mult2_eq using lt by simp
  then show "dval (trim_last k d) = dval d mod 2 ^ (30 * ?n + k)" unfolding e by (simp add: dval_append radix_power power_add)
qed

lemma sign_bit:
  assumes "digits_ok d" "d \<noteq> []"
  shows "d ! (length d - 1) AND one_and_zeros j \<noteq> 0 \<longleftrightarrow> j < 32 \<and> bit (dval d) (30 * (length d - 1) + j)"
proof -
  let ?n = "length d - 1" and ?x = "d ! (length d - 1)"
  have "?x AND one_and_zeros j \<noteq> 0 \<longleftrightarrow> bit ?x j"
    using and_exp_eq_0_iff_not_bit [of ?x j] by (simp add: one_and_zeros_def push_bit_eq_mult)
  also have "\<dots> \<longleftrightarrow> j < 32 \<and> bit (unat ?x) j" by (auto simp: bit_unsigned_iff dest: bit_imp_le_length)
  also have "bit (unat ?x) j \<longleftrightarrow> bit (dval d) (30 * ?n + j)"
  proof -
    have "digits_ok (butlast d)" using assms by (auto simp: digits_ok_def dest: in_set_butlastD)
    then have "dval (butlast d) < radix ^ ?n" using dval_less by fastforce
    then have "dval d div radix ^ ?n = unat ?x" unfolding dval_snoc [OF assms(2)] by simp
    then show ?thesis unfolding bit_iff_odd by (simp add: radix_power power_add div_mult2_eq)
  qed
  finally show ?thesis .
qed

lemma wrap_cong: "0 < nb \<Longrightarrow> take_bit nb x = take_bit nb y \<Longrightarrow> wrap sg nb x = wrap sg nb y"
proof -
  assume nb: "0 < nb" "take_bit nb x = take_bit nb y"
  then have "take_bit (nb - 1) x = take_bit (nb - 1) y"
    by (metis diff_le_self min.absorb1 take_bit_take_bit)
  moreover have "signed_take_bit (nb - 1) x = signed_take_bit (nb - 1) y"
    using nb by (simp add: signed_take_bit_eq_iff_take_bit_eq)
  ultimately show ?thesis by (simp add: wrap_def)
qed

lemma wrap_mod: "0 < nb \<Longrightarrow> wrap sg nb (x mod int (radix ^ digits_for nb)) = wrap sg nb x"
  by (rule wrap_cong) (simp_all add: take_bit_eq_mod mod_radix_mod del: of_nat_power)

section \<open>The conversions\<close>

lemma check_for_zero_eq: "check_for_zero s d = (if dval d = 0 then 0 else s)" "check_zero d \<longleftrightarrow> dval d = 0"
proof -
  have "vec_find_first_nonzero d < 0 \<longleftrightarrow> length (skipped d) = 0"
    unfolding skipped_ok(5) by (simp add: vec_skip_leading_zeros_def vec_find_first_nonzero_def)
  also have "\<dots> \<longleftrightarrow> dval d = 0" by (simp add: skipped_ok(3))
  finally show "check_for_zero s d = (if dval d = 0 then 0 else s)" "check_zero d \<longleftrightarrow> dval d = 0"
    by (simp_all add: check_for_zero_def check_zero_def SC_ZERO_def)
qed

lemma convert_SM_to_2C_ok:
  assumes "digits_ok d" "s \<in> {- 1, 0, 1}" "s = 0 \<Longrightarrow> dval d = 0"
  shows "digits_ok (convert_SM_to_2C s d)" "length (convert_SM_to_2C s d) = length d"
    "int (dval (convert_SM_to_2C s d)) = sval s d mod int (radix ^ length d)"
proof -
  have "int (dval d) mod int (radix ^ length d) = int (dval d)"
    using dval_less [OF assms(1)] by (simp flip: of_nat_power zmod_int)
  then show "digits_ok (convert_SM_to_2C s d)" "length (convert_SM_to_2C s d) = length d"
    "int (dval (convert_SM_to_2C s d)) = sval s d mod int (radix ^ length d)"
    using vec_complement_ok [OF assms(1)] assms by (auto simp: convert_SM_to_2C_def SC_NEG_def)
qed

lemma signed_part:
  fixes D :: nat
  assumes "0 < nb"
  shows "bit D (nb - 1) \<Longrightarrow> signed_take_bit (nb - 1) (int D) = int D mod 2 ^ nb - 2 ^ nb"
    "bit D (nb - 1) \<Longrightarrow> 2 ^ (nb - 1) \<le> D mod 2 ^ nb"
    "\<not> bit D (nb - 1) \<Longrightarrow> signed_take_bit (nb - 1) (int D) = int D mod 2 ^ nb"
proof -
  have nb: "Suc (nb - 1) = nb" using assms by simp
  have b: "bit (int D) (nb - 1) = bit D (nb - 1)" by (simp add: bit_of_nat_iff_bit)
  show "bit D (nb - 1) \<Longrightarrow> signed_take_bit (nb - 1) (int D) = int D mod 2 ^ nb - 2 ^ nb"
    "\<not> bit D (nb - 1) \<Longrightarrow> signed_take_bit (nb - 1) (int D) = int D mod 2 ^ nb"
    using signed_take_bit_eq_take_bit_minus [of "nb - 1" "int D"] b nb by (simp_all add: take_bit_eq_mod)
  assume "bit D (nb - 1)"
  then have "bit (take_bit nb D) (nb - 1)" using assms by (simp add: bit_take_bit_iff)
  then have "2 ^ (nb - 1) \<le> take_bit nb D" using bit_take_bit_iff [of "nb - 1" "take_bit nb D" "nb - 1"] by (metis less_irrefl not_less take_bit_nat_eq_self)
  then show "2 ^ (nb - 1) \<le> D mod 2 ^ nb" by (simp add: take_bit_eq_mod)
qed

lemma convert_signed_2C_to_SM_ok:
  assumes "digits_ok d" "0 < nb" "length d = digits_for nb" "convert_signed_2C_to_SM nb d = (s, d')"
  shows "sm_ok s nb d'" "sval s d' = signed_take_bit (nb - 1) (int (dval d))"
proof -
  define j where "j = (nb - 1) mod 30"
  have ne: "d \<noteq> []" using digits_for_pos [OF assms(2)] assms(3) by auto
  have w: "nb = 30 * (length d - 1) + (j + 1)" using width [OF assms(2)] assms(3) by (simp add: j_def)
  then have w1: "30 * (length d - 1) + j = nb - 1" "30 * (length d - 1) + (j + 1) = nb" by linarith+
  have "j < 32" by (simp add: j_def less_trans [OF mod_less_divisor])
  then have sign: "d ! (length d - 1) AND one_and_zeros j \<noteq> 0 \<longleftrightarrow> bit (dval d) (nb - 1)"
    unfolding sign_bit [OF assms(1) ne] w1 by simp
  define e where "e = (if bit (dval d) (nb - 1) then vec_complement d else d)"
  have e: "digits_ok e" "length e = length d" "e \<noteq> []" using vec_complement_ok [OF assms(1)] assms(1) ne by (auto simp: e_def)
  have d': "d' = trim_last (j + 1) e"
    "s = (if bit (dval d) (nb - 1) then - 1 else check_for_zero 1 d')"
    using assms(4) sign unfolding convert_signed_2C_to_SM_def bit_ord_def BITS_PER_DIGIT_def j_def [symmetric]
    by (auto simp: e_def Let_def SC_NEG_def SC_POS_def)
  have t: "digits_ok d'" "length d' = length d" "dval d' = dval e mod 2 ^ nb"
    using trim_last_ok [OF e(1,3), of "j + 1"] unfolding d'(1) e(2) w1 by simp_all
  show "sm_ok s nb d'" "sval s d' = signed_take_bit (nb - 1) (int (dval d))"
  proof (atomize (full), cases "bit (dval d) (nb - 1)")
    case False
    then have s: "s = (if dval d' = 0 then 0 else 1)" "dval d' = dval d mod 2 ^ nb" using d'(2) t(3) by (simp_all add: check_for_zero_eq e_def)
    then have "sval s d' = int (dval d')" by simp
    then have "sval s d' = int (dval d) mod 2 ^ nb" unfolding s(2) by (simp add: zmod_int)
    then show "sm_ok s nb d' \<and> sval s d' = signed_take_bit (nb - 1) (int (dval d))"
      using signed_part(3) [OF assms(2) False] s t(1,2) assms(2,3) by (auto simp: sm_ok_def)
  next
    case True
    then have s: "s = - 1" "dval d' = dval (vec_complement d) mod 2 ^ nb" using d'(2) t(3) by (simp_all add: e_def)
    have "int (dval d') = - int (dval d) mod 2 ^ nb"
      unfolding s(2) of_nat_mod vec_complement_ok(1) [OF assms(1)] assms(3)
      using mod_radix_mod [OF assms(2) order_refl, of "- int (dval d)"] by simp
    moreover have m: "2 ^ (nb - 1) \<le> dval d mod 2 ^ nb" by (rule signed_part(2) [OF assms(2) True])
    moreover have "- int (dval d) mod 2 ^ nb = 2 ^ nb - int (dval d) mod 2 ^ nb"
    proof -
      have "0 < dval d mod 2 ^ nb" using m less_le_trans [OF _ m, of 0] by simp
      then have "int (dval d) mod 2 ^ nb \<noteq> 0" by (metis of_nat_0_less_iff of_nat_mod of_nat_numeral of_nat_power less_irrefl)
      then show ?thesis by (simp add: zmod_zminus1_eq_if)
    qed
    ultimately have v: "int (dval d') = 2 ^ nb - int (dval d) mod 2 ^ nb" by simp
    then have "sval s d' = signed_take_bit (nb - 1) (int (dval d))" using signed_part(1) [OF assms(2) True] s(1) by simp
    moreover have "dval d' \<noteq> 0"
    proof
      assume "dval d' = 0"
      then have "int (dval d) mod 2 ^ nb = 2 ^ nb" using v by simp
      then show False using pos_mod_bound [of "2 ^ nb" "int (dval d)"] by simp
    qed
    ultimately show "sm_ok s nb d' \<and> sval s d' = signed_take_bit (nb - 1) (int (dval d))"
      using s(1) t(1,2) assms(2,3) by (auto simp: sm_ok_def)
  qed
qed

lemma convert_unsigned_2C_to_SM_ok:
  assumes "digits_ok d" "0 < nb" "length d = digits_for nb" "convert_unsigned_2C_to_SM nb d = (s, d')"
  shows "sm_ok s nb d'" "sval s d' = take_bit (nb - 1) (int (dval d))"
proof -
  have ne: "d \<noteq> []" using digits_for_pos [OF assms(2)] assms(3) by auto
  have w: "30 * (length d - 1) + bit_ord (nb - 1) = nb - 1"
    using width [OF assms(2)] unfolding assms(3) bit_ord_def BITS_PER_DIGIT_def by linarith
  have d': "d' = trim_last (bit_ord (nb - 1)) d" "s = check_for_zero 1 d'"
    using assms(4) by (auto simp: convert_unsigned_2C_to_SM_def trim_unsigned_def Let_def SC_POS_def)
  have t: "digits_ok d'" "length d' = length d" "dval d' = dval d mod 2 ^ (nb - 1)"
    using trim_last_ok [OF assms(1) ne, of "bit_ord (nb - 1)"] unfolding d'(1) w by simp_all
  have s: "s = (if dval d' = 0 then 0 else 1)" by (simp add: d'(2) check_for_zero_eq)
  then show "sm_ok s nb d'" using t(1,2) assms(2,3) by (auto simp: sm_ok_def)
  show "sval s d' = take_bit (nb - 1) (int (dval d))" 
  proof -
    have "sval s d' = int (dval d')" using s by simp
    then show ?thesis unfolding t(3) by (simp add: take_bit_eq_mod zmod_int)
  qed
qed

lemma convert_2C_to_SM_ok:
  assumes "digits_ok d" "0 < nb" "length d = digits_for nb" "convert_2C_to_SM sg nb d = (s, d')"
  shows "sm_ok s nb d'" "sval s d' = wrap sg nb (int (dval d))"
  using convert_signed_2C_to_SM_ok [OF assms(1-3), of s d'] convert_unsigned_2C_to_SM_ok [OF assms(1-3), of s d'] assms(4)
  by (auto simp: convert_2C_to_SM_def wrap_def split: if_splits)

lemma convert_SM_to_2C_to_SM_ok:
  assumes "digits_ok d" "0 < nb" "length d = digits_for nb" "s \<in> {- 1, 0, 1}" "s = 0 \<Longrightarrow> dval d = 0"
    "convert_SM_to_2C_to_SM sg s nb d = (s', d')"
  shows "sm_ok s' nb d'" "sval s' d' = wrap sg nb (sval s d)"
proof -
  let ?e = "convert_SM_to_2C s d"
  have e: "digits_ok ?e" "length ?e = digits_for nb" "int (dval ?e) = sval s d mod int (radix ^ digits_for nb)"
    using convert_SM_to_2C_ok [OF assms(1,4,5)] assms(3) by simp_all
  have c: "convert_2C_to_SM sg nb ?e = (s', d')"
    using assms(6) by (simp add: convert_SM_to_2C_to_SM_def convert_2C_to_SM_def convert_signed_SM_to_2C_to_SM_def
        convert_unsigned_SM_to_2C_to_SM_def split: if_splits)
  note k = convert_2C_to_SM_ok [OF e(1) assms(2) e(2) c]
  show "sm_ok s' nb d'" by (rule k)
  show "sval s' d' = wrap sg nb (sval s d)" using k(2) unfolding e(3) wrap_mod [OF assms(2)] .
qed

section \<open>Copies and constructors\<close>

lemma vec_copy_ok:
  assumes "digits_ok d" "length u \<le> length d"
  shows "digits_ok (vec_copy (length u) u d)" "length (vec_copy (length u) u d) = length u"
    "dval (vec_copy (length u) u d) = dval d mod radix ^ length u"
  using assms digits_ok_part by (simp_all add: vec_copy_def mod_take)

lemma vec_copy_and_zero_ok:
  assumes "digits_ok d" "length d \<le> length u"
  shows "digits_ok (vec_copy_and_zero u d)" "length (vec_copy_and_zero u d) = length u" "dval (vec_copy_and_zero u d) = dval d"
  using assms by (simp_all add: vec_copy_and_zero_def vec_copy_def vec_zero_def dval_append)

lemma dval_array [simp]: "dval (array_of n w) = dval w"
  by (simp add: array_of_def dval_append)

lemma array_ok: "digits_ok w \<Longrightarrow> digits_ok (array_of n w)" "length w \<le> n \<Longrightarrow> length (array_of n w) = n"
  by (simp_all add: array_of_def)

lemma new_big_ok:
  assumes "digits_ok d" "dval d < 2 ^ num_bits sg nb" "s \<in> {- 1, 0, 1}" "s = 0 \<longleftrightarrow> dval d = 0" "0 < nb"
  shows "held (new_big sg s nb d)" "big_val (new_big sg s nb d) = sval s d" "nbits (new_big sg s nb d) = num_bits sg nb"
    "sgn_of (new_big sg s nb d) = s"
proof -
  define n where "n = num_bits sg nb"
  have n: "0 < n" using assms(5) by (simp add: n_def num_bits_def)
  define e where "e = digit (new_big sg s nb d)"
  have e: "e = (if digits_for n \<le> length d then vec_copy (digits_for n) (replicate (digits_for n) 0) d
      else vec_copy_and_zero (replicate (digits_for n) 0) d)"
    by (simp add: e_def new_big_def Let_def n_def)
  have lt: "dval d < radix ^ digits_for n" using assms(2) pow_le_radix [OF n] by (simp add: n_def)
  have ok: "digits_ok e \<and> length e = digits_for n \<and> dval e = dval d"
  proof (cases "digits_for n \<le> length d")
    case True
    then show ?thesis using vec_copy_ok [OF assms(1), of "replicate (digits_for n) 0"] lt unfolding e by simp
  next
    case False
    then show ?thesis using vec_copy_and_zero_ok [OF assms(1), of "replicate (digits_for n) 0"] unfolding e by simp
  qed
  have f: "sgn_of (new_big sg s nb d) = s" "nbits (new_big sg s nb d) = n" by (simp_all add: new_big_def Let_def n_def)
  show "held (new_big sg s nb d)" "big_val (new_big sg s nb d) = sval s d"
    using ok n assms(2-4) by (simp_all add: held_def sm_ok_def big_val_def f e_def [symmetric] n_def)
  show "nbits (new_big sg s nb d) = num_bits sg nb" "sgn_of (new_big sg s nb d) = s" using f by (simp_all add: n_def)
qed

lemma zero_big_ok: "0 < nb \<Longrightarrow> normal sg (zero_big sg nb)" "big_val (zero_big sg nb) = 0"
  by (simp_all add: zero_big_def normal_def sm_ok_def fits_def big_val_def SC_ZERO_def num_bits_def)

lemma default_big_ok: "normal sg (default_big sg)" "big_val (default_big sg) = 0"
  by (simp_all add: default_big_def zero_big_ok SC_DEFAULT_WL_def)

text \<open>A normal number is held well, and its sign is that of its value.\<close>

lemma sval_abs: "s \<in> {- 1, 0, 1} \<Longrightarrow> (s = 0 \<longleftrightarrow> dval d = 0) \<Longrightarrow> \<bar>sval s d\<bar> = int (dval d) \<and> sgn (sval s d) = s"
  by (auto simp: sgn_if abs_mult)

lemma normal_held: "normal sg u \<Longrightarrow> held u"
proof -
  assume u: "normal sg u"
  then have s: "sm_ok (sgn_of u) (nbits u) (digit u)" "fits sg (nbits u) (big_val u)" by (simp_all add: normal_def)
  have a: "\<bar>big_val u\<bar> = int (dval (digit u))" "0 < nbits u" using s(1) sval_abs by (auto simp: sm_ok_def big_val_def)
  have "\<bar>big_val u\<bar> \<le> 2 ^ (nbits u - 1)" using s(2) by (auto simp: fits_def split: if_splits)
  then have "int (dval (digit u)) \<le> int (2 ^ (nbits u - 1))" using a(1) by simp
  moreover have "(2 :: nat) ^ (nbits u - 1) < 2 ^ nbits u" using a(2) by (intro power_strict_increasing) simp_all
  ultimately have "dval (digit u) < 2 ^ nbits u" by (simp only: of_nat_le_iff)
  then show ?thesis using s(1) unfolding held_def by blast
qed

lemma held_facts:
  assumes "held u"
  shows "digits_ok (digit u)" "0 < nbits u" "ndigits u = digits_for (nbits u)" "sgn_of u \<in> {- 1, 0, 1}"
    "sgn_of u = 0 \<longleftrightarrow> dval (digit u) = 0" "dval (digit u) < 2 ^ nbits u" "sgn (big_val u) = sgn_of u"
    "\<bar>big_val u\<bar> = int (dval (digit u))" "digit u \<noteq> []"
proof -
  have s: "sm_ok (sgn_of u) (nbits u) (digit u)" "dval (digit u) < 2 ^ nbits u" using assms by (simp_all add: held_def)
  then show "digits_ok (digit u)" "0 < nbits u" "ndigits u = digits_for (nbits u)" "sgn_of u \<in> {- 1, 0, 1}"
    "sgn_of u = 0 \<longleftrightarrow> dval (digit u) = 0" "dval (digit u) < 2 ^ nbits u" unfolding sm_ok_def by blast+
  show "sgn (big_val u) = sgn_of u" "\<bar>big_val u\<bar> = int (dval (digit u))"
    using s(1) sval_abs by (auto simp: sm_ok_def big_val_def)
  show "digit u \<noteq> []" using s(1) digits_for_pos [of "nbits u"] by (auto simp: sm_ok_def)
qed

text \<open>A value that fits turns what is held well into what is normal.\<close>

lemma held_normal: "held u \<Longrightarrow> fits sg (nbits u) (big_val u) \<Longrightarrow> normal sg u"
  by (simp add: held_def normal_def)

end
