(* ===== verification/Sc_Big_Arith_Facts.thy ===== *)
theory Sc_Big_Arith_Facts
  imports Sc_Big_Arith Sc_Big_Facts
begin

text \<open>
  The operators are exact: each computes the sum, difference, product, truncated quotient and remainder of
  the integers its operands stand for, and compares them.
\<close>

section \<open>Addition\<close>

lemma single_ok: "single u \<Longrightarrow> u = [u ! 0]" "single u \<Longrightarrow> dval u = unat (u ! 0)" "single u \<Longrightarrow> u \<noteq> []"
  by (cases u; simp add: single_def)+

lemma add_digits_ok:
  assumes "digits_ok u" "digits_ok v"
  defines "d \<equiv> if single u \<and> single v then let carry = u ! 0 + v ! 0 in [carry AND DIGIT_MASK, drop_bit BITS_PER_DIGIT carry]
    else if length v \<le> length u then vec_add u v else vec_add v u"
  shows "digits_ok d" "dval d = dval u + dval v"
proof -
  have "digits_ok d \<and> dval d = dval u + dval v"
  proof (cases "single u \<and> single v")
    case True
    let ?c = "u ! 0 + v ! 0"
    have uv: "dval u = unat (u ! 0)" "dval v = unat (v ! 0)" using True single_ok(2) by blast+
    have lt: "unat (u ! 0) < radix" "unat (v ! 0) < radix"
      using assms(1,2) single_ok(1) [of u] single_ok(1) [of v] True by (metis digits_ok_simps(2))+
    have c: "unat ?c = unat (u ! 0) + unat (v ! 0)" using lt by (intro unat_add_eq) (simp add: radix_def)
    then have "unat ?c div radix < radix" using lt by (simp add: radix_def)
    then show ?thesis using True c uv unfolding d_def by (simp add: Let_def)
  next
    case False
    then show ?thesis
      using vec_add_ok [OF assms(1,2)] vec_add_ok [OF assms(2,1)] unfolding d_def by (auto simp: Let_def)
  qed
  then show "digits_ok d" "dval d = dval u + dval v" by blast+
qed

lemma sub_digits_ok:
  assumes "digits_ok u" "digits_ok v" "length v \<le> length u" "dval v \<le> dval u"
  defines "d \<equiv> if single u \<and> single v then [u ! 0 - v ! 0] else vec_sub u v"
  shows "digits_ok d" "dval d = dval u - dval v"
proof -
  have "digits_ok d \<and> dval d = dval u - dval v"
  proof (cases "single u \<and> single v")
    case True
    have uv: "dval u = unat (u ! 0)" "dval v = unat (v ! 0)" using True single_ok(2) by blast+
    have lt: "unat (u ! 0) < radix" using assms(1) single_ok(1) [of u] True by (metis digits_ok_simps(2))
    have "unat (u ! 0 - v ! 0) = unat (u ! 0) - unat (v ! 0)" using assms(4) uv by (intro unat_sub_eq) simp
    then show ?thesis using True uv lt unfolding d_def by simp
  next
    case False
    then show ?thesis using vec_sub_ok [OF assms(1-4)] unfolding d_def by auto
  qed
  then show "digits_ok d" "dval d = dval u - dval v" by blast+
qed

lemma vec_cmp_cases:
  assumes "digits_ok u" "digits_ok v"
  shows "vec_cmp (skipped u) (skipped v) = 0 \<longleftrightarrow> dval u = dval v" "0 < vec_cmp (skipped u) (skipped v) \<longleftrightarrow> dval v < dval u"
    "vec_cmp (skipped u) (skipped v) < 0 \<longleftrightarrow> dval u < dval v"
  using vec_cmp_ok [OF assms] by (auto simp: sgn_if split: if_splits)

lemma skipped_longer:
  assumes "digits_ok u" "digits_ok v" "dval u \<le> dval v"
  shows "length (skipped u) \<le> length (skipped v)"
proof (rule ccontr)
  assume n: "\<not> length (skipped u) \<le> length (skipped v)"
  then have "skipped u \<noteq> []" by auto
  then have "dval (skipped v) < dval (skipped u)"
    using dval_length_less [of "skipped v" "skipped u"] skipped_ok(2) [OF assms(2)] skipped_ok(4) n by simp
  then show False using assms(3) by (simp add: skipped_ok(1))
qed

text \<open>
  The operands of a helper: a sign that is not zero, digits that are not all zero, and a width the digits fit.
\<close>

definition operand :: "int \<Rightarrow> nat \<Rightarrow> sc_digit list \<Rightarrow> bool" where
  "operand s nb d \<longleftrightarrow> s \<in> {- 1, 1} \<and> 0 < nb \<and> digits_ok d \<and> dval d \<noteq> 0 \<and> dval d < 2 ^ nb"

lemma operandD:
  assumes "operand s nb d"
  shows "s = - 1 \<or> s = 1" "0 < nb" "digits_ok d" "dval d \<noteq> 0" "dval d < 2 ^ nb" "digits_ok (skipped d)" "skipped d \<noteq> []"
    "dval (skipped d) = dval d"
  using assms skipped_ok(2) by (auto simp: operand_def skipped_ok(1,3))

lemma held_operand: "held u \<Longrightarrow> sgn_of u \<noteq> SC_ZERO \<Longrightarrow> operand (sgn_of u) (nbits u) (digit u)"
  using held_facts [of u] by (auto simp: operand_def SC_ZERO_def)

lemma operand_uminus: "operand s nb d \<Longrightarrow> operand (- s) nb d"
  by (auto simp: operand_def)

text \<open>What the helpers build is a number with the sign, the digits and the width they name.\<close>

lemma num_bits_ge: "nb \<le> num_bits sg nb"
  by (simp add: num_bits_def)

lemma new_operand:
  assumes "digits_ok d" "dval d < 2 ^ nb" "s = - 1 \<or> s = 1" "dval d \<noteq> 0" "0 < nb"
  shows "held (new_big sg s nb (array_of n d))" "big_val (new_big sg s nb (array_of n d)) = sval s d"
    "nbits (new_big sg s nb (array_of n d)) = num_bits sg nb"
proof -
  have "(2 :: nat) ^ nb \<le> 2 ^ num_bits sg nb" by (intro power_increasing num_bits_ge) simp
  then have "dval (array_of n d) < 2 ^ num_bits sg nb" using less_le_trans [OF assms(2)] by simp
  from new_big_ok [OF array_ok(1) [OF assms(1)] this, of s] assms(3-5)
  show "held (new_big sg s nb (array_of n d))" "big_val (new_big sg s nb (array_of n d)) = sval s d"
    "nbits (new_big sg s nb (array_of n d)) = num_bits sg nb" by auto
qed

lemma pow_max: "a < 2 ^ m \<Longrightarrow> b < 2 ^ n \<Longrightarrow> a < 2 ^ max m n \<and> b < 2 ^ max m n \<and> a + b < (2 :: nat) ^ (max m n + 1)"
proof -
  assume ab: "a < 2 ^ m" "b < 2 ^ n"
  have "(2 :: nat) ^ m \<le> 2 ^ max m n" "(2 :: nat) ^ n \<le> 2 ^ max m n" by (intro power_increasing; simp)+
  then have "a < 2 ^ max m n" "b < 2 ^ max m n" using ab by linarith+
  then show ?thesis by simp
qed

lemma ADD_HELPER_ok:
  fixes sg :: bool
  assumes "operand us unb ud" "operand vs vnb vd"
  defines "w \<equiv> ADD_HELPER sg us unb ud vs vnb vd"
  shows "held w" "big_val w = sval us ud + sval vs vd"
    "big_val w = 0 \<or> nbits w = num_bits sg (if us = vs then max unb vnb + 1 else max unb vnb)"
proof -
  let ?u = "skipped ud" and ?v = "skipped vd"
  note u = operandD [OF assms(1)] and v = operandD [OF assms(2)]
  note m = pow_max [OF u(5) v(5)]
  have "held w \<and> big_val w = sval us ud + sval vs vd \<and>
    (big_val w = 0 \<or> nbits w = num_bits sg (if us = vs then max unb vnb + 1 else max unb vnb))"
  proof (cases "us = vs")
    case True
    note a = add_digits_ok [OF u(6) v(6)]
    have "dval ?u + dval ?v < 2 ^ (max unb vnb + 1)" "dval ?u + dval ?v \<noteq> 0" using m u(4,8) v(8) by simp_all
    from new_operand [OF a(1), unfolded a(2), OF this(1) u(1) this(2)] True u(8) v(8)
    show ?thesis unfolding w_def ADD_HELPER_def by (simp add: Let_def algebra_simps)
  next
    case False
    then have vs: "vs = - us" using u(1) v(1) by auto
    note c = vec_cmp_cases [OF u(3) v(3)]
    consider "dval ud = dval vd" | "dval vd < dval ud" | "dval ud < dval vd" by linarith
    then show ?thesis
    proof cases
      case 1
      then have "w = default_big sg" using False c(1) unfolding w_def ADD_HELPER_def by (simp add: Let_def)
      then show ?thesis using default_big_ok [of sg] normal_held 1 vs by simp
    next
      case 2
      then have le: "length ?v \<le> length ?u" "dval ?v \<le> dval ?u" using skipped_longer [OF v(3) u(3)] u(8) v(8) by simp_all
      note s = sub_digits_ok [OF u(6) v(6) le]
      have "dval ?u - dval ?v < 2 ^ max unb vnb" "dval ?u - dval ?v \<noteq> 0" using m 2 u(8) v(8) by (simp_all add: less_imp_diff_less)
      from new_operand [OF s(1), unfolded s(2), OF this(1) u(1) this(2)] False c 2 u(2,8) v(8) vs
      show ?thesis unfolding w_def ADD_HELPER_def by (simp add: Let_def algebra_simps of_nat_diff)
    next
      case 3
      then have le: "length ?u \<le> length ?v" "dval ?u \<le> dval ?v" using skipped_longer [OF u(3) v(3)] u(8) v(8) by simp_all
      note s = sub_digits_ok [OF v(6) u(6) le]
      have us: "- us = - 1 \<or> - us = 1" using u(1) by auto
      have "dval ?v - dval ?u < 2 ^ max unb vnb" "dval ?v - dval ?u \<noteq> 0" using m 3 u(8) v(8) by (simp_all add: less_imp_diff_less)
      from new_operand [OF s(1), unfolded s(2), OF this(1) us this(2)] False c 3 u(2,8) v(8) vs
      show ?thesis unfolding w_def ADD_HELPER_def by (simp add: Let_def algebra_simps of_nat_diff conj_commute)
    qed
  qed
  then show "held w" "big_val w = sval us ud + sval vs vd"
    "big_val w = 0 \<or> nbits w = num_bits sg (if us = vs then max unb vnb + 1 else max unb vnb)" by blast+
qed

section \<open>Multiplication\<close>

lemma digit_lt: "digits_ok u \<Longrightarrow> u \<noteq> [] \<Longrightarrow> unat (u ! 0) < radix"
  by (cases u) simp_all

lemma HALF_DIGIT_RADIX_eq: "u < HALF_DIGIT_RADIX \<longleftrightarrow> unat u < half"
  by (simp add: word_less_nat_alt HALF_DIGIT_RADIX_def BITS_PER_HALF_DIGIT_eq half_def)

lemma mul_digits_ok:
  assumes "digits_ok u" "digits_ok v"
  shows "digits_ok (mul_digits u v)" "dval (mul_digits u v) = dval u * dval v"
proof -
  have "digits_ok (mul_digits u v) \<and> dval (mul_digits u v) = dval u * dval v"
    using vec_mul_small_ok [OF assms(2), of "u ! 0"] vec_mul_small_ok [OF assms(1), of "v ! 0"] single_ok(2)
      vec_mul_ok [OF assms, of "replicate (length u + length v) 0"]
      vec_mul_ok [OF assms(2,1), of "replicate (length u + length v) 0"]
    by (auto simp: mul_digits_def HALF_DIGIT_RADIX_eq mult.commute)
  then show "digits_ok (mul_digits u v)" "dval (mul_digits u v) = dval u * dval v" by blast+
qed

lemma half_product:
  fixes a b :: sc_digit
  assumes "unat a < half" "unat b < half"
  shows "unat (a * b) = unat a * unat b \<and> unat a * unat b < radix"
proof -
  have "unat a * unat b < half * half" using assms by (intro mult_strict_mono) simp_all
  then have lt: "unat a * unat b < radix" by (simp add: radix_half)
  then have "unat a * unat b < 2 ^ 32" by (simp add: radix_def)
  then show ?thesis using lt by (simp add: unat_mult_eq)
qed

lemma unat_one: "unat (1 :: u32) = 1"
  by simp

lemma MUL_HELPER_ok:
  fixes sg :: bool
  assumes "operand us unb ud" "operand vs vnb vd"
  defines "w \<equiv> MUL_HELPER sg (us * vs) unb ud vnb vd"
  shows "held w" "big_val w = sval us ud * sval vs vd" "nbits w = num_bits sg (unb + vnb)"
proof -
  let ?u = "skipped ud" and ?v = "skipped vd"
  note u = operandD [OF assms(1)] and v = operandD [OF assms(2)]
  define d where "d = (if single ?v \<and> ?v ! 0 = 1 then ?u else if single ?u \<and> ?u ! 0 = 1 then ?v
    else if single ?u \<and> single ?v \<and> ?u ! 0 < HALF_DIGIT_RADIX \<and> ?v ! 0 < HALF_DIGIT_RADIX then [?u ! 0 * ?v ! 0]
    else mul_digits ?u ?v)"
  have d: "digits_ok d \<and> dval d = dval ?u * dval ?v"
  proof -
    show ?thesis
      using u(6) v(6) mul_digits_ok [OF u(6) v(6)] half_product [of "?u ! 0" "?v ! 0"] single_ok(2) [of ?u] single_ok(2) [of ?v]
      unfolding d_def by (auto simp: HALF_DIGIT_RADIX_eq)
  qed
  have "dval ?u * dval ?v < 2 ^ unb * 2 ^ vnb" using u(5,8) v(5,8) by (intro mult_strict_mono) simp_all
  then have "dval d < 2 ^ (unb + vnb)" using d by (simp add: power_add)
  moreover have "us * vs = - 1 \<or> us * vs = 1" "dval d \<noteq> 0" "0 < unb + vnb" using u(1,2,4,8) v(1,4,8) d by auto
  ultimately show "held w" "big_val w = sval us ud * sval vs vd" "nbits w = num_bits sg (unb + vnb)"
    using new_operand [of d "unb + vnb" "us * vs"] d u(8) v(8)
    unfolding w_def MUL_HELPER_def Let_def d_def [symmetric] by (simp_all add: ac_simps)
qed

section \<open>Division and remainder\<close>

lemma take_array: "digits_ok w \<Longrightarrow> dval w < radix ^ k \<Longrightarrow> digits_ok (take k (array_of n w)) \<and> dval (take k (array_of n w)) = dval w"
proof -
  assume w: "digits_ok w" "dval w < radix ^ k"
  have a: "digits_ok (array_of n w)" by (rule array_ok(1) [OF w(1)])
  show ?thesis
  proof (cases "k \<le> length (array_of n w)")
    case True
    then show ?thesis using mod_take [OF a True] w digits_ok_part(1) [OF a] by simp
  next
    case False
    then show ?thesis using a by simp
  qed
qed

lemma divisor_large:
  assumes "digits_ok v" "v \<noteq> []" "last v \<noteq> 0" "\<not> (single v \<and> v ! 0 < HALF_DIGIT_RADIX)"
  shows "256 \<le> dval v"
proof (cases "single v")
  case True
  then have "half \<le> unat (v ! 0)" using assms(4) by (simp add: HALF_DIGIT_RADIX_eq not_less)
  then show ?thesis using single_ok(2) [OF True] by (simp add: half_def)
next
  case False
  then have "1 \<le> length v - 1" using assms(2) by (cases v) (auto simp: single_def Suc_le_eq)
  then have "radix ^ 1 \<le> radix ^ (length v - 1)" by (intro power_increasing) (simp_all add: Suc_le_eq)
  then show ?thesis using dval_ge [OF assms(2,3)] by (simp add: radix_def)
qed

text \<open>The divisions a helper chooses from for \<open>u > v\<close>: by a small digit, or the long division.\<close>

lemma division_parts:
  assumes "operand us unb ud" "operand vs vnb vd" "dval vd < dval ud"
  defines "u \<equiv> skipped ud" and "v \<equiv> skipped vd"
  shows "single v \<Longrightarrow> v ! 0 < HALF_DIGIT_RADIX \<Longrightarrow>
      digits_ok (vec_div_small u (v ! 0)) \<and> dval (vec_div_small u (v ! 0)) = dval ud div dval vd"
    "single v \<Longrightarrow> v ! 0 < HALF_DIGIT_RADIX \<Longrightarrow>
      unat (vec_rem_small u (v ! 0)) = dval ud mod dval vd \<and> unat (vec_rem_small u (v ! 0)) < radix"
    "\<not> (single v \<and> v ! 0 < HALF_DIGIT_RADIX) \<Longrightarrow> digits_ok (vec_div_large u v (replicate (length u) 0)) \<and>
      dval (vec_div_large u v (replicate (length u) 0)) = dval ud div dval vd"
    "\<not> (single v \<and> v ! 0 < HALF_DIGIT_RADIX) \<Longrightarrow> digits_ok (vec_rem_large u v (replicate (length u) 0)) \<and>
      dval (vec_rem_large u v (replicate (length u) 0)) = dval ud mod dval vd"
proof -
  note u = operandD [OF assms(1), folded u_def] and v = operandD [OF assms(2), folded v_def]
  have last: "last v \<noteq> 0" using skipped_ok(4) v(7) unfolding v_def by blast
  have le: "dval v \<le> dval u" using assms(3) u(8) v(8) by simp
  have one: "single v \<Longrightarrow> dval vd = unat (v ! 0)" using single_ok(2) [of v] v(8) by simp
  have v0: "single v \<Longrightarrow> v ! 0 \<noteq> 0" using one v(4) by (auto simp: unat_eq_0)
  show "single v \<Longrightarrow> v ! 0 < HALF_DIGIT_RADIX \<Longrightarrow>
      digits_ok (vec_div_small u (v ! 0)) \<and> dval (vec_div_small u (v ! 0)) = dval ud div dval vd"
    using vec_div_small_ok [OF u(6) _ v0] one u(8) by (simp add: HALF_DIGIT_RADIX_eq)
  show "unat (vec_rem_small u (v ! 0)) = dval ud mod dval vd \<and> unat (vec_rem_small u (v ! 0)) < radix"
    if x: "single v" "v ! 0 < HALF_DIGIT_RADIX"
  proof -
    have r: "unat (vec_rem_small u (v ! 0)) = dval u mod unat (v ! 0)"
      using vec_rem_small_ok [OF u(6) _ v0 [OF x(1)]] x by (simp add: HALF_DIGIT_RADIX_eq)
    have "unat (vec_rem_small u (v ! 0)) < unat (v ! 0)" unfolding r using v0 [OF x(1)] by (simp add: unat_gt_0)
    then show ?thesis using r one [OF x(1)] u(8) x(2) by (simp add: HALF_DIGIT_RADIX_eq radix_def half_def)
  qed
  have large: "\<not> (single v \<and> v ! 0 < HALF_DIGIT_RADIX) \<Longrightarrow> 256 \<le> dval v" by (rule divisor_large [OF v(6,7) last])
  have vl: "dval v \<le> radix ^ length u" using le dval_less [OF u(6)] by linarith
  have un: "length u \<noteq> 0" using u(7) by simp
  show "\<not> (single v \<and> v ! 0 < HALF_DIGIT_RADIX) \<Longrightarrow> digits_ok (vec_div_large u v (replicate (length u) 0)) \<and>
      dval (vec_div_large u v (replicate (length u) 0)) = dval ud div dval vd"
    "\<not> (single v \<and> v ! 0 < HALF_DIGIT_RADIX) \<Longrightarrow> digits_ok (vec_rem_large u v (replicate (length u) 0)) \<and>
      dval (vec_rem_large u v (replicate (length u) 0)) = dval ud mod dval vd"
    using vec_div_large_ok [OF u(6) v(6) u(7) v(7) large le]
      vec_rem_large_ok [OF u(6) v(6) u(7) v(7) large le un vl] u(8) v(8) by simp_all
qed

text \<open>What the helpers choose for \<open>u > v\<close>: one digit, a small divisor, or the long division.\<close>

lemma div_choice:
  fixes n m :: nat
  assumes "operand us unb ud" "operand vs vnb vd" "dval vd < dval ud" "length (skipped ud) \<le> m"
  defines "u \<equiv> skipped ud" and "v \<equiv> skipped vd"
  shows "dval (if single v \<and> v ! 0 = 1 then array_of n u
      else if single v \<and> single u then array_of n [u ! 0 div v ! 0]
      else if single v \<and> v ! 0 < HALF_DIGIT_RADIX then array_of n (vec_div_small u (v ! 0))
      else array_of n (vec_div_large u v (replicate (length u) 0))) = dval ud div dval vd"
    "digits_ok (if single v \<and> v ! 0 = 1 then array_of n u
      else if single v \<and> single u then array_of n [u ! 0 div v ! 0]
      else if single v \<and> v ! 0 < HALF_DIGIT_RADIX then array_of n (vec_div_small u (v ! 0))
      else array_of n (vec_div_large u v (replicate (length u) 0)))"
    "\<not> (single v \<and> v ! 0 = 1) \<Longrightarrow> dval (if single v \<and> single u then array_of n [u ! 0 mod v ! 0]
      else if single v \<and> v ! 0 < HALF_DIGIT_RADIX then array_of n [vec_rem_small u (v ! 0)]
      else array_of n (vec_rem_large u v (replicate (length u) 0))) = dval ud mod dval vd"
    "digits_ok (if single v \<and> single u then array_of n [u ! 0 mod v ! 0]
      else if single v \<and> v ! 0 < HALF_DIGIT_RADIX then array_of n [vec_rem_small u (v ! 0)]
      else array_of n (vec_rem_large u v (replicate (length u) 0)))"
proof -
  note u = operandD [OF assms(1), folded u_def] and v = operandD [OF assms(2), folded v_def]
  have one: "single v \<Longrightarrow> dval vd = unat (v ! 0)" "single u \<Longrightarrow> dval ud = unat (u ! 0)"
    using single_ok(2) [of v] single_ok(2) [of u] u(8) v(8) by simp_all
  have v0: "single v \<Longrightarrow> v ! 0 \<noteq> 0" using one(1) v(4) by (auto simp: unat_eq_0)
  have lt: "unat (u ! 0) < radix" by (rule digit_lt [OF u(6,7)])
  have small: "unat (u ! 0 div v ! 0) < radix" "unat (u ! 0 mod v ! 0) < radix"
    using lt by (simp_all add: unat_div_eq le_less_trans [OF div_le_dividend] le_less_trans [OF mod_less_eq_dividend])
  note parts = division_parts [OF assms(1-3), folded u_def v_def]
  show "dval (if single v \<and> v ! 0 = 1 then array_of n u
      else if single v \<and> single u then array_of n [u ! 0 div v ! 0]
      else if single v \<and> v ! 0 < HALF_DIGIT_RADIX then array_of n (vec_div_small u (v ! 0))
      else array_of n (vec_div_large u v (replicate (length u) 0))) = dval ud div dval vd"
    "digits_ok (if single v \<and> v ! 0 = 1 then array_of n u
      else if single v \<and> single u then array_of n [u ! 0 div v ! 0]
      else if single v \<and> v ! 0 < HALF_DIGIT_RADIX then array_of n (vec_div_small u (v ! 0))
      else array_of n (vec_div_large u v (replicate (length u) 0)))"
    using u(6,8) one small parts(1,3) by (auto simp: unat_div_eq intro!: array_ok(1))
  show "dval (if single v \<and> single u then array_of n [u ! 0 mod v ! 0]
      else if single v \<and> v ! 0 < HALF_DIGIT_RADIX then array_of n [vec_rem_small u (v ! 0)]
      else array_of n (vec_rem_large u v (replicate (length u) 0))) = dval ud mod dval vd"
    "digits_ok (if single v \<and> single u then array_of n [u ! 0 mod v ! 0]
      else if single v \<and> v ! 0 < HALF_DIGIT_RADIX then array_of n [vec_rem_small u (v ! 0)]
      else array_of n (vec_rem_large u v (replicate (length u) 0)))"
    using one small parts(2,4) by (auto simp: unat_div_eq intro!: array_ok(1))
qed

lemma DIV_HELPER_ok:
  fixes sg :: bool
  assumes "operand us unb ud" "operand vs vnb vd"
  defines "w \<equiv> DIV_HELPER sg (us * vs) unb ud vnb vd"
  shows "held w" "big_val w = us * vs * int (dval ud div dval vd)" "big_val w = 0 \<or> nbits w = num_bits sg (max unb vnb)"
proof -
  let ?u = "skipped ud" and ?v = "skipped vd"
  note u = operandD [OF assms(1)] and v = operandD [OF assms(2)]
  note c = vec_cmp_cases [OF u(3) v(3)]
  define n where "n = max (length ?u) (length ?v) + 1"
  have "held w \<and> big_val w = us * vs * int (dval ud div dval vd) \<and> (big_val w = 0 \<or> nbits w = num_bits sg (max unb vnb))"
  proof (cases "dval ud < dval vd")
    case True
    then have "w = default_big sg" using c(3) unfolding w_def DIV_HELPER_def by (simp add: Let_def)
    then show ?thesis using default_big_ok [of sg] normal_held True by simp
  next
    case False
    define d where "d = (if vec_cmp ?u ?v = 0 then array_of n [1]
                 else if single ?v \<and> ?v ! 0 = 1 then array_of n ?u
                 else if single ?v \<and> single ?u then array_of n [?u ! 0 div ?v ! 0]
                 else if single ?v \<and> ?v ! 0 < HALF_DIGIT_RADIX then array_of n (vec_div_small ?u (?v ! 0))
                 else array_of n (vec_div_large ?u ?v (replicate (length ?u) 0)))"
    have d: "digits_ok d \<and> dval d = dval ud div dval vd"
    proof (cases "dval ud = dval vd")
      case True
      then show ?thesis using c(1) v(4) unfolding d_def by (simp add: array_ok)
    next
      case ne: False
      then have "dval vd < dval ud" using False by simp
      from div_choice(1,2) [OF assms(1,2) this order_refl, of n] show ?thesis using ne c(1) unfolding d_def by simp
    qed
    have q: "dval d \<noteq> 0" "dval d < 2 ^ max unb vnb" "dval d < radix ^ (n - 1)"
    proof -
      have le: "dval d \<le> dval ud" using d by simp
      show "dval d \<noteq> 0" using d False v(4) by (simp add: div_eq_0_iff)
      show "dval d < 2 ^ max unb vnb" using le pow_max [OF u(5) v(5)] by linarith
      have "radix ^ length ?u \<le> radix ^ (n - 1)" by (intro power_increasing) (simp_all add: n_def Suc_le_eq)
      then show "dval d < radix ^ (n - 1)" using le dval_less [OF u(6)] u(8) by linarith
    qed
    have t: "digits_ok (take (n - 1) d)" "dval (take (n - 1) d) = dval d"
      using take_array [of d "n - 1" 0] d q(3) by (simp_all add: array_of_def)
    have w: "w = new_big sg (us * vs) (max unb vnb) (array_of 0 (take (n - 1) d))"
      using c(3) False unfolding w_def DIV_HELPER_def Let_def n_def [symmetric] d_def [symmetric] by (simp add: array_of_def)
    have "us * vs = - 1 \<or> us * vs = 1" using u(1) v(1) by auto
    from new_operand [OF t(1), unfolded t(2), OF q(2) this q(1), of sg 0] show ?thesis unfolding w using u(2) d by simp
  qed
  then show "held w" "big_val w = us * vs * int (dval ud div dval vd)" "big_val w = 0 \<or> nbits w = num_bits sg (max unb vnb)" by blast+
qed

lemma MOD_HELPER_ok:
  fixes sg :: bool
  assumes "operand us unb ud" "operand vs vnb vd"
  defines "w \<equiv> MOD_HELPER sg us unb ud vnb vd"
  shows "held w" "big_val w = us * int (dval ud mod dval vd)" "big_val w = 0 \<or> nbits w = num_bits sg (min unb vnb)"
proof -
  let ?u = "skipped ud" and ?v = "skipped vd"
  note u = operandD [OF assms(1)] and v = operandD [OF assms(2)]
  note c = vec_cmp_cases [OF u(3) v(3)]
  define n where "n = max (length ?u) (length ?v) + 1"
  define d where "d = (if vec_cmp ?u ?v < 0 then array_of n ?u
                 else if single ?v \<and> single ?u then array_of n [?u ! 0 mod ?v ! 0]
                 else if single ?v \<and> ?v ! 0 < HALF_DIGIT_RADIX then array_of n [vec_rem_small ?u (?v ! 0)]
                 else array_of n (vec_rem_large ?u ?v (replicate (length ?u) 0)))"
  have default: "w = default_big sg \<Longrightarrow> dval ud mod dval vd = 0 \<Longrightarrow> held w \<and> big_val w = us * int (dval ud mod dval vd) \<and>
      (big_val w = 0 \<or> nbits w = num_bits sg (min unb vnb))"
    using default_big_ok [of sg] normal_held by simp
  have "held w \<and> big_val w = us * int (dval ud mod dval vd) \<and> (big_val w = 0 \<or> nbits w = num_bits sg (min unb vnb))"
  proof (cases "dval ud = dval vd \<or> dval vd < dval ud \<and> single ?v \<and> ?v ! 0 = 1")
    case True
    have "single ?v \<Longrightarrow> ?v ! 0 = 1 \<Longrightarrow> dval vd = 1" using single_ok(2) [of ?v] v(8) by simp
    then have "dval ud mod dval vd = 0" using True by auto
    moreover have "w = default_big sg" using True c unfolding w_def MOD_HELPER_def by (auto simp: Let_def)
    ultimately show ?thesis by (intro default)
  next
    case False
    have d: "digits_ok d \<and> dval d = dval ud mod dval vd"
    proof (cases "dval ud < dval vd")
      case True
      then show ?thesis using c(3) u(6,8) unfolding d_def by (simp add: array_ok)
    next
      case ge: False
      then have "dval vd < dval ud" using False by simp
      from div_choice(3,4) [OF assms(1,2) this order_refl, of n] show ?thesis using ge False c unfolding d_def by auto
    qed
    have le: "dval d \<le> dval ud" "dval d < dval vd" using d v(4) by simp_all
    have q: "dval d < 2 ^ min unb vnb" "dval d < radix ^ (n - 1)"
    proof -
      show "dval d < 2 ^ min unb vnb" using le u(5) v(5) by (simp add: min_def)
      have "radix ^ length ?u \<le> radix ^ (n - 1)" by (intro power_increasing) (simp_all add: n_def Suc_le_eq)
      then show "dval d < radix ^ (n - 1)" using le(1) dval_less [OF u(6)] u(8) by linarith
    qed
    define e where "e = take (n - 1) d"
    have t: "digits_ok e" "dval e = dval d"
      using take_array [of d "n - 1" 0] d q(2) by (simp_all add: array_of_def e_def)
    have w: "w = (let s = check_for_zero us e in if s = SC_ZERO then default_big sg else new_big sg s (min unb vnb) (array_of 0 e))"
      using c False unfolding w_def MOD_HELPER_def Let_def n_def [symmetric] d_def [symmetric] e_def [symmetric]
      by (auto simp: array_of_def)
    show ?thesis
    proof (cases "dval d = 0")
      case True
      then have "w = default_big sg" using t(2) unfolding w by (simp add: check_for_zero_eq SC_ZERO_def)
      then show ?thesis using d True by (intro default) simp_all
    next
      case nz: False
      have "0 < min unb vnb" using u(2) v(2) by simp
      from new_operand [OF t(1), unfolded t(2), OF q(1) u(1) nz this, of sg 0] u(1)
      show ?thesis unfolding w using nz d by (auto simp: check_for_zero_eq t(2) SC_ZERO_def)
    qed
  qed
  then show "held w" "big_val w = us * int (dval ud mod dval vd)" "big_val w = 0 \<or> nbits w = num_bits sg (min unb vnb)" by blast+
qed

section \<open>The operators\<close>

text \<open>Copies between the classes keep the number.\<close>

lemma copy_other_ok:
  assumes "sm_ok s (nbits v) (digit v)" "fits sg (num_bits sg (nbits v)) (sval s (digit v))"
  shows "normal sg (copy_other sg v s)" "big_val (copy_other sg v s) = sval s (digit v)"
    "nbits (copy_other sg v s) = num_bits sg (nbits v)"
proof -
  define nb where "nb = num_bits sg (nbits v)"
  have m: "0 < nbits v" "digits_ok (digit v)" "s \<in> {- 1, 0, 1}" "s = 0 \<Longrightarrow> dval (digit v) = 0" "ndigits v = digits_for (nbits v)"
    using assms(1) unfolding sm_ok_def by auto
  have nb: "0 < nb" "nbits v \<le> nb" using m(1) by (simp_all add: nb_def num_bits_def)
  define j where "j = replicate (if sg then ndigits v else digits_for nb) (0 :: sc_digit)"
  obtain s' d where c: "copy_digits sg s nb j (nbits v) (digit v) = (s', d)" by fastforce
  have w: "copy_other sg v s = \<lparr>sgn_of = s', nbits = nb, digit = d\<rparr>"
    using c by (simp add: copy_other_def nb_def [symmetric] j_def Let_def)
  have jl: "length j = digits_for nb" using m(5) by (auto simp: j_def nb_def num_bits_def)
  define e where "e = (if length j \<le> ndigits v then vec_copy (length j) j (digit v) else vec_copy_and_zero j (digit v))"
  have lt: "dval (digit v) < radix ^ length j"
  proof -
    have "radix ^ ndigits v \<le> radix ^ length j"
      using digits_for_mono [OF m(1) nb(2)] m(5) jl by (intro power_increasing) (simp_all add: Suc_le_eq)
    then show ?thesis using dval_less [OF m(2)] by linarith
  qed
  have e: "digits_ok e" "length e = digits_for nb" "dval e = dval (digit v)"
    using vec_copy_ok [OF m(2), of j] vec_copy_and_zero_ok [OF m(2), of j] lt jl by (auto simp: e_def)
  have "convert_SM_to_2C_to_SM sg s nb e = (s', d)"
    using c m(5) jl unfolding e_def copy_digits_def copy_digits_signed_def copy_digits_unsigned_def convert_SM_to_2C_to_SM_def
    by (cases sg) (simp_all add: nb_def num_bits_def)
  from convert_SM_to_2C_to_SM_ok [OF e(1) nb(1) e(2) m(3) _ this] m(4) e(3)
  have r: "sm_ok s' nb d" "sval s' d = wrap sg nb (sval s (digit v))" by simp_all
  then have v: "big_val (copy_other sg v s) = sval s (digit v)"
    using wrap_eq [OF nb(1)] assms(2) by (simp add: w big_val_def nb_def [symmetric])
  show "normal sg (copy_other sg v s)" "big_val (copy_other sg v s) = sval s (digit v)"
    "nbits (copy_other sg v s) = num_bits sg (nbits v)"
    using r(1) v assms(2) by (simp_all add: normal_def w nb_def [symmetric])
qed

lemma fits_signed: "fits sg nb x \<Longrightarrow> fits True nb x"
proof -
  assume "fits sg nb x"
  moreover have "(0 :: int) < 2 ^ (nb - 1)" by simp
  ultimately show "fits True nb x" unfolding fits_def by (cases sg; simp only: if_True if_False) linarith+
qed

lemma fits_mono: "m \<le> n \<Longrightarrow> fits sg m x \<Longrightarrow> fits sg n x"
proof -
  assume mn: "m \<le> n" "fits sg m x"
  have "(2 :: int) ^ (m - 1) \<le> 2 ^ (n - 1)" using mn(1) by (intro power_increasing) simp_all
  then show ?thesis using mn(2) unfolding fits_def by (cases sg; simp only: if_True if_False) linarith+
qed

lemma to_class_ok:
  assumes "normal sv v" "sv \<longrightarrow> sg"
  shows "normal sg (to_class sg sv v)" "big_val (to_class sg sv v) = big_val v" "nbits (to_class sg sv v) = nbits v"
proof -
  have "normal sg (to_class sg sv v) \<and> big_val (to_class sg sv v) = big_val v \<and> nbits (to_class sg sv v) = nbits v"
  proof (cases "sv = sg")
    case False
    then have sg: "sg" "\<not> sv" using assms(2) by simp_all
    have "sm_ok (sgn_of v) (nbits v) (digit v)" "fits True (nbits v) (sval (sgn_of v) (digit v))"
      using assms(1) fits_signed by (auto simp: normal_def big_val_def)
    from copy_other_ok [of "sgn_of v" v True, OF this(1)] this(2) show ?thesis
      using sg by (simp add: to_class_def num_bits_def big_val_def)
  qed (use assms(1) in \<open>simp add: to_class_def\<close>)
  then show "normal sg (to_class sg sv v)" "big_val (to_class sg sv v) = big_val v" "nbits (to_class sg sv v) = nbits v" by blast+
qed

text \<open>The sign of a number of either class, and the size of its value.\<close>

lemma normal_facts:
  assumes "normal su u"
  shows "held u" "fits True (nbits u) (big_val u)" "\<not> su \<Longrightarrow> 0 \<le> big_val u" "\<bar>big_val u\<bar> \<le> 2 ^ (nbits u - 1)"
    "sgn_of u = SC_ZERO \<longleftrightarrow> big_val u = 0" "sgn_of u = sgn (big_val u)" "0 < nbits u"
proof -
  show "held u" by (rule normal_held [OF assms])
  note h = held_facts [OF this]
  show "fits True (nbits u) (big_val u)" using assms fits_signed unfolding normal_def by blast
  then show "\<bar>big_val u\<bar> \<le> 2 ^ (nbits u - 1)" by (auto simp: fits_def)
  show "\<not> su \<Longrightarrow> 0 \<le> big_val u" using assms by (auto simp: normal_def fits_def)
  show "sgn_of u = SC_ZERO \<longleftrightarrow> big_val u = 0" using h(7) by (auto simp: SC_ZERO_def sgn_0_0)
  show "sgn_of u = sgn (big_val u)" "0 < nbits u" using h by simp_all
qed

end
