(* ===== verification/Sc_Big_Ops_Facts.thy ===== *)
theory Sc_Big_Ops_Facts
  imports Sc_Big_Arith_Facts
begin

text \<open>
  The operators on numbers of both classes: the value of each result is the integer operation on the values of
  the operands, and the result is a number that fits the width the code gives it. Division and negation
  keep the value too, but the quotient or the negative of the least number does not fit its width.
\<close>

section \<open>Widths of results\<close>

lemma normal_operand: "normal su u \<Longrightarrow> big_val u \<noteq> 0 \<Longrightarrow> operand (sgn_of u) (nbits u) (digit u)"
  using normal_facts [of su u] held_operand [of u] by simp

lemma fits_cases:
  "fits sg nb x \<longleftrightarrow> (sg \<longrightarrow> - (2 ^ (nb - 1)) \<le> x) \<and> (\<not> sg \<longrightarrow> 0 \<le> x) \<and> x < 2 ^ (nb - 1)"
  by (auto simp: fits_def)

lemma fits_True: "fits True nb x \<longleftrightarrow> - (2 ^ (nb - 1)) \<le> x \<and> x < 2 ^ (nb - 1)"
  by (simp add: fits_def)

lemma pow_double: "0 < n \<Longrightarrow> (2 :: int) ^ n = 2 * 2 ^ (n - 1)"
  by (cases n) simp_all

lemma pow_max_int: "(2 :: int) ^ (m - 1) \<le> 2 ^ (max m n - 1)" "(2 :: int) ^ (n - 1) \<le> 2 ^ (max m n - 1)"
  by (intro power_increasing; simp)+

lemma fits_sum:
  assumes "fits True m x" "fits True n y" "0 < m" "\<not> sg \<longrightarrow> 0 \<le> x + y"
  shows "fits sg (max m n + 1) (x + y)" "0 \<le> x \<and> y \<le> 0 \<or> x \<le> 0 \<and> 0 \<le> y \<Longrightarrow> fits True (max m n) (x + y)"
proof -
  note p = pow_max_int [where m = m and n = n]
  have d: "(2 :: int) ^ (max m n + 1 - 1) = 2 * 2 ^ (max m n - 1)" using pow_double [of "max m n"] assms(3) by simp
  note xy = assms(1,2) [unfolded fits_True]
  have "- (2 * 2 ^ (max m n - 1)) \<le> x + y" "x + y < 2 * 2 ^ (max m n - 1)" using xy p by linarith+
  then show "fits sg (max m n + 1) (x + y)" unfolding fits_cases d using assms(4) by blast
  assume "0 \<le> x \<and> y \<le> 0 \<or> x \<le> 0 \<and> 0 \<le> y"
  then show "fits True (max m n) (x + y)" unfolding fits_True
  proof
    assume "0 \<le> x \<and> y \<le> 0"
    then show "- (2 ^ (max m n - 1)) \<le> x + y \<and> x + y < 2 ^ (max m n - 1)" using xy p by linarith
  next
    assume "x \<le> 0 \<and> 0 \<le> y"
    then show "- (2 ^ (max m n - 1)) \<le> x + y \<and> x + y < 2 ^ (max m n - 1)" using xy p by linarith
  qed
qed

section \<open>Sums and differences\<close>

text \<open>A signed sum of two numbers that are not zero, with any sign given to the second.\<close>

lemma add_normal:
  assumes "operand us unb ud" "operand vs vnb vd" "fits True unb (sval us ud)" "fits True vnb (sval vs vd)"
    "\<not> sg \<longrightarrow> us = vs \<and> 0 \<le> sval us ud + sval vs vd"
  shows "normal sg (ADD_HELPER sg us unb ud vs vnb vd)"
proof -
  let ?w = "ADD_HELPER sg us unb ud vs vnb vd"
  note a = ADD_HELPER_ok [OF assms(1,2), of sg]
  have m: "0 < unb" using assms(1) by (simp add: operand_def)
  have f: "fits sg (nbits ?w) (big_val ?w)"
  proof (cases "big_val ?w = 0")
    case True
    then show ?thesis by (simp add: fits_cases)
  next
    case False
    have s: "us = - 1 \<or> us = 1" "vs = - 1 \<or> vs = 1" using operandD(1) assms(1,2) by blast+
    note n = a(3) [THEN disjE, OF _ _ ]
    have w: "nbits ?w = num_bits sg (if us = vs then max unb vnb + 1 else max unb vnb)" using a(3) False by blast
    show ?thesis
    proof (cases "us = vs")
      case True
      then show ?thesis using fits_sum(1) [OF assms(3,4) m, of sg] fits_mono [OF num_bits_ge] assms(5) unfolding w a(2) by auto
    next
      case ne: False
      then have "0 \<le> sval us ud \<and> sval vs vd \<le> 0 \<or> sval us ud \<le> 0 \<and> 0 \<le> sval vs vd" using s by auto
      then show ?thesis using fits_sum(2) [OF assms(3,4) m, of True] assms(5) ne unfolding w a(2) by (auto simp: num_bits_def)
    qed
  qed
  show ?thesis by (rule held_normal [OF a(1) f])
qed

lemma plus_big_ok:
  assumes "normal su u" "normal sv v"
  shows "normal (su \<or> sv) (plus_big su u sv v)" "big_val (plus_big su u sv v) = big_val u + big_val v"
proof -
  note u = normal_facts [OF assms(1)] and v = normal_facts [OF assms(2)]
  have "normal (su \<or> sv) (plus_big su u sv v) \<and> big_val (plus_big su u sv v) = big_val u + big_val v"
  proof (cases "big_val u = 0 \<or> big_val v = 0")
    case True
    then show ?thesis using to_class_ok [OF assms(1)] to_class_ok [OF assms(2)] u(5) v(5) by (auto simp: plus_big_def Let_def)
  next
    case False
    then have o: "operand (sgn_of u) (nbits u) (digit u)" "operand (sgn_of v) (nbits v) (digit v)"
      using normal_operand assms by blast+
    have e: "plus_big su u sv v = ADD_HELPER (su \<or> sv) (sgn_of u) (nbits u) (digit u) (sgn_of v) (nbits v) (digit v)"
      using False u(5) v(5) by (simp add: plus_big_def Let_def)
    have "\<not> (su \<or> sv) \<longrightarrow> sgn_of u = sgn_of v \<and> 0 \<le> big_val u + big_val v"
    proof
      assume "\<not> (su \<or> sv)"
      then have "0 \<le> big_val u" "0 \<le> big_val v" using u(3) v(3) by blast+
      then show "sgn_of u = sgn_of v \<and> 0 \<le> big_val u + big_val v" using False unfolding u(6) v(6) by (simp add: sgn_if)
    qed
    from add_normal [OF o u(2) [unfolded big_val_def] v(2) [unfolded big_val_def] this [unfolded big_val_def]]
    show ?thesis using ADD_HELPER_ok(2) [OF o] unfolding e by (simp add: big_val_def)
  qed
  then show "normal (su \<or> sv) (plus_big su u sv v)" "big_val (plus_big su u sv v) = big_val u + big_val v" by blast+
qed

text \<open>The negative of a number: the value, and when it fits.\<close>

lemma uminus_ok:
  assumes "normal su u"
  shows "big_val (uminus_big su u) = - big_val u" "held (uminus_big su u)" "nbits (uminus_big su u) = nbits u"
    "big_val u \<noteq> - (2 ^ (nbits u - 1)) \<Longrightarrow> normal True (uminus_big su u)"
proof -
  note u = normal_facts [OF assms] and h = held_facts [OF normal_held [OF assms]]
  have m: "sm_ok (- sgn_of u) (nbits u) (digit u)" using h by (auto simp: sm_ok_def)
  have v: "sval (- sgn_of u) (digit u) = - big_val u" by (simp add: big_val_def)
  have f: "fits True (nbits u) (- big_val u)" if "big_val u \<noteq> - (2 ^ (nbits u - 1))"
    using that u(2,4) by (auto simp: fits_cases)
  have "big_val (uminus_big su u) = - big_val u \<and> held (uminus_big su u) \<and> nbits (uminus_big su u) = nbits u \<and>
      (big_val u \<noteq> - (2 ^ (nbits u - 1)) \<longrightarrow> normal True (uminus_big su u))"
  proof (cases su)
    case True
    then have e: "uminus_big su u = u\<lparr>sgn_of := - sgn_of u\<rparr>" by (simp add: uminus_big_def with_sign_def)
    have "big_val (uminus_big su u) = - big_val u" "held (uminus_big su u)" "nbits (uminus_big su u) = nbits u"
      using m h(6) unfolding e by (simp_all add: big_val_def held_def)
    then show ?thesis using f held_normal by auto
  next
    case False
    then have "0 \<le> big_val u" "big_val u < 2 ^ (nbits u - 1)" using u(2,3) by (auto simp: fits_cases)
    then have "big_val u \<noteq> - (2 ^ (nbits u - 1))" by (smt (verit) zero_less_power)
    then have "fits True (num_bits True (nbits u)) (sval (- sgn_of u) (digit u))" using f v by (simp add: num_bits_def)
    from copy_other_ok [OF m this] show ?thesis
      using False v normal_held by (simp add: uminus_big_def with_sign_def num_bits_def)
  qed
  then show "big_val (uminus_big su u) = - big_val u" "held (uminus_big su u)" "nbits (uminus_big su u) = nbits u"
    "big_val u \<noteq> - (2 ^ (nbits u - 1)) \<Longrightarrow> normal True (uminus_big su u)" by blast+
qed

lemma minus_big_ok:
  assumes "normal su u" "normal sv v"
  shows "big_val (minus_big su u sv v) = big_val u - big_val v" "held (minus_big su u sv v)"
    "big_val u \<noteq> 0 \<or> big_val v \<noteq> - (2 ^ (nbits v - 1)) \<Longrightarrow> normal True (minus_big su u sv v)"
proof -
  note u = normal_facts [OF assms(1)] and v = normal_facts [OF assms(2)]
  have "big_val (minus_big su u sv v) = big_val u - big_val v \<and> held (minus_big su u sv v) \<and>
    (big_val u \<noteq> 0 \<or> big_val v \<noteq> - (2 ^ (nbits v - 1)) \<longrightarrow> normal True (minus_big su u sv v))"
  proof (cases "big_val u = 0 \<or> big_val v = 0")
    case True
    have "with_sign True sv v (- sgn_of v) = uminus_big sv v" by (simp add: uminus_big_def)
    then show ?thesis
      using True to_class_ok [OF assms(1), of True] uminus_ok [OF assms(2)] u(5) v(5) normal_held by (auto simp: minus_big_def)
  next
    case False
    then have o: "operand (sgn_of u) (nbits u) (digit u)" "operand (sgn_of v) (nbits v) (digit v)"
      using normal_operand assms by blast+
    note n = operand_uminus [OF o(2)]
    have e: "minus_big su u sv v = ADD_HELPER True (sgn_of u) (nbits u) (digit u) (- sgn_of v) (nbits v) (digit v)"
      using False u(5) v(5) by (simp add: minus_big_def)
    have val: "big_val (minus_big su u sv v) = big_val u - big_val v"
      using ADD_HELPER_ok(2) [OF o(1) n, of True] unfolding e by (simp add: big_val_def)
    have "fits True (nbits (minus_big su u sv v)) (big_val (minus_big su u sv v))"
    proof (cases "big_val (minus_big su u sv v) = 0")
      case nz: False
      have w: "nbits (minus_big su u sv v) = (if sgn_of u = - sgn_of v then max (nbits u) (nbits v) + 1 else max (nbits u) (nbits v))"
        using ADD_HELPER_ok(3) [OF o(1) n, of True] nz unfolding e by (simp add: num_bits_def)
      let ?n = "max (nbits u) (nbits v)"
      have s: "sgn_of u = - sgn_of v \<longleftrightarrow> (0 < big_val u \<longleftrightarrow> big_val v < 0)"
        using False unfolding u(6) v(6) by (auto simp: sgn_if)
      have d: "(2 :: int) ^ (?n + 1 - 1) = 2 * 2 ^ (?n - 1)" using pow_double [of ?n] u(7) by simp
      note r = u(2) [unfolded fits_True] v(2) [unfolded fits_True] pow_max_int [where m = "nbits u" and n = "nbits v"]
      show ?thesis
      proof (cases "0 < big_val u \<longleftrightarrow> big_val v < 0")
        case True
        have "- (2 * 2 ^ (?n - 1)) \<le> big_val u - big_val v" "big_val u - big_val v < 2 * 2 ^ (?n - 1)" using r by linarith+
        moreover have "nbits (minus_big su u sv v) = ?n + 1" using w s True by simp
        ultimately show ?thesis unfolding fits_True val by (simp only: d simp_thms)
      next
        case ne: False
        then consider "0 < big_val u" "0 < big_val v" | "big_val u < 0" "big_val v < 0" using False by linarith
        then have "- (2 ^ (?n - 1)) \<le> big_val u - big_val v \<and> big_val u - big_val v < 2 ^ (?n - 1)"
          by cases (use r in linarith)+
        moreover have "nbits (minus_big su u sv v) = ?n" using w s ne by simp
        ultimately show ?thesis unfolding fits_True val by (simp only:)
      qed
    qed (simp add: fits_cases)
    then show ?thesis using held_normal ADD_HELPER_ok(1) [OF o(1) n, of True] val unfolding e by simp
  qed
  then show "big_val (minus_big su u sv v) = big_val u - big_val v" "held (minus_big su u sv v)"
    "big_val u \<noteq> 0 \<or> big_val v \<noteq> - (2 ^ (nbits v - 1)) \<Longrightarrow> normal True (minus_big su u sv v)" by blast+
qed

section \<open>Products\<close>

lemma mul_signs_eq: "s \<in> {- 1, 0, 1} \<Longrightarrow> t \<in> {- 1, 0, 1} \<Longrightarrow> mul_signs s t = s * t"
  by (auto simp: mul_signs_def SC_ZERO_def SC_POS_def SC_NEG_def)

lemma sgn_mul_signs:
  assumes "normal su u" "normal sv v"
  shows "mul_signs (sgn_of u) (sgn_of v) = sgn_of u * sgn_of v" "sgn_of u * sgn_of v = 0 \<longleftrightarrow> big_val u = 0 \<or> big_val v = 0"
proof -
  show "mul_signs (sgn_of u) (sgn_of v) = sgn_of u * sgn_of v"
    by (rule mul_signs_eq [OF held_facts(4) [OF normal_held [OF assms(1)]] held_facts(4) [OF normal_held [OF assms(2)]]])
  show "sgn_of u * sgn_of v = 0 \<longleftrightarrow> big_val u = 0 \<or> big_val v = 0"
    using normal_facts(6) [OF assms(1)] normal_facts(6) [OF assms(2)] by (simp add: sgn_0_0)
qed

lemma abs_mult_bound: "\<bar>x\<bar> \<le> 2 ^ (m - 1) \<Longrightarrow> \<bar>y\<bar> \<le> 2 ^ (n - 1) \<Longrightarrow> 0 < m \<Longrightarrow> 0 < n \<Longrightarrow> \<bar>x * y\<bar> < 2 ^ (m + n - 1)" for x y :: int
proof -
  assume a: "\<bar>x\<bar> \<le> 2 ^ (m - 1)" "\<bar>y\<bar> \<le> 2 ^ (n - 1)" "0 < m" "0 < n"
  have "\<bar>x * y\<bar> \<le> 2 ^ (m - 1) * 2 ^ (n - 1)" unfolding abs_mult using a(1,2) by (intro mult_mono) simp_all
  also have "\<dots> = 2 ^ (m + n - 2)" using a(3,4) by (simp add: power_add [symmetric])
  also have "\<dots> < 2 ^ (m + n - 1)" using a(3,4) by (intro power_strict_increasing) simp_all
  finally show ?thesis .
qed

lemma times_big_ok:
  assumes "normal su u" "normal sv v"
  shows "normal (su \<or> sv) (times_big su u sv v)" "big_val (times_big su u sv v) = big_val u * big_val v"
proof -
  note u = normal_facts [OF assms(1)] and v = normal_facts [OF assms(2)] and s = sgn_mul_signs [OF assms]
  have "normal (su \<or> sv) (times_big su u sv v) \<and> big_val (times_big su u sv v) = big_val u * big_val v"
  proof (cases "big_val u = 0 \<or> big_val v = 0")
    case True
    then show ?thesis using default_big_ok [of "su \<or> sv"] s by (auto simp: times_big_def Let_def SC_ZERO_def)
  next
    case False
    then have o: "operand (sgn_of u) (nbits u) (digit u)" "operand (sgn_of v) (nbits v) (digit v)"
      using normal_operand assms by blast+
    have e: "times_big su u sv v = MUL_HELPER (su \<or> sv) (sgn_of u * sgn_of v) (nbits u) (digit u) (nbits v) (digit v)"
      using False s by (simp add: times_big_def Let_def SC_ZERO_def)
    note m = MUL_HELPER_ok [OF o, of "su \<or> sv", folded e]
    have val: "big_val (times_big su u sv v) = big_val u * big_val v" using m(2) by (simp add: big_val_def)
    have "\<bar>big_val u * big_val v\<bar> < 2 ^ (nbits u + nbits v - 1)" by (rule abs_mult_bound [OF u(4) v(4) u(7) v(7)])
    moreover have "\<not> (su \<or> sv) \<longrightarrow> 0 \<le> big_val u * big_val v" using u(3) v(3) by simp
    ultimately have "fits (su \<or> sv) (nbits u + nbits v) (big_val u * big_val v)"
      unfolding fits_cases abs_less_iff by linarith
    then show ?thesis using held_normal [OF m(1)] fits_mono [OF num_bits_ge] val m(3) by simp
  qed
  then show "normal (su \<or> sv) (times_big su u sv v)" "big_val (times_big su u sv v) = big_val u * big_val v" by blast+
qed

section \<open>Quotients and remainders\<close>

lemma sdiv_parts: "sgn x * sgn y * int (n div m) = x sdiv y" if "\<bar>x\<bar> = int n" "\<bar>y\<bar> = int m" for x y :: int
  using that by (simp add: signed_divide_int_def zdiv_int)

lemma smod_parts: "sgn x * int (n mod m) = x smod y" if "\<bar>x\<bar> = int n" "\<bar>y\<bar> = int m" for x y :: int
  using that by (simp add: signed_modulo_int_def zmod_int)

lemma div_big_zero: "normal su u \<Longrightarrow> normal sv v \<Longrightarrow> big_val v = 0 \<Longrightarrow> div_big su u sv v = Inl Sc_report_error"
  using sgn_mul_signs [of su u sv v] normal_facts(5) [of sv v] by (simp add: div_big_def Let_def SC_ZERO_def div_by_zero_def)

lemma mod_big_zero: "normal sv v \<Longrightarrow> big_val v = 0 \<Longrightarrow> mod_big su u sv v = Inl Sc_report_error"
  using normal_facts(5) [of sv v] by (simp add: mod_big_def Let_def SC_ZERO_def div_by_zero_def)

text \<open>The quotient fits the greater width, but for the least number divided by -1.\<close>

lemma sdiv_bound:
  fixes x y :: int
  assumes "fits True m x" "fits True n y" "y \<noteq> 0" "0 < m" "\<not> (n \<le> m \<and> x = - (2 ^ (m - 1)) \<and> y = - 1)"
  shows "fits True (max m n) (x sdiv y)"
proof -
  note p = pow_max_int [where m = m and n = n] and x = assms(1) [unfolded fits_True]
  have q: "x sdiv y = sgn x * sgn y * (\<bar>x\<bar> div \<bar>y\<bar>)" by (simp add: signed_divide_int_def)
  have le: "\<bar>x sdiv y\<bar> \<le> \<bar>x\<bar> div \<bar>y\<bar>"
  proof -
    have "0 \<le> \<bar>x\<bar> div \<bar>y\<bar>" using assms(3) by (simp add: pos_imp_zdiv_nonneg_iff)
    then show ?thesis unfolding q by (simp add: abs_mult abs_sgn_eq)
  qed
  have dl: "\<bar>x\<bar> div \<bar>y\<bar> \<le> \<bar>x\<bar>" using zdiv_mono2 [of "\<bar>x\<bar>" 1 "\<bar>y\<bar>"] assms(3) by simp
  show ?thesis
  proof (cases "\<bar>x sdiv y\<bar> < 2 ^ (max m n - 1)")
    case True
    then show ?thesis unfolding fits_True by linarith
  next
    case False
    have xm: "\<bar>x\<bar> \<le> 2 ^ (m - 1)" using x by linarith
    then have xe: "\<bar>x\<bar> = 2 ^ (m - 1)" "(2 :: int) ^ (m - 1) = 2 ^ (max m n - 1)" using False le dl p(1) by linarith+
    then have xv: "x = - (2 ^ (m - 1))" using x by linarith
    have "\<bar>x\<bar> div \<bar>y\<bar> = \<bar>x\<bar>" using False le dl xe by linarith
    then have "\<bar>y\<bar> = 1" using int_div_less_self [of "\<bar>x\<bar>" "\<bar>y\<bar>"] xe(1) assms(3) by (smt (verit) zero_less_power)
    moreover have "n \<le> m" using xe(2) assms(4) by (cases "n \<le> m") (auto simp: max_def)
    ultimately have "y = 1" using assms(5) xv by linarith
    then have "x sdiv y = x" by (simp add: q sgn_mult_abs)
    then show ?thesis using x p(1) unfolding fits_True by linarith
  qed
qed

lemma div_big_ok:
  assumes "normal su u" "normal sv v" "big_val v \<noteq> 0"
  obtains w where "div_big su u sv v = Inr w" "held w" "big_val w = big_val u sdiv big_val v"
    "\<not> (nbits v \<le> nbits u \<and> big_val u = - (2 ^ (nbits u - 1)) \<and> big_val v = - 1) \<Longrightarrow> normal (su \<or> sv) w"
proof -
  note u = normal_facts [OF assms(1)] and v = normal_facts [OF assms(2)] and s = sgn_mul_signs [OF assms(1,2)]
  show ?thesis
  proof (cases "big_val u = 0")
    case True
    have "div_big su u sv v = Inr (default_big (su \<or> sv))"
      using s v(5) True assms(3) by (simp add: div_big_def Let_def SC_ZERO_def div_by_zero_def)
    then show ?thesis using that default_big_ok [of "su \<or> sv"] normal_held True by simp
  next
    case False
    then have o: "operand (sgn_of u) (nbits u) (digit u)" "operand (sgn_of v) (nbits v) (digit v)"
      using normal_operand assms by blast+
    define w where "w = DIV_HELPER (su \<or> sv) (sgn_of u * sgn_of v) (nbits u) (digit u) (nbits v) (digit v)"
    note d = DIV_HELPER_ok [OF o, of "su \<or> sv", folded w_def]
    have e: "div_big su u sv v = Inr w" using False assms(3) s by (simp add: div_big_def Let_def SC_ZERO_def w_def)
    have a: "\<bar>big_val u\<bar> = int (dval (digit u))" "\<bar>big_val v\<bar> = int (dval (digit v))"
      using held_facts(8) u(1) v(1) by blast+
    have val: "big_val w = big_val u sdiv big_val v" using d(2) sdiv_parts [OF a] u(6) v(6) by simp
    have n: "normal (su \<or> sv) w" if "\<not> (nbits v \<le> nbits u \<and> big_val u = - (2 ^ (nbits u - 1)) \<and> big_val v = - 1)"
    proof (cases "big_val w = 0")
      case True
      then show ?thesis using held_normal [OF d(1)] by (simp add: fits_cases)
    next
      case nz: False
      have f: "fits True (max (nbits u) (nbits v)) (big_val w)" unfolding val by (rule sdiv_bound [OF u(2) v(2) assms(3) u(7) that])
      have "0 \<le> big_val w" if "\<not> (su \<or> sv)"
        using that u(3) v(3) unfolding val by (auto simp: signed_divide_int_def sgn_if intro!: div_int_pos_iff [THEN iffD2])
      then have "fits (su \<or> sv) (max (nbits u) (nbits v)) (big_val w)" using f unfolding fits_cases by blast
      then have "fits (su \<or> sv) (nbits w) (big_val w)" using d(3) nz fits_mono [OF num_bits_ge] by fastforce
      then show ?thesis by (rule held_normal [OF d(1)])
    qed
    show ?thesis by (rule that [OF e d(1) val n])
  qed
qed

lemma mod_big_ok:
  assumes "normal su u" "normal sv v" "big_val v \<noteq> 0"
  obtains w where "mod_big su u sv v = Inr w" "normal (su \<or> sv) w" "big_val w = big_val u smod big_val v"
proof -
  note u = normal_facts [OF assms(1)] and v = normal_facts [OF assms(2)]
  show ?thesis
  proof (cases "big_val u = 0")
    case True
    have "mod_big su u sv v = Inr (default_big (su \<or> sv))"
      using u(5) v(5) True assms(3) by (simp add: mod_big_def Let_def SC_ZERO_def div_by_zero_def)
    then show ?thesis using that default_big_ok [of "su \<or> sv"] True by (simp add: signed_modulo_int_def)
  next
    case False
    then have o: "operand (sgn_of u) (nbits u) (digit u)" "operand (sgn_of v) (nbits v) (digit v)"
      using normal_operand assms by blast+
    define w where "w = MOD_HELPER (su \<or> sv) (sgn_of u) (nbits u) (digit u) (nbits v) (digit v)"
    note d = MOD_HELPER_ok [OF o, of "su \<or> sv", folded w_def]
    have e: "mod_big su u sv v = Inr w" using False assms(3) u(5) v(5) by (simp add: mod_big_def Let_def w_def)
    have a: "\<bar>big_val u\<bar> = int (dval (digit u))" "\<bar>big_val v\<bar> = int (dval (digit v))"
      using held_facts(8) u(1) v(1) by blast+
    have val: "big_val w = big_val u smod big_val v" using d(2) smod_parts [OF a] u(6) by simp
    have q: "big_val w = sgn (big_val u) * (\<bar>big_val u\<bar> mod \<bar>big_val v\<bar>)" unfolding val by (simp add: signed_modulo_int_def)
    have "fits (su \<or> sv) (nbits w) (big_val w)"
    proof (cases "big_val w = 0")
      case nz: False
      have m: "\<bar>big_val u\<bar> mod \<bar>big_val v\<bar> \<le> \<bar>big_val u\<bar>" "\<bar>big_val u\<bar> mod \<bar>big_val v\<bar> < \<bar>big_val v\<bar>"
        "0 \<le> \<bar>big_val u\<bar> mod \<bar>big_val v\<bar>" using assms(3) by (simp_all add: zmod_le_nonneg_dividend)
      define t where "t = \<bar>big_val u\<bar> mod \<bar>big_val v\<bar>"
      note r = u(2) [unfolded fits_True] v(2) [unfolded fits_True] m [folded t_def] zero_less_power [of "2 :: int" "nbits u - 1"]
        zero_less_power [of "2 :: int" "nbits v - 1"]
      have "fits True (nbits u) (big_val w) \<and> fits True (nbits v) (big_val w)"
      proof (cases "0 < big_val u")
        case True
        then have "big_val w = t" by (simp add: q t_def)
        then show ?thesis unfolding fits_True using True r by linarith
      next
        case neg: False
        then have "big_val w = - t" using False by (simp add: q t_def sgn_if)
        then show ?thesis unfolding fits_True using neg r by linarith
      qed
      then have "fits True (min (nbits u) (nbits v)) (big_val w)" by (simp add: min_def)
      moreover have "0 \<le> big_val w" if "\<not> (su \<or> sv)" using that u(3) m(3) False unfolding q by simp
      ultimately have "fits (su \<or> sv) (min (nbits u) (nbits v)) (big_val w)" unfolding fits_cases by blast
      then show ?thesis using d(3) nz fits_mono [OF num_bits_ge] by fastforce
    qed (simp add: fits_cases)
    then show ?thesis using that [OF e held_normal [OF d(1)] val] by simp
  qed
qed

section \<open>Comparisons\<close>

lemma vec_skip_and_cmp_ok:
  assumes "digits_ok u" "digits_ok v"
  shows "sgn (vec_skip_and_cmp u v) = sgn (int (dval u) - int (dval v))"
  using vec_cmp_ok [OF assms] by (simp add: vec_skip_and_cmp_def)

lemma compare_ok:
  assumes "held u" "held v"
  shows "eq_big u v \<longleftrightarrow> big_val u = big_val v" "less_big u v \<longleftrightarrow> big_val u < big_val v"
proof -
  note u = held_facts [OF assms(1)] and v = held_facts [OF assms(2)]
  have c: "vec_skip_and_cmp (digit u) (digit v) = 0 \<longleftrightarrow> dval (digit u) = dval (digit v)"
    "vec_skip_and_cmp (digit u) (digit v) < 0 \<longleftrightarrow> dval (digit u) < dval (digit v)"
    "0 < vec_skip_and_cmp (digit u) (digit v) \<longleftrightarrow> dval (digit v) < dval (digit u)"
    using vec_cmp_cases [OF u(1) v(1)] by (simp_all add: vec_skip_and_cmp_def)
  show "eq_big u v \<longleftrightarrow> big_val u = big_val v" "less_big u v \<longleftrightarrow> big_val u < big_val v"
    using u(4,5) v(4,5) by (auto simp: eq_big_def less_big_def c big_val_def SC_POS_def SC_NEG_def)
qed

lemma compare_unsigned_ok:
  assumes "normal su u" "normal sv v" "\<not> (su \<and> sv)"
  shows "eq_unsigned su u sv v \<longleftrightarrow> big_val u = big_val v" "less_unsigned su u sv v \<longleftrightarrow> big_val u < big_val v"
proof -
  note u = normal_facts [OF assms(1)] and v = normal_facts [OF assms(2)]
  note hu = held_facts [OF u(1)] and hv = held_facts [OF v(1)]
  have c: "vec_skip_and_cmp (digit u) (digit v) = 0 \<longleftrightarrow> dval (digit u) = dval (digit v)"
    "vec_skip_and_cmp (digit u) (digit v) < 0 \<longleftrightarrow> dval (digit u) < dval (digit v)"
    using vec_cmp_cases [OF hu(1) hv(1)] by (simp_all add: vec_skip_and_cmp_def)
  have val: "big_val u = sgn_of u * int (dval (digit u))" "big_val v = sgn_of v * int (dval (digit v))"
    by (simp_all add: big_val_def)
  have neg: "sgn_of u = SC_NEG \<longleftrightarrow> big_val u < 0" "sgn_of v = SC_NEG \<longleftrightarrow> big_val v < 0"
    using u(6) v(6) by (auto simp: SC_NEG_def sgn_if split: if_splits)
  have pos: "sgn_of u = SC_POS \<longleftrightarrow> 0 < big_val u" "sgn_of v = SC_POS \<longleftrightarrow> 0 < big_val v"
    using u(6) v(6) by (auto simp: SC_POS_def sgn_if split: if_splits)
  have "(eq_unsigned su u sv v \<longleftrightarrow> big_val u = big_val v) \<and> (less_unsigned su u sv v \<longleftrightarrow> big_val u < big_val v)"
  proof (cases "big_val u < 0 \<or> big_val v < 0")
    case True
    then have "su \<and> \<not> sv \<and> big_val u < 0 \<and> 0 \<le> big_val v \<or> sv \<and> \<not> su \<and> big_val v < 0 \<and> 0 \<le> big_val u"
      using u(3) v(3) assms(3) by fastforce
    then show ?thesis unfolding eq_unsigned_def less_unsigned_def neg by auto
  next
    case False
    have e: "eq_unsigned su u sv v \<longleftrightarrow>
        \<not> compare_unsigned (sgn_of u) (nbits u) (digit u) (sgn_of v) (nbits v) (digit v) su sv \<noteq> 0"
      "less_unsigned su u sv v \<longleftrightarrow>
        compare_unsigned (sgn_of u) (nbits u) (digit u) (sgn_of v) (nbits v) (digit v) su sv < 0"
      using False neg by (simp_all add: eq_unsigned_def less_unsigned_def)
    consider "big_val u = 0" "big_val v = 0" | "big_val u = 0" "0 < big_val v" | "0 < big_val u" "big_val v = 0"
      | "0 < big_val u" "0 < big_val v" using False by linarith
    then show ?thesis
    proof cases
      case 4
      then have s: "sgn_of u = 1" "sgn_of v = 1" using u(6) v(6) by simp_all
      then show ?thesis unfolding e val s by (simp add: compare_unsigned_def SC_ZERO_def SC_POS_def c)
    qed (use u(6) v(6) e in \<open>simp_all add: compare_unsigned_def SC_ZERO_def\<close>)
  qed
  then show "eq_unsigned su u sv v \<longleftrightarrow> big_val u = big_val v" "less_unsigned su u sv v \<longleftrightarrow> big_val u < big_val v" by blast+
qed

end
