(* ===== verification/Sc_Big_Bits_Facts.thy ===== *)
theory Sc_Big_Bits_Facts
  imports Sc_Big_Bits Sc_Big_Ops_Facts
begin

text \<open>
  The loops of the bitwise operators compute, digit by digit, the operation on the two's complements; so
  each operator gives the conjunction, disjunction or exclusive disjunction of the integers.
\<close>

section \<open>Bits of a vector\<close>

lemma bit_dval_Cons:
  assumes "unat x < radix"
  shows "bit (unat x + radix * D) i \<longleftrightarrow> (if i < 30 then bit (unat x) i else bit D (i - 30))"
proof (cases "i < 30")
  case True
  have "take_bit 30 (unat x + radix * D) = take_bit 30 (unat x)" by (simp add: take_bit_eq_mod radix_def)
  then show ?thesis using True bit_take_bit_iff [of 30 _ i] by metis
next
  case False
  have "drop_bit 30 (unat x + radix * D) = D" using assms by (simp add: drop_bit_eq_div radix_def)
  then show ?thesis using False bit_drop_bit_eq [of 30 "unat x + radix * D"] by (simp add: fun_eq_iff comp_def)
qed

lemma bit_dval: "digits_ok u \<Longrightarrow> bit (dval u) i \<longleftrightarrow> i div 30 < length u \<and> bit (u ! (i div 30)) (i mod 30)"
proof (induction u arbitrary: i)
  case (Cons x u)
  show ?case
  proof (cases "i < 30")
    case True
    then show ?thesis using Cons.prems bit_dval_Cons [of x "dval u" i] by (simp add: bit_unsigned_iff)
  next
    case False
    then have i: "i div 30 = Suc ((i - 30) div 30)" "i mod 30 = (i - 30) mod 30"
      by (simp_all add: le_div_geq le_mod_geq)
    show ?thesis using Cons False bit_dval_Cons [of x "dval u" i] unfolding i by simp
  qed
qed simp

lemma bit_digit: "unat x < radix \<Longrightarrow> bit x n \<Longrightarrow> n < 30" for x :: sc_digit
proof (rule ccontr)
  assume x: "unat x < radix" "bit x n" "\<not> n < 30"
  have "take_bit 30 (unat x) = unat x" using x(1) by (intro take_bit_nat_eq_self) (simp add: radix_def)
  moreover have "bit (unat x) n" using x(2) by (simp add: bit_unsigned_iff bit_imp_le_length)
  ultimately show False using x(3) bit_take_bit_iff by metis
qed

lemma bit_MASK: "bit DIGIT_MASK n \<longleftrightarrow> n < 30"
  by (auto simp: DIGIT_MASK_eq bit_mask_iff)

section \<open>The operations\<close>

definition both :: "(sc_digit \<Rightarrow> sc_digit \<Rightarrow> sc_digit) \<Rightarrow> sc_digit list \<Rightarrow> sc_digit list \<Rightarrow> sc_digit list" where
  "both f u v = map2 (\<lambda>x y. f x y AND DIGIT_MASK) u v"

text \<open>Two operands that are not zero, ready for a helper.\<close>

lemma bit_operands:
  assumes "normal su u" "normal sv v" "big_val u \<noteq> 0" "big_val v \<noteq> 0"
  shows "operand (sgn_of u) (nbits u) (digit u)" "operand (sgn_of v) (nbits v) (digit v)"
    "ndigits u = digits_for (nbits u)" "ndigits v = digits_for (nbits v)"
    "fits True (nbits u) (sval (sgn_of u) (digit u))" "fits True (nbits v) (sval (sgn_of v) (digit v))"
  using normal_operand [OF assms(1,3)] normal_operand [OF assms(2,4)] held_facts(3) normal_facts(1,2) assms(1,2)
  by (auto simp: big_val_def [symmetric])

text \<open>An operation on digits and on integers that works on each bit alone.\<close>

locale bit_op =
  fixes f :: "sc_digit \<Rightarrow> sc_digit \<Rightarrow> sc_digit" and F :: "int \<Rightarrow> int \<Rightarrow> int" and g :: "bool \<Rightarrow> bool \<Rightarrow> bool"
  assumes bit_f: "bit (f x y) n \<longleftrightarrow> n < 32 \<and> g (bit x n) (bit y n)"
    and bit_F: "bit (F a b) n \<longleftrightarrow> g (bit a n) (bit b n)"
    and g_False: "\<not> g False False"
    and g_commute: "g p q = g q p"
begin

lemma F_commute: "F a b = F b a"
  by (rule bit_eqI) (simp add: bit_F g_commute)

lemma f_mask: "f (x AND DIGIT_MASK) (y AND DIGIT_MASK) AND DIGIT_MASK = f x y AND DIGIT_MASK"
  by (rule bit_eqI) (auto simp: bit_and_iff bit_f bit_MASK)

lemma f_mask_left: "f (x AND DIGIT_MASK) y AND DIGIT_MASK = f x y AND DIGIT_MASK"
  by (rule bit_eqI) (auto simp: bit_and_iff bit_f bit_MASK)

lemma f_mask_right: "f x (y AND DIGIT_MASK) AND DIGIT_MASK = f x y AND DIGIT_MASK"
  by (rule bit_eqI) (auto simp: bit_and_iff bit_f bit_MASK)

lemma f_digits: "unat x < radix \<Longrightarrow> unat y < radix \<Longrightarrow> f x y AND DIGIT_MASK = f x y"
proof -
  assume xy: "unat x < radix" "unat y < radix"
  have "x AND DIGIT_MASK = x" "y AND DIGIT_MASK = y"
    using bit_digit [OF xy(1)] bit_digit [OF xy(2)] by (auto simp: bit_eq_iff bit_and_iff bit_MASK)
  moreover have "bit (f (x AND DIGIT_MASK) (y AND DIGIT_MASK)) n \<Longrightarrow> n < 30" for n
    using g_False by (cases "n < 30") (simp_all add: bit_f bit_and_iff bit_MASK)
  ultimately have "bit (f x y) n \<Longrightarrow> n < 30" for n by metis
  then show ?thesis by (auto simp: bit_eq_iff bit_and_iff bit_MASK)
qed

lemma both_ok:
  assumes "digits_ok u" "digits_ok v" "length u = length v"
  shows "digits_ok (both f u v)" "length (both f u v) = length u" "int (dval (both f u v)) = F (int (dval u)) (int (dval v))"
proof -
  show ok: "digits_ok (both f u v)" by (auto simp: both_def digits_ok_def)
  show len: "length (both f u v) = length u" using assms(3) by (simp add: both_def)
  show "int (dval (both f u v)) = F (int (dval u)) (int (dval v))"
  proof (rule bit_eqI)
    fix i
    have "bit (both f u v ! (i div 30)) (i mod 30) \<longleftrightarrow> g (bit (u ! (i div 30)) (i mod 30)) (bit (v ! (i div 30)) (i mod 30))"
      if "i div 30 < length u"
    proof -
      have "i mod 30 < 30" by simp
      then have "i mod 30 < 30" "i mod 30 < 32" by (simp, linarith)
      then show ?thesis using that assms(3) by (simp only: both_def bit_and_iff bit_f bit_MASK nth_map nth_zip length_zip
          min.idem prod.case simp_thms)
    qed
    then have "bit (dval (both f u v)) i \<longleftrightarrow> g (bit (dval u) i) (bit (dval v) i)"
      using assms(3) g_False unfolding bit_dval [OF ok] bit_dval [OF assms(1)] bit_dval [OF assms(2)] len
      by (cases "i div 30 < length u") simp_all
    then show "bit (int (dval (both f u v))) i = bit (F (int (dval u)) (int (dval v))) i"
      by (simp add: bit_F bit_of_nat_iff_bit)
  qed
qed

lemma F_take_bit: "F (take_bit n a) (take_bit n b) = take_bit n (F a b)"
proof (rule bit_eqI)
  fix i show "bit (F (take_bit n a) (take_bit n b)) i = bit (take_bit n (F a b)) i"
    using g_False by (cases "i < n") (simp_all add: bit_F bit_take_bit_iff)
qed

lemma F_signed: "F (signed_take_bit n a) (signed_take_bit n b) = signed_take_bit n (F a b)"
  by (rule bit_eqI) (simp add: bit_F bit_signed_take_bit_iff)

lemma F_fits: "0 < n \<Longrightarrow> fits True n a \<Longrightarrow> fits True n b \<Longrightarrow> fits True n (F a b)"
  using wrap_eq [of n True a] wrap_eq [of n True b] wrap_fits [of n True "F a b"] F_signed [of "n - 1" a b]
  by (simp add: wrap_def)

text \<open>Each loop is the operation on the complements; the shorter vector goes on with zeros.\<close>

lemma pp_loop_eq:
  assumes "\<And>a b. unat a < radix \<Longrightarrow> unat b < radix \<Longrightarrow> fp a b = f a b AND DIGIT_MASK"
    and "\<And>a. unat a < radix \<Longrightarrow> rest a = f a 0 AND DIGIT_MASK"
  shows "digits_ok x \<Longrightarrow> digits_ok y \<Longrightarrow> length y \<le> length x \<Longrightarrow>
    pp_loop fp rest x y = both f x (array_of (length x) y)"
proof (induction x arbitrary: y)
  case (Cons a x)
  then show ?case by (cases y) (simp_all add: both_def array_of_def assms)
qed (simp add: both_def)

lemma nn_loop_eq:
  "length y \<le> length x \<Longrightarrow>
    nn_loop f xc yc x y = both f (complement_loop xc x) (complement_loop yc (array_of (length x) y))"
proof (induction x arbitrary: xc yc y)
  case (Cons a x)
  then show ?case by (cases y) (simp_all add: both_def array_of_def Let_def f_mask)
qed (simp add: both_def)

lemma pn_loop_eq:
  "length y \<le> length x \<Longrightarrow> pn_loop f yc x y = both f x (complement_loop yc (array_of (length x) y))"
proof (induction x arbitrary: yc y)
  case (Cons a x)
  then show ?case by (cases y) (simp_all add: both_def array_of_def Let_def f_mask_right)
qed (simp add: both_def)

lemma np_loop_eq:
  assumes "\<And>a. rest a = f a 0 AND DIGIT_MASK"
  shows "length y \<le> length x \<Longrightarrow> np_loop f rest xc x y = both f (complement_loop xc x) (array_of (length x) y)"
proof (induction x arbitrary: xc y)
  case (Cons a x)
  then show ?case by (cases y) (simp_all add: both_def array_of_def Let_def f_mask_left assms)
qed (simp add: both_def)

lemma bit_digits_ok:
  assumes fp: "\<And>a b. unat a < radix \<Longrightarrow> unat b < radix \<Longrightarrow> fp a b = f a b AND DIGIT_MASK"
    and rest: "\<And>a. unat a < radix \<Longrightarrow> rest a = f a 0 AND DIGIT_MASK" "\<And>a. rest_neg a = f a 0 AND DIGIT_MASK"
    and xy: "digits_ok x" "digits_ok y" "length y \<le> length x" "xs = - 1 \<or> xs = 1" "ys = - 1 \<or> ys = 1"
  defines "d \<equiv> bit_digits f fp rest rest_neg xs x ys y"
  shows "digits_ok d" "length d = length x"
    "int (dval d) = F (sval xs x) (sval ys y) mod int (radix ^ length x)"
proof -
  let ?y = "array_of (length x) y"
  have y: "digits_ok ?y" "length ?y = length x" "dval ?y = dval y" using array_ok xy by simp_all
  have e: "d = both f (convert_SM_to_2C xs x) (convert_SM_to_2C ys ?y)"
    using xy pp_loop_eq [OF fp rest(1) xy(1-3)] nn_loop_eq [OF xy(3)] pn_loop_eq [OF xy(3)] np_loop_eq [OF rest(2) xy(3)]
    by (auto simp: d_def bit_digits_def mul_signs_def SC_ZERO_def SC_POS_def SC_NEG_def convert_SM_to_2C_def vec_complement_def)
  have cx: "digits_ok (convert_SM_to_2C xs x)" "length (convert_SM_to_2C xs x) = length x"
    "int (dval (convert_SM_to_2C xs x)) = sval xs x mod int (radix ^ length x)"
    using convert_SM_to_2C_ok [OF xy(1), of xs] xy(4) by auto
  have cy: "digits_ok (convert_SM_to_2C ys ?y)" "length (convert_SM_to_2C ys ?y) = length x"
    "int (dval (convert_SM_to_2C ys ?y)) = sval ys y mod int (radix ^ length x)"
    using convert_SM_to_2C_ok [OF y(1), of ys] y(2,3) xy(5) by auto
  note b = both_ok [OF cx(1) cy(1)]
  show "digits_ok d" "length d = length x" using b(1,2) cx(2) cy(2) unfolding e by simp_all
  have m: "z mod int (radix ^ length x) = take_bit (30 * length x) z" for z by (simp add: take_bit_eq_mod radix_power)
  show "int (dval d) = F (sval xs x) (sval ys y) mod int (radix ^ length x)"
    using b(3) cx(2,3) cy(2,3) unfolding e m by (simp add: F_take_bit)
qed

lemma BIT_HELPER_ok:
  assumes loop: "\<And>x y xs ys. digits_ok x \<Longrightarrow> digits_ok y \<Longrightarrow> length y \<le> length x \<Longrightarrow> xs = - 1 \<or> xs = 1 \<Longrightarrow> ys = - 1 \<or> ys = 1 \<Longrightarrow>
      digits_ok (loop xs x ys y) \<and> length (loop xs x ys y) = length x \<and>
      int (dval (loop xs x ys y)) = F (sval xs x) (sval ys y) mod int (radix ^ length x)"
    and o: "operand us unb ud" "operand vs vnb vd" "length ud = digits_for unb" "length vd = digits_for vnb"
    and fits: "fits True unb (sval us ud)" "fits True vnb (sval vs vd)"
    and sg: "\<not> sg \<Longrightarrow> 0 \<le> F (sval us ud) (sval vs vd)"
  shows "normal sg (BIT_HELPER loop sg us unb ud vs vnb vd)"
    "big_val (BIT_HELPER loop sg us unb ud vs vnb vd) = F (sval us ud) (sval vs vd)"
proof -
  let ?nb = "max unb vnb" and ?x = "F (sval us ud) (sval vs vd)"
  define d where "d = (if length vd \<le> length ud then loop us ud vs vd else loop vs vd us ud)"
  note u = operandD [OF o(1)] and v = operandD [OF o(2)]
  have nb: "0 < ?nb" using u(2) by simp
  have len: "max (length ud) (length vd) = digits_for ?nb"
    using o(3,4) digits_for_mono [OF u(2), of vnb] digits_for_mono [OF v(2), of unb] by (auto simp: max_def)
  have d: "digits_ok d" "length d = digits_for ?nb" "int (dval d) = ?x mod int (radix ^ digits_for ?nb)"
  proof (atomize (full), cases "length vd \<le> length ud")
    case True
    then have "d = loop us ud vs vd" "digits_for ?nb = length ud" using len by (simp_all add: d_def)
    then show "digits_ok d \<and> length d = digits_for ?nb \<and> int (dval d) = ?x mod int (radix ^ digits_for ?nb)"
      using loop [OF u(3) v(3) True u(1) v(1)] by (simp only: simp_thms)
  next
    case False
    then have "d = loop vs vd us ud" "digits_for ?nb = length vd" using len by (simp_all add: d_def)
    moreover have "length ud \<le> length vd" using False by simp
    ultimately show "digits_ok d \<and> length d = digits_for ?nb \<and> int (dval d) = ?x mod int (radix ^ digits_for ?nb)"
      using loop [OF v(3) u(3) _ v(1) u(1)] unfolding F_commute [of "sval us ud" "sval vs vd"] by (simp only: simp_thms)
  qed
  obtain s d' where c: "convert_signed_2C_to_SM ?nb d = (s, d')" by fastforce
  have f: "fits True ?nb ?x"
    by (rule F_fits [OF nb fits_mono [OF max.cobounded1 fits(1)] fits_mono [OF max.cobounded2 fits(2)]])
  have r: "sm_ok s ?nb d'" "sval s d' = ?x"
    using convert_signed_2C_to_SM_ok [OF d(1) nb d(2) c] wrap_mod [OF nb, of True ?x] wrap_eq [OF nb f]
    unfolding d(3) by (simp_all add: wrap_def)
  then have m: "digits_ok d'" "s \<in> {- 1, 0, 1}" "s = 0 \<longleftrightarrow> dval d' = 0" unfolding sm_ok_def by blast+
  have "\<bar>?x\<bar> \<le> 2 ^ (?nb - 1)" using f unfolding fits_True by linarith
  then have "int (dval d') \<le> int (2 ^ (?nb - 1))" using sval_abs [OF m(2,3)] r(2) by simp
  moreover have "(2 :: nat) ^ (?nb - 1) < 2 ^ num_bits sg ?nb" using nb by (intro power_strict_increasing) (auto simp: num_bits_def)
  ultimately have lt: "dval d' < 2 ^ num_bits sg ?nb" by linarith
  have e: "BIT_HELPER loop sg us unb ud vs vnb vd = new_big sg s ?nb d'"
    using c by (simp add: BIT_HELPER_def Let_def d_def)
  note n = new_big_ok [OF m(1) lt m(2,3) nb, folded e]
  show v: "big_val (BIT_HELPER loop sg us unb ud vs vnb vd) = ?x" using n(2) r(2) by simp
  have "fits sg ?nb ?x" using f sg unfolding fits_cases by blast
  then have "fits sg (num_bits sg ?nb) ?x" by (rule fits_mono [OF num_bits_ge])
  then show "normal sg (BIT_HELPER loop sg us unb ud vs vnb vd)" using held_normal [OF n(1)] n(3) v by simp
qed

lemma operator_ok:
  assumes "normal su u" "normal sv v"
    and loop: "\<And>x y xs ys. digits_ok x \<Longrightarrow> digits_ok y \<Longrightarrow> length y \<le> length x \<Longrightarrow> xs = - 1 \<or> xs = 1 \<Longrightarrow> ys = - 1 \<or> ys = 1 \<Longrightarrow>
      digits_ok (loop xs x ys y) \<and> length (loop xs x ys y) = length x \<and>
      int (dval (loop xs x ys y)) = F (sval xs x) (sval ys y) mod int (radix ^ length x)"
    and zero: "big_val u = 0 \<or> big_val v = 0 \<Longrightarrow> normal (su \<or> sv) w \<and> big_val w = F (big_val u) (big_val v)"
    and helper: "sgn_of u \<noteq> SC_ZERO \<Longrightarrow> sgn_of v \<noteq> SC_ZERO \<Longrightarrow>
      w = BIT_HELPER loop (su \<or> sv) (sgn_of u) (nbits u) (digit u) (sgn_of v) (nbits v) (digit v)"
    and sg: "0 \<le> big_val u \<Longrightarrow> 0 \<le> big_val v \<Longrightarrow> 0 \<le> F (big_val u) (big_val v)"
  shows "normal (su \<or> sv) w" "big_val w = F (big_val u) (big_val v)"
proof -
  note u = normal_facts [OF assms(1)] and v = normal_facts [OF assms(2)]
  have "normal (su \<or> sv) w \<and> big_val w = F (big_val u) (big_val v)"
  proof (cases "big_val u = 0 \<or> big_val v = 0")
    case False
    then have o: "big_val u \<noteq> 0" "big_val v \<noteq> 0" by simp_all
    then have w: "w = BIT_HELPER loop (su \<or> sv) (sgn_of u) (nbits u) (digit u) (sgn_of v) (nbits v) (digit v)"
      using u(5) v(5) by (intro helper) simp_all
    have "\<not> (su \<or> sv) \<Longrightarrow> 0 \<le> F (big_val u) (big_val v)" using u(3) v(3) sg by simp
    from BIT_HELPER_ok [where sg = "su \<or> sv", OF loop bit_operands [OF assms(1,2) o] this [unfolded big_val_def]]
    show ?thesis unfolding w by (simp add: big_val_def [symmetric])
  qed (rule zero)
  then show "normal (su \<or> sv) w" "big_val w = F (big_val u) (big_val v)" by blast+
qed

end

interpretation and_op: bit_op "(AND)" "(AND)" "(\<and>)"
  by unfold_locales (auto simp: bit_and_iff dest: bit_imp_le_length)

interpretation or_op: bit_op "(OR)" "(OR)" "(\<or>)"
  by unfold_locales (auto simp: bit_or_iff dest: bit_imp_le_length)

interpretation xor_op: bit_op "(XOR)" "(XOR)" "\<lambda>p q. p \<noteq> q"
  by unfold_locales (auto simp: bit_xor_iff dest: bit_imp_le_length)

section \<open>The three operators\<close>

lemma and_digits_ok:
  "digits_ok x \<Longrightarrow> digits_ok y \<Longrightarrow> length y \<le> length x \<Longrightarrow> xs = - 1 \<or> xs = 1 \<Longrightarrow> ys = - 1 \<or> ys = 1 \<Longrightarrow>
    digits_ok (and_digits xs x ys y) \<and> length (and_digits xs x ys y) = length x \<and>
    int (dval (and_digits xs x ys y)) = (sval xs x AND sval ys y) mod int (radix ^ length x)"
  unfolding and_digits_def
  using and_op.bit_digits_ok [of "(AND)" "\<lambda>_. 0" "\<lambda>_. 0" x y xs ys] and_op.f_digits by simp

lemma rest_same: "unat a < radix \<Longrightarrow> a AND DIGIT_MASK = a"
  using or_op.f_digits [of a 0] by simp

lemma or_digits_ok:
  "digits_ok x \<Longrightarrow> digits_ok y \<Longrightarrow> length y \<le> length x \<Longrightarrow> xs = - 1 \<or> xs = 1 \<Longrightarrow> ys = - 1 \<or> ys = 1 \<Longrightarrow>
    digits_ok (or_digits xs x ys y) \<and> length (or_digits xs x ys y) = length x \<and>
    int (dval (or_digits xs x ys y)) = (sval xs x OR sval ys y) mod int (radix ^ length x)"
  unfolding or_digits_def
  using or_op.bit_digits_ok [of "(OR)" "\<lambda>a. a" "\<lambda>xc. xc AND DIGIT_MASK" x y xs ys] or_op.f_digits rest_same by simp

lemma xor_digits_ok:
  "digits_ok x \<Longrightarrow> digits_ok y \<Longrightarrow> length y \<le> length x \<Longrightarrow> xs = - 1 \<or> xs = 1 \<Longrightarrow> ys = - 1 \<or> ys = 1 \<Longrightarrow>
    digits_ok (xor_digits xs x ys y) \<and> length (xor_digits xs x ys y) = length x \<and>
    int (dval (xor_digits xs x ys y)) = (sval xs x XOR sval ys y) mod int (radix ^ length x)"
  unfolding xor_digits_def
  using xor_op.bit_digits_ok [of "\<lambda>a b. (a XOR b) AND DIGIT_MASK" "\<lambda>a. a" "\<lambda>xc. xc AND DIGIT_MASK" x y xs ys] rest_same by simp

lemma and_big_ok:
  assumes "normal su u" "normal sv v"
  shows "normal (su \<or> sv) (and_big su u sv v)" "big_val (and_big su u sv v) = (big_val u AND big_val v)"
proof -
  note u = normal_facts [OF assms(1)] and v = normal_facts [OF assms(2)]
  have z: "big_val u = 0 \<or> big_val v = 0 \<Longrightarrow>
      normal (su \<or> sv) (and_big su u sv v) \<and> big_val (and_big su u sv v) = (big_val u AND big_val v)"
    using default_big_ok [of "su \<or> sv"] u(5) v(5) by (auto simp: and_big_def Let_def)
  show "normal (su \<or> sv) (and_big su u sv v)" "big_val (and_big su u sv v) = (big_val u AND big_val v)"
    by (rule and_op.operator_ok [OF assms and_digits_ok z]; simp add: and_big_def AND_HELPER_def Let_def)+
qed

text \<open>Where an operand is zero, the other two return a copy of the other operand.\<close>

lemma or_big_ok:
  assumes "normal su u" "normal sv v"
  shows "normal (su \<or> sv) (or_big su u sv v)" "big_val (or_big su u sv v) = (big_val u OR big_val v)"
proof -
  note u = normal_facts [OF assms(1)] and v = normal_facts [OF assms(2)]
  have z: "big_val u = 0 \<or> big_val v = 0 \<Longrightarrow>
      normal (su \<or> sv) (or_big su u sv v) \<and> big_val (or_big su u sv v) = (big_val u OR big_val v)"
    using to_class_ok [OF assms(1)] to_class_ok [OF assms(2)] u(5) v(5) by (auto simp: or_big_def Let_def)
  show "normal (su \<or> sv) (or_big su u sv v)" "big_val (or_big su u sv v) = (big_val u OR big_val v)"
    by (rule or_op.operator_ok [OF assms or_digits_ok z]; simp add: or_big_def OR_HELPER_def Let_def)+
qed

lemma xor_big_ok:
  assumes "normal su u" "normal sv v"
  shows "normal (su \<or> sv) (xor_big su u sv v)" "big_val (xor_big su u sv v) = (big_val u XOR big_val v)"
proof -
  note u = normal_facts [OF assms(1)] and v = normal_facts [OF assms(2)]
  have z: "big_val u = 0 \<or> big_val v = 0 \<Longrightarrow>
      normal (su \<or> sv) (xor_big su u sv v) \<and> big_val (xor_big su u sv v) = (big_val u XOR big_val v)"
    using to_class_ok [OF assms(1)] to_class_ok [OF assms(2)] u(5) v(5) by (auto simp: xor_big_def Let_def)
  show "normal (su \<or> sv) (xor_big su u sv v)" "big_val (xor_big su u sv v) = (big_val u XOR big_val v)"
    by (rule xor_op.operator_ok [OF assms xor_digits_ok z]; simp add: xor_big_def XOR_HELPER_def Let_def)+
qed

end
