(* ===== verification/Sc_Big_Shift_Facts.thy ===== *)
theory Sc_Big_Shift_Facts
  imports Sc_Big_Bits_Facts
begin

text \<open>
  The complement and the shifts of numbers: the complement is the integer \<open>NOT\<close>, the left shift a
  product and the right shift a quotient rounded down, both exact.
\<close>

section \<open>The way back from a complement\<close>

text \<open>
  What the operators have in common: digits that hold an integer up to the radix are turned into the integer
  that the class and the width make of it.
\<close>

lemma wrap_radix_cong:
  assumes "0 < nb" "x mod int (radix ^ digits_for nb) = y mod int (radix ^ digits_for nb)"
  shows "wrap sg nb x = wrap sg nb y"
  using wrap_mod [OF assms(1), of sg x] wrap_mod [OF assms(1), of sg y] assms(2) by simp

lemma convert_back:
  assumes "digits_ok d" "0 < nb" "length d = digits_for nb" "int (dval d) = x mod int (radix ^ length d)"
    "convert_2C_to_SM sg nb d = (s, d')"
  shows "sm_ok s nb d'" "sval s d' = wrap sg nb x"
  using convert_2C_to_SM_ok [OF assms(1-3,5)] wrap_mod [OF assms(2)] assms(3,4) by simp_all

text \<open>A signed result with the sign it got, put into a number of either class.\<close>

lemma new_from_signed:
  assumes "digits_ok d" "0 < nb" "length d = digits_for nb" "int (dval d) = x mod int (radix ^ length d)"
    "fits sg nb x" "convert_signed_2C_to_SM nb d = (s, d')"
  shows "normal sg (new_big sg s nb d')" "big_val (new_big sg s nb d') = x" "nbits (new_big sg s nb d') = num_bits sg nb"
proof -
  have f: "fits True nb x" by (rule fits_signed [OF assms(5)])
  have "convert_2C_to_SM True nb d = (s, d')" using assms(6) by (simp add: convert_2C_to_SM_def)
  from convert_back [OF assms(1-4) this] have r: "sm_ok s nb d'" "sval s d' = x"
    using wrap_eq [OF assms(2) f] by simp_all
  then have m: "digits_ok d'" "s \<in> {- 1, 0, 1}" "s = 0 \<longleftrightarrow> dval d' = 0" unfolding sm_ok_def by blast+
  have "\<bar>x\<bar> \<le> 2 ^ (nb - 1)" using f unfolding fits_True by linarith
  then have "int (dval d') \<le> int (2 ^ (nb - 1))" using sval_abs [OF m(2,3)] r(2) by simp
  moreover have "(2 :: nat) ^ (nb - 1) < 2 ^ num_bits sg nb" using assms(2) by (intro power_strict_increasing) (auto simp: num_bits_def)
  ultimately have lt: "dval d' < 2 ^ num_bits sg nb" by linarith
  note n = new_big_ok [OF m(1) lt m(2,3) assms(2)]
  show "big_val (new_big sg s nb d') = x" "nbits (new_big sg s nb d') = num_bits sg nb" using n r(2) by simp_all
  have "fits sg (num_bits sg nb) x" by (rule fits_mono [OF num_bits_ge assms(5)])
  then show "normal sg (new_big sg s nb d')" using held_normal [OF n(1)] n(2,3) r(2) by simp
qed

lemma complement_of:
  assumes "normal sg u"
  shows "digits_ok (convert_SM_to_2C (sgn_of u) (digit u))" "length (convert_SM_to_2C (sgn_of u) (digit u)) = digits_for (nbits u)"
    "int (dval (convert_SM_to_2C (sgn_of u) (digit u))) = big_val u mod int (radix ^ digits_for (nbits u))"
  using convert_SM_to_2C_ok [of "digit u" "sgn_of u"] held_facts [OF normal_held [OF assms]] by (simp_all add: big_val_def)

section \<open>The complement\<close>

lemma not_big_ok:
  assumes "normal sg u"
  shows "held (not_big sg u)" "big_val (not_big sg u) = NOT (big_val u)" "sg \<Longrightarrow> normal True (not_big sg u)"
    "nbits (not_big sg u) = num_bits sg (nbits u)"
proof -
  note u = normal_facts [OF assms] and h = held_facts [OF normal_held [OF assms]]
  have nb: "(2 :: nat) ^ (nbits u - 1) < 2 ^ num_bits sg (nbits u)" "1 \<le> (2 :: nat) ^ (nbits u - 1)"
    using u(7) by (intro power_strict_increasing; auto simp: num_bits_def) simp
  have "int (dval (digit u)) \<le> int (2 ^ (nbits u - 1))" using u(4) unfolding h(8) by simp
  then have D: "dval (digit u) \<le> 2 ^ (nbits u - 1)" by (simp only: of_nat_le_iff)
  have "(2 :: nat) ^ (nbits u - 1) < 2 ^ nbits u" using u(7) by (intro power_strict_increasing) simp_all
  also have "\<dots> \<le> radix ^ ndigits u" using pow_le_radix [OF u(7)] h(3) by simp
  finally have R: "(2 :: nat) ^ (nbits u - 1) < radix ^ ndigits u" .
  have "held (not_big sg u) \<and> big_val (not_big sg u) = NOT (big_val u) \<and> nbits (not_big sg u) = num_bits sg (nbits u)"
  proof -
    consider "big_val u = 0" | "0 < big_val u" | "big_val u < 0" by linarith
    then show ?thesis
    proof cases
      case 1
      then have "not_big sg u = new_big sg (- 1) (nbits u) [1]" using u(5) by (simp add: not_big_def SC_NEG_def)
      moreover have "digits_ok [1 :: sc_digit]" by (simp add: radix_def)
      ultimately show ?thesis using new_big_ok [of "[1]" sg "nbits u" "- 1"] nb u(7) 1 by (simp add: not_int_def)
    next
      case 2
      define d where "d = vec_add_small_on (digit u) 1"
      have s: "sgn_of u = SC_POS" using 2 u(6) by (simp add: SC_POS_def)
      have "int (dval (digit u)) < int (2 ^ (nbits u - 1))" using u(2) 2 h(8) unfolding fits_True by simp
      then have lt: "dval (digit u) < 2 ^ (nbits u - 1)" by (simp only: of_nat_less_iff)
      then have "dval (digit u) + 1 < radix ^ ndigits u" using R by linarith
      then have d: "digits_ok d" "dval d = dval (digit u) + 1"
        using vec_add_small_on_ok [OF h(1), of 1] by (simp_all add: d_def radix_def)
      have e: "not_big sg u = new_big sg (- 1) (nbits u) d" using s by (simp add: not_big_def d_def SC_POS_def SC_ZERO_def SC_NEG_def)
      have "int (dval (digit u)) = big_val u" using h(8) 2 by simp
      then show ?thesis using new_big_ok [OF d(1), of sg "nbits u" "- 1"] nb lt u(7) unfolding e d(2) by (simp add: not_int_def)
    next
      case 3
      define d where "d = vec_sub_small_on (digit u) 1"
      have s: "sgn_of u \<noteq> SC_POS" "sgn_of u \<noteq> SC_ZERO" using 3 u(6) by (simp_all add: SC_POS_def SC_ZERO_def)
      have p: "1 \<le> dval (digit u)" using h(8) 3 by linarith
      have d: "digits_ok d" "dval d = dval (digit u) - 1"
        using vec_sub_small_ok [OF h(1), of 1] p by (simp_all add: d_def radix_def)
      have e: "not_big sg u = new_big sg (if dval d = 0 then 0 else 1) (nbits u) d"
        using s by (simp add: not_big_def d_def SC_POS_def SC_ZERO_def check_for_zero_eq Let_def)
      have "int (dval (digit u)) = - big_val u" using h(8) 3 by simp
      then have v: "int (dval d) = - big_val u - 1" unfolding d(2) using p by (simp add: of_nat_diff)
      have "dval d < 2 ^ num_bits sg (nbits u)" using D nb p unfolding d(2) by linarith
      from new_big_ok [OF d(1) this, of "if dval d = 0 then 0 else 1"] show ?thesis
        using u(7) v unfolding e by (auto simp: not_int_def)
    qed
  qed
  then show r: "held (not_big sg u)" "big_val (not_big sg u) = NOT (big_val u)" "nbits (not_big sg u) = num_bits sg (nbits u)" by blast+
  assume sg: "sg"
  have "fits True (nbits u) (NOT (big_val u))" using u(2) unfolding fits_True not_int_def by linarith
  then show "normal True (not_big sg u)" using held_normal [OF r(1), of True] r(2,3) sg by (simp add: num_bits_def)
qed

section \<open>The left shift\<close>

lemma fits_shift: "0 < nb \<Longrightarrow> fits sg nb x \<Longrightarrow> fits sg (nb + n) (x * 2 ^ n)"
proof -
  assume nb: "0 < nb" and f: "fits sg nb x"
  have p: "(2 :: int) ^ (nb + n - 1) = 2 ^ (nb - 1) * 2 ^ n" using nb by (cases nb) (simp_all add: power_add)
  have "x * 2 ^ n < 2 ^ (nb - 1) * 2 ^ n" using f unfolding fits_cases by (intro mult_strict_right_mono) simp_all
  moreover have "- (2 ^ (nb - 1)) * 2 ^ n \<le> x * 2 ^ n" if sg using f that unfolding fits_cases by (intro mult_right_mono) simp_all
  moreover have "0 \<le> x * 2 ^ n" if "\<not> sg" using f that unfolding fits_cases by simp
  ultimately show ?thesis unfolding fits_cases p by simp
qed

lemma mod_shift: "a mod R = b mod R \<Longrightarrow> a * c mod R = b * c mod R" for a b c R :: int
  by (metis mod_mult_left_eq)

lemma shift_count_0 [simp]: "shift_count 0 = 0"
  by (simp add: shift_count_def)

lemma narrowed: "sint (ucast w :: i32) = signed_take_bit 31 (uint (w :: u64))"
  by (simp add: sint_uint unsigned_ucast_eq signed_take_bit_take_bit)

text \<open>A count in the range of \<open>int\<close> is taken as it is.\<close>

lemma shift_count_small: "unat v < 2 ^ 31 \<Longrightarrow> shift_count v = int (unat v)"
proof -
  assume "unat v < 2 ^ 31"
  then have "int (unat v) < int (2 ^ 31)" by (simp only: of_nat_less_iff)
  then have "uint v < 2 ^ 31" by simp
  then have "signed_take_bit 31 (uint v) = uint v"
    by (intro signed_take_bit_int_eq_self) (simp_all add: order_trans [OF _ uint_ge_0])
  then show ?thesis by (simp add: shift_count_def narrowed)
qed

lemma shift_width:
  "sint (ucast (of_nat a + v) :: i32) = signed_take_bit 31 (int a + shift_count (v :: u64))"
proof -
  have sum: "uint (of_nat a + v) = take_bit 64 (int a + uint v)"
    by transfer (simp add: take_bit_eq_mod mod_add_right_eq)
  have "sint (ucast (of_nat a + v) :: i32) = signed_take_bit 31 (int a + uint v)"
    by (simp add: narrowed sum signed_take_bit_take_bit)
  moreover have "signed_take_bit 31 (int a + signed_take_bit 31 (uint v)) = signed_take_bit 31 (int a + uint v)"
    by (metis signed_take_bit_add signed_take_bit_signed_take_bit min.idem)
  ultimately show ?thesis by (simp add: shift_count_def narrowed)
qed

lemma vec_shift_nat:
  "vec_shift_left d k = vec_shift_left d (int (nat k))" "vec_shift_right d k fill = vec_shift_right d (int (nat k)) fill"
  by (cases "0 \<le> k"; simp add: vec_shift_left_def vec_shift_right_def)+

lemma shl_big_ok:
  assumes "normal sg u" and c: "0 \<le> shift_count v" "int (nbits u) + shift_count v < 2 ^ 31"
  shows "\<exists>r. shl_big sg u v = Inr r \<and> normal sg r \<and> big_val r = big_val u * 2 ^ nat (shift_count v)"
proof -
  note u = normal_facts [OF assms(1)] and h = held_facts [OF normal_held [OF assms(1)]]
  define n where "n = nat (shift_count v)"
  show ?thesis
  proof (cases "v = 0 \<or> sgn_of u = SC_ZERO")
    case True
    then show ?thesis using assms(1) u(5) by (auto simp: shl_big_def)
  next
    case False
    define nb where "nb = nbits u + n"
    define e where "e = vec_copy_and_zero (replicate (digits_for nb) 0) (digit u)"
    define c where "c = convert_SM_to_2C (sgn_of u) e"
    define d where "d = vec_shift_left c (int n)"
    obtain s d' where r: "convert_signed_2C_to_SM nb d = (s, d')" by fastforce
    have width: "sint (ucast (of_nat (nbits u) + v) :: i32) = int nb"
      unfolding shift_width nb_def n_def using assms(2,3) by (subst signed_take_bit_int_eq_self) simp_all
    have nb: "0 < nb" "ndigits u \<le> digits_for nb" using u(7) h(3) digits_for_mono [OF u(7), of nb] by (simp_all add: nb_def)
    have e: "digits_ok e" "length e = digits_for nb" "dval e = dval (digit u)"
      using vec_copy_and_zero_ok [OF h(1), of "replicate (digits_for nb) 0"] nb(2) by (simp_all add: e_def)
    have c: "digits_ok c" "length c = digits_for nb" "int (dval c) = big_val u mod int (radix ^ digits_for nb)"
      using convert_SM_to_2C_ok [OF e(1), of "sgn_of u"] h(4,5) e(2,3) by (auto simp: c_def big_val_def)
    have d: "digits_ok d" "length d = digits_for nb" "dval d = dval c * 2 ^ n mod radix ^ digits_for nb"
      using vec_shift_left_ok [OF c(1), of n] c(2) by (simp_all add: d_def)
    have "int (dval d) = int (dval c) * 2 ^ n mod int (radix ^ digits_for nb)" unfolding d(3) zmod_int by simp
    then have v: "int (dval d) = big_val u * 2 ^ n mod int (radix ^ length d)"
      unfolding c(3) d(2) mod_mult_left_eq .
    have "fits sg (nbits u) (big_val u)" using assms(1) by (simp add: normal_def)
    then have f: "fits sg nb (big_val u * 2 ^ n)" unfolding nb_def by (rule fits_shift [OF u(7)])
    have "vec_shift_left c (shift_count v) = d" unfolding d_def n_def by (rule vec_shift_nat)
    then have "shl_big sg u v = Inr (new_big sg s nb d')"
      using False r nb by (simp add: shl_big_def width e_def [symmetric] c_def [symmetric] Let_def)
    then show ?thesis using new_from_signed [OF d(1) nb(1) d(2) v f r] by (simp add: n_def)
  qed
qed

text \<open>Where the width overflows, the code writes outside of its array.\<close>

lemma shl_big_overflow:
  assumes "big_val u \<noteq> 0" "nbits u < 2 ^ 31" "0 < shift_count v" "2 ^ 31 \<le> int (nbits u) + shift_count v"
  shows "shl_big sg u v = Inl Out_of_range"
proof -
  have "shift_count v < 2 ^ 31" using sint_lt [of "ucast v :: i32"] by (simp add: shift_count_def)
  then have "int (nbits u) + shift_count v - 2 ^ 32 < 0" using assms(2) by simp
  moreover have "signed_take_bit 31 (int (nbits u) + shift_count v) = int (nbits u) + shift_count v - 2 ^ 32"
  proof -
    have "signed_take_bit 31 (int (nbits u) + shift_count v) = signed_take_bit 31 (int (nbits u) + shift_count v - 2 ^ 32)"
      by (simp add: signed_take_bit_eq_take_bit_shift take_bit_eq_mod mod_diff_cong mod_eq_dvd_iff)
    also have "\<dots> = int (nbits u) + shift_count v - 2 ^ 32"
      by (rule signed_take_bit_int_eq_self) (use assms(4) \<open>int (nbits u) + shift_count v - 2 ^ 32 < 0\<close> in simp_all)
    finally show ?thesis .
  qed
  moreover have "v \<noteq> 0" "sgn_of u \<noteq> SC_ZERO" using assms(1,3) by (auto simp: big_val_def SC_ZERO_def)
  ultimately show ?thesis by (simp add: shl_big_def shift_width Let_def)
qed

section \<open>The right shift\<close>

lemma div_pow_bounds:
  fixes x P :: int
  assumes "- P \<le> x" "x < P"
  shows "- P \<le> x div 2 ^ n" "x div 2 ^ n < P"
proof -
  have P: "0 < P" using assms by linarith
  have "1 * P \<le> 2 ^ n * P" using P by (intro mult_right_mono) (simp_all add: self_le_power)
  then have le: "P \<le> P * 2 ^ n" by (simp add: mult.commute)
  have "- P * 2 ^ n \<le> x" using le assms(1) by linarith
  from zdiv_mono1 [OF this, of "2 ^ n"] show "- P \<le> x div 2 ^ n" by (simp only: zero_less_power zero_less_numeral nonzero_mult_div_cancel_right
      power_not_zero zero_neq_numeral simp_thms)
  have "x div 2 ^ n * 2 ^ n \<le> x" by (simp add: minus_mod_eq_div_mult [symmetric])
  then have "x div 2 ^ n * 2 ^ n < P * 2 ^ n" using le assms(2) by linarith
  then show "x div 2 ^ n < P" by (rule mult_right_less_imp_less) simp
qed

lemma fits_div: "fits sg nb x \<Longrightarrow> fits sg nb (x div 2 ^ n)"
proof -
  assume f: "fits sg nb x"
  note b = div_pow_bounds [where x = x and n = n, OF fits_signed [OF f, unfolded fits_True, THEN conjunct1]
      fits_signed [OF f, unfolded fits_True, THEN conjunct2]]
  have "0 \<le> x div 2 ^ n" if "\<not> sg" using f that unfolding fits_cases by (simp add: pos_imp_zdiv_nonneg_iff)
  then show ?thesis using b unfolding fits_cases by blast
qed

text \<open>Both right shifts start with the complement and shift it with copies of the sign.\<close>

lemma shift_right_digits:
  fixes n :: nat
  assumes "normal sg u" "big_val u \<noteq> 0"
  defines "d \<equiv> vec_shift_right (convert_SM_to_2C (sgn_of u) (digit u)) (int n) (if sgn_of u = SC_NEG then DIGIT_MASK else 0)"
  shows "digits_ok d" "length d = digits_for (nbits u)" "int (dval d) = big_val u div 2 ^ n mod int (radix ^ length d)"
proof -
  note u = normal_facts [OF assms(1)] and h = held_facts [OF normal_held [OF assms(1)]] and c = complement_of [OF assms(1)]
  define f where "f = (sgn_of u = SC_NEG)"
  define R where "R = int (radix ^ digits_for (nbits u))"
  have e: "d = vec_shift_right (convert_SM_to_2C (sgn_of u) (digit u)) (int n) (fill_digit f)"
    by (simp add: d_def f_def fill_digit_def)
  note s = vec_shift_right_ok [OF c(1), of n f, folded e, unfolded c(2)]
  show d: "digits_ok d" "length d = digits_for (nbits u)" using s(1,2) by simp_all
  have lt: "\<bar>big_val u\<bar> < R" unfolding h(8) R_def using dval_less [OF h(1)] h(3) by simp
  have neg: "f \<longleftrightarrow> big_val u < 0" using assms(2) u(6) by (auto simp: f_def SC_NEG_def sgn_if split: if_splits)
  have "big_val u mod R = big_val u + of_bool f * R"
  proof (cases f)
    case True
    then have "0 \<le> big_val u + R" "big_val u + R < R" using neg lt by linarith+
    then have "(big_val u + R) mod R = big_val u + R" by (rule mod_pos_pos_trivial)
    then show ?thesis using True by simp
  next
    case False
    then show ?thesis using neg lt by simp
  qed
  then have "int (dval (convert_SM_to_2C (sgn_of u) (digit u))) - of_bool f * R = big_val u"
    using c(3) unfolding R_def by simp
  then have "int (dval d) = big_val u div 2 ^ n + of_bool f * R"
    using s(3) unfolding R_def by simp
  then have "int (dval d) mod R = big_val u div 2 ^ n mod R" by simp
  moreover have "int (dval d) mod R = int (dval d)"
    unfolding R_def using dval_less [OF d(1)] d(2) by simp
  ultimately show "int (dval d) = big_val u div 2 ^ n mod int (radix ^ length d)" using d(2) by (simp add: R_def)
qed

lemma shr_big_ok:
  assumes "normal sg u"
  shows "normal sg (shr_big sg u v) \<and> big_val (shr_big sg u v) = big_val u div 2 ^ nat (shift_count v)"
proof -
  note u = normal_facts [OF assms]
  define n where "n = nat (shift_count v)"
  show ?thesis
  proof (cases "v = 0 \<or> sgn_of u = SC_ZERO")
    case True
    then show ?thesis using assms u(5) by (auto simp: shr_big_def)
  next
    case False
    then have nz: "big_val u \<noteq> 0" using u(5) by simp
    define d where "d = vec_shift_right (convert_SM_to_2C (sgn_of u) (digit u)) (int n) (if sgn_of u = SC_NEG then DIGIT_MASK else 0)"
    obtain s d' where r: "convert_signed_2C_to_SM (nbits u) d = (s, d')" by fastforce
    note d = shift_right_digits [OF assms nz, where n = n, folded d_def]
    have f: "fits sg (nbits u) (big_val u div 2 ^ n)" using assms by (intro fits_div) (simp add: normal_def)
    have "vec_shift_right (convert_SM_to_2C (sgn_of u) (digit u)) (shift_count v) fill =
        vec_shift_right (convert_SM_to_2C (sgn_of u) (digit u)) (int n) fill" for fill
      unfolding n_def by (rule vec_shift_nat)
    then have "shr_big sg u v = new_big sg s (nbits u) d'"
      using False r by (simp add: shr_big_def d_def [symmetric] Let_def)
    then show ?thesis using new_from_signed [OF d(1) u(7) d(2,3) f r] by (simp add: n_def)
  qed
qed

end
