(* ===== verification/Sc_Big_Assign_Facts.thy ===== *)
theory Sc_Big_Assign_Facts
  imports Sc_Big_Assign Sc_Big_Shift_Facts
begin

text \<open>
  The operators that change a number in place: each leaves a number of its class and width, whose value is
  the integer result cut to the width, \<open>wrap\<close>.
\<close>

section \<open>Putting a result into a number\<close>

lemma set_to_simps [simp]: "nbits (set_to u p) = nbits u" "sgn_of (set_to u p) = fst p" "digit (set_to u p) = snd p"
  by (simp_all add: set_to_def)

text \<open>\<open>stores sg nb x p\<close>: the sign and the digits \<open>p\<close> stand for \<open>x\<close> cut to the width.\<close>

definition stores :: "bool \<Rightarrow> nat \<Rightarrow> int \<Rightarrow> int \<times> sc_digit list \<Rightarrow> bool" where
  "stores sg nb x p \<longleftrightarrow> sm_ok (fst p) nb (snd p) \<and> sval (fst p) (snd p) = wrap sg nb x"

lemma set_to_ok: "stores sg (nbits u) x p \<Longrightarrow> normal sg (set_to u p) \<and> big_val (set_to u p) = wrap sg (nbits u) x"
  using wrap_fits [of "nbits u" sg x] by (auto simp: stores_def normal_def big_val_def sm_ok_def)

lemma stores_zero: "0 < nb \<Longrightarrow> length d = digits_for nb \<Longrightarrow> stores sg nb 0 (SC_ZERO, vec_zero 0 d)"
  by (simp add: stores_def sm_ok_def SC_ZERO_def vec_zero_def wrap_def)

lemma wrap_zero [simp]: "wrap sg nb 0 = 0"
  by (simp add: wrap_def)

lemma set_to_zero: "normal sg u \<Longrightarrow> normal sg (set_to u (SC_ZERO, vec_zero 0 (digit u))) \<and> big_val (set_to u (SC_ZERO, vec_zero 0 (digit u))) = 0"
  using set_to_ok [OF stores_zero [of "nbits u" "digit u"], of sg] held_facts [OF normal_held [of sg u]] by simp

lemma stores_convert:
  assumes "digits_ok d" "0 < nb" "length d = digits_for nb" "int (dval d) = x mod int (radix ^ length d)"
  shows "stores sg nb x (convert_2C_to_SM sg nb d)"
  using convert_back [OF assms, of sg "fst (convert_2C_to_SM sg nb d)" "snd (convert_2C_to_SM sg nb d)"]
  by (simp add: stores_def)

lemma stores_again:
  assumes "digits_ok d" "0 < nb" "length d = digits_for nb" "s \<in> {- 1, 0, 1}" "s = 0 \<Longrightarrow> dval d = 0"
    "sval s d mod int (radix ^ length d) = x mod int (radix ^ length d)"
  shows "stores sg nb x (convert_SM_to_2C_to_SM sg s nb d)"
  using convert_SM_to_2C_to_SM_ok [OF assms(1-5), where s' = "fst (convert_SM_to_2C_to_SM sg s nb d)" and d' = "snd (convert_SM_to_2C_to_SM sg s nb d)"]
    wrap_radix_cong [OF assms(2), of "sval s d" x sg] assms(3,6)
  by (simp add: stores_def)

section \<open>Copies\<close>

lemma small_fits: "D < 2 ^ (nb - 1) \<Longrightarrow> s \<in> {- 1, 0, 1} \<Longrightarrow> fits True nb (s * int D)"
proof -
  define P where "P = (2 :: int) ^ (nb - 1)"
  assume a: "D < 2 ^ (nb - 1)" "s \<in> {- 1, 0, 1}"
  then have "int D < int (2 ^ (nb - 1))" by (simp only: of_nat_less_iff)
  then have D: "int D < P" "0 \<le> int D" by (simp_all add: P_def)
  have "- P \<le> s * int D \<and> s * int D < P" using a(2) D by auto
  then show ?thesis unfolding fits_True P_def .
qed

text \<open>
  The signed copy skips the conversion when the source is narrower, or has fewer digits; then the value has to
  fit already.
\<close>

lemma copy_digits_ok:
  assumes "digits_ok vd" "0 < nb" "length ud = digits_for nb" "s \<in> {- 1, 0, 1}" "s = 0 \<longleftrightarrow> dval vd = 0"
    "sg \<Longrightarrow> length ud \<le> length vd \<Longrightarrow> vnb < nb \<Longrightarrow> fits True nb (sval s vd)"
  shows "stores sg nb (sval s vd) (copy_digits sg s nb ud vnb vd)"
proof -
  define e where "e = (if length ud \<le> length vd then vec_copy (length ud) ud vd else vec_copy_and_zero ud vd)"
  have e: "digits_ok e" "length e = digits_for nb" "dval e = dval vd mod radix ^ length ud"
  proof (atomize (full), cases "length ud \<le> length vd")
    case True
    then show "digits_ok e \<and> length e = digits_for nb \<and> dval e = dval vd mod radix ^ length ud"
      using vec_copy_ok [OF assms(1) True] assms(3) by (simp add: e_def)
  next
    case False
    then have "radix ^ length vd \<le> radix ^ length ud" by (intro power_increasing) (simp_all add: radix_def)
    then have "dval vd < radix ^ length ud" using dval_less [OF assms(1)] by linarith
    then show "digits_ok e \<and> length e = digits_for nb \<and> dval e = dval vd mod radix ^ length ud"
      using vec_copy_and_zero_ok [OF assms(1), of ud] False assms(3) by (simp add: e_def)
  qed
  have z: "s = 0 \<Longrightarrow> dval e = 0" using e(3) assms(5) by simp
  have m: "sval s e mod int (radix ^ length e) = sval s vd mod int (radix ^ length e)"
    unfolding e(2,3) assms(3) zmod_int by (simp add: mod_mult_right_eq)
  have conv: "stores sg nb (sval s vd) (convert_SM_to_2C_to_SM sg s nb e)"
    by (rule stores_again [OF e(1) assms(2) e(2) assms(4) z m])
  show ?thesis
  proof (cases "sg \<and> \<not> (length ud \<le> length vd \<and> nb \<le> vnb)")
    case False
    then have "copy_digits sg s nb ud vnb vd = convert_SM_to_2C_to_SM sg s nb e"
      by (auto simp: copy_digits_def copy_digits_signed_def copy_digits_unsigned_def convert_SM_to_2C_to_SM_def e_def)
    then show ?thesis using conv by simp
  next
    case True
    have fit: "fits True nb (sval s vd)"
    proof (cases "length ud \<le> length vd")
      case le: False
      have "30 * length vd \<le> nb - 1"
        using width [OF assms(2)] le assms(3) by linarith
      then have "radix ^ length vd \<le> 2 ^ (nb - 1)" unfolding radix_power by (intro power_increasing) simp_all
      then have "dval vd < 2 ^ (nb - 1)" using dval_less [OF assms(1)] by linarith
      then show ?thesis by (rule small_fits [OF _ assms(4)])
    qed (use True assms(6) in auto)
    then have "\<bar>sval s vd\<bar> \<le> 2 ^ (nb - 1)" unfolding fits_True by linarith
    then have "int (dval vd) \<le> int (2 ^ (nb - 1))" using assms(4,5) by (auto simp: abs_mult)
    then have "dval vd \<le> 2 ^ (nb - 1)" by (simp only: of_nat_le_iff)
    also have "(2 :: nat) ^ (nb - 1) < 2 ^ nb" using assms(2) by (intro power_strict_increasing) simp_all
    also have "\<dots> \<le> radix ^ length ud" using pow_le_radix [OF assms(2)] assms(3) by simp
    finally have "dval e = dval vd" using e(3) by simp
    moreover have "copy_digits sg s nb ud vnb vd = (s, e)"
      using True by (auto simp: copy_digits_def copy_digits_signed_def e_def Let_def)
    ultimately show ?thesis
      using wrap_eq [OF assms(2) fit] True e(1,2) assms(2,4,5) by (auto simp: stores_def sm_ok_def)
  qed
qed

text \<open>A number that is held, as the source of a copy with its sign or the other.\<close>

lemma narrow_fits:
  assumes "dval d < 2 ^ m" "m < nb" "s \<in> {- 1, 0, 1}"
  shows "fits True nb (sval s d)"
proof -
  have "(2 :: nat) ^ m \<le> 2 ^ (nb - 1)" using assms(2) by (intro power_increasing) simp_all
  then show ?thesis using assms(1) by (intro small_fits [OF _ assms(3)]) linarith
qed

lemma normal_place: "normal sg u \<Longrightarrow> 0 < nbits u \<and> ndigits u = digits_for (nbits u)"
  using held_facts [OF normal_held] by blast

lemma wrap_self: "normal sg u \<Longrightarrow> wrap sg (nbits u) (big_val u) = big_val u"
  using normal_place [of sg u] wrap_eq [of "nbits u" sg "big_val u"] by (simp add: normal_def)

lemma assign_ok:
  assumes "normal sg u" "held v"
  shows "normal sg (assign_big sg u v) \<and> big_val (assign_big sg u v) = wrap sg (nbits u) (big_val v)"
proof (cases "sgn_of v = SC_ZERO")
  case True
  then have "big_val v = 0" by (simp add: big_val_def SC_ZERO_def)
  then show ?thesis using True set_to_ok [OF stores_zero] normal_place [OF assms(1)] by (simp add: assign_big_def)
next
  case False
  note v = held_facts [OF assms(2)]
  have "stores sg (nbits u) (sval (sgn_of v) (digit v)) (copy_digits sg (sgn_of v) (nbits u) (digit u) (nbits v) (digit v))"
    using normal_place [OF assms(1)] v narrow_fits [OF v(6)] by (intro copy_digits_ok) auto
  from set_to_ok [OF this] show ?thesis using False by (simp add: assign_big_def big_val_def)
qed

section \<open>Sums\<close>

text \<open>The sum in place is right up to the radix; the conversion afterwards makes it right up to the width.\<close>

lemma int_mod_R: "D = E mod R \<Longrightarrow> s * int D mod int R = s * int E mod int R" for D E R :: nat
  by (simp add: zmod_int mod_mult_right_eq)

lemma add_on_help_ok:
  assumes "digits_ok ud" "digits_ok vd" "us = - 1 \<or> us = 1" "vs = - 1 \<or> vs = 1" "add_on_help us ud vs vd = (s, d)"
  shows "digits_ok d" "length d = length ud" "s \<in> {- 1, 0, 1}" "s = 0 \<Longrightarrow> dval d = 0"
    "sval s d mod int (radix ^ length d) = (sval us ud + sval vs vd) mod int (radix ^ length d)"
proof -
  let ?v = "skipped vd" and ?R = "int (radix ^ length ud)"
  have v: "digits_ok ?v" "dval ?v = dval vd" using skipped_ok(1,2) assms(2) by blast+
  note c = vec_cmp_cases [OF assms(1,2)]
  have "digits_ok d \<and> length d = length ud \<and> s \<in> {- 1, 0, 1} \<and> (s = 0 \<longrightarrow> dval d = 0) \<and>
    sval s d mod ?R = (sval us ud + sval vs vd) mod ?R"
  proof (cases "us = vs")
    case True
    then have sd: "s = us" "d = (if length ?v \<le> length ud then vec_add_on ud ?v else vec_add_on2 ud ?v)"
      using assms(5) by (simp_all add: add_on_help_def Let_def)
    have d: "digits_ok d" "length d = length ud" "dval d = (dval ud + dval vd) mod radix ^ length ud"
      using vec_add_on_ok [OF assms(1) v(1)] vec_add_on2_ok [OF assms(1) v(1)] v(2) sd(2) by (auto split: if_splits)
    then show ?thesis using int_mod_R [OF d(3), of us] sd(1) True assms(3) by (auto simp: distrib_left)
  next
    case False
    then have vs: "vs = - us" using assms(3,4) by auto
    consider "dval ud = dval vd" | "dval vd < dval ud" | "dval ud < dval vd" by linarith
    then show ?thesis
    proof cases
      case 1
      then have "s = SC_ZERO" "d = vec_zero 0 ud" using False c(1) assms(5) by (simp_all add: add_on_help_def Let_def)
      then show ?thesis using 1 vs by (simp add: SC_ZERO_def vec_zero_def)
    next
      case 2
      then have sd: "s = us" "d = vec_sub_on ud ?v" using False c assms(5) by (simp_all add: add_on_help_def Let_def)
      have le: "length ?v \<le> length ud" using skipped_longer [OF assms(2,1)] 2 skipped_ok(6) [of ud] by simp
      have d: "digits_ok d" "length d = length ud" "dval d = dval ud - dval vd"
        using vec_sub_ok [OF assms(1) v(1) le] 2 v(2) unfolding sd(2) by simp_all
      then have "sval s d = sval us ud + sval vs vd" using 2 sd(1) vs by (simp add: of_nat_diff algebra_simps)
      then show ?thesis using d sd(1) assms(3) by auto
    next
      case 3
      then have sd: "s = - us" "d = vec_sub_on2 ud ?v" using False c assms(5) by (simp_all add: add_on_help_def Let_def)
      have d: "digits_ok d" "length d = length ud" "dval d = (dval vd - dval ud) mod radix ^ length ud"
        using vec_sub_on2_ok [OF assms(1) v(1)] 3 v(2) unfolding sd(2) by simp_all
      then show ?thesis using int_mod_R [OF d(3), of s] 3 sd(1) vs assms(3) by (auto simp: of_nat_diff algebra_simps)
    qed
  qed
  then show "digits_ok d" "length d = length ud" "s \<in> {- 1, 0, 1}" "s = 0 \<Longrightarrow> dval d = 0"
    "sval s d mod int (radix ^ length d) = (sval us ud + sval vs vd) mod int (radix ^ length d)" by auto
qed

lemma stores_sum:
  assumes "normal sg u" "sgn_of u \<noteq> 0" "digits_ok vd" "vs = - 1 \<or> vs = 1"
  shows "stores sg (nbits u) (big_val u + sval vs vd) (convert_again sg (nbits u) (add_on_help (sgn_of u) (digit u) vs vd))"
proof -
  note h = held_facts [OF normal_held [OF assms(1)]]
  obtain s d where p: "add_on_help (sgn_of u) (digit u) vs vd = (s, d)" by fastforce
  have us: "sgn_of u = - 1 \<or> sgn_of u = 1" using h(4) assms(2) by auto
  note a = add_on_help_ok [OF h(1) assms(3) us assms(4) p]
  show ?thesis unfolding p convert_again_def big_val_def using a h(2,3) by (auto intro!: stores_again)
qed

lemma plus_assign_ok:
  assumes "normal sg u" "held v"
  shows "normal sg (plus_assign sg u v) \<and> big_val (plus_assign sg u v) = wrap sg (nbits u) (big_val u + big_val v)"
proof -
  note u = normal_facts [OF assms(1)] and v = held_facts [OF assms(2)]
  note f = wrap_self [OF assms(1)]
  consider "sgn_of u = SC_ZERO" | "sgn_of u \<noteq> SC_ZERO" "sgn_of v = SC_ZERO" | "sgn_of u \<noteq> SC_ZERO" "sgn_of v \<noteq> SC_ZERO" by blast
  then show ?thesis
  proof cases
    case 1
    then show ?thesis using assign_ok [OF assms] u(5) by (simp add: plus_assign_def)
  next
    case 2
    then show ?thesis using assms(1) f by (simp add: plus_assign_def big_val_def SC_ZERO_def)
  next
    case 3
    then have "sgn_of u \<noteq> 0" "sgn_of v = - 1 \<or> sgn_of v = 1" using v(4) by (auto simp: SC_ZERO_def)
    from set_to_ok [OF stores_sum [OF assms(1) this(1) v(1) this(2)]] 3 show ?thesis
      by (simp add: plus_assign_def big_val_def)
  qed
qed

lemma minus_assign_ok:
  assumes "normal sg u" "held v"
  shows "normal sg (minus_assign sg u v) \<and> big_val (minus_assign sg u v) = wrap sg (nbits u) (big_val u - big_val v)"
proof -
  note u = normal_facts [OF assms(1)] and v = held_facts [OF assms(2)]
  note f = wrap_self [OF assms(1)]
  consider "sgn_of v = SC_ZERO" | "sgn_of u = SC_ZERO" "sgn_of v \<noteq> SC_ZERO" | "sgn_of u \<noteq> SC_ZERO" "sgn_of v \<noteq> SC_ZERO" by blast
  then show ?thesis
  proof cases
    case 1
    then show ?thesis using assms(1) f by (simp add: minus_assign_def big_val_def SC_ZERO_def)
  next
    case 2
    have s: "- sgn_of v \<in> {- 1, 0, 1}" using v(4) by auto
    have "stores sg (nbits u) (sval (- sgn_of v) (digit v)) (copy_digits sg (- sgn_of v) (nbits u) (digit u) (nbits v) (digit v))"
      by (rule copy_digits_ok [OF v(1) u(7) _ s]) (use normal_place [OF assms(1)] v(5) narrow_fits [OF v(6) _ s] in auto)
    moreover have "sval (- sgn_of v) (digit v) = big_val u - big_val v" using 2 u(5) by (simp add: big_val_def [of v])
    ultimately show ?thesis using set_to_ok 2 by (simp add: minus_assign_def)
  next
    case 3
    then have "sgn_of u \<noteq> 0" "- sgn_of v = - 1 \<or> - sgn_of v = 1" using v(4) by (auto simp: SC_ZERO_def)
    from set_to_ok [OF stores_sum [OF assms(1) this(1) v(1) this(2)]] 3 show ?thesis
      by (simp add: minus_assign_def big_val_def)
  qed
qed

section \<open>Products\<close>

lemma digit_one: "digits_ok [1]"
  by (simp add: radix_def)

lemma mul_on_help_ok:
  assumes "operand us unb ud" "operand vs vnb vd" "length ud = digits_for unb"
  shows "stores sg unb (sval us ud * sval vs vd) (mul_on_help sg (us * vs) unb ud vnb vd)"
proof -
  let ?u = "skipped ud" and ?v = "skipped vd" and ?s = "us * vs"
  note u = operandD [OF assms(1)] and v = operandD [OF assms(2)]
  have s: "?s \<in> {- 1, 0, 1}" "?s \<noteq> 0" using u(1) v(1) by auto
  have x: "sval us ud * sval vs vd = ?s * int (dval ud * dval vd)" by simp
  have wide: "stores sg unb (sval us ud * sval vs vd) (copy_digits sg ?s unb ud (unb + vnb) d)"
    if "digits_ok d" "dval d = dval ud * dval vd" for d
    unfolding x that(2) [symmetric] using that u(2,4) v(4) s assms(3) by (intro copy_digits_ok) simp_all
  consider (one_v) "single ?v \<and> ?v ! 0 = 1" | (one_u) "\<not> (single ?v \<and> ?v ! 0 = 1)" "single ?u \<and> ?u ! 0 = 1"
    | (digit) "\<not> (single ?v \<and> ?v ! 0 = 1)" "\<not> (single ?u \<and> ?u ! 0 = 1)"
        "single ?u \<and> single ?v \<and> ?u ! 0 < HALF_DIGIT_RADIX \<and> ?v ! 0 < HALF_DIGIT_RADIX"
    | (long) "\<not> (single ?v \<and> ?v ! 0 = 1)" "\<not> (single ?u \<and> ?u ! 0 = 1)"
        "\<not> (single ?u \<and> single ?v \<and> ?u ! 0 < HALF_DIGIT_RADIX \<and> ?v ! 0 < HALF_DIGIT_RADIX)" by blast
  then show ?thesis
  proof cases
    case one_v
    then have "dval vd = 1" using single_ok(2) [of ?v] v(8) by simp
    then have e: "sval us ud * sval vs vd = sval ?s ud" by simp
    have "stores sg unb (sval ?s ud) (convert_SM_to_2C_to_SM sg ?s unb ud)"
      by (rule stores_again [OF u(3,2) assms(3) s(1) _ refl]) (use s(2) in simp)
    then show ?thesis unfolding e using one_v by (simp add: mul_on_help_def Let_def)
  next
    case one_u
    then have "dval ud = 1" using single_ok(2) [of ?u] u(8) by simp
    then have e: "sval us ud * sval vs vd = sval ?s ?v" using v(8) by simp
    have "stores sg unb (sval ?s ?v) (copy_digits sg ?s unb ud vnb ?v)"
      by (rule copy_digits_ok [OF v(6) u(2) assms(3) s(1)])
        (use s v(4,8) narrow_fits [OF v(5) _ s(1)] in \<open>auto simp only: v(8)\<close>)
    then show ?thesis unfolding e using one_u by (auto simp: mul_on_help_def Let_def)
  next
    case digit
    have "digits_ok [?u ! 0 * ?v ! 0]" "dval [?u ! 0 * ?v ! 0] = dval ud * dval vd"
      using half_product [of "?u ! 0" "?v ! 0"] single_ok(2) [of ?u] single_ok(2) [of ?v] digit(3) u(8) v(8)
      by (simp_all add: HALF_DIGIT_RADIX_eq)
    from wide [OF this] show ?thesis using digit by (auto simp: mul_on_help_def Let_def)
  next
    case long
    have "digits_ok (array_of (length ?u + length ?v) (mul_digits ?u ?v))"
      "dval (array_of (length ?u + length ?v) (mul_digits ?u ?v)) = dval ud * dval vd"
      using mul_digits_ok [OF u(6) v(6)] array_ok(1) u(8) v(8) by simp_all
    from wide [OF this] show ?thesis using long by (auto simp: mul_on_help_def Let_def)
  qed
qed

lemma by_class: "(if sg then mul_on_help_signed else mul_on_help_unsigned) = mul_on_help sg"
  "(if sg then div_on_help_signed else div_on_help_unsigned) = div_on_help sg"
  "(if sg then mod_on_help_signed else mod_on_help_unsigned) = mod_on_help sg"
  by (simp_all add: mul_on_help_signed_def mul_on_help_unsigned_def div_on_help_signed_def div_on_help_unsigned_def
      mod_on_help_signed_def mod_on_help_unsigned_def)

text \<open>The operands of a compound assignment: a number of the class, and any number that is held.\<close>

lemma assign_operands:
  assumes "normal sg u" "held v"
  shows "mul_signs (sgn_of u) (sgn_of v) = sgn_of u * sgn_of v" "sgn_of u * sgn_of v = SC_ZERO \<longleftrightarrow> big_val u = 0 \<or> big_val v = 0"
    "big_val u \<noteq> 0 \<Longrightarrow> operand (sgn_of u) (nbits u) (digit u)" "big_val v \<noteq> 0 \<Longrightarrow> operand (sgn_of v) (nbits v) (digit v)"
    "sgn_of v = SC_ZERO \<longleftrightarrow> big_val v = 0"
proof -
  note h = held_facts [OF normal_held [OF assms(1)]] and v = held_facts [OF assms(2)]
  show "mul_signs (sgn_of u) (sgn_of v) = sgn_of u * sgn_of v" by (rule mul_signs_eq [OF h(4) v(4)])
  show "sgn_of u * sgn_of v = SC_ZERO \<longleftrightarrow> big_val u = 0 \<or> big_val v = 0"
    unfolding h(7) [symmetric] v(7) [symmetric] SC_ZERO_def by (simp add: sgn_0_0)
  show "sgn_of v = SC_ZERO \<longleftrightarrow> big_val v = 0" unfolding v(7) [symmetric] SC_ZERO_def by (simp add: sgn_0_0)
  then show "big_val v \<noteq> 0 \<Longrightarrow> operand (sgn_of v) (nbits v) (digit v)" using held_operand [OF assms(2)] by blast
  show "big_val u \<noteq> 0 \<Longrightarrow> operand (sgn_of u) (nbits u) (digit u)" by (rule normal_operand [OF assms(1)])
qed

lemma times_assign_ok:
  assumes "normal sg u" "held v"
  shows "normal sg (times_assign sg u v) \<and> big_val (times_assign sg u v) = wrap sg (nbits u) (big_val u * big_val v)"
proof -
  note o = assign_operands [OF assms] and p = normal_place [OF assms(1)]
  show ?thesis
  proof (cases "big_val u = 0 \<or> big_val v = 0")
    case True
    then have "times_assign sg u v = set_to u (SC_ZERO, vec_zero 0 (digit u))" using o(1,2) by (simp add: times_assign_def Let_def)
    then show ?thesis using set_to_zero [OF assms(1)] True by auto
  next
    case False
    then have e: "times_assign sg u v = set_to u (mul_on_help sg (sgn_of u * sgn_of v) (nbits u) (digit u) (nbits v) (digit v))"
      using o(1,2) unfolding times_assign_def by_class by (simp add: Let_def)
    show ?thesis using set_to_ok [OF mul_on_help_ok [OF o(3,4)]] p False unfolding e by (simp add: big_val_def [symmetric])
  qed
qed

section \<open>Quotients and remainders\<close>

lemma div_on_help_ok:
  assumes "operand us unb ud" "operand vs vnb vd" "length ud = digits_for unb"
  shows "stores sg unb (us * vs * int (dval ud div dval vd)) (div_on_help sg (us * vs) unb ud vnb vd)"
proof -
  let ?u = "skipped ud" and ?v = "skipped vd" and ?s = "us * vs"
  note u = operandD [OF assms(1)] and v = operandD [OF assms(2)]
  note c = vec_cmp_cases [OF u(3) v(3)]
  define n where "n = max (length ?u) (length ?v) + 1"
  have s: "?s \<in> {- 1, 0, 1}" "?s \<noteq> 0" using u(1) v(1) by auto
  have wide: "stores sg unb (?s * int (dval ud div dval vd)) (copy_digits sg ?s unb ud (max unb vnb) (take (n - 1) d))"
    if d: "digits_ok d" "dval d = dval ud div dval vd" "dval vd \<le> dval ud" for d
  proof -
    have "radix ^ length ?u \<le> radix ^ (n - 1)" by (intro power_increasing) (simp_all add: n_def Suc_le_eq)
    moreover have "dval d \<le> dval ud" using d(2) by simp
    ultimately have "dval d < radix ^ (n - 1)" using dval_less [OF u(6)] u(8) by linarith
    then have t: "digits_ok (take (n - 1) d)" "dval (take (n - 1) d) = dval d"
      using take_array [of d "n - 1" 0] d(1) by (simp_all add: array_of_def)
    have "dval d \<noteq> 0" using d(2,3) v(4) by (simp add: div_eq_0_iff)
    then show ?thesis unfolding d(2) [symmetric] t(2) [symmetric]
      using s assms(3) u(2) by (intro copy_digits_ok [OF t(1)]) (simp_all add: t(2))
  qed
  consider "dval ud < dval vd" | "dval ud = dval vd" | "dval vd < dval ud" "single ?v \<and> ?v ! 0 = 1"
    | "dval vd < dval ud" "\<not> (single ?v \<and> ?v ! 0 = 1)" by linarith
  then show ?thesis
  proof cases
    case 1
    then show ?thesis using c(3) stores_zero [OF u(2) assms(3)] by (simp add: div_on_help_def Let_def)
  next
    case 2
    then have "digits_ok (array_of n [1])" "dval (array_of n [1]) = dval ud div dval vd"
      using v(4) by (simp_all add: array_ok digit_one)
    from wide [OF this] show ?thesis using 2 c by (simp add: div_on_help_def Let_def n_def)
  next
    case 3
    then have "dval vd = 1" using single_ok(2) [of ?v] v(8) by simp
    then have "stores sg unb (?s * int (dval ud div dval vd)) (convert_SM_to_2C_to_SM sg ?s unb ud)"
      using u(2,3) s assms(3) by (intro stores_again) simp_all
    then show ?thesis using 3 c by (simp add: div_on_help_def Let_def)
  next
    case 4
    from div_choice(1,2) [OF assms(1,2) 4(1) order_refl, of n]
    have "stores sg unb (?s * int (dval ud div dval vd)) (copy_digits sg ?s unb ud (max unb vnb) (take (n - 1)
        (if single ?v \<and> single ?u then array_of n [?u ! 0 div ?v ! 0]
         else if single ?v \<and> ?v ! 0 < HALF_DIGIT_RADIX then array_of n (vec_div_small ?u (?v ! 0))
         else array_of n (vec_div_large ?u ?v (replicate (length ?u) 0)))))"
      using 4 by (intro wide) simp_all
    moreover have "\<not> vec_cmp ?u ?v < 0" "vec_cmp ?u ?v \<noteq> 0" using 4(1) c by linarith+
    ultimately show ?thesis using 4(2) by (simp only: div_on_help_def Let_def n_def if_False if_True simp_thms)
  qed
qed

lemma div_assign_ok:
  assumes "normal sg u" "held v" "big_val v \<noteq> 0"
  obtains w where "div_assign sg u v = Inr w" "normal sg w" "big_val w = wrap sg (nbits u) (big_val u sdiv big_val v)"
proof -
  note o = assign_operands [OF assms(1,2)] and p = normal_place [OF assms(1)] and u = normal_facts [OF assms(1)]
  show ?thesis
  proof (cases "big_val u = 0")
    case True
    have "div_assign sg u v = Inr (set_to u (SC_ZERO, vec_zero 0 (digit u)))"
      using o(1,2,5) True assms(3) by (simp add: div_assign_def Let_def div_by_zero_def SC_ZERO_def)
    then show ?thesis using that set_to_zero [OF assms(1)] True by simp
  next
    case False
    have a: "\<bar>big_val u\<bar> = int (dval (digit u))" "\<bar>big_val v\<bar> = int (dval (digit v))"
      using held_facts(8) u(1) assms(2) by blast+
    have q: "sgn_of u * sgn_of v * int (dval (digit u) div dval (digit v)) = big_val u sdiv big_val v"
      using sdiv_parts [OF a] held_facts(7) [OF u(1)] held_facts(7) [OF assms(2)] by simp
    have "div_assign sg u v = Inr (set_to u (div_on_help sg (sgn_of u * sgn_of v) (nbits u) (digit u) (nbits v) (digit v)))"
      using o(1,2) False assms(3) unfolding div_assign_def by_class by (simp add: Let_def)
    then show ?thesis
      using set_to_ok [OF div_on_help_ok [OF o(3) [OF False] o(4) [OF assms(3)], of sg]] p that unfolding q by blast
  qed
qed

lemma rem_fits: "fits True nb (s * int D) \<Longrightarrow> (s :: int) = - 1 \<or> s = 1 \<Longrightarrow> r \<le> D \<Longrightarrow> fits True nb (s * int r)"
proof -
  define P where "P = (2 :: int) ^ (nb - 1)"
  assume a: "fits True nb (s * int D)" "s = - 1 \<or> s = 1" "r \<le> D"
  have "0 < P" "int r \<le> int D" "0 \<le> int r" using a(3) by (simp_all add: P_def)
  then have "- P \<le> s * int r \<and> s * int r < P" using a(1,2) unfolding fits_True P_def [symmetric] by auto
  then show ?thesis unfolding fits_True P_def .
qed

text \<open>The width passed on with the remainder does not matter: the remainder is below the dividend.\<close>

lemma mod_on_help_ok:
  assumes "operand us unb ud" "operand vs vnb vd" "length ud = digits_for unb" "fits sg unb (sval us ud)"
  shows "stores sg unb (us * int (dval ud mod dval vd)) (mod_on_help sg us unb ud vd)"
proof -
  let ?u = "skipped ud" and ?v = "skipped vd"
  note u = operandD [OF assms(1)] and v = operandD [OF assms(2)]
  note c = vec_cmp_cases [OF u(3) v(3)]
  define n where "n = max (length ?u) (length ?v) + 1"
  define d where "d = (if single ?v \<and> ?v ! 0 < HALF_DIGIT_RADIX then array_of n [vec_rem_small ?u (?v ! 0)]
                     else array_of n (vec_rem_large ?u ?v (replicate (length ?u) 0)))"
  define e where "e = take (n - 1) d"
  consider "dval ud < dval vd" | "dval ud = dval vd" | "dval vd < dval ud" "single ?v \<and> ?v ! 0 = 1"
    | "dval vd < dval ud" "\<not> (single ?v \<and> ?v ! 0 = 1)" by linarith
  then show ?thesis
  proof cases
    case 1
    then have "mod_on_help sg us unb ud vd = (us, ud)" using c(3) by (simp add: mod_on_help_def Let_def)
    then show ?thesis using 1 u(1-4) assms(3) wrap_eq [OF u(2) assms(4)] by (auto simp: stores_def sm_ok_def)
  next
    case 2
    then show ?thesis using c stores_zero [OF u(2) assms(3)] by (simp add: mod_on_help_def Let_def)
  next
    case 3
    then have "dval vd = 1" using single_ok(2) [of ?v] v(8) by simp
    then show ?thesis using 3 c stores_zero [OF u(2) assms(3)] by (simp add: mod_on_help_def Let_def)
  next
    case 4
    note parts = division_parts [OF assms(1,2) 4(1)]
    have d: "digits_ok d" "dval d = dval ud mod dval vd"
      unfolding d_def using parts(2,4) by (auto intro!: array_ok(1))
    have le: "dval d \<le> dval ud" unfolding d(2) by simp
    have "radix ^ length ?u \<le> radix ^ (n - 1)" by (intro power_increasing) (simp_all add: n_def Suc_le_eq)
    then have "dval d < radix ^ (n - 1)" using le dval_less [OF u(6)] u(8) by linarith
    then have t: "digits_ok e" "dval e = dval d"
      using take_array [of d "n - 1" 0] d(1) by (simp_all add: array_of_def e_def)
    have eq: "mod_on_help sg us unb ud vd = (let s = check_for_zero us e
        in if s = SC_ZERO then (s, vec_zero 0 ud) else copy_digits sg s unb ud (min unb (length ?v)) e)"
      using 4 c unfolding mod_on_help_def n_def d_def e_def by (auto simp: Let_def)
    show ?thesis
    proof (cases "dval d = 0")
      case True
      then show ?thesis using stores_zero [OF u(2) assms(3)] d(2) t(2) unfolding eq by (simp add: check_for_zero_eq SC_ZERO_def)
    next
      case False
      have us: "us \<in> {- 1, 0, 1}" "us \<noteq> 0" using u(1) by auto
      have "fits True unb (sval us e)" unfolding t(2) by (rule rem_fits [OF fits_signed [OF assms(4)] u(1) le])
      then have "stores sg unb (sval us e) (copy_digits sg us unb ud (min unb (length ?v)) e)"
        using u(2) assms(3) us False t(2) by (intro copy_digits_ok [OF t(1)]) simp_all
      then show ?thesis using False us unfolding eq d(2) [symmetric] by (simp add: check_for_zero_eq t(2) SC_ZERO_def)
    qed
  qed
qed

lemma mod_assign_ok:
  assumes "normal sg u" "held v" "big_val v \<noteq> 0"
  obtains w where "mod_assign sg u v = Inr w" "normal sg w" "big_val w = wrap sg (nbits u) (big_val u smod big_val v)"
proof -
  note o = assign_operands [OF assms(1,2)] and p = normal_place [OF assms(1)] and u = normal_facts [OF assms(1)]
  show ?thesis
  proof (cases "big_val u = 0")
    case True
    have "u\<lparr>digit := vec_zero 0 (digit u)\<rparr> = set_to u (SC_ZERO, vec_zero 0 (digit u))"
      using True u(5) by (simp add: set_to_def)
    then have "mod_assign sg u v = Inr (set_to u (SC_ZERO, vec_zero 0 (digit u)))"
      using o(5) u(5) True assms(3) by (simp add: mod_assign_def div_by_zero_def SC_ZERO_def)
    then show ?thesis using that set_to_zero [OF assms(1)] True by (simp add: signed_modulo_int_def)
  next
    case False
    have a: "\<bar>big_val u\<bar> = int (dval (digit u))" "\<bar>big_val v\<bar> = int (dval (digit v))"
      using held_facts(8) u(1) assms(2) by blast+
    have q: "sgn_of u * int (dval (digit u) mod dval (digit v)) = big_val u smod big_val v"
      using smod_parts [OF a] held_facts(7) [OF u(1)] by simp
    have f: "fits sg (nbits u) (sval (sgn_of u) (digit u))" using assms(1) by (simp add: normal_def big_val_def)
    have "mod_assign sg u v = Inr (set_to u (mod_on_help sg (sgn_of u) (nbits u) (digit u) (digit v)))"
      using o(5) u(5) False assms(3) unfolding mod_assign_def by_class by simp
    then show ?thesis
      using set_to_ok [OF mod_on_help_ok [OF o(3) [OF False] o(4) [OF assms(3)] _ f]] p that unfolding q by blast
  qed
qed

lemma assign_by_zero:
  assumes "normal sg u" "held v" "big_val v = 0"
  shows "div_assign sg u v = Inl Sc_report_error" "mod_assign sg u v = Inl Sc_report_error"
  using assign_operands [OF assms(1,2)] assms(3) by (simp_all add: div_assign_def mod_assign_def Let_def div_by_zero_def SC_ZERO_def)

section \<open>Bitwise operators\<close>

lemma take_dval:
  assumes "digits_ok d"
  shows "dval (take n d) mod radix ^ n = dval d mod radix ^ n"
proof (cases "n \<le> length d")
  case True
  from mod_take [OF assms True, symmetric] show ?thesis by (simp only: mod_mod_trivial)
qed simp

context bit_op begin

lemma F_mod: "b mod 2 ^ n = c mod 2 ^ n \<Longrightarrow> F a b mod 2 ^ n = F a c mod 2 ^ n"
  using F_take_bit [of n a b] F_take_bit [of n a c] by (simp add: take_bit_eq_mod)

lemma stores_bits:
  assumes loop: "\<And>x y xs ys. digits_ok x \<Longrightarrow> digits_ok y \<Longrightarrow> length y \<le> length x \<Longrightarrow> xs = - 1 \<or> xs = 1 \<Longrightarrow> ys = - 1 \<or> ys = 1 \<Longrightarrow>
      digits_ok (loop xs x ys y) \<and> length (loop xs x ys y) = length x \<and>
      int (dval (loop xs x ys y)) = F (sval xs x) (sval ys y) mod int (radix ^ length x)"
    and uv: "normal sg u" "held v" "sgn_of u \<noteq> SC_ZERO" "sgn_of v \<noteq> SC_ZERO"
  shows "stores sg (nbits u) (F (big_val u) (big_val v))
    (convert_2C_to_SM sg (nbits u) (loop (sgn_of u) (digit u) (sgn_of v) (take (ndigits u) (digit v))))"
proof -
  note h = held_facts [OF normal_held [OF uv(1)]] and v = held_facts [OF uv(2)]
  let ?y = "take (ndigits u) (digit v)"
  have s: "sgn_of u = - 1 \<or> sgn_of u = 1" "sgn_of v = - 1 \<or> sgn_of v = 1" using h(4) v(4) uv(3,4) by (auto simp: SC_ZERO_def)
  have y: "digits_ok ?y" "length ?y \<le> ndigits u" using digits_ok_part(1) [OF v(1)] by simp_all
  note l = loop [OF h(1) y s]
  have R: "int (radix ^ ndigits u) = 2 ^ (30 * ndigits u)" by (simp add: radix_power)
  have "sval (sgn_of v) ?y mod int (radix ^ ndigits u) = big_val v mod int (radix ^ ndigits u)"
    unfolding big_val_def using int_mod_R [OF take_dval [OF v(1), symmetric, of "ndigits u"], of "sgn_of v"]
    by (simp add: mod_mult_right_eq zmod_int)
  then have "F (big_val u) (sval (sgn_of v) ?y) mod int (radix ^ ndigits u) = F (big_val u) (big_val v) mod int (radix ^ ndigits u)"
    unfolding R by (rule F_mod)
  then show ?thesis using l h(2,3) by (intro stores_convert) (simp_all add: big_val_def)
qed

end

lemma and_assign_ok:
  assumes "normal sg u" "held v"
  shows "normal sg (and_assign sg u v) \<and> big_val (and_assign sg u v) = wrap sg (nbits u) (big_val u AND big_val v)"
proof (cases "sgn_of u = SC_ZERO \<or> sgn_of v = SC_ZERO")
  case True
  then have "big_val u = 0 \<or> big_val v = 0" by (auto simp: big_val_def SC_ZERO_def)
  then show ?thesis using True set_to_zero [OF assms(1)] by (auto simp: and_assign_def make_zero_def)
next
  case False
  then show ?thesis using set_to_ok [OF and_op.stores_bits [OF and_digits_ok assms]] by (simp add: and_assign_def and_on_help_def)
qed

lemma or_assign_ok:
  assumes "normal sg u" "held v"
  shows "normal sg (or_assign sg u v) \<and> big_val (or_assign sg u v) = wrap sg (nbits u) (big_val u OR big_val v)"
proof -
  note w = wrap_self [OF assms(1)]
  have z: "sgn_of u = SC_ZERO \<Longrightarrow> big_val u = 0" "sgn_of v = SC_ZERO \<Longrightarrow> big_val v = 0" by (simp_all add: big_val_def SC_ZERO_def)
  show ?thesis
    using set_to_ok [OF or_op.stores_bits [OF or_digits_ok assms]] assign_ok [OF assms] assms(1) w z
    by (simp add: or_assign_def or_on_help_def)
qed

lemma xor_assign_ok:
  assumes "normal sg u" "held v"
  shows "normal sg (xor_assign sg u v) \<and> big_val (xor_assign sg u v) = wrap sg (nbits u) (big_val u XOR big_val v)"
proof -
  note w = wrap_self [OF assms(1)]
  have z: "sgn_of u = SC_ZERO \<Longrightarrow> big_val u = 0" "sgn_of v = SC_ZERO \<Longrightarrow> big_val v = 0" by (simp_all add: big_val_def SC_ZERO_def)
  show ?thesis
    using set_to_ok [OF xor_op.stores_bits [OF xor_digits_ok assms]] assign_ok [OF assms] assms(1) w z
    by (simp add: xor_assign_def xor_on_help_def)
qed

section \<open>Shifts\<close>

lemma shl_assign_ok:
  assumes "normal sg u"
  shows "normal sg (shl_assign sg u v) \<and>
    big_val (shl_assign sg u v) = wrap sg (nbits u) (big_val u * 2 ^ nat (shift_count v))"
proof (cases "v = 0 \<or> sgn_of u = SC_ZERO")
  case True
  then have "shl_assign sg u v = u" "big_val u * 2 ^ nat (shift_count v) = big_val u"
    using normal_facts(5) [OF assms] by (auto simp: shl_assign_def)
  then show ?thesis using assms wrap_self [OF assms] by metis
next
  case False
  define n where "n = nat (shift_count v)"
  let ?R = "int (radix ^ digits_for (nbits u))"
  define c where "c = convert_SM_to_2C (sgn_of u) (digit u)"
  note c = complement_of [OF assms, folded c_def]
  define d where "d = vec_shift_left c (int n)"
  have d: "digits_ok d" "length d = digits_for (nbits u)" "dval d = dval c * 2 ^ n mod radix ^ digits_for (nbits u)"
    using vec_shift_left_ok [OF c(1), of n] c(2) by (simp_all add: d_def)
  have "int (dval d) = int (dval c) * 2 ^ n mod ?R" unfolding d(3) zmod_int by simp
  then have "int (dval d) = big_val u * 2 ^ n mod int (radix ^ length d)" unfolding c(3) d(2) mod_mult_left_eq .
  moreover have "vec_shift_left c (shift_count v) = d" unfolding d_def n_def by (rule vec_shift_nat)
  ultimately show ?thesis
    using set_to_ok [OF stores_convert [OF d(1) _ d(2)]] normal_place [OF assms] False
    by (simp add: shl_assign_def c_def [symmetric] n_def)
qed

lemma shr_assign_ok:
  assumes "normal sg u"
  shows "normal sg (shr_assign sg u v) \<and> big_val (shr_assign sg u v) = big_val u div 2 ^ nat (shift_count v)"
proof (cases "v = 0 \<or> sgn_of u = SC_ZERO")
  case True
  then show ?thesis using assms normal_facts(5) [OF assms] by (auto simp: shr_assign_def)
next
  case False
  define n where "n = nat (shift_count v)"
  have nz: "big_val u \<noteq> 0" using False normal_facts(5) [OF assms] by simp
  note d = shift_right_digits [OF assms nz, where n = n]
  have "vec_shift_right (convert_SM_to_2C (sgn_of u) (digit u)) (shift_count v) fill =
      vec_shift_right (convert_SM_to_2C (sgn_of u) (digit u)) (int n) fill" for fill
    unfolding n_def by (rule vec_shift_nat)
  moreover have "fits sg (nbits u) (big_val u div 2 ^ n)" using assms by (intro fits_div) (simp add: normal_def)
  then have "wrap sg (nbits u) (big_val u div 2 ^ n) = big_val u div 2 ^ n" using wrap_eq normal_place [OF assms] by simp
  ultimately show ?thesis
    using set_to_ok [OF stores_convert [OF d(1) _ d(2,3)]] normal_place [OF assms] False
    by (simp add: shr_assign_def n_def)
qed

section \<open>Operands of built-in types\<close>

lemma get_sign_ok:
  assumes "get_sign v = (s, w)"
  shows "s = sgn (sint v)" "int (unat w) = \<bar>sint v\<bar>" "s \<in> {- 1, 0, 1}"
proof -
  have r: "- (2 ^ 63) \<le> sint v" "sint v < 2 ^ 63" using sint_ge [of v] sint_lt [of v] by simp_all
  have u: "uint v = (if sint v < 0 then sint v + 2 ^ 64 else sint v)"
  proof -
    have "uint v = sint v mod 2 ^ 64" using uint_sint [of v] by (simp add: take_bit_eq_mod)
    also have "\<dots> = (if sint v < 0 then sint v + 2 ^ 64 else sint v)"
      using mod_pos_pos_trivial [of "sint v + 2 ^ 64" "2 ^ 64"] mod_pos_pos_trivial [of "sint v" "2 ^ 64"] r by simp
    finally show ?thesis .
  qed
  have z: "v = 0 \<longleftrightarrow> sint v = 0" by (metis signed_0 signed_word_eqI)
  have m: "uint (- v) = (if v = 0 then 0 else 2 ^ 64 - uint v)"
  proof -
    have "uint (- v) = - uint v mod 2 ^ 64" by (simp add: uint_word_ariths)
    moreover have "uint v mod 2 ^ 64 = uint v" using uint_lt2p [of v] by (intro mod_pos_pos_trivial) simp_all
    ultimately show ?thesis by (simp add: zmod_zminus1_eq_if uint_0_iff)
  qed
  show "s = sgn (sint v)" "int (unat w) = \<bar>sint v\<bar>" "s \<in> {- 1, 0, 1}"
    using assms u z m by (auto simp: get_sign_def SC_POS_def SC_NEG_def SC_ZERO_def split: if_splits)
qed

lemma from_uint_ok: "digits_ok (from_uint n v) \<and> length (from_uint n v) = n \<and> dval (from_uint n v) = unat v mod radix ^ n"
proof (induction n v rule: from_uint.induct)
  case (2 n v)
  show ?case
  proof (cases "v = 0")
    case False
    have m: "ucast DIGIT_MASK = (mask 30 :: u64)" by (simp add: DIGIT_MASK_eq mask_eq_exp_minus_1)
    have x: "unat (ucast (v AND ucast DIGIT_MASK) :: sc_digit) = unat v mod radix"
    proof -
      have "unat (v AND mask 30) = unat v mod radix" 
        unfolding take_bit_eq_mask [symmetric] unsigned_take_bit_eq by (simp add: take_bit_eq_mod radix_def)
      moreover have "unat v mod radix < 2 ^ 32" by (rule less_trans [OF mod_less_divisor]) (simp_all add: radix_def)
      ultimately show ?thesis unfolding m by (simp add: unsigned_ucast_eq take_bit_nat_eq_self)
    qed
    have d: "unat (drop_bit BITS_PER_DIGIT v) = unat v div radix" unfolding unat_drop_bit_eq by (simp add: drop_bit_eq_div radix_def BITS_PER_DIGIT_def)
    have "unat v mod radix ^ Suc n = unat v mod radix + radix * (unat v div radix mod radix ^ n)"
      by (simp only: power_Suc mod_mult2_eq add.commute)
    then show ?thesis using 2 False x d by (simp add: radix_def)
  next
    case True
    have "0 < radix" by (simp add: radix_def)
    then show ?thesis using True by simp
  qed
qed simp

text \<open>A 64-bit operand is a normal \<open>sc_signed\<close> of 64 bits.\<close>

lemma convert_int64_ok: "normal True (convert_int64 v)" "big_val (convert_int64 v) = sint v" "nbits (convert_int64 v) = 64"
proof -
  obtain s w where g: "get_sign v = (s, w)" by fastforce
  note g' = get_sign_ok [OF g]
  have d: "digits_ok (from_uint 3 w)" "length (from_uint 3 w) = 3" "dval (from_uint 3 w) = unat w mod radix ^ 3"
    using from_uint_ok by blast+
  have "unat w < 2 ^ 64" using unsigned_less [of w, where ?'a = nat] by simp
  then have "unat w mod radix ^ 3 = unat w" by (intro mod_less) (simp add: radix_def)
  then have v: "int (dval (from_uint 3 w)) = \<bar>sint v\<bar>" using d(3) g'(2) by simp
  have e: "convert_int64 v = \<lparr>sgn_of = s, nbits = 64, digit = from_uint 3 w\<rparr>"
    by (simp add: convert_int64_def g BITS_PER_UINT64_def DIGITS_PER_UINT64_def)
  show val: "big_val (convert_int64 v) = sint v" unfolding e big_val_def using v g'(1) by (simp add: sgn_mult_abs)
  have n: "digits_for 64 = 3" by (simp add: digits_for_eq)
  have "s = 0 \<longleftrightarrow> dval (from_uint 3 w) = 0" using v g'(1) by (auto simp: sgn_0_0)
  then have "sm_ok s 64 (from_uint 3 w)" using d(1,2) g'(3) n unfolding sm_ok_def by simp
  moreover have "fits True 64 (sint v)" using sint_ge [of v] sint_lt [of v] by (simp add: fits_def)
  ultimately show "normal True (convert_int64 v)" using val unfolding normal_def e by simp
  show "nbits (convert_int64 v) = 64" unfolding e by simp
qed

lemma plus_int64_ok:
  assumes "normal su u"
  shows "normal True (plus_int64 su u v)" "big_val (plus_int64 su u v) = big_val u + sint v"
proof -
  note c = convert_int64_ok [of v] and u = normal_facts [OF assms]
  have "normal True (plus_int64 su u v) \<and> big_val (plus_int64 su u v) = big_val u + sint v"
  proof (cases "v = 0")
    case True
    then show ?thesis using to_class_ok [OF assms, of True] by (simp add: plus_int64_def)
  next
    case False
    have "digit (convert_int64 v) = from_uint 3 (snd (get_sign v))" "nbits (convert_int64 v) = 64"
      by (simp_all add: convert_int64_def case_prod_beta BITS_PER_UINT64_def DIGITS_PER_UINT64_def)
    then have n: "new_big True (sgn_of (convert_int64 v)) (nbits (convert_int64 v)) (digit (convert_int64 v)) = convert_int64 v"
      using from_uint_ok [of 3 "snd (get_sign v)"] by (simp add: new_big_def num_bits_def digits_for_eq vec_copy_def Let_def)
    have "sgn_of (convert_int64 v) \<noteq> SC_ZERO"
      using normal_facts(5) [OF c(1)] c(2) False by (metis signed_0 signed_word_eqI)
    then have "plus_int64 su u v = plus_big su u True (convert_int64 v)"
      using n False by (simp add: plus_int64_def plus_big_def to_class_def Let_def)
    then show ?thesis using plus_big_ok [OF assms c(1)] c(2) by simp
  qed
  then show "normal True (plus_int64 su u v)" "big_val (plus_int64 su u v) = big_val u + sint v" by blast+
qed

lemma incr_big_ok:
  assumes "normal True u"
  shows "normal True (incr_big u) \<and> big_val (incr_big u) = wrap True (nbits u) (big_val u + 1)"
  using assign_ok [OF assms normal_held [OF plus_int64_ok(1) [OF assms, of 1]]] plus_int64_ok(2) [OF assms, of 1]
  by (simp add: incr_big_def)

lemma assign_int64_ok:
  assumes "normal sg u"
  shows "normal sg (assign_int64 sg u v) \<and> big_val (assign_int64 sg u v) = wrap sg (nbits u) (sint v)"
proof -
  obtain s w where g: "get_sign v = (s, w)" by fastforce
  note g' = get_sign_ok [OF g] and p = normal_place [OF assms]
  define d where "d = from_uint (ndigits u) w"
  have d: "digits_ok d" "length d = ndigits u" "dval d = unat w mod radix ^ ndigits u" using from_uint_ok unfolding d_def by blast+
  have v: "s * int (unat w) = sint v" unfolding g'(1,2) by (simp add: sgn_mult_abs)
  have lt: "unat w \<le> 2 ^ 63"
  proof -
    have "\<bar>sint v\<bar> \<le> 2 ^ 63" using sint_ge [of v] sint_lt [of v] by simp
    then have "int (unat w) \<le> int (2 ^ 63)" unfolding g'(2) by simp
    then show ?thesis by (simp only: of_nat_le_iff)
  qed
  have conv: "stores sg (nbits u) (sint v) (convert_SM_to_2C_to_SM sg s (nbits u) d)"
  proof (rule stores_again [OF d(1)])
    show "sval s d mod int (radix ^ length d) = sint v mod int (radix ^ length d)"
      unfolding v [symmetric] d(2) by (rule int_mod_R [OF d(3)])
    show "dval d = 0" if "s = 0"
    proof -
      have "int (unat w) = 0" unfolding g'(2) using that g'(1) by (simp add: sgn_0_0)
      then show ?thesis using d(3) by (simp del: of_nat_unat)
    qed
  qed (use p d(2) g'(3) in simp_all)
  show ?thesis
  proof (cases "s = SC_ZERO")
    case True
    then have "sint v = 0" using v by (simp add: SC_ZERO_def)
    then show ?thesis using True set_to_zero [OF assms] g by (simp add: assign_int64_def)
  next
    case nz: False
    show ?thesis
    proof (cases "sg \<and> BITS_PER_UINT64 < nbits u")
      case True
      have "(2 :: nat) ^ 63 < 2 ^ nbits u" using True by (intro power_strict_increasing) (simp_all add: BITS_PER_UINT64_def)
      also have "\<dots> \<le> radix ^ ndigits u" using pow_le_radix p by simp
      finally have dv: "dval d = unat w" using lt d(3) by simp
      have "63 < nbits u - 1" using True unfolding BITS_PER_UINT64_def by linarith
      then have "(2 :: nat) ^ 63 < 2 ^ (nbits u - 1)" by (intro power_strict_increasing) simp_all
      then have f: "fits True (nbits u) (sval s d)" using lt dv g'(3) by (intro small_fits) simp_all
      have "int (unat w) \<noteq> 0" unfolding g'(2) using nz g'(1) by (simp add: SC_ZERO_def sgn_0_0)
      then have "unat w \<noteq> 0" by (simp del: of_nat_unat)
      then have "stores sg (nbits u) (sint v) (s, d)"
        using wrap_eq [OF _ f] True p d g'(3) nz dv v by (simp add: stores_def sm_ok_def SC_ZERO_def)
      then show ?thesis using set_to_ok True nz g by (simp add: assign_int64_def d_def Let_def)
    next
      case False
      then have "assign_int64 sg u v = set_to u (convert_SM_to_2C_to_SM sg s (nbits u) d)"
        using nz g by (auto simp: assign_int64_def d_def Let_def)
      then show ?thesis using set_to_ok [OF conv] by simp
    qed
  qed
qed

end
