(* ===== verification/Big_Properties.thy ===== *)
theory Big_Properties
  imports Sc_Big_Assign_Facts
begin

text \<open>
  The properties of the integers of any width: the operators compute the operations on integers, their
  results are numbers of their class, the operators that change a number cut the result to its width, and
  the vectors of digits below them compute with natural numbers. \<open>big_val\<close> is the integer a number stands
  for, \<open>normal sg\<close> the invariant of a number of the class \<open>sg\<close> (true for \<open>sc_signed\<close>): its sign, its digits and its
  width fit together and the value lies in the range of the class with that width.
\<close>

section \<open>Sample numbers\<close>

text \<open>A number of 40 bits, -5, and an unsigned one of 3 bits (the width counts a sign bit), 6.\<close>

definition minus_five :: sc_big where
  "minus_five = \<lparr>sgn_of = - 1, nbits = 40, digit = [5, 0]\<rparr>"

definition six :: sc_big where
  "six = \<lparr>sgn_of = 1, nbits = 4, digit = [6]\<rparr>"

definition least_byte :: sc_big where
  "least_byte = \<lparr>sgn_of = - 1, nbits = 8, digit = [128]\<rparr>"

definition minus_one :: sc_big where
  "minus_one = \<lparr>sgn_of = - 1, nbits = 8, digit = [1]\<rparr>"

lemma samples_normal: "normal True minus_five" "normal False six" "normal True least_byte" "normal True minus_one"
  by (simp_all add: minus_five_def six_def least_byte_def minus_one_def normal_def sm_ok_def fits_def big_val_def digits_for_eq radix_def)

lemma samples_nbits: "nbits minus_five = 40" "nbits six = 4" "nbits least_byte = 8" "nbits minus_one = 8"
  by (simp_all add: minus_five_def six_def least_byte_def minus_one_def)

lemma samples_value: "big_val minus_five = - 5" "big_val six = 6" "big_val least_byte = - 128" "big_val minus_one = - 1"
  by (simp_all add: minus_five_def six_def least_byte_def minus_one_def big_val_def)

section \<open>Operators\<close>

text \<open>
  C22: Sums, differences and products of any two numbers, signed or unsigned, are those of the integers, and
  the comparisons, of two signed numbers and of numbers one of which is unsigned, are those of the integers:
  no operator loses a bit.
\<close>

theorem big_arithmetic_exact:
  assumes "normal su u" "normal sv v"
  shows "big_val (plus_big su u sv v) = big_val u + big_val v \<and>
    big_val (minus_big su u sv v) = big_val u - big_val v \<and>
    big_val (times_big su u sv v) = big_val u * big_val v \<and>
    big_val (uminus_big su u) = - big_val u \<and>
    (eq_big u v \<longleftrightarrow> big_val u = big_val v) \<and> (less_big u v \<longleftrightarrow> big_val u < big_val v) \<and>
    (\<not> (su \<and> sv) \<longrightarrow> (eq_unsigned su u sv v \<longleftrightarrow> big_val u = big_val v) \<and> (less_unsigned su u sv v \<longleftrightarrow> big_val u < big_val v))"
  using plus_big_ok(2) [OF assms] minus_big_ok(1) [OF assms] times_big_ok(2) [OF assms] uminus_ok(1) [OF assms(1)]
    compare_ok [OF normal_held [OF assms(1)] normal_held [OF assms(2)]] compare_unsigned_ok [OF assms] by blast

theorem big_arithmetic_exact_witness:
  "big_val (plus_big True minus_five False six) = 1 \<and> big_val (minus_big True minus_five False six) = - 11 \<and>
    big_val (times_big True minus_five False six) = - 30 \<and> less_big minus_five six \<and> less_unsigned True minus_five False six"
  using big_arithmetic_exact [OF samples_normal(1,2)] by (simp add: samples_value)

text \<open>
  C26: A division or remainder by zero is reported, in the operators and in the compound assignments, and any other
  gives the quotient rounded towards zero and the remainder with the sign of the dividend.
\<close>

theorem big_division_truncates:
  assumes "normal su u" "normal sv v"
  shows "(big_val v = 0 \<longrightarrow> div_big su u sv v = Inl Sc_report_error \<and> mod_big su u sv v = Inl Sc_report_error \<and>
      div_assign su u v = Inl Sc_report_error \<and> mod_assign su u v = Inl Sc_report_error) \<and>
    (big_val v \<noteq> 0 \<longrightarrow> (\<exists>q r. div_big su u sv v = Inr q \<and> mod_big su u sv v = Inr r \<and>
      big_val q = big_val u sdiv big_val v \<and> big_val r = big_val u smod big_val v))"
proof (intro conjI impI)
  assume z: "big_val v = 0"
  then show "div_big su u sv v = Inl Sc_report_error" "mod_big su u sv v = Inl Sc_report_error"
    "div_assign su u v = Inl Sc_report_error" "mod_assign su u v = Inl Sc_report_error"
    using div_big_zero [OF assms] mod_big_zero [OF assms(2)] assign_by_zero [OF assms(1) normal_held [OF assms(2)]] by blast+
next
  assume nz: "big_val v \<noteq> 0"
  obtain q where "div_big su u sv v = Inr q" "big_val q = big_val u sdiv big_val v" by (rule div_big_ok [OF assms nz])
  moreover obtain r where "mod_big su u sv v = Inr r" "big_val r = big_val u smod big_val v" by (rule mod_big_ok [OF assms nz])
  ultimately show "\<exists>q r. div_big su u sv v = Inr q \<and> mod_big su u sv v = Inr r \<and>
      big_val q = big_val u sdiv big_val v \<and> big_val r = big_val u smod big_val v" by blast
qed

theorem big_division_truncates_witness:
  "\<exists>q r. div_big True minus_five False six = Inr q \<and> mod_big True minus_five False six = Inr r \<and>
    big_val q = 0 \<and> big_val r = - 5"
  using big_division_truncates [OF samples_normal(1,2)] by (simp add: samples_value signed_divide_int_def signed_modulo_int_def)

text \<open>
  C25: The bitwise operators, which complement a negative operand digit by digit as they go, are the
  operations on the infinite two's complements of the integers.
\<close>

theorem big_bitwise_operators:
  assumes "normal su u" "normal sv v"
  shows "big_val (and_big su u sv v) = (big_val u AND big_val v) \<and>
    big_val (or_big su u sv v) = (big_val u OR big_val v) \<and>
    big_val (xor_big su u sv v) = (big_val u XOR big_val v) \<and> big_val (not_big su u) = NOT (big_val u)"
  using and_big_ok(2) [OF assms] or_big_ok(2) [OF assms] xor_big_ok(2) [OF assms] not_big_ok(2) [OF assms(1)] by blast

theorem big_bitwise_operators_witness:
  "big_val (and_big True minus_five False six) = 2 \<and> big_val (or_big True minus_five False six) = - 1 \<and>
    big_val (xor_big True minus_five False six) = - 3 \<and> big_val (not_big True minus_five) = 4"
  using big_bitwise_operators [OF samples_normal(1,2)] by (simp add: samples_value)



text \<open>
  Every operator returns a number of the class it declares, \<open>sc_signed\<close> where an operand is signed; a
  difference is always signed. The quotient leaves the range in one case, the least number by -1.
\<close>

theorem big_results_well_typed:
  assumes "normal su u" "normal sv v"
  shows "normal (su \<or> sv) (plus_big su u sv v) \<and> normal (su \<or> sv) (times_big su u sv v) \<and>
    (big_val u \<noteq> 0 \<longrightarrow> normal True (minus_big su u sv v)) \<and>
    normal (su \<or> sv) (and_big su u sv v) \<and> normal (su \<or> sv) (or_big su u sv v) \<and> normal (su \<or> sv) (xor_big su u sv v) \<and>
    normal su (shr_big su u n) \<and> normal True (plus_int64 su u k) \<and>
    (0 \<le> shift_count n \<and> int (nbits u) + shift_count n < 2 ^ 31 \<longrightarrow> (\<exists>r. shl_big su u n = Inr r \<and> normal su r)) \<and>
    (\<forall>r. mod_big su u sv v = Inr r \<longrightarrow> normal (su \<or> sv) r) \<and>
    (\<forall>q. div_big su u sv v = Inr q \<longrightarrow>
      \<not> (nbits v \<le> nbits u \<and> big_val u = - (2 ^ (nbits u - 1)) \<and> big_val v = - 1) \<longrightarrow> normal (su \<or> sv) q)"
proof -
  have q: "normal (su \<or> sv) q"
    if "div_big su u sv v = Inr q" "\<not> (nbits v \<le> nbits u \<and> big_val u = - (2 ^ (nbits u - 1)) \<and> big_val v = - 1)" for q
  proof (cases "big_val v = 0")
    case False
    obtain w where "div_big su u sv v = Inr w"
      "\<not> (nbits v \<le> nbits u \<and> big_val u = - (2 ^ (nbits u - 1)) \<and> big_val v = - 1) \<Longrightarrow> normal (su \<or> sv) w"
      by (rule div_big_ok [OF assms False]) blast
    then show ?thesis using that by simp
  qed (use that div_big_zero [OF assms] in simp)
  have r: "normal (su \<or> sv) r" if "mod_big su u sv v = Inr r" for r
  proof (cases "big_val v = 0")
    case False
    obtain w where "mod_big su u sv v = Inr w" "normal (su \<or> sv) w" by (rule mod_big_ok [OF assms False]) blast
    then show ?thesis using that by simp
  qed (use that mod_big_zero [OF assms(2)] in simp)
  show ?thesis
    using plus_big_ok(1) [OF assms] times_big_ok(1) [OF assms] minus_big_ok(3) [OF assms] and_big_ok(1) [OF assms]
      or_big_ok(1) [OF assms] xor_big_ok(1) [OF assms] shl_big_ok [OF assms(1), of n] shr_big_ok [OF assms(1)]
      plus_int64_ok(1) [OF assms(1)] q r by blast
qed

theorem big_results_well_typed_witness:
  "normal True (plus_big True minus_five False six) \<and> normal True (minus_big True minus_five False six) \<and>
    normal True (plus_int64 True minus_five 7)"
  using big_results_well_typed [OF samples_normal(1,2), of 0 7] by (simp add: samples_value)

text \<open>
  Where it does not fit: the negative of the least number, taken by itself or as a difference from zero, and its
  quotient by -1 are returned with the width of the operand, so the value is outside the range of the result.
\<close>

theorem negative_of_least_does_not_fit:
  "normal True least_byte \<and>
    big_val (uminus_big True least_byte) = 128 \<and> nbits (uminus_big True least_byte) = 8 \<and> \<not> normal True (uminus_big True least_byte) \<and>
    \<not> normal True (minus_big True (zero_big True 8) True least_byte) \<and>
    (\<exists>q. div_big True least_byte True minus_one = Inr q \<and> big_val q = 128 \<and> nbits q = 8 \<and> \<not> normal True q)"
proof -
  have n: "uminus_big True least_byte = \<lparr>sgn_of = 1, nbits = 8, digit = [128]\<rparr>"
    "minus_big True (zero_big True 8) True least_byte = \<lparr>sgn_of = 1, nbits = 8, digit = [128]\<rparr>"
    "div_big True least_byte True minus_one = Inr \<lparr>sgn_of = 1, nbits = 8, digit = [128]\<rparr>"
    by code_simp+
  have "\<not> normal True \<lparr>sgn_of = 1, nbits = 8, digit = [128]\<rparr>" "big_val \<lparr>sgn_of = 1, nbits = 8, digit = [128]\<rparr> = 128"
    by (simp_all add: normal_def fits_def big_val_def)
  then show ?thesis using samples_normal(3) unfolding n by simp
qed

section \<open>Assignments\<close>

definition holds_in_place :: "bool \<Rightarrow> sc_big \<Rightarrow> sc_big \<Rightarrow> int \<Rightarrow> bool" where
  "holds_in_place sg u w x \<longleftrightarrow> normal sg w \<and> nbits w = nbits u \<and> big_val w = wrap sg (nbits u) x"

text \<open>
  C24: An assignment and each compound assignment leave a number of the same class and width; its value is the
  integer result modulo the width, read as signed or unsigned.
\<close>

theorem compound_assignments_wrap:
  assumes "normal sg u" "normal sv v"
  shows "holds_in_place sg u (assign_big sg u v) (big_val v) \<and>
    holds_in_place sg u (plus_assign sg u v) (big_val u + big_val v) \<and>
    holds_in_place sg u (minus_assign sg u v) (big_val u - big_val v) \<and>
    holds_in_place sg u (times_assign sg u v) (big_val u * big_val v) \<and>
    holds_in_place sg u (and_assign sg u v) (big_val u AND big_val v) \<and>
    holds_in_place sg u (or_assign sg u v) (big_val u OR big_val v) \<and>
    holds_in_place sg u (xor_assign sg u v) (big_val u XOR big_val v) \<and>
    (big_val v \<noteq> 0 \<longrightarrow> (\<exists>q r. div_assign sg u v = Inr q \<and> mod_assign sg u v = Inr r \<and>
      holds_in_place sg u q (big_val u sdiv big_val v) \<and> holds_in_place sg u r (big_val u smod big_val v)))"
proof -
  note h = normal_held [OF assms(2)]
  have w: "nbits (assign_big sg u v) = nbits u" "nbits (plus_assign sg u v) = nbits u" "nbits (minus_assign sg u v) = nbits u"
    "nbits (times_assign sg u v) = nbits u" "nbits (and_assign sg u v) = nbits u" "nbits (or_assign sg u v) = nbits u"
    "nbits (xor_assign sg u v) = nbits u" "div_assign sg u v = Inr q \<Longrightarrow> nbits q = nbits u" "mod_assign sg u v = Inr r \<Longrightarrow> nbits r = nbits u" for q r
    by (auto simp: assign_big_def plus_assign_def minus_assign_def times_assign_def and_assign_def or_assign_def xor_assign_def
        div_assign_def mod_assign_def div_by_zero_def Let_def split: if_splits)
  have "big_val v \<noteq> 0 \<Longrightarrow> \<exists>q r. div_assign sg u v = Inr q \<and> mod_assign sg u v = Inr r \<and>
      holds_in_place sg u q (big_val u sdiv big_val v) \<and> holds_in_place sg u r (big_val u smod big_val v)"
    unfolding holds_in_place_def using div_assign_ok [OF assms(1) h] mod_assign_ok [OF assms(1) h] w(8,9) by metis
  then show ?thesis
    using assign_ok [OF assms(1) h] plus_assign_ok [OF assms(1) h] minus_assign_ok [OF assms(1) h] times_assign_ok [OF assms(1) h]
      and_assign_ok [OF assms(1) h] or_assign_ok [OF assms(1) h] xor_assign_ok [OF assms(1) h] w(1-7) unfolding holds_in_place_def by blast
qed

theorem compound_assignments_wrap_witness:
  "big_val (plus_assign False six minus_five) = 1 \<and> big_val (times_assign False six minus_five) = 2 \<and>
    big_val (assign_big False six minus_five) = 3"
  using compound_assignments_wrap [OF samples_normal(2,1)]
  by (simp add: holds_in_place_def samples_value samples_nbits wrap_def take_bit_eq_mod)

text \<open>
  Operands of 64 bits: an assignment from an \<open>int64\<close> cuts it to the width, the sum with one is exact, and
  \<open>++\<close> adds one and wraps around.
\<close>

theorem int64_operands:
  assumes "normal True u"
  shows "big_val (assign_int64 True u k) = wrap True (nbits u) (sint k) \<and> big_val (plus_int64 True u k) = big_val u + sint k \<and>
    big_val (incr_big u) = wrap True (nbits u) (big_val u + 1)"
  using assign_int64_ok [OF assms] plus_int64_ok(2) [OF assms] incr_big_ok [OF assms] by blast

theorem int64_operands_witness:
  "big_val (assign_int64 True least_byte (- 2)) = - 2 \<and> big_val (plus_int64 True least_byte (- 2)) = - 130 \<and>
    big_val (incr_big least_byte) = - 127"
  using int64_operands [OF samples_normal(3), of "- 2"]
  by (simp add: samples_value samples_nbits wrap_def signed_take_bit_eq_take_bit_shift take_bit_eq_mod)

text \<open>The disjunction with a \<open>uint64\<close> of at least \<open>2 ^ 63\<close> has no room for a sign bit: it comes out negative.\<close>

lemma or_uint64_negative: "sgn_of (or_uint64 \<lparr>sgn_of = SC_POS, nbits = 8, digit = [1]\<rparr> 0x8000000000000000) = SC_NEG"
  by code_simp

section \<open>Representations\<close>

text \<open>
  Going from sign and magnitude to the two's complement and back, the number comes back as it was, sign and
  digits; and any digits in two's complement are read as the number modulo the width.
\<close>

theorem complement_round_trip:
  assumes "normal sg u"
  shows "convert_SM_to_2C_to_SM sg (sgn_of u) (nbits u) (digit u) = (sgn_of u, digit u)"
proof -
  note h = held_facts [OF normal_held [OF assms]]
  obtain s d where e: "convert_SM_to_2C_to_SM sg (sgn_of u) (nbits u) (digit u) = (s, d)" by fastforce
  have z: "sgn_of u = 0 \<Longrightarrow> dval (digit u) = 0" using h(5) by blast
  note c = convert_SM_to_2C_to_SM_ok [OF h(1-4) z e]
  have v: "sval s d = sval (sgn_of u) (digit u)" using c(2) wrap_self [OF assms] by (simp add: big_val_def)
  have s: "s \<in> {- 1, 0, 1}" "s = 0 \<longleftrightarrow> dval d = 0" "digits_ok d" "length d = ndigits u" using c(1) h(3) by (auto simp: sm_ok_def)
  note a = sval_abs [OF s(1,2)] sval_abs [OF h(4,5)]
  have "s = sgn_of u" using a(1) a(2) unfolding v by (elim conjE) simp
  moreover have "int (dval d) = int (dval (digit u))" using a(1) a(2) unfolding v by linarith
  then have "dval d = dval (digit u)" by (simp only: of_nat_eq_iff)
  then have "d = digit u" using dval_inject [OF s(3) h(1) s(4)] by simp
  ultimately show ?thesis using e by simp
qed

theorem complement_round_trip_witness: "convert_SM_to_2C_to_SM True (- 1) 40 [5, 0] = (- 1, [5, 0])"
  using complement_round_trip [OF samples_normal(1)] by (simp add: minus_five_def)

section \<open>Digits\<close>

lemma sample_digits: "digits_ok [7, 1000]" "digits_ok [300]" "dval [7, 1000] = 7 + radix * 1000" "dval [300] = 300"
  "(256 :: nat) \<le> 300" "300 \<le> 7 + radix * 1000" "length [300 :: sc_digit] \<le> length [7, 1000 :: sc_digit]"
  by (simp_all add: radix_def)

text \<open>
  C23: The division of long vectors, which guesses the quotient byte by byte and corrects the guess, gives the quotient
  and the remainder of the natural numbers the vectors stand for, in good digits. When the highest digit of the divisor
  is not zero, the quotient's bytes fit the array the code makes for them.
\<close>

theorem long_division_exact:
  assumes "digits_ok u" "digits_ok v" "256 \<le> dval v" "dval v \<le> dval u"
  defines "n \<equiv> length u"
  shows "dval (vec_div_large u v (replicate n 0)) = dval u div dval v \<and> dval (vec_rem_large u v (replicate n 0)) = dval u mod dval v \<and>
    digits_ok (vec_div_large u v (replicate n 0)) \<and> digits_ok (vec_rem_large u v (replicate n 0)) \<and>
    (radix ^ (length v - 1) \<le> dval v \<longrightarrow>
      int (length (strip_bytes (vec_to_char u))) - int (length (strip_bytes (vec_to_char v))) + 1 \<le>
        (4 * int (length u) + 1 - 4 * int (length v)) + 10)"
proof -
  have ne: "u \<noteq> []" "v \<noteq> []" using assms(3,4) by auto
  have "dval v \<le> radix ^ n" "n \<noteq> 0" using assms(4) dval_less [OF assms(1)] ne by (simp_all add: n_def)
  then show ?thesis
    using vec_div_large_ok [OF assms(1,2) ne assms(3,4)] vec_rem_large_ok [OF assms(1,2) ne assms(3,4)]
      quotient_fits [OF assms(1,2) ne _ assms(4)] by (simp add: n_def)
qed

theorem long_division_exact_witness:
  "dval (vec_div_large [7, 1000] [300] [0, 0]) = (7 + radix * 1000) div 300 \<and>
    dval (vec_rem_large [7, 1000] [300] [0, 0]) = (7 + radix * 1000) mod 300"
  using long_division_exact [OF sample_digits(1,2), unfolded sample_digits(3,4), OF sample_digits(5,6)] by simp

text \<open>
  The other operations on vectors refine those of the natural numbers: sums, differences, products with half
  digits, comparison, shifts modulo the length.
\<close>

theorem digit_vectors_refine_naturals:
  assumes "digits_ok u" "digits_ok v" "length v \<le> length u"
  shows "dval (vec_add u v) = dval u + dval v \<and> (dval v \<le> dval u \<longrightarrow> dval (vec_sub u v) = dval u - dval v) \<and>
    dval (vec_mul u v (replicate (length u + length v) 0)) = dval u * dval v \<and>
    sgn (vec_skip_and_cmp u v) = sgn (int (dval u) - int (dval v)) \<and>
    dval (vec_shift_left u (int k)) = dval u * 2 ^ k mod radix ^ length u \<and>
    dval (vec_shift_right u (int k) 0) = dval u div 2 ^ k"
proof -
  have "vec_shift_right u (int k) 0 = vec_shift_right u (int k) (fill_digit False)" by (simp add: fill_digit_def)
  then have "int (dval (vec_shift_right u (int k) 0)) = int (dval u) div 2 ^ k"
    using vec_shift_right_ok(3) [OF assms(1), of k False] by simp
  then have "int (dval (vec_shift_right u (int k) 0)) = int (dval u div 2 ^ k)" by (simp add: zdiv_int)
  then have "dval (vec_shift_right u (int k) 0) = dval u div 2 ^ k" by (simp only: of_nat_eq_iff)
  then show ?thesis
    using vec_add_ok(1) [OF assms] vec_sub_ok(1) [OF assms] vec_mul_ok [OF assms(1,2), of "replicate (length u + length v) 0"]
      vec_skip_and_cmp_ok [OF assms(1,2)] vec_shift_left_ok(3) [OF assms(1)] by simp
qed

theorem digit_vectors_refine_naturals_witness:
  "dval (vec_add [7, 1000] [300]) = 7 + radix * 1000 + 300 \<and>
    dval (vec_mul [7, 1000] [300] [0, 0, 0]) = (7 + radix * 1000) * 300"
  using digit_vectors_refine_naturals [OF sample_digits(1,2,7), unfolded sample_digits(3,4)] by simp

end
