(* ===== verification/Sc_Logic.thy ===== *)
theory Sc_Logic
  imports Prelude
begin

text \<open>
  \<open>sysc/datatypes/bit/sc_logic.h\<close>, \<open>sc_logic.cpp\<close> and \<open>sc_bit.h\<close>: the four values of a logic signal,
  the tables of the bitwise operators, and the conversions from and to characters, numbers and
  booleans. A value is two bits, \<open>data\<close> and \<open>control\<close>; the operators on vectors compute with these bits.
\<close>

unbundle bit_operations_syntax

section \<open>Values\<close>

datatype sc_logic_value_t = Log_0 | Log_1 | Log_Z | Log_X

text \<open>The numbers of the enumeration, and the casts from and to it.\<close>

primrec logic_number :: "sc_logic_value_t \<Rightarrow> nat" where
  "logic_number Log_0 = 0"
| "logic_number Log_1 = 1"
| "logic_number Log_Z = 2"
| "logic_number Log_X = 3"

definition logic_values :: "sc_logic_value_t list" where
  "logic_values = [Log_0, Log_1, Log_Z, Log_X]"

definition logic_word :: "sc_logic_value_t \<Rightarrow> u32" where
  "logic_word v = of_nat (logic_number v)"

section \<open>Tables\<close>

definition char_to_logic :: "sc_logic_value_t list" where
  "char_to_logic =
    [Log_0, Log_1, Log_Z, Log_X] @ replicate 44 Log_X @
    [Log_0, Log_1, Log_X, Log_X] @ replicate 38 Log_X @
    [Log_Z] @ replicate 31 Log_X @
    [Log_Z] @ replicate 5 Log_X"

definition logic_to_char :: string where
  "logic_to_char = ''01ZX''"

definition and_table :: "sc_logic_value_t list list" where
  "and_table =
    [[Log_0, Log_0, Log_0, Log_0],
     [Log_0, Log_1, Log_X, Log_X],
     [Log_0, Log_X, Log_X, Log_X],
     [Log_0, Log_X, Log_X, Log_X]]"

definition or_table :: "sc_logic_value_t list list" where
  "or_table =
    [[Log_0, Log_1, Log_X, Log_X],
     [Log_1, Log_1, Log_1, Log_1],
     [Log_X, Log_1, Log_X, Log_X],
     [Log_X, Log_1, Log_X, Log_X]]"

definition xor_table :: "sc_logic_value_t list list" where
  "xor_table =
    [[Log_0, Log_1, Log_X, Log_X],
     [Log_1, Log_0, Log_X, Log_X],
     [Log_X, Log_X, Log_X, Log_X],
     [Log_X, Log_X, Log_X, Log_X]]"

definition not_table :: "sc_logic_value_t list" where
  "not_table = [Log_1, Log_0, Log_X, Log_X]"

section \<open>Operators\<close>

definition logic_and :: "sc_logic_value_t \<Rightarrow> sc_logic_value_t \<Rightarrow> sc_logic_value_t" where
  "logic_and a b = and_table ! logic_number a ! logic_number b"

definition logic_or :: "sc_logic_value_t \<Rightarrow> sc_logic_value_t \<Rightarrow> sc_logic_value_t" where
  "logic_or a b = or_table ! logic_number a ! logic_number b"

definition logic_xor :: "sc_logic_value_t \<Rightarrow> sc_logic_value_t \<Rightarrow> sc_logic_value_t" where
  "logic_xor a b = xor_table ! logic_number a ! logic_number b"

definition logic_not :: "sc_logic_value_t \<Rightarrow> sc_logic_value_t" where
  "logic_not a = not_table ! logic_number a"

section \<open>Conversions\<close>

text \<open>
  A character is its code; \<open>char\<close> is signed on the platform, so the codes from 128 on are negative
  as \<open>int\<close> and above 127 as \<open>unsigned\<close>. An invalid value is reported as an error.
\<close>

definition logic_of_bool :: "bool \<Rightarrow> sc_logic_value_t" where
  "logic_of_bool b = (if b then Log_1 else Log_0)"

definition logic_of_char :: "char \<Rightarrow> sc_logic_value_t result" where
  "logic_of_char c = (let index = (of_char c :: nat)
     in if index > 127 then Inl Sc_report_error else vec_at char_to_logic index)"

definition logic_of_int :: "int \<Rightarrow> sc_logic_value_t result" where
  "logic_of_int i = (if i < 0 \<or> i > 3 then Inl Sc_report_error else vec_at logic_values (nat i))"

definition logic_is_01 :: "sc_logic_value_t \<Rightarrow> bool" where
  "logic_is_01 v \<longleftrightarrow> logic_number v = 0 \<or> logic_number v = 1"

text \<open>The warning for the values \<open>Z\<close> and \<open>X\<close> is a message; the conversion returns.\<close>

definition logic_to_bool :: "sc_logic_value_t \<Rightarrow> bool" where
  "logic_to_bool v \<longleftrightarrow> logic_number v \<noteq> 0"

definition logic_char :: "sc_logic_value_t \<Rightarrow> char" where
  "logic_char v = logic_to_char ! logic_number v"

section \<open>Bits\<close>

text \<open>\<open>sc_bit\<close>: a boolean, with the conversions that check their argument.\<close>

definition bit_of_char :: "char \<Rightarrow> bool result" where
  "bit_of_char c = (if c \<noteq> CHR ''0'' \<and> c \<noteq> CHR ''1'' then Inl Sc_report_error else Inr (c \<noteq> CHR ''0''))"

definition bit_of_int :: "int \<Rightarrow> bool result" where
  "bit_of_int i = (if i \<noteq> 0 \<and> i \<noteq> 1 then Inl Sc_report_error else Inr (i \<noteq> 0))"

definition bit_and :: "bool \<Rightarrow> bool \<Rightarrow> bool" where
  "bit_and a b \<longleftrightarrow> a \<and> b"

definition bit_or :: "bool \<Rightarrow> bool \<Rightarrow> bool" where
  "bit_or a b \<longleftrightarrow> a \<or> b"

definition bit_xor :: "bool \<Rightarrow> bool \<Rightarrow> bool" where
  "bit_xor a b \<longleftrightarrow> a \<noteq> b"

definition bit_not :: "bool \<Rightarrow> bool" where
  "bit_not a \<longleftrightarrow> \<not> a"

definition bit_char :: "bool \<Rightarrow> char" where
  "bit_char b = (if b then CHR ''1'' else CHR ''0'')"

section \<open>Facts\<close>

text \<open>The two bits of a value.\<close>

definition data_bit :: "sc_logic_value_t \<Rightarrow> bool" where
  "data_bit v \<longleftrightarrow> v = Log_1 \<or> v = Log_X"

definition ctrl_bit :: "sc_logic_value_t \<Rightarrow> bool" where
  "ctrl_bit v \<longleftrightarrow> v = Log_Z \<or> v = Log_X"

definition of_bits :: "bool \<Rightarrow> bool \<Rightarrow> sc_logic_value_t" where
  "of_bits d c = (if c then if d then Log_X else Log_Z else if d then Log_1 else Log_0)"

lemma bits_of_bits [simp]: "data_bit (of_bits d c) = d" "ctrl_bit (of_bits d c) = c"
  by (simp_all add: of_bits_def data_bit_def ctrl_bit_def)

lemma of_bits_bits [simp]: "of_bits (data_bit v) (ctrl_bit v) = v"
  by (cases v) (simp_all add: of_bits_def data_bit_def ctrl_bit_def)

lemma of_bits_eq_iff: "of_bits d c = v \<longleftrightarrow> d = data_bit v \<and> c = ctrl_bit v"
  by (cases v) (simp_all add: of_bits_def data_bit_def ctrl_bit_def)

lemma logic_eq_iff: "u = v \<longleftrightarrow> data_bit u = data_bit v \<and> ctrl_bit u = ctrl_bit v"
  by (cases u; cases v; simp add: data_bit_def ctrl_bit_def)

lemma logic_number_less: "logic_number v < 4"
  by (cases v) simp_all

lemma logic_values_number [simp]: "logic_values ! logic_number v = v"
  by (cases v) (simp_all add: logic_values_def)

lemma logic_number_values: "n < 4 \<Longrightarrow> logic_number (logic_values ! n) = n"
  by (auto simp: logic_values_def less_Suc_eq numeral_eq_Suc)

text \<open>The tables, on the two bits.\<close>

lemmas logic_tables = logic_and_def logic_or_def logic_xor_def logic_not_def and_table_def or_table_def
  xor_table_def not_table_def

lemma logic_and_bits:
  "ctrl_bit (logic_and a b) \<longleftrightarrow> (data_bit a \<and> ctrl_bit b) \<or> (ctrl_bit a \<and> data_bit b) \<or> (ctrl_bit a \<and> ctrl_bit b)"
  "data_bit (logic_and a b) \<longleftrightarrow> ctrl_bit (logic_and a b) \<or> (data_bit a \<and> data_bit b)"
  by (cases a; cases b; simp add: logic_tables data_bit_def ctrl_bit_def)+

lemma logic_or_bits:
  "ctrl_bit (logic_or a b) \<longleftrightarrow> (ctrl_bit a \<and> ctrl_bit b) \<or> (ctrl_bit a \<and> \<not> data_bit b) \<or> (\<not> data_bit a \<and> ctrl_bit b)"
  "data_bit (logic_or a b) \<longleftrightarrow> ctrl_bit (logic_or a b) \<or> data_bit a \<or> data_bit b"
  by (cases a; cases b; simp add: logic_tables data_bit_def ctrl_bit_def)+

lemma logic_xor_bits:
  "ctrl_bit (logic_xor a b) \<longleftrightarrow> ctrl_bit a \<or> ctrl_bit b"
  "data_bit (logic_xor a b) \<longleftrightarrow> ctrl_bit (logic_xor a b) \<or> data_bit a \<noteq> data_bit b"
  by (cases a; cases b; simp add: logic_tables data_bit_def ctrl_bit_def)+

lemma logic_not_bits:
  "ctrl_bit (logic_not a) \<longleftrightarrow> ctrl_bit a"
  "data_bit (logic_not a) \<longleftrightarrow> ctrl_bit a \<or> \<not> data_bit a"
  by (cases a; simp add: logic_tables data_bit_def ctrl_bit_def)+

text \<open>\<open>and\<close> and \<open>or\<close> are the minimum and maximum of three levels, \<open>Z\<close> and \<open>X\<close> in the middle.\<close>

definition logic_level :: "sc_logic_value_t \<Rightarrow> nat" where
  "logic_level v = (case v of Log_0 \<Rightarrow> 0 | Log_1 \<Rightarrow> 2 | _ \<Rightarrow> 1)"

lemma logic_level_and: "logic_level (logic_and a b) = min (logic_level a) (logic_level b)"
  by (cases a; cases b; simp add: logic_tables logic_level_def)

lemma logic_level_or: "logic_level (logic_or a b) = max (logic_level a) (logic_level b)"
  by (cases a; cases b; simp add: logic_tables logic_level_def)

lemma logic_and_comm: "logic_and a b = logic_and b a"
  by (cases a; cases b; simp add: logic_tables)

lemma logic_or_comm: "logic_or a b = logic_or b a"
  by (cases a; cases b; simp add: logic_tables)

lemma logic_xor_comm: "logic_xor a b = logic_xor b a"
  by (cases a; cases b; simp add: logic_tables)

lemma logic_de_morgan: "logic_not (logic_and a b) = logic_or (logic_not a) (logic_not b)"
  by (cases a; cases b; simp add: logic_tables)

lemma logic_char_round_trip: "logic_of_char (logic_char v) = Inr v"
  by (cases v) (simp_all add: logic_of_char_def logic_char_def logic_to_char_def char_to_logic_def
      nth_append nth_Cons')

end
