(* ===== verification/Sc_Lv.thy ===== *)
theory Sc_Lv
  imports Sc_Logic
begin

text \<open>
  \<open>sc_bv_base.h\<close>, \<open>sc_bv_base.cpp\<close>, \<open>sc_lv_base.h\<close>, \<open>sc_lv_base.cpp\<close>: bit vectors and logic vectors as
  arrays of 32-bit words. A logic vector has a second array, of the control bits; a bit vector answers
  zero for them. The bits of the last word beyond the length (its tail) are zero between operations.
\<close>

unbundle bit_operations_syntax

section \<open>State\<close>

datatype vkind = BV | LV

record vec =
  v_kind :: vkind
  v_len :: nat
  v_size :: nat
  v_data :: "u32 list"
  v_ctrl :: "u32 list"

section \<open>Bits and words\<close>

definition vec_get_bit :: "nat \<Rightarrow> vec \<Rightarrow> sc_logic_value_t result" where
  "vec_get_bit i v = (let wi = i div 32; bi = i mod 32
     in bind_result (vec_at (v_data v) wi) (\<lambda>d.
       case v_kind v of
         BV \<Rightarrow> Inr (logic_values ! unat (drop_bit bi d AND 1))
       | LV \<Rightarrow> bind_result (vec_at (v_ctrl v) wi) (\<lambda>c.
           Inr (logic_values ! unat ((drop_bit bi d AND 1) OR (push_bit 1 (drop_bit bi c) AND 2))))))"

text \<open>The value is the number of the enumeration, or whatever was cast to it.\<close>

definition vec_set_bit :: "nat \<Rightarrow> u32 \<Rightarrow> vec \<Rightarrow> vec result" where
  "vec_set_bit i value v = (let wi = i div 32; bi = i mod 32; msk = push_bit bi 1
     in bind_result (vec_at (v_data v) wi) (\<lambda>d.
       let v1 = v\<lparr>v_data := (v_data v)[wi := (d OR msk) AND (push_bit bi value OR NOT msk)]\<rparr>
       in case v_kind v of
            BV \<Rightarrow> Inr v1
          | LV \<Rightarrow> bind_result (vec_at (v_ctrl v) wi) (\<lambda>c.
              Inr (v1\<lparr>v_ctrl := (v_ctrl v)[wi := (c OR msk) AND (push_bit bi (drop_bit 1 value) OR NOT msk)]\<rparr>))))"

definition vec_get_word :: "nat \<Rightarrow> vec \<Rightarrow> u32 result" where
  "vec_get_word i v = vec_at (v_data v) i"

definition vec_set_word :: "nat \<Rightarrow> u32 \<Rightarrow> vec \<Rightarrow> vec result" where
  "vec_set_word i w v =
     (if v_kind v = LV \<and> \<not> i < v_size v then Inl Assert_failed
      else bind_result (vec_set (v_data v) i w) (\<lambda>d. Inr (v\<lparr>v_data := d\<rparr>)))"

definition vec_get_cword :: "nat \<Rightarrow> vec \<Rightarrow> u32 result" where
  "vec_get_cword i v = (case v_kind v of BV \<Rightarrow> Inr 0 | LV \<Rightarrow> vec_at (v_ctrl v) i)"

text \<open>A bit vector warns when it is given control bits, and drops them.\<close>

definition vec_set_cword :: "nat \<Rightarrow> u32 \<Rightarrow> vec \<Rightarrow> vec result" where
  "vec_set_cword i w v = (case v_kind v of
       BV \<Rightarrow> Inr v
     | LV \<Rightarrow> if i < v_size v then bind_result (vec_set (v_ctrl v) i w) (\<lambda>c. Inr (v\<lparr>v_ctrl := c\<rparr>))
            else Inl Assert_failed)"

text \<open>
  The logic vector shifts by 32 when its length is a multiple of 32, which the language leaves
  undefined; on the platform the shift count is taken modulo 32.
\<close>

definition shift_right_32 :: "nat \<Rightarrow> u32 \<Rightarrow> u32" where
  "shift_right_32 n w = drop_bit (n mod 32) w"

definition vec_clean_tail :: "vec \<Rightarrow> vec result" where
  "vec_clean_tail v = (let wi = v_size v - 1; bi = v_len v mod 32
     in case v_kind v of
          BV \<Rightarrow> if bi \<noteq> 0
                then bind_result (vec_at (v_data v) wi) (\<lambda>d.
                  Inr (v\<lparr>v_data := (v_data v)[wi := d AND drop_bit (32 - bi) (NOT 0)]\<rparr>))
                else Inr v
        | LV \<Rightarrow> let msk = shift_right_32 (32 - bi) (NOT 0)
                in if msk \<noteq> 0
                   then bind_result (vec_at (v_data v) wi) (\<lambda>d. bind_result (vec_at (v_ctrl v) wi) (\<lambda>c.
                     Inr (v\<lparr>v_data := (v_data v)[wi := d AND msk], v_ctrl := (v_ctrl v)[wi := c AND msk]\<rparr>)))
                   else Inr v)"

section \<open>Construction\<close>

definition data_array :: "u32 list" where
  "data_array = [0, NOT 0, 0, NOT 0]"

definition ctrl_array :: "u32 list" where
  "ctrl_array = [0, 0, NOT 0, NOT 0]"

definition bv_init :: "int \<Rightarrow> bool \<Rightarrow> vec result" where
  "bv_init len0 init_value =
     (if len0 \<le> 0 then Inl Sc_report_error
      else let len = nat len0; sz = (len - 1) div 32 + 1; dw = (if init_value then NOT 0 else 0)
           in vec_clean_tail \<lparr>v_kind = BV, v_len = len, v_size = sz, v_data = replicate sz dw, v_ctrl = []\<rparr>)"

definition lv_init :: "int \<Rightarrow> sc_logic_value_t \<Rightarrow> vec result" where
  "lv_init len0 init_value =
     (if len0 \<le> 0 then Inl Sc_report_error
      else let len = nat len0; sz = (len - 1) div 32 + 1;
               dw = data_array ! logic_number init_value; cw = ctrl_array ! logic_number init_value
           in vec_clean_tail \<lparr>v_kind = LV, v_len = len, v_size = sz,
                v_data = replicate sz dw, v_ctrl = replicate sz cw\<rparr>)"

text \<open>\<open>is_01\<close>: a logic vector looks for a control word that is not zero.\<close>

definition vec_is_01 :: "vec \<Rightarrow> bool result" where
  "vec_is_01 v = (case v_kind v of
       BV \<Rightarrow> Inr True
     | LV \<Rightarrow> bind_result
         (for_loop (\<lambda>i _. bind_result (vec_at (v_ctrl v) i) (\<lambda>c.
            Inr (if c \<noteq> 0 then Return False else Continue ()))) [0..<v_size v] ())
         (\<lambda>fl. case fl of Return b \<Rightarrow> Inr b | Continue _ \<Rightarrow> Inr True))"

section \<open>Vectors as lists of values\<close>

definition vec_ok :: "vec \<Rightarrow> bool" where
  "vec_ok v \<longleftrightarrow> 0 < v_len v \<and> v_size v = (v_len v - 1) div 32 + 1 \<and> length (v_data v) = v_size v \<and>
     length (v_ctrl v) = (if v_kind v = LV then v_size v else 0)"

text \<open>The two planes of a vector, and a bit of one.\<close>

datatype plane = Data | Ctrl

definition vec_word :: "plane \<Rightarrow> vec \<Rightarrow> nat \<Rightarrow> u32" where
  "vec_word pl v i = (case pl of Data \<Rightarrow> v_data v ! i
     | Ctrl \<Rightarrow> (if v_kind v = LV then v_ctrl v ! i else 0))"

definition vec_bit :: "plane \<Rightarrow> vec \<Rightarrow> nat \<Rightarrow> bool" where
  "vec_bit pl v n \<longleftrightarrow> bit (vec_word pl v (n div 32)) (n mod 32)"

definition vec_clean :: "vec \<Rightarrow> bool" where
  "vec_clean v \<longleftrightarrow> (\<forall>pl n. v_len v \<le> n \<and> n < 32 * v_size v \<longrightarrow> \<not> vec_bit pl v n)"

definition vec_value :: "vec \<Rightarrow> nat \<Rightarrow> sc_logic_value_t" where
  "vec_value v n = of_bits (vec_bit Data v n) (vec_bit Ctrl v n)"

definition vec_list :: "vec \<Rightarrow> sc_logic_value_t list" where
  "vec_list v = map (vec_value v) [0..<v_len v]"

text \<open>What a position of a vector of a kind can hold: a bit vector has no control bits.\<close>

definition kind_holds :: "vkind \<Rightarrow> plane \<Rightarrow> bool" where
  "kind_holds k pl \<longleftrightarrow> pl = Data \<or> k = LV"

definition plane_bit :: "plane \<Rightarrow> sc_logic_value_t \<Rightarrow> bool" where
  "plane_bit pl v = (case pl of Data \<Rightarrow> data_bit v | Ctrl \<Rightarrow> ctrl_bit v)"

lemma plane_bit_value [simp]: "plane_bit pl (vec_value v n) = vec_bit pl v n"
  by (cases pl) (simp_all add: plane_bit_def vec_value_def)

lemma plane_eqI: "(\<And>pl. plane_bit pl u = plane_bit pl v) \<Longrightarrow> u = v"
  by (metis logic_eq_iff plane_bit_def plane.simps(3,4))

lemma plane_bit_of_bits [simp]: "plane_bit pl (of_bits d c) = (case pl of Data \<Rightarrow> d | Ctrl \<Rightarrow> c)"
  by (simp add: plane_bit_def split: plane.split)

lemma vec_bit_BV [simp]: "v_kind v = BV \<Longrightarrow> \<not> vec_bit Ctrl v n"
  by (simp add: vec_bit_def vec_word_def)

lemma word_index: "n < v_len v \<Longrightarrow> vec_ok v \<Longrightarrow> n div 32 < v_size v"
  by (auto simp: vec_ok_def div_le_mono less_Suc_eq_le)

lemma word_index_iff: "vec_ok v \<Longrightarrow> n < 32 * v_size v \<longleftrightarrow> n div 32 < v_size v"
  by auto

lemma words_bound: "0 < n \<Longrightarrow> n \<le> 32 * ((n - 1) div 32 + 1)" for n :: nat
  by presburger

lemma len_le_size: "vec_ok v \<Longrightarrow> v_len v \<le> 32 * v_size v"
  using words_bound [of "v_len v"] by (simp add: vec_ok_def)

lemma unat_bit_at [simp]: "unat (drop_bit n w AND 1 :: u32) = of_bool (bit w n)"
  by (simp add: and_one_eq mod2_eq_if bit_iff_odd_drop_bit)

lemma unat_two_bits: "unat ((drop_bit n d AND 1) OR (push_bit 1 (drop_bit n c) AND 2) :: u32) =
    of_bool (bit d n) + 2 * of_bool (bit c n)"
proof -
  have d: "drop_bit n d AND 1 = (if bit d n then 1 else 0 :: u32)"
    by (simp add: and_one_eq mod2_eq_if bit_iff_odd_drop_bit)
  have "push_bit 1 (drop_bit n c) AND 2 = (push_bit 1 (drop_bit n c AND 1) :: u32)"
    by (simp only: push_bit_and) (simp add: push_bit_eq_mult)
  then have c: "push_bit 1 (drop_bit n c) AND 2 = (if bit c n then 2 else 0 :: u32)"
    by (simp add: and_one_eq mod2_eq_if bit_iff_odd_drop_bit)
  show ?thesis unfolding d c by simp
qed

lemma values_at: "logic_values ! (of_bool d + 2 * of_bool c) = of_bits d c"
  by (simp add: logic_values_def of_bits_def)

section \<open>The operations on a vector\<close>

lemma vec_get_bit_ok:
  assumes "vec_ok v" "n < v_len v"
  shows "vec_get_bit n v = Inr (vec_value v n)"
proof (cases "v_kind v")
  case BV
  then show ?thesis using assms word_index [OF assms(2,1)] values_at [of "bit (v_data v ! (n div 32)) (n mod 32)" False]
    by (simp add: vec_get_bit_def vec_ok_def vec_value_def vec_bit_def vec_word_def Let_def)
next
  case LV
  then show ?thesis using assms(1) word_index [OF assms(2,1)]
    by (simp add: vec_get_bit_def vec_ok_def vec_value_def vec_bit_def vec_word_def Let_def values_at
        unat_two_bits [unfolded push_bit_eq_mult, simplified])
qed

text \<open>Two vectors of the same shape.\<close>

definition same_shape :: "vec \<Rightarrow> vec \<Rightarrow> bool" where
  "same_shape v v' \<longleftrightarrow> v_kind v' = v_kind v \<and> v_len v' = v_len v \<and> vec_ok v'"

lemma same_shape_size: "same_shape v v' \<Longrightarrow> vec_ok v \<Longrightarrow> v_size v' = v_size v"
  by (simp add: same_shape_def vec_ok_def)

primrec plane_index :: "plane \<Rightarrow> nat" where
  "plane_index Data = 0"
| "plane_index Ctrl = 1"

lemma bit_replaced: "k < 32 \<Longrightarrow> j < 32 \<Longrightarrow>
    bit ((d OR push_bit k 1) AND (push_bit k x OR NOT (push_bit k 1)) :: u32) j \<longleftrightarrow>
      (if j = k then bit x 0 else bit d j)"
  by (auto simp: bit_and_iff bit_or_iff bit_not_iff bit_push_bit_iff bit_exp_iff not_less)

lemma div_mod_eq_iff: "m div 32 = n div 32 \<Longrightarrow> m mod 32 = n mod 32 \<longleftrightarrow> m = n" for m n :: nat
  by (metis div_mult_mod_eq)

lemma vec_set_bit_ok:
  assumes "vec_ok v" "n < v_len v"
  obtains v' where "vec_set_bit n x v = Inr v'" "same_shape v v'"
    "\<And>pl m. m < 32 * v_size v \<Longrightarrow> vec_bit pl v' m \<longleftrightarrow>
      (if m = n then kind_holds (v_kind v) pl \<and> bit x (plane_index pl) else vec_bit pl v m)"
proof -
  define wi bi where "wi = n div 32" and "bi = n mod 32"
  define put where "put x ws = ws[wi := (ws ! wi OR push_bit bi 1) AND (push_bit bi x OR NOT (push_bit bi 1))]"
    for x :: u32 and ws
  have wi: "wi < v_size v" using word_index [OF assms(2,1)] by (simp add: wi_def)
  have put: "bit (put x ws ! (m div 32)) (m mod 32) \<longleftrightarrow> (if m = n then bit x 0 else bit (ws ! (m div 32)) (m mod 32))"
    if "m < 32 * v_size v" "length ws = v_size v" for m x ws
  proof (cases "m div 32 = wi")
    case True
    then show ?thesis using that wi bit_replaced [of bi "m mod 32" "ws ! wi" x]
      by (simp add: put_def bi_def wi_def div_mod_eq_iff)
  next
    case False
    then show ?thesis by (auto simp: put_def wi_def)
  qed
  define v' where "v' = (if v_kind v = BV then v\<lparr>v_data := put x (v_data v)\<rparr>
    else v\<lparr>v_data := put x (v_data v), v_ctrl := put (drop_bit 1 x) (v_ctrl v)\<rparr>)"
  have len: "length (put x ws) = length ws" for x ws by (simp add: put_def)
  have "vec_set_bit n x v = Inr v'"
    using wi assms(1) by (cases "v_kind v") (simp_all add: vec_set_bit_def Let_def vec_ok_def v'_def put_def wi_def bi_def)
  moreover have "same_shape v v'"
    using assms(1) by (simp add: same_shape_def v'_def vec_ok_def len)
  moreover have "vec_bit pl v' m \<longleftrightarrow>
      (if m = n then kind_holds (v_kind v) pl \<and> bit x (plane_index pl) else vec_bit pl v m)"
    if "m < 32 * v_size v" for pl m
    using assms(1) that
    by (cases pl; cases "v_kind v")
      (auto simp: v'_def vec_bit_def vec_word_def vec_ok_def kind_holds_def put bit_drop_bit_eq)
  ultimately show thesis using that by blast
qed

text \<open>Reading and writing words, for both planes.\<close>

definition vec_get :: "plane \<Rightarrow> nat \<Rightarrow> vec \<Rightarrow> u32 result" where
  "vec_get pl = (case pl of Data \<Rightarrow> vec_get_word | Ctrl \<Rightarrow> vec_get_cword)"

definition vec_put :: "plane \<Rightarrow> nat \<Rightarrow> u32 \<Rightarrow> vec \<Rightarrow> vec result" where
  "vec_put pl = (case pl of Data \<Rightarrow> vec_set_word | Ctrl \<Rightarrow> vec_set_cword)"

lemma vec_get_ok: "vec_ok v \<Longrightarrow> i < v_size v \<Longrightarrow> vec_get pl i v = Inr (vec_word pl v i)"
  by (cases pl; cases "v_kind v")
    (simp_all add: vec_get_def vec_get_word_def vec_get_cword_def vec_word_def vec_ok_def)

lemma vec_put_ok:
  assumes "vec_ok v" "i < v_size v"
  obtains v' where "vec_put pl i w v = Inr v'" "same_shape v v'"
    "\<And>pl' j. vec_word pl' v' j = (if pl' = pl \<and> j = i then if kind_holds (v_kind v) pl then w else 0 else vec_word pl' v j)"
proof -
  define v' where "v' = (case pl of Data \<Rightarrow> v\<lparr>v_data := (v_data v)[i := w]\<rparr>
    | Ctrl \<Rightarrow> if v_kind v = BV then v else v\<lparr>v_ctrl := (v_ctrl v)[i := w]\<rparr>)"
  have "vec_put pl i w v = Inr v'"
    using assms by (cases pl; cases "v_kind v")
      (simp_all add: vec_put_def vec_set_word_def vec_set_cword_def v'_def vec_ok_def)
  moreover have "same_shape v v'"
    using assms(1) by (cases "v_kind v") (simp_all add: same_shape_def v'_def vec_ok_def split: plane.split)
  moreover have "vec_word pl' v' j =
      (if pl' = pl \<and> j = i then if kind_holds (v_kind v) pl then w else 0 else vec_word pl' v j)" for pl' j
    using assms by (cases pl; cases pl'; cases "v_kind v")
      (auto simp: v'_def vec_word_def kind_holds_def vec_ok_def nth_list_update)
  ultimately show thesis using that by blast
qed

section \<open>The tail\<close>

lemma last_word:
  fixes l n :: nat
  assumes "0 < l" "n < 32 * ((l - 1) div 32 + 1)"
  shows "l \<le> n \<Longrightarrow> n div 32 = (l - 1) div 32 \<and> l mod 32 \<noteq> 0 \<and> l mod 32 \<le> n mod 32"
    and "n < l \<Longrightarrow> n div 32 = (l - 1) div 32 \<Longrightarrow> l mod 32 \<noteq> 0 \<Longrightarrow> n mod 32 < l mod 32"
proof -
  define q r where "q = l div 32" and "r = l mod 32"
  have l: "l = 32 * q + r" "r < 32" by (simp_all add: q_def r_def)
  have d: "(l - 1) div 32 = (if r = 0 then q - 1 else q)"
  proof (cases "r = 0")
    case True
    then have "l - 1 = 31 + 32 * (q - 1)" using l assms(1) by (cases q) simp_all
    then show ?thesis using True by simp
  next
    case False
    then have "l - 1 = (r - 1) + 32 * q" using l by simp
    then show ?thesis using False l(2) by simp
  qed
  show "l \<le> n \<Longrightarrow> n div 32 = (l - 1) div 32 \<and> l mod 32 \<noteq> 0 \<and> l mod 32 \<le> n mod 32"
  proof -
    assume n: "l \<le> n"
    have "r \<noteq> 0"
    proof
      assume "r = 0"
      then have "n < 32 * q" using assms d l(1) by (cases q) simp_all
      then show False using n l(1) \<open>r = 0\<close> by simp
    qed
    moreover define k where "k = n - 32 * q"
    ultimately have "n = k + 32 * q" "k < 32" "r \<le> k" using n assms(2) d l by auto
    then show ?thesis using \<open>r \<noteq> 0\<close> d by (simp add: r_def)
  qed
  show "n < l \<Longrightarrow> n div 32 = (l - 1) div 32 \<Longrightarrow> l mod 32 \<noteq> 0 \<Longrightarrow> n mod 32 < l mod 32"
  proof -
    assume "n < l" "n div 32 = (l - 1) div 32" "l mod 32 \<noteq> 0"
    moreover have "r \<noteq> 0" using calculation(3) unfolding r_def .
    ultimately have "n div 32 = q" "n < 32 * q + r" using d l(1) by simp_all
    then have "n mod 32 < r" using div_mult_mod_eq [of n 32] by linarith
    then show "n mod 32 < l mod 32" unfolding r_def .
  qed
qed

lemma tail_index: "vec_ok v \<Longrightarrow> v_len v \<le> n \<Longrightarrow> n < 32 * v_size v \<Longrightarrow>
    n div 32 = v_size v - 1 \<and> v_len v mod 32 \<noteq> 0 \<and> v_len v mod 32 \<le> n mod 32"
  using last_word(1) [of "v_len v" n] by (simp add: vec_ok_def)

lemma head_index: "vec_ok v \<Longrightarrow> n < v_len v \<Longrightarrow> n div 32 = v_size v - 1 \<Longrightarrow> v_len v mod 32 \<noteq> 0 \<Longrightarrow>
    n mod 32 < v_len v mod 32"
  using last_word(2) [of "v_len v" n] words_bound [of "v_len v"] by (simp add: vec_ok_def)

lemma tail_mask: "0 < b \<Longrightarrow> b < 32 \<Longrightarrow> j < 32 \<Longrightarrow> bit (w AND drop_bit (32 - b) (NOT 0) :: u32) j \<longleftrightarrow> j < b \<and> bit w j"
  by (auto simp: bit_and_iff bit_drop_bit_eq bit_mask_iff)

lemma shift_right_mask: "b < 32 \<Longrightarrow>
    shift_right_32 (32 - b) (NOT 0) = (if b = 0 then NOT 0 else drop_bit (32 - b) (NOT 0))"
  by (simp add: shift_right_32_def mask_full [where 'a = 32, simplified])

lemma tail_mask_nonzero: "0 < b \<Longrightarrow> b < 32 \<Longrightarrow> drop_bit (32 - b) (NOT 0 :: u32) \<noteq> 0"
  using tail_mask [of b 0 "NOT 0"] by (auto simp: bit_not_iff)

lemma vec_clean_tail_ok:
  assumes "vec_ok v"
  obtains v' where "vec_clean_tail v = Inr v'" "same_shape v v'" "vec_clean v'"
    "\<And>pl n. n < v_len v \<Longrightarrow> vec_bit pl v' n = vec_bit pl v n"
proof -
  define b wi where "b = v_len v mod 32" and "wi = v_size v - 1"
  define msk :: u32 where "msk = (if b = 0 then NOT 0 else drop_bit (32 - b) (NOT 0))"
  have sr: "shift_right_32 (32 - b) (NOT 0) = msk"
    by (simp only: msk_def shift_right_mask b_def mod_less_divisor zero_less_numeral)
  define cut where "cut ws = ws[wi := ws ! wi AND msk]" for ws
  define v' where "v' = (if v_kind v = BV then v\<lparr>v_data := cut (v_data v)\<rparr>
    else v\<lparr>v_data := cut (v_data v), v_ctrl := cut (v_ctrl v)\<rparr>)"
  have b: "b < 32" by (simp add: b_def)
  have wi: "wi < v_size v" using assms by (simp add: wi_def vec_ok_def)
  have nz: "msk \<noteq> 0" using tail_mask_nonzero [of b] b by (simp add: msk_def)
  have "vec_clean_tail v = Inr v'"
  proof (cases "v_kind v")
    case BV
    then show ?thesis using wi assms
      by (simp add: vec_clean_tail_def Let_def v'_def cut_def msk_def b_def wi_def vec_ok_def)
  next
    case LV
    then show ?thesis using wi assms nz unfolding vec_clean_tail_def
      by (simp only: b_def [symmetric] wi_def [symmetric] sr Let_def) (simp add: v'_def cut_def vec_ok_def)
  qed
  moreover have shape: "same_shape v v'" using assms by (simp add: same_shape_def v'_def vec_ok_def cut_def)
  moreover have cut: "bit (cut ws ! (n div 32)) (n mod 32) \<longleftrightarrow>
      (n < v_len v \<and> bit (ws ! (n div 32)) (n mod 32))" if "n < 32 * v_size v" "length ws = v_size v" for n ws
  proof (cases "n div 32 = wi \<and> b \<noteq> 0")
    case True
    then have "n < v_len v \<longleftrightarrow> n mod 32 < b"
      using head_index [OF assms, of n] tail_index [OF assms, of n] that(1)
      by (metis b_def leD not_less wi_def)
    then show ?thesis using True b wi that(2) tail_mask [of b "n mod 32" "ws ! wi"]
      by (simp add: cut_def msk_def)
  next
    case False
    then have "n < v_len v" using tail_index [OF assms, of n] that(1) unfolding b_def wi_def by (meson not_less)
    then show ?thesis using False wi that(2) by (auto simp: cut_def msk_def nth_list_update)
  qed
  moreover have bits: "vec_bit pl v' n \<longleftrightarrow> n < v_len v \<and> vec_bit pl v n" if "n < 32 * v_size v" for pl n
    using assms that by (cases pl; cases "v_kind v")
      (auto simp: v'_def vec_bit_def vec_word_def vec_ok_def cut)
  moreover have "vec_clean v'" using shape bits by (auto simp: vec_clean_def same_shape_size [OF shape assms] same_shape_def)
  moreover have "vec_bit pl v' n = vec_bit pl v n" if "n < v_len v" for pl n
    using bits [of n] that len_le_size [OF assms] by simp
  ultimately show thesis using that by blast
qed

text \<open>A clean vector is determined by its kind, its length and its bits.\<close>

lemma vec_eqI:
  assumes "vec_ok u" "same_shape u v" "vec_clean u" "vec_clean v"
    and "\<And>pl n. n < v_len u \<Longrightarrow> vec_bit pl u n = vec_bit pl v n"
  shows "u = v"
proof -
  have sz: "v_size v = v_size u" "v_len v = v_len u" "v_kind v = v_kind u" "vec_ok v"
    using same_shape_size [OF assms(2,1)] assms(2) by (simp_all add: same_shape_def)
  have bits: "vec_bit pl u n = vec_bit pl v n" if "n < 32 * v_size u" for pl n
  proof (cases "n < v_len u")
    case False
    then show ?thesis using assms(3,4) that sz(1,2) unfolding vec_clean_def by (metis not_less)
  qed (rule assms(5))
  have words: "vec_word pl u i = vec_word pl v i" if "i < v_size u" for pl i
  proof (rule bit_word_eqI)
    fix k assume "k < LENGTH(32)"
    then have k: "k < 32" by simp
    have "32 * i + k < 32 * v_size u" using that k by linarith
    then show "bit (vec_word pl u i) k = bit (vec_word pl v i) k"
      using bits [of "32 * i + k" pl] k by (simp add: vec_bit_def)
  qed
  have "v_data u = v_data v"
    using assms(1) sz words [of _ Data] by (intro nth_equalityI) (simp_all add: vec_ok_def vec_word_def)
  moreover have "v_ctrl u = v_ctrl v"
    using assms(1) sz words [of _ Ctrl] by (intro nth_equalityI) (auto simp: vec_ok_def vec_word_def split: if_splits)
  ultimately show ?thesis using sz by simp
qed

section \<open>New vectors\<close>

lemma vec_init_ok:
  assumes "0 < n"
  shows "\<exists>v. lv_init n x = Inr v \<and> vec_ok v \<and> vec_clean v \<and> v_kind v = LV \<and> v_len v = nat n \<and>
      vec_list v = replicate (nat n) x"
    and "\<exists>v. bv_init n b = Inr v \<and> vec_ok v \<and> vec_clean v \<and> v_kind v = BV \<and> v_len v = nat n \<and>
      vec_list v = replicate (nat n) (logic_of_bool b)"
proof -
  define sz where "sz = (nat n - 1) div 32 + 1"
  have inside: "k div 32 < sz" if "k < nat n" for k using that by (auto simp: sz_def less_Suc_eq_le div_le_mono)
  have len: "0 < nat n" using assms by simp
  show "\<exists>v. lv_init n x = Inr v \<and> vec_ok v \<and> vec_clean v \<and> v_kind v = LV \<and> v_len v = nat n \<and>
      vec_list v = replicate (nat n) x"
  proof -
    define u where "u = \<lparr>v_kind = LV, v_len = nat n, v_size = sz,
      v_data = replicate sz (data_array ! logic_number x), v_ctrl = replicate sz (ctrl_array ! logic_number x)\<rparr>"
    have "vec_ok u" using len by (simp add: u_def vec_ok_def sz_def del: replicate_Suc)
    then obtain v where v: "vec_clean_tail u = Inr v" "same_shape u v" "vec_clean v"
      "\<And>pl k. k < v_len u \<Longrightarrow> vec_bit pl v k = vec_bit pl u k" using vec_clean_tail_ok by blast
    have "vec_value u k = x" if "k < nat n" for k
      using inside [OF that] by (cases x) (simp_all add: vec_value_def vec_bit_def vec_word_def u_def
          data_array_def ctrl_array_def of_bits_def)
    then have "vec_list v = replicate (nat n) x" using v(2,4)
      by (intro nth_equalityI) (simp_all add: vec_list_def vec_value_def same_shape_def u_def)
    moreover have "lv_init n x = Inr v"
      using assms v(1) by (simp add: lv_init_def Let_def u_def sz_def del: replicate_Suc)
    ultimately show ?thesis using v(2,3) by (auto simp: same_shape_def u_def)
  qed
  show "\<exists>v. bv_init n b = Inr v \<and> vec_ok v \<and> vec_clean v \<and> v_kind v = BV \<and> v_len v = nat n \<and>
      vec_list v = replicate (nat n) (logic_of_bool b)"
  proof -
    define u where "u = \<lparr>v_kind = BV, v_len = nat n, v_size = sz,
      v_data = replicate sz (if b then NOT 0 else 0 :: u32), v_ctrl = []\<rparr>"
    have "vec_ok u" using len by (simp add: u_def vec_ok_def sz_def del: replicate_Suc)
    then obtain v where v: "vec_clean_tail u = Inr v" "same_shape u v" "vec_clean v"
      "\<And>pl k. k < v_len u \<Longrightarrow> vec_bit pl v k = vec_bit pl u k" using vec_clean_tail_ok by blast
    have "vec_value u k = logic_of_bool b" if "k < nat n" for k
      using inside [OF that] by (simp add: vec_value_def vec_bit_def vec_word_def u_def of_bits_def logic_of_bool_def)
    then have "vec_list v = replicate (nat n) (logic_of_bool b)" using v(2,4)
      by (intro nth_equalityI) (simp_all add: vec_list_def vec_value_def same_shape_def u_def)
    moreover have "bv_init n b = Inr v"
      using assms v(1) by (simp add: bv_init_def Let_def u_def sz_def del: replicate_Suc)
    ultimately show ?thesis using v(2,3) by (auto simp: same_shape_def u_def)
  qed
qed

end
