(* ===== verification/Sc_Proxy.thy ===== *)
theory Sc_Proxy
  imports Sc_Lv
begin

text \<open>
  \<open>sc_bit_proxies.h\<close>: whole vectors, single bits, parts and concatenations, all of which can be read
  and written word by word. The operations of the class template \<open>sc_proxy<X>\<close> (\<open>Sc_Proxy_Ops\<close>) only use
  the members listed in the record here, so the template parameter \<open>X\<close> is such a record. The vectors
  live in a store; a proxy object refers to them by address.
\<close>

unbundle bit_operations_syntax

section \<open>The members of a proxy\<close>

record 's rproxy =
  px_length :: "'s \<Rightarrow> nat"
  px_size :: "'s \<Rightarrow> nat"
  px_get_bit :: "nat \<Rightarrow> 's \<Rightarrow> sc_logic_value_t result"
  px_get_word :: "nat \<Rightarrow> 's \<Rightarrow> u32 result"
  px_get_cword :: "nat \<Rightarrow> 's \<Rightarrow> u32 result"

record 's proxy = "'s rproxy" +
  px_set_bit :: "nat \<Rightarrow> u32 \<Rightarrow> 's \<Rightarrow> 's result"
  px_set_word :: "nat \<Rightarrow> u32 \<Rightarrow> 's \<Rightarrow> 's result"
  px_set_cword :: "nat \<Rightarrow> u32 \<Rightarrow> 's \<Rightarrow> 's result"
  px_clean_tail :: "'s \<Rightarrow> 's result"

text \<open>A proxy of another state, read as it was then: the operand of an operation on a new object.\<close>

definition frozen :: "'s \<Rightarrow> ('s, 'z) rproxy_scheme \<Rightarrow> 't rproxy" where
  "frozen s Y = \<lparr>px_length = (\<lambda>_. px_length Y s), px_size = (\<lambda>_. px_size Y s),
     px_get_bit = (\<lambda>n _. px_get_bit Y n s), px_get_word = (\<lambda>i _. px_get_word Y i s),
     px_get_cword = (\<lambda>i _. px_get_cword Y i s)\<rparr>"

definition word_count :: "nat \<Rightarrow> nat" where
  "word_count n = (n - 1) div 32 + 1"

section \<open>A whole vector\<close>

type_synonym store = "nat \<Rightarrow> vec"

definition on_vec :: "nat \<Rightarrow> (vec \<Rightarrow> vec result) \<Rightarrow> store \<Rightarrow> store result" where
  "on_vec a f s = bind_result (f (s a)) (\<lambda>v. Inr (s(a := v)))"

definition whole :: "nat \<Rightarrow> store proxy" where
  "whole a = \<lparr>px_length = (\<lambda>s. v_len (s a)), px_size = (\<lambda>s. v_size (s a)),
     px_get_bit = (\<lambda>n s. vec_get_bit n (s a)), px_get_word = (\<lambda>i s. vec_get_word i (s a)),
     px_get_cword = (\<lambda>i s. vec_get_cword i (s a)),
     px_set_bit = (\<lambda>n x. on_vec a (vec_set_bit n x)), px_set_word = (\<lambda>i w. on_vec a (vec_set_word i w)),
     px_set_cword = (\<lambda>i w. on_vec a (vec_set_cword i w)), px_clean_tail = on_vec a vec_clean_tail\<rparr>"

section \<open>One bit\<close>

definition bitref_get_bit :: "'s proxy \<Rightarrow> nat \<Rightarrow> nat \<Rightarrow> 's \<Rightarrow> sc_logic_value_t result" where
  "bitref_get_bit X idx n s = (if n = 0 then px_get_bit X idx s else Inl Sc_report_error)"

definition bitref_get_word :: "'s proxy \<Rightarrow> nat \<Rightarrow> nat \<Rightarrow> 's \<Rightarrow> u32 result" where
  "bitref_get_word X idx n s =
     (if n = 0 then bind_result (bitref_get_bit X idx n s) (\<lambda>v. Inr (logic_word v AND 1))
      else Inl Sc_report_error)"

definition bitref_get_cword :: "'s proxy \<Rightarrow> nat \<Rightarrow> nat \<Rightarrow> 's \<Rightarrow> u32 result" where
  "bitref_get_cword X idx n s =
     (if n = 0 then bind_result (bitref_get_bit X idx n s) (\<lambda>v. Inr (drop_bit 1 (logic_word v AND 2)))
      else Inl Sc_report_error)"

definition bitref_set_bit :: "'s proxy \<Rightarrow> nat \<Rightarrow> nat \<Rightarrow> u32 \<Rightarrow> 's \<Rightarrow> 's result" where
  "bitref_set_bit X idx n x s = (if n = 0 then px_set_bit X idx x s else Inl Sc_report_error)"

definition one_bit :: "nat \<Rightarrow> u32 \<Rightarrow> u32 \<Rightarrow> u32" where
  "one_bit bi temp w = (temp AND NOT (push_bit bi 1)) OR push_bit bi (w AND 1)"

definition bitref_set_word :: "'s proxy \<Rightarrow> nat \<Rightarrow> nat \<Rightarrow> u32 \<Rightarrow> 's \<Rightarrow> 's result" where
  "bitref_set_word X idx n w s =
     (let bi = idx mod 32; wi = idx div 32
      in if n = 0
         then bind_result (px_get_word X wi s) (\<lambda>temp. px_set_word X wi (one_bit bi temp w) s)
         else Inl Sc_report_error)"

definition bitref_set_cword :: "'s proxy \<Rightarrow> nat \<Rightarrow> nat \<Rightarrow> u32 \<Rightarrow> 's \<Rightarrow> 's result" where
  "bitref_set_cword X idx n w s =
     (let bi = idx mod 32; wi = idx div 32
      in if n = 0
         then bind_result (px_get_cword X wi s) (\<lambda>temp. px_set_cword X wi (one_bit bi temp w) s)
         else Inl Sc_report_error)"

definition bitref :: "'s proxy \<Rightarrow> nat \<Rightarrow> 's proxy" where
  "bitref X idx = \<lparr>px_length = (\<lambda>_. 1), px_size = (\<lambda>_. word_count 1),
     px_get_bit = bitref_get_bit X idx, px_get_word = bitref_get_word X idx,
     px_get_cword = bitref_get_cword X idx, px_set_bit = bitref_set_bit X idx,
     px_set_word = bitref_set_word X idx, px_set_cword = bitref_set_cword X idx,
     px_clean_tail = px_clean_tail X\<rparr>"

section \<open>A part\<close>

text \<open>The bits of a word of a part, in its order: downwards when the part is reversed.\<close>

definition part_reversed :: "nat \<Rightarrow> nat \<Rightarrow> bool" where
  "part_reversed hi lo \<longleftrightarrow> lo > hi"

definition part_length :: "nat \<Rightarrow> nat \<Rightarrow> nat" where
  "part_length hi lo = (if part_reversed hi lo then lo - hi + 1 else hi - lo + 1)"

definition part_index :: "nat \<Rightarrow> nat \<Rightarrow> nat \<Rightarrow> nat result" where
  "part_index hi lo n = (if part_reversed hi lo
     then if n \<le> lo then Inr (lo - n) else Inl Out_of_range
     else Inr (lo + n))"

definition part_word :: "nat \<Rightarrow> nat \<Rightarrow> nat \<Rightarrow> nat list" where
  "part_word hi lo i =
     (if part_reversed hi lo
      then let n1 = int lo - int i * 32; n2 = max (n1 - 32) (int hi - 1)
           in map (\<lambda>k. nat (n1 - int k)) [0..<nat (n1 - n2)]
      else let n1 = lo + i * 32; n2 = min (n1 + 32) (hi + 1) in [n1..<n2])"

definition subref_get_bit :: "'s proxy \<Rightarrow> nat \<Rightarrow> nat \<Rightarrow> nat \<Rightarrow> 's \<Rightarrow> sc_logic_value_t result" where
  "subref_get_bit X hi lo n s = bind_result (part_index hi lo n) (\<lambda>m. px_get_bit X m s)"

definition subref_set_bit :: "'s proxy \<Rightarrow> nat \<Rightarrow> nat \<Rightarrow> nat \<Rightarrow> u32 \<Rightarrow> 's \<Rightarrow> 's result" where
  "subref_set_bit X hi lo n x s = bind_result (part_index hi lo n) (\<lambda>m. px_set_bit X m x s)"

text \<open>The loops keep the position \<open>k\<close> of the next bit of the word besides what they build.\<close>

definition subref_get_word :: "'s proxy \<Rightarrow> nat \<Rightarrow> nat \<Rightarrow> nat \<Rightarrow> 's \<Rightarrow> u32 result" where
  "subref_get_word X hi lo i s = bind_result
     (for_each (\<lambda>n (k, r). bind_result (px_get_bit X n s) (\<lambda>v.
        Inr (k + 1, r OR push_bit k (logic_word v AND 1)))) (part_word hi lo i) (0, 0))
     (\<lambda>(k, r). Inr r)"

definition subref_get_cword :: "'s proxy \<Rightarrow> nat \<Rightarrow> nat \<Rightarrow> nat \<Rightarrow> 's \<Rightarrow> u32 result" where
  "subref_get_cword X hi lo i s = bind_result
     (for_each (\<lambda>n (k, r). bind_result (px_get_bit X n s) (\<lambda>v.
        Inr (k + 1, r OR push_bit k (drop_bit 1 (logic_word v AND 2))))) (part_word hi lo i) (0, 0))
     (\<lambda>(k, r). Inr r)"

definition subref_set_word :: "'s proxy \<Rightarrow> nat \<Rightarrow> nat \<Rightarrow> nat \<Rightarrow> u32 \<Rightarrow> 's \<Rightarrow> 's result" where
  "subref_set_word X hi lo i w s = bind_result
     (for_each (\<lambda>n (k, s). bind_result (px_get_bit X n s) (\<lambda>v.
        bind_result (px_set_bit X n ((drop_bit k w AND 1) OR (logic_word v AND 2)) s) (\<lambda>s. Inr (k + 1, s))))
        (part_word hi lo i) (0, s))
     (\<lambda>(k, s). Inr s)"

definition subref_set_cword :: "'s proxy \<Rightarrow> nat \<Rightarrow> nat \<Rightarrow> nat \<Rightarrow> u32 \<Rightarrow> 's \<Rightarrow> 's result" where
  "subref_set_cword X hi lo i w s = bind_result
     (for_each (\<lambda>n (k, s). bind_result (px_get_bit X n s) (\<lambda>v.
        bind_result (px_set_bit X n (push_bit 1 (drop_bit k w AND 1) OR (logic_word v AND 1)) s)
          (\<lambda>s. Inr (k + 1, s)))) (part_word hi lo i) (0, s))
     (\<lambda>(k, s). Inr s)"

definition subref :: "'s proxy \<Rightarrow> nat \<Rightarrow> nat \<Rightarrow> 's proxy" where
  "subref X hi lo = \<lparr>px_length = (\<lambda>_. part_length hi lo), px_size = (\<lambda>_. word_count (part_length hi lo)),
     px_get_bit = subref_get_bit X hi lo, px_get_word = subref_get_word X hi lo,
     px_get_cword = subref_get_cword X hi lo, px_set_bit = subref_set_bit X hi lo,
     px_set_word = subref_set_word X hi lo, px_set_cword = subref_set_cword X hi lo,
     px_clean_tail = px_clean_tail X\<rparr>"

text \<open>\<open>range(hi, lo)\<close> checks its bounds when the part is made.\<close>

definition make_part :: "'s proxy \<Rightarrow> int \<Rightarrow> int \<Rightarrow> 's \<Rightarrow> 's proxy result" where
  "make_part X hi lo s = (let len = int (px_length X s)
     in if hi < 0 \<or> hi \<ge> len \<or> lo < 0 \<or> lo \<ge> len then Inl Sc_report_error
        else Inr (subref X (nat hi) (nat lo)))"

section \<open>A concatenation\<close>

definition concref_get_bit :: "'s proxy \<Rightarrow> 's proxy \<Rightarrow> nat \<Rightarrow> 's \<Rightarrow> sc_logic_value_t result" where
  "concref_get_bit X Y n s = (let r_len = px_length Y s
     in if n < r_len then px_get_bit Y n s
        else if n < r_len + px_length X s then px_get_bit X (n - r_len) s
        else Inl Sc_report_error)"

definition concref_set_bit :: "'s proxy \<Rightarrow> 's proxy \<Rightarrow> nat \<Rightarrow> u32 \<Rightarrow> 's \<Rightarrow> 's result" where
  "concref_set_bit X Y n x s = (let r_len = px_length Y s
     in if n < r_len then px_set_bit Y n x s
        else if n < r_len + px_length X s then px_set_bit X (n - r_len) x s
        else Inl Sc_report_error)"

definition concref_size :: "'s proxy \<Rightarrow> 's proxy \<Rightarrow> 's \<Rightarrow> nat" where
  "concref_size X Y s = word_count (px_length X s + px_length Y s)"

text \<open>
  \<open>get_word\<close> and \<open>get_cword\<close> are the same code on the data and on the control words, and so are \<open>set_word\<close>
  and \<open>set_cword\<close>: the word operations of the two operands are arguments.
\<close>

definition concref_get :: "(nat \<Rightarrow> 's \<Rightarrow> u32 result) \<Rightarrow> (nat \<Rightarrow> 's \<Rightarrow> u32 result) \<Rightarrow> 's proxy \<Rightarrow> 's proxy \<Rightarrow>
    nat \<Rightarrow> 's \<Rightarrow> u32 result" where
  "concref_get getl getr X Y i s =
     (if \<not> i < concref_size X Y s then Inl Sc_report_error
      else let r_len = px_length Y s; border = r_len div 32
      in if i < border then getr i s
      else let shift = r_len mod 32; j = i - border
      in if shift = 0 then getl j s
      else let nshift = 32 - shift
      in if i = border
         then bind_result (getr i s) (\<lambda>r. bind_result (getl 0 s) (\<lambda>l.
           Inr ((r AND drop_bit nshift (NOT 0)) OR push_bit shift l)))
      else if j < px_size X s
         then bind_result (getl (j - 1) s) (\<lambda>l1. bind_result (getl j s) (\<lambda>l2.
           Inr (drop_bit nshift l1 OR push_bit shift l2)))
      else bind_result (getl (j - 1) s) (\<lambda>l1. Inr (drop_bit nshift l1)))"

definition concref_set :: "(nat \<Rightarrow> 's \<Rightarrow> u32 result) \<Rightarrow> (nat \<Rightarrow> u32 \<Rightarrow> 's \<Rightarrow> 's result) \<Rightarrow> (nat \<Rightarrow> u32 \<Rightarrow> 's \<Rightarrow> 's result) \<Rightarrow>
    's proxy \<Rightarrow> 's proxy \<Rightarrow> nat \<Rightarrow> u32 \<Rightarrow> 's \<Rightarrow> 's result" where
  "concref_set getl setl setr X Y i w s =
     (if \<not> i < concref_size X Y s then Inl Sc_report_error
      else let r_len = px_length Y s; border = r_len div 32
      in if i < border then setr i w s
      else let shift = r_len mod 32; j = i - border
      in if shift = 0 then setl j w s
      else let nshift = 32 - shift; lh_mask = push_bit nshift (NOT 0)
      in if i = border
         then bind_result (setr i (w AND drop_bit nshift (NOT 0)) s) (\<lambda>s1.
           bind_result (getl 0 s1) (\<lambda>l. setl 0 ((l AND lh_mask) OR drop_bit shift w) s1))
      else bind_result (getl (j - 1) s) (\<lambda>l.
           bind_result (setl (j - 1) ((l AND drop_bit shift (NOT 0)) OR push_bit nshift w) s) (\<lambda>s1.
             if j < px_size X s1
             then bind_result (getl j s1) (\<lambda>l. setl j ((l AND lh_mask) OR drop_bit shift w) s1)
             else Inr s1)))"

definition concref_get_word :: "'s proxy \<Rightarrow> 's proxy \<Rightarrow> nat \<Rightarrow> 's \<Rightarrow> u32 result" where
  "concref_get_word X Y = concref_get (px_get_word X) (px_get_word Y) X Y"

definition concref_get_cword :: "'s proxy \<Rightarrow> 's proxy \<Rightarrow> nat \<Rightarrow> 's \<Rightarrow> u32 result" where
  "concref_get_cword X Y = concref_get (px_get_cword X) (px_get_cword Y) X Y"

definition concref_set_word :: "'s proxy \<Rightarrow> 's proxy \<Rightarrow> nat \<Rightarrow> u32 \<Rightarrow> 's \<Rightarrow> 's result" where
  "concref_set_word X Y = concref_set (px_get_word X) (px_set_word X) (px_set_word Y) X Y"

definition concref_set_cword :: "'s proxy \<Rightarrow> 's proxy \<Rightarrow> nat \<Rightarrow> u32 \<Rightarrow> 's \<Rightarrow> 's result" where
  "concref_set_cword X Y = concref_set (px_get_cword X) (px_set_cword X) (px_set_cword Y) X Y"

definition concref_clean_tail :: "'s proxy \<Rightarrow> 's proxy \<Rightarrow> 's \<Rightarrow> 's result" where
  "concref_clean_tail X Y s = bind_result (px_clean_tail X s) (px_clean_tail Y)"

definition concref :: "'s proxy \<Rightarrow> 's proxy \<Rightarrow> 's proxy" where
  "concref X Y = \<lparr>px_length = (\<lambda>s. px_length X s + px_length Y s), px_size = concref_size X Y,
     px_get_bit = concref_get_bit X Y, px_get_word = concref_get_word X Y,
     px_get_cword = concref_get_cword X Y, px_set_bit = concref_set_bit X Y,
     px_set_word = concref_set_word X Y, px_set_cword = concref_set_cword X Y,
     px_clean_tail = concref_clean_tail X Y\<rparr>"

end
