(* ===== verification/Sc_Proxy_Facts.thy ===== *)
theory Sc_Proxy_Facts
  imports Sc_Proxy
begin

text \<open>
  The contract of a proxy, as the locale \<open>writable\<close>: it stands for a list of distinct places in the store,
  and its words are the words of that list. Whole vectors meet the contract, and bits, parts and
  concatenations of proxies that meet it do.
\<close>

section \<open>Places\<close>

type_synonym place = "nat \<times> nat"

type_synonym shape = "nat \<Rightarrow> vkind \<times> nat"

definition pbit :: "plane \<Rightarrow> store \<Rightarrow> place \<Rightarrow> bool" where
  "pbit pl s l = vec_bit pl (s (fst l)) (snd l)"

definition pval :: "store \<Rightarrow> place \<Rightarrow> sc_logic_value_t" where
  "pval s l = vec_value (s (fst l)) (snd l)"

definition contents :: "store \<Rightarrow> place list \<Rightarrow> sc_logic_value_t list" where
  "contents s L = map (pval s) L"

definition valid :: "shape \<Rightarrow> place \<Rightarrow> bool" where
  "valid sh l \<longleftrightarrow> snd l < snd (sh (fst l))"

definition holds :: "shape \<Rightarrow> plane \<Rightarrow> place \<Rightarrow> bool" where
  "holds sh pl l = kind_holds (fst (sh (fst l))) pl"

definition store_ok :: "shape \<Rightarrow> store \<Rightarrow> bool" where
  "store_ok sh s \<longleftrightarrow> (\<forall>a. vec_ok (s a) \<and> sh a = (v_kind (s a), v_len (s a)))"

definition store_clean :: "store \<Rightarrow> bool" where
  "store_clean s \<longleftrightarrow> (\<forall>a. vec_clean (s a))"

text \<open>
  \<open>Os\<close> are the vectors behind a proxy, \<open>D\<close> those whose tail it may leave dirty until it is cleaned.
\<close>

definition ready :: "shape \<Rightarrow> nat set \<Rightarrow> nat set \<Rightarrow> store \<Rightarrow> bool" where
  "ready sh Os D s \<longleftrightarrow> store_ok sh s \<and> (\<forall>a\<in>Os - D. vec_clean (s a))"

definition moves :: "shape \<Rightarrow> place set \<Rightarrow> store \<Rightarrow> store \<Rightarrow> bool" where
  "moves sh M s s' \<longleftrightarrow> store_ok sh s' \<and> (\<forall>pl l. valid sh l \<longrightarrow> l \<notin> M \<longrightarrow> pbit pl s' l = pbit pl s l)"

definition keeps_clean :: "nat set \<Rightarrow> store \<Rightarrow> store \<Rightarrow> bool" where
  "keeps_clean D s s' \<longleftrightarrow> (\<forall>a. a \<notin> D \<longrightarrow> vec_clean (s a) \<longrightarrow> vec_clean (s' a))"

definition word_places :: "place list \<Rightarrow> nat \<Rightarrow> place set" where
  "word_places L i = {L ! n | n. n < length L \<and> n div 32 = i}"

definition tail_zero :: "nat \<Rightarrow> nat \<Rightarrow> u32 \<Rightarrow> bool" where
  "tail_zero len i w \<longleftrightarrow> (\<forall>n. len \<le> n \<and> n div 32 = i \<longrightarrow> \<not> bit w (n mod 32))"

definition px_get :: "plane \<Rightarrow> ('s, 'z) rproxy_scheme \<Rightarrow> nat \<Rightarrow> 's \<Rightarrow> u32 result" where
  "px_get pl X = (case pl of Data \<Rightarrow> px_get_word X | Ctrl \<Rightarrow> px_get_cword X)"

definition px_put :: "plane \<Rightarrow> 's proxy \<Rightarrow> nat \<Rightarrow> u32 \<Rightarrow> 's \<Rightarrow> 's result" where
  "px_put pl X = (case pl of Data \<Rightarrow> px_set_word X | Ctrl \<Rightarrow> px_set_cword X)"

lemma plane_bit_pval [simp]: "plane_bit pl (pval s l) = pbit pl s l"
  by (simp add: pval_def pbit_def)

lemma pbit_holds: "store_ok sh s \<Longrightarrow> pbit pl s l \<Longrightarrow> holds sh pl l"
  by (cases pl; cases "v_kind (s (fst l))") (auto simp: store_ok_def holds_def kind_holds_def pbit_def)

lemma moves_trans: "moves sh M s s' \<Longrightarrow> moves sh M' s' s'' \<Longrightarrow> M \<subseteq> K \<Longrightarrow> M' \<subseteq> K \<Longrightarrow> moves sh K s s''"
  unfolding moves_def by blast

lemma moves_refl: "store_ok sh s \<Longrightarrow> moves sh M s s"
  by (simp add: moves_def)

lemma moves_mono: "moves sh M s s' \<Longrightarrow> M \<subseteq> K \<Longrightarrow> moves sh K s s'"
  unfolding moves_def by blast

lemma keeps_clean_trans: "keeps_clean D s s' \<Longrightarrow> keeps_clean D' s' s'' \<Longrightarrow> D \<subseteq> K \<Longrightarrow> D' \<subseteq> K \<Longrightarrow> keeps_clean K s s''"
  unfolding keeps_clean_def by blast

lemma keeps_clean_refl [simp]: "keeps_clean D s s"
  by (simp add: keeps_clean_def)

lemma keeps_clean_mono: "keeps_clean D s s' \<Longrightarrow> D \<subseteq> K \<Longrightarrow> keeps_clean K s s'"
  unfolding keeps_clean_def by blast

lemma ready_step: "ready sh Os D s \<Longrightarrow> moves sh M s s' \<Longrightarrow> keeps_clean D s s' \<Longrightarrow> ready sh Os D s'"
  by (auto simp: ready_def moves_def keeps_clean_def)

lemma length_contents_of [simp]: "length (contents s L) = length L"
  by (simp add: contents_def)

section \<open>The contracts\<close>

text \<open>What can be read: the words of a list of values.\<close>

definition plane_word :: "plane \<Rightarrow> sc_logic_value_t list \<Rightarrow> nat \<Rightarrow> u32" where
  "plane_word pl xs i = horner_sum of_bool 2 (map (plane_bit pl) (take 32 (drop (32 * i) xs)))"

lemma bit_plane_word:
  assumes "k < 32"
  shows "bit (plane_word pl xs i) k \<longleftrightarrow> 32 * i + k < length xs \<and> plane_bit pl (xs ! (32 * i + k))"
  using assms by (auto simp: plane_word_def bit_horner_sum_bit_word_iff)

lemma bit_plane_word_mod:
  "bit (plane_word pl xs (n div 32)) (n mod 32) \<longleftrightarrow> n < length xs \<and> plane_bit pl (xs ! n)"
  by (simp add: bit_plane_word mult_div_mod_eq)

locale readable =
  fixes X :: "('s, 'z) rproxy_scheme"
    and P :: "'s \<Rightarrow> bool"
    and c :: "'s \<Rightarrow> sc_logic_value_t list"
  assumes read_nonempty: "P s \<Longrightarrow> c s \<noteq> []"
    and read_length: "P s \<Longrightarrow> px_length X s = length (c s)"
    and read_size: "P s \<Longrightarrow> px_size X s = word_count (length (c s))"
    and read_bit: "P s \<Longrightarrow> n < length (c s) \<Longrightarrow> px_get_bit X n s = Inr (c s ! n)"
    and read_word: "P s \<Longrightarrow> i < word_count (length (c s)) \<Longrightarrow> px_get pl X i s = Inr (plane_word pl (c s) i)"

text \<open>What can be written, cleaning or not.\<close>

locale writable =
  fixes X :: "store proxy"
    and sh :: shape
    and L :: "place list"
    and Os D :: "nat set"
  assumes places: "ready sh Os D s \<Longrightarrow> L \<noteq> [] \<and> (\<forall>l\<in>set L. valid sh l)"
    and distinct: "distinct L"
    and objects: "D \<subseteq> Os" "fst ` set L \<subseteq> Os"
    and length_law: "ready sh Os D s \<Longrightarrow> px_length X s = length L"
    and size_law: "ready sh Os D s \<Longrightarrow> px_size X s = word_count (length L)"
    and get_bit_law: "ready sh Os D s \<Longrightarrow> n < length L \<Longrightarrow> px_get_bit X n s = Inr (pval s (L ! n))"
    and set_bit_law: "ready sh Os D s \<Longrightarrow> n < length L \<Longrightarrow>
      \<exists>s'. px_set_bit X n x s = Inr s' \<and> moves sh {L ! n} s s' \<and> keeps_clean {} s s' \<and>
        (\<forall>pl. pbit pl s' (L ! n) \<longleftrightarrow> holds sh pl (L ! n) \<and> bit x (plane_index pl))"
    and get_word_law: "ready sh Os D s \<Longrightarrow> i < word_count (length L) \<Longrightarrow>
      \<exists>w. px_get pl X i s = Inr w \<and>
        (\<forall>n<length L. n div 32 = i \<longrightarrow> (bit w (n mod 32) \<longleftrightarrow> pbit pl s (L ! n))) \<and>
        ((\<forall>a\<in>Os. vec_clean (s a)) \<longrightarrow> tail_zero (length L) i w)"
    and set_word_law: "ready sh Os D s \<Longrightarrow> i < word_count (length L) \<Longrightarrow>
      \<exists>s'. px_put pl X i w s = Inr s' \<and> moves sh (word_places L i) s s' \<and> keeps_clean D s s' \<and>
        ((\<forall>a\<in>Os. vec_clean (s a)) \<longrightarrow> tail_zero (length L) i w \<longrightarrow> keeps_clean {} s s') \<and>
        (\<forall>pl' n. n < length L \<longrightarrow> n div 32 = i \<longrightarrow> (pbit pl' s' (L ! n) \<longleftrightarrow>
           (if pl' = pl then holds sh pl (L ! n) \<and> bit w (n mod 32) else pbit pl' s (L ! n))))"
    and clean_tail_law: "ready sh Os D s \<Longrightarrow>
      \<exists>s'. px_clean_tail X s = Inr s' \<and> moves sh {} s s' \<and> keeps_clean {} s s' \<and> (\<forall>a\<in>D. vec_clean (s' a))"

text \<open>A proxy can be read as the list of values of its places, when the store is clean.\<close>

definition store_fine :: "shape \<Rightarrow> store \<Rightarrow> bool" where
  "store_fine sh s \<longleftrightarrow> store_ok sh s \<and> store_clean s"

lemma store_fine_ready: "store_fine sh s \<Longrightarrow> ready sh Os D s"
  by (simp add: store_fine_def ready_def store_clean_def)

lemma index_below_count: "0 < n \<Longrightarrow> k < n \<Longrightarrow> k div 32 < word_count n"
  by (auto simp: word_count_def less_Suc_eq_le div_le_mono)

lemma word_count_bound: "0 < n \<Longrightarrow> n \<le> 32 * word_count n"
  using words_bound [of n] by (simp add: word_count_def)

definition clean_on :: "shape \<Rightarrow> nat set \<Rightarrow> store \<Rightarrow> bool" where
  "clean_on sh Os s \<longleftrightarrow> store_ok sh s \<and> (\<forall>a\<in>Os. vec_clean (s a))"

lemma readable_mono: "readable X P c \<Longrightarrow> (\<And>s. Q s \<Longrightarrow> P s) \<Longrightarrow> readable X Q c"
  unfolding readable_def by blast

context writable
begin

lemma reads_clean: "readable X (clean_on sh Os) (\<lambda>s. contents s L)"
proof unfold_locales
  fix s assume fine: "clean_on sh Os s"
  then have r: "ready sh Os D s" by (auto simp: clean_on_def ready_def)
  show "contents s L \<noteq> []" "px_length X s = length (contents s L)" "px_size X s = word_count (length (contents s L))"
    using places [OF r] length_law [OF r] size_law [OF r] by (simp_all add: contents_def)
  show "px_get_bit X n s = Inr (contents s L ! n)" if "n < length (contents s L)" for n
    using get_bit_law [OF r, of n] that by (simp add: contents_def)
  show "px_get pl X i s = Inr (plane_word pl (contents s L) i)" if i: "i < word_count (length (contents s L))" for pl i
  proof -
    obtain w where w: "px_get pl X i s = Inr w"
      "\<And>n. n < length L \<Longrightarrow> n div 32 = i \<Longrightarrow> bit w (n mod 32) \<longleftrightarrow> pbit pl s (L ! n)"
      "(\<forall>a\<in>Os. vec_clean (s a)) \<longrightarrow> tail_zero (length L) i w"
      using get_word_law [OF r, of i pl] i by auto
    have "w = plane_word pl (contents s L) i"
    proof (rule bit_word_eqI)
      fix k assume "k < LENGTH(32)"
      then have k: "k < 32" by simp
      have d: "(32 * i + k) div 32 = i" "(32 * i + k) mod 32 = k" using k by simp_all
      have z: "tail_zero (length L) i w" using w(3) fine by (simp add: clean_on_def)
      show "bit w k \<longleftrightarrow> bit (plane_word pl (contents s L) i) k"
      proof (cases "32 * i + k < length L")
        case True
        then show ?thesis using w(2) [of "32 * i + k"] d k by (simp add: bit_plane_word contents_def)
      next
        case False
        then show ?thesis using z d k unfolding tail_zero_def
          by (metis bit_plane_word length_contents_of not_less)
      qed
    qed
    then show ?thesis using w(1) by simp
  qed
qed

end

sublocale writable \<subseteq> read: readable X "store_fine sh" "\<lambda>s. contents s L"
  by (rule readable_mono [OF reads_clean]) (simp add: clean_on_def store_fine_def store_clean_def)

lemma frozen_readable: "readable X P c \<Longrightarrow> P s \<Longrightarrow> readable (frozen s X) (\<lambda>_. True) (\<lambda>_. c s)"
  by (auto simp: readable_def frozen_def px_get_def split: plane.splits)

section \<open>Parts of words\<close>

text \<open>What replacing the bits \<open>K\<close> of a word by those of \<open>x\<close> does.\<close>

definition replaced :: "shape \<Rightarrow> place list \<Rightarrow> nat set \<Rightarrow> nat set \<Rightarrow> plane \<Rightarrow> nat \<Rightarrow> (nat \<Rightarrow> bool) \<Rightarrow> u32 \<Rightarrow>
    store \<Rightarrow> store \<Rightarrow> bool" where
  "replaced sh L Os D pl i K x s s' \<longleftrightarrow>
     moves sh {L ! n | n. n < length L \<and> n div 32 = i \<and> K (n mod 32)} s s' \<and> keeps_clean D s s' \<and>
     ((\<forall>a\<in>Os. vec_clean (s a)) \<longrightarrow> (\<forall>n. length L \<le> n \<and> n div 32 = i \<and> K (n mod 32) \<longrightarrow> \<not> bit x (n mod 32)) \<longrightarrow>
        keeps_clean {} s s') \<and>
     (\<forall>pl' n. n < length L \<longrightarrow> n div 32 = i \<longrightarrow> K (n mod 32) \<longrightarrow> (pbit pl' s' (L ! n) \<longleftrightarrow>
        (if pl' = pl then holds sh pl (L ! n) \<and> bit x (n mod 32) else pbit pl' s (L ! n))))"

context writable
begin

lemma replace_bits:
  assumes "ready sh Os D s" "i < word_count (length L)" "px_get pl X i s = Inr t"
    and w: "\<And>k. k < 32 \<Longrightarrow> bit w k \<longleftrightarrow> (if K k then bit x k else bit t k)"
  shows "\<exists>s'. px_put pl X i w s = Inr s' \<and> replaced sh L Os D pl i K x s s'"
proof -
  have t: "\<And>n. n < length L \<Longrightarrow> n div 32 = i \<Longrightarrow> bit t (n mod 32) \<longleftrightarrow> pbit pl s (L ! n)"
    "(\<forall>a\<in>Os. vec_clean (s a)) \<longrightarrow> tail_zero (length L) i t"
    using get_word_law [OF assms(1,2), of pl] assms(3) by auto
  obtain s' where s': "px_put pl X i w s = Inr s'" "moves sh (word_places L i) s s'" "keeps_clean D s s'"
    "(\<forall>a\<in>Os. vec_clean (s a)) \<longrightarrow> tail_zero (length L) i w \<longrightarrow> keeps_clean {} s s'"
    "\<And>pl' n. n < length L \<Longrightarrow> n div 32 = i \<Longrightarrow> pbit pl' s' (L ! n) \<longleftrightarrow>
      (if pl' = pl then holds sh pl (L ! n) \<and> bit w (n mod 32) else pbit pl' s (L ! n))"
    using set_word_law [OF assms(1,2), of pl w] by blast
  have ok: "store_ok sh s" using assms(1) by (simp add: ready_def)
  let ?M = "{L ! n | n. n < length L \<and> n div 32 = i \<and> K (n mod 32)}"
  have "pbit pl' s' l = pbit pl' s l" if l: "valid sh l" "l \<notin> ?M" for pl' l
  proof (cases "l \<in> word_places L i")
    case True
    then obtain n where n: "l = L ! n" "n < length L" "n div 32 = i" "\<not> K (n mod 32)"
      using l(2) by (auto simp: word_places_def)
    then show ?thesis using s'(5) [OF n(2,3), of pl'] t(1) [OF n(2,3)] w [of "n mod 32"] pbit_holds [OF ok, of pl l]
      by auto
  next
    case False
    then show ?thesis using s'(2) l(1) unfolding moves_def by blast
  qed
  then have "moves sh ?M s s'" using s'(2) by (auto simp: moves_def)
  moreover have "keeps_clean {} s s'" if "\<forall>a\<in>Os. vec_clean (s a)"
    "\<forall>n. length L \<le> n \<and> n div 32 = i \<and> K (n mod 32) \<longrightarrow> \<not> bit x (n mod 32)"
    using s'(4) t(2) that w by (simp add: tail_zero_def)
  moreover have "pbit pl' s' (L ! n) \<longleftrightarrow>
      (if pl' = pl then holds sh pl (L ! n) \<and> bit x (n mod 32) else pbit pl' s (L ! n))"
    if "n < length L" "n div 32 = i" "K (n mod 32)" for pl' n
    using s'(5) [OF that(1,2), of pl'] w [of "n mod 32"] that(3) by simp
  ultimately show ?thesis using s'(1,3) unfolding replaced_def by blast
qed

end

lemma replacedD:
  assumes "replaced sh L Os D pl i K x s s'"
  shows "moves sh {L ! n | n. n < length L \<and> n div 32 = i \<and> K (n mod 32)} s s'" "keeps_clean D s s'"
    "\<forall>a\<in>Os. vec_clean (s a) \<Longrightarrow> (\<And>n. length L \<le> n \<Longrightarrow> n div 32 = i \<Longrightarrow> K (n mod 32) \<Longrightarrow> \<not> bit x (n mod 32)) \<Longrightarrow>
      keeps_clean {} s s'"
    "n < length L \<Longrightarrow> n div 32 = i \<Longrightarrow> K (n mod 32) \<Longrightarrow> pbit pl' s' (L ! n) \<longleftrightarrow>
      (if pl' = pl then holds sh pl (L ! n) \<and> bit x (n mod 32) else pbit pl' s (L ! n))"
  using assms unfolding replaced_def by blast+

section \<open>Whole vectors\<close>

definition places_of :: "shape \<Rightarrow> nat \<Rightarrow> place list" where
  "places_of sh a = map (Pair a) [0..<snd (sh a)]"

lemma places_of_simps [simp]:
  "length (places_of sh a) = snd (sh a)" "n < snd (sh a) \<Longrightarrow> places_of sh a ! n = (a, n)"
  by (simp_all add: places_of_def)

lemma store_okD:
  assumes "store_ok sh s"
  shows "vec_ok (s a)" "sh a = (v_kind (s a), v_len (s a))" "v_size (s a) = word_count (v_len (s a))"
  using assms by (auto simp: store_ok_def word_count_def vec_ok_def)

lemma on_vec_moves:
  assumes "store_ok sh s" "same_shape (s a) v"
    and "\<And>pl n. n < v_len (s a) \<Longrightarrow> (a, n) \<notin> M \<Longrightarrow> vec_bit pl v n = vec_bit pl (s a) n"
  shows "moves sh M s (s(a := v))"
  using assms store_okD(2) [OF assms(1), of a]
  by (auto simp: moves_def store_ok_def same_shape_def pbit_def valid_def)

lemma vec_bit_word: "vec_bit pl v n \<longleftrightarrow> bit (vec_word pl v (n div 32)) (n mod 32)"
  by (simp add: vec_bit_def)

interpretation whole: writable "whole a" sh "places_of sh a" "{a}" "{a}" for sh a
proof unfold_locales
  fix s assume r: "ready sh {a} {a} s"
  then have ok: "store_ok sh s" by (simp add: ready_def)
  note v = store_okD [OF ok, of a]
  show "places_of sh a \<noteq> [] \<and> (\<forall>l\<in>set (places_of sh a). valid sh l)"
    using v by (auto simp: places_of_def valid_def vec_ok_def)
  show "px_length (whole a) s = length (places_of sh a)" "px_size (whole a) s = word_count (length (places_of sh a))"
    using v by (simp_all add: whole_def)
  show "px_get_bit (whole a) n s = Inr (pval s (places_of sh a ! n))" if "n < length (places_of sh a)" for n
    using that v vec_get_bit_ok [OF v(1)] by (simp add: whole_def pval_def)
  show "\<exists>s'. px_set_bit (whole a) n x s = Inr s' \<and> moves sh {places_of sh a ! n} s s' \<and> keeps_clean {} s s' \<and>
      (\<forall>pl. pbit pl s' (places_of sh a ! n) \<longleftrightarrow> holds sh pl (places_of sh a ! n) \<and> bit x (plane_index pl))"
    if "n < length (places_of sh a)" for n x
  proof -
    have n: "n < v_len (s a)" using that v(2) by simp
    obtain v' where v': "vec_set_bit n x (s a) = Inr v'" "same_shape (s a) v'"
      "\<And>pl m. m < 32 * v_size (s a) \<Longrightarrow> vec_bit pl v' m \<longleftrightarrow>
        (if m = n then kind_holds (v_kind (s a)) pl \<and> bit x (plane_index pl) else vec_bit pl (s a) m)"
      using vec_set_bit_ok [OF v(1) n] by metis
    have len: "v_len (s a) \<le> 32 * v_size (s a)" using len_le_size [OF v(1)] .
    have "moves sh {(a, n)} s (s(a := v'))"
      by (rule on_vec_moves [OF ok v'(2)]) (use v'(3) len in auto)
    moreover have "vec_clean (s a) \<Longrightarrow> vec_clean v'"
      using v'(2,3) n same_shape_size [OF v'(2) v(1)] by (auto simp: vec_clean_def same_shape_def)
    ultimately show ?thesis using v'(1,3) n len v(2)
      by (auto simp: whole_def on_vec_def keeps_clean_def pbit_def holds_def)
  qed
  show "\<exists>w. px_get pl (whole a) i s = Inr w \<and>
      (\<forall>n<length (places_of sh a). n div 32 = i \<longrightarrow> (bit w (n mod 32) \<longleftrightarrow> pbit pl s (places_of sh a ! n))) \<and>
      ((\<forall>a\<in>{a}. vec_clean (s a)) \<longrightarrow> tail_zero (length (places_of sh a)) i w)"
    if "i < word_count (length (places_of sh a))" for i pl
  proof -
    have i: "i < v_size (s a)" using that v by simp
    have "px_get pl (whole a) i s = vec_get pl i (s a)"
      by (cases pl) (simp_all add: px_get_def vec_get_def whole_def)
    then have "px_get pl (whole a) i s = Inr (vec_word pl (s a) i)" using vec_get_ok [OF v(1) i] by simp
    moreover have "tail_zero (v_len (s a)) i (vec_word pl (s a) i)" if "vec_clean (s a)"
      using that i word_index_iff [OF v(1)] by (auto simp: tail_zero_def vec_clean_def vec_bit_def)
    ultimately show ?thesis using v(2) by (auto simp: pbit_def vec_bit_def)
  qed
  show "\<exists>s'. px_put pl (whole a) i w s = Inr s' \<and> moves sh (word_places (places_of sh a) i) s s' \<and> keeps_clean {a} s s' \<and>
      ((\<forall>a\<in>{a}. vec_clean (s a)) \<longrightarrow> tail_zero (length (places_of sh a)) i w \<longrightarrow> keeps_clean {} s s') \<and>
      (\<forall>pl' n. n < length (places_of sh a) \<longrightarrow> n div 32 = i \<longrightarrow> (pbit pl' s' (places_of sh a ! n) \<longleftrightarrow>
         (if pl' = pl then holds sh pl (places_of sh a ! n) \<and> bit w (n mod 32) else pbit pl' s (places_of sh a ! n))))"
    if "i < word_count (length (places_of sh a))" for i pl w
  proof -
    have i: "i < v_size (s a)" using that v by simp
    obtain v' where v': "vec_put pl i w (s a) = Inr v'" "same_shape (s a) v'"
      "\<And>pl' j. vec_word pl' v' j = (if pl' = pl \<and> j = i then if kind_holds (v_kind (s a)) pl then w else 0
        else vec_word pl' (s a) j)" using vec_put_ok [OF v(1) i] by metis
    have bits: "vec_bit pl' v' n \<longleftrightarrow> (if pl' = pl \<and> n div 32 = i then kind_holds (v_kind (s a)) pl \<and> bit w (n mod 32)
        else vec_bit pl' (s a) n)" for pl' n using v'(3) by (simp add: vec_bit_def)
    have "px_put pl (whole a) i w s = Inr (s(a := v'))"
      using v'(1) by (cases pl) (simp_all add: px_put_def vec_put_def whole_def on_vec_def)
    moreover have "moves sh (word_places (places_of sh a) i) s (s(a := v'))"
      by (rule on_vec_moves [OF ok v'(2)]) (use v(2) in \<open>auto simp: bits word_places_def\<close>)
    moreover have "tail_zero (v_len (s a)) i w \<Longrightarrow> vec_clean (s a) \<Longrightarrow> vec_clean v'"
      using same_shape_size [OF v'(2) v(1)] v'(2)
      by (auto simp: vec_clean_def bits tail_zero_def same_shape_def split: if_splits)
    ultimately show ?thesis using v(2) by (auto simp: keeps_clean_def pbit_def holds_def bits)
  qed
  show "\<exists>s'. px_clean_tail (whole a) s = Inr s' \<and> moves sh {} s s' \<and> keeps_clean {} s s' \<and> (\<forall>a\<in>{a}. vec_clean (s' a))"
  proof -
    obtain v' where v': "vec_clean_tail (s a) = Inr v'" "same_shape (s a) v'" "vec_clean v'"
      "\<And>pl n. n < v_len (s a) \<Longrightarrow> vec_bit pl v' n = vec_bit pl (s a) n" using vec_clean_tail_ok [OF v(1)] by metis
    have "moves sh {} s (s(a := v'))" by (rule on_vec_moves [OF ok v'(2)]) (use v'(4) in auto)
    then show ?thesis using v'(1,3) by (auto simp: whole_def on_vec_def keeps_clean_def)
  qed
qed (auto simp: places_of_def distinct_map inj_on_def)

section \<open>One bit\<close>

lemma ready_mono: "ready sh Os {} s \<Longrightarrow> ready sh Os D s"
  by (simp add: ready_def)

lemma bit_one_bit: "k < 32 \<Longrightarrow> j < 32 \<Longrightarrow> bit (one_bit k t w) j \<longleftrightarrow> (if j = k then bit w 0 else bit t j)"
  by (auto simp: one_bit_def bit_and_iff bit_or_iff bit_not_iff bit_push_bit_iff bit_exp_iff bit_1_iff not_less)

lemma bit_logic_word: "bit (logic_word v) k \<longleftrightarrow> (k = 0 \<and> data_bit v) \<or> (k = 1 \<and> ctrl_bit v)"
proof -
  have "bit (3 :: u32) k \<longleftrightarrow> k = 0 \<or> k = 1" by (cases k) (auto simp: bit_Suc bit_1_iff)
  then show ?thesis
    by (cases v) (auto simp: logic_word_def data_bit_def ctrl_bit_def bit_1_iff bit_2_iff)
qed

lemma bit_logic_word_parts:
  "bit (logic_word v AND 1) k \<longleftrightarrow> k = 0 \<and> data_bit v"
  "bit (drop_bit (Suc 0) (logic_word v) AND 1) k \<longleftrightarrow> k = 0 \<and> ctrl_bit v"
  by (auto simp: bit_and_iff bit_drop_bit_eq bit_logic_word bit_1_iff)

lemma word_count_1: "word_count 1 = 1" "i < word_count (Suc 0) \<longleftrightarrow> i = 0"
  by (auto simp: word_count_def)

lemma bitref_get:
  "px_get pl (bitref X idx) 0 s = bind_result (px_get_bit X idx s)
     (\<lambda>v. Inr (case pl of Data \<Rightarrow> logic_word v AND 1 | Ctrl \<Rightarrow> drop_bit 1 (logic_word v AND 2)))"
  by (cases pl) (simp_all add: px_get_def bitref_def bitref_get_word_def bitref_get_cword_def bitref_get_bit_def)

lemma bitref_put:
  "px_put pl (bitref X idx) 0 w s = bind_result (px_get pl X (idx div 32) s)
     (\<lambda>t. px_put pl X (idx div 32) (one_bit (idx mod 32) t w) s)"
  by (cases pl) (simp_all add: px_put_def px_get_def bitref_def bitref_set_word_def bitref_set_cword_def Let_def)

lemma bitref_writable:
  assumes X: "writable X sh L Os D" and idx: "idx < length L"
  shows "writable (bitref X idx) sh [L ! idx] Os {}"
proof unfold_locales
  fix s assume "ready sh Os {} s"
  then have r: "ready sh Os D s" and clean: "\<forall>a\<in>Os. vec_clean (s a)" by (auto simp: ready_def)
  have i: "idx div 32 < word_count (length L)" using idx by (intro index_below_count) auto
  note [simp] = word_count_1
  show "[L ! idx] \<noteq> [] \<and> (\<forall>l\<in>set [L ! idx]. valid sh l)"
    using writable.places [OF X r] idx by simp
  show "px_length (bitref X idx) s = length [L ! idx]" "px_size (bitref X idx) s = word_count (length [L ! idx])"
    by (simp_all add: bitref_def)
  show "px_get_bit (bitref X idx) n s = Inr (pval s ([L ! idx] ! n))" if "n < length [L ! idx]" for n
    using that writable.get_bit_law [OF X r idx] by (simp add: bitref_def bitref_get_bit_def)
  show "\<exists>s'. px_set_bit (bitref X idx) n x s = Inr s' \<and> moves sh {[L ! idx] ! n} s s' \<and> keeps_clean {} s s' \<and>
      (\<forall>pl. pbit pl s' ([L ! idx] ! n) \<longleftrightarrow> holds sh pl ([L ! idx] ! n) \<and> bit x (plane_index pl))"
    if "n < length [L ! idx]" for n x
    using that writable.set_bit_law [OF X r idx, of x] by (simp add: bitref_def bitref_set_bit_def)
  show "\<exists>w. px_get pl (bitref X idx) i s = Inr w \<and>
      (\<forall>n<length [L ! idx]. n div 32 = i \<longrightarrow> (bit w (n mod 32) \<longleftrightarrow> pbit pl s ([L ! idx] ! n))) \<and>
      ((\<forall>a\<in>Os. vec_clean (s a)) \<longrightarrow> tail_zero (length [L ! idx]) i w)"
    if "i < word_count (length [L ! idx])" for i pl
  proof -
    have v: "plane_bit pl (pval s (L ! idx)) = pbit pl s (L ! idx)" by simp
    show ?thesis using that writable.get_bit_law [OF X r idx] v
      by (cases pl) (auto simp: bitref_get bit_logic_word_parts plane_bit_def tail_zero_def)
  qed
  show "\<exists>s'. px_put pl (bitref X idx) i w s = Inr s' \<and> moves sh (word_places [L ! idx] i) s s' \<and> keeps_clean {} s s' \<and>
      ((\<forall>a\<in>Os. vec_clean (s a)) \<longrightarrow> tail_zero (length [L ! idx]) i w \<longrightarrow> keeps_clean {} s s') \<and>
      (\<forall>pl' n. n < length [L ! idx] \<longrightarrow> n div 32 = i \<longrightarrow> (pbit pl' s' ([L ! idx] ! n) \<longleftrightarrow>
         (if pl' = pl then holds sh pl ([L ! idx] ! n) \<and> bit w (n mod 32) else pbit pl' s ([L ! idx] ! n))))"
    if i0: "i < word_count (length [L ! idx])" for i pl w
  proof -
    obtain t where t: "px_get pl X (idx div 32) s = Inr t" using writable.get_word_law [OF X r i, of pl] by blast
    define x where "x = push_bit (idx mod 32) (w AND 1)"
    have x: "bit x k \<longleftrightarrow> k = idx mod 32 \<and> bit w 0" if "k < 32" for k
      using that by (auto simp: x_def bit_push_bit_iff bit_and_iff bit_1_iff simp del: push_bit_and)
    have bits: "bit (one_bit (idx mod 32) t w) k \<longleftrightarrow> (if k = idx mod 32 then bit x k else bit t k)" if "k < 32" for k
      using that by (simp add: bit_one_bit x)
    obtain s' where put: "px_put pl X (idx div 32) (one_bit (idx mod 32) t w) s = Inr s'"
      and rep: "replaced sh L Os D pl (idx div 32) (\<lambda>k. k = idx mod 32) x s s'"
      using writable.replace_bits [OF X r i t bits] by blast
    have only: "{L ! n | n. n < length L \<and> n div 32 = idx div 32 \<and> n mod 32 = idx mod 32} = {L ! idx}"
      using idx div_mod_eq_iff by blast
    note s' = put replacedD [OF rep, unfolded only]
    have "keeps_clean {} s s'"
    proof (rule s'(4) [OF clean])
      show "\<not> bit x (n mod 32)"
        if "length L \<le> n" "n div 32 = idx div 32" "n mod 32 = idx mod 32" for n
        using that idx div_mod_eq_iff [of n idx] by simp
    qed
    moreover have "word_places [L ! idx] 0 = {L ! idx}" by (auto simp: word_places_def)
    moreover have "bit x (idx mod 32) = bit w 0" by (simp add: x)
    ultimately show ?thesis using i0 t put s'(2) s'(5) [OF idx refl refl] by (simp add: bitref_put)
  qed
  show "\<exists>s'. px_clean_tail (bitref X idx) s = Inr s' \<and> moves sh {} s s' \<and> keeps_clean {} s s' \<and> (\<forall>a\<in>{}. vec_clean (s' a))"
    using writable.clean_tail_law [OF X r] by (auto simp: bitref_def)
qed (use idx writable.objects [OF X] in auto)

section \<open>A part\<close>

definition part_pos :: "nat \<Rightarrow> nat \<Rightarrow> nat \<Rightarrow> nat" where
  "part_pos hi lo n = (if part_reversed hi lo then lo - n else lo + n)"

definition part_places :: "nat \<Rightarrow> nat \<Rightarrow> place list \<Rightarrow> place list" where
  "part_places hi lo L = map (\<lambda>n. L ! part_pos hi lo n) [0..<part_length hi lo]"

lemma part_places_simps [simp]:
  "length (part_places hi lo L) = part_length hi lo"
  "n < part_length hi lo \<Longrightarrow> part_places hi lo L ! n = L ! part_pos hi lo n"
  by (simp_all add: part_places_def)

lemma part_pos_less: "hi < m \<Longrightarrow> lo < m \<Longrightarrow> n < part_length hi lo \<Longrightarrow> part_pos hi lo n < m"
  by (auto simp: part_pos_def part_length_def part_reversed_def split: if_splits)

lemma part_pos_inj:
  "m < part_length hi lo \<Longrightarrow> n < part_length hi lo \<Longrightarrow> part_pos hi lo m = part_pos hi lo n \<longleftrightarrow> m = n"
  by (auto simp: part_pos_def part_length_def part_reversed_def split: if_splits)

lemma part_length_pos [simp]: "0 < part_length hi lo"
  by (simp add: part_length_def)

lemma part_index_pos: "n < part_length hi lo \<Longrightarrow> part_index hi lo n = Inr (part_pos hi lo n)"
  by (auto simp: part_index_def part_pos_def part_length_def part_reversed_def)

lemma upt_shift: "[a..<a + m] = map (\<lambda>k. a + k) [0..<m]"
  by (induction m) simp_all

lemma upt_shift_map: "[a + b..<a + c] = map (\<lambda>n. a + n) [b..<c]"
  by (induction c) (auto simp: not_le)

lemma part_word_eq: "part_word hi lo i = map (part_pos hi lo) [32 * i..<min (32 * i + 32) (part_length hi lo)]"
proof (cases "part_reversed hi lo")
  case True
  define m where "m = min 32 (part_length hi lo - 32 * i)"
  have "part_word hi lo i = map (\<lambda>k. lo - (32 * i + k)) [0..<m]"
  proof -
    have "nat ((int lo - int i * 32) - max (int lo - int i * 32 - 32) (int hi - 1)) = m"
      using True by (auto simp: m_def part_length_def part_reversed_def max_def min_def)
    then show ?thesis using True
      by (simp add: part_word_def Let_def nat_diff_distrib' flip: of_nat_add of_nat_mult) (simp add: nat_minus_as_int mult.commute)
  qed
  moreover have "[32 * i..<min (32 * i + 32) (part_length hi lo)] = map (\<lambda>k. 32 * i + k) [0..<m]"
    using upt_shift [of "32 * i" m] by (cases "32 * i \<le> part_length hi lo") (auto simp: m_def min_def)
  ultimately show ?thesis using True by (simp add: part_pos_def comp_def)
next
  case False
  then have "part_pos hi lo = (\<lambda>n. lo + n)" by (simp add: part_pos_def fun_eq_iff)
  moreover have "lo + min (32 * i + 32) (part_length hi lo) = min (lo + i * 32 + 32) (hi + 1)"
    using False by (auto simp: part_length_def part_reversed_def min_def)
  ultimately show ?thesis
    using False upt_shift_map [of lo "32 * i" "min (32 * i + 32) (part_length hi lo)"]
    by (simp add: part_word_def Let_def mult.commute)
qed

text \<open>The loop that collects the bits of a word, and the loop that stores them.\<close>

lemma collect_loop:
  assumes "\<And>n. n \<in> set ns \<Longrightarrow> get n = Inr (v n)" "\<And>x j. bit (f x :: u32) j \<longleftrightarrow> j = 0 \<and> g x" "k + length ns \<le> 32"
  shows "\<exists>r'. for_each (\<lambda>n (k, r). bind_result (get n) (\<lambda>x. Inr (k + 1, r OR push_bit k (f x)))) ns (k, r) =
      Inr (k + length ns, r') \<and>
    (\<forall>j<32. bit r' j \<longleftrightarrow> bit r j \<or> (k \<le> j \<and> j < k + length ns \<and> g (v (ns ! (j - k)))))"
  using assms
proof (induction ns arbitrary: k r)
  case (Cons n ns)
  let ?r = "r OR push_bit k (f (v n))"
  have "k + 1 + length ns \<le> 32" using Cons.prems(3) by simp
  then obtain r' where r': "for_each (\<lambda>n (k, r). bind_result (get n) (\<lambda>x. Inr (k + 1, r OR push_bit k (f x)))) ns (k + 1, ?r) =
      Inr (k + 1 + length ns, r')"
    "\<forall>j<32. bit r' j \<longleftrightarrow> bit ?r j \<or> (k + 1 \<le> j \<and> j < k + 1 + length ns \<and> g (v (ns ! (j - (k + 1)))))"
    using Cons.IH [of "k + 1" ?r] Cons.prems(1,2) by auto
  have bits: "bit ?r j \<longleftrightarrow> bit r j \<or> (j = k \<and> g (v n))" if "j < 32" for j
    using that Cons.prems(2) by (auto simp: bit_or_iff bit_push_bit_iff)
  have "bit r' j \<longleftrightarrow> bit r j \<or> (k \<le> j \<and> j < k + length (n # ns) \<and> g (v ((n # ns) ! (j - k))))" if "j < 32" for j
  proof (cases "j \<le> k")
    case True
    then show ?thesis using r'(2) bits that by (cases "j = k") auto
  next
    case False
    then have "(n # ns) ! (j - k) = ns ! (j - (k + 1))" by (simp add: nth_Cons')
    then show ?thesis using False r'(2) bits that by auto
  qed
  then show ?case using Cons.prems(1) r'(1) by simp
qed auto

definition place_bit :: "plane \<Rightarrow> nat \<Rightarrow> u32 \<Rightarrow> sc_logic_value_t \<Rightarrow> u32" where
  "place_bit pl k w v = (case pl of Data \<Rightarrow> (drop_bit k w AND 1) OR (logic_word v AND 2)
     | Ctrl \<Rightarrow> push_bit 1 (drop_bit k w AND 1) OR (logic_word v AND 1))"

lemma bit_place_bit: "bit (place_bit pl k w v) (plane_index pl') \<longleftrightarrow> (if pl' = pl then bit w k else plane_bit pl' v)"
proof -
  have "bit (2 :: u32) (Suc 0)" "\<not> bit (2 :: u32) 0" by (simp_all add: bit_2_iff)
  moreover have "bit (push_bit 1 x AND 2 :: u32) (Suc 0) = bit x 0" "\<not> bit (push_bit 1 x :: u32) 0" for x :: u32
    by (simp_all only: bit_and_iff bit_push_bit_iff) (simp_all add: bit_2_iff)
  ultimately show ?thesis
    by (cases pl; cases pl') (auto simp: place_bit_def plane_bit_def bit_or_iff bit_and_iff bit_drop_bit_eq
        bit_push_bit_iff bit_logic_word bit_1_iff simp del: push_bit_Suc simp flip: bit_0)
qed

lemma store_loop:
  assumes "writable X sh L Os D" "ready sh Os {} s" "set ns \<subseteq> {..<length L}" "List.distinct ns"
  shows "\<exists>s'. for_each (\<lambda>n (k, s). bind_result (px_get_bit X n s) (\<lambda>v.
      bind_result (px_set_bit X n (place_bit pl k w v) s) (\<lambda>s. Inr (k + 1, s)))) ns (k, s) = Inr (k + length ns, s') \<and>
    moves sh ((\<lambda>n. L ! n) ` set ns) s s' \<and> keeps_clean {} s s' \<and>
    (\<forall>pl' j. j < length ns \<longrightarrow> (pbit pl' s' (L ! (ns ! j)) \<longleftrightarrow>
       (if pl' = pl then holds sh pl (L ! (ns ! j)) \<and> bit w (k + j) else pbit pl' s (L ! (ns ! j)))))"
  using assms(2-)
proof (induction ns arbitrary: k s)
  case Nil
  then show ?case by (simp add: ready_def moves_refl)
next
  case (Cons n ns)
  have r: "ready sh Os D s" and ok: "store_ok sh s" using Cons.prems(1) by (auto simp: ready_def)
  have n: "n < length L" using Cons.prems(2) by simp
  let ?x = "place_bit pl k w (pval s (L ! n))"
  obtain s1 where s1: "px_set_bit X n ?x s = Inr s1" "moves sh {L ! n} s s1" "keeps_clean {} s s1"
    "\<And>pl'. pbit pl' s1 (L ! n) \<longleftrightarrow> holds sh pl' (L ! n) \<and> bit ?x (plane_index pl')"
    using writable.set_bit_law [OF assms(1) r n] by blast
  have "ready sh Os {} s1" using ready_step [OF Cons.prems(1) s1(2)] s1(3) by simp
  then obtain s' where s': "for_each (\<lambda>n (k, s). bind_result (px_get_bit X n s) (\<lambda>v.
      bind_result (px_set_bit X n (place_bit pl k w v) s) (\<lambda>s. Inr (k + 1, s)))) ns (k + 1, s1) = Inr (k + 1 + length ns, s')"
    "moves sh ((\<lambda>n. L ! n) ` set ns) s1 s'" "keeps_clean {} s1 s'"
    "\<And>pl' j. j < length ns \<Longrightarrow> pbit pl' s' (L ! (ns ! j)) \<longleftrightarrow>
       (if pl' = pl then holds sh pl (L ! (ns ! j)) \<and> bit w (k + 1 + j) else pbit pl' s1 (L ! (ns ! j)))"
    using Cons.IH [of s1 "k + 1"] Cons.prems(2,3) by auto
  have val: "valid sh (L ! m)" if "m < length L" for m using writable.places [OF assms(1) r] that by auto
  have inj: "L ! m = L ! m' \<longleftrightarrow> m = m'" if "m < length L" "m' < length L" for m m'
    using nth_eq_iff_index_eq [OF writable.distinct [OF assms(1)] that] .
  have "pbit pl' s' (L ! ((n # ns) ! j)) \<longleftrightarrow>
      (if pl' = pl then holds sh pl (L ! ((n # ns) ! j)) \<and> bit w (k + j) else pbit pl' s (L ! ((n # ns) ! j)))"
    if j: "j < length (n # ns)" for pl' j
  proof (cases j)
    case 0
    have "L ! n \<notin> (\<lambda>n. L ! n) ` set ns" using Cons.prems(2,3) inj n by auto
    then have "pbit pl' s' (L ! n) = pbit pl' s1 (L ! n)" using s'(2) val [OF n] unfolding moves_def by blast
    then show ?thesis using 0 s1(4) pbit_holds [OF ok, of _ "L ! n"] by (auto simp: bit_place_bit)
  next
    case (Suc i)
    then have m: "i < length ns" "ns ! i \<in> set ns" using j by simp_all
    then have len: "ns ! i < length L" using subsetD [OF Cons.prems(2), of "ns ! i"] by simp
    have "ns ! i \<noteq> n" using m(2) Cons.prems(3) by (metis distinct.simps(2))
    then have "L ! (ns ! i) \<noteq> L ! n" using inj n len by simp
    then have "pbit pl' s1 (L ! (ns ! i)) = pbit pl' s (L ! (ns ! i))"
      using s1(2) val [OF len] unfolding moves_def by blast
    then show ?thesis using s'(4) [OF m(1)] Suc by simp
  qed
  moreover have "moves sh ((\<lambda>n. L ! n) ` set (n # ns)) s s'"
    by (rule moves_trans [OF s1(2) s'(2)]) auto
  moreover have "keeps_clean {} s s'" using keeps_clean_trans [OF s1(3) s'(3)] by simp
  ultimately show ?case using writable.get_bit_law [OF assms(1) r n] s1(1) s'(1) by simp
qed

definition plane_of :: "plane \<Rightarrow> sc_logic_value_t \<Rightarrow> u32" where
  "plane_of pl v = (case pl of Data \<Rightarrow> logic_word v AND 1 | Ctrl \<Rightarrow> drop_bit 1 (logic_word v AND 2))"

lemma bit_plane_of: "bit (plane_of pl v) j \<longleftrightarrow> j = 0 \<and> plane_bit pl v"
  by (cases pl) (simp_all add: plane_of_def bit_logic_word_parts plane_bit_def)

lemma subref_get:
  "px_get pl (subref X hi lo) i s = bind_result
     (for_each (\<lambda>n (k, r). bind_result (px_get_bit X n s) (\<lambda>v. Inr (k + 1, r OR push_bit k (plane_of pl v))))
       (part_word hi lo i) (0, 0)) (\<lambda>(k, r). Inr r)"
  by (cases pl) (simp_all add: px_get_def subref_def subref_get_word_def subref_get_cword_def plane_of_def)

lemma subref_put:
  "px_put pl (subref X hi lo) i w s = bind_result
     (for_each (\<lambda>n (k, s). bind_result (px_get_bit X n s) (\<lambda>v.
        bind_result (px_set_bit X n (place_bit pl k w v) s) (\<lambda>s. Inr (k + 1, s)))) (part_word hi lo i) (0, s))
     (\<lambda>(k, s). Inr s)"
  by (cases pl) (simp_all add: px_put_def subref_def subref_set_word_def subref_set_cword_def place_bit_def)

lemma subref_writable:
  assumes X: "writable X sh L Os D" and hi: "hi < length L" and lo: "lo < length L"
  shows "writable (subref X hi lo) sh (part_places hi lo L) Os {}"
proof unfold_locales
  let ?m = "part_length hi lo" and ?pos = "part_pos hi lo" and ?P = "part_places hi lo L"
  fix s assume r0: "ready sh Os {} s"
  then have r: "ready sh Os D s" by (rule ready_mono)
  have pos: "?pos n < length L" if "n < ?m" for n using part_pos_less [OF hi lo that] .
  show "?P \<noteq> [] \<and> (\<forall>l\<in>set ?P. valid sh l)"
    using writable.places [OF X r] pos part_length_pos [of hi lo] by (auto simp: part_places_def simp del: part_length_pos)
  show "px_length (subref X hi lo) s = length ?P" "px_size (subref X hi lo) s = word_count (length ?P)"
    by (simp_all add: subref_def)
  show "px_get_bit (subref X hi lo) n s = Inr (pval s (?P ! n))" if "n < length ?P" for n
    using that writable.get_bit_law [OF X r pos] by (simp add: subref_def subref_get_bit_def part_index_pos)
  show "\<exists>s'. px_set_bit (subref X hi lo) n x s = Inr s' \<and> moves sh {?P ! n} s s' \<and> keeps_clean {} s s' \<and>
      (\<forall>pl. pbit pl s' (?P ! n) \<longleftrightarrow> holds sh pl (?P ! n) \<and> bit x (plane_index pl))"
    if "n < length ?P" for n x
    using that writable.set_bit_law [OF X r pos, of n x] by (simp add: subref_def subref_set_bit_def part_index_pos)
  show "\<exists>s'. px_clean_tail (subref X hi lo) s = Inr s' \<and> moves sh {} s s' \<and> keeps_clean {} s s' \<and> (\<forall>a\<in>{}. vec_clean (s' a))"
    using writable.clean_tail_law [OF X r] by (auto simp: subref_def)
  fix i assume "i < word_count (length ?P)"
  define ns where "ns = part_word hi lo i"
  have ns: "ns = map ?pos [32 * i..<min (32 * i + 32) ?m]" by (simp add: ns_def part_word_eq)
  have len: "length ns = min (32 * i + 32) ?m - 32 * i" "length ns \<le> 32" by (simp_all add: ns)
  have at: "ns ! (n mod 32) = ?pos n" "n mod 32 < length ns" if "n < ?m" "n div 32 = i" for n
  proof -
    have "n = 32 * i + n mod 32" using that(2) div_mult_mod_eq [of n 32] by simp
    then show "n mod 32 < length ns" using that(1) mod_less_divisor [of 32 n] len(1) by linarith
    then have "n mod 32 < min (32 * i + 32) ?m - 32 * i" by (simp add: len)
    then have "[32 * i..<min (32 * i + 32) ?m] ! (n mod 32) = 32 * i + n mod 32" by (intro nth_upt) linarith
    then show "ns ! (n mod 32) = ?pos n" using \<open>n = 32 * i + n mod 32\<close> \<open>n mod 32 < length ns\<close>
      by (simp only: ns nth_map length_map)
  qed
  have sub: "set ns \<subseteq> {..<length L}" using pos by (auto simp: ns)
  show "\<exists>w. px_get pl (subref X hi lo) i s = Inr w \<and>
      (\<forall>n<length ?P. n div 32 = i \<longrightarrow> (bit w (n mod 32) \<longleftrightarrow> pbit pl s (?P ! n))) \<and>
      ((\<forall>a\<in>Os. vec_clean (s a)) \<longrightarrow> tail_zero (length ?P) i w)" for pl
  proof -
    have "px_get_bit X n s = Inr (pval s (L ! n))" if "n \<in> set ns" for n
      using writable.get_bit_law [OF X r, of n] sub that by auto
    then obtain w where w: "for_each (\<lambda>n (k, r). bind_result (px_get_bit X n s) (\<lambda>v.
        Inr (k + 1, r OR push_bit k (plane_of pl v)))) ns (0, 0) = Inr (0 + length ns, w)"
      "\<And>j. j < 32 \<Longrightarrow> bit w j \<longleftrightarrow> bit (0 :: u32) j \<or>
        (0 \<le> j \<and> j < 0 + length ns \<and> plane_bit pl (pval s (L ! (ns ! (j - 0)))))"
      using collect_loop [of ns "\<lambda>n. px_get_bit X n s" "\<lambda>n. pval s (L ! n)" "plane_of pl" "plane_bit pl" 0 0]
        bit_plane_of len(2) by auto
    have "\<not> bit w (n mod 32)" if "?m \<le> n" "n div 32 = i" for n
    proof -
      have "n = 32 * i + n mod 32" using that(2) div_mult_mod_eq [of n 32] by simp
      then have "\<not> n mod 32 < length ns" using that(1) len(1) by linarith
      then show ?thesis using w(2) [of "n mod 32"] by simp
    qed
    then show ?thesis using w at by (simp add: subref_get ns_def [symmetric] tail_zero_def)
  qed
  show "\<exists>s'. px_put pl (subref X hi lo) i w s = Inr s' \<and> moves sh (word_places ?P i) s s' \<and> keeps_clean {} s s' \<and>
      ((\<forall>a\<in>Os. vec_clean (s a)) \<longrightarrow> tail_zero (length ?P) i w \<longrightarrow> keeps_clean {} s s') \<and>
      (\<forall>pl' n. n < length ?P \<longrightarrow> n div 32 = i \<longrightarrow> (pbit pl' s' (?P ! n) \<longleftrightarrow>
         (if pl' = pl then holds sh pl (?P ! n) \<and> bit w (n mod 32) else pbit pl' s (?P ! n))))" for pl w
  proof -
    have "List.distinct ns" by (auto simp: ns distinct_map inj_on_def part_pos_inj)
    then obtain s' where s': "for_each (\<lambda>n (k, s). bind_result (px_get_bit X n s) (\<lambda>v.
        bind_result (px_set_bit X n (place_bit pl k w v) s) (\<lambda>s. Inr (k + 1, s)))) ns (0, s) = Inr (0 + length ns, s')"
      "moves sh ((\<lambda>n. L ! n) ` set ns) s s'" "keeps_clean {} s s'"
      "\<And>pl' j. j < length ns \<Longrightarrow> pbit pl' s' (L ! (ns ! j)) \<longleftrightarrow>
         (if pl' = pl then holds sh pl (L ! (ns ! j)) \<and> bit w (0 + j) else pbit pl' s (L ! (ns ! j)))"
      using store_loop [OF X r0 sub, of pl w 0] by blast
    have "L ! ?pos n \<in> word_places ?P i" if "n \<in> {32 * i..<min (32 * i + 32) ?m}" for n
    proof -
      have "n < ?m" "n div 32 = i" using that by auto
      then have "n < length ?P \<and> n div 32 = i \<and> L ! ?pos n = ?P ! n" by simp
      then show ?thesis unfolding word_places_def by blast
    qed
    then have "(\<lambda>n. L ! n) ` set ns \<subseteq> word_places ?P i" by (auto simp: ns)
    then have "moves sh (word_places ?P i) s s'" using moves_mono [OF s'(2)] by simp
    moreover have "pbit pl' s' (?P ! n) \<longleftrightarrow>
        (if pl' = pl then holds sh pl (?P ! n) \<and> bit w (n mod 32) else pbit pl' s (?P ! n))"
      if "n < length ?P" "n div 32 = i" for pl' n
      using s'(4) [OF at(2), of n pl'] at [of n] that by simp
    ultimately show ?thesis using s'(1,3) by (auto simp: subref_put ns_def [symmetric])
  qed
qed (use hi lo writable.objects [OF X] writable.distinct [OF X] part_pos_less [OF hi lo] in
    \<open>auto simp: part_places_def distinct_map inj_on_def nth_eq_iff_index_eq part_pos_inj\<close>)

section \<open>A concatenation\<close>

text \<open>Positions of the left operand behind a right operand of \<open>32 * b + f\<close> bits.\<close>

lemma behind_div_mod:
  fixes p b f :: nat
  assumes "f < 32"
  shows "(32 * b + f + p) div 32 = b + p div 32 + (if p mod 32 < 32 - f then 0 else 1)"
    and "(32 * b + f + p) mod 32 = (if p mod 32 < 32 - f then p mod 32 + f else p mod 32 + f - 32)"
proof -
  define q r where "q = p div 32" and "r = p mod 32"
  have p: "p = 32 * q + r" and r: "r < 32" by (simp_all add: q_def r_def)
  define a c where "a = (if r < 32 - f then r + f else r + f - 32)" and "c = b + q + (if r < 32 - f then 0 else 1)"
  have e: "32 * b + f + p = a + 32 * c" using assms r by (auto simp: p a_def c_def)
  have "a < 32" using assms r by (auto simp: a_def)
  then have "(a + 32 * c) div 32 = c" "(a + 32 * c) mod 32 = a" by simp_all
  then show "(32 * b + f + p) div 32 = b + p div 32 + (if p mod 32 < 32 - f then 0 else 1)"
    "(32 * b + f + p) mod 32 = (if p mod 32 < 32 - f then p mod 32 + f else p mod 32 + f - 32)"
    unfolding e by (simp_all add: a_def c_def q_def r_def)
qed

lemma join_bits:
  fixes r l l1 l2 w :: u32
  assumes "0 < f" "f < 32" "k < 32"
  shows "bit ((r AND drop_bit (32 - f) (NOT 0)) OR push_bit f l) k \<longleftrightarrow> (if k < f then bit r k else bit l (k - f))"
    and "bit (drop_bit (32 - f) l1 OR push_bit f l2) k \<longleftrightarrow> (if k < f then bit l1 (k + 32 - f) else bit l2 (k - f))"
    and "bit (drop_bit (32 - f) l1) k \<longleftrightarrow> k < f \<and> bit l1 (k + 32 - f)"
    and "bit (w AND drop_bit (32 - f) (NOT 0)) k \<longleftrightarrow> k < f \<and> bit w k"
    and "bit ((l AND push_bit (32 - f) (NOT 0)) OR drop_bit f w) k \<longleftrightarrow> (if k < 32 - f then bit w (k + f) else bit l k)"
    and "bit ((l AND drop_bit f (NOT 0)) OR push_bit (32 - f) w) k \<longleftrightarrow>
      (if k < 32 - f then bit l k else bit w (k - (32 - f)))"
proof -
  have ones: "bit (drop_bit d (NOT 0) :: u32) k \<longleftrightarrow> k < 32 - d" for d
    by (auto simp: bit_drop_bit_eq bit_mask_iff)
  have ones': "bit (push_bit d (NOT 0) :: u32) k \<longleftrightarrow> d \<le> k" for d
    using assms(3) by (auto simp: bit_push_bit_iff bit_not_iff bit_mask_iff)
  have big: "\<not> bit x n" if "32 \<le> n" for x :: u32 and n using that bit_imp_le_length [of x n] by auto
  have le: "32 - (32 - f) = f" using assms by simp
  note [simp] = ones ones' le
  show "bit ((r AND drop_bit (32 - f) (NOT 0)) OR push_bit f l) k \<longleftrightarrow> (if k < f then bit r k else bit l (k - f))"
    "bit (w AND drop_bit (32 - f) (NOT 0)) k \<longleftrightarrow> k < f \<and> bit w k"
    "bit ((l AND drop_bit f (NOT 0)) OR push_bit (32 - f) w) k \<longleftrightarrow>
      (if k < 32 - f then bit l k else bit w (k - (32 - f)))"
    using assms by (auto simp: bit_or_iff bit_and_iff bit_push_bit_iff bit_mask_iff)
  have "k + 32 - f = (32 - f) + k" using assms by simp
  then show "bit (drop_bit (32 - f) l1 OR push_bit f l2) k \<longleftrightarrow> (if k < f then bit l1 (k + 32 - f) else bit l2 (k - f))"
    "bit (drop_bit (32 - f) l1) k \<longleftrightarrow> k < f \<and> bit l1 (k + 32 - f)"
    using assms big [of "32 - f + k" l1]
    by (cases "k < f"; simp add: bit_or_iff bit_drop_bit_eq bit_push_bit_iff)+
  show "bit ((l AND push_bit (32 - f) (NOT 0)) OR drop_bit f w) k \<longleftrightarrow> (if k < 32 - f then bit w (k + f) else bit l k)"
    using assms big [of "f + k" w] by (auto simp: bit_or_iff bit_and_iff bit_drop_bit_eq bit_mask_iff bit_not_iff add.commute)
qed

lemma concref_planes:
  "px_get pl (concref X Y) = concref_get (px_get pl X) (px_get pl Y) X Y"
  "px_put pl (concref X Y) = concref_set (px_get pl X) (px_put pl X) (px_put pl Y) X Y"
  by (cases pl; simp add: px_get_def px_put_def concref_def concref_get_word_def concref_get_cword_def
      concref_set_word_def concref_set_cword_def)+

text \<open>Where the words of a concatenation are, for a right operand of \<open>m\<close> bits.\<close>

lemma concref_positions:
  fixes m :: nat
  defines "b \<equiv> m div 32" and "f \<equiv> m mod 32"
  shows "i < b \<Longrightarrow> n div 32 = i \<Longrightarrow> n < m"
    and "b < i \<Longrightarrow> n div 32 = i \<Longrightarrow> m \<le> n"
    and "n < m \<Longrightarrow> n div 32 = b \<Longrightarrow> n mod 32 < f"
    and "(m + p) div 32 = i \<longleftrightarrow> (if p mod 32 < 32 - f then i = b + p div 32 else i = b + p div 32 + 1)"
    and "(m + p) mod 32 = (if p mod 32 < 32 - f then p mod 32 + f else p mod 32 + f - 32)"
    and "f < 32"
    and "m \<le> n \<Longrightarrow> n div 32 = b \<Longrightarrow> f \<le> n mod 32"
proof -
  have m: "m = 32 * b + f" "f < 32" by (simp_all add: b_def f_def)
  show "f < 32" by (rule m(2))
  show "i < b \<Longrightarrow> n div 32 = i \<Longrightarrow> n < m" "b < i \<Longrightarrow> n div 32 = i \<Longrightarrow> m \<le> n" "n < m \<Longrightarrow> n div 32 = b \<Longrightarrow> n mod 32 < f"
    "m \<le> n \<Longrightarrow> n div 32 = b \<Longrightarrow> f \<le> n mod 32"
    using m div_mult_mod_eq [of n 32] mod_less_divisor [of 32 n] by linarith+
  show "(m + p) div 32 = i \<longleftrightarrow> (if p mod 32 < 32 - f then i = b + p div 32 else i = b + p div 32 + 1)"
    "(m + p) mod 32 = (if p mod 32 < 32 - f then p mod 32 + f else p mod 32 + f - 32)"
    using behind_div_mod [OF m(2), of b p] by (auto simp: m(1) [symmetric])
qed

lemma word_count_iff: "0 < n \<Longrightarrow> i < word_count n \<longleftrightarrow> 32 * i < n"
  using less_eq_div_iff_mult_less_eq [of 32 i "n - 1"] by (auto simp: word_count_def less_Suc_eq_le)

lemma concref_get_cases:
  assumes "i < concref_size X Y s"
  defines "b \<equiv> px_length Y s div 32" and "f \<equiv> px_length Y s mod 32"
  shows "i < b \<Longrightarrow> concref_get gl gr X Y i s = gr i s"
    and "\<not> i < b \<Longrightarrow> f = 0 \<Longrightarrow> concref_get gl gr X Y i s = gl (i - b) s"
    and "i = b \<Longrightarrow> 0 < f \<Longrightarrow> concref_get gl gr X Y i s = bind_result (gr b s) (\<lambda>r. bind_result (gl 0 s) (\<lambda>l.
      Inr ((r AND drop_bit (32 - f) (NOT 0)) OR push_bit f l)))"
    and "b < i \<Longrightarrow> 0 < f \<Longrightarrow> i - b < px_size X s \<Longrightarrow> concref_get gl gr X Y i s =
      bind_result (gl (i - b - 1) s) (\<lambda>l1. bind_result (gl (i - b) s) (\<lambda>l2.
        Inr (drop_bit (32 - f) l1 OR push_bit f l2)))"
    and "b < i \<Longrightarrow> 0 < f \<Longrightarrow> \<not> i - b < px_size X s \<Longrightarrow> concref_get gl gr X Y i s =
      bind_result (gl (i - b - 1) s) (\<lambda>l1. Inr (drop_bit (32 - f) l1))"
  using assms(1) unfolding b_def f_def by (simp_all add: concref_get_def Let_def)

lemma nth_behind: "(M @ L) ! n = (if n < length M then M ! n else L ! (n - length M))"
  by (simp add: nth_append)

text \<open>What \<open>get_word\<close> has to return: the bits of the two operands, those behind them zero.\<close>

lemma concref_get_ok:
  assumes X: "writable X sh L Os D" and Y: "writable Y sh M Os' D'"
    and r: "ready sh Os D s" "ready sh Os' D' s" and i: "i < word_count (length L + length M)"
  shows "\<exists>w. concref_get (px_get pl X) (px_get pl Y) X Y i s = Inr w \<and>
    (\<forall>n<length (M @ L). n div 32 = i \<longrightarrow> (bit w (n mod 32) \<longleftrightarrow> pbit pl s ((M @ L) ! n))) \<and>
    ((\<forall>a\<in>Os \<union> Os'. vec_clean (s a)) \<longrightarrow> tail_zero (length (M @ L)) i w)"
proof -
  define m l b f where "m = length M" and "l = length L" and "b = m div 32" and "f = m mod 32"
  note pos = concref_positions [where m = m, folded b_def f_def]
  have sizes: "px_length Y s = m" "concref_size X Y s = word_count (l + m)" "px_size X s = word_count l"
    using writable.length_law [OF X r(1)] writable.length_law [OF Y r(2)] writable.size_law [OF X r(1)]
    by (simp_all add: concref_size_def m_def l_def)
  have "i < concref_size X Y s" using i by (simp add: sizes l_def m_def)
  note cases = concref_get_cases [OF this, of "px_get pl X" "px_get pl Y", unfolded sizes(1), folded b_def f_def]
  have ml: "0 < m" "0 < l" using writable.places [OF X r(1)] writable.places [OF Y r(2)] by (auto simp: m_def l_def)
  have getl: "\<exists>w. px_get pl X j s = Inr w \<and> (\<forall>n<l. n div 32 = j \<longrightarrow> (bit w (n mod 32) \<longleftrightarrow> pbit pl s (L ! n))) \<and>
      ((\<forall>a\<in>Os \<union> Os'. vec_clean (s a)) \<longrightarrow> tail_zero l j w)" if "j < word_count l" for j
    using writable.get_word_law [OF X r(1), of j pl] that by (auto simp: l_def)
  have getr: "\<exists>w. px_get pl Y j s = Inr w \<and> (\<forall>n<m. n div 32 = j \<longrightarrow> (bit w (n mod 32) \<longleftrightarrow> pbit pl s (M ! n)))"
    if "j < word_count m" for j using writable.get_word_law [OF Y r(2), of j pl] that by (auto simp: m_def)
  text \<open>It is enough to describe the bits of \<open>M\<close> and those behind them.\<close>
  have result: ?thesis if w: "concref_get (px_get pl X) (px_get pl Y) X Y i s = Inr w"
    "\<And>n. n < m \<Longrightarrow> n div 32 = i \<Longrightarrow> bit w (n mod 32) \<longleftrightarrow> pbit pl s (M ! n)"
    "\<And>p. p < l \<Longrightarrow> (m + p) div 32 = i \<Longrightarrow> bit w ((m + p) mod 32) \<longleftrightarrow> pbit pl s (L ! p)"
    "\<And>p. \<forall>a\<in>Os \<union> Os'. vec_clean (s a) \<Longrightarrow> l \<le> p \<Longrightarrow> (m + p) div 32 = i \<Longrightarrow> \<not> bit w ((m + p) mod 32)" for w
  proof -
    have "bit w (n mod 32) \<longleftrightarrow> pbit pl s ((M @ L) ! n)" if "n < length (M @ L)" "n div 32 = i" for n
      using w(2) [of n] w(3) [of "n - m"] that by (auto simp: nth_behind m_def l_def not_less)
    moreover have "\<not> bit w (n mod 32)" if "\<forall>a\<in>Os \<union> Os'. vec_clean (s a)" "length (M @ L) \<le> n" "n div 32 = i" for n
      using w(4) [of "n - m"] that by (simp add: m_def l_def)
    ultimately show ?thesis using w(1) by (auto simp: tail_zero_def)
  qed
  have m: "m = 32 * b + f" by (simp add: b_def f_def)
  have im: "32 * i < l + m" using i ml by (simp add: word_count_iff l_def m_def)
  consider "i < b" | "\<not> i < b" "f = 0" | "i = b" "0 < f" | "b < i" "0 < f" by linarith
  then show ?thesis
  proof cases
    case 1
    have "i < word_count m" using 1 ml m by (simp add: word_count_iff)
    then obtain w where "px_get pl Y i s = Inr w" "\<forall>n<m. n div 32 = i \<longrightarrow> (bit w (n mod 32) \<longleftrightarrow> pbit pl s (M ! n))"
      using getr by blast
    moreover have "(m + p) div 32 \<noteq> i" for p using pos(1) [OF 1, of "m + p"] by auto
    ultimately show ?thesis using result [of w] 1 by (simp add: cases)
  next
    case 2
    have "i - b < word_count l" using 2 im ml m by (simp add: word_count_iff)
    then obtain w where w: "px_get pl X (i - b) s = Inr w"
      "\<And>p. p < l \<Longrightarrow> p div 32 = i - b \<Longrightarrow> bit w (p mod 32) \<longleftrightarrow> pbit pl s (L ! p)"
      "(\<forall>a\<in>Os \<union> Os'. vec_clean (s a)) \<longrightarrow> tail_zero l (i - b) w" using getl by blast
    have at: "(m + p) div 32 = i \<longleftrightarrow> p div 32 = i - b" "(m + p) mod 32 = p mod 32" for p
      using pos(4) [of p i] pos(5) [of p] 2 by auto
    have "n div 32 \<noteq> i" if n: "n < m" for n
    proof
      assume e: "n div 32 = i"
      consider "i = b" | "b < i" using 2(1) by linarith
      then show False by cases (use pos(2) [of i n] pos(3) [OF n] e n 2(2) in simp_all)
    qed
    moreover have e: "concref_get (px_get pl X) (px_get pl Y) X Y i s = Inr w"
      using w(1) 2 by (simp add: cases)
    ultimately show ?thesis
    proof (intro result [OF e])
      show "bit w ((m + p) mod 32) \<longleftrightarrow> pbit pl s (L ! p)" if "p < l" "(m + p) div 32 = i" for p
        using w(2) [of p] that unfolding at by blast
      show "\<not> bit w ((m + p) mod 32)" if "\<forall>a\<in>Os \<union> Os'. vec_clean (s a)" "l \<le> p" "(m + p) div 32 = i" for p
        using w(3) that unfolding at tail_zero_def by blast
    qed blast
  next
    case 3
    have "b < word_count m" "0 < word_count l" using 3 ml m by (simp_all add: word_count_iff)
    then obtain x y where x: "px_get pl Y b s = Inr x" "\<And>n. n < m \<Longrightarrow> n div 32 = b \<Longrightarrow> bit x (n mod 32) \<longleftrightarrow> pbit pl s (M ! n)"
      and y: "px_get pl X 0 s = Inr y" "\<And>p. p < l \<Longrightarrow> p div 32 = 0 \<Longrightarrow> bit y (p mod 32) \<longleftrightarrow> pbit pl s (L ! p)"
      "(\<forall>a\<in>Os \<union> Os'. vec_clean (s a)) \<longrightarrow> tail_zero l 0 y" using getl [of 0] getr [of b] by blast
    define w where "w = (x AND drop_bit (32 - f) (NOT 0)) OR push_bit f y"
    have e: "concref_get (px_get pl X) (px_get pl Y) X Y i s = Inr w"
      unfolding cases(3) [OF 3] x(1) y(1) bind_result_Inr w_def ..
    have bits: "bit w k \<longleftrightarrow> (if k < f then bit x k else bit y (k - f))" if "k < 32" for k
      using join_bits(1) [OF 3(2) pos(6) that] unfolding w_def .
    have at: "p div 32 = 0 \<and> (m + p) mod 32 = p mod 32 + f \<and> p mod 32 + f < 32" if "(m + p) div 32 = i" for p
      using that pos(4) [of p i] pos(5) [of p] 3(1) by (auto split: if_splits)
    show ?thesis
    proof (rule result [OF e])
      show "bit w (n mod 32) \<longleftrightarrow> pbit pl s (M ! n)" if "n < m" "n div 32 = i" for n
        using that 3(1) x(2) pos(3) bits [of "n mod 32"] by simp
      show "bit w ((m + p) mod 32) \<longleftrightarrow> pbit pl s (L ! p)" if "p < l" "(m + p) div 32 = i" for p
        using at [OF that(2)] bits [of "(m + p) mod 32"] y(2) that(1) by simp
      show "\<not> bit w ((m + p) mod 32)" if "\<forall>a\<in>Os \<union> Os'. vec_clean (s a)" "l \<le> p" "(m + p) div 32 = i" for p
        using at [OF that(3)] bits [of "(m + p) mod 32"] y(3) that(1,2) by (auto simp: tail_zero_def)
    qed
  next
    case 4
    define j where "j = i - b"
    have j: "i = b + j" "0 < j" using 4(1) by (simp_all add: j_def)
    have "j - 1 < word_count l" using j im ml m 4(2) pos(6) by (simp add: word_count_iff) 
    then obtain y1 where y1: "px_get pl X (j - 1) s = Inr y1"
      "\<And>p. p < l \<Longrightarrow> p div 32 = j - 1 \<Longrightarrow> bit y1 (p mod 32) \<longleftrightarrow> pbit pl s (L ! p)"
      "(\<forall>a\<in>Os \<union> Os'. vec_clean (s a)) \<longrightarrow> tail_zero l (j - 1) y1" using getl by blast
    obtain y2 where y2: "j < word_count l \<Longrightarrow> px_get pl X j s = Inr y2"
      "\<And>p. p < l \<Longrightarrow> p div 32 = j \<Longrightarrow> bit y2 (p mod 32) \<longleftrightarrow> pbit pl s (L ! p)"
      "(\<forall>a\<in>Os \<union> Os'. vec_clean (s a)) \<longrightarrow> tail_zero l j y2" "\<not> j < word_count l \<Longrightarrow> y2 = 0"
    proof (cases "j < word_count l")
      case False
      then have "p div 32 \<noteq> j" if "p < l" for p using index_below_count [of l p] that by auto
      then show thesis using that [of 0] False by (auto simp: tail_zero_def)
    qed (use getl that in blast)
    define w where "w = drop_bit (32 - f) y1 OR push_bit f y2"
    have e: "concref_get (px_get pl X) (px_get pl Y) X Y i s = Inr w"
      using y1(1) y2(1,4) 4 by (cases "j < word_count l") (simp_all add: cases(4,5) sizes(3) j_def w_def)
    have bits: "bit w k \<longleftrightarrow> (if k < f then bit y1 (k + 32 - f) else bit y2 (k - f))" if "k < 32" for k
      using join_bits(2) [OF 4(2) pos(6) that] unfolding w_def .
    have at: "bit w ((m + p) mod 32) \<longleftrightarrow> (if p div 32 = j then bit y2 (p mod 32) else bit y1 (p mod 32))"
      "p div 32 = j \<or> p div 32 = j - 1" if "(m + p) div 32 = i" for p
    proof -
      have c: "if p mod 32 < 32 - f then p div 32 = j else p div 32 = j - 1" "p div 32 = j \<longleftrightarrow> p mod 32 < 32 - f"
        using that pos(4) [of p i] j by (auto split: if_splits)
      then show "p div 32 = j \<or> p div 32 = j - 1" by (auto split: if_splits)
      show "bit w ((m + p) mod 32) \<longleftrightarrow> (if p div 32 = j then bit y2 (p mod 32) else bit y1 (p mod 32))"
      proof (cases "p mod 32 < 32 - f")
        case True
        then show ?thesis using bits [of "p mod 32 + f"] c(2) by (simp add: pos(5))
      next
        case False
        have "p mod 32 < 32" by simp
        then have "p mod 32 + f - 32 < f" "p mod 32 + f - 32 + 32 - f = p mod 32" using False pos(6) 4(2) by linarith+
        then show ?thesis using False bits [of "p mod 32 + f - 32"] c(2) pos(6) by (simp add: pos(5))
      qed
    qed
    have "n div 32 \<noteq> i" if "n < m" for n using pos(2) [OF 4(1), of n] that by auto
    then show ?thesis
    proof (intro result [OF e])
      show "bit w ((m + p) mod 32) \<longleftrightarrow> pbit pl s (L ! p)" if "p < l" "(m + p) div 32 = i" for p
        using at [OF that(2)] y1(2) [OF that(1)] y2(2) [OF that(1)] by auto
      show "\<not> bit w ((m + p) mod 32)" if "\<forall>a\<in>Os \<union> Os'. vec_clean (s a)" "l \<le> p" "(m + p) div 32 = i" for p
        using at [OF that(3)] y1(3) y2(3) that(1,2) unfolding tail_zero_def by auto
    qed blast
  qed
qed

lemma concref_set_cases:
  assumes "i < concref_size X Y s"
  defines "b \<equiv> px_length Y s div 32" and "f \<equiv> px_length Y s mod 32"
  shows "i < b \<Longrightarrow> concref_set gl sl sr X Y i w s = sr i w s"
    and "\<not> i < b \<Longrightarrow> f = 0 \<Longrightarrow> concref_set gl sl sr X Y i w s = sl (i - b) w s"
    and "i = b \<Longrightarrow> 0 < f \<Longrightarrow> concref_set gl sl sr X Y i w s =
      bind_result (sr b (w AND drop_bit (32 - f) (NOT 0)) s) (\<lambda>s1. bind_result (gl 0 s1) (\<lambda>l.
        sl 0 ((l AND push_bit (32 - f) (NOT 0)) OR drop_bit f w) s1))"
    and "b < i \<Longrightarrow> 0 < f \<Longrightarrow> concref_set gl sl sr X Y i w s =
      bind_result (gl (i - b - 1) s) (\<lambda>l. bind_result
        (sl (i - b - 1) ((l AND drop_bit f (NOT 0)) OR push_bit (32 - f) w) s) (\<lambda>s1.
          if i - b < px_size X s1
          then bind_result (gl (i - b) s1) (\<lambda>l. sl (i - b) ((l AND push_bit (32 - f) (NOT 0)) OR drop_bit f w) s1)
          else Inr s1))"
  using assms(1) unfolding b_def f_def by (simp_all add: concref_set_def Let_def cong: if_cong)

lemma word_places_append:
  "word_places (M @ L) i = {M ! n | n. n < length M \<and> n div 32 = i} \<union>
     {L ! p | p. p < length L \<and> (length M + p) div 32 = i}" (is "?A = ?B \<union> ?C")
proof
  show "?A \<subseteq> ?B \<union> ?C"
  proof
    fix x assume "x \<in> ?A"
    then obtain n where n: "x = (M @ L) ! n" "n < length (M @ L)" "n div 32 = i" by (auto simp: word_places_def)
    show "x \<in> ?B \<union> ?C"
    proof (cases "n < length M")
      case True
      then have "x = M ! n" using n(1) by (simp add: nth_append)
      then show ?thesis using True n(3) by blast
    next
      case False
      then have "x = L ! (n - length M) \<and> n - length M < length L \<and> (length M + (n - length M)) div 32 = i"
        using n by (simp add: nth_append)
      then show ?thesis by blast
    qed
  qed
  have "M ! n \<in> ?A" if "n < length M" "n div 32 = i" for n
  proof -
    have "M ! n = (M @ L) ! n \<and> n < length (M @ L)" using that by (simp add: nth_append)
    then show ?thesis using that(2) unfolding word_places_def by blast
  qed
  moreover have "L ! p \<in> ?A" if "p < length L" "(length M + p) div 32 = i" for p
  proof -
    have "L ! p = (M @ L) ! (length M + p) \<and> length M + p < length (M @ L)" using that by (simp add: nth_append)
    then show ?thesis using that(2) unfolding word_places_def by blast
  qed
  ultimately show "?B \<union> ?C \<subseteq> ?A" by blast
qed

lemma ready_part: "ready sh (Os \<union> Os') (D \<union> D') s \<Longrightarrow> D' \<inter> (Os - D) = {} \<Longrightarrow> ready sh Os D s"
  by (auto simp: ready_def)

text \<open>An update of some places leaves the bits of the others.\<close>

lemma moves_other: "moves sh M s s' \<Longrightarrow> valid sh l \<Longrightarrow> l \<notin> M \<Longrightarrow> pbit pl s' l = pbit pl s l"
  unfolding moves_def by blast

lemma concref_set_ok:
  assumes X: "writable X sh L Os D" and Y: "writable Y sh M Os' D'" and dis: "set L \<inter> set M = {}"
    and apart: "D' \<inter> (Os - D) = {}" "D \<inter> (Os' - D') = {}"
    and r: "ready sh (Os \<union> Os') (D \<union> D') s" and i: "i < word_count (length L + length M)"
  shows "\<exists>s'. concref_set (px_get pl X) (px_put pl X) (px_put pl Y) X Y i w s = Inr s' \<and>
    moves sh (word_places (M @ L) i) s s' \<and> keeps_clean (D \<union> D') s s' \<and>
    ((\<forall>a\<in>Os \<union> Os'. vec_clean (s a)) \<longrightarrow> tail_zero (length (M @ L)) i w \<longrightarrow> keeps_clean {} s s') \<and>
    (\<forall>pl' n. n < length (M @ L) \<longrightarrow> n div 32 = i \<longrightarrow> (pbit pl' s' ((M @ L) ! n) \<longleftrightarrow>
       (if pl' = pl then holds sh pl ((M @ L) ! n) \<and> bit w (n mod 32) else pbit pl' s ((M @ L) ! n))))"
proof -
  define m l b f where "m = length M" and "l = length L" and "b = m div 32" and "f = m mod 32"
  note pos = concref_positions [where m = m, folded b_def f_def]
  have rx: "ready sh Os D s" using ready_part [OF r apart(1)] .
  have ry: "ready sh Os' D' s" using ready_part [of sh Os' Os D' D s] r apart(2) by (simp add: Un_commute)
  have sizes: "px_length Y s = m" "concref_size X Y s = word_count (l + m)"
    using writable.length_law [OF X rx] writable.length_law [OF Y ry] by (simp_all add: concref_size_def m_def l_def)
  have "i < concref_size X Y s" using i by (simp add: sizes l_def m_def)
  note cases = concref_set_cases [OF this, of "px_get pl X" "px_put pl X" "px_put pl Y" w, unfolded sizes(1),
      folded b_def f_def]
  have ml: "0 < m" "0 < l" using writable.places [OF X rx] writable.places [OF Y ry] by (auto simp: m_def l_def)
  have m: "m = 32 * b + f" by (simp add: b_def f_def)
  have im: "32 * i < l + m" using i ml by (simp add: word_count_iff l_def m_def)
  have val: "p < l \<Longrightarrow> valid sh (L ! p)" "n < m \<Longrightarrow> valid sh (M ! n)" for p n
    using writable.places [OF X rx] writable.places [OF Y ry] by (auto simp: m_def l_def)
  have ne: "L ! p \<noteq> M ! n" if "p < l" "n < m" for p n
    using that dis by (metis IntI empty_iff l_def m_def nth_mem)
  let ?put2 = "\<lambda>pl' s' s q v. pbit pl' s' q \<longleftrightarrow> (if pl' = pl then holds sh pl q \<and> v else pbit pl' s q)"
  let ?put = "\<lambda>pl' s' q v. ?put2 pl' s' s q v"
  have result: ?thesis if s': "concref_set (px_get pl X) (px_put pl X) (px_put pl Y) X Y i w s = Inr s'"
    "moves sh ({M ! n | n. n < m \<and> n div 32 = i} \<union> {L ! p | p. p < l \<and> (m + p) div 32 = i}) s s'"
    "keeps_clean (D \<union> D') s s'"
    "\<lbrakk>\<forall>a\<in>Os \<union> Os'. vec_clean (s a); \<And>p. l \<le> p \<Longrightarrow> (m + p) div 32 = i \<Longrightarrow> \<not> bit w ((m + p) mod 32)\<rbrakk> \<Longrightarrow>
      keeps_clean {} s s'"
    "\<And>pl' n. n < m \<Longrightarrow> n div 32 = i \<Longrightarrow> ?put pl' s' (M ! n) (bit w (n mod 32))"
    "\<And>pl' p. p < l \<Longrightarrow> (m + p) div 32 = i \<Longrightarrow> ?put pl' s' (L ! p) (bit w ((m + p) mod 32))" for s'
  proof -
    have "?put pl' s' ((M @ L) ! n) (bit w (n mod 32))" if "n < length (M @ L)" "n div 32 = i" for pl' n
      using s'(5) [of n pl'] s'(6) [of "n - m" pl'] that by (auto simp: nth_behind m_def l_def not_less)
    moreover have "keeps_clean {} s s'" if "\<forall>a\<in>Os \<union> Os'. vec_clean (s a)" "tail_zero (length (M @ L)) i w"
      using s'(4) that by (simp add: tail_zero_def m_def l_def)
    ultimately show ?thesis using s'(1-3) by (auto simp: word_places_append m_def l_def)
  qed
  consider "i < b" | "\<not> i < b" "f = 0" | "i = b" "0 < f" | "b < i" "0 < f" by linarith
  then show ?thesis
  proof cases
    case 1
    have inside: "n < m" if "n div 32 = i" for n using pos(1) [OF 1 that] .
    have "i < word_count (length M)" using 1 ml m by (simp add: word_count_iff m_def)
    then obtain s' where s': "px_put pl Y i w s = Inr s'" "moves sh (word_places M i) s s'" "keeps_clean D' s s'"
      "(\<forall>a\<in>Os'. vec_clean (s a)) \<longrightarrow> tail_zero m i w \<longrightarrow> keeps_clean {} s s'"
      "\<And>pl' n. n < m \<Longrightarrow> n div 32 = i \<Longrightarrow> ?put pl' s' (M ! n) (bit w (n mod 32))"
      using writable.set_word_law [OF Y ry, of i pl w] unfolding m_def by blast
    have none: "(m + p) div 32 \<noteq> i" for p using inside [of "m + p"] by auto
    have "tail_zero m i w" using inside unfolding tail_zero_def by (metis not_less)
    show ?thesis
    proof (rule result)
      show "concref_set (px_get pl X) (px_put pl X) (px_put pl Y) X Y i w s = Inr s'" using s'(1) cases(1) [OF 1] by simp
      show "moves sh ({M ! n | n. n < m \<and> n div 32 = i} \<union> {L ! p | p. p < l \<and> (m + p) div 32 = i}) s s'"
        by (rule moves_mono [OF s'(2)]) (auto simp: word_places_def m_def)
      show "keeps_clean (D \<union> D') s s'" by (rule keeps_clean_mono [OF s'(3)]) blast
      show "keeps_clean {} s s'" if "\<forall>a\<in>Os \<union> Os'. vec_clean (s a)" using s'(4) that \<open>tail_zero m i w\<close> by simp
    qed (use s'(5) none in auto)
  next
    case 2
    have at: "(m + p) div 32 = i \<longleftrightarrow> p div 32 = i - b" "(m + p) mod 32 = p mod 32" for p
      using pos(4) [of p i] pos(5) [of p] 2 by auto
    have none: "n div 32 \<noteq> i" if n: "n < m" for n
    proof
      assume e: "n div 32 = i"
      consider "i = b" | "b < i" using 2(1) by linarith
      then show False by cases (use pos(2) [of i n] pos(3) [OF n] e n 2(2) in simp_all)
    qed
    have "i - b < word_count (length L)" using 2 im ml m by (simp add: word_count_iff l_def)
    then obtain s' where s': "px_put pl X (i - b) w s = Inr s'" "moves sh (word_places L (i - b)) s s'" "keeps_clean D s s'"
      "(\<forall>a\<in>Os. vec_clean (s a)) \<longrightarrow> tail_zero l (i - b) w \<longrightarrow> keeps_clean {} s s'"
      "\<And>pl' p. p < l \<Longrightarrow> p div 32 = i - b \<Longrightarrow> ?put pl' s' (L ! p) (bit w (p mod 32))"
      using writable.set_word_law [OF X rx, of "i - b" pl w] unfolding l_def by blast
    show ?thesis
    proof (rule result)
      show "concref_set (px_get pl X) (px_put pl X) (px_put pl Y) X Y i w s = Inr s'" using s'(1) cases(2) [OF 2] by simp
      show "moves sh ({M ! n | n. n < m \<and> n div 32 = i} \<union> {L ! p | p. p < l \<and> (m + p) div 32 = i}) s s'"
        by (rule moves_mono [OF s'(2)]) (auto simp: at word_places_def l_def)
      show "keeps_clean (D \<union> D') s s'" by (rule keeps_clean_mono [OF s'(3)]) blast
    qed (use s'(4,5) none in \<open>auto simp: at tail_zero_def\<close>)
  next
    case 3
    have b: "b < word_count (length M)" "0 < word_count (length L)" using 3 ml m by (simp_all add: word_count_iff m_def l_def)
    define w1 where "w1 = w AND drop_bit (32 - f) (NOT 0)"
    have w1: "bit w1 k \<longleftrightarrow> k < f \<and> bit w k" if "k < 32" for k using join_bits(4) [OF 3(2) pos(6) that] unfolding w1_def .
    obtain s1 where s1: "px_put pl Y b w1 s = Inr s1" "moves sh (word_places M b) s s1" "keeps_clean D' s s1"
      "(\<forall>a\<in>Os'. vec_clean (s a)) \<longrightarrow> tail_zero m b w1 \<longrightarrow> keeps_clean {} s s1"
      "\<And>pl' n. n < m \<Longrightarrow> n div 32 = b \<Longrightarrow> ?put pl' s1 (M ! n) (bit w1 (n mod 32))"
      using writable.set_word_law [OF Y ry b(1), of pl w1] unfolding m_def by blast
    have "ready sh (Os \<union> Os') (D \<union> D') s1"
      by (rule ready_step [OF r s1(2) keeps_clean_mono [OF s1(3)]]) blast
    then have r1: "ready sh Os D s1" using ready_part apart(1) by blast
    obtain t where t: "px_get pl X 0 s1 = Inr t" using writable.get_word_law [OF X r1 b(2), of pl] by blast
    define w2 where "w2 = (t AND push_bit (32 - f) (NOT 0)) OR drop_bit f w"
    have w2: "bit w2 k \<longleftrightarrow> (if k < 32 - f then bit (drop_bit f w) k else bit t k)" if "k < 32" for k
      using join_bits(5) [OF 3(2) pos(6) that, of t w] unfolding w2_def bit_drop_bit_eq by (simp add: add.commute)
    obtain s' where put: "px_put pl X 0 w2 s1 = Inr s'"
      and rep: "replaced sh L Os D pl 0 (\<lambda>k. k < 32 - f) (drop_bit f w) s1 s'"
      using writable.replace_bits [OF X r1 b(2) t w2] by blast
    note s' = put replacedD [OF rep, folded l_def]
    have at: "(m + p) div 32 = i \<longleftrightarrow> p div 32 = 0 \<and> p mod 32 < 32 - f" for p
      using pos(4) [of p i] 3(1) by auto
    have "tail_zero m b w1" using pos(7) by (auto simp: tail_zero_def w1 not_less)
    then have clean1: "keeps_clean {} s s1" if "\<forall>a\<in>Os'. vec_clean (s a)" using s1(4) that by blast
    show ?thesis
    proof (rule result)
      show "concref_set (px_get pl X) (px_put pl X) (px_put pl Y) X Y i w s = Inr s'"
        unfolding cases(3) [OF 3] w1_def [symmetric] s1(1) bind_result_Inr t w2_def [symmetric] s'(1) ..
      show "moves sh ({M ! n | n. n < m \<and> n div 32 = i} \<union> {L ! p | p. p < l \<and> (m + p) div 32 = i}) s s'"
        unfolding 3(1) at [unfolded 3(1)] by (rule moves_trans [OF s1(2) s'(2)]) (auto simp: word_places_def m_def)
      show "keeps_clean (D \<union> D') s s'" by (rule keeps_clean_trans [OF s1(3) s'(3)]) auto
      show "keeps_clean {} s s'" if c: "\<forall>a\<in>Os \<union> Os'. vec_clean (s a)"
        and z: "\<And>p. l \<le> p \<Longrightarrow> (m + p) div 32 = i \<Longrightarrow> \<not> bit w ((m + p) mod 32)"
      proof (rule keeps_clean_trans [OF clean1 s'(4)])
        show "\<forall>a\<in>Os. vec_clean (s1 a)" using clean1 c by (auto simp: keeps_clean_def)
        show "\<not> bit (drop_bit f w) (p mod 32)" if "l \<le> p" "p div 32 = 0" "p mod 32 < 32 - f" for p
          using z [of p] that at [of p] pos(5) [of p] by (simp add: bit_drop_bit_eq add.commute)
      qed (use c in auto)
      show "?put pl' s' (M ! n) (bit w (n mod 32))" if n: "n < m" "n div 32 = i" for pl' n
      proof -
        have "M ! n \<notin> {L ! p | p. p < l \<and> p div 32 = 0 \<and> p mod 32 < 32 - f}"
          using ne [OF _ n(1), THEN not_sym] by blast
        then have "pbit pl' s' (M ! n) = pbit pl' s1 (M ! n)" using moves_other [OF s'(2) val(2) [OF n(1)]] by blast
        then show ?thesis using s1(5) [of n pl'] n 3(1) w1 [of "n mod 32"] pos(3) [of n] by simp
      qed
      show "?put pl' s' (L ! p) (bit w ((m + p) mod 32))" if p: "p < l" "(m + p) div 32 = i" for pl' p
      proof -
        have "L ! p \<notin> word_places M b" using ne [OF p(1)] by (auto simp: word_places_def m_def)
        then have "pbit pl' s1 (L ! p) = pbit pl' s (L ! p)" using moves_other [OF s1(2) val(1) [OF p(1)]] by blast
        then show ?thesis using s'(5) [of p pl'] p(1) p(2) [unfolded at] pos(5) [of p]
          by (simp add: bit_drop_bit_eq add.commute)
      qed
    qed
  next
    case 4
    define j where "j = i - b"
    have j: "i = b + j" "0 < j" using 4(1) by (simp_all add: j_def)
    let ?low = "\<lambda>k. k < 32 - f" and ?high = "\<lambda>k. \<not> k < 32 - f"
    have at: "(m + p) div 32 = i \<longleftrightarrow> (p div 32 = j - 1 \<and> ?high (p mod 32)) \<or> (p div 32 = j \<and> ?low (p mod 32))" for p
    proof -
      have "b + j = b + q \<longleftrightarrow> q = j" "b + j = b + q + 1 \<longleftrightarrow> q = j - 1" for q using j(2) by auto
      then show ?thesis unfolding pos(4) j(1) by presburger
    qed
    have none: "n div 32 \<noteq> i" if "n < m" for n using pos(2) [OF 4(1), of n] that by auto
    have xs: "bit (push_bit (32 - f) w) (p mod 32) = bit w ((m + p) mod 32)" if "?high (p mod 32)" for p
      using that pos(5) [of p] pos(6) 4(2) by (simp add: bit_push_bit_iff)
    have ys: "bit (drop_bit f w) (p mod 32) = bit w ((m + p) mod 32)" if "?low (p mod 32)" for p
      using that pos(5) [of p] by (simp add: bit_drop_bit_eq add.commute)
    have j1: "j - 1 < word_count (length L)" using j im ml m 4(2) pos(6) by (simp add: word_count_iff l_def)
    obtain t where t: "px_get pl X (j - 1) s = Inr t" using writable.get_word_law [OF X rx j1, of pl] by blast
    define w1 where "w1 = (t AND drop_bit f (NOT 0)) OR push_bit (32 - f) w"
    have w1: "bit w1 k \<longleftrightarrow> (if ?high k then bit (push_bit (32 - f) w) k else bit t k)" if "k < 32" for k
      using join_bits(6) [OF 4(2) pos(6) that, of t w] that unfolding w1_def by (auto simp: bit_push_bit_iff)
    obtain s1 where put1: "px_put pl X (j - 1) w1 s = Inr s1"
      and rep1: "replaced sh L Os D pl (j - 1) ?high (push_bit (32 - f) w) s s1"
      using writable.replace_bits [OF X rx j1 t w1] by blast
    note s1 = replacedD [OF rep1, folded l_def]
    have r1: "ready sh Os D s1" by (rule ready_step [OF rx s1(1,2)])
    have step2: "\<exists>s'. concref_set (px_get pl X) (px_put pl X) (px_put pl Y) X Y i w s = Inr s' \<and>
      replaced sh L Os D pl j ?low (drop_bit f w) s1 s'"
    proof (cases "j < word_count (length L)")
      case True
      obtain t2 where t2: "px_get pl X j s1 = Inr t2" using writable.get_word_law [OF X r1 True, of pl] by blast
      define w2 where "w2 = (t2 AND push_bit (32 - f) (NOT 0)) OR drop_bit f w"
      have w2: "bit w2 k \<longleftrightarrow> (if ?low k then bit (drop_bit f w) k else bit t2 k)" if "k < 32" for k
        using join_bits(5) [OF 4(2) pos(6) that, of t2 w] unfolding w2_def bit_drop_bit_eq by (simp add: add.commute)
      obtain s' where "px_put pl X j w2 s1 = Inr s'" "replaced sh L Os D pl j ?low (drop_bit f w) s1 s'"
        using writable.replace_bits [OF X r1 True t2 w2] by blast
      moreover have "concref_set (px_get pl X) (px_put pl X) (px_put pl Y) X Y i w s = px_put pl X j w2 s1"
        unfolding cases(4) [OF 4] j_def [symmetric] t bind_result_Inr w1_def [symmetric] put1
        using True writable.size_law [OF X r1] by (simp only: if_True t2 bind_result_Inr w2_def)
      ultimately show ?thesis by simp
    next
      case False
      then have "p div 32 \<noteq> j" if "p < l" for p using index_below_count [OF ml(2) that] unfolding l_def by blast
      then have "replaced sh L Os D pl j ?low (drop_bit f w) s1 s1"
        using r1 by (auto simp: replaced_def moves_def ready_def l_def)
      moreover have "concref_set (px_get pl X) (px_put pl X) (px_put pl Y) X Y i w s = Inr s1"
        unfolding cases(4) [OF 4] j_def [symmetric] t bind_result_Inr w1_def [symmetric] put1
        using False writable.size_law [OF X r1] by (simp only: if_False)
      ultimately show ?thesis by blast
    qed
    then obtain s' where set: "concref_set (px_get pl X) (px_put pl X) (px_put pl Y) X Y i w s = Inr s'"
      and rep2: "replaced sh L Os D pl j ?low (drop_bit f w) s1 s'" by blast
    note s' = replacedD [OF rep2, folded l_def]
    have inj: "L ! p = L ! q \<longleftrightarrow> p = q" if "p < l" "q < l" for p q
      using nth_eq_iff_index_eq [OF writable.distinct [OF X]] that by (simp add: l_def)
    show ?thesis
    proof (rule result [OF set])
      show "moves sh ({M ! n | n. n < m \<and> n div 32 = i} \<union> {L ! p | p. p < l \<and> (m + p) div 32 = i}) s s'"
        by (rule moves_trans [OF s1(1) s'(1)]) (auto simp: at)
      show "keeps_clean (D \<union> D') s s'" by (rule keeps_clean_trans [OF s1(2) s'(2)]) auto
      show "keeps_clean {} s s'" if c: "\<forall>a\<in>Os \<union> Os'. vec_clean (s a)"
        and z: "\<And>p. l \<le> p \<Longrightarrow> (m + p) div 32 = i \<Longrightarrow> \<not> bit w ((m + p) mod 32)"
      proof -
        have k: "keeps_clean {} s s1" by (rule s1(3)) (use c z in \<open>auto simp: at xs\<close>)
        then have "\<forall>a\<in>Os. vec_clean (s1 a)" using c by (auto simp: keeps_clean_def)
        then have "keeps_clean {} s1 s'" by (rule s'(3)) (use z in \<open>auto simp: at ys\<close>)
        then show ?thesis using keeps_clean_trans [OF k] by blast
      qed
      show "?put pl' s' (M ! n) (bit w (n mod 32))" if "n < m" "n div 32 = i" for pl' n
        using none that by blast
      show "?put pl' s' (L ! p) (bit w ((m + p) mod 32))" if p: "p < l" "(m + p) div 32 = i" for pl' p
      proof (cases "?low (p mod 32)")
        case True
        then have "p div 32 = j" using p(2) at by blast
        moreover have "L ! p \<notin> {L ! n | n. n < l \<and> n div 32 = j - 1 \<and> ?high (n mod 32)}" using inj p(1) True by auto
        then have "pbit pl' s1 (L ! p) = pbit pl' s (L ! p)" using moves_other [OF s1(1) val(1) [OF p(1)]] by blast
        ultimately show ?thesis using s'(4) [of p pl'] p(1) True ys [of p] by simp
      next
        case False
        then have "p div 32 = j - 1" using p(2) at by blast
        moreover have "L ! p \<notin> {L ! n | n. n < l \<and> n div 32 = j \<and> ?low (n mod 32)}" using inj p(1) False by auto
        then have "pbit pl' s' (L ! p) = pbit pl' s1 (L ! p)" using moves_other [OF s'(1) val(1) [OF p(1)]] by blast
        ultimately show ?thesis using s1(4) [of p pl'] p(1) False xs [of p] by simp
      qed
    qed
  qed
qed

lemma concref_writable:
  assumes X: "writable X sh L Os D" and Y: "writable Y sh M Os' D'" and dis: "set L \<inter> set M = {}"
    and apart: "D' \<inter> (Os - D) = {}" "D \<inter> (Os' - D') = {}"
  shows "writable (concref X Y) sh (M @ L) (Os \<union> Os') (D \<union> D')"
proof unfold_locales
  fix s assume r: "ready sh (Os \<union> Os') (D \<union> D') s"
  have rx: "ready sh Os D s" using ready_part [OF r apart(1)] .
  have ry: "ready sh Os' D' s" using ready_part [of sh Os' Os D' D s] r apart(2) by (simp add: Un_commute)
  have len: "px_length X s = length L" "px_length Y s = length M"
    using writable.length_law [OF X rx] writable.length_law [OF Y ry] by simp_all
  show "M @ L \<noteq> [] \<and> (\<forall>l\<in>set (M @ L). valid sh l)"
    using writable.places [OF X rx] writable.places [OF Y ry] by auto
  show "px_length (concref X Y) s = length (M @ L)" "px_size (concref X Y) s = word_count (length (M @ L))"
    by (simp_all add: concref_def concref_size_def len add.commute)
  show "px_get_bit (concref X Y) n s = Inr (pval s ((M @ L) ! n))" if "n < length (M @ L)" for n
    using that writable.get_bit_law [OF X rx, of "n - length M"] writable.get_bit_law [OF Y ry, of n]
    by (auto simp: concref_def concref_get_bit_def len nth_behind)
  show "\<exists>s'. px_set_bit (concref X Y) n x s = Inr s' \<and> moves sh {(M @ L) ! n} s s' \<and> keeps_clean {} s s' \<and>
      (\<forall>pl. pbit pl s' ((M @ L) ! n) \<longleftrightarrow> holds sh pl ((M @ L) ! n) \<and> bit x (plane_index pl))"
    if "n < length (M @ L)" for n x
    using that writable.set_bit_law [OF X rx, of "n - length M" x] writable.set_bit_law [OF Y ry, of n x]
    by (cases "n < length M") (simp_all add: concref_def concref_set_bit_def len nth_behind)
  show "\<exists>w. px_get pl (concref X Y) i s = Inr w \<and>
      (\<forall>n<length (M @ L). n div 32 = i \<longrightarrow> (bit w (n mod 32) \<longleftrightarrow> pbit pl s ((M @ L) ! n))) \<and>
      ((\<forall>a\<in>Os \<union> Os'. vec_clean (s a)) \<longrightarrow> tail_zero (length (M @ L)) i w)"
    if "i < word_count (length (M @ L))" for i pl
    using concref_get_ok [OF X Y rx ry, of i pl] that by (simp add: concref_planes add.commute)
  show "\<exists>s'. px_put pl (concref X Y) i w s = Inr s' \<and> moves sh (word_places (M @ L) i) s s' \<and>
      keeps_clean (D \<union> D') s s' \<and>
      ((\<forall>a\<in>Os \<union> Os'. vec_clean (s a)) \<longrightarrow> tail_zero (length (M @ L)) i w \<longrightarrow> keeps_clean {} s s') \<and>
      (\<forall>pl' n. n < length (M @ L) \<longrightarrow> n div 32 = i \<longrightarrow> (pbit pl' s' ((M @ L) ! n) \<longleftrightarrow>
         (if pl' = pl then holds sh pl ((M @ L) ! n) \<and> bit w (n mod 32) else pbit pl' s ((M @ L) ! n))))"
    if "i < word_count (length (M @ L))" for i pl w
    using concref_set_ok [OF X Y dis apart r, of i pl w] that by (simp add: concref_planes add.commute)
  show "\<exists>s'. px_clean_tail (concref X Y) s = Inr s' \<and> moves sh {} s s' \<and> keeps_clean {} s s' \<and> (\<forall>a\<in>D \<union> D'. vec_clean (s' a))"
  proof -
    obtain s1 where s1: "px_clean_tail X s = Inr s1" "moves sh {} s s1" "keeps_clean {} s s1" "\<forall>a\<in>D. vec_clean (s1 a)"
      using writable.clean_tail_law [OF X rx] by blast
    have "ready sh Os' D' s1" by (rule ready_step [OF ry s1(2) keeps_clean_mono [OF s1(3)]]) simp
    then obtain s' where s': "px_clean_tail Y s1 = Inr s'" "moves sh {} s1 s'" "keeps_clean {} s1 s'"
      "\<forall>a\<in>D'. vec_clean (s' a)" using writable.clean_tail_law [OF Y] by blast
    have "moves sh {} s s'" "keeps_clean {} s s'"
      using moves_trans [OF s1(2) s'(2)] keeps_clean_trans [OF s1(3) s'(3)] by auto
    moreover have "\<forall>a\<in>D \<union> D'. vec_clean (s' a)" using s1(4) s'(3,4) by (auto simp: keeps_clean_def)
    ultimately show ?thesis using s1(1) s'(1) by (simp add: concref_def concref_clean_tail_def)
  qed
qed (use writable.objects [OF X] writable.objects [OF Y] writable.distinct [OF X] writable.distinct [OF Y] dis in auto)

end
