(* ===== verification/Sc_Proxy_Ops.thy ===== *)
theory Sc_Proxy_Ops
  imports Sc_Proxy_Facts
begin

text \<open>
  \<open>sc_proxy.h\<close> and the operators of \<open>sc_lv_base.h\<close>: assignment, bitwise operators, shifts, rotations,
  reversal, reductions, comparison and conversions, for any vector or selection \<open>X\<close>. An operator that
  returns a new logic vector returns its value; a local vector of the code is a vector of its own, alone
  at address 0 of a store of its own.
\<close>

unbundle bit_operations_syntax

section \<open>Words\<close>

definition get_words :: "('s, 'z) rproxy_scheme \<Rightarrow> nat \<Rightarrow> 's \<Rightarrow> (u32 \<times> u32) result" where
  "get_words X wi s = bind_result (px_get_word X wi s) (\<lambda>dw.
     bind_result (px_get_cword X wi s) (\<lambda>cw. Inr (dw, cw)))"

definition set_words :: "'s proxy \<Rightarrow> nat \<Rightarrow> u32 \<Rightarrow> u32 \<Rightarrow> 's \<Rightarrow> 's result" where
  "set_words X wi dw cw s = bind_result (px_set_word X wi dw s) (px_set_cword X wi cw)"

definition extend_sign_w :: "'s proxy \<Rightarrow> nat \<Rightarrow> bool \<Rightarrow> 's \<Rightarrow> 's result" where
  "extend_sign_w X wi sign s = for_each (\<lambda>i. set_words X i (if sign then NOT 0 else 0) 0) [wi..<px_size X s] s"

section \<open>Assignment\<close>

text \<open>\<open>same\<close> says that the two proxies are one object.\<close>

definition assign_p :: "bool \<Rightarrow> 's proxy \<Rightarrow> ('s, 'z) rproxy_scheme \<Rightarrow> 's \<Rightarrow> 's result" where
  "assign_p same X Y s =
     (if same then Inr s
      else let sz = px_size X s; min_sz = min sz (px_size Y s)
      in bind_result (for_each (\<lambda>i s. bind_result (get_words Y i s) (\<lambda>(dw, cw). set_words X i dw cw s)) [0..<min_sz] s)
           (\<lambda>s1. bind_result (extend_sign_w X min_sz False s1) (px_clean_tail X)))"

definition assign_bools :: "'s proxy \<Rightarrow> bool list \<Rightarrow> 's \<Rightarrow> 's result" where
  "assign_bools X a s = for_each (\<lambda>i s. bind_result (vec_at a i) (\<lambda>b. px_set_bit X i (of_bool b) s)) [0..<px_length X s] s"

definition assign_logics :: "'s proxy \<Rightarrow> sc_logic_value_t list \<Rightarrow> 's \<Rightarrow> 's result" where
  "assign_logics X a s = for_each (\<lambda>i s. bind_result (vec_at a i) (\<lambda>v. px_set_bit X i (logic_word v) s)) [0..<px_length X s] s"

definition assign_uint :: "'s proxy \<Rightarrow> u32 \<Rightarrow> 's \<Rightarrow> 's result" where
  "assign_uint X a s = bind_result (set_words X 0 a 0 s) (\<lambda>s1.
     bind_result (extend_sign_w X 1 False s1) (px_clean_tail X))"

definition assign_int :: "'s proxy \<Rightarrow> i32 \<Rightarrow> 's \<Rightarrow> 's result" where
  "assign_int X a s = bind_result (set_words X 0 a 0 s) (\<lambda>s1.
     bind_result (extend_sign_w X 1 (sint a < 0) s1) (px_clean_tail X))"

definition assign_uint64 :: "'s proxy \<Rightarrow> u64 \<Rightarrow> 's \<Rightarrow> 's result" where
  "assign_uint64 X a s = bind_result (set_words X 0 (ucast a AND NOT 0) 0 s) (\<lambda>s1.
     bind_result (if px_size X s1 > 1
       then bind_result (set_words X 1 (ucast (drop_bit 32 a) AND NOT 0) 0 s1) (extend_sign_w X 2 False)
       else Inr s1) (px_clean_tail X))"

definition proxy_assign_int64 :: "'s proxy \<Rightarrow> u64 \<Rightarrow> 's \<Rightarrow> 's result" where
  "proxy_assign_int64 X a s = bind_result (set_words X 0 (ucast a AND NOT 0) 0 s) (\<lambda>s1.
     bind_result (if px_size X s1 > 1
       then bind_result (set_words X 1 (ucast (drop_bit 32 a) AND NOT 0) 0 s1) (extend_sign_w X 2 (sint a < 0))
       else Inr s1) (px_clean_tail X))"

text \<open>\<open>long\<close> has 64 bits on the platform (\<open>SC_LONG_64\<close>).\<close>

definition assign_ulong :: "'s proxy \<Rightarrow> u64 \<Rightarrow> 's \<Rightarrow> 's result" where
  "assign_ulong X a s = bind_result (set_words X 0 (ucast a AND NOT 0) 0 s) (\<lambda>s1.
     bind_result (if px_size X s1 > 1
       then bind_result (set_words X 1 (ucast (drop_bit 32 a) AND NOT 0) 0 s1) (extend_sign_w X 2 False)
       else Inr s1) (px_clean_tail X))"

definition assign_long :: "'s proxy \<Rightarrow> u64 \<Rightarrow> 's \<Rightarrow> 's result" where
  "assign_long X a s = bind_result (set_words X 0 (ucast a AND NOT 0) 0 s) (\<lambda>s1.
     bind_result (if px_size X s1 > 1
       then bind_result (set_words X 1 (ucast (drop_bit 32 a) AND NOT 0) 0 s1) (extend_sign_w X 2 (sint a < 0))
       else Inr s1) (px_clean_tail X))"

text \<open>
  \<open>assign_v_\<close>: from the bits of an integer of another class, filled up with the sign of a signed one.
\<close>

definition assign_v :: "'s proxy \<Rightarrow> bool list \<Rightarrow> bool \<Rightarrow> 's \<Rightarrow> 's result" where
  "assign_v X a fill s = (let len_x = px_length X s; len_a = min (length a) len_x
     in bind_result (for_each (\<lambda>i s. bind_result (vec_at a i) (\<lambda>b. px_set_bit X i (of_bool b) s)) [0..<len_a] s)
          (for_each (\<lambda>i. px_set_bit X i (of_bool fill)) [len_a..<len_x]))"

section \<open>Character strings\<close>

text \<open>
  \<open>convert_to_bin\<close>: a string with a format prefix is converted by the fixed-point class \<open>sc_fix\<close>, the
  parameter \<open>fix_to_bin\<close> (the digits after the prefix of its binary form, \<open>None\<close> if the string is not
  valid); a string without is taken as it is. The last character of the result marks the two cases.
\<close>

fun drop_equal :: "string \<Rightarrow> string" where
  "drop_equal (c # d # p) = (if c = d then drop_equal (d # p) else c # d # p)"
| "drop_equal p = p"

definition convert_to_bin :: "(string \<Rightarrow> string option) \<Rightarrow> string \<Rightarrow> string result" where
  "convert_to_bin fix_to_bin s =
     (if s = [] then Inl Sc_report_error
      else let n = length s; i = (if s ! 0 = CHR ''-'' \<or> s ! 0 = CHR ''+'' then 1 else 0)
      in if n > i + 2 \<and> s ! i = CHR ''0'' \<and> s ! (i + 1) \<in> set ''bB'' \<and> s ! (i + 2) \<in> set ''01''
         then Inr (drop 2 s @ ''F'')
         else if n > i + 2 \<and> s ! i = CHR ''0'' \<and> s ! (i + 1) \<in> set ''bBcCdDoOxX''
         then (case fix_to_bin s of None \<Rightarrow> Inl Sc_report_error | Some str \<Rightarrow> Inr (drop_equal (str @ ''F'')))
         else Inr (s @ ''U''))"

definition string_bit :: "char \<Rightarrow> sc_logic_value_t result" where
  "string_bit c = vec_at char_to_logic (of_char c)"

text \<open>The cast of \<open>s[0] - '0'\<close>, whatever the character is.\<close>

definition fill_value :: "string \<Rightarrow> u32 result" where
  "fill_value s = bind_result (vec_at s (length s - 1)) (\<lambda>mark.
     if mark = CHR ''F'' then bind_result (vec_at s 0) (\<lambda>c. Inr (of_nat (of_char c) - 48)) else Inr 0)"

definition assign_binary :: "(char \<Rightarrow> u32 result) \<Rightarrow> 's proxy \<Rightarrow> string \<Rightarrow> 's \<Rightarrow> 's result" where
  "assign_binary value X s st =
     (let len = px_length X st; s_len = length s - 1; min_len = min len s_len
      in bind_result (for_each (\<lambda>i st. bind_result (vec_at s (s_len - i - 1)) (\<lambda>c.
           bind_result (value c) (\<lambda>x. px_set_bit X i x st))) [0..<min_len] st)
         (\<lambda>st1. bind_result (fill_value s) (\<lambda>x. for_each (\<lambda>i. px_set_bit X i x) [min_len..<len] st1)))"

definition lv_char :: "char \<Rightarrow> u32 result" where
  "lv_char c = bind_result (string_bit c) (\<lambda>v. Inr (logic_word v))"

definition assign_string :: "(string \<Rightarrow> string option) \<Rightarrow> 's proxy \<Rightarrow> string \<Rightarrow> 's \<Rightarrow> 's result" where
  "assign_string fix_to_bin X a st = bind_result (convert_to_bin fix_to_bin a) (\<lambda>s. assign_binary lv_char X s st)"

text \<open>\<open>sc_bv_base::assign_from_string\<close> and \<open>sc_lv_base::assign_from_string\<close>, on the vector itself.\<close>

definition bv_char :: "char \<Rightarrow> u32 result" where
  "bv_char c = (if c \<noteq> CHR ''0'' \<and> c \<noteq> CHR ''1'' then Inl Sc_report_error else Inr (of_nat (of_char c) - 48))"

definition assign_from_string :: "string \<Rightarrow> vec \<Rightarrow> vec result" where
  "assign_from_string s v = bind_result
     (assign_binary (case v_kind v of BV \<Rightarrow> bv_char | LV \<Rightarrow> lv_char) (whole 0) s (\<lambda>_. v)) (\<lambda>st. Inr (st 0))"

section \<open>Bitwise operators\<close>

definition b_not :: "'s proxy \<Rightarrow> 's \<Rightarrow> 's result" where
  "b_not X s = bind_result
     (for_each (\<lambda>i s. bind_result (get_words X i s) (\<lambda>(dw, cw). px_set_word X i (cw OR NOT dw) s)) [0..<px_size X s] s)
     (px_clean_tail X)"

definition b_and_assign :: "'s proxy \<Rightarrow> ('s, 'z) rproxy_scheme \<Rightarrow> 's \<Rightarrow> 's result" where
  "b_and_assign X Y s =
     (if px_length X s \<noteq> px_length Y s then Inl Assert_failed
      else for_each (\<lambda>i s. bind_result (get_words X i s) (\<lambda>(x_dw, x_cw). bind_result (get_words Y i s) (\<lambda>(y_dw, y_cw).
        let cw = (x_dw AND y_cw) OR (x_cw AND y_dw) OR (x_cw AND y_cw); dw = cw OR (x_dw AND y_dw)
        in set_words X i dw cw s))) [0..<px_size X s] s)"

definition b_or_assign :: "'s proxy \<Rightarrow> ('s, 'z) rproxy_scheme \<Rightarrow> 's \<Rightarrow> 's result" where
  "b_or_assign X Y s =
     (if px_length X s \<noteq> px_length Y s then Inl Assert_failed
      else for_each (\<lambda>i s. bind_result (get_words X i s) (\<lambda>(x_dw, x_cw). bind_result (get_words Y i s) (\<lambda>(y_dw, y_cw).
        let cw = (x_cw AND y_cw) OR (x_cw AND NOT y_dw) OR (NOT x_dw AND y_cw); dw = cw OR x_dw OR y_dw
        in set_words X i dw cw s))) [0..<px_size X s] s)"

definition b_xor_assign :: "'s proxy \<Rightarrow> ('s, 'z) rproxy_scheme \<Rightarrow> 's \<Rightarrow> 's result" where
  "b_xor_assign X Y s =
     (if px_length X s \<noteq> px_length Y s then Inl Assert_failed
      else for_each (\<lambda>i s. bind_result (get_words X i s) (\<lambda>(x_dw, x_cw). bind_result (get_words Y i s) (\<lambda>(y_dw, y_cw).
        let cw = x_cw OR y_cw; dw = cw OR (x_dw XOR y_dw)
        in set_words X i dw cw s))) [0..<px_size X s] s)"

section \<open>Shifts\<close>

text \<open>The loops that move words, and those that move bits between neighbouring words.\<close>

definition move_word :: "'s proxy \<Rightarrow> nat \<Rightarrow> nat \<Rightarrow> 's \<Rightarrow> 's result" where
  "move_word X from i s = bind_result (get_words X from s) (\<lambda>(dw, cw). set_words X i dw cw s)"

definition shl_words :: "'s proxy \<Rightarrow> nat \<Rightarrow> nat \<Rightarrow> 's \<Rightarrow> 's result" where
  "shl_words X sz wn s = bind_result (for_each (\<lambda>i. move_word X (i - wn) i) (rev [wn..<sz]) s)
     (for_each (\<lambda>i. set_words X i 0 0) (rev [0..<min wn sz]))"

definition shl_bits :: "'s proxy \<Rightarrow> nat \<Rightarrow> nat \<Rightarrow> 's \<Rightarrow> 's result" where
  "shl_bits X sz bn s = bind_result
     (for_each (\<lambda>i s. bind_result (get_words X i s) (\<lambda>(dw, cw). bind_result (get_words X (i - 1) s) (\<lambda>(dw1, cw1).
        set_words X i (push_bit bn dw OR drop_bit (32 - bn) dw1) (push_bit bn cw OR drop_bit (32 - bn) cw1) s)))
        (rev [1..<sz]) s)
     (\<lambda>s1. bind_result (get_words X 0 s1) (\<lambda>(dw, cw). set_words X 0 (push_bit bn dw) (push_bit bn cw) s1))"

definition shl_proxy :: "'s proxy \<Rightarrow> int \<Rightarrow> 's \<Rightarrow> 's result" where
  "shl_proxy X n s =
     (if n < 0 then Inl Sc_report_error
      else if n \<ge> int (px_length X s) then extend_sign_w X 0 False s
      else let sz = px_size X s; wn = nat n div 32; bn = nat n mod 32
      in bind_result (if wn \<noteq> 0 then shl_words X sz wn s else Inr s) (\<lambda>s1.
         bind_result (if bn \<noteq> 0 then shl_bits X sz bn s1 else Inr s1) (px_clean_tail X)))"

definition shr_words :: "'s proxy \<Rightarrow> nat \<Rightarrow> nat \<Rightarrow> 's \<Rightarrow> 's result" where
  "shr_words X sz wn s = bind_result (for_each (\<lambda>i. move_word X (i + wn) i) [0..<sz - wn] s)
     (for_each (\<lambda>i. set_words X i 0 0) [sz - wn..<sz])"

definition shr_bits :: "'s proxy \<Rightarrow> nat \<Rightarrow> nat \<Rightarrow> 's \<Rightarrow> 's result" where
  "shr_bits X sz bn s = bind_result
     (for_each (\<lambda>i s. bind_result (get_words X i s) (\<lambda>(dw, cw). bind_result (get_words X (i + 1) s) (\<lambda>(dw1, cw1).
        set_words X i (drop_bit bn dw OR push_bit (32 - bn) dw1) (drop_bit bn cw OR push_bit (32 - bn) cw1) s)))
        [0..<sz - 1] s)
     (\<lambda>s1. bind_result (get_words X (sz - 1) s1) (\<lambda>(dw, cw).
        set_words X (sz - 1) (drop_bit bn dw) (drop_bit bn cw) s1))"

definition shr_proxy :: "'s proxy \<Rightarrow> int \<Rightarrow> 's \<Rightarrow> 's result" where
  "shr_proxy X n s =
     (if n < 0 then Inl Sc_report_error
      else if n \<ge> int (px_length X s) then extend_sign_w X 0 False s
      else let sz = px_size X s; wn = nat n div 32; bn = nat n mod 32
      in bind_result (if wn \<noteq> 0 then shr_words X sz wn s else Inr s) (\<lambda>s1.
         bind_result (if bn \<noteq> 0 then shr_bits X sz bn s1 else Inr s1) (px_clean_tail X)))"

section \<open>Reversal, reductions, comparison\<close>

definition reverse_proxy :: "'s proxy \<Rightarrow> 's \<Rightarrow> 's result" where
  "reverse_proxy X s =
     (let len = px_length X s
      in for_each (\<lambda>i s. let j = len - 1 - i in bind_result (px_get_bit X i s) (\<lambda>t.
           bind_result (px_get_bit X j s) (\<lambda>u. bind_result (px_set_bit X i (logic_word u) s)
             (px_set_bit X j (logic_word t))))) [0..<len div 2] s)"

definition reduce_proxy :: "(sc_logic_value_t \<Rightarrow> sc_logic_value_t \<Rightarrow> sc_logic_value_t) \<Rightarrow> sc_logic_value_t \<Rightarrow>
    ('s, 'z) rproxy_scheme \<Rightarrow> 's \<Rightarrow> sc_logic_value_t result" where
  "reduce_proxy f init X s = for_each (\<lambda>i r. bind_result (px_get_bit X i s) (\<lambda>v. Inr (f r v))) [0..<px_length X s] init"

definition proxy_and_reduce :: "('s, 'z) rproxy_scheme \<Rightarrow> 's \<Rightarrow> sc_logic_value_t result" where
  "proxy_and_reduce = reduce_proxy logic_and Log_1"

definition proxy_or_reduce :: "('s, 'z) rproxy_scheme \<Rightarrow> 's \<Rightarrow> sc_logic_value_t result" where
  "proxy_or_reduce = reduce_proxy logic_or Log_0"

definition proxy_xor_reduce :: "('s, 'z) rproxy_scheme \<Rightarrow> 's \<Rightarrow> sc_logic_value_t result" where
  "proxy_xor_reduce = reduce_proxy logic_xor Log_0"

definition eq_proxy :: "('s, 'z) rproxy_scheme \<Rightarrow> ('s, 'y) rproxy_scheme \<Rightarrow> 's \<Rightarrow> bool result" where
  "eq_proxy X Y s =
     (if px_length X s \<noteq> px_length Y s then Inr False
      else bind_result (for_loop (\<lambda>i _. bind_result (get_words X i s) (\<lambda>x. bind_result (get_words Y i s) (\<lambda>y.
             Inr (if x \<noteq> y then Return False else Continue ())))) [0..<px_size X s] ())
           (\<lambda>fl. case fl of Return b \<Rightarrow> Inr b | Continue _ \<Rightarrow> Inr True))"

definition proxy_string :: "('s, 'z) rproxy_scheme \<Rightarrow> 's \<Rightarrow> string result" where
  "proxy_string X s = (let len = px_length X s
     in for_each (\<lambda>i str. bind_result (px_get_bit X (len - i - 1) s) (\<lambda>v. Inr (str @ [logic_char v]))) [0..<len] [])"

section \<open>Conversion to integers\<close>

text \<open>The warning for values other than 0 and 1 is a message; the data bits are used.\<close>

definition to_anything_unsigned :: "('s, 'z) rproxy_scheme \<Rightarrow> 's \<Rightarrow> u32 result" where
  "to_anything_unsigned X s = (let len = px_length X s
     in bind_result (get_words X 0 s) (\<lambda>(w, _).
       Inr (if len \<ge> 32 then w else w AND drop_bit (32 - len) (NOT 0))))"

definition to_uint64 :: "('s, 'z) rproxy_scheme \<Rightarrow> 's \<Rightarrow> u64 result" where
  "to_uint64 X s = (let len = px_length X s
     in bind_result (get_words X 0 s) (\<lambda>(w0, _). let w = ucast w0 :: u64
       in if len > 32 then bind_result (get_words X 1 s) (\<lambda>(w1, _). Inr (w OR push_bit 32 (ucast w1)))
          else if len = 32 then Inr w
          else Inr (w AND ucast (drop_bit (32 - len) (NOT 0) :: u32))))"

definition to_anything_signed :: "('s, 'z) rproxy_scheme \<Rightarrow> 's \<Rightarrow> u64 result" where
  "to_anything_signed X s = (let len = px_length X s
     in bind_result (if len > 32 then bind_result (get_words X 1 s) (\<lambda>(w1, _). Inr (ucast w1)) else Inr 0) (\<lambda>w1.
        bind_result (get_words X 0 s) (\<lambda>(w0, _). let w = push_bit 32 w1 OR ucast w0 :: u64
          in if len \<ge> 64 then Inr w
             else bind_result (px_get_bit X (len - 1) s) (\<lambda>sg.
               if sg = Log_0 then Inr (w AND drop_bit (64 - len) (NOT 0)) else Inr (w OR push_bit len (NOT 0))))))"

section \<open>Operators that make a new vector\<close>

definition value_of :: "vec \<Rightarrow> 's rproxy" where
  "value_of v = frozen (\<lambda>_. v) (whole 0)"

definition on_local :: "(store \<Rightarrow> store result) \<Rightarrow> vec \<Rightarrow> vec result" where
  "on_local f v = bind_result (f (\<lambda>_. v)) (\<lambda>st. Inr (st 0))"

text \<open>\<open>sc_lv_base a(n); a = x\<close>, and the constructor from a proxy.\<close>

definition lv_resized :: "int \<Rightarrow> ('s, 'z) rproxy_scheme \<Rightarrow> 's \<Rightarrow> vec result" where
  "lv_resized n Y s = bind_result (lv_init n Log_X) (on_local (assign_p False (whole 0) (frozen s Y)))"

definition lv_from :: "('s, 'z) rproxy_scheme \<Rightarrow> 's \<Rightarrow> vec result" where
  "lv_from Y s = lv_resized (int (px_length Y s)) Y s"

definition not_op :: "('s, 'z) rproxy_scheme \<Rightarrow> 's \<Rightarrow> vec result" where
  "not_op X s = bind_result (lv_from X s) (on_local (b_not (whole 0)))"

definition and_assign_proxy :: "'s proxy \<Rightarrow> ('s, 'z) rproxy_scheme \<Rightarrow> 's \<Rightarrow> 's result" where
  "and_assign_proxy X Y s = bind_result (lv_resized (int (px_length X s)) Y s) (\<lambda>a. b_and_assign X (value_of a) s)"

definition or_assign_proxy :: "'s proxy \<Rightarrow> ('s, 'z) rproxy_scheme \<Rightarrow> 's \<Rightarrow> 's result" where
  "or_assign_proxy X Y s = bind_result (lv_resized (int (px_length X s)) Y s) (\<lambda>a. b_or_assign X (value_of a) s)"

definition xor_assign_proxy :: "'s proxy \<Rightarrow> ('s, 'z) rproxy_scheme \<Rightarrow> 's \<Rightarrow> 's result" where
  "xor_assign_proxy X Y s = bind_result (lv_resized (int (px_length X s)) Y s) (\<lambda>a. b_xor_assign X (value_of a) s)"

definition and_op :: "('s, 'z) rproxy_scheme \<Rightarrow> ('s, 'y) rproxy_scheme \<Rightarrow> 's \<Rightarrow> vec result" where
  "and_op X Y s = bind_result (lv_from X s) (on_local (and_assign_proxy (whole 0) (frozen s Y)))"

definition or_op :: "('s, 'z) rproxy_scheme \<Rightarrow> ('s, 'y) rproxy_scheme \<Rightarrow> 's \<Rightarrow> vec result" where
  "or_op X Y s = bind_result (lv_from X s) (on_local (or_assign_proxy (whole 0) (frozen s Y)))"

definition xor_op :: "('s, 'z) rproxy_scheme \<Rightarrow> ('s, 'y) rproxy_scheme \<Rightarrow> 's \<Rightarrow> vec result" where
  "xor_op X Y s = bind_result (lv_from X s) (on_local (xor_assign_proxy (whole 0) (frozen s Y)))"

definition shl_op :: "('s, 'z) rproxy_scheme \<Rightarrow> int \<Rightarrow> 's \<Rightarrow> vec result" where
  "shl_op X n s = bind_result (lv_resized (int (px_length X s) + n) X s) (on_local (shl_proxy (whole 0) n))"

definition shr_op :: "('s, 'z) rproxy_scheme \<Rightarrow> int \<Rightarrow> 's \<Rightarrow> vec result" where
  "shr_op X n s = bind_result (lv_from X s) (on_local (shr_proxy (whole 0) n))"

definition join_words :: "'s proxy \<Rightarrow> vec \<Rightarrow> vec \<Rightarrow> 's \<Rightarrow> 's result" where
  "join_words X a b s = bind_result
     (for_each (\<lambda>i s. bind_result (get_words (value_of a) i s) (\<lambda>(a_dw, a_cw). bind_result (get_words (value_of b) i s)
        (\<lambda>(b_dw, b_cw). set_words X i (a_dw OR b_dw) (a_cw OR b_cw) s))) [0..<px_size X s] s) (px_clean_tail X)"

definition lrotate :: "'s proxy \<Rightarrow> int \<Rightarrow> 's \<Rightarrow> 's result" where
  "lrotate X n s =
     (if n < 0 then Inl Sc_report_error
      else let len = int (px_length X s); n = n mod len
      in bind_result (shl_op X n s) (\<lambda>a. bind_result (shr_op X (len - n) s) (\<lambda>b. join_words X a b s)))"

definition rrotate :: "'s proxy \<Rightarrow> int \<Rightarrow> 's \<Rightarrow> 's result" where
  "rrotate X n s =
     (if n < 0 then Inl Sc_report_error
      else let len = int (px_length X s); n = n mod len
      in bind_result (shr_op X n s) (\<lambda>a. bind_result (shl_op X (len - n) s) (\<lambda>b. join_words X a b s)))"

definition reverse_op :: "('s, 'z) rproxy_scheme \<Rightarrow> 's \<Rightarrow> vec result" where
  "reverse_op X s = bind_result (lv_from X s) (on_local (reverse_proxy (whole 0)))"

text \<open>
  \<open>sc_subref<X>::operator =\<close> for a source of class \<open>sc_subref<X>\<close> or \<open>sc_subref_r<X>\<close>, another part of an object of the
  same class: by way of a copy, bit by bit from the top. A source of any other class goes through \<open>assign_p_\<close>.
\<close>

definition assign_part :: "'s proxy \<Rightarrow> nat \<Rightarrow> nat \<Rightarrow> 's proxy \<Rightarrow> nat \<Rightarrow> nat \<Rightarrow> 's \<Rightarrow> 's result" where
  "assign_part X hi lo Y hi' lo' s = bind_result (lv_from (subref Y hi' lo') s) (\<lambda>t.
     for_each (\<lambda>i s. bind_result (vec_get_bit i t) (\<lambda>v. bind_result (part_index hi lo i) (\<lambda>m. px_set_bit X m (logic_word v) s)))
       (rev [0..<min (part_length hi lo) (v_len t)]) s)"

section \<open>Operations on one bit\<close>

definition bitref_assign :: "'s proxy \<Rightarrow> nat \<Rightarrow> sc_logic_value_t \<Rightarrow> 's \<Rightarrow> 's result" where
  "bitref_assign X idx a s = px_set_bit X idx (logic_word a) s"

definition bitref_and_assign :: "'s proxy \<Rightarrow> nat \<Rightarrow> sc_logic_value_t \<Rightarrow> 's \<Rightarrow> 's result" where
  "bitref_and_assign X idx a s = bind_result (px_get_bit X idx s) (\<lambda>v. px_set_bit X idx (logic_word (logic_and v a)) s)"

definition bitref_or_assign :: "'s proxy \<Rightarrow> nat \<Rightarrow> sc_logic_value_t \<Rightarrow> 's \<Rightarrow> 's result" where
  "bitref_or_assign X idx a s = bind_result (px_get_bit X idx s) (\<lambda>v. px_set_bit X idx (logic_word (logic_or v a)) s)"

definition bitref_xor_assign :: "'s proxy \<Rightarrow> nat \<Rightarrow> sc_logic_value_t \<Rightarrow> 's \<Rightarrow> 's result" where
  "bitref_xor_assign X idx a s = bind_result (px_get_bit X idx s) (\<lambda>v. px_set_bit X idx (logic_word (logic_xor v a)) s)"

definition bitref_not :: "'s proxy \<Rightarrow> nat \<Rightarrow> 's \<Rightarrow> 's result" where
  "bitref_not X idx s = bind_result (px_get_bit X idx s) (\<lambda>v. px_set_bit X idx (logic_word (logic_not v)) s)"

section \<open>Operands of other types\<close>

text \<open>
  The operators with an operand of a built-in type assign it to a logic vector of the length of the left
  operand first. \<open>unsigned\<close> and \<open>int\<close> operands are converted to \<open>unsigned long\<close> and \<open>long\<close>.
\<close>

datatype vec_operand = From_string string | From_bools "bool list" | From_logics "sc_logic_value_t list"
  | From_integer "bool list" bool | From_ulong u64 | From_long u64 | From_uint64 u64 | From_int64 u64

definition assign_operand :: "(string \<Rightarrow> string option) \<Rightarrow> vec_operand \<Rightarrow> vec \<Rightarrow> vec result" where
  "assign_operand fix_to_bin b v = (case b of
       From_string a \<Rightarrow> bind_result (convert_to_bin fix_to_bin a) (\<lambda>s. assign_from_string s v)
     | From_bools a \<Rightarrow> on_local (assign_bools (whole 0) a) v
     | From_logics a \<Rightarrow> on_local (assign_logics (whole 0) a) v
     | From_integer a fill \<Rightarrow> on_local (assign_v (whole 0) a fill) v
     | From_ulong a \<Rightarrow> on_local (assign_ulong (whole 0) a) v
     | From_long a \<Rightarrow> on_local (assign_long (whole 0) a) v
     | From_uint64 a \<Rightarrow> on_local (assign_uint64 (whole 0) a) v
     | From_int64 a \<Rightarrow> on_local (proxy_assign_int64 (whole 0) a) v)"

definition lv_of_operand :: "(string \<Rightarrow> string option) \<Rightarrow> nat \<Rightarrow> vec_operand \<Rightarrow> vec result" where
  "lv_of_operand fix_to_bin n b = bind_result (lv_init (int n) Log_X) (assign_operand fix_to_bin b)"

definition and_assign_operand :: "(string \<Rightarrow> string option) \<Rightarrow> 's proxy \<Rightarrow> vec_operand \<Rightarrow> 's \<Rightarrow> 's result" where
  "and_assign_operand fix_to_bin X b s =
     bind_result (lv_of_operand fix_to_bin (px_length X s) b) (\<lambda>a. b_and_assign X (value_of a) s)"

definition or_assign_operand :: "(string \<Rightarrow> string option) \<Rightarrow> 's proxy \<Rightarrow> vec_operand \<Rightarrow> 's \<Rightarrow> 's result" where
  "or_assign_operand fix_to_bin X b s =
     bind_result (lv_of_operand fix_to_bin (px_length X s) b) (\<lambda>a. b_or_assign X (value_of a) s)"

definition xor_assign_operand :: "(string \<Rightarrow> string option) \<Rightarrow> 's proxy \<Rightarrow> vec_operand \<Rightarrow> 's \<Rightarrow> 's result" where
  "xor_assign_operand fix_to_bin X b s =
     bind_result (lv_of_operand fix_to_bin (px_length X s) b) (\<lambda>a. b_xor_assign X (value_of a) s)"

definition eq_operand :: "(string \<Rightarrow> string option) \<Rightarrow> ('s, 'z) rproxy_scheme \<Rightarrow> vec_operand \<Rightarrow> 's \<Rightarrow> bool result" where
  "eq_operand fix_to_bin X b s =
     bind_result (lv_of_operand fix_to_bin (px_length X s) b) (\<lambda>y. eq_proxy X (value_of y) s)"

text \<open>The constructors from a string, with the length of the string and with a given length.\<close>

definition lv_of_string :: "(string \<Rightarrow> string option) \<Rightarrow> string \<Rightarrow> vec result" where
  "lv_of_string fix_to_bin a = bind_result (convert_to_bin fix_to_bin a) (\<lambda>s.
     bind_result (lv_init (int (length s) - 1) Log_X) (assign_from_string s))"

definition lv_of_string_len :: "(string \<Rightarrow> string option) \<Rightarrow> string \<Rightarrow> int \<Rightarrow> vec result" where
  "lv_of_string_len fix_to_bin a n = bind_result (lv_init n Log_X) (\<lambda>v.
     bind_result (convert_to_bin fix_to_bin a) (\<lambda>s. assign_from_string s v))"

definition bv_of_string :: "(string \<Rightarrow> string option) \<Rightarrow> string \<Rightarrow> vec result" where
  "bv_of_string fix_to_bin a = bind_result (convert_to_bin fix_to_bin a) (\<lambda>s.
     bind_result (bv_init (int (length s) - 1) False) (assign_from_string s))"

definition bv_of_string_len :: "(string \<Rightarrow> string option) \<Rightarrow> string \<Rightarrow> int \<Rightarrow> vec result" where
  "bv_of_string_len fix_to_bin a n = bind_result (bv_init n False) (\<lambda>v.
     bind_result (convert_to_bin fix_to_bin a) (\<lambda>s. assign_from_string s v))"

end
