(* ===== verification/Sc_Proxy_Ops_Facts.thy ===== *)
theory Sc_Proxy_Ops_Facts
  imports Sc_Proxy_Ops
begin

text \<open>
  The operations of \<open>sc_proxy.h\<close> on lists of values: what each leaves in the places of its proxy, that it
  changes no other place, and that the store is clean again at its end.
\<close>

unbundle bit_operations_syntax

section \<open>Runs and outcomes\<close>

lemma for_each_inv:
  assumes "I 0 s" "\<And>i s. i < length xs \<Longrightarrow> I i s \<Longrightarrow> \<exists>s'. body (xs ! i) s = Inr s' \<and> I (Suc i) s'"
  shows "\<exists>s'. for_each body xs s = Inr s' \<and> I (length xs) s'"
  using assms
proof (induction xs arbitrary: s I)
  case (Cons x xs)
  obtain s1 where s1: "body x s = Inr s1" "I (Suc 0) s1" using Cons.prems(1) Cons.prems(2) [of 0 s] by auto
  have "\<exists>s'. for_each body xs s1 = Inr s' \<and> I (Suc (length xs)) s'"
    using Cons.IH [of "\<lambda>i. I (Suc i)" s1] s1(2) Cons.prems(2) by fastforce
  then show ?case using s1(1) by simp
qed simp

text \<open>A value in a place of a bit vector loses its control bit.\<close>

definition fit :: "shape \<Rightarrow> place \<Rightarrow> sc_logic_value_t \<Rightarrow> sc_logic_value_t" where
  "fit sh l v = of_bits (data_bit v) (holds sh Ctrl l \<and> ctrl_bit v)"

lemma plane_bit_fit: "plane_bit pl (fit sh l v) \<longleftrightarrow> holds sh pl l \<and> plane_bit pl v"
  by (cases pl) (simp_all add: fit_def plane_bit_def holds_def kind_holds_def)

lemma fit_LV: "fst (sh (fst l)) = LV \<Longrightarrow> fit sh l v = v"
  by (simp add: fit_def holds_def kind_holds_def)

lemma fit_01: "\<not> ctrl_bit v \<Longrightarrow> fit sh l v = v"
  by (cases v) (simp_all add: fit_def of_bits_def data_bit_def ctrl_bit_def)

lemma fit_pval: "store_ok sh s \<Longrightarrow> fit sh l (pval s l) = pval s l"
  using pbit_holds [of sh s _ l] by (intro plane_eqI) (simp add: plane_bit_fit, blast)

definition outcome :: "shape \<Rightarrow> place list \<Rightarrow> store \<Rightarrow> store \<Rightarrow> sc_logic_value_t list \<Rightarrow> bool" where
  "outcome sh L s s' xs \<longleftrightarrow> store_fine sh s' \<and> contents s' L = map2 (fit sh) L xs \<and>
     (\<forall>l. valid sh l \<longrightarrow> l \<notin> set L \<longrightarrow> pval s' l = pval s l)"

definition writes :: "shape \<Rightarrow> place list \<Rightarrow> store \<Rightarrow> store result \<Rightarrow> sc_logic_value_t list \<Rightarrow> bool" where
  "writes sh L s r xs \<longleftrightarrow> (\<exists>s'. r = Inr s' \<and> outcome sh L s s' xs)"

definition running :: "shape \<Rightarrow> place list \<Rightarrow> nat set \<Rightarrow> store \<Rightarrow> store \<Rightarrow> bool" where
  "running sh L D s0 s \<longleftrightarrow> moves sh (set L) s0 s \<and> keeps_clean D s0 s"

lemma running_refl: "store_ok sh s \<Longrightarrow> running sh L D s s"
  by (simp add: running_def moves_refl)

text \<open>
  A loop in progress: the positions in \<open>N\<close> have their new values \<open>ys\<close>, the others their old ones \<open>xs\<close>; with \<open>q\<close>
  the store stays clean throughout.
\<close>

definition progress :: "shape \<Rightarrow> place list \<Rightarrow> nat set \<Rightarrow> store \<Rightarrow> bool \<Rightarrow> sc_logic_value_t list \<Rightarrow>
    sc_logic_value_t list \<Rightarrow> nat set \<Rightarrow> store \<Rightarrow> bool" where
  "progress sh L D s0 q xs ys N s \<longleftrightarrow> running sh L D s0 s \<and> (q \<longrightarrow> store_clean s) \<and>
     (\<forall>pl n. n < length L \<longrightarrow> (pbit pl s (L ! n) \<longleftrightarrow>
        (if n \<in> N then holds sh pl (L ! n) \<and> plane_bit pl (ys ! n) else plane_bit pl (xs ! n))))"

definition words_of :: "nat set \<Rightarrow> nat set" where
  "words_of I = {n. n div 32 \<in> I}"

lemma words_of_simps [simp]: "n \<in> words_of I \<longleftrightarrow> n div 32 \<in> I" "words_of {} = {}"
  "words_of (I \<union> J) = words_of I \<union> words_of J"
  by (auto simp: words_of_def)

lemma progress_running: "progress sh L D s0 q xs ys N s \<Longrightarrow> running sh L D s0 s"
  by (simp add: progress_def)

lemma progress_start: "store_fine sh s0 \<Longrightarrow> xs = contents s0 L \<Longrightarrow> progress sh L D s0 q xs ys {} s0"
  by (simp add: progress_def running_refl store_fine_def contents_def)

text \<open>A loop over indices, each of which makes the progress \<open>pos\<close> says.\<close>

lemma loop_progress:
  assumes "progress sh L D s0 q xs ys N s"
    and "\<And>pre i post s. is = pre @ i # post \<Longrightarrow> progress sh L D s0 q xs ys (N \<union> \<Union> (pos ` set pre)) s \<Longrightarrow>
      \<exists>s'. body i s = Inr s' \<and> progress sh L D s0 q xs ys (N \<union> \<Union> (pos ` set pre) \<union> pos i) s'"
  shows "\<exists>s'. for_each body is s = Inr s' \<and> progress sh L D s0 q xs ys (N \<union> \<Union> (pos ` set is)) s'"
  using assms
proof (induction "is" arbitrary: N s)
  case (Cons i "is")
  obtain s1 where s1: "body i s = Inr s1" "progress sh L D s0 q xs ys (N \<union> pos i) s1"
    using Cons.prems(2) [of "[]" i "is" s] Cons.prems(1) by auto
  have "\<exists>s'. for_each body is s1 = Inr s' \<and> progress sh L D s0 q xs ys (N \<union> pos i \<union> \<Union> (pos ` set is)) s'"
  proof (rule Cons.IH [OF s1(2)])
    fix pre j post s
    assume "is = pre @ j # post" "progress sh L D s0 q xs ys (N \<union> pos i \<union> \<Union> (pos ` set pre)) s"
    then show "\<exists>s'. body j s = Inr s' \<and> progress sh L D s0 q xs ys (N \<union> pos i \<union> \<Union> (pos ` set pre) \<union> pos j) s'"
      using Cons.prems(2) [of "i # pre" j post s] by (simp add: Un_assoc)
  qed
  then show ?case using s1(1) by (simp add: Un_assoc)
qed simp

lemma words_loop:
  assumes "progress sh L D s0 q xs ys (words_of I) s"
    and "\<And>pre i post s. is = pre @ i # post \<Longrightarrow> progress sh L D s0 q xs ys (words_of (I \<union> set pre)) s \<Longrightarrow>
      \<exists>s'. body i s = Inr s' \<and> progress sh L D s0 q xs ys (words_of (insert i (I \<union> set pre))) s'"
  shows "\<exists>s'. for_each body is s = Inr s' \<and> progress sh L D s0 q xs ys (words_of (I \<union> set is)) s'"
proof -
  have words: "words_of I \<union> \<Union> ((\<lambda>i. words_of {i}) ` J) = words_of (I \<union> J)" for J by (auto simp: words_of_def)
  have insert: "words_of (I \<union> J) \<union> words_of {i} = words_of (insert i (I \<union> J))" for J i by (auto simp: words_of_def)
  show ?thesis
    using loop_progress [OF assms(1), of "is" "\<lambda>i. words_of {i}" body] assms(2) unfolding words insert by blast
qed

context writable
begin

lemma running_ready: "store_fine sh s0 \<Longrightarrow> running sh L D s0 s \<Longrightarrow> ready sh Os D s"
  by (auto simp: store_fine_def store_clean_def running_def moves_def keeps_clean_def ready_def)

lemma running_step: "running sh L D s0 s \<Longrightarrow> moves sh M s s' \<Longrightarrow> M \<subseteq> set L \<Longrightarrow> keeps_clean D s s' \<Longrightarrow> running sh L D s0 s'"
  unfolding running_def using moves_trans [of sh "set L" s0 s M s' "set L"] keeps_clean_trans by blast

lemma word_places_subset: "word_places L i \<subseteq> set L"
  by (auto simp: word_places_def)

lemma positive: "ready sh Os D s \<Longrightarrow> 0 < length L"
  using places by auto

lemma get_words_ok:
  assumes "ready sh Os D s" "i < word_count (length L)"
  obtains W where "get_words X i s = Inr (W Data, W Ctrl)"
    "\<And>pl n. n < length L \<Longrightarrow> n div 32 = i \<Longrightarrow> bit (W pl) (n mod 32) \<longleftrightarrow> pbit pl s (L ! n)"
    "\<And>pl. \<forall>a\<in>Os. vec_clean (s a) \<Longrightarrow> tail_zero (length L) i (W pl)"
proof -
  have "\<exists>w. px_get pl X i s = Inr w \<and> (\<forall>n<length L. n div 32 = i \<longrightarrow> (bit w (n mod 32) \<longleftrightarrow> pbit pl s (L ! n))) \<and>
      ((\<forall>a\<in>Os. vec_clean (s a)) \<longrightarrow> tail_zero (length L) i w)" for pl
    using get_word_law [OF assms] .
  then obtain W where W: "\<And>pl. px_get pl X i s = Inr (W pl)"
    "\<And>pl n. n < length L \<Longrightarrow> n div 32 = i \<Longrightarrow> bit (W pl) (n mod 32) \<longleftrightarrow> pbit pl s (L ! n)"
    "\<And>pl. \<forall>a\<in>Os. vec_clean (s a) \<Longrightarrow> tail_zero (length L) i (W pl)" by metis
  have "px_get_word X i s = Inr (W Data)" "px_get_cword X i s = Inr (W Ctrl)"
    using W(1) [of Data] W(1) [of Ctrl] by (simp_all add: px_get_def)
  then show thesis using that W(2,3) by (simp add: get_words_def)
qed

lemma set_words_ok:
  assumes fine: "store_fine sh s0" and run: "running sh L D s0 s" and i: "i < word_count (length L)"
  obtains s' where "set_words X i (W Data) (W Ctrl) s = Inr s'" "running sh L D s0 s'"
    "\<And>pl n. n < length L \<Longrightarrow> pbit pl s' (L ! n) \<longleftrightarrow>
      (if n div 32 = i then holds sh pl (L ! n) \<and> bit (W pl) (n mod 32) else pbit pl s (L ! n))"
    "store_clean s \<Longrightarrow> (\<And>pl. tail_zero (length L) i (W pl)) \<Longrightarrow> store_clean s'"
proof -
  have r: "ready sh Os D s" using running_ready [OF fine run] .
  obtain s1 where s1: "px_put Data X i (W Data) s = Inr s1" "moves sh (word_places L i) s s1" "keeps_clean D s s1"
    "(\<forall>a\<in>Os. vec_clean (s a)) \<longrightarrow> tail_zero (length L) i (W Data) \<longrightarrow> keeps_clean {} s s1"
    "\<And>pl' n. n < length L \<Longrightarrow> n div 32 = i \<Longrightarrow> pbit pl' s1 (L ! n) \<longleftrightarrow>
      (if pl' = Data then holds sh Data (L ! n) \<and> bit (W Data) (n mod 32) else pbit pl' s (L ! n))"
    using set_word_law [OF r i, of Data "W Data"] by blast
  have run1: "running sh L D s0 s1" using running_step [OF run s1(2) word_places_subset s1(3)] .
  have r1: "ready sh Os D s1" using running_ready [OF fine run1] .
  obtain s' where s': "px_put Ctrl X i (W Ctrl) s1 = Inr s'" "moves sh (word_places L i) s1 s'" "keeps_clean D s1 s'"
    "(\<forall>a\<in>Os. vec_clean (s1 a)) \<longrightarrow> tail_zero (length L) i (W Ctrl) \<longrightarrow> keeps_clean {} s1 s'"
    "\<And>pl' n. n < length L \<Longrightarrow> n div 32 = i \<Longrightarrow> pbit pl' s' (L ! n) \<longleftrightarrow>
      (if pl' = Ctrl then holds sh Ctrl (L ! n) \<and> bit (W Ctrl) (n mod 32) else pbit pl' s1 (L ! n))"
    using set_word_law [OF r1 i, of Ctrl "W Ctrl"] by blast
  have "pbit pl s' (L ! n) \<longleftrightarrow> (if n div 32 = i then holds sh pl (L ! n) \<and> bit (W pl) (n mod 32) else pbit pl s (L ! n))"
    if n: "n < length L" for pl n
  proof (cases "n div 32 = i")
    case True
    then show ?thesis using s1(5) [OF n True, of pl] s'(5) [OF n True, of pl] by (cases pl) auto
  next
    case False
    have "L ! n \<notin> word_places L i"
      using False n nth_eq_iff_index_eq [OF distinct] by (auto simp: word_places_def)
    then show ?thesis using False moves_other [OF s1(2)] moves_other [OF s'(2)] places [OF r] n by auto
  qed
  moreover have "running sh L D s0 s'" using running_step [OF run1 s'(2) word_places_subset s'(3)] .
  moreover have "store_clean s'" if "store_clean s" "\<And>pl. tail_zero (length L) i (W pl)"
    using that s1(4) s'(4) by (auto simp: store_clean_def keeps_clean_def)
  ultimately show thesis using that s1(1) s'(1) by (simp add: set_words_def px_put_def)
qed

text \<open>A run ends by cleaning the tail, or clean.\<close>

lemma outcomeI:
  assumes fine: "store_fine sh s0" and run: "running sh L D s0 s" and clean: "store_clean s" and len: "length xs = length L"
    and bits: "\<And>pl n. n < length L \<Longrightarrow> pbit pl s (L ! n) \<longleftrightarrow> holds sh pl (L ! n) \<and> plane_bit pl (xs ! n)"
  shows "outcome sh L s0 s xs"
proof -
  have "contents s L = map2 (fit sh) L xs"
    using len bits by (intro nth_equalityI plane_eqI) (simp_all add: contents_def plane_bit_fit)
  moreover have "pval s l = pval s0 l" if "valid sh l" "l \<notin> set L" for l
    using run that plane_bit_pval unfolding running_def moves_def by (intro plane_eqI) blast
  ultimately show ?thesis using run clean by (simp add: outcome_def store_fine_def running_def moves_def)
qed

lemma clean_outcome:
  assumes fine: "store_fine sh s0" and run: "running sh L D s0 s" and len: "length xs = length L"
    and bits: "\<And>pl n. n < length L \<Longrightarrow> pbit pl s (L ! n) \<longleftrightarrow> holds sh pl (L ! n) \<and> plane_bit pl (xs ! n)"
  shows "writes sh L s0 (px_clean_tail X s) xs"
proof -
  have r: "ready sh Os D s" using running_ready [OF fine run] .
  obtain s' where s': "px_clean_tail X s = Inr s'" "moves sh {} s s'" "keeps_clean {} s s'" "\<forall>a\<in>D. vec_clean (s' a)"
    using clean_tail_law [OF r] by blast
  have run': "running sh L D s0 s'" using running_step [OF run s'(2)] keeps_clean_mono [OF s'(3)] by simp
  have "store_clean s'"
    using fine run s'(3,4) by (auto simp: store_fine_def store_clean_def running_def keeps_clean_def)
  moreover have "pbit pl s' (L ! n) = pbit pl s (L ! n)" if "n < length L" for pl n
    using moves_other [OF s'(2)] places [OF r] that by simp
  ultimately have "outcome sh L s0 s' xs" using outcomeI [OF fine run' _ len] bits by simp
  then show ?thesis using s'(1) by (auto simp: writes_def)
qed

text \<open>Reading a word that is not done yet, and writing a word.\<close>

lemma progress_get_words:
  assumes fine: "store_fine sh s0" and prog: "progress sh L D s0 q xs ys (words_of I) s"
    and i: "i < word_count (length L)" "i \<notin> I"
  obtains W where "get_words X i s = Inr (W Data, W Ctrl)"
    "\<And>pl n. n < length L \<Longrightarrow> n div 32 = i \<Longrightarrow> bit (W pl) (n mod 32) \<longleftrightarrow> plane_bit pl (xs ! n)"
    "\<And>pl. q \<Longrightarrow> tail_zero (length L) i (W pl)"
proof -
  have r: "ready sh Os D s" using running_ready [OF fine progress_running [OF prog]] .
  show thesis
  proof (rule get_words_ok [OF r i(1)])
    fix W assume "get_words X i s = Inr (W Data, W Ctrl)"
      "\<And>pl n. n < length L \<Longrightarrow> n div 32 = i \<Longrightarrow> bit (W pl) (n mod 32) \<longleftrightarrow> pbit pl s (L ! n)"
      "\<And>pl. \<forall>a\<in>Os. vec_clean (s a) \<Longrightarrow> tail_zero (length L) i (W pl)"
    then show thesis using that prog i(2) by (simp add: progress_def store_clean_def)
  qed
qed

lemma progress_set_words:
  assumes fine: "store_fine sh s0" and prog: "progress sh L D s0 q xs ys (words_of I) s" and i: "i < word_count (length L)"
    and W: "\<And>pl n. n < length L \<Longrightarrow> n div 32 = i \<Longrightarrow> bit (W pl) (n mod 32) \<longleftrightarrow> plane_bit pl (ys ! n)"
    and tail: "\<And>pl. q \<Longrightarrow> tail_zero (length L) i (W pl)"
  shows "\<exists>s'. set_words X i (W Data) (W Ctrl) s = Inr s' \<and> progress sh L D s0 q xs ys (words_of (insert i I)) s'"
proof -
  obtain s' where s': "set_words X i (W Data) (W Ctrl) s = Inr s'" "running sh L D s0 s'"
    "\<And>pl n. n < length L \<Longrightarrow> pbit pl s' (L ! n) \<longleftrightarrow>
      (if n div 32 = i then holds sh pl (L ! n) \<and> bit (W pl) (n mod 32) else pbit pl s (L ! n))"
    "store_clean s \<Longrightarrow> (\<And>pl. tail_zero (length L) i (W pl)) \<Longrightarrow> store_clean s'"
    by (rule set_words_ok [OF fine progress_running [OF prog] i, of W]) blast
  have "progress sh L D s0 q xs ys (words_of (insert i I)) s'"
    using prog s'(2,4) tail by (auto simp: progress_def s'(3) W)
  then show ?thesis using s'(1) by blast
qed

text \<open>The end of the loops.\<close>

lemma all_words: "n < length L \<Longrightarrow> n div 32 < word_count (length L)"
  by (rule index_below_count) auto

lemma progress_clean:
  assumes fine: "store_fine sh s0" and prog: "progress sh L D s0 q xs ys N s" and "{..<length L} \<subseteq> N" "length ys = length L"
  shows "writes sh L s0 (px_clean_tail X s) ys"
proof (rule clean_outcome [OF fine progress_running [OF prog] assms(4)])
  fix pl n assume "n < length L"
  then show "pbit pl s (L ! n) \<longleftrightarrow> holds sh pl (L ! n) \<and> plane_bit pl (ys ! n)"
    using prog assms(3) by (auto simp: progress_def)
qed

lemma progress_end:
  assumes fine: "store_fine sh s0" and prog: "progress sh L D s0 True xs ys N s" and "{..<length L} \<subseteq> N" "length ys = length L"
  shows "outcome sh L s0 s ys"
proof (rule outcomeI [OF fine progress_running [OF prog] _ assms(4)])
  show "store_clean s" using prog by (simp add: progress_def)
  fix pl n assume "n < length L"
  then show "pbit pl s (L ! n) \<longleftrightarrow> holds sh pl (L ! n) \<and> plane_bit pl (ys ! n)"
    using prog assms(3) by (auto simp: progress_def)
qed

end

section \<open>Bitwise operators\<close>

context readable
begin

lemma read_words: "P s \<Longrightarrow> i < word_count (length (c s)) \<Longrightarrow>
    get_words X i s = Inr (plane_word Data (c s) i, plane_word Ctrl (c s) i)"
  using read_word [of s i Data] read_word [of s i Ctrl] by (simp add: get_words_def px_get_def)

end

text \<open>Word operations that compute an operator \<open>f\<close> on the bits.\<close>

definition computes :: "(sc_logic_value_t \<Rightarrow> sc_logic_value_t \<Rightarrow> sc_logic_value_t) \<Rightarrow>
    (plane \<Rightarrow> u32 \<Rightarrow> u32 \<Rightarrow> u32 \<Rightarrow> u32 \<Rightarrow> u32) \<Rightarrow> bool" where
  "computes f F \<longleftrightarrow> f Log_0 Log_0 = Log_0 \<and> (\<forall>pl xd xc yd yc k. k < 32 \<longrightarrow> (bit (F pl xd xc yd yc) k \<longleftrightarrow>
     plane_bit pl (f (of_bits (bit xd k) (bit xc k)) (of_bits (bit yd k) (bit yc k)))))"

definition and_words :: "plane \<Rightarrow> u32 \<Rightarrow> u32 \<Rightarrow> u32 \<Rightarrow> u32 \<Rightarrow> u32" where
  "and_words pl xd xc yd yc = (let cw = (xd AND yc) OR (xc AND yd) OR (xc AND yc)
     in case pl of Data \<Rightarrow> cw OR (xd AND yd) | Ctrl \<Rightarrow> cw)"

definition or_words :: "plane \<Rightarrow> u32 \<Rightarrow> u32 \<Rightarrow> u32 \<Rightarrow> u32 \<Rightarrow> u32" where
  "or_words pl xd xc yd yc = (let cw = (xc AND yc) OR (xc AND NOT yd) OR (NOT xd AND yc)
     in case pl of Data \<Rightarrow> cw OR xd OR yd | Ctrl \<Rightarrow> cw)"

definition xor_words :: "plane \<Rightarrow> u32 \<Rightarrow> u32 \<Rightarrow> u32 \<Rightarrow> u32 \<Rightarrow> u32" where
  "xor_words pl xd xc yd yc = (let cw = xc OR yc in case pl of Data \<Rightarrow> cw OR (xd XOR yd) | Ctrl \<Rightarrow> cw)"

lemma logic_zero: "logic_and Log_0 Log_0 = Log_0" "logic_or Log_0 Log_0 = Log_0" "logic_xor Log_0 Log_0 = Log_0"
  by (simp_all add: logic_tables)

lemmas word_bits = bit_and_iff bit_or_iff bit_xor_iff bit_not_iff

lemma and_words: "computes logic_and and_words"
  by (simp add: computes_def and_words_def plane_bit_def logic_and_bits word_bits Let_def logic_zero split: plane.splits)

lemma or_words: "computes logic_or or_words"
  by (simp add: computes_def or_words_def plane_bit_def logic_or_bits word_bits Let_def logic_zero split: plane.splits)

lemma xor_words: "computes logic_xor xor_words"
  by (simp add: computes_def xor_words_def plane_bit_def logic_xor_bits word_bits Let_def logic_zero split: plane.splits)

context writable
begin

text \<open>The loop of \<open>b_and_assign\<close>, \<open>b_or_assign\<close> and \<open>b_xor_assign\<close>.\<close>

lemma combine_loop:
  assumes fine: "store_fine sh s" and Y: "readable Y (running sh L D s) (\<lambda>_. ys)" and len: "length ys = length L"
    and f: "computes f F"
  shows "writes sh L s (for_each (\<lambda>i s. bind_result (get_words X i s) (\<lambda>(xd, xc). bind_result (get_words Y i s)
      (\<lambda>(yd, yc). set_words X i (F Data xd xc yd yc) (F Ctrl xd xc yd yc) s))) [0..<px_size X s] s)
    (map2 f (contents s L) ys)"
proof -
  define xs where "xs = contents s L"
  define zs where "zs = map2 f xs ys"
  have lens: "length xs = length L" "length zs = length L" by (simp_all add: xs_def zs_def len)
  have start: "progress sh L D s True xs zs (words_of {}) s"
    using progress_start [OF fine, of xs L D True zs] xs_def by simp
  let ?body = "\<lambda>i s. bind_result (get_words X i s) (\<lambda>(xd, xc). bind_result (get_words Y i s)
      (\<lambda>(yd, yc). set_words X i (F Data xd xc yd yc) (F Ctrl xd xc yd yc) s))"
  have "\<exists>s'. for_each ?body [0..<px_size X s] s = Inr s' \<and>
      progress sh L D s True xs zs (words_of ({} \<union> set [0..<px_size X s])) s'"
  proof (rule words_loop [OF start])
    fix pre i post s1 assume split: "[0..<px_size X s] = pre @ i # post"
      and prog: "progress sh L D s True xs zs (words_of ({} \<union> set pre)) s1"
    have "i \<in> set [0..<px_size X s]" using split by simp
    then have i: "i < word_count (length L)" using read.read_size [OF fine] by simp
    have fresh: "i \<notin> {} \<union> set pre" using split distinct_upt [of 0 "px_size X s"] by auto
    obtain W where W: "get_words X i s1 = Inr (W Data, W Ctrl)"
      "\<And>pl n. n < length L \<Longrightarrow> n div 32 = i \<Longrightarrow> bit (W pl) (n mod 32) \<longleftrightarrow> plane_bit pl (xs ! n)"
      "\<And>pl. tail_zero (length L) i (W pl)"
      by (rule progress_get_words [OF fine prog i fresh]) blast
    have V: "get_words Y i s1 = Inr (plane_word Data ys i, plane_word Ctrl ys i)"
      using readable.read_words [OF Y, OF progress_running [OF prog]] i by (simp add: len)
    let ?V = "\<lambda>pl. F pl (W Data) (W Ctrl) (plane_word Data ys i) (plane_word Ctrl ys i)"
    have bits: "bit (?V pl) (n mod 32) \<longleftrightarrow> plane_bit pl (f (of_bits (bit (W Data) (n mod 32)) (bit (W Ctrl) (n mod 32)))
        (if n < length L then ys ! n else Log_0))" if "n div 32 = i" for pl n
    proof -
      have "of_bits (bit (plane_word Data ys i) (n mod 32)) (bit (plane_word Ctrl ys i) (n mod 32)) =
          (if n < length L then ys ! n else Log_0)"
        unfolding that [symmetric] bit_plane_word_mod by (simp add: of_bits_eq_iff len plane_bit_def data_bit_def ctrl_bit_def)
      then show ?thesis using f by (simp add: computes_def)
    qed
    have "\<exists>s'. set_words X i (?V Data) (?V Ctrl) s1 = Inr s' \<and>
        progress sh L D s True xs zs (words_of (insert i ({} \<union> set pre))) s'"
    proof (rule progress_set_words [OF fine prog i])
      fix pl n assume n: "n < length L" "n div 32 = i"
      have "of_bits (bit (W Data) (n mod 32)) (bit (W Ctrl) (n mod 32)) = xs ! n"
        using W(2) [OF n] by (simp add: of_bits_eq_iff plane_bit_def)
      then show "bit (?V pl) (n mod 32) \<longleftrightarrow> plane_bit pl (zs ! n)"
        using bits [OF n(2)] n(1) lens by (simp add: zs_def len)
    next
      fix pl
      show "tail_zero (length L) i (?V pl)"
        unfolding tail_zero_def
      proof (intro allI impI)
        fix n assume n: "length L \<le> n \<and> n div 32 = i"
        have "of_bits (bit (W Data) (n mod 32)) (bit (W Ctrl) (n mod 32)) = Log_0"
          using W(3) n by (simp add: of_bits_eq_iff tail_zero_def data_bit_def ctrl_bit_def)
        then show "\<not> bit (?V pl) (n mod 32)"
          using bits [of n pl] n f by (cases pl) (simp_all add: computes_def plane_bit_def data_bit_def ctrl_bit_def)
      qed
    qed
    then show "\<exists>s'. ?body i s1 = Inr s' \<and> progress sh L D s True xs zs (words_of (insert i ({} \<union> set pre))) s'"
      by (simp add: W(1) V)
  qed
  then obtain s' where s': "for_each ?body [0..<px_size X s] s = Inr s'"
    "progress sh L D s True xs zs (words_of ({} \<union> set [0..<px_size X s])) s'" by blast
  have "outcome sh L s s' zs"
    by (rule progress_end [OF fine s'(2)]) (use all_words lens read.read_size [OF fine] in auto)
  then show ?thesis using s'(1) by (simp add: writes_def zs_def xs_def)
qed

lemma b_and_assign_ok:
  assumes "store_fine sh s" "readable Y (running sh L D s) (\<lambda>_. ys)" "length ys = length L"
  shows "writes sh L s (b_and_assign X Y s) (map2 logic_and (contents s L) ys)"
  using combine_loop [OF assms and_words] read.read_length [OF assms(1)] assms
    readable.read_length [OF assms(2), OF running_refl]
  by (simp add: b_and_assign_def and_words_def Let_def store_fine_def)

lemma b_or_assign_ok:
  assumes "store_fine sh s" "readable Y (running sh L D s) (\<lambda>_. ys)" "length ys = length L"
  shows "writes sh L s (b_or_assign X Y s) (map2 logic_or (contents s L) ys)"
  using combine_loop [OF assms or_words] read.read_length [OF assms(1)] assms
    readable.read_length [OF assms(2), OF running_refl]
  by (simp add: b_or_assign_def or_words_def Let_def store_fine_def)

lemma b_xor_assign_ok:
  assumes "store_fine sh s" "readable Y (running sh L D s) (\<lambda>_. ys)" "length ys = length L"
  shows "writes sh L s (b_xor_assign X Y s) (map2 logic_xor (contents s L) ys)"
  using combine_loop [OF assms xor_words] read.read_length [OF assms(1)] assms
    readable.read_length [OF assms(2), OF running_refl]
  by (simp add: b_xor_assign_def xor_words_def Let_def store_fine_def)

text \<open>A loop over the words in their order.\<close>

lemma upt_words_loop:
  assumes "progress sh L D s0 q xs ys (words_of {..<a}) s" "a \<le> b"
    and "\<And>i s. a \<le> i \<Longrightarrow> i < b \<Longrightarrow> progress sh L D s0 q xs ys (words_of {..<i}) s \<Longrightarrow>
      \<exists>s'. body i s = Inr s' \<and> progress sh L D s0 q xs ys (words_of (insert i {..<i})) s'"
  shows "\<exists>s'. for_each body [a..<b] s = Inr s' \<and> progress sh L D s0 q xs ys (words_of {..<b}) s'"
proof -
  have "{..<a} \<union> set [a..<b] = {..<b}" using assms(2) by auto
  moreover have "{..<a} \<union> set pre = {..<i} \<and> a \<le> i \<and> i < b" if "[a..<b] = pre @ i # post" for pre i post
  proof -
    have "pre = take (length pre) [a..<b]" "i = [a..<b] ! length pre" "length pre < b - a"
      using that by (metis append_eq_conv_conj, metis nth_append_length, metis length_append_singleton length_upt
          append_Cons append_Nil append_assoc le_add1 length_append less_eq_Suc_le)
    then have "pre = [a..<i]" "a \<le> i" "i < b" by (simp_all add: take_upt)
    then show ?thesis by auto
  qed
  ultimately show ?thesis
    using words_loop [OF assms(1), of "[a..<b]" body] assms(3) by metis
qed

text \<open>Writing the data word only.\<close>

lemma progress_set_data:
  assumes fine: "store_fine sh s0" and prog: "progress sh L D s0 False xs ys (words_of I) s"
    and i: "i < word_count (length L)" "i \<notin> I"
    and W: "\<And>n. n < length L \<Longrightarrow> n div 32 = i \<Longrightarrow> bit w (n mod 32) \<longleftrightarrow> data_bit (ys ! n)"
    and ctrl: "\<And>n. n < length L \<Longrightarrow> ctrl_bit (ys ! n) = ctrl_bit (xs ! n)"
  shows "\<exists>s'. px_set_word X i w s = Inr s' \<and> progress sh L D s0 False xs ys (words_of (insert i I)) s'"
proof -
  have r: "ready sh Os D s" using running_ready [OF fine progress_running [OF prog]] .
  have ok: "store_ok sh s" using r by (simp add: ready_def)
  obtain s' where s': "px_put Data X i w s = Inr s'" "moves sh (word_places L i) s s'" "keeps_clean D s s'"
    "\<And>pl' n. n < length L \<Longrightarrow> n div 32 = i \<Longrightarrow> pbit pl' s' (L ! n) \<longleftrightarrow>
      (if pl' = Data then holds sh Data (L ! n) \<and> bit w (n mod 32) else pbit pl' s (L ! n))"
    using set_word_law [OF r i(1), of Data w] by blast
  have run: "running sh L D s0 s'" using running_step [OF progress_running [OF prog] s'(2) word_places_subset s'(3)] .
  have old: "pbit pl s (L ! n) \<longleftrightarrow> (if n div 32 \<in> I then holds sh pl (L ! n) \<and> plane_bit pl (ys ! n) else plane_bit pl (xs ! n))"
    if "n < length L" for pl n using prog that by (simp add: progress_def)
  have "pbit pl s' (L ! n) \<longleftrightarrow>
      (if n div 32 \<in> insert i I then holds sh pl (L ! n) \<and> plane_bit pl (ys ! n) else plane_bit pl (xs ! n))"
    if n: "n < length L" for pl n
  proof (cases "n div 32 = i")
    case True
    show ?thesis
    proof (cases pl)
      case Data
      then show ?thesis using s'(4) [OF n True, of pl] W [OF n True] True by (simp add: plane_bit_def)
    next
      case Ctrl
      then have "pbit pl s' (L ! n) \<longleftrightarrow> ctrl_bit (ys ! n)"
        using s'(4) [OF n True, of pl] old [OF n, of pl] ctrl [OF n] True i(2) by (simp add: plane_bit_def)
      then show ?thesis using pbit_holds [of sh s' pl "L ! n"] run True Ctrl
        by (auto simp: plane_bit_def running_def moves_def)
    qed
  next
    case False
    have "L ! n \<notin> word_places L i"
      using False n nth_eq_iff_index_eq [OF distinct] by (auto simp: word_places_def)
    then show ?thesis using False moves_other [OF s'(2)] places [OF r] n old [OF n, of pl] by auto
  qed
  then show ?thesis using s'(1) run by (auto simp: progress_def px_put_def)
qed

lemma b_not_ok:
  assumes fine: "store_fine sh s"
  shows "writes sh L s (b_not X s) (map logic_not (contents s L))"
proof -
  define xs where "xs = contents s L"
  define zs where "zs = map logic_not xs"
  have lens: "length xs = length L" "length zs = length L" by (simp_all add: xs_def zs_def)
  let ?body = "\<lambda>i s. bind_result (get_words X i s) (\<lambda>(dw, cw). px_set_word X i (cw OR NOT dw) s)"
  have "\<exists>s'. for_each ?body [0..<px_size X s] s = Inr s' \<and> progress sh L D s False xs zs (words_of {..<px_size X s}) s'"
  proof (rule upt_words_loop)
    show "progress sh L D s False xs zs (words_of {..<0}) s"
      using progress_start [OF fine, of xs L D False zs] xs_def by simp
    fix i s1 assume "i < px_size X s" and prog: "progress sh L D s False xs zs (words_of {..<i}) s1"
    then have i: "i < word_count (length L)" using read.read_size [OF fine] by simp
    obtain W where W: "get_words X i s1 = Inr (W Data, W Ctrl)"
      "\<And>pl n. n < length L \<Longrightarrow> n div 32 = i \<Longrightarrow> bit (W pl) (n mod 32) \<longleftrightarrow> plane_bit pl (xs ! n)"
      by (rule progress_get_words [OF fine prog i]) auto
    have "\<exists>s'. px_set_word X i (W Ctrl OR NOT (W Data)) s1 = Inr s' \<and>
        progress sh L D s False xs zs (words_of (insert i {..<i})) s'"
      by (rule progress_set_data [OF fine prog i])
        (use W(2) lens in \<open>auto simp: zs_def logic_not_bits word_bits plane_bit_def\<close>)
    then show "\<exists>s'. ?body i s1 = Inr s' \<and> progress sh L D s False xs zs (words_of (insert i {..<i})) s'"
      by (simp add: W(1))
  qed simp
  then obtain s' where s': "for_each ?body [0..<px_size X s] s = Inr s'"
    "progress sh L D s False xs zs (words_of {..<px_size X s}) s'" by blast
  have "writes sh L s (px_clean_tail X s') zs"
    by (rule progress_clean [OF fine s'(2)]) (use all_words lens read.read_size [OF fine] in auto)
  then show ?thesis using s'(1) by (simp add: b_not_def zs_def xs_def)
qed

end

section \<open>Assignment\<close>

text \<open>The first \<open>n\<close> values, filled up with zeros.\<close>

definition padded :: "nat \<Rightarrow> sc_logic_value_t list \<Rightarrow> sc_logic_value_t list" where
  "padded n xs = take n xs @ replicate (n - length xs) Log_0"

lemma length_padded [simp]: "length (padded n xs) = n"
  by (simp add: padded_def)

lemma padded_nth: "i < n \<Longrightarrow> padded n xs ! i = (if i < length xs then xs ! i else Log_0)"
  by (simp add: padded_def nth_append)

lemma padded_same [simp]: "length xs = n \<Longrightarrow> padded n xs = xs"
  by (simp add: padded_def)

text \<open>The low bits of an integer.\<close>

lemma bit_sint: "bit (sint (a :: 'a::len word)) k \<longleftrightarrow> (if k < LENGTH('a) then bit a k else sint a < 0)"
proof (cases "k < LENGTH('a)")
  case True
  then show ?thesis by (simp add: bit_sint_iff)
next
  case False
  then show ?thesis using bit_last_iff [of a] by (auto simp: bit_sint_iff dest: bit_imp_le_length)
qed

definition int_bits :: "nat \<Rightarrow> int \<Rightarrow> sc_logic_value_t list" where
  "int_bits n i = map (\<lambda>k. logic_of_bool (bit i k)) [0..<n]"

lemma length_int_bits [simp]: "length (int_bits n i) = n"
  by (simp add: int_bits_def)

lemma plane_bit_bool [simp]: "plane_bit pl (logic_of_bool b) \<longleftrightarrow> pl = Data \<and> b"
  by (cases pl) (simp_all add: plane_bit_def logic_of_bool_def data_bit_def ctrl_bit_def)

lemma plane_bit_0 [simp]: "\<not> plane_bit pl Log_0"
  by (cases pl) (simp_all add: plane_bit_def data_bit_def ctrl_bit_def)

lemma int_bits_nth [simp]: "k < n \<Longrightarrow> int_bits n i ! k = logic_of_bool (bit i k)"
  by (simp add: int_bits_def)

context writable
begin

lemma extend_sign_ok:
  assumes fine: "store_fine sh s0" and prog: "progress sh L D s0 q xs ys (words_of {..<wi}) s"
    and wi: "wi \<le> word_count (length L)" and q: "q \<Longrightarrow> \<not> sign"
    and ys: "\<And>n. n < length L \<Longrightarrow> wi \<le> n div 32 \<Longrightarrow> ys ! n = logic_of_bool sign"
  shows "\<exists>s'. extend_sign_w X wi sign s = Inr s' \<and> progress sh L D s0 q xs ys (words_of {..<word_count (length L)}) s'"
proof -
  have sz: "px_size X s = word_count (length L)"
    using size_law [OF running_ready [OF fine progress_running [OF prog]]] .
  let ?W = "\<lambda>pl. case pl of Data \<Rightarrow> if sign then NOT 0 else 0 :: u32 | Ctrl \<Rightarrow> 0"
  have "\<exists>s'. for_each (\<lambda>i. set_words X i (?W Data) (?W Ctrl)) [wi..<word_count (length L)] s = Inr s' \<and>
      progress sh L D s0 q xs ys (words_of {..<word_count (length L)}) s'"
  proof (rule upt_words_loop [OF prog wi])
    fix i s1 assume i: "wi \<le> i" "i < word_count (length L)" and p: "progress sh L D s0 q xs ys (words_of {..<i}) s1"
    show "\<exists>s'. set_words X i (?W Data) (?W Ctrl) s1 = Inr s' \<and> progress sh L D s0 q xs ys (words_of (insert i {..<i})) s'"
    proof (rule progress_set_words [OF fine p i(2)])
      show "tail_zero (length L) i (?W pl)" if q for pl
        using q [OF that] by (simp add: tail_zero_def split: plane.split)
    qed (use ys i in \<open>auto simp: bit_not_iff bit_mask_iff split: plane.split\<close>)
  qed
  then show ?thesis by (simp add: extend_sign_w_def sz)
qed

lemma assign_p_ok:
  assumes fine: "store_fine sh s" and Y: "readable Y (running sh L D s) (\<lambda>_. ys)"
  shows "writes sh L s (assign_p False X Y s) (padded (length L) ys)"
proof -
  define xs where "xs = contents s L"
  define zs where "zs = padded (length L) ys"
  define m where "m = min (px_size X s) (px_size Y s)"
  have refl: "running sh L D s s" using fine by (simp add: running_refl store_fine_def)
  have ne: "0 < length ys" using readable.read_nonempty [OF Y, OF refl] by simp
  have m: "m = min (word_count (length L)) (word_count (length ys))"
    using read.read_size [OF fine] readable.read_size [OF Y, OF refl] by (simp add: m_def)
  let ?body = "\<lambda>i s. bind_result (get_words Y i s) (\<lambda>(dw, cw). set_words X i dw cw s)"
  have "\<exists>s'. for_each ?body [0..<m] s = Inr s' \<and> progress sh L D s False xs zs (words_of {..<m}) s'"
  proof (rule upt_words_loop)
    show "progress sh L D s False xs zs (words_of {..<0}) s"
      using progress_start [OF fine, of xs L D False zs] xs_def by simp
    fix i s1 assume "i < m" and prog: "progress sh L D s False xs zs (words_of {..<i}) s1"
    then have i: "i < word_count (length L)" "i < word_count (length ys)" by (simp_all add: m)
    have "\<exists>s'. set_words X i (plane_word Data ys i) (plane_word Ctrl ys i) s1 = Inr s' \<and>
        progress sh L D s False xs zs (words_of (insert i {..<i})) s'"
    proof (rule progress_set_words [OF fine prog i(1)])
      fix pl n assume n: "n < length L" "n div 32 = i"
      then show "bit (plane_word pl ys i) (n mod 32) \<longleftrightarrow> plane_bit pl (zs ! n)"
        unfolding n(2) [symmetric] bit_plane_word_mod by (simp add: zs_def padded_nth)
    qed simp
    then show "\<exists>s'. ?body i s1 = Inr s' \<and> progress sh L D s False xs zs (words_of (insert i {..<i})) s'"
      using readable.read_words [OF Y, OF progress_running [OF prog] i(2)] by simp
  qed simp
  then obtain s1 where s1: "for_each ?body [0..<m] s = Inr s1" "progress sh L D s False xs zs (words_of {..<m}) s1" by blast
  have "zs ! n = logic_of_bool False" if n: "n < length L" "m \<le> n div 32" for n
  proof -
    have "\<not> n div 32 < word_count (length ys)" using n(2) all_words [OF n(1)] unfolding m by linarith
    then have "\<not> n < length ys" using index_below_count [OF ne] by blast
    then show ?thesis using n(1) by (simp add: zs_def padded_nth logic_of_bool_def)
  qed
  then obtain s2 where s2: "extend_sign_w X m False s1 = Inr s2"
    "progress sh L D s False xs zs (words_of {..<word_count (length L)}) s2"
    using extend_sign_ok [OF fine s1(2)] m by auto
  have "writes sh L s (px_clean_tail X s2) zs"
    by (rule progress_clean [OF fine s2(2)]) (use all_words in \<open>auto simp: zs_def\<close>)
  then show ?thesis using s1(1) s2(1) by (simp add: assign_p_def m_def zs_def Let_def)
qed

text \<open>Integers of 32 bits.\<close>

lemma assign_word_ok:
  assumes fine: "store_fine sh s"
    and i: "\<And>k. bit i k \<longleftrightarrow> (if k < 32 then bit w k else sign)"
  shows "writes sh L s (bind_result (set_words X 0 w 0 s) (\<lambda>s1.
     bind_result (extend_sign_w X 1 sign s1) (px_clean_tail X))) (int_bits (length L) i)"
proof -
  define xs where "xs = contents s L"
  define zs where "zs = int_bits (length L) i"
  have start: "progress sh L D s False xs zs (words_of {}) s"
    using progress_start [OF fine, of xs L D False zs] xs_def by simp
  have 0: "0 < word_count (length L)" by (simp add: word_count_def)
  let ?W = "\<lambda>pl. case pl of Data \<Rightarrow> w | Ctrl \<Rightarrow> 0"
  have "\<exists>s'. set_words X 0 (?W Data) (?W Ctrl) s = Inr s' \<and> progress sh L D s False xs zs (words_of (insert 0 {})) s'"
    by (rule progress_set_words [OF fine start 0]) (auto simp: zs_def i div_eq_0_iff split: plane.split)
  then obtain s1 where s1: "set_words X 0 w 0 s = Inr s1" "progress sh L D s False xs zs (words_of {..<1}) s1"
    by (auto simp: lessThan_Suc)
  have "zs ! n = logic_of_bool sign" if "n < length L" "1 \<le> n div 32" for n
    using that by (auto simp: zs_def i)
  then obtain s2 where s2: "extend_sign_w X 1 sign s1 = Inr s2"
    "progress sh L D s False xs zs (words_of {..<word_count (length L)}) s2"
    using extend_sign_ok [OF fine s1(2)] 0 by auto
  have "writes sh L s (px_clean_tail X s2) zs"
    by (rule progress_clean [OF fine s2(2)]) (use all_words in \<open>auto simp: zs_def\<close>)
  then show ?thesis using s1(1) s2(1) by (simp add: zs_def)
qed

lemma assign_uint_ok: "store_fine sh s \<Longrightarrow> writes sh L s (assign_uint X a s) (int_bits (length L) (uint a))"
  unfolding assign_uint_def by (rule assign_word_ok) (auto simp: bit_uint_iff)

lemma assign_int_ok: "store_fine sh s \<Longrightarrow> writes sh L s (assign_int X a s) (int_bits (length L) (sint a))"
  unfolding assign_int_def
  by (rule assign_word_ok) (simp_all add: bit_sint [where 'a = 32, simplified])

text \<open>Integers of 64 bits.\<close>

lemma assign_two_words_ok:
  fixes a :: u64
  assumes fine: "store_fine sh s"
    and i: "\<And>k. bit i k \<longleftrightarrow> (if k < 64 then bit a k else sign)"
  shows "writes sh L s (bind_result (set_words X 0 (ucast a AND NOT 0) 0 s) (\<lambda>s1.
     bind_result (if px_size X s1 > 1
       then bind_result (set_words X 1 (ucast (drop_bit 32 a) AND NOT 0) 0 s1) (extend_sign_w X 2 sign)
       else Inr s1) (px_clean_tail X))) (int_bits (length L) i)"
proof -
  define xs where "xs = contents s L"
  define zs where "zs = int_bits (length L) i"
  have start: "progress sh L D s False xs zs (words_of {}) s"
    using progress_start [OF fine, of xs L D False zs] xs_def by simp
  have 0: "0 < word_count (length L)" by (simp add: word_count_def)
  define w0 w1 :: u32 where "w0 = ucast a AND NOT 0" and "w1 = ucast (drop_bit 32 a) AND NOT 0"
  have w0: "bit w0 k \<longleftrightarrow> bit a k" and w1: "bit w1 k \<longleftrightarrow> bit a (32 + k)" if "k < 32" for k
    using that by (simp_all add: w0_def w1_def bit_ucast_iff bit_drop_bit_eq)
  let ?W0 = "\<lambda>pl. case pl of Data \<Rightarrow> w0 | Ctrl \<Rightarrow> 0"
  have "\<exists>s'. set_words X 0 (?W0 Data) (?W0 Ctrl) s = Inr s' \<and> progress sh L D s False xs zs (words_of (insert 0 {})) s'"
    by (rule progress_set_words [OF fine start 0]) (auto simp: zs_def i w0 div_eq_0_iff split: plane.split)
  then obtain s1 where s1: "set_words X 0 w0 0 s = Inr s1" "progress sh L D s False xs zs (words_of {..<1}) s1"
    by (auto simp: lessThan_Suc)
  have sz: "px_size X s1 = word_count (length L)"
    using size_law [OF running_ready [OF fine progress_running [OF s1(2)]]] .
  have "\<exists>s2. (if px_size X s1 > 1 then bind_result (set_words X 1 w1 0 s1) (extend_sign_w X 2 sign) else Inr s1) = Inr s2 \<and>
    progress sh L D s False xs zs (words_of {..<word_count (length L)}) s2"
  proof (cases "px_size X s1 > 1")
    case True
    then have 1: "1 < word_count (length L)" by (simp add: sz)
    let ?W1 = "\<lambda>pl. case pl of Data \<Rightarrow> w1 | Ctrl \<Rightarrow> 0"
    have "\<exists>s'. set_words X 1 (?W1 Data) (?W1 Ctrl) s1 = Inr s' \<and> progress sh L D s False xs zs (words_of (insert 1 {..<1})) s'"
    proof (rule progress_set_words [OF fine s1(2) 1])
      fix pl n assume n: "n < length L" "n div 32 = 1"
      then have "n = 32 + n mod 32" using div_mult_mod_eq [of n 32] by simp
      then have "bit w1 (n mod 32) = bit a n" "n < 64" using w1 [of "n mod 32"] mod_less_divisor [of 32 n] by (simp, linarith)
      then show "bit (?W1 pl) (n mod 32) \<longleftrightarrow> plane_bit pl (zs ! n)" using n(1) by (simp add: zs_def i split: plane.split)
    qed simp
    then obtain s2 where s2: "set_words X 1 w1 0 s1 = Inr s2" "progress sh L D s False xs zs (words_of {..<2}) s2"
      by (auto simp: lessThan_Suc numeral_2_eq_2)
    have "zs ! n = logic_of_bool sign" if "n < length L" "2 \<le> n div 32" for n
      using that by (auto simp: zs_def i)
    then show ?thesis using extend_sign_ok [OF fine s2(2)] 1 s2(1) True by auto
  next
    case False
    then have "word_count (length L) = 1" using 0 sz by linarith
    then show ?thesis using s1(2) False by simp
  qed
  then obtain s2 where s2: "(if px_size X s1 > 1 then bind_result (set_words X 1 w1 0 s1) (extend_sign_w X 2 sign) else Inr s1) = Inr s2"
    "progress sh L D s False xs zs (words_of {..<word_count (length L)}) s2" by blast
  have "writes sh L s (px_clean_tail X s2) zs"
    by (rule progress_clean [OF fine s2(2)]) (use all_words in \<open>auto simp: zs_def\<close>)
  then show ?thesis unfolding w0_def [symmetric] w1_def [symmetric] s1(1) bind_result_Inr s2(1) zs_def .
qed

lemma assign_64_ok:
  assumes "store_fine sh s"
  shows "writes sh L s (assign_uint64 X a s) (int_bits (length L) (uint a))"
    "writes sh L s (assign_ulong X a s) (int_bits (length L) (uint a))"
    "writes sh L s (proxy_assign_int64 X a s) (int_bits (length L) (sint a))"
    "writes sh L s (assign_long X a s) (int_bits (length L) (sint a))"
  unfolding assign_uint64_def assign_ulong_def proxy_assign_int64_def assign_long_def
  using assign_two_words_ok [OF assms, of "uint a" a False] assign_two_words_ok [OF assms, of "sint a" a "sint a < 0"]
  by (simp_all add: bit_sint bit_uint_iff)

end

section \<open>Conversion to integers\<close>

context readable
begin

lemma data_word_bits:
  assumes "P s" "c s = int_bits n i" "j < word_count n" "k < 32"
  shows "bit (plane_word Data (c s) j) k \<longleftrightarrow> 32 * j + k < n \<and> bit i (32 * j + k)"
  using assms by (auto simp: bit_plane_word)

lemma to_uint64_ok:
  assumes P: "P s" and c: "c s = int_bits n i"
  shows "to_uint64 X s = Inr (word_of_int (take_bit n i))"
proof -
  have n: "px_length X s = n" "0 < n" using read_length [OF P] read_nonempty [OF P] c by (auto simp: int_bits_def)
  have 0: "get_words X 0 s = Inr (plane_word Data (c s) 0, plane_word Ctrl (c s) 0)"
    using read_words [OF P, of 0] c by (simp add: word_count_def)
  have w0: "bit (plane_word Data (c s) 0) k \<longleftrightarrow> k < 32 \<and> k < n \<and> bit i k" for k
    using data_word_bits [OF P c, of 0 k] bit_imp_le_length [of "plane_word Data (c s) 0" k]
    by (cases "k < 32") (auto simp: word_count_def)
  consider "32 < n" | "n = 32" | "n < 32" by linarith
  then show ?thesis
  proof cases
    case 1
    have 1: "1 < word_count n" using 1 by (simp add: word_count_def)
    have "get_words X 1 s = Inr (plane_word Data (c s) 1, plane_word Ctrl (c s) 1)"
      using read_words [OF P, of 1] c 1 by simp
    moreover have "ucast (plane_word Data (c s) 0) OR push_bit 32 (ucast (plane_word Data (c s) 1)) =
        (word_of_int (take_bit n i) :: u64)"
    proof (rule bit_word_eqI)
      fix k assume "k < LENGTH(64)"
      then have k: "k < 64" by simp
      show "bit (ucast (plane_word Data (c s) 0) OR push_bit 32 (ucast (plane_word Data (c s) 1)) :: u64) k \<longleftrightarrow>
          bit (word_of_int (take_bit n i) :: u64) k"
        using k data_word_bits [OF P c 1, of "k - 32"]
        by (cases "k < 32") (auto simp: bit_or_iff bit_push_bit_iff bit_ucast_iff w0 bit_word_of_int_iff bit_take_bit_iff)
    qed
    ultimately show ?thesis using 0 n \<open>32 < n\<close> by (simp add: to_uint64_def Let_def)
  next
    case 2
    have "ucast (plane_word Data (c s) 0) = (word_of_int (take_bit n i) :: u64)"
      by (rule bit_word_eqI) (auto simp: bit_ucast_iff w0 bit_word_of_int_iff bit_take_bit_iff 2)
    then show ?thesis using 0 n 2 by (simp add: to_uint64_def Let_def)
  next
    case 3
    have "ucast (plane_word Data (c s) 0) AND ucast (drop_bit (32 - n) (NOT 0) :: u32) = (word_of_int (take_bit n i) :: u64)"
      by (rule bit_word_eqI)
        (use 3 in \<open>auto simp: bit_and_iff bit_ucast_iff w0 bit_word_of_int_iff bit_take_bit_iff bit_drop_bit_eq bit_not_iff bit_mask_iff\<close>)
    then show ?thesis using 0 n 3 by (simp add: to_uint64_def Let_def)
  qed
qed

lemma to_anything_signed_ok:
  assumes P: "P s" and c: "c s = int_bits n i"
  shows "to_anything_signed X s = Inr (word_of_int (signed_take_bit (n - 1) i))"
proof -
  have n: "px_length X s = n" "0 < n" using read_length [OF P] read_nonempty [OF P] c by (auto simp: int_bits_def)
  have 0: "get_words X 0 s = Inr (plane_word Data (c s) 0, plane_word Ctrl (c s) 0)"
    using read_words [OF P, of 0] c by (simp add: word_count_def)
  define w1 where "w1 = (if 32 < n then ucast (plane_word Data (c s) 1) else 0 :: u64)"
  define w where "w = push_bit 32 w1 OR ucast (plane_word Data (c s) 0)"
  have read1: "(if 32 < n then bind_result (get_words X 1 s) (\<lambda>(w1, _). Inr (ucast w1)) else Inr 0) = Inr w1"
  proof (cases "32 < n")
    case True
    then have "1 < word_count n" by (simp add: word_count_def)
    then show ?thesis using read_words [OF P, of 1] c True by (simp add: w1_def)
  qed (simp add: w1_def)
  have w0: "bit (plane_word Data (c s) 0) k \<longleftrightarrow> k < 32 \<and> k < n \<and> bit i k" for k
    using data_word_bits [OF P c, of 0 k] bit_imp_le_length [of "plane_word Data (c s) 0" k]
    by (cases "k < 32") (auto simp: word_count_def)
  have w: "bit w k \<longleftrightarrow> k < n \<and> bit i k" if "k < 64" for k
  proof (cases "k < 32")
    case True
    then show ?thesis using that by (auto simp: w_def bit_or_iff bit_push_bit_iff bit_ucast_iff w0)
  next
    case False
    have "\<not> bit (plane_word Data (c s) 0) k" using False w0 by blast
    moreover have "bit w1 (k - 32) \<longleftrightarrow> k < n \<and> bit i k"
    proof (cases "32 < n")
      case True
      then have "1 < word_count n" by (simp add: word_count_def)
      moreover have "k - 32 < 32" using that False by linarith
      ultimately show ?thesis using data_word_bits [OF P c, of 1 "k - 32"] False True
        by (simp add: w1_def bit_ucast_iff)
    next
      case False
      then show ?thesis using \<open>\<not> k < 32\<close> by (simp add: w1_def)
    qed
    ultimately show ?thesis using False that by (simp add: w_def bit_or_iff bit_push_bit_iff bit_ucast_iff)
  qed
  have bits: "bit (word_of_int (signed_take_bit (n - 1) i) :: u64) k \<longleftrightarrow> (if k < n then bit i k else bit i (n - 1))"
    if "k < 64" for k
    using that n(2) by (cases "k = n - 1") (auto simp: bit_word_of_int_iff bit_signed_take_bit_iff min_def)
  have sg: "px_get_bit X (n - 1) s = Inr (logic_of_bool (bit i (n - 1)))"
    using read_bit [OF P, of "n - 1"] c n(2) by simp
  have "(if 64 \<le> n then Inr w else bind_result (px_get_bit X (n - 1) s) (\<lambda>sg.
      if sg = Log_0 then Inr (w AND drop_bit (64 - n) (NOT 0)) else Inr (w OR push_bit n (NOT 0)))) =
    Inr (word_of_int (signed_take_bit (n - 1) i))"
  proof (cases "64 \<le> n")
    case True
    then have "w = word_of_int (signed_take_bit (n - 1) i)" by (intro bit_word_eqI) (simp add: w bits del: One_nat_def)
    then show ?thesis using True by simp
  next
    case False
    show ?thesis
    proof (cases "bit i (n - 1)")
      case True
      have "w OR push_bit n (NOT 0) = word_of_int (signed_take_bit (n - 1) i)"
        by (intro bit_word_eqI) (use True in \<open>auto simp: w bits bit_or_iff bit_push_bit_iff bit_not_iff bit_mask_iff simp del: One_nat_def\<close>)
      then show ?thesis using False True sg by (simp add: logic_of_bool_def)
    next
      case no: False
      have "w AND drop_bit (64 - n) (NOT 0) = word_of_int (signed_take_bit (n - 1) i)"
        by (intro bit_word_eqI) (use no False in \<open>auto simp: w bits bit_and_iff bit_drop_bit_eq bit_mask_iff simp del: One_nat_def\<close>)
      then show ?thesis using False no sg by (simp add: logic_of_bool_def)
    qed
  qed
  then show ?thesis unfolding to_anything_signed_def n(1) Let_def read1 0 bind_result_Inr w_def by simp
qed

end

end
