(* ===== verification/Sc_Proxy_Shift_Facts.thy ===== *)
theory Sc_Proxy_Shift_Facts
  imports Sc_Proxy_Ops_Facts
begin

text \<open>
  The shifts and the rotations of \<open>sc_proxy.h\<close>, which move words first and bits after, on lists of values.
\<close>

unbundle bit_operations_syntax

section \<open>Lists\<close>

text \<open>The bit 0 is the head of the list: a left shift puts zeros in front.\<close>

definition shl_list :: "nat \<Rightarrow> sc_logic_value_t list \<Rightarrow> sc_logic_value_t list" where
  "shl_list n xs = take (length xs) (replicate n Log_0 @ xs)"

definition shr_list :: "nat \<Rightarrow> sc_logic_value_t list \<Rightarrow> sc_logic_value_t list" where
  "shr_list n xs = take (length xs) (drop n xs @ replicate n Log_0)"

lemma length_shifted [simp]: "length (shl_list n xs) = length xs" "length (shr_list n xs) = length xs"
  by (simp_all add: shl_list_def shr_list_def)

lemma shl_list_nth: "k < length xs \<Longrightarrow> shl_list n xs ! k = (if k < n then Log_0 else xs ! (k - n))"
  by (simp add: shl_list_def nth_append)

lemma shr_list_nth: "k < length xs \<Longrightarrow> shr_list n xs ! k = (if k + n < length xs then xs ! (k + n) else Log_0)"
  by (auto simp: shr_list_def nth_append add.commute [of n])

lemma shl_list_shl_list: "shl_list m (shl_list n xs) = shl_list (n + m) xs"
  by (rule nth_equalityI) (auto simp: shl_list_nth ac_simps)

lemma shr_list_shr_list: "shr_list m (shr_list n xs) = shr_list (n + m) xs"
  by (rule nth_equalityI) (auto simp: shr_list_nth ac_simps)

lemma shifted_0 [simp]: "shl_list 0 xs = xs" "shr_list 0 xs = xs"
  by (simp_all add: shl_list_def shr_list_def)

lemma shifted_out: "length xs \<le> n \<Longrightarrow> shl_list n xs = replicate (length xs) Log_0"
  "length xs \<le> n \<Longrightarrow> shr_list n xs = replicate (length xs) Log_0"
  by (rule nth_equalityI; simp add: shl_list_nth shr_list_nth)+

section \<open>Positions\<close>

lemma position_words:
  fixes n :: nat
  shows "32 * w \<le> n \<Longrightarrow> (n - 32 * w) div 32 = n div 32 - w" "32 * w \<le> n \<Longrightarrow> (n - 32 * w) mod 32 = n mod 32"
    "(n + 32 * w) div 32 = n div 32 + w" "(n + 32 * w) mod 32 = n mod 32"
    "32 * w \<le> n \<longleftrightarrow> w \<le> n div 32"
proof -
  assume le: "32 * w \<le> n"
  then obtain k where "n = k + 32 * w" by (metis le_add_diff_inverse2)
  then show "(n - 32 * w) div 32 = n div 32 - w" "(n - 32 * w) mod 32 = n mod 32" by simp_all
qed (simp_all add: less_eq_div_iff_mult_less_eq mult.commute)

lemma position_down:
  fixes n b :: nat
  assumes "b < 32"
  shows "b \<le> n mod 32 \<Longrightarrow> (n - b) div 32 = n div 32" "b \<le> n mod 32 \<Longrightarrow> (n - b) mod 32 = n mod 32 - b"
    "n mod 32 < b \<Longrightarrow> b \<le> n \<Longrightarrow> (n - b) div 32 = n div 32 - 1"
    "n mod 32 < b \<Longrightarrow> b \<le> n \<Longrightarrow> (n - b) mod 32 = n mod 32 + 32 - b"
    "b \<le> n \<longleftrightarrow> 0 < n div 32 \<or> b \<le> n mod 32"
proof -
  define q r where "q = n div 32" and "r = n mod 32"
  have n: "n = r + 32 * q" "r < 32" by (simp_all add: q_def r_def)
  note fold = q_def [symmetric] r_def [symmetric]
  show "b \<le> n mod 32 \<Longrightarrow> (n - b) div 32 = n div 32" "b \<le> n mod 32 \<Longrightarrow> (n - b) mod 32 = n mod 32 - b"
    unfolding fold
  proof -
    assume "b \<le> r"
    then have e: "n - b = (r - b) + 32 * q" "r - b < 32" using n by linarith+
    show "(n - b) div 32 = q" "(n - b) mod 32 = r - b" unfolding e(1) using e(2) by simp_all
  qed
  show "b \<le> n \<longleftrightarrow> 0 < n div 32 \<or> b \<le> n mod 32" unfolding fold using n assms by linarith
  show "n mod 32 < b \<Longrightarrow> b \<le> n \<Longrightarrow> (n - b) div 32 = n div 32 - 1"
    "n mod 32 < b \<Longrightarrow> b \<le> n \<Longrightarrow> (n - b) mod 32 = n mod 32 + 32 - b"
    unfolding fold
  proof -
    assume a: "r < b" "b \<le> n"
    then have "0 < q" using n(1) by linarith
    then obtain p where p: "q = Suc p" by (cases q) simp_all
    obtain k where k: "r + 32 = b + k" using assms by (metis le_add_diff_inverse le_less trans_le_add2)
    have e: "n - b = k + 32 * p" "k < 32" "r + 32 - b = k" using n(1) a k unfolding p by simp_all
    show "(n - b) div 32 = q - 1" "(n - b) mod 32 = r + 32 - b" unfolding e(1,3) p using e(2) by simp_all
  qed
qed

lemma position_up:
  fixes n b :: nat
  assumes "b < 32"
  shows "n mod 32 + b < 32 \<Longrightarrow> (n + b) div 32 = n div 32" "n mod 32 + b < 32 \<Longrightarrow> (n + b) mod 32 = n mod 32 + b"
    "\<not> n mod 32 + b < 32 \<Longrightarrow> (n + b) div 32 = n div 32 + 1"
    "\<not> n mod 32 + b < 32 \<Longrightarrow> (n + b) mod 32 = n mod 32 + b - 32"
proof -
  define q r where "q = n div 32" and "r = n mod 32"
  have n: "n = r + 32 * q" "r < 32" by (simp_all add: q_def r_def)
  note fold = q_def [symmetric] r_def [symmetric]
  show "n mod 32 + b < 32 \<Longrightarrow> (n + b) div 32 = n div 32" "n mod 32 + b < 32 \<Longrightarrow> (n + b) mod 32 = n mod 32 + b"
    unfolding fold
  proof -
    assume a: "r + b < 32"
    have e: "n + b = (r + b) + 32 * q" using n by linarith
    show "(n + b) div 32 = q" "(n + b) mod 32 = r + b" unfolding e using a by simp_all
  qed
  show "\<not> n mod 32 + b < 32 \<Longrightarrow> (n + b) div 32 = n div 32 + 1"
    "\<not> n mod 32 + b < 32 \<Longrightarrow> (n + b) mod 32 = n mod 32 + b - 32"
    unfolding fold
  proof -
    assume a: "\<not> r + b < 32"
    obtain k where k: "r + b = 32 + k" using a by (metis le_add_diff_inverse not_less)
    have e: "n + b = k + 32 * (q + 1)" "k < 32" "r + b - 32 = k" using n k assms by simp_all
    show "(n + b) div 32 = q + 1" "(n + b) mod 32 = r + b - 32"
      unfolding e(1,3) using e(2) by (simp_all only: mod_mult_self2 div_mult_self2 mod_less div_less)
  qed
qed

text \<open>The bits of the words that a shift by less than 32 writes.\<close>

lemma shifted_word_bits:
  fixes v w :: u32
  assumes "0 < b" "b < 32" "k < 32"
  shows "bit (push_bit b v OR drop_bit (32 - b) w) k \<longleftrightarrow> (if b \<le> k then bit v (k - b) else bit w (k + 32 - b))"
    and "bit (drop_bit b v OR push_bit (32 - b) w) k \<longleftrightarrow> (if k + b < 32 then bit v (k + b) else bit w (k + b - 32))"
proof -
  have out: "\<not> bit u m" if "32 \<le> m" for u :: u32 and m using bit_imp_le_length [of u m] that by auto
  show "bit (push_bit b v OR drop_bit (32 - b) w) k \<longleftrightarrow> (if b \<le> k then bit v (k - b) else bit w (k + 32 - b))"
    using assms out [of "k + 32 - b" w] by (auto simp: bit_or_iff bit_push_bit_iff bit_drop_bit_eq add.commute)
  show "bit (drop_bit b v OR push_bit (32 - b) w) k \<longleftrightarrow> (if k + b < 32 then bit v (k + b) else bit w (k + b - 32))"
    using assms out [of "k + b" v] by (auto simp: bit_or_iff bit_push_bit_iff bit_drop_bit_eq add.commute)
qed

section \<open>Loops\<close>

definition uniform :: "shape \<Rightarrow> place list \<Rightarrow> bool" where
  "uniform sh L \<longleftrightarrow> (\<forall>l\<in>set L. \<forall>l'\<in>set L. fst (sh (fst l)) = fst (sh (fst l')))"

lemma uniform_holds: "uniform sh L \<Longrightarrow> i < length L \<Longrightarrow> j < length L \<Longrightarrow> holds sh pl (L ! i) = holds sh pl (L ! j)"
  unfolding uniform_def holds_def by (metis nth_mem)

definition fitting :: "shape \<Rightarrow> place list \<Rightarrow> sc_logic_value_t list \<Rightarrow> bool" where
  "fitting sh L xs \<longleftrightarrow> (\<forall>pl n. n < length L \<longrightarrow> plane_bit pl (xs ! n) \<longrightarrow> holds sh pl (L ! n))"

lemma fitting_contents: "store_ok sh s \<Longrightarrow> fitting sh L (contents s L)"
  using pbit_holds by (simp add: fitting_def contents_def)

lemma fittingI:
  assumes "uniform sh L" "fitting sh L xs"
    and "\<And>n. n < length L \<Longrightarrow> ys ! n = Log_0 \<or> (\<exists>m<length L. ys ! n = xs ! m)"
  shows "fitting sh L ys"
  unfolding fitting_def
proof (intro allI impI)
  fix pl n assume n: "n < length L" "plane_bit pl (ys ! n)"
  then obtain m where m: "m < length L" "ys ! n = xs ! m" using assms(3) [OF n(1)] by auto
  then have "holds sh pl (L ! m)" using n(2) assms(2) by (simp add: fitting_def)
  then show "holds sh pl (L ! n)" using uniform_holds [OF assms(1) m(1) n(1)] by simp
qed

lemma fitting_shl: "uniform sh L \<Longrightarrow> length xs = length L \<Longrightarrow> fitting sh L xs \<Longrightarrow> fitting sh L (shl_list m xs)"
  by (erule fittingI) (auto simp: shl_list_nth intro: less_imp_diff_less)

lemma fitting_shr: "uniform sh L \<Longrightarrow> length xs = length L \<Longrightarrow> fitting sh L xs \<Longrightarrow> fitting sh L (shr_list m xs)"
  by (erule fittingI) (auto simp: shr_list_nth)

lemma fitting_fit: "length xs = length L \<Longrightarrow> fitting sh L xs \<Longrightarrow> map2 (fit sh) L xs = xs"
  by (rule nth_equalityI) (auto simp: fitting_def plane_bit_fit intro!: plane_eqI)

text \<open>The loop is over, and its values are the old values of the next one.\<close>

lemma progress_next: "progress sh L D s0 q xs ys N s \<Longrightarrow> {..<length L} \<subseteq> N \<Longrightarrow> fitting sh L ys \<Longrightarrow>
    progress sh L D s0 q ys zs {} s"
  unfolding progress_def fitting_def by auto

lemma rev_upt_words_loop:
  assumes "progress sh L D s0 q xs ys {} s"
    and "\<And>i s. a \<le> i \<Longrightarrow> i < b \<Longrightarrow> progress sh L D s0 q xs ys (words_of {i<..<b}) s \<Longrightarrow>
      \<exists>s'. body i s = Inr s' \<and> progress sh L D s0 q xs ys (words_of (insert i {i<..<b})) s'"
  shows "\<exists>s'. for_each body (rev [a..<b]) s = Inr s' \<and> progress sh L D s0 q xs ys (words_of {a..<b}) s'"
proof -
  have "set pre = {i<..<b} \<and> a \<le> i \<and> i < b" if split: "rev [a..<b] = pre @ i # post" for pre i post
  proof -
    have eq: "[a..<b] = rev post @ i # rev pre" using arg_cong [OF split, of rev] by simp
    have len: "b - a = length post + Suc (length pre)" using arg_cong [OF eq, of length] by simp
    have i: "i = a + length post" using arg_cong [OF eq, of "\<lambda>xs. xs ! length post"] len by (simp add: nth_append)
    have "drop (Suc (length post)) [a..<b] = rev pre" unfolding eq by simp
    then have "rev pre = [Suc i..<b]" unfolding i by simp
    then have "set pre = set [Suc i..<b]" by (metis set_rev)
    moreover have "set [Suc i..<b] = {i<..<b}" by auto
    moreover have "a \<le> i" "i < b" using i len by linarith+
    ultimately show ?thesis by simp
  qed
  note at = this
  have "\<exists>s'. for_each body (rev [a..<b]) s = Inr s' \<and> progress sh L D s0 q xs ys (words_of ({} \<union> set (rev [a..<b]))) s'"
  proof (rule words_loop)
    fix pre i post s assume split: "rev [a..<b] = pre @ i # post" and p: "progress sh L D s0 q xs ys (words_of ({} \<union> set pre)) s"
    show "\<exists>s'. body i s = Inr s' \<and> progress sh L D s0 q xs ys (words_of (insert i ({} \<union> set pre))) s'"
      using assms(2) [of i s] p at [OF split] by simp
  qed (use assms(1) in simp)
  then show ?thesis by simp
qed

context writable
begin

definition word_at :: "(plane \<Rightarrow> u32) \<Rightarrow> sc_logic_value_t list \<Rightarrow> nat \<Rightarrow> bool" where
  "word_at W xs i \<longleftrightarrow> (\<forall>pl n. n < length L \<longrightarrow> n div 32 = i \<longrightarrow> (bit (W pl) (n mod 32) \<longleftrightarrow> plane_bit pl (xs ! n)))"

lemma word_atD: "word_at W xs i \<Longrightarrow> n < length L \<Longrightarrow> n div 32 = i \<Longrightarrow> bit (W pl) (n mod 32) \<longleftrightarrow> plane_bit pl (xs ! n)"
  by (simp add: word_at_def)

lemma read_old_word:
  assumes "store_fine sh s0" "progress sh L D s0 q xs ys (words_of I) s" "i < word_count (length L)" "i \<notin> I"
  obtains W where "get_words X i s = Inr (W Data, W Ctrl)" "word_at W xs i" "\<And>pl. q \<Longrightarrow> tail_zero (length L) i (W pl)"
  using progress_get_words [OF assms] unfolding word_at_def by metis

lemma write_new_word:
  assumes "store_fine sh s0" "progress sh L D s0 q xs ys (words_of I) s" "i < word_count (length L)"
    "word_at W ys i" "\<And>pl. q \<Longrightarrow> tail_zero (length L) i (W pl)"
  shows "\<exists>s'. set_words X i (W Data) (W Ctrl) s = Inr s' \<and> progress sh L D s0 q xs ys (words_of (insert i I)) s'"
  by (rule progress_set_words [OF assms(1-3)]) (use assms(4,5) in \<open>auto simp: word_at_def\<close>)

lemma write_zero_word:
  assumes "store_fine sh s0" "progress sh L D s0 q xs ys (words_of I) s" "i < word_count (length L)"
    "\<And>n. n < length L \<Longrightarrow> n div 32 = i \<Longrightarrow> ys ! n = Log_0"
  shows "\<exists>s'. set_words X i 0 0 s = Inr s' \<and> progress sh L D s0 q xs ys (words_of (insert i I)) s'"
  using write_new_word [OF assms(1-3), of "\<lambda>_. 0"] assms(4) by (simp add: word_at_def tail_zero_def)

section \<open>Left shift\<close>

lemma shl_words_ok:
  assumes fine: "store_fine sh s0" and start: "progress sh L D s0 False xs (shl_list (32 * w) xs) {} s"
    and len: "length xs = length L" and w: "w \<noteq> 0" and sz: "sz = word_count (length L)"
  shows "\<exists>s'. shl_words X sz w s = Inr s' \<and> progress sh L D s0 False xs (shl_list (32 * w) xs) (words_of {..<sz}) s'"
proof -
  let ?ys = "shl_list (32 * w) xs"
  have "\<exists>s'. for_each (\<lambda>i. move_word X (i - w) i) (rev [w..<sz]) s = Inr s' \<and>
      progress sh L D s0 False xs ?ys (words_of {w..<sz}) s'"
  proof (rule rev_upt_words_loop [OF start])
    fix i s1 assume i: "w \<le> i" "i < sz" and p: "progress sh L D s0 False xs ?ys (words_of {i<..<sz}) s1"
    obtain W where W: "get_words X (i - w) s1 = Inr (W Data, W Ctrl)" "word_at W xs (i - w)"
      by (rule read_old_word [OF fine p, of "i - w"]) (use i sz in auto)
    have "word_at W ?ys i"
      unfolding word_at_def
    proof (intro allI impI)
      fix pl n assume n: "n < length L" "n div 32 = i"
      then have le: "32 * w \<le> n" using i(1) position_words(5) [of w n] by simp
      then have "bit (W pl) ((n - 32 * w) mod 32) \<longleftrightarrow> plane_bit pl (xs ! (n - 32 * w))"
        using n by (intro word_atD [OF W(2)]) (simp_all add: position_words)
      then show "bit (W pl) (n mod 32) \<longleftrightarrow> plane_bit pl (?ys ! n)"
        using le n(1) by (simp add: position_words shl_list_nth len not_less [symmetric])
    qed
    then show "\<exists>s'. move_word X (i - w) i s1 = Inr s' \<and>
        progress sh L D s0 False xs ?ys (words_of (insert i {i<..<sz})) s'"
      using write_new_word [OF fine p, of i W] i sz W(1) by (simp add: move_word_def)
  qed
  then obtain s1 where s1: "for_each (\<lambda>i. move_word X (i - w) i) (rev [w..<sz]) s = Inr s1"
    "progress sh L D s0 False xs ?ys (words_of {w..<sz}) s1" by blast
  have all: "{w..<sz} \<union> set (rev [0..<min w sz]) = {..<sz}" by auto
  have "\<exists>s'. for_each (\<lambda>i. set_words X i 0 0) (rev [0..<min w sz]) s1 = Inr s' \<and>
      progress sh L D s0 False xs ?ys (words_of ({w..<sz} \<union> set (rev [0..<min w sz]))) s'"
  proof (rule words_loop [OF s1(2)])
    fix pre i post s2 assume split: "rev [0..<min w sz] = pre @ i # post"
      and p: "progress sh L D s0 False xs ?ys (words_of ({w..<sz} \<union> set pre)) s2"
    have "i \<in> set (rev [0..<min w sz])" unfolding split by simp
    then have i: "i < w" "i < sz" by simp_all
    show "\<exists>s'. set_words X i 0 0 s2 = Inr s' \<and> progress sh L D s0 False xs ?ys (words_of (insert i ({w..<sz} \<union> set pre))) s'"
      by (rule write_zero_word [OF fine p])
        (use i sz len in \<open>auto simp: shl_list_nth position_words not_less\<close>)
  qed
  then show ?thesis unfolding all using s1(1) by (simp add: shl_words_def)
qed

lemma shl_bits_ok:
  assumes fine: "store_fine sh s0" and start: "progress sh L D s0 False xs (shl_list b xs) {} s"
    and len: "length xs = length L" and b: "0 < b" "b < 32" and sz: "sz = word_count (length L)"
  shows "\<exists>s'. shl_bits X sz b s = Inr s' \<and> progress sh L D s0 False xs (shl_list b xs) (words_of {..<sz}) s'"
proof -
  let ?ys = "shl_list b xs"
  let ?f = "\<lambda>V W pl. push_bit b (W pl) OR drop_bit (32 - b) (V pl) :: u32"
  have new: "bit (W pl) (n mod 32 - b) \<longleftrightarrow> plane_bit pl (?ys ! n)" if "word_at W xs i" "n < length L" "n div 32 = i" "b \<le> n mod 32" for W i pl n
  proof -
    have "b \<le> n" using that(4) by (meson le_trans mod_less_eq_dividend)
    then show ?thesis using word_atD [OF that(1), of "n - b" pl] that(2-4) position_down(1,2) [OF b(2), of n]
      by (simp add: shl_list_nth len not_less [symmetric])
  qed
  have "\<exists>s'. for_each (\<lambda>i s. bind_result (get_words X i s) (\<lambda>(dw, cw). bind_result (get_words X (i - 1) s) (\<lambda>(dw1, cw1).
        set_words X i (push_bit b dw OR drop_bit (32 - b) dw1) (push_bit b cw OR drop_bit (32 - b) cw1) s)))
        (rev [1..<sz]) s = Inr s' \<and> progress sh L D s0 False xs ?ys (words_of {1..<sz}) s'"
  proof (rule rev_upt_words_loop [OF start])
    fix i s1 assume i: "1 \<le> i" "i < sz" and p: "progress sh L D s0 False xs ?ys (words_of {i<..<sz}) s1"
    obtain W where W: "get_words X i s1 = Inr (W Data, W Ctrl)" "word_at W xs i"
      by (rule read_old_word [OF fine p, of i]) (use i sz in auto)
    obtain V where V: "get_words X (i - 1) s1 = Inr (V Data, V Ctrl)" "word_at V xs (i - 1)"
      by (rule read_old_word [OF fine p, of "i - 1"]) (use i sz in auto)
    have "word_at (?f V W) ?ys i"
      unfolding word_at_def
    proof (intro allI impI)
      fix pl n assume n: "n < length L" "n div 32 = i"
      have "bit (V pl) (n mod 32 + 32 - b) \<longleftrightarrow> plane_bit pl (?ys ! n)" if a: "\<not> b \<le> n mod 32"
      proof -
        have "b \<le> n" "n - b < length L" using position_down(5) [OF b(2), of n] n i(1) by simp_all
        then show ?thesis using word_atD [OF V(2), of "n - b" pl] n a position_down(3,4) [OF b(2), of n]
          by (simp add: shl_list_nth len not_less [symmetric])
      qed
      then show "bit (?f V W pl) (n mod 32) \<longleftrightarrow> plane_bit pl (?ys ! n)"
        using new [OF W(2) n] shifted_word_bits(1) [OF b, of "n mod 32" "W pl" "V pl"] by auto
    qed
    then show "\<exists>s'. bind_result (get_words X i s1) (\<lambda>(dw, cw). bind_result (get_words X (i - 1) s1) (\<lambda>(dw1, cw1).
        set_words X i (push_bit b dw OR drop_bit (32 - b) dw1) (push_bit b cw OR drop_bit (32 - b) cw1) s1)) = Inr s' \<and>
        progress sh L D s0 False xs ?ys (words_of (insert i {i<..<sz})) s'"
      using write_new_word [OF fine p, of i "?f V W"] i sz W(1) V(1) by simp
  qed
  then obtain s1 where s1: "for_each (\<lambda>i s. bind_result (get_words X i s) (\<lambda>(dw, cw). bind_result (get_words X (i - 1) s) (\<lambda>(dw1, cw1).
        set_words X i (push_bit b dw OR drop_bit (32 - b) dw1) (push_bit b cw OR drop_bit (32 - b) cw1) s)))
        (rev [1..<sz]) s = Inr s1" "progress sh L D s0 False xs ?ys (words_of {1..<sz}) s1" by blast
  have 0: "0 < word_count (length L)" by (simp add: word_count_def)
  obtain W where W: "get_words X 0 s1 = Inr (W Data, W Ctrl)" "word_at W xs 0"
    by (rule read_old_word [OF fine s1(2) 0]) auto
  have "word_at (\<lambda>pl. push_bit b (W pl)) ?ys 0"
    unfolding word_at_def
  proof (intro allI impI)
    fix pl n assume n: "n < length L" "n div 32 = 0"
    have shifted: "bit (push_bit b (W pl)) (n mod 32) \<longleftrightarrow> b \<le> n mod 32 \<and> bit (W pl) (n mod 32 - b)"
      by (simp add: bit_push_bit_iff)
    show "bit (push_bit b (W pl)) (n mod 32) \<longleftrightarrow> plane_bit pl (?ys ! n)"
    proof (cases "b \<le> n mod 32")
      case True
      then show ?thesis using new [OF W(2) n True, of pl] shifted by blast
    next
      case False
      then have "n < b" using position_down(5) [OF b(2), of n] n(2) by linarith
      then have "?ys ! n = Log_0" using n(1) by (simp add: shl_list_nth len)
      then show ?thesis unfolding shifted using False by simp
    qed
  qed
  then obtain s' where "set_words X 0 (push_bit b (W Data)) (push_bit b (W Ctrl)) s1 = Inr s'"
    "progress sh L D s0 False xs ?ys (words_of (insert 0 {1..<sz})) s'"
    using write_new_word [OF fine s1(2) 0, of "\<lambda>pl. push_bit b (W pl)"] by auto
  moreover have "insert 0 {1..<sz} = {..<sz}" using 0 sz by auto
  ultimately show ?thesis using s1(1) W(1) by (simp add: shl_bits_def)
qed

section \<open>Right shift\<close>

lemma word_atD_tail:
  assumes "word_at W xs i" "\<And>pl. tail_zero (length L) i (W pl)" "n div 32 = i"
  shows "bit (W pl) (n mod 32) \<longleftrightarrow> plane_bit pl (if n < length L then xs ! n else Log_0)"
  using assms by (auto simp: word_at_def tail_zero_def not_less)

lemma tail_zero_new:
  assumes W: "\<And>n. n div 32 = i \<Longrightarrow> bit w (n mod 32) \<longleftrightarrow> plane_bit pl (if n + m < length L then xs ! (n + m) else Log_0)"
  shows "tail_zero (length L) i w"
  using W by (auto simp: tail_zero_def)

lemma shr_words_ok:
  assumes fine: "store_fine sh s0" and start: "progress sh L D s0 True xs (shr_list (32 * w) xs) {} s"
    and len: "length xs = length L" and w: "w \<noteq> 0" and sz: "sz = word_count (length L)"
  shows "\<exists>s'. shr_words X sz w s = Inr s' \<and> progress sh L D s0 True xs (shr_list (32 * w) xs) (words_of {..<sz}) s'"
proof -
  let ?ys = "shr_list (32 * w) xs"
  have "\<exists>s'. for_each (\<lambda>i. move_word X (i + w) i) [0..<sz - w] s = Inr s' \<and>
      progress sh L D s0 True xs ?ys (words_of {..<sz - w}) s'"
  proof (rule upt_words_loop)
    show "progress sh L D s0 True xs ?ys (words_of {..<0}) s" using start by simp
    fix i s1 assume "i < sz - w" and p: "progress sh L D s0 True xs ?ys (words_of {..<i}) s1"
    then have i: "i + w < word_count (length L)" "i + w \<notin> {..<i}" using sz by auto
    obtain W where W: "get_words X (i + w) s1 = Inr (W Data, W Ctrl)" "word_at W xs (i + w)"
      "\<And>pl. tail_zero (length L) (i + w) (W pl)"
      by (rule read_old_word [OF fine p i]) blast
    have new: "bit (W pl) (n mod 32) \<longleftrightarrow> plane_bit pl (if n + 32 * w < length L then xs ! (n + 32 * w) else Log_0)"
      if "n div 32 = i" for pl n
      using word_atD_tail [OF W(2,3), of "n + 32 * w" pl] that by (simp add: position_words)
    then have "word_at W ?ys i" by (simp add: word_at_def shr_list_nth len)
    moreover have "tail_zero (length L) i (W pl)" for pl using new by (rule tail_zero_new)
    ultimately show "\<exists>s'. move_word X (i + w) i s1 = Inr s' \<and>
        progress sh L D s0 True xs ?ys (words_of (insert i {..<i})) s'"
      using write_new_word [OF fine p, of i W] i W(1) by (simp add: move_word_def)
  qed simp
  then obtain s1 where s1: "for_each (\<lambda>i. move_word X (i + w) i) [0..<sz - w] s = Inr s1"
    "progress sh L D s0 True xs ?ys (words_of {..<sz - w}) s1" by blast
  have "\<exists>s'. for_each (\<lambda>i. set_words X i 0 0) [sz - w..<sz] s1 = Inr s' \<and>
      progress sh L D s0 True xs ?ys (words_of {..<sz}) s'"
  proof (rule upt_words_loop [OF s1(2)])
    fix i s2 assume i: "sz - w \<le> i" "i < sz" and p: "progress sh L D s0 True xs ?ys (words_of {..<i}) s2"
    have "?ys ! n = Log_0" if n: "n < length L" "n div 32 = i" for n
    proof -
      have "\<not> (n + 32 * w) div 32 < word_count (length L)" using i n(2) sz by (simp add: position_words)
      then have "\<not> n + 32 * w < length L" using all_words by blast
      then show ?thesis using n(1) len by (simp add: shr_list_nth)
    qed
    then show "\<exists>s'. set_words X i 0 0 s2 = Inr s' \<and> progress sh L D s0 True xs ?ys (words_of (insert i {..<i})) s'"
      using write_zero_word [OF fine p] i sz by blast
  qed simp
  then show ?thesis using s1(1) by (simp add: shr_words_def)
qed

lemma shr_bits_ok:
  assumes fine: "store_fine sh s0" and start: "progress sh L D s0 True xs (shr_list b xs) {} s"
    and len: "length xs = length L" and b: "0 < b" "b < 32" and sz: "sz = word_count (length L)"
  shows "\<exists>s'. shr_bits X sz b s = Inr s' \<and> progress sh L D s0 True xs (shr_list b xs) (words_of {..<sz}) s'"
proof -
  let ?ys = "shr_list b xs"
  let ?at = "\<lambda>n. if n < length L then xs ! n else Log_0"
  let ?f = "\<lambda>V W pl. drop_bit b (W pl) OR push_bit (32 - b) (V pl) :: u32"
  have low: "bit (W pl) (n mod 32 + b) \<longleftrightarrow> plane_bit pl (?at (n + b))"
    if "word_at W xs i" "\<And>pl. tail_zero (length L) i (W pl)" "n div 32 = i" "n mod 32 + b < 32" for W i pl n
    using word_atD_tail [OF that(1,2), of "n + b" pl] that(3,4) position_up(1,2) [OF b(2), of n] by simp
  have "\<exists>s'. for_each (\<lambda>i s. bind_result (get_words X i s) (\<lambda>(dw, cw). bind_result (get_words X (i + 1) s) (\<lambda>(dw1, cw1).
        set_words X i (drop_bit b dw OR push_bit (32 - b) dw1) (drop_bit b cw OR push_bit (32 - b) cw1) s)))
        [0..<sz - 1] s = Inr s' \<and> progress sh L D s0 True xs ?ys (words_of {..<sz - 1}) s'"
  proof (rule upt_words_loop)
    show "progress sh L D s0 True xs ?ys (words_of {..<0}) s" using start by simp
    fix i s1 assume "i < sz - 1" and p: "progress sh L D s0 True xs ?ys (words_of {..<i}) s1"
    then have i: "i < word_count (length L)" "i + 1 < word_count (length L)" using sz by linarith+
    obtain W where W: "get_words X i s1 = Inr (W Data, W Ctrl)" "word_at W xs i" "\<And>pl. tail_zero (length L) i (W pl)"
      by (rule read_old_word [OF fine p i(1)]) auto
    obtain V where V: "get_words X (i + 1) s1 = Inr (V Data, V Ctrl)" "word_at V xs (i + 1)"
      "\<And>pl. tail_zero (length L) (i + 1) (V pl)"
      by (rule read_old_word [OF fine p i(2)]) auto
    have new: "bit (?f V W pl) (n mod 32) \<longleftrightarrow> plane_bit pl (?at (n + b))" if n: "n div 32 = i" for pl n
    proof -
      have "bit (V pl) (n mod 32 + b - 32) \<longleftrightarrow> plane_bit pl (?at (n + b))" if a: "\<not> n mod 32 + b < 32"
        using word_atD_tail [OF V(2,3), of "n + b" pl] n position_up(3,4) [OF b(2) a] by simp
      then show ?thesis
        using low [OF W(2,3) n, of pl] shifted_word_bits(2) [OF b, of "n mod 32" "W pl" "V pl"] by auto
    qed
    then have "word_at (?f V W) ?ys i" by (simp add: word_at_def shr_list_nth len)
    moreover have "tail_zero (length L) i (?f V W pl)" for pl using new by (rule tail_zero_new)
    ultimately show "\<exists>s'. bind_result (get_words X i s1) (\<lambda>(dw, cw). bind_result (get_words X (i + 1) s1) (\<lambda>(dw1, cw1).
        set_words X i (drop_bit b dw OR push_bit (32 - b) dw1) (drop_bit b cw OR push_bit (32 - b) cw1) s1)) = Inr s' \<and>
        progress sh L D s0 True xs ?ys (words_of (insert i {..<i})) s'"
      using write_new_word [OF fine p i(1), of "?f V W"] W(1) V(1) by simp
  qed simp
  then obtain s1 where s1: "for_each (\<lambda>i s. bind_result (get_words X i s) (\<lambda>(dw, cw). bind_result (get_words X (i + 1) s) (\<lambda>(dw1, cw1).
        set_words X i (drop_bit b dw OR push_bit (32 - b) dw1) (drop_bit b cw OR push_bit (32 - b) cw1) s)))
        [0..<sz - 1] s = Inr s1" "progress sh L D s0 True xs ?ys (words_of {..<sz - 1}) s1" by blast
  have last: "sz - 1 < word_count (length L)" "sz - 1 \<notin> {..<sz - 1}" using sz by (simp_all add: word_count_def)
  obtain W where W: "get_words X (sz - 1) s1 = Inr (W Data, W Ctrl)" "word_at W xs (sz - 1)"
    "\<And>pl. tail_zero (length L) (sz - 1) (W pl)"
    by (rule read_old_word [OF fine s1(2) last]) auto
  have new: "bit (drop_bit b (W pl)) (n mod 32) \<longleftrightarrow> plane_bit pl (?at (n + b))" if n: "n div 32 = sz - 1" for pl n
  proof (cases "n mod 32 + b < 32")
    case True
    then show ?thesis using low [OF W(2,3) n True, of pl] by (simp add: bit_drop_bit_eq add.commute)
  next
    case False
    then have "(n + b) div 32 = sz" using position_up(3) [OF b(2) False] n last(1) sz by (simp add: word_count_def)
    then have "\<not> n + b < length L" using all_words [of "n + b"] sz by auto
    moreover have "\<not> bit (W pl) (n mod 32 + b)" using False bit_imp_le_length [of "W pl" "n mod 32 + b"] by auto
    ultimately show ?thesis by (simp add: bit_drop_bit_eq add.commute)
  qed
  then have "word_at (\<lambda>pl. drop_bit b (W pl)) ?ys (sz - 1)" by (simp add: word_at_def shr_list_nth len)
  moreover have "tail_zero (length L) (sz - 1) (drop_bit b (W pl))" for pl using new by (rule tail_zero_new)
  ultimately obtain s' where s': "set_words X (sz - 1) (drop_bit b (W Data)) (drop_bit b (W Ctrl)) s1 = Inr s'"
    "progress sh L D s0 True xs ?ys (words_of (insert (sz - 1) {..<sz - 1})) s'"
    using write_new_word [OF fine s1(2) last(1), of "\<lambda>pl. drop_bit b (W pl)"] by auto
  have all: "insert (sz - 1) {..<sz - 1} = {..<sz}" using last(1) sz by auto
  show ?thesis using s1(1) W(1) s'(1) s'(2) [unfolded all] by (simp add: shr_bits_def)
qed

section \<open>Both stages\<close>

lemma shift_out:
  assumes fine: "store_fine sh s"
  shows "writes sh L s (extend_sign_w X 0 False s) (replicate (length L) Log_0)"
proof -
  let ?ys = "replicate (length L) Log_0"
  have "progress sh L D s True (contents s L) ?ys (words_of {..<0}) s"
    using progress_start [OF fine, of "contents s L"] by simp
  then obtain s' where s': "extend_sign_w X 0 False s = Inr s'"
    "progress sh L D s True (contents s L) ?ys (words_of {..<word_count (length L)}) s'"
    using extend_sign_ok [OF fine, of True "contents s L" ?ys 0 s False] by (auto simp: logic_of_bool_def)
  have "outcome sh L s s' ?ys" by (rule progress_end [OF fine s'(2)]) (use all_words in auto)
  then show ?thesis using s'(1) by (simp add: writes_def)
qed

lemma shl_proxy_ok:
  assumes fine: "store_fine sh s" and u: "uniform sh L" and n: "0 \<le> n"
  shows "writes sh L s (shl_proxy X n s) (shl_list (nat n) (contents s L))"
proof (cases "n \<ge> int (length L)")
  case True
  then show ?thesis using shift_out [OF fine] n read.read_length [OF fine]
    by (simp add: shl_proxy_def shifted_out)
next
  case False
  define xs where "xs = contents s L"
  define sz w b where "sz = word_count (length L)" and "w = nat n div 32" and "b = nat n mod 32"
  have fit: "fitting sh L xs" using fine fitting_contents by (simp add: xs_def store_fine_def)
  have len: "length xs = length L" by (simp add: xs_def)
  have all: "{..<length L} \<subseteq> words_of {..<sz}" using all_words by (auto simp: sz_def)
  have "\<exists>s1. (if w \<noteq> 0 then shl_words X sz w s else Inr s) = Inr s1 \<and>
      progress sh L D s False (shl_list (32 * w) xs) (shl_list (32 * w + b) xs) {} s1"
  proof (cases "w = 0")
    case True
    then show ?thesis using progress_start [OF fine xs_def] by simp
  next
    case False
    then show ?thesis
      using shl_words_ok [OF fine progress_start [OF fine xs_def] len False sz_def]
        progress_next [OF _ all fitting_shl [OF u len fit, of "32 * w"]] by auto
  qed
  then obtain s1 where s1: "(if w \<noteq> 0 then shl_words X sz w s else Inr s) = Inr s1"
    "progress sh L D s False (shl_list (32 * w) xs) (shl_list b (shl_list (32 * w) xs)) {} s1"
    by (auto simp: shl_list_shl_list)
  have b: "b < 32" by (simp add: b_def)
  have "\<exists>s2 zs. (if b \<noteq> 0 then shl_bits X sz b s1 else Inr s1) = Inr s2 \<and>
      progress sh L D s False zs (shl_list (32 * w + b) xs) (words_of {..<sz}) s2"
  proof (cases "b = 0")
    case True
    then have "progress sh L D s False (shl_list (32 * w) xs) (shl_list (32 * w) xs) (words_of {..<sz}) s1"
      using s1(2) fitting_shl [OF u len fit, of "32 * w"] unfolding progress_def fitting_def by auto
    then show ?thesis using True by auto
  next
    case False
    then show ?thesis using shl_bits_ok [OF fine s1(2) _ _ b sz_def] len by (auto simp: shl_list_shl_list)
  qed
  then obtain s2 zs where s2: "(if b \<noteq> 0 then shl_bits X sz b s1 else Inr s1) = Inr s2"
    "progress sh L D s False zs (shl_list (32 * w + b) xs) (words_of {..<sz}) s2" by blast
  have "32 * w + b = nat n" by (simp add: w_def b_def)
  then have "writes sh L s (px_clean_tail X s2) (shl_list (nat n) xs)"
    using progress_clean [OF fine s2(2) all] len by simp
  moreover have "\<not> n < 0" "\<not> n \<ge> int (px_length X s)" "px_size X s = sz"
    using False n read.read_length [OF fine] read.read_size [OF fine] by (simp_all add: sz_def)
  then have "shl_proxy X n s = px_clean_tail X s2"
    by (simp only: shl_proxy_def Let_def w_def [symmetric] b_def [symmetric] s1(1) s2(1) bind_result_Inr if_False)
  ultimately show ?thesis by (simp add: xs_def)
qed

lemma shr_proxy_ok:
  assumes fine: "store_fine sh s" and u: "uniform sh L" and n: "0 \<le> n"
  shows "writes sh L s (shr_proxy X n s) (shr_list (nat n) (contents s L))"
proof (cases "n \<ge> int (length L)")
  case True
  then show ?thesis using shift_out [OF fine] n read.read_length [OF fine]
    by (simp add: shr_proxy_def shifted_out)
next
  case False
  define xs where "xs = contents s L"
  define sz w b where "sz = word_count (length L)" and "w = nat n div 32" and "b = nat n mod 32"
  have fit: "fitting sh L xs" using fine fitting_contents by (simp add: xs_def store_fine_def)
  have len: "length xs = length L" by (simp add: xs_def)
  have all: "{..<length L} \<subseteq> words_of {..<sz}" using all_words by (auto simp: sz_def)
  have "\<exists>s1. (if w \<noteq> 0 then shr_words X sz w s else Inr s) = Inr s1 \<and>
      progress sh L D s True (shr_list (32 * w) xs) (shr_list (32 * w + b) xs) {} s1"
  proof (cases "w = 0")
    case True
    then show ?thesis using progress_start [OF fine xs_def] by simp
  next
    case False
    then show ?thesis
      using shr_words_ok [OF fine progress_start [OF fine xs_def] len False sz_def]
        progress_next [OF _ all fitting_shr [OF u len fit, of "32 * w"]] by auto
  qed
  then obtain s1 where s1: "(if w \<noteq> 0 then shr_words X sz w s else Inr s) = Inr s1"
    "progress sh L D s True (shr_list (32 * w) xs) (shr_list b (shr_list (32 * w) xs)) {} s1"
    by (auto simp: shr_list_shr_list)
  have b: "b < 32" by (simp add: b_def)
  have "\<exists>s2 zs. (if b \<noteq> 0 then shr_bits X sz b s1 else Inr s1) = Inr s2 \<and>
      progress sh L D s True zs (shr_list (32 * w + b) xs) (words_of {..<sz}) s2"
  proof (cases "b = 0")
    case True
    then have "progress sh L D s True (shr_list (32 * w) xs) (shr_list (32 * w) xs) (words_of {..<sz}) s1"
      using s1(2) fitting_shr [OF u len fit, of "32 * w"] unfolding progress_def fitting_def by auto
    then show ?thesis using True by auto
  next
    case False
    then show ?thesis using shr_bits_ok [OF fine s1(2) _ _ b sz_def] len by (auto simp: shr_list_shr_list)
  qed
  then obtain s2 zs where s2: "(if b \<noteq> 0 then shr_bits X sz b s1 else Inr s1) = Inr s2"
    "progress sh L D s True zs (shr_list (32 * w + b) xs) (words_of {..<sz}) s2" by blast
  have "32 * w + b = nat n" by (simp add: w_def b_def)
  then have "writes sh L s (px_clean_tail X s2) (shr_list (nat n) xs)"
    using progress_clean [OF fine s2(2) all] len by simp
  moreover have "\<not> n < 0" "\<not> n \<ge> int (px_length X s)" "px_size X s = sz"
    using False n read.read_length [OF fine] read.read_size [OF fine] by (simp_all add: sz_def)
  then have "shr_proxy X n s = px_clean_tail X s2"
    by (simp only: shr_proxy_def Let_def w_def [symmetric] b_def [symmetric] s1(1) s2(1) bind_result_Inr if_False)
  ultimately show ?thesis by (simp add: xs_def)
qed

end

end
