(* ===== verification/Sc_Proxy_Vector_Facts.thy ===== *)
theory Sc_Proxy_Vector_Facts
  imports Sc_Proxy_Shift_Facts
begin

text \<open>
  The operators of \<open>sc_proxy.h\<close> that make a new logic vector, and those that compute through one: bitwise
  operators with two operands, shifts that return their result, rotations, assignment of a part.
\<close>

unbundle bit_operations_syntax

section \<open>A vector of its own\<close>

definition logic_vec :: "vec \<Rightarrow> sc_logic_value_t list \<Rightarrow> bool" where
  "logic_vec v xs \<longleftrightarrow> vec_ok v \<and> vec_clean v \<and> v_kind v = LV \<and> vec_list v = xs"

definition own_shape :: "nat \<Rightarrow> shape" where
  "own_shape n = (\<lambda>_. (LV, n))"

abbreviation own_places :: "nat \<Rightarrow> place list" where
  "own_places n \<equiv> places_of (own_shape n) 0"

lemma own_shape_snd [simp]: "snd (own_shape n a) = n"
  by (simp add: own_shape_def)

lemma logic_vec_length: "logic_vec v xs \<Longrightarrow> v_len v = length xs"
  by (auto simp: logic_vec_def vec_list_def)

lemma contents_places: "store_ok sh s \<Longrightarrow> contents s (places_of sh a) = vec_list (s a)"
  by (simp add: contents_def places_of_def vec_list_def pval_def store_okD(2) comp_def)

lemma logic_vec_fine:
  assumes "logic_vec v xs"
  shows "store_fine (own_shape (length xs)) (\<lambda>_. v)" "contents (\<lambda>_. v) (own_places (length xs)) = xs"
proof -
  show fine: "store_fine (own_shape (length xs)) (\<lambda>_. v)"
    using assms logic_vec_length [OF assms]
    by (auto simp: store_fine_def store_ok_def store_clean_def logic_vec_def own_shape_def)
  show "contents (\<lambda>_. v) (own_places (length xs)) = xs"
    using contents_places [of _ "\<lambda>_. v"] fine assms by (simp add: store_fine_def logic_vec_def)
qed

lemma own_fit [simp]: "fit (own_shape n) l x = x"
  by (rule fit_LV) (simp add: own_shape_def)

lemma own_fits [simp]: "length L = length xs \<Longrightarrow> map2 (\<lambda>l x. x) L xs = xs"
  by (simp add: list_eq_iff_nth_eq)

lemma uniform_own: "uniform (own_shape n) L"
  by (simp add: uniform_def own_shape_def)


lemma on_local_ok:
  assumes "writes (own_shape n) (own_places n) (\<lambda>_. v) (f (\<lambda>_. v)) xs" "length xs = n"
  obtains v' where "on_local f v = Inr v'" "logic_vec v' xs"
proof -
  obtain s' where s': "f (\<lambda>_. v) = Inr s'" "outcome (own_shape n) (own_places n) (\<lambda>_. v) s' xs"
    using assms(1) by (auto simp: writes_def)
  have fine: "store_fine (own_shape n) s'" and xs: "contents s' (own_places n) = xs"
    using s'(2) assms(2) by (simp_all add: outcome_def)
  have "logic_vec (s' 0) xs"
    using fine xs contents_places [of "own_shape n" s' 0] store_okD(1,2) [of "own_shape n" s' 0]
    by (auto simp: logic_vec_def store_fine_def store_clean_def own_shape_def)
  then show thesis using that s'(1) by (simp add: on_local_def)
qed

lemma readable_const: "readable X P c \<Longrightarrow> P s \<Longrightarrow> readable (frozen s X) Q (\<lambda>_. c s)"
  by (auto simp: readable_def frozen_def px_get_def split: plane.splits)

lemma value_of_readable:
  assumes "logic_vec v xs"
  shows "readable (value_of v) Q (\<lambda>_. xs)"
  using readable_const [OF whole.read.readable_axioms [where sh = "own_shape (length xs)" and a = 0], of "\<lambda>_. v" Q]
    logic_vec_fine [OF assms] by (simp add: value_of_def)

lemma lv_init_logic_vec:
  assumes "0 < n"
  obtains v where "lv_init (int n) x = Inr v" "logic_vec v (replicate n x)"
  using vec_init_ok(1) [of "int n" x] assms by (auto simp: logic_vec_def)

section \<open>Operators that make a new vector\<close>

context readable
begin

lemma lv_resized_ok:
  assumes P: "P s" and n: "0 < n"
  obtains v where "lv_resized (int n) X s = Inr v" "logic_vec v (padded n (c s))"
proof -
  obtain a where a: "lv_init (int n) Log_X = Inr a" "logic_vec a (replicate n Log_X)" using lv_init_logic_vec [OF n] by blast
  note fine = logic_vec_fine [OF a(2)]
  show thesis
  proof (rule on_local_ok)
    show "writes (own_shape n) (own_places n) (\<lambda>_. a) (assign_p False (whole 0) (frozen s X) (\<lambda>_. a)) (padded n (c s))"
      using whole.assign_p_ok [where a = 0, OF fine(1) readable_const [OF readable_axioms P]] by simp
    fix v assume "on_local (assign_p False (whole 0) (frozen s X)) a = Inr v" "logic_vec v (padded n (c s))"
    then show thesis using that a(1) by (simp add: lv_resized_def)
  qed simp
qed

lemma lv_from_ok:
  assumes P: "P s"
  obtains v where "lv_from X s = Inr v" "logic_vec v (c s)"
  using lv_resized_ok [OF P, of "length (c s)"] read_length [OF P] read_nonempty [OF P]
  by (simp add: lv_from_def) blast

lemma not_op_ok:
  assumes P: "P s"
  obtains v where "not_op X s = Inr v" "logic_vec v (map logic_not (c s))"
proof -
  obtain a where a: "lv_from X s = Inr a" "logic_vec a (c s)" using lv_from_ok [OF P] .
  note fine = logic_vec_fine [OF a(2)]
  show thesis
  proof (rule on_local_ok)
    show "writes (own_shape (length (c s))) (own_places (length (c s))) (\<lambda>_. a) (b_not (whole 0) (\<lambda>_. a)) (map logic_not (c s))"
      using whole.b_not_ok [where a = 0, OF fine(1)] fine(2) by simp
    fix v assume "on_local (b_not (whole 0)) a = Inr v" "logic_vec v (map logic_not (c s))"
    then show thesis using that a(1) by (simp add: not_op_def)
  qed simp
qed

lemma shl_op_ok:
  assumes P: "P s" and n: "0 \<le> n"
  obtains v where "shl_op X n s = Inr v" "logic_vec v (replicate (nat n) Log_0 @ c s)"
proof -
  define m where "m = length (c s) + nat n"
  have m: "int (px_length X s) + n = int m" "0 < m" using read_length [OF P] read_nonempty [OF P] n by (simp_all add: m_def)
  obtain a where a: "lv_resized (int m) X s = Inr a" "logic_vec a (padded m (c s))" using lv_resized_ok [OF P m(2)] .
  note fine = logic_vec_fine [OF a(2), simplified]
  have eq: "shl_list (nat n) (padded m (c s)) = replicate (nat n) Log_0 @ c s"
    by (rule nth_equalityI) (auto simp: m_def shl_list_nth padded_nth nth_append)
  show thesis
  proof (rule on_local_ok)
    show "writes (own_shape m) (own_places m) (\<lambda>_. a) (shl_proxy (whole 0) n (\<lambda>_. a)) (replicate (nat n) Log_0 @ c s)"
      using whole.shl_proxy_ok [where a = 0, OF fine(1) uniform_own n] fine(2) eq by simp
    fix v assume "on_local (shl_proxy (whole 0) n) a = Inr v" "logic_vec v (replicate (nat n) Log_0 @ c s)"
    then show thesis using that a(1) m(1) by (simp add: shl_op_def)
  qed (simp add: m_def)
qed

lemma shr_op_ok:
  assumes P: "P s" and n: "0 \<le> n"
  obtains v where "shr_op X n s = Inr v" "logic_vec v (shr_list (nat n) (c s))"
proof -
  obtain a where a: "lv_from X s = Inr a" "logic_vec a (c s)" using lv_from_ok [OF P] .
  note fine = logic_vec_fine [OF a(2)]
  show thesis
  proof (rule on_local_ok)
    show "writes (own_shape (length (c s))) (own_places (length (c s))) (\<lambda>_. a) (shr_proxy (whole 0) n (\<lambda>_. a)) (shr_list (nat n) (c s))"
      using whole.shr_proxy_ok [where a = 0, OF fine(1) uniform_own n] fine(2) by simp
    fix v assume "on_local (shr_proxy (whole 0) n) a = Inr v" "logic_vec v (shr_list (nat n) (c s))"
    then show thesis using that a(1) by (simp add: shr_op_def)
  qed simp
qed

end

section \<open>Operators with two operands\<close>

context writable
begin

lemma assign_operators_ok:
  assumes fine: "store_fine sh s" and Y: "readable Y P c" and P: "P s"
  shows "writes sh L s (and_assign_proxy X Y s) (map2 logic_and (contents s L) (padded (length L) (c s)))"
    and "writes sh L s (or_assign_proxy X Y s) (map2 logic_or (contents s L) (padded (length L) (c s)))"
    and "writes sh L s (xor_assign_proxy X Y s) (map2 logic_xor (contents s L) (padded (length L) (c s)))"
proof -
  have len: "px_length X s = length L" "0 < length L"
    using read.read_length [OF fine] read.read_nonempty [OF fine] by (auto simp: contents_def)
  obtain a where a: "lv_resized (int (length L)) Y s = Inr a" "logic_vec a (padded (length L) (c s))"
    using readable.lv_resized_ok [OF Y, OF P len(2)] .
  note ok = fine value_of_readable [OF a(2)] length_padded
  show "writes sh L s (and_assign_proxy X Y s) (map2 logic_and (contents s L) (padded (length L) (c s)))"
    "writes sh L s (or_assign_proxy X Y s) (map2 logic_or (contents s L) (padded (length L) (c s)))"
    "writes sh L s (xor_assign_proxy X Y s) (map2 logic_xor (contents s L) (padded (length L) (c s)))"
    using b_and_assign_ok [OF ok] b_or_assign_ok [OF ok] b_xor_assign_ok [OF ok]
    by (simp_all add: and_assign_proxy_def or_assign_proxy_def xor_assign_proxy_def len a(1))
qed

text \<open>The rotations take a left and a right shift together.\<close>

lemma join_words_ok:
  assumes fine: "store_fine sh s" and a: "logic_vec a xs" "length L \<le> length xs" and b: "logic_vec b ys" "length L \<le> length ys"
    and zs: "length zs = length L" "\<And>k pl. k < length L \<Longrightarrow> plane_bit pl (zs ! k) \<longleftrightarrow> plane_bit pl (xs ! k) \<or> plane_bit pl (ys ! k)"
  shows "writes sh L s (join_words X a b s) zs"
proof -
  let ?body = "\<lambda>i s. bind_result (get_words (value_of a) i s) (\<lambda>(a_dw, a_cw). bind_result (get_words (value_of b) i s)
        (\<lambda>(b_dw, b_cw). set_words X i (a_dw OR b_dw) (a_cw OR b_cw) s))"
  have "\<exists>s'. for_each ?body [0..<px_size X s] s = Inr s' \<and>
      progress sh L D s False (contents s L) zs (words_of {..<px_size X s}) s'"
  proof (rule upt_words_loop)
    show "progress sh L D s False (contents s L) zs (words_of {..<0}) s" using progress_start [OF fine] by simp
    fix i s1 assume "i < px_size X s" and p: "progress sh L D s False (contents s L) zs (words_of {..<i}) s1"
    then have i: "i < word_count (length L)" using read.read_size [OF fine] by simp
    have more: "i < word_count m" if "length L \<le> m" for m
      using i that div_le_mono [of "length L - 1" "m - 1" 32] by (simp add: word_count_def)
    let ?W = "\<lambda>pl. plane_word pl xs i OR plane_word pl ys i"
    have "get_words (value_of a) i s1 = Inr (plane_word Data xs i, plane_word Ctrl xs i)"
      "get_words (value_of b) i s1 = Inr (plane_word Data ys i, plane_word Ctrl ys i)"
      using readable.read_words [OF value_of_readable [OF a(1), of "\<lambda>_. True"], where s = s1]
        readable.read_words [OF value_of_readable [OF b(1), of "\<lambda>_. True"], where s = s1] more a(2) b(2) by simp_all
    moreover have "\<exists>s'. set_words X i (?W Data) (?W Ctrl) s1 = Inr s' \<and>
        progress sh L D s False (contents s L) zs (words_of (insert i {..<i})) s'"
    proof (rule progress_set_words [OF fine p i])
      fix pl n assume n: "n < length L" "n div 32 = i"
      show "bit (?W pl) (n mod 32) \<longleftrightarrow> plane_bit pl (zs ! n)"
        unfolding n(2) [symmetric] bit_or_iff bit_plane_word_mod using n(1) a(2) b(2) zs(2) [of n pl] by auto
    qed simp
    ultimately show "\<exists>s'. ?body i s1 = Inr s' \<and>
        progress sh L D s False (contents s L) zs (words_of (insert i {..<i})) s'" by simp
  qed simp
  then obtain s' where s': "for_each ?body [0..<px_size X s] s = Inr s'"
    "progress sh L D s False (contents s L) zs (words_of {..<px_size X s}) s'" by blast
  have "writes sh L s (px_clean_tail X s') zs"
    by (rule progress_clean [OF fine s'(2)]) (use all_words zs(1) read.read_size [OF fine] in auto)
  then show ?thesis using s'(1) by (simp add: join_words_def)
qed

lemma rotate_nth_split:
  assumes "k < length xs" "m \<le> length xs"
  shows "rotate m xs ! k = (if k + m < length xs then xs ! (k + m) else xs ! (k + m - length xs))"
  using assms by (auto simp: nth_rotate add.commute le_mod_geq)

lemma lrotate_ok:
  assumes fine: "store_fine sh s" and n: "0 \<le> n"
  shows "writes sh L s (lrotate X n s) (rotate (length L - nat n mod length L) (contents s L))"
proof -
  define xs where "xs = contents s L"
  define m where "m = nat n mod length L"
  have len: "px_length X s = length L" "0 < length L" "length xs = length L"
    using read.read_length [OF fine] read.read_nonempty [OF fine] by (auto simp: xs_def contents_def)
  have m: "m < length L" using len(2) by (simp add: m_def)
  have nm: "n mod int (length L) = int m" using n by (simp add: m_def zmod_int)
  obtain a where a: "shl_op X (int m) s = Inr a" "logic_vec a (replicate m Log_0 @ xs)"
    by (rule read.shl_op_ok [OF fine, of "int m"]) (simp_all add: xs_def)
  obtain b where b: "shr_op X (int (length L) - int m) s = Inr b" "logic_vec b (shr_list (length L - m) xs)"
    by (rule read.shr_op_ok [OF fine, of "int (length L) - int m"]) (use m in \<open>simp_all add: xs_def nat_diff_distrib\<close>)
  have "writes sh L s (join_words X a b s) (rotate (length L - m) xs)"
  proof (rule join_words_ok [OF fine a(2) _ b(2)])
    fix k pl assume k: "k < length L"
    show "plane_bit pl (rotate (length L - m) xs ! k) \<longleftrightarrow>
        plane_bit pl ((replicate m Log_0 @ xs) ! k) \<or> plane_bit pl (shr_list (length L - m) xs ! k)"
      using k m len(3) by (auto simp: rotate_nth_split nth_append shr_list_nth)
  qed (use len in simp_all)
  then show ?thesis
    using n a(1) b(1) by (simp add: lrotate_def Let_def len(1) nm xs_def m_def)
qed

lemma rrotate_ok:
  assumes fine: "store_fine sh s" and n: "0 \<le> n"
  shows "writes sh L s (rrotate X n s) (rotate (nat n) (contents s L))"
proof -
  define xs where "xs = contents s L"
  define m where "m = nat n mod length L"
  have len: "px_length X s = length L" "0 < length L" "length xs = length L"
    using read.read_length [OF fine] read.read_nonempty [OF fine] by (auto simp: xs_def contents_def)
  have m: "m < length L" using len(2) by (simp add: m_def)
  have nm: "n mod int (length L) = int m" using n by (simp add: m_def zmod_int)
  obtain a where a: "shr_op X (int m) s = Inr a" "logic_vec a (shr_list m xs)"
    by (rule read.shr_op_ok [OF fine, of "int m"]) (simp_all add: xs_def)
  obtain b where b: "shl_op X (int (length L) - int m) s = Inr b" "logic_vec b (replicate (length L - m) Log_0 @ xs)"
    by (rule read.shl_op_ok [OF fine, of "int (length L) - int m"]) (use m in \<open>simp_all add: xs_def nat_diff_distrib\<close>)
  have "writes sh L s (join_words X a b s) (rotate m xs)"
  proof (rule join_words_ok [OF fine a(2) _ b(2)])
    fix k pl assume k: "k < length L"
    show "plane_bit pl (rotate m xs ! k) \<longleftrightarrow>
        plane_bit pl (shr_list m xs ! k) \<or> plane_bit pl ((replicate (length L - m) Log_0 @ xs) ! k)"
      using k m len(3) by (auto simp: rotate_nth_split nth_append shr_list_nth)
  qed (use len in simp_all)
  moreover have "rotate m xs = rotate (nat n) xs" using rotate_conv_mod [of "nat n" xs] len(3) by (simp add: m_def)
  ultimately show ?thesis
    using n a(1) b(1) by (simp add: rrotate_def Let_def len(1) nm xs_def m_def)
qed

end

lemma binary_operators_ok:
  assumes X: "readable X P c" and Y: "readable Y P d" and s: "P s"
  shows "\<exists>v. and_op X Y s = Inr v \<and> logic_vec v (map2 logic_and (c s) (padded (length (c s)) (d s)))"
    and "\<exists>v. or_op X Y s = Inr v \<and> logic_vec v (map2 logic_or (c s) (padded (length (c s)) (d s)))"
    and "\<exists>v. xor_op X Y s = Inr v \<and> logic_vec v (map2 logic_xor (c s) (padded (length (c s)) (d s)))"
proof -
  obtain a where a: "lv_from X s = Inr a" "logic_vec a (c s)" using readable.lv_from_ok [OF X, OF s] .
  define n where "n = length (c s)"
  note fine = logic_vec_fine [OF a(2), folded n_def]
  have ok: "readable (frozen s Y) (\<lambda>_. True) (\<lambda>_. d s)" using readable_const [OF Y, OF s] .
  note ops = whole.assign_operators_ok [where a = 0, OF fine(1) ok TrueI]
  have local: "\<exists>v'. on_local f a = Inr v' \<and> logic_vec v' zs"
    if "writes (own_shape n) (own_places n) (\<lambda>_. a) (f (\<lambda>_. a)) zs" "length zs = n" for f zs
    by (rule on_local_ok [of n a f zs, OF that]) blast
  have len: "length (map2 f (c s) (padded n (d s))) = n" for f :: "sc_logic_value_t \<Rightarrow> sc_logic_value_t \<Rightarrow> sc_logic_value_t"
    by (simp add: n_def)
  show "\<exists>v. and_op X Y s = Inr v \<and> logic_vec v (map2 logic_and (c s) (padded (length (c s)) (d s)))"
    "\<exists>v. or_op X Y s = Inr v \<and> logic_vec v (map2 logic_or (c s) (padded (length (c s)) (d s)))"
    "\<exists>v. xor_op X Y s = Inr v \<and> logic_vec v (map2 logic_xor (c s) (padded (length (c s)) (d s)))"
    using local [OF _ len, of "and_assign_proxy (whole 0) (frozen s Y)"] local [OF _ len, of "or_assign_proxy (whole 0) (frozen s Y)"]
      local [OF _ len, of "xor_assign_proxy (whole 0) (frozen s Y)"] ops fine(2)
    by (simp_all add: and_op_def or_op_def xor_op_def a(1) n_def [symmetric])
qed

end
