(* ===== verification/Sc_Proxy_Text_Facts.thy ===== *)
theory Sc_Proxy_Text_Facts
  imports Sc_Proxy_Vector_Facts
begin

text \<open>
  The operations of \<open>sc_proxy.h\<close> that go bit by bit: reversal, reductions, comparison, assignment of a part,
  of arrays and of character strings, and the way back from a vector to its string.
\<close>

unbundle bit_operations_syntax

section \<open>Reading\<close>

context readable
begin

lemma reduce_ok:
  assumes P: "P s"
  shows "reduce_proxy f init X s = Inr (foldl f init (c s))"
proof -
  have "for_each (\<lambda>i r. bind_result (px_get_bit X i s) (\<lambda>v. Inr (f r v))) [0..<length (c s)] init =
      Inr (fold (\<lambda>i r. f r (c s ! i)) [0..<length (c s)] init)"
    by (rule for_each_pure) (simp add: read_bit [OF P])
  also have "fold (\<lambda>i r. f r (c s ! i)) [0..<length (c s)] init = fold (\<lambda>v r. f r v) (map ((!) (c s)) [0..<length (c s)]) init"
    by (simp add: fold_map comp_def)
  also have "\<dots> = foldl f init (c s)" by (simp add: map_nth foldl_conv_fold)
  finally show ?thesis by (simp add: reduce_proxy_def read_length [OF P])
qed

lemma proxy_string_ok:
  assumes P: "P s"
  shows "proxy_string X s = Inr (map logic_char (rev (c s)))"
proof -
  have fold: "fold (\<lambda>i str. str @ [g i]) is str = str @ map g is" for g :: "nat \<Rightarrow> char" and "is" str
    by (induction "is" arbitrary: str) simp_all
  have "for_each (\<lambda>i str. bind_result (px_get_bit X (length (c s) - i - 1) s) (\<lambda>v. Inr (str @ [logic_char v])))
      [0..<length (c s)] [] = Inr (fold (\<lambda>i str. str @ [logic_char (c s ! (length (c s) - i - 1))]) [0..<length (c s)] [])"
    by (rule for_each_pure) (simp add: read_bit [OF P])
  also have "\<dots> = Inr (map logic_char (rev (c s)))"
    unfolding fold by (intro arg_cong [of _ _ Inr] nth_equalityI) (simp_all add: rev_nth)
  finally show ?thesis by (simp add: proxy_string_def read_length [OF P])
qed

end

lemma plane_words_eq_iff:
  assumes "length xs = length ys" "xs \<noteq> []"
  shows "(\<forall>i<word_count (length xs). \<forall>pl. plane_word pl xs i = plane_word pl ys i) \<longleftrightarrow> xs = ys"
proof
  assume eq: "\<forall>i<word_count (length xs). \<forall>pl. plane_word pl xs i = plane_word pl ys i"
  show "xs = ys"
  proof (rule nth_equalityI [OF assms(1)], rule plane_eqI)
    fix n pl assume n: "n < length xs"
    then have "plane_word pl xs (n div 32) = plane_word pl ys (n div 32)"
      using eq index_below_count [of "length xs" n] assms(2) by simp
    then show "plane_bit pl (xs ! n) = plane_bit pl (ys ! n)"
      using n assms(1) bit_plane_word_mod [of pl xs n] bit_plane_word_mod [of pl ys n] by simp
  qed
qed simp

lemma eq_proxy_ok:
  assumes X: "readable X P c" and Y: "readable Y P d" and s: "P s"
  shows "eq_proxy X Y s = Inr (c s = d s)"
proof (cases "length (c s) = length (d s)")
  case True
  note len = readable.read_length [OF X, OF s] readable.read_length [OF Y, OF s]
  have sz: "px_size X s = word_count (length (c s))" using readable.read_size [OF X, OF s] .
  let ?ne = "\<lambda>i. (plane_word Data (c s) i, plane_word Ctrl (c s) i) \<noteq> (plane_word Data (d s) i, plane_word Ctrl (d s) i)"
  have "for_loop (\<lambda>i _. bind_result (get_words X i s) (\<lambda>x. bind_result (get_words Y i s) (\<lambda>y.
      Inr (if x \<noteq> y then Return False else Continue ())))) [0..<px_size X s] () =
      Inr (case find ?ne [0..<px_size X s] of Some i \<Rightarrow> Return False | None \<Rightarrow> Continue ())"
  proof (rule for_loop_find)
    fix i assume "i \<in> set [0..<px_size X s]"
    then have i: "i < word_count (length (c s))" "i < word_count (length (d s))" using sz True by simp_all
    show "bind_result (get_words X i s) (\<lambda>x. bind_result (get_words Y i s) (\<lambda>y.
        Inr (if x \<noteq> y then Return False else Continue ()))) = Inr (if ?ne i then Return False else Continue ())"
      by (simp only: readable.read_words [OF X, OF s i(1)] readable.read_words [OF Y, OF s i(2)] bind_result_Inr)
  qed
  moreover have "find ?ne [0..<px_size X s] = None \<longleftrightarrow> c s = d s"
  proof -
    have all: "(\<forall>pl. plane_word pl (c s) i = plane_word pl (d s) i) \<longleftrightarrow> \<not> ?ne i" for i
    proof -
      have "(\<forall>pl. Q pl) \<longleftrightarrow> Q Data \<and> Q Ctrl" for Q :: "plane \<Rightarrow> bool" using plane.induct [of Q] by blast
      then show ?thesis by simp
    qed
    have "c s = d s \<longleftrightarrow> (\<forall>i<word_count (length (c s)). \<not> ?ne i)"
      using plane_words_eq_iff [OF True readable.read_nonempty [OF X, OF s]] unfolding all by simp
    then show ?thesis unfolding find_None_iff sz by (auto simp del: prod.inject)
  qed
  ultimately show ?thesis using len True by (cases "find ?ne [0..<px_size X s]") (simp_all add: eq_proxy_def del: prod.inject)
next
  case False
  then show ?thesis using readable.read_length [OF X, OF s] readable.read_length [OF Y, OF s]
    by (auto simp: eq_proxy_def)
qed

section \<open>Writing bits\<close>

lemma bit_plane_logic_word [simp]: "bit (logic_word v) (plane_index pl) = plane_bit pl v"
  by (cases pl) (simp_all add: bit_logic_word plane_bit_def)

context writable
begin

lemma progress_get_bit:
  assumes fine: "store_fine sh s0" and prog: "progress sh L D s0 q xs ys N s" and n: "n < length L" "n \<notin> N"
  shows "px_get_bit X n s = Inr (xs ! n)"
proof -
  have r: "ready sh Os D s" using running_ready [OF fine progress_running [OF prog]] .
  have "pval s (L ! n) = xs ! n" by (rule plane_eqI) (use prog n in \<open>simp add: progress_def\<close>)
  then show ?thesis using get_bit_law [OF r n(1)] by simp
qed

lemma progress_set_bit:
  assumes fine: "store_fine sh s0" and prog: "progress sh L D s0 q xs ys N s" and n: "n < length L"
    and x: "\<And>pl. bit x (plane_index pl) = plane_bit pl (ys ! n)"
  shows "\<exists>s'. px_set_bit X n x s = Inr s' \<and> progress sh L D s0 q xs ys (insert n N) s'"
proof -
  have r: "ready sh Os D s" using running_ready [OF fine progress_running [OF prog]] .
  obtain s' where s': "px_set_bit X n x s = Inr s'" "moves sh {L ! n} s s'" "keeps_clean {} s s'"
    "\<And>pl. pbit pl s' (L ! n) \<longleftrightarrow> holds sh pl (L ! n) \<and> bit x (plane_index pl)"
    using set_bit_law [OF r n, of x] by blast
  have run: "running sh L D s0 s'"
    using running_step [OF progress_running [OF prog] s'(2) _ keeps_clean_mono [OF s'(3)]] n by simp
  moreover have "store_clean s'" if q using prog s'(3) that by (simp add: progress_def store_clean_def keeps_clean_def)
  moreover have "pbit pl s' (L ! m) \<longleftrightarrow>
      (if m \<in> insert n N then holds sh pl (L ! m) \<and> plane_bit pl (ys ! m) else plane_bit pl (xs ! m))"
    if m: "m < length L" for pl m
  proof (cases "m = n")
    case True
    then show ?thesis using s'(4) x by simp
  next
    case False
    then have "L ! m \<notin> {L ! n}" using n m nth_eq_iff_index_eq [OF distinct] by simp
    then have "pbit pl s' (L ! m) = pbit pl s (L ! m)" using moves_other [OF s'(2)] places [OF r] m by simp
    then show ?thesis using False prog m by (simp add: progress_def)
  qed
  ultimately show ?thesis using s'(1) by (simp add: progress_def)
qed

text \<open>A loop that sets bits, in any order.\<close>

lemma bits_loop:
  assumes fine: "store_fine sh s0" and prog: "progress sh L D s0 q xs ys N s"
    and body: "\<And>i s. i \<in> set is \<Longrightarrow> i < length L \<and> (\<exists>x. body i s = px_set_bit X i x s \<and>
      (\<forall>pl. bit x (plane_index pl) = plane_bit pl (ys ! i)))"
  shows "\<exists>s'. for_each body is s = Inr s' \<and> progress sh L D s0 q xs ys (N \<union> set is) s'"
proof -
  have "\<exists>s'. for_each body is s = Inr s' \<and> progress sh L D s0 q xs ys (N \<union> \<Union> ((\<lambda>i. {i}) ` set is)) s'"
  proof (rule loop_progress [OF prog])
    fix pre i post s1 assume split: "is = pre @ i # post"
      and p: "progress sh L D s0 q xs ys (N \<union> \<Union> ((\<lambda>i. {i}) ` set pre)) s1"
    obtain x where x: "i < length L" "body i s1 = px_set_bit X i x s1" "\<And>pl. bit x (plane_index pl) = plane_bit pl (ys ! i)"
      using body [of i s1] split by auto
    show "\<exists>s'. body i s1 = Inr s' \<and> progress sh L D s0 q xs ys (N \<union> \<Union> ((\<lambda>i. {i}) ` set pre) \<union> {i}) s'"
      using progress_set_bit [OF fine p x(1,3)] x(2) by simp
  qed
  then show ?thesis by simp
qed

text \<open>Positions whose value stays the same count as done.\<close>

lemma progress_same:
  assumes fine: "store_fine sh s0" and prog: "progress sh L D s0 q (contents s0 L) ys N s"
    and same: "\<And>n. n < length L \<Longrightarrow> n \<notin> N \<Longrightarrow> ys ! n = contents s0 L ! n"
  shows "progress sh L D s0 q (contents s0 L) ys UNIV s"
proof -
  have "fitting sh L (contents s0 L)" using fine fitting_contents by (simp add: store_fine_def)
  then have "plane_bit pl (contents s0 L ! n) \<Longrightarrow> n < length L \<Longrightarrow> holds sh pl (L ! n)" for pl n
    by (simp add: fitting_def)
  then show ?thesis using prog same unfolding progress_def by (metis UNIV_I)
qed

lemma bits_loop_end:
  assumes fine: "store_fine sh s" and len: "length ys = length L"
    and body: "\<And>i s. i \<in> set is \<Longrightarrow> i < length L \<and> (\<exists>x. body i s = px_set_bit X i x s \<and>
      (\<forall>pl. bit x (plane_index pl) = plane_bit pl (ys ! i)))"
    and same: "\<And>n. n < length L \<Longrightarrow> n \<notin> set is \<Longrightarrow> ys ! n = contents s L ! n"
  shows "writes sh L s (for_each body is s) ys"
proof -
  obtain s' where s': "for_each body is s = Inr s'" "progress sh L D s True (contents s L) ys ({} \<union> set is) s'"
    using bits_loop [OF fine progress_start [OF fine refl] body] by blast
  have "outcome sh L s s' ys"
    by (rule progress_end [OF fine progress_same [OF fine s'(2)]]) (use same len in auto)
  then show ?thesis using s'(1) by (simp add: writes_def)
qed

section \<open>Reversal\<close>

lemma reverse_ok:
  assumes fine: "store_fine sh s"
  shows "writes sh L s (reverse_proxy X s) (rev (contents s L))"
proof -
  define m xs where "m = length L" and "xs = contents s L"
  have len: "length xs = m" by (simp add: xs_def m_def)
  let ?body = "\<lambda>i s. let j = m - 1 - i in bind_result (px_get_bit X i s) (\<lambda>t.
      bind_result (px_get_bit X j s) (\<lambda>u. bind_result (px_set_bit X i (logic_word u) s) (px_set_bit X j (logic_word t))))"
  let ?pos = "\<lambda>i. {i, m - 1 - i}"
  have start: "progress sh L D s True xs (rev xs) {} s" using progress_start [OF fine xs_def] .
  have "\<exists>s'. for_each ?body [0..<m div 2] s = Inr s' \<and> progress sh L D s True xs (rev xs) ({} \<union> \<Union> (?pos ` set [0..<m div 2])) s'"
  proof (rule loop_progress [OF start])
    fix pre i post s1 assume split: "[0..<m div 2] = pre @ i # post"
      and p: "progress sh L D s True xs (rev xs) ({} \<union> \<Union> (?pos ` set pre)) s1"
    have "i \<in> set [0..<m div 2]" using split by simp
    then have i: "i < m div 2" by simp
    define j where "j = m - 1 - i"
    have ij: "i < m" "j < m" "i \<noteq> j" "m - Suc i = j" "m - Suc j = i" "m div 2 \<le> j" using i unfolding j_def by linarith+
    have "distinct (pre @ i # post)" using split distinct_upt by metis
    moreover have "k \<in> set [0..<m div 2]" if "k \<in> set pre" for k using that unfolding split by simp
    ultimately have fresh: "k \<noteq> i \<and> k < m div 2" if "k \<in> set pre" for k using that by auto
    have "i \<notin> ?pos k \<and> j \<notin> ?pos k" if "k \<in> set pre" for k
    proof -
      have k: "k \<noteq> i" "k < m div 2" using fresh [OF that] by simp_all
      then have "m div 2 \<le> m - 1 - k" "m - 1 - k \<noteq> j" using ij(1) unfolding j_def by linarith+
      then show ?thesis using k i ij(6) by auto
    qed
    then have "i \<notin> {} \<union> \<Union> (?pos ` set pre)" "j \<notin> {} \<union> \<Union> (?pos ` set pre)" by blast+
    then have get: "px_get_bit X i s1 = Inr (xs ! i)" "px_get_bit X j s1 = Inr (xs ! j)"
      using progress_get_bit [OF fine p] ij(1,2) by (simp_all add: m_def)
    have new: "rev xs ! i = xs ! j" "rev xs ! j = xs ! i" using ij len by (simp_all add: rev_nth)
    obtain s2 where s2: "px_set_bit X i (logic_word (xs ! j)) s1 = Inr s2"
      "progress sh L D s True xs (rev xs) (insert i ({} \<union> \<Union> (?pos ` set pre))) s2"
      using progress_set_bit [OF fine p, of i "logic_word (xs ! j)"] ij(1) new by (auto simp: m_def)
    obtain s3 where s3: "px_set_bit X j (logic_word (xs ! i)) s2 = Inr s3"
      "progress sh L D s True xs (rev xs) (insert j (insert i ({} \<union> \<Union> (?pos ` set pre)))) s3"
      using progress_set_bit [OF fine s2(2), of j "logic_word (xs ! i)"] ij(2) new by (auto simp: m_def)
    have sets: "insert j (insert i ({} \<union> \<Union> (?pos ` set pre))) = {} \<union> \<Union> (?pos ` set pre) \<union> ?pos i"
      by (auto simp: j_def)
    have "?body i s1 = Inr s3" unfolding Let_def j_def [symmetric] get s2(1) bind_result_Inr s3(1) ..
    then show "\<exists>s'. ?body i s1 = Inr s' \<and> progress sh L D s True xs (rev xs) ({} \<union> \<Union> (?pos ` set pre) \<union> ?pos i) s'"
      using s3(2) unfolding sets by blast
  qed
  then obtain s' where s': "for_each ?body [0..<m div 2] s = Inr s'"
    "progress sh L D s True xs (rev xs) ({} \<union> \<Union> (?pos ` set [0..<m div 2])) s'" by blast
  have same: "rev (contents s L) ! n = contents s L ! n" if n: "n < length L" "n \<notin> {} \<union> \<Union> (?pos ` set [0..<m div 2])" for n
  proof -
    have "n \<notin> ?pos k" if "k < m div 2" for k using n(2) that by auto
    moreover have "n \<in> ?pos (m - 1 - n)" using n(1) by (simp add: m_def)
    ultimately have "\<not> n < m div 2" "\<not> m - 1 - n < m div 2" by blast+
    then have "m - Suc n = n" using n(1) unfolding m_def by linarith
    then show ?thesis using n(1) by (simp add: rev_nth m_def)
  qed
  have "outcome sh L s s' (rev (contents s L))"
    by (rule progress_end [OF fine progress_same [OF fine s'(2) [unfolded xs_def]]]) (use same in auto)
  then show ?thesis using s'(1) read.read_length [OF fine]
    by (simp add: writes_def reverse_proxy_def xs_def m_def Let_def)
qed

section \<open>Arrays\<close>

lemma assign_bools_ok:
  assumes fine: "store_fine sh s" and len: "length L \<le> length a"
  shows "writes sh L s (assign_bools X a s) (map logic_of_bool (take (length L) a))"
  unfolding assign_bools_def read.read_length [OF fine] length_contents_of
proof (rule bits_loop_end [OF fine])
  fix i s assume i: "i \<in> set [0..<length L]"
  have "\<forall>pl. bit (of_bool (a ! i) :: u32) (plane_index pl) = plane_bit pl (map logic_of_bool (take (length L) a) ! i)"
  proof
    fix pl
    show "bit (of_bool (a ! i) :: u32) (plane_index pl) = plane_bit pl (map logic_of_bool (take (length L) a) ! i)"
      using i len by (cases pl) simp_all
  qed
  moreover have "bind_result (vec_at a i) (\<lambda>b. px_set_bit X i (of_bool b) s) = px_set_bit X i (of_bool (a ! i)) s"
    using i len by simp
  ultimately show "i < length L \<and> (\<exists>x. bind_result (vec_at a i) (\<lambda>b. px_set_bit X i (of_bool b) s) = px_set_bit X i x s \<and>
      (\<forall>pl. bit x (plane_index pl) = plane_bit pl (map logic_of_bool (take (length L) a) ! i)))"
    using i by auto
qed (use len in auto)

lemma assign_logics_ok:
  assumes fine: "store_fine sh s" and len: "length L \<le> length a"
  shows "writes sh L s (assign_logics X a s) (take (length L) a)"
  unfolding assign_logics_def read.read_length [OF fine] length_contents_of
proof (rule bits_loop_end [OF fine])
  fix i s assume "i \<in> set [0..<length L]"
  then show "i < length L \<and> (\<exists>x. bind_result (vec_at a i) (\<lambda>v. px_set_bit X i (logic_word v) s) = px_set_bit X i x s \<and>
      (\<forall>pl. bit x (plane_index pl) = plane_bit pl (take (length L) a ! i)))"
    using len bit_plane_logic_word by fastforce
qed (use len in auto)

lemma assign_v_ok:
  assumes fine: "store_fine sh s"
  shows "writes sh L s (assign_v X a fill s)
    (map logic_of_bool (take (length L) a) @ replicate (length L - length a) (logic_of_bool fill))"
proof -
  define m where "m = min (length a) (length L)"
  let ?ys = "map logic_of_bool (take (length L) a) @ replicate (length L - length a) (logic_of_bool fill)"
  have low: "?ys ! i = logic_of_bool (a ! i)" if "i < m" for i using that by (simp add: m_def nth_append)
  have high: "?ys ! i = logic_of_bool fill" if "m \<le> i" "i < length L" for i
    using that by (auto simp: m_def nth_append)
  have bits: "\<forall>pl. bit (of_bool b :: u32) (plane_index pl) = plane_bit pl (logic_of_bool b)" for b
  proof
    show "bit (of_bool b :: u32) (plane_index pl) = plane_bit pl (logic_of_bool b)" for pl by (cases pl) simp_all
  qed
  let ?low = "\<lambda>i s. bind_result (vec_at a i) (\<lambda>b. px_set_bit X i (of_bool b) s)"
  have "\<exists>s'. for_each ?low [0..<m] s = Inr s' \<and> progress sh L D s True (contents s L) ?ys ({} \<union> set [0..<m]) s'"
  proof (rule bits_loop [OF fine progress_start [OF fine refl]])
    fix i s1 assume "i \<in> set [0..<m]"
    then have i: "i < m" by simp
    then have "?low i s1 = px_set_bit X i (of_bool (a ! i)) s1" by (simp add: m_def)
    then show "i < length L \<and> (\<exists>x. ?low i s1 = px_set_bit X i x s1 \<and> (\<forall>pl. bit x (plane_index pl) = plane_bit pl (?ys ! i)))"
      using i bits [of "a ! i"] unfolding low [OF i] by (auto simp: m_def)
  qed
  then obtain s1 where s1: "for_each ?low [0..<m] s = Inr s1"
    "progress sh L D s True (contents s L) ?ys ({} \<union> set [0..<m]) s1" by blast
  have "\<exists>s'. for_each (\<lambda>i. px_set_bit X i (of_bool fill)) [m..<length L] s1 = Inr s' \<and>
      progress sh L D s True (contents s L) ?ys ({} \<union> set [0..<m] \<union> set [m..<length L]) s'"
  proof (rule bits_loop [OF fine s1(2)])
    fix i s2 assume "i \<in> set [m..<length L]"
    then have i: "m \<le> i" "i < length L" by simp_all
    show "i < length L \<and> (\<exists>x. px_set_bit X i (of_bool fill) s2 = px_set_bit X i x s2 \<and>
        (\<forall>pl. bit x (plane_index pl) = plane_bit pl (?ys ! i)))"
      using i(2) bits [of fill] unfolding high [OF i] by blast
  qed
  then obtain s' where s': "for_each (\<lambda>i. px_set_bit X i (of_bool fill)) [m..<length L] s1 = Inr s'"
    "progress sh L D s True (contents s L) ?ys ({} \<union> set [0..<m] \<union> set [m..<length L]) s'" by blast
  have "outcome sh L s s' ?ys" by (rule progress_end [OF fine s'(2)]) auto
  moreover have "assign_v X a fill s = Inr s'"
    using s1(1) s'(1) read.read_length [OF fine] by (simp add: assign_v_def Let_def m_def)
  ultimately show ?thesis by (simp add: writes_def)
qed

section \<open>Character strings\<close>

text \<open>The last character of a string is its first bit, and missing bits are filled.\<close>

lemma assign_binary_ok:
  assumes fine: "store_fine sh st" and s: "s = body @ [mark]"
    and "value": "\<And>c. c \<in> set body \<Longrightarrow> \<exists>x. val c = Inr x \<and> (\<forall>pl. bit x (plane_index pl) = plane_bit pl (v c))"
    and fill: "fill_value s = Inr f" "\<And>pl. bit f (plane_index pl) = plane_bit pl z"
  shows "writes sh L st (assign_binary val X s st)
    (take (length L) (map v (rev body)) @ replicate (length L - length body) z)"
proof -
  define m ys where "m = min (length L) (length body)"
    and "ys = take (length L) (map v (rev body)) @ replicate (length L - length body) z"
  have len: "length ys = length L" by (simp add: ys_def)
  have low: "ys ! i = v (body ! (length body - i - 1))" if "i < m" for i
    using that by (simp add: ys_def m_def nth_append rev_nth)
  have high: "ys ! i = z" if "m \<le> i" "i < length L" for i
    using that by (auto simp: ys_def m_def nth_append)
  let ?low = "\<lambda>i st. bind_result (vec_at s (length body - i - 1)) (\<lambda>c. bind_result (val c) (\<lambda>x. px_set_bit X i x st))"
  have "\<exists>s'. for_each ?low [0..<m] st = Inr s' \<and> progress sh L D st True (contents st L) ys ({} \<union> set [0..<m]) s'"
  proof (rule bits_loop [OF fine progress_start [OF fine refl]])
    fix i s1 assume "i \<in> set [0..<m]"
    then have i: "i < m" "length body - i - 1 < length body" by (auto simp: m_def)
    obtain x where x: "val (body ! (length body - i - 1)) = Inr x"
      "\<forall>pl. bit x (plane_index pl) = plane_bit pl (v (body ! (length body - i - 1)))"
      using "value" [OF nth_mem [OF i(2)]] by blast
    have "s ! (length body - i - 1) = body ! (length body - i - 1)" unfolding s using i(2) by (rule nth_append_left)
    then have "?low i s1 = px_set_bit X i x s1" using i(2) x(1) by (simp add: s)
    then show "i < length L \<and> (\<exists>x. ?low i s1 = px_set_bit X i x s1 \<and> (\<forall>pl. bit x (plane_index pl) = plane_bit pl (ys ! i)))"
      using x(2) i(1) low by (auto simp: m_def)
  qed
  then obtain s1 where s1: "for_each ?low [0..<m] st = Inr s1"
    "progress sh L D st True (contents st L) ys ({} \<union> set [0..<m]) s1" by blast
  have "\<exists>s'. for_each (\<lambda>i. px_set_bit X i f) [m..<length L] s1 = Inr s' \<and>
      progress sh L D st True (contents st L) ys ({} \<union> set [0..<m] \<union> set [m..<length L]) s'"
    by (rule bits_loop [OF fine s1(2)]) (use fill(2) high in auto)
  then obtain s' where s': "for_each (\<lambda>i. px_set_bit X i f) [m..<length L] s1 = Inr s'"
    "progress sh L D st True (contents st L) ys ({} \<union> set [0..<m] \<union> set [m..<length L]) s'" by blast
  have "outcome sh L st s' ys" by (rule progress_end [OF fine s'(2)]) (use len in auto)
  moreover have "assign_binary val X s st = Inr s'"
    using s1(1) s'(1) fill(1) read.read_length [OF fine] unfolding assign_binary_def Let_def
    by (simp add: s m_def)
  ultimately show ?thesis by (simp add: writes_def ys_def)
qed

end

lemma lv_char_logic: "lv_char (logic_char v) = Inr (logic_word v)"
  using logic_char_round_trip [of v]
  by (cases v) (simp_all add: lv_char_def string_bit_def logic_of_char_def logic_char_def logic_to_char_def)

lemma char_logic: "char_to_logic ! of_char (logic_char v) = v"
  by (cases v) (simp_all add: char_to_logic_def logic_char_def logic_to_char_def nth_append nth_Cons')

lemma logic_char_range: "logic_char v \<in> set ''01ZX''"
  by (cases v) (simp_all add: logic_char_def logic_to_char_def)

text \<open>A string of a vector has a format prefix when its two highest bits are \<open>0\<close> and \<open>X\<close>.\<close>

definition has_prefix :: "sc_logic_value_t list \<Rightarrow> bool" where
  "has_prefix xs \<longleftrightarrow> 2 < length xs \<and> rev xs ! 0 = Log_0 \<and> rev xs ! 1 = Log_X"

lemma convert_to_bin_string:
  assumes "xs \<noteq> []"
  shows "convert_to_bin fix_to_bin (map logic_char (rev xs)) =
    (if has_prefix xs
     then (case fix_to_bin (map logic_char (rev xs)) of None \<Rightarrow> Inl Sc_report_error | Some str \<Rightarrow> Inr (drop_equal (str @ ''F'')))
     else Inr (map logic_char (rev xs) @ ''U''))"
proof -
  define ys where "ys = rev xs"
  have ys: "ys \<noteq> []" "length ys = length xs" using assms by (simp_all add: ys_def)
  have first: "map logic_char ys ! 0 = logic_char (ys ! 0)" using ys(1) by (intro nth_map) (simp only: length_greater_0_conv not_False_eq_True)
  then have sign: "map logic_char ys ! 0 \<noteq> CHR ''-''" "map logic_char ys ! 0 \<noteq> CHR ''+''"
    using logic_char_range [of "ys ! 0"] by auto
  note first [simp]
  have zero: "logic_char u = CHR ''0'' \<longleftrightarrow> u = Log_0" and x: "logic_char u \<in> set ''bBcCdDoOxX'' \<longleftrightarrow> u = Log_X"
    and b: "logic_char u \<notin> set ''bB''" for u
    by (cases u; simp add: logic_char_def logic_to_char_def)+
  have "map logic_char ys \<noteq> []" using ys by simp
  moreover have "length (map logic_char ys) > 0 + 2 \<and> map logic_char ys ! 0 = CHR ''0'' \<and>
      map logic_char ys ! (0 + 1) \<in> set ''bBcCdDoOxX'' \<longleftrightarrow> has_prefix xs"
    using ys by (auto simp: has_prefix_def ys_def [symmetric] zero x simp del: list.set)
  moreover have "\<not> (length (map logic_char ys) > 0 + 2 \<and> map logic_char ys ! 0 = CHR ''0'' \<and>
      map logic_char ys ! (0 + 1) \<in> set ''bB'' \<and> map logic_char ys ! (0 + 2) \<in> set ''01'')"
    using b by (auto simp del: list.set)
  ultimately show ?thesis
    unfolding convert_to_bin_def Let_def ys_def [symmetric] using sign by (simp only: if_False simp_thms)
qed

lemma lv_of_string_ok:
  assumes "xs \<noteq> []" "\<not> has_prefix xs"
  shows "\<exists>v. lv_of_string fix_to_bin (map logic_char (rev xs)) = Inr v \<and> logic_vec v xs"
proof -
  define str where "str = map logic_char (rev xs)"
  define n where "n = length xs"
  have n: "0 < n" using assms(1) by (simp add: n_def)
  obtain a where a: "lv_init (int n) Log_X = Inr a" "logic_vec a (replicate n Log_X)" using lv_init_logic_vec [OF n] .
  have fine: "store_fine (own_shape n) (\<lambda>_. a)" using logic_vec_fine(1) [OF a(2)] by simp
  have "writes (own_shape n) (own_places n) (\<lambda>_. a) (assign_binary lv_char (whole 0) (str @ ''U'') (\<lambda>_. a))
    (take (length (own_places n)) (map (\<lambda>c. char_to_logic ! of_char c) (rev str)) @
      replicate (length (own_places n) - length str) Log_0)"
  proof (rule whole.assign_binary_ok [OF fine])
    fix c assume "c \<in> set str"
    then obtain v where v: "c = logic_char v" by (auto simp: str_def)
    show "\<exists>x. lv_char c = Inr x \<and> (\<forall>pl. bit x (plane_index pl) = plane_bit pl (char_to_logic ! of_char c))"
      using bit_plane_logic_word by (simp add: v lv_char_logic char_logic)
  next
    show "fill_value (str @ ''U'') = Inr 0" by (simp add: fill_value_def)
  qed simp_all
  moreover have "map (\<lambda>c. char_to_logic ! of_char c) (rev str) = xs"
    by (simp add: str_def rev_map comp_def char_logic)
  ultimately have "writes (own_shape n) (own_places n) (\<lambda>_. a) (assign_binary lv_char (whole 0) (str @ ''U'') (\<lambda>_. a)) xs"
    by (simp add: str_def n_def)
  then obtain v where v: "on_local (assign_binary lv_char (whole 0) (str @ ''U'')) a = Inr v" "logic_vec v xs"
    by (rule on_local_ok) (simp_all add: n_def)
  have "assign_from_string (str @ ''U'') a = Inr v"
    using v(1) a(2) by (simp add: assign_from_string_def on_local_def logic_vec_def)
  moreover have "convert_to_bin fix_to_bin str = Inr (str @ ''U'')"
    using convert_to_bin_string [OF assms(1)] assms(2) by (simp add: str_def)
  moreover have "int (length (str @ ''U'')) - 1 = int n" by (simp add: str_def n_def)
  ultimately show ?thesis using v(2) a(1) by (simp add: lv_of_string_def str_def [symmetric])
qed

section \<open>Assignment of a part\<close>

lemma assign_part_ok:
  assumes X: "writable X sh L Os D" and idx: "hi < length L" "lo < length L" and fine: "store_fine sh s"
    and b: "readable (subref Y hi' lo') P c" and P: "P s" and m: "m = min (part_length hi lo) (length (c s))"
  shows "writes sh (part_places hi lo L) s (assign_part X hi lo Y hi' lo' s)
    (take m (c s) @ drop m (contents s (part_places hi lo L)))"
proof -
  note part = subref_writable [OF X idx]
  obtain t where t: "lv_from (subref Y hi' lo') s = Inr t" "logic_vec t (c s)" using readable.lv_from_ok [OF b, OF P] .
  have len: "v_len t = length (c s)" using logic_vec_length [OF t(2)] .
  have val: "vec_get_bit i t = Inr (c s ! i)" if "i < length (c s)" for i
  proof -
    have "vec_value t i = vec_list t ! i" using that len by (simp add: vec_list_def)
    then show ?thesis using vec_get_bit_ok [of t i] t(2) that len by (simp add: logic_vec_def)
  qed
  let ?ys = "take m (c s) @ drop m (contents s (part_places hi lo L))"
  have "writes sh (part_places hi lo L) s (for_each (\<lambda>i s. bind_result (vec_get_bit i t) (\<lambda>v.
      bind_result (part_index hi lo i) (\<lambda>m. px_set_bit X m (logic_word v) s))) (rev [0..<m]) s) ?ys"
  proof (rule writable.bits_loop_end [OF part fine])
    fix i s1 assume "i \<in> set (rev [0..<m])"
    then have i: "i < m" by simp
    then have "bind_result (vec_get_bit i t) (\<lambda>v. bind_result (part_index hi lo i) (\<lambda>m. px_set_bit X m (logic_word v) s1)) =
        px_set_bit (subref X hi lo) i (logic_word (c s ! i)) s1"
      using val m by (simp add: subref_def subref_set_bit_def)
    moreover have "?ys ! i = c s ! i" using i m by (simp add: nth_append)
    ultimately show "i < length (part_places hi lo L) \<and> (\<exists>x. bind_result (vec_get_bit i t) (\<lambda>v. bind_result (part_index hi lo i)
        (\<lambda>m. px_set_bit X m (logic_word v) s1)) = px_set_bit (subref X hi lo) i x s1 \<and>
        (\<forall>pl. bit x (plane_index pl) = plane_bit pl (?ys ! i)))"
      using i m bit_plane_logic_word by auto
  qed (use m in \<open>auto simp: nth_append\<close>)
  then show ?thesis using t(1) len m by (simp add: assign_part_def)
qed

end
