(* ===== verification/Sc_Selection.thy ===== *)
theory Sc_Selection
  imports Sc_Proxy_Text_Facts
begin

text \<open>
  Vectors, bits, parts and concatenations, nested in any way, as one kind of object: its places, when its
  selections are in range, and when writing it does not disturb the reading of another.
\<close>

section \<open>Selections\<close>

datatype selection = Vector nat | Bit selection nat | Part selection nat nat | Join selection selection

primrec sel_proxy :: "selection \<Rightarrow> store proxy" where
  "sel_proxy (Vector a) = whole a"
| "sel_proxy (Bit x i) = bitref (sel_proxy x) i"
| "sel_proxy (Part x hi lo) = subref (sel_proxy x) hi lo"
| "sel_proxy (Join x y) = concref (sel_proxy x) (sel_proxy y)"

text \<open>The right operand of a concatenation is the lower one.\<close>

primrec sel_places :: "shape \<Rightarrow> selection \<Rightarrow> place list" where
  "sel_places sh (Vector a) = places_of sh a"
| "sel_places sh (Bit x i) = [sel_places sh x ! i]"
| "sel_places sh (Part x hi lo) = part_places hi lo (sel_places sh x)"
| "sel_places sh (Join x y) = sel_places sh y @ sel_places sh x"

primrec sel_objects :: "selection \<Rightarrow> nat set" where
  "sel_objects (Vector a) = {a}"
| "sel_objects (Bit x i) = sel_objects x"
| "sel_objects (Part x hi lo) = sel_objects x"
| "sel_objects (Join x y) = sel_objects x \<union> sel_objects y"

text \<open>The vectors that are written by whole words.\<close>

primrec sel_dirty :: "selection \<Rightarrow> nat set" where
  "sel_dirty (Vector a) = {a}"
| "sel_dirty (Bit x i) = {}"
| "sel_dirty (Part x hi lo) = {}"
| "sel_dirty (Join x y) = sel_dirty x \<union> sel_dirty y"

primrec sel_ok :: "shape \<Rightarrow> selection \<Rightarrow> bool" where
  "sel_ok sh (Vector a) \<longleftrightarrow> True"
| "sel_ok sh (Bit x i) \<longleftrightarrow> sel_ok sh x \<and> i < length (sel_places sh x)"
| "sel_ok sh (Part x hi lo) \<longleftrightarrow> sel_ok sh x \<and> hi < length (sel_places sh x) \<and> lo < length (sel_places sh x)"
| "sel_ok sh (Join x y) \<longleftrightarrow> sel_ok sh x \<and> sel_ok sh y \<and> set (sel_places sh x) \<inter> set (sel_places sh y) = {} \<and>
     sel_dirty y \<inter> (sel_objects x - sel_dirty x) = {} \<and> sel_dirty x \<inter> (sel_objects y - sel_dirty y) = {}"

abbreviation sel_contents :: "shape \<Rightarrow> store \<Rightarrow> selection \<Rightarrow> sc_logic_value_t list" where
  "sel_contents sh s x \<equiv> contents s (sel_places sh x)"

theorem selection_writable:
  "sel_ok sh x \<Longrightarrow> writable (sel_proxy x) sh (sel_places sh x) (sel_objects x) (sel_dirty x)"
proof (induction x)
  case (Vector a)
  then show ?case using whole.writable_axioms by simp
next
  case (Bit x i)
  then show ?case using bitref_writable by simp
next
  case (Part x hi lo)
  then show ?case using subref_writable by simp
next
  case (Join x y)
  then show ?case using concref_writable [OF Join.IH] by simp
qed

lemma selection_readable: "sel_ok sh x \<Longrightarrow> readable (sel_proxy x) (store_fine sh) (\<lambda>s. sel_contents sh s x)"
  by (rule readable_mono [OF writable.reads_clean [OF selection_writable]])
    (simp_all add: clean_on_def store_fine_def store_clean_def)

section \<open>Separate selections\<close>

definition separate :: "shape \<Rightarrow> selection \<Rightarrow> selection \<Rightarrow> bool" where
  "separate sh x y \<longleftrightarrow> set (sel_places sh x) \<inter> set (sel_places sh y) = {} \<and> sel_dirty x \<inter> sel_objects y = {}"

lemma readable_cong:
  assumes X: "readable X P c" and eq: "\<And>s. Q s \<Longrightarrow> P s \<and> c s = d s"
  shows "readable X Q d"
proof unfold_locales
  fix s assume "Q s"
  then have s: "P s" "c s = d s" using eq by blast+
  note read = readable.read_nonempty [OF X, OF s(1)] readable.read_length [OF X, OF s(1)]
    readable.read_size [OF X, OF s(1)] readable.read_bit [OF X, OF s(1)] readable.read_word [OF X, OF s(1)]
  note read = read [unfolded s(2)]
  show "d s \<noteq> []" "px_length X s = length (d s)" "px_size X s = word_count (length (d s))"
    using read(1-3) .
  show "px_get_bit X n s = Inr (d s ! n)" if "n < length (d s)" for n using read(4) [OF that] .
  show "px_get pl X i s = Inr (plane_word pl (d s) i)" if "i < word_count (length (d s))" for pl i
    using read(5) [OF that] .
qed

lemma separate_readable:
  assumes x: "sel_ok sh x" and y: "sel_ok sh y" and sep: "separate sh x y" and fine: "store_fine sh s"
  shows "readable (sel_proxy y) (running sh (sel_places sh x) (sel_dirty x) s) (\<lambda>_. sel_contents sh s y)"
proof -
  note Y = selection_writable [OF y]
  have valid: "\<forall>l\<in>set (sel_places sh y). valid sh l" using writable.places [OF Y store_fine_ready [OF fine]] by simp
  have "clean_on sh (sel_objects y) s1 \<and> sel_contents sh s1 y = sel_contents sh s y"
    if run: "running sh (sel_places sh x) (sel_dirty x) s s1" for s1
  proof
    show "clean_on sh (sel_objects y) s1"
      using run sep fine
      by (auto simp: clean_on_def running_def moves_def keeps_clean_def separate_def store_fine_def store_clean_def)
    have "pval s1 l = pval s l" if l: "l \<in> set (sel_places sh y)" for l
    proof -
      have "valid sh l" "l \<notin> set (sel_places sh x)" using valid l sep by (auto simp: separate_def)
      then show ?thesis using run plane_bit_pval unfolding running_def moves_def by (intro plane_eqI) blast
    qed
    then show "sel_contents sh s1 y = sel_contents sh s y" by (simp add: contents_def)
  qed
  then show ?thesis by (rule readable_cong [OF writable.reads_clean [OF Y]])
qed

lemma int_bits_fit: "length L = n \<Longrightarrow> map2 (fit sh) L (int_bits n i) = int_bits n i"
proof (rule nth_equalityI)
  fix k assume "length L = n" "k < length (map2 (fit sh) L (int_bits n i))"
  then show "map2 (fit sh) L (int_bits n i) ! k = int_bits n i ! k"
    using fit_01 [of "int_bits n i ! k" sh "L ! k"] by (simp add: logic_of_bool_def ctrl_bit_def)
qed simp

section \<open>Classes of selections\<close>

text \<open>
  The C++ class of a selection: the templates nested as the selections are, around the classes of the vectors.
  \<open>sc_subref<X>::operator =\<close> makes a copy for a source of class \<open>sc_subref<X>\<close>, with the same \<open>X\<close>; a source of
  any other class goes through \<open>assign_p_\<close>.
\<close>

datatype proxy_class = Vector_class vkind | Bitref proxy_class | Subref proxy_class | Concref proxy_class proxy_class

primrec sel_class :: "shape \<Rightarrow> selection \<Rightarrow> proxy_class" where
  "sel_class sh (Vector a) = Vector_class (fst (sh a))"
| "sel_class sh (Bit x i) = Bitref (sel_class sh x)"
| "sel_class sh (Part x hi lo) = Subref (sel_class sh x)"
| "sel_class sh (Join x y) = Concref (sel_class sh x) (sel_class sh y)"

section \<open>Selections that overlap\<close>

text \<open>
  The value a position of the target gets when the words are copied in their order without a temporary: the
  value of the source at that position, unless the place it is read from is one of the places of the words
  that have been written before; then what was written there is read.
\<close>

function overlap_value :: "shape \<Rightarrow> place list \<Rightarrow> place list \<Rightarrow> store \<Rightarrow> nat \<Rightarrow> sc_logic_value_t" where
  "overlap_value sh L M s n =
     (if n < length M
      then (case find (\<lambda>m. L ! m = M ! n) [0..<32 * (n div 32)] of
              Some m \<Rightarrow> fit sh (M ! n) (overlap_value sh L M s m)
            | None \<Rightarrow> pval s (M ! n))
      else Log_0)"
  by pat_completeness auto

lemma find_below: "find P [0..<32 * (n div 32)] = Some m \<Longrightarrow> m < n \<and> m div 32 < n div 32 \<and> P m"
proof -
  assume "find P [0..<32 * (n div 32)] = Some m"
  then obtain i where i: "i < 32 * (n div 32)" "P i" "m = i" by (auto simp: find_Some_iff)
  have "32 * (n div 32) \<le> n" by simp
  with i show ?thesis by (auto simp: less_mult_imp_div_less mult.commute)
qed

termination overlap_value
  by (relation "measure (\<lambda>(sh, L, M, s, n). n)") (auto dest: find_below)

declare overlap_value.simps [simp del]

context writable
begin

lemma overlap_read:
  assumes prog: "progress sh L D s q (contents s L) (map (overlap_value sh L M s) [0..<length L]) (words_of {..<i}) s1"
    and n: "n < length L" "n < length M" "n div 32 = i" and valid: "valid sh (M ! n)"
  shows "pbit pl s1 (M ! n) \<longleftrightarrow> plane_bit pl (overlap_value sh L M s n)"
proof (cases "find (\<lambda>m. L ! m = M ! n) [0..<32 * i]")
  case (Some m)
  then have "find (\<lambda>m. L ! m = M ! n) [0..<32 * (n div 32)] = Some m" by (simp only: n(3))
  from find_below [OF this] have m: "m < n" "m div 32 < i" "L ! m = M ! n" by (simp_all only: n(3))
  then have "pbit pl s1 (M ! n) \<longleftrightarrow> holds sh pl (M ! n) \<and> plane_bit pl (overlap_value sh L M s m)"
    using prog n(1) unfolding progress_def by (simp flip: m(3))
  also have "\<dots> \<longleftrightarrow> plane_bit pl (overlap_value sh L M s n)"
    using Some n by (simp add: overlap_value.simps [of _ _ _ _ n] plane_bit_fit)
  finally show ?thesis .
next
  case None
  then have none: "L ! m \<noteq> M ! n" if "m < 32 * i" for m using that by (auto simp: find_None_iff)
  have "pbit pl s1 (M ! n) = pbit pl s (M ! n)"
  proof (cases "M ! n \<in> set L")
    case True
    then obtain m where m: "m < length L" "L ! m = M ! n" by (auto simp: in_set_conv_nth)
    then have "\<not> m < 32 * i" using none by blast
    then have "\<not> m div 32 < i" by (simp add: div_less_iff_less_mult mult.commute)
    then show ?thesis using prog m unfolding progress_def by (simp add: contents_def flip: m(2))
  next
    case False
    then show ?thesis using progress_running [OF prog] valid unfolding running_def moves_def by blast
  qed
  then show ?thesis using None n by (simp add: overlap_value.simps [of _ _ _ _ n])
qed

lemma assign_p_overlap:
  assumes fine: "store_fine sh s" and Y: "writable Y sh M Os' D'"
  shows "writes sh L s (assign_p False X Y s) (map (overlap_value sh L M s) [0..<length L])"
proof -
  define xs where "xs = contents s L"
  define zs where "zs = map (overlap_value sh L M s) [0..<length L]"
  define m where "m = min (px_size X s) (px_size Y s)"
  have refl: "running sh L D s s" using fine by (simp add: running_refl store_fine_def)
  have M: "M \<noteq> []" "\<forall>l\<in>set M. valid sh l" using writable.places [OF Y store_fine_ready [OF fine]] by blast+
  have m: "m = min (word_count (length L)) (word_count (length M))"
    using size_law [OF store_fine_ready [OF fine]] writable.size_law [OF Y store_fine_ready [OF fine]] by (simp add: m_def)
  let ?body = "\<lambda>i s. bind_result (get_words Y i s) (\<lambda>(dw, cw). set_words X i dw cw s)"
  let ?prog = "\<lambda>i. progress sh L D s (i < word_count (length L)) xs zs (words_of {..<i})"
  have step: "\<exists>s2. ?body i s1 = Inr s2 \<and> ?prog (Suc i) s2" if i: "i < m" and prog: "?prog i s1" for i s1
  proof -
    have iL: "i < word_count (length L)" and iM: "i < word_count (length M)" using i m by simp_all
    have s1: "store_fine sh s1"
      using prog iL by (auto simp: progress_def running_def moves_def store_fine_def)
    obtain W where W: "get_words Y i s1 = Inr (W Data, W Ctrl)"
      "\<And>pl n. n < length M \<Longrightarrow> n div 32 = i \<Longrightarrow> bit (W pl) (n mod 32) \<longleftrightarrow> pbit pl s1 (M ! n)"
      "\<And>pl. tail_zero (length M) i (W pl)"
      using writable.get_words_ok [OF Y store_fine_ready [OF s1] iM] s1
      by (metis store_fine_def store_clean_def)
    have prog': "progress sh L D s (Suc i < word_count (length L)) xs zs (words_of {..<i}) s1"
      using prog iL by (simp add: progress_def)
    have "\<exists>s2. set_words X i (W Data) (W Ctrl) s1 = Inr s2 \<and>
        progress sh L D s (Suc i < word_count (length L)) xs zs (words_of (insert i {..<i})) s2"
    proof (rule progress_set_words [OF fine prog' iL])
      fix pl n assume n: "n < length L" "n div 32 = i"
      show "bit (W pl) (n mod 32) \<longleftrightarrow> plane_bit pl (zs ! n)"
      proof (cases "n < length M")
        case True
        then show ?thesis
          using W(2) [OF True n(2)] overlap_read [OF prog [unfolded xs_def zs_def] n(1) True n(2)] M(2) n(1)
          by (simp add: zs_def)
      next
        case False
        then show ?thesis using W(3) n by (simp add: zs_def tail_zero_def overlap_value.simps [of _ _ _ _ n])
      qed
    next
      fix pl assume "Suc i < word_count (length L)"
      then have "32 * Suc i < length L" 
        using word_count_iff [of "length L"] positive [OF store_fine_ready [OF fine]] by simp
      then have "n div 32 \<noteq> i" if "length L \<le> n" for n using that by auto
      then show "tail_zero (length L) i (W pl)" by (auto simp: tail_zero_def)
    qed
    then show ?thesis using W(1) by (simp add: lessThan_Suc)
  qed
  have loop: "\<exists>s1. for_each ?body [0..<i] s = Inr s1 \<and> ?prog i s1" if "i \<le> m" for i
    using that
  proof (induction i)
    case 0
    then show ?case using progress_start [OF fine, of xs L] by (simp add: xs_def)
  next
    case (Suc i)
    then show ?case using step [of i] by (fastforce simp: for_each_append)
  qed
  obtain s1 where s1: "for_each ?body [0..<m] s = Inr s1" "?prog m s1" using loop by blast
  have "zs ! n = logic_of_bool False" if n: "n < length L" "m \<le> n div 32" for n
  proof -
    have "\<not> n div 32 < word_count (length M)" using n(2) all_words [OF n(1)] unfolding m by linarith
    then have "\<not> n < length M" using index_below_count [of "length M" n] M(1) by auto
    then show ?thesis using n(1) by (simp add: zs_def overlap_value.simps [of _ _ _ _ n] logic_of_bool_def)
  qed
  then obtain s2 where s2: "extend_sign_w X m False s1 = Inr s2"
    "progress sh L D s (m < word_count (length L)) xs zs (words_of {..<word_count (length L)}) s2"
    using extend_sign_ok [OF fine s1(2), of False] m by auto
  have "writes sh L s (px_clean_tail X s2) zs"
    by (rule progress_clean [OF fine s2(2)]) (use all_words in \<open>auto simp: zs_def\<close>)
  then show ?thesis using s1(1) s2(1) by (simp add: assign_p_def m_def zs_def Let_def)
qed

end

lemma part_all_but_first: "L = l # M \<Longrightarrow> M \<noteq> [] \<Longrightarrow> part_places (length M) 1 L = M"
  by (rule nth_equalityI) (auto simp: part_places_def part_length_def part_reversed_def part_pos_def neq_Nil_conv)

text \<open>The rotation of a vector to the right by one, written as a concatenation of its own bits.\<close>

lemma overlap_rotation:
  assumes "L = l # M" "M \<noteq> []" "distinct L" "\<forall>k\<in>set L. fst (sh (fst k)) = v" "store_ok sh s"
  shows "map (overlap_value sh L (M @ [l]) s) [0..<length L] =
    tl (contents s L) @ [if length L \<le> 32 then hd (contents s L) else contents s L ! 1]"
proof (rule nth_equalityI)
  show "length (map (overlap_value sh L (M @ [l]) s) [0..<length L]) =
      length (tl (contents s L) @ [if length L \<le> 32 then hd (contents s L) else contents s L ! 1])"
    by (simp add: assms(1))
  fix n assume "n < length (map (overlap_value sh L (M @ [l]) s) [0..<length L])"
  then have n: "n < Suc (length M)" by (simp add: assms(1))
  have below: "overlap_value sh L (M @ [l]) s k = pval s (M ! k)" if "k < length M" for k
  proof -
    have "L ! m \<noteq> M ! k" if "m < 32 * (k div 32)" for m
    proof -
      have "m < k" using that by (simp add: less_le_trans [OF that])
      then have "L ! m \<noteq> L ! Suc k"
        using \<open>k < length M\<close> assms(1) nth_eq_iff_index_eq [OF assms(3), of m "Suc k"] by simp
      then show ?thesis by (simp add: assms(1))
    qed
    then have "find (\<lambda>m. L ! m = M ! k) [0..<32 * (k div 32)] = None" by (auto simp: find_None_iff)
    then show ?thesis using that by (simp add: overlap_value.simps [of _ _ _ _ k] nth_append)
  qed
  show "map (overlap_value sh L (M @ [l]) s) [0..<length L] ! n =
      (tl (contents s L) @ [if length L \<le> 32 then hd (contents s L) else contents s L ! 1]) ! n"
  proof (cases "n < length M")
    case True
    then show ?thesis using below [OF True] by (simp add: assms(1) contents_def nth_append del: upt_Suc)
  next
    case False
    then have nM: "n = length M" using n by simp
    have find: "find (\<lambda>m. L ! m = l) [0..<32 * (n div 32)] = (if length L \<le> 32 then None else Some 0)"
    proof (cases "length L \<le> 32")
      case True
      then show ?thesis by (simp add: nM assms(1))
    next
      case False
      then have "32 * (n div 32) = Suc (32 * (n div 32) - 1)" by (simp add: nM assms(1) div_greater_zero_iff)
      then have "[0..<32 * (n div 32)] = 0 # [1..<32 * (n div 32)]" by (metis upt_conv_Cons zero_less_Suc One_nat_def)
      then show ?thesis using False by (simp add: assms(1))
    qed
    have "fit sh l (pval s (M ! 0)) = pval s (M ! 0)"
    proof -
      have "M ! 0 \<in> set M" using assms(2) by simp
      then have "fst (sh (fst (M ! 0))) = fst (sh (fst l))" using assms(1,4) by simp
      then show ?thesis using fit_pval [OF assms(5), of "M ! 0"] by (simp add: fit_def holds_def)
    qed
    then show ?thesis
      using find [unfolded nM] below [of 0] assms(2)
      by (simp add: overlap_value.simps [of _ _ _ _ "length M"] nM assms(1) contents_def nth_append del: upt_Suc)
  qed
qed

end
