(* ===== verification/Bits_Properties.thy ===== *)
theory Bits_Properties
  imports Sc_Selection
begin

text \<open>
  The properties of bit and logic vectors: assignment, operators, shifts and conversions of vectors, bits, parts
  and concatenations, nested in any way, as operations on lists of values; each with an instance.
\<close>

unbundle bit_operations_syntax

section \<open>An example store\<close>

definition demo_vec :: vec where
  "demo_vec = \<lparr>v_kind = LV, v_len = 40, v_size = 2, v_data = [5, 3], v_ctrl = [1, 2]\<rparr>"

definition demo_store :: store where
  "demo_store = (\<lambda>_. demo_vec)"

definition demo_shape :: shape where
  "demo_shape = own_shape 40"

definition demo_target :: selection where
  "demo_target = Join (Part (Vector 0) 7 0) (Bit (Vector 1) 39)"

lemma demo_fine: "store_fine demo_shape demo_store"
proof -
  have "\<not> vec_bit pl demo_vec n" if "40 \<le> n" "n < 64" for pl n
  proof -
    define k where "k = n - 32"
    have k: "n = k + 32" "8 \<le> k" "k < 32" using that by (simp_all add: k_def)
    have "drop_bit 8 (3 :: u32) = 0" "drop_bit 8 (2 :: u32) = 0" by (simp_all add: drop_bit_eq_div)
    then have "\<not> bit (drop_bit 8 (3 :: u32)) (k - 8)" "\<not> bit (drop_bit 8 (2 :: u32)) (k - 8)" by simp_all
    then have "\<not> bit (3 :: u32) k" "\<not> bit (2 :: u32) k" unfolding bit_drop_bit_eq comp_def using k(2) by simp_all
    then show ?thesis using k(3) unfolding k(1) by (cases pl) (simp_all add: vec_bit_def vec_word_def demo_vec_def)
  qed
  moreover have "vec_ok demo_vec" by (simp add: vec_ok_def demo_vec_def)
  ultimately show ?thesis
    by (simp add: store_fine_def store_ok_def store_clean_def vec_clean_def demo_store_def demo_shape_def own_shape_def)
      (simp add: demo_vec_def)
qed

lemma demo_target_ok: "sel_ok demo_shape demo_target" "sel_ok demo_shape (Vector a)"
  by (auto simp: demo_target_def demo_shape_def part_places_def part_length_def part_reversed_def part_pos_def)

lemma demo_separate: "separate demo_shape demo_target (Vector 2)"
  by (auto simp: separate_def demo_target_def demo_shape_def part_places_def part_length_def part_reversed_def part_pos_def
      places_of_def)

section \<open>Assignment\<close>

text \<open>
  C17: The assignment of one selection to another, which copies word by word without a temporary, writes the values of
  the source to the places of the target, in their order and filled up with zeros, changes no other place of the
  store and leaves all tails clean, when the target is separate from the source. When they overlap, the position
  \<open>n\<close> of the target gets what its source position holds at the time it is read: the old value, or the value
  already written when that place belongs to an earlier word of the target. Only the assignment of a part to a
  part of the same class goes through a copy, and so writes the old values, as many as there are, whatever the two share.
\<close>

theorem selection_assign:
  assumes "store_fine sh s" "sel_ok sh x" "sel_ok sh y"
  shows "writes sh (sel_places sh x) s (assign_p False (sel_proxy x) (sel_proxy y) s)
      (map (overlap_value sh (sel_places sh x) (sel_places sh y) s) [0..<length (sel_places sh x)]) \<and>
    (separate sh x y \<longrightarrow> writes sh (sel_places sh x) s (assign_p False (sel_proxy x) (sel_proxy y) s)
      (padded (length (sel_places sh x)) (sel_contents sh s y))) \<and>
    (\<forall>z hi lo z' hi' lo'. x = Part z hi lo \<longrightarrow> y = Part z' hi' lo' \<longrightarrow> sel_class sh z' = sel_class sh z \<longrightarrow>
      writes sh (sel_places sh x) s (assign_part (sel_proxy z) hi lo (sel_proxy z') hi' lo' s)
      (take (min (part_length hi lo) (part_length hi' lo')) (sel_contents sh s y) @
       drop (min (part_length hi lo) (part_length hi' lo')) (sel_contents sh s x)))"
proof (intro conjI impI allI)
  note X = selection_writable [OF assms(2)] and Y = selection_writable [OF assms(3)]
  show "writes sh (sel_places sh x) s (assign_p False (sel_proxy x) (sel_proxy y) s)
      (map (overlap_value sh (sel_places sh x) (sel_places sh y) s) [0..<length (sel_places sh x)])"
    using writable.assign_p_overlap [OF X assms(1) Y] .
  show "writes sh (sel_places sh x) s (assign_p False (sel_proxy x) (sel_proxy y) s)
      (padded (length (sel_places sh x)) (sel_contents sh s y))" if "separate sh x y"
    using writable.assign_p_ok [OF X assms(1) separate_readable [OF assms(2,3) that assms(1)]] by simp
  fix z hi lo z' hi' lo' assume x: "x = Part z hi lo" and y: "y = Part z' hi' lo'" and "sel_class sh z' = sel_class sh z"
  have z: "sel_ok sh z" "hi < length (sel_places sh z)" "lo < length (sel_places sh z)" using assms(2) x by simp_all
  have src: "readable (subref (sel_proxy z') hi' lo') (store_fine sh) (\<lambda>s. sel_contents sh s y)"
    using selection_readable [OF assms(3)] y by simp
  show "writes sh (sel_places sh x) s (assign_part (sel_proxy z) hi lo (sel_proxy z') hi' lo' s)
      (take (min (part_length hi lo) (part_length hi' lo')) (sel_contents sh s y) @
       drop (min (part_length hi lo) (part_length hi' lo')) (sel_contents sh s x))"
    using assign_part_ok [OF selection_writable [OF z(1)] z(2,3) assms(1) src assms(1) refl] x y by simp
qed

text \<open>A part moved up by one bit inside its vector, the two overlapping in all but one place.\<close>

theorem selection_assign_witness:
  "writes demo_shape (sel_places demo_shape demo_target) demo_store
    (assign_p False (sel_proxy demo_target) (whole 2) demo_store)
    (padded 9 (sel_contents demo_shape demo_store (Vector 2))) \<and>
   writes demo_shape (sel_places demo_shape (Part (Vector 0) 39 1)) demo_store
    (assign_part (whole 0) 39 1 (whole 0) 38 0 demo_store)
    (sel_contents demo_shape demo_store (Part (Vector 0) 38 0))"
proof
  show "writes demo_shape (sel_places demo_shape demo_target) demo_store
    (assign_p False (sel_proxy demo_target) (whole 2) demo_store)
    (padded 9 (sel_contents demo_shape demo_store (Vector 2)))"
    using selection_assign [OF demo_fine demo_target_ok(1) demo_target_ok(2) [of 2]] demo_separate
    by (simp add: demo_target_def part_length_def part_reversed_def)
  have ok: "sel_ok demo_shape (Part (Vector 0) 39 1)" "sel_ok demo_shape (Part (Vector 0) 38 0)"
    by (simp_all add: demo_shape_def)
  have len: "part_length 39 1 = 39" "part_length 38 0 = 39" by (simp_all add: part_length_def part_reversed_def)
  show "writes demo_shape (sel_places demo_shape (Part (Vector 0) 39 1)) demo_store
    (assign_part (whole 0) 39 1 (whole 0) 38 0 demo_store)
    (sel_contents demo_shape demo_store (Part (Vector 0) 38 0))"
    using selection_assign [OF demo_fine ok] len by simp
qed

text \<open>
  C21: The rotation of a vector by one bit, written as \<open>a = (a[0], a(n - 1, 1))\<close>, is right for vectors of at most 32
  bits. A longer vector loses its bit 0: the word that gets it has been written by the time the last word is read, so
  the top bit becomes a second copy of the bit 1.
\<close>

theorem self_rotation_loses_bit:
  assumes "store_fine sh s" "snd (sh a) = n" "1 < n"
  shows "writes sh (places_of sh a) s
    (assign_p False (whole a) (concref (bitref (whole a) 0) (subref (whole a) (n - 1) 1)) s)
    (tl (contents s (places_of sh a)) @
     [if n \<le> 32 then hd (contents s (places_of sh a)) else contents s (places_of sh a) ! 1])"
proof -
  let ?y = "Join (Bit (Vector a) 0) (Part (Vector a) (n - 1) 1)"
  obtain l M where L: "places_of sh a = l # M" "length M = n - 1"
    using assms(2,3) places_of_simps(1) [of sh a] by (cases "places_of sh a") auto
  then have ne: "M \<noteq> []" using assms(3) by auto
  have d: "distinct (places_of sh a)" by (simp add: places_of_def distinct_map inj_on_def)
  have part: "part_places (n - 1) 1 (places_of sh a) = M" 
    using part_all_but_first [OF L(1)] L(2) assms(3) by (cases M) simp_all
  have "l \<notin> set M" using d L(1) by simp
  then have ok: "sel_ok sh ?y" using L part assms(3) by auto
  have "\<forall>k\<in>set (places_of sh a). fst (sh (fst k)) = fst (sh a)" by (auto simp: places_of_def)
  then have "map (overlap_value sh (places_of sh a) (M @ [l]) s) [0..<length (places_of sh a)] =
      tl (contents s (places_of sh a)) @ [if n \<le> 32 then hd (contents s (places_of sh a)) else contents s (places_of sh a) ! 1]"
    using overlap_rotation [OF L(1) ne d, of sh "fst (sh a)" s] assms L by (auto simp: store_fine_def)
  then show ?thesis
    using writable.assign_p_overlap [OF selection_writable [of sh "Vector a"] assms(1) selection_writable [OF ok]] part L(1)
    by simp
qed

theorem self_rotation_loses_bit_witness:
  "writes demo_shape (places_of demo_shape 0) demo_store
    (assign_p False (whole 0) (concref (bitref (whole 0) 0) (subref (whole 0) 39 1)) demo_store)
    (tl (contents demo_store (places_of demo_shape 0)) @ [contents demo_store (places_of demo_shape 0) ! 1]) \<and>
   contents demo_store (places_of demo_shape 0) ! 0 = Log_X \<and> contents demo_store (places_of demo_shape 0) ! 1 = Log_0"
proof
  have "snd (demo_shape 0) = 40" by (simp add: demo_shape_def own_shape_def)
  from self_rotation_loses_bit [OF demo_fine this] show "writes demo_shape (places_of demo_shape 0) demo_store
    (assign_p False (whole 0) (concref (bitref (whole 0) 0) (subref (whole 0) 39 1)) demo_store)
    (tl (contents demo_store (places_of demo_shape 0)) @ [contents demo_store (places_of demo_shape 0) ! 1])" by simp
  have "0 < snd (demo_shape 0)" "1 < snd (demo_shape 0)" by (simp_all add: demo_shape_def own_shape_def)
  then show "contents demo_store (places_of demo_shape 0) ! 0 = Log_X \<and> contents demo_store (places_of demo_shape 0) ! 1 = Log_0"
    by (simp add: contents_def pval_def vec_value_def vec_bit_def vec_word_def demo_store_def demo_vec_def
        demo_shape_def of_bits_def)
qed

section \<open>Bitwise operators\<close>

text \<open>
  C18: Complement and the assignment forms of the bitwise operators, which work on the words of the two planes, apply the
  tables of \<open>sc_logic\<close> to the values at each position, also when the operands share places.
\<close>

theorem selection_bitwise:
  assumes "store_fine sh s" "sel_ok sh x" "sel_ok sh y"
  shows "writes sh (sel_places sh x) s (b_not (sel_proxy x) s) (map logic_not (sel_contents sh s x)) \<and>
    writes sh (sel_places sh x) s (and_assign_proxy (sel_proxy x) (sel_proxy y) s)
      (map2 logic_and (sel_contents sh s x) (padded (length (sel_places sh x)) (sel_contents sh s y))) \<and>
    writes sh (sel_places sh x) s (or_assign_proxy (sel_proxy x) (sel_proxy y) s)
      (map2 logic_or (sel_contents sh s x) (padded (length (sel_places sh x)) (sel_contents sh s y))) \<and>
    writes sh (sel_places sh x) s (xor_assign_proxy (sel_proxy x) (sel_proxy y) s)
      (map2 logic_xor (sel_contents sh s x) (padded (length (sel_places sh x)) (sel_contents sh s y)))"
  using writable.b_not_ok [OF selection_writable [OF assms(2)] assms(1)]
    writable.assign_operators_ok [OF selection_writable [OF assms(2)] assms(1) selection_readable [OF assms(3)], OF assms(1)]
  by simp

theorem selection_bitwise_witness:
  "writes demo_shape (sel_places demo_shape demo_target) demo_store
    (xor_assign_proxy (sel_proxy demo_target) (sel_proxy demo_target) demo_store)
    (map2 logic_xor (sel_contents demo_shape demo_store demo_target)
      (padded (length (sel_places demo_shape demo_target)) (sel_contents demo_shape demo_store demo_target)))"
  using selection_bitwise [OF demo_fine demo_target_ok(1) demo_target_ok(1)] by blast

text \<open>
  The operators that return a new logic vector return, clean and of the right length, the values the tables give,
  the values behind \<open>n\<close> new zeros (\<open><<\<close>), or moved down with zeros behind them (\<open>>>\<close>).
\<close>

theorem selection_operators:
  assumes "store_fine sh s" "sel_ok sh x" "sel_ok sh y" "0 \<le> n"
  shows "(\<exists>v. not_op (sel_proxy x) s = Inr v \<and> logic_vec v (map logic_not (sel_contents sh s x))) \<and>
    (\<exists>v. and_op (sel_proxy x) (sel_proxy y) s = Inr v \<and>
       logic_vec v (map2 logic_and (sel_contents sh s x) (padded (length (sel_places sh x)) (sel_contents sh s y)))) \<and>
    (\<exists>v. or_op (sel_proxy x) (sel_proxy y) s = Inr v \<and>
       logic_vec v (map2 logic_or (sel_contents sh s x) (padded (length (sel_places sh x)) (sel_contents sh s y)))) \<and>
    (\<exists>v. xor_op (sel_proxy x) (sel_proxy y) s = Inr v \<and>
       logic_vec v (map2 logic_xor (sel_contents sh s x) (padded (length (sel_places sh x)) (sel_contents sh s y)))) \<and>
    (\<exists>v. shl_op (sel_proxy x) n s = Inr v \<and> logic_vec v (replicate (nat n) Log_0 @ sel_contents sh s x)) \<and>
    (\<exists>v. shr_op (sel_proxy x) n s = Inr v \<and> logic_vec v (shr_list (nat n) (sel_contents sh s x)))"
proof -
  note X = selection_readable [OF assms(2)]
  show ?thesis
    using binary_operators_ok [OF X selection_readable [OF assms(3)], OF assms(1)]
      readable.not_op_ok [OF X, OF assms(1)] readable.shl_op_ok [OF X, OF assms(1,4)] readable.shr_op_ok [OF X, OF assms(1,4)]
    by simp metis
qed

theorem selection_operators_witness:
  "\<exists>v. shl_op (sel_proxy demo_target) 33 demo_store = Inr v \<and>
     logic_vec v (replicate 33 Log_0 @ sel_contents demo_shape demo_store demo_target)"
  using selection_operators [OF demo_fine demo_target_ok(1) demo_target_ok(1), of 33] by simp

section \<open>Shifts, rotations, reversal\<close>

text \<open>
  C19: The shifts in place, which move words first and bits after, shift the list of values, and a rotation is the
  rotation of that list, by any number of positions; a negative number is an error. The shifts need one kind of
  vector behind the selection: between a bit vector and a logic vector control bits would be lost on the way.
\<close>

theorem selection_shifts:
  assumes "store_fine sh s" "sel_ok sh x" "0 \<le> n"
  shows "(uniform sh (sel_places sh x) \<longrightarrow>
      writes sh (sel_places sh x) s (shl_proxy (sel_proxy x) n s) (shl_list (nat n) (sel_contents sh s x)) \<and>
      writes sh (sel_places sh x) s (shr_proxy (sel_proxy x) n s) (shr_list (nat n) (sel_contents sh s x))) \<and>
    writes sh (sel_places sh x) s (lrotate (sel_proxy x) n s)
      (rotate (length (sel_places sh x) - nat n mod length (sel_places sh x)) (sel_contents sh s x)) \<and>
    writes sh (sel_places sh x) s (rrotate (sel_proxy x) n s) (rotate (nat n) (sel_contents sh s x)) \<and>
    writes sh (sel_places sh x) s (reverse_proxy (sel_proxy x) s) (rev (sel_contents sh s x)) \<and>
    (n > 0 \<longrightarrow> shl_proxy (sel_proxy x) (- n) s = Inl Sc_report_error \<and> shr_proxy (sel_proxy x) (- n) s = Inl Sc_report_error \<and>
      lrotate (sel_proxy x) (- n) s = Inl Sc_report_error \<and> rrotate (sel_proxy x) (- n) s = Inl Sc_report_error)"
proof -
  note X = selection_writable [OF assms(2)]
  show ?thesis
    using writable.shl_proxy_ok [OF X assms(1) _ assms(3)] writable.shr_proxy_ok [OF X assms(1) _ assms(3)]
      writable.lrotate_ok [OF X assms(1,3)] writable.rrotate_ok [OF X assms(1,3)] writable.reverse_ok [OF X assms(1)]
    by (simp add: shl_proxy_def [of _ "- n"] shr_proxy_def [of _ "- n"] lrotate_def [of _ "- n"] rrotate_def [of _ "- n"])
qed

theorem selection_shifts_witness:
  "writes demo_shape (sel_places demo_shape (Vector 0)) demo_store (shl_proxy (whole 0) 35 demo_store)
    (shl_list 35 (sel_contents demo_shape demo_store (Vector 0)))"
  using selection_shifts [OF demo_fine demo_target_ok(2) [of 0], of 35] uniform_own [of 40]
  by (simp add: demo_shape_def)

section \<open>Conversions\<close>

text \<open>
  C20: The character string of a selection, read back by the constructor of a logic vector, gives an equal vector, unless
  its two highest values are \<open>0\<close> and \<open>X\<close>: then it is taken for a hexadecimal number, and what comes back is up to the
  conversion of fixed-point strings.
\<close>

theorem string_round_trip:
  assumes "store_fine sh s" "sel_ok sh x"
  shows "\<exists>str. proxy_string (sel_proxy x) s = Inr str \<and>
    (if has_prefix (sel_contents sh s x)
     then convert_to_bin fix_to_bin str = (case fix_to_bin str of None \<Rightarrow> Inl Sc_report_error | Some b \<Rightarrow> Inr (drop_equal (b @ ''F'')))
     else \<exists>v. lv_of_string fix_to_bin str = Inr v \<and> logic_vec v (sel_contents sh s x) \<and>
       eq_proxy (sel_proxy x) (value_of v) s = Inr True)"
proof -
  note X = selection_readable [OF assms(2)]
  have ne: "sel_contents sh s x \<noteq> []" using readable.read_nonempty [OF X, OF assms(1)] .
  show ?thesis
  proof (intro exI conjI)
    show "proxy_string (sel_proxy x) s = Inr (map logic_char (rev (sel_contents sh s x)))"
      using readable.proxy_string_ok [OF X, OF assms(1)] .
    show "if has_prefix (sel_contents sh s x)
      then convert_to_bin fix_to_bin (map logic_char (rev (sel_contents sh s x))) =
        (case fix_to_bin (map logic_char (rev (sel_contents sh s x))) of None \<Rightarrow> Inl Sc_report_error | Some b \<Rightarrow> Inr (drop_equal (b @ ''F'')))
      else \<exists>v. lv_of_string fix_to_bin (map logic_char (rev (sel_contents sh s x))) = Inr v \<and> logic_vec v (sel_contents sh s x) \<and>
        eq_proxy (sel_proxy x) (value_of v) s = Inr True"
    proof (cases "has_prefix (sel_contents sh s x)")
      case True
      then show ?thesis using convert_to_bin_string [OF ne] by simp
    next
      case False
      obtain v where v: "lv_of_string fix_to_bin (map logic_char (rev (sel_contents sh s x))) = Inr v" "logic_vec v (sel_contents sh s x)"
        using lv_of_string_ok [OF ne False] by blast
      then show ?thesis using False eq_proxy_ok [OF X value_of_readable [OF v(2)], OF assms(1)] by auto
    qed
  qed
qed

theorem string_round_trip_witness:
  "\<exists>str. proxy_string (sel_proxy demo_target) demo_store = Inr str \<and>
    (\<exists>v. lv_of_string (\<lambda>_. None) str = Inr v \<and> logic_vec v (sel_contents demo_shape demo_store demo_target) \<and>
       eq_proxy (sel_proxy demo_target) (value_of v) demo_store = Inr True)"
proof -
  have "\<not> has_prefix (sel_contents demo_shape demo_store demo_target)"
    by (simp add: has_prefix_def demo_target_def demo_shape_def part_places_def part_length_def part_reversed_def part_pos_def
        contents_def pval_def vec_value_def vec_bit_def vec_word_def demo_store_def demo_vec_def of_bits_def upt_rec)
  then show ?thesis using string_round_trip [OF demo_fine demo_target_ok(1), of "\<lambda>_. None"] by simp
qed

text \<open>A sign makes the binary prefix one character longer than what is removed: the \<open>b\<close> stays in the string.\<close>

lemma signed_binary_string:
  "convert_to_bin fix_to_bin ''-0b101'' = Inr ''b101F''" "string_bit (CHR ''b'') = Inr Log_X"
  by (simp_all add: convert_to_bin_def string_bit_def char_to_logic_def nth_append nth_Cons')

text \<open>
  An integer assigned to a selection and read back is that integer, cut to the length of the selection and sign
  extended from there, or taken as a natural number.
\<close>

theorem integer_round_trip:
  assumes "store_fine sh s" "sel_ok sh x"
  shows "\<exists>s'. proxy_assign_int64 (sel_proxy x) a s = Inr s' \<and>
    to_anything_signed (sel_proxy x) s' = Inr (word_of_int (signed_take_bit (length (sel_places sh x) - 1) (sint a))) \<and>
    to_uint64 (sel_proxy x) s' = Inr (word_of_int (take_bit (length (sel_places sh x)) (sint a)))"
proof -
  let ?n = "length (sel_places sh x)"
  obtain s' where s': "proxy_assign_int64 (sel_proxy x) a s = Inr s'"
    "outcome sh (sel_places sh x) s s' (int_bits ?n (sint a))"
    using writable.assign_64_ok(3) [OF selection_writable [OF assms(2)] assms(1)] unfolding writes_def by blast
  have c: "sel_contents sh s' x = int_bits ?n (sint a)" and fine: "store_fine sh s'"
    using s'(2) int_bits_fit [OF refl] by (simp_all add: outcome_def)
  note X = selection_readable [OF assms(2)]
  show ?thesis
    using s'(1) readable.to_anything_signed_ok [OF X, OF fine c] readable.to_uint64_ok [OF X, OF fine c] by blast
qed

theorem integer_round_trip_witness:
  "\<exists>s'. proxy_assign_int64 (sel_proxy (Vector 0)) (- 5) demo_store = Inr s' \<and>
    to_anything_signed (sel_proxy (Vector 0)) s' = Inr (word_of_int (signed_take_bit 39 (sint (- 5 :: u64)))) \<and>
    to_uint64 (sel_proxy (Vector 0)) s' = Inr (word_of_int (take_bit 40 (sint (- 5 :: u64))))"
  using integer_round_trip [OF demo_fine demo_target_ok(2) [of 0], of "- 5"] by (simp add: demo_shape_def)

end
