(* ===== verification/Sc_Event_Queue.thy ===== *)
theory Sc_Event_Queue
  imports Sc_Event_Facts
begin

text \<open>
  \<open>sysc/communication/sc_event_queue.cpp\<close>: an event with any number of pending notifications. Their
  times are kept in a priority queue; the event of the queue is notified for the earliest of them, and
  the method \<open>fire_event\<close>, which is sensitive to the event, takes that one out and notifies the event
  for the next.
\<close>

section \<open>State\<close>

text \<open>The queue holds pointers to times that nothing else refers to; here it holds the times.\<close>

record event_queue =
  m_ppq :: "sc_time ppq"
  m_e :: nat
  eq_change_stamp :: u64
  m_pending_delta :: u32

definition sc_time_compare :: "sc_time \<Rightarrow> sc_time \<Rightarrow> int" where
  "sc_time_compare t1 t2 = (if t1 < t2 then 1 else if t1 > t2 then - 1 else 0)"

interpretation time_order: comparison sc_time_compare
  by unfold_locales (auto simp: sc_time_compare_def split: if_splits)

interpretation time_queue: priority_queue sc_time_compare "ppq_insert sc_time_compare"
  "extract_top sc_time_compare" ppq_top ppq_elems "ppq_ok sc_time_compare"
  by (rule time_order.ppq_priority_queue)

lemma time_compare_nonneg [simp]: "0 \<le> sc_time_compare x y \<longleftrightarrow> x \<le> y"
  by (auto simp: sc_time_compare_def)

definition make_event_queue :: "nat \<Rightarrow> event_queue" where
  "make_event_queue e = \<lparr>m_ppq = make_ppq 128, m_e = e, eq_change_stamp = 0, m_pending_delta = 0\<rparr>"

section \<open>Operations\<close>

text \<open>\<open>while (m_ppq.size() > 0) delete m_ppq.extract_top()\<close>, in the destructor and in \<open>cancel_all\<close>.\<close>

function delete_times :: "sc_time ppq \<Rightarrow> sc_time ppq result" where
  "delete_times q =
     (if ppq_size q > 0 then bind_result (extract_top sc_time_compare q) (\<lambda>x. delete_times (snd x)) else Inr q)"
  by auto
termination
  by (relation "measure m_heap_size") (auto simp: extract_top_def bind_result_eq_Inr ppq_size_def)

declare delete_times.simps [simp del]

definition cancel_all :: "event_queue \<times> 'z notifier_scheme \<Rightarrow> (event_queue \<times> 'z notifier_scheme) result" where
  "cancel_all = (\<lambda>(q, s). bind_result (delete_times (m_ppq q)) (\<lambda>h.
     bind_result (cancel (m_e q) s) (\<lambda>s1. Inr (q\<lparr>m_pending_delta := 0, m_ppq := h\<rparr>, s1))))"

text \<open>\<open>stamp\<close> is the change stamp of the simulation context.\<close>

definition eq_notify ::
  "u64 \<Rightarrow> sc_time \<Rightarrow> event_queue \<times> 'z notifier_scheme \<Rightarrow> (event_queue \<times> 'z notifier_scheme) result"
where
  "eq_notify stamp when = (\<lambda>(q, s).
     (let t = when + m_curr_time s
      in bind_result (if ppq_size (m_ppq q) = 0 then Inr True
                      else bind_result (ppq_top (m_ppq q)) (\<lambda>top. Inr (t < top))) (\<lambda>first.
         bind_result (if first then notify_in when (m_e q) s else Inr s) (\<lambda>s1.
         bind_result (ppq_insert sc_time_compare t (m_ppq q)) (\<lambda>h.
           Inr (q\<lparr>eq_change_stamp := stamp, m_ppq := h\<rparr>, s1))))))"

definition fire_event :: "event_queue \<times> 'z notifier_scheme \<Rightarrow> (event_queue \<times> 'z notifier_scheme) result" where
  "fire_event = (\<lambda>(q, s).
     if ppq_empty (m_ppq q) then Inr (q, s)
     else bind_result (extract_top sc_time_compare (m_ppq q)) (\<lambda>(t, h).
       if t \<noteq> m_curr_time s then Inl Assert_failed
       else if ppq_size h > 0
       then bind_result (ppq_top h) (\<lambda>top. bind_result (notify_in (top - m_curr_time s) (m_e q) s) (\<lambda>s1.
              Inr (q\<lparr>m_ppq := h\<rparr>, s1)))
       else Inr (q\<lparr>m_ppq := h\<rparr>, s)))"

section \<open>Runs\<close>

text \<open>
  A run: the queue among the events of the simulation, whether \<open>fire_event\<close> is runnable, and two
  ledgers, the times asked for (and not cancelled) and the times at which the event was triggered.
\<close>

record eq_run =
  r_queue :: event_queue
  r_kernel :: notifier
  r_fired :: bool
  r_asked :: "sc_time multiset"
  r_seen :: "sc_time list"

definition eq_times :: "eq_run \<Rightarrow> sc_time multiset" where
  "eq_times r = ppq_elems (m_ppq (r_queue r))"

definition eq_now :: "eq_run \<Rightarrow> sc_time" where
  "eq_now r = m_curr_time (r_kernel r)"

definition eq_pending :: "eq_run \<Rightarrow> pending" where
  "eq_pending r = pending (r_kernel r) (m_e (r_queue r))"

definition start_run :: "nat \<Rightarrow> eq_run" where
  "start_run e = \<lparr>r_queue = make_event_queue e, r_kernel = init_notifier, r_fired = False, r_asked = {#}, r_seen = []\<rparr>"

text \<open>A time that does not leave the range of \<open>sc_time\<close>.\<close>

definition in_range :: "sc_time \<Rightarrow> sc_time \<Rightarrow> bool" where
  "in_range now when \<longleftrightarrow> unat now + unat when < 2 ^ 64"

text \<open>
  The steps: a call of \<open>notify\<close> or of \<open>cancel_all\<close>, a run of \<open>fire_event\<close>, other parts of the
  simulation that notify other events, the delta notification and the advance of time. Both wait until
  all runnable processes have run, and time does not pass a pending notification. The one restriction
  on the clients is the guard of \<open>Ask\<close>: no \<open>notify\<close> between a \<open>cancel_all\<close> and the run of
  \<open>fire_event\<close> that is still due.
\<close>

inductive eq_step :: "eq_run \<Rightarrow> eq_run \<Rightarrow> bool" where
  Ask: "in_range (eq_now r) when \<Longrightarrow> \<not> (r_fired r \<and> ppq_empty (m_ppq (r_queue r))) \<Longrightarrow>
    eq_notify stamp when (r_queue r, r_kernel r) = Inr (q, s) \<Longrightarrow>
    eq_step r (r\<lparr>r_queue := q, r_kernel := s, r_asked := add_mset (eq_now r + when) (r_asked r)\<rparr>)"
| Cancel: "cancel_all (r_queue r, r_kernel r) = Inr (q, s) \<Longrightarrow>
    eq_step r (r\<lparr>r_queue := q, r_kernel := s, r_asked := mset (r_seen r)\<rparr>)"
| Fire: "r_fired r \<Longrightarrow> fire_event (r_queue r, r_kernel r) = Inr (q, s) \<Longrightarrow>
    eq_step r (r\<lparr>r_queue := q, r_kernel := s, r_fired := False\<rparr>)"
| Others: "notifier_ok s \<Longrightarrow> m_curr_time s = eq_now r \<Longrightarrow> pending s (m_e (r_queue r)) = eq_pending r \<Longrightarrow>
    eq_step r (r\<lparr>r_kernel := s\<rparr>)"
| Delta: "\<not> r_fired r \<Longrightarrow> eq_pending r = Next_delta \<Longrightarrow>
    notifier_ok s \<Longrightarrow> m_curr_time s = eq_now r \<Longrightarrow> pending s (m_e (r_queue r)) = Idle \<Longrightarrow>
    eq_step r (r\<lparr>r_kernel := s, r_fired := True, r_seen := r_seen r @ [eq_now r]\<rparr>)"
| Wait: "\<not> r_fired r \<Longrightarrow> eq_pending r \<noteq> Next_delta \<Longrightarrow> eq_now r \<le> t \<Longrightarrow> (\<forall>u. eq_pending r = At u \<longrightarrow> t < u) \<Longrightarrow>
    notifier_ok s \<Longrightarrow> m_curr_time s = t \<Longrightarrow> pending s (m_e (r_queue r)) = eq_pending r \<Longrightarrow>
    eq_step r (r\<lparr>r_kernel := s\<rparr>)"
| Time: "\<not> r_fired r \<Longrightarrow> eq_pending r = At t \<Longrightarrow>
    notifier_ok s \<Longrightarrow> m_curr_time s = t \<Longrightarrow> pending s (m_e (r_queue r)) = Idle \<Longrightarrow>
    eq_step r (r\<lparr>r_kernel := s, r_fired := True, r_seen := r_seen r @ [t]\<rparr>)"

section \<open>Invariant\<close>

text \<open>The times still to come: while \<open>fire_event\<close> is due, one occurrence of the current time is past.\<close>

definition outstanding :: "eq_run \<Rightarrow> sc_time multiset" where
  "outstanding r = (if r_fired r then eq_times r - {#eq_now r#} else eq_times r)"

definition at_least :: "sc_time multiset \<Rightarrow> sc_time \<Rightarrow> bool" where
  "at_least M t \<longleftrightarrow> (\<forall>x\<in>#M. t \<le> x)"

definition due :: "sc_time \<Rightarrow> sc_time multiset \<Rightarrow> pending \<Rightarrow> bool" where
  "due now M p \<longleftrightarrow> (if M = {#} then p = Idle
     else \<exists>t\<in>#M. at_least M t \<and> p = (if t = now then Next_delta else At t))"

definition eq_ok :: "eq_run \<Rightarrow> bool" where
  "eq_ok r \<longleftrightarrow> notifier_ok (r_kernel r) \<and> ppq_ok sc_time_compare (m_ppq (r_queue r)) \<and>
     at_least (eq_times r) (eq_now r) \<and>
     (if r_fired r then eq_pending r = Idle \<and> (eq_times r = {#} \<or> eq_now r \<in># eq_times r)
      else due (eq_now r) (eq_times r) (eq_pending r)) \<and>
     r_asked r = mset (r_seen r) + outstanding r"

lemmas eq_run_defs = eq_ok_def eq_times_def eq_now_def eq_pending_def outstanding_def

lemma start_run_ok: "eq_ok (start_run e)"
  using init_notifier_ok make_ppq_ok [of sc_time_compare 128, THEN conjunct1] make_ppq_ok [THEN conjunct2]
  by (simp add: eq_run_defs start_run_def make_event_queue_def due_def at_least_def pending_def init_notifier_def
      new_event_def)

section \<open>Facts\<close>

lemma least_unique: "x \<in># M \<Longrightarrow> at_least M x \<Longrightarrow> y \<in># M \<Longrightarrow> at_least M y \<Longrightarrow> x = y"
  by (auto simp: at_least_def intro: antisym)

lemma due_least: "due now M p \<Longrightarrow> x \<in># M \<Longrightarrow> at_least M x \<Longrightarrow> p = (if x = now then Next_delta else At x)"
  unfolding due_def by (metis least_unique empty_not_add_mset multi_member_split)

lemma dueI: "x \<in># M \<Longrightarrow> at_least M x \<Longrightarrow> p = (if x = now then Next_delta else At x) \<Longrightarrow> due now M p"
  unfolding due_def by auto

lemma top_least:
  assumes "ppq_ok sc_time_compare q" "ppq_elems q \<noteq> {#}"
  obtains x where "ppq_top q = Inr x" "x \<in># ppq_elems q" "at_least (ppq_elems q) x"
proof -
  obtain x q' where "extract_top sc_time_compare q = Inr (x, q')" "ppq_top q = Inr x"
    "ppq_elems q = add_mset x (ppq_elems q')" "\<forall>y\<in>#ppq_elems q. 0 \<le> sc_time_compare x y"
    using time_queue.extract_law [OF assms] by blast
  then show thesis using that [of x] by (auto simp: at_least_def)
qed

lemma later:
  assumes "in_range now when"
  shows "now \<le> now + when \<and> (now + when = now \<longleftrightarrow> when = 0)"
proof -
  have "unat (now + when) = unat now + unat when"
    using assms unat_add_lem [of now "when"] by (simp add: in_range_def)
  then show ?thesis by (auto simp: word_le_nat_alt)
qed

lemma requested_least: "in_range (m_curr_time s) when \<Longrightarrow>
    requested when s = (if m_curr_time s + when = m_curr_time s then Next_delta else At (m_curr_time s + when))"
  using later [of "m_curr_time s" "when"] by (simp add: requested_def)

lemma delete_times_ok:
  "ppq_ok sc_time_compare q \<Longrightarrow> \<exists>q'. delete_times q = Inr q' \<and> ppq_ok sc_time_compare q' \<and> ppq_elems q' = {#}"
proof (induction q rule: delete_times.induct)
  case (1 q)
  show ?case
  proof (cases "ppq_elems q = {#}")
    case True
    then show ?thesis using 1 ppq_size_0 [OF "1.prems"] by (subst delete_times.simps) auto
  next
    case False
    obtain x q1 where x: "extract_top sc_time_compare q = Inr (x, q1)" "ppq_ok sc_time_compare q1"
      using time_queue.extract_law [OF "1.prems" False] by blast
    have pos: "ppq_size q > 0" using ppq_size_0 [OF "1.prems"] False by simp
    show ?thesis using "1.IH" [OF pos x(1)] x pos by (subst delete_times.simps) simp
  qed
qed

text \<open>What notifying the event of the queue at a new earliest time does.\<close>

lemma notify_first:
  assumes "notifier_ok s" "in_range (m_curr_time s) when" "due (m_curr_time s) M (pending s e)"
    "at_least M (m_curr_time s)" "M = {#} \<or> (\<exists>x\<in>#M. at_least M x \<and> m_curr_time s + when < x)"
  obtains s' where "notify_in when e s = Inr s'" "notifier_ok s'" "m_curr_time s' = m_curr_time s"
    "due (m_curr_time s) (add_mset (m_curr_time s + when) M) (pending s' e)"
proof -
  obtain s' where s': "notify_in when e s = Inr s'" "notifier_ok s'" "kept s s'"
    "pending s' e = earlier (pending s e) (requested when s)"
    using notify_in_achieves [OF assms(1), of "when" e] by (auto simp: achieves_def)
  let ?t = "m_curr_time s + when"
  have ge: "m_curr_time s \<le> ?t" using later [OF assms(2)] by simp
  have least: "at_least (add_mset ?t M) ?t"
    using assms(5) by (auto simp: at_least_def intro: less_imp_le order_trans)
  have "pending s' e = (if ?t = m_curr_time s then Next_delta else At ?t)"
  proof (cases "M = {#}")
    case True
    then show ?thesis using assms(3) s'(4) requested_least [OF assms(2)] by (simp add: due_def)
  next
    case False
    then obtain x where x: "x \<in># M" "at_least M x" "?t < x" using assms(5) by blast
    then have "x \<noteq> m_curr_time s" using ge by auto
    then have "pending s e = At x" using due_least [OF assms(3) x(1,2)] by simp
    moreover have "min x ?t = ?t" using x(3) by (simp add: min_absorb2 less_imp_le)
    ultimately show ?thesis using s'(4) requested_least [OF assms(2)] by simp
  qed
  then have "due (m_curr_time s) (add_mset ?t M) (pending s' e)" by (intro dueI [OF _ least]) simp_all
  then show thesis using that [OF s'(1,2)] s'(3) by (simp add: kept_def)
qed

lemma due_insert_later:
  assumes "due now M p" "x \<in># M" "at_least M x" "x \<le> t"
  shows "due now (add_mset t M) p"
  using assms dueI [of x "add_mset t M" p now] due_least [OF assms(1,2,3)] by (auto simp: at_least_def)

section \<open>The operations keep the invariant\<close>

lemma notify_ok:
  assumes r: "eq_ok r" and "in_range (eq_now r) when" "\<not> (r_fired r \<and> ppq_empty (m_ppq (r_queue r)))"
  obtains q s where "eq_notify stamp when (r_queue r, r_kernel r) = Inr (q, s)"
    "m_e q = m_e (r_queue r)" "notifier_ok s" "m_curr_time s = eq_now r" "ppq_ok sc_time_compare (m_ppq q)"
    "ppq_elems (m_ppq q) = add_mset (eq_now r + when) (eq_times r)"
    "if r_fired r then pending s (m_e q) = Idle \<and> eq_now r \<in># eq_times r
     else due (eq_now r) (add_mset (eq_now r + when) (eq_times r)) (pending s (m_e q))"
proof -
  let ?q = "r_queue r" and ?s = "r_kernel r" and ?M = "eq_times r" and ?t = "eq_now r + when"
  have ok: "notifier_ok ?s" "ppq_ok sc_time_compare (m_ppq ?q)" "at_least ?M (eq_now r)"
    using r by (simp_all add: eq_ok_def)
  obtain h where h: "ppq_insert sc_time_compare ?t (m_ppq ?q) = Inr h" "ppq_ok sc_time_compare h"
    "ppq_elems h = add_mset ?t ?M" using time_queue.insert_law [OF ok(2)] by (auto simp: eq_times_def)
  have size: "ppq_size (m_ppq ?q) = 0 \<longleftrightarrow> ?M = {#}" using ppq_size_0 [OF ok(2)] by (simp add: eq_times_def)
  have ge: "eq_now r \<le> ?t" using later [OF assms(2)] by simp
  let ?q' = "?q\<lparr>eq_change_stamp := stamp, m_ppq := h\<rparr>"
  note result = that
  have first: thesis if new: "?M = {#} \<or> (\<exists>x\<in>#?M. at_least ?M x \<and> ?t < x)" and "\<not> r_fired r"
    and eq: "\<And>s'. notify_in when (m_e ?q) ?s = Inr s' \<Longrightarrow> eq_notify stamp when (?q, ?s) = Inr (?q', s')"
  proof -
    have d: "due (m_curr_time ?s) ?M (pending ?s (m_e ?q))"
      using r \<open>\<not> r_fired r\<close> by (simp add: eq_ok_def eq_now_def eq_pending_def)
    obtain s' where s': "notify_in when (m_e ?q) ?s = Inr s'" "notifier_ok s'" "m_curr_time s' = m_curr_time ?s"
      "due (m_curr_time ?s) (add_mset (m_curr_time ?s + when) ?M) (pending s' (m_e ?q))"
      using notify_first [OF ok(1) assms(2) [unfolded eq_now_def] d] ok(3) new by (auto simp: eq_now_def)
    show thesis using result [of ?q' s'] eq [OF s'(1)] s' h \<open>\<not> r_fired r\<close> by (simp add: eq_now_def)
  qed
  show thesis
  proof (cases "?M = {#}")
    case True
    then have "\<not> r_fired r" using assms(3) size by (simp add: ppq_empty_def ppq_size_def)
    then show thesis using first True size h(1) by (simp add: eq_notify_def eq_now_def add.commute Let_def)
  next
    case False
    obtain x where x: "ppq_top (m_ppq ?q) = Inr x" "x \<in># ?M" "at_least ?M x"
      using top_least [OF ok(2)] False by (auto simp: eq_times_def)
    show thesis
    proof (cases "?t < x")
      case True
      have "\<not> r_fired r"
      proof
        assume "r_fired r"
        then have "eq_now r \<in># ?M" using r False by (simp add: eq_ok_def)
        then have "x \<le> eq_now r" using x(3) by (simp add: at_least_def)
        then show False using True ge by auto
      qed
      then show thesis using first True x size False h(1) by (force simp: eq_notify_def eq_now_def add.commute Let_def)
    next
      case n: False
      have eq: "eq_notify stamp when (?q, ?s) = Inr (?q', ?s)"
        using n x size False h(1) by (simp add: eq_notify_def eq_now_def add.commute Let_def)
      have "if r_fired r then eq_pending r = Idle \<and> eq_now r \<in># ?M else due (eq_now r) (add_mset ?t ?M) (eq_pending r)"
        using r False due_insert_later [OF _ x(2,3), of "eq_now r" "eq_pending r" ?t] n
        by (auto simp: eq_ok_def)
      then show thesis
        by (cases "r_fired r"; intro result [OF eq]) (use h ok(1) in \<open>simp_all add: eq_now_def eq_pending_def\<close>)
    qed
  qed
qed

lemma cancel_all_ok:
  assumes "eq_ok r"
  obtains q s where "cancel_all (r_queue r, r_kernel r) = Inr (q, s)" "m_e q = m_e (r_queue r)" "notifier_ok s"
    "m_curr_time s = eq_now r" "ppq_ok sc_time_compare (m_ppq q)" "ppq_elems (m_ppq q) = {#}" "pending s (m_e q) = Idle"
proof -
  let ?q = "r_queue r" and ?s = "r_kernel r"
  have ok: "notifier_ok ?s" "ppq_ok sc_time_compare (m_ppq ?q)" using assms by (simp_all add: eq_ok_def)
  obtain h where h: "delete_times (m_ppq ?q) = Inr h" "ppq_ok sc_time_compare h" "ppq_elems h = {#}"
    using delete_times_ok [OF ok(2)] by blast
  obtain s' where s': "cancel (m_e ?q) ?s = Inr s'" "notifier_ok s'" "kept ?s s'"
    "pending s' = (pending ?s)(m_e ?q := Idle)"
    using cancel_achieves [OF ok(1), of "m_e ?q"] by (auto simp: achieves_def)
  show thesis using that [of "?q\<lparr>m_pending_delta := 0, m_ppq := h\<rparr>" s'] h s'
    by (simp add: cancel_all_def eq_now_def kept_def)
qed

lemma fire_event_ok:
  assumes r: "eq_ok r" and "r_fired r"
  obtains q s where "fire_event (r_queue r, r_kernel r) = Inr (q, s)" "m_e q = m_e (r_queue r)" "notifier_ok s"
    "m_curr_time s = eq_now r" "ppq_ok sc_time_compare (m_ppq q)" "ppq_elems (m_ppq q) = outstanding r"
    "due (eq_now r) (outstanding r) (pending s (m_e q))" "at_least (outstanding r) (eq_now r)"
proof -
  let ?q = "r_queue r" and ?s = "r_kernel r" and ?M = "eq_times r"
  have ok: "notifier_ok ?s" "ppq_ok sc_time_compare (m_ppq ?q)" "at_least ?M (eq_now r)" "eq_pending r = Idle"
    using r assms(2) by (simp_all add: eq_ok_def)
  have size: "ppq_empty (m_ppq ?q) \<longleftrightarrow> ?M = {#}"
    using ppq_size_0 [OF ok(2)] by (simp add: eq_times_def ppq_empty_def ppq_size_def)
  show thesis
  proof (cases "?M = {#}")
    case True
    then show thesis using that [of ?q ?s] size ok assms(2)
      by (simp add: fire_event_def outstanding_def eq_now_def eq_pending_def due_def eq_times_def at_least_def)
  next
    case False
    then have now: "eq_now r \<in># ?M" using r assms(2) by (simp add: eq_ok_def)
    obtain x h where x: "extract_top sc_time_compare (m_ppq ?q) = Inr (x, h)" "ppq_ok sc_time_compare h"
      "?M = add_mset x (ppq_elems h)" "at_least ?M x"
      using time_queue.extract_law [OF ok(2)] False by (fastforce simp: eq_times_def at_least_def)
    have xn: "x = m_curr_time ?s" using least_unique [OF _ x(4) now ok(3)] x(3) by (simp add: eq_now_def)
    have out: "ppq_elems h = outstanding r" using x(3) xn assms(2) by (simp add: outstanding_def eq_now_def)
    have rest: "at_least (outstanding r) (eq_now r)" using ok(3) x(3) out by (simp add: at_least_def)
    note size_h = ppq_size_0 [OF x(2)]
    show thesis
    proof (cases "outstanding r = {#}")
      case True
      then have "fire_event (?q, ?s) = Inr (?q\<lparr>m_ppq := h\<rparr>, ?s)"
        using False size x(1) xn size_h out by (simp add: fire_event_def)
      then show thesis using that [of "?q\<lparr>m_ppq := h\<rparr>" ?s] True x(2) out rest ok(1,4)
        by (simp add: eq_now_def eq_pending_def due_def)
    next
      case more: False
      obtain y where y: "ppq_top h = Inr y" "y \<in># outstanding r" "at_least (outstanding r) y"
        using top_least [OF x(2)] more out by metis
      obtain s' where s': "notify_in (y - m_curr_time ?s) (m_e ?q) ?s = Inr s'" "notifier_ok s'" "kept ?s s'"
        "pending s' (m_e ?q) = requested (y - m_curr_time ?s) ?s"
        using notify_in_achieves [OF ok(1), of "y - m_curr_time ?s" "m_e ?q"] ok(4)
        by (auto simp: achieves_def eq_pending_def)
      have "pending s' (m_e ?q) = (if y = eq_now r then Next_delta else At y)"
        using s'(4) by (simp add: requested_def eq_now_def)
      then have "due (eq_now r) (outstanding r) (pending s' (m_e ?q))" using dueI [OF y(2,3)] by simp
      moreover have "fire_event (?q, ?s) = Inr (?q\<lparr>m_ppq := h\<rparr>, s')"
        using False size x xn size_h more out y s' by (simp add: fire_event_def)
      ultimately show thesis using that [of "?q\<lparr>m_ppq := h\<rparr>" s'] s' x out rest by (simp add: eq_now_def kept_def)
    qed
  qed
qed

section \<open>Every step keeps the invariant\<close>

lemma plus_minus_one: "x \<in># M \<Longrightarrow> add_mset t M - {#x#} = add_mset t (M - {#x#})" for M :: "'a multiset"
  by (metis add_mset_remove_trivial diff_union_swap2 insert_DiffM)

lemma at_least_mono: "at_least M t \<Longrightarrow> u \<le> t \<Longrightarrow> at_least M u" for t :: sc_time
  by (auto simp: at_least_def)

lemma eq_step_ok: "eq_step r r' \<Longrightarrow> eq_ok r \<Longrightarrow> eq_ok r'"
proof (induction rule: eq_step.induct)
  case (Ask r "when" stamp q s)
  obtain q' s' where n: "eq_notify stamp when (r_queue r, r_kernel r) = Inr (q', s')"
    "m_e q' = m_e (r_queue r)" "notifier_ok s'" "m_curr_time s' = eq_now r" "ppq_ok sc_time_compare (m_ppq q')"
    "ppq_elems (m_ppq q') = add_mset (eq_now r + when) (eq_times r)"
    "if r_fired r then pending s' (m_e q') = Idle \<and> eq_now r \<in># eq_times r
     else due (eq_now r) (add_mset (eq_now r + when) (eq_times r)) (pending s' (m_e q'))"
    using notify_ok [OF Ask(4,1,2), of stamp] by blast
  have "q' = q" "s' = s" using n(1) Ask(3) by simp_all
  note n = n [unfolded this]
  have "at_least (add_mset (eq_now r + when) (eq_times r)) (eq_now r)"
    using Ask.prems later [OF Ask(1)] by (simp add: eq_ok_def at_least_def)
  then show ?case using n Ask.prems
    by (auto simp: eq_ok_def eq_times_def eq_now_def eq_pending_def outstanding_def plus_minus_one split: if_splits)
next
  case (Cancel r q s)
  obtain q' s' where c: "cancel_all (r_queue r, r_kernel r) = Inr (q', s')" "m_e q' = m_e (r_queue r)" "notifier_ok s'"
    "m_curr_time s' = eq_now r" "ppq_ok sc_time_compare (m_ppq q')" "ppq_elems (m_ppq q') = {#}" "pending s' (m_e q') = Idle"
    using cancel_all_ok [OF Cancel.prems] by blast
  then show ?case using Cancel(1)
    by (simp add: eq_ok_def eq_times_def eq_now_def eq_pending_def outstanding_def due_def at_least_def)
next
  case (Fire r q s)
  obtain q' s' where c: "fire_event (r_queue r, r_kernel r) = Inr (q', s')" "m_e q' = m_e (r_queue r)" "notifier_ok s'"
    "m_curr_time s' = eq_now r" "ppq_ok sc_time_compare (m_ppq q')" "ppq_elems (m_ppq q') = outstanding r"
    "due (eq_now r) (outstanding r) (pending s' (m_e q'))" "at_least (outstanding r) (eq_now r)"
    using fire_event_ok [OF Fire.prems Fire(1)] by blast
  have "r_asked r = mset (r_seen r) + outstanding r" using Fire.prems by (simp add: eq_ok_def)
  then show ?case using c Fire(2)
    unfolding eq_ok_def by (simp add: eq_times_def eq_now_def eq_pending_def outstanding_def [of "_\<lparr>r_fired := False\<rparr>"])
next
  case (Others s r)
  then show ?case by (cases "r_fired r") (simp_all add: eq_ok_def eq_times_def eq_now_def eq_pending_def outstanding_def)
next
  case (Delta r s)
  have d: "due (eq_now r) (eq_times r) Next_delta" using Delta by (simp add: eq_ok_def)
  then have "eq_times r \<noteq> {#}" by (auto simp: due_def)
  then have "eq_now r \<in># eq_times r" using d by (auto simp: due_def split: if_splits)
  then show ?case using Delta by (simp add: eq_ok_def eq_times_def eq_now_def eq_pending_def outstanding_def)
next
  case (Wait r t s)
  have d: "due (eq_now r) (eq_times r) (eq_pending r)" using Wait by (simp add: eq_ok_def)
  have "at_least (eq_times r) t \<and> due t (eq_times r) (eq_pending r)"
  proof (cases "eq_times r = {#}")
    case False
    then obtain x where x: "x \<in># eq_times r" "at_least (eq_times r) x" "eq_pending r = At x"
      using d Wait(2) by (auto simp: due_def split: if_splits)
    then have "t < x" using Wait(4) by simp
    then show ?thesis using x at_least_mono [OF x(2)] dueI [OF x(1,2), of "At x" t] by auto
  qed (use d in \<open>simp add: due_def at_least_def\<close>)
  then show ?case using Wait by (simp add: eq_ok_def eq_times_def eq_now_def eq_pending_def outstanding_def)
next
  case (Time r t s)
  have d: "due (eq_now r) (eq_times r) (At t)" using Time by (simp add: eq_ok_def)
  then obtain x where "x \<in># eq_times r" "at_least (eq_times r) x" "At t = (if x = eq_now r then Next_delta else At x)"
    by (auto simp: due_def split: if_splits)
  then have "t \<in># eq_times r" "at_least (eq_times r) t" by (auto split: if_splits)
  then show ?case using Time by (simp add: eq_ok_def eq_times_def eq_now_def eq_pending_def outstanding_def)
qed

inductive eq_reachable :: "nat \<Rightarrow> eq_run \<Rightarrow> bool" for e where
  start: "eq_reachable e (start_run e)"
| step: "eq_reachable e r \<Longrightarrow> eq_step r r' \<Longrightarrow> eq_reachable e r'"

lemma eq_reachable_ok: "eq_reachable e r \<Longrightarrow> eq_ok r"
  by (induction rule: eq_reachable.induct) (auto intro: start_run_ok eq_step_ok)

end
