(* ===== verification/Sc_Resolved.thy ===== *)
theory Sc_Resolved
  imports Sc_Signal Sc_Logic
begin

text \<open>
  \<open>sysc/communication/sc_signal_resolved.h\<close>, \<open>sc_signal_resolved.cpp\<close>: a signal with many writers. Every
  process that writes it drives it with its own value, and the update phase resolves the values of the
  drivers into one with a table.
\<close>

section \<open>The table\<close>

definition sc_logic_resolution_tbl :: "sc_logic_value_t list list" where
  "sc_logic_resolution_tbl =
    [[Log_0, Log_X, Log_0, Log_X],
     [Log_X, Log_1, Log_1, Log_X],
     [Log_0, Log_1, Log_Z, Log_X],
     [Log_X, Log_X, Log_X, Log_X]]"

definition resolve_two :: "sc_logic_value_t \<Rightarrow> sc_logic_value_t \<Rightarrow> sc_logic_value_t" where
  "resolve_two a b = sc_logic_resolution_tbl ! logic_number a ! logic_number b"

text \<open>\<open>for (int i = sz - 1; i > 0 && res != Log_X; --i)\<close>, from the entry \<open>i\<close> down.\<close>

fun resolve_loop :: "sc_logic_value_t list \<Rightarrow> nat \<Rightarrow> sc_logic_value_t \<Rightarrow> sc_logic_value_t result" where
  "resolve_loop vs 0 res = Inr res"
| "resolve_loop vs (Suc i) res =
     (if res = Log_X then Inr res
      else bind_result (vec_at vs (Suc i)) (\<lambda>v. resolve_loop vs i (resolve_two res v)))"

definition sc_logic_resolve :: "sc_logic_value_t list \<Rightarrow> sc_logic_value_t result" where
  "sc_logic_resolve vs =
     (let sz = length vs
      in if sz = 0 then Inl Assert_failed
         else if sz = 1 then vec_at vs 0
         else bind_result (vec_at vs 0) (resolve_loop vs (sz - 1)))"

section \<open>The signal\<close>

text \<open>A process is its address; code outside the processes writes as the null process.\<close>

record resolved =
  rs_base :: "sc_logic_value_t signal"
  m_proc_vec :: "nat option list"
  m_val_vec :: "sc_logic_value_t list"

definition make_resolved :: resolved where
  "make_resolved = \<lparr>rs_base = make_signal Log_X, m_proc_vec = [], m_val_vec = []\<rparr>"

text \<open>The loop of \<open>write\<close> looks for the process from the last entry to the first.\<close>

fun find_driver :: "nat option \<Rightarrow> nat option list \<Rightarrow> nat \<Rightarrow> nat option result" where
  "find_driver cur_proc ps 0 = Inr None"
| "find_driver cur_proc ps (Suc i) =
     bind_result (vec_at ps i) (\<lambda>p. if cur_proc = p then Inr (Some i) else find_driver cur_proc ps i)"

definition rs_request :: "resolved \<Rightarrow> resolved" where
  "rs_request s = s\<lparr>rs_base := (rs_base s)\<lparr>sig_requested := True\<rparr>\<rparr>"

definition resolved_write :: "nat option \<Rightarrow> sc_logic_value_t \<Rightarrow> resolved \<Rightarrow> resolved result" where
  "resolved_write cur_proc v s =
     bind_result (find_driver cur_proc (m_proc_vec s) (length (m_proc_vec s))) (\<lambda>found. case found of
       Some i \<Rightarrow> bind_result (vec_at (m_val_vec s) i) (\<lambda>old.
         if v \<noteq> old then Inr (rs_request (s\<lparr>m_val_vec := (m_val_vec s)[i := v]\<rparr>)) else Inr s)
     | None \<Rightarrow> Inr (rs_request (s\<lparr>m_proc_vec := m_proc_vec s @ [cur_proc], m_val_vec := m_val_vec s @ [v]\<rparr>)))"

definition resolved_update :: "u64 \<Rightarrow> resolved \<Rightarrow> (bool \<times> resolved) result" where
  "resolved_update stamp s =
     bind_result (sc_logic_resolve (m_val_vec s)) (\<lambda>v.
       let (changed, base) = signal_update (=) SC_MANY_WRITERS stamp ((rs_base s)\<lparr>m_new_val := v\<rparr>)
       in Inr (changed, s\<lparr>rs_base := base\<rparr>))"

text \<open>The update phase updates the signal if it has asked for it.\<close>

definition resolved_phase :: "u64 \<Rightarrow> resolved \<Rightarrow> resolved result" where
  "resolved_phase stamp s =
     (if sig_requested (rs_base s) then bind_result (resolved_update stamp s) (\<lambda>x. Inr (snd x)) else Inr s)"

section \<open>Resolution\<close>

text \<open>What the table computes, for any number of drivers: the value on which all that drive agree.\<close>

definition resolution :: "sc_logic_value_t set \<Rightarrow> sc_logic_value_t" where
  "resolution V =
     (if Log_X \<in> V \<or> Log_0 \<in> V \<and> Log_1 \<in> V then Log_X
      else if Log_0 \<in> V then Log_0 else if Log_1 \<in> V then Log_1 else Log_Z)"

lemma resolution_single [simp]: "resolution {v} = v"
  by (cases v) (simp_all add: resolution_def)

lemma resolution_two: "resolution (insert (resolve_two a b) V) = resolution (insert a (insert b V))"
  by (cases a; cases b) (auto simp: resolve_two_def sc_logic_resolution_tbl_def resolution_def)

lemma resolution_X: "resolution (insert Log_X V) = Log_X"
  by (simp add: resolution_def)

lemma resolve_loop_ok:
  "i < length vs \<Longrightarrow> resolve_loop vs i res = Inr (resolution (insert res ((!) vs ` {1..i})))"
proof (induction vs i res rule: resolve_loop.induct)
  case (2 vs i res)
  have up: "(!) vs ` {1..Suc i} = insert (vs ! Suc i) ((!) vs ` {1..i})"
    by (simp add: atLeastAtMostSuc_conv)
  show ?case
  proof (cases "res = Log_X")
    case False
    have "resolve_loop vs (Suc i) res = resolve_loop vs i (resolve_two res (vs ! Suc i))"
      using False 2(2) by simp
    also have "\<dots> = Inr (resolution (insert (resolve_two res (vs ! Suc i)) ((!) vs ` {1..i})))"
      using "2.IH" [OF False] 2(2) by force
    finally show ?thesis unfolding up resolution_two .
  qed (simp add: resolution_X)
qed simp

lemma resolve_is_resolution: "vs \<noteq> [] \<Longrightarrow> sc_logic_resolve vs = Inr (resolution (set vs))"
proof -
  assume "vs \<noteq> []"
  then have n: "0 < length vs" by simp
  have "set vs = insert (vs ! 0) ((!) vs ` {1..length vs - 1})"
  proof -
    have "set vs = (!) vs ` {0..<length vs}" using nth_image [of "length vs" vs] by simp
    also have "{0..<length vs} = insert 0 {1..length vs - 1}" using n by auto
    finally show ?thesis by simp
  qed
  then show ?thesis using n resolve_loop_ok [of "length vs - 1" vs "vs ! 0"]
    by (cases "length vs = 1") (simp_all add: sc_logic_resolve_def Let_def)
qed

section \<open>Runs\<close>

datatype rs_op = Rs_write "nat option" sc_logic_value_t | Rs_update u64

fun exec_rs :: "rs_op \<Rightarrow> resolved \<Rightarrow> resolved result" where
  "exec_rs (Rs_write p v) s = resolved_write p v s"
| "exec_rs (Rs_update stamp) s = resolved_phase stamp s"

text \<open>The value each process has written last.\<close>

fun drive :: "rs_op \<Rightarrow> (nat option \<rightharpoonup> sc_logic_value_t) \<Rightarrow> (nat option \<rightharpoonup> sc_logic_value_t)" where
  "drive (Rs_write p v) d = d(p \<mapsto> v)"
| "drive (Rs_update stamp) d = d"

text \<open>
  The two vectors are the map of the drivers, and the current value is their resolution unless an update
  is to come.
\<close>

definition resolved_ok :: "(nat option \<rightharpoonup> sc_logic_value_t) \<Rightarrow> resolved \<Rightarrow> bool" where
  "resolved_ok d s \<longleftrightarrow> length (m_val_vec s) = length (m_proc_vec s) \<and> distinct (m_proc_vec s) \<and>
     d = map_of (zip (m_proc_vec s) (m_val_vec s)) \<and>
     (\<not> sig_requested (rs_base s) \<longrightarrow>
        m_cur_val (rs_base s) = (if m_val_vec s = [] then Log_X else resolution (set (m_val_vec s)))) \<and>
     (sig_requested (rs_base s) \<longrightarrow> m_val_vec s \<noteq> [])"

lemma find_driver_ok:
  "n \<le> length ps \<Longrightarrow> (\<exists>i<n. ps ! i = p \<and> find_driver p ps n = Inr (Some i)) \<or>
    ((\<forall>i<n. ps ! i \<noteq> p) \<and> find_driver p ps n = Inr None)"
  by (induction p ps n rule: find_driver.induct) (auto simp: less_Suc_eq)

lemma find_driver_cases:
  obtains i where "i < length ps" "ps ! i = p" "find_driver p ps (length ps) = Inr (Some i)"
  | "p \<notin> set ps" "find_driver p ps (length ps) = Inr None"
  using find_driver_ok [of "length ps" ps p] by (auto simp: in_set_conv_nth)

lemma map_of_zip_set:
  assumes "distinct ps" "length vs = length ps" "i < length ps"
  shows "map_of (zip ps (vs[i := v])) = (map_of (zip ps vs))(ps ! i \<mapsto> v)"
proof
  fix q
  show "map_of (zip ps (vs[i := v])) q = ((map_of (zip ps vs))(ps ! i \<mapsto> v)) q"
  proof (cases "q \<in> set ps")
    case True
    then obtain j where "j < length ps" "q = ps ! j" by (auto simp: in_set_conv_nth)
    then show ?thesis using assms by (auto simp: map_of_zip_nth nth_eq_iff_index_eq)
  next
    case False
    then have "map_of (zip ps (vs[i := v])) q = None" "map_of (zip ps vs) q = None"
      using map_of_zip_is_None [of ps vs q] map_of_zip_is_None [of ps "vs[i := v]" q] assms(2) by simp_all
    then have "map_of (zip ps (vs[i := v])) q = map_of (zip ps vs) q" by (rule trans [OF _ sym])
    moreover have "q \<noteq> ps ! i" using False assms(3) by auto
    ultimately show ?thesis by simp
  qed
qed

lemma set_update_same: "i < length vs \<Longrightarrow> vs ! i = v \<Longrightarrow> vs[i := v] = vs"
  by auto

lemma resolved_write_ok:
  assumes "resolved_ok d s"
  obtains s' where "resolved_write p v s = Inr s'" "resolved_ok (d(p \<mapsto> v)) s'"
proof (rule find_driver_cases [of "m_proc_vec s" p])
  fix i assume i: "i < length (m_proc_vec s)" "m_proc_vec s ! i = p"
    "find_driver p (m_proc_vec s) (length (m_proc_vec s)) = Inr (Some i)"
  have len: "length (m_val_vec s) = length (m_proc_vec s)" "distinct (m_proc_vec s)"
    "d = map_of (zip (m_proc_vec s) (m_val_vec s))" using assms by (simp_all add: resolved_ok_def)
  note upd = map_of_zip_set [OF len(2,1) i(1), of v]
  show thesis
  proof (cases "v = m_val_vec s ! i")
    case True
    then have "d(p \<mapsto> v) = d" using upd i len by (simp add: set_update_same)
    then show thesis using that [of s] True i len assms by (simp add: resolved_write_def)
  next
    case False
    have "m_val_vec s \<noteq> []" using i len by auto
    then show thesis using False that [of "rs_request (s\<lparr>m_val_vec := (m_val_vec s)[i := v]\<rparr>)"] i len upd
      by (auto simp: resolved_write_def resolved_ok_def rs_request_def)
  qed
next
  let ?s' = "rs_request (s\<lparr>m_proc_vec := m_proc_vec s @ [p], m_val_vec := m_val_vec s @ [v]\<rparr>)"
  assume n: "p \<notin> set (m_proc_vec s)" "find_driver p (m_proc_vec s) (length (m_proc_vec s)) = Inr None"
  have len: "length (m_val_vec s) = length (m_proc_vec s)" "distinct (m_proc_vec s)"
    "d = map_of (zip (m_proc_vec s) (m_val_vec s))" using assms by (simp_all add: resolved_ok_def)
  have "map_of (zip (m_proc_vec s) (m_val_vec s)) p = None"
    using map_of_zip_is_None [of "m_proc_vec s" "m_val_vec s" p] n(1) len by simp
  then have "map_of (zip (m_proc_vec s) (m_val_vec s) @ [(p, v)]) = d(p \<mapsto> v)"
    unfolding len(3) by (intro ext) (simp add: map_add_def del: map_of_eq_None_iff split: option.split)
  then have "resolved_ok (d(p \<mapsto> v)) ?s'" using n(1) len by (simp add: resolved_ok_def rs_request_def)
  then show thesis using that [of ?s'] n(2) by (simp add: resolved_write_def)
qed

lemma resolved_update_ok:
  assumes "resolved_ok d s" "sig_requested (rs_base s)"
  obtains changed s' where "resolved_update stamp s = Inr (changed, s')" "resolved_ok d s'"
    "\<not> sig_requested (rs_base s')" "changed \<longleftrightarrow> m_cur_val (rs_base s') \<noteq> m_cur_val (rs_base s)"
proof -
  have "m_val_vec s \<noteq> []" using assms by (simp add: resolved_ok_def)
  note v = resolve_is_resolution [OF this]
  let ?v = "resolution (set (m_val_vec s))"
  obtain ch b where b: "signal_update (=) SC_MANY_WRITERS stamp ((rs_base s)\<lparr>m_new_val := ?v\<rparr>) = (ch, b)"
    by fastforce
  have "m_cur_val b = ?v \<and> (ch \<longleftrightarrow> ?v \<noteq> m_cur_val (rs_base s))"
    using signal_update_value [OF b] by (auto split: if_splits)
  moreover have "\<not> sig_requested b"
    using b by (auto simp: signal_update_def policy_update_def Let_def split: if_splits)
  ultimately show thesis using that [of ch "s\<lparr>rs_base := b\<rparr>"] v b assms
    by (simp add: resolved_update_def resolved_ok_def)
qed

lemma resolved_phase_ok:
  assumes "resolved_ok d s"
  obtains s' where "resolved_phase stamp s = Inr s'" "resolved_ok d s'" "\<not> sig_requested (rs_base s')"
proof (cases "sig_requested (rs_base s)")
  case True
  from resolved_update_ok [OF assms this, of stamp] that True show thesis
    by (metis resolved_phase_def bind_result_Inr snd_conv)
next
  case False
  then show thesis using that [of s] assms by (simp add: resolved_phase_def)
qed

lemma exec_rs_ok:
  assumes "resolved_ok d s"
  shows "\<exists>s'. exec_rs c s = Inr s' \<and> resolved_ok (drive c d) s'"
proof (cases c)
  case (Rs_write p v)
  then show ?thesis using resolved_write_ok [OF assms, of p v] by auto
next
  case (Rs_update stamp)
  then show ?thesis using resolved_phase_ok [OF assms, of stamp] by auto
qed

lemma exec_rs_run: "resolved_ok d s \<Longrightarrow> \<exists>s'. for_each exec_rs cs s = Inr s' \<and> resolved_ok (fold drive cs d) s'"
proof (induction cs arbitrary: d s)
  case (Cons c cs)
  then show ?case using exec_rs_ok [OF Cons.prems, of c] by fastforce
qed simp

lemma make_resolved_ok: "resolved_ok Map.empty make_resolved"
  by (simp add: resolved_ok_def make_resolved_def make_signal_def)

lemma resolved_ok_ran: "resolved_ok d s \<Longrightarrow> set (m_val_vec s) = ran d"
  by (simp add: resolved_ok_def ran_map_of_zip)

end
