(* ===== verification/Sc_Locks.thy ===== *)
theory Sc_Locks
  imports Prelude
begin

text \<open>
  \<open>sysc/communication/sc_mutex.cpp\<close> and \<open>sc_semaphore.cpp\<close>: the two locks. A process that finds the lock
  in use waits for the event \<open>m_free\<close>; giving the lock back notifies the event at once, and every process
  that waited runs the loop again. A call that would wait returns \<open>None\<close>; the process is then asleep and
  later runs the loop anew.
\<close>

section \<open>The mutex\<close>

text \<open>A process is its address, \<open>None\<close> outside the processes.\<close>

record sc_mutex =
  m_owner :: "nat option"

definition make_mutex :: sc_mutex where
  "make_mutex = \<lparr>m_owner = None\<rparr>"

definition mutex_in_use :: "sc_mutex \<Rightarrow> bool" where
  "mutex_in_use m \<longleftrightarrow> m_owner m \<noteq> None"

text \<open>The loop of \<open>lock\<close>, from the call and from each wake-up on.\<close>

definition mutex_loop :: "nat option \<Rightarrow> sc_mutex \<Rightarrow> sc_mutex option" where
  "mutex_loop cur m = (if mutex_in_use m then None else Some (m\<lparr>m_owner := cur\<rparr>))"

definition mutex_lock :: "nat option \<Rightarrow> sc_mutex \<Rightarrow> sc_mutex option" where
  "mutex_lock cur m = (if m_owner m = cur then Some m else mutex_loop cur m)"

definition mutex_trylock :: "nat option \<Rightarrow> sc_mutex \<Rightarrow> int \<times> sc_mutex" where
  "mutex_trylock cur m =
     (if m_owner m = cur then (0, m)
      else if mutex_in_use m then (- 1, m) else (0, m\<lparr>m_owner := cur\<rparr>))"

text \<open>The boolean says whether \<open>m_free\<close> is notified.\<close>

definition mutex_unlock :: "nat option \<Rightarrow> sc_mutex \<Rightarrow> int \<times> bool \<times> sc_mutex" where
  "mutex_unlock cur m =
     (if m_owner m \<noteq> cur then (- 1, False, m) else (0, True, m\<lparr>m_owner := None\<rparr>))"

section \<open>The semaphore\<close>

record sc_semaphore =
  m_value :: i32

definition make_semaphore :: "i32 \<Rightarrow> sc_semaphore result" where
  "make_semaphore init_value = (if sint init_value < 0 then Inl Sc_report_error else Inr \<lparr>m_value = init_value\<rparr>)"

definition sem_in_use :: "sc_semaphore \<Rightarrow> bool" where
  "sem_in_use s \<longleftrightarrow> sint (m_value s) \<le> 0"

definition sem_wait :: "sc_semaphore \<Rightarrow> sc_semaphore option" where
  "sem_wait s = (if sem_in_use s then None else Some (s\<lparr>m_value := m_value s - 1\<rparr>))"

definition sem_trywait :: "sc_semaphore \<Rightarrow> int \<times> sc_semaphore" where
  "sem_trywait s = (if sem_in_use s then (- 1, s) else (0, s\<lparr>m_value := m_value s - 1\<rparr>))"

text \<open>The increment notifies \<open>m_free\<close>; beyond the greatest \<open>int\<close> it is undefined, here it wraps.\<close>

definition sem_post :: "sc_semaphore \<Rightarrow> int \<times> bool \<times> sc_semaphore" where
  "sem_post s = (0, True, s\<lparr>m_value := m_value s + 1\<rparr>)"

section \<open>Waiting rooms\<close>

text \<open>
  What the two have in common: a resource with a number of free units, which processes take, waiting when
  there is none, and give back. The processes that wait are \<open>asleep\<close>, those woken by the event \<open>m_free\<close>
  and not yet run again are \<open>woken\<close>.
\<close>

record 's room =
  resource :: 's
  asleep :: "nat set"
  woken :: "nat set"
  takes :: nat
  gives :: nat

definition empty_room :: "'s \<Rightarrow> 's room" where
  "empty_room s = \<lparr>resource = s, asleep = {}, woken = {}, takes = 0, gives = 0\<rparr>"

definition idle :: "nat \<Rightarrow> ('s, 'z) room_scheme \<Rightarrow> bool" where
  "idle p r \<longleftrightarrow> p \<notin> asleep r \<and> p \<notin> woken r"

definition took :: "nat \<Rightarrow> 's \<Rightarrow> 's room \<Rightarrow> 's room" where
  "took p s r = r\<lparr>resource := s, woken := woken r - {p}, takes := takes r + 1\<rparr>"

definition slept :: "nat \<Rightarrow> 's room \<Rightarrow> 's room" where
  "slept p r = r\<lparr>asleep := insert p (asleep r), woken := woken r - {p}\<rparr>"

definition gave :: "'s \<Rightarrow> 's room \<Rightarrow> 's room" where
  "gave s r = r\<lparr>resource := s, woken := woken r \<union> asleep r, asleep := {}, gives := gives r + 1\<rparr>"

text \<open>
  The steps: a process that does not wait calls, or one that was woken runs the loop again. The call \<open>free\<close>
  says which gives are possible in a state.
\<close>

inductive room_step ::
  "(nat \<Rightarrow> 's \<Rightarrow> 's option) \<Rightarrow> (nat \<Rightarrow> 's \<Rightarrow> 's option) \<Rightarrow> 's room \<Rightarrow> 's room \<Rightarrow> bool" for take_one free
where
  Take: "p \<notin> asleep r \<Longrightarrow> take_one p (resource r) = Some s \<Longrightarrow> room_step take_one free r (took p s r)"
| Sleep: "p \<notin> asleep r \<Longrightarrow> take_one p (resource r) = None \<Longrightarrow> room_step take_one free r (slept p r)"
| Give: "idle p r \<Longrightarrow> free p (resource r) = Some s \<Longrightarrow> room_step take_one free r (gave s r)"

inductive_cases room_stepE: "room_step take_one free r r'"

locale waiting_room =
  fixes take_one :: "nat \<Rightarrow> 's \<Rightarrow> 's option"
    and free :: "nat \<Rightarrow> 's \<Rightarrow> 's option"
    and units :: "'s \<Rightarrow> nat"
  assumes take_blocks: "take_one p s = None \<longleftrightarrow> units s = 0"
    and take_takes: "take_one p s = Some s' \<Longrightarrow> units s = Suc (units s')"
    and free_gives: "free p s = Some s' \<Longrightarrow> units s' = Suc (units s)"
begin

text \<open>No wake-up is lost: nobody sleeps while a unit is free; and the units add up.\<close>

definition room_ok :: "nat \<Rightarrow> 's room \<Rightarrow> bool" where
  "room_ok n r \<longleftrightarrow> units (resource r) + takes r = n + gives r \<and>
     (0 < units (resource r) \<longrightarrow> asleep r = {}) \<and> asleep r \<inter> woken r = {}"

lemma empty_room_ok: "room_ok (units s) (empty_room s)"
  by (simp add: room_ok_def empty_room_def)

lemma room_step_ok:
  assumes "room_step take_one free r r'" "room_ok n r"
  shows "room_ok n r'"
  using assms
proof cases
  case (Take p s)
  then have "units (resource r) = Suc (units s)" using take_takes by blast
  then show ?thesis using Take assms(2) by (auto simp: room_ok_def took_def)
next
  case (Sleep p)
  then have "units (resource r) = 0" using take_blocks by blast
  then show ?thesis using Sleep assms(2) by (auto simp: room_ok_def slept_def)
next
  case (Give p s)
  then have "units s = Suc (units (resource r))" using free_gives by blast
  then show ?thesis using Give assms(2) by (auto simp: room_ok_def gave_def)
qed

lemma room_run_ok: "(room_step take_one free)\<^sup>*\<^sup>* (empty_room s) r \<Longrightarrow> room_ok (units s) r"
  by (induction rule: rtranclp_induct) (auto intro: empty_room_ok room_step_ok)

text \<open>A process that was woken gets a unit as soon as it runs, if one is free.\<close>

lemma woken_proceeds:
  assumes "room_ok n r" "p \<in> woken r" "0 < units (resource r)"
  shows "\<exists>s. room_step take_one free r (took p s r) \<and> p \<notin> woken (took p s r) \<and> takes (took p s r) = takes r + 1"
proof -
  obtain s where "take_one p (resource r) = Some s" using take_blocks assms(3) by fastforce
  moreover have "p \<notin> asleep r" using assms(1,2) by (auto simp: room_ok_def)
  ultimately show ?thesis using room_step.Take [of p r take_one s free] by (auto simp: took_def)
qed

end

section \<open>Runs of the mutex\<close>

definition mutex_units :: "sc_mutex \<Rightarrow> nat" where
  "mutex_units m = (if mutex_in_use m then 0 else 1)"

definition mutex_free :: "nat \<Rightarrow> sc_mutex \<Rightarrow> sc_mutex option" where
  "mutex_free p m = (case mutex_unlock (Some p) m of (_, notified, m') \<Rightarrow> if notified then Some m' else None)"

interpretation mutex_room: waiting_room "\<lambda>p. mutex_loop (Some p)" mutex_free mutex_units
  by unfold_locales
    (auto simp: mutex_loop_def mutex_units_def mutex_in_use_def mutex_free_def mutex_unlock_def split: if_splits)

text \<open>
  The calls, with a ledger of the processes that hold the mutex as the results of their calls tell them.
\<close>

datatype mutex_op = Lock | Trylock | Unlock

fun mutex_call :: "mutex_op \<Rightarrow> nat \<Rightarrow> sc_mutex room \<times> nat set \<Rightarrow> sc_mutex room \<times> nat set" where
  "mutex_call Lock p (r, H) = (case mutex_lock (Some p) (resource r) of
       None \<Rightarrow> (slept p r, H)
     | Some m \<Rightarrow> if p \<in> H then (r\<lparr>resource := m\<rparr>, H) else (took p m r, insert p H))"
| "mutex_call Trylock p (r, H) = (case mutex_trylock (Some p) (resource r) of (c, m) \<Rightarrow>
     if c = 0 \<and> p \<notin> H then (took p m r, insert p H) else (r\<lparr>resource := m\<rparr>, H))"
| "mutex_call Unlock p (r, H) = (case mutex_unlock (Some p) (resource r) of (c, notified, m) \<Rightarrow>
     (if notified then gave m r else r\<lparr>resource := m\<rparr>, if c = 0 then H - {p} else H))"

fun mutex_resume :: "nat \<Rightarrow> sc_mutex room \<times> nat set \<Rightarrow> sc_mutex room \<times> nat set" where
  "mutex_resume p (r, H) = (case mutex_loop (Some p) (resource r) of
       None \<Rightarrow> (slept p r, H) | Some m \<Rightarrow> (took p m r, insert p H))"

inductive mutex_step :: "sc_mutex room \<times> nat set \<Rightarrow> sc_mutex room \<times> nat set \<Rightarrow> bool" where
  Call: "idle p (fst x) \<Longrightarrow> mutex_step x (mutex_call op p x)"
| Resume: "p \<in> woken (fst x) \<Longrightarrow> mutex_step x (mutex_resume p x)"

definition mutex_ok :: "sc_mutex room \<times> nat set \<Rightarrow> bool" where
  "mutex_ok = (\<lambda>(r, H). mutex_room.room_ok 1 r \<and> H = set_option (m_owner (resource r)) \<and>
     H \<inter> (asleep r \<union> woken r) = {})"

lemmas mutex_defs = mutex_lock_def mutex_trylock_def mutex_unlock_def mutex_loop_def mutex_in_use_def mutex_free_def

lemma owner_holds: "mutex_ok (r, H) \<Longrightarrow> p \<in> H \<longleftrightarrow> m_owner (resource r) = Some p"
  by (auto simp: mutex_ok_def)

text \<open>Every call is a step of the waiting room or changes nothing.\<close>

lemma mutex_call_room:
  assumes "mutex_ok (r, H)" "idle p r"
  shows "fst (mutex_call op p (r, H)) = r \<or>
    room_step (\<lambda>p. mutex_loop (Some p)) mutex_free r (fst (mutex_call op p (r, H)))"
proof (cases op)
  case Lock
  show ?thesis
  proof (cases "m_owner (resource r) = Some p")
    case False
    then show ?thesis using Lock assms(2) owner_holds [OF assms(1), of p]
      by (auto simp: mutex_lock_def idle_def split: option.split intro: room_step.intros)
  qed (use Lock owner_holds [OF assms(1), of p] in \<open>simp add: mutex_lock_def\<close>)
next
  case Trylock
  show ?thesis
  proof (cases "m_owner (resource r)")
    case None
    then show ?thesis using Trylock assms(2) owner_holds [OF assms(1), of p]
      by (auto simp: mutex_defs idle_def intro!: room_step.Take)
  next
    case (Some q)
    then show ?thesis using Trylock owner_holds [OF assms(1), of p] by (auto simp: mutex_defs)
  qed
next
  case Unlock
  then show ?thesis using assms(2) by (auto simp: mutex_defs intro!: room_step.Give [of p])
qed

lemma mutex_resume_room:
  assumes "mutex_ok (r, H)" "p \<in> woken r"
  shows "room_step (\<lambda>p. mutex_loop (Some p)) mutex_free r (fst (mutex_resume p (r, H)))"
proof -
  have "p \<notin> asleep r" using assms by (auto simp: mutex_ok_def mutex_room.room_ok_def)
  then show ?thesis by (auto split: option.split intro: room_step.intros)
qed

definition holders_ok :: "sc_mutex room \<times> nat set \<Rightarrow> bool" where
  "holders_ok = (\<lambda>(r, H). H = set_option (m_owner (resource r)) \<and> H \<inter> (asleep r \<union> woken r) = {})"

lemma mutex_ok_split: "mutex_ok x \<longleftrightarrow> mutex_room.room_ok 1 (fst x) \<and> holders_ok x"
  by (auto simp: mutex_ok_def holders_ok_def split: prod.split)

lemma holders_took: "idle p r \<or> p \<in> woken r \<Longrightarrow> H = {} \<Longrightarrow> asleep r \<inter> woken r = {} \<Longrightarrow> m_owner m = Some p \<Longrightarrow>
    holders_ok (took p m r, insert p H)"
  by (auto simp: holders_ok_def took_def idle_def)

lemma mutex_call_holders:
  assumes "holders_ok (r, H)" "asleep r \<inter> woken r = {}" "idle p r"
  shows "holders_ok (mutex_call op p (r, H))"
proof (cases "m_owner (resource r)")
  case None
  then have "H = {}" using assms(1) by (simp add: holders_ok_def)
  then show ?thesis using None assms holders_took [OF disjI1 [OF assms(3)] _ assms(2)]
    by (cases op) (simp_all add: mutex_defs)
next
  case (Some q)
  then have H: "H = {q}" "q \<notin> asleep r" "q \<notin> woken r" using assms(1) by (auto simp: holders_ok_def)
  show ?thesis
  proof (cases "p = q")
    case True
    then show ?thesis using Some H
      by (cases op) (simp_all add: mutex_defs holders_ok_def gave_def)
  next
    case False
    then show ?thesis using Some H
      by (cases op) (simp_all add: mutex_defs holders_ok_def slept_def)
  qed
qed

lemma mutex_resume_holders:
  assumes "holders_ok (r, H)" "asleep r \<inter> woken r = {}" "p \<in> woken r"
  shows "holders_ok (mutex_resume p (r, H))"
proof (cases "m_owner (resource r)")
  case None
  then have "H = {}" using assms(1) by (simp add: holders_ok_def)
  then show ?thesis using None holders_took [OF disjI2 [OF assms(3)] _ assms(2)] by (simp add: mutex_defs)
next
  case (Some q)
  then show ?thesis using assms by (auto simp: mutex_defs holders_ok_def slept_def)
qed

lemma mutex_step_ok: "mutex_step x y \<Longrightarrow> mutex_ok x \<Longrightarrow> mutex_ok y"
proof (induction rule: mutex_step.induct)
  case (Call p x op)
  obtain r H where x: "x = (r, H)" by fastforce
  have ok: "mutex_room.room_ok 1 r" "holders_ok (r, H)" using Call(2) x by (simp_all add: mutex_ok_split)
  then have "mutex_room.room_ok 1 (fst (mutex_call op p x))"
    using mutex_call_room [of r H p op] mutex_room.room_step_ok [of r _ 1] Call x by (metis fst_conv)
  moreover have "asleep r \<inter> woken r = {}" using ok(1) by (simp add: mutex_room.room_ok_def)
  ultimately show ?case using mutex_call_holders [OF ok(2)] Call(1) x unfolding mutex_ok_split by simp
next
  case (Resume p x)
  obtain r H where x: "x = (r, H)" by fastforce
  have ok: "mutex_room.room_ok 1 r" "holders_ok (r, H)" using Resume(2) x by (simp_all add: mutex_ok_split)
  then have "mutex_room.room_ok 1 (fst (mutex_resume p x))"
    using mutex_resume_room [of r H p] mutex_room.room_step_ok [of r _ 1] Resume x by (metis fst_conv)
  moreover have "asleep r \<inter> woken r = {}" using ok(1) by (simp add: mutex_room.room_ok_def)
  ultimately show ?case using mutex_resume_holders [OF ok(2)] Resume(1) x unfolding mutex_ok_split by simp
qed

lemma mutex_run_ok: "mutex_step\<^sup>*\<^sup>* (empty_room make_mutex, {}) x \<Longrightarrow> mutex_ok x"
proof (induction rule: rtranclp_induct)
  case base
  show ?case using mutex_room.empty_room_ok [of make_mutex]
    by (simp add: mutex_ok_def empty_room_def make_mutex_def mutex_units_def mutex_in_use_def)
qed (auto intro: mutex_step_ok)

section \<open>Runs of the semaphore\<close>

definition sem_units :: "sc_semaphore \<Rightarrow> nat" where
  "sem_units s = nat (sint (m_value s))"

text \<open>A post of a value that can be incremented.\<close>

definition sem_free :: "nat \<Rightarrow> sc_semaphore \<Rightarrow> sc_semaphore option" where
  "sem_free p s = (if 0 \<le> sint (m_value s) \<and> sint (m_value s) < 2 ^ 31 - 1
     then (case sem_post s of (_, _, s') \<Rightarrow> Some s') else None)"

lemma sint_decrement: "0 < sint v \<Longrightarrow> sint (v - 1) = sint v - 1" for v :: i32
  using sint_lt [of v] sint_range_size [of v] by (simp add: sint_word_ariths signed_take_bit_int_eq_self word_size)

lemma sint_increment: "0 \<le> sint v \<Longrightarrow> sint v < 2 ^ 31 - 1 \<Longrightarrow> sint (v + 1) = sint v + 1" for v :: i32
  by (simp add: sint_word_ariths signed_take_bit_int_eq_self)

interpretation sem_room: waiting_room "\<lambda>p. sem_wait" sem_free sem_units
  by unfold_locales
    (auto simp: sem_wait_def sem_in_use_def sem_units_def sem_free_def sem_post_def sint_decrement sint_increment
      split: if_splits)

datatype sem_op = Wait | Trywait | Post

fun sem_call :: "sem_op \<Rightarrow> nat \<Rightarrow> sc_semaphore room \<Rightarrow> sc_semaphore room" where
  "sem_call Wait p r = (case sem_wait (resource r) of None \<Rightarrow> slept p r | Some s \<Rightarrow> took p s r)"
| "sem_call Trywait p r = (case sem_trywait (resource r) of (c, s) \<Rightarrow>
     if c = 0 then took p s r else r\<lparr>resource := s\<rparr>)"
| "sem_call Post p r = (case sem_post (resource r) of (c, notified, s) \<Rightarrow>
     if notified then gave s r else r\<lparr>resource := s\<rparr>)"

inductive sem_step :: "sc_semaphore room \<Rightarrow> sc_semaphore room \<Rightarrow> bool" where
  Call: "idle p r \<Longrightarrow> (op = Post \<longrightarrow> sint (m_value (resource r)) < 2 ^ 31 - 1) \<Longrightarrow> sem_step r (sem_call op p r)"
| Resume: "p \<in> woken r \<Longrightarrow> sem_step r (sem_call Wait p r)"

definition sem_ok :: "nat \<Rightarrow> sc_semaphore room \<Rightarrow> bool" where
  "sem_ok n r \<longleftrightarrow> sem_room.room_ok n r \<and> 0 \<le> sint (m_value (resource r))"

lemma sem_call_room:
  assumes "sem_ok n r" "idle p r" "op = Post \<longrightarrow> sint (m_value (resource r)) < 2 ^ 31 - 1"
  shows "sem_call op p r = r \<or> room_step (\<lambda>p. sem_wait) sem_free r (sem_call op p r)"
proof (cases op)
  case Wait
  then show ?thesis using assms(2)
    by (auto simp: idle_def split: option.split intro: room_step.intros)
next
  case Trywait
  then show ?thesis using assms(2)
    by (auto simp: idle_def sem_trywait_def sem_wait_def intro!: room_step.Take)
next
  case Post
  then have "sem_free p (resource r) = Some (snd (snd (sem_post (resource r))))"
    using assms by (simp add: sem_free_def sem_ok_def sem_post_def)
  then show ?thesis using Post room_step.Give [OF assms(2), of sem_free _ "\<lambda>p. sem_wait"]
    by (simp add: sem_post_def)
qed

lemma sem_call_value:
  assumes "sem_ok n r" "op = Post \<longrightarrow> sint (m_value (resource r)) < 2 ^ 31 - 1"
  shows "0 \<le> sint (m_value (resource (sem_call op p r)))"
  using assms
  by (cases op) (auto simp: sem_ok_def sem_wait_def sem_in_use_def sem_trywait_def sem_post_def took_def slept_def
      gave_def sint_decrement sint_increment)

lemma sem_step_ok: "sem_step r r' \<Longrightarrow> sem_ok n r \<Longrightarrow> sem_ok n r'"
proof (induction rule: sem_step.induct)
  case (Call p r op)
  then show ?case using sem_call_room [of n r p op] sem_call_value [of n r op p] sem_room.room_step_ok
    by (auto simp: sem_ok_def)
next
  case (Resume p r)
  have "p \<notin> asleep r" using Resume by (auto simp: sem_ok_def sem_room.room_ok_def)
  then have "room_step (\<lambda>p. sem_wait) sem_free r (sem_call Wait p r)"
    by (auto split: option.split intro: room_step.intros)
  then show ?case using sem_room.room_step_ok [of r "sem_call Wait p r" n] sem_call_value [of n r Wait p] Resume
    by (simp add: sem_ok_def)
qed

lemma sem_run_ok:
  assumes "make_semaphore v = Inr s" "sem_step\<^sup>*\<^sup>* (empty_room s) r"
  shows "sem_ok (nat (sint v)) r"
  using assms(2)
proof (induction rule: rtranclp_induct)
  case base
  show ?case using sem_room.empty_room_ok [of s] assms(1)
    by (auto simp: sem_ok_def empty_room_def sem_units_def make_semaphore_def split: if_splits)
qed (auto intro: sem_step_ok)

end
