(* ===== verification/Sc_Clock.thy ===== *)
theory Sc_Clock
  imports Complex_Main Sc_Event_Facts Sc_Signal
begin

text \<open>
  \<open>sysc/communication/sc_clock.cpp\<close>, \<open>sc_clock.h\<close>: the clock, a boolean signal with two methods of its
  own. Each method is sensitive to one of two events, sets the signal and notifies the other event for the
  next edge.
\<close>

section \<open>State\<close>

text \<open>The duty cycle is a \<open>double\<close>, here the rational number it stands for.\<close>

record sc_clock =
  clk_signal :: "bool signal"
  m_period :: sc_time
  m_duty_cycle :: rat
  m_start_time :: sc_time
  m_posedge_first :: bool
  m_posedge_time :: sc_time
  m_negedge_time :: sc_time
  m_next_posedge_event :: nat
  m_next_negedge_event :: nat

section \<open>Construction\<close>

text \<open>
  \<open>scale\<close> stands for the product of a time and a \<open>double\<close>, which is rounded to a whole number of ticks.
  The low time is what the high time leaves of the period.
\<close>

definition clock_init ::
  "(sc_time \<Rightarrow> rat \<Rightarrow> sc_time) \<Rightarrow> sc_time \<Rightarrow> rat \<Rightarrow> sc_time \<Rightarrow> bool \<Rightarrow> sc_clock \<Rightarrow> sc_clock result"
where
  "clock_init scale period duty start posedge_first c =
     (if period = 0 then Inl Sc_report_error
      else let duty1 = (if duty \<le> 0 \<or> duty \<ge> 1 then 1 / 2 else duty);
               negedge_time = scale period duty1;
               posedge_time = period - negedge_time
           in if negedge_time = 0 then Inl Sc_report_error
              else if posedge_time = 0 then Inl Sc_report_error
              else Inr (c\<lparr>m_period := period, m_posedge_first := posedge_first, m_duty_cycle := duty1,
                     m_negedge_time := negedge_time, m_posedge_time := posedge_time,
                     clk_signal := (clk_signal c)\<lparr>m_cur_val := \<not> posedge_first, m_new_val := \<not> posedge_first\<rparr>,
                     m_start_time := start\<rparr>))"

definition blank_clock :: "nat \<Rightarrow> nat \<Rightarrow> sc_clock" where
  "blank_clock pos neg = \<lparr>clk_signal = make_signal False, m_period = 0, m_duty_cycle = 0, m_start_time = 0,
     m_posedge_first = False, m_posedge_time = 0, m_negedge_time = 0, m_next_posedge_event = pos,
     m_next_negedge_event = neg\<rparr>"

text \<open>The constructors differ in how they compute the times; all of them notify the first edge.\<close>

definition make_clock ::
  "(sc_time \<Rightarrow> rat \<Rightarrow> sc_time) \<Rightarrow> sc_time \<Rightarrow> rat \<Rightarrow> sc_time \<Rightarrow> bool \<Rightarrow> nat \<Rightarrow> nat \<Rightarrow> notifier \<Rightarrow>
    (sc_clock \<times> notifier) result"
where
  "make_clock scale period duty start posedge_first pos neg s =
     bind_result (clock_init scale period duty start posedge_first (blank_clock pos neg)) (\<lambda>c.
       bind_result (notify_internal (m_start_time c)
           (if posedge_first then m_next_posedge_event c else m_next_negedge_event c) s) (\<lambda>s1. Inr (c, s1)))"

definition clock_write :: "bool \<Rightarrow> sc_clock \<Rightarrow> sc_clock result" where
  "clock_write v c = Inl Sc_report_error"

section \<open>Edges\<close>

definition clock_value :: "bool \<Rightarrow> sc_clock \<Rightarrow> sc_clock" where
  "clock_value v c = c\<lparr>clk_signal := (clk_signal c)\<lparr>m_new_val := v, sig_requested := True\<rparr>\<rparr>"

definition posedge_action :: "sc_clock \<times> notifier \<Rightarrow> (sc_clock \<times> notifier) result" where
  "posedge_action = (\<lambda>(c, s). bind_result (notify_internal (m_negedge_time c) (m_next_negedge_event c) s)
     (\<lambda>s1. Inr (clock_value True c, s1)))"

definition negedge_action :: "sc_clock \<times> notifier \<Rightarrow> (sc_clock \<times> notifier) result" where
  "negedge_action = (\<lambda>(c, s). bind_result (notify_internal (m_posedge_time c) (m_next_posedge_event c) s)
     (\<lambda>s1. Inr (clock_value False c, s1)))"

section \<open>Runs\<close>

text \<open>
  A run: the clock among the events of the simulation, and the edges so far, each with its time and its
  direction. \<open>comes e t s\<close>: the notification of \<open>e\<close> falls due at the time \<open>t\<close>.
\<close>

type_synonym clock_run = "sc_clock \<times> notifier \<times> (sc_time \<times> bool) list"

definition comes :: "nat \<Rightarrow> sc_time \<Rightarrow> notifier \<Rightarrow> bool" where
  "comes e t s \<longleftrightarrow> pending s e = At t \<or> pending s e = Next_delta \<and> t = m_curr_time s"

definition fired :: "nat \<Rightarrow> sc_time \<Rightarrow> notifier \<Rightarrow> notifier \<Rightarrow> nat \<Rightarrow> bool" where
  "fired e t s s' other \<longleftrightarrow> comes e t s \<and> notifier_ok s' \<and> m_curr_time s' = t \<and>
     pending s' e = Idle \<and> pending s' other = pending s other"

text \<open>
  The steps: one of the two events is triggered and its method runs, the signal is updated, or other parts
  of the simulation act and time advances, but not beyond a pending edge.
\<close>

inductive clock_step :: "clock_run \<Rightarrow> clock_run \<Rightarrow> bool" where
  Pos: "fired (m_next_posedge_event c) t s s1 (m_next_negedge_event c) \<Longrightarrow> posedge_action (c, s1) = Inr (c', s') \<Longrightarrow>
    clock_step (c, s, es) (c', s', es @ [(t, True)])"
| Neg: "fired (m_next_negedge_event c) t s s1 (m_next_posedge_event c) \<Longrightarrow> negedge_action (c, s1) = Inr (c', s') \<Longrightarrow>
    clock_step (c, s, es) (c', s', es @ [(t, False)])"
| Update: "clock_step (c, s, es) (c\<lparr>clk_signal := snd (bool_update SC_ONE_WRITER stamp (clk_signal c))\<rparr>, s, es)"
| Others: "notifier_ok s' \<Longrightarrow> pending s' (m_next_posedge_event c) = pending s (m_next_posedge_event c) \<Longrightarrow>
    pending s' (m_next_negedge_event c) = pending s (m_next_negedge_event c) \<Longrightarrow>
    (pending s (m_next_posedge_event c) = Next_delta \<or> pending s (m_next_negedge_event c) = Next_delta \<longrightarrow>
      m_curr_time s' = m_curr_time s) \<Longrightarrow>
    (\<forall>u. pending s (m_next_posedge_event c) = At u \<or> pending s (m_next_negedge_event c) = At u \<longrightarrow>
      m_curr_time s' \<le> u) \<Longrightarrow>
    clock_step (c, s, es) (c, s', es)"

section \<open>The edges of a clock\<close>

definition high_at :: "bool \<Rightarrow> nat \<Rightarrow> bool" where
  "high_at posedge_first n = (posedge_first = even n)"

text \<open>The time and the direction of the edge \<open>n\<close>, from 0 on; the times are modulo \<open>2 ^ 64\<close>.\<close>

definition clock_edge :: "sc_time \<Rightarrow> sc_time \<Rightarrow> sc_time \<Rightarrow> bool \<Rightarrow> nat \<Rightarrow> sc_time \<times> bool" where
  "clock_edge period high start posedge_first n =
     (start + of_nat (n div 2) * period +
        (if even n then 0 else if posedge_first then high else period - high),
      high_at posedge_first n)"

definition clock_wf :: "sc_clock \<Rightarrow> bool" where
  "clock_wf c \<longleftrightarrow> m_posedge_time c + m_negedge_time c = m_period c \<and> m_posedge_time c \<noteq> 0 \<and>
     m_negedge_time c \<noteq> 0 \<and> m_next_posedge_event c \<noteq> m_next_negedge_event c"

definition edge_of :: "sc_clock \<Rightarrow> nat \<Rightarrow> sc_time \<times> bool" where
  "edge_of c = clock_edge (m_period c) (m_negedge_time c) (m_start_time c) (m_posedge_first c)"

definition next_event :: "sc_clock \<Rightarrow> bool \<Rightarrow> nat" where
  "next_event c v = (if v then m_next_posedge_event c else m_next_negedge_event c)"

definition clock_ok :: "clock_run \<Rightarrow> bool" where
  "clock_ok = (\<lambda>(c, s, es). clock_wf c \<and> notifier_ok s \<and> es = map (edge_of c) [0..<length es] \<and>
     (let (t, v) = edge_of c (length es)
      in comes (next_event c v) t s \<and> pending s (next_event c (\<not> v)) = Idle \<and> m_new_val (clk_signal c) = (\<not> v)))"

lemma edge_Suc:
  assumes "clock_wf c" "edge_of c n = (t, v)"
  shows "edge_of c (Suc n) = (t + (if v then m_negedge_time c else m_posedge_time c), \<not> v)"
proof -
  have p: "m_period c = m_posedge_time c + m_negedge_time c" using assms(1) by (simp add: clock_wf_def)
  show ?thesis
  proof (cases "even n")
    case True
    then obtain k where "n = 2 * k" by (rule evenE)
    then show ?thesis using assms(2) by (auto simp: edge_of_def clock_edge_def high_at_def p)
  next
    case False
    then obtain k where "n = 2 * k + 1" by (rule oddE)
    then show ?thesis using assms(2)
      by (auto simp: edge_of_def clock_edge_def high_at_def p distrib_right add.assoc)
  qed
qed

lemma notify_next:
  assumes "notifier_ok s" "pending s e = Idle" "d \<noteq> 0"
  obtains s' where "notify_internal d e s = Inr s'" "notifier_ok s'" "pending s' = (pending s)(e := At (m_curr_time s + d))"
  using notify_internal_achieves [OF assms(1), of e d] assms(2,3)
  by (auto simp: achieves_def ntype_Idle requested_def)

text \<open>The method of the next edge runs and notifies the one after it.\<close>

definition run_edge :: "bool \<Rightarrow> sc_clock \<times> notifier \<Rightarrow> (sc_clock \<times> notifier) result" where
  "run_edge v = (if v then posedge_action else negedge_action)"

lemma run_edge_ok:
  assumes ok: "clock_ok (c, s, es)" and n: "edge_of c (length es) = (t, v)"
    and f: "fired (next_event c v) u s s1 (next_event c (\<not> v))"
  obtains s' where "run_edge v (c, s1) = Inr (clock_value v c, s')" "clock_ok (clock_value v c, s', es @ [(u, v)])" "u = t"
proof -
  have wf: "clock_wf c" using ok by (simp add: clock_ok_def)
  let ?d = "if v then m_negedge_time c else m_posedge_time c"
  have cm: "comes (next_event c v) t s" "pending s (next_event c (\<not> v)) = Idle"
    using ok n by (simp_all add: clock_ok_def)
  then have ut: "u = t" using f by (auto simp: fired_def comes_def)
  obtain s' where s': "notify_internal ?d (next_event c (\<not> v)) s1 = Inr s'" "notifier_ok s'"
    "pending s' = (pending s1)(next_event c (\<not> v) := At (m_curr_time s1 + ?d))"
  proof (rule notify_next)
    show "notifier_ok s1" "pending s1 (next_event c (\<not> v)) = Idle" using f cm(2) by (simp_all add: fired_def)
    show "?d \<noteq> 0" using wf by (simp add: clock_wf_def)
  qed
  have neq: "next_event c v \<noteq> next_event c (\<not> v)" using wf by (auto simp: clock_wf_def next_event_def)
  have run: "run_edge v (c, s1) = Inr (clock_value v c, s')"
    using s'(1) by (cases v) (simp_all add: run_edge_def posedge_action_def negedge_action_def next_event_def)
  have same: "edge_of (clock_value v c) = edge_of c" "clock_wf (clock_value v c) = clock_wf c"
    "next_event (clock_value v c) = next_event c" "m_new_val (clk_signal (clock_value v c)) = v"
    by (simp_all add: edge_of_def clock_wf_def next_event_def clock_value_def fun_eq_iff)
  have "es @ [(u, v)] = map (edge_of c) [0..<Suc (length es)]" using ok n ut by (simp add: clock_ok_def)
  moreover have "pending s' (next_event c v) = Idle" using s'(3) f neq by (simp add: fired_def)
  moreover have "comes (next_event c (\<not> v)) (t + ?d) s'" using s'(3) f ut by (simp add: comes_def fired_def)
  ultimately have "clock_ok (clock_value v c, s', es @ [(u, v)])"
    using wf s'(2) edge_Suc [OF wf n] by (simp add: clock_ok_def same)
  then show thesis using that run ut by blast
qed

lemma clock_direction:
  assumes "clock_ok (c, s, es)" "fired (next_event c v) u s s1 (next_event c (\<not> v))"
  shows "\<exists>t. edge_of c (length es) = (t, v)"
proof -
  obtain t w where n: "edge_of c (length es) = (t, w)" by fastforce
  have "w = v"
  proof (rule ccontr)
    assume "w \<noteq> v"
    then have "pending s (next_event c v) = Idle" using assms(1) n by (auto simp: clock_ok_def)
    then show False using assms(2) by (simp add: fired_def comes_def)
  qed
  then show ?thesis using n by blast
qed

lemma clock_step_ok: "clock_step x y \<Longrightarrow> clock_ok x \<Longrightarrow> clock_ok y"
proof (induction rule: clock_step.induct)
  case (Pos c t s s1 c' s' es)
  have f: "fired (next_event c True) t s s1 (next_event c (\<not> True))" using Pos(1) by (simp add: next_event_def)
  obtain u where u: "edge_of c (length es) = (u, True)" using clock_direction [OF Pos(3) f] by blast
  show ?case using run_edge_ok [OF Pos(3) u f] Pos(2) by (auto simp: run_edge_def)
next
  case (Neg c t s s1 c' s' es)
  have f: "fired (next_event c False) t s s1 (next_event c (\<not> False))" using Neg(1) by (simp add: next_event_def)
  obtain u where u: "edge_of c (length es) = (u, False)" using clock_direction [OF Neg(3) f] by blast
  show ?case using run_edge_ok [OF Neg(3) u f] Neg(2) by (auto simp: run_edge_def)
next
  case (Update c s es stamp)
  let ?c = "c\<lparr>clk_signal := snd (bool_update SC_ONE_WRITER stamp (clk_signal c))\<rparr>"
  have "edge_of ?c = edge_of c" "clock_wf ?c = clock_wf c" "next_event ?c = next_event c"
    "m_new_val (clk_signal ?c) = m_new_val (clk_signal c)"
    by (simp_all add: edge_of_def clock_wf_def next_event_def fun_eq_iff bool_update_def policy_update_def Let_def)
  then show ?case using Update by (simp add: clock_ok_def)
next
  case (Others s' c s es)
  obtain t v where n: "edge_of c (length es) = (t, v)" by fastforce
  have ok: "comes (next_event c v) t s" "pending s (next_event c (\<not> v)) = Idle" using Others(6) n
    by (simp_all add: clock_ok_def)
  have p: "pending s' (next_event c w) = pending s (next_event c w)" for w
    using Others(2,3) by (simp add: next_event_def)
  have "comes (next_event c v) t s'"
    using ok(1) p [of v] Others(4) by (auto simp: comes_def next_event_def split: if_splits)
  then show ?case using Others(1,6) n ok(2) p by (simp add: clock_ok_def)
qed

lemma make_clock_ok:
  assumes "notifier_ok s" "pending s pos = Idle" "pending s neg = Idle" "pos \<noteq> neg" "m_curr_time s = 0"
    and make: "make_clock scale period duty start posedge_first pos neg s = Inr (c, s1)"
  shows "clock_ok (c, s1, []) \<and> m_period c = period \<and> m_start_time c = start \<and> m_posedge_first c = posedge_first \<and>
    m_negedge_time c = scale period (if duty \<le> 0 \<or> duty \<ge> 1 then 1 / 2 else duty)"
proof -
  obtain c0 where c0: "clock_init scale period duty start posedge_first (blank_clock pos neg) = Inr c0"
    "notify_internal (m_start_time c0) (next_event c0 posedge_first) s = Inr s1" "c0 = c"
    using make by (auto simp: make_clock_def bind_result_eq_Inr next_event_def)
  have c: "m_next_posedge_event c = pos" "m_next_negedge_event c = neg" "m_start_time c = start" "m_period c = period"
    "m_posedge_first c = posedge_first" "clock_wf c" "m_new_val (clk_signal c) = (\<not> posedge_first)"
    "m_negedge_time c = scale period (if duty \<le> 0 \<or> duty \<ge> 1 then 1 / 2 else duty)"
    using c0(1,3) assms(4) by (auto simp: clock_init_def blank_clock_def clock_wf_def Let_def split: if_splits)
  let ?e = "next_event c posedge_first"
  have e: "ntype s ?e = NONE" "next_event c (\<not> posedge_first) \<noteq> ?e" "pending s (next_event c (\<not> posedge_first)) = Idle"
    using assms(2-4) c by (auto simp: next_event_def simp flip: ntype_Idle)
  have a: "achieves s (Inr s1) ((pending s)(?e := requested start s))"
    using notify_internal_achieves [OF assms(1) e(1), of start] c0 c by simp
  then have s1: "notifier_ok s1" "pending s1 = (pending s)(?e := requested start s)" "m_curr_time s1 = 0"
    using assms(5) by (auto simp: achieves_def kept_def)
  have "edge_of c 0 = (start, posedge_first)" using c by (simp add: edge_of_def clock_edge_def high_at_def)
  moreover have "comes ?e start s1" using s1 assms(5) by (simp add: comes_def requested_def)
  ultimately show ?thesis using c s1 e by (simp add: clock_ok_def)
qed

lemma clock_run_ok: "clock_step\<^sup>*\<^sup>* x y \<Longrightarrow> clock_ok x \<Longrightarrow> clock_ok y"
  by (induction rule: rtranclp_induct) (auto intro: clock_step_ok)

text \<open>The settings of a clock never change.\<close>

definition settings :: "sc_clock \<Rightarrow> sc_time \<times> sc_time \<times> sc_time \<times> bool" where
  "settings c = (m_period c, m_negedge_time c, m_start_time c, m_posedge_first c)"

lemma clock_step_settings: "clock_step x y \<Longrightarrow> settings (fst y) = settings (fst x)"
  by (induction rule: clock_step.induct)
    (auto simp: settings_def posedge_action_def negedge_action_def clock_value_def bind_result_eq_Inr)

lemma clock_run_settings: "clock_step\<^sup>*\<^sup>* x y \<Longrightarrow> settings (fst y) = settings (fst x)"
  by (induction rule: rtranclp_induct) (auto simp: clock_step_settings)

end
