(* ===== verification/Sync_Properties.thy ===== *)
theory Sync_Properties
  imports Sc_Event_Queue Sc_Resolved Sc_Locks Sc_Clock
begin

text \<open>
  Properties of the channels that synchronise processes: the event queue, the resolved signal, the mutex
  and the semaphore, and the clock.
\<close>

section \<open>Event queue\<close>

text \<open>
  What the guard of the step \<open>Ask\<close> excludes: after \<open>cancel_all\<close> while \<open>fire_event\<close> is due, \<open>fire_event\<close> takes a
  notification that was made since for the one that has fired, and its assertion fails.
\<close>
lemma notify_after_cancel_asserts:
  assumes "eq_reachable e r" "r_fired r" "ppq_empty (m_ppq (r_queue r))" "when \<noteq> 0"
  shows "\<exists>x. eq_notify stamp when (r_queue r, r_kernel r) = Inr x \<and> fire_event x = Inl Assert_failed"
proof -
  let ?q = "r_queue r" and ?s = "r_kernel r" and ?t = "when + m_curr_time (r_kernel r)"
  have ok: "notifier_ok ?s" "ppq_ok sc_time_compare (m_ppq ?q)"
    using eq_reachable_ok [OF assms(1)] by (simp_all add: eq_ok_def)
  have empty: "ppq_size (m_ppq ?q) = 0" "ppq_elems (m_ppq ?q) = {#}"
    using assms(3) ppq_size_0 [OF ok(2)] by (simp_all add: ppq_empty_def ppq_size_def)
  obtain h where h: "ppq_insert sc_time_compare ?t (m_ppq ?q) = Inr h" "ppq_ok sc_time_compare h" "ppq_elems h = {#?t#}"
    using time_queue.insert_law [OF ok(2)] empty by auto
  obtain s' where s': "notify_in when (m_e ?q) ?s = Inr s'" "m_curr_time s' = m_curr_time ?s"
    using notify_in_achieves [OF ok(1), of "when" "m_e ?q"] by (auto simp: achieves_def kept_def)
  obtain h' where h': "extract_top sc_time_compare h = Inr (?t, h')"
    using time_queue.extract_law [OF h(2)] h(3) by auto
  have "\<not> ppq_empty h" using ppq_size_0 [OF h(2)] h(3) by (simp add: ppq_empty_def ppq_size_def)
  then show ?thesis using empty h(1) h' s' assms(4)
    by (auto simp: eq_notify_def fire_event_def Let_def)
qed

text \<open>
  C29: The runs are those in which no client notifies the queue between a \<open>cancel_all\<close> and a run of \<open>fire_event\<close>
  that is still due. In them no operation faults, the assertion of \<open>fire_event\<close> included; the times asked for
  and not cancelled are those at which the event was triggered, each as often as asked, and those still to
  come; and while some are to come and \<open>fire_event\<close> is not due, the event is notified for the earliest. The
  restriction is needed: a notification for a later time in that situation is accepted, and the \<open>fire_event\<close>
  that is due then fails its assertion.
\<close>

theorem event_queue_exact:
  assumes "eq_reachable e r"
  shows "r_asked r = mset (r_seen r) + outstanding r \<and>
    (\<forall>when stamp. in_range (eq_now r) when \<and> \<not> (r_fired r \<and> ppq_empty (m_ppq (r_queue r))) \<longrightarrow>
      (\<exists>x. eq_notify stamp when (r_queue r, r_kernel r) = Inr x)) \<and>
    (\<exists>x. cancel_all (r_queue r, r_kernel r) = Inr x) \<and>
    (r_fired r \<longrightarrow> (\<exists>x. fire_event (r_queue r, r_kernel r) = Inr x)) \<and>
    (\<not> r_fired r \<longrightarrow> due (eq_now r) (outstanding r) (eq_pending r)) \<and>
    (\<forall>when stamp. r_fired r \<and> ppq_empty (m_ppq (r_queue r)) \<and> when \<noteq> 0 \<longrightarrow>
      (\<exists>x. eq_notify stamp when (r_queue r, r_kernel r) = Inr x \<and> fire_event x = Inl Assert_failed))"
proof -
  have ok: "eq_ok r" using eq_reachable_ok [OF assms] .
  have "\<exists>x. eq_notify stamp when (r_queue r, r_kernel r) = Inr x"
    if "in_range (eq_now r) when" "\<not> (r_fired r \<and> ppq_empty (m_ppq (r_queue r)))" for "when" stamp
    by (rule notify_ok [OF ok that, of stamp]) blast
  moreover have "\<exists>x. cancel_all (r_queue r, r_kernel r) = Inr x" by (rule cancel_all_ok [OF ok]) blast
  moreover have "\<exists>x. fire_event (r_queue r, r_kernel r) = Inr x" if "r_fired r"
    by (rule fire_event_ok [OF ok that]) blast
  moreover have "\<exists>x. eq_notify stamp when (r_queue r, r_kernel r) = Inr x \<and> fire_event x = Inl Assert_failed"
    if "r_fired r" "ppq_empty (m_ppq (r_queue r))" "when \<noteq> 0" for "when" stamp
    by (rule notify_after_cancel_asserts [OF assms that])
  ultimately show ?thesis using ok by (auto simp: eq_ok_def outstanding_def)
qed

text \<open>A run: one notification after 5 ticks, which has just triggered the event.\<close>

lemma pending_init: "pending (init_notifier\<lparr>m_curr_time := t\<rparr>) e = Idle"
  by (simp add: pending_def init_notifier_def new_event_def)

lemma one_notification:
  obtains r where "eq_reachable e r" "r_fired r" "r_seen r = [5]" "r_asked r = {#5#}" "eq_now r = 5"
proof -
  let ?r = "start_run e"
  have ok: "eq_ok ?r" using start_run_ok .
  have now: "eq_now ?r = 0" by (simp add: eq_now_def start_run_def init_notifier_def)
  have g: "in_range (eq_now ?r) 5" "\<not> (r_fired ?r \<and> ppq_empty (m_ppq (r_queue ?r)))"
    unfolding now by (simp_all add: in_range_def) (simp add: start_run_def)
  obtain q s where n: "eq_notify 0 5 (r_queue ?r, r_kernel ?r) = Inr (q, s)"
    using notify_ok [OF ok g, of 0] by metis
  let ?r1 = "?r\<lparr>r_queue := q, r_kernel := s, r_asked := add_mset (eq_now ?r + 5) (r_asked ?r)\<rparr>"
  have r1: "eq_reachable e ?r1" using eq_reachable.step [OF eq_reachable.start eq_step.Ask [OF g n]] .
  then have o1: "eq_ok ?r1" using eq_reachable_ok by blast
  have f1: "\<not> r_fired ?r1" "r_seen ?r1 = []" "r_asked ?r1 = {#5#}" by (simp_all add: now) (simp_all add: start_run_def)
  have t1: "eq_times ?r1 = {#5#}" using o1 f1 by (simp add: eq_ok_def outstanding_def)
  obtain q' s' where n': "eq_notify 0 5 (r_queue ?r, r_kernel ?r) = Inr (q', s')" "m_curr_time s' = eq_now ?r"
    using notify_ok [OF ok g, of 0] by metis
  have now1: "eq_now ?r1 = 0" using n n' now by (simp add: eq_now_def)
  have p1: "eq_pending ?r1 = At 5" using o1 f1(1) t1 now1 by (simp add: eq_ok_def due_def at_least_def)
  have "eq_reachable e (?r1\<lparr>r_kernel := init_notifier\<lparr>m_curr_time := 5\<rparr>, r_fired := True, r_seen := r_seen ?r1 @ [5]\<rparr>)"
    by (rule eq_reachable.step [OF r1 eq_step.Time [OF f1(1) p1]])
      (simp_all add: notifier_ok_time init_notifier_ok pending_init)
  then show thesis using that f1 by (simp add: eq_now_def)
qed

lemma cancelled_run:
  obtains r where "eq_reachable 0 r" "r_fired r" "ppq_empty (m_ppq (r_queue r))"
proof -
  obtain r where r: "eq_reachable 0 r" "r_fired r" using one_notification by metis
  obtain q s where c: "cancel_all (r_queue r, r_kernel r) = Inr (q, s)" "ppq_ok sc_time_compare (m_ppq q)"
    "ppq_elems (m_ppq q) = {#}" using cancel_all_ok [OF eq_reachable_ok [OF r(1)]] by metis
  let ?r = "r\<lparr>r_queue := q, r_kernel := s, r_asked := mset (r_seen r)\<rparr>"
  have "eq_reachable 0 ?r" using eq_reachable.step [OF r(1) eq_step.Cancel [OF c(1)]] .
  moreover have "ppq_empty (m_ppq (r_queue ?r))" using ppq_size_0 [OF c(2)] c(3) by (simp add: ppq_empty_def ppq_size_def)
  ultimately show thesis using that r(2) by auto
qed

theorem event_queue_exact_witness:
  "(\<exists>r. eq_reachable 0 r \<and> r_fired r \<and> r_asked r = {#5#} \<and> r_seen r = [5] \<and> outstanding r = {#} \<and>
    (\<exists>x. fire_event (r_queue r, r_kernel r) = Inr x)) \<and>
   (\<exists>r x. eq_reachable 0 r \<and> eq_notify 0 3 (r_queue r, r_kernel r) = Inr x \<and> fire_event x = Inl Assert_failed)"
proof
  obtain r where r: "eq_reachable 0 r" "r_fired r" "r_seen r = [5]" "r_asked r = {#5#}"
    using one_notification by metis
  show "\<exists>r. eq_reachable 0 r \<and> r_fired r \<and> r_asked r = {#5#} \<and> r_seen r = [5] \<and> outstanding r = {#} \<and>
    (\<exists>x. fire_event (r_queue r, r_kernel r) = Inr x)" using event_queue_exact [OF r(1)] r by auto
  obtain r where c: "eq_reachable 0 r" "r_fired r" "ppq_empty (m_ppq (r_queue r))" by (rule cancelled_run)
  have "(3 :: sc_time) \<noteq> 0" by simp
  then show "\<exists>r x. eq_reachable 0 r \<and> eq_notify 0 3 (r_queue r, r_kernel r) = Inr x \<and> fire_event x = Inl Assert_failed"
    using event_queue_exact [OF c(1)] c by blast
qed

section \<open>Resolved signal\<close>

text \<open>
  C32: Whatever processes write and whenever the updates run, nothing faults, and when no update is to come the
  value of a resolved signal is the resolution of the values last written by each process that ever wrote
  it: the value on which all that drive it agree, \<open>X\<close> if they do not or one is \<open>X\<close>, and \<open>Z\<close> if none
  drives. It depends neither on the order of the writes nor on that of the drivers.
\<close>
theorem resolved_signal_value:
  "\<exists>s. for_each exec_rs cs make_resolved = Inr s \<and>
    (let d = fold drive cs Map.empty
     in \<not> sig_requested (rs_base s) \<longrightarrow>
          m_cur_val (rs_base s) = (if d = Map.empty then Log_X else resolution (ran d)))"
proof -
  obtain s where s: "for_each exec_rs cs make_resolved = Inr s" "resolved_ok (fold drive cs Map.empty) s"
    using exec_rs_run [OF make_resolved_ok] by blast
  have "fold drive cs Map.empty = Map.empty \<longleftrightarrow> m_val_vec s = []"
    using resolved_ok_ran [OF s(2)] by (auto simp: ran_def fun_eq_iff) (metis not_None_eq)
  then show ?thesis using s resolved_ok_ran [OF s(2)] by (auto simp: resolved_ok_def Let_def)
qed

theorem resolved_signal_value_witness:
  "\<exists>s. for_each exec_rs [Rs_write (Some 1) Log_0, Rs_write (Some 2) Log_Z, Rs_update 7] make_resolved = Inr s \<and>
    m_cur_val (rs_base s) = Log_0"
proof -
  let ?cs = "[Rs_write (Some 1) Log_0, Rs_write (Some 2) Log_Z, Rs_update 7]"
  have "\<exists>s. for_each exec_rs ?cs make_resolved = Inr s \<and> \<not> sig_requested (rs_base s)"
    by (simp add: make_resolved_def make_signal_def resolved_write_def resolved_phase_def resolved_update_def rs_request_def
        sc_logic_resolve_def resolve_two_def sc_logic_resolution_tbl_def signal_update_def policy_update_def Let_def
        numeral_eq_Suc)
  then show ?thesis using resolved_signal_value [of ?cs] by (auto simp: Let_def ran_def resolution_def fun_eq_iff)
qed

section \<open>Mutex and semaphore\<close>

text \<open>
  C30: Whatever processes call, and in whatever order the woken ones run: at most one process holds the mutex,
  as the results of its calls tell it, and it is the owner; it does not wait for the mutex; no wake-up is
  lost, that is no process sleeps while the mutex is free; and a woken process that finds it free gets it.
\<close>
theorem mutex_exclusive:
  assumes "mutex_step\<^sup>*\<^sup>* (empty_room make_mutex, {}) (r, H)"
  shows "(\<forall>p\<in>H. \<forall>q\<in>H. p = q) \<and> (\<forall>p. p \<in> H \<longleftrightarrow> m_owner (resource r) = Some p) \<and>
    H \<inter> (asleep r \<union> woken r) = {} \<and> (H = {} \<longrightarrow> asleep r = {}) \<and> takes r = gives r + card H \<and>
    (\<forall>p\<in>woken r. H = {} \<longrightarrow> snd (mutex_resume p (r, H)) = {p})"
proof -
  have ok: "mutex_ok (r, H)" using mutex_run_ok [OF assms] .
  then have room: "mutex_room.room_ok 1 r" "H = set_option (m_owner (resource r))" by (simp_all add: mutex_ok_def)
  have "H = {} \<longleftrightarrow> mutex_units (resource r) = 1"
    using room(2) by (cases "m_owner (resource r)") (simp_all add: mutex_units_def mutex_in_use_def)
  moreover have "mutex_units (resource r) + card H = 1"
    using room(2) by (cases "m_owner (resource r)") (simp_all add: mutex_units_def mutex_in_use_def)
  moreover have "snd (mutex_resume p (r, {})) = {p}" if "H = {}" for p
    using that room(2) by (cases "m_owner (resource r)") (simp_all add: mutex_defs)
  ultimately show ?thesis using ok room unfolding mutex_ok_def mutex_room.room_ok_def
    by (cases "m_owner (resource r)") auto
qed

text \<open>Process 1 locks, process 2 waits, process 1 unlocks.\<close>

definition handover :: "sc_mutex room \<times> nat set" where
  "handover = mutex_call Unlock 1 (mutex_call Lock 2 (mutex_call Lock 1 (empty_room make_mutex, {})))"

lemma handover_run: "mutex_step\<^sup>*\<^sup>* (empty_room make_mutex, {}) handover"
proof -
  let ?a = "(empty_room make_mutex, {} :: nat set)"
  have 1: "mutex_step ?a (mutex_call Lock 1 ?a)"
    by (rule mutex_step.Call) (simp add: idle_def empty_room_def)
  have 2: "mutex_step (mutex_call Lock 1 ?a) (mutex_call Lock 2 (mutex_call Lock 1 ?a))"
    by (rule mutex_step.Call) (simp add: idle_def empty_room_def make_mutex_def mutex_defs took_def)
  have 3: "mutex_step (mutex_call Lock 2 (mutex_call Lock 1 ?a)) handover"
    unfolding handover_def
    by (rule mutex_step.Call) (simp add: idle_def empty_room_def make_mutex_def mutex_defs took_def slept_def)
  show ?thesis using 1 2 3 by (meson r_into_rtranclp rtranclp.rtrancl_into_rtrancl)
qed

lemma handover_state: "snd handover = {}" "woken (fst handover) = {2}" "takes (fst handover) = 1"
  by (simp_all add: handover_def empty_room_def make_mutex_def mutex_defs took_def slept_def gave_def)

theorem mutex_exclusive_witness:
  "asleep (fst handover) = {} \<and> woken (fst handover) = {2} \<and> snd (mutex_resume 2 handover) = {2}"
proof -
  obtain r H where h: "handover = (r, H)" by fastforce
  from mutex_exclusive [OF handover_run [unfolded h]] handover_state show ?thesis unfolding h by auto
qed

text \<open>
  The value of a semaphore is never negative; it is the initial value, and the number of posts less the
  number of waits that returned; and no process sleeps while it is positive. Posts are assumed not to
  leave the range of \<open>int\<close>.
\<close>
theorem semaphore_counts:
  assumes "make_semaphore v = Inr s" "sem_step\<^sup>*\<^sup>* (empty_room s) r"
  shows "0 \<le> sint (m_value (resource r)) \<and>
    sint (m_value (resource r)) = sint v + int (gives r) - int (takes r) \<and>
    (0 < sint (m_value (resource r)) \<longrightarrow> asleep r = {})"
proof -
  have "sem_ok (nat (sint v)) r" using sem_run_ok [OF assms] .
  moreover have "0 \<le> sint v" using assms(1) by (simp add: make_semaphore_def split: if_splits)
  ultimately show ?thesis unfolding sem_ok_def sem_room.room_ok_def sem_units_def by linarith
qed

theorem semaphore_counts_witness:
  "\<exists>s (r :: sc_semaphore room). make_semaphore 2 = Inr s \<and> takes r = 1 \<and> asleep r = {} \<and> sint (m_value (resource r)) = 1"
proof -
  let ?s = "\<lparr>m_value = 2\<rparr>" and ?r = "sem_call Wait 5 (empty_room \<lparr>m_value = 2\<rparr>)"
  have m: "make_semaphore 2 = Inr ?s" by (simp add: make_semaphore_def)
  have "sem_step (empty_room ?s) ?r" by (rule sem_step.Call) (simp_all add: idle_def empty_room_def)
  then have run: "sem_step\<^sup>*\<^sup>* (empty_room ?s) ?r" by blast
  have "takes ?r = 1" "gives ?r = 0" by (simp_all add: empty_room_def sem_wait_def sem_in_use_def took_def)
  then have "takes ?r = 1 \<and> asleep ?r = {} \<and> sint (m_value (resource ?r)) = 1"
    using semaphore_counts [OF m run] by (simp del: sem_call.simps)
  with m have "make_semaphore 2 = Inr ?s \<and> takes ?r = 1 \<and> asleep ?r = {} \<and> sint (m_value (resource ?r)) = 1" ..
  then show ?thesis by blast
qed

section \<open>Clock\<close>

text \<open>
  C31: Whatever the rest of the simulation does, the edges that a clock has made so far are the first of this
  sequence: an edge at the start time in the direction asked for, after it alternating ones, with the time
  of the duty cycle from a positive to a negative edge and the rest of the period from a negative to a
  positive one. The next edge of the sequence is always notified for its time, its method does not fault,
  and the signal is set to the direction of the last edge.
\<close>
theorem clock_edges:
  assumes "make_clock scale period duty start posedge_first pos neg init_notifier = Inr (c, s)" "pos \<noteq> neg"
    and "clock_step\<^sup>*\<^sup>* (c, s, []) (c', s', es)"
  shows "let edge = clock_edge period (scale period (if duty \<le> 0 \<or> duty \<ge> 1 then 1 / 2 else duty)) start posedge_first;
             (t, v) = edge (length es)
         in es = map edge [0..<length es] \<and> comes (next_event c' v) t s' \<and> m_new_val (clk_signal c') = (\<not> v) \<and>
            (\<forall>u s1. fired (next_event c' v) u s' s1 (next_event c' (\<not> v)) \<longrightarrow> (\<exists>x. run_edge v (c', s1) = Inr x))"
proof -
  have idle: "pending init_notifier e = Idle" for e by (simp add: pending_def init_notifier_def new_event_def)
  have time: "m_curr_time init_notifier = 0" by (simp add: init_notifier_def)
  note start = make_clock_ok [OF init_notifier_ok idle idle assms(2) time assms(1)]
  have ok: "clock_ok (c', s', es)" using clock_run_ok [OF assms(3)] start by simp
  have same: "settings c' = settings c" using clock_run_settings [OF assms(3)] by simp
  have "edge_of c' = clock_edge period (scale period (if duty \<le> 0 \<or> duty \<ge> 1 then 1 / 2 else duty)) start posedge_first"
    unfolding edge_of_def using same start unfolding settings_def by simp
  moreover obtain t v where n: "edge_of c' (length es) = (t, v)" by fastforce
  moreover have "\<exists>x. run_edge v (c', s1) = Inr x"
    if "fired (next_event c' v) u s' s1 (next_event c' (\<not> v))" for u s1
    using run_edge_ok [OF ok n that] by blast
  ultimately show ?thesis using ok by (simp add: clock_ok_def Let_def)
qed

text \<open>A clock of period 10 that is high for 3 of 10 ticks, from time 0 on, and its first edge.\<close>

theorem clock_edges_witness:
  "\<exists>c s c' s'. make_clock (\<lambda>t d. 3) 10 (3 / 10) 0 True 0 1 init_notifier = Inr (c, s) \<and>
    clock_step (c, s, []) (c', s', [(0, True)]) \<and> comes (next_event c' False) 3 s' \<and> m_new_val (clk_signal c')"
proof -
  have idle: "pending init_notifier e = Idle" for e by (simp add: pending_def init_notifier_def new_event_def)
  have none: "ntype init_notifier e = NONE" for e by (simp add: init_notifier_def new_event_def)
  obtain c where c: "clock_init (\<lambda>t d. 3) 10 (3 / 10) 0 True (blank_clock 0 1) = Inr c"
    "m_next_posedge_event c = 0" "m_start_time c = 0"
    by (simp add: clock_init_def blank_clock_def)
  obtain s where s: "notify_internal 0 0 init_notifier = Inr s" "notifier_ok s"
    using notify_internal_achieves [OF init_notifier_ok none, of 0 0] by (auto simp: achieves_def)
  have make: "make_clock (\<lambda>t d. 3) 10 (3 / 10) 0 True 0 1 init_notifier = Inr (c, s)"
    using c s by (simp add: make_clock_def)
  have time: "m_curr_time init_notifier = 0" by (simp add: init_notifier_def)
  have ok: "clock_ok (c, s, [])" "m_period c = 10" "m_start_time c = 0" "m_posedge_first c"
    using make_clock_ok [OF init_notifier_ok idle idle _ time make] by simp_all
  have e0: "edge_of c 0 = (0, True)" using ok by (simp add: edge_of_def clock_edge_def high_at_def)
  have f: "fired (next_event c True) 0 s init_notifier (next_event c (\<not> True))"
    using ok(1) e0 idle time init_notifier_ok by (simp add: fired_def clock_ok_def)
  obtain s' where s': "run_edge True (c, init_notifier) = Inr (clock_value True c, s')"
    using run_edge_ok [OF ok(1) _ f] e0 by auto
  have step: "clock_step (c, s, []) (clock_value True c, s', [] @ [(0, True)])"
    using f s' by (intro clock_step.Pos) (simp_all add: run_edge_def next_event_def)
  then have "clock_step\<^sup>*\<^sup>* (c, s, []) (clock_value True c, s', [(0, True)])" by auto
  from clock_edges [OF make _ this] show ?thesis using make step
    by (auto simp: clock_edge_def high_at_def)
qed

end
