(* ===== verification/Test_Bench.thy ===== *)
theory Test_Bench
  imports System_Properties
begin

text \<open>
  The program, \<open>src/test/noc.cpp\<close>: \<open>sc_main\<close> reads its arguments, builds the network, the tracer and
  one stream generator per input, and starts the simulation. The waveform files are not modelled; the
  strings \<open>argv\<close> are lists of characters and \<open>atoi\<close> is the one of the GNU C library.
\<close>

section \<open>Reading the arguments\<close>

definition is_space :: "char \<Rightarrow> bool" where
  "is_space c \<longleftrightarrow> c = CHR '' '' \<or> (9 \<le> (of_char c :: nat) \<and> (of_char c :: nat) \<le> 13)"

definition is_digit :: "char \<Rightarrow> bool" where
  "is_digit c \<longleftrightarrow> 48 \<le> (of_char c :: nat) \<and> (of_char c :: nat) < 58"

text \<open>\<open>(int) strtol(s, NULL, 10)\<close>: the value is limited to the range of \<open>long\<close>, then truncated.\<close>

definition strtol :: "string \<Rightarrow> int" where
  "strtol s =
     (let t = dropWhile is_space s;
          (neg, u) = (case t of [] \<Rightarrow> (False, [])
            | c # cs \<Rightarrow> if c = CHR ''-'' then (True, cs) else if c = CHR ''+'' then (False, cs) else (False, t));
          v = int (read_nat (takeWhile is_digit u) 0)
      in if neg then max (- (2 ^ 63)) (- v) else min (2 ^ 63 - 1) v)"

definition atoi :: "string \<Rightarrow> i32" where
  "atoi s = word_of_int (strtol s)"

text \<open>The six parameters; each \<open>int\<close> is converted to \<open>unsigned\<close>.\<close>

record bench =
  b_input :: u32
  b_output :: u32
  b_fifo_depth :: u32
  b_mode :: u32
  b_time :: u32
  b_period :: u32

datatype started = Exit nat | Run bench

definition read_args :: "string list \<Rightarrow> bench" where
  "read_args argv = \<lparr>b_input = atoi (argv ! 1), b_output = atoi (argv ! 2), b_fifo_depth = atoi (argv ! 3),
     b_mode = atoi (argv ! 4), b_time = atoi (argv ! 5), b_period = atoi (argv ! 6)\<rparr>"

definition sc_main_args :: "string list \<Rightarrow> started" where
  "sc_main_args argv =
     (if length argv < 7 then Exit 1
      else let b = read_args argv
        in if b_mode b \<ge> ucast (mode_code ARBITER_MODE_LAST) then Exit 2 else Run b)"

definition output_basename :: "bench \<Rightarrow> string" where
  "output_basename b = ''noc_'' @
     show_nat (unat (b_input b)) @ ''_'' @ show_nat (unat (b_output b)) @ ''_'' @
     show_nat (unat (b_fifo_depth b)) @ ''_'' @ show_nat (unat (b_mode b)) @ ''_'' @
     show_nat (unat (b_time b)) @ ''_'' @ show_nat (unat (b_period b))"

section \<open>Building the test bench\<close>

text \<open>
  One generator: the fields its constructor leaves uninitialised hold \<open>junk i\<close>; \<open>nb_output\<close> becomes a
  \<open>uint8_t\<close>, and the life time of an address has its default.
\<close>

definition make_generator ::
  "'w env \<Rightarrow> (nat \<Rightarrow> u32 \<times> u8 \<times> u8) \<Rightarrow> bench \<Rightarrow> nat \<Rightarrow> stream_generator list \<times> 'w \<Rightarrow>
    (stream_generator list \<times> 'w) result"
where
  "make_generator e junk b i gw =
     (let (ml, a, l) = junk i
      in bind_result (set_address_properties e 0 (ucast (b_output b)) 20 (make_stream ml a l, snd gw))
           (\<lambda>(g, w). Inr (fst gw @ [set_period (b_period b) g], w)))"

definition start_bench :: "'w env \<Rightarrow> (nat \<Rightarrow> u32 \<times> u8 \<times> u8) \<Rightarrow> bench \<Rightarrow> 'w \<Rightarrow> 'w system result" where
  "start_bench e junk b w =
     (let ni = unat (b_input b); no = unat (b_output b); depth = unat (b_fifo_depth b)
      in bind_result (make_noc ni no depth) (\<lambda>_.
         bind_result (for_each (make_generator e junk b) [0..<ni] ([], w)) (\<lambda>(gs, w').
           make_system ni no depth (\<lambda>i. gs ! i) w')))"

section \<open>Arguments are read back\<close>

lemma takeWhile_all: "(\<And>x. x \<in> set xs \<Longrightarrow> P x) \<Longrightarrow> takeWhile P xs = xs"
  by (induction xs) auto

lemma strtol_show_nat: "n < 2 ^ 63 \<Longrightarrow> strtol (show_nat n) = int n"
proof -
  assume n: "n < 2 ^ 63"
  obtain c cs where c: "show_nat n = c # cs" using show_nat_nonempty [of n] by (cases "show_nat n") auto
  have d: "is_digit x" if "x \<in> set (show_nat n)" for x using show_nat_digit [OF that] by (simp add: is_digit_def)
  then have "is_digit c" using c by simp
  then have sp: "\<not> is_space c" "c \<noteq> CHR ''-''" "c \<noteq> CHR ''+''" by (auto simp: is_digit_def is_space_def)
  have "takeWhile is_digit (c # cs) = c # cs" using d c by (intro takeWhile_all) auto
  moreover have "read_nat (c # cs) 0 = n" using read_show_nat [of n] c by simp
  ultimately show ?thesis using sp n by (simp add: strtol_def c Let_def)
qed

lemma atoi_show_nat [simp]: "atoi (show_nat (unat w)) = (w :: u32)"
proof -
  have "unat w < 2 ^ 63" by (rule less_trans [OF unsigned_less]) simp
  then show ?thesis by (simp add: atoi_def strtol_show_nat)
qed

definition show_args :: "string \<Rightarrow> bench \<Rightarrow> string list" where
  "show_args prog b = prog # map (\<lambda>w. show_nat (unat w))
     [b_input b, b_output b, b_fifo_depth b, b_mode b, b_time b, b_period b]"

section \<open>Names of the output files\<close>

lemma show_nat_split:
  "show_nat m @ CHR ''_'' # xs = show_nat n @ CHR ''_'' # ys \<Longrightarrow> m = n \<and> xs = ys"
proof -
  assume eq: "show_nat m @ CHR ''_'' # xs = show_nat n @ CHR ''_'' # ys"
  have d: "takeWhile is_digit (show_nat k @ CHR ''_'' # zs) = show_nat k" for k zs
    using show_nat_digit by (subst takeWhile_append2) (auto simp: is_digit_def)
  have "show_nat m = show_nat n" using arg_cong [OF eq, of "takeWhile is_digit"] by (simp only: d)
  with eq show ?thesis using show_nat_inject by simp
qed

text \<open>
  Two runs write to the same files only if all their parameters are equal: the six numbers can be
  read off the name.
\<close>
lemma output_names_distinct:
  "output_basename b = output_basename b' \<longleftrightarrow> b = b'"
proof
  assume eq: "output_basename b = output_basename b'"
  have u: "unat (b_input b) = unat (b_input b') \<and> unat (b_output b) = unat (b_output b') \<and>
    unat (b_fifo_depth b) = unat (b_fifo_depth b') \<and> unat (b_mode b) = unat (b_mode b') \<and>
    unat (b_time b) = unat (b_time b') \<and> unat (b_period b) = unat (b_period b')"
    using eq by (auto simp: output_basename_def dest!: show_nat_split show_nat_inject)
  then have "b_input b = b_input b' \<and> b_output b = b_output b' \<and> b_fifo_depth b = b_fifo_depth b' \<and>
    b_mode b = b_mode b' \<and> b_time b = b_time b' \<and> b_period b = b_period b'"
    by (simp add: word_unat_eq_iff)
  then show "b = b'" by (intro bench.equality) simp_all
qed simp

section \<open>The command line\<close>

lemma atoi_space [simp]: "is_space c \<Longrightarrow> atoi (c # cs) = atoi cs"
  by (simp add: atoi_def strtol_def)

lemma atoi_minus [simp]: "atoi (CHR ''-'' # show_nat (unat w)) = - (w :: u32)"
proof -
  have limit: "max (- (2 ^ 63)) (- int n) = - int n" if "n < 2 ^ 63" for n using that by simp
  have w: "unat w < 2 ^ 63" by (rule less_trans [OF unsigned_less]) simp
  have "takeWhile is_digit (show_nat (unat w)) = show_nat (unat w)"
    using show_nat_digit by (intro takeWhile_all) (auto simp: is_digit_def)
  then have "strtol (CHR ''-'' # show_nat (unat w)) = max (- (2 ^ 63)) (- int (read_nat (show_nat (unat w)) 0))"
    by (simp only: strtol_def) (simp add: is_space_def Let_def takeWhile_all)
  also have "\<dots> = - int (unat w)" using limit [OF w] by (simp only: read_show_nat)
  finally show ?thesis by (simp add: atoi_def)
qed

text \<open>
  C40: The command line. The parameters are read without loss, each over the whole range of \<open>unsigned\<close>, and
  the program goes on exactly when the mode is one of the five arbitration modes; it exits with 2 for any
  other, and with 1 exactly when an argument is missing. White space before a number is passed over, and a
  negative number stands for its value modulo \<open>2 ^ 32\<close>. Two runs write to the same files only if all
  their parameters are equal: the six numbers can be read off the name.
\<close>
theorem arguments_read_back:
  "sc_main_args (show_args prog b) = (if b_mode b < 5 then Run b else Exit 2) \<and>
    (sc_main_args argv = Exit 1 \<longleftrightarrow> length argv < 7) \<and>
    atoi (CHR '' '' # arg) = atoi arg \<and> atoi (CHR ''-'' # show_nat (unat w)) = - w \<and>
    (output_basename b = output_basename b' \<longleftrightarrow> b = b')"
proof (intro conjI)
  show "sc_main_args (show_args prog b) = (if b_mode b < 5 then Run b else Exit 2)"
    by (simp add: sc_main_args_def show_args_def read_args_def Let_def not_less [symmetric])
  show "sc_main_args argv = Exit 1 \<longleftrightarrow> length argv < 7" by (simp add: sc_main_args_def Let_def)
  show "atoi (CHR '' '' # arg) = atoi arg" by (simp add: is_space_def)
qed (simp_all add: output_names_distinct)

section \<open>The test bench builds the network\<close>

lemma make_generator_ok:
  assumes "rand_ok e" "0 < unat (b_output b)" "unat (b_output b) < 256"
  shows "\<exists>g w'. make_generator e junk b i (gs, w) = Inr (gs @ [g], w') \<and> gen_dest (unat (b_output b)) g"
proof -
  obtain ml a l where j: "junk i = (ml, a, l)" by (cases "junk i") auto
  let ?mx = "ucast (b_output b) :: u8"
  have mx: "unat ?mx = unat (b_output b)" using assms(3) by (simp add: unsigned_ucast_eq take_bit_nat_eq_self)
  let ?g = "(make_stream ml a l)\<lparr>address_min := 0, address_max := ?mx, address_max_life_time := 20\<rparr>"
  have lt: "address_min ?g < address_max ?g" using mx assms(2) by (simp add: word_less_nat_alt)
  have "address_max_life_time ?g \<noteq> 0" by simp
  from choose_new_random_address_eq [OF lt this, of e w] obtain a' l' w' where
    r: "choose_new_random_address e (?g, w) = Inr (?g\<lparr>current_address := a', current_address_life_time := l'\<rparr>, w')"
    by blast
  let ?h = "set_period (b_period b) (?g\<lparr>current_address := a', current_address_life_time := l'\<rparr>)"
  have "gen_ok 0 ?mx ?h"
    using choose_new_random_address_range [OF assms(1) lt r] by (simp add: gen_ok_def address_range_def set_period_def)
  then have "gen_dest (unat (b_output b)) ?h"
    unfolding gen_dest_def by (intro exI [of _ 0] exI [of _ ?mx]) (simp add: mx)
  moreover have "make_generator e junk b i (gs, w) = Inr (gs @ [?h], w')"
    using r by (simp add: make_generator_def j set_address_properties_def)
  ultimately show ?thesis by blast
qed

lemma make_generators_ok:
  assumes "rand_ok e" "0 < unat (b_output b)" "unat (b_output b) < 256"
  shows "\<exists>gs' w'. for_each (make_generator e junk b) is (gs, w) = Inr (gs @ gs', w') \<and> length gs' = length is \<and>
    (\<forall>g\<in>set gs'. gen_dest (unat (b_output b)) g)"
proof (induction "is" arbitrary: gs w)
  case (Cons i "is")
  obtain g w1 where g: "make_generator e junk b i (gs, w) = Inr (gs @ [g], w1)" "gen_dest (unat (b_output b)) g"
    using make_generator_ok [OF assms] by blast
  from Cons.IH [of "gs @ [g]" w1] obtain gs' w' where
    "for_each (make_generator e junk b) is (gs @ [g], w1) = Inr (gs @ g # gs', w')" "length gs' = length is"
    "\<forall>g\<in>set gs'. gen_dest (unat (b_output b)) g" by auto
  with g show ?case by (intro exI [of _ "g # gs'"] exI [of _ w']) simp
qed simp

text \<open>
  Started with as many inputs as outputs, at most 128 of each, the program builds its network, its generators
  and the initial state without a fault, whatever the uninitialised fields hold, and the state is one that the
  runs of the network properties start from. \<open>env_ok\<close> asks for callbacks that do not fault; the ones of the
  tracer can, see \<open>Tracer_Properties\<close>.
\<close>
lemma bench_builds_network:
  assumes "env_ok e" and "b_input b = b_output b" and "size_ok (unat (b_output b)) (unat (b_fifo_depth b))"
  shows "\<exists>s0 gens w'. start_bench e junk b w = Inr s0 \<and>
    network_run e (\<lambda>_. ucast (b_mode b)) (unat (b_output b)) (unat (b_fifo_depth b)) gens w' [] s0"
proof -
  let ?n = "unat (b_output b)" and ?d = "unat (b_fifo_depth b)"
  have n: "0 < ?n" "?n \<le> 128" "0 < ?d" using assms(3) by (simp_all add: size_ok_def)
  have "?n * ?n \<le> 128 * 128" using n(2) by (intro mult_le_mono)
  then have nn: "?n < 2 ^ 32" "?n * ?n < 2 ^ 32" using n(2) by auto
  obtain m where m: "build ?n ?n ?d = Inr m" using build_square [OF size_ok_depth [OF assms(3)] n(1) nn] by blast
  then obtain m' where m': "make_noc ?n ?n ?d = Inr m'" by (auto simp: build_def bind_result_eq_Inr)
  have "rand_ok e" using assms(1) by (simp add: env_ok_def)
  from make_generators_ok [OF this n(1), of junk "[0..<?n]" "[]" w] n(2) obtain gs w' where
    g: "for_each (make_generator e junk b) [0..<?n] ([], w) = Inr (gs, w')" "length gs = ?n"
    "\<forall>g\<in>set gs. gen_dest ?n g" by auto
  then have gens: "\<forall>i<?n. gen_dest ?n (gs ! i)" by simp
  obtain s0 where s0: "make_system ?n ?n ?d (\<lambda>i. gs ! i) w' = Inr s0"
    using make_system_inv [OF assms(3) gens, of w'] by blast
  have "start_bench e junk b w = Inr s0" using m' g(1) s0 assms(2) by (simp add: start_bench_def Let_def)
  moreover have "network_run e (\<lambda>_. ucast (b_mode b)) ?n ?d (\<lambda>i. gs ! i) w' [] s0"
    using assms(1,3) gens s0 run_nil unfolding network_run_def by blast
  ultimately show ?thesis by blast
qed

section \<open>Numbers of outputs that do not work\<close>

text \<open>
  With 256 outputs the range of addresses, converted to \<open>uint8_t\<close>, is empty, and the first generator
  divides by zero.
\<close>

lemma outputs_256_divide_by_zero:
  assumes "b_input b = 256" "b_output b = 256" "depth_ok (unat (b_fifo_depth b))"
  shows "start_bench e junk b w = Inl Div_by_zero"
proof -
  have u: "unat (256 :: u32) = 256" by simp
  obtain m where "build 256 256 (unat (b_fifo_depth b)) = Inr m"
    using build_square [OF assms(3), of 256] by auto
  then obtain m' where m': "make_noc 256 256 (unat (b_fifo_depth b)) = Inr m'" by (auto simp: build_def bind_result_eq_Inr)
  have "make_generator e junk b 0 ([], w) = Inl Div_by_zero"
    using assms(2) by (simp add: make_generator_def set_address_properties_def choose_new_random_address_def
      case_prod_unfold Let_def ucast_eq)
  moreover have "[0..<256] = 0 # [1..<256]" by (simp add: upt_conv_Cons)
  ultimately show ?thesis using m' assms(1,2) by (simp add: start_bench_def Let_def u del: upt_rec_numeral)
qed

end
