(* ===== verification/Spec2Isabelle.thy ===== *)
theory Spec2Isabelle
  imports Arbiter_Properties System_Properties Traffic_Properties Channel_Properties Tracer_Properties
    Kernel_Properties Process_Properties Scheduler_Properties Sc_Int_Properties Big_Properties Bits_Properties
    Sync_Properties Test_Bench
begin

text \<open>
  Verification of the network-on-chip simulator in \<open>src/\<close> (the directories \<open>src/src\<close> and
  \<open>src/include/noc\<close>) and of the parts of the SystemC 2.3.0 library in \<open>src/3rd_party\<close> it runs on.

  \<^bold>\<open>The program.\<close> \<open>sc_main\<close> (\<open>src/test/noc.cpp\<close>) builds a network (\<open>noc.cpp\<close>): a router per
  input, an arbiter per output, and a fifo from every router to every arbiter. A traffic generator
  (\<open>traffic_generator.cpp\<close>) hands packets to its router by a four-phase handshake on two boolean
  signals. The router (\<open>router.cpp\<close>) pushes a packet into the fifo of the output its address names.
  The arbiter (\<open>arbiter.cpp\<close>) chooses, at each positive clock edge, one of its fifos by one of five
  policies and forwards its first packet. A tracer (\<open>test/packet_tracer.cpp\<close>) dates the packets by
  callbacks and by watching the outputs. The modules are SystemC modules: their threads wait for
  events of signals, fifos and the clock, and the kernel runs them in delta cycles.

  \<^bold>\<open>Conventions\<close> (\<open>Prelude\<close>). Machine integers are words of their width. An operation that can
  fault returns \<open>fault + 'a\<close>: a failed assertion, an access out of range, a null or dangling pointer,
  a division by zero and a SystemC error report are the faults. Objects that are shared by address
  are maps from numbers, \<open>None\<close> for what is not allocated. A thread is a function from its program
  counter (a datatype with one value per \<open>wait\<close>) and its state to the next \<open>wait\<close>. What is not code
  of the repository is a parameter: \<open>std::rand\<close> and the callbacks are the fields of a record \<open>env\<close>, with
  the hypotheses \<open>rand_ok\<close> (results are not negative), \<open>created_ok\<close> and \<open>marked_ok\<close> (a callback returns
  and keeps address and data).

  \<^bold>\<open>The network.\<close>
  \<^item> \<open>Packet\<close>: \<open>packet.h\<close>, \<open>packet.cpp\<close>, \<open>forward.h\<close>.
  \<^item> \<open>Arbiter\<close>: the registers and the five policies of \<open>arbiter.cpp\<close>, \<open>decide\<close> and \<open>update\<close>;
    \<open>Arbiter_Process\<close>: its threads \<open>process\<close> and \<open>pushed_in_fifo\<close>; \<open>Arbiter_Policies\<close>, \<open>Arbiter_Facts\<close>:
    the locale of an arbitration policy with fairness proved inside it, interpreted on the code's
    policies, the LRU register against the history it stands for, the arrival register against a
    queue; \<open>Arbiter_Properties\<close>: the properties.
  \<^item> \<open>Traffic\<close>, \<open>Traffic_Properties\<close>: the generators of \<open>traffic_generator.cpp\<close>, their address ranges,
    address life and rates.
  \<^item> \<open>Router\<close>, \<open>Link\<close>, \<open>Noc\<close>: \<open>router.cpp\<close>, the handshake of one input, the construction of
    \<open>noc.cpp\<close>.
  \<^item> \<open>System\<close>: the running network, a state of all modules and an inductive step relation: a runnable
    thread runs to its next \<open>wait\<close>, the update phase, the next clock edge; \<open>System_Invariant\<close>: its invariant
    and the preservation by every step, built from the invariants of \<open>Link\<close> and \<open>Arbiter_Process\<close>;
    \<open>System_Properties\<close>: no fault, conservation and order of the packets, routing by address, no
    blocking, for every schedule.
  \<^item> \<open>Tracer\<close>, \<open>Tracer_Properties\<close>: statistics and packet dates of \<open>packet_tracer.cpp\<close>, and the
    use of a freed object when a signal drops a repeated packet.
  \<^item> \<open>Test_Bench\<close>: the arguments of \<open>sc_main\<close> and the names of its output files, the construction of the test
    bench, and that what it builds is a state the runs of \<open>System\<close> start from.

  \<^bold>\<open>The SystemC library.\<close>
  \<^item> \<open>Sc_Fifo\<close>, \<open>Sc_Signal\<close>, \<open>Channel_Properties\<close>: \<open>sc_fifo.h\<close> (ring buffer, blocking calls by
    their wait conditions, update) and \<open>sc_signal.h\<close> with the writer policies.
  \<^item> \<open>Sc_Pq\<close>, \<open>Sc_Pq_Facts\<close>: the binary heap of \<open>sc_pq.cpp\<close>; the locale \<open>comparison\<close> states what it
    needs of its comparison, and it is shown to meet the locale \<open>priority_queue\<close>.
  \<^item> \<open>Sc_Event\<close>, \<open>Sc_Event_Facts\<close>: notifications of events (\<open>sc_event.cpp\<close>) and the two calendars of
    \<open>sc_simcontext\<close>; the abstraction \<open>pending\<close> maps each event to its notification, and every operation
    is shown to be its abstract counterpart, at any current time.
  \<^item> \<open>Sc_Runnable\<close>, \<open>Sc_Runnable_Facts\<close>: the linked queues of \<open>sc_runnable_int.h\<close>; the locale
    \<open>run_queue\<close> is the contract of two lists of processes. \<open>Sc_Prim_Channel\<close>: the update requests of
    \<open>sc_prim_channel.cpp\<close>. \<open>Kernel_Properties\<close>: the properties of these parts.
  \<^item> \<open>Sc_Process\<close>: waiting (\<open>sc_thread_process.h\<close>, \<open>sc_method_process.h\<close>), event lists and \<open>trigger\<close>
    (\<open>sc_event.cpp\<close>); \<open>Sc_Process_Facts\<close>: the invariant \<open>sens_ok\<close>, that a process is in the lists of
    exactly the events its trigger type asks for; \<open>Sc_Trigger_Facts\<close>, \<open>Sc_Trigger_Loop\<close>: one process, then
    the loops of \<open>trigger\<close>, over lists that change while they run; \<open>Sc_Wait_Facts\<close>: the waits;
    \<open>Process_Properties\<close>: the properties.
  \<^item> \<open>Sc_Kernel\<close>: the scheduler of \<open>sc_simcontext.cpp\<close>: the delta cycle of \<open>crunch\<close>, the advance of time of
    \<open>simulate\<close>, \<open>sc_start\<close>, stop and pause, the start of a simulation, the table of processes. What the
    processes and channels of a design do is the record \<open>program\<close>. \<open>Sc_Trigger_Keeps\<close>: the locale
    \<open>trigger_keeps\<close> of what a trigger leaves alone; \<open>Sc_Delta_Facts\<close>: the loop over the delta events against
    a loop over a copy of them; \<open>Sc_Zero_Wait\<close>: the same loop when a thread waits with a time limit of zero, where it
    triggers an event twice; \<open>Sc_Kernel_Facts\<close>: the invariant \<open>kernel_ok\<close> and, for a program whose steps
    keep it and use up a budget or ask for nothing (\<open>program_ok\<close>), that every loop of \<open>crunch\<close> returns;
    \<open>Sc_Time_Facts\<close>: the same for the advance of time; \<open>Scheduler_Properties\<close>: the properties.
  \<^item> \<open>Mask_Table\<close>, \<open>Sc_Int\<close>, \<open>Sc_Int_Properties\<close>: \<open>sc_int64_mask.cpp\<close> (all 2080 constants) and
    \<open>sc_int_base\<close>.
  \<^item> \<open>Sc_Nb\<close>, \<open>Sc_Nb_Div\<close>: the vectors of 30-bit digits of \<open>sc_nbutils.cpp\<close> and its long division;
    \<open>Sc_Nb_Facts\<close>, \<open>Sc_Nb_Mul\<close>, \<open>Sc_Nb_Shift\<close>, \<open>Sc_Nb_Div_Facts\<close>: \<open>dval\<close>, the natural number a vector stands
    for, and that every operation on vectors is the operation on these numbers.
  \<^item> \<open>Sc_Big\<close>, \<open>Sc_Big_Arith\<close>, \<open>Sc_Big_Bits\<close>, \<open>Sc_Big_Assign\<close>: \<open>sc_signed\<close> and \<open>sc_unsigned\<close>, written once with
    a flag for the class as the sources do with \<open>CLASS_TYPE\<close>: conversions between sign and magnitude and two's
    complement, operators (\<open>sc_nbfriends.inc\<close>, \<open>sc_signed.cpp\<close>), compound assignments (\<open>sc_nbexterns.cpp\<close>,
    \<open>sc_nbcommon.inc\<close>). \<open>Sc_Big_Facts\<close>: the value \<open>big_val\<close>, the invariant \<open>normal\<close>, and \<open>wrap\<close>, what a width makes
    of an integer; \<open>Sc_Big_Arith_Facts\<close>, \<open>Sc_Big_Ops_Facts\<close>, \<open>Sc_Big_Bits_Facts\<close> (the locale \<open>bit_op\<close> of an operation
    that works on each bit alone), \<open>Sc_Big_Shift_Facts\<close>, \<open>Sc_Big_Assign_Facts\<close>: every operator against the
    integers; \<open>Big_Properties\<close>: the properties. Shift counts are \<open>unsigned long\<close> as in the code, and \<open>shift_count\<close> is
    their conversion to \<open>int\<close>; a width that does not fit an \<open>int\<close> is \<open>Out_of_range\<close>. Numbers of bits are natural
    numbers: operators whose result would have \<open>2 ^ 31\<close> bits or more are outside of the model. The comparisons of
    \<open>sc_unsigned\<close> have bodies of their own, shown to agree with those of \<open>sc_signed\<close>.

  \<^item> \<open>Sc_Logic\<close>, \<open>Sc_Lv\<close>: the logic values and their tables (\<open>sc_logic.h\<close>, \<open>sc_bit.h\<close>), bit and logic vectors as
    arrays of data and control words (\<open>sc_bv_base\<close>, \<open>sc_lv_base\<close>). \<open>Sc_Proxy\<close>: the classes of \<open>sc_bit_proxies.h\<close>, a
    bit, a part, a concatenation, as records of the operations they offer on a store of vectors. \<open>Sc_Proxy_Facts\<close>:
    the locale \<open>writable\<close>, what such a class promises (it stands for a list of places of the store, its words are
    the words of this list, nothing else changes), its weaker form \<open>readable\<close>, and that whole vectors keep the
    promise and selections of what keeps it do. \<open>Sc_Proxy_Ops\<close>: the operations of \<open>sc_proxy.h\<close> and the operators of
    \<open>sc_lv_base.h\<close>; \<open>Sc_Proxy_Ops_Facts\<close>, \<open>Sc_Proxy_Shift_Facts\<close>, \<open>Sc_Proxy_Vector_Facts\<close>, \<open>Sc_Proxy_Text_Facts\<close>: each
    of them as an operation on lists of values, proved once inside the locales; \<open>Sc_Selection\<close>: selections nested in
    any way, and \<open>overlap_value\<close>, what a copy by words reads when its source and target share places;
    \<open>Bits_Properties\<close>: the properties.
  \<^item> \<open>Sc_Event_Queue\<close>: \<open>sc_event_queue.cpp\<close> on the queue of \<open>Sc_Pq\<close> and the events of \<open>Sc_Event\<close>, its runs with a ledger
    of the times asked for, and their invariant (no notification between \<open>cancel_all\<close> and a run of \<open>fire_event\<close> that
    is due, where the code's assertion fails); \<open>Sc_Resolved\<close>: \<open>sc_signal_resolved.cpp\<close>; \<open>Sc_Locks\<close>: \<open>sc_mutex.cpp\<close>
    and \<open>sc_semaphore.cpp\<close>, two instances of the locale \<open>waiting_room\<close> in which no wake-up is lost; \<open>Sc_Clock\<close>:
    \<open>sc_clock.cpp\<close>, the clock with its two events, against the sequence of its edges (in \<open>System\<close> the clock is
    the alternating signal of this sequence); \<open>Sync_Properties\<close>: the properties.

  \<^bold>\<open>Interfaces.\<close> The locales (\<open>comparison\<close>, \<open>priority_queue\<close>, \<open>run_queue\<close>, \<open>bit_op\<close>, \<open>writable\<close>, \<open>waiting_room\<close>,
  the arbitration policies) are interpreted on the definitions of the code in the theory that provides them.

  \<^bold>\<open>Bounds and termination.\<close> Loops over indices are structural; the loop of \<open>trigger\<close>, the heap and
  \<open>next_time\<close> have termination measures; searches along links (\<open>search\<close>) and the loops over queues of the
  update phase and of the scheduler are partial functions, for which the properties prove a result on every well-formed
  list. The only fuel is that of \<open>simulate\<close> in \<open>System\<close>, which runs the step relation on concrete
  networks; no property depends on it. The scheduler's loops end by a lexicographic measure of the time
  left, the budget of the program and the number of queued processes and notifications. The network properties hold for square networks with at most 128 inputs
  (\<open>size_ok\<close>); beyond that the 8-bit fields of the arbiter lose entries, which is proved as well.

  \<^bold>\<open>Not modelled.\<close> Suspending, disabling and killing
  processes; elaboration, names and port binding (the network model is built bound); coroutines and
  their stacks; time values as doubles; reports and waveform files; the data types the simulator does
  not use (fixed point; of the integers of any width the overloads for the other built-in types, the
  selects of bits and parts and the strings; of the logic vectors the streams, the formatted strings, which go
  through the fixed-point classes and are the parameter \<open>fix_to_bin\<close> where they are read, the wrappers that convert
  an operand, and the constructors of the proxies), resolved vector signals (\<open>sc_signal_rv.h\<close>), TLM; the VHDL sources and scripts. Warnings are not
  modelled. In \<open>System\<close> the kernel is abstracted to: any runnable thread may run next, and the update phase happens
  when none is runnable; and a signal is written without the test of its writer policy (\<open>signal_write\<close> in
  \<open>Sc_Signal\<close>), since each signal of the network has one writing thread.
\<close>

end
